(* ===== verification/Prelude.thy ===== *)
theory Prelude
  imports Main "HOL-Library.Word" "HOL-Library.Char_ord" "HOL-Library.List_Lexorder" "HOL-Library.AList"
begin

unbundle bit_operations_syntax

text \<open>
  Shared vocabulary of the development: names for Go's machine types, the named collections of
  rewrite rules the component theories fill and use, and the generic facts about words, lists and
  association lists that several components share.
\<close>

section \<open>Machine types\<close>

type_synonym u8 = "8 word"
type_synonym u16 = "16 word"
type_synonym u32 = "32 word"
type_synonym u64 = "64 word"
type_synonym byte = "8 word"
type_synonym slot6 = "6 word"
type_synonym index7 = "7 word"

named_theorems word_split \<open>how identifiers decompose into page key, bucket, shard and slot\<close>
named_theorems view_simps \<open>how an operation changes the abstract view of its component\<close>

section \<open>Bit iteration\<close>

text \<open>
  Go walks the set bits of a word with
  \<^verbatim>\<open>for x := w; x != 0; x &= x - 1 { slot := bits.TrailingZeros64(x); ... }\<close>.
  \<open>trailing_zeros\<close> is \<^verbatim>\<open>bits.TrailingZeros64\<close> and \<open>bit_slots\<close> is the list of slots
  such a loop visits, in its order.
\<close>

definition trailing_zeros :: "u64 \<Rightarrow> nat" where
  "trailing_zeros w = length (takeWhile (\<lambda>i. \<not> bit w i) [0..<64])"

lemma and_minus_one_less:
  fixes w :: u64
  assumes "w \<noteq> 0"
  shows "unat (w AND (w - 1)) < unat w"
proof -
  have "unat (w AND (w - 1)) \<le> unat (w - 1)"
    by (rule word_and_le1 [THEN word_le_nat_alt [THEN iffD1]])
  also have "\<dots> < unat w"
    using assms by (simp add: unat_minus_one unat_gt_0)
  finally show ?thesis .
qed

function bit_slots :: "u64 \<Rightarrow> nat list" where
  "bit_slots w = (if w = 0 then [] else trailing_zeros w # bit_slots (w AND (w - 1)))"
  by pat_completeness auto
termination
  by (relation "measure unat") (auto simp: and_minus_one_less)

declare bit_slots.simps [simp del]

lemma takeWhile_upt_least:
  assumes "P k" "\<And>i. i < k \<Longrightarrow> \<not> P i" "k < n"
  shows "takeWhile (\<lambda>i. \<not> P i) [0..<n] = [0..<k]"
proof -
  have "[0..<n] = [0..<k] @ k # [Suc k..<n]"
    using assms(3) by (metis upt_add_eq_append upt_conv_Cons le_add_diff_inverse less_imp_le_nat zero_le)
  then show ?thesis using assms(1,2) by (simp add: takeWhile_append2 takeWhile_tail)
qed

lemma word_exists_bit:
  fixes w :: u64
  assumes "w \<noteq> 0"
  shows "\<exists>i < 64. bit w i"
proof (rule ccontr)
  assume "\<not> ?thesis"
  then have "w = 0" by (intro bit_word_eqI) auto
  with assms show False by simp
qed

lemma trailing_zeros_props:
  assumes "w \<noteq> 0"
  shows "trailing_zeros w < 64" "bit w (trailing_zeros w)" "\<And>i. i < trailing_zeros w \<Longrightarrow> \<not> bit w i"
proof -
  define k where "k = (LEAST i. bit w i)"
  obtain j where j: "j < 64" "bit w j" using word_exists_bit [OF assms] by blast
  have k: "bit w k" "k \<le> j" "\<And>i. i < k \<Longrightarrow> \<not> bit w i"
    unfolding k_def using j(2) by (auto intro: LeastI Least_le dest: not_less_Least)
  have "trailing_zeros w = k"
    unfolding trailing_zeros_def using takeWhile_upt_least [of "bit w" k 64] k j(1) by simp
  with k j show "trailing_zeros w < 64" "bit w (trailing_zeros w)"
    "\<And>i. i < trailing_zeros w \<Longrightarrow> \<not> bit w i" by auto
qed

lemma bit_and_minus_one:
  fixes w :: u64
  assumes "w \<noteq> 0"
  shows "bit (w AND (w - 1)) i \<longleftrightarrow> bit w i \<and> i \<noteq> trailing_zeros w"
proof -
  define k where "k = trailing_zeros w"
  have k: "k < 64" "bit w k" "\<And>i. i < k \<Longrightarrow> \<not> bit w i"
    using trailing_zeros_props [OF assms] by (simp_all add: k_def)
  define s where "s = Suc k"
  have below: "i < s \<longleftrightarrow> i < k \<or> i = k" for i by (auto simp: s_def)
  define h where "h = push_bit s (drop_bit s w)"
  have bit_h: "bit h i \<longleftrightarrow> bit w i \<and> \<not> i < s" for i
    by (auto simp: h_def bit_simps dest: bit_imp_le_length)
  have w: "w = h + push_bit k 1"
  proof -
    have "w = h OR push_bit k 1"
      using k by (intro bit_word_eqI) (auto simp: bit_h bit_simps below)
    also have "\<dots> = h + push_bit k 1"
      using k(1) by (intro disjunctive_add [symmetric]) (auto simp: bit_h bit_simps below)
    finally show ?thesis .
  qed
  have "w - 1 = h + mask k"
    unfolding w by (simp add: mask_eq_exp_minus_1 push_bit_eq_mult)
  also have "\<dots> = h OR mask k"
    by (intro disjunctive_add) (auto simp: bit_h bit_simps below)
  finally have w1: "w - 1 = h OR mask k" .
  have "w AND (w - 1) = h"
    unfolding w1 using k by (intro bit_word_eqI) (auto simp: bit_h bit_simps)
  then show ?thesis
    using k by (auto simp: bit_h k_def [symmetric] below)
qed

lemma filter_upt_least:
  assumes "P k" "\<And>i. i < k \<Longrightarrow> \<not> P i" "k < n"
  shows "filter P [0..<n] = k # filter (\<lambda>i. P i \<and> i \<noteq> k) [0..<n]"
proof -
  have u: "[0..<n] = [0..<k] @ k # [Suc k..<n]"
    using assms(3) by (metis upt_add_eq_append upt_conv_Cons le_add_diff_inverse less_imp_le_nat zero_le)
  have "filter P [0..<k] = []" "filter (\<lambda>i. P i \<and> i \<noteq> k) [0..<k] = []"
    using assms(2) by (auto simp: filter_empty_conv)
  moreover have "filter (\<lambda>i. P i \<and> i \<noteq> k) [Suc k..<n] = filter P [Suc k..<n]"
    by (rule filter_cong) auto
  ultimately show ?thesis using assms(1) by (simp add: u)
qed

text \<open>The bit trick visits exactly the set bits, in ascending order.\<close>

lemma bit_slots_eq: "bit_slots w = filter (bit w) [0..<64]"
proof (induction w rule: bit_slots.induct)
  case (1 w)
  show ?case
  proof (cases "w = 0")
    case True
    then show ?thesis by (simp add: bit_slots.simps)
  next
    case False
    with 1 have "bit_slots w = trailing_zeros w # filter (bit (w AND (w - 1))) [0..<64]"
      by (simp add: bit_slots.simps [of w])
    also have "\<dots> = trailing_zeros w # filter (\<lambda>i. bit w i \<and> i \<noteq> trailing_zeros w) [0..<64]"
      by (auto intro!: filter_cong simp: bit_and_minus_one [OF False])
    also have "\<dots> = filter (bit w) [0..<64]"
      using trailing_zeros_props [OF False] by (intro filter_upt_least [symmetric])
    finally show ?thesis .
  qed
qed

section \<open>Shifts and masks as arithmetic\<close>

lemma unat_word_of_nat_less: "n < 2 ^ LENGTH('a::len) \<Longrightarrow> unat (word_of_nat n :: 'a word) = n"
  by (simp add: unat_of_nat)

lemma unat_drop_bit_div: "unat (drop_bit n w) = unat w div 2 ^ n"
  by (subst unat_drop_bit_eq) (rule drop_bit_eq_div)

lemma unat_ucast_mod: "unat (ucast (w :: 'a::len word) :: 'b::len word) = unat w mod 2 ^ LENGTH('b)"
  by (simp only: unsigned_ucast_eq take_bit_eq_mod)

lemma unat_bounds:
  "unat (a :: u64) < 18446744073709551616" "unat (b :: index7) < 128" "unat (c :: slot6) < 64"
  "unat (d :: byte) < 256"
  using unsigned_less [of a] unsigned_less [of b] unsigned_less [of c] unsigned_less [of d] by simp_all

lemma bit_less_exp:
  fixes x :: "'a::len word"
  assumes "unat x < 2 ^ n" "bit x i"
  shows "i < n"
proof -
  have "take_bit n (unat x) = unat x" using assms(1) by (simp add: take_bit_nat_eq_self)
  moreover have "bit (unat x) i" using assms(2) by (simp add: bit_unsigned_iff)
  ultimately show ?thesis by (metis bit_take_bit_iff)
qed

lemma unat_push_bit_or:
  fixes h x :: u64
  assumes "unat x < 2 ^ n" "unat h < 2 ^ (64 - n)" "n < 64"
  shows "unat (push_bit n h OR x) = unat h * 2 ^ n + unat x"
proof -
  have "unat h * 2 ^ n + unat x < (unat h + 1) * 2 ^ n" using assms(1) by simp
  also have "\<dots> \<le> 2 ^ (64 - n) * 2 ^ n" using assms(2) by (intro mult_right_mono) auto
  also have "\<dots> = 2 ^ 64" using assms(3) by (simp flip: power_add)
  finally have b: "unat h * 2 ^ n + unat x < 2 ^ 64" .
  have "push_bit n h OR x = push_bit n h + x"
    using bit_less_exp [OF assms(1)] by (intro disjunctive_add [symmetric]) (force simp: bit_simps)
  also have "\<dots> = word_of_nat (unat h * 2 ^ n + unat x)"
    by (simp add: push_bit_eq_mult)
  also have "unat \<dots> = unat h * 2 ^ n + unat x"
    using b by (intro unat_word_of_nat_less) simp
  finally show ?thesis .
qed

lemma div_mod_128: "(k :: nat) div 16384 * 16384 + k div 128 mod 128 * 128 + k mod 128 = k"
proof -
  have "k div 16384 = k div 128 div 128" by (simp add: div_mult2_eq [symmetric])
  moreover have "k div 128 div 128 * 128 + k div 128 mod 128 = k div 128" by simp
  moreover have "k div 128 * 128 + k mod 128 = k" by simp
  ultimately show ?thesis by linarith
qed

lemma div_mod_128_join:
  fixes h b s :: nat
  assumes "b < 128" "s < 128"
  shows "(h * 16384 + b * 128 + s) div 16384 = h" "(h * 16384 + b * 128 + s) div 128 mod 128 = b"
    "(h * 16384 + b * 128 + s) mod 128 = s"
proof -
  have e: "h * 16384 + b * 128 + s = (h * 128 + b) * 128 + s" by simp
  have d: "(h * 16384 + b * 128 + s) div 128 = h * 128 + b" unfolding e using assms by simp
  show "(h * 16384 + b * 128 + s) mod 128 = s"
    unfolding e mod_mult_self3 using assms by (intro mod_less)
  show "(h * 16384 + b * 128 + s) div 128 mod 128 = b" unfolding d using assms by simp
  have "(h * 16384 + b * 128 + s) div 16384 = (h * 16384 + b * 128 + s) div 128 div 128"
    by (simp add: div_mult2_eq [symmetric])
  then show "(h * 16384 + b * 128 + s) div 16384 = h" unfolding d using assms by simp
qed

section \<open>Partial maps\<close>

lemma fun_upd_not_empty [simp]: "f(x \<mapsto> y) \<noteq> (\<lambda>_. None)"
  by (metis fun_upd_same option.distinct(1))

section \<open>Lists\<close>

lemma length_filter_mono:
  "(\<And>x. Q x \<Longrightarrow> P x) \<Longrightarrow> length (filter Q xs) \<le> length (filter P xs)"
  by (induction xs) auto

lemma length_filter_strict:
  assumes "\<And>y. Q y \<Longrightarrow> P y" "x \<in> set xs" "P x" "\<not> Q x"
  shows "length (filter Q xs) < length (filter P xs)"
proof -
  obtain ys zs where "xs = ys @ x # zs" using assms(2) by (meson split_list)
  then show ?thesis
    using assms length_filter_mono [of Q P ys] length_filter_mono [of Q P zs] by simp
qed

section \<open>Lists and options\<close>

lemma sum_list_concat: "sum_list (concat xss) = sum_list (map sum_list xss)"
  by (induction xss) auto

lemma concat_map_nil [simp]: "concat (map (\<lambda>_. []) xs) = []"
  by (induction xs) auto

lemma map_option_self [simp]: "map_option (\<lambda>x. x) = (\<lambda>x. x)"
  by (simp add: fun_eq_iff option.map_ident)

lemma card_dom_put:
  fixes f :: "u64 \<Rightarrow> 'v option"
  shows "card (dom (f(k \<mapsto> v))) = (if f k = None then card (dom f) + 1 else card (dom f))"
  by (auto simp: card_insert_if domIff insert_absorb)

lemma card_dom_remove:
  fixes f :: "u64 \<Rightarrow> 'v option"
  assumes "f k \<noteq> None"
  shows "int (card (dom (f(k := None)))) = int (card (dom f)) - 1"
proof -
  have k: "k \<in> dom f" using assms by blast
  then have "card (dom f) > 0" by (auto simp: card_gt_0_iff)
  with k show ?thesis by (simp add: card_Diff_singleton)
qed

lemma set_delete: "set (AList.delete k l) \<subseteq> set l"
  by (induction l) auto

section \<open>Binary search\<close>

text \<open>
  The loop of \<^verbatim>\<open>slices.BinarySearch\<close> and of the hand-written searches: the least index at which \<open>below\<close> fails, for a test
  that holds on a prefix.
\<close>

function bsearch :: "(nat \<Rightarrow> bool) \<Rightarrow> nat \<Rightarrow> nat \<Rightarrow> nat" where
  "bsearch below i j =
     (if i < j then let h = (i + j) div 2 in if below h then bsearch below (h + 1) j else bsearch below i h
      else i)"
  by pat_completeness auto
termination
  by (relation "measure (\<lambda>(below, i, j). j - i)") auto

declare bsearch.simps [simp del]

lemma bsearch_bounds:
  assumes "\<And>a b. a \<le> b \<Longrightarrow> b < n \<Longrightarrow> below b \<Longrightarrow> below a"
    and "i \<le> j" "j \<le> n" "\<forall>k < i. below k" "\<forall>k < n. j \<le> k \<longrightarrow> \<not> below k"
  shows "bsearch below i j \<le> n \<and> (\<forall>k < bsearch below i j. below k) \<and> (\<forall>k < n. bsearch below i j \<le> k \<longrightarrow> \<not> below k)"
  using assms
proof (induction below i j rule: bsearch.induct)
  case (1 below i j)
  note mono = "1.prems"(1)
  show ?case
  proof (cases "i < j")
    case False
    then have "bsearch below i j = i" by (simp add: bsearch.simps [of below i j])
    then show ?thesis using "1.prems" False by auto
  next
    case True
    define h where "h = (i + j) div 2"
    have h: "i \<le> h" "h < j" "h < n" using True "1.prems"(2,3) by (auto simp: h_def)
    show ?thesis
    proof (cases "below h")
      case lt: True
      have b: "\<forall>k < h + 1. below k" using mono [of _ h] h lt by (simp add: less_Suc_eq_le)
      have e: "bsearch below i j = bsearch below (h + 1) j" using True lt by (simp add: bsearch.simps [of below i j] h_def Let_def)
      show ?thesis unfolding e using "1.IH"(1) [OF True h_def lt mono _ "1.prems"(3) b "1.prems"(5)] h by simp
    next
      case ge: False
      have b: "\<forall>k < n. h \<le> k \<longrightarrow> \<not> below k" using mono [of h] ge by blast
      have e: "bsearch below i j = bsearch below i h" using True ge by (simp add: bsearch.simps [of below i j] h_def Let_def)
      show ?thesis unfolding e using "1.IH"(2) [OF True h_def ge mono h(1) _ "1.prems"(4) b] h by simp
    qed
  qed
qed

lemma bsearch_takeWhile:
  assumes "\<And>a b. a \<le> b \<Longrightarrow> b < length xs \<Longrightarrow> P (xs ! b) \<Longrightarrow> P (xs ! a)"
  shows "bsearch (\<lambda>h. P (xs ! h)) 0 (length xs) = length (takeWhile P xs)"
proof -
  define i where "i = bsearch (\<lambda>h. P (xs ! h)) 0 (length xs)"
  have i: "i \<le> length xs \<and> (\<forall>k < i. P (xs ! k)) \<and> (\<forall>k < length xs. i \<le> k \<longrightarrow> \<not> P (xs ! k))"
    unfolding i_def using assms by (intro bsearch_bounds) auto
  then have "takeWhile P xs = take i xs" by (intro takeWhile_eq_take_P_nth) auto
  then show ?thesis using i by (simp add: i_def [symmetric])
qed

end
