(* ===== verification/GoBytes.thy ===== *)
theory GoBytes
  imports Prelude
begin

unbundle bit_operations_syntax

text \<open>
  The parts of Go's standard library the codecs use, on byte lists: \<^verbatim>\<open>encoding/binary\<close> varints and
  big-endian words, \<^verbatim>\<open>utf8.Valid\<close>, \<^verbatim>\<open>math.IsNaN\<close> and \<^verbatim>\<open>math.IsInf\<close> on the bit patterns of floats, and
  the error values the store returns. A Go string is a \<^typ>\<open>string\<close> whose characters are its bytes.
\<close>

section \<open>Errors\<close>

text \<open>
  The errors of the store, with the sentinel a caller can test by \<^verbatim>\<open>errors.Is\<close> as the constructor.
  \<open>ErrPanic\<close> stands for a run-time panic (an index or slice out of range): it is never returned as an
  error by the Go code and theorems below show where it cannot arise.
\<close>

datatype gerr =
    ErrLoadResourceLimit string
  | ErrValueLimit string
  | ErrEOF
  | ErrUnexpectedEOF
  | ErrShortWrite
  | ErrVarintOverflow
  | ErrMsg string
  | ErrPanic
  | ErrClosed
  | ErrReadOnly
  | ErrActiveTransactions
  | ErrWriterActive
  | ErrSnapshotGrowth
  | ErrSnapshotWriteLimit
  | ErrInvalidOptions
  | ErrValueTooLarge
  | ErrWrap string gerr

section \<open>Strings as bytes\<close>

definition byte_of_char :: "char \<Rightarrow> byte" where
  "byte_of_char c = word_of_nat (of_char c)"

definition char_of_byte :: "byte \<Rightarrow> char" where
  "char_of_byte b = char_of (unat b)"

abbreviation string_bytes :: "string \<Rightarrow> byte list" where
  "string_bytes s \<equiv> map byte_of_char s"

abbreviation bytes_string :: "byte list \<Rightarrow> string" where
  "bytes_string bs \<equiv> map char_of_byte bs"

lemma char_of_byte_of_char [simp]: "char_of_byte (byte_of_char c) = c"
proof -
  have "(of_char c :: nat) < 256" by simp
  then have "unat (byte_of_char c) = (of_char c :: nat)"
    unfolding byte_of_char_def by (simp add: unat_word_of_nat_less)
  then show ?thesis by (simp add: char_of_byte_def)
qed

lemma byte_of_char_of_byte [simp]: "byte_of_char (char_of_byte b) = b"
  by (simp add: byte_of_char_def char_of_byte_def of_char_of take_bit_eq_mod unat_bounds)

lemma char_byte_comp [simp]: "char_of_byte \<circ> byte_of_char = id" "byte_of_char \<circ> char_of_byte = id"
  by (simp_all add: fun_eq_iff)

lemma bytes_string_bytes [simp]: "bytes_string (string_bytes s) = s"
  by (simp add: o_def)

lemma string_bytes_string [simp]: "string_bytes (bytes_string bs) = bs"
  by (simp add: o_def)

section \<open>UTF-8\<close>

text \<open>\<^verbatim>\<open>utf8.Valid\<close>: the well-formed byte sequences of the Unicode standard.\<close>

definition cont_in :: "byte \<Rightarrow> byte \<Rightarrow> byte \<Rightarrow> bool" where
  "cont_in lo hi b \<longleftrightarrow> lo \<le> b \<and> b \<le> hi"

fun utf8_valid :: "byte list \<Rightarrow> bool" where
  "utf8_valid [] = True"
| "utf8_valid (b0 # bs) =
     (if b0 < 0x80 then utf8_valid bs
      else if cont_in 0xC2 0xDF b0 then
        (case bs of b1 # r \<Rightarrow> cont_in 0x80 0xBF b1 \<and> utf8_valid r | _ \<Rightarrow> False)
      else if cont_in 0xE0 0xEF b0 then
        (case bs of b1 # b2 # r \<Rightarrow>
           cont_in (if b0 = 0xE0 then 0xA0 else 0x80) (if b0 = 0xED then 0x9F else 0xBF) b1 \<and>
           cont_in 0x80 0xBF b2 \<and> utf8_valid r
         | _ \<Rightarrow> False)
      else if cont_in 0xF0 0xF4 b0 then
        (case bs of b1 # b2 # b3 # r \<Rightarrow>
           cont_in (if b0 = 0xF0 then 0x90 else 0x80) (if b0 = 0xF4 then 0x8F else 0xBF) b1 \<and>
           cont_in 0x80 0xBF b2 \<and> cont_in 0x80 0xBF b3 \<and> utf8_valid r
         | _ \<Rightarrow> False)
      else False)"

definition utf8_string :: "string \<Rightarrow> bool" where
  "utf8_string s = utf8_valid (string_bytes s)"

section \<open>Floats as bit patterns\<close>

definition finite64 :: "u64 \<Rightarrow> bool" where
  "finite64 w \<longleftrightarrow> (drop_bit 52 w) AND 0x7FF \<noteq> 0x7FF"

definition finite32 :: "u32 \<Rightarrow> bool" where
  "finite32 w \<longleftrightarrow> (drop_bit 23 w) AND 0xFF \<noteq> 0xFF"

section \<open>Varints\<close>

text \<open>\<^verbatim>\<open>binary.PutUvarint\<close>, \<^verbatim>\<open>binary.Uvarint\<close> and their zigzag versions.\<close>

function put_uvarint :: "u64 \<Rightarrow> byte list" where
  "put_uvarint x = (if 0x80 \<le> x then (ucast x OR 0x80) # put_uvarint (drop_bit 7 x) else [ucast x])"
  by pat_completeness auto
termination
proof (relation "measure unat", simp, simp)
  fix x :: u64
  assume "0x80 \<le> x"
  then have "unat x > 0" by (simp add: word_le_nat_alt)
  then show "unat (drop_bit 7 x) < unat x" by (simp add: unat_drop_bit_div)
qed

declare put_uvarint.simps [simp del]

text \<open>
  The result of \<open>uvarint\<close> is the value with the number of bytes consumed, \<open>Inl False\<close> when the buffer
  is too short (Go's count 0) and \<open>Inl True\<close> when the number overflows 64 bits (a negative count).
\<close>

fun uvarint_loop :: "nat \<Rightarrow> u64 \<Rightarrow> nat \<Rightarrow> byte list \<Rightarrow> bool + u64 \<times> nat" where
  "uvarint_loop i x s [] = Inl False"
| "uvarint_loop i x s (b # bs) =
     (if i = 10 then Inl True
      else if b < 0x80 then
        (if i = 9 \<and> b > 1 then Inl True else Inr (x OR push_bit s (ucast b), i + 1))
      else uvarint_loop (i + 1) (x OR push_bit s (ucast (b AND 0x7F))) (s + 7) bs)"

definition uvarint :: "byte list \<Rightarrow> bool + u64 \<times> nat" where
  "uvarint bs = uvarint_loop 0 0 0 bs"

definition zigzag :: "u64 \<Rightarrow> u64" where
  "zigzag x = (let ux = push_bit 1 x in if bit x 63 then NOT ux else ux)"

definition unzigzag :: "u64 \<Rightarrow> u64" where
  "unzigzag ux = (let x = drop_bit 1 ux in if bit ux 0 then NOT x else x)"

section \<open>Big-endian words\<close>

definition be64 :: "u64 \<Rightarrow> byte list" where
  "be64 w = map (\<lambda>i. ucast (drop_bit (8 * (7 - i)) w)) [0..<8]"

definition be32 :: "u32 \<Rightarrow> byte list" where
  "be32 w = map (\<lambda>i. ucast (drop_bit (8 * (3 - i)) w)) [0..<4]"

definition from_be64 :: "byte list \<Rightarrow> u64" where
  "from_be64 bs = fold (\<lambda>b acc. push_bit 8 acc OR ucast b) bs 0"

definition from_be32 :: "byte list \<Rightarrow> u32" where
  "from_be32 bs = fold (\<lambda>b acc. push_bit 8 acc OR ucast b) bs 0"

section \<open>Round trips of the primitives\<close>

lemma less_64_eq: "n < (64::nat) \<Longrightarrow> \<not> n < 63 \<Longrightarrow> n = 63"
  by simp

lemma unzigzag_zigzag [simp]: "unzigzag (zigzag x) = x"
proof -
  define ux where "ux = push_bit 1 x"
  have ux: "bit ux i \<longleftrightarrow> 1 \<le> i \<and> i < 64 \<and> bit x (i - 1)" for i
    unfolding ux_def bit_push_bit_iff by (auto dest: bit_imp_le_length)
  define dx :: "u64 \<Rightarrow> u64" where "dx = drop_bit 1"
  have dx: "bit (dx y) i \<longleftrightarrow> bit y (1 + i)" for y i
    unfolding dx_def bit_drop_bit_eq o_def ..
  show ?thesis
    unfolding unzigzag_def zigzag_def Let_def ux_def [symmetric] dx_def [symmetric]
    by (rule bit_word_eqI) (auto simp: dx ux bit_not_iff not_less dest: less_64_eq)
qed

lemma length_be [simp]: "length (be64 x) = 8" "length (be32 y) = 4"
  by (simp_all add: be64_def be32_def)

lemma bit_fold_be:
  fixes acc :: "'a::len word" and bs :: "byte list"
  assumes "n < LENGTH('a)"
  shows "bit (fold (\<lambda>b acc. push_bit 8 acc OR ucast b) bs acc) n \<longleftrightarrow>
    (if n < 8 * length bs then bit (bs ! (length bs - 1 - n div 8)) (n mod 8) else bit acc (n - 8 * length bs))"
  using assms
proof (induction bs arbitrary: acc)
  case (Cons b bs)
  consider "n < 8 * length bs" | "8 * length bs \<le> n" "n < 8 * Suc (length bs)" | "8 * Suc (length bs) \<le> n" by linarith
  then show ?case
  proof cases
    case 1
    then have "length bs - n div 8 = Suc (length bs - 1 - n div 8)" by auto
    with 1 Cons show ?thesis by simp
  next
    case 2
    then have d: "n div 8 = length bs" "n mod 8 = n - 8 * length bs"
      by (auto simp: div_nat_eqI mod_nat_eqI)
    have "n mod 8 < 8" by simp
    then have "\<not> 8 \<le> n - 8 * length bs" using d by simp
    with 2 Cons d show ?thesis by (auto simp: bit_simps)
  next
    case 3
    then have "\<not> n < 8 * length bs" "8 \<le> n - 8 * length bs" "n - 8 * length bs - 8 = n - 8 * Suc (length bs)" by auto
    moreover have "\<not> bit (ucast b :: 'a word) (n - 8 * length bs)"
      using \<open>8 \<le> n - 8 * length bs\<close> bit_imp_le_length [of b "n - 8 * length bs"] by (auto simp: bit_simps)
    moreover have "n - 8 * length bs < LENGTH('a)" using Cons.prems by simp
    ultimately show ?thesis using 3 Cons by (simp add: bit_simps)
  qed
qed simp

lemma nth_be:
  "k < 8 \<Longrightarrow> be64 x ! (7 - k) = ucast (drop_bit (8 * k) x)" "k < 4 \<Longrightarrow> be32 y ! (3 - k) = ucast (drop_bit (8 * k) y)"
  by (simp_all add: be64_def be32_def less_imp_diff_less)

lemma from_be64_be64 [simp]: "from_be64 (be64 w) = w"
  unfolding from_be64_def
  by (rule bit_word_eqI) (simp add: bit_fold_be nth_be bit_simps)

lemma from_be32_be32 [simp]: "from_be32 (be32 w) = w"
  unfolding from_be32_def
  by (rule bit_word_eqI) (simp add: bit_fold_be nth_be bit_simps)

lemma or_push_step:
  fixes acc x :: u64
  shows "(acc OR push_bit s (x AND 0x7F)) OR push_bit (s + 7) (drop_bit 7 x) = acc OR push_bit s x"
proof (rule bit_word_eqI)
  fix n assume n: "n < LENGTH(64)"
  have m: "(0x7F :: u64) = mask 7" by (simp add: mask_eq_exp_minus_1)
  have "n - s < 7 \<or> 7 + (n - (s + 7)) = n - s" by linarith
  then show "bit ((acc OR push_bit s (x AND 0x7F)) OR push_bit (s + 7) (drop_bit 7 x)) n \<longleftrightarrow> bit (acc OR push_bit s x) n"
    using n unfolding m by (auto simp: bit_or_iff bit_push_bit_iff bit_and_iff bit_mask_iff bit_drop_bit_eq not_less)
qed

lemma put_uvarint_byte:
  fixes x :: u64
  assumes "0x80 \<le> x"
  shows "\<not> (ucast x OR 0x80 :: byte) < 0x80" "ucast ((ucast x OR 0x80) AND 0x7F :: byte) = x AND 0x7F"
proof -
  have "bit (ucast x OR 0x80 :: byte) 7" by (simp add: bit_or_iff)
  then show "\<not> (ucast x OR 0x80 :: byte) < 0x80"
    using bit_less_exp [of "ucast x OR 0x80 :: byte" 7] by (fastforce simp: word_less_nat_alt)
  have m: "(0x7F :: byte) = mask 7" "(0x7F :: u64) = mask 7" by (simp_all add: mask_eq_exp_minus_1)
  have "(ucast x OR 0x80) AND 0x7F = (ucast x AND 0x7F :: byte)"
    unfolding bit.conj_disj_distrib2 by simp
  then show "ucast ((ucast x OR 0x80) AND 0x7F :: byte) = x AND 0x7F"
    by (simp only: m) (rule bit_word_eqI, auto simp: bit_simps)
qed

lemma uvarint_loop_put:
  assumes "s = 7 * i" "i \<le> 9" "unat x < 2 ^ (64 - s)"
  shows "uvarint_loop i acc s (put_uvarint x @ rest) = Inr (acc OR push_bit s x, i + length (put_uvarint x))"
  using assms
proof (induction x arbitrary: i acc s rule: put_uvarint.induct)
  case (1 x)
  show ?case
  proof (cases "0x80 \<le> x")
    case True
    then have ge: "128 \<le> unat x" by (simp add: word_le_nat_alt)
    have "i \<noteq> 9" using ge "1.prems" by auto
    then have i: "i + 1 \<le> 9" "s + 7 = 7 * (i + 1)" "i \<noteq> 10" using "1.prems"(1,2) by auto
    have "unat (drop_bit 7 x) < 2 ^ (64 - (s + 7))"
    proof -
      have "64 - s = 7 + (64 - (s + 7))" using i by simp
      then have "2 ^ (64 - s) = 2 ^ (64 - (s + 7)) * (2 ^ 7 :: nat)" by (simp only: power_add mult.commute)
      then have "unat x < 2 ^ (64 - (s + 7)) * 2 ^ 7" using "1.prems"(3) by metis
      then show ?thesis unfolding unat_drop_bit_div by (rule less_mult_imp_div_less)
    qed
    from "1.IH" [OF True i(2,1) this]
    show ?thesis
      using True i(3) put_uvarint_byte [OF True] or_push_step [of acc s x]
      by (subst (1 2) put_uvarint.simps) simp
  next
    case False
    then have lt: "unat x < 128" by (simp add: word_less_nat_alt not_le)
    have p: "put_uvarint x = [ucast x]" using False by (subst put_uvarint.simps) simp
    have u: "unat (ucast x :: byte) = unat x" using lt by (simp add: unat_ucast_mod)
    have "(ucast x :: byte) < 0x80" using u lt by (simp add: word_less_nat_alt)
    moreover have "ucast (ucast x :: byte) = x"
      unfolding word_unat_eq_iff unat_ucast_mod [of "ucast x :: byte"] u using lt by simp
    moreover have "\<not> (ucast x :: byte) > 1" if "i = 9"
      using "1.prems"(1,3) u that by (simp add: word_less_nat_alt)
    moreover have "i \<noteq> 10" using "1.prems"(2) by simp
    ultimately show ?thesis by (simp add: p)
  qed
qed

lemma uvarint_put [simp]: "uvarint (put_uvarint x @ rest) = Inr (x, length (put_uvarint x))"
  unfolding uvarint_def by (subst uvarint_loop_put) (simp_all add: unat_bounds unsigned_less)

lemma put_uvarint_nonempty [simp]: "put_uvarint x \<noteq> []"
  by (subst put_uvarint.simps) simp

lemma uvarint_consumes: "uvarint_loop i x s bs = Inr (v, n) \<Longrightarrow> i < n \<and> n \<le> i + length bs"
  by (induction i x s bs rule: uvarint_loop.induct) (auto split: if_splits)

end
