(* ===== verification/BinaryCodec.thy ===== *)
theory BinaryCodec
  imports GoBytes "HOL-Library.State_Monad"
begin

unbundle bit_operations_syntax

text \<open>
  The binary codec of \<^verbatim>\<open>internal/store/binary_payload.go\<close>: \<^verbatim>\<open>binaryEncoder\<close> and \<^verbatim>\<open>binaryDecoder\<close> as
  state monads over records with the fields of the Go structs. Errors are sticky, as in the source: an
  operation on a coder whose \<^verbatim>\<open>err\<close> is set does nothing. The \<^verbatim>\<open>scratch\<close> arrays carry no information
  between calls and are left out; a value returned together with an error is never used by a caller.

  A property value is a datatype with one constructor per \<^verbatim>\<open>Kind\<close> and, in it, the one field of
  \<^verbatim>\<open>persistedValue\<close> that kind uses; the kinds the codec does not know are \<open>PUnknown\<close>. A Go slice or map
  is an option, \<open>None\<close> being nil; a Go map is an association list with distinct keys whose order is the
  iteration order the runtime happens to choose. Floats are their bit patterns.
\<close>

section \<open>Property values\<close>

datatype persistedValue =
    PEmpty
  | PNull
  | PBool bool
  | PInt u64
  | PFloat u64
  | PString string
  | PBytes "byte list option"
  | PVector "u32 list option"
  | PList "persistedValue list option"
  | PMap "(string \<times> persistedValue) list option"
  | PUnknown string

type_synonym persistedMap = "(string \<times> persistedValue) list option"

definition maxBinaryValueDepth :: nat where
  "maxBinaryValueDepth = 65"

definition opt_length :: "'a list option \<Rightarrow> nat" where
  "opt_length xs = (case xs of None \<Rightarrow> 0 | Some l \<Rightarrow> length l)"

definition multiplySaturated :: "u64 \<Rightarrow> u64 \<Rightarrow> u64" where
  "multiplySaturated left right =
     (if left \<noteq> 0 \<and> right > (- 1) div left then - 1 else left * right)"

section \<open>Encoder\<close>

text \<open>
  The writer behind the encoder is the parameter \<open>esink\<close>: from what was written so far and the new data
  it gives the number of bytes taken and an error, as \<^verbatim>\<open>io.Writer\<close> does. \<open>bytes_buffer\<close> is
  \<^verbatim>\<open>bytes.Buffer\<close>, which takes everything.
\<close>

record encoder =
  eout :: "byte list"
  esink :: "byte list \<Rightarrow> byte list \<Rightarrow> nat \<times> gerr option"
  allocationLimit :: u64
  allocationBytes :: u64
  eerr :: "gerr option"

type_synonym enc = "(encoder, unit) state"

definition bytes_buffer :: "byte list \<Rightarrow> byte list \<Rightarrow> nat \<times> gerr option" where
  "bytes_buffer written data = (length data, None)"

definition new_encoder :: "u64 \<Rightarrow> encoder" where
  "new_encoder limit = \<lparr>eout = [], esink = bytes_buffer, allocationLimit = limit, allocationBytes = 0, eerr = None\<rparr>"

definition emod :: "(encoder \<Rightarrow> encoder) \<Rightarrow> enc" where
  "emod f = State (\<lambda>e. ((), f e))"

definition efail :: "gerr \<Rightarrow> enc" where
  "efail er = emod (\<lambda>e. e\<lparr>eerr := Some er\<rparr>)"

text \<open>\<^verbatim>\<open>if e.err != nil { return }\<close> followed by the rest of the function.\<close>

definition eguard :: "enc \<Rightarrow> enc" where
  "eguard m = State (\<lambda>e. if eerr e \<noteq> None then ((), e) else run_state m e)"

definition admitDecoded :: "u64 \<Rightarrow> u64 \<Rightarrow> enc" where
  "admitDecoded count width = emod (\<lambda>e.
     if allocationLimit e = 0 \<or> eerr e \<noteq> None then e
     else let bytes = multiplySaturated count width in
       if bytes > allocationLimit e - allocationBytes e
       then e\<lparr>eerr := Some (ErrLoadResourceLimit ''page record decoder allocation exceeds limit'')\<rparr>
       else e\<lparr>allocationBytes := allocationBytes e + bytes\<rparr>)"

definition ewrite :: "byte list \<Rightarrow> enc" where
  "ewrite data = emod (\<lambda>e.
     if eerr e \<noteq> None then e
     else let (n, er) = esink e (eout e) data in
       e\<lparr>eout := eout e @ take n data,
         eerr := (if er = None \<and> n \<noteq> length data then Some ErrShortWrite else er)\<rparr>)"

definition enc_u :: "u64 \<Rightarrow> enc" where
  "enc_u v = ewrite (put_uvarint v)"

definition enc_i :: "u64 \<Rightarrow> enc" where
  "enc_i v = ewrite (put_uvarint (zigzag v))"

definition enc_tag :: "byte \<Rightarrow> enc" where
  "enc_tag v = ewrite [v]"

definition enc_str :: "string \<Rightarrow> enc" where
  "enc_str v = do {
     admitDecoded (word_of_nat (length v)) 2;
     enc_u (word_of_nat (length v));
     eguard (ewrite (string_bytes v))
   }"

definition enc_bytes :: "byte list option \<Rightarrow> enc" where
  "enc_bytes v = do {
     admitDecoded (word_of_nat (opt_length v)) 1;
     (case v of
        None \<Rightarrow> enc_u 0
      | Some bs \<Rightarrow> do { enc_u (word_of_nat (length bs) + 1); ewrite bs })
   }"

text \<open>\<^verbatim>\<open>for _, value := range values { write(value); if e.err != nil { return } }\<close>\<close>

fun enc_loop :: "('a \<Rightarrow> enc) \<Rightarrow> 'a list \<Rightarrow> enc" where
  "enc_loop f [] = State_Monad.return ()"
| "enc_loop f (x # xs) = do { f x; eguard (enc_loop f xs) }"

definition enc_strings :: "string list option \<Rightarrow> enc" where
  "enc_strings vs = do {
     admitDecoded (word_of_nat (opt_length vs)) 16;
     eguard (case vs of
        None \<Rightarrow> enc_u 0
      | Some l \<Rightarrow> do { enc_u (word_of_nat (length l) + 1); enc_loop enc_str l })
   }"

definition enc_ids :: "u64 list option \<Rightarrow> enc" where
  "enc_ids vs = do {
     admitDecoded (word_of_nat (opt_length vs)) 8;
     eguard (case vs of
        None \<Rightarrow> enc_u 0
      | Some l \<Rightarrow> do { enc_u (word_of_nat (length l) + 1); enc_loop enc_u l })
   }"

text \<open>
  \<^verbatim>\<open>properties\<close>, with the encoder of the values (\<^verbatim>\<open>e.value(values[key], depth)\<close>) as its argument: the two
  methods are mutually recursive through the nesting depth.
\<close>

definition enc_properties_with :: "(persistedValue \<Rightarrow> enc) \<Rightarrow> persistedMap \<Rightarrow> nat \<Rightarrow> enc" where
  "enc_properties_with val vs depth = do {
     admitDecoded (word_of_nat (opt_length vs)) 208;
     eguard
       (if depth > maxBinaryValueDepth then efail (ErrValueLimit ''property nesting'')
        else case vs of
          None \<Rightarrow> enc_u 0
        | Some l \<Rightarrow> do {
            enc_u (word_of_nat (length l) + 1);
            enc_loop (\<lambda>key. do { enc_str key; val (the (map_of l key)) }) (sort (map fst l))
          })
   }"

definition enc_vector_item :: "u32 \<Rightarrow> enc" where
  "enc_vector_item item =
     (if \<not> finite32 item then efail (ErrMsg ''non-finite binary vector'') else ewrite (be32 item))"

function enc_value :: "nat \<Rightarrow> persistedValue \<Rightarrow> enc" where
  "enc_value depth v = eguard
     (if depth > maxBinaryValueDepth then efail (ErrValueLimit ''property nesting'')
      else case v of
        PEmpty \<Rightarrow> enc_tag 0
      | PNull \<Rightarrow> enc_tag 1
      | PBool b \<Rightarrow> do { enc_tag 2; enc_tag (if b then 1 else 0) }
      | PInt i \<Rightarrow> do { enc_tag 3; enc_i i }
      | PFloat f \<Rightarrow>
          if \<not> finite64 f then efail (ErrMsg ''non-finite binary property'')
          else do { enc_tag 4; ewrite (be64 f) }
      | PString s \<Rightarrow> do { enc_tag 5; enc_str s }
      | PBytes bs \<Rightarrow> do { enc_tag 6; enc_bytes bs }
      | PVector xs \<Rightarrow> do {
          admitDecoded (word_of_nat (opt_length xs)) 4;
          enc_tag 7;
          (case xs of
             None \<Rightarrow> enc_u 0
           | Some l \<Rightarrow> do { enc_u (word_of_nat (length l) + 1); enc_loop enc_vector_item l })
        }
      | PList xs \<Rightarrow> do {
          admitDecoded (word_of_nat (opt_length xs)) 136;
          enc_tag 8;
          (case xs of
             None \<Rightarrow> enc_u 0
           | Some l \<Rightarrow> do {
               enc_u (word_of_nat (length l) + 1);
               enc_loop (\<lambda>item. enc_value (depth + 1) item) l
             })
        }
      | PMap m \<Rightarrow> do { enc_tag 9; enc_properties_with (\<lambda>item. enc_value (depth + 1) item) m (depth + 1) }
      | PUnknown kind \<Rightarrow> efail (ErrMsg ''unsupported binary property kind''))"
  by pat_completeness auto
termination
  by (relation "measure (\<lambda>(depth, v). 66 - depth)") (auto simp: maxBinaryValueDepth_def)

declare enc_value.simps [simp del]

definition enc_properties :: "persistedMap \<Rightarrow> nat \<Rightarrow> enc" where
  "enc_properties vs depth = enc_properties_with (enc_value depth) vs depth"

definition encodeBinarySlice :: "'a list option \<Rightarrow> ('a \<Rightarrow> enc) \<Rightarrow> enc" where
  "encodeBinarySlice vs write = eguard
     (case vs of
        None \<Rightarrow> enc_u 0
      | Some l \<Rightarrow> do { enc_u (word_of_nat (length l) + 1); enc_loop write l })"

section \<open>Decoder\<close>

text \<open>
  \<open>inmem\<close> tells whether the decoder reads a byte slice (\<^verbatim>\<open>d.data != nil\<close>) or a reader; \<open>inp\<close> is what is
  left of the slice or of the reader's contents. \<^verbatim>\<open>admitAllocation\<close> is an optional callback that may
  keep state of its own, so its answer depends on the history \<open>admitted\<close> of the calls before.
\<close>

record decoder =
  inmem :: bool
  inp :: "byte list"
  remaining :: u64
  allocationLeft :: u64
  admitAllocation :: "(u64 list \<Rightarrow> u64 \<Rightarrow> gerr option) option"
  admitted :: "u64 list"
  derr :: "gerr option"

type_synonym 'a dec = "(decoder, 'a) state"

definition newBinaryDecoder :: "byte list \<Rightarrow> u64 \<Rightarrow> u64 \<Rightarrow> decoder" where
  "newBinaryDecoder contents len maxBytes =
     \<lparr>inmem = False, inp = contents, remaining = len, allocationLeft = multiplySaturated maxBytes 2,
      admitAllocation = None, admitted = [], derr = None\<rparr>"

definition newBinaryDecoderBytes :: "byte list \<Rightarrow> u64 \<Rightarrow> decoder" where
  "newBinaryDecoderBytes data maxBytes =
     \<lparr>inmem = True, inp = data, remaining = word_of_nat (length data), allocationLeft = multiplySaturated maxBytes 2,
      admitAllocation = None, admitted = [], derr = None\<rparr>"

definition dfail :: "gerr \<Rightarrow> 'a \<Rightarrow> 'a dec" where
  "dfail er x = State (\<lambda>d. (x, d\<lparr>derr := Some er\<rparr>))"

text \<open>\<^verbatim>\<open>if d.err != nil { return x }\<close> followed by the rest of the function.\<close>

definition dguard :: "'a \<Rightarrow> 'a dec \<Rightarrow> 'a dec" where
  "dguard x m = State (\<lambda>d. if derr d \<noteq> None then (x, d) else run_state m d)"

text \<open>
  \<^verbatim>\<open>d.read(data)\<close> with \<^verbatim>\<open>len(data) = n\<close>, returning the bytes read (zeros on an error). Slicing beyond the
  slice would panic; \<^verbatim>\<open>io.ReadFull\<close> at the end of the reader gives \<^verbatim>\<open>EOF\<close> or \<^verbatim>\<open>ErrUnexpectedEOF\<close>.
\<close>

definition dread :: "nat \<Rightarrow> byte list dec" where
  "dread n = dguard (replicate n 0) (State (\<lambda>d.
     if n > unat (remaining d) then (replicate n 0, d\<lparr>derr := Some ErrUnexpectedEOF\<rparr>)
     else if inmem d then
       (if n > length (inp d) then (replicate n 0, d\<lparr>derr := Some ErrPanic\<rparr>)
        else (take n (inp d), d\<lparr>inp := drop n (inp d), remaining := remaining d - word_of_nat n\<rparr>))
     else
       (if n > length (inp d)
        then (replicate n 0, d\<lparr>inp := [], remaining := remaining d - word_of_nat n,
               derr := Some (if inp d = [] then ErrEOF else ErrUnexpectedEOF)\<rparr>)
        else (take n (inp d), d\<lparr>inp := drop n (inp d), remaining := remaining d - word_of_nat n\<rparr>))))"

definition dReadByte :: "byte dec" where
  "dReadByte = State (\<lambda>d.
     if inmem d \<and> derr d = None then
       (if remaining d = 0 then (0, d\<lparr>derr := Some ErrUnexpectedEOF\<rparr>)
        else case inp d of
          [] \<Rightarrow> (0, d\<lparr>derr := Some ErrPanic\<rparr>)
        | b # bs \<Rightarrow> (b, d\<lparr>inp := bs, remaining := remaining d - 1\<rparr>))
     else map_prod hd id (run_state (dread 1) d))"

text \<open>\<^verbatim>\<open>binary.ReadUvarint(d)\<close>, then \<^verbatim>\<open>d.err = err\<close> when it fails.\<close>

function readUvarint :: "nat \<Rightarrow> u64 \<Rightarrow> nat \<Rightarrow> u64 dec" where
  "readUvarint i x s =
     (if i < 10 then do {
        b \<leftarrow> dReadByte;
        State (\<lambda>d. case derr d of
           Some er \<Rightarrow> (0, d\<lparr>derr := Some (if i > 0 \<and> er = ErrEOF then ErrUnexpectedEOF else er)\<rparr>)
         | None \<Rightarrow>
             if b < 0x80 then
               (if i = 9 \<and> b > 1 then (0, d\<lparr>derr := Some ErrVarintOverflow\<rparr>) else (x OR push_bit s (ucast b), d))
             else run_state (readUvarint (i + 1) (x OR push_bit s (ucast (b AND 0x7F))) (s + 7)) d)
      } else dfail ErrVarintOverflow 0)"
  by pat_completeness auto
termination
  by (relation "measure (\<lambda>(i, x, s). 10 - i)") auto

declare readUvarint.simps [simp del]

definition dec_u :: "u64 dec" where
  "dec_u = dguard 0 (State (\<lambda>d.
     if inmem d then
       (case uvarint (inp d) of
          Inr (v, n) \<Rightarrow> (v, d\<lparr>inp := drop n (inp d), remaining := remaining d - word_of_nat n\<rparr>)
        | Inl _ \<Rightarrow> run_state (readUvarint 0 0 0) d)
     else run_state (readUvarint 0 0 0) d))"

definition dec_i :: "u64 dec" where
  "dec_i = dguard 0 (State (\<lambda>d.
     if inmem d then
       (case uvarint (inp d) of
          Inr (v, n) \<Rightarrow> (unzigzag v, d\<lparr>inp := drop n (inp d), remaining := remaining d - word_of_nat n\<rparr>)
        | Inl _ \<Rightarrow> map_prod unzigzag id (run_state (readUvarint 0 0 0) d))
     else map_prod unzigzag id (run_state (readUvarint 0 0 0) d)))"

definition reserve :: "u64 \<Rightarrow> u64 \<Rightarrow> bool dec" where
  "reserve count width = dguard False (State (\<lambda>d.
     if width \<noteq> 0 \<and> count > allocationLeft d div width
     then (False, d\<lparr>derr := Some (ErrLoadResourceLimit ''binary decoded allocation exceeds limit'')\<rparr>)
     else case admitAllocation d of
       None \<Rightarrow> (True, d\<lparr>allocationLeft := allocationLeft d - count * width\<rparr>)
     | Some f \<Rightarrow>
         let d' = d\<lparr>admitted := admitted d @ [count * width]\<rparr> in
         (case f (admitted d) (count * width) of
            Some er \<Rightarrow> (False, d'\<lparr>derr := Some er\<rparr>)
          | None \<Rightarrow> (True, d'\<lparr>allocationLeft := allocationLeft d' - count * width\<rparr>))))"

definition maxInt :: u64 where
  "maxInt = 0x7FFFFFFFFFFFFFFF"

text \<open>\<^verbatim>\<open>d.length(elementBytes)\<close>; the result \<open>None\<close> is Go's \<open>-1\<close>.\<close>

definition dec_length :: "u64 \<Rightarrow> nat option dec" where
  "dec_length elementBytes = do {
     encoded \<leftarrow> dec_u;
     dguard None
       (if encoded = 0 then State_Monad.return None
        else State (\<lambda>d. let count = encoded - 1 in
          if count > remaining d \<or> count > maxInt
          then (None, d\<lparr>derr := Some (ErrLoadResourceLimit ''invalid binary collection length'')\<rparr>)
          else case run_state (reserve count elementBytes) d of
            (False, d') \<Rightarrow> (None, d')
          | (True, d') \<Rightarrow> (Some (unat count), d')))
   }"

definition dec_str :: "string dec" where
  "dec_str = do {
     size \<leftarrow> dec_u;
     dguard [] (State (\<lambda>d.
       if size > remaining d \<or> size > maxInt
       then ([], d\<lparr>derr := Some (ErrLoadResourceLimit ''invalid binary string length'')\<rparr>)
       else case run_state (reserve size 2) d of
         (False, d') \<Rightarrow> ([], d')
       | (True, d') \<Rightarrow>
           (case run_state (dread (unat size)) d' of
              (data, d'') \<Rightarrow>
                (bytes_string data,
                 if derr d'' = None \<and> \<not> utf8_valid data
                 then d''\<lparr>derr := Some (ErrMsg ''invalid UTF-8 in binary string'')\<rparr> else d''))))
   }"

definition dec_bytes :: "byte list option dec" where
  "dec_bytes = do {
     n \<leftarrow> dec_length 1;
     (case n of
        None \<Rightarrow> State_Monad.return None
      | Some n \<Rightarrow> do { bs \<leftarrow> dread n; State_Monad.return (Some bs) })
   }"

text \<open>
  \<^verbatim>\<open>values := make([]T, n); for i := range values { values[i] = read(); if d.err != nil { break } }\<close>; the
  elements not reached keep the zero value \<open>z\<close>.
\<close>

fun dec_loop :: "'a \<Rightarrow> 'a dec \<Rightarrow> nat \<Rightarrow> 'a list dec" where
  "dec_loop z r 0 = State_Monad.return []"
| "dec_loop z r (Suc n) = do {
     x \<leftarrow> r;
     xs \<leftarrow> dguard (replicate n z) (dec_loop z r n);
     State_Monad.return (x # xs)
   }"

definition decodeBinarySlice :: "'a \<Rightarrow> u64 \<Rightarrow> 'a dec \<Rightarrow> 'a list option dec" where
  "decodeBinarySlice z elementBytes r = do {
     n \<leftarrow> dec_length elementBytes;
     (case n of
        None \<Rightarrow> State_Monad.return None
      | Some n \<Rightarrow> do { xs \<leftarrow> dec_loop z r n; State_Monad.return (Some xs) })
   }"

definition dec_strings :: "string list option dec" where
  "dec_strings = decodeBinarySlice [] 16 dec_str"

definition dec_ids :: "u64 list option dec" where
  "dec_ids = decodeBinarySlice 0 8 dec_u"

fun dec_entries :: "persistedValue dec \<Rightarrow> (string \<times> persistedValue) list \<Rightarrow> nat \<Rightarrow> (string \<times> persistedValue) list dec" where
  "dec_entries val acc 0 = State_Monad.return acc"
| "dec_entries val acc (Suc n) = do {
     key \<leftarrow> dec_str;
     v \<leftarrow> val;
     dguard acc
       (if map_of acc key \<noteq> None then dfail (ErrMsg ''duplicate binary property key'') acc
        else dec_entries val (acc @ [(key, v)]) n)
   }"

definition dec_properties_with :: "persistedValue dec \<Rightarrow> nat \<Rightarrow> persistedMap dec" where
  "dec_properties_with val depth =
     (if depth > maxBinaryValueDepth then dfail (ErrValueLimit ''property nesting'') None
      else do {
        n \<leftarrow> dec_length 208;
        (case n of
           None \<Rightarrow> State_Monad.return None
         | Some n \<Rightarrow> do { m \<leftarrow> dec_entries val [] n; State_Monad.return (Some m) })
      })"

definition dec_vector_item :: "u32 dec" where
  "dec_vector_item = do {
     bs \<leftarrow> dread 4;
     dguard (from_be32 bs)
       (if \<not> finite32 (from_be32 bs) then dfail (ErrMsg ''non-finite binary vector'') (from_be32 bs)
        else State_Monad.return (from_be32 bs))
   }"

function dec_value :: "nat \<Rightarrow> persistedValue dec" where
  "dec_value depth = dguard PEmpty
     (if depth > maxBinaryValueDepth then dfail (ErrValueLimit ''property nesting'') PEmpty
      else do {
        tag \<leftarrow> dReadByte;
        dguard PEmpty
          (if tag = 0 then State_Monad.return PEmpty
           else if tag = 1 then State_Monad.return PNull
           else if tag = 2 then do {
             flag \<leftarrow> dReadByte;
             dguard (PBool False)
               (if flag > 1 then dfail (ErrMsg ''invalid binary boolean'') (PBool False)
                else State_Monad.return (PBool (flag = 1)))
           }
           else if tag = 3 then do { i \<leftarrow> dec_i; State_Monad.return (PInt i) }
           else if tag = 4 then do {
             bs \<leftarrow> dread 8;
             dguard (PFloat (from_be64 bs))
               (if \<not> finite64 (from_be64 bs)
                then dfail (ErrMsg ''non-finite binary property'') (PFloat (from_be64 bs))
                else State_Monad.return (PFloat (from_be64 bs)))
           }
           else if tag = 5 then do { s \<leftarrow> dec_str; State_Monad.return (PString s) }
           else if tag = 6 then do { bs \<leftarrow> dec_bytes; State_Monad.return (PBytes bs) }
           else if tag = 7 then do {
             n \<leftarrow> dec_length 4;
             (case n of
                None \<Rightarrow> State_Monad.return (PVector None)
              | Some n \<Rightarrow> do {
                  d \<leftarrow> State_Monad.get;
                  (if word_of_nat n > remaining d div 4 then dfail ErrUnexpectedEOF (PVector None)
                   else do { xs \<leftarrow> dec_loop 0 dec_vector_item n; State_Monad.return (PVector (Some xs)) })
                })
           }
           else if tag = 8 then do {
             xs \<leftarrow> decodeBinarySlice PEmpty 136 (dec_value (depth + 1));
             State_Monad.return (PList xs)
           }
           else if tag = 9 then do {
             m \<leftarrow> dec_properties_with (dec_value (depth + 1)) (depth + 1);
             State_Monad.return (PMap m)
           }
           else dfail (ErrMsg ''unknown binary property tag'') PEmpty)
      })"
  by pat_completeness auto
termination
  by (relation "measure (\<lambda>depth. 66 - depth)") (auto simp: maxBinaryValueDepth_def)

declare dec_value.simps [simp del]

definition dec_properties :: "nat \<Rightarrow> persistedMap dec" where
  "dec_properties depth = dec_properties_with (dec_value depth) depth"

definition dfinish :: "decoder \<Rightarrow> gerr option" where
  "dfinish d =
     (if derr d \<noteq> None then derr d
      else if remaining d \<noteq> 0 then Some (ErrMsg ''binary payload has trailing data'') else None)"

end
