(* ===== verification/CodecLaws.thy ===== *)
theory CodecLaws
  imports BinaryCodec
begin

unbundle bit_operations_syntax

text \<open>
  The contract of an encoder method and of a decoder method, and how contracts compose. \<open>emits m w c\<close>:
  run on a healthy encoder over a buffer, \<open>m\<close> appends exactly the bytes \<open>w\<close> and charges \<open>c\<close> to the
  allocation budget, and it fails exactly when the budget does not admit \<open>c\<close>. \<open>reads m v w cs\<close>: run on
  a decoder whose input starts with \<open>w\<close> and whose budget admits the reservations \<open>cs\<close>, \<open>m\<close> returns
  \<open>v\<close>, consumes exactly \<open>w\<close> and makes exactly those reservations.
\<close>

section \<open>Contracts\<close>

definition enc_ready :: "encoder \<Rightarrow> bool" where
  "enc_ready e \<longleftrightarrow> eerr e = None \<and> esink e = bytes_buffer \<and> allocationBytes e \<le> allocationLimit e"

definition fits :: "encoder \<Rightarrow> nat \<Rightarrow> bool" where
  "fits e c \<longleftrightarrow> allocationLimit e = 0 \<or> unat (allocationBytes e) + c \<le> unat (allocationLimit e)"

definition eadv :: "byte list \<Rightarrow> nat \<Rightarrow> encoder \<Rightarrow> encoder" where
  "eadv w c e = e\<lparr>eout := eout e @ w,
     allocationBytes := (if allocationLimit e = 0 then allocationBytes e else allocationBytes e + word_of_nat c)\<rparr>"

definition sticky :: "enc \<Rightarrow> bool" where
  "sticky m \<longleftrightarrow> (\<forall>e. eerr e \<noteq> None \<longrightarrow> eerr (snd (run_state m e)) \<noteq> None)"

definition emits :: "enc \<Rightarrow> byte list \<Rightarrow> nat \<Rightarrow> bool" where
  "emits m w c \<longleftrightarrow> sticky m \<and>
     (\<forall>e. enc_ready e \<longrightarrow>
        (if fits e c then run_state m e = ((), eadv w c e) else eerr (snd (run_state m e)) \<noteq> None))"

definition admits :: "decoder \<Rightarrow> bool" where
  "admits d \<longleftrightarrow> (case admitAllocation d of None \<Rightarrow> True | Some f \<Rightarrow> \<forall>h n. f h n = None)"

definition dec_ready :: "decoder \<Rightarrow> byte list \<Rightarrow> nat list \<Rightarrow> bool" where
  "dec_ready d w cs \<longleftrightarrow> derr d = None \<and> admits d \<and> (\<exists>rest. inp d = w @ rest) \<and> length w \<le> unat (remaining d) \<and>
     (inmem d \<longrightarrow> unat (remaining d) = length (inp d)) \<and> sum_list cs \<le> unat (allocationLeft d)"

definition dadv :: "byte list \<Rightarrow> nat list \<Rightarrow> decoder \<Rightarrow> decoder" where
  "dadv w cs d = d\<lparr>inp := drop (length w) (inp d), remaining := remaining d - word_of_nat (length w),
     allocationLeft := allocationLeft d - word_of_nat (sum_list cs),
     admitted := (if admitAllocation d = None then admitted d else admitted d @ map word_of_nat cs)\<rparr>"

definition reads :: "'a dec \<Rightarrow> 'a \<Rightarrow> byte list \<Rightarrow> nat list \<Rightarrow> bool" where
  "reads m v w cs \<longleftrightarrow> (\<forall>d. dec_ready d w cs \<longrightarrow> run_state m d = (v, dadv w cs d))"

named_theorems emit_rules \<open>what encoder methods write and charge\<close>
named_theorems read_rules \<open>what decoder methods return and consume\<close>

section \<open>Word arithmetic of the budgets\<close>

lemma unat_nat_small: "n \<le> unat (a :: u64) \<Longrightarrow> unat (word_of_nat n :: u64) = n"
  by (rule unat_word_of_nat_less) (rule le_less_trans [OF _ unsigned_less], simp)

lemma unat_sub_nat: "n \<le> unat (a :: u64) \<Longrightarrow> unat (a - word_of_nat n) = unat a - n"
  using unat_nat_small [of n a] by (subst unat_sub) (simp_all add: word_le_nat_alt)

lemma unat_add_nat: "unat (a :: u64) + n < 2 ^ 64 \<Longrightarrow> unat (a + word_of_nat n) = unat a + n"
  using unat_word_of_nat_less [of n, where 'a = 64] by (subst unat_add_lem [THEN iffD1]) simp_all

lemma unat_mult_nat: "unat (x :: u64) * unat y < 2 ^ 64 \<Longrightarrow> unat (x * y) = unat x * unat y"
  using unat_mult_lem [of x y] by simp

lemma multiplySaturated_exact:
  assumes "unat x * unat y < 2 ^ 64"
  shows "multiplySaturated x y = x * y"
proof (cases "x = 0")
  case False
  then have "unat x > 0" by (simp add: unat_gt_0)
  have "unat (- 1 :: u64) = 2 ^ 64 - 1" by (simp add: unsigned_minus_1_eq_mask mask_eq_exp_minus_1)
  moreover have "unat y * unat x \<le> 2 ^ 64 - 1" using assms by (simp add: mult.commute)
  ultimately have "unat y \<le> unat (- 1 :: u64) div unat x"
    using \<open>unat x > 0\<close> by (simp add: less_eq_div_iff_mult_less_eq)
  then have "\<not> y > (- 1) div x" by (simp add: word_less_nat_alt unat_div)
  then show ?thesis by (simp add: multiplySaturated_def)
qed (simp add: multiplySaturated_def)

section \<open>Composition\<close>

lemma sticky_bind: "sticky m \<Longrightarrow> (\<And>x. sticky (k x)) \<Longrightarrow> sticky (m \<bind> k)"
  by (simp add: sticky_def case_prod_unfold)

lemma fits_add: "fits e (c1 + c2) \<Longrightarrow> fits e c1"
  by (auto simp: fits_def)

lemma eadv_simps [simp]:
  "eerr (eadv w c e) = eerr e" "esink (eadv w c e) = esink e" "allocationLimit (eadv w c e) = allocationLimit e"
  "eout (eadv w c e) = eout e @ w"
  by (simp_all add: eadv_def)

lemma unat_alloc_eadv:
  assumes "fits e c" "allocationLimit e \<noteq> 0"
  shows "unat (allocationBytes (eadv w c e)) = unat (allocationBytes e) + c"
proof -
  have "unat (allocationBytes e) + c \<le> unat (allocationLimit e)" using assms by (simp add: fits_def)
  also have "\<dots> < 2 ^ 64" using unsigned_less [of "allocationLimit e"] by simp
  finally show ?thesis using assms(2) by (simp add: eadv_def unat_add_nat)
qed

lemma enc_ready_eadv: "enc_ready e \<Longrightarrow> fits e c \<Longrightarrow> enc_ready (eadv w c e)"
  using unat_alloc_eadv [of e c w] by (cases "allocationLimit e = 0") (auto simp: enc_ready_def fits_def word_le_nat_alt eadv_def)

lemma fits_eadv: "fits e c1 \<Longrightarrow> fits (eadv w c1 e) c2 \<longleftrightarrow> fits e (c1 + c2)"
  using unat_alloc_eadv [of e c1 w] by (cases "allocationLimit e = 0") (auto simp: fits_def)

lemma eadv_eadv: "eadv w2 c2 (eadv w1 c1 e) = eadv (w1 @ w2) (c1 + c2) e"
  by (simp add: eadv_def)

lemma emits_bind:
  assumes "emits m w1 c1" "\<And>x. emits (k x) w2 c2"
  shows "emits (m \<bind> k) (w1 @ w2) (c1 + c2)"
  unfolding emits_def
proof (intro conjI allI impI)
  show "sticky (m \<bind> k)" using assms by (auto simp: emits_def intro: sticky_bind)
  fix e assume e: "enc_ready e"
  obtain x e' where r: "run_state m e = (x, e')" by (metis prod.exhaust)
  show "if fits e (c1 + c2) then run_state (m \<bind> k) e = ((), eadv (w1 @ w2) (c1 + c2) e)
    else eerr (snd (run_state (m \<bind> k) e)) \<noteq> None"
  proof (cases "fits e c1")
    case True
    then have e': "e' = eadv w1 c1 e" using assms(1) e r by (simp add: emits_def)
    then have "enc_ready e'" using enc_ready_eadv [OF e True] by simp
    then show ?thesis
      using assms(2) [of x] r fits_eadv [OF True, of w1 c2] by (simp add: emits_def e' eadv_eadv)
  next
    case False
    then have "eerr e' \<noteq> None" using assms(1) e r by (fastforce simp: emits_def)
    moreover have "sticky (k x)" using assms(2) by (simp add: emits_def)
    ultimately show ?thesis using False fits_add r by (auto simp: sticky_def)
  qed
qed

lemma emits_return [emit_rules]: "emits (State_Monad.return ()) [] 0"
  by (auto simp: emits_def sticky_def eadv_def fits_def enc_ready_def word_le_nat_alt)

lemma emits_eguard [emit_rules]: "emits m w c \<Longrightarrow> emits (eguard m) w c"
  by (auto simp: emits_def sticky_def eguard_def enc_ready_def)

lemma emits_write [emit_rules]: "emits (ewrite w) w 0"
  by (auto simp: emits_def sticky_def ewrite_def emod_def eadv_def fits_def enc_ready_def bytes_buffer_def word_le_nat_alt)

lemma emits_admit:
  assumes "n * unat k < 2 ^ 64" "n < 2 ^ 64"
  shows "emits (admitDecoded (word_of_nat n) k) [] (n * unat k)"
proof -
  have u: "unat (word_of_nat n :: u64) = n" using assms(2) by (simp add: unat_word_of_nat_less)
  have m: "multiplySaturated (word_of_nat n) k = word_of_nat n * k" "unat (word_of_nat n * k) = n * unat k"
    using assms(1) u by (simp_all add: multiplySaturated_exact unat_mult_nat)
  have w: "word_of_nat n * k = word_of_nat (n * unat k)" by simp
  have "word_of_nat n * k > allocationLimit e - allocationBytes e \<longleftrightarrow> \<not> fits e (n * unat k)"
    if "enc_ready e" "allocationLimit e \<noteq> 0" for e
    using that m(2) by (auto simp: enc_ready_def fits_def word_less_nat_alt unat_sub word_le_nat_alt)
  then show ?thesis
    by (auto simp: emits_def sticky_def admitDecoded_def emod_def Let_def m(1) eadv_def enc_ready_def)
      (auto simp: fits_def)
qed

section \<open>Decoder contracts\<close>

lemma dadv_simps [simp]:
  "derr (dadv w cs d) = derr d" "inmem (dadv w cs d) = inmem d" "admitAllocation (dadv w cs d) = admitAllocation d"
  "inp (dadv w cs d) = drop (length w) (inp d)"
  by (simp_all add: dadv_def)

lemma unat_left_dadv:
  "length w \<le> unat (remaining d) \<Longrightarrow> unat (remaining (dadv w cs d)) = unat (remaining d) - length w"
  "sum_list cs \<le> unat (allocationLeft d) \<Longrightarrow> unat (allocationLeft (dadv w cs d)) = unat (allocationLeft d) - sum_list cs"
  by (simp_all add: dadv_def unat_sub_nat)

lemma dec_ready_first: "dec_ready d (w1 @ w2) (cs1 @ cs2) \<Longrightarrow> dec_ready d w1 cs1"
  by (auto simp: dec_ready_def)

lemma dec_ready_rest:
  assumes "dec_ready d (w1 @ w2) (cs1 @ cs2)"
  shows "dec_ready (dadv w1 cs1 d) w2 cs2"
proof -
  have "length w1 \<le> unat (remaining d)" "sum_list cs1 \<le> unat (allocationLeft d)"
    using assms by (auto simp: dec_ready_def)
  with assms show ?thesis
    by (auto simp: dec_ready_def unat_left_dadv admits_def)
qed

lemma dadv_dadv: "dadv w2 cs2 (dadv w1 cs1 d) = dadv (w1 @ w2) (cs1 @ cs2) d"
  by (simp add: dadv_def add.commute)

lemma reads_bind:
  assumes "reads m x w1 cs1" "reads (k x) v w2 cs2"
  shows "reads (m \<bind> k) v (w1 @ w2) (cs1 @ cs2)"
  unfolding reads_def
proof (intro allI impI)
  fix d assume d: "dec_ready d (w1 @ w2) (cs1 @ cs2)"
  then show "run_state (m \<bind> k) d = (v, dadv (w1 @ w2) (cs1 @ cs2) d)"
    using assms dec_ready_first [OF d] dec_ready_rest [OF d] by (simp add: reads_def dadv_dadv)
qed

lemma reads_return [read_rules]: "reads (State_Monad.return v) v [] []"
  by (auto simp: reads_def dadv_def)

lemma reads_map: "reads m x w cs \<Longrightarrow> reads (m \<bind> (\<lambda>x. State_Monad.return (f x))) (f x) w cs"
  by (auto simp: reads_def)

lemma reads_dguard [read_rules]: "reads m v w cs \<Longrightarrow> reads (dguard x m) v w cs"
  by (auto simp: reads_def dguard_def dec_ready_def)

lemma reads_read: "reads (dread (length w)) w w []"
  by (auto simp: reads_def dread_def dguard_def dec_ready_def dadv_def)

lemma reads_ReadByte [read_rules]: "reads dReadByte b [b] []"
proof -
  have "remaining d \<noteq> 0" if "dec_ready d [b] []" for d using that by (auto simp: dec_ready_def unat_gt_0)
  moreover have "reads (dread 1) [b] [b] []" using reads_read [of "[b]"] by simp
  ultimately show ?thesis
    by (auto simp: reads_def dReadByte_def) (auto simp: dec_ready_def dadv_def)
qed

lemma readUvarint_put:
  assumes "s = 7 * i" "i \<le> 9" "unat x < 2 ^ (64 - s)"
  shows "reads (readUvarint i acc s) (acc OR push_bit s x) (put_uvarint x) []"
  using assms
proof (induction x arbitrary: i acc s rule: put_uvarint.induct)
  case (1 x)
  show ?case
  proof (cases "0x80 \<le> x")
    case True
    then have ge: "128 \<le> unat x" by (simp add: word_le_nat_alt)
    have "i \<noteq> 9" using ge "1.prems" by auto
    then have i: "i + 1 \<le> 9" "s + 7 = 7 * (i + 1)" "i < 10" using "1.prems"(1,2) by auto
    have "unat (drop_bit 7 x) < 2 ^ (64 - (s + 7))"
    proof -
      have "64 - s = 7 + (64 - (s + 7))" using i by simp
      then have "2 ^ (64 - s) = 2 ^ (64 - (s + 7)) * (2 ^ 7 :: nat)" by (simp only: power_add mult.commute)
      then have "unat x < 2 ^ (64 - (s + 7)) * 2 ^ 7" using "1.prems"(3) by metis
      then show ?thesis unfolding unat_drop_bit_div by (rule less_mult_imp_div_less)
    qed
    from "1.IH" [OF True i(2,1) this, of "acc OR push_bit s (x AND 0x7F)"]
    have step: "reads (readUvarint (i + 1) (acc OR push_bit s (x AND 0x7F)) (s + 7)) (acc OR push_bit s x)
        (put_uvarint (drop_bit 7 x)) []" by (simp only: or_push_step)
    have "reads (readUvarint i acc s) (acc OR push_bit s x) ([ucast x OR 0x80] @ put_uvarint (drop_bit 7 x)) ([] @ [])"
      unfolding readUvarint.simps [of i] if_P [OF i(3)]
      by (rule reads_bind [OF reads_ReadByte])
        (use step put_uvarint_byte [OF True] in \<open>simp add: reads_def dec_ready_def del: push_bit_and\<close>)
    then show ?thesis using True by (subst put_uvarint.simps) simp
  next
    case False
    then have lt: "unat x < 128" by (simp add: word_less_nat_alt not_le)
    have p: "put_uvarint x = [ucast x]" using False by (subst put_uvarint.simps) simp
    have u: "unat (ucast x :: byte) = unat x" using lt by (simp add: unat_ucast_mod)
    have "(ucast x :: byte) < 0x80" using u lt by (simp add: word_less_nat_alt)
    moreover have "ucast (ucast x :: byte) = x"
      unfolding word_unat_eq_iff unat_ucast_mod [of "ucast x :: byte"] u using lt by simp
    moreover have "\<not> (ucast x :: byte) > 1" if "i = 9"
      using "1.prems"(1,3) u that by (simp add: word_less_nat_alt)
    moreover have "i < 10" using "1.prems"(2) by simp
    ultimately have "reads (readUvarint i acc s) (acc OR push_bit s x) ([ucast x] @ []) ([] @ [])"
      unfolding readUvarint.simps [of i] if_P [OF \<open>i < 10\<close>]
      by (intro reads_bind [OF reads_ReadByte]) (auto simp: reads_def dec_ready_def dadv_def)
    then show ?thesis by (simp add: p)
  qed
qed

lemma reads_u [read_rules]: "reads dec_u v (put_uvarint v) []"
proof -
  have r: "reads (readUvarint 0 0 0) v (put_uvarint v) []"
    using readUvarint_put [of 0 0 v 0] by (simp add: unat_bounds)
  show ?thesis
    unfolding reads_def
  proof (intro allI impI)
    fix d assume d: "dec_ready d (put_uvarint v) []"
    then obtain rest where "inp d = put_uvarint v @ rest" "derr d = None" by (auto simp: dec_ready_def)
    with d r show "run_state dec_u d = (v, dadv (put_uvarint v) [] d)"
      by (simp add: dec_u_def dguard_def reads_def) (simp add: dadv_def)
  qed
qed

lemma reads_i [read_rules]: "reads dec_i v (put_uvarint (zigzag v)) []"
proof -
  have r: "reads (readUvarint 0 0 0) (zigzag v) (put_uvarint (zigzag v)) []"
    using readUvarint_put [of 0 0 "zigzag v" 0] by (simp add: unat_bounds)
  show ?thesis
    unfolding reads_def
  proof (intro allI impI)
    fix d assume d: "dec_ready d (put_uvarint (zigzag v)) []"
    then obtain rest where "inp d = put_uvarint (zigzag v) @ rest" "derr d = None" by (auto simp: dec_ready_def)
    with d r show "run_state dec_i d = (v, dadv (put_uvarint (zigzag v)) [] d)"
      by (simp add: dec_i_def dguard_def reads_def) (simp add: dadv_def)
  qed
qed

lemma reserve_run:
  assumes "dec_ready d w (n * unat k # cs)" "n \<le> unat (remaining d)"
  shows "run_state (reserve (word_of_nat n) k) d = (True, dadv [] [n * unat k] d)"
proof -
  have d: "derr d = None" "admits d" "n * unat k \<le> unat (allocationLeft d)" using assms(1) by (auto simp: dec_ready_def)
  have n: "unat (word_of_nat n :: u64) = n" using assms(2) by (rule unat_nat_small)
  have "\<not> word_of_nat n > allocationLeft d div k" if "k \<noteq> 0"
  proof -
    have "unat k > 0" using that by (simp add: unat_gt_0)
    then have "n \<le> unat (allocationLeft d) div unat k" using d(3) by (simp only: less_eq_div_iff_mult_less_eq)
    then show ?thesis using n by (simp add: word_less_nat_alt unat_div)
  qed
  moreover have "word_of_nat n * k = word_of_nat (n * unat k)" by simp
  ultimately show ?thesis
    using d(1,2) by (auto simp: reserve_def dguard_def admits_def dadv_def Let_def split: option.splits)
qed

lemma count_fits:
  assumes "n \<le> unat (r :: u64)" "n < 2 ^ 63"
  shows "\<not> (word_of_nat n > r \<or> word_of_nat n > maxInt)"
  using assms unat_nat_small [OF assms(1)] by (simp add: word_less_nat_alt maxInt_def)

lemma dec_ready_tail: "dec_ready d (w @ w') cs \<Longrightarrow> dec_ready d w cs"
  using dec_ready_first [of d w w' cs "[]"] by simp

text \<open>
  A collection: its length plus one, then bytes at least as many as its elements, of which the
  continuation of \<^verbatim>\<open>d.length\<close> makes the elements.
\<close>

lemma reads_length:
  assumes "reads (f (Some n)) v w cs" "n \<le> length w" "n < 2 ^ 63"
  shows "reads (dec_length k \<bind> f) v (put_uvarint (word_of_nat n + 1) @ w) (n * unat k # cs)"
  unfolding reads_def
proof (intro allI impI)
  let ?h = "put_uvarint (word_of_nat n + 1)"
  fix d assume d: "dec_ready d (?h @ w) (n * unat k # cs)"
  define d1 where "d1 = dadv ?h [] d"
  have d1: "dec_ready d1 w (n * unat k # cs)" "run_state dec_u d = (word_of_nat n + 1, d1)"
    using dec_ready_rest [of d ?h w "[]"] dec_ready_first [of d ?h w "[]"] d reads_u [of "word_of_nat n + 1"]
    by (simp_all add: d1_def reads_def)
  have r: "n \<le> unat (remaining d1)" using d1(1) assms(2) by (auto simp: dec_ready_def)
  have "word_of_nat n + 1 \<noteq> (0 :: u64)"
  proof
    assume "word_of_nat n + 1 = (0 :: u64)"
    then have "word_of_nat (n + 1) = (0 :: u64)" by (simp add: add.commute)
    moreover have "unat (word_of_nat (n + 1) :: u64) = n + 1" using assms(3) by (intro unat_word_of_nat_less) simp
    ultimately show False by simp
  qed
  moreover have "derr d1 = None" using d1(1) by (simp add: dec_ready_def)
  ultimately have "run_state (dec_length k) d = (Some n, dadv [] [n * unat k] d1)"
    using d1(2) reserve_run [OF d1(1) r] count_fits [OF r assms(3)] unat_nat_small [OF r]
    by (simp add: dec_length_def dguard_def Let_def)
  moreover have "dec_ready (dadv [] [n * unat k] d1) w cs"
    using dec_ready_rest [of d1 "[]" w "[n * unat k]" cs] d1(1) by simp
  ultimately show "run_state (dec_length k \<bind> f) d = (v, dadv (?h @ w) (n * unat k # cs) d)"
    using assms(1) by (simp add: reads_def dadv_dadv d1_def)
qed

lemma reads_length_nil:
  assumes "reads (f None) v [] []"
  shows "reads (dec_length k \<bind> f) v (put_uvarint 0) []"
proof -
  have "reads (dec_length k) None (put_uvarint 0 @ []) ([] @ [])"
    unfolding dec_length_def by (rule reads_bind [OF reads_u]) (auto intro: read_rules)
  with assms have "reads (dec_length k \<bind> f) v ((put_uvarint 0 @ []) @ []) (([] @ []) @ [])"
    by (intro reads_bind)
  then show ?thesis by simp
qed

definition wire_str :: "string \<Rightarrow> byte list" where
  "wire_str s = put_uvarint (word_of_nat (length s)) @ string_bytes s"

definition wf_str :: "string \<Rightarrow> bool" where
  "wf_str s \<longleftrightarrow> utf8_string s \<and> length s < 2 ^ 48"

lemma wire_str_nonempty [simp]: "wire_str s \<noteq> []"
  by (simp add: wire_str_def)

lemma reads_str:
  assumes "wf_str s"
  shows "reads dec_str s (wire_str s) [length s * 2]"
  unfolding reads_def
proof (intro allI impI)
  let ?h = "put_uvarint (word_of_nat (length s))" and ?w = "string_bytes s"
  fix d assume d: "dec_ready d (wire_str s) [length s * 2]"
  define d1 where "d1 = dadv ?h [] d"
  define d2 where "d2 = dadv [] [length s * unat (2 :: u64)] d1"
  have d1: "dec_ready d1 ?w [length s * unat (2 :: u64)]" "run_state dec_u d = (word_of_nat (length s), d1)"
    using dec_ready_rest [of d ?h ?w "[]"] dec_ready_first [of d ?h ?w "[]"] d reads_u [of "word_of_nat (length s)"]
    by (simp_all add: d1_def reads_def wire_str_def)
  have r: "length s \<le> unat (remaining d1)" using d1(1) by (auto simp: dec_ready_def)
  have d2: "dec_ready d2 ?w []"
    unfolding d2_def using dec_ready_rest [of d1 "[]" ?w "[length s * unat (2 :: u64)]" "[]"] d1(1) by simp
  have "length s < 2 ^ 63" using assms by (simp add: wf_str_def)
  note c = count_fits [OF r this] reserve_run [OF d1(1) r] unat_nat_small [OF r]
  have rd: "run_state (dread (length s)) d2 = (?w, dadv ?w [] d2)"
    using reads_read [of ?w] d2 by (simp add: reads_def)
  have e: "derr d1 = None" "derr (dadv ?w [] d2) = None" using d1(1) d2 by (simp_all add: dec_ready_def)
  have "run_state dec_str d = (s, dadv ?w [] d2)"
    using d1(2) c rd e assms by (simp add: dec_str_def dguard_def d2_def wf_str_def utf8_string_def)
  then show "run_state dec_str d = (s, dadv (wire_str s) [length s * 2] d)"
    by (simp add: d2_def d1_def dadv_dadv wire_str_def)
qed

lemma emits_str:
  assumes "wf_str s"
  shows "emits (enc_str s) (wire_str s) (length s * 2)"
proof -
  have "emits (admitDecoded (word_of_nat (length s)) 2) [] (length s * unat (2 :: u64))"
    using assms by (intro emits_admit) (simp_all add: wf_str_def)
  then have "emits (enc_str s) ([] @ put_uvarint (word_of_nat (length s)) @ string_bytes s) (length s * unat (2 :: u64) + (0 + 0))"
    unfolding enc_str_def enc_u_def by (intro emits_bind emit_rules)
  then show ?thesis by (simp add: wire_str_def)
qed

section \<open>The wire format of values\<close>

text \<open>
  The format stated on its own: what bytes stand for a value (\<open>wire\<close>), what a decoder must reserve for it
  in which order (\<open>dcost\<close>), which values the format can carry (\<open>wf\<close>) and which representative of the
  value comes back (\<open>canon\<close>, with the entries of maps in key order).
\<close>

definition wire_opt :: "('a \<Rightarrow> byte list) \<Rightarrow> 'a list option \<Rightarrow> byte list" where
  "wire_opt w xs =
     (case xs of None \<Rightarrow> put_uvarint 0 | Some l \<Rightarrow> put_uvarint (word_of_nat (length l) + 1) @ concat (map w l))"

definition dcost_opt :: "nat \<Rightarrow> ('a \<Rightarrow> nat list) \<Rightarrow> 'a list option \<Rightarrow> nat list" where
  "dcost_opt k c xs = (case xs of None \<Rightarrow> [] | Some l \<Rightarrow> length l * k # concat (map c l))"

definition ecost_opt :: "('a \<Rightarrow> nat) \<Rightarrow> 'a list option \<Rightarrow> nat" where
  "ecost_opt c xs = (case xs of None \<Rightarrow> 0 | Some l \<Rightarrow> sum_list (map c l))"

definition wf_opt :: "('a \<Rightarrow> bool) \<Rightarrow> 'a list option \<Rightarrow> bool" where
  "wf_opt p xs = (case xs of None \<Rightarrow> True | Some l \<Rightarrow> length l < 2 ^ 48 \<and> list_all p l)"

lemma opt_congs [fundef_cong]:
  "xs = ys \<Longrightarrow> (\<And>l x. ys = Some l \<Longrightarrow> x \<in> set l \<Longrightarrow> w x = w' x) \<Longrightarrow> wire_opt w xs = wire_opt w' ys"
  "k = k' \<Longrightarrow> xs = ys \<Longrightarrow> (\<And>l x. ys = Some l \<Longrightarrow> x \<in> set l \<Longrightarrow> c x = c' x) \<Longrightarrow> dcost_opt k c xs = dcost_opt k' c' ys"
  "xs = ys \<Longrightarrow> (\<And>l x. ys = Some l \<Longrightarrow> x \<in> set l \<Longrightarrow> p x = p' x) \<Longrightarrow> wf_opt p xs = wf_opt p' ys"
  by (auto simp: wire_opt_def dcost_opt_def wf_opt_def list_all_iff split: option.splits cong: map_cong)

lemma size_list_pair:
  "(k, v) \<in> set l \<Longrightarrow> size (v :: persistedValue) < Suc (size_list (size_prod (\<lambda>_. 0) size) l)"
  by (induction l) auto

definition sort_entries :: "(string \<times> 'a) list \<Rightarrow> (string \<times> 'a) list" where
  "sort_entries l = sort_key fst l"

fun wire_value :: "persistedValue \<Rightarrow> byte list" where
  "wire_value PEmpty = [0]"
| "wire_value PNull = [1]"
| "wire_value (PBool b) = [2, if b then 1 else 0]"
| "wire_value (PInt i) = 3 # put_uvarint (zigzag i)"
| "wire_value (PFloat f) = 4 # be64 f"
| "wire_value (PString s) = 5 # wire_str s"
| "wire_value (PBytes bs) = 6 # wire_opt (\<lambda>b. [b]) bs"
| "wire_value (PVector xs) = 7 # wire_opt be32 xs"
| "wire_value (PList xs) = 8 # wire_opt wire_value xs"
| "wire_value (PMap m) = 9 # wire_opt snd (map_option (\<lambda>l. sort_entries (map (\<lambda>(k, v). (k, wire_str k @ wire_value v)) l)) m)"
| "wire_value (PUnknown kind) = []"

fun dcost_value :: "persistedValue \<Rightarrow> nat list" where
  "dcost_value (PString s) = [length s * 2]"
| "dcost_value (PBytes bs) = dcost_opt 1 (\<lambda>_. []) bs"
| "dcost_value (PVector xs) = dcost_opt 4 (\<lambda>_. []) xs"
| "dcost_value (PList xs) = dcost_opt 136 dcost_value xs"
| "dcost_value (PMap m) = dcost_opt 208 snd (map_option (\<lambda>l. sort_entries (map (\<lambda>(k, v). (k, length k * 2 # dcost_value v)) l)) m)"
| "dcost_value v = []"

fun canon_value :: "persistedValue \<Rightarrow> persistedValue" where
  "canon_value (PList xs) = PList (map_option (map canon_value) xs)"
| "canon_value (PMap m) = PMap (map_option (\<lambda>l. sort_entries (map (\<lambda>(k, v). (k, canon_value v)) l)) m)"
| "canon_value v = v"

fun wf_value :: "nat \<Rightarrow> persistedValue \<Rightarrow> bool" where
  "wf_value depth (PFloat f) \<longleftrightarrow> depth \<le> maxBinaryValueDepth \<and> finite64 f"
| "wf_value depth (PString s) \<longleftrightarrow> depth \<le> maxBinaryValueDepth \<and> wf_str s"
| "wf_value depth (PBytes bs) \<longleftrightarrow> depth \<le> maxBinaryValueDepth \<and> wf_opt (\<lambda>_. True) bs"
| "wf_value depth (PVector xs) \<longleftrightarrow> depth \<le> maxBinaryValueDepth \<and> wf_opt finite32 xs"
| "wf_value depth (PList xs) \<longleftrightarrow> depth \<le> maxBinaryValueDepth \<and> wf_opt (wf_value (depth + 1)) xs"
| "wf_value depth (PMap m) \<longleftrightarrow> depth + 1 \<le> maxBinaryValueDepth \<and>
     (case m of None \<Rightarrow> True | Some l \<Rightarrow> distinct (map fst l)) \<and>
     wf_opt (\<lambda>(k, v). wf_str k \<and> wf_value (depth + 1) v) m"
| "wf_value depth (PUnknown kind) \<longleftrightarrow> False"
| "wf_value depth v \<longleftrightarrow> depth \<le> maxBinaryValueDepth"

lemma word_of_nat_unat': "word_of_nat (unat w) = (w :: u64)"
  by simp

section \<open>Codecs and slices of codecs\<close>

locale codec =
  fixes enc :: "'a \<Rightarrow> enc" and dec :: "'a dec" and wf :: "'a \<Rightarrow> bool" and canon :: "'a \<Rightarrow> 'a"
    and wire :: "'a \<Rightarrow> byte list" and ecost :: "'a \<Rightarrow> nat" and dcost :: "'a \<Rightarrow> nat list"
  assumes enc_emits: "wf v \<Longrightarrow> emits (enc v) (wire v) (ecost v)"
    and dec_reads: "wf v \<Longrightarrow> reads dec (canon v) (wire v) (dcost v)"
    and wire_nonempty: "wf v \<Longrightarrow> wire v \<noteq> []"
begin

lemma loop_emits: "list_all wf xs \<Longrightarrow> emits (enc_loop enc xs) (concat (map wire xs)) (sum_list (map ecost xs))"
proof (induction xs)
  case Nil
  then show ?case by (simp add: emits_return)
next
  case (Cons x xs)
  then have "emits (enc_loop enc (x # xs)) (wire x @ concat (map wire xs)) (ecost x + sum_list (map ecost xs))"
    unfolding enc_loop.simps by (intro emits_bind emits_eguard enc_emits) simp_all
  then show ?case by simp
qed

lemma loop_reads:
  "list_all wf xs \<Longrightarrow> reads (dec_loop z dec (length xs)) (map canon xs) (concat (map wire xs)) (concat (map dcost xs))"
proof (induction xs)
  case Nil
  then show ?case by (simp add: reads_return)
next
  case (Cons x xs)
  then have "reads (dguard (replicate (length xs) z) (dec_loop z dec (length xs)) \<bind> (\<lambda>ys. State_Monad.return (canon x # ys)))
      (canon x # map canon xs) (concat (map wire xs)) (concat (map dcost xs))"
    by (intro reads_map reads_dguard) simp
  with Cons show ?case
    using reads_bind [OF dec_reads [of x]] by simp
qed

lemma loop_length: "list_all wf xs \<Longrightarrow> length xs \<le> length (concat (map wire xs))"
proof (induction xs)
  case (Cons x xs)
  then show ?case using wire_nonempty [of x] by (cases "wire x") auto
qed simp

lemma slice_emits:
  assumes "wf_opt wf xs"
  shows "emits (case xs of None \<Rightarrow> enc_u 0 | Some l \<Rightarrow> do { enc_u (word_of_nat (length l) + 1); enc_loop enc l })
    (wire_opt wire xs) (ecost_opt ecost xs)"
proof (cases xs)
  case None
  then show ?thesis by (simp add: wire_opt_def ecost_opt_def enc_u_def emits_write)
next
  case (Some l)
  then have "list_all wf l" using assms by (simp add: wf_opt_def)
  from emits_bind [OF emits_write loop_emits [OF this]] show ?thesis
    by (simp add: Some wire_opt_def ecost_opt_def enc_u_def)
qed

lemma slice_reads:
  assumes "wf_opt wf xs"
  shows "reads (decodeBinarySlice z k dec) (map_option (map canon) xs) (wire_opt wire xs) (dcost_opt (unat k) dcost xs)"
proof (cases xs)
  case None
  then show ?thesis
    unfolding decodeBinarySlice_def by (simp add: wire_opt_def dcost_opt_def reads_length_nil reads_return)
next
  case (Some l)
  then have l: "list_all wf l" "length l < 2 ^ 63" using assms by (simp_all add: wf_opt_def)
  have "reads (dec_loop z dec (length l) \<bind> (\<lambda>xs. State_Monad.return (Some xs))) (Some (map canon l))
      (concat (map wire l)) (concat (map dcost l))"
    using loop_reads [OF l(1)] by (rule reads_map)
  then show ?thesis
    unfolding decodeBinarySlice_def using l loop_length [OF l(1)]
    by (simp add: Some wire_opt_def dcost_opt_def reads_length)
qed

lemma encode_fresh:
  assumes "wf v"
  shows "run_state (enc v) (new_encoder 0) = ((), (new_encoder 0)\<lparr>eout := wire v\<rparr>)"
  using enc_emits [OF assms] by (simp add: emits_def enc_ready_def fits_def new_encoder_def eadv_def)

lemma encode_bounded:
  assumes "wf v" "limit \<noteq> 0"
  shows "eerr (snd (run_state (enc v) (new_encoder limit))) = None \<longleftrightarrow> ecost v \<le> unat limit"
    "ecost v \<le> unat limit \<Longrightarrow> eout (snd (run_state (enc v) (new_encoder limit))) = wire v"
proof -
  have r: "enc_ready (new_encoder limit)" "fits (new_encoder limit) (ecost v) \<longleftrightarrow> ecost v \<le> unat limit"
    using assms(2) by (simp_all add: enc_ready_def fits_def new_encoder_def)
  show "eerr (snd (run_state (enc v) (new_encoder limit))) = None \<longleftrightarrow> ecost v \<le> unat limit"
    using enc_emits [OF assms(1)] r by (cases "ecost v \<le> unat limit") (auto simp: emits_def new_encoder_def)
  show "ecost v \<le> unat limit \<Longrightarrow> eout (snd (run_state (enc v) (new_encoder limit))) = wire v"
    using enc_emits [OF assms(1)] r by (simp add: emits_def) (simp add: new_encoder_def)
qed

lemma decode_fresh:
  assumes "wf v" "inp d = wire v" "unat (remaining d) = length (wire v)" "derr d = None" "admits d"
    "sum_list (dcost v) \<le> unat (allocationLeft d)"
  shows "\<exists>d'. run_state dec d = (canon v, d') \<and> dfinish d' = None"
proof -
  have "dec_ready d (wire v) (dcost v)" using assms by (simp add: dec_ready_def)
  then have "run_state dec d = (canon v, dadv (wire v) (dcost v) d)" using dec_reads [OF assms(1)] by (simp add: reads_def)
  moreover have "remaining d = word_of_nat (length (wire v))" using word_of_nat_unat' [of "remaining d"] assms(3) by simp
  then have "dfinish (dadv (wire v) (dcost v) d) = None" using assms(4) by (simp add: dfinish_def dadv_def)
  ultimately show ?thesis by blast
qed

lemma slice_nonempty: "wire_opt wire xs \<noteq> []"
  by (simp add: wire_opt_def split: option.splits)

lemma slice_codec:
  "codec (\<lambda>xs. encodeBinarySlice xs enc) (decodeBinarySlice z k dec) (wf_opt wf) (map_option (map canon))
     (wire_opt wire) (ecost_opt ecost) (dcost_opt (unat k) dcost)"
  by unfold_locales
    (simp_all add: encodeBinarySlice_def slice_emits emits_eguard slice_reads slice_nonempty)

text \<open>A slice whose encoder charges the decoder's allocation first.\<close>

lemma admitted_slice_emits:
  assumes "wf_opt wf xs" "unat k < 2 ^ 16"
  shows "emits (do { admitDecoded (word_of_nat (opt_length xs)) k;
      eguard (case xs of None \<Rightarrow> enc_u 0 | Some l \<Rightarrow> do { enc_u (word_of_nat (length l) + 1); enc_loop enc l }) })
    (wire_opt wire xs) (opt_length xs * unat k + ecost_opt ecost xs)"
proof -
  have n: "opt_length xs < 2 ^ 48" using assms(1) by (auto simp: wf_opt_def opt_length_def split: option.splits)
  then have "opt_length xs * unat k < 2 ^ 48 * 2 ^ 16" using assms(2) by (intro mult_strict_mono) auto
  then have "emits (admitDecoded (word_of_nat (opt_length xs)) k) [] (opt_length xs * unat k)"
    using n by (intro emits_admit) simp_all
  from emits_bind [OF this emits_eguard [OF slice_emits [OF assms(1)]]] show ?thesis by simp
qed

lemma admitted_slice_codec:
  assumes "unat k < 2 ^ 16"
  shows "codec (\<lambda>xs. do { admitDecoded (word_of_nat (opt_length xs)) k;
      eguard (case xs of None \<Rightarrow> enc_u 0 | Some l \<Rightarrow> do { enc_u (word_of_nat (length l) + 1); enc_loop enc l }) })
    (decodeBinarySlice z k dec) (wf_opt wf) (map_option (map canon)) (wire_opt wire)
    (\<lambda>xs. opt_length xs * unat k + ecost_opt ecost xs) (dcost_opt (unat k) dcost)"
  using assms by unfold_locales (simp_all add: admitted_slice_emits slice_reads slice_nonempty)

end

interpretation u_codec: codec enc_u dec_u "\<lambda>_. True" "\<lambda>v. v" put_uvarint "\<lambda>_. 0" "\<lambda>_. []"
  by unfold_locales (simp_all add: enc_u_def emits_write reads_u)

interpretation str_codec: codec enc_str dec_str wf_str "\<lambda>s. s" wire_str "\<lambda>s. length s * 2" "\<lambda>s. [length s * 2]"
  by unfold_locales (simp_all add: emits_str reads_str)

lemma sum_dcost_opt: "opt_length xs * k + ecost_opt (\<lambda>x. sum_list (c x)) xs = sum_list (dcost_opt k c xs)"
  by (auto simp: opt_length_def ecost_opt_def dcost_opt_def sum_list_concat o_def split: option.splits)

interpretation strings_codec: codec enc_strings dec_strings "wf_opt wf_str" "\<lambda>xs. xs" "wire_opt wire_str"
  "\<lambda>xs. sum_list (dcost_opt 16 (\<lambda>s. [length s * 2]) xs)" "dcost_opt 16 (\<lambda>s. [length s * 2])"
  using str_codec.admitted_slice_codec [of 16 "[]"]
  by (simp add: enc_strings_def [abs_def] dec_strings_def sum_dcost_opt [symmetric])

interpretation ids_codec: codec enc_ids dec_ids "wf_opt (\<lambda>_. True)" "\<lambda>xs. xs" "wire_opt put_uvarint"
  "\<lambda>xs. sum_list (dcost_opt 8 (\<lambda>_. []) xs)" "dcost_opt 8 (\<lambda>_. [])"
  using u_codec.admitted_slice_codec [of 8 0]
  by (simp add: enc_ids_def [abs_def] dec_ids_def sum_dcost_opt [symmetric])

lemma emits_bytes:
  assumes "wf_opt (\<lambda>_. True) bs"
  shows "emits (enc_bytes bs) (wire_opt (\<lambda>b. [b]) bs) (sum_list (dcost_opt 1 (\<lambda>_. []) bs))"
proof -
  have n: "opt_length bs < 2 ^ 48" using assms by (auto simp: wf_opt_def opt_length_def split: option.splits)
  then have a: "emits (admitDecoded (word_of_nat (opt_length bs)) 1) [] (opt_length bs * unat (1 :: u64))"
    by (intro emits_admit) simp_all
  have "emits (case bs of None \<Rightarrow> enc_u 0 | Some bs \<Rightarrow> do { enc_u (word_of_nat (length bs) + 1); ewrite bs })
      (wire_opt (\<lambda>b. [b]) bs) 0"
    using emits_bind [OF emits_write emits_write] by (auto simp: wire_opt_def enc_u_def emits_write split: option.splits)
  from emits_bind [OF a this] show ?thesis
    by (auto simp: enc_bytes_def opt_length_def dcost_opt_def split: option.splits)
qed

lemma reads_bytes:
  assumes "wf_opt (\<lambda>_. True) bs"
  shows "reads dec_bytes bs (wire_opt (\<lambda>b. [b]) bs) (dcost_opt 1 (\<lambda>_. []) bs)"
proof (cases bs)
  case None
  then show ?thesis by (simp add: dec_bytes_def wire_opt_def dcost_opt_def reads_length_nil reads_return)
next
  case (Some l)
  have "length l < 2 ^ 63" using assms Some by (simp add: wf_opt_def)
  then show ?thesis
    using reads_length [of "case_option (State_Monad.return None) (\<lambda>n. do { bs \<leftarrow> dread n; State_Monad.return (Some bs) })"
        "length l" "Some l" l "[]" 1] reads_map [OF reads_read [of l], of Some]
    by (simp add: Some dec_bytes_def wire_opt_def dcost_opt_def)
qed

interpretation bytes_codec: codec enc_bytes dec_bytes "wf_opt (\<lambda>_. True)" "\<lambda>bs. bs" "wire_opt (\<lambda>b. [b])"
  "\<lambda>bs. sum_list (dcost_opt 1 (\<lambda>_. []) bs)" "dcost_opt 1 (\<lambda>_. [])"
  by unfold_locales (erule emits_bytes, erule reads_bytes, simp add: wire_opt_def split: option.splits)

section \<open>Maps\<close>

lemma sort_entries_map: "sort_entries (map (\<lambda>(k, v). (k, f k v)) l) = map (\<lambda>(k, v). (k, f k v)) (sort_entries l)"
proof -
  have ins: "insort_key fst (k, f k v) (map (\<lambda>(k, v). (k, f k v)) ys) = map (\<lambda>(k, v). (k, f k v)) (insort_key fst (k, v) ys)" for k v ys
    by (induction ys) auto
  show ?thesis unfolding sort_entries_def by (induction l) (auto simp: ins)
qed

lemma sort_entries_props [simp]:
  "set (sort_entries l) = set l" "length (sort_entries l) = length l" "map fst (sort_entries l) = sort (map fst l)"
  "sort_entries (sort_entries l) = sort_entries l"
proof -
  have "map fst (insort_key fst x ys) = insort (fst x) (map fst ys)" for x :: "string \<times> 'a" and ys
    by (induction ys) auto
  then show "map fst (sort_entries l) = sort (map fst l)"
    unfolding sort_entries_def by (induction l) auto
qed (simp_all add: sort_entries_def sort_key_id_if_sorted)

lemma map_of_sort_entries:
  assumes "distinct (map fst l)"
  shows "map_of (sort_entries l) = map_of l"
proof
  fix k
  have d: "distinct (map fst (sort_entries l))" using assms by simp
  have "map_of (sort_entries l) k = Some v \<longleftrightarrow> map_of l k = Some v" for v
    unfolding map_of_eq_Some_iff [OF d] map_of_eq_Some_iff [OF assms] by simp
  then show "map_of (sort_entries l) k = map_of l k" by (metis option.exhaust)
qed

lemma enc_loop_map: "enc_loop f (map g xs) = enc_loop (\<lambda>x. f (g x)) xs"
  by (induction xs) simp_all

lemma enc_loop_cong: "(\<And>x. x \<in> set xs \<Longrightarrow> f x = g x) \<Longrightarrow> enc_loop f xs = enc_loop g xs"
  by (induction xs) simp_all

lemma enc_keys_entries:
  assumes "distinct (map fst l)"
  shows "enc_loop (\<lambda>key. do { enc_str key; val (the (map_of l key)) }) (sort (map fst l)) =
    enc_loop (\<lambda>(k, v). do { enc_str k; val v }) (sort_entries l)"
proof -
  have "map_of l (fst x) = Some (snd x)" if "x \<in> set (sort_entries l)" for x
    using that assms by (cases x rule: prod.exhaust) simp
  then show ?thesis
    unfolding sort_entries_props(3) [symmetric] enc_loop_map
    by (intro enc_loop_cong) (auto simp: case_prod_unfold)
qed

definition wire_props :: "('a \<Rightarrow> byte list) \<Rightarrow> (string \<times> 'a) list option \<Rightarrow> byte list" where
  "wire_props w m = wire_opt snd (map_option (\<lambda>l. sort_entries (map (\<lambda>(k, v). (k, wire_str k @ w v)) l)) m)"

definition dcost_props :: "('a \<Rightarrow> nat list) \<Rightarrow> (string \<times> 'a) list option \<Rightarrow> nat list" where
  "dcost_props c m = dcost_opt 208 snd (map_option (\<lambda>l. sort_entries (map (\<lambda>(k, v). (k, length k * 2 # c v)) l)) m)"

definition canon_props :: "('a \<Rightarrow> 'b) \<Rightarrow> (string \<times> 'a) list option \<Rightarrow> (string \<times> 'b) list option" where
  "canon_props f m = map_option (\<lambda>l. sort_entries (map (\<lambda>(k, v). (k, f v)) l)) m"

definition wf_props :: "('a \<Rightarrow> bool) \<Rightarrow> (string \<times> 'a) list option \<Rightarrow> bool" where
  "wf_props p m \<longleftrightarrow> (case m of None \<Rightarrow> True | Some l \<Rightarrow> distinct (map fst l)) \<and> wf_opt (\<lambda>(k, v). wf_str k \<and> p v) m"

lemma wf_value_PMap: "wf_value depth (PMap m) \<longleftrightarrow> depth + 1 \<le> maxBinaryValueDepth \<and> wf_props (wf_value (depth + 1)) m"
  by (simp add: wf_props_def)

lemma props_Some:
  "wire_props w (Some l) = put_uvarint (word_of_nat (length l) + 1) @ concat (map (\<lambda>(k, v). wire_str k @ w v) (sort_entries l))"
  "dcost_props c (Some l) = length l * 208 # concat (map (\<lambda>(k, v). length k * 2 # c v) (sort_entries l))"
  "canon_props f (Some l) = Some (map (\<lambda>(k, v). (k, f v)) (sort_entries l))"
  unfolding wire_props_def dcost_props_def canon_props_def option.map sort_entries_map
  by (simp_all add: wire_opt_def dcost_opt_def o_def case_prod_unfold)

lemma props_None [simp]:
  "wire_props w None = put_uvarint 0" "dcost_props c None = []" "canon_props f None = None"
  by (simp_all add: wire_props_def dcost_props_def canon_props_def wire_opt_def dcost_opt_def)

locale value_codec = codec enc dec wf canon wire ecost dcost
  for enc :: "persistedValue \<Rightarrow> enc" and dec wf canon wire ecost dcost +
  assumes mirrored: "ecost v = sum_list (dcost v)"
begin

lemma entry_codec:
  "codec (\<lambda>(k, v). do { enc_str k; enc v }) (do { k \<leftarrow> dec_str; v \<leftarrow> dec; State_Monad.return (k, v) })
     (\<lambda>(k, v). wf_str k \<and> wf v) (\<lambda>(k, v). (k, canon v)) (\<lambda>(k, v). wire_str k @ wire v)
     (\<lambda>(k, v). sum_list (length k * 2 # dcost v)) (\<lambda>(k, v). length k * 2 # dcost v)"
proof
  fix e :: "string \<times> persistedValue"
  obtain k v where e: "e = (k, v)" by (metis prod.exhaust)
  assume "case e of (k, v) \<Rightarrow> wf_str k \<and> wf v"
  then have w: "wf_str k" "wf v" by (simp_all add: e)
  show "emits (case e of (k, v) \<Rightarrow> do { enc_str k; enc v }) (case e of (k, v) \<Rightarrow> wire_str k @ wire v)
      (case e of (k, v) \<Rightarrow> sum_list (length k * 2 # dcost v))"
    using emits_bind [OF emits_str [OF w(1)] enc_emits [OF w(2)]] by (simp add: e mirrored)
  show "reads (do { k \<leftarrow> dec_str; v \<leftarrow> dec; State_Monad.return (k, v) }) (case e of (k, v) \<Rightarrow> (k, canon v))
      (case e of (k, v) \<Rightarrow> wire_str k @ wire v) (case e of (k, v) \<Rightarrow> length k * 2 # dcost v)"
  proof -
    have "reads (do { k \<leftarrow> dec_str; v \<leftarrow> dec; State_Monad.return (k, v) }) (k, canon v) (wire_str k @ wire v)
        ([length k * 2] @ dcost v)"
      using w by (intro reads_bind [OF reads_str] reads_map dec_reads)
    then show ?thesis by (simp add: e)
  qed
  show "(case e of (k, v) \<Rightarrow> wire_str k @ wire v) \<noteq> []" by (simp add: e)
qed

lemma entries_reads:
  assumes "list_all (\<lambda>(k, v). wf_str k \<and> wf v) l" "distinct (map fst (acc @ l))"
  shows "reads (dec_entries dec acc (length l)) (acc @ map (\<lambda>(k, v). (k, canon v)) l)
    (concat (map (\<lambda>(k, v). wire_str k @ wire v) l)) (concat (map (\<lambda>(k, v). length k * 2 # dcost v) l))"
  using assms
proof (induction l arbitrary: acc)
  case Nil
  then show ?case by (simp add: reads_return)
next
  case (Cons e l)
  obtain k v where e: "e = (k, v)" by (metis prod.exhaust)
  have w: "wf_str k" "wf v" "list_all (\<lambda>(k, v). wf_str k \<and> wf v) l" using Cons.prems(1) by (simp_all add: e)
  have "map_of acc k = None" using Cons.prems(2) by (auto simp: e map_of_eq_None_iff)
  moreover have "reads (dec_entries dec (acc @ [(k, canon v)]) (length l)) (acc @ (k, canon v) # map (\<lambda>(k, v). (k, canon v)) l)
    (concat (map (\<lambda>(k, v). wire_str k @ wire v) l)) (concat (map (\<lambda>(k, v). length k * 2 # dcost v) l))"
    using Cons.IH [OF w(3), of "acc @ [(k, canon v)]"] Cons.prems(2) by (simp add: e)
  ultimately have "reads (dguard acc
      (if map_of acc k \<noteq> None then dfail (ErrMsg ''duplicate binary property key'') acc
        else dec_entries dec (acc @ [(k, canon v)]) (length l))) (acc @ (k, canon v) # map (\<lambda>(k, v). (k, canon v)) l)
    (concat (map (\<lambda>(k, v). wire_str k @ wire v) l)) (concat (map (\<lambda>(k, v). length k * 2 # dcost v) l))"
    by (intro reads_dguard) simp
  then have "reads (dec_entries dec acc (Suc (length l))) (acc @ (k, canon v) # map (\<lambda>(k, v). (k, canon v)) l)
      (wire_str k @ wire v @ concat (map (\<lambda>(k, v). wire_str k @ wire v) l))
      ([length k * 2] @ dcost v @ concat (map (\<lambda>(k, v). length k * 2 # dcost v) l))"
    unfolding dec_entries.simps using w by (intro reads_bind [OF reads_str] reads_bind [OF dec_reads])
  then show ?case by (simp add: e)
qed

lemma props_emits:
  assumes "wf_props wf m" "depth \<le> maxBinaryValueDepth"
  shows "emits (enc_properties_with enc m depth) (wire_props wire m) (sum_list (dcost_props dcost m))"
proof -
  let ?ent = "map_option sort_entries m"
  have wf: "wf_opt (\<lambda>(k, v). wf_str k \<and> wf v) ?ent"
    using assms(1) by (auto simp: wf_props_def wf_opt_def list_all_iff split: option.splits)
  have "enc_properties_with enc m depth = do { admitDecoded (word_of_nat (opt_length ?ent)) 208;
      eguard (case ?ent of None \<Rightarrow> enc_u 0 | Some l \<Rightarrow> do {
        enc_u (word_of_nat (length l) + 1); enc_loop (\<lambda>(k, v). do { enc_str k; enc v }) l }) }"
    using assms enc_keys_entries [of _ enc]
    by (auto simp: enc_properties_with_def wf_props_def opt_length_def split: option.splits)
  with codec.admitted_slice_emits [OF entry_codec wf, of 208]
  have "emits (enc_properties_with enc m depth) (wire_opt (\<lambda>(k, v). wire_str k @ wire v) ?ent)
      (opt_length ?ent * 208 + ecost_opt (\<lambda>(k, v). sum_list (length k * 2 # dcost v)) ?ent)" by simp
  moreover have "wire_opt (\<lambda>(k, v). wire_str k @ wire v) ?ent = wire_props wire m"
    by (cases m) (simp_all add: props_Some wire_opt_def)
  moreover have "opt_length ?ent * 208 + ecost_opt (\<lambda>(k, v). sum_list (length k * 2 # dcost v)) ?ent = sum_list (dcost_props dcost m)"
    by (cases m) (simp_all add: props_Some opt_length_def ecost_opt_def sum_list_concat o_def case_prod_unfold)
  ultimately show ?thesis by simp
qed

lemma props_reads:
  assumes "wf_props wf m" "depth \<le> maxBinaryValueDepth"
  shows "reads (dec_properties_with dec depth) (canon_props canon m) (wire_props wire m) (dcost_props dcost m)"
proof (cases m)
  case None
  then show ?thesis
    using assms(2) by (simp add: dec_properties_with_def canon_props_def wire_props_def dcost_props_def wire_opt_def dcost_opt_def
      reads_length_nil reads_return not_less)
next
  case (Some l)
  define s where "s = sort_entries l"
  have wf: "list_all (\<lambda>(k, v). wf_str k \<and> wf v) s" "distinct (map fst s)" "length s < 2 ^ 63"
    using assms(1) by (auto simp: Some wf_props_def wf_opt_def list_all_iff s_def)
  have "reads (dec_entries dec [] (length s) \<bind> (\<lambda>m. State_Monad.return (Some m))) (Some (map (\<lambda>(k, v). (k, canon v)) s))
    (concat (map (\<lambda>(k, v). wire_str k @ wire v) s)) (concat (map (\<lambda>(k, v). length k * 2 # dcost v) s))"
    using entries_reads [of s "[]"] wf by (intro reads_map) simp
  moreover have "length s \<le> length (concat (map (\<lambda>(k, v). wire_str k @ wire v) s))"
    using codec.loop_length [OF entry_codec wf(1)] .
  ultimately show ?thesis
    using assms(2) wf(3) reads_length [of "case_option (State_Monad.return None)
        (\<lambda>n. dec_entries dec [] n \<bind> (\<lambda>m. State_Monad.return (Some m)))" "length s" _ _ _ 208]
    by (simp add: Some dec_properties_with_def props_Some s_def [symmetric] not_less) (simp add: s_def)
qed

end

section \<open>Values\<close>

lemma value_map_simps:
  "wire_value (PMap m) = 9 # wire_props wire_value m" "dcost_value (PMap m) = dcost_props dcost_value m"
  "canon_value (PMap m) = PMap (canon_props canon_value m)"
  by (simp_all add: wire_props_def dcost_props_def canon_props_def)

declare wire_value.simps(10) [simp del] dcost_value.simps(5) [simp del] canon_value.simps(2) [simp del] wf_value.simps(6) [simp del]

lemma emits_tag_then: "emits m w c \<Longrightarrow> emits (do { enc_tag t; m }) (t # w) c"
  using emits_bind [of "enc_tag t" "[t]" 0 "\<lambda>_. m" w c] by (simp add: enc_tag_def emits_write)

interpretation vector_codec: codec enc_vector_item dec_vector_item finite32 "\<lambda>x. x" be32 "\<lambda>_. 0" "\<lambda>_. []"
proof
  fix x assume x: "finite32 x"
  then show "emits (enc_vector_item x) (be32 x) 0" by (simp add: enc_vector_item_def emits_write)
  have "reads dec_vector_item x (be32 x @ []) ([] @ [])"
    unfolding dec_vector_item_def using reads_read [of "be32 x"] x
    by (intro reads_bind [of "dread 4" "be32 x"] reads_dguard) (simp_all add: reads_return)
  then show "reads dec_vector_item x (be32 x) []" by simp
qed (simp add: be32_def)

lemma admit_then:
  assumes "opt_length xs < 2 ^ 48" "unat k < 2 ^ 16" "emits m w c"
  shows "emits (do { admitDecoded (word_of_nat (opt_length xs)) k; m }) w (opt_length xs * unat k + c)"
proof -
  have "opt_length xs * unat k < 2 ^ 48 * 2 ^ 16" using assms(1,2) by (intro mult_strict_mono) auto
  then have "emits (admitDecoded (word_of_nat (opt_length xs)) k) [] (opt_length xs * unat k)"
    using assms(1) by (intro emits_admit) simp_all
  from emits_bind [OF this assms(3)] show ?thesis by simp
qed

lemma wf_opt_length: "wf_opt p xs \<Longrightarrow> opt_length xs < 2 ^ 48"
  by (auto simp: wf_opt_def opt_length_def split: option.splits)

lemma vector_emits:
  assumes "wf_opt finite32 xs"
  shows "emits (do { admitDecoded (word_of_nat (opt_length xs)) 4; enc_tag 7;
      (case xs of None \<Rightarrow> enc_u 0 | Some l \<Rightarrow> do { enc_u (word_of_nat (length l) + 1); enc_loop enc_vector_item l }) })
    (wire_value (PVector xs)) (sum_list (dcost_value (PVector xs)))"
proof -
  have "ecost_opt (\<lambda>_. 0) xs = 0" by (simp add: ecost_opt_def split: option.splits)
  with admit_then [OF wf_opt_length [OF assms], of 4, OF _ emits_tag_then [OF vector_codec.slice_emits [OF assms]]]
  show ?thesis using sum_dcost_opt [of xs 4 "\<lambda>_. []"] by simp
qed

lemma length_concat_be32: "length (concat (map be32 l)) = 4 * length l"
  by (induction l) auto

lemma vector_reads:
  assumes "wf_opt finite32 xs"
  shows "reads (do { n \<leftarrow> dec_length 4;
      (case n of None \<Rightarrow> State_Monad.return (PVector None)
       | Some n \<Rightarrow> do { d \<leftarrow> State_Monad.get;
           (if word_of_nat n > remaining d div 4 then dfail ErrUnexpectedEOF (PVector None)
            else do { xs \<leftarrow> dec_loop 0 dec_vector_item n; State_Monad.return (PVector (Some xs)) }) }) })
    (PVector xs) (wire_opt be32 xs) (dcost_opt 4 (\<lambda>_. []) xs)"
proof (cases xs)
  case None
  then show ?thesis by (simp add: wire_opt_def dcost_opt_def reads_length_nil reads_return)
next
  case (Some l)
  have l: "list_all finite32 l" "length l < 2 ^ 48" using assms by (simp_all add: Some wf_opt_def)
  let ?body = "dec_loop 0 dec_vector_item (length l) \<bind> (\<lambda>xs. State_Monad.return (PVector (Some xs)))"
  have body: "reads ?body (PVector (Some l)) (concat (map be32 l)) []"
    using reads_map [OF vector_codec.loop_reads [OF l(1), of 0], of "\<lambda>xs. PVector (Some xs)"] by simp
  have "\<not> word_of_nat (length l) > remaining d div 4" if "dec_ready d (concat (map be32 l)) []" for d
  proof -
    have "4 * length l \<le> unat (remaining d)" using that by (simp add: dec_ready_def length_concat_be32)
    then have "length l \<le> unat (remaining d) div 4" by simp
    moreover have "unat (word_of_nat (length l) :: u64) = length l" using l(2) by (intro unat_word_of_nat_less) simp
    ultimately show ?thesis by (simp add: word_less_nat_alt unat_div)
  qed
  with body have "reads (do { d \<leftarrow> State_Monad.get;
      (if word_of_nat (length l) > remaining d div 4 then dfail ErrUnexpectedEOF (PVector None) else ?body) })
     (PVector (Some l)) (concat (map be32 l)) []"
    by (simp add: reads_def)
  then show ?thesis
    using l(2) reads_length [of "case_option (State_Monad.return (PVector None)) (\<lambda>n. do { d \<leftarrow> State_Monad.get;
           (if word_of_nat n > remaining d div 4 then dfail ErrUnexpectedEOF (PVector None)
            else do { xs \<leftarrow> dec_loop 0 dec_vector_item n; State_Monad.return (PVector (Some xs)) }) })"
        "length l" "PVector (Some l)" "concat (map be32 l)" "[]" 4]
    by (simp add: Some wire_opt_def dcost_opt_def length_concat_be32)
qed

lemma wf_value_depth: "wf_value depth v \<Longrightarrow> depth \<le> maxBinaryValueDepth"
  by (cases v) (auto simp: wf_value_PMap)

abbreviation is_value_codec :: "nat \<Rightarrow> bool" where
  "is_value_codec depth \<equiv>
     value_codec (enc_value depth) (dec_value depth) (wf_value depth) canon_value wire_value
       (\<lambda>v. sum_list (dcost_value v)) dcost_value"

lemma value_emits:
  assumes "wf_value depth v" "is_value_codec (depth + 1)"
  shows "emits (enc_value depth v) (wire_value v) (sum_list (dcost_value v))"
proof -
  have d: "\<not> depth > maxBinaryValueDepth" using wf_value_depth [OF assms(1)] by simp
  note unf = enc_value.simps [of depth] if_not_P [OF d]
  note vc = value_codec.axioms(1) [OF assms(2)]
  have tag: "emits (enc_tag t) [t] 0" for t by (simp add: enc_tag_def emits_write)
  show ?thesis
  proof (cases v)
    case (PBool b)
    then show ?thesis unfolding unf by (auto intro!: emits_eguard emits_tag_then tag)
  next
    case (PInt i)
    then show ?thesis unfolding unf by (auto intro!: emits_eguard emits_tag_then emits_write simp: enc_i_def)
  next
    case (PFloat f)
    then show ?thesis unfolding unf using assms(1) by (auto intro!: emits_eguard emits_tag_then emits_write)
  next
    case (PString s)
    then show ?thesis
      unfolding unf using assms(1) emits_eguard [OF emits_tag_then [OF emits_str [of s]]] by simp
  next
    case (PBytes bs)
    then show ?thesis
      unfolding unf using assms(1) emits_eguard [OF emits_tag_then [OF emits_bytes [of bs]]] by simp
  next
    case (PVector xs)
    then show ?thesis
      unfolding unf using assms(1) emits_eguard [OF vector_emits [of xs]] by simp
  next
    case (PList xs)
    then have wf: "wf_opt (wf_value (depth + 1)) xs" using assms(1) by simp
    from emits_eguard [OF admit_then [OF wf_opt_length [OF wf], of 136, OF _ emits_tag_then [OF codec.slice_emits [OF vc wf]]]]
    show ?thesis unfolding unf by (simp add: PList sum_dcost_opt [symmetric])
  next
    case (PMap m)
    then have wf: "wf_props (wf_value (depth + 1)) m" "depth + 1 \<le> maxBinaryValueDepth"
      using assms(1) by (simp_all add: wf_value_PMap)
    from emits_eguard [OF emits_tag_then [OF value_codec.props_emits [OF assms(2) wf]]]
    show ?thesis unfolding unf by (simp add: PMap value_map_simps)
  qed (use assms(1) unf in \<open>auto intro!: emits_eguard tag\<close>)
qed

lemma value_reads:
  assumes "wf_value depth v" "is_value_codec (depth + 1)"
  shows "reads (dec_value depth) (canon_value v) (wire_value v) (dcost_value v)"
proof -
  have d: "\<not> depth > maxBinaryValueDepth" using wf_value_depth [OF assms(1)] by simp
  note vc = value_codec.axioms(1) [OF assms(2)]
  define body where "body tag = (if tag = 0 then State_Monad.return PEmpty
           else if tag = 1 then State_Monad.return PNull
           else if tag = 2 then do {
             flag \<leftarrow> dReadByte;
             dguard (PBool False)
               (if flag > 1 then dfail (ErrMsg ''invalid binary boolean'') (PBool False)
                else State_Monad.return (PBool (flag = 1)))
           }
           else if tag = 3 then do { i \<leftarrow> dec_i; State_Monad.return (PInt i) }
           else if tag = 4 then do {
             bs \<leftarrow> dread 8;
             dguard (PFloat (from_be64 bs))
               (if \<not> finite64 (from_be64 bs)
                then dfail (ErrMsg ''non-finite binary property'') (PFloat (from_be64 bs))
                else State_Monad.return (PFloat (from_be64 bs)))
           }
           else if tag = 5 then do { s \<leftarrow> dec_str; State_Monad.return (PString s) }
           else if tag = 6 then do { bs \<leftarrow> dec_bytes; State_Monad.return (PBytes bs) }
           else if tag = 7 then do {
             n \<leftarrow> dec_length 4;
             (case n of
                None \<Rightarrow> State_Monad.return (PVector None)
              | Some n \<Rightarrow> do {
                  d \<leftarrow> State_Monad.get;
                  (if word_of_nat n > remaining d div 4 then dfail ErrUnexpectedEOF (PVector None)
                   else do { xs \<leftarrow> dec_loop 0 dec_vector_item n; State_Monad.return (PVector (Some xs)) })
                })
           }
           else if tag = 8 then do {
             xs \<leftarrow> decodeBinarySlice PEmpty 136 (dec_value (depth + 1));
             State_Monad.return (PList xs)
           }
           else if tag = 9 then do {
             m \<leftarrow> dec_properties_with (dec_value (depth + 1)) (depth + 1);
             State_Monad.return (PMap m)
           }
           else dfail (ErrMsg ''unknown binary property tag'') PEmpty)" for tag :: byte
  have unf: "dec_value depth = dguard PEmpty (do { tag \<leftarrow> dReadByte; dguard PEmpty (body tag) })"
    unfolding dec_value.simps [of depth] if_not_P [OF d] body_def ..
  have main: "reads (dec_value depth) x (t # w) cs" if "reads (body t) x w cs" for x t w cs
  proof -
    have "reads (do { tag \<leftarrow> dReadByte; dguard PEmpty (body tag) }) x ([t] @ w) ([] @ cs)"
      using that by (intro reads_bind [OF reads_ReadByte] reads_dguard)
    then show ?thesis unfolding unf by (simp add: reads_dguard)
  qed
  show ?thesis
  proof (cases v)
    case (PBool b)
    define f :: "byte \<Rightarrow> persistedValue dec" where "f flag = dguard (PBool False)
        (if flag > 1 then dfail (ErrMsg ''invalid binary boolean'') (PBool False)
         else State_Monad.return (PBool (flag = 1)))" for flag
    have "reads (dReadByte \<bind> f) (PBool b) ([if b then 1 else 0] @ []) ([] @ [])"
      by (rule reads_bind [OF reads_ReadByte]) (auto simp: f_def intro!: reads_dguard reads_return)
    then have "reads (body 2) (PBool b) [if b then 1 else 0] []"
      unfolding body_def f_def by simp
    with main [of 2] show ?thesis by (simp add: PBool)
  next
    case (PInt i)
    have "reads (body 3) (PInt i) (put_uvarint (zigzag i)) []"
      unfolding body_def using reads_map [OF reads_i [of i], of PInt] by simp
    with main [of 3] show ?thesis by (simp add: PInt)
  next
    case (PFloat f)
    define g where "g bs = dguard (PFloat (from_be64 bs))
        (if \<not> finite64 (from_be64 bs) then dfail (ErrMsg ''non-finite binary property'') (PFloat (from_be64 bs))
         else State_Monad.return (PFloat (from_be64 bs)))" for bs
    have "reads (dread 8 \<bind> g) (PFloat f) (be64 f @ []) ([] @ [])"
      using reads_read [of "be64 f"] assms(1)
      by (intro reads_bind [of "dread 8" "be64 f"]) (auto simp: g_def PFloat intro!: reads_dguard reads_return)
    then have "reads (body 4) (PFloat f) (be64 f) []"
      unfolding body_def g_def by simp
    with main [of 4] show ?thesis by (simp add: PFloat)
  next
    case (PString s)
    have "reads (body 5) (PString s) (wire_str s) [length s * 2]"
      unfolding body_def using reads_map [OF reads_str [of s], of PString] assms(1) by (simp add: PString)
    with main [of 5] show ?thesis by (simp add: PString)
  next
    case (PBytes bs)
    have "reads (body 6) (PBytes bs) (wire_opt (\<lambda>b. [b]) bs) (dcost_opt 1 (\<lambda>_. []) bs)"
      unfolding body_def using reads_map [OF reads_bytes [of bs], of PBytes] assms(1) by (simp add: PBytes)
    with main [of 6] show ?thesis by (simp add: PBytes)
  next
    case (PVector xs)
    have "reads (body 7) (PVector xs) (wire_opt be32 xs) (dcost_opt 4 (\<lambda>_. []) xs)"
      unfolding body_def using vector_reads [of xs] assms(1) by (simp add: PVector)
    with main [of 7] show ?thesis by (simp add: PVector)
  next
    case (PList xs)
    then have wf: "wf_opt (wf_value (depth + 1)) xs" using assms(1) by simp
    have "reads (body 8) (PList (map_option (map canon_value) xs)) (wire_opt wire_value xs) (dcost_opt 136 dcost_value xs)"
      unfolding body_def using reads_map [OF codec.slice_reads [OF vc wf, of PEmpty 136], of PList] by simp
    with main [of 8] show ?thesis by (simp add: PList)
  next
    case (PMap m)
    then have wf: "wf_props (wf_value (depth + 1)) m" "depth + 1 \<le> maxBinaryValueDepth"
      using assms(1) by (simp_all add: wf_value_PMap)
    have "reads (body 9) (PMap (canon_props canon_value m)) (wire_props wire_value m) (dcost_props dcost_value m)"
      unfolding body_def using reads_map [OF value_codec.props_reads [OF assms(2) wf], of PMap] by simp
    with main [of 9] show ?thesis by (simp add: PMap value_map_simps)
  next
    case PEmpty
    show ?thesis using main [of 0 PEmpty "[]" "[]"] by (simp add: PEmpty body_def reads_return)
  next
    case PNull
    show ?thesis using main [of 1 PNull "[]" "[]"] by (simp add: PNull body_def reads_return)
  qed (use assms(1) in simp)
qed

lemma value_codec_all: "is_value_codec depth"
proof (induction "66 - depth" arbitrary: depth)
  case 0
  then have "\<not> wf_value depth v" for v using wf_value_depth [of depth v] by (auto simp: maxBinaryValueDepth_def)
  then show ?case by unfold_locales auto
next
  case (Suc n)
  then have IH: "is_value_codec (depth + 1)" by simp
  show ?case
  proof
    fix v assume v: "wf_value depth v"
    show "emits (enc_value depth v) (wire_value v) (sum_list (dcost_value v))" by (rule value_emits [OF v IH])
    show "reads (dec_value depth) (canon_value v) (wire_value v) (dcost_value v)" by (rule value_reads [OF v IH])
    show "wire_value v \<noteq> []" using v by (cases v) (simp_all add: value_map_simps)
  qed simp
qed

section \<open>Encoding does not depend on the order of map entries\<close>

lemma opt_length_map [simp]: "opt_length (map_option (map f) xs) = opt_length xs"
  by (cases xs) (simp_all add: opt_length_def)

lemma map_of_map_values: "map_of (map (\<lambda>(k, v). (k, f v)) l) k = map_option f (map_of l k)"
  by (induction l) auto

lemma enc_props_canon:
  assumes "\<And>v. v \<in> (case m of None \<Rightarrow> {} | Some l \<Rightarrow> snd ` set l) \<Longrightarrow> val (canon_value v) = val v"
    and "case m of None \<Rightarrow> True | Some l \<Rightarrow> distinct (map fst l)"
  shows "enc_properties_with val (canon_props canon_value m) depth = enc_properties_with val m depth"
proof (cases m)
  case (Some l)
  have k: "map fst (map (\<lambda>(k, v). (k, canon_value v)) (sort_entries l)) = sort (map fst l)"
    by (simp add: o_def case_prod_unfold sort_entries_props(3) [symmetric] del: sort_entries_props(3))
  have "enc_loop (\<lambda>key. do { enc_str key; val (the (map_of (map (\<lambda>(k, v). (k, canon_value v)) (sort_entries l)) key)) }) (sort (map fst l)) =
      enc_loop (\<lambda>key. do { enc_str key; val (the (map_of l key)) }) (sort (map fst l))"
  proof (rule enc_loop_cong)
    fix key assume "key \<in> set (sort (map fst l))"
    then obtain v where v: "map_of l key = Some v" by (metis map_of_eq_None_iff not_Some_eq set_map set_sort)
    then have "val (canon_value v) = val v" using assms(1) by (force simp: Some dest: map_of_SomeD)
    with v assms(2) show "do { enc_str key; val (the (map_of (map (\<lambda>(k, v). (k, canon_value v)) (sort_entries l)) key)) } =
        do { enc_str key; val (the (map_of l key)) }"
      by (simp add: map_of_map_values map_of_sort_entries Some)
  qed
  then show ?thesis
    by (simp add: enc_properties_with_def Some props_Some k [simplified] opt_length_def sort_key_id_if_sorted)
qed (simp add: enc_properties_with_def)

lemma enc_value_canon: "wf_value depth v \<Longrightarrow> enc_value depth (canon_value v) = enc_value depth v"
proof (induction "66 - depth" arbitrary: depth v)
  case 0
  then show ?case using wf_value_depth [of depth v] by (simp add: maxBinaryValueDepth_def)
next
  case (Suc n)
  have IH: "wf_value (depth + 1) x \<Longrightarrow> enc_value (depth + 1) (canon_value x) = enc_value (depth + 1) x" for x
    using Suc.hyps(1) [of "depth + 1" x] Suc.hyps(2) by simp
  show ?case
  proof (cases v)
    case (PList xs)
    have "enc_loop (enc_value (depth + 1)) (map canon_value l) = enc_loop (enc_value (depth + 1)) l" if "xs = Some l" for l
      unfolding enc_loop_map using Suc.prems PList that IH by (intro enc_loop_cong) (auto simp: wf_opt_def list_all_iff)
    then show ?thesis
      by (cases xs) (simp_all add: PList enc_value.simps [of depth] opt_length_def)
  next
    case (PMap m)
    have "enc_properties_with (enc_value (depth + 1)) (canon_props canon_value m) (depth + 1) =
        enc_properties_with (enc_value (depth + 1)) m (depth + 1)"
      using Suc.prems IH
      by (intro enc_props_canon) (auto simp: PMap wf_value_PMap wf_props_def wf_opt_def list_all_iff split: option.splits)
    then show ?thesis by (simp add: PMap enc_value.simps [of depth] value_map_simps)
  qed simp_all
qed

end
