(* ===== verification/BinaryRecords.thy ===== *)
theory BinaryRecords
  imports CodecLaws
begin

text \<open>
  The persisted records and their codecs: \<^verbatim>\<open>binary_records.go\<close>, \<^verbatim>\<open>binary_streams.go\<close>,
  \<^verbatim>\<open>binary_delta.go\<close> and the payload codecs of \<^verbatim>\<open>binary_state.go\<close>. Each record is the Go struct of the
  same name; a nil slice or map is \<open>None\<close>.
\<close>

section \<open>Persisted records\<close>

record persistedNode =
  pn_ID :: u64
  pn_Labels :: "string list option"
  pn_Properties :: persistedMap

record persistedEdge =
  pe_ID :: u64
  pe_SourceID :: u64
  pe_TargetID :: u64
  pe_Type :: string
  pe_Properties :: persistedMap

record persistedFTS =
  pf_NodeID :: u64
  pf_Text :: string

record persistedPropertyIndexDefinition =
  pi_Scope :: string
  pi_Property :: string

record persistedAppMetadata =
  pa_Key :: "byte list option"
  pa_Value :: "byte list option"

record persistedAppMetadataChange =
  pc_Key :: "byte list option"
  pc_Value :: "byte list option"
  pc_Delete :: bool

record persistedStreamRecord =
  sr_Sequence :: u64
  sr_Kind :: string
  sr_Payload :: persistedValue

record persistedStream =
  ps_Name :: string
  ps_Next :: u64
  ps_Records :: "persistedStreamRecord list option"

record persistedStreamOffset =
  so_Stream :: string
  so_Consumer :: string
  so_Sequence :: u64

record persistedStreams =
  pss_Streams :: "persistedStream list option"
  pss_Offsets :: "persistedStreamOffset list option"

record persistedStreamOperation =
  sop_Type :: string
  sop_Stream :: string
  sop_Consumer :: string
  sop_Sequence :: u64
  sop_Kind :: string
  sop_Payload :: persistedValue

record persistedPropertyChange =
  ppc_ID :: u64
  ppc_Set :: persistedMap
  ppc_Remove :: "string list option"

record persistedDelta =
  dl_DatabaseID :: string
  dl_CommitID :: u64
  dl_NextNodeID :: u64
  dl_NextEdgeID :: u64
  dl_UpsertNodes :: "persistedNode list option"
  dl_DeleteNodes :: "u64 list option"
  dl_UpsertEdges :: "persistedEdge list option"
  dl_DeleteEdges :: "u64 list option"
  dl_UpsertFTS :: "persistedFTS list option"
  dl_DeleteFTS :: "u64 list option"
  dl_AppMetadata :: "persistedAppMetadataChange list option"
  dl_Streams :: "persistedStreams option"
  dl_StreamOperations :: "persistedStreamOperation list option"
  dl_CreateNodeIndexes :: "persistedPropertyIndexDefinition list option"
  dl_DropNodeIndexes :: "persistedPropertyIndexDefinition list option"
  dl_CreateEdgeIndexes :: "persistedPropertyIndexDefinition list option"
  dl_DropEdgeIndexes :: "persistedPropertyIndexDefinition list option"
  dl_NodePropertyChanges :: "persistedPropertyChange list option"
  dl_EdgePropertyChanges :: "persistedPropertyChange list option"

record persistedState =
  st_DatabaseID :: string
  st_VectorDimensions :: u16
  st_CommitID :: u64
  st_NextNodeID :: u64
  st_NextEdgeID :: u64
  st_AppMetadata :: "persistedAppMetadata list option"
  st_Nodes :: "persistedNode list option"
  st_Edges :: "persistedEdge list option"
  st_FTS :: "persistedFTS list option"
  st_NodeIndexes :: "persistedPropertyIndexDefinition list option"
  st_EdgeIndexes :: "persistedPropertyIndexDefinition list option"
  st_Streams :: persistedStreams

record walPayload =
  wp_Kind :: string
  wp_Snapshot :: "persistedState option"
  wp_Delta :: "persistedDelta option"

text \<open>The zero values Go's \<^verbatim>\<open>var\<close> and \<^verbatim>\<open>make\<close> give.\<close>

definition zero_node :: persistedNode where
  "zero_node = \<lparr>pn_ID = 0, pn_Labels = None, pn_Properties = None\<rparr>"

definition zero_edge :: persistedEdge where
  "zero_edge = \<lparr>pe_ID = 0, pe_SourceID = 0, pe_TargetID = 0, pe_Type = [], pe_Properties = None\<rparr>"

definition zero_fts :: persistedFTS where
  "zero_fts = \<lparr>pf_NodeID = 0, pf_Text = []\<rparr>"

definition zero_index :: persistedPropertyIndexDefinition where
  "zero_index = \<lparr>pi_Scope = [], pi_Property = []\<rparr>"

definition zero_metadata :: persistedAppMetadata where
  "zero_metadata = \<lparr>pa_Key = None, pa_Value = None\<rparr>"

definition zero_metadata_change :: persistedAppMetadataChange where
  "zero_metadata_change = \<lparr>pc_Key = None, pc_Value = None, pc_Delete = False\<rparr>"

definition zero_stream_record :: persistedStreamRecord where
  "zero_stream_record = \<lparr>sr_Sequence = 0, sr_Kind = [], sr_Payload = PEmpty\<rparr>"

definition zero_stream :: persistedStream where
  "zero_stream = \<lparr>ps_Name = [], ps_Next = 0, ps_Records = None\<rparr>"

definition zero_offset :: persistedStreamOffset where
  "zero_offset = \<lparr>so_Stream = [], so_Consumer = [], so_Sequence = 0\<rparr>"

definition zero_streams :: persistedStreams where
  "zero_streams = \<lparr>pss_Streams = None, pss_Offsets = None\<rparr>"

definition zero_operation :: persistedStreamOperation where
  "zero_operation = \<lparr>sop_Type = [], sop_Stream = [], sop_Consumer = [], sop_Sequence = 0, sop_Kind = [], sop_Payload = PEmpty\<rparr>"

definition zero_change :: persistedPropertyChange where
  "zero_change = \<lparr>ppc_ID = 0, ppc_Set = None, ppc_Remove = None\<rparr>"

definition zero_delta :: persistedDelta where
  "zero_delta = \<lparr>dl_DatabaseID = [], dl_CommitID = 0, dl_NextNodeID = 0, dl_NextEdgeID = 0,
     dl_UpsertNodes = None, dl_DeleteNodes = None, dl_UpsertEdges = None, dl_DeleteEdges = None,
     dl_UpsertFTS = None, dl_DeleteFTS = None, dl_AppMetadata = None, dl_Streams = None,
     dl_StreamOperations = None, dl_CreateNodeIndexes = None, dl_DropNodeIndexes = None,
     dl_CreateEdgeIndexes = None, dl_DropEdgeIndexes = None, dl_NodePropertyChanges = None,
     dl_EdgePropertyChanges = None\<rparr>"

definition zero_state :: persistedState where
  "zero_state = \<lparr>st_DatabaseID = [], st_VectorDimensions = 0, st_CommitID = 0, st_NextNodeID = 0,
     st_NextEdgeID = 0, st_AppMetadata = None, st_Nodes = None, st_Edges = None, st_FTS = None,
     st_NodeIndexes = None, st_EdgeIndexes = None, st_Streams = zero_streams\<rparr>"

section \<open>Entity records\<close>

definition enc_node :: "persistedNode \<Rightarrow> enc" where
  "enc_node n = do { enc_u (pn_ID n); enc_strings (pn_Labels n); enc_properties (pn_Properties n) 0 }"

definition enc_edge :: "persistedEdge \<Rightarrow> enc" where
  "enc_edge ed = do {
     enc_u (pe_ID ed); enc_u (pe_SourceID ed); enc_u (pe_TargetID ed);
     enc_str (pe_Type ed);
     enc_properties (pe_Properties ed) 0
   }"

definition enc_fts :: "persistedFTS \<Rightarrow> enc" where
  "enc_fts f = do { enc_u (pf_NodeID f); enc_str (pf_Text f) }"

definition enc_index :: "persistedPropertyIndexDefinition \<Rightarrow> enc" where
  "enc_index d = do { enc_str (pi_Scope d); enc_str (pi_Property d) }"

definition enc_indexes :: "persistedPropertyIndexDefinition list option \<Rightarrow> enc" where
  "enc_indexes defs = encodeBinarySlice defs enc_index"

definition enc_metadata_entry :: "persistedAppMetadata \<Rightarrow> enc" where
  "enc_metadata_entry entry = do { enc_bytes (pa_Key entry); enc_bytes (pa_Value entry) }"

definition enc_metadata :: "persistedAppMetadata list option \<Rightarrow> enc" where
  "enc_metadata entries = encodeBinarySlice entries enc_metadata_entry"

definition dec_node :: "persistedNode dec" where
  "dec_node = do {
     i \<leftarrow> dec_u;
     dguard (zero_node\<lparr>pn_ID := i\<rparr>) (do {
       labels \<leftarrow> dec_strings;
       props \<leftarrow> dec_properties 0;
       State_Monad.return \<lparr>pn_ID = i, pn_Labels = labels, pn_Properties = props\<rparr>
     })
   }"

definition dec_edge :: "persistedEdge dec" where
  "dec_edge = do {
     i \<leftarrow> dec_u; source \<leftarrow> dec_u; target \<leftarrow> dec_u;
     ty \<leftarrow> dec_str;
     dguard (zero_edge\<lparr>pe_ID := i, pe_SourceID := source, pe_TargetID := target, pe_Type := ty\<rparr>) (do {
       props \<leftarrow> dec_properties 0;
       State_Monad.return \<lparr>pe_ID = i, pe_SourceID = source, pe_TargetID = target, pe_Type = ty, pe_Properties = props\<rparr>
     })
   }"

definition dec_fts :: "persistedFTS dec" where
  "dec_fts = do { i \<leftarrow> dec_u; t \<leftarrow> dec_str; State_Monad.return \<lparr>pf_NodeID = i, pf_Text = t\<rparr> }"

definition dec_index :: "persistedPropertyIndexDefinition dec" where
  "dec_index = do { s \<leftarrow> dec_str; p \<leftarrow> dec_str; State_Monad.return \<lparr>pi_Scope = s, pi_Property = p\<rparr> }"

definition dec_indexes :: "persistedPropertyIndexDefinition list option dec" where
  "dec_indexes = decodeBinarySlice zero_index 32 dec_index"

definition dec_metadata_entry :: "persistedAppMetadata dec" where
  "dec_metadata_entry = do { k \<leftarrow> dec_bytes; v \<leftarrow> dec_bytes; State_Monad.return \<lparr>pa_Key = k, pa_Value = v\<rparr> }"

definition dec_metadata :: "persistedAppMetadata list option dec" where
  "dec_metadata = decodeBinarySlice zero_metadata 32 dec_metadata_entry"

section \<open>Streams\<close>

definition enc_stream_record :: "persistedStreamRecord \<Rightarrow> enc" where
  "enc_stream_record r = do { enc_u (sr_Sequence r); enc_str (sr_Kind r); enc_value 0 (sr_Payload r) }"

definition enc_stream :: "persistedStream \<Rightarrow> enc" where
  "enc_stream s = do {
     enc_str (ps_Name s); enc_u (ps_Next s);
     encodeBinarySlice (ps_Records s) enc_stream_record
   }"

definition enc_offset :: "persistedStreamOffset \<Rightarrow> enc" where
  "enc_offset x = do { enc_str (so_Stream x); enc_str (so_Consumer x); enc_u (so_Sequence x) }"

definition enc_streams :: "persistedStreams \<Rightarrow> enc" where
  "enc_streams state = do {
     encodeBinarySlice (pss_Streams state) enc_stream;
     encodeBinarySlice (pss_Offsets state) enc_offset
   }"

definition enc_operation :: "persistedStreamOperation \<Rightarrow> enc" where
  "enc_operation x = do {
     enc_str (sop_Type x); enc_str (sop_Stream x); enc_str (sop_Consumer x);
     enc_u (sop_Sequence x);
     enc_str (sop_Kind x);
     enc_value 0 (sop_Payload x)
   }"

definition enc_streamOperations :: "persistedStreamOperation list option \<Rightarrow> enc" where
  "enc_streamOperations operations = encodeBinarySlice operations enc_operation"

definition dec_stream_record :: "persistedStreamRecord dec" where
  "dec_stream_record = do {
     s \<leftarrow> dec_u; k \<leftarrow> dec_str; p \<leftarrow> dec_value 0;
     State_Monad.return \<lparr>sr_Sequence = s, sr_Kind = k, sr_Payload = p\<rparr>
   }"

definition dec_stream :: "persistedStream dec" where
  "dec_stream = do {
     name \<leftarrow> dec_str; nxt \<leftarrow> dec_u;
     records \<leftarrow> decodeBinarySlice zero_stream_record 160 dec_stream_record;
     State_Monad.return \<lparr>ps_Name = name, ps_Next = nxt, ps_Records = records\<rparr>
   }"

definition dec_offset :: "persistedStreamOffset dec" where
  "dec_offset = do {
     stream \<leftarrow> dec_str; consumer \<leftarrow> dec_str; sequence \<leftarrow> dec_u;
     State_Monad.return \<lparr>so_Stream = stream, so_Consumer = consumer, so_Sequence = sequence\<rparr>
   }"

definition dec_streams :: "persistedStreams dec" where
  "dec_streams = do {
     streams \<leftarrow> decodeBinarySlice zero_stream 48 dec_stream;
     offsets \<leftarrow> decodeBinarySlice zero_offset 40 dec_offset;
     State_Monad.return \<lparr>pss_Streams = streams, pss_Offsets = offsets\<rparr>
   }"

definition dec_operation :: "persistedStreamOperation dec" where
  "dec_operation = do {
     ty \<leftarrow> dec_str; stream \<leftarrow> dec_str; consumer \<leftarrow> dec_str;
     sequence \<leftarrow> dec_u;
     kind \<leftarrow> dec_str;
     payload \<leftarrow> dec_value 0;
     State_Monad.return \<lparr>sop_Type = ty, sop_Stream = stream, sop_Consumer = consumer, sop_Sequence = sequence,
       sop_Kind = kind, sop_Payload = payload\<rparr>
   }"

definition dec_streamOperations :: "persistedStreamOperation list option dec" where
  "dec_streamOperations = decodeBinarySlice zero_operation 208 dec_operation"

section \<open>Deltas\<close>

definition enc_metadata_change :: "persistedAppMetadataChange \<Rightarrow> enc" where
  "enc_metadata_change am = do {
     enc_bytes (pc_Key am); enc_bytes (pc_Value am);
     enc_tag (if pc_Delete am then 1 else 0)
   }"

definition enc_property_change :: "persistedPropertyChange \<Rightarrow> enc" where
  "enc_property_change pc = do { enc_u (ppc_ID pc); enc_properties (ppc_Set pc) 0; enc_strings (ppc_Remove pc) }"

definition enc_opt_streams :: "persistedStreams option \<Rightarrow> enc" where
  "enc_opt_streams s = (case s of None \<Rightarrow> enc_tag 0 | Some x \<Rightarrow> do { enc_tag 1; enc_streams x })"

definition enc_delta :: "persistedDelta \<Rightarrow> enc" where
  "enc_delta d = do {
     enc_str (dl_DatabaseID d);
     enc_u (dl_CommitID d); enc_u (dl_NextNodeID d); enc_u (dl_NextEdgeID d);
     encodeBinarySlice (dl_UpsertNodes d) enc_node;
     enc_ids (dl_DeleteNodes d);
     encodeBinarySlice (dl_UpsertEdges d) enc_edge;
     enc_ids (dl_DeleteEdges d);
     encodeBinarySlice (dl_UpsertFTS d) enc_fts;
     enc_ids (dl_DeleteFTS d);
     encodeBinarySlice (dl_AppMetadata d) enc_metadata_change;
     enc_opt_streams (dl_Streams d);
     enc_streamOperations (dl_StreamOperations d);
     enc_indexes (dl_CreateNodeIndexes d);
     enc_indexes (dl_DropNodeIndexes d);
     enc_indexes (dl_CreateEdgeIndexes d);
     enc_indexes (dl_DropEdgeIndexes d);
     encodeBinarySlice (dl_NodePropertyChanges d) enc_property_change;
     encodeBinarySlice (dl_EdgePropertyChanges d) enc_property_change
   }"

definition dec_metadata_change :: "persistedAppMetadataChange dec" where
  "dec_metadata_change = do {
     k \<leftarrow> dec_bytes; v \<leftarrow> dec_bytes;
     dguard (zero_metadata_change\<lparr>pc_Key := k, pc_Value := v\<rparr>) (do {
       tag \<leftarrow> dReadByte;
       dguard (zero_metadata_change\<lparr>pc_Key := k, pc_Value := v\<rparr>)
         (if tag > 1
          then dfail (ErrMsg ''invalid binary app metadata delete flag'') (zero_metadata_change\<lparr>pc_Key := k, pc_Value := v\<rparr>)
          else State_Monad.return \<lparr>pc_Key = k, pc_Value = v, pc_Delete = (tag = 1)\<rparr>)
     })
   }"

definition dec_property_change :: "persistedPropertyChange dec" where
  "dec_property_change = do {
     i \<leftarrow> dec_u; s \<leftarrow> dec_properties 0; r \<leftarrow> dec_strings;
     State_Monad.return \<lparr>ppc_ID = i, ppc_Set = s, ppc_Remove = r\<rparr>
   }"

definition dec_delta :: "persistedDelta dec" where
  "dec_delta = do {
     db \<leftarrow> dec_str;
     commit \<leftarrow> dec_u; nextNode \<leftarrow> dec_u; nextEdge \<leftarrow> dec_u;
     dguard (zero_delta\<lparr>dl_DatabaseID := db, dl_CommitID := commit, dl_NextNodeID := nextNode, dl_NextEdgeID := nextEdge\<rparr>) (do {
       upsertNodes \<leftarrow> decodeBinarySlice zero_node 40 dec_node;
       deleteNodes \<leftarrow> dec_ids;
       upsertEdges \<leftarrow> decodeBinarySlice zero_edge 48 dec_edge;
       deleteEdges \<leftarrow> dec_ids;
       upsertFTS \<leftarrow> decodeBinarySlice zero_fts 24 dec_fts;
       deleteFTS \<leftarrow> dec_ids;
       metadata \<leftarrow> decodeBinarySlice zero_metadata_change 56 dec_metadata_change;
       presence \<leftarrow> dReadByte;
       (let partial = zero_delta\<lparr>dl_DatabaseID := db, dl_CommitID := commit, dl_NextNodeID := nextNode,
              dl_NextEdgeID := nextEdge, dl_UpsertNodes := upsertNodes, dl_DeleteNodes := deleteNodes,
              dl_UpsertEdges := upsertEdges, dl_DeleteEdges := deleteEdges, dl_UpsertFTS := upsertFTS,
              dl_DeleteFTS := deleteFTS, dl_AppMetadata := metadata\<rparr>
        in dguard partial
          (if presence > 1 then dfail (ErrMsg ''invalid binary streams presence flag'') partial
           else do {
             streams \<leftarrow> (if presence = 1 then do { ps \<leftarrow> dec_streams; State_Monad.return (Some ps) }
                        else State_Monad.return None);
             operations \<leftarrow> dec_streamOperations;
             createNode \<leftarrow> dec_indexes;
             dropNode \<leftarrow> dec_indexes;
             createEdge \<leftarrow> dec_indexes;
             dropEdge \<leftarrow> dec_indexes;
             nodeChanges \<leftarrow> decodeBinarySlice zero_change 40 dec_property_change;
             edgeChanges \<leftarrow> decodeBinarySlice zero_change 40 dec_property_change;
             State_Monad.return (partial\<lparr>dl_Streams := streams, dl_StreamOperations := operations,
               dl_CreateNodeIndexes := createNode, dl_DropNodeIndexes := dropNode,
               dl_CreateEdgeIndexes := createEdge, dl_DropEdgeIndexes := dropEdge,
               dl_NodePropertyChanges := nodeChanges, dl_EdgePropertyChanges := edgeChanges\<rparr>)
           }))
     })
   }"

section \<open>State and log payloads\<close>

definition enc_state :: "persistedState \<Rightarrow> enc" where
  "enc_state state = do {
     enc_str (st_DatabaseID state);
     enc_u (ucast (st_VectorDimensions state));
     enc_u (st_CommitID state); enc_u (st_NextNodeID state); enc_u (st_NextEdgeID state);
     enc_metadata (st_AppMetadata state);
     encodeBinarySlice (st_Nodes state) enc_node;
     encodeBinarySlice (st_Edges state) enc_edge;
     encodeBinarySlice (st_FTS state) enc_fts;
     enc_indexes (st_NodeIndexes state);
     enc_indexes (st_EdgeIndexes state);
     enc_streams (st_Streams state)
   }"

definition dec_state :: "persistedState dec" where
  "dec_state = do {
     db \<leftarrow> dec_str;
     dimensions \<leftarrow> dec_u;
     (if dimensions > 65535
      then dfail (ErrMsg ''binary vector dimensions overflow'') (zero_state\<lparr>st_DatabaseID := db\<rparr>)
      else do {
        commit \<leftarrow> dec_u; nextNode \<leftarrow> dec_u; nextEdge \<leftarrow> dec_u;
        metadata \<leftarrow> dec_metadata;
        nodes \<leftarrow> decodeBinarySlice zero_node 40 dec_node;
        edges \<leftarrow> decodeBinarySlice zero_edge 48 dec_edge;
        fts \<leftarrow> decodeBinarySlice zero_fts 24 dec_fts;
        nodeIndexes \<leftarrow> dec_indexes;
        edgeIndexes \<leftarrow> dec_indexes;
        streams \<leftarrow> dec_streams;
        State_Monad.return \<lparr>st_DatabaseID = db, st_VectorDimensions = ucast dimensions, st_CommitID = commit,
          st_NextNodeID = nextNode, st_NextEdgeID = nextEdge, st_AppMetadata = metadata, st_Nodes = nodes,
          st_Edges = edges, st_FTS = fts, st_NodeIndexes = nodeIndexes, st_EdgeIndexes = edgeIndexes,
          st_Streams = streams\<rparr>
      })
   }"

text \<open>
  \<^verbatim>\<open>writeBinaryWALPayload\<close> to a buffer: the tag bytes of the four payload kinds are 0 to 3 in the order of
  the constants of the source.
\<close>

definition writeBinaryWALPayload :: "walPayload \<Rightarrow> encoder \<Rightarrow> gerr option \<times> encoder" where
  "writeBinaryWALPayload v e =
     (if wp_Kind v = ''checkpoint'' then let e' = snd (run_state (enc_tag 0) e) in (eerr e', e')
      else if wp_Kind v = ''snapshot'' then
        (case wp_Snapshot v of
           None \<Rightarrow> (Some (ErrMsg ''binary WAL snapshot missing''), e)
         | Some s \<Rightarrow> let e' = snd (run_state (do { enc_tag 1; enc_state s }) e) in (eerr e', e'))
      else if wp_Kind v = ''delta'' \<or> wp_Kind v = ''property_delta'' then
        (case wp_Delta v of
           None \<Rightarrow> (Some (ErrMsg ''binary WAL delta missing''), e)
         | Some d \<Rightarrow>
             let e' = snd (run_state (do { enc_tag (if wp_Kind v = ''delta'' then 2 else 3); enc_delta d }) e)
             in (eerr e', e'))
      else (Some (ErrMsg ''unknown binary WAL kind''), e))"

definition encodeBinaryWALPayload :: "walPayload \<Rightarrow> gerr + byte list" where
  "encodeBinaryWALPayload v =
     (case writeBinaryWALPayload v (new_encoder 0) of
        (Some er, _) \<Rightarrow> Inl er
      | (None, e) \<Rightarrow> Inr (eout e))"

definition dec_wal :: "(gerr option \<times> walPayload) dec" where
  "dec_wal = do {
     kind \<leftarrow> dReadByte;
     d \<leftarrow> State_Monad.get;
     (case derr d of
        Some er \<Rightarrow> State_Monad.return (Some er, \<lparr>wp_Kind = [], wp_Snapshot = None, wp_Delta = None\<rparr>)
      | None \<Rightarrow>
          if kind = 0 then State_Monad.return (None, \<lparr>wp_Kind = ''checkpoint'', wp_Snapshot = None, wp_Delta = None\<rparr>)
          else if kind = 1 then do {
            s \<leftarrow> dec_state;
            State_Monad.return (None, \<lparr>wp_Kind = ''snapshot'', wp_Snapshot = Some s, wp_Delta = None\<rparr>)
          }
          else if kind = 2 \<or> kind = 3 then do {
            x \<leftarrow> dec_delta;
            State_Monad.return (None, \<lparr>wp_Kind = (if kind = 3 then ''property_delta'' else ''delta''),
              wp_Snapshot = None, wp_Delta = Some x\<rparr>)
          }
          else State_Monad.return (Some (ErrMsg ''unknown binary WAL payload tag''),
                 \<lparr>wp_Kind = [], wp_Snapshot = None, wp_Delta = None\<rparr>))
   }"

definition decodeBinaryWALPayload :: "byte list \<Rightarrow> u64 \<Rightarrow> u64 \<Rightarrow> gerr + walPayload" where
  "decodeBinaryWALPayload input len maxBytes =
     (case run_state dec_wal (newBinaryDecoder input len maxBytes) of
        ((Some er, _), _) \<Rightarrow> Inl er
      | ((None, v), d) \<Rightarrow> (case dfinish d of Some er \<Rightarrow> Inl er | None \<Rightarrow> Inr v))"

definition decodeBinaryStatePayload :: "byte list \<Rightarrow> u64 \<Rightarrow> u64 \<Rightarrow> gerr + persistedState" where
  "decodeBinaryStatePayload input len maxBytes =
     (case run_state dec_state (newBinaryDecoder input len maxBytes) of
        (s, d) \<Rightarrow> (case dfinish d of Some er \<Rightarrow> Inl er | None \<Rightarrow> Inr s))"

section \<open>The wire format of the records\<close>

text \<open>
  For every record: which values the format carries, the bytes, the budget the encoder charges, the
  reservations the decoder makes, and the codec contract.
\<close>

abbreviation dcost_strings :: "string list option \<Rightarrow> nat list" where
  "dcost_strings \<equiv> dcost_opt 16 (\<lambda>s. [length s * 2])"

lemma emits_eq: "emits m w c \<Longrightarrow> w = w' \<Longrightarrow> c = c' \<Longrightarrow> emits m w' c'"
  by simp

lemma reads_eq: "reads m v w cs \<Longrightarrow> v = v' \<Longrightarrow> w = w' \<Longrightarrow> cs = cs' \<Longrightarrow> reads m v' w' cs'"
  by simp

interpretation value_at: value_codec "enc_value depth" "dec_value depth" "wf_value depth" canon_value wire_value
  "\<lambda>v. sum_list (dcost_value v)" dcost_value for depth
  by (rule value_codec_all)

lemma wire_opt_nonempty [simp]: "wire_opt w xs \<noteq> []"
  by (simp add: wire_opt_def split: option.splits)

interpretation props_codec: codec "\<lambda>m. enc_properties m 0" "dec_properties 0" "wf_props (wf_value 0)"
  "canon_props canon_value" "wire_props wire_value" "\<lambda>m. sum_list (dcost_props dcost_value m)" "dcost_props dcost_value"
proof
  fix m :: persistedMap
  assume m: "wf_props (wf_value 0) m"
  show "emits (enc_properties m 0) (wire_props wire_value m) (sum_list (dcost_props dcost_value m))"
    unfolding enc_properties_def using m by (rule value_at.props_emits) (simp add: maxBinaryValueDepth_def)
  show "reads (dec_properties 0) (canon_props canon_value m) (wire_props wire_value m) (dcost_props dcost_value m)"
    unfolding dec_properties_def using m by (rule value_at.props_reads) (simp add: maxBinaryValueDepth_def)
  show "wire_props wire_value m \<noteq> []" by (cases m) (simp_all add: props_Some)
qed

lemma emits_flag: "emits (enc_tag (if b then 1 else 0)) [if b then 1 else 0] 0"
  by (simp add: enc_tag_def emits_write)

definition wf_node :: "persistedNode \<Rightarrow> bool" where
  "wf_node n \<longleftrightarrow> wf_opt wf_str (pn_Labels n) \<and>
     wf_props (wf_value 0) (pn_Properties n)"

definition canon_node :: "persistedNode \<Rightarrow> persistedNode" where
  "canon_node n = n\<lparr>pn_Properties := canon_props canon_value (pn_Properties n)\<rparr>"

definition wire_node :: "persistedNode \<Rightarrow> byte list" where
  "wire_node n = put_uvarint (pn_ID n) @
     wire_opt wire_str (pn_Labels n) @
     wire_props wire_value (pn_Properties n)"

definition ecost_node :: "persistedNode \<Rightarrow> nat" where
  "ecost_node n = sum_list (dcost_strings (pn_Labels n)) +
     sum_list (dcost_props dcost_value (pn_Properties n))"

definition dcost_node :: "persistedNode \<Rightarrow> nat list" where
  "dcost_node n = dcost_strings (pn_Labels n) @
     dcost_props dcost_value (pn_Properties n)"

lemma node_emits:
  assumes "wf_node n"
  shows "emits (enc_node n) (wire_node n) (ecost_node n)"
proof -
  have w: "wf_opt wf_str (pn_Labels n)" "wf_props (wf_value 0) (pn_Properties n)"
    using assms by (simp_all add: wf_node_def)
  show ?thesis
    unfolding enc_node_def
    by (rule emits_eq, rule emits_bind [OF u_codec.enc_emits [of "pn_ID n", OF TrueI]],
      rule emits_bind [OF strings_codec.enc_emits [OF w(1)]],
      rule props_codec.enc_emits [OF w(2)])
      (simp_all add: wire_node_def ecost_node_def)
qed

lemma node_reads:
  assumes "wf_node n"
  shows "reads dec_node (canon_node n) (wire_node n) (dcost_node n)"
proof -
  have w: "wf_opt wf_str (pn_Labels n)" "wf_props (wf_value 0) (pn_Properties n)"
    using assms by (simp_all add: wf_node_def)
  show ?thesis
    unfolding dec_node_def
    by (rule reads_eq, rule reads_bind [OF reads_u [of "pn_ID n"]], (rule reads_dguard)?,
      rule reads_bind [OF strings_codec.dec_reads [OF w(1)]], (rule reads_dguard)?,
      rule reads_bind [OF props_codec.dec_reads [OF w(2)]], (rule reads_dguard)?,
      rule reads_return)
      (simp_all add: wire_node_def dcost_node_def canon_node_def)
qed

interpretation node_codec: codec enc_node dec_node wf_node "canon_node" wire_node ecost_node dcost_node
  by unfold_locales (erule node_emits, erule node_reads, simp add: wire_node_def)

interpretation node_slice: codec "\<lambda>xs. encodeBinarySlice xs enc_node" "decodeBinarySlice zero_node 40 dec_node"
  "wf_opt wf_node" "map_option (map canon_node)" "wire_opt wire_node" "ecost_opt ecost_node" "dcost_opt 40 dcost_node"
  using node_codec.slice_codec [of zero_node 40] by (simp add: option.map_ident)

definition wf_edge :: "persistedEdge \<Rightarrow> bool" where
  "wf_edge ed \<longleftrightarrow> wf_str (pe_Type ed) \<and>
     wf_props (wf_value 0) (pe_Properties ed)"

definition canon_edge :: "persistedEdge \<Rightarrow> persistedEdge" where
  "canon_edge ed = ed\<lparr>pe_Properties := canon_props canon_value (pe_Properties ed)\<rparr>"

definition wire_edge :: "persistedEdge \<Rightarrow> byte list" where
  "wire_edge ed = put_uvarint (pe_ID ed) @
     put_uvarint (pe_SourceID ed) @
     put_uvarint (pe_TargetID ed) @
     wire_str (pe_Type ed) @
     wire_props wire_value (pe_Properties ed)"

definition ecost_edge :: "persistedEdge \<Rightarrow> nat" where
  "ecost_edge ed = length (pe_Type ed) * 2 +
     sum_list (dcost_props dcost_value (pe_Properties ed))"

definition dcost_edge :: "persistedEdge \<Rightarrow> nat list" where
  "dcost_edge ed = [length (pe_Type ed) * 2] @
     dcost_props dcost_value (pe_Properties ed)"

lemma edge_emits:
  assumes "wf_edge ed"
  shows "emits (enc_edge ed) (wire_edge ed) (ecost_edge ed)"
proof -
  have w: "wf_str (pe_Type ed)" "wf_props (wf_value 0) (pe_Properties ed)"
    using assms by (simp_all add: wf_edge_def)
  show ?thesis
    unfolding enc_edge_def
    by (rule emits_eq, rule emits_bind [OF u_codec.enc_emits [of "pe_ID ed", OF TrueI]],
      rule emits_bind [OF u_codec.enc_emits [of "pe_SourceID ed", OF TrueI]],
      rule emits_bind [OF u_codec.enc_emits [of "pe_TargetID ed", OF TrueI]],
      rule emits_bind [OF emits_str [OF w(1)]],
      rule props_codec.enc_emits [OF w(2)])
      (simp_all add: wire_edge_def ecost_edge_def)
qed

lemma edge_reads:
  assumes "wf_edge ed"
  shows "reads dec_edge (canon_edge ed) (wire_edge ed) (dcost_edge ed)"
proof -
  have w: "wf_str (pe_Type ed)" "wf_props (wf_value 0) (pe_Properties ed)"
    using assms by (simp_all add: wf_edge_def)
  show ?thesis
    unfolding dec_edge_def
    by (rule reads_eq, rule reads_bind [OF reads_u [of "pe_ID ed"]], (rule reads_dguard)?,
      rule reads_bind [OF reads_u [of "pe_SourceID ed"]], (rule reads_dguard)?,
      rule reads_bind [OF reads_u [of "pe_TargetID ed"]], (rule reads_dguard)?,
      rule reads_bind [OF reads_str [OF w(1)]], (rule reads_dguard)?,
      rule reads_bind [OF props_codec.dec_reads [OF w(2)]], (rule reads_dguard)?,
      rule reads_return)
      (simp_all add: wire_edge_def dcost_edge_def canon_edge_def)
qed

interpretation edge_codec: codec enc_edge dec_edge wf_edge "canon_edge" wire_edge ecost_edge dcost_edge
  by unfold_locales (erule edge_emits, erule edge_reads, simp add: wire_edge_def)

interpretation edge_slice: codec "\<lambda>xs. encodeBinarySlice xs enc_edge" "decodeBinarySlice zero_edge 48 dec_edge"
  "wf_opt wf_edge" "map_option (map canon_edge)" "wire_opt wire_edge" "ecost_opt ecost_edge" "dcost_opt 48 dcost_edge"
  using edge_codec.slice_codec [of zero_edge 48] by (simp add: option.map_ident)

definition wf_fts :: "persistedFTS \<Rightarrow> bool" where
  "wf_fts f \<longleftrightarrow> wf_str (pf_Text f)"

definition wire_fts :: "persistedFTS \<Rightarrow> byte list" where
  "wire_fts f = put_uvarint (pf_NodeID f) @
     wire_str (pf_Text f)"

definition ecost_fts :: "persistedFTS \<Rightarrow> nat" where
  "ecost_fts f = length (pf_Text f) * 2"

definition dcost_fts :: "persistedFTS \<Rightarrow> nat list" where
  "dcost_fts f = [length (pf_Text f) * 2]"

lemma fts_emits:
  assumes "wf_fts f"
  shows "emits (enc_fts f) (wire_fts f) (ecost_fts f)"
proof -
  have w: "wf_str (pf_Text f)"
    using assms by (simp_all add: wf_fts_def)
  show ?thesis
    unfolding enc_fts_def
    by (rule emits_eq, rule emits_bind [OF u_codec.enc_emits [of "pf_NodeID f", OF TrueI]],
      rule emits_str [OF w])
      (simp_all add: wire_fts_def ecost_fts_def)
qed

lemma fts_reads:
  assumes "wf_fts f"
  shows "reads dec_fts (f) (wire_fts f) (dcost_fts f)"
proof -
  have w: "wf_str (pf_Text f)"
    using assms by (simp_all add: wf_fts_def)
  show ?thesis
    unfolding dec_fts_def
    by (rule reads_eq, rule reads_bind [OF reads_u [of "pf_NodeID f"]], (rule reads_dguard)?,
      rule reads_bind [OF reads_str [OF w]], (rule reads_dguard)?,
      rule reads_return)
      (simp_all add: wire_fts_def dcost_fts_def)
qed

interpretation fts_codec: codec enc_fts dec_fts wf_fts "\<lambda>x. x" wire_fts ecost_fts dcost_fts
  by unfold_locales (erule fts_emits, erule fts_reads, simp add: wire_fts_def)

interpretation fts_slice: codec "\<lambda>xs. encodeBinarySlice xs enc_fts" "decodeBinarySlice zero_fts 24 dec_fts"
  "wf_opt wf_fts" "\<lambda>xs. xs" "wire_opt wire_fts" "ecost_opt ecost_fts" "dcost_opt 24 dcost_fts"
  using fts_codec.slice_codec [of zero_fts 24] by (simp add: option.map_ident)

definition wf_index :: "persistedPropertyIndexDefinition \<Rightarrow> bool" where
  "wf_index d \<longleftrightarrow> wf_str (pi_Scope d) \<and>
     wf_str (pi_Property d)"

definition wire_index :: "persistedPropertyIndexDefinition \<Rightarrow> byte list" where
  "wire_index d = wire_str (pi_Scope d) @
     wire_str (pi_Property d)"

definition ecost_index :: "persistedPropertyIndexDefinition \<Rightarrow> nat" where
  "ecost_index d = length (pi_Scope d) * 2 +
     length (pi_Property d) * 2"

definition dcost_index :: "persistedPropertyIndexDefinition \<Rightarrow> nat list" where
  "dcost_index d = [length (pi_Scope d) * 2] @
     [length (pi_Property d) * 2]"

lemma index_emits:
  assumes "wf_index d"
  shows "emits (enc_index d) (wire_index d) (ecost_index d)"
proof -
  have w: "wf_str (pi_Scope d)" "wf_str (pi_Property d)"
    using assms by (simp_all add: wf_index_def)
  show ?thesis
    unfolding enc_index_def
    by (rule emits_eq, rule emits_bind [OF emits_str [OF w(1)]],
      rule emits_str [OF w(2)])
      (simp_all add: wire_index_def ecost_index_def)
qed

lemma index_reads:
  assumes "wf_index d"
  shows "reads dec_index (d) (wire_index d) (dcost_index d)"
proof -
  have w: "wf_str (pi_Scope d)" "wf_str (pi_Property d)"
    using assms by (simp_all add: wf_index_def)
  show ?thesis
    unfolding dec_index_def
    by (rule reads_eq, rule reads_bind [OF reads_str [OF w(1)]], (rule reads_dguard)?,
      rule reads_bind [OF reads_str [OF w(2)]], (rule reads_dguard)?,
      rule reads_return)
      (simp_all add: wire_index_def dcost_index_def)
qed

interpretation index_codec: codec enc_index dec_index wf_index "\<lambda>x. x" wire_index ecost_index dcost_index
  by unfold_locales (erule index_emits, erule index_reads, simp add: wire_index_def)

interpretation index_slice: codec "enc_indexes" "dec_indexes"
  "wf_opt wf_index" "\<lambda>xs. xs" "wire_opt wire_index" "ecost_opt ecost_index" "dcost_opt 32 dcost_index"
  using index_codec.slice_codec [of zero_index 32] by (simp add: enc_indexes_def [abs_def] dec_indexes_def option.map_ident)

definition wf_metadata_entry :: "persistedAppMetadata \<Rightarrow> bool" where
  "wf_metadata_entry r \<longleftrightarrow> wf_opt (\<lambda>_. True) (pa_Key r) \<and>
     wf_opt (\<lambda>_. True) (pa_Value r)"

definition wire_metadata_entry :: "persistedAppMetadata \<Rightarrow> byte list" where
  "wire_metadata_entry r = wire_opt (\<lambda>b. [b]) (pa_Key r) @
     wire_opt (\<lambda>b. [b]) (pa_Value r)"

definition ecost_metadata_entry :: "persistedAppMetadata \<Rightarrow> nat" where
  "ecost_metadata_entry r = sum_list (dcost_opt 1 (\<lambda>_. []) (pa_Key r)) +
     sum_list (dcost_opt 1 (\<lambda>_. []) (pa_Value r))"

definition dcost_metadata_entry :: "persistedAppMetadata \<Rightarrow> nat list" where
  "dcost_metadata_entry r = dcost_opt 1 (\<lambda>_. []) (pa_Key r) @
     dcost_opt 1 (\<lambda>_. []) (pa_Value r)"

lemma metadata_entry_emits:
  assumes "wf_metadata_entry r"
  shows "emits (enc_metadata_entry r) (wire_metadata_entry r) (ecost_metadata_entry r)"
proof -
  have w: "wf_opt (\<lambda>_. True) (pa_Key r)" "wf_opt (\<lambda>_. True) (pa_Value r)"
    using assms by (simp_all add: wf_metadata_entry_def)
  show ?thesis
    unfolding enc_metadata_entry_def
    by (rule emits_eq, rule emits_bind [OF emits_bytes [OF w(1)]],
      rule emits_bytes [OF w(2)])
      (simp_all add: wire_metadata_entry_def ecost_metadata_entry_def)
qed

lemma metadata_entry_reads:
  assumes "wf_metadata_entry r"
  shows "reads dec_metadata_entry (r) (wire_metadata_entry r) (dcost_metadata_entry r)"
proof -
  have w: "wf_opt (\<lambda>_. True) (pa_Key r)" "wf_opt (\<lambda>_. True) (pa_Value r)"
    using assms by (simp_all add: wf_metadata_entry_def)
  show ?thesis
    unfolding dec_metadata_entry_def
    by (rule reads_eq, rule reads_bind [OF reads_bytes [OF w(1)]], (rule reads_dguard)?,
      rule reads_bind [OF reads_bytes [OF w(2)]], (rule reads_dguard)?,
      rule reads_return)
      (simp_all add: wire_metadata_entry_def dcost_metadata_entry_def)
qed

interpretation metadata_entry_codec: codec enc_metadata_entry dec_metadata_entry wf_metadata_entry "\<lambda>x. x" wire_metadata_entry ecost_metadata_entry dcost_metadata_entry
  by unfold_locales (erule metadata_entry_emits, erule metadata_entry_reads, simp add: wire_metadata_entry_def)

interpretation metadata_entry_slice: codec "enc_metadata" "dec_metadata"
  "wf_opt wf_metadata_entry" "\<lambda>xs. xs" "wire_opt wire_metadata_entry" "ecost_opt ecost_metadata_entry" "dcost_opt 32 dcost_metadata_entry"
  using metadata_entry_codec.slice_codec [of zero_metadata 32] by (simp add: enc_metadata_def [abs_def] dec_metadata_def option.map_ident)

definition wf_stream_record :: "persistedStreamRecord \<Rightarrow> bool" where
  "wf_stream_record r \<longleftrightarrow> wf_str (sr_Kind r) \<and>
     wf_value 0 (sr_Payload r)"

definition canon_stream_record :: "persistedStreamRecord \<Rightarrow> persistedStreamRecord" where
  "canon_stream_record r = r\<lparr>sr_Payload := canon_value (sr_Payload r)\<rparr>"

definition wire_stream_record :: "persistedStreamRecord \<Rightarrow> byte list" where
  "wire_stream_record r = put_uvarint (sr_Sequence r) @
     wire_str (sr_Kind r) @
     wire_value (sr_Payload r)"

definition ecost_stream_record :: "persistedStreamRecord \<Rightarrow> nat" where
  "ecost_stream_record r = length (sr_Kind r) * 2 +
     sum_list (dcost_value (sr_Payload r))"

definition dcost_stream_record :: "persistedStreamRecord \<Rightarrow> nat list" where
  "dcost_stream_record r = [length (sr_Kind r) * 2] @
     dcost_value (sr_Payload r)"

lemma stream_record_emits:
  assumes "wf_stream_record r"
  shows "emits (enc_stream_record r) (wire_stream_record r) (ecost_stream_record r)"
proof -
  have w: "wf_str (sr_Kind r)" "wf_value 0 (sr_Payload r)"
    using assms by (simp_all add: wf_stream_record_def)
  show ?thesis
    unfolding enc_stream_record_def
    by (rule emits_eq, rule emits_bind [OF u_codec.enc_emits [of "sr_Sequence r", OF TrueI]],
      rule emits_bind [OF emits_str [OF w(1)]],
      rule value_at.enc_emits [OF w(2)])
      (simp_all add: wire_stream_record_def ecost_stream_record_def)
qed

lemma stream_record_reads:
  assumes "wf_stream_record r"
  shows "reads dec_stream_record (canon_stream_record r) (wire_stream_record r) (dcost_stream_record r)"
proof -
  have w: "wf_str (sr_Kind r)" "wf_value 0 (sr_Payload r)"
    using assms by (simp_all add: wf_stream_record_def)
  show ?thesis
    unfolding dec_stream_record_def
    by (rule reads_eq, rule reads_bind [OF reads_u [of "sr_Sequence r"]], (rule reads_dguard)?,
      rule reads_bind [OF reads_str [OF w(1)]], (rule reads_dguard)?,
      rule reads_bind [OF value_at.dec_reads [OF w(2)]], (rule reads_dguard)?,
      rule reads_return)
      (simp_all add: wire_stream_record_def dcost_stream_record_def canon_stream_record_def)
qed

interpretation stream_record_codec: codec enc_stream_record dec_stream_record wf_stream_record "canon_stream_record" wire_stream_record ecost_stream_record dcost_stream_record
  by unfold_locales (erule stream_record_emits, erule stream_record_reads, simp add: wire_stream_record_def)

interpretation stream_record_slice: codec "\<lambda>xs. encodeBinarySlice xs enc_stream_record" "decodeBinarySlice zero_stream_record 160 dec_stream_record"
  "wf_opt wf_stream_record" "map_option (map canon_stream_record)" "wire_opt wire_stream_record" "ecost_opt ecost_stream_record" "dcost_opt 160 dcost_stream_record"
  using stream_record_codec.slice_codec [of zero_stream_record 160] by (simp add: option.map_ident)

definition wf_stream :: "persistedStream \<Rightarrow> bool" where
  "wf_stream s \<longleftrightarrow> wf_str (ps_Name s) \<and>
     wf_opt wf_stream_record (ps_Records s)"

definition canon_stream :: "persistedStream \<Rightarrow> persistedStream" where
  "canon_stream s = s\<lparr>ps_Records := map_option (map canon_stream_record) (ps_Records s)\<rparr>"

definition wire_stream :: "persistedStream \<Rightarrow> byte list" where
  "wire_stream s = wire_str (ps_Name s) @
     put_uvarint (ps_Next s) @
     wire_opt wire_stream_record (ps_Records s)"

definition ecost_stream :: "persistedStream \<Rightarrow> nat" where
  "ecost_stream s = length (ps_Name s) * 2 +
     ecost_opt ecost_stream_record (ps_Records s)"

definition dcost_stream :: "persistedStream \<Rightarrow> nat list" where
  "dcost_stream s = [length (ps_Name s) * 2] @
     dcost_opt 160 dcost_stream_record (ps_Records s)"

lemma stream_emits:
  assumes "wf_stream s"
  shows "emits (enc_stream s) (wire_stream s) (ecost_stream s)"
proof -
  have w: "wf_str (ps_Name s)" "wf_opt wf_stream_record (ps_Records s)"
    using assms by (simp_all add: wf_stream_def)
  show ?thesis
    unfolding enc_stream_def
    by (rule emits_eq, rule emits_bind [OF emits_str [OF w(1)]],
      rule emits_bind [OF u_codec.enc_emits [of "ps_Next s", OF TrueI]],
      rule stream_record_slice.enc_emits [OF w(2)])
      (simp_all add: wire_stream_def ecost_stream_def)
qed

lemma stream_reads:
  assumes "wf_stream s"
  shows "reads dec_stream (canon_stream s) (wire_stream s) (dcost_stream s)"
proof -
  have w: "wf_str (ps_Name s)" "wf_opt wf_stream_record (ps_Records s)"
    using assms by (simp_all add: wf_stream_def)
  show ?thesis
    unfolding dec_stream_def
    by (rule reads_eq, rule reads_bind [OF reads_str [OF w(1)]], (rule reads_dguard)?,
      rule reads_bind [OF reads_u [of "ps_Next s"]], (rule reads_dguard)?,
      rule reads_bind [OF stream_record_slice.dec_reads [OF w(2)]], (rule reads_dguard)?,
      rule reads_return)
      (simp_all add: wire_stream_def dcost_stream_def canon_stream_def)
qed

interpretation stream_codec: codec enc_stream dec_stream wf_stream "canon_stream" wire_stream ecost_stream dcost_stream
  by unfold_locales (erule stream_emits, erule stream_reads, simp add: wire_stream_def)

interpretation stream_slice: codec "\<lambda>xs. encodeBinarySlice xs enc_stream" "decodeBinarySlice zero_stream 48 dec_stream"
  "wf_opt wf_stream" "map_option (map canon_stream)" "wire_opt wire_stream" "ecost_opt ecost_stream" "dcost_opt 48 dcost_stream"
  using stream_codec.slice_codec [of zero_stream 48] by (simp add: option.map_ident)

definition wf_offset :: "persistedStreamOffset \<Rightarrow> bool" where
  "wf_offset x \<longleftrightarrow> wf_str (so_Stream x) \<and>
     wf_str (so_Consumer x)"

definition wire_offset :: "persistedStreamOffset \<Rightarrow> byte list" where
  "wire_offset x = wire_str (so_Stream x) @
     wire_str (so_Consumer x) @
     put_uvarint (so_Sequence x)"

definition ecost_offset :: "persistedStreamOffset \<Rightarrow> nat" where
  "ecost_offset x = length (so_Stream x) * 2 +
     length (so_Consumer x) * 2"

definition dcost_offset :: "persistedStreamOffset \<Rightarrow> nat list" where
  "dcost_offset x = [length (so_Stream x) * 2] @
     [length (so_Consumer x) * 2]"

lemma offset_emits:
  assumes "wf_offset x"
  shows "emits (enc_offset x) (wire_offset x) (ecost_offset x)"
proof -
  have w: "wf_str (so_Stream x)" "wf_str (so_Consumer x)"
    using assms by (simp_all add: wf_offset_def)
  show ?thesis
    unfolding enc_offset_def
    by (rule emits_eq, rule emits_bind [OF emits_str [OF w(1)]],
      rule emits_bind [OF emits_str [OF w(2)]],
      rule u_codec.enc_emits [of "so_Sequence x", OF TrueI])
      (simp_all add: wire_offset_def ecost_offset_def)
qed

lemma offset_reads:
  assumes "wf_offset x"
  shows "reads dec_offset (x) (wire_offset x) (dcost_offset x)"
proof -
  have w: "wf_str (so_Stream x)" "wf_str (so_Consumer x)"
    using assms by (simp_all add: wf_offset_def)
  show ?thesis
    unfolding dec_offset_def
    by (rule reads_eq, rule reads_bind [OF reads_str [OF w(1)]], (rule reads_dguard)?,
      rule reads_bind [OF reads_str [OF w(2)]], (rule reads_dguard)?,
      rule reads_bind [OF reads_u [of "so_Sequence x"]], (rule reads_dguard)?,
      rule reads_return)
      (simp_all add: wire_offset_def dcost_offset_def)
qed

interpretation offset_codec: codec enc_offset dec_offset wf_offset "\<lambda>x. x" wire_offset ecost_offset dcost_offset
  by unfold_locales (erule offset_emits, erule offset_reads, simp add: wire_offset_def)

interpretation offset_slice: codec "\<lambda>xs. encodeBinarySlice xs enc_offset" "decodeBinarySlice zero_offset 40 dec_offset"
  "wf_opt wf_offset" "\<lambda>xs. xs" "wire_opt wire_offset" "ecost_opt ecost_offset" "dcost_opt 40 dcost_offset"
  using offset_codec.slice_codec [of zero_offset 40] by (simp add: option.map_ident)

definition wf_streams :: "persistedStreams \<Rightarrow> bool" where
  "wf_streams state \<longleftrightarrow> wf_opt wf_stream (pss_Streams state) \<and>
     wf_opt wf_offset (pss_Offsets state)"

definition canon_streams :: "persistedStreams \<Rightarrow> persistedStreams" where
  "canon_streams state = state\<lparr>pss_Streams := map_option (map canon_stream) (pss_Streams state)\<rparr>"

definition wire_streams :: "persistedStreams \<Rightarrow> byte list" where
  "wire_streams state = wire_opt wire_stream (pss_Streams state) @
     wire_opt wire_offset (pss_Offsets state)"

definition ecost_streams :: "persistedStreams \<Rightarrow> nat" where
  "ecost_streams state = ecost_opt ecost_stream (pss_Streams state) +
     ecost_opt ecost_offset (pss_Offsets state)"

definition dcost_streams :: "persistedStreams \<Rightarrow> nat list" where
  "dcost_streams state = dcost_opt 48 dcost_stream (pss_Streams state) @
     dcost_opt 40 dcost_offset (pss_Offsets state)"

lemma streams_emits:
  assumes "wf_streams state"
  shows "emits (enc_streams state) (wire_streams state) (ecost_streams state)"
proof -
  have w: "wf_opt wf_stream (pss_Streams state)" "wf_opt wf_offset (pss_Offsets state)"
    using assms by (simp_all add: wf_streams_def)
  show ?thesis
    unfolding enc_streams_def
    by (rule emits_eq, rule emits_bind [OF stream_slice.enc_emits [OF w(1)]],
      rule offset_slice.enc_emits [OF w(2)])
      (simp_all add: wire_streams_def ecost_streams_def)
qed

lemma streams_reads:
  assumes "wf_streams state"
  shows "reads dec_streams (canon_streams state) (wire_streams state) (dcost_streams state)"
proof -
  have w: "wf_opt wf_stream (pss_Streams state)" "wf_opt wf_offset (pss_Offsets state)"
    using assms by (simp_all add: wf_streams_def)
  show ?thesis
    unfolding dec_streams_def
    by (rule reads_eq, rule reads_bind [OF stream_slice.dec_reads [OF w(1)]], (rule reads_dguard)?,
      rule reads_bind [OF offset_slice.dec_reads [OF w(2)]], (rule reads_dguard)?,
      rule reads_return)
      (simp_all add: wire_streams_def dcost_streams_def canon_streams_def)
qed

interpretation streams_codec: codec enc_streams dec_streams wf_streams "canon_streams" wire_streams ecost_streams dcost_streams
  by unfold_locales (erule streams_emits, erule streams_reads, simp add: wire_streams_def)

definition wf_operation :: "persistedStreamOperation \<Rightarrow> bool" where
  "wf_operation x \<longleftrightarrow> wf_str (sop_Type x) \<and>
     wf_str (sop_Stream x) \<and>
     wf_str (sop_Consumer x) \<and>
     wf_str (sop_Kind x) \<and>
     wf_value 0 (sop_Payload x)"

definition canon_operation :: "persistedStreamOperation \<Rightarrow> persistedStreamOperation" where
  "canon_operation x = x\<lparr>sop_Payload := canon_value (sop_Payload x)\<rparr>"

definition wire_operation :: "persistedStreamOperation \<Rightarrow> byte list" where
  "wire_operation x = wire_str (sop_Type x) @
     wire_str (sop_Stream x) @
     wire_str (sop_Consumer x) @
     put_uvarint (sop_Sequence x) @
     wire_str (sop_Kind x) @
     wire_value (sop_Payload x)"

definition ecost_operation :: "persistedStreamOperation \<Rightarrow> nat" where
  "ecost_operation x = length (sop_Type x) * 2 +
     length (sop_Stream x) * 2 +
     length (sop_Consumer x) * 2 +
     length (sop_Kind x) * 2 +
     sum_list (dcost_value (sop_Payload x))"

definition dcost_operation :: "persistedStreamOperation \<Rightarrow> nat list" where
  "dcost_operation x = [length (sop_Type x) * 2] @
     [length (sop_Stream x) * 2] @
     [length (sop_Consumer x) * 2] @
     [length (sop_Kind x) * 2] @
     dcost_value (sop_Payload x)"

lemma operation_emits:
  assumes "wf_operation x"
  shows "emits (enc_operation x) (wire_operation x) (ecost_operation x)"
proof -
  have w: "wf_str (sop_Type x)" "wf_str (sop_Stream x)" "wf_str (sop_Consumer x)" "wf_str (sop_Kind x)" "wf_value 0 (sop_Payload x)"
    using assms by (simp_all add: wf_operation_def)
  show ?thesis
    unfolding enc_operation_def
    by (rule emits_eq, rule emits_bind [OF emits_str [OF w(1)]],
      rule emits_bind [OF emits_str [OF w(2)]],
      rule emits_bind [OF emits_str [OF w(3)]],
      rule emits_bind [OF u_codec.enc_emits [of "sop_Sequence x", OF TrueI]],
      rule emits_bind [OF emits_str [OF w(4)]],
      rule value_at.enc_emits [OF w(5)])
      (simp_all add: wire_operation_def ecost_operation_def)
qed

lemma operation_reads:
  assumes "wf_operation x"
  shows "reads dec_operation (canon_operation x) (wire_operation x) (dcost_operation x)"
proof -
  have w: "wf_str (sop_Type x)" "wf_str (sop_Stream x)" "wf_str (sop_Consumer x)" "wf_str (sop_Kind x)" "wf_value 0 (sop_Payload x)"
    using assms by (simp_all add: wf_operation_def)
  show ?thesis
    unfolding dec_operation_def
    by (rule reads_eq, rule reads_bind [OF reads_str [OF w(1)]], (rule reads_dguard)?,
      rule reads_bind [OF reads_str [OF w(2)]], (rule reads_dguard)?,
      rule reads_bind [OF reads_str [OF w(3)]], (rule reads_dguard)?,
      rule reads_bind [OF reads_u [of "sop_Sequence x"]], (rule reads_dguard)?,
      rule reads_bind [OF reads_str [OF w(4)]], (rule reads_dguard)?,
      rule reads_bind [OF value_at.dec_reads [OF w(5)]], (rule reads_dguard)?,
      rule reads_return)
      (simp_all add: wire_operation_def dcost_operation_def canon_operation_def)
qed

interpretation operation_codec: codec enc_operation dec_operation wf_operation "canon_operation" wire_operation ecost_operation dcost_operation
  by unfold_locales (erule operation_emits, erule operation_reads, simp add: wire_operation_def)

interpretation operation_slice: codec "enc_streamOperations" "dec_streamOperations"
  "wf_opt wf_operation" "map_option (map canon_operation)" "wire_opt wire_operation" "ecost_opt ecost_operation" "dcost_opt 208 dcost_operation"
  using operation_codec.slice_codec [of zero_operation 208] by (simp add: enc_streamOperations_def [abs_def] dec_streamOperations_def option.map_ident)

definition wf_property_change :: "persistedPropertyChange \<Rightarrow> bool" where
  "wf_property_change pc \<longleftrightarrow> wf_props (wf_value 0) (ppc_Set pc) \<and>
     wf_opt wf_str (ppc_Remove pc)"

definition canon_property_change :: "persistedPropertyChange \<Rightarrow> persistedPropertyChange" where
  "canon_property_change pc = pc\<lparr>ppc_Set := canon_props canon_value (ppc_Set pc)\<rparr>"

definition wire_property_change :: "persistedPropertyChange \<Rightarrow> byte list" where
  "wire_property_change pc = put_uvarint (ppc_ID pc) @
     wire_props wire_value (ppc_Set pc) @
     wire_opt wire_str (ppc_Remove pc)"

definition ecost_property_change :: "persistedPropertyChange \<Rightarrow> nat" where
  "ecost_property_change pc = sum_list (dcost_props dcost_value (ppc_Set pc)) +
     sum_list (dcost_strings (ppc_Remove pc))"

definition dcost_property_change :: "persistedPropertyChange \<Rightarrow> nat list" where
  "dcost_property_change pc = dcost_props dcost_value (ppc_Set pc) @
     dcost_strings (ppc_Remove pc)"

lemma property_change_emits:
  assumes "wf_property_change pc"
  shows "emits (enc_property_change pc) (wire_property_change pc) (ecost_property_change pc)"
proof -
  have w: "wf_props (wf_value 0) (ppc_Set pc)" "wf_opt wf_str (ppc_Remove pc)"
    using assms by (simp_all add: wf_property_change_def)
  show ?thesis
    unfolding enc_property_change_def
    by (rule emits_eq, rule emits_bind [OF u_codec.enc_emits [of "ppc_ID pc", OF TrueI]],
      rule emits_bind [OF props_codec.enc_emits [OF w(1)]],
      rule strings_codec.enc_emits [OF w(2)])
      (simp_all add: wire_property_change_def ecost_property_change_def)
qed

lemma property_change_reads:
  assumes "wf_property_change pc"
  shows "reads dec_property_change (canon_property_change pc) (wire_property_change pc) (dcost_property_change pc)"
proof -
  have w: "wf_props (wf_value 0) (ppc_Set pc)" "wf_opt wf_str (ppc_Remove pc)"
    using assms by (simp_all add: wf_property_change_def)
  show ?thesis
    unfolding dec_property_change_def
    by (rule reads_eq, rule reads_bind [OF reads_u [of "ppc_ID pc"]], (rule reads_dguard)?,
      rule reads_bind [OF props_codec.dec_reads [OF w(1)]], (rule reads_dguard)?,
      rule reads_bind [OF strings_codec.dec_reads [OF w(2)]], (rule reads_dguard)?,
      rule reads_return)
      (simp_all add: wire_property_change_def dcost_property_change_def canon_property_change_def)
qed

interpretation property_change_codec: codec enc_property_change dec_property_change wf_property_change "canon_property_change" wire_property_change ecost_property_change dcost_property_change
  by unfold_locales (erule property_change_emits, erule property_change_reads, simp add: wire_property_change_def)

interpretation property_change_slice: codec "\<lambda>xs. encodeBinarySlice xs enc_property_change" "decodeBinarySlice zero_change 40 dec_property_change"
  "wf_opt wf_property_change" "map_option (map canon_property_change)" "wire_opt wire_property_change" "ecost_opt ecost_property_change" "dcost_opt 40 dcost_property_change"
  using property_change_codec.slice_codec [of zero_change 40] by (simp add: option.map_ident)

definition wf_metadata_change :: "persistedAppMetadataChange \<Rightarrow> bool" where
  "wf_metadata_change am \<longleftrightarrow> wf_opt (\<lambda>_. True) (pc_Key am) \<and>
     wf_opt (\<lambda>_. True) (pc_Value am)"

definition wire_metadata_change :: "persistedAppMetadataChange \<Rightarrow> byte list" where
  "wire_metadata_change am = wire_opt (\<lambda>b. [b]) (pc_Key am) @
     wire_opt (\<lambda>b. [b]) (pc_Value am) @
     [if (pc_Delete am) then 1 else 0]"

definition ecost_metadata_change :: "persistedAppMetadataChange \<Rightarrow> nat" where
  "ecost_metadata_change am = sum_list (dcost_opt 1 (\<lambda>_. []) (pc_Key am)) +
     sum_list (dcost_opt 1 (\<lambda>_. []) (pc_Value am))"

definition dcost_metadata_change :: "persistedAppMetadataChange \<Rightarrow> nat list" where
  "dcost_metadata_change am = dcost_opt 1 (\<lambda>_. []) (pc_Key am) @
     dcost_opt 1 (\<lambda>_. []) (pc_Value am)"

lemma metadata_change_emits:
  assumes "wf_metadata_change am"
  shows "emits (enc_metadata_change am) (wire_metadata_change am) (ecost_metadata_change am)"
proof -
  have w: "wf_opt (\<lambda>_. True) (pc_Key am)" "wf_opt (\<lambda>_. True) (pc_Value am)"
    using assms by (simp_all add: wf_metadata_change_def)
  show ?thesis
    unfolding enc_metadata_change_def
    by (rule emits_eq, rule emits_bind [OF emits_bytes [OF w(1)]],
      rule emits_bind [OF emits_bytes [OF w(2)]],
      rule emits_flag [of "pc_Delete am"])
      (simp_all add: wire_metadata_change_def ecost_metadata_change_def)
qed

lemma reads_flag: "reads (do { tag \<leftarrow> dReadByte; dguard x (if tag > 1 then dfail er x else State_Monad.return (f (tag = 1))) })
    (f b) [if b then 1 else 0] []"
proof -
  define k where "k tag = dguard x (if tag > 1 then dfail er x else State_Monad.return (f (tag = 1)))" for tag :: byte
  have "reads (dReadByte \<bind> k) (f b) ([if b then 1 else 0] @ []) ([] @ [])"
    by (rule reads_bind [OF reads_ReadByte]) (auto simp: k_def intro!: reads_dguard reads_return)
  then show ?thesis unfolding k_def append_Nil2 .
qed

lemma metadata_change_reads:
  assumes "wf_metadata_change am"
  shows "reads dec_metadata_change am (wire_metadata_change am) (dcost_metadata_change am)"
proof -
  have w: "wf_opt (\<lambda>_. True) (pc_Key am)" "wf_opt (\<lambda>_. True) (pc_Value am)"
    using assms by (simp_all add: wf_metadata_change_def)
  show ?thesis
    unfolding dec_metadata_change_def
    by (rule reads_eq, rule reads_bind [OF reads_bytes [OF w(1)]], rule reads_bind [OF reads_bytes [OF w(2)]], rule reads_dguard,
      rule reads_flag [of _ _ "\<lambda>b. \<lparr>pc_Key = pc_Key am, pc_Value = pc_Value am, pc_Delete = b\<rparr>" "pc_Delete am"])
      (simp_all add: wire_metadata_change_def dcost_metadata_change_def)
qed

interpretation metadata_change_codec: codec enc_metadata_change dec_metadata_change wf_metadata_change "\<lambda>x. x"
  wire_metadata_change ecost_metadata_change dcost_metadata_change
  by unfold_locales (erule metadata_change_emits, erule metadata_change_reads, simp add: wire_metadata_change_def)

interpretation metadata_change_slice: codec "\<lambda>xs. encodeBinarySlice xs enc_metadata_change" "decodeBinarySlice zero_metadata_change 56 dec_metadata_change"
  "wf_opt wf_metadata_change" "\<lambda>xs. xs" "wire_opt wire_metadata_change" "ecost_opt ecost_metadata_change" "dcost_opt 56 dcost_metadata_change"
  using metadata_change_codec.slice_codec [of zero_metadata_change 56] by (simp add: option.map_ident)

definition wf_opt_streams :: "persistedStreams option \<Rightarrow> bool" where
  "wf_opt_streams s = (case s of None \<Rightarrow> True | Some x \<Rightarrow> wf_streams x)"

definition wire_opt_streams :: "persistedStreams option \<Rightarrow> byte list" where
  "wire_opt_streams s = (case s of None \<Rightarrow> [0] | Some x \<Rightarrow> 1 # wire_streams x)"

definition ecost_opt_streams :: "persistedStreams option \<Rightarrow> nat" where
  "ecost_opt_streams s = (case s of None \<Rightarrow> 0 | Some x \<Rightarrow> ecost_streams x)"

definition dcost_opt_streams :: "persistedStreams option \<Rightarrow> nat list" where
  "dcost_opt_streams s = (case s of None \<Rightarrow> [] | Some x \<Rightarrow> dcost_streams x)"

lemma opt_streams_emits: "wf_opt_streams s \<Longrightarrow> emits (enc_opt_streams s) (wire_opt_streams s) (ecost_opt_streams s)"
  by (cases s) (simp_all add: enc_opt_streams_def wire_opt_streams_def ecost_opt_streams_def wf_opt_streams_def
    emits_tag_then streams_emits, simp add: enc_tag_def emits_write)

definition dec_opt_streams :: "byte \<Rightarrow> persistedStreams option dec" where
  "dec_opt_streams presence = (if presence = 1 then do { ps \<leftarrow> dec_streams; State_Monad.return (Some ps) } else State_Monad.return None)"

lemma opt_streams_reads:
  assumes "wf_opt_streams s"
  shows "\<exists>t w. wire_opt_streams s = t # w \<and> t \<le> 1 \<and> reads (dec_opt_streams t) (map_option canon_streams s) w (dcost_opt_streams s)"
proof (cases s)
  case None
  then show ?thesis by (simp add: wire_opt_streams_def dec_opt_streams_def dcost_opt_streams_def reads_return)
next
  case (Some x)
  then have "reads (dec_opt_streams 1) (map_option canon_streams s) (wire_streams x) (dcost_opt_streams s)"
    using assms reads_map [OF streams_reads, of x Some]
    by (simp add: dec_opt_streams_def dcost_opt_streams_def wf_opt_streams_def)
  with Some show ?thesis by (simp add: wire_opt_streams_def)
qed

definition wf_delta :: "persistedDelta \<Rightarrow> bool" where
  "wf_delta d \<longleftrightarrow> wf_str (dl_DatabaseID d) \<and>
     wf_opt wf_node (dl_UpsertNodes d) \<and>
     wf_opt (\<lambda>_. True) (dl_DeleteNodes d) \<and>
     wf_opt wf_edge (dl_UpsertEdges d) \<and>
     wf_opt (\<lambda>_. True) (dl_DeleteEdges d) \<and>
     wf_opt wf_fts (dl_UpsertFTS d) \<and>
     wf_opt (\<lambda>_. True) (dl_DeleteFTS d) \<and>
     wf_opt wf_metadata_change (dl_AppMetadata d) \<and>
     wf_opt_streams (dl_Streams d) \<and>
     wf_opt wf_operation (dl_StreamOperations d) \<and>
     wf_opt wf_index (dl_CreateNodeIndexes d) \<and>
     wf_opt wf_index (dl_DropNodeIndexes d) \<and>
     wf_opt wf_index (dl_CreateEdgeIndexes d) \<and>
     wf_opt wf_index (dl_DropEdgeIndexes d) \<and>
     wf_opt wf_property_change (dl_NodePropertyChanges d) \<and>
     wf_opt wf_property_change (dl_EdgePropertyChanges d)"

definition canon_delta :: "persistedDelta \<Rightarrow> persistedDelta" where
  "canon_delta d = d\<lparr>dl_UpsertNodes := map_option (map canon_node) (dl_UpsertNodes d),
     dl_UpsertEdges := map_option (map canon_edge) (dl_UpsertEdges d),
     dl_Streams := map_option canon_streams (dl_Streams d),
     dl_StreamOperations := map_option (map canon_operation) (dl_StreamOperations d),
     dl_NodePropertyChanges := map_option (map canon_property_change) (dl_NodePropertyChanges d),
     dl_EdgePropertyChanges := map_option (map canon_property_change) (dl_EdgePropertyChanges d)\<rparr>"

definition wire_delta :: "persistedDelta \<Rightarrow> byte list" where
  "wire_delta d = wire_str (dl_DatabaseID d) @
     put_uvarint (dl_CommitID d) @
     put_uvarint (dl_NextNodeID d) @
     put_uvarint (dl_NextEdgeID d) @
     wire_opt wire_node (dl_UpsertNodes d) @
     wire_opt put_uvarint (dl_DeleteNodes d) @
     wire_opt wire_edge (dl_UpsertEdges d) @
     wire_opt put_uvarint (dl_DeleteEdges d) @
     wire_opt wire_fts (dl_UpsertFTS d) @
     wire_opt put_uvarint (dl_DeleteFTS d) @
     wire_opt wire_metadata_change (dl_AppMetadata d) @
     wire_opt_streams (dl_Streams d) @
     wire_opt wire_operation (dl_StreamOperations d) @
     wire_opt wire_index (dl_CreateNodeIndexes d) @
     wire_opt wire_index (dl_DropNodeIndexes d) @
     wire_opt wire_index (dl_CreateEdgeIndexes d) @
     wire_opt wire_index (dl_DropEdgeIndexes d) @
     wire_opt wire_property_change (dl_NodePropertyChanges d) @
     wire_opt wire_property_change (dl_EdgePropertyChanges d)"

definition ecost_delta :: "persistedDelta \<Rightarrow> nat" where
  "ecost_delta d = length (dl_DatabaseID d) * 2 +
     ecost_opt ecost_node (dl_UpsertNodes d) +
     sum_list (dcost_opt 8 (\<lambda>_. []) (dl_DeleteNodes d)) +
     ecost_opt ecost_edge (dl_UpsertEdges d) +
     sum_list (dcost_opt 8 (\<lambda>_. []) (dl_DeleteEdges d)) +
     ecost_opt ecost_fts (dl_UpsertFTS d) +
     sum_list (dcost_opt 8 (\<lambda>_. []) (dl_DeleteFTS d)) +
     ecost_opt ecost_metadata_change (dl_AppMetadata d) +
     ecost_opt_streams (dl_Streams d) +
     ecost_opt ecost_operation (dl_StreamOperations d) +
     ecost_opt ecost_index (dl_CreateNodeIndexes d) +
     ecost_opt ecost_index (dl_DropNodeIndexes d) +
     ecost_opt ecost_index (dl_CreateEdgeIndexes d) +
     ecost_opt ecost_index (dl_DropEdgeIndexes d) +
     ecost_opt ecost_property_change (dl_NodePropertyChanges d) +
     ecost_opt ecost_property_change (dl_EdgePropertyChanges d)"

definition dcost_delta :: "persistedDelta \<Rightarrow> nat list" where
  "dcost_delta d = [length (dl_DatabaseID d) * 2] @
     dcost_opt 40 dcost_node (dl_UpsertNodes d) @
     dcost_opt 8 (\<lambda>_. []) (dl_DeleteNodes d) @
     dcost_opt 48 dcost_edge (dl_UpsertEdges d) @
     dcost_opt 8 (\<lambda>_. []) (dl_DeleteEdges d) @
     dcost_opt 24 dcost_fts (dl_UpsertFTS d) @
     dcost_opt 8 (\<lambda>_. []) (dl_DeleteFTS d) @
     dcost_opt 56 dcost_metadata_change (dl_AppMetadata d) @
     dcost_opt_streams (dl_Streams d) @
     dcost_opt 208 dcost_operation (dl_StreamOperations d) @
     dcost_opt 32 dcost_index (dl_CreateNodeIndexes d) @
     dcost_opt 32 dcost_index (dl_DropNodeIndexes d) @
     dcost_opt 32 dcost_index (dl_CreateEdgeIndexes d) @
     dcost_opt 32 dcost_index (dl_DropEdgeIndexes d) @
     dcost_opt 40 dcost_property_change (dl_NodePropertyChanges d) @
     dcost_opt 40 dcost_property_change (dl_EdgePropertyChanges d)"

lemma delta_emits:
  assumes "wf_delta d"
  shows "emits (enc_delta d) (wire_delta d) (ecost_delta d)"
proof -
  have w: "wf_str (dl_DatabaseID d)" "wf_opt wf_node (dl_UpsertNodes d)" "wf_opt (\<lambda>_. True) (dl_DeleteNodes d)" "wf_opt wf_edge (dl_UpsertEdges d)" "wf_opt (\<lambda>_. True) (dl_DeleteEdges d)" "wf_opt wf_fts (dl_UpsertFTS d)" "wf_opt (\<lambda>_. True) (dl_DeleteFTS d)" "wf_opt wf_metadata_change (dl_AppMetadata d)" "wf_opt_streams (dl_Streams d)" "wf_opt wf_operation (dl_StreamOperations d)" "wf_opt wf_index (dl_CreateNodeIndexes d)" "wf_opt wf_index (dl_DropNodeIndexes d)" "wf_opt wf_index (dl_CreateEdgeIndexes d)" "wf_opt wf_index (dl_DropEdgeIndexes d)" "wf_opt wf_property_change (dl_NodePropertyChanges d)" "wf_opt wf_property_change (dl_EdgePropertyChanges d)"
    using assms by (simp_all add: wf_delta_def)
  show ?thesis
    unfolding enc_delta_def
    by (rule emits_eq, rule emits_bind [OF emits_str [OF w(1)]],
      rule emits_bind [OF u_codec.enc_emits [of "dl_CommitID d", OF TrueI]],
      rule emits_bind [OF u_codec.enc_emits [of "dl_NextNodeID d", OF TrueI]],
      rule emits_bind [OF u_codec.enc_emits [of "dl_NextEdgeID d", OF TrueI]],
      rule emits_bind [OF node_slice.enc_emits [OF w(2)]],
      rule emits_bind [OF ids_codec.enc_emits [OF w(3)]],
      rule emits_bind [OF edge_slice.enc_emits [OF w(4)]],
      rule emits_bind [OF ids_codec.enc_emits [OF w(5)]],
      rule emits_bind [OF fts_slice.enc_emits [OF w(6)]],
      rule emits_bind [OF ids_codec.enc_emits [OF w(7)]],
      rule emits_bind [OF metadata_change_slice.enc_emits [OF w(8)]],
      rule emits_bind [OF opt_streams_emits [OF w(9)]],
      rule emits_bind [OF operation_slice.enc_emits [OF w(10)]],
      rule emits_bind [OF index_slice.enc_emits [OF w(11)]],
      rule emits_bind [OF index_slice.enc_emits [OF w(12)]],
      rule emits_bind [OF index_slice.enc_emits [OF w(13)]],
      rule emits_bind [OF index_slice.enc_emits [OF w(14)]],
      rule emits_bind [OF property_change_slice.enc_emits [OF w(15)]],
      rule property_change_slice.enc_emits [OF w(16)])
      (simp_all add: wire_delta_def ecost_delta_def)
qed

lemma delta_reads:
  assumes "wf_delta d"
  shows "reads dec_delta (canon_delta d) (wire_delta d) (dcost_delta d)"
proof -
  have w: "wf_str (dl_DatabaseID d)" "wf_opt wf_node (dl_UpsertNodes d)" "wf_opt (\<lambda>_. True) (dl_DeleteNodes d)" "wf_opt wf_edge (dl_UpsertEdges d)" "wf_opt (\<lambda>_. True) (dl_DeleteEdges d)" "wf_opt wf_fts (dl_UpsertFTS d)" "wf_opt (\<lambda>_. True) (dl_DeleteFTS d)" "wf_opt wf_metadata_change (dl_AppMetadata d)" "wf_opt_streams (dl_Streams d)" "wf_opt wf_operation (dl_StreamOperations d)" "wf_opt wf_index (dl_CreateNodeIndexes d)" "wf_opt wf_index (dl_DropNodeIndexes d)" "wf_opt wf_index (dl_CreateEdgeIndexes d)" "wf_opt wf_index (dl_DropEdgeIndexes d)" "wf_opt wf_property_change (dl_NodePropertyChanges d)" "wf_opt wf_property_change (dl_EdgePropertyChanges d)"
    using assms by (simp_all add: wf_delta_def)
  obtain t v where s: "wire_opt_streams (dl_Streams d) = t # v" "t \<le> 1"
      "reads (dec_opt_streams t) (map_option canon_streams (dl_Streams d)) v (dcost_opt_streams (dl_Streams d))"
    using opt_streams_reads [OF w(9)] by blast
  have t: "\<not> t > 1" using s(2) by simp
  show ?thesis
    unfolding dec_delta_def Let_def dec_opt_streams_def [symmetric]
    by (rule reads_eq, rule reads_bind [OF reads_str [OF w(1)]], rule reads_bind [OF reads_u [of "dl_CommitID d"]], rule reads_bind [OF reads_u [of "dl_NextNodeID d"]], rule reads_bind [OF reads_u [of "dl_NextEdgeID d"]], rule reads_dguard,
      rule reads_bind [OF node_slice.dec_reads [OF w(2)]],
      rule reads_bind [OF ids_codec.dec_reads [OF w(3)]],
      rule reads_bind [OF edge_slice.dec_reads [OF w(4)]],
      rule reads_bind [OF ids_codec.dec_reads [OF w(5)]],
      rule reads_bind [OF fts_slice.dec_reads [OF w(6)]],
      rule reads_bind [OF ids_codec.dec_reads [OF w(7)]],
      rule reads_bind [OF metadata_change_slice.dec_reads [OF w(8)]],
      rule reads_bind [OF reads_ReadByte [of t]], rule reads_dguard, subst if_not_P [OF t], rule reads_bind [OF s(3)],
      rule reads_bind [OF operation_slice.dec_reads [OF w(10)]],
      rule reads_bind [OF index_slice.dec_reads [OF w(11)]],
      rule reads_bind [OF index_slice.dec_reads [OF w(12)]],
      rule reads_bind [OF index_slice.dec_reads [OF w(13)]],
      rule reads_bind [OF index_slice.dec_reads [OF w(14)]],
      rule reads_bind [OF property_change_slice.dec_reads [OF w(15)]],
      rule reads_bind [OF property_change_slice.dec_reads [OF w(16)]], rule reads_return)
      (simp_all add: wire_delta_def dcost_delta_def canon_delta_def s(1) zero_delta_def)
qed

interpretation delta_codec: codec enc_delta dec_delta wf_delta canon_delta wire_delta ecost_delta dcost_delta
  by unfold_locales (erule delta_emits, erule delta_reads, simp add: wire_delta_def)

definition wf_state :: "persistedState \<Rightarrow> bool" where
  "wf_state s \<longleftrightarrow> wf_str (st_DatabaseID s) \<and>
     wf_opt wf_metadata_entry (st_AppMetadata s) \<and>
     wf_opt wf_node (st_Nodes s) \<and>
     wf_opt wf_edge (st_Edges s) \<and>
     wf_opt wf_fts (st_FTS s) \<and>
     wf_opt wf_index (st_NodeIndexes s) \<and>
     wf_opt wf_index (st_EdgeIndexes s) \<and>
     wf_streams (st_Streams s)"

definition canon_state :: "persistedState \<Rightarrow> persistedState" where
  "canon_state s = s\<lparr>st_Nodes := map_option (map canon_node) (st_Nodes s),
     st_Edges := map_option (map canon_edge) (st_Edges s),
     st_Streams := canon_streams (st_Streams s)\<rparr>"

definition wire_state :: "persistedState \<Rightarrow> byte list" where
  "wire_state s = wire_str (st_DatabaseID s) @
     put_uvarint (ucast (st_VectorDimensions s)) @
     put_uvarint (st_CommitID s) @
     put_uvarint (st_NextNodeID s) @
     put_uvarint (st_NextEdgeID s) @
     wire_opt wire_metadata_entry (st_AppMetadata s) @
     wire_opt wire_node (st_Nodes s) @
     wire_opt wire_edge (st_Edges s) @
     wire_opt wire_fts (st_FTS s) @
     wire_opt wire_index (st_NodeIndexes s) @
     wire_opt wire_index (st_EdgeIndexes s) @
     wire_streams (st_Streams s)"

definition ecost_state :: "persistedState \<Rightarrow> nat" where
  "ecost_state s = length (st_DatabaseID s) * 2 +
     ecost_opt ecost_metadata_entry (st_AppMetadata s) +
     ecost_opt ecost_node (st_Nodes s) +
     ecost_opt ecost_edge (st_Edges s) +
     ecost_opt ecost_fts (st_FTS s) +
     ecost_opt ecost_index (st_NodeIndexes s) +
     ecost_opt ecost_index (st_EdgeIndexes s) +
     ecost_streams (st_Streams s)"

definition dcost_state :: "persistedState \<Rightarrow> nat list" where
  "dcost_state s = [length (st_DatabaseID s) * 2] @
     dcost_opt 32 dcost_metadata_entry (st_AppMetadata s) @
     dcost_opt 40 dcost_node (st_Nodes s) @
     dcost_opt 48 dcost_edge (st_Edges s) @
     dcost_opt 24 dcost_fts (st_FTS s) @
     dcost_opt 32 dcost_index (st_NodeIndexes s) @
     dcost_opt 32 dcost_index (st_EdgeIndexes s) @
     dcost_streams (st_Streams s)"

lemma state_emits:
  assumes "wf_state s"
  shows "emits (enc_state s) (wire_state s) (ecost_state s)"
proof -
  have w: "wf_str (st_DatabaseID s)" "wf_opt wf_metadata_entry (st_AppMetadata s)" "wf_opt wf_node (st_Nodes s)" "wf_opt wf_edge (st_Edges s)" "wf_opt wf_fts (st_FTS s)" "wf_opt wf_index (st_NodeIndexes s)" "wf_opt wf_index (st_EdgeIndexes s)" "wf_streams (st_Streams s)"
    using assms by (simp_all add: wf_state_def)
  show ?thesis
    unfolding enc_state_def
    by (rule emits_eq, rule emits_bind [OF emits_str [OF w(1)]],
      rule emits_bind [OF u_codec.enc_emits [of "ucast (st_VectorDimensions s)", OF TrueI]],
      rule emits_bind [OF u_codec.enc_emits [of "st_CommitID s", OF TrueI]],
      rule emits_bind [OF u_codec.enc_emits [of "st_NextNodeID s", OF TrueI]],
      rule emits_bind [OF u_codec.enc_emits [of "st_NextEdgeID s", OF TrueI]],
      rule emits_bind [OF metadata_entry_slice.enc_emits [OF w(2)]],
      rule emits_bind [OF node_slice.enc_emits [OF w(3)]],
      rule emits_bind [OF edge_slice.enc_emits [OF w(4)]],
      rule emits_bind [OF fts_slice.enc_emits [OF w(5)]],
      rule emits_bind [OF index_slice.enc_emits [OF w(6)]],
      rule emits_bind [OF index_slice.enc_emits [OF w(7)]],
      rule streams_emits [OF w(8)])
      (simp_all add: wire_state_def ecost_state_def)
qed

lemma ucast16:
  fixes x :: u16
  shows "\<not> (ucast x :: u64) > 65535" "ucast (ucast x :: u64) = x"
proof -
  have b: "unat x < 65536" using unsigned_less [of x, where 'a = nat] by simp
  then have u: "unat (ucast x :: u64) = unat x" by (simp add: unat_ucast_mod)
  then show "\<not> (ucast x :: u64) > 65535" using b by (simp add: word_less_nat_alt)
  show "ucast (ucast x :: u64) = x"
    unfolding word_unat_eq_iff unat_ucast_mod [of "ucast x :: u64"] u using b by simp
qed

lemma state_reads:
  assumes "wf_state s"
  shows "reads dec_state (canon_state s) (wire_state s) (dcost_state s)"
proof -
  have w: "wf_str (st_DatabaseID s)" "wf_opt wf_metadata_entry (st_AppMetadata s)" "wf_opt wf_node (st_Nodes s)" "wf_opt wf_edge (st_Edges s)" "wf_opt wf_fts (st_FTS s)" "wf_opt wf_index (st_NodeIndexes s)" "wf_opt wf_index (st_EdgeIndexes s)" "wf_streams (st_Streams s)"
    using assms by (simp_all add: wf_state_def)
  show ?thesis
    unfolding dec_state_def
    by (rule reads_eq, rule reads_bind [OF reads_str [OF w(1)]], rule reads_bind [OF reads_u [of "ucast (st_VectorDimensions s)"]],
      subst if_not_P [OF ucast16(1)],
      rule reads_bind [OF reads_u [of "st_CommitID s"]],
      rule reads_bind [OF reads_u [of "st_NextNodeID s"]],
      rule reads_bind [OF reads_u [of "st_NextEdgeID s"]],
      rule reads_bind [OF metadata_entry_slice.dec_reads [OF w(2)]],
      rule reads_bind [OF node_slice.dec_reads [OF w(3)]],
      rule reads_bind [OF edge_slice.dec_reads [OF w(4)]],
      rule reads_bind [OF fts_slice.dec_reads [OF w(5)]],
      rule reads_bind [OF index_slice.dec_reads [OF w(6)]],
      rule reads_bind [OF index_slice.dec_reads [OF w(7)]],
      rule reads_bind [OF streams_reads [OF w(8)]], rule reads_return)
      (simp_all add: wire_state_def dcost_state_def canon_state_def ucast16(2))
qed

interpretation state_codec: codec enc_state dec_state wf_state canon_state wire_state ecost_state dcost_state
  by unfold_locales (erule state_emits, erule state_reads, simp add: wire_state_def)

section \<open>Log payloads\<close>

definition wf_wal :: "walPayload \<Rightarrow> bool" where
  "wf_wal v \<longleftrightarrow>
     wp_Kind v = ''checkpoint'' \<and> wp_Snapshot v = None \<and> wp_Delta v = None \<or>
     wp_Kind v = ''snapshot'' \<and> wp_Delta v = None \<and> (\<exists>s. wp_Snapshot v = Some s \<and> wf_state s) \<or>
     (wp_Kind v = ''delta'' \<or> wp_Kind v = ''property_delta'') \<and> wp_Snapshot v = None \<and> (\<exists>d. wp_Delta v = Some d \<and> wf_delta d)"

definition canon_wal :: "walPayload \<Rightarrow> walPayload" where
  "canon_wal v = v\<lparr>wp_Snapshot := map_option canon_state (wp_Snapshot v), wp_Delta := map_option canon_delta (wp_Delta v)\<rparr>"

definition wire_wal :: "walPayload \<Rightarrow> byte list" where
  "wire_wal v =
     (case (wp_Snapshot v, wp_Delta v) of
        (Some s, _) \<Rightarrow> 1 # wire_state s
      | (None, Some d) \<Rightarrow> (if wp_Kind v = ''delta'' then 2 else 3) # wire_delta d
      | (None, None) \<Rightarrow> [0])"

definition dcost_wal :: "walPayload \<Rightarrow> nat list" where
  "dcost_wal v =
     (case (wp_Snapshot v, wp_Delta v) of
        (Some s, _) \<Rightarrow> dcost_state s
      | (None, Some d) \<Rightarrow> dcost_delta d
      | (None, None) \<Rightarrow> [])"

lemma wal_cases:
  assumes "wf_wal v"
  obtains (checkpoint) "v = \<lparr>wp_Kind = ''checkpoint'', wp_Snapshot = None, wp_Delta = None\<rparr>"
  | (snapshot) s where "v = \<lparr>wp_Kind = ''snapshot'', wp_Snapshot = Some s, wp_Delta = None\<rparr>" "wf_state s"
  | (delta) b d where "v = \<lparr>wp_Kind = (if b then ''property_delta'' else ''delta''), wp_Snapshot = None, wp_Delta = Some d\<rparr>" "wf_delta d"
proof (cases v)
  case (fields kind snapshot' delta')
  show thesis
    using assms checkpoint snapshot delta [of False] delta [of True] unfolding fields wf_wal_def by fastforce
qed

lemma run_tagged:
  assumes "emits m w c"
  shows "run_state (do { enc_tag t; m }) (new_encoder 0) = ((), (new_encoder 0)\<lparr>eout := t # w\<rparr>)"
proof -
  have "enc_ready (new_encoder 0)" "fits (new_encoder 0) c" by (simp_all add: enc_ready_def fits_def new_encoder_def)
  with emits_tag_then [OF assms, of t] have "run_state (do { enc_tag t; m }) (new_encoder 0) = ((), eadv (t # w) c (new_encoder 0))"
    unfolding emits_def by presburger
  then show ?thesis by (simp only: eadv_def) (simp add: new_encoder_def)
qed

lemma encode_wal:
  assumes "wf_wal v"
  shows "encodeBinaryWALPayload v = Inr (wire_wal v)"
proof (cases rule: wal_cases [OF assms])
  case 1
  then show ?thesis
    by (simp add: encodeBinaryWALPayload_def writeBinaryWALPayload_def wire_wal_def enc_tag_def ewrite_def emod_def
      new_encoder_def bytes_buffer_def)
next
  case (2 s)
  with run_tagged [OF state_emits [of s], of 1] show ?thesis
    by (simp add: encodeBinaryWALPayload_def writeBinaryWALPayload_def wire_wal_def del: run_state_bind) (simp add: new_encoder_def)
next
  case (3 b d)
  with run_tagged [OF delta_emits [of d], of "if b then 3 else 2"] show ?thesis
    by (cases b) (simp_all add: encodeBinaryWALPayload_def writeBinaryWALPayload_def wire_wal_def del: run_state_bind, simp_all add: new_encoder_def)
qed

lemma reads_wal_step:
  assumes "reads (k t) x w cs"
  shows "reads (do { kind \<leftarrow> dReadByte; d \<leftarrow> State_Monad.get; (case derr d of Some er \<Rightarrow> f er | None \<Rightarrow> k kind) }) x (t # w) cs"
proof -
  have "reads (do { d \<leftarrow> State_Monad.get; (case derr d of Some er \<Rightarrow> f er | None \<Rightarrow> k t) }) x w cs"
    using assms by (auto simp: reads_def dec_ready_def)
  then have "reads (do { kind \<leftarrow> dReadByte; d \<leftarrow> State_Monad.get; (case derr d of Some er \<Rightarrow> f er | None \<Rightarrow> k kind) }) x ([t] @ w) ([] @ cs)"
    by (intro reads_bind [OF reads_ReadByte])
  then show ?thesis by simp
qed

lemma wal_reads:
  assumes "wf_wal v"
  shows "reads dec_wal (None, canon_wal v) (wire_wal v) (dcost_wal v)"
proof (cases rule: wal_cases [OF assms])
  case 1
  then show ?thesis
    unfolding dec_wal_def by (simp add: wire_wal_def dcost_wal_def canon_wal_def) (rule reads_wal_step, simp add: reads_return)
next
  case (2 s)
  with reads_map [OF state_reads, of s "\<lambda>s. (None, \<lparr>wp_Kind = ''snapshot'', wp_Snapshot = Some s, wp_Delta = None\<rparr>)"]
  show ?thesis
    unfolding dec_wal_def by (simp add: wire_wal_def dcost_wal_def canon_wal_def) (rule reads_wal_step, simp)
next
  case (3 b d)
  with reads_map [OF delta_reads, of d "\<lambda>x. (None, \<lparr>wp_Kind = (if b then ''property_delta'' else ''delta''), wp_Snapshot = None, wp_Delta = Some x\<rparr>)"]
  show ?thesis
    unfolding dec_wal_def
    by (cases b) (simp_all add: wire_wal_def dcost_wal_def canon_wal_def, (rule reads_wal_step, simp)+)
qed

section \<open>Round trips of whole payloads\<close>

lemma new_decoder_ready:
  assumes "length w < 2 ^ 64" "sum_list cs \<le> unat (multiplySaturated maxBytes 2)"
  shows "dec_ready (newBinaryDecoder w (word_of_nat (length w)) maxBytes) w cs"
    "dec_ready (newBinaryDecoderBytes w maxBytes) w cs"
  using assms by (simp_all add: dec_ready_def newBinaryDecoder_def newBinaryDecoderBytes_def admits_def unat_word_of_nat_less)

lemma new_decoder_finish:
  "dfinish (dadv w cs (newBinaryDecoder w (word_of_nat (length w)) maxBytes)) = None"
  "dfinish (dadv w cs (newBinaryDecoderBytes w maxBytes)) = None"
  by (simp_all add: dfinish_def dadv_def newBinaryDecoder_def newBinaryDecoderBytes_def)

lemmas codec_eval = wire_opt_def dcost_opt_def wf_opt_def wf_str_def utf8_string_def byte_of_char_def wire_str_def
  put_uvarint.simps zigzag_def maxBinaryValueDepth_def sort_entries_def value_map_simps wf_value_PMap wf_props_def
  props_Some multiplySaturated_def

lemmas record_eval = zero_delta_def zero_state_def zero_streams_def wf_delta_def wire_delta_def dcost_delta_def canon_delta_def
  wf_node_def wire_node_def dcost_node_def canon_node_def wf_opt_streams_def wire_opt_streams_def dcost_opt_streams_def
  wire_wal_def dcost_wal_def canon_wal_def wf_state_def wire_state_def dcost_state_def canon_state_def
  wf_streams_def wire_streams_def dcost_streams_def canon_streams_def

text \<open>
  Every property value the format can carry survives: writing it with \<^verbatim>\<open>e.value\<close> into a fresh
  buffer succeeds, and \<^verbatim>\<open>d.value\<close> reads it back from those bytes, consuming them all, both from a byte
  slice and from a reader, whenever the decoder's allocation budget covers what the value needs. What
  comes back is the value itself with map entries in key order.
\<close>

theorem value_roundtrip:
  assumes "wf_value 0 v" "length (wire_value v) < 2 ^ 64"
    and "sum_list (dcost_value v) \<le> unat (multiplySaturated maxBytes 2)"
  defines "e \<equiv> snd (run_state (enc_value 0 v) (new_encoder 0))"
  shows "eerr e = None \<and>
    (\<exists>d. run_state (dec_value 0) (newBinaryDecoderBytes (eout e) maxBytes) = (canon_value v, d) \<and> dfinish d = None) \<and>
    (\<exists>d. run_state (dec_value 0) (newBinaryDecoder (eout e) (word_of_nat (length (eout e))) maxBytes) = (canon_value v, d) \<and>
      dfinish d = None)"
proof -
  have e: "e = (new_encoder 0)\<lparr>eout := wire_value v\<rparr>"
    unfolding e_def using value_at.encode_fresh [OF assms(1)] by simp
  have "eout e = wire_value v" "eerr e = None" unfolding e by (simp_all add: new_encoder_def)
  with value_at.dec_reads [OF assms(1)] new_decoder_ready [OF assms(2,3)] new_decoder_finish [of "wire_value v"]
  show ?thesis by (auto simp: reads_def)
qed

theorem value_roundtrip_witness:
  "\<exists>d. run_state (dec_value 0) (newBinaryDecoderBytes
      (eout (snd (run_state (enc_value 0 (PMap (Some [(''b'', PInt (- 3)), (''a'', PList (Some [PNull, PBool True]))]))) (new_encoder 0)))) 1000)
    = (PMap (Some [(''a'', PList (Some [PNull, PBool True])), (''b'', PInt (- 3))]), d) \<and> dfinish d = None"
proof -
  let ?v = "PMap (Some [(''b'', PInt (- 3)), (''a'', PList (Some [PNull, PBool True]))])"
  have w: "wf_value 0 ?v" by (simp add: codec_eval)
  have l: "length (wire_value ?v) < 2 ^ 64" by (simp add: codec_eval)
  have c: "sum_list (dcost_value ?v) \<le> unat (multiplySaturated 1000 2)" by (simp add: codec_eval)
  have k: "canon_value ?v = PMap (Some [(''a'', PList (Some [PNull, PBool True])), (''b'', PInt (- 3))])" by (simp add: codec_eval)
  show ?thesis using value_roundtrip [OF w l c] unfolding k by blast
qed

text \<open>
  C3. Every log payload the recovery code writes is read back: \<^verbatim>\<open>encodeBinaryWALPayload\<close> succeeds on a
  checkpoint, a snapshot or a delta whose parts the format can carry, and \<^verbatim>\<open>decodeBinaryWALPayload\<close> returns
  that payload from the bytes, given a budget that covers it.
\<close>

theorem wal_payload_roundtrip:
  assumes "wf_wal v" "length (wire_wal v) < 2 ^ 64" "sum_list (dcost_wal v) \<le> unat (multiplySaturated maxBytes 2)"
  shows "\<exists>bs. encodeBinaryWALPayload v = Inr bs \<and>
    decodeBinaryWALPayload bs (word_of_nat (length bs)) maxBytes = Inr (canon_wal v)"
  using encode_wal [OF assms(1)] wal_reads [OF assms(1)] new_decoder_ready(1) [OF assms(2,3)] new_decoder_finish(1) [of "wire_wal v"]
  by (simp add: decodeBinaryWALPayload_def reads_def)

theorem wal_payload_roundtrip_witness:
  "\<exists>bs. encodeBinaryWALPayload \<lparr>wp_Kind = ''delta'', wp_Snapshot = None, wp_Delta = Some (zero_delta\<lparr>dl_CommitID := 7,
      dl_UpsertNodes := Some [\<lparr>pn_ID = 300, pn_Labels = Some [''L''], pn_Properties = Some [(''p'', PString ''x'')]\<rparr>]\<rparr>)\<rparr> = Inr bs \<and>
    decodeBinaryWALPayload bs (word_of_nat (length bs)) 4096 =
      Inr \<lparr>wp_Kind = ''delta'', wp_Snapshot = None, wp_Delta = Some (zero_delta\<lparr>dl_CommitID := 7,
        dl_UpsertNodes := Some [\<lparr>pn_ID = 300, pn_Labels = Some [''L''], pn_Properties = Some [(''p'', PString ''x'')]\<rparr>]\<rparr>)\<rparr>"
proof -
  let ?d = "zero_delta\<lparr>dl_CommitID := 7,
      dl_UpsertNodes := Some [\<lparr>pn_ID = 300, pn_Labels = Some [''L''], pn_Properties = Some [(''p'', PString ''x'')]\<rparr>]\<rparr>"
  let ?v = "\<lparr>wp_Kind = ''delta'', wp_Snapshot = None, wp_Delta = Some ?d\<rparr>"
  have "wf_delta ?d" by (simp add: codec_eval record_eval)
  then have w: "wf_wal ?v" by (simp add: wf_wal_def)
  have l: "length (wire_wal ?v) < 2 ^ 64" by (simp add: codec_eval record_eval)
  have c: "sum_list (dcost_wal ?v) \<le> unat (multiplySaturated 4096 2)" by (simp add: codec_eval record_eval)
  have k: "canon_wal ?v = ?v" by (simp add: codec_eval record_eval)
  show ?thesis using wal_payload_roundtrip [OF w l c] unfolding k .
qed

text \<open>
  The encoding is deterministic: two values that differ only in the order in which Go happens to range
  over their maps drive the encoder through exactly the same states, on every encoder, with or without an
  allocation limit and whatever its writer does.
\<close>

theorem value_encoding_deterministic:
  assumes "wf_value depth v" "wf_value depth v'" "canon_value v = canon_value v'"
  shows "run_state (enc_value depth v) e = run_state (enc_value depth v') e"
  using enc_value_canon [OF assms(1)] enc_value_canon [OF assms(2)] assms(3) by simp

theorem value_encoding_deterministic_witness:
  "run_state (enc_value 0 (PMap (Some [(''a'', PNull), (''b'', PBool True)]))) (new_encoder 0) =
   run_state (enc_value 0 (PMap (Some [(''b'', PBool True), (''a'', PNull)]))) (new_encoder 0)"
proof (rule value_encoding_deterministic)
  show "wf_value 0 (PMap (Some [(''a'', PNull), (''b'', PBool True)]))" by (simp add: codec_eval)
  show "wf_value 0 (PMap (Some [(''b'', PBool True), (''a'', PNull)]))" by (simp add: codec_eval)
  show "canon_value (PMap (Some [(''a'', PNull), (''b'', PBool True)])) =
      canon_value (PMap (Some [(''b'', PBool True), (''a'', PNull)]))" by (simp add: codec_eval)
qed

text \<open>
  The snapshot payload of a state file is read back as written, and the decoder demands that the input
  ends with it.
\<close>

theorem state_payload_roundtrip:
  assumes "wf_state s" "length (wire_state s) < 2 ^ 64" "sum_list (dcost_state s) \<le> unat (multiplySaturated maxBytes 2)"
  shows "eout (snd (run_state (enc_state s) (new_encoder 0))) = wire_state s \<and>
    decodeBinaryStatePayload (wire_state s) (word_of_nat (length (wire_state s))) maxBytes = Inr (canon_state s) \<and>
    (\<forall>x. length (wire_state s @ [x]) < 2 ^ 64 \<longrightarrow>
       decodeBinaryStatePayload (wire_state s @ [x]) (word_of_nat (length (wire_state s @ [x]))) maxBytes =
         Inl (ErrMsg ''binary payload has trailing data''))"
proof (intro conjI allI impI)
  show "eout (snd (run_state (enc_state s) (new_encoder 0))) = wire_state s"
    using state_codec.encode_fresh [OF assms(1)] by simp
  note r = state_reads [OF assms(1)]
  show "decodeBinaryStatePayload (wire_state s) (word_of_nat (length (wire_state s))) maxBytes = Inr (canon_state s)"
    using r new_decoder_ready(1) [OF assms(2,3)] new_decoder_finish(1) [of "wire_state s"]
    by (simp add: decodeBinaryStatePayload_def reads_def)
  fix x assume x: "length (wire_state s @ [x]) < 2 ^ 64"
  let ?w = "wire_state s @ [x]"
  let ?d = "newBinaryDecoder ?w (word_of_nat (length ?w)) maxBytes"
  have "dec_ready ?d (?w) (dcost_state s)" using new_decoder_ready(1) [OF x assms(3)] .
  then have "dec_ready ?d (wire_state s) (dcost_state s)" by (rule dec_ready_tail)
  then have "run_state dec_state ?d = (canon_state s, dadv (wire_state s) (dcost_state s) ?d)"
    using r by (simp add: reads_def)
  moreover have "remaining (dadv (wire_state s) (dcost_state s) ?d) = 1" "derr (dadv (wire_state s) (dcost_state s) ?d) = None"
    by (simp_all add: dadv_def newBinaryDecoder_def)
  ultimately show "decodeBinaryStatePayload ?w (word_of_nat (length ?w)) maxBytes =
      Inl (ErrMsg ''binary payload has trailing data'')"
    by (simp add: decodeBinaryStatePayload_def dfinish_def del: length_append)
qed

theorem state_payload_roundtrip_witness:
  "decodeBinaryStatePayload (wire_state (zero_state\<lparr>st_NextNodeID := 9\<rparr>))
     (word_of_nat (length (wire_state (zero_state\<lparr>st_NextNodeID := 9\<rparr>)))) 64 = Inr (zero_state\<lparr>st_NextNodeID := 9\<rparr>)"
proof -
  let ?s = "zero_state\<lparr>st_NextNodeID := 9\<rparr>"
  have w: "wf_state ?s" by (simp add: codec_eval record_eval)
  have l: "length (wire_state ?s) < 2 ^ 64" by (simp add: codec_eval record_eval)
  have c: "sum_list (dcost_state ?s) \<le> unat (multiplySaturated 64 2)" by (simp add: codec_eval record_eval)
  have k: "canon_state ?s = ?s" by (simp add: codec_eval record_eval)
  show ?thesis using state_payload_roundtrip [OF w l c] unfolding k by blast
qed

end
