(* ===== verification/CodecSafety.thy ===== *)
theory CodecSafety
  imports BinaryRecords
begin

text \<open>
  What the decoder does on arbitrary input, such as a damaged file: it never indexes past its input (the
  panics of the Go code cannot happen), it never takes more bytes or budget than it has, an error stays an
  error, and what it accepts is a value the encoder can write again.
\<close>

section \<open>The contract on arbitrary input\<close>

definition dec_inv :: "decoder \<Rightarrow> bool" where
  "dec_inv d \<longleftrightarrow> derr d \<noteq> Some ErrPanic \<and> (inmem d \<longrightarrow> unat (remaining d) = length (inp d)) \<and>
     (\<forall>f h n. admitAllocation d = Some f \<longrightarrow> f h n \<noteq> Some ErrPanic)"

definition progress :: "decoder \<Rightarrow> decoder \<Rightarrow> bool" where
  "progress d d' \<longleftrightarrow> dec_inv d' \<and> remaining d' \<le> remaining d \<and> allocationLeft d' \<le> allocationLeft d \<and>
     (derr d \<noteq> None \<longrightarrow> derr d' \<noteq> None)"

definition sound :: "'a dec \<Rightarrow> ('a \<Rightarrow> bool) \<Rightarrow> bool" where
  "sound m P \<longleftrightarrow> (\<forall>d v d'. dec_inv d \<longrightarrow> run_state m d = (v, d') \<longrightarrow>
     progress d d' \<and> (derr d' = None \<longrightarrow> unat (remaining d) < 2 ^ 48 \<longrightarrow> P v))"

lemma progress_refl: "dec_inv d \<Longrightarrow> progress d d"
  by (simp add: progress_def)

lemma progress_trans: "progress d d' \<Longrightarrow> progress d' d'' \<Longrightarrow> progress d d''"
  by (auto simp: progress_def)

lemma progress_fail: "progress d d' \<Longrightarrow> er \<noteq> ErrPanic \<Longrightarrow> progress d (d'\<lparr>derr := Some er\<rparr>)"
  by (simp add: progress_def dec_inv_def)

lemma soundI:
  assumes "\<And>d v d'. dec_inv d \<Longrightarrow> run_state m d = (v, d') \<Longrightarrow> progress d d'"
    and "\<And>d v d'. dec_inv d \<Longrightarrow> run_state m d = (v, d') \<Longrightarrow> derr d' = None \<Longrightarrow> unat (remaining d) < 2 ^ 48 \<Longrightarrow> P v"
  shows "sound m P"
  using assms unfolding sound_def by blast

lemma soundD:
  assumes "sound m P" "dec_inv d" "run_state m d = (v, d')"
  shows "progress d d'" "derr d' = None \<Longrightarrow> unat (remaining d) < 2 ^ 48 \<Longrightarrow> P v"
  using assms unfolding sound_def by blast+

lemma sound_mono: "sound m P \<Longrightarrow> (\<And>v. P v \<Longrightarrow> Q v) \<Longrightarrow> sound m Q"
  unfolding sound_def by blast

lemma sound_bind:
  assumes "sound m P" "\<And>x. sound (k x) (\<lambda>v. P x \<longrightarrow> Q v)"
  shows "sound (m \<bind> k) Q"
proof (rule soundI)
  fix d v d'
  assume d: "dec_inv d" and r: "run_state (m \<bind> k) d = (v, d')"
  obtain x d1 where x: "run_state m d = (x, d1)" by (metis prod.exhaust)
  with r have k: "run_state (k x) d1 = (v, d')" by simp
  note p1 = soundD [OF assms(1) d x]
  have d1: "dec_inv d1" using p1(1) by (simp add: progress_def)
  note p2 = soundD [OF assms(2) d1 k]
  show "progress d d'" using p1(1) p2(1) by (rule progress_trans)
  assume e: "derr d' = None" and s: "unat (remaining d) < 2 ^ 48"
  have "derr d1 = None" using p2(1) e by (auto simp: progress_def)
  moreover have "unat (remaining d1) < 2 ^ 48"
    using p1(1) s by (simp add: progress_def word_le_nat_alt)
  ultimately show "Q v" using p1(2) p2(2) e s by blast
qed

lemma sound_return: "P v \<Longrightarrow> sound (State_Monad.return v) P"
  by (auto simp: sound_def progress_refl)

lemma sound_dfail: "er \<noteq> ErrPanic \<Longrightarrow> sound (dfail er x) P"
  by (auto simp: sound_def dfail_def progress_def dec_inv_def)

lemma sound_dguard: "sound m P \<Longrightarrow> sound (dguard x m) P"
  by (auto simp: sound_def dguard_def progress_refl split: if_splits)

lemma sound_if: "(b \<Longrightarrow> sound m P) \<Longrightarrow> (\<not> b \<Longrightarrow> sound n P) \<Longrightarrow> sound (if b then m else n) P"
  by simp

lemma sound_map: "sound m P \<Longrightarrow> (\<And>x. P x \<Longrightarrow> Q (f x)) \<Longrightarrow> sound (m \<bind> (\<lambda>x. State_Monad.return (f x))) Q"
  by (rule sound_bind) (auto intro: sound_return)

section \<open>The primitives\<close>

lemma progress_consume:
  assumes "dec_inv d" "n \<le> unat (remaining d)" "n \<le> length (inp d)" "derr d = None"
  shows "progress d (d\<lparr>inp := drop n (inp d), remaining := remaining d - word_of_nat n\<rparr>)"
  using assms by (auto simp: progress_def dec_inv_def unat_sub_nat word_le_nat_alt)

lemma sound_dread: "sound (dread n) (\<lambda>bs. length bs = n)"
proof (rule soundI)
  fix d v d'
  assume d: "dec_inv d" and r: "run_state (dread n) d = (v, d')"
  show "progress d d'"
  proof (cases "derr d = None \<and> n \<le> unat (remaining d) \<and> n \<le> length (inp d)")
    case True
    with r have "d' = d\<lparr>inp := drop n (inp d), remaining := remaining d - word_of_nat n\<rparr>"
      by (auto simp: dread_def dguard_def split: if_splits)
    with progress_consume [OF d] True show ?thesis by simp
  next
    case False
    with r d show ?thesis
      by (auto simp: dread_def dguard_def progress_def dec_inv_def word_le_nat_alt unat_sub_nat split: if_splits)
  qed
qed (auto simp: dread_def dguard_def split: if_splits)

lemma sound_ReadByte: "sound dReadByte (\<lambda>_. True)"
proof (rule soundI)
  fix d v d'
  assume d: "dec_inv d" and r: "run_state dReadByte d = (v, d')"
  show "progress d d'"
  proof (cases "inmem d \<and> derr d = None \<and> remaining d \<noteq> 0")
    case True
    then have l: "length (inp d) = unat (remaining d)" using d by (simp add: dec_inv_def)
    have g: "unat (remaining d) > 0" using True by (simp add: unat_gt_0)
    with l obtain b bs where i: "inp d = b # bs" by (cases "inp d") auto
    with r True have "d' = d\<lparr>inp := drop 1 (inp d), remaining := remaining d - word_of_nat 1\<rparr>"
      by (auto simp: dReadByte_def)
    with progress_consume [OF d, of 1] True l g i show ?thesis by simp
  next
    case False
    then show ?thesis
      using r d soundD(1) [OF sound_dread [of 1] d]
      by (auto simp: dReadByte_def progress_def dec_inv_def map_prod_def split: if_splits prod.splits)
  qed
qed simp

lemma sound_err_case:
  assumes "sound m P" "\<And>er. er \<noteq> ErrPanic \<Longrightarrow> f er \<noteq> ErrPanic"
  shows "sound (State (\<lambda>d. case derr d of Some er \<Rightarrow> (x, d\<lparr>derr := Some (f er)\<rparr>) | None \<Rightarrow> run_state m d)) P"
proof (rule soundI)
  fix d v d'
  assume d: "dec_inv d"
    and r: "run_state (State (\<lambda>d. case derr d of Some er \<Rightarrow> (x, d\<lparr>derr := Some (f er)\<rparr>) | None \<Rightarrow> run_state m d)) d = (v, d')"
  show "progress d d'"
  proof (cases "derr d")
    case None
    then show ?thesis using r soundD(1) [OF assms(1) d] by simp
  next
    case (Some er)
    then show ?thesis using r d assms(2) [of er] by (auto simp: progress_def dec_inv_def)
  qed
  assume "derr d' = None" "unat (remaining d) < 2 ^ 48"
  then show "P v" using r soundD(2) [OF assms(1) d] by (cases "derr d") auto
qed

lemma sound_eq: "m = n \<Longrightarrow> sound n P \<Longrightarrow> sound m P"
  by simp

lemma sound_readUvarint: "sound (readUvarint i x s) (\<lambda>_. True)"
proof (induction i x s rule: readUvarint.induct)
  case (1 i x s)
  show ?case
  proof (cases "i < 10")
    case True
    have step: "sound (State (\<lambda>d. case derr d of
           Some er \<Rightarrow> (0, d\<lparr>derr := Some (if i > 0 \<and> er = ErrEOF then ErrUnexpectedEOF else er)\<rparr>)
         | None \<Rightarrow> run_state
             (if b < 0x80 then (if i = 9 \<and> b > 1 then dfail ErrVarintOverflow 0 else State_Monad.return (x OR push_bit s (ucast b)))
              else readUvarint (i + 1) (x OR push_bit s (ucast (b AND 0x7F))) (s + 7)) d)) (\<lambda>v. True \<longrightarrow> True)" for b :: byte
      using 1 [OF True, of "newBinaryDecoder [] 0 0" b]
      by (intro sound_err_case) (auto simp: newBinaryDecoder_def intro: sound_dfail sound_return)
    show ?thesis
      unfolding readUvarint.simps [of i] if_P [OF True]
    proof (rule sound_bind [OF sound_ReadByte], goal_cases)
      case (1 b)
      show ?case by (rule sound_eq [OF _ step [of b]]) (auto simp: fun_eq_iff dfail_def split: option.splits)
    qed
  next
    case False
    then show ?thesis by (subst readUvarint.simps) (simp add: sound_dfail)
  qed
qed

lemma progress_varint:
  assumes "dec_inv d" "inmem d" "derr d = None" "uvarint (inp d) = Inr (v, n)"
  shows "progress d (d\<lparr>inp := drop n (inp d), remaining := remaining d - word_of_nat n\<rparr>)"
proof -
  have "n \<le> length (inp d)" using uvarint_consumes [of 0 0 0 "inp d" v n] assms(4) by (simp add: uvarint_def)
  with assms show ?thesis by (intro progress_consume) (simp_all add: dec_inv_def)
qed

lemma sound_u: "sound dec_u (\<lambda>_. True)"
proof (rule soundI)
  fix d v d'
  assume d: "dec_inv d" and r: "run_state dec_u d = (v, d')"
  show "progress d d'"
    using r progress_refl [OF d] soundD(1) [OF sound_readUvarint d] progress_varint [OF d]
    by (auto simp: dec_u_def dguard_def split: if_splits sum.splits)
qed simp

lemma sound_i: "sound dec_i (\<lambda>_. True)"
proof (rule soundI)
  fix d v d'
  assume d: "dec_inv d" and r: "run_state dec_i d = (v, d')"
  obtain x d1 where x: "run_state (readUvarint 0 0 0) d = (x, d1)" by (metis prod.exhaust)
  show "progress d d'"
    using r progress_refl [OF d] soundD(1) [OF sound_readUvarint d x] progress_varint [OF d] x
    by (auto simp: dec_i_def dguard_def split: if_splits sum.splits)
qed simp

lemma reserve_result:
  assumes "run_state (reserve count width) d = (b, d')" "dec_inv d"
  shows "progress d d' \<and> remaining d' = remaining d \<and> (b \<longrightarrow> derr d' = None) \<and> (\<not> b \<longrightarrow> derr d' \<noteq> None)"
proof -
  have "allocationLeft d - count * width \<le> allocationLeft d" if "\<not> (width \<noteq> 0 \<and> count > allocationLeft d div width)"
  proof (cases "width = 0")
    case False
    then have "unat width > 0" by (simp add: unat_gt_0)
    moreover have "unat count \<le> unat (allocationLeft d) div unat width"
      using that False by (simp add: word_less_nat_alt unat_div not_less)
    ultimately have "unat count * unat width \<le> unat (allocationLeft d)" by (simp only: less_eq_div_iff_mult_less_eq)
    moreover have "unat (allocationLeft d) < 2 ^ 64" using unsigned_less [of "allocationLeft d", where 'a = nat] by simp
    ultimately have "count * width \<le> allocationLeft d" by (simp add: word_le_nat_alt unat_mult_nat)
    then show ?thesis by (rule word_sub_le)
  qed simp
  with assms show ?thesis
    by (auto simp: reserve_def dguard_def Let_def progress_def dec_inv_def split: if_splits option.splits)
qed

definition small_count :: "nat option \<Rightarrow> bool" where
  "small_count n \<longleftrightarrow> (case n of None \<Rightarrow> True | Some n \<Rightarrow> n < 2 ^ 48)"

lemma sound_length: "sound (dec_length k) small_count"
  unfolding dec_length_def
proof (rule sound_bind [OF sound_u], rule sound_dguard, rule sound_if)
  fix encoded :: u64
  show "encoded = 0 \<Longrightarrow> sound (State_Monad.return None) (\<lambda>v. True \<longrightarrow> small_count v)"
    by (rule sound_return) (simp add: small_count_def)
  show "sound (State (\<lambda>d. let count = encoded - 1 in
          if count > remaining d \<or> count > maxInt
          then (None, d\<lparr>derr := Some (ErrLoadResourceLimit ''invalid binary collection length'')\<rparr>)
          else case run_state (reserve count k) d of
            (False, d') \<Rightarrow> (None, d')
          | (True, d') \<Rightarrow> (Some (unat count), d'))) (\<lambda>v. True \<longrightarrow> small_count v)"
  proof (rule soundI)
    fix d v d'
    assume d: "dec_inv d" and r: "run_state (State (\<lambda>d. let count = encoded - 1 in
          if count > remaining d \<or> count > maxInt
          then (None, d\<lparr>derr := Some (ErrLoadResourceLimit ''invalid binary collection length'')\<rparr>)
          else case run_state (reserve count k) d of
            (False, d') \<Rightarrow> (None, d')
          | (True, d') \<Rightarrow> (Some (unat count), d'))) d = (v, d')"
    obtain b d1 where b: "run_state (reserve (encoded - 1) k) d = (b, d1)" by (metis prod.exhaust)
    note p = reserve_result [OF b d]
    show "progress d d'"
    proof (cases "encoded - 1 > remaining d \<or> encoded - 1 > maxInt")
      case True
      then have "d' = d\<lparr>derr := Some (ErrLoadResourceLimit ''invalid binary collection length'')\<rparr>" using r by (simp add: Let_def)
      then show ?thesis using progress_fail [OF progress_refl [OF d]] by simp
    next
      case False
      then have "d' = d1" using r b by (cases b) (simp_all add: Let_def)
      then show ?thesis using p by simp
    qed
    assume e: "derr d' = None" "unat (remaining d) < 2 ^ 48"
    then have c: "\<not> (encoded - 1 > remaining d \<or> encoded - 1 > maxInt)"
      using r by (cases "encoded - 1 > remaining d \<or> encoded - 1 > maxInt") (auto simp: Let_def)
    have "v = (if b then Some (unat (encoded - 1)) else None)"
      using r b c by (cases b) (simp_all add: Let_def)
    moreover have "unat (encoded - 1) < 2 ^ 48" using c e(2) by (simp add: not_less word_le_nat_alt)
    ultimately show "True \<longrightarrow> small_count v" by (simp add: small_count_def)
  qed
qed

lemma sound_str: "sound dec_str wf_str"
  unfolding dec_str_def
proof (rule sound_bind [OF sound_u], rule sound_dguard, rule soundI)
  fix sz d v d'
  let ?m = "State (\<lambda>d.
       if sz > remaining d \<or> sz > maxInt
       then ([], d\<lparr>derr := Some (ErrLoadResourceLimit ''invalid binary string length'')\<rparr>)
       else case run_state (reserve sz 2) d of
         (False, d') \<Rightarrow> ([], d')
       | (True, d') \<Rightarrow>
           (case run_state (dread (unat sz)) d' of
              (data, d'') \<Rightarrow>
                (bytes_string data,
                 if derr d'' = None \<and> \<not> utf8_valid data
                 then d''\<lparr>derr := Some (ErrMsg ''invalid UTF-8 in binary string'')\<rparr> else d'')))"
  assume d: "dec_inv d" and r: "run_state ?m d = (v, d')"
  obtain b d1 where b: "run_state (reserve sz 2) d = (b, d1)" by (metis prod.exhaust)
  obtain data d2 where data: "run_state (dread (unat sz)) d1 = (data, d2)" by (metis prod.exhaust)
  note p = reserve_result [OF b d]
  then have d1: "dec_inv d1" by (simp add: progress_def)
  note q = soundD [OF sound_dread d1 data]
  have pq: "progress d d2" using p q(1) progress_trans by blast
  show "progress d d'"
  proof (cases "sz > remaining d \<or> sz > maxInt")
    case True
    then have "d' = d\<lparr>derr := Some (ErrLoadResourceLimit ''invalid binary string length'')\<rparr>" using r by simp
    then show ?thesis using progress_fail [OF progress_refl [OF d]] by simp
  next
    case False
    then have "d' = (if b then if derr d2 = None \<and> \<not> utf8_valid data
        then d2\<lparr>derr := Some (ErrMsg ''invalid UTF-8 in binary string'')\<rparr> else d2 else d1)"
      using r b data by (cases b) simp_all
    then show ?thesis using p pq progress_fail [OF pq] by simp
  qed
  assume e: "derr d' = None" "unat (remaining d) < 2 ^ 48"
  then have ok: "\<not> sz > remaining d" b "v = bytes_string data" "utf8_valid data" "derr d2 = None"
    using r b data p by (auto split: if_splits bool.splits)
  then have "length data < 2 ^ 48"
    using q(2) p e(2) by (simp add: not_less word_le_nat_alt)
  with ok show "True \<longrightarrow> wf_str v" by (simp add: wf_str_def utf8_string_def)
qed

lemma sound_bytes: "sound dec_bytes (wf_opt (\<lambda>_. True))"
  unfolding dec_bytes_def
proof (rule sound_bind [OF sound_length])
  fix n
  show "sound (case n of None \<Rightarrow> State_Monad.return None | Some n \<Rightarrow> do { bs \<leftarrow> dread n; State_Monad.return (Some bs) })
      (\<lambda>v. small_count n \<longrightarrow> wf_opt (\<lambda>_. True) v)"
    by (cases n) (auto intro!: sound_return sound_map [OF sound_dread] simp: small_count_def wf_opt_def list_all_iff)
qed

lemma sound_loop:
  assumes "sound r P"
  shows "sound (dec_loop z r n) (\<lambda>xs. length xs = n \<and> list_all P xs)"
proof (induction n)
  case (Suc n)
  show ?case
    unfolding dec_loop.simps
    by (rule sound_bind [OF assms], rule sound_map [OF sound_dguard [OF Suc.IH]]) auto
qed (simp add: sound_return)

lemma sound_slice:
  assumes "sound r P"
  shows "sound (decodeBinarySlice z k r) (wf_opt P)"
  unfolding decodeBinarySlice_def
proof (rule sound_bind [OF sound_length])
  fix n
  show "sound (case n of None \<Rightarrow> State_Monad.return None | Some n \<Rightarrow> do { xs \<leftarrow> dec_loop z r n; State_Monad.return (Some xs) })
      (\<lambda>v. small_count n \<longrightarrow> wf_opt P v)"
    by (cases n) (auto intro!: sound_return sound_map [OF sound_loop [OF assms]] simp: small_count_def wf_opt_def)
qed

lemma sound_entries:
  assumes "sound val P"
  shows "sound (dec_entries val acc n) (\<lambda>m. distinct (map fst acc) \<and> list_all (\<lambda>(k, v). wf_str k \<and> P v) acc \<longrightarrow>
    distinct (map fst m) \<and> list_all (\<lambda>(k, v). wf_str k \<and> P v) m \<and> length m = length acc + n)"
proof (induction n arbitrary: acc)
  case (Suc n)
  show ?case
    unfolding dec_entries.simps
  proof (rule sound_bind [OF sound_str], rule sound_bind [OF assms], rule sound_dguard, rule sound_if)
    fix key v
    assume "\<not> map_of acc key \<noteq> None"
    then have "key \<notin> fst ` set acc" by (simp add: map_of_eq_None_iff)
    then show "sound (dec_entries val (acc @ [(key, v)]) n) (\<lambda>m. P v \<longrightarrow> wf_str key \<longrightarrow>
      distinct (map fst acc) \<and> list_all (\<lambda>(k, v). wf_str k \<and> P v) acc \<longrightarrow>
      distinct (map fst m) \<and> list_all (\<lambda>(k, v). wf_str k \<and> P v) m \<and> length m = length acc + Suc n)"
      by (intro sound_mono [OF Suc.IH]) auto
  qed (simp add: sound_dfail)
qed (simp add: sound_return)

lemma sound_properties:
  assumes "sound val P"
  shows "sound (dec_properties_with val depth) (\<lambda>m. depth \<le> maxBinaryValueDepth \<and> wf_props P m)"
proof (cases "depth > maxBinaryValueDepth")
  case False
  show ?thesis
    unfolding dec_properties_with_def if_not_P [OF False]
  proof (rule sound_bind [OF sound_length])
    fix n
    show "sound (case n of None \<Rightarrow> State_Monad.return None | Some n \<Rightarrow> do { m \<leftarrow> dec_entries val [] n; State_Monad.return (Some m) })
        (\<lambda>m. small_count n \<longrightarrow> depth \<le> maxBinaryValueDepth \<and> wf_props P m)"
      using False
      by (cases n) (auto intro!: sound_return sound_map [OF sound_entries [OF assms]] simp: small_count_def wf_opt_def wf_props_def)
  qed
qed (simp add: dec_properties_with_def sound_dfail)

lemma sound_vector_item: "sound dec_vector_item finite32"
  unfolding dec_vector_item_def
  by (rule sound_bind [OF sound_dread], rule sound_dguard, rule sound_if) (auto intro: sound_dfail sound_return)

lemma sound_get:
  assumes "\<And>d. sound (k d) P"
  shows "sound (State_Monad.get \<bind> k) P"
proof (rule soundI)
  fix d v d'
  assume d: "dec_inv d" and r: "run_state (State_Monad.get \<bind> k) d = (v, d')"
  then have "run_state (k d) d = (v, d')" by simp
  note s = soundD [OF assms d this]
  show "progress d d'" by (rule s(1))
  show "derr d' = None \<Longrightarrow> unat (remaining d) < 2 ^ 48 \<Longrightarrow> P v" by (rule s(2))
qed

lemma sound_vector:
  "sound (do { n \<leftarrow> dec_length 4;
      (case n of None \<Rightarrow> State_Monad.return (PVector None)
       | Some n \<Rightarrow> do { d \<leftarrow> State_Monad.get;
           (if word_of_nat n > remaining d div 4 then dfail ErrUnexpectedEOF (PVector None)
            else do { xs \<leftarrow> dec_loop 0 dec_vector_item n; State_Monad.return (PVector (Some xs)) }) }) })
    (\<lambda>v. \<exists>xs. v = PVector xs \<and> wf_opt finite32 xs)"
proof (rule sound_bind [OF sound_length])
  fix n
  have "sound (do { xs \<leftarrow> dec_loop 0 dec_vector_item n; State_Monad.return (PVector (Some xs)) })
      (\<lambda>v. small_count (Some n) \<longrightarrow> (\<exists>xs. v = PVector xs \<and> wf_opt finite32 xs))" for n
    by (rule sound_map [OF sound_loop [OF sound_vector_item]]) (auto simp: small_count_def wf_opt_def)
  then show "sound (case n of None \<Rightarrow> State_Monad.return (PVector None)
       | Some n \<Rightarrow> do { d \<leftarrow> State_Monad.get;
           (if word_of_nat n > remaining d div 4 then dfail ErrUnexpectedEOF (PVector None)
            else do { xs \<leftarrow> dec_loop 0 dec_vector_item n; State_Monad.return (PVector (Some xs)) }) })
      (\<lambda>v. small_count n \<longrightarrow> (\<exists>xs. v = PVector xs \<and> wf_opt finite32 xs))"
    by (cases n) (auto intro!: sound_return sound_get sound_if sound_dfail simp: wf_opt_def)
qed

lemma sound_flag: "sound (do { tag \<leftarrow> dReadByte; dguard x (if tag > 1 then dfail (ErrMsg er) x else State_Monad.return (f (tag = 1))) })
    (\<lambda>v. \<exists>b. v = f b)"
  by (rule sound_bind [OF sound_ReadByte], rule sound_dguard, rule sound_if) (auto intro: sound_dfail sound_return)

lemma sound_float: "sound (do { bs \<leftarrow> dread 8; dguard (PFloat (from_be64 bs))
    (if \<not> finite64 (from_be64 bs) then dfail (ErrMsg er) (PFloat (from_be64 bs)) else State_Monad.return (PFloat (from_be64 bs))) })
  (\<lambda>v. \<exists>f. v = PFloat f \<and> finite64 f)"
  by (rule sound_bind [OF sound_dread], rule sound_dguard, rule sound_if) (auto intro: sound_dfail sound_return)

lemma sound_value: "sound (dec_value depth) (wf_value depth)"
proof (induction "66 - depth" arbitrary: depth)
  case 0
  then have d: "depth > maxBinaryValueDepth" by (simp add: maxBinaryValueDepth_def)
  then show ?case by (subst dec_value.simps) (simp add: sound_dguard sound_dfail)
next
  case (Suc n)
  then have IH: "sound (dec_value (depth + 1)) (wf_value (depth + 1))" and d: "\<not> depth > maxBinaryValueDepth"
    by (simp_all add: maxBinaryValueDepth_def)
  have d': "depth \<le> maxBinaryValueDepth" using d by simp
  show ?case
    unfolding dec_value.simps [of depth] if_not_P [OF d]
    apply (rule sound_dguard, rule sound_bind [OF sound_ReadByte], rule sound_dguard)
    apply (rule sound_if, rule sound_return, simp add: d')
    apply (rule sound_if, rule sound_return, simp add: d')
    apply (rule sound_if, rule sound_mono [OF sound_flag], use d' in force)
    apply (rule sound_if, rule sound_map [OF sound_i], simp add: d')
    apply (rule sound_if, rule sound_mono [OF sound_float], use d' in force)
    apply (rule sound_if, rule sound_map [OF sound_str], simp add: d')
    apply (rule sound_if, rule sound_map [OF sound_bytes], simp add: d')
    apply (rule sound_if, rule sound_mono [OF sound_vector], use d' in force)
    apply (rule sound_if, rule sound_map [OF sound_slice [OF IH]], use d' in simp)
    apply (rule sound_if, rule sound_map [OF sound_properties [OF IH]], simp add: wf_value_PMap)
    apply (rule sound_dfail, simp)
    done
qed

lemma sound_properties0: "sound (dec_properties 0) (wf_props (wf_value 0))"
  unfolding dec_properties_def by (rule sound_mono [OF sound_properties [OF sound_value]]) simp

lemma sound_strings: "sound dec_strings (wf_opt wf_str)"
  unfolding dec_strings_def by (rule sound_slice [OF sound_str])

lemma sound_ids: "sound dec_ids (wf_opt (\<lambda>_. True))"
  unfolding dec_ids_def by (rule sound_slice [OF sound_u])

section \<open>The records\<close>

lemma sound_node: "sound dec_node wf_node"
  unfolding dec_node_def
  by (rule sound_bind [OF sound_u], rule sound_dguard, rule sound_bind [OF sound_strings], rule sound_bind [OF sound_properties0])
    (simp add: sound_return wf_node_def)

lemma sound_edge: "sound dec_edge wf_edge"
  unfolding dec_edge_def
  by (rule sound_bind [OF sound_u], rule sound_bind [OF sound_u], rule sound_bind [OF sound_u], rule sound_bind [OF sound_str],
      rule sound_dguard, rule sound_bind [OF sound_properties0])
    (simp add: sound_return wf_edge_def)

lemma sound_fts: "sound dec_fts wf_fts"
  unfolding dec_fts_def
  by (rule sound_bind [OF sound_u], rule sound_bind [OF sound_str]) (simp add: sound_return wf_fts_def)

lemma sound_index: "sound dec_index wf_index"
  unfolding dec_index_def
  by (rule sound_bind [OF sound_str], rule sound_bind [OF sound_str]) (simp add: sound_return wf_index_def)

lemma sound_indexes: "sound dec_indexes (wf_opt wf_index)"
  unfolding dec_indexes_def by (rule sound_slice [OF sound_index])

lemma sound_metadata: "sound dec_metadata (wf_opt wf_metadata_entry)"
  unfolding dec_metadata_def dec_metadata_entry_def
  by (rule sound_slice, rule sound_bind [OF sound_bytes], rule sound_bind [OF sound_bytes]) (simp add: sound_return wf_metadata_entry_def)

lemma sound_stream_record: "sound dec_stream_record wf_stream_record"
  unfolding dec_stream_record_def
  by (rule sound_bind [OF sound_u], rule sound_bind [OF sound_str], rule sound_bind [OF sound_value])
    (simp add: sound_return wf_stream_record_def)

lemma sound_stream: "sound dec_stream wf_stream"
  unfolding dec_stream_def
  by (rule sound_bind [OF sound_str], rule sound_bind [OF sound_u], rule sound_bind [OF sound_slice [OF sound_stream_record]])
    (simp add: sound_return wf_stream_def)

lemma sound_offset: "sound dec_offset wf_offset"
  unfolding dec_offset_def
  by (rule sound_bind [OF sound_str], rule sound_bind [OF sound_str], rule sound_bind [OF sound_u])
    (simp add: sound_return wf_offset_def)

lemma sound_streams: "sound dec_streams wf_streams"
  unfolding dec_streams_def
  by (rule sound_bind [OF sound_slice [OF sound_stream]], rule sound_bind [OF sound_slice [OF sound_offset]])
    (simp add: sound_return wf_streams_def)

lemma sound_operations: "sound dec_streamOperations (wf_opt wf_operation)"
  unfolding dec_streamOperations_def dec_operation_def
  by (rule sound_slice, rule sound_bind [OF sound_str], rule sound_bind [OF sound_str], rule sound_bind [OF sound_str],
      rule sound_bind [OF sound_u], rule sound_bind [OF sound_str], rule sound_bind [OF sound_value])
    (simp add: sound_return wf_operation_def)

lemma sound_property_change: "sound dec_property_change wf_property_change"
  unfolding dec_property_change_def
  by (rule sound_bind [OF sound_u], rule sound_bind [OF sound_properties0], rule sound_bind [OF sound_strings])
    (simp add: sound_return wf_property_change_def)

lemma sound_metadata_change: "sound dec_metadata_change wf_metadata_change"
  unfolding dec_metadata_change_def
  by (rule sound_bind [OF sound_bytes], rule sound_bind [OF sound_bytes], rule sound_dguard, rule sound_mono [OF sound_flag])
    (auto simp: wf_metadata_change_def)

lemma sound_opt_streams: "sound (dec_opt_streams p) wf_opt_streams"
  unfolding dec_opt_streams_def
  by (rule sound_if, rule sound_map [OF sound_streams]) (auto simp: wf_opt_streams_def intro: sound_return)

lemma sound_delta: "sound dec_delta wf_delta"
  unfolding dec_delta_def Let_def dec_opt_streams_def [symmetric]
  by (rule sound_bind [OF sound_str], rule sound_bind [OF sound_u], rule sound_bind [OF sound_u], rule sound_bind [OF sound_u],
      rule sound_dguard, rule sound_bind [OF sound_slice [OF sound_node]], rule sound_bind [OF sound_ids],
      rule sound_bind [OF sound_slice [OF sound_edge]], rule sound_bind [OF sound_ids],
      rule sound_bind [OF sound_slice [OF sound_fts]], rule sound_bind [OF sound_ids],
      rule sound_bind [OF sound_slice [OF sound_metadata_change]], rule sound_bind [OF sound_ReadByte],
      rule sound_dguard, rule sound_if, rule sound_dfail, simp, rule sound_bind [OF sound_opt_streams],
      rule sound_bind [OF sound_operations], rule sound_bind [OF sound_indexes], rule sound_bind [OF sound_indexes],
      rule sound_bind [OF sound_indexes], rule sound_bind [OF sound_indexes],
      rule sound_bind [OF sound_slice [OF sound_property_change]], rule sound_bind [OF sound_slice [OF sound_property_change]])
    (simp add: sound_return wf_delta_def zero_delta_def)

lemma sound_state: "sound dec_state wf_state"
  unfolding dec_state_def
  by (rule sound_bind [OF sound_str], rule sound_bind [OF sound_u], rule sound_if, rule sound_dfail, simp,
      rule sound_bind [OF sound_u], rule sound_bind [OF sound_u], rule sound_bind [OF sound_u], rule sound_bind [OF sound_metadata],
      rule sound_bind [OF sound_slice [OF sound_node]], rule sound_bind [OF sound_slice [OF sound_edge]],
      rule sound_bind [OF sound_slice [OF sound_fts]], rule sound_bind [OF sound_indexes], rule sound_bind [OF sound_indexes],
      rule sound_bind [OF sound_streams])
    (simp add: sound_return wf_state_def)

section \<open>Safety of decoding\<close>

lemma new_decoder_inv: "length bs < 2 ^ 64 \<Longrightarrow> dec_inv (newBinaryDecoderBytes bs maxBytes)" "dec_inv (newBinaryDecoder bs len maxBytes)"
  by (simp_all add: dec_inv_def newBinaryDecoderBytes_def newBinaryDecoder_def unat_word_of_nat_less)



lemma wal_sound:
  assumes "decodeBinaryWALPayload bs len maxBytes = Inr v" "unat len < 2 ^ 48"
  shows "wf_wal v"
proof -
  let ?d = "newBinaryDecoder bs len maxBytes"
  obtain r d' where r: "run_state dec_wal ?d = (r, d')" by (metis prod.exhaust)
  obtain e w where rw: "r = (e, w)" by (metis prod.exhaust)
  have fin: "e = None" "w = v" "derr d' = None"
    using assms(1) unfolding decodeBinaryWALPayload_def r rw
    by (auto simp: dfinish_def split: option.splits if_splits)
  have "sound dec_wal (\<lambda>(e, v). e = None \<longrightarrow> wf_wal v)"
    unfolding dec_wal_def
  proof (rule sound_bind [OF sound_ReadByte], rule sound_get)
    fix kind :: byte and d
    show "sound (case derr d of
        Some er \<Rightarrow> State_Monad.return (Some er, \<lparr>wp_Kind = [], wp_Snapshot = None, wp_Delta = None\<rparr>)
      | None \<Rightarrow>
          if kind = 0 then State_Monad.return (None, \<lparr>wp_Kind = ''checkpoint'', wp_Snapshot = None, wp_Delta = None\<rparr>)
          else if kind = 1 then do {
            s \<leftarrow> dec_state;
            State_Monad.return (None, \<lparr>wp_Kind = ''snapshot'', wp_Snapshot = Some s, wp_Delta = None\<rparr>)
          }
          else if kind = 2 \<or> kind = 3 then do {
            x \<leftarrow> dec_delta;
            State_Monad.return (None, \<lparr>wp_Kind = (if kind = 3 then ''property_delta'' else ''delta''),
              wp_Snapshot = None, wp_Delta = Some x\<rparr>)
          }
          else State_Monad.return (Some (ErrMsg ''unknown binary WAL payload tag''),
                 \<lparr>wp_Kind = [], wp_Snapshot = None, wp_Delta = None\<rparr>)) (\<lambda>v. True \<longrightarrow> (case v of (e, v) \<Rightarrow> e = None \<longrightarrow> wf_wal v))"
      by (cases "derr d") (auto intro!: sound_if sound_return sound_map [OF sound_state] sound_map [OF sound_delta] simp: wf_wal_def)
  qed
  from soundD(2) [OF this new_decoder_inv(2) r] fin assms(2) rw show ?thesis
    by (simp add: newBinaryDecoder_def)
qed

text \<open>
  C23. Whatever log payload the decoder accepts, even from bytes no encoder wrote, is one the encoder can
  write again, and reading that back gives the same payload (with map entries in key order): accepting
  non-canonical bytes never brings a value into the database that cannot be stored.
\<close>

theorem decode_wal_accepts_writable:
  assumes "decodeBinaryWALPayload bs len maxBytes = Inr v" "unat len < 2 ^ 48"
    and "length (wire_wal v) < 2 ^ 64" "sum_list (dcost_wal v) \<le> unat (multiplySaturated maxBytes' 2)"
  shows "\<exists>bs'. encodeBinaryWALPayload v = Inr bs' \<and>
    decodeBinaryWALPayload bs' (word_of_nat (length bs')) maxBytes' = Inr (canon_wal v)"
proof -
  note w = wal_sound [OF assms(1,2)]
  show ?thesis
    using encode_wal [OF w] wal_reads [OF w] new_decoder_ready(1) [OF assms(3,4)] new_decoder_finish(1) [of "wire_wal v"]
    by (simp add: decodeBinaryWALPayload_def reads_def)
qed

theorem decode_wal_accepts_writable_witness:
  "\<exists>bs'. encodeBinaryWALPayload \<lparr>wp_Kind = ''checkpoint'', wp_Snapshot = None, wp_Delta = None\<rparr> = Inr bs'"
proof -
  let ?v = "\<lparr>wp_Kind = ''checkpoint'', wp_Snapshot = None, wp_Delta = None\<rparr>"
  have "decodeBinaryWALPayload [0] 1 8 = Inr ?v"
    by (simp add: decodeBinaryWALPayload_def dec_wal_def dReadByte_def dread_def dguard_def newBinaryDecoder_def dfinish_def)
  from decode_wal_accepts_writable [OF this, of 8] show ?thesis
    by (auto simp: wire_wal_def dcost_wal_def)
qed

end
