(* ===== verification/KeyTable.thy ===== *)
theory KeyTable
  imports Prelude
begin

text \<open>
  The contract the store's tables share: paged maps and sharded maps keyed by 64-bit identifiers, application
  metadata and property lists keyed by strings. After any sequence of writes a table holds the abstract map
  those writes describe, its length counts the bound keys, and iteration yields every binding once. \<open>z\<close> is the
  zero value of the element type that a lookup of an absent key returns.
\<close>

locale key_table =
  fixes z :: 'v
    and empty_t :: 't
    and get_t :: "'t \<Rightarrow> 'k \<Rightarrow> 'v"
    and has_t :: "'t \<Rightarrow> 'k \<Rightarrow> bool"
    and set_t :: "'k \<Rightarrow> 'v \<Rightarrow> 't \<Rightarrow> 't"
    and delete_t :: "'k \<Rightarrow> 't \<Rightarrow> 't"
    and len_t :: "'t \<Rightarrow> int"
    and all_t :: "'t \<Rightarrow> ('k \<times> 'v) list"
    and view :: "'t \<Rightarrow> 'k \<Rightarrow> 'v option"
    and inv :: "'t \<Rightarrow> bool"
  assumes inv_empty: "inv empty_t"
    and view_empty: "view empty_t = (\<lambda>_. None)"
    and inv_set: "inv t \<Longrightarrow> inv (set_t i v t)"
    and view_set: "inv t \<Longrightarrow> view (set_t i v t) = (view t)(i \<mapsto> v)"
    and inv_delete: "inv t \<Longrightarrow> inv (delete_t i t)"
    and view_delete: "inv t \<Longrightarrow> view (delete_t i t) = (view t)(i := None)"
    and get_view: "inv t \<Longrightarrow> get_t t i = (case view t i of None \<Rightarrow> z | Some v \<Rightarrow> v)"
    and has_view: "inv t \<Longrightarrow> has_t t i \<longleftrightarrow> view t i \<noteq> None"
    and len_view: "inv t \<Longrightarrow> len_t t = int (card (dom (view t)))"
    and all_distinct: "inv t \<Longrightarrow> distinct (map fst (all_t t))"
    and all_view: "inv t \<Longrightarrow> map_of (all_t t) = view t"
begin

fun apply_write :: "'k \<times> 'v option \<Rightarrow> 't \<Rightarrow> 't" where
  "apply_write (i, None) t = delete_t i t"
| "apply_write (i, Some v) t = set_t i v t"

lemma apply_write_law: "inv t \<Longrightarrow> inv (apply_write w t) \<and> view (apply_write w t) = (view t)(fst w := snd w)"
  by (cases w; cases "snd w") (auto simp: inv_set inv_delete view_set view_delete)

lemma writes_law:
  "inv t \<Longrightarrow> inv (fold apply_write ws t) \<and> view (fold apply_write ws t) = fold (\<lambda>w f. f(fst w := snd w)) ws (view t)"
  by (induction ws arbitrary: t) (simp_all add: apply_write_law)

lemma reachable_inv: "inv (fold apply_write ws empty_t)"
  using writes_law inv_empty by blast

lemma all_count: "inv t \<Longrightarrow> int (length (all_t t)) = len_t t"
proof -
  assume t: "inv t"
  have "length (all_t t) = card (fst ` set (all_t t))"
    using all_distinct [OF t] by (metis distinct_card length_map set_map)
  also have "fst ` set (all_t t) = dom (view t)" using all_view [OF t] by (metis dom_map_of_conv_image_fst)
  finally show "int (length (all_t t)) = len_t t" by (simp add: len_view [OF t])
qed

lemma get_after_set: "inv t \<Longrightarrow> get_t (set_t i v t) j = (if j = i then v else get_t t j)"
  by (simp add: get_view inv_set view_set)

lemma get_after_delete: "inv t \<Longrightarrow> get_t (delete_t i t) j = (if j = i then z else get_t t j)"
  by (simp add: get_view inv_delete view_delete)

lemma all_complete: "inv t \<Longrightarrow> (i, v) \<in> set (all_t t) \<longleftrightarrow> has_t t i \<and> get_t t i = v"
proof -
  assume t: "inv t"
  have "(i, v) \<in> set (all_t t) \<longleftrightarrow> view t i = Some v"
    using map_of_eq_Some_iff [OF all_distinct [OF t], of i v] all_view [OF t] by simp
  then show ?thesis using t by (auto simp: has_view get_view split: option.splits)
qed

end

end
