(* ===== verification/Values.thy ===== *)
theory Values
  imports BinaryCodec
begin

unbundle bit_operations_syntax

text \<open>
  Values on their way into and out of the store (\<^verbatim>\<open>internal/store/store.go\<close>): normalisation of arbitrary Go
  values with its limits on depth, elements and bytes and its cycle detection, and the conversion between
  normalised values and \<^verbatim>\<open>persistedValue\<close>.

  A Go \<^verbatim>\<open>any\<close> is a datatype with a constructor per dynamic type the code tells apart. A container that can be
  part of a cycle carries its identity as \<^verbatim>\<open>valueIdentity\<close> computes it (kind, pointer, length, capacity);
  \<open>None\<close> stands for a nil pointer and for a container the store has just allocated, which is no other
  container in use. A cyclic value is an infinite unfolding, of which the code only ever inspects the part
  above the first repeated identity, so a finite tree with repeated identities represents it.
\<close>

section \<open>Go values\<close>

type_synonym valueVisit = "nat \<times> nat \<times> nat \<times> nat"

datatype gvalue =
    GNil
  | GBool bool
  | GInt64 u64
  | GSigned u64
  | GUint u64
  | GUint64 u64
  | GUnsigned u64
  | GFloat32 u32
  | GFloat64 u64
  | GString string
  | GBytes "byte list option"
  | GVector "u32 list option"
  | GList "valueVisit option" "gvalue list option"
  | GMap "valueVisit option" "(string \<times> gvalue) list option"
  | GSlice "valueVisit option" "gvalue list"
  | GArray "gvalue list"
  | GStringMap "valueVisit option" "(string \<times> gvalue) list"
  | GOtherMap
  | GOther

text \<open>
  \<open>GSigned\<close> is an \<^verbatim>\<open>int\<close>, \<^verbatim>\<open>int8\<close>, \<^verbatim>\<open>int16\<close> or \<^verbatim>\<open>int32\<close> (its value sign-extended), \<open>GUnsigned\<close> a \<^verbatim>\<open>uint8\<close>,
  \<^verbatim>\<open>uint16\<close> or \<^verbatim>\<open>uint32\<close>; \<open>GSlice\<close>, \<open>GArray\<close> and \<open>GStringMap\<close> are slices, arrays and string-keyed maps of
  other element types, with their elements boxed.
\<close>

definition maxValueDepth :: nat where
  "maxValueDepth = 64"

definition maxValueElements :: int where
  "maxValueElements = 1000000"

definition maxValueBytes :: int where
  "maxValueBytes = 67108864"

definition maxInternedStringBytes :: nat where
  "maxInternedStringBytes = 1024"

text \<open>\<^verbatim>\<open>float64(v)\<close> of a finite \<^verbatim>\<open>float32\<close>, on the bit patterns of IEEE 754.\<close>

definition highest_bit :: "u32 \<Rightarrow> nat" where
  "highest_bit m = length (dropWhile (\<lambda>i. \<not> bit m i) (rev [0..<32])) - 1"

definition widen_float :: "u32 \<Rightarrow> u64" where
  "widen_float w =
     (let sign = push_bit 63 (ucast (drop_bit 31 w));
          ex = (ucast (drop_bit 23 w AND 0xFF) :: u64);
          m = w AND 0x7FFFFF;
          frac = (ucast m :: u64)
      in if ex = 0 then
           (if m = 0 then sign
            else let k = highest_bit m in
              sign OR push_bit 52 (word_of_nat (k + 874)) OR (push_bit (52 - k) frac AND mask 52))
         else sign OR push_bit 52 (ex + 896) OR push_bit 29 frac)"

text \<open>\<^verbatim>\<open>append([]T(nil), v...)\<close>: a copy of an empty slice is nil.\<close>

definition append_nil :: "'a list option \<Rightarrow> 'a list option" where
  "append_nil v = (case v of Some [] \<Rightarrow> None | _ \<Rightarrow> v)"

section \<open>The walk\<close>

record valueWalk =
  active :: "valueVisit list"
  elements :: int
  wbytes :: int
  wreserve :: "(u64 list \<Rightarrow> u64 \<Rightarrow> gerr option) option"
  wreserved :: "u64 list"

type_synonym 'a walk = "(valueWalk, gerr + 'a) state"

definition newValueWalk :: valueWalk where
  "newValueWalk = \<lparr>active = [], elements = 0, wbytes = 0, wreserve = None, wreserved = []\<rparr>"

definition wfail :: "gerr \<Rightarrow> 'a walk" where
  "wfail er = State_Monad.return (Inl er)"

definition wret :: "'a \<Rightarrow> 'a walk" where
  "wret x = State_Monad.return (Inr x)"

text \<open>\<^verbatim>\<open>x, err := m; if err != nil { return nil, err }\<close> followed by the rest.\<close>

definition wbind :: "'a walk \<Rightarrow> ('a \<Rightarrow> 'b walk) \<Rightarrow> 'b walk" where
  "wbind m k = State (\<lambda>w. case run_state m w of
     (Inl er, w') \<Rightarrow> (Inl er, w')
   | (Inr x, w') \<Rightarrow> run_state (k x) w')"

definition walk_add :: "nat \<Rightarrow> unit walk" where
  "walk_add count = State (\<lambda>w. let w' = w\<lparr>elements := elements w + int count\<rparr> in
     if elements w' > maxValueElements then (Inl (ErrValueLimit ''element count exceeds limit''), w') else (Inr (), w'))"

definition walk_addBytes :: "int \<Rightarrow> unit walk" where
  "walk_addBytes count = State (\<lambda>w.
     if count > maxValueBytes - wbytes w then (Inl (ErrValueLimit ''byte count exceeds limit''), w)
     else (Inr (), w\<lparr>wbytes := wbytes w + count\<rparr>))"

definition walk_reserveBytes :: "u64 \<Rightarrow> unit walk" where
  "walk_reserveBytes count = State (\<lambda>w. case wreserve w of
     None \<Rightarrow> (Inr (), w)
   | Some f \<Rightarrow>
       let w' = w\<lparr>wreserved := wreserved w @ [count]\<rparr> in
       (case f (wreserved w) count of None \<Rightarrow> (Inr (), w') | Some er \<Rightarrow> (Inl er, w')))"

text \<open>The error \<^verbatim>\<open>ErrValueCycle\<close>.\<close>

definition ErrValueCycle :: gerr where
  "ErrValueCycle = ErrMsg ''value contains a cycle''"

definition walk_enter :: "valueVisit option \<Rightarrow> nat \<Rightarrow> unit walk" where
  "walk_enter visit count = wbind (walk_add count) (\<lambda>_.
     (case visit of
        None \<Rightarrow> wret ()
      | Some v \<Rightarrow> State (\<lambda>w.
          if v \<in> set (active w) then (Inl ErrValueCycle, w) else (Inr (), w\<lparr>active := v # active w\<rparr>))))"

definition walk_leave :: "valueVisit option \<Rightarrow> valueWalk \<Rightarrow> valueWalk" where
  "walk_leave visit w = (case visit of None \<Rightarrow> w | Some v \<Rightarrow> w\<lparr>active := removeAll v (active w)\<rparr>)"

text \<open>\<^verbatim>\<open>defer walk.leave(v)\<close> around the rest of the function.\<close>

definition deferring_leave :: "valueVisit option \<Rightarrow> 'a walk \<Rightarrow> 'a walk" where
  "deferring_leave visit m = State (\<lambda>w. case run_state m w of (r, w') \<Rightarrow> (r, walk_leave visit w'))"

section \<open>Normalisation\<close>

fun vector_loop :: "nat \<Rightarrow> u32 list \<Rightarrow> unit walk" where
  "vector_loop index [] = wret ()"
| "vector_loop index (x # xs) =
     wbind (if index mod 64 = 0 then walk_reserveBytes 0 else wret ()) (\<lambda>_.
       if \<not> finite32 x then wfail (ErrMsg ''vector contains non-finite value'') else vector_loop (index + 1) xs)"

fun items_loop :: "(gvalue \<Rightarrow> gvalue walk) \<Rightarrow> gvalue list \<Rightarrow> gvalue list walk" where
  "items_loop norm [] = wret []"
| "items_loop norm (x # xs) = wbind (norm x) (\<lambda>y. wbind (items_loop norm xs) (\<lambda>ys. wret (y # ys)))"

definition reserve_key :: "string \<Rightarrow> unit walk" where
  "reserve_key key =
     (if 0 < length key \<and> length key \<le> maxInternedStringBytes
      then walk_reserveBytes (word_of_nat (length key)) else wret ())"

fun map_loop :: "(gvalue \<Rightarrow> gvalue walk) \<Rightarrow> (string \<times> gvalue) list \<Rightarrow> (string \<times> gvalue) list walk" where
  "map_loop norm [] = wret []"
| "map_loop norm ((key, item) # rest) =
     (if \<not> utf8_string key then wfail (ErrMsg ''map key contains invalid UTF-8'')
      else wbind (walk_addBytes (int (length key))) (\<lambda>_.
        wbind (norm item) (\<lambda>y.
          wbind (reserve_key key) (\<lambda>_.
            wbind (map_loop norm rest) (\<lambda>ys. wret ((key, y) # ys))))))"

definition norm_items :: "(gvalue \<Rightarrow> gvalue walk) \<Rightarrow> valueVisit option \<Rightarrow> gvalue list \<Rightarrow> gvalue walk" where
  "norm_items norm visit l =
     wbind (walk_enter visit (length l)) (\<lambda>_. deferring_leave visit
       (wbind (walk_reserveBytes (word_of_nat (length l) * 16)) (\<lambda>_.
         wbind (items_loop norm l) (\<lambda>ys. wret (GList None (Some ys))))))"

definition norm_entries :: "(gvalue \<Rightarrow> gvalue walk) \<Rightarrow> valueVisit option \<Rightarrow> (string \<times> gvalue) list \<Rightarrow> gvalue walk" where
  "norm_entries norm visit l =
     wbind (walk_enter visit (length l)) (\<lambda>_. deferring_leave visit
       (wbind (walk_reserveBytes (word_of_nat (length l) * 32)) (\<lambda>_.
         wbind (map_loop norm l) (\<lambda>ys. wret (GMap None (Some ys))))))"

definition opt_items :: "'a list option \<Rightarrow> 'a list" where
  "opt_items xs = (case xs of None \<Rightarrow> [] | Some l \<Rightarrow> l)"

lemma size_list_member: "y \<in> set l \<Longrightarrow> f y \<le> size_list f l"
  by (rule size_list_estimation' [OF _ order_refl])

lemma opt_items_size [termination_simp]:
  "x \<in> set (opt_items xs) \<Longrightarrow> size x < Suc (size_option (size_list size) xs)"
  "(k, v) \<in> set (opt_items m) \<Longrightarrow> size v < Suc (size_option (size_list (\<lambda>x. Suc (size (snd x)))) m)"
  using size_list_member [of x _ size] size_list_member [of "(k, v)" _ "\<lambda>x. Suc (size (snd x))"]
  by (force simp: opt_items_def less_Suc_eq_le split: option.splits)+

function normalizeValue :: "nat \<Rightarrow> gvalue \<Rightarrow> gvalue walk" where
  "normalizeValue depth v = wbind (walk_reserveBytes 0) (\<lambda>_.
     if depth > maxValueDepth then wfail (ErrValueLimit ''nesting exceeds limit'')
     else case v of
       GNil \<Rightarrow> wret GNil
     | GBool b \<Rightarrow> wret (GBool b)
     | GInt64 i \<Rightarrow> wret (GInt64 i)
     | GSigned i \<Rightarrow> wret (GInt64 i)
     | GUint u \<Rightarrow>
         if u > 0x7FFFFFFFFFFFFFFF then wfail (ErrMsg ''uint value exceeds int64 range'') else wret (GInt64 u)
     | GUint64 u \<Rightarrow>
         if u > 0x7FFFFFFFFFFFFFFF then wfail (ErrMsg ''uint64 value exceeds int64 range'') else wret (GInt64 u)
     | GUnsigned u \<Rightarrow> wret (GInt64 u)
     | GFloat32 f \<Rightarrow>
         if \<not> finite32 f then wfail (ErrMsg ''non-finite float32 value'') else wret (GFloat64 (widen_float f))
     | GFloat64 f \<Rightarrow>
         if \<not> finite64 f then wfail (ErrMsg ''non-finite float64 value'') else wret (GFloat64 f)
     | GString s \<Rightarrow>
         if \<not> utf8_string s then wfail (ErrMsg ''string contains invalid UTF-8'')
         else wbind (walk_addBytes (int (length s))) (\<lambda>_. wbind (reserve_key s) (\<lambda>_. wret (GString s)))
     | GBytes bs \<Rightarrow>
         wbind (walk_addBytes (int (opt_length bs))) (\<lambda>_.
           wbind (walk_reserveBytes (word_of_nat (opt_length bs))) (\<lambda>_. wret (GBytes (append_nil bs))))
     | GVector xs \<Rightarrow>
         if int (opt_length xs) > maxValueBytes div 4 then wfail (ErrValueLimit ''byte count exceeds limit'')
         else wbind (walk_addBytes (int (opt_length xs) * 4)) (\<lambda>_.
           wbind (walk_reserveBytes (word_of_nat (opt_length xs) * 4)) (\<lambda>_.
             wbind (vector_loop 0 (opt_items xs)) (\<lambda>_. wret (GVector (append_nil xs)))))
     | GList visit xs \<Rightarrow> norm_items (\<lambda>item. normalizeValue (depth + 1) item) visit (opt_items xs)
     | GMap visit m \<Rightarrow> norm_entries (\<lambda>item. normalizeValue (depth + 1) item) visit (opt_items m)
     | GSlice visit xs \<Rightarrow> norm_items (\<lambda>item. normalizeValue (depth + 1) item) visit xs
     | GArray xs \<Rightarrow>
         wbind (walk_add (length xs)) (\<lambda>_.
           wbind (walk_reserveBytes (word_of_nat (length xs) * 16)) (\<lambda>_.
             wbind (items_loop (\<lambda>item. normalizeValue (depth + 1) item) xs) (\<lambda>ys. wret (GList None (Some ys)))))
     | GStringMap visit m \<Rightarrow> norm_entries (\<lambda>item. normalizeValue (depth + 1) item) visit m
     | GOtherMap \<Rightarrow> wfail (ErrMsg ''map key type is not supported'')
     | GOther \<Rightarrow> wfail (ErrMsg ''unsupported value type''))"
  by pat_completeness auto
termination
  by (relation "measure (\<lambda>(depth, v). 65 - depth)") (auto simp: maxValueDepth_def)

declare normalizeValue.simps [simp del]

definition NormalizeValue :: "gvalue \<Rightarrow> gerr + gvalue" where
  "NormalizeValue v = fst (run_state (normalizeValue 0 v) newValueWalk)"

definition NormalizeValueWithReserve :: "gvalue \<Rightarrow> (u64 list \<Rightarrow> u64 \<Rightarrow> gerr option) \<Rightarrow> gerr + gvalue" where
  "NormalizeValueWithReserve v f = fst (run_state (normalizeValue 0 v) (newValueWalk\<lparr>wreserve := Some f\<rparr>))"

text \<open>The loop over a property map of \<^verbatim>\<open>NormalizeProperties\<close> and of the property storage functions.\<close>

definition norm_property :: "string \<Rightarrow> gvalue \<Rightarrow> gvalue walk" where
  "norm_property key v =
     (if \<not> utf8_string key then wfail (ErrMsg ''key contains invalid UTF-8'')
      else wbind (walk_addBytes (int (length key))) (\<lambda>_. normalizeValue 0 v))"

fun properties_loop :: "(string \<Rightarrow> 'a \<Rightarrow> 'b walk) \<Rightarrow> (string \<times> 'a) list \<Rightarrow> (string \<times> 'b) list walk" where
  "properties_loop body [] = wret []"
| "properties_loop body ((key, v) # rest) =
     wbind (body key v) (\<lambda>y. wbind (properties_loop body rest) (\<lambda>ys. wret ((key, y) # ys)))"

definition NormalizeProperties :: "(string \<times> gvalue) list \<Rightarrow> gerr + (string \<times> gvalue) list" where
  "NormalizeProperties m =
     (if m = [] then Inr []
      else fst (run_state (wbind (walk_add (length m)) (\<lambda>_. properties_loop norm_property m)) newValueWalk))"

section \<open>Deep copies\<close>

fun CloneValue :: "gvalue \<Rightarrow> gvalue" where
  "CloneValue (GBytes bs) = GBytes (append_nil bs)"
| "CloneValue (GVector xs) = GVector (append_nil xs)"
| "CloneValue (GList visit xs) = GList None (Some (map CloneValue (case xs of None \<Rightarrow> [] | Some l \<Rightarrow> l)))"
| "CloneValue (GMap visit m) = GMap None (Some (map (\<lambda>(k, v). (k, CloneValue v)) (case m of None \<Rightarrow> [] | Some l \<Rightarrow> l)))"
| "CloneValue (GSlice visit l) = GList None (Some (map CloneValue l))"
| "CloneValue (GArray l) = GList None (Some (map CloneValue l))"
| "CloneValue (GStringMap visit l) = GMap None (Some (map (\<lambda>(k, v). (k, CloneValue v)) l))"
| "CloneValue v = v"

definition ClonePropertyMap :: "(string \<times> gvalue) list \<Rightarrow> (string \<times> gvalue) list" where
  "ClonePropertyMap m = (if m = [] then [] else map (\<lambda>(k, v). (k, CloneValue v)) m)"

text \<open>\<^verbatim>\<open>InternString\<close> and \<^verbatim>\<open>InternStrings\<close> return equal strings, sharing the storage of short ones.\<close>

definition InternString :: "string \<Rightarrow> string" where
  "InternString v = v"

definition InternStrings :: "string list option \<Rightarrow> string list option" where
  "InternStrings xs = map_option (map InternString) xs"

section \<open>Persisted form\<close>

fun sum_list_map :: "('a \<Rightarrow> gerr + 'b) \<Rightarrow> 'a list \<Rightarrow> gerr + 'b list" where
  "sum_list_map f [] = Inr []"
| "sum_list_map f (x # xs) =
     (case f x of
        Inl er \<Rightarrow> Inl er
      | Inr y \<Rightarrow> (case sum_list_map f xs of Inl er \<Rightarrow> Inl er | Inr ys \<Rightarrow> Inr (y # ys)))"

lemma sum_list_map_cong [fundef_cong]:
  "xs = ys \<Longrightarrow> (\<And>x. x \<in> set ys \<Longrightarrow> f x = g x) \<Longrightarrow> sum_list_map f xs = sum_list_map g ys"
  by (induction xs arbitrary: ys) (auto split: sum.splits)

text \<open>
  \<^verbatim>\<open>encodeValue\<close>, with what it does on a type outside the normalised ones (its \<^verbatim>\<open>default\<close> branch) as an
  argument: \<open>encodeValue\<close> normalises there and encodes the result, which has only normalised types.
\<close>

fun encode_with :: "(gvalue \<Rightarrow> gerr + persistedValue) \<Rightarrow> gvalue \<Rightarrow> gerr + persistedValue" where
  "encode_with dflt GNil = Inr PNull"
| "encode_with dflt (GBool b) = Inr (PBool b)"
| "encode_with dflt (GInt64 i) = Inr (PInt i)"
| "encode_with dflt (GFloat64 f) = Inr (PFloat f)"
| "encode_with dflt (GString s) = Inr (PString s)"
| "encode_with dflt (GBytes bs) = Inr (PBytes (append_nil bs))"
| "encode_with dflt (GVector xs) = Inr (PVector (append_nil xs))"
| "encode_with dflt (GList visit xs) =
     (case sum_list_map (encode_with dflt) (case xs of None \<Rightarrow> [] | Some l \<Rightarrow> l) of
        Inl er \<Rightarrow> Inl er | Inr ys \<Rightarrow> Inr (PList (Some ys)))"
| "encode_with dflt (GMap visit m) =
     (case sum_list_map (\<lambda>(k, v). case encode_with dflt v of Inl er \<Rightarrow> Inl er | Inr y \<Rightarrow> Inr (k, y))
        (case m of None \<Rightarrow> [] | Some l \<Rightarrow> l) of
        Inl er \<Rightarrow> Inl er | Inr ys \<Rightarrow> Inr (PMap (Some ys)))"
| "encode_with dflt v = dflt v"

definition encodeValue :: "gvalue \<Rightarrow> gerr + persistedValue" where
  "encodeValue = encode_with (\<lambda>v.
     case NormalizeValue v of
       Inl er \<Rightarrow> Inl er
     | Inr n \<Rightarrow> encode_with (\<lambda>_. Inl (ErrMsg ''unsupported normalized value type'')) n)"

fun decodeValue :: "persistedValue \<Rightarrow> gerr + gvalue" where
  "decodeValue PNull = Inr GNil"
| "decodeValue (PBool b) = Inr (GBool b)"
| "decodeValue (PInt i) = Inr (GInt64 i)"
| "decodeValue (PFloat f) = Inr (GFloat64 f)"
| "decodeValue (PString s) = Inr (GString s)"
| "decodeValue (PBytes bs) = Inr (GBytes (append_nil bs))"
| "decodeValue (PVector xs) = Inr (GVector (append_nil xs))"
| "decodeValue (PList xs) =
     (case sum_list_map decodeValue (case xs of None \<Rightarrow> [] | Some l \<Rightarrow> l) of
        Inl er \<Rightarrow> Inl er | Inr ys \<Rightarrow> Inr (GList None (Some ys)))"
| "decodeValue (PMap m) =
     (case sum_list_map (\<lambda>(k, v). case decodeValue v of Inl er \<Rightarrow> Inl er | Inr y \<Rightarrow> Inr (k, y))
        (case m of None \<Rightarrow> [] | Some l \<Rightarrow> l) of
        Inl er \<Rightarrow> Inl er | Inr ys \<Rightarrow> Inr (GMap None (Some ys)))"
| "decodeValue v = Inl (ErrMsg ''unknown stored value kind'')"

definition entry_map :: "('a \<Rightarrow> gerr + 'b) \<Rightarrow> (string \<times> 'a) list \<Rightarrow> gerr + (string \<times> 'b) list" where
  "entry_map f = sum_list_map (\<lambda>(k, v). case f v of Inl er \<Rightarrow> Inl er | Inr y \<Rightarrow> Inr (k, y))"

definition encodeNormalizedPropertyMap :: "(string \<times> gvalue) list \<Rightarrow> gerr + (string \<times> persistedValue) list" where
  "encodeNormalizedPropertyMap m = entry_map encodeValue m"

definition encodePropertyMap :: "(string \<times> gvalue) list \<Rightarrow> gerr + (string \<times> persistedValue) list" where
  "encodePropertyMap m =
     (if m = [] then Inr []
      else case NormalizeProperties m of Inl er \<Rightarrow> Inl er | Inr n \<Rightarrow> encodeNormalizedPropertyMap n)"

definition decodePropertyMapRaw :: "(string \<times> persistedValue) list \<Rightarrow> gerr + (string \<times> gvalue) list" where
  "decodePropertyMapRaw m = entry_map decodeValue m"

definition decodePropertyMap :: "(string \<times> persistedValue) list \<Rightarrow> gerr + (string \<times> gvalue) list" where
  "decodePropertyMap m =
     (if m = [] then Inr []
      else case decodePropertyMapRaw m of Inl er \<Rightarrow> Inl er | Inr n \<Rightarrow> NormalizeProperties n)"

section \<open>Validators\<close>

definition MaxEntityID :: u64 where
  "MaxEntityID = 0x7FFFFFFFFFFFFFFF"

definition EntityIDExhausted :: u64 where
  "EntityIDExhausted = MaxEntityID + 1"

definition ValidateEntityID :: "u64 \<Rightarrow> gerr option" where
  "ValidateEntityID ident =
     (if ident = 0 \<or> ident > MaxEntityID then Some (ErrMsg ''entity ID must be in range'') else None)"

definition ValidateIDHighWater :: "u64 \<Rightarrow> gerr option" where
  "ValidateIDHighWater nxt =
     (if nxt = 0 \<or> nxt > EntityIDExhausted then Some (ErrMsg ''entity ID high-water mark must be in range'') else None)"

fun labels_loop :: "string list \<Rightarrow> string list \<Rightarrow> gerr option" where
  "labels_loop seen [] = None"
| "labels_loop seen (label # labels) =
     (if label = [] then Some (ErrMsg ''labels must be non-empty'')
      else if \<not> utf8_string label then Some (ErrMsg ''labels must contain valid UTF-8'')
      else if label \<in> set seen then Some (ErrMsg ''duplicate label'')
      else labels_loop (label # seen) labels)"

definition ValidateCreateLabels :: "string list option \<Rightarrow> gerr option" where
  "ValidateCreateLabels labels = labels_loop [] (case labels of None \<Rightarrow> [] | Some l \<Rightarrow> l)"

definition ValidateEdgeType :: "string \<Rightarrow> gerr option" where
  "ValidateEdgeType ty =
     (if ty = [] then Some (ErrMsg ''edge type must be non-empty'')
      else if \<not> utf8_string ty then Some (ErrMsg ''edge type must contain valid UTF-8'') else None)"

definition ValidatePropertyKey :: "string \<Rightarrow> gerr option" where
  "ValidatePropertyKey key = (if \<not> utf8_string key then Some (ErrMsg ''property key must contain valid UTF-8'') else None)"

definition ValidateFTSText :: "string \<Rightarrow> gerr option" where
  "ValidateFTSText txt = (if \<not> utf8_string txt then Some (ErrMsg ''FTS text must contain valid UTF-8'') else None)"

definition LabelsMatch :: "string list \<Rightarrow> string list \<Rightarrow> bool" where
  "LabelsMatch labels required = list_all (\<lambda>label. label \<in> set labels) required"

end
