(* ===== verification/ValueLaws.thy ===== *)
theory ValueLaws
  imports Values CodecLaws
begin

unbundle bit_operations_syntax

text \<open>
  What normalisation guarantees: which values come out (\<open>is_norm\<close>), that they fit the limits, that no
  container on the way contained itself, that normalising again changes nothing, and that a normalised
  value can be persisted and read back.
\<close>

section \<open>Normalised values\<close>

definition all_entries :: "('k \<Rightarrow> bool) \<Rightarrow> ('v \<Rightarrow> bool) \<Rightarrow> ('k \<times> 'v) list \<Rightarrow> bool" where
  "all_entries p q l = list_all (\<lambda>(k, v). p k \<and> q v) l"

lemma all_entries_cong [fundef_cong]:
  "l = l' \<Longrightarrow> p = p' \<Longrightarrow> (\<And>k v. (k, v) \<in> set l' \<Longrightarrow> q v = q' v) \<Longrightarrow> all_entries p q l = all_entries p' q' l'"
  by (auto simp: all_entries_def list_all_iff)

fun is_norm :: "nat \<Rightarrow> gvalue \<Rightarrow> bool" where
  "is_norm depth GNil \<longleftrightarrow> depth \<le> maxValueDepth"
| "is_norm depth (GBool b) \<longleftrightarrow> depth \<le> maxValueDepth"
| "is_norm depth (GInt64 i) \<longleftrightarrow> depth \<le> maxValueDepth"
| "is_norm depth (GFloat64 f) \<longleftrightarrow> depth \<le> maxValueDepth \<and> finite64 f"
| "is_norm depth (GString s) \<longleftrightarrow> depth \<le> maxValueDepth \<and> utf8_string s"
| "is_norm depth (GBytes bs) \<longleftrightarrow> depth \<le> maxValueDepth \<and> bs \<noteq> Some []"
| "is_norm depth (GVector xs) \<longleftrightarrow> depth \<le> maxValueDepth \<and> xs \<noteq> Some [] \<and> (case xs of None \<Rightarrow> True | Some l \<Rightarrow> list_all finite32 l)"
| "is_norm depth (GList visit xs) \<longleftrightarrow> depth \<le> maxValueDepth \<and> visit = None \<and>
     (case xs of None \<Rightarrow> False | Some l \<Rightarrow> list_all (is_norm (depth + 1)) l)"
| "is_norm depth (GMap visit m) \<longleftrightarrow> depth \<le> maxValueDepth \<and> visit = None \<and>
     (case m of None \<Rightarrow> False | Some l \<Rightarrow> distinct (map fst l) \<and> all_entries utf8_string (is_norm (depth + 1)) l)"
| "is_norm depth v \<longleftrightarrow> False"

fun velems :: "gvalue \<Rightarrow> int" where
  "velems (GList visit (Some l)) = int (length l) + sum_list (map velems l)"
| "velems (GMap visit (Some l)) = int (length l) + sum_list (map (\<lambda>(k, v). velems v) l)"
| "velems v = 0"

fun vbytes :: "gvalue \<Rightarrow> int" where
  "vbytes (GString s) = int (length s)"
| "vbytes (GBytes bs) = int (opt_length bs)"
| "vbytes (GVector xs) = int (opt_length xs) * 4"
| "vbytes (GList visit (Some l)) = sum_list (map vbytes l)"
| "vbytes (GMap visit (Some l)) = sum_list (map (\<lambda>(k, v). int (length k) + vbytes v) l)"
| "vbytes v = 0"

text \<open>Go maps have distinct keys, at every level.\<close>

fun go_ok :: "gvalue \<Rightarrow> bool" where
  "go_ok (GList visit (Some l)) \<longleftrightarrow> list_all go_ok l"
| "go_ok (GMap visit (Some l)) \<longleftrightarrow> distinct (map fst l) \<and> all_entries (\<lambda>_. True) go_ok l"
| "go_ok (GSlice visit l) \<longleftrightarrow> list_all go_ok l"
| "go_ok (GArray l) \<longleftrightarrow> list_all go_ok l"
| "go_ok (GStringMap visit l) \<longleftrightarrow> distinct (map fst l) \<and> all_entries (\<lambda>_. True) go_ok l"
| "go_ok v \<longleftrightarrow> True"

text \<open>No container occurs inside itself, nor inside one of the containers in \<open>A\<close>.\<close>

definition visit_in :: "valueVisit option \<Rightarrow> valueVisit set \<Rightarrow> bool" where
  "visit_in visit A = (case visit of None \<Rightarrow> False | Some v \<Rightarrow> v \<in> A)"

definition visit_add :: "valueVisit option \<Rightarrow> valueVisit set \<Rightarrow> valueVisit set" where
  "visit_add visit A = (case visit of None \<Rightarrow> A | Some v \<Rightarrow> insert v A)"

fun acyclic_from :: "valueVisit set \<Rightarrow> gvalue \<Rightarrow> bool" where
  "acyclic_from A (GList visit (Some l)) \<longleftrightarrow> \<not> visit_in visit A \<and> list_all (acyclic_from (visit_add visit A)) l"
| "acyclic_from A (GMap visit (Some l)) \<longleftrightarrow> \<not> visit_in visit A \<and> all_entries (\<lambda>_. True) (acyclic_from (visit_add visit A)) l"
| "acyclic_from A (GSlice visit l) \<longleftrightarrow> \<not> visit_in visit A \<and> list_all (acyclic_from (visit_add visit A)) l"
| "acyclic_from A (GArray l) \<longleftrightarrow> list_all (acyclic_from A) l"
| "acyclic_from A (GStringMap visit l) \<longleftrightarrow> \<not> visit_in visit A \<and> all_entries (\<lambda>_. True) (acyclic_from (visit_add visit A)) l"
| "acyclic_from A v \<longleftrightarrow> True"

lemma velems_nonneg: "velems v \<ge> 0"
  by (induction v rule: velems.induct) (auto intro!: sum_list_nonneg add_nonneg_nonneg)

lemma vbytes_nonneg: "vbytes v \<ge> 0"
  by (induction v rule: vbytes.induct) (auto intro!: sum_list_nonneg add_nonneg_nonneg)

section \<open>Floats\<close>

lemma exponent_field:
  fixes E :: u64
  assumes "unat E < 2047" "\<And>i. 52 \<le> i \<Longrightarrow> \<not> bit F i"
  shows "finite64 (push_bit 63 S OR push_bit 52 E OR F)"
proof -
  have m: "(0x7FF :: u64) = mask 11" by (simp add: mask_eq_exp_minus_1)
  have "drop_bit 52 (push_bit 63 S OR push_bit 52 E OR F) AND 0x7FF = E"
  proof (rule bit_word_eqI)
    fix n assume n: "n < LENGTH(64)"
    have "bit E n \<Longrightarrow> n < 11" using bit_less_exp [of E 11 n] assms(1) by simp
    then show "bit (drop_bit 52 (push_bit 63 S OR push_bit 52 E OR F) AND 0x7FF) n \<longleftrightarrow> bit E n"
      unfolding m using assms(2) [of "52 + n"]
      by (auto simp: bit_and_iff bit_mask_iff bit_drop_bit_eq bit_or_iff bit_push_bit_iff)
  qed
  moreover have "E \<noteq> 0x7FF" using assms(1) by (auto simp: word_unat_eq_iff)
  ultimately show ?thesis by (simp add: finite64_def)
qed

lemma highest_bit_le: "highest_bit m \<le> 31"
proof -
  have "length (dropWhile (\<lambda>i. \<not> bit m i) (rev [0..<32])) \<le> length (rev [0..<32::nat])" by (rule length_dropWhile_le)
  then show ?thesis by (simp add: highest_bit_def)
qed

lemma widen_finite:
  assumes "finite32 f"
  shows "finite64 (widen_float f)"
proof -
  define m where "m = f AND 0x7FFFFF"
  define ex where "ex = (ucast (drop_bit 23 f AND 0xFF) :: u64)"
  have b: "unat (drop_bit 23 f AND 0xFF) < 256"
    using word_and_le1 [of "drop_bit 23 f" "0xFF"] by (simp add: word_le_nat_alt)
  have ex: "unat ex < 255"
  proof -
    have "unat ex = unat (drop_bit 23 f AND 0xFF)" using b by (simp add: ex_def unat_ucast_mod)
    moreover have "unat (drop_bit 23 f AND 0xFF) \<noteq> 255" using assms by (auto simp: finite32_def word_unat_eq_iff)
    ultimately show ?thesis using b by simp
  qed
  have mb: "\<not> bit (ucast m :: u64) i" if "23 \<le> i" for i
  proof -
    have m': "m = f AND mask 23" by (simp add: m_def mask_eq_exp_minus_1)
    with that show ?thesis unfolding m' by (auto simp: bit_simps)
  qed
  show ?thesis
  proof (cases "ex = 0")
    case True
    show ?thesis
    proof (cases "m = 0")
      case zero: True
      with True exponent_field [of 0 0 "ucast (drop_bit 31 f)"] show ?thesis
        by (simp add: widen_float_def Let_def m_def ex_def)
    next
      case False
      have "unat (word_of_nat (highest_bit m + 874) :: u64) = highest_bit m + 874"
        using highest_bit_le [of m] by (intro unat_word_of_nat_less) simp
      then have "unat (word_of_nat (highest_bit m + 874) :: u64) < 2047" using highest_bit_le [of m] by linarith
      with exponent_field [of "word_of_nat (highest_bit m + 874)" "push_bit (52 - highest_bit m) (ucast m) AND mask 52" "ucast (drop_bit 31 f)"]
      show ?thesis using True False
        by (simp add: widen_float_def Let_def m_def [symmetric] ex_def [symmetric] bit_and_iff bit_mask_iff)
    qed
  next
    case False
    have "unat (ex + 896) < 2047" using ex by (simp add: unat_word_ariths)
    moreover have "\<not> bit (push_bit 29 (ucast m :: u64)) i" if "52 \<le> i" for i
      using that mb [of "i - 29"] by (simp add: bit_push_bit_iff)
    ultimately show ?thesis using exponent_field [of "ex + 896" "push_bit 29 (ucast m)" "ucast (drop_bit 31 f)"] False
      by (simp add: widen_float_def Let_def m_def [symmetric] ex_def [symmetric])
  qed
qed

section \<open>What a successful walk has charged\<close>

definition charges :: "'a walk \<Rightarrow> (valueVisit set \<Rightarrow> 'a \<Rightarrow> int \<Rightarrow> int \<Rightarrow> bool) \<Rightarrow> bool" where
  "charges m R \<longleftrightarrow> (\<forall>w x w'. run_state m w = (Inr x, w') \<longrightarrow>
     set (active w') = set (active w) \<and>
     R (set (active w)) x (elements w' - elements w) (wbytes w' - wbytes w) \<and>
     (elements w \<le> maxValueElements \<longrightarrow> elements w' \<le> maxValueElements) \<and>
     (wbytes w \<le> maxValueBytes \<longrightarrow> wbytes w' \<le> maxValueBytes))"

lemma run_wbind: "run_state (wbind m k) w =
    (case run_state m w of (Inl er, w') \<Rightarrow> (Inl er, w') | (Inr x, w') \<Rightarrow> run_state (k x) w')"
  by (simp add: wbind_def)

lemma charges_mono: "charges m R \<Longrightarrow> (\<And>A x e b. R A x e b \<Longrightarrow> R' A x e b) \<Longrightarrow> charges m R'"
  unfolding charges_def by blast

lemma charges_bind:
  assumes "charges m R" "\<And>x. charges (k x) (S x)"
    and "\<And>A x y e1 b1 e2 b2. R A x e1 b1 \<Longrightarrow> S x A y e2 b2 \<Longrightarrow> T A y (e1 + e2) (b1 + b2)"
  shows "charges (wbind m k) T"
  unfolding charges_def
proof (intro allI impI)
  fix w y w'
  assume "run_state (wbind m k) w = (Inr y, w')"
  then obtain x w1 where r: "run_state m w = (Inr x, w1)" "run_state (k x) w1 = (Inr y, w')"
    by (auto simp: run_wbind split: prod.splits sum.splits)
  from assms(1) r(1) have 1: "set (active w1) = set (active w)"
    "R (set (active w)) x (elements w1 - elements w) (wbytes w1 - wbytes w)"
    "elements w \<le> maxValueElements \<longrightarrow> elements w1 \<le> maxValueElements" "wbytes w \<le> maxValueBytes \<longrightarrow> wbytes w1 \<le> maxValueBytes"
    unfolding charges_def by blast+
  from assms(2) r(2) have 2: "set (active w') = set (active w1)"
    "S x (set (active w1)) y (elements w' - elements w1) (wbytes w' - wbytes w1)"
    "elements w1 \<le> maxValueElements \<longrightarrow> elements w' \<le> maxValueElements" "wbytes w1 \<le> maxValueBytes \<longrightarrow> wbytes w' \<le> maxValueBytes"
    unfolding charges_def by blast+
  have "T (set (active w)) y ((elements w1 - elements w) + (elements w' - elements w1)) ((wbytes w1 - wbytes w) + (wbytes w' - wbytes w1))"
    using assms(3) [OF 1(2) 2(2) [unfolded 1(1)]] .
  with 1 2 show "set (active w') = set (active w) \<and> T (set (active w)) y (elements w' - elements w) (wbytes w' - wbytes w) \<and>
      (elements w \<le> maxValueElements \<longrightarrow> elements w' \<le> maxValueElements) \<and> (wbytes w \<le> maxValueBytes \<longrightarrow> wbytes w' \<le> maxValueBytes)"
    by simp
qed

lemma charges_wret: "(\<And>A. R A x 0 0) \<Longrightarrow> charges (wret x) R"
  by (simp add: charges_def wret_def)

lemma charges_wfail: "charges (wfail er) R"
  by (simp add: charges_def wfail_def)

lemma charges_add: "charges (walk_add n) (\<lambda>A x e b. e = int n \<and> b = 0)"
  by (auto simp: charges_def walk_add_def Let_def split: if_splits)

lemma charges_addBytes: "charges (walk_addBytes n) (\<lambda>A x e b. e = 0 \<and> b = n)"
  by (auto simp: charges_def walk_addBytes_def split: if_splits)

lemma charges_reserve: "charges (walk_reserveBytes n) (\<lambda>A x e b. e = 0 \<and> b = 0)"
  by (auto simp: charges_def walk_reserveBytes_def Let_def split: option.splits)

lemma charges_reserve_key: "charges (reserve_key k) (\<lambda>A x e b. e = 0 \<and> b = 0)"
  unfolding reserve_key_def by (simp add: charges_reserve charges_wret)

lemma charges_if: "(c \<Longrightarrow> charges m R) \<Longrightarrow> (\<not> c \<Longrightarrow> charges n R) \<Longrightarrow> charges (if c then m else n) R"
  by simp

lemma charges_map:
  assumes "charges m R" "\<And>A x e b. R A x e b \<Longrightarrow> T A (f x) e b"
  shows "charges (wbind m (\<lambda>x. wret (f x))) T"
  by (rule charges_bind [OF assms(1) charges_wret [where R = "\<lambda>A y e b. y = f x \<and> e = 0 \<and> b = 0" for x]])
    (auto intro: assms(2))

lemma charges_vector: "charges (vector_loop i xs) (\<lambda>A x e b. e = 0 \<and> b = 0 \<and> list_all finite32 xs)"
proof (induction xs arbitrary: i)
  case (Cons x xs)
  have r: "charges (if i mod 64 = 0 then walk_reserveBytes 0 else wret ()) (\<lambda>A x e b. e = 0 \<and> b = 0)"
    by (simp add: charges_reserve charges_wret)
  have "charges (if \<not> finite32 x then wfail er else vector_loop (i + 1) xs)
      (\<lambda>A _ e b. e = 0 \<and> b = 0 \<and> finite32 x \<and> list_all finite32 xs)" for er
    using Cons.IH [of "i + 1"] by (simp add: charges_wfail)
  from charges_bind [OF r this] show ?case unfolding vector_loop.simps by simp
qed (simp add: charges_wret)

lemma charges_items:
  assumes "\<And>x. x \<in> set l \<Longrightarrow> charges (norm x) (\<lambda>A y e b. P y \<and> Q A x \<and> e = velems y \<and> b = vbytes y)"
  shows "charges (items_loop norm l) (\<lambda>A ys e b. length ys = length l \<and> list_all P ys \<and> list_all (Q A) l \<and>
    e = sum_list (map velems ys) \<and> b = sum_list (map vbytes ys))"
  using assms
proof (induction l)
  case (Cons x l)
  have "charges (wbind (items_loop norm l) (\<lambda>ys. wret (y # ys))) (\<lambda>A zs e b. \<exists>ys. zs = y # ys \<and> length ys = length l \<and>
      list_all P ys \<and> list_all (Q A) l \<and> e = sum_list (map velems ys) \<and> b = sum_list (map vbytes ys))" for y
    using Cons.IH [OF Cons.prems] by (rule charges_map) auto
  then show ?case unfolding items_loop.simps
    by (rule charges_bind [OF Cons.prems [OF list.set_intros(1)]]) auto
qed (simp add: charges_wret)

lemma charges_entries:
  assumes "\<And>k x. (k, x) \<in> set l \<Longrightarrow> charges (norm x) (\<lambda>A y e b. P y \<and> Q A x \<and> e = velems y \<and> b = vbytes y)"
  shows "charges (map_loop norm l) (\<lambda>A ys e b. map fst ys = map fst l \<and> all_entries utf8_string P ys \<and> all_entries (\<lambda>_. True) (Q A) l \<and>
    e = sum_list (map (\<lambda>(k, v). velems v) ys) \<and> b = sum_list (map (\<lambda>(k, v). int (length k) + vbytes v) ys))"
  using assms
proof (induction l)
  case (Cons kx l)
  obtain k x where kx: "kx = (k, x)" by (metis prod.exhaust)
  let ?R = "\<lambda>A ys e b. map fst ys = map fst l \<and> all_entries utf8_string P ys \<and> all_entries (\<lambda>_. True) (Q A) l \<and>
    e = sum_list (map (\<lambda>(k, v). velems v) ys) \<and> b = sum_list (map (\<lambda>(k, v). int (length k) + vbytes v) ys)"
  have "charges (map_loop norm l) ?R" using Cons.prems by (intro Cons.IH) auto
  then have 1: "charges (wbind (map_loop norm l) (\<lambda>ys. wret ((k, y) # ys))) (\<lambda>A zs e b. \<exists>ys. zs = (k, y) # ys \<and> ?R A ys e b)" for y
    by (rule charges_map) auto
  have 2: "charges (wbind (reserve_key k) (\<lambda>_. wbind (map_loop norm l) (\<lambda>ys. wret ((k, y) # ys))))
      (\<lambda>A zs e b. \<exists>ys. zs = (k, y) # ys \<and> ?R A ys e b)" for y
    by (rule charges_bind [OF charges_reserve_key 1]) auto
  have 3: "charges (norm x) (\<lambda>A y e b. P y \<and> Q A x \<and> e = velems y \<and> b = vbytes y)" using Cons.prems [of k x] by (simp add: kx)
  let ?S = "\<lambda>A zs e b. \<exists>y ys. zs = (k, y) # ys \<and> P y \<and> Q A x \<and> ?R A ys (e - velems y) (b - vbytes y)"
  have 4: "charges (wbind (norm x) (\<lambda>y. wbind (reserve_key k) (\<lambda>_. wbind (map_loop norm l) (\<lambda>ys. wret ((k, y) # ys))))) ?S"
    by (rule charges_bind [OF 3 2]) auto
  have "charges (wbind (walk_addBytes (int (length k))) (\<lambda>_. wbind (norm x) (\<lambda>y. wbind (reserve_key k) (\<lambda>_. wbind (map_loop norm l) (\<lambda>ys. wret ((k, y) # ys))))))
      (\<lambda>A zs e b. ?S A zs e (b - int (length k)))"
    by (rule charges_bind [OF charges_addBytes 4]) auto
  then have "charges (if \<not> utf8_string k then wfail (ErrMsg ''map key contains invalid UTF-8'')
      else wbind (walk_addBytes (int (length k))) (\<lambda>_. wbind (norm x) (\<lambda>y. wbind (reserve_key k) (\<lambda>_. wbind (map_loop norm l) (\<lambda>ys. wret ((k, y) # ys))))))
      (\<lambda>A zs e b. utf8_string k \<and> ?S A zs e (b - int (length k)))"
    by (simp add: charges_wfail)
  then show ?case
    unfolding kx map_loop.simps by (rule charges_mono) (auto simp: all_entries_def)
qed (simp add: charges_wret all_entries_def)

lemma charges_enter_leave:
  assumes "charges m (\<lambda>A x e b. R A x e b)"
  shows "charges (wbind (walk_enter visit n) (\<lambda>_. deferring_leave visit m))
    (\<lambda>A x e b. \<not> visit_in visit A \<and> R (visit_add visit A) x (e - int n) b)"
  unfolding charges_def
proof (intro allI impI)
  fix w x w'
  assume r: "run_state (wbind (walk_enter visit n) (\<lambda>_. deferring_leave visit m)) w = (Inr x, w')"
  define w1 where "w1 = w\<lparr>elements := elements w + int n, active := (case visit of None \<Rightarrow> active w | Some v \<Rightarrow> v # active w)\<rparr>"
  from r obtain w2 where 1: "\<not> visit_in visit (set (active w))" "elements w1 \<le> maxValueElements"
    "run_state m w1 = (Inr x, w2)" "w' = walk_leave visit w2"
    by (auto simp: run_wbind walk_enter_def walk_add_def deferring_leave_def Let_def wret_def w1_def visit_in_def
      split: if_splits option.splits prod.splits sum.splits)
  from assms 1(3) have 2: "set (active w2) = set (active w1)"
    "R (set (active w1)) x (elements w2 - elements w1) (wbytes w2 - wbytes w1)"
    "elements w2 \<le> maxValueElements" "wbytes w1 \<le> maxValueBytes \<longrightarrow> wbytes w2 \<le> maxValueBytes"
    unfolding charges_def using 1(2) by blast+
  have "set (active w1) = visit_add visit (set (active w))" by (simp add: w1_def visit_add_def split: option.splits)
  with 1 2 show "set (active w') = set (active w) \<and>
      (\<not> visit_in visit (set (active w)) \<and> R (visit_add visit (set (active w))) x (elements w' - elements w - int n) (wbytes w' - wbytes w)) \<and>
      (elements w \<le> maxValueElements \<longrightarrow> elements w' \<le> maxValueElements) \<and> (wbytes w \<le> maxValueBytes \<longrightarrow> wbytes w' \<le> maxValueBytes)"
    by (cases visit) (simp_all add: walk_leave_def visit_in_def visit_add_def w1_def algebra_simps)
qed

abbreviation normalizes :: "nat \<Rightarrow> gvalue \<Rightarrow> valueVisit set \<Rightarrow> gvalue \<Rightarrow> int \<Rightarrow> int \<Rightarrow> bool" where
  "normalizes depth v A n e b \<equiv> is_norm depth n \<and> acyclic_from A v \<and> e = velems n \<and> b = vbytes n"

lemma charges_norm_items:
  assumes "depth \<le> maxValueDepth"
    and "\<And>x. x \<in> set l \<Longrightarrow> charges (norm x) (normalizes (depth + 1) x)"
  shows "charges (norm_items norm visit l) (\<lambda>A n e b. is_norm depth n \<and> \<not> visit_in visit A \<and>
    list_all (acyclic_from (visit_add visit A)) l \<and> e = velems n \<and> b = vbytes n)"
proof -
  let ?T = "\<lambda>A n e b. \<exists>ys. n = GList None (Some ys) \<and> length ys = length l \<and> list_all (is_norm (depth + 1)) ys \<and>
    list_all (acyclic_from A) l \<and> e = sum_list (map velems ys) \<and> b = sum_list (map vbytes ys)"
  have "charges (wbind (items_loop norm l) (\<lambda>ys. wret (GList None (Some ys)))) ?T"
    by (rule charges_map [OF charges_items [OF assms(2), of _ "\<lambda>x. x"]]) auto
  then have "charges (wbind (walk_reserveBytes (word_of_nat (length l) * 16)) (\<lambda>_. wbind (items_loop norm l) (\<lambda>ys. wret (GList None (Some ys))))) ?T"
    by (intro charges_bind [OF charges_reserve]) auto
  from charges_enter_leave [OF this, of visit "length l"]
  show ?thesis unfolding norm_items_def by (rule charges_mono) (use assms(1) in auto)
qed

lemma charges_norm_entries:
  assumes "depth \<le> maxValueDepth" "distinct (map fst l)"
    and "\<And>k x. (k, x) \<in> set l \<Longrightarrow> charges (norm x) (normalizes (depth + 1) x)"
  shows "charges (norm_entries norm visit l) (\<lambda>A n e b. is_norm depth n \<and> \<not> visit_in visit A \<and>
    all_entries (\<lambda>_. True) (acyclic_from (visit_add visit A)) l \<and> e = velems n \<and> b = vbytes n)"
proof -
  let ?T = "\<lambda>A n e b. \<exists>ys. n = GMap None (Some ys) \<and> map fst ys = map fst l \<and> all_entries utf8_string (is_norm (depth + 1)) ys \<and>
    all_entries (\<lambda>_. True) (acyclic_from A) l \<and> e = sum_list (map (\<lambda>(k, v). velems v) ys) \<and>
    b = sum_list (map (\<lambda>(k, v). int (length k) + vbytes v) ys)"
  have "charges (wbind (map_loop norm l) (\<lambda>ys. wret (GMap None (Some ys)))) ?T"
    by (rule charges_map [OF charges_entries [OF assms(3)]]) auto
  then have "charges (wbind (walk_reserveBytes (word_of_nat (length l) * 32)) (\<lambda>_. wbind (map_loop norm l) (\<lambda>ys. wret (GMap None (Some ys))))) ?T"
    by (intro charges_bind [OF charges_reserve]) auto
  from charges_enter_leave [OF this, of visit "length l"]
  show ?thesis unfolding norm_entries_def
  proof (rule charges_mono)
    fix A x e b
    assume "\<not> visit_in visit A \<and> ?T (visit_add visit A) x (e - int (length l)) b"
    then obtain ys where "x = GMap None (Some ys)" "map fst ys = map fst l" "\<not> visit_in visit A"
      "all_entries utf8_string (is_norm (depth + 1)) ys" "all_entries (\<lambda>_. True) (acyclic_from (visit_add visit A)) l"
      "e - int (length l) = sum_list (map (\<lambda>(k, v). velems v) ys)" "b = sum_list (map (\<lambda>(k, v). int (length k) + vbytes v) ys)"
      by blast
    moreover have "length ys = length l" using calculation(2) by (metis length_map)
    ultimately show "is_norm depth x \<and> \<not> visit_in visit A \<and>
      all_entries (\<lambda>_. True) (acyclic_from (visit_add visit A)) l \<and> e = velems x \<and> b = vbytes x"
      using assms(1,2) by simp
  qed
qed

lemma append_nil_props: "opt_length (append_nil xs) = opt_length xs" "append_nil xs \<noteq> Some []"
  "(case append_nil xs of None \<Rightarrow> True | Some l \<Rightarrow> list_all p l) \<longleftrightarrow> list_all p (opt_items xs)"
  by (auto simp: append_nil_def opt_length_def opt_items_def split: option.splits list.splits)

lemma charges_pre: "charges m R \<Longrightarrow> charges (wbind (walk_reserveBytes 0) (\<lambda>_. m)) R"
  by (rule charges_bind [OF charges_reserve]) auto

lemma normalize_charges: "go_ok v \<Longrightarrow> charges (normalizeValue depth v) (normalizes depth v)"
proof (induction "65 - depth" arbitrary: depth v)
  case 0
  then have "depth > maxValueDepth" by (simp add: maxValueDepth_def)
  then show ?case
    unfolding normalizeValue.simps [of depth] by (intro charges_bind [OF charges_reserve]) (auto simp: charges_wfail)
next
  case (Suc n)
  then have d: "\<not> depth > maxValueDepth" "depth \<le> maxValueDepth" by (simp_all add: maxValueDepth_def)
  have IH: "go_ok x \<Longrightarrow> charges (normalizeValue (depth + 1) x) (normalizes (depth + 1) x)" for x
    using Suc.hyps(1) [of "depth + 1" x] Suc.hyps(2) by simp
  have wrap: "charges (normalizeValue depth v) R"
    if "charges m R" "normalizeValue depth v = wbind (walk_reserveBytes 0) (\<lambda>_. m)" for m R
    unfolding that(2) using that(1) by (rule charges_pre)
  note unf = normalizeValue.simps [of depth] if_not_P [OF d(1)]
  show ?case
  proof (cases v)
    case (GString s)
    have "charges (wbind (walk_addBytes (int (length s))) (\<lambda>_. wbind (reserve_key s) (\<lambda>_. wret (GString s))))
        (\<lambda>A n e b. n = GString s \<and> e = 0 \<and> b = int (length s))"
      by (rule charges_bind [OF charges_addBytes charges_map [OF charges_reserve_key]]) auto
    then have "charges (if \<not> utf8_string s then wfail (ErrMsg ''string contains invalid UTF-8'')
        else wbind (walk_addBytes (int (length s))) (\<lambda>_. wbind (reserve_key s) (\<lambda>_. wret (GString s)))) (normalizes depth v)"
      by (intro charges_if charges_wfail) (auto simp: GString d(2) elim!: charges_mono)
    then show ?thesis by (rule wrap) (simp only: unf GString gvalue.case)
  next
    case (GBytes bs)
    have "charges (wbind (walk_addBytes (int (opt_length bs))) (\<lambda>_.
           wbind (walk_reserveBytes (word_of_nat (opt_length bs))) (\<lambda>_. wret (GBytes (append_nil bs))))) (normalizes depth v)"
      by (rule charges_bind [OF charges_addBytes charges_map [OF charges_reserve]])
        (auto simp: GBytes d(2) append_nil_props)
    then show ?thesis by (rule wrap) (simp only: unf GBytes gvalue.case)
  next
    case (GVector xs)
    have 1: "charges (wbind (vector_loop 0 (opt_items xs)) (\<lambda>_. wret (GVector (append_nil xs))))
        (\<lambda>A n e b. n = GVector (append_nil xs) \<and> e = 0 \<and> b = 0 \<and> list_all finite32 (opt_items xs))"
      by (rule charges_map [OF charges_vector]) auto
    have 2: "charges (wbind (walk_reserveBytes (word_of_nat (opt_length xs) * 4)) (\<lambda>_. wbind (vector_loop 0 (opt_items xs)) (\<lambda>_. wret (GVector (append_nil xs)))))
        (\<lambda>A n e b. n = GVector (append_nil xs) \<and> e = 0 \<and> b = 0 \<and> list_all finite32 (opt_items xs))"
      by (rule charges_bind [OF charges_reserve 1]) auto
    have 3: "charges (wbind (walk_addBytes (int (opt_length xs) * 4)) (\<lambda>_. wbind (walk_reserveBytes (word_of_nat (opt_length xs) * 4)) (\<lambda>_. wbind (vector_loop 0 (opt_items xs)) (\<lambda>_. wret (GVector (append_nil xs))))))
        (normalizes depth v)"
      by (rule charges_bind [OF charges_addBytes 2]) (auto simp: GVector d(2) append_nil_props)
    show ?thesis
      by (rule wrap [OF charges_if [OF charges_wfail 3]]) (simp only: unf GVector gvalue.case)
  next
    case (GList visit xs)
    have go: "go_ok x" if "x \<in> set (opt_items xs)" for x
      using Suc.prems that by (cases xs) (auto simp: GList opt_items_def list_all_iff)
    have "charges (norm_items (\<lambda>item. normalizeValue (depth + 1) item) visit (opt_items xs)) (normalizes depth v)"
      by (rule charges_mono [OF charges_norm_items [OF d(2) IH [OF go]]]) (auto simp: GList opt_items_def split: option.splits)
    then show ?thesis by (rule wrap) (simp only: unf GList gvalue.case)
  next
    case (GMap visit m)
    have go: "go_ok x" if "(k, x) \<in> set (opt_items m)" for k x
      using Suc.prems that by (cases m) (auto simp: GMap opt_items_def all_entries_def list_all_iff)
    have "distinct (map fst (opt_items m))" using Suc.prems by (cases m) (auto simp: GMap opt_items_def)
    then have "charges (norm_entries (\<lambda>item. normalizeValue (depth + 1) item) visit (opt_items m)) (normalizes depth v)"
      by (intro charges_mono [OF charges_norm_entries [OF d(2) _ IH [OF go]]]) (auto simp: GMap opt_items_def split: option.splits)
    then show ?thesis by (rule wrap) (simp only: unf GMap gvalue.case)
  next
    case (GSlice visit xs)
    have go: "go_ok x" if "x \<in> set xs" for x using Suc.prems that by (auto simp: GSlice list_all_iff)
    have "charges (norm_items (\<lambda>item. normalizeValue (depth + 1) item) visit xs) (normalizes depth v)"
      by (rule charges_mono [OF charges_norm_items [OF d(2) IH [OF go]]]) (auto simp: GSlice)
    then show ?thesis by (rule wrap) (simp only: unf GSlice gvalue.case)
  next
    case (GArray xs)
    have go: "go_ok x" if "x \<in> set xs" for x using Suc.prems that by (auto simp: GArray list_all_iff)
    let ?T = "\<lambda>A n e b. \<exists>ys. n = GList None (Some ys) \<and> length ys = length xs \<and> list_all (is_norm (depth + 1)) ys \<and>
      list_all (acyclic_from A) xs \<and> e = sum_list (map velems ys) \<and> b = sum_list (map vbytes ys)"
    have 1: "charges (wbind (items_loop (\<lambda>item. normalizeValue (depth + 1) item) xs) (\<lambda>ys. wret (GList None (Some ys)))) ?T"
      by (rule charges_map [OF charges_items [OF IH [OF go], of _ "\<lambda>x. x"]]) auto
    have 2: "charges (wbind (walk_reserveBytes (word_of_nat (length xs) * 16)) (\<lambda>_. wbind (items_loop (\<lambda>item. normalizeValue (depth + 1) item) xs) (\<lambda>ys. wret (GList None (Some ys))))) ?T"
      by (rule charges_bind [OF charges_reserve 1]) auto
    have "charges (wbind (walk_add (length xs)) (\<lambda>_. wbind (walk_reserveBytes (word_of_nat (length xs) * 16)) (\<lambda>_. wbind (items_loop (\<lambda>item. normalizeValue (depth + 1) item) xs) (\<lambda>ys. wret (GList None (Some ys))))))
        (normalizes depth v)"
      by (rule charges_bind [OF charges_add 2]) (auto simp: GArray d(2))
    then show ?thesis by (rule wrap) (simp only: unf GArray gvalue.case)
  next
    case (GStringMap visit m)
    have go: "go_ok x" if "(k, x) \<in> set m" for k x
      using Suc.prems that by (auto simp: GStringMap all_entries_def list_all_iff)
    have "distinct (map fst m)" using Suc.prems by (simp add: GStringMap)
    then have "charges (norm_entries (\<lambda>item. normalizeValue (depth + 1) item) visit m) (normalizes depth v)"
      by (intro charges_mono [OF charges_norm_entries [OF d(2) _ IH [OF go]]]) (auto simp: GStringMap)
    then show ?thesis by (rule wrap) (simp only: unf GStringMap gvalue.case)
  qed (simp_all only: unf gvalue.case,
      (rule charges_pre, use d(2) in \<open>auto intro!: charges_wret charges_wfail charges_if simp: widen_finite\<close>)+)
qed

section \<open>Which value a successful walk returns\<close>

text \<open>The functional content of normalisation, without limits and failures.\<close>

fun norm_of :: "gvalue \<Rightarrow> gvalue" where
  "norm_of (GSigned i) = GInt64 i"
| "norm_of (GUint u) = GInt64 u"
| "norm_of (GUint64 u) = GInt64 u"
| "norm_of (GUnsigned u) = GInt64 u"
| "norm_of (GFloat32 f) = GFloat64 (widen_float f)"
| "norm_of (GBytes bs) = GBytes (append_nil bs)"
| "norm_of (GVector xs) = GVector (append_nil xs)"
| "norm_of (GList visit xs) = GList None (Some (map norm_of (case xs of None \<Rightarrow> [] | Some l \<Rightarrow> l)))"
| "norm_of (GMap visit m) = GMap None (Some (map (\<lambda>(k, v). (k, norm_of v)) (case m of None \<Rightarrow> [] | Some l \<Rightarrow> l)))"
| "norm_of (GSlice visit l) = GList None (Some (map norm_of l))"
| "norm_of (GArray l) = GList None (Some (map norm_of l))"
| "norm_of (GStringMap visit l) = GMap None (Some (map (\<lambda>(k, v). (k, norm_of v)) l))"
| "norm_of v = v"

definition yields :: "'a walk \<Rightarrow> 'a \<Rightarrow> bool" where
  "yields m x \<longleftrightarrow> (\<forall>w y w'. run_state m w = (Inr y, w') \<longrightarrow> y = x)"

lemma yields_bind: "yields m x \<Longrightarrow> yields (k x) y \<Longrightarrow> yields (wbind m k) y"
  unfolding yields_def by (auto simp: run_wbind split: prod.splits sum.splits) blast

lemma yields_unit: "yields m ()" for m :: "unit walk"
  by (simp add: yields_def)

lemma yields_then: "yields m y \<Longrightarrow> yields (wbind g (\<lambda>_. m)) y" for g :: "unit walk"
  by (rule yields_bind [OF yields_unit])

lemma yields_ret [simp]: "yields (wret x) x" "yields (wfail er) y"
  by (simp_all add: yields_def wret_def wfail_def)

lemma yields_if: "(c \<Longrightarrow> yields m x) \<Longrightarrow> (\<not> c \<Longrightarrow> yields n x) \<Longrightarrow> yields (if c then m else n) x"
  by simp

lemma yields_leave: "yields m x \<Longrightarrow> yields (deferring_leave visit m) x"
  by (auto simp: yields_def deferring_leave_def split: prod.splits)

lemma yields_items: "(\<And>x. x \<in> set l \<Longrightarrow> yields (norm x) (f x)) \<Longrightarrow> yields (items_loop norm l) (map f l)"
  by (induction l) (auto intro!: yields_bind)

lemma yields_entries:
  "(\<And>k x. (k, x) \<in> set l \<Longrightarrow> yields (norm x) (f x)) \<Longrightarrow> yields (map_loop norm l) (map (\<lambda>(k, v). (k, f v)) l)"
proof (induction l)
  case (Cons kx l)
  obtain k x where kx: "kx = (k, x)" by (metis prod.exhaust)
  have 1: "yields (norm x) (f x)" "yields (map_loop norm l) (map (\<lambda>(k, v). (k, f v)) l)" using Cons by (auto simp: kx)
  show ?case unfolding kx map_loop.simps using 1
    by (auto intro!: yields_then yields_bind [OF 1(1)] yields_bind [OF 1(2)])
qed simp

lemma yields_norm_items: "(\<And>x. x \<in> set l \<Longrightarrow> yields (norm x) (f x)) \<Longrightarrow> yields (norm_items norm visit l) (GList None (Some (map f l)))"
  unfolding norm_items_def by (auto intro!: yields_then yields_leave yields_bind [OF yields_items])

lemma yields_norm_entries: "(\<And>k x. (k, x) \<in> set l \<Longrightarrow> yields (norm x) (f x)) \<Longrightarrow>
    yields (norm_entries norm visit l) (GMap None (Some (map (\<lambda>(k, v). (k, f v)) l)))"
  unfolding norm_entries_def by (auto intro!: yields_then yields_leave yields_bind [OF yields_entries])

lemma normalize_yields: "yields (normalizeValue depth v) (norm_of v)"
proof (induction "65 - depth" arbitrary: depth v)
  case 0
  then have "depth > maxValueDepth" by (simp add: maxValueDepth_def)
  then show ?case unfolding normalizeValue.simps [of depth] by (auto intro: yields_bind [OF yields_unit])
next
  case (Suc n)
  have IH: "yields (normalizeValue (depth + 1) x) (norm_of x)" for x
    using Suc.hyps(1) [of "depth + 1" x] Suc.hyps(2) by simp
  have "yields (wbind (items_loop (\<lambda>item. normalizeValue (depth + 1) item) xs) (\<lambda>ys. wret (GList None (Some ys)))) (GList None (Some (map norm_of xs)))" for xs
    by (rule yields_bind [OF yields_items [OF IH]]) simp
  note arr = yields_then [OF yields_then [OF this]]
  show ?case unfolding normalizeValue.simps [of depth]
    by (rule yields_then, rule yields_if, simp, cases v)
      (simp_all only: gvalue.case norm_of.simps opt_items_def [symmetric],
       (auto intro!: yields_if yields_norm_items yields_norm_entries IH [simplified] arr [simplified] | intro yields_if yields_then yields_ret)+)
qed

section \<open>Normalising a normalised value\<close>

definition accepts :: "'a walk \<Rightarrow> 'a \<Rightarrow> int \<Rightarrow> int \<Rightarrow> bool" where
  "accepts m x e b \<longleftrightarrow> e \<ge> 0 \<and> b \<ge> 0 \<and>
     (\<forall>w. wreserve w = None \<longrightarrow> 0 \<le> wbytes w \<longrightarrow> elements w + e \<le> maxValueElements \<longrightarrow> wbytes w + b \<le> maxValueBytes \<longrightarrow>
       run_state m w = (Inr x, w\<lparr>elements := elements w + e, wbytes := wbytes w + b\<rparr>))"

lemma accepts_bind:
  assumes "accepts m x e1 b1" "accepts (k x) y e2 b2"
  shows "accepts (wbind m k) y (e1 + e2) (b1 + b2)"
  using assms by (auto simp: accepts_def run_wbind add.assoc)

lemma accepts_eq: "accepts m x e b \<Longrightarrow> e = e' \<Longrightarrow> b = b' \<Longrightarrow> accepts m x e' b'"
  by simp

lemma accepts_prims:
  "accepts (wret x) x 0 0" "accepts (walk_add n) () (int n) 0" "0 \<le> c \<Longrightarrow> accepts (walk_addBytes c) () 0 c"
  "accepts (walk_reserveBytes u) () 0 0" "accepts (reserve_key s) () 0 0"
  by (auto simp: accepts_def wret_def walk_add_def walk_addBytes_def walk_reserveBytes_def reserve_key_def Let_def)

lemma accepts_pre: "accepts m x e b \<Longrightarrow> accepts (wbind (walk_reserveBytes u) (\<lambda>_. m)) x e b"
  using accepts_bind [OF accepts_prims(4)] by force

lemma accepts_vector: "list_all finite32 xs \<Longrightarrow> accepts (vector_loop i xs) () 0 0"
proof (induction xs arbitrary: i)
  case (Cons x xs)
  have "accepts (if i mod 64 = 0 then walk_reserveBytes 0 else wret ()) () 0 0" by (simp add: accepts_prims)
  from accepts_bind [OF this, of "\<lambda>_. if \<not> finite32 x then _ else vector_loop (i + 1) xs" "()" 0 0] Cons
  show ?case unfolding vector_loop.simps by (simp add: accepts_bind [of _ "()" 0 0 _ "()" 0 0, simplified])
qed (simp add: accepts_prims)

lemma accepts_items:
  assumes "\<And>x. x \<in> set l \<Longrightarrow> accepts (norm x) x (velems x) (vbytes x)"
  shows "accepts (items_loop norm l) l (sum_list (map velems l)) (sum_list (map vbytes l))"
  using assms
proof (induction l)
  case (Cons x l)
  have "accepts (items_loop norm (x # l)) (x # l) (velems x + (sum_list (map velems l) + 0)) (vbytes x + (sum_list (map vbytes l) + 0))"
    unfolding items_loop.simps using Cons by (intro accepts_bind) (auto simp: accepts_prims)
  then show ?case by simp
qed (simp add: accepts_prims)

lemma accepts_entries:
  assumes "\<And>k x. (k, x) \<in> set l \<Longrightarrow> utf8_string k \<and> accepts (norm x) x (velems x) (vbytes x)"
  shows "accepts (map_loop norm l) l (sum_list (map (\<lambda>(k, v). velems v) l)) (sum_list (map (\<lambda>(k, v). int (length k) + vbytes v) l))"
  using assms
proof (induction l)
  case (Cons kx l)
  obtain k x where kx: "kx = (k, x)" by (metis prod.exhaust)
  have k: "utf8_string k" "accepts (norm x) x (velems x) (vbytes x)" using Cons.prems [of k x] by (simp_all add: kx)
  have "accepts (map_loop norm l) l (sum_list (map (\<lambda>(k, v). velems v) l)) (sum_list (map (\<lambda>(k, v). int (length k) + vbytes v) l))"
    using Cons by auto
  then have "accepts (wbind (walk_addBytes (int (length k))) (\<lambda>_. wbind (norm x) (\<lambda>y. wbind (reserve_key k) (\<lambda>_. wbind (map_loop norm l) (\<lambda>ys. wret ((k, y) # ys))))))
      ((k, x) # l) (0 + (velems x + (0 + (sum_list (map (\<lambda>(k, v). velems v) l) + 0))))
      (int (length k) + (vbytes x + (0 + (sum_list (map (\<lambda>(k, v). int (length k) + vbytes v) l) + 0))))"
    using k by (intro accepts_bind) (auto simp: accepts_prims)
  then show ?case unfolding kx map_loop.simps using k(1) by (simp add: add.assoc)
qed (simp add: accepts_prims)

lemma accepts_enter_leave: "accepts m x e b \<Longrightarrow> accepts (wbind (walk_enter None n) (\<lambda>_. deferring_leave None m)) x (int n + e) b"
  by (auto simp: accepts_def run_wbind walk_enter_def walk_add_def deferring_leave_def walk_leave_def Let_def wret_def add.assoc)

lemma accepts_norm_items:
  assumes "\<And>x. x \<in> set l \<Longrightarrow> accepts (norm x) x (velems x) (vbytes x)"
  shows "accepts (norm_items norm None l) (GList None (Some l)) (velems (GList None (Some l))) (vbytes (GList None (Some l)))"
proof -
  have "accepts (wbind (items_loop norm l) (\<lambda>ys. wret (GList None (Some ys)))) (GList None (Some l))
      (sum_list (map velems l) + 0) (sum_list (map vbytes l) + 0)"
    using assms by (intro accepts_bind [OF accepts_items]) (auto simp: accepts_prims)
  from accepts_enter_leave [OF accepts_pre [OF this], of "length l" "word_of_nat (length l) * 16"]
  show ?thesis by (simp add: norm_items_def)
qed

lemma accepts_norm_entries:
  assumes "\<And>k x. (k, x) \<in> set l \<Longrightarrow> utf8_string k \<and> accepts (norm x) x (velems x) (vbytes x)"
  shows "accepts (norm_entries norm None l) (GMap None (Some l)) (velems (GMap None (Some l))) (vbytes (GMap None (Some l)))"
proof -
  have "accepts (wbind (map_loop norm l) (\<lambda>ys. wret (GMap None (Some ys)))) (GMap None (Some l))
      (sum_list (map (\<lambda>(k, v). velems v) l) + 0) (sum_list (map (\<lambda>(k, v). int (length k) + vbytes v) l) + 0)"
    using assms by (intro accepts_bind [OF accepts_entries]) (auto simp: accepts_prims)
  from accepts_enter_leave [OF accepts_pre [OF this], of "length l" "word_of_nat (length l) * 32"]
  show ?thesis by (simp add: norm_entries_def)
qed

lemma append_nil_id: "xs \<noteq> Some [] \<Longrightarrow> append_nil xs = xs"
  by (auto simp: append_nil_def split: option.splits list.splits)

text \<open>A vector that fits what is left of the byte limit passes the check of its own length.\<close>

lemma accepts_vector_guard:
  assumes "accepts m x 0 (int n * 4)"
  shows "accepts (if int n > maxValueBytes div 4 then wfail er else m) x 0 (int n * 4)"
proof -
  have "\<not> int n > maxValueBytes div 4" if "0 \<le> wbytes w" "wbytes w + int n * 4 \<le> maxValueBytes" for w
    using that by (simp add: maxValueBytes_def)
  with assms show ?thesis by (auto simp: accepts_def)
qed

lemma normalize_accepts: "is_norm depth n \<Longrightarrow> accepts (normalizeValue depth n) n (velems n) (vbytes n)"
proof (induction "65 - depth" arbitrary: depth n)
  case 0
  then have "depth \<le> maxValueDepth" by (cases n) auto
  with 0 show ?case by (simp add: maxValueDepth_def)
next
  case (Suc k)
  have d: "\<not> depth > maxValueDepth" using Suc.hyps(2) by (simp add: maxValueDepth_def)
  have IH: "is_norm (depth + 1) x \<Longrightarrow> accepts (normalizeValue (depth + 1) x) x (velems x) (vbytes x)" for x
    using Suc.hyps(1) [of "depth + 1" x] Suc.hyps(2) by simp
  note unf = normalizeValue.simps [of depth] if_not_P [OF d] gvalue.case
  show ?case
  proof (cases n)
    case (GString s)
    have "accepts (wbind (walk_addBytes (int (length s))) (\<lambda>_. wbind (reserve_key s) (\<lambda>_. wret (GString s))))
        (GString s) (0 + (0 + 0)) (int (length s) + (0 + 0))"
      by (intro accepts_bind) (auto simp: accepts_prims)
    then show ?thesis using Suc.prems unfolding GString unf by (intro accepts_pre) simp
  next
    case (GBytes bs)
    have "accepts (wbind (walk_addBytes (int (opt_length bs))) (\<lambda>_. wbind (walk_reserveBytes (word_of_nat (opt_length bs))) (\<lambda>_. wret (GBytes bs))))
        (GBytes bs) (0 + (0 + 0)) (int (opt_length bs) + (0 + 0))"
      by (intro accepts_bind) (auto simp: accepts_prims)
    then show ?thesis using Suc.prems unfolding GBytes unf by (intro accepts_pre) (simp add: append_nil_id)
  next
    case (GVector xs)
    have "list_all finite32 (opt_items xs)" "xs \<noteq> Some []"
      using Suc.prems by (auto simp: GVector opt_items_def split: option.splits)
    then have "accepts (wbind (walk_addBytes (int (opt_length xs) * 4)) (\<lambda>_. wbind (walk_reserveBytes (word_of_nat (opt_length xs) * 4))
        (\<lambda>_. wbind (vector_loop 0 (opt_items xs)) (\<lambda>_. wret (GVector (append_nil xs)))))) (GVector xs) (0 + (0 + (0 + 0))) (int (opt_length xs) * 4 + (0 + (0 + 0)))"
      by (intro accepts_bind) (auto simp: accepts_prims accepts_vector append_nil_id)
    then show ?thesis unfolding GVector unf by (intro accepts_pre) (simp add: accepts_vector_guard)
  next
    case (GList visit xs)
    then obtain l where l: "visit = None" "xs = Some l" "list_all (is_norm (depth + 1)) l"
      using Suc.prems by (auto split: option.splits)
    have "accepts (norm_items (\<lambda>item. normalizeValue (depth + 1) item) None l) (GList None (Some l))
        (velems (GList None (Some l))) (vbytes (GList None (Some l)))"
      using l(3) by (intro accepts_norm_items IH) (auto simp: list_all_iff)
    then show ?thesis unfolding GList l unf by (intro accepts_pre) (simp add: opt_items_def)
  next
    case (GMap visit m)
    then obtain l where l: "visit = None" "m = Some l" "all_entries utf8_string (is_norm (depth + 1)) l"
      using Suc.prems by (auto split: option.splits)
    have "accepts (norm_entries (\<lambda>item. normalizeValue (depth + 1) item) None l) (GMap None (Some l))
        (velems (GMap None (Some l))) (vbytes (GMap None (Some l)))"
      using l(3) IH by (intro accepts_norm_entries) (auto simp: all_entries_def list_all_iff)
    then show ?thesis unfolding GMap l unf by (intro accepts_pre) (simp add: opt_items_def)
  next
    case (GFloat64 f)
    then show ?thesis using Suc.prems unfolding GFloat64 unf by (intro accepts_pre) (simp add: accepts_prims)
  qed (use Suc.prems in simp_all, simp_all only: unf, simp_all add: accepts_pre accepts_prims)
qed

section \<open>Persisting a normalised value\<close>

text \<open>The persisted form, and the representative of a value with map entries in key order.\<close>

definition map_values :: "('a \<Rightarrow> 'b) \<Rightarrow> (string \<times> 'a) list \<Rightarrow> (string \<times> 'b) list" where
  "map_values f l = map (\<lambda>(k, v). (k, f v)) l"

lemma map_values_cong [fundef_cong]:
  "l = l' \<Longrightarrow> (\<And>k v. (k, v) \<in> set l' \<Longrightarrow> f v = g v) \<Longrightarrow> map_values f l = map_values g l'"
  by (auto simp: map_values_def)

lemma map_values_simps [simp]:
  "map fst (map_values f l) = map fst l" "length (map_values f l) = length l"
  "sort_entries (map_values f l) = map_values f (sort_entries l)"
  by (auto simp: map_values_def sort_entries_map)

lemma map_values_comp [simp]: "map_values f (map_values g l) = map_values (\<lambda>x. f (g x)) l"
  by (auto simp: map_values_def)

fun persist :: "gvalue \<Rightarrow> persistedValue" where
  "persist (GBool b) = PBool b"
| "persist (GInt64 i) = PInt i"
| "persist (GFloat64 f) = PFloat f"
| "persist (GString s) = PString s"
| "persist (GBytes bs) = PBytes bs"
| "persist (GVector xs) = PVector xs"
| "persist (GList visit (Some l)) = PList (Some (map persist l))"
| "persist (GMap visit (Some l)) = PMap (Some (map_values persist l))"
| "persist v = PNull"

fun canon_g :: "gvalue \<Rightarrow> gvalue" where
  "canon_g (GList visit (Some l)) = GList visit (Some (map canon_g l))"
| "canon_g (GMap visit (Some l)) = GMap visit (Some (sort_entries (map_values canon_g l)))"
| "canon_g v = v"

lemma all_entries_map_values [simp]: "all_entries p q (map_values f l) = all_entries p (\<lambda>x. q (f x)) l"
  by (auto simp: all_entries_def map_values_def list_all_iff)

lemma all_entries_sort [simp]: "all_entries p q (sort_entries l) = all_entries p q l"
  by (simp add: all_entries_def list_all_iff)

lemma sum_list_map_all: "(\<And>x. x \<in> set l \<Longrightarrow> f x = Inr (g x)) \<Longrightarrow> sum_list_map f l = Inr (map g l)"
  by (induction l) auto

lemma sum_list_map_map: "sum_list_map f (map g l) = sum_list_map (\<lambda>x. f (g x)) l"
  by (induction l) (auto split: sum.splits)

lemma entry_map_all:
  assumes "\<And>k x. (k, x) \<in> set l \<Longrightarrow> f x = Inr (g x)"
  shows "entry_map f l = Inr (map_values g l)"
  unfolding entry_map_def map_values_def using assms by (intro sum_list_map_all) (auto split: prod.splits)

lemma entry_map_values: "entry_map f (map_values g l) = entry_map (\<lambda>x. f (g x)) l"
  unfolding entry_map_def map_values_def sum_list_map_map by (rule sum_list_map_cong) auto

lemma codec_value_maps:
  "encode_with dflt (GMap visit (Some l)) = (case entry_map (encode_with dflt) l of Inl er \<Rightarrow> Inl er | Inr ys \<Rightarrow> Inr (PMap (Some ys)))"
  "decodeValue (PMap (Some p)) = (case entry_map decodeValue p of Inl er \<Rightarrow> Inl er | Inr ys \<Rightarrow> Inr (GMap None (Some ys)))"
  by (simp_all add: entry_map_def)

lemma map_values_id: "map_values (\<lambda>x. x) l = l"
  by (simp add: map_values_def)

lemma encode_norm: "is_norm depth n \<Longrightarrow> encode_with dflt n = Inr (persist n)"
proof (induction n arbitrary: depth rule: persist.induct)
  case (7 visit l)
  then have "sum_list_map (encode_with dflt) l = Inr (map persist l)"
    by (intro sum_list_map_all) (auto simp: list_all_iff)
  then show ?case by simp
next
  case (8 visit l)
  then have "entry_map (encode_with dflt) l = Inr (map_values persist l)"
    by (intro entry_map_all) (auto simp: all_entries_def list_all_iff)
  then show ?case unfolding codec_value_maps by simp
qed (auto simp: append_nil_id)

lemma decode_persist: "is_norm depth n \<Longrightarrow> decodeValue (persist n) = Inr n"
proof (induction n arbitrary: depth rule: persist.induct)
  case (7 visit l)
  then have "sum_list_map (\<lambda>x. decodeValue (persist x)) l = Inr (map (\<lambda>x. x) l)"
    by (intro sum_list_map_all) (auto simp: list_all_iff)
  with 7 show ?case by (simp add: sum_list_map_map)
next
  case (8 visit l)
  then have "entry_map (\<lambda>x. decodeValue (persist x)) l = Inr (map_values (\<lambda>x. x) l)"
    by (intro entry_map_all) (auto simp: all_entries_def list_all_iff)
  with 8 show ?case unfolding persist.simps codec_value_maps by (simp add: entry_map_values map_values_id)
qed (auto simp: append_nil_id)

lemma sum_list_sort_entries: "sum_list (map f (sort_entries l)) = sum_list (map f l)" for f :: "_ \<Rightarrow> int"
proof -
  have "sum_list (map f (insort_key fst x ys)) = f x + sum_list (map f ys)" for x ys by (induction ys) auto
  then show ?thesis unfolding sort_entries_def by (induction l) auto
qed

lemma canon_norm: "is_norm depth n \<Longrightarrow> is_norm depth (canon_g n)"
proof (induction n arbitrary: depth rule: canon_g.induct)
  case (1 visit l)
  then show ?case by (auto simp: list_all_iff)
next
  case (2 visit l)
  then show ?case by simp (auto simp: all_entries_def list_all_iff)
qed auto

lemma sum_list_values_cong:
  "(\<And>k v. (k, v) \<in> set l \<Longrightarrow> f k (c v) = f k v) \<Longrightarrow>
   sum_list (map (\<lambda>(k, v). f k v) (sort_entries (map_values c l))) = sum_list (map (\<lambda>(k, v). f k v :: int) l)"
  unfolding sum_list_sort_entries by (induction l) (auto simp: map_values_def)

lemma canon_velems: "velems (canon_g n) = velems n"
proof (induction n rule: canon_g.induct)
  case (1 visit l)
  then have "map (\<lambda>x. velems (canon_g x)) l = map velems l" by (intro map_cong) auto
  then show ?case by (simp add: o_def del: map_eq_conv)
next
  case (2 visit l)
  then show ?case using sum_list_values_cong [of l "\<lambda>_ v. velems v" canon_g] by simp
qed auto

lemma canon_vbytes: "vbytes (canon_g n) = vbytes n"
proof (induction n rule: canon_g.induct)
  case (1 visit l)
  then have "map (\<lambda>x. vbytes (canon_g x)) l = map vbytes l" by (intro map_cong) auto
  then show ?case by (simp add: o_def del: map_eq_conv)
next
  case (2 visit l)
  then show ?case using sum_list_values_cong [of l "\<lambda>k v. int (length k) + vbytes v" canon_g] by simp
qed auto

lemma canon_props_values: "canon_props f (Some p) = Some (map_values f (sort_entries p))"
  by (simp add: props_Some map_values_def)

lemma persist_canon: "is_norm depth n \<Longrightarrow> persist (canon_g n) = canon_value (persist n)"
proof (induction n arbitrary: depth rule: canon_g.induct)
  case (1 visit l)
  then show ?case by (auto simp: list_all_iff)
next
  case (2 visit l)
  then have "map_values (\<lambda>x. persist (canon_g x)) (sort_entries l) = map_values (\<lambda>x. canon_value (persist x)) (sort_entries l)"
    by (intro map_values_cong) (auto simp: all_entries_def list_all_iff)
  then show ?case by (simp add: value_map_simps canon_props_values)
qed auto

lemma velems_member: "x \<in> set l \<Longrightarrow> velems x \<le> velems (GList visit (Some l))"
  "(k, x) \<in> set p \<Longrightarrow> velems x \<le> velems (GMap visit (Some p))"
proof -
  have "x \<in> set l \<Longrightarrow> velems x \<le> sum_list (map velems l)"
    using member_le_sum_list [of "velems x" "map velems l"] velems_nonneg by auto
  then show "x \<in> set l \<Longrightarrow> velems x \<le> velems (GList visit (Some l))" by simp
  have "(k, x) \<in> set p \<Longrightarrow> velems x \<le> sum_list (map (\<lambda>(k, v). velems v) p)"
    using velems_nonneg by (intro member_le_sum_list) (auto simp: image_iff intro: bexI [of _ "(k, x)"])
  then show "(k, x) \<in> set p \<Longrightarrow> velems x \<le> velems (GMap visit (Some p))" by simp
qed

lemma vbytes_member: "x \<in> set l \<Longrightarrow> vbytes x \<le> vbytes (GList visit (Some l))"
  "(k, x) \<in> set p \<Longrightarrow> int (length k) + vbytes x \<le> vbytes (GMap visit (Some p))"
proof -
  show "x \<in> set l \<Longrightarrow> vbytes x \<le> vbytes (GList visit (Some l))"
    using member_le_sum_list [of "vbytes x" "map vbytes l"] vbytes_nonneg by auto
  have "(k, x) \<in> set p \<Longrightarrow> int (length k) + vbytes x \<le> sum_list (map (\<lambda>(k, v). int (length k) + vbytes v) p)"
    using vbytes_nonneg by (intro member_le_sum_list) (auto simp: image_iff intro: bexI [of _ "(k, x)"] add_nonneg_nonneg)
  then show "(k, x) \<in> set p \<Longrightarrow> int (length k) + vbytes x \<le> vbytes (GMap visit (Some p))" by simp
qed

lemma length_le_velems: "int (length l) \<le> velems (GList visit (Some l))" "int (length p) \<le> velems (GMap visit (Some p))"
  using velems_nonneg by (auto intro!: sum_list_nonneg)

lemma persist_wf:
  assumes "is_norm depth n" "velems n \<le> maxValueElements" "vbytes n \<le> maxValueBytes"
  shows "wf_value depth (persist n)"
  using assms
proof (induction n arbitrary: depth rule: persist.induct)
  case (7 visit l)
  have "wf_value (depth + 1) (persist x)" if "x \<in> set l" for x
    using 7 that velems_member(1) [OF that, of visit] vbytes_member(1) [OF that, of visit] by (intro 7) (auto simp: list_all_iff)
  then show ?case using 7 length_le_velems(1) [of l visit]
    by (auto simp: wf_opt_def list_all_iff maxValueElements_def maxBinaryValueDepth_def maxValueDepth_def)
next
  case (8 visit l)
  have k: "utf8_string k \<and> is_norm (depth + 1) x \<and> length k < 2 ^ 48 \<and> vbytes x \<le> maxValueBytes" if "(k, x) \<in> set l" for k x
    using 8 that vbytes_member(2) [OF that, of visit] vbytes_nonneg [of x] by (auto simp: all_entries_def list_all_iff maxValueBytes_def)
  have "wf_value (depth + 1) (persist x)" if "(k, x) \<in> set l" for k x
    using 8 k [OF that] that velems_member(2) [OF that, of visit] by (intro 8) auto
  with k show ?case using 8 length_le_velems(2) [of l visit]
    by (auto simp: wf_value_PMap wf_props_def wf_opt_def wf_str_def list_all_iff map_values_def maxValueElements_def maxBinaryValueDepth_def maxValueDepth_def
      o_def case_prod_unfold)
qed (auto simp: wf_str_def wf_opt_def opt_length_def list_all_iff maxValueBytes_def maxValueElements_def maxBinaryValueDepth_def maxValueDepth_def split: option.splits)

lemma new_walk_empty [simp]: "active newValueWalk = []" "elements newValueWalk = 0" "wbytes newValueWalk = 0"
  by (simp_all add: newValueWalk_def)

lemma NormalizeValue_facts:
  assumes "go_ok v" "NormalizeValue v = Inr n"
  shows "n = norm_of v" "is_norm 0 n" "acyclic_from {} v" "velems n \<le> maxValueElements" "vbytes n \<le> maxValueBytes"
proof -
  obtain w where w: "run_state (normalizeValue 0 v) newValueWalk = (Inr n, w)"
    using assms(2) by (cases "run_state (normalizeValue 0 v) newValueWalk") (simp add: NormalizeValue_def)
  from normalize_charges [OF assms(1), of 0] w have "is_norm 0 n \<and> acyclic_from {} v \<and> elements w = velems n \<and> wbytes w = vbytes n \<and>
      elements w \<le> maxValueElements \<and> wbytes w \<le> maxValueBytes"
    unfolding charges_def by (auto simp: maxValueElements_def maxValueBytes_def dest!: spec [of _ newValueWalk])
  then show "is_norm 0 n" "acyclic_from {} v" "velems n \<le> maxValueElements" "vbytes n \<le> maxValueBytes" by simp_all
  show "n = norm_of v" using normalize_yields [of 0 v] w unfolding yields_def by blast
qed

lemma NormalizeValue_norm:
  assumes "is_norm 0 n" "velems n \<le> maxValueElements" "vbytes n \<le> maxValueBytes"
  shows "NormalizeValue n = Inr n"
  using normalize_accepts [OF assms(1)] assms(2,3)
  by (auto simp: accepts_def NormalizeValue_def newValueWalk_def dest!: spec [of _ newValueWalk])

text \<open>
  C24: A value the store accepts comes out in the normal form of that value (every integer type as \<^verbatim>\<open>int64\<close>, every
  float as \<^verbatim>\<open>float64\<close>, every slice and array as \<^verbatim>\<open>[]any\<close>, every string-keyed map as \<^verbatim>\<open>map[string]any\<close>), within the limits on nesting, elements and bytes; no
  container on the way contained itself, and normalising the result again succeeds and changes nothing.
\<close>

theorem normalize_value_ok:
  assumes "go_ok v" "NormalizeValue v = Inr n"
  shows "n = norm_of v \<and> is_norm 0 n \<and> acyclic_from {} v \<and> velems n \<le> maxValueElements \<and> vbytes n \<le> maxValueBytes \<and>
    NormalizeValue n = Inr n"
  using NormalizeValue_facts [OF assms] NormalizeValue_norm by blast

lemmas walk_eval = NormalizeValue_def normalizeValue.simps newValueWalk_def walk_reserveBytes_def walk_addBytes_def walk_add_def
  walk_enter_def walk_leave_def deferring_leave_def norm_items_def norm_entries_def reserve_key_def wbind_def wret_def wfail_def
  opt_items_def opt_length_def append_nil_def maxValueDepth_def maxValueElements_def maxValueBytes_def maxInternedStringBytes_def
  utf8_string_def byte_of_char_def

theorem normalize_value_ok_witness:
  "NormalizeValue (GMap (Some (1, 7, 0, 0)) (Some [(''k'', GList (Some (0, 9, 2, 2)) (Some [GUint 5, GBytes (Some [])]))])) =
     Inr (GMap None (Some [(''k'', GList None (Some [GInt64 5, GBytes None]))])) \<and>
   NormalizeValue (GMap None (Some [(''k'', GList None (Some [GInt64 5, GBytes None]))])) =
     Inr (GMap None (Some [(''k'', GList None (Some [GInt64 5, GBytes None]))]))"
proof -
  have "NormalizeValue (GMap (Some (1, 7, 0, 0)) (Some [(''k'', GList (Some (0, 9, 2, 2)) (Some [GUint 5, GBytes (Some [])]))])) =
     Inr (GMap None (Some [(''k'', GList None (Some [GInt64 5, GBytes None]))]))"
    by (simp add: walk_eval)
  from normalize_value_ok [OF _ this] this show ?thesis by (simp add: all_entries_def)
qed

text \<open>
  C25: What the store accepts can be persisted and read back: a normalised value has a persisted form, that form is
  one the binary encoding can carry, and decoding it gives the value back; after a trip through the binary
  encoding, which sorts map entries, it is the same value with its entries in key order.
\<close>

theorem accepted_value_persists:
  assumes "go_ok v" "NormalizeValue v = Inr n"
  shows "\<exists>p. encodeValue n = Inr p \<and> wf_value 0 p \<and> decodeValue p = Inr n \<and> decodeValue (canon_value p) = Inr (canon_g n)"
proof (intro exI conjI)
  note n = NormalizeValue_facts [OF assms]
  show "encodeValue n = Inr (persist n)" unfolding encodeValue_def by (rule encode_norm [OF n(2)])
  show "wf_value 0 (persist n)" using n by (intro persist_wf)
  show "decodeValue (persist n) = Inr n" using n(2) by (rule decode_persist)
  show "decodeValue (canon_value (persist n)) = Inr (canon_g n)"
    unfolding persist_canon [OF n(2), symmetric] by (rule decode_persist [OF canon_norm [OF n(2)]])
qed

theorem accepted_value_persists_witness:
  "\<exists>p. encodeValue (GList None (Some [GInt64 5, GString ''hi''])) = Inr p \<and> wf_value 0 p \<and>
     decodeValue p = Inr (GList None (Some [GInt64 5, GString ''hi''])) \<and>
     decodeValue (canon_value p) = Inr (canon_g (GList None (Some [GInt64 5, GString ''hi''])))"
proof -
  have "NormalizeValue (GSlice None [GSigned 5, GString ''hi'']) = Inr (GList None (Some [GInt64 5, GString ''hi'']))"
    by (simp add: walk_eval)
  from accepted_value_persists [OF _ this] show ?thesis by simp
qed

end
