(* ===== verification/Properties.thy ===== *)
theory Properties
  imports KeyTable ValueLaws "HOL-Library.Multiset"
begin

text \<open>
  Property lists (\<^verbatim>\<open>internal/store/properties.go\<close>): the properties of a node or an edge as a slice of entries
  sorted by key, looked up linearly while short and by binary search beyond eight entries; their
  normalisation on the way in and their conversion to and from the persisted map. The entries of a Go map
  argument are a list in the order the runtime happens to iterate it.
\<close>

section \<open>Data and operations\<close>

datatype propertyValueKind =
    propertyNull | propertyBool | propertyInt | propertyFloat | propertyString | propertyBytes | propertyVector
  | propertyList | propertyMap | propertyOther

record propertyValue =
  raw :: gvalue
  kind :: propertyValueKind

record propertyEntry =
  ekey :: string
  evalue :: propertyValue

record Properties =
  entries :: "propertyEntry list"

definition typedPropertyValue :: "gvalue \<Rightarrow> propertyValue" where
  "typedPropertyValue v = \<lparr>raw = v, kind = (case v of
     GNil \<Rightarrow> propertyNull
   | GBool _ \<Rightarrow> propertyBool
   | GInt64 _ \<Rightarrow> propertyInt
   | GFloat64 _ \<Rightarrow> propertyFloat
   | GString _ \<Rightarrow> propertyString
   | GBytes _ \<Rightarrow> propertyBytes
   | GVector _ \<Rightarrow> propertyVector
   | GList _ _ \<Rightarrow> propertyList
   | GMap _ _ \<Rightarrow> propertyMap
   | _ \<Rightarrow> propertyOther)\<rparr>"

definition new_entry :: "string \<Rightarrow> gvalue \<Rightarrow> propertyEntry" where
  "new_entry key v = \<lparr>ekey = key, evalue = typedPropertyValue v\<rparr>"

definition empty_properties :: Properties where
  "empty_properties = \<lparr>entries = []\<rparr>"

definition sort_properties :: "Properties \<Rightarrow> Properties" where
  "sort_properties p = p\<lparr>entries := sort_key ekey (entries p)\<rparr>"

definition PropertiesFromMap :: "(string \<times> gvalue) list \<Rightarrow> Properties" where
  "PropertiesFromMap values =
     (if values = [] then empty_properties
      else sort_properties \<lparr>entries = map (\<lambda>(key, v). new_entry key v) values\<rparr>)"

text \<open>The running walk of a property storage function, discarded at its end.\<close>

definition run_walk :: "'a walk \<Rightarrow> gerr + 'a" where
  "run_walk m = fst (run_state m newValueWalk)"

definition NormalizePropertyStorage :: "(string \<times> gvalue) list \<Rightarrow> gerr + Properties" where
  "NormalizePropertyStorage values =
     (if values = [] then Inr empty_properties
      else run_walk (wbind (walk_add (length values)) (\<lambda>_.
        wbind (properties_loop norm_property values) (\<lambda>l.
          wret (sort_properties \<lparr>entries = map (\<lambda>(key, v). new_entry (InternString key) v) l\<rparr>)))))"

definition p_Len :: "Properties \<Rightarrow> int" where
  "p_Len p = int (length (entries p))"

fun find_linear :: "propertyEntry list \<Rightarrow> nat \<Rightarrow> string \<Rightarrow> nat \<times> bool" where
  "find_linear [] i key = (i, False)"
| "find_linear (entry # rest) i key =
     (if ekey entry \<ge> key then (i, ekey entry = key) else find_linear rest (i + 1) key)"

text \<open>\<^verbatim>\<open>slices.BinarySearchFunc\<close>, with the comparison \<^verbatim>\<open>strings.Compare(entry.key, key)\<close>.\<close>

definition BinarySearchFunc :: "propertyEntry list \<Rightarrow> string \<Rightarrow> nat \<times> bool" where
  "BinarySearchFunc es key =
     (let i = bsearch (\<lambda>h. ekey (es ! h) < key) 0 (length es) in (i, i < length es \<and> ekey (es ! i) = key))"

definition p_find :: "Properties \<Rightarrow> string \<Rightarrow> nat \<times> bool" where
  "p_find p key =
     (if length (entries p) \<le> 8 then find_linear (entries p) 0 key else BinarySearchFunc (entries p) key)"

definition p_Lookup :: "Properties \<Rightarrow> string \<Rightarrow> gvalue \<times> bool" where
  "p_Lookup p key = (case p_find p key of (i, ok) \<Rightarrow>
     if \<not> ok then (GNil, False) else (raw (evalue (entries p ! i)), True))"

definition p_Get :: "Properties \<Rightarrow> string \<Rightarrow> gvalue" where
  "p_Get p key = fst (p_Lookup p key)"

definition p_All :: "Properties \<Rightarrow> (string \<times> gvalue) list" where
  "p_All p = map (\<lambda>entry. (ekey entry, raw (evalue entry))) (entries p)"

definition p_Set :: "string \<Rightarrow> gvalue \<Rightarrow> Properties \<Rightarrow> Properties" where
  "p_Set key v p = (case p_find p key of (i, ok) \<Rightarrow>
     if ok then p\<lparr>entries := (entries p)[i := (entries p ! i)\<lparr>evalue := typedPropertyValue v\<rparr>]\<rparr>
     else p\<lparr>entries := take i (entries p) @ new_entry (InternString key) v # drop i (entries p)\<rparr>)"

definition p_Delete :: "string \<Rightarrow> Properties \<Rightarrow> Properties" where
  "p_Delete key p = (case p_find p key of (i, ok) \<Rightarrow>
     if ok then p\<lparr>entries := take i (entries p) @ drop (i + 1) (entries p)\<rparr> else p)"

definition p_CloneDeep :: "Properties \<Rightarrow> Properties" where
  "p_CloneDeep p = p\<lparr>entries := map (\<lambda>entry. entry\<lparr>evalue := (evalue entry)\<lparr>raw := CloneValue (raw (evalue entry))\<rparr>\<rparr>) (entries p)\<rparr>"

definition p_CloneMap :: "Properties \<Rightarrow> (string \<times> gvalue) list" where
  "p_CloneMap p = map (\<lambda>entry. (ekey entry, CloneValue (raw (evalue entry)))) (entries p)"

text \<open>The type assertion \<^verbatim>\<open>raw.([]float32)\<close>, which panics on any other dynamic type.\<close>

definition assert_vector :: "gvalue \<Rightarrow> gerr + u32 list option" where
  "assert_vector v = (case v of GVector xs \<Rightarrow> Inr xs | _ \<Rightarrow> Inl ErrPanic)"

definition p_Vector :: "Properties \<Rightarrow> string \<Rightarrow> gerr + u32 list option \<times> bool" where
  "p_Vector p key = (case p_find p key of (i, ok) \<Rightarrow>
     if \<not> ok \<or> kind (evalue (entries p ! i)) \<noteq> propertyVector then Inr (None, False)
     else case assert_vector (raw (evalue (entries p ! i))) of Inl er \<Rightarrow> Inl er | Inr xs \<Rightarrow> Inr (xs, True))"

fun first_vector_loop :: "propertyEntry list \<Rightarrow> gerr + u32 list option \<times> bool" where
  "first_vector_loop [] = Inr (None, False)"
| "first_vector_loop (entry # rest) =
     (if kind (evalue entry) = propertyVector then
        (case assert_vector (raw (evalue entry)) of
           Inl er \<Rightarrow> Inl er
         | Inr vector \<Rightarrow> if vector \<noteq> None then Inr (vector, True) else first_vector_loop rest)
      else first_vector_loop rest)"

definition p_FirstVector :: "Properties \<Rightarrow> gerr + u32 list option \<times> bool" where
  "p_FirstVector p = first_vector_loop (entries p)"

definition wlift :: "gerr + 'a \<Rightarrow> 'a walk" where
  "wlift r = (case r of Inl er \<Rightarrow> wfail er | Inr x \<Rightarrow> wret x)"

definition encode_property :: "string \<Rightarrow> gvalue \<Rightarrow> persistedValue walk" where
  "encode_property key v = wbind (norm_property key v) (\<lambda>n. wlift (encodeValue n))"

definition encodePropertyStorage :: "Properties \<Rightarrow> gerr + (string \<times> persistedValue) list" where
  "encodePropertyStorage p =
     run_walk (wbind (walk_add (length (entries p))) (\<lambda>_. properties_loop encode_property (p_All p)))"

definition decode_property :: "string \<Rightarrow> persistedValue \<Rightarrow> gvalue walk" where
  "decode_property key v =
     (if \<not> utf8_string key then wfail (ErrMsg ''key contains invalid UTF-8'')
      else wbind (walk_addBytes (int (length key))) (\<lambda>_.
        wbind (wlift (decodeValue v)) (\<lambda>decoded. normalizeValue 0 decoded)))"

definition decodePropertyStorage :: "(string \<times> persistedValue) list \<Rightarrow> gerr + Properties" where
  "decodePropertyStorage m =
     run_walk (wbind (walk_add (length m)) (\<lambda>_.
       wbind (properties_loop decode_property m) (\<lambda>l.
         wret (sort_properties \<lparr>entries = map (\<lambda>(key, v). new_entry (InternString key) v) l\<rparr>))))"

section \<open>The representation invariant\<close>

definition p_inv :: "Properties \<Rightarrow> bool" where
  "p_inv p \<longleftrightarrow> sorted_wrt (<) (map ekey (entries p)) \<and>
     list_all (\<lambda>entry. evalue entry = typedPropertyValue (raw (evalue entry))) (entries p)"

definition p_view :: "Properties \<Rightarrow> string \<Rightarrow> gvalue option" where
  "p_view p = map_of (p_All p)"

section \<open>Lookup\<close>

lemma find_linear_takeWhile:
  "sorted_wrt (<) (map ekey es) \<Longrightarrow>
   find_linear es i key = (i + length (takeWhile (\<lambda>e. ekey e < key) es), key \<in> ekey ` set es)"
  by (induction es arbitrary: i) (auto simp: not_less)

lemma BinarySearchFunc_takeWhile:
  assumes "sorted_wrt (<) (map ekey es)"
  shows "BinarySearchFunc es key = (length (takeWhile (\<lambda>e. ekey e < key) es), key \<in> ekey ` set es)"
proof -
  define i where "i = bsearch (\<lambda>h. ekey (es ! h) < key) 0 (length es)"
  have mono: "ekey (es ! a) \<le> ekey (es ! b)" if "a \<le> b" "b < length es" for a b
    using that sorted_wrt_nth_less [OF assms, of a b] by (cases "a = b") auto
  have "i \<le> length es \<and> (\<forall>k < i. ekey (es ! k) < key) \<and> (\<forall>k < length es. i \<le> k \<longrightarrow> \<not> ekey (es ! k) < key)"
    unfolding i_def using mono by (intro bsearch_bounds) (auto intro: le_less_trans)
  then have i: "i \<le> length es" "\<And>k. k < i \<Longrightarrow> ekey (es ! k) < key" "\<And>k. k < length es \<Longrightarrow> i \<le> k \<Longrightarrow> key \<le> ekey (es ! k)"
    by (auto simp: not_less)
  have "takeWhile (\<lambda>e. ekey e < key) es = take i es"
    using i by (intro takeWhile_eq_take_P_nth) (auto simp: not_less)
  moreover have "(i < length es \<and> ekey (es ! i) = key) \<longleftrightarrow> key \<in> ekey ` set es"
  proof
    assume "key \<in> ekey ` set es"
    then obtain k where k: "k < length es" "ekey (es ! k) = key" by (auto simp: in_set_conv_nth)
    then have "i \<le> k" using i(2) [of k] by (meson leI less_irrefl)
    then have "ekey (es ! i) \<le> ekey (es ! k)" using k sorted_wrt_nth_less [OF assms, of i k] by (cases "i = k") auto
    then show "i < length es \<and> ekey (es ! i) = key" using k i(3) [of i] \<open>i \<le> k\<close> by auto
  qed auto
  ultimately show ?thesis using i(1) by (simp add: BinarySearchFunc_def Let_def i_def [symmetric])
qed

lemma p_find_eq:
  assumes "p_inv p"
  shows "p_find p key = (length (takeWhile (\<lambda>e. ekey e < key) (entries p)), key \<in> ekey ` set (entries p))"
  using assms by (simp add: p_find_def p_inv_def find_linear_takeWhile BinarySearchFunc_takeWhile)

lemma find_split:
  assumes "p_inv p"
  obtains (found) pre e post where "entries p = pre @ e # post" "p_find p key = (length pre, True)" "ekey e = key"
      "\<forall>x \<in> set pre. ekey x < key" "\<forall>x \<in> set post. key < ekey x"
  | (absent) pre post where "entries p = pre @ post" "p_find p key = (length pre, False)"
      "\<forall>x \<in> set pre. ekey x < key" "\<forall>x \<in> set post. key < ekey x"
proof -
  let ?pre = "takeWhile (\<lambda>e. ekey e < key) (entries p)" and ?post = "dropWhile (\<lambda>e. ekey e < key) (entries p)"
  have es: "entries p = ?pre @ ?post" by simp
  have s: "sorted_wrt (<) (map ekey (?pre @ ?post))" using assms by (simp add: p_inv_def)
  have pre: "\<forall>x \<in> set ?pre. ekey x < key" by (auto dest: set_takeWhileD)
  show ?thesis
  proof (cases "\<exists>e post. ?post = e # post \<and> ekey e = key")
    case True
    then obtain e post where e: "?post = e # post" "ekey e = key" by blast
    then have "key \<in> ekey ` set (entries p)" using es by (metis image_eqI in_set_conv_decomp)
    moreover have "\<forall>x \<in> set post. key < ekey x" using s e by (auto simp: sorted_wrt_append)
    ultimately show ?thesis using found [of ?pre e post] es e pre p_find_eq [OF assms, of key] by auto
  next
    case False
    have post: "\<forall>x \<in> set ?post. key < ekey x"
    proof (cases ?post)
      case (Cons e r)
      then have "\<not> ekey e < key" by (metis dropWhile_eq_Cons_conv)
      with False Cons have "key < ekey e" by auto
      then show ?thesis using s Cons by (auto simp: sorted_wrt_append intro: less_trans)
    next
      case Nil
      then show ?thesis unfolding Nil by simp
    qed
    have "key \<notin> ekey ` set ?pre" "key \<notin> ekey ` set ?post" using pre post by auto
    then have "key \<notin> ekey ` set (entries p)" using arg_cong [OF es, of set] unfolding set_append by blast
    then show ?thesis using absent [of ?pre ?post] es pre post p_find_eq [OF assms, of key] by auto
  qed
qed

lemma p_All_append: "p_All \<lparr>entries = xs @ ys\<rparr> = p_All \<lparr>entries = xs\<rparr> @ p_All \<lparr>entries = ys\<rparr>"
  by (simp add: p_All_def)

lemma p_inv_entries: "p_inv p \<longleftrightarrow> p_inv \<lparr>entries = entries p\<rparr>" "p_All p = p_All \<lparr>entries = entries p\<rparr>"
  by (simp_all add: p_inv_def p_All_def)

lemma p_inv_append: "p_inv \<lparr>entries = xs @ ys\<rparr> \<longleftrightarrow> p_inv \<lparr>entries = xs\<rparr> \<and> p_inv \<lparr>entries = ys\<rparr> \<and>
    (\<forall>x \<in> set xs. \<forall>y \<in> set ys. ekey x < ekey y)"
  by (auto simp: p_inv_def sorted_wrt_append)

lemma p_inv_Cons: "p_inv \<lparr>entries = e # es\<rparr> \<longleftrightarrow> evalue e = typedPropertyValue (raw (evalue e)) \<and> p_inv \<lparr>entries = es\<rparr> \<and>
    (\<forall>x \<in> set es. ekey e < ekey x)"
  by (auto simp: p_inv_def)

lemma raw_typed [simp]: "raw (typedPropertyValue v) = v"
  by (simp add: typedPropertyValue_def)

lemma map_of_absent: "\<forall>x \<in> set es. ekey x \<noteq> key \<Longrightarrow> map_of (p_All \<lparr>entries = es\<rparr>) key = None"
  by (auto simp: p_All_def map_of_eq_None_iff)

lemma p_set_law:
  assumes "p_inv p"
  shows "p_inv (p_Set key v p) \<and> p_view (p_Set key v p) = (p_view p)(key \<mapsto> v)"
proof -
  note e = p_inv_entries [of p]
  show ?thesis using assms
  proof (cases rule: find_split [of _ key])
    case (found pre x post)
    then have "entries (p_Set key v p) = pre @ x\<lparr>evalue := typedPropertyValue v\<rparr> # post" by (simp add: p_Set_def)
    moreover have "map_of (p_All \<lparr>entries = pre\<rparr>) key = None" using found(4) by (intro map_of_absent) auto
    ultimately show ?thesis using assms found p_inv_entries [of "p_Set key v p"] e
      by (auto simp: p_view_def p_inv_append p_inv_Cons p_All_append map_add_def p_All_def fun_eq_iff split: option.splits)
  next
    case (absent pre post)
    then have "entries (p_Set key v p) = pre @ new_entry key v # post" by (simp add: p_Set_def InternString_def)
    moreover have "map_of (p_All \<lparr>entries = pre\<rparr>) key = None" using absent by (intro map_of_absent) auto
    ultimately show ?thesis using assms absent p_inv_entries [of "p_Set key v p"] e
      by (auto simp: p_view_def p_inv_append p_inv_Cons p_All_append map_add_def p_All_def fun_eq_iff new_entry_def split: option.splits)
  qed
qed

lemma p_delete_law:
  assumes "p_inv p"
  shows "p_inv (p_Delete key p) \<and> p_view (p_Delete key p) = (p_view p)(key := None)"
proof -
  note e = p_inv_entries [of p]
  show ?thesis using assms
  proof (cases rule: find_split [of _ key])
    case (found pre x post)
    then have "entries (p_Delete key p) = pre @ post" by (simp add: p_Delete_def)
    moreover have "map_of (p_All \<lparr>entries = pre\<rparr>) key = None" "map_of (p_All \<lparr>entries = post\<rparr>) key = None"
      using found by (auto intro!: map_of_absent)
    ultimately show ?thesis using assms found p_inv_entries [of "p_Delete key p"] e
      by (auto simp: p_view_def p_inv_append p_inv_Cons p_All_append map_add_def p_All_def fun_eq_iff split: option.splits)
  next
    case (absent pre post)
    then have "p_Delete key p = p" by (simp add: p_Delete_def)
    moreover have "p_view p key = None" unfolding p_view_def e(2) using absent by (intro map_of_absent) auto
    ultimately show ?thesis using assms by (auto simp: fun_eq_iff)
  qed
qed

lemma p_lookup_view:
  assumes "p_inv p"
  shows "p_Lookup p key = (case p_view p key of None \<Rightarrow> (GNil, False) | Some v \<Rightarrow> (v, True))"
  using assms
proof (cases rule: find_split [of _ key])
  case (found pre x post)
  moreover have "map_of (p_All \<lparr>entries = pre\<rparr>) key = None" using found by (intro map_of_absent) auto
  ultimately show ?thesis by (simp add: p_Lookup_def p_view_def p_inv_entries(2) [of p] p_All_append map_add_def) (simp add: p_All_def)
next
  case (absent pre post)
  then have "p_view p key = None" unfolding p_view_def p_inv_entries(2) [of p] by (intro map_of_absent) auto
  with absent show ?thesis by (simp add: p_Lookup_def)
qed

lemma p_distinct: "p_inv p \<Longrightarrow> distinct (map fst (p_All p))"
  by (auto simp: p_inv_def p_All_def o_def strict_sorted_iff)

lemma p_empty: "p_inv empty_properties" "p_view empty_properties = (\<lambda>_. None)"
  by (simp_all add: empty_properties_def p_inv_def p_view_def p_All_def)

lemma p_All_view: "map_of (p_All p) = p_view p"
  by (simp add: p_view_def)

interpretation props: key_table GNil empty_properties p_Get "\<lambda>p key. snd (p_Lookup p key)" p_Set p_Delete p_Len p_All p_view p_inv
proof
  fix p :: Properties assume p: "p_inv p"
  have "p_Len p = int (length (map fst (p_All p)))" by (simp add: p_Len_def p_All_def)
  also have "length (map fst (p_All p)) = card (dom (p_view p))"
    using p_distinct [OF p] unfolding p_view_def dom_map_of_conv_image_fst by (metis distinct_card list.set_map)
  finally show "p_Len p = int (card (dom (p_view p)))" .
qed (auto simp: p_set_law p_delete_law p_distinct p_lookup_view p_Get_def p_All_view p_empty split: option.splits)

section \<open>Storage of a whole property map\<close>

text \<open>What the store keeps as the properties of one entity: normal values under UTF-8 keys, within the limits.\<close>

definition admissible :: "(string \<times> gvalue) list \<Rightarrow> bool" where
  "admissible l \<longleftrightarrow> distinct (map fst l) \<and> all_entries utf8_string (is_norm 0) l \<and>
     velems (GMap None (Some l)) \<le> maxValueElements \<and> vbytes (GMap None (Some l)) \<le> maxValueBytes"

definition of_entries :: "(string \<times> gvalue) list \<Rightarrow> Properties" where
  "of_entries l = sort_properties \<lparr>entries = map (\<lambda>(key, v). new_entry key v) l\<rparr>"

lemma p_All_of_entries: "p_All (of_entries l) = sort_entries l"
proof -
  have ins: "map (\<lambda>e. (ekey e, raw (evalue e))) (insort_key ekey (new_entry k v) es) =
      insort_key fst (k, v) (map (\<lambda>e. (ekey e, raw (evalue e))) es)" for k v es
    by (induction es) (auto simp: new_entry_def)
  show ?thesis unfolding of_entries_def sort_properties_def p_All_def sort_entries_def
    by (induction l) (auto simp: ins)
qed

lemma of_entries_inv: "distinct (map fst l) \<Longrightarrow> p_inv (of_entries l)"
proof -
  assume "distinct (map fst l)"
  then have "sorted (map fst (p_All (of_entries l)))" "distinct (map fst (p_All (of_entries l)))" by (simp_all add: p_All_of_entries)
  then have "sorted_wrt (<) (map ekey (entries (of_entries l)))" by (simp add: strict_sorted_iff p_All_def o_def)
  then show ?thesis by (auto simp: p_inv_def of_entries_def sort_properties_def new_entry_def list_all_iff)
qed

lemma of_entries_view: "distinct (map fst l) \<Longrightarrow> p_view (of_entries l) = map_of l"
  by (simp add: p_view_def p_All_of_entries map_of_sort_entries)

lemma entries_ext:
  assumes "p_inv p" "p_inv q" "p_view p = p_view q"
  shows "p = q"
proof -
  have r: "l = map (\<lambda>k. (k, the (map_of l k))) (map fst l)" if "distinct (map fst l)" for l :: "(string \<times> gvalue) list"
    using that by (auto intro!: map_idI [symmetric])
  have "set (map fst (p_All p)) = set (map fst (p_All q))"
    using assms(3) unfolding p_view_def by (metis dom_map_of_conv_image_fst list.set_map)
  moreover have "sorted (map fst (p_All p))" "sorted (map fst (p_All q))"
    using assms(1,2) by (simp_all add: p_inv_def p_All_def o_def strict_sorted_iff)
  ultimately have "map fst (p_All p) = map fst (p_All q)"
    using p_distinct [OF assms(1)] p_distinct [OF assms(2)] by (intro sorted_distinct_set_unique)
  then have "p_All p = p_All q" using r [OF p_distinct [OF assms(1)]] r [OF p_distinct [OF assms(2)]] assms(3) by (simp add: p_view_def)
  moreover have "entries t = map (\<lambda>(k, v). new_entry k v) (p_All t)" if "p_inv t" for t
    using that by (auto simp: p_inv_def p_All_def new_entry_def list_all_iff intro!: map_idI [symmetric])
  ultimately show ?thesis using assms(1,2) by (metis (full_types) Properties.equality unit.exhaust)
qed

lemma run_walk_facts:
  assumes "run_walk m = Inr x"
  shows "charges m R \<Longrightarrow> \<exists>e b. R {} x e b \<and> e \<le> maxValueElements \<and> b \<le> maxValueBytes" "yields m y \<Longrightarrow> x = y"
proof -
  obtain w where w: "run_state m newValueWalk = (Inr x, w)"
    using assms by (cases "run_state m newValueWalk") (simp add: run_walk_def)
  then show "yields m y \<Longrightarrow> x = y" unfolding yields_def by blast
  assume "charges m R"
  with w show "\<exists>e b. R {} x e b \<and> e \<le> maxValueElements \<and> b \<le> maxValueBytes"
    unfolding charges_def
    by (intro exI [of _ "elements w"] exI [of _ "wbytes w"])
      (auto simp: maxValueElements_def maxValueBytes_def dest!: spec [of _ newValueWalk])
qed

lemma run_walk_accepts: "accepts m x e b \<Longrightarrow> e \<le> maxValueElements \<Longrightarrow> b \<le> maxValueBytes \<Longrightarrow> run_walk m = Inr x"
  by (auto simp: accepts_def run_walk_def newValueWalk_def dest!: spec [of _ newValueWalk])

lemma charges_properties:
  assumes "\<And>k x. (k, x) \<in> set l \<Longrightarrow> go_ok x"
  shows "charges (properties_loop norm_property l) (\<lambda>A ys e b. all_entries utf8_string (is_norm 0) ys \<and>
    e = sum_list (map (\<lambda>(k, v). velems v) ys) \<and> b = sum_list (map (\<lambda>(k, v). int (length k) + vbytes v) ys))"
  using assms
proof (induction l)
  case (Cons kx l)
  obtain k x where kx: "kx = (k, x)" by (metis prod.exhaust)
  let ?R = "\<lambda>ys e b. all_entries utf8_string (is_norm 0) ys \<and>
    e = sum_list (map (\<lambda>(k, v). velems v) ys) \<and> b = sum_list (map (\<lambda>(k, v). int (length k) + vbytes v) ys)"
  have "charges (properties_loop norm_property l) (\<lambda>A ys e b. ?R ys e b)" using Cons by auto
  then have 1: "charges (wbind (properties_loop norm_property l) (\<lambda>ys. wret ((k, y) # ys))) (\<lambda>A zs e b. \<exists>ys. zs = (k, y) # ys \<and> ?R ys e b)" for y
    by (rule charges_map) auto
  have "charges (normalizeValue 0 x) (normalizes 0 x)" using Cons.prems [of k x] by (intro normalize_charges) (simp add: kx)
  then have "charges (wbind (walk_addBytes (int (length k))) (\<lambda>_. normalizeValue 0 x))
      (\<lambda>A y e b. is_norm 0 y \<and> e = velems y \<and> b = int (length k) + vbytes y)"
    by (rule charges_bind [OF charges_addBytes]) auto
  then have "charges (norm_property k x) (\<lambda>A y e b. utf8_string k \<and> is_norm 0 y \<and> e = velems y \<and> b = int (length k) + vbytes y)"
    by (simp add: norm_property_def charges_wfail)
  then show ?case unfolding kx properties_loop.simps by (rule charges_bind [OF _ 1]) (auto simp: all_entries_def)
qed (simp add: charges_wret all_entries_def)

lemma yields_properties:
  "(\<And>k x. (k, x) \<in> set l \<Longrightarrow> yields (body k x) (f x)) \<Longrightarrow> yields (properties_loop body l) (map_values f l)"
  by (induction body l rule: properties_loop.induct) (auto simp: map_values_def intro!: yields_bind)

lemma yields_norm_property: "yields (norm_property k x) (norm_of x)"
  unfolding norm_property_def using normalize_yields by (auto intro!: yields_if yields_then)

lemma accepts_properties:
  assumes "\<And>k x. (k, x) \<in> set l \<Longrightarrow> accepts (body k (f x)) (g x) (velems x) (int (length k) + vbytes x)"
  shows "accepts (properties_loop body (map_values f l)) (map_values g l) (sum_list (map (\<lambda>(k, v). velems v) l))
    (sum_list (map (\<lambda>(k, v). int (length k) + vbytes v) l))"
  using assms
proof (induction l)
  case (Cons kx l)
  obtain k x where kx: "kx = (k, x)" by (metis prod.exhaust)
  have "accepts (wbind (body k (f x)) (\<lambda>y. wbind (properties_loop body (map_values f l)) (\<lambda>ys. wret ((k, y) # ys)))) ((k, g x) # map_values g l)
      (velems x + (sum_list (map (\<lambda>(k, v). velems v) l) + 0))
      (int (length k) + vbytes x + (sum_list (map (\<lambda>(k, v). int (length k) + vbytes v) l) + 0))"
    using Cons by (intro accepts_bind) (auto simp: accepts_prims kx)
  then show ?case unfolding kx by (simp add: map_values_def)
qed (simp add: accepts_prims map_values_def)

lemma accepts_property:
  assumes "utf8_string k" "is_norm 0 x"
  shows "accepts (norm_property k x) x (velems x) (int (length k) + vbytes x)"
    "accepts (encode_property k x) (persist x) (velems x) (int (length k) + vbytes x)"
    "accepts (decode_property k (persist x)) x (velems x) (int (length k) + vbytes x)"
proof -
  note n = normalize_accepts [OF assms(2)]
  have "accepts (wbind (walk_addBytes (int (length k))) (\<lambda>_. normalizeValue 0 x)) x (0 + velems x) (int (length k) + vbytes x)"
    using n by (intro accepts_bind) (auto simp: accepts_prims)
  then show 1: "accepts (norm_property k x) x (velems x) (int (length k) + vbytes x)" using assms(1) by (simp add: norm_property_def)
  have "accepts (encode_property k x) (persist x) (velems x + 0) (int (length k) + vbytes x + 0)"
    unfolding encode_property_def using assms(2)
    by (intro accepts_bind [OF 1]) (simp add: encodeValue_def encode_norm wlift_def accepts_prims)
  then show "accepts (encode_property k x) (persist x) (velems x) (int (length k) + vbytes x)" by simp
  have "accepts (wbind (walk_addBytes (int (length k))) (\<lambda>_. wbind (wlift (decodeValue (persist x))) (\<lambda>decoded. normalizeValue 0 decoded)))
      x (0 + (0 + velems x)) (int (length k) + (0 + vbytes x))"
    using n by (intro accepts_bind) (auto simp: accepts_prims wlift_def decode_persist [OF assms(2)])
  then show "accepts (decode_property k (persist x)) x (velems x) (int (length k) + vbytes x)"
    using assms(1) by (simp add: decode_property_def)
qed

lemma storage_loop:
  "NormalizePropertyStorage m = (if m = [] then Inr empty_properties else
     run_walk (wbind (walk_add (length m)) (\<lambda>_. wbind (properties_loop norm_property m) (\<lambda>l. wret (of_entries l)))))"
  "decodePropertyStorage pm = run_walk (wbind (walk_add (length pm)) (\<lambda>_.
     wbind (properties_loop decode_property pm) (\<lambda>l. wret (of_entries l))))"
  by (simp_all add: NormalizePropertyStorage_def decodePropertyStorage_def of_entries_def InternString_def)

lemma normalized_storage:
  assumes "all_entries (\<lambda>_. True) go_ok m" "distinct (map fst m)" "NormalizePropertyStorage m = Inr p"
  shows "p = of_entries (map_values norm_of m) \<and> admissible (map_values norm_of m)"
proof (cases "m = []")
  case True
  with assms(3) show ?thesis
    by (auto simp: NormalizePropertyStorage_def empty_properties_def of_entries_def sort_properties_def map_values_def
        admissible_def all_entries_def maxValueElements_def maxValueBytes_def)
next
  case False
  let ?loop = "wbind (walk_add (length m)) (\<lambda>_. wbind (properties_loop norm_property m) (\<lambda>l. wret (of_entries l)))"
  have r: "run_walk ?loop = Inr p" using assms(3) False by (simp add: storage_loop)
  have y: "yields (properties_loop norm_property m) (map_values norm_of m)"
    by (rule yields_properties [OF yields_norm_property])
  have "yields ?loop (of_entries (map_values norm_of m))"
    by (rule yields_then [OF yields_bind [OF y]]) simp
  from run_walk_facts(2) [OF r this] have p: "p = of_entries (map_values norm_of m)" .
  let ?R = "\<lambda>A ys e b. ys = map_values norm_of m \<and> all_entries utf8_string (is_norm 0) ys \<and>
    e = sum_list (map (\<lambda>(k, v). velems v) ys) \<and> b = sum_list (map (\<lambda>(k, v). int (length k) + vbytes v) ys)"
  have "charges (properties_loop norm_property m) ?R"
    using charges_properties [of m] y assms(1) unfolding charges_def yields_def all_entries_def list_all_iff by fastforce
  then have "charges (wbind (properties_loop norm_property m) (\<lambda>l. wret (of_entries l))) (\<lambda>A q e b. \<exists>ys. ?R A ys e b)"
    by (rule charges_map) auto
  then have "charges ?loop (\<lambda>A q e b. \<exists>ys. ?R A ys (e - int (length m)) b)"
    by (rule charges_bind [OF charges_add]) auto
  from run_walk_facts(1) [OF r this] show ?thesis
    using p assms(2) by (auto simp: admissible_def)
qed

definition canon_properties :: "Properties \<Rightarrow> Properties" where
  "canon_properties p = of_entries (map_values canon_g (p_All p))"

lemma sums_mset: "mset l = mset l' \<Longrightarrow> sum_list (map f l) = sum_list (map f l')" for f :: "_ \<Rightarrow> int"
  by (metis mset_map sum_mset_sum_list)

lemma admissible_perm:
  assumes "admissible l" "mset l' = mset l"
  shows "admissible l'" "of_entries l' = of_entries l"
proof -
  have d: "distinct (map fst l)" "distinct (map fst l')"
    using assms unfolding admissible_def by (metis mset_eq_imp_distinct_iff mset_map)+
  have s: "set l' = set l" "length l' = length l" using assms(2) by (metis mset_eq_setD mset_eq_length)+
  then show "admissible l'"
    using assms(1) d sums_mset [OF assms(2)] by (simp add: admissible_def all_entries_def list_all_iff)
  have "map_of l' = map_of l" using d s by (simp add: map_of_inject_set)
  then show "of_entries l' = of_entries l" using d by (intro entries_ext) (simp_all add: of_entries_inv of_entries_view)
qed

lemma decode_storage_list:
  assumes "admissible l"
  shows "decodePropertyStorage (map_values persist l) = Inr (of_entries l)"
proof -
  have "accepts (properties_loop decode_property (map_values persist l)) (map_values (\<lambda>x. x) l) (sum_list (map (\<lambda>(k, v). velems v) l))
      (sum_list (map (\<lambda>(k, v). int (length k) + vbytes v) l))"
    using assms by (intro accepts_properties accepts_property) (auto simp: admissible_def all_entries_def list_all_iff)
  then have "accepts (wbind (walk_add (length (map_values persist l))) (\<lambda>_.
      wbind (properties_loop decode_property (map_values persist l)) (\<lambda>l. wret (of_entries l)))) (of_entries l)
      (int (length (map_values persist l)) + (sum_list (map (\<lambda>(k, v). velems v) l) + 0)) (0 + (sum_list (map (\<lambda>(k, v). int (length k) + vbytes v) l) + 0))"
    by (intro accepts_bind) (auto simp: accepts_prims map_values_id)
  from run_walk_accepts [OF this] show ?thesis unfolding storage_loop using assms by (simp add: admissible_def)
qed

lemma decode_storage:
  assumes "admissible l" "mset pm = mset (map_values persist l)"
  shows "decodePropertyStorage pm = Inr (of_entries l)"
proof -
  have x: "decodeValue (persist x) = Inr x" if "(k, x) \<in> set l" for k x
    using assms(1) that by (auto simp: admissible_def all_entries_def list_all_iff intro!: decode_persist)
  define l' where "l' = map_values (\<lambda>v. projr (decodeValue v)) pm"
  have "mset l' = mset (map_values (\<lambda>v. projr (decodeValue v)) (map_values persist l))"
    unfolding l'_def map_values_def using assms(2) by (simp only: mset_map map_values_def)
  also have "map_values (\<lambda>v. projr (decodeValue v)) (map_values persist l) = map_values (\<lambda>v. v) l"
    unfolding map_values_comp by (rule map_values_cong) (auto simp: x)
  finally have l': "mset l' = mset l" by (simp add: map_values_id)
  have "set pm = set (map_values persist l)" using assms(2) by (rule mset_eq_setD)
  then have "map_values persist l' = map_values (\<lambda>v. v) pm"
    unfolding l'_def map_values_comp by (intro map_values_cong) (auto simp: map_values_def x)
  then have "pm = map_values persist l'" by (simp add: map_values_id)
  then show ?thesis using decode_storage_list [OF admissible_perm(1) [OF assms(1) l']] admissible_perm(2) [OF assms(1) l'] by simp
qed

lemma encode_storage:
  assumes "p_inv p" "admissible (p_All p)"
  shows "encodePropertyStorage p = Inr (map_values persist (p_All p))"
proof -
  have "accepts (properties_loop encode_property (map_values (\<lambda>x. x) (p_All p))) (map_values persist (p_All p)) (sum_list (map (\<lambda>(k, v). velems v) (p_All p)))
      (sum_list (map (\<lambda>(k, v). int (length k) + vbytes v) (p_All p)))"
    using assms by (intro accepts_properties accepts_property) (auto simp: admissible_def all_entries_def list_all_iff)
  then have a: "accepts (wbind (walk_add (length (p_All p))) (\<lambda>_. properties_loop encode_property (p_All p))) (map_values persist (p_All p))
      (int (length (p_All p)) + sum_list (map (\<lambda>(k, v). velems v) (p_All p))) (0 + sum_list (map (\<lambda>(k, v). int (length k) + vbytes v) (p_All p)))"
    by (intro accepts_bind) (auto simp: accepts_prims map_values_id)
  have "length (entries p) = length (p_All p)" by (simp add: p_All_def)
  with run_walk_accepts [OF a] show ?thesis unfolding encodePropertyStorage_def using assms(2) by (simp add: admissible_def)
qed

lemma of_p_All: "p_inv p \<Longrightarrow> of_entries (p_All p) = p"
  using p_distinct [of p] by (intro entries_ext) (simp_all add: of_entries_inv of_entries_view p_view_def [symmetric])

lemma admissible_canon: "admissible l \<Longrightarrow> admissible (map_values canon_g l)"
proof -
  have s: "sum_list (map (\<lambda>(k, v). f k v) (map_values canon_g l)) = sum_list (map (\<lambda>(k, v). f k v) l)"
    if "\<And>k v. f k (canon_g v) = f k v" for f :: "string \<Rightarrow> gvalue \<Rightarrow> int"
    by (simp add: map_values_def o_def case_prod_unfold that)
  show "admissible l \<Longrightarrow> admissible (map_values canon_g l)"
    using s [of "\<lambda>k v. velems v"] s [of "\<lambda>k v. int (length k) + vbytes v"]
    by (auto simp: admissible_def canon_velems canon_vbytes) (auto simp: all_entries_def list_all_iff intro: canon_norm)
qed

lemma admissible_wf: "admissible l \<Longrightarrow> wf_props (wf_value 0) (Some (map_values persist l))"
proof -
  assume l: "admissible l"
  have "wf_value 0 (persist x) \<and> wf_str k" if "(k, x) \<in> set l" for k x
    using l that velems_member(2) [OF that, of None] vbytes_member(2) [OF that, of None] vbytes_nonneg [of x]
    by (auto simp: admissible_def all_entries_def list_all_iff wf_str_def maxValueBytes_def intro!: persist_wf)
  moreover have "length l < 2 ^ 48" using l length_le_velems(2) [of l None] by (auto simp: admissible_def maxValueElements_def)
  ultimately show ?thesis using l
    by (auto simp: wf_props_def wf_opt_def list_all_iff admissible_def map_values_def o_def case_prod_unfold)
qed

section \<open>Properties\<close>

lemma decode_canon_storage:
  assumes "p_inv p" and adm: "admissible (p_All p)"
  shows "decodePropertyStorage (the (canon_props canon_value (Some (map_values persist (p_All p))))) = Inr (canon_properties p)"
proof -
  let ?pm = "map_values persist (p_All p)"
  have "persist (canon_g x) = canon_value (persist x)" if "(k, x) \<in> set (p_All p)" for k x
    using adm that by (auto simp: admissible_def all_entries_def list_all_iff intro!: persist_canon)
  then have "map_values persist (map_values canon_g (sort_entries (p_All p))) = map_values canon_value (map_values persist (sort_entries (p_All p)))"
    unfolding map_values_comp by (intro map_values_cong) auto
  then have "the (canon_props canon_value (Some ?pm)) = map_values persist (map_values canon_g (sort_entries (p_All p)))"
    by (simp add: canon_props_values)
  moreover have "mset (map_values persist (map_values canon_g (sort_entries (p_All p)))) = mset (map_values persist (map_values canon_g (p_All p)))"
    unfolding map_values_def by (simp only: mset_map) (simp add: sort_entries_def)
  ultimately show ?thesis
    unfolding canon_properties_def by (intro decode_storage [OF admissible_canon [OF adm]]) simp
qed

text \<open>
  C19: Property maps survive storage. When a property map is accepted, the stored list answers every key with the
  normal form of the given value and with nothing else; it can be converted to its persisted map, which the binary
  format can carry; and decoding that map, in whatever order its entries are iterated, gives the same list, while
  decoding what the binary format returns for it gives the list with nested map entries in key order.
\<close>

theorem property_storage_roundtrip:
  assumes "all_entries (\<lambda>_. True) go_ok m" "distinct (map fst m)" "NormalizePropertyStorage m = Inr p"
  shows "(\<forall>key. p_Lookup p key = (case map_of m key of None \<Rightarrow> (GNil, False) | Some v \<Rightarrow> (norm_of v, True))) \<and>
    (\<exists>pm. encodePropertyStorage p = Inr pm \<and> wf_props (wf_value 0) (Some pm) \<and>
      (\<forall>pm'. mset pm' = mset pm \<longrightarrow> decodePropertyStorage pm' = Inr p) \<and>
      decodePropertyStorage (the (canon_props canon_value (Some pm))) = Inr (canon_properties p))"
proof -
  define l where "l = map_values norm_of m"
  have l: "p = of_entries l" "admissible l" using normalized_storage [OF assms] by (simp_all add: l_def)
  have d: "distinct (map fst l)" using assms(2) by (simp add: l_def)
  have inv: "p_inv p" "p_view p = map_of l" using l(1) d by (simp_all add: of_entries_inv of_entries_view)
  have "map_of l = (\<lambda>key. map_option norm_of (map_of m key))" by (simp add: l_def map_values_def map_of_map o_def)
  then have 1: "p_Lookup p key = (case map_of m key of None \<Rightarrow> (GNil, False) | Some v \<Rightarrow> (norm_of v, True))" for key
    using inv by (simp add: p_lookup_view split: option.splits)
  have "mset (p_All p) = mset l" unfolding l(1) p_All_of_entries by (simp add: sort_entries_def)
  from admissible_perm(1) [OF l(2) this] have adm: "admissible (p_All p)" .
  let ?pm = "map_values persist (p_All p)"
  have 2: "decodePropertyStorage (the (canon_props canon_value (Some ?pm))) = Inr (canon_properties p)"
    by (rule decode_canon_storage [OF inv(1) adm])
  have 3: "decodePropertyStorage pm' = Inr p" if "mset pm' = mset ?pm" for pm'
    using decode_storage [OF adm that] of_p_All [OF inv(1)] by simp
  show ?thesis using 1 2 3 encode_storage [OF inv(1) adm] admissible_wf [OF adm] by blast
qed

theorem property_storage_roundtrip_witness:
  "\<exists>p. NormalizePropertyStorage [(''b'', GUint 3), (''a'', GString ''x'')] = Inr p \<and> p_Lookup p ''b'' = (GInt64 3, True) \<and>
     p_Lookup p ''c'' = (GNil, False) \<and>
     (\<exists>pm. encodePropertyStorage p = Inr pm \<and> decodePropertyStorage pm = Inr p)"
proof -
  let ?m = "[(''b'', GUint 3), (''a'', GString ''x'')]"
  obtain p where p: "NormalizePropertyStorage ?m = Inr p"
    by (simp add: NormalizePropertyStorage_def run_walk_def norm_property_def walk_eval)
  have m: "all_entries (\<lambda>_. True) go_ok ?m" "distinct (map fst ?m)" by (simp_all add: all_entries_def)
  from property_storage_roundtrip [OF m p] p show ?thesis by fastforce
qed

text \<open>Runs of \<^verbatim>\<open>Set\<close> and \<^verbatim>\<open>Delete\<close> on an empty property list; \<open>None\<close> deletes.\<close>

definition p_step :: "string \<times> gvalue option \<Rightarrow> Properties \<Rightarrow> Properties" where
  "p_step op p = (case op of (key, None) \<Rightarrow> p_Delete key p | (key, Some v) \<Rightarrow> p_Set key v p)"

definition p_run :: "(string \<times> gvalue option) list \<Rightarrow> Properties" where
  "p_run ops = fold p_step ops empty_properties"

definition p_meaning :: "(string \<times> gvalue option) list \<Rightarrow> string \<Rightarrow> gvalue option" where
  "p_meaning ops = fold (\<lambda>(key, v) f. f(key := v)) ops (\<lambda>_. None)"

lemma p_step_write: "p_step = props.apply_write"
  by (intro ext) (auto simp: p_step_def split: option.splits)

lemma p_run_laws: "p_inv (p_run ops)" "p_view (p_run ops) = p_meaning ops"
  using props.writes_law [OF props.inv_empty, of ops]
  by (simp_all add: p_run_def p_step_write p_meaning_def p_empty case_prod_unfold)

text \<open>
  C26: Whatever keys are set and deleted, in whatever order, a property list refines the map those calls describe,
  on the linear path of up to eight entries and on the binary-search path beyond it: every lookup answers that
  map, the length counts its keys, and the entries stay strictly sorted by key.
\<close>

theorem properties_refine:
  "p_Lookup (p_run ops) key = (case p_meaning ops key of None \<Rightarrow> (GNil, False) | Some v \<Rightarrow> (v, True)) \<and>
   p_Len (p_run ops) = int (card (dom (p_meaning ops))) \<and>
   map_of (p_All (p_run ops)) = p_meaning ops \<and> sorted_wrt (<) (map fst (p_All (p_run ops)))"
proof -
  have "sorted_wrt (<) (map fst (p_All (p_run ops)))"
    using p_run_laws(1) [of ops] by (simp add: p_inv_def p_All_def o_def)
  then show ?thesis
    using props.len_view [OF p_run_laws(1), of ops] p_run_laws(2) [of ops]
    by (simp add: p_lookup_view [OF p_run_laws(1)] p_All_view)
qed

lemma first_vector_scan: "list_all (\<lambda>e. evalue e = typedPropertyValue (raw (evalue e))) es \<Longrightarrow>
    first_vector_loop es = (case find (\<lambda>v. \<exists>xs. v = GVector (Some xs)) (map (raw \<circ> evalue) es) of
      Some (GVector xs) \<Rightarrow> Inr (xs, True) | _ \<Rightarrow> Inr (None, False))"
proof (induction es)
  case (Cons e es)
  define v where "v = raw (evalue e)"
  have k: "kind (evalue e) = kind (typedPropertyValue v)" using Cons.prems unfolding v_def by (simp only: list.pred_inject)
  show ?case using Cons v_def [symmetric]
    by (cases v) (auto simp: k typedPropertyValue_def assert_vector_def split: option.splits)
qed simp

text \<open>
  The cached kind of a property never disagrees with its value: on every list built by \<^verbatim>\<open>Set\<close> and \<^verbatim>\<open>Delete\<close> the
  type assertions of \<^verbatim>\<open>Vector\<close> and \<^verbatim>\<open>FirstVector\<close> do not panic; \<^verbatim>\<open>Vector\<close> returns exactly the vector stored
  under the key, and \<^verbatim>\<open>FirstVector\<close> the first one, in key order, that is not nil.
\<close>

theorem properties_vector_no_panic:
  "p_Vector (p_run ops) key = Inr (case p_meaning ops key of Some (GVector xs) \<Rightarrow> (xs, True) | _ \<Rightarrow> (None, False)) \<and>
   p_FirstVector (p_run ops) = (case find (\<lambda>v. \<exists>xs. v = GVector (Some xs)) (map snd (p_All (p_run ops))) of
      Some (GVector xs) \<Rightarrow> Inr (xs, True) | _ \<Rightarrow> Inr (None, False))"
proof
  define p where "p = p_run ops"
  have p: "p_inv p" "p_view p key = p_meaning ops key" by (simp_all add: p_def p_run_laws)
  have "p_Vector p key = Inr (case p_view p key of Some (GVector xs) \<Rightarrow> (xs, True) | _ \<Rightarrow> (None, False))"
    using p(1)
  proof (cases rule: find_split [of _ key])
    case (found pre x post)
    then have "p_view p key = Some (raw (evalue x))"
      using p_lookup_view [OF p(1), of key] by (auto simp: p_Lookup_def split: option.splits)
    moreover have "kind (evalue x) = kind (typedPropertyValue (raw (evalue x)))"
      using p(1) found(1) by (simp add: p_inv_def)
    ultimately show ?thesis using found
      by (cases "raw (evalue x)") (auto simp: p_Vector_def assert_vector_def typedPropertyValue_def)
  next
    case (absent pre post)
    then have "p_view p key = None" using p_lookup_view [OF p(1), of key] by (auto simp: p_Lookup_def split: option.splits)
    with absent show ?thesis by (simp add: p_Vector_def)
  qed
  then show "p_Vector (p_run ops) key = Inr (case p_meaning ops key of Some (GVector xs) \<Rightarrow> (xs, True) | _ \<Rightarrow> (None, False))"
    using p(2) by (simp add: p_def)
  show "p_FirstVector (p_run ops) = (case find (\<lambda>v. \<exists>xs. v = GVector (Some xs)) (map snd (p_All (p_run ops))) of
      Some (GVector xs) \<Rightarrow> Inr (xs, True) | _ \<Rightarrow> Inr (None, False))"
    using p(1) first_vector_scan [of "entries p"] by (simp add: p_FirstVector_def p_inv_def p_def p_All_def o_def)
qed

end
