(* ===== verification/HashBuckets.thy ===== *)
theory HashBuckets
  imports KeyTable
begin

text \<open>
  Tables keyed by strings or other keys and stored as Go maps inside a table keyed by 64-bit hashes, as application metadata and
  the label and type postings are. The contract of the outer table is \<open>key_table\<close>; whatever the hash function, the
  buckets together behave as one map, because each bucket tells its keys apart.
\<close>

type_synonym ('k, 'w) key_bucket = "('k \<times> 'w) list"
type_synonym 'w bucket = "(string, 'w) key_bucket"

definition bucket_lookup :: "('t \<Rightarrow> u64 \<Rightarrow> ('k, 'w) key_bucket option) \<Rightarrow> ('k \<Rightarrow> u64) \<Rightarrow> 't \<Rightarrow> 'k \<Rightarrow> 'w option" where
  "bucket_lookup get h t key = (case get t (h key) of None \<Rightarrow> None | Some b \<Rightarrow> map_of b key)"

definition bucket_ok :: "('k \<Rightarrow> u64) \<Rightarrow> u64 \<Rightarrow> ('k, 'w) key_bucket option \<Rightarrow> bool" where
  "bucket_ok h i v \<longleftrightarrow> (case v of None \<Rightarrow> False | Some b \<Rightarrow> distinct (map fst b) \<and> fst ` set b \<subseteq> h -` {i})"

locale hash_buckets = key_table None empty_t get_t has_t set_t delete_t len_t all_t view inv
  for empty_t :: 't and get_t has_t set_t delete_t len_t all_t
    and view :: "'t \<Rightarrow> u64 \<Rightarrow> ('k, 'w) key_bucket option option" and inv +
  fixes h :: "'k \<Rightarrow> u64"
begin

abbreviation lookup :: "'t \<Rightarrow> 'k \<Rightarrow> 'w option" where
  "lookup \<equiv> bucket_lookup get_t h"

definition buckets_ok :: "'t \<Rightarrow> bool" where
  "buckets_ok t \<longleftrightarrow> inv t \<and> (\<forall>i v. view t i = Some v \<longrightarrow> bucket_ok h i v)"

definition bucket_of :: "'t \<Rightarrow> u64 \<Rightarrow> ('k, 'w) key_bucket" where
  "bucket_of t i = (case get_t t i of None \<Rightarrow> [] | Some b \<Rightarrow> b)"

lemma empty_buckets: "buckets_ok empty_t" "lookup empty_t = (\<lambda>_. None)"
  by (auto simp: buckets_ok_def inv_empty view_empty bucket_lookup_def get_view fun_eq_iff)

lemma bucket_of_ok: "buckets_ok t \<Longrightarrow> bucket_ok h i (Some (bucket_of t i))"
  unfolding buckets_ok_def bucket_of_def by (auto simp: get_view bucket_ok_def split: option.splits)

lemma lookup_bucket: "lookup t key = map_of (bucket_of t (h key)) key"
  by (simp add: bucket_lookup_def bucket_of_def split: option.splits)

lemma bucket_of_set: "inv t \<Longrightarrow> bucket_of (set_t i (Some b) t) j = (if j = i then b else bucket_of t j)"
  by (simp add: bucket_of_def get_after_set)

lemma bucket_of_delete: "inv t \<Longrightarrow> bucket_of (delete_t i t) j = (if j = i then [] else bucket_of t j)"
  by (simp add: bucket_of_def get_after_delete)

lemma store_bucket_ok: "buckets_ok t \<Longrightarrow> bucket_ok h i (Some b) \<Longrightarrow> buckets_ok (set_t i (Some b) t)"
  by (auto simp: buckets_ok_def inv_set view_set)

lemma drop_bucket_ok: "buckets_ok t \<Longrightarrow> buckets_ok (delete_t i t)"
  by (auto simp: buckets_ok_def inv_delete view_delete)

lemma put_law:
  assumes "buckets_ok t"
  shows "buckets_ok (set_t (h key) (Some (AList.update key w (bucket_of t (h key)))) t)"
    "lookup (set_t (h key) (Some (AList.update key w (bucket_of t (h key)))) t) = (lookup t)(key \<mapsto> w)"
proof -
  have inv: "inv t" using assms by (simp add: buckets_ok_def)
  have k: "fst ` set (AList.update key w b) = insert key (fst ` set b)" for b by (induction b) auto
  have "bucket_ok h (h key) (Some (AList.update key w (bucket_of t (h key))))"
    using bucket_of_ok [OF assms, of "h key"] by (simp add: bucket_ok_def k distinct_update)
  then show "buckets_ok (set_t (h key) (Some (AList.update key w (bucket_of t (h key)))) t)" using assms by (rule store_bucket_ok [rotated])
  show "lookup (set_t (h key) (Some (AList.update key w (bucket_of t (h key)))) t) = (lookup t)(key \<mapsto> w)"
    using inv by (intro ext) (simp add: lookup_bucket bucket_of_set update_conv)
qed

text \<open>Removing a key, with the bucket dropped when it was the last one and stored otherwise.\<close>

lemma cut_law:
  fixes key :: 'k
  assumes "buckets_ok t"
  defines "b \<equiv> AList.delete key (bucket_of t (h key))"
  shows "buckets_ok (if b = [] then delete_t (h key) t else set_t (h key) (Some b) t)"
    "lookup (if b = [] then delete_t (h key) t else set_t (h key) (Some b) t) = (lookup t)(key := None)"
proof -
  have inv: "inv t" using assms(1) by (simp add: buckets_ok_def)
  have "set b \<subseteq> set (bucket_of t (h key))" unfolding b_def by (rule set_delete)
  then have "bucket_ok h (h key) (Some b)"
    using bucket_of_ok [OF assms(1), of "h key"] by (auto simp: bucket_ok_def b_def distinct_delete)
  then show "buckets_ok (if b = [] then delete_t (h key) t else set_t (h key) (Some b) t)"
    using assms(1) by (simp add: drop_bucket_ok store_bucket_ok)
  have m: "map_of b k = (if k = key then None else map_of (bucket_of t (h key)) k)" for k
    by (simp add: b_def delete_conv')
  show "lookup (if b = [] then delete_t (h key) t else set_t (h key) (Some b) t) = (lookup t)(key := None)"
  proof
    fix k
    have "map_of b k = None" if "b = []" using that by simp
    then show "lookup (if b = [] then delete_t (h key) t else set_t (h key) (Some b) t) k = ((lookup t)(key := None)) k"
      using m [of k] inv by (auto simp: lookup_bucket bucket_of_set bucket_of_delete)
  qed
qed

text \<open>Iteration over all buckets yields every string once.\<close>

lemma all_entries_law:
  assumes "buckets_ok t"
  defines "l \<equiv> concat (map (\<lambda>(i, v). case v of None \<Rightarrow> [] | Some b \<Rightarrow> b) (all_t t))"
  shows "distinct (map fst l)" "map_of l = lookup t"
proof -
  have inv: "inv t" using assms(1) by (simp add: buckets_ok_def)
  let ?b = "\<lambda>v :: ('k, 'w) key_bucket option. case v of None \<Rightarrow> [] | Some b \<Rightarrow> b"
  have ok: "bucket_ok h i v" if "(i, v) \<in> set (all_t t)" for i v
  proof -
    have "map_of (all_t t) i = Some v" using all_distinct [OF inv] that by simp
    then have "view t i = Some v" by (simp add: all_view [OF inv])
    with assms(1) show ?thesis by (simp add: buckets_ok_def)
  qed
  have "distinct (map fst (concat (map (\<lambda>(i, v). ?b v) xs))) \<and>
      map_of (concat (map (\<lambda>(i, v). ?b v) xs)) key = (case map_of xs (h key) of None \<Rightarrow> None | Some v \<Rightarrow> map_of (?b v) key)"
    if "distinct (map fst xs)" "\<forall>(i, v) \<in> set xs. bucket_ok h i v" for xs key
    using that
  proof (induction xs)
    case (Cons x xs)
    obtain i v where x: "x = (i, v)" by (metis surj_pair)
    have v: "distinct (map fst (?b v))" "fst ` set (?b v) \<subseteq> h -` {i}"
      using Cons.prems(2) by (auto simp: x bucket_ok_def split: option.splits)
    have rest: "h k \<in> fst ` set xs" if k: "k \<in> fst ` set (concat (map (\<lambda>(i, v). ?b v) xs))" for k
    proof -
      from k obtain j u where j: "(j, u) \<in> set xs" "k \<in> fst ` set (?b u)" by auto
      with Cons.prems(2) have "bucket_ok h j u" by auto
      with j(2) have "h k = j" by (auto simp: bucket_ok_def split: option.splits)
      with j(1) show ?thesis by force
    qed
    have "fst ` set (?b v) \<inter> fst ` set (concat (map (\<lambda>(i, v). ?b v) xs)) = {}"
    proof (rule ccontr)
      assume "\<not> ?thesis"
      then obtain k where k: "k \<in> fst ` set (?b v)" "k \<in> fst ` set (concat (map (\<lambda>(i, v). ?b v) xs))" by blast
      then have "h k = i" "h k \<in> fst ` set xs" using v(2) rest [OF k(2)] by auto
      with Cons.prems(1) show False by (simp add: x)
    qed
    moreover have "map_of (?b v) key = None" if "h key \<noteq> i"
    proof -
      from that v(2) have "key \<notin> fst ` set (?b v)" by auto
      then show ?thesis by (simp add: map_of_eq_None_iff)
    qed
    moreover have "map_of xs (h key) = None" if "h key = i" using that Cons.prems(1) by (simp add: x map_of_eq_None_iff)
    moreover have IH: "distinct (map fst (concat (map (\<lambda>(i, v). ?b v) xs)))"
      "map_of (concat (map (\<lambda>(i, v). ?b v) xs)) key = (case map_of xs (h key) of None \<Rightarrow> None | Some v \<Rightarrow> map_of (?b v) key)"
      using Cons by simp_all
    ultimately show ?case using v(1) by (cases "h key = i") (simp_all add: x map_add_def split: option.split)
  qed simp
  from this [OF all_distinct [OF inv]] ok
  have r: "distinct (map fst l) \<and> map_of l key = (case map_of (all_t t) (h key) of None \<Rightarrow> None | Some v \<Rightarrow> map_of (?b v) key)" for key
    unfolding l_def by blast
  show "distinct (map fst l)" using r by blast
  show "map_of l = lookup t"
    by (rule ext) (use r in \<open>simp add: bucket_lookup_def get_view [OF inv] all_view [OF inv] split: option.splits\<close>)
qed

end

end
