(* ===== verification/ShardMap.thy ===== *)
theory ShardMap
  imports KeyTable
begin

unbundle bit_operations_syntax

text \<open>
  The sharded hash table \<^verbatim>\<open>ShardMap[V]\<close> of \<^verbatim>\<open>internal/store/store.go\<close>: 256 buckets of 256 shards, each shard a Go
  map; bit sets record which buckets and shards are in use, and up to two active shards are also listed
  directly. Fixed-size arrays are functions from the word type of their index range, a Go map is an
  association list in the order the runtime happens to iterate it, and \<open>z\<close> is the zero value of the element
  type. \<^verbatim>\<open>Fork\<close> and \<^verbatim>\<open>CloneShardOnce\<close> appear here by their effect on contents and bookkeeping.
\<close>

section \<open>Sets of bytes as four words\<close>

type_synonym bits256 = "2 word \<Rightarrow> u64"

definition no_bits :: bits256 where
  "no_bits = (\<lambda>_. 0)"

definition has_bit :: "bits256 \<Rightarrow> u8 \<Rightarrow> bool" where
  "has_bit a b \<longleftrightarrow> a (ucast (drop_bit 6 b)) AND push_bit (unat (b AND 63)) 1 \<noteq> 0"

definition put_bit :: "bits256 \<Rightarrow> u8 \<Rightarrow> bits256" where
  "put_bit a b = (let w = ucast (drop_bit 6 b) in a(w := a w OR push_bit (unat (b AND 63)) 1))"

definition drop_bits :: "bits256 \<Rightarrow> u8 \<Rightarrow> bits256" where
  "drop_bits a b = (let w = ucast (drop_bit 6 b) in a(w := a w AND NOT (push_bit (unat (b AND 63)) 1)))"

text \<open>\<^verbatim>\<open>for word, x := range a { for x != 0 { b := uint8(word*64 + bits.TrailingZeros64(x)); ...; x &= x - 1 } }\<close>\<close>

definition bits_list :: "bits256 \<Rightarrow> u8 list" where
  "bits_list a = concat (map (\<lambda>w. map (\<lambda>i. word_of_nat (w * 64 + i)) (bit_slots (a (word_of_nat w)))) [0..<4])"

lemma byte_parts:
  fixes b :: u8
  shows "unat (ucast (drop_bit 6 b) :: 2 word) = unat b div 64" "unat (b AND 63) = unat b mod 64"
proof -
  have "unat b < 256" using unsigned_less [of b, where 'a = nat] by simp
  then have "unat b div 64 < 4" by simp
  then show "unat (ucast (drop_bit 6 b) :: 2 word) = unat b div 64" by (simp add: unat_ucast_mod unat_drop_bit_div)
  have "b AND 63 = take_bit 6 b" by (simp add: take_bit_eq_mask mask_eq_exp_minus_1)
  then have "unat (b AND 63) = take_bit 6 (unat b)" by (simp only: unsigned_take_bit_eq)
  then show "unat (b AND 63) = unat b mod 64" by (simp add: take_bit_eq_mod)
qed

lemma has_bit_test: "has_bit a b \<longleftrightarrow> bit (a (ucast (drop_bit 6 b))) (unat b mod 64)"
proof -
  have "w AND push_bit n 1 \<noteq> 0 \<longleftrightarrow> bit w n" if "n < 64" for w :: u64 and n
    by (simp add: and_exp_eq_0_iff_not_bit)
  then show ?thesis by (simp add: has_bit_def byte_parts)
qed

lemma same_byte: "(ucast (drop_bit 6 b) :: 2 word) = ucast (drop_bit 6 c) \<and> unat b mod 64 = unat c mod 64 \<longleftrightarrow> b = c"
  for b c :: u8
proof
  assume "(ucast (drop_bit 6 b) :: 2 word) = ucast (drop_bit 6 c) \<and> unat b mod 64 = unat c mod 64"
  then have "unat b div 64 = unat c div 64" "unat b mod 64 = unat c mod 64" using byte_parts(1) [of b] byte_parts(1) [of c] by auto
  then have "unat b = unat c" by (metis div_mult_mod_eq)
  then show "b = c" by (simp add: word_unat_eq_iff)
qed simp

lemma has_bit_simps [simp]:
  "\<not> has_bit no_bits b" "has_bit (put_bit a b) c \<longleftrightarrow> c = b \<or> has_bit a c" "has_bit (drop_bits a b) c \<longleftrightarrow> c \<noteq> b \<and> has_bit a c"
  using same_byte [of b c]
  by (auto simp: has_bit_test no_bits_def put_bit_def drop_bits_def Let_def byte_parts bit_or_iff bit_and_iff bit_not_iff
      bit_exp_iff fun_upd_def)

lemma bits_list_props: "set (bits_list a) = {b. has_bit a b}" "distinct (bits_list a)"
proof -
  let ?f = "\<lambda>w. map (\<lambda>i. word_of_nat (w * 64 + i) :: u8) (bit_slots (a (word_of_nat w)))"
  have u: "unat (word_of_nat (w * 64 + i) :: u8) = w * 64 + i" if "w < 4" "i < 64" for w i
    using that by (intro unat_word_of_nat_less) simp
  have part: "(ucast (drop_bit 6 (word_of_nat (w * 64 + i) :: u8)) :: 2 word) = word_of_nat w"
    if "w < 4" "i < 64" for w i
    using that by (simp add: word_unat_eq_iff byte_parts u unat_word_of_nat_less del: of_nat_add of_nat_mult)
  show "set (bits_list a) = {b. has_bit a b}"
  proof (intro equalityI subsetI)
    fix b assume "b \<in> set (bits_list a)"
    then obtain w i where w: "w < 4" "i < 64" "bit (a (word_of_nat w)) i" "b = word_of_nat (w * 64 + i)"
      by (auto simp: bits_list_def bit_slots_eq)
    then show "b \<in> {b. has_bit a b}" by (simp add: has_bit_test u part del: of_nat_add of_nat_mult)
  next
    fix b assume "b \<in> {b. has_bit a b}"
    then have t: "bit (a (ucast (drop_bit 6 b))) (unat b mod 64)" by (simp add: has_bit_test)
    have "unat b < 256" using unsigned_less [of b, where 'a = nat] by simp
    then have w: "unat b div 64 < 4" by simp
    then have "(ucast (drop_bit 6 b) :: 2 word) = word_of_nat (unat b div 64)"
      by (simp add: word_unat_eq_iff byte_parts unat_word_of_nat_less)
    with t have "unat b mod 64 \<in> set (bit_slots (a (word_of_nat (unat b div 64))))" by (simp add: bit_slots_eq)
    moreover have "b = word_of_nat (unat b div 64 * 64 + unat b mod 64)" by simp
    ultimately have "b \<in> set (?f (unat b div 64))" unfolding set_map by (rule rev_image_eqI)
    then show "b \<in> set (bits_list a)" using w unfolding bits_list_def set_concat set_map by (intro UN_I [OF imageI]) simp_all
  qed
  have "distinct (map unat (bits_list a))"
  proof -
    have "map unat (bits_list a) = concat (map (\<lambda>w. map (\<lambda>i. w * 64 + i) (bit_slots (a (word_of_nat w)))) [0..<4])"
      unfolding bits_list_def map_concat map_map by (intro arg_cong [of _ _ concat] map_cong) (auto simp: bit_slots_eq u simp del: of_nat_add of_nat_mult)
    moreover have "distinct (concat (map (\<lambda>w. map (\<lambda>i. w * 64 + i) (bit_slots (a (word_of_nat w)))) [0..<4]))"
    proof -
      have u4: "[0..<4] = [0, 1, 2, 3 :: nat]" by (simp add: numeral_eq_Suc)
      show ?thesis unfolding u4 by (simp add: bit_slots_eq distinct_map inj_on_def disjoint_iff) auto
    qed
    ultimately show ?thesis by simp
  qed
  then show "distinct (bits_list a)" by (simp add: distinct_map)
qed

text \<open>\<^verbatim>\<open>a == [shardFanout / 64]uint64{}\<close>\<close>

definition bits_empty :: "bits256 \<Rightarrow> bool" where
  "bits_empty a \<longleftrightarrow> list_all (\<lambda>w. a (word_of_nat w) = 0) [0..<4]"

lemma bit_slots_empty: "bit_slots w = [] \<longleftrightarrow> w = 0"
  by (subst bit_slots.simps) simp

lemma bits_empty_iff: "bits_empty a \<longleftrightarrow> (\<forall>b. \<not> has_bit a b)"
proof -
  have "bits_empty a \<longleftrightarrow> bits_list a = []"
    by (auto simp: bits_empty_def bits_list_def list_all_iff bit_slots_empty)
  also have "\<dots> \<longleftrightarrow> set (bits_list a) = {}" by simp
  finally show ?thesis by (simp add: bits_list_props)
qed

section \<open>The table\<close>

type_synonym 'v gomap = "(u64 \<times> 'v) list"

record 'v shardBucket =
  sb_values :: "u8 \<Rightarrow> 'v gomap option"
  sb_active :: bits256

record 'v ShardMap =
  sm_root :: "(u8 \<Rightarrow> 'v shardBucket option) option"
  sm_length :: int
  sm_clonedBuckets :: bits256
  sm_clonedShards :: "u16 list option"
  sm_activeBuckets :: bits256
  sm_smallActive :: "u16 list"
  sm_smallCount :: u8
  sm_shardShift :: u8

definition empty_bucket :: "'v shardBucket" where
  "empty_bucket = \<lparr>sb_values = (\<lambda>_. None), sb_active = no_bits\<rparr>"

definition zero_shard_map :: "'v ShardMap" where
  "zero_shard_map = \<lparr>sm_root = None, sm_length = 0, sm_clonedBuckets = no_bits, sm_clonedShards = None,
     sm_activeBuckets = no_bits, sm_smallActive = [0, 0], sm_smallCount = 0, sm_shardShift = 0\<rparr>"

definition NewShardMap :: "'v ShardMap" where
  "NewShardMap = zero_shard_map\<lparr>sm_root := Some (\<lambda>_. None)\<rparr>"

definition newPostingShardMap :: "unit ShardMap" where
  "newPostingShardMap = zero_shard_map\<lparr>sm_root := Some (\<lambda>_. None), sm_shardShift := 8\<rparr>"

definition shardIndexes :: "u64 \<Rightarrow> u8 \<times> u8" where
  "shardIndexes ident = (let index = (ucast ident :: u16) in (ucast (drop_bit 8 index), ucast index))"

definition sm_indexes :: "'v ShardMap \<Rightarrow> u64 \<Rightarrow> u8 \<times> u8" where
  "sm_indexes m ident = shardIndexes (drop_bit (unat (sm_shardShift m)) ident)"

text \<open>\<^verbatim>\<open>uint16(bucket)<<8 | uint16(shard)\<close>\<close>

definition shard_index :: "u8 \<times> u8 \<Rightarrow> u16" where
  "shard_index p = (case p of (bucket, shard) \<Rightarrow> push_bit 8 (ucast bucket) OR ucast shard)"

definition bucketAt :: "'v ShardMap \<Rightarrow> u8 \<Rightarrow> 'v shardBucket option" where
  "bucketAt m bucket = (case sm_root m of None \<Rightarrow> None | Some root \<Rightarrow> root bucket)"

definition sm_Get :: "'v \<Rightarrow> 'v ShardMap \<Rightarrow> u64 \<Rightarrow> 'v" where
  "sm_Get z m ident = (case sm_indexes m ident of (bucket, shard) \<Rightarrow>
     (case bucketAt m bucket of
        None \<Rightarrow> z
      | Some bk \<Rightarrow> (case sb_values bk shard of
          None \<Rightarrow> z
        | Some l \<Rightarrow> (case map_of l ident of None \<Rightarrow> z | Some v \<Rightarrow> v))))"

definition sm_Has :: "'v ShardMap \<Rightarrow> u64 \<Rightarrow> bool" where
  "sm_Has m ident = (case sm_indexes m ident of (bucket, shard) \<Rightarrow>
     (case bucketAt m bucket of
        None \<Rightarrow> False
      | Some bk \<Rightarrow> (case sb_values bk shard of None \<Rightarrow> False | Some l \<Rightarrow> map_of l ident \<noteq> None)))"

definition sm_Len :: "'v ShardMap \<Rightarrow> int" where
  "sm_Len m = sm_length m"

text \<open>
  \<^verbatim>\<open>m.root[bucket].values[shard]\<close> as the range expression of \<^verbatim>\<open>All\<close>; a nil bucket, on which the Go code would
  panic, is shown below never to be among the active ones.
\<close>

definition shard_entries :: "'v ShardMap \<Rightarrow> u8 \<times> u8 \<Rightarrow> 'v gomap" where
  "shard_entries m p = (case p of (bucket, shard) \<Rightarrow>
     (case bucketAt m bucket of None \<Rightarrow> [] | Some bk \<Rightarrow> (case sb_values bk shard of None \<Rightarrow> [] | Some l \<Rightarrow> l)))"

definition active_shards :: "'v ShardMap \<Rightarrow> (u8 \<times> u8) list" where
  "active_shards m =
     (if sm_smallCount m \<le> 2
      then map (\<lambda>index. (ucast (drop_bit 8 index), ucast index)) (take (unat (sm_smallCount m)) (sm_smallActive m))
      else concat (map (\<lambda>bucket. map (\<lambda>shard. (bucket, shard))
             (case bucketAt m bucket of None \<Rightarrow> [] | Some item \<Rightarrow> bits_list (sb_active item)))
           (bits_list (sm_activeBuckets m))))"

definition sm_All :: "'v ShardMap \<Rightarrow> 'v gomap" where
  "sm_All m = (case sm_root m of None \<Rightarrow> [] | Some _ \<Rightarrow> concat (map (shard_entries m) (active_shards m)))"

text \<open>The part of \<^verbatim>\<open>Set\<close> that makes root, bucket and shard exist.\<close>

definition ensure_shard :: "u8 \<Rightarrow> u8 \<Rightarrow> 'v ShardMap \<Rightarrow> 'v ShardMap" where
  "ensure_shard bucket shard m =
     (let root = (case sm_root m of None \<Rightarrow> (\<lambda>_. None) | Some r \<Rightarrow> r);
          bk = (case root bucket of None \<Rightarrow> empty_bucket | Some x \<Rightarrow> x);
          m1 = m\<lparr>sm_root := Some (root(bucket \<mapsto> bk)), sm_activeBuckets := put_bit (sm_activeBuckets m) bucket\<rparr>
      in case sb_values bk shard of
           Some _ \<Rightarrow> m1
         | None \<Rightarrow>
             let bk' = bk\<lparr>sb_values := (sb_values bk)(shard \<mapsto> []), sb_active := put_bit (sb_active bk) shard\<rparr>;
                 m2 = m1\<lparr>sm_root := Some (root(bucket \<mapsto> bk'))\<rparr>
             in if sm_smallCount m < 2
                then m2\<lparr>sm_smallActive := (sm_smallActive m)[unat (sm_smallCount m) := shard_index (bucket, shard)],
                       sm_smallCount := sm_smallCount m + 1\<rparr>
                else m2\<lparr>sm_smallCount := 3\<rparr>)"

definition put_shard :: "u8 \<Rightarrow> u8 \<Rightarrow> 'v gomap option \<Rightarrow> 'v ShardMap \<Rightarrow> 'v ShardMap" where
  "put_shard bucket shard l m =
     m\<lparr>sm_root := map_option (\<lambda>root. root(bucket := map_option (\<lambda>bk. bk\<lparr>sb_values := (sb_values bk)(shard := l)\<rparr>) (root bucket))) (sm_root m)\<rparr>"

definition sm_Set :: "u64 \<Rightarrow> 'v \<Rightarrow> 'v ShardMap \<Rightarrow> 'v ShardMap" where
  "sm_Set ident v m = (case sm_indexes m ident of (bucket, shard) \<Rightarrow>
     let m1 = ensure_shard bucket shard m;
         l = shard_entries m1 (bucket, shard);
         m2 = (if map_of l ident = None then m1\<lparr>sm_length := sm_length m1 + 1\<rparr> else m1)
     in put_shard bucket shard (Some (AList.update ident v l)) m2)"

text \<open>
  The part of \<^verbatim>\<open>Delete\<close> that drops an emptied shard: its bookkeeping, its entry in the short list of active
  shards (whose last element takes its place), and the bucket when it was its last shard.
\<close>

definition forget_active :: "u16 \<Rightarrow> 'v ShardMap \<Rightarrow> 'v ShardMap" where
  "forget_active index m =
     (if sm_smallCount m \<le> 2 then
        let n = unat (sm_smallCount m); active = take n (sm_smallActive m) in
        if index \<in> set active then
          let i = length (takeWhile (\<lambda>x. x \<noteq> index) active) in
          m\<lparr>sm_smallCount := sm_smallCount m - 1,
            sm_smallActive := (sm_smallActive m)[i := sm_smallActive m ! (n - 1)]\<rparr>
        else m
      else if sm_length m = 0 then m\<lparr>sm_smallCount := 0\<rparr> else m)"

definition drop_shard :: "u8 \<Rightarrow> u8 \<Rightarrow> 'v ShardMap \<Rightarrow> 'v ShardMap" where
  "drop_shard bucket shard m =
     (let m1 = m\<lparr>sm_clonedShards := map_option (removeAll (shard_index (bucket, shard))) (sm_clonedShards m)\<rparr>;
          root = (case sm_root m of None \<Rightarrow> (\<lambda>_. None) | Some r \<Rightarrow> r);
          bk = (case root bucket of None \<Rightarrow> empty_bucket | Some x \<Rightarrow> x);
          bk' = bk\<lparr>sb_values := (sb_values bk)(shard := None), sb_active := drop_bits (sb_active bk) shard\<rparr>;
          m2 = forget_active (shard_index (bucket, shard)) (m1\<lparr>sm_root := Some (root(bucket \<mapsto> bk'))\<rparr>)
      in if bits_empty (sb_active bk')
         then m2\<lparr>sm_root := Some (root(bucket := None)), sm_activeBuckets := drop_bits (sm_activeBuckets m2) bucket\<rparr>
         else m2)"

definition sm_Delete :: "u64 \<Rightarrow> 'v ShardMap \<Rightarrow> 'v ShardMap" where
  "sm_Delete ident m = (case sm_indexes m ident of (bucket, shard) \<Rightarrow>
     (case bucketAt m bucket of
        None \<Rightarrow> m
      | Some bk \<Rightarrow>
          let l = shard_entries m (bucket, shard) in
          if map_of l ident = None then m
          else
            let m1 = m\<lparr>sm_length := sm_length m - 1\<rparr>; l' = AList.delete ident l in
            if l' = [] then drop_shard bucket shard m1 else put_shard bucket shard (Some l') m1))"

definition sm_Fork :: "'v ShardMap \<Rightarrow> 'v ShardMap" where
  "sm_Fork m = zero_shard_map\<lparr>sm_root := sm_root m, sm_length := sm_length m, sm_activeBuckets := sm_activeBuckets m,
     sm_smallActive := sm_smallActive m, sm_smallCount := sm_smallCount m, sm_shardShift := sm_shardShift m\<rparr>"

definition sm_CloneShardOnce :: "u64 \<Rightarrow> 'v ShardMap \<Rightarrow> 'v ShardMap" where
  "sm_CloneShardOnce ident m = (case sm_indexes m ident of (bucket, shard) \<Rightarrow>
     let index = shard_index (bucket, shard) in
     if (case sm_clonedShards m of None \<Rightarrow> False | Some c \<Rightarrow> index \<in> set c) then m
     else
       let root = (case sm_root m of None \<Rightarrow> (\<lambda>_. None) | Some r \<Rightarrow> r);
           cloned = (case sm_root m of None \<Rightarrow> [] | Some _ \<Rightarrow> (case sm_clonedShards m of None \<Rightarrow> [] | Some c \<Rightarrow> c));
           m1 = m\<lparr>sm_root := Some root, sm_clonedShards := Some (index # cloned)\<rparr>
       in if \<not> has_bit (sm_clonedBuckets m) bucket \<or> root bucket = None
          then m1\<lparr>sm_root := Some (root(bucket \<mapsto> (case root bucket of None \<Rightarrow> empty_bucket | Some bk \<Rightarrow> bk))),
                  sm_clonedBuckets := put_bit (sm_clonedBuckets m) bucket\<rparr>
          else m1)"

section \<open>Abstraction and invariant\<close>

definition shardAt :: "'v ShardMap \<Rightarrow> u8 \<times> u8 \<Rightarrow> 'v gomap option" where
  "shardAt m p = (case bucketAt m (fst p) of None \<Rightarrow> None | Some bk \<Rightarrow> sb_values bk (snd p))"

definition activeAt :: "'v ShardMap \<Rightarrow> u8 \<times> u8 \<Rightarrow> bool" where
  "activeAt m p = (case bucketAt m (fst p) of None \<Rightarrow> False | Some bk \<Rightarrow> has_bit (sb_active bk) (snd p))"

definition sm_view :: "'v ShardMap \<Rightarrow> u64 \<Rightarrow> 'v option" where
  "sm_view m ident = (case shardAt m (sm_indexes m ident) of None \<Rightarrow> None | Some l \<Rightarrow> map_of l ident)"

text \<open>The shards in \<open>X\<close> may be empty maps; in the states between operations there are none.\<close>

definition shards_ok :: "(u8 \<times> u8) set \<Rightarrow> 'v ShardMap \<Rightarrow> bool" where
  "shards_ok X m \<longleftrightarrow> (\<forall>p l. shardAt m p = Some l \<longrightarrow>
     distinct (map fst l) \<and> (\<forall>ident \<in> fst ` set l. sm_indexes m ident = p) \<and> (l = [] \<longrightarrow> p \<in> X))"

definition bits_ok :: "'v ShardMap \<Rightarrow> bool" where
  "bits_ok m \<longleftrightarrow> (\<forall>p. activeAt m p \<longleftrightarrow> shardAt m p \<noteq> None) \<and>
     (\<forall>bucket. has_bit (sm_activeBuckets m) bucket \<longleftrightarrow> (\<exists>shard. shardAt m (bucket, shard) \<noteq> None))"

definition small_ok :: "'v ShardMap \<Rightarrow> bool" where
  "small_ok m \<longleftrightarrow> length (sm_smallActive m) = 2 \<and> sm_smallCount m \<le> 3 \<and>
     (sm_smallCount m \<le> 2 \<longrightarrow> distinct (take (unat (sm_smallCount m)) (sm_smallActive m)) \<and>
        set (take (unat (sm_smallCount m)) (sm_smallActive m)) = shard_index ` {p. shardAt m p \<noteq> None})"

definition sm_inv :: "'v ShardMap \<Rightarrow> bool" where
  "sm_inv m \<longleftrightarrow> shards_ok {} m \<and> bits_ok m \<and> small_ok m \<and> sm_length m = int (card (dom (sm_view m)))"

lemma shards_okD:
  "shards_ok X m \<Longrightarrow> shardAt m p = Some l \<Longrightarrow> distinct (map fst l) \<and> (\<forall>ident \<in> fst ` set l. sm_indexes m ident = p) \<and> (l = [] \<longrightarrow> p \<in> X)"
  unfolding shards_ok_def by blast

lemma bits_okD:
  "bits_ok m \<Longrightarrow> activeAt m p \<longleftrightarrow> shardAt m p \<noteq> None"
  "bits_ok m \<Longrightarrow> has_bit (sm_activeBuckets m) bucket \<longleftrightarrow> (\<exists>shard. shardAt m (bucket, shard) \<noteq> None)"
  unfolding bits_ok_def by blast+

lemma shard_index_inverse:
  "(ucast (drop_bit 8 (shard_index (b, s))) :: u8) = b" "(ucast (shard_index (b, s)) :: u8) = s"
  "shard_index (ucast (drop_bit 8 i), ucast i) = i"
  by (auto intro!: bit_word_eqI simp: shard_index_def bit_simps) (auto dest: bit_imp_le_length)

lemma inj_shard_index: "inj shard_index"
  by (rule injI) (metis shard_index_inverse(1,2) surj_pair)

lemma shard_index_eq [simp]: "shard_index p = shard_index q \<longleftrightarrow> p = q"
  using inj_shard_index by (auto dest: injD)

section \<open>What each step changes\<close>

lemma bucketAt_ensure:
  "bucketAt (ensure_shard b s m) c =
     (if c = b then
        (let bk = (case bucketAt m b of None \<Rightarrow> empty_bucket | Some x \<Rightarrow> x) in
         Some (if sb_values bk s = None then bk\<lparr>sb_values := (sb_values bk)(s \<mapsto> []), sb_active := put_bit (sb_active bk) s\<rparr> else bk))
      else bucketAt m c)"
  by (simp add: ensure_shard_def bucketAt_def Let_def split: option.splits)

lemma ensure_shard_simps:
  "shardAt (ensure_shard b s m) p = (if p = (b, s) then Some (shard_entries m p) else shardAt m p)"
  "activeAt (ensure_shard b s m) p \<longleftrightarrow> activeAt m p \<or> p = (b, s) \<and> shardAt m p = None"
  "bucketAt (ensure_shard b s m) b \<noteq> None"
  by (cases p; simp add: shardAt_def activeAt_def shard_entries_def bucketAt_ensure Let_def empty_bucket_def split: option.splits; auto)+

lemma ensure_shard_fields:
  "sm_indexes (ensure_shard b s m) = sm_indexes m" "sm_length (ensure_shard b s m) = sm_length m"
  "sm_activeBuckets (ensure_shard b s m) = put_bit (sm_activeBuckets m) b"
  by (simp_all add: ensure_shard_def sm_indexes_def fun_eq_iff Let_def split: option.splits)

lemma ensure_shard_small:
  "shardAt m (b, s) \<noteq> None \<Longrightarrow> sm_smallActive (ensure_shard b s m) = sm_smallActive m \<and> sm_smallCount (ensure_shard b s m) = sm_smallCount m"
  "shardAt m (b, s) = None \<Longrightarrow> sm_smallActive (ensure_shard b s m) =
     (if sm_smallCount m < 2 then (sm_smallActive m)[unat (sm_smallCount m) := shard_index (b, s)] else sm_smallActive m) \<and>
   sm_smallCount (ensure_shard b s m) = (if sm_smallCount m < 2 then sm_smallCount m + 1 else 3)"
  by (auto simp: ensure_shard_def shardAt_def bucketAt_def Let_def empty_bucket_def split: option.splits)

lemma put_shard_simps:
  "bucketAt m b \<noteq> None \<Longrightarrow> shardAt (put_shard b s l m) p = (if p = (b, s) then l else shardAt m p)"
  "sm_indexes (put_shard b s l m) = sm_indexes m" "sm_length (put_shard b s l m) = sm_length m"
  "activeAt (put_shard b s l m) p = activeAt m p" "sm_activeBuckets (put_shard b s l m) = sm_activeBuckets m"
  "sm_smallActive (put_shard b s l m) = sm_smallActive m" "sm_smallCount (put_shard b s l m) = sm_smallCount m"
  by (cases p; auto simp: put_shard_def shardAt_def activeAt_def bucketAt_def sm_indexes_def fun_eq_iff split: option.splits)+

lemma length_update_simps [simp]:
  "shardAt (m\<lparr>sm_length := n\<rparr>) = shardAt m" "activeAt (m\<lparr>sm_length := n\<rparr>) = activeAt m"
  "sm_indexes (m\<lparr>sm_length := n\<rparr>) = sm_indexes m" "bucketAt (m\<lparr>sm_length := n\<rparr>) = bucketAt m"
  "shard_entries (m\<lparr>sm_length := n\<rparr>) = shard_entries m"
  by (auto simp: shardAt_def activeAt_def bucketAt_def sm_indexes_def shard_entries_def fun_eq_iff)

lemma shard_entries_at: "shard_entries m p = (case shardAt m p of None \<Rightarrow> [] | Some l \<Rightarrow> l)"
  by (auto simp: shard_entries_def shardAt_def split: option.splits prod.splits)

lemma small_word: "(n :: u8) \<le> 3 \<Longrightarrow> n = 0 \<or> n = 1 \<or> n = 2 \<or> n = 3"
proof -
  assume "n \<le> 3"
  then have "unat n \<le> 3" by (simp add: word_le_nat_alt)
  then have "unat n = 0 \<or> unat n = 1 \<or> unat n = 2 \<or> unat n = 3" by linarith
  then show ?thesis by (simp add: word_unat_eq_iff)
qed

text \<open>The short list, as a statement about the set of indices it should contain.\<close>

definition lists_shards :: "u16 list \<Rightarrow> u8 \<Rightarrow> u16 set \<Rightarrow> bool" where
  "lists_shards xs n S \<longleftrightarrow> length xs = 2 \<and> n \<le> 3 \<and> (n \<le> 2 \<longrightarrow> distinct (take (unat n) xs) \<and> set (take (unat n) xs) = S)"

lemma small_ok_lists: "small_ok m \<longleftrightarrow> lists_shards (sm_smallActive m) (sm_smallCount m) (shard_index ` {p. shardAt m p \<noteq> None})"
  by (simp add: small_ok_def lists_shards_def)

lemma lists_shards_add:
  assumes "lists_shards xs n S" "i \<notin> S"
  shows "lists_shards (if n < 2 then xs[unat n := i] else xs) (if n < 2 then n + 1 else 3) (insert i S)"
proof -
  obtain x y where xy: "xs = [x, y]" using assms(1) by (auto simp: lists_shards_def numeral_2_eq_2 length_Suc_conv)
  from assms(1) have "n \<le> 3" by (simp add: lists_shards_def)
  from small_word [OF this] consider "n = 0" | "n = 1" | "n = 2" | "n = 3" by auto
  then show ?thesis by cases (use assms in \<open>auto simp: lists_shards_def xy\<close>)
qed

lemma ensure_small_ok:
  assumes "small_ok m"
  shows "small_ok (ensure_shard b s m)"
proof -
  have e: "{p. shardAt (ensure_shard b s m) p \<noteq> None} = insert (b, s) {p. shardAt m p \<noteq> None}"
    by (auto simp: ensure_shard_simps)
  show ?thesis
  proof (cases "shardAt m (b, s) = None")
    case False
    then have "insert (b, s) {p. shardAt m p \<noteq> None} = {p. shardAt m p \<noteq> None}" by auto
    then show ?thesis using assms ensure_shard_small(1) [OF False] unfolding small_ok_lists e by simp
  next
    case True
    then have "shard_index (b, s) \<notin> shard_index ` {p. shardAt m p \<noteq> None}" by auto
    from lists_shards_add [OF assms [unfolded small_ok_lists] this] show ?thesis
      unfolding small_ok_lists e using ensure_shard_small(2) [OF True] by simp
  qed
qed

lemma lists_shards_remove:
  assumes "lists_shards xs n S" "i \<in> S" "n \<le> 2"
  shows "i \<in> set (take (unat n) xs)"
    "lists_shards (xs[length (takeWhile (\<lambda>x. x \<noteq> i) (take (unat n) xs)) := xs ! (unat n - 1)]) (n - 1) (S - {i})"
proof -
  obtain x y where xy: "xs = [x, y]" using assms(1) by (auto simp: lists_shards_def numeral_2_eq_2 length_Suc_conv)
  from assms(1) have "n \<le> 3" by (simp add: lists_shards_def)
  from small_word [OF this] assms(3) consider "n = 0" | "n = 1" | "n = 2" by fastforce
  note cs = this
  show "i \<in> set (take (unat n) xs)" using cs by cases (use assms in \<open>auto simp: lists_shards_def xy\<close>)
  show "lists_shards (xs[length (takeWhile (\<lambda>x. x \<noteq> i) (take (unat n) xs)) := xs ! (unat n - 1)]) (n - 1) (S - {i})"
    using cs by cases (use assms in \<open>auto simp: lists_shards_def xy\<close>)
qed

section \<open>Set\<close>

lemma set_fields:
  assumes "sm_indexes m i = (b, s)"
  shows "shardAt (sm_Set i v m) p = (if p = (b, s) then Some (AList.update i v (shard_entries m p)) else shardAt m p)"
    "sm_indexes (sm_Set i v m) = sm_indexes m"
    "sm_length (sm_Set i v m) = (if sm_view m i = None then sm_length m + 1 else sm_length m)"
    "activeAt (sm_Set i v m) p \<longleftrightarrow> activeAt m p \<or> p = (b, s) \<and> shardAt m p = None"
    "sm_activeBuckets (sm_Set i v m) = put_bit (sm_activeBuckets m) b"
    "sm_smallActive (sm_Set i v m) = sm_smallActive (ensure_shard b s m)"
    "sm_smallCount (sm_Set i v m) = sm_smallCount (ensure_shard b s m)"
proof -
  have e: "shard_entries (ensure_shard b s m) (b, s) = shard_entries m (b, s)"
    by (simp add: shard_entries_at [of "ensure_shard b s m"] ensure_shard_simps)
  have "(map_of (shard_entries m (b, s)) i = None) = (sm_view m i = None)"
    by (simp add: sm_view_def assms shard_entries_at split: option.splits)
  then show "shardAt (sm_Set i v m) p = (if p = (b, s) then Some (AList.update i v (shard_entries m p)) else shardAt m p)"
    "sm_indexes (sm_Set i v m) = sm_indexes m"
    "sm_length (sm_Set i v m) = (if sm_view m i = None then sm_length m + 1 else sm_length m)"
    "activeAt (sm_Set i v m) p \<longleftrightarrow> activeAt m p \<or> p = (b, s) \<and> shardAt m p = None"
    "sm_activeBuckets (sm_Set i v m) = put_bit (sm_activeBuckets m) b"
    "sm_smallActive (sm_Set i v m) = sm_smallActive (ensure_shard b s m)"
    "sm_smallCount (sm_Set i v m) = sm_smallCount (ensure_shard b s m)"
    using ensure_shard_simps(3) [of b s m]
    by (simp_all add: sm_Set_def assms Let_def e put_shard_simps ensure_shard_simps ensure_shard_fields)
qed

lemma sm_view_Set: "sm_view (sm_Set i v m) = (sm_view m)(i \<mapsto> v)"
proof
  fix j
  obtain b s where i: "sm_indexes m i = (b, s)" by (metis surj_pair)
  show "sm_view (sm_Set i v m) j = ((sm_view m)(i \<mapsto> v)) j"
    unfolding sm_view_def set_fields [OF i] by (auto simp: i update_conv shard_entries_at split: option.splits)
qed

lemma keys_update: "fst ` set (AList.update k v l) = insert k (fst ` set l)"
  by (induction l) auto

lemma update_nonempty [simp]: "AList.update k v l \<noteq> []"
  by (cases l) auto

lemma sm_inv_Set:
  assumes "sm_inv m"
  shows "sm_inv (sm_Set i v m)"
proof -
  obtain b s where i: "sm_indexes m i = (b, s)" by (metis surj_pair)
  note f = set_fields [OF i, of v]
  have ok: "shards_ok {} m" "bits_ok m" "small_ok m" "sm_length m = int (card (dom (sm_view m)))"
    using assms by (simp_all add: sm_inv_def)
  have "shards_ok {} (sm_Set i v m)"
    unfolding shards_ok_def
  proof (intro allI impI)
    fix p l assume l: "shardAt (sm_Set i v m) p = Some l"
    show "distinct (map fst l) \<and> (\<forall>ident \<in> fst ` set l. sm_indexes (sm_Set i v m) ident = p) \<and> (l = [] \<longrightarrow> p \<in> {})"
    proof (cases "p = (b, s)")
      case True
      with l have l': "l = AList.update i v (shard_entries m p)" by (simp add: f)
      have "distinct (map fst (shard_entries m p)) \<and> (\<forall>ident \<in> fst ` set (shard_entries m p). sm_indexes m ident = p)"
        using shards_okD [OF ok(1), of p] by (cases "shardAt m p") (auto simp: shard_entries_at)
      then show ?thesis using True i by (simp add: f l' distinct_update keys_update del: image_insert)
    next
      case False
      with l have "shardAt m p = Some l" by (simp add: f)
      from shards_okD [OF ok(1) this] show ?thesis by (simp add: f)
    qed
  qed
  moreover have "bits_ok (sm_Set i v m)"
    using ok(2) unfolding bits_ok_def f by auto
  moreover have "small_ok (sm_Set i v m)"
  proof -
    have "{p. shardAt (sm_Set i v m) p \<noteq> None} = {p. shardAt (ensure_shard b s m) p \<noteq> None}"
      by (auto simp: f ensure_shard_simps)
    then show ?thesis using ensure_small_ok [OF ok(3), of b s] unfolding small_ok_lists f by simp
  qed
  moreover have "sm_length (sm_Set i v m) = int (card (dom (sm_view (sm_Set i v m))))"
    unfolding sm_view_Set card_dom_put using ok(4) by (simp add: f)
  ultimately show ?thesis by (simp add: sm_inv_def)
qed

section \<open>Delete\<close>

lemma forget_active_simps [simp]:
  "shardAt (forget_active idx m) = shardAt m" "activeAt (forget_active idx m) = activeAt m"
  "sm_indexes (forget_active idx m) = sm_indexes m" "sm_root (forget_active idx m) = sm_root m"
  "sm_length (forget_active idx m) = sm_length m" "sm_activeBuckets (forget_active idx m) = sm_activeBuckets m"
  by (auto simp: forget_active_def shardAt_def activeAt_def bucketAt_def sm_indexes_def Let_def fun_eq_iff)

lemma bucketAt_drop:
  assumes "bucketAt m b = Some bk"
  shows "bucketAt (drop_shard b s m) c =
    (if c = b then
       (let bk' = bk\<lparr>sb_values := (sb_values bk)(s := None), sb_active := drop_bits (sb_active bk) s\<rparr> in
        if bits_empty (sb_active bk') then None else Some bk')
     else bucketAt m c)"
  using assms by (auto simp: drop_shard_def bucketAt_def Let_def split: option.splits)

lemma drop_shard_simps:
  assumes "bits_ok m" "bucketAt m b = Some bk"
  shows "shardAt (drop_shard b s m) p = (if p = (b, s) then None else shardAt m p)"
    "activeAt (drop_shard b s m) p \<longleftrightarrow> p \<noteq> (b, s) \<and> activeAt m p"
    "has_bit (sm_activeBuckets (drop_shard b s m)) c \<longleftrightarrow> (\<exists>t. shardAt (drop_shard b s m) (c, t) \<noteq> None)"
proof -
  have a: "has_bit (sb_active bk) t \<longleftrightarrow> sb_values bk t \<noteq> None" for t
    using bits_okD(1) [OF assms(1), of "(b, t)"] by (simp add: activeAt_def shardAt_def assms(2))
  show 1: "shardAt (drop_shard b s m) p = (if p = (b, s) then None else shardAt m p)" for p
    by (cases p) (auto simp: shardAt_def bucketAt_drop [OF assms(2)] Let_def bits_empty_iff a assms(2) split: option.splits)
  show "activeAt (drop_shard b s m) p \<longleftrightarrow> p \<noteq> (b, s) \<and> activeAt m p"
    by (cases p) (auto simp: activeAt_def bucketAt_drop [OF assms(2)] Let_def bits_empty_iff assms(2) split: option.splits)
  have r: "sm_root m = Some root \<Longrightarrow> root b = Some bk" for root using assms(2) by (simp add: bucketAt_def)
  obtain root where root: "sm_root m = Some root" using assms(2) by (cases "sm_root m") (auto simp: bucketAt_def)
  have ab: "sm_activeBuckets (drop_shard b s m) =
      (if bits_empty (drop_bits (sb_active bk) s) then drop_bits (sm_activeBuckets m) b else sm_activeBuckets m)"
    by (simp add: drop_shard_def Let_def root r [OF root])
  have old: "has_bit (sm_activeBuckets m) c \<longleftrightarrow> (\<exists>t. shardAt m (c, t) \<noteq> None)" using assms(1) by (rule bits_okD)
  have e: "bits_empty (drop_bits (sb_active bk) s) \<longleftrightarrow> (\<forall>t. t \<noteq> s \<longrightarrow> shardAt m (b, t) = None)"
    by (auto simp: bits_empty_iff a shardAt_def assms(2))
  show "has_bit (sm_activeBuckets (drop_shard b s m)) c \<longleftrightarrow> (\<exists>t. shardAt (drop_shard b s m) (c, t) \<noteq> None)"
    unfolding ab 1 using old e by (cases "c = b") (auto split: if_splits)
qed

lemma drop_shard_fields:
  "sm_indexes (drop_shard b s m) = sm_indexes m" "sm_length (drop_shard b s m) = sm_length m"
  by (simp_all add: drop_shard_def Let_def sm_indexes_def fun_eq_iff forget_active_def)

lemma drop_shard_small:
  "sm_smallActive (drop_shard b s m) = sm_smallActive (forget_active (shard_index (b, s)) m)"
  "sm_smallCount (drop_shard b s m) = sm_smallCount (forget_active (shard_index (b, s)) m)"
  by (simp_all add: drop_shard_def Let_def forget_active_def)

lemma delete_absent:
  "sm_view m i = None \<Longrightarrow> sm_Delete i m = m"
  by (auto simp: sm_Delete_def sm_view_def shardAt_def shard_entries_def Let_def split: option.splits prod.splits)

lemma view_present:
  assumes "sm_view m i = Some v" "sm_indexes m i = (b, s)"
  obtains bk l where "bucketAt m b = Some bk" "sb_values bk s = Some l" "map_of l i = Some v"
  using assms by (auto simp: sm_view_def shardAt_def split: option.splits)

lemma delete_present:
  assumes "bits_ok m" "sm_view m i \<noteq> None" "sm_indexes m i = (b, s)"
  defines "l \<equiv> AList.delete i (shard_entries m (b, s))"
  shows "shardAt (sm_Delete i m) p = (if p = (b, s) then (if l = [] then None else Some l) else shardAt m p)"
    "activeAt (sm_Delete i m) p \<longleftrightarrow> (if l = [] then p \<noteq> (b, s) \<and> activeAt m p else activeAt m p)"
    "has_bit (sm_activeBuckets (sm_Delete i m)) c \<longleftrightarrow> (\<exists>t. shardAt (sm_Delete i m) (c, t) \<noteq> None)"
    "sm_length (sm_Delete i m) = sm_length m - 1" "sm_indexes (sm_Delete i m) = sm_indexes m"
proof -
  obtain v where v: "sm_view m i = Some v" using assms(2) by blast
  from view_present [OF v assms(3)] obtain bk l0 where bk: "bucketAt m b = Some bk" "sb_values bk s = Some l0" "map_of l0 i = Some v" .
  define m1 where "m1 = m\<lparr>sm_length := sm_length m - 1\<rparr>"
  have d: "sm_Delete i m = (if l = [] then drop_shard b s m1 else put_shard b s (Some l) m1)"
    using bk by (simp add: sm_Delete_def assms(3) Let_def m1_def l_def shard_entries_def)
  have ok: "bits_ok m1" "bucketAt m1 b = Some bk" using assms(1) bk(1) by (simp_all add: m1_def bits_ok_def)
  note ds = drop_shard_simps [OF ok, of s]
  note ps = put_shard_simps(1) [of m1 b, unfolded ok(2), OF option.distinct(2)] put_shard_simps(2-)
  show 1: "shardAt (sm_Delete i m) p = (if p = (b, s) then (if l = [] then None else Some l) else shardAt m p)" for p
    by (simp add: d ds ps) (simp add: m1_def)
  show "activeAt (sm_Delete i m) p \<longleftrightarrow> (if l = [] then p \<noteq> (b, s) \<and> activeAt m p else activeAt m p)"
    by (simp add: d ds ps) (simp add: m1_def)
  have "shardAt m (b, s) \<noteq> None" using bk by (simp add: shardAt_def)
  then have "(\<exists>t. shardAt (sm_Delete i m) (c, t) \<noteq> None) \<longleftrightarrow> (\<exists>t. shardAt m (c, t) \<noteq> None)" if "l \<noteq> []"
    unfolding 1 using that by auto
  then show "has_bit (sm_activeBuckets (sm_Delete i m)) c \<longleftrightarrow> (\<exists>t. shardAt (sm_Delete i m) (c, t) \<noteq> None)"
    using ds(3) [of c] bits_okD(2) [OF assms(1), of c] by (cases "l = []") (simp_all add: d ps(5), simp add: m1_def)
  show "sm_length (sm_Delete i m) = sm_length m - 1" "sm_indexes (sm_Delete i m) = sm_indexes m"
    by (simp_all add: d drop_shard_fields ps) (simp_all add: m1_def)
qed

lemma sm_view_Delete:
  assumes "bits_ok m"
  shows "sm_view (sm_Delete i m) = (sm_view m)(i := None)"
proof (cases "sm_view m i = None")
  case True
  then show ?thesis by (auto simp: delete_absent fun_eq_iff)
next
  case False
  obtain b s where i: "sm_indexes m i = (b, s)" by (metis surj_pair)
  note d = delete_present [OF assms False i]
  show ?thesis
  proof
    fix j
    have "map_of (AList.delete i (shard_entries m (b, s))) j = (if j = i then None else map_of (shard_entries m (b, s)) j)"
      by (simp add: delete_conv')
    moreover have "map_of (shard_entries m (b, s)) j = (case shardAt m (b, s) of None \<Rightarrow> None | Some l \<Rightarrow> map_of l j)"
      by (simp add: shard_entries_at split: option.splits)
    ultimately show "sm_view (sm_Delete i m) j = ((sm_view m)(i := None)) j"
      unfolding sm_view_def d(1,5) using i by (cases "AList.delete i (shard_entries m (b, s)) = []") auto
  qed
qed

lemma delete_small_ok:
  assumes "sm_inv m" "sm_view m i \<noteq> None" "sm_indexes m i = (b, s)"
  shows "small_ok (sm_Delete i m)"
proof -
  have ok: "shards_ok {} m" "bits_ok m" "small_ok m" "sm_length m = int (card (dom (sm_view m)))"
    using assms(1) by (simp_all add: sm_inv_def)
  obtain v where v: "sm_view m i = Some v" using assms(2) by blast
  from view_present [OF v assms(3)] obtain bk l0 where bk: "bucketAt m b = Some bk" "sb_values bk s = Some l0" "map_of l0 i = Some v" .
  define l where "l = AList.delete i (shard_entries m (b, s))"
  define m1 where "m1 = m\<lparr>sm_length := sm_length m - 1\<rparr>"
  have d: "sm_Delete i m = (if l = [] then drop_shard b s m1 else put_shard b s (Some l) m1)"
    using bk by (simp add: sm_Delete_def assms(3) Let_def m1_def l_def shard_entries_def)
  note dp = delete_present [OF ok(2) assms(2,3), folded l_def]
  have here: "shardAt m (b, s) \<noteq> None" using bk by (simp add: shardAt_def)
  let ?S = "shard_index ` {p. shardAt m p \<noteq> None}" and ?i = "shard_index (b, s)"
  have old: "lists_shards (sm_smallActive m) (sm_smallCount m) ?S" using ok(3) by (simp add: small_ok_lists)
  show ?thesis
  proof (cases "l = []")
    case False
    have "{p. shardAt (sm_Delete i m) p \<noteq> None} = {p. shardAt m p \<noteq> None}" using here False by (auto simp: dp)
    then show ?thesis using old False unfolding small_ok_lists by (simp add: d put_shard_simps m1_def)
  next
    case True
    have S': "shard_index ` {p. shardAt (sm_Delete i m) p \<noteq> None} = ?S - {?i}" using True by (auto simp: dp)
    have i: "?i \<in> ?S" using here by blast
    have f: "sm_smallActive (sm_Delete i m) = sm_smallActive (forget_active ?i m1)" "sm_smallCount (sm_Delete i m) = sm_smallCount (forget_active ?i m1)"
      using True by (simp_all add: d drop_shard_small)
    show ?thesis
    proof (cases "sm_smallCount m \<le> 2")
      case c: True
      from lists_shards_remove [OF old i c] show ?thesis
        unfolding small_ok_lists f S' using c by (simp add: forget_active_def m1_def Let_def)
    next
      case c: False
      have "sm_smallCount m = 3" using old c small_word [of "sm_smallCount m"] by (auto simp: lists_shards_def)
      moreover have "?S - {?i} = {}" if "sm_length m1 = 0"
      proof -
        have "card (dom ((sm_view m)(i := None))) = 0"
          using that card_dom_remove [of "sm_view m" i] assms(2) ok(4) by (simp add: m1_def)
        then have "sm_view (sm_Delete i m) = (\<lambda>_. None)" by (auto simp: sm_view_Delete [OF ok(2)] fun_eq_iff dom_def)
        moreover have "\<exists>j. sm_view (sm_Delete i m) j \<noteq> None" if "shardAt m p \<noteq> None" "p \<noteq> (b, s)" for p
        proof -
          from that(1) obtain xs where xs: "shardAt m p = Some xs" by blast
          from shards_okD [OF ok(1) this] obtain j w ys where "xs = (j, w) # ys" "sm_indexes m j = p" by (cases xs) auto
          then have "sm_view (sm_Delete i m) j = Some w" using xs that(2) by (simp add: sm_view_def dp)
          then show ?thesis by blast
        qed
        ultimately show ?thesis by fastforce
      qed
      ultimately show ?thesis using old unfolding small_ok_lists f S'
        by (auto simp: forget_active_def lists_shards_def m1_def)
    qed
  qed
qed

lemma sm_inv_Delete:
  assumes "sm_inv m"
  shows "sm_inv (sm_Delete i m)"
proof (cases "sm_view m i = None")
  case True
  then show ?thesis using assms by (simp add: delete_absent)
next
  case False
  obtain b s where i: "sm_indexes m i = (b, s)" by (metis surj_pair)
  have ok: "shards_ok {} m" "bits_ok m" "sm_length m = int (card (dom (sm_view m)))" using assms by (simp_all add: sm_inv_def)
  note d = delete_present [OF ok(2) False i]
  let ?l = "AList.delete i (shard_entries m (b, s))"
  have "distinct (map fst (shard_entries m (b, s))) \<and> (\<forall>ident \<in> fst ` set (shard_entries m (b, s)). sm_indexes m ident = (b, s))"
    using shards_okD [OF ok(1), of "(b, s)"] by (cases "shardAt m (b, s)") (auto simp: shard_entries_at)
  then have l: "distinct (map fst ?l)" "\<forall>ident \<in> fst ` set ?l. sm_indexes m ident = (b, s)"
    using set_delete [of i "shard_entries m (b, s)"] by (auto simp: distinct_delete)
  have "shards_ok {} (sm_Delete i m)"
    unfolding shards_ok_def d(1,5) using l shards_okD [OF ok(1)] by (auto split: if_splits)
  moreover have "bits_ok (sm_Delete i m)"
  proof -
    have "shardAt m (b, s) \<noteq> None" using False i by (auto simp: sm_view_def split: option.splits)
    then have "activeAt (sm_Delete i m) p \<longleftrightarrow> shardAt (sm_Delete i m) p \<noteq> None" for p
      using bits_okD(1) [OF ok(2), of p] unfolding d(1,2) by auto
    then show ?thesis unfolding bits_ok_def using d(3) by blast
  qed
  moreover have "sm_length (sm_Delete i m) = int (card (dom (sm_view (sm_Delete i m))))"
    unfolding sm_view_Delete [OF ok(2)] d(4) using card_dom_remove [of "sm_view m" i] False ok(3) by simp
  ultimately show ?thesis using delete_small_ok [OF assms False i] by (simp add: sm_inv_def)
qed

section \<open>Iteration, forks and clones\<close>

lemma active_shards_props:
  assumes "sm_inv m"
  shows "set (active_shards m) = {p. shardAt m p \<noteq> None}" "distinct (active_shards m)"
proof -
  have ok: "bits_ok m" "small_ok m" using assms by (simp_all add: sm_inv_def)
  let ?un = "\<lambda>i :: u16. (ucast (drop_bit 8 i) :: u8, ucast i :: u8)"
  have un: "?un (shard_index p) = p" for p by (cases p) (simp add: shard_index_inverse)
  have "inj ?un" by (rule injI) (metis shard_index_inverse(3) prod.inject)
  then have inj: "inj_on ?un A" for A by (rule inj_on_subset) simp
  have "set (active_shards m) = {p. shardAt m p \<noteq> None} \<and> distinct (active_shards m)"
  proof (cases "sm_smallCount m \<le> 2")
    case True
    then have "set (take (unat (sm_smallCount m)) (sm_smallActive m)) = shard_index ` {p. shardAt m p \<noteq> None}"
      "distinct (take (unat (sm_smallCount m)) (sm_smallActive m))" using ok(2) by (simp_all add: small_ok_def)
    moreover have "?un ` (shard_index ` P) = P" for P by (simp add: image_image un)
    ultimately show ?thesis using True inj by (simp add: active_shards_def distinct_map)
  next
    case False
    let ?shards = "\<lambda>b. case bucketAt m b of None \<Rightarrow> [] | Some item \<Rightarrow> bits_list (sb_active item)"
    have s: "set (?shards b) = {s. shardAt m (b, s) \<noteq> None}" "distinct (?shards b)" for b
    proof -
      have "activeAt m (b, t) \<longleftrightarrow> shardAt m (b, t) \<noteq> None" for t using ok(1) by (rule bits_okD)
      then show "set (?shards b) = {s. shardAt m (b, s) \<noteq> None}" "distinct (?shards b)"
        by (cases "bucketAt m b"; simp add: activeAt_def shardAt_def bits_list_props)+
    qed
    have b: "set (bits_list (sm_activeBuckets m)) = {b. \<exists>s. shardAt m (b, s) \<noteq> None}"
      using bits_okD(2) [OF ok(1)] by (simp add: bits_list_props)
    have "distinct (concat (map (\<lambda>b. map (Pair b) (?shards b)) bs))" if "distinct bs" for bs
      using that s(2) by (induction bs) (auto simp: distinct_map inj_on_def)
    then have d: "distinct (active_shards m)" using False by (simp add: active_shards_def bits_list_props)
    have "set (active_shards m) = (\<Union>b \<in> set (bits_list (sm_activeBuckets m)). Pair b ` set (?shards b))"
      using False by (simp add: active_shards_def)
    also have "\<dots> = {p. shardAt m p \<noteq> None}" unfolding b s by auto
    finally show ?thesis using d by simp
  qed
  then show "set (active_shards m) = {p. shardAt m p \<noteq> None}" "distinct (active_shards m)" by simp_all
qed

lemma concat_shards:
  assumes "shards_ok {} m" "distinct ps"
  shows "distinct (map fst (concat (map (shard_entries m) ps)))"
    "map_of (concat (map (shard_entries m) ps)) i = (if sm_indexes m i \<in> set ps then sm_view m i else None)"
proof -
  have e: "distinct (map fst (shard_entries m p))" "\<And>ident. ident \<in> fst ` set (shard_entries m p) \<Longrightarrow> sm_indexes m ident = p" for p
    using shards_okD [OF assms(1), of p] by (cases "shardAt m p"; auto simp: shard_entries_at)+
  have v: "map_of (shard_entries m p) i = (if sm_indexes m i = p then sm_view m i else None)" for p
  proof (cases "sm_indexes m i = p")
    case True
    then show ?thesis by (simp add: sm_view_def shard_entries_at split: option.splits)
  next
    case False
    then have "i \<notin> fst ` set (shard_entries m p)" using e(2) by blast
    then show ?thesis using False by (simp add: map_of_eq_None_iff)
  qed
  show "distinct (map fst (concat (map (shard_entries m) ps)))"
    using assms(2)
  proof (induction ps)
    case (Cons p ps)
    have "fst ` set (shard_entries m p) \<inter> fst ` set (concat (map (shard_entries m) ps)) = {}"
    proof (rule ccontr)
      assume "\<not> ?thesis"
      then obtain ident q where "ident \<in> fst ` set (shard_entries m p)" "q \<in> set ps" "ident \<in> fst ` set (shard_entries m q)" by auto
      then have "p = q" using e(2) [of ident p] e(2) [of ident q] by simp
      with Cons.prems \<open>q \<in> set ps\<close> show False by simp
    qed
    with Cons e(1) show ?case by simp
  qed simp
  show "map_of (concat (map (shard_entries m) ps)) i = (if sm_indexes m i \<in> set ps then sm_view m i else None)"
    by (induction ps) (auto simp: v map_add_def split: option.splits)
qed

lemma sm_All_props:
  assumes "sm_inv m"
  shows "distinct (map fst (sm_All m))" "map_of (sm_All m) = sm_view m"
proof -
  have ok: "shards_ok {} m" using assms by (simp add: sm_inv_def)
  note a = active_shards_props [OF assms]
  show "distinct (map fst (sm_All m))" using concat_shards(1) [OF ok a(2)] by (simp add: sm_All_def split: option.splits)
  show "map_of (sm_All m) = sm_view m"
  proof (cases "sm_root m")
    case None
    then show ?thesis by (simp add: sm_All_def sm_view_def shardAt_def bucketAt_def fun_eq_iff)
  next
    case (Some r)
    have "(if sm_indexes m i \<in> {p. shardAt m p \<noteq> None} then sm_view m i else None) = sm_view m i" for i
      by (auto simp: sm_view_def)
    then show ?thesis using concat_shards(2) [OF ok a(2)] by (simp add: sm_All_def Some a(1) fun_eq_iff)
  qed
qed

lemma clone_simps [simp]:
  "shardAt (sm_CloneShardOnce i m) = shardAt m" "sm_indexes (sm_CloneShardOnce i m) = sm_indexes m"
  "activeAt (sm_CloneShardOnce i m) = activeAt m" "sm_activeBuckets (sm_CloneShardOnce i m) = sm_activeBuckets m"
  "sm_smallActive (sm_CloneShardOnce i m) = sm_smallActive m" "sm_smallCount (sm_CloneShardOnce i m) = sm_smallCount m"
  "sm_length (sm_CloneShardOnce i m) = sm_length m"
  by (auto simp: sm_CloneShardOnce_def Let_def shardAt_def activeAt_def bucketAt_def sm_indexes_def empty_bucket_def fun_eq_iff
      split: prod.splits option.splits)

lemma fork_simps [simp]:
  "shardAt (sm_Fork m) = shardAt m" "sm_indexes (sm_Fork m) = sm_indexes m" "activeAt (sm_Fork m) = activeAt m"
  "sm_activeBuckets (sm_Fork m) = sm_activeBuckets m" "sm_smallActive (sm_Fork m) = sm_smallActive m"
  "sm_smallCount (sm_Fork m) = sm_smallCount m" "sm_length (sm_Fork m) = sm_length m"
  by (auto simp: sm_Fork_def shardAt_def activeAt_def bucketAt_def sm_indexes_def fun_eq_iff)

lemma clone_fork_views [simp]: "sm_view (sm_CloneShardOnce i m) = sm_view m" "sm_view (sm_Fork m) = sm_view m"
  by (simp_all add: sm_view_def fun_eq_iff)

lemma clone_fork_inv [simp]: "sm_inv (sm_CloneShardOnce i m) \<longleftrightarrow> sm_inv m" "sm_inv (sm_Fork m) \<longleftrightarrow> sm_inv m"
  by (simp_all only: sm_inv_def shards_ok_def bits_ok_def small_ok_def clone_simps fork_simps clone_fork_views)

section \<open>The sharded map is a key table\<close>

lemma sm_lookup_view:
  "sm_Get z m i = (case sm_view m i of None \<Rightarrow> z | Some v \<Rightarrow> v)" "sm_Has m i \<longleftrightarrow> sm_view m i \<noteq> None"
  by (auto simp: sm_Get_def sm_Has_def sm_view_def shardAt_def split: option.splits prod.splits)

lemma empty_table:
  assumes "sm_root m = None \<or> sm_root m = Some (\<lambda>_. None)" "sm_activeBuckets m = no_bits"
    "length (sm_smallActive m) = 2" "sm_smallCount m = 0" "sm_length m = 0"
  shows "sm_view m = (\<lambda>_. None)" "sm_inv m"
proof -
  have s: "shardAt m = (\<lambda>_. None)" "activeAt m = (\<lambda>_. False)"
    using assms(1) by (auto simp: shardAt_def activeAt_def bucketAt_def fun_eq_iff)
  then show v: "sm_view m = (\<lambda>_. None)" by (intro ext) (simp add: sm_view_def)
  show "sm_inv m" using assms(2-) by (simp add: sm_inv_def shards_ok_def bits_ok_def small_ok_def s v)
qed

lemma new_shard_maps:
  "sm_view NewShardMap = (\<lambda>_. None)" "sm_inv NewShardMap" "sm_view newPostingShardMap = (\<lambda>_. None)" "sm_inv newPostingShardMap"
  "sm_view zero_shard_map = (\<lambda>_. None)" "sm_inv zero_shard_map"
  by (rule empty_table; simp add: NewShardMap_def newPostingShardMap_def zero_shard_map_def)+

interpretation shards: key_table z NewShardMap "sm_Get z" sm_Has sm_Set sm_Delete sm_Len sm_All sm_view sm_inv
  for z
proof
  fix t :: "'a ShardMap" and i assume t: "sm_inv t"
  then have "bits_ok t" "sm_length t = int (card (dom (sm_view t)))" by (simp_all add: sm_inv_def)
  then show "sm_view (sm_Delete i t) = (sm_view t)(i := None)" "sm_Len t = int (card (dom (sm_view t)))"
    by (simp_all add: sm_view_Delete sm_Len_def)
qed (simp_all add: new_shard_maps sm_inv_Set sm_view_Set sm_inv_Delete sm_lookup_view sm_All_props)

section \<open>Runs\<close>







end
