(* ===== verification/AppMetadata.thy ===== *)
theory AppMetadata
  imports HashBuckets ShardMap GoBytes
begin

unbundle bit_operations_syntax

text \<open>
  Application metadata (\<^verbatim>\<open>internal/store/app_metadata.go\<close>): byte values under string keys, in 256 hash buckets
  of a sharded map. A pointer receiver that may be nil is an \<^typ>\<open>'a option\<close>. A Go map obtained from the sharded
  map and then updated in place is a new value stored under the same hash.
\<close>

section \<open>The string hash\<close>

definition hashString :: "string \<Rightarrow> u64" where
  "hashString s = fold (\<lambda>c hash. (hash XOR ucast (byte_of_char c)) * 1099511628211) s 14695981039346656037"

section \<open>Operations\<close>

type_synonym goBytes = "byte list option"

record AppMetadata =
  am_buckets :: "goBytes bucket option ShardMap"
  am_length :: int
  am_cloned :: bits256

definition new_metadata :: AppMetadata where
  "new_metadata = \<lparr>am_buckets = zero_shard_map, am_length = 0, am_cloned = no_bits\<rparr>"

definition am_Fork :: "AppMetadata option \<Rightarrow> AppMetadata" where
  "am_Fork metadata = (case metadata of
     None \<Rightarrow> new_metadata
   | Some md \<Rightarrow> \<lparr>am_buckets = sm_Fork (am_buckets md), am_length = am_length md, am_cloned = no_bits\<rparr>)"

definition am_Len :: "AppMetadata option \<Rightarrow> int" where
  "am_Len metadata = (case metadata of None \<Rightarrow> 0 | Some md \<Rightarrow> am_length md)"

text \<open>\<^verbatim>\<open>hashString(key) & 255\<close>\<close>

definition metadata_hash :: "string \<Rightarrow> u64" where
  "metadata_hash key = hashString key AND 255"

definition am_Get :: "AppMetadata option \<Rightarrow> string \<Rightarrow> goBytes \<times> bool" where
  "am_Get metadata key = (case metadata of
     None \<Rightarrow> (None, False)
   | Some md \<Rightarrow>
       (case sm_Get None (am_buckets md) (metadata_hash key) of
          None \<Rightarrow> (None, False)
        | Some bucket \<Rightarrow> (case map_of bucket key of None \<Rightarrow> (None, False) | Some v \<Rightarrow> (v, True))))"

definition am_writableBucket :: "u64 \<Rightarrow> AppMetadata \<Rightarrow> AppMetadata \<times> goBytes bucket" where
  "am_writableBucket hash md =
     (let md' =
        (if \<not> has_bit (am_cloned md) (ucast hash) then
           let buckets = sm_CloneShardOnce hash (am_buckets md);
               bucket = (case sm_Get None buckets hash of None \<Rightarrow> [] | Some b \<Rightarrow> b)
           in md\<lparr>am_buckets := sm_Set hash (Some bucket) buckets, am_cloned := put_bit (am_cloned md) (ucast hash)\<rparr>
         else md)
      in (md', case sm_Get None (am_buckets md') hash of None \<Rightarrow> [] | Some b \<Rightarrow> b))"

definition am_Set :: "string \<Rightarrow> goBytes \<Rightarrow> AppMetadata \<Rightarrow> AppMetadata" where
  "am_Set key v md =
     (case am_writableBucket (metadata_hash key) md of (md1, bucket) \<Rightarrow>
        let md2 = (if map_of bucket key = None then md1\<lparr>am_length := am_length md1 + 1\<rparr> else md1)
        in md2\<lparr>am_buckets := sm_Set (metadata_hash key) (Some (AList.update key v bucket)) (am_buckets md2)\<rparr>)"

definition am_Delete :: "string \<Rightarrow> AppMetadata \<Rightarrow> AppMetadata" where
  "am_Delete key md =
     (if \<not> snd (am_Get (Some md) key) then md
      else case am_writableBucket (metadata_hash key) md of (md1, bucket) \<Rightarrow>
        let hash = metadata_hash key;
            bucket' = AList.delete key bucket;
            md2 = md1\<lparr>am_buckets := sm_Set hash (Some bucket') (am_buckets md1), am_length := am_length md1 - 1\<rparr>
        in if bucket' = []
           then md2\<lparr>am_buckets := sm_Delete hash (am_buckets md2), am_cloned := drop_bits (am_cloned md2) (ucast hash)\<rparr>
           else md2)"

definition am_All :: "AppMetadata option \<Rightarrow> (string \<times> goBytes) list" where
  "am_All metadata = (case metadata of
     None \<Rightarrow> []
   | Some md \<Rightarrow> concat (map (\<lambda>(hash, bucket). case bucket of None \<Rightarrow> [] | Some b \<Rightarrow> b) (sm_All (am_buckets md))))"

definition CloneAppMetadata :: "AppMetadata option \<Rightarrow> AppMetadata" where
  "CloneAppMetadata metadata = fold (\<lambda>(key, v). am_Set key v) (am_All metadata) new_metadata"

section \<open>Laws\<close>

interpretation hb: hash_buckets NewShardMap "sm_Get None" sm_Has sm_Set sm_Delete sm_Len sm_All sm_view sm_inv h
  for h
  by unfold_locales

definition am_view :: "AppMetadata \<Rightarrow> string \<Rightarrow> goBytes option" where
  "am_view md = bucket_lookup (sm_Get None) metadata_hash (am_buckets md)"

definition am_inv :: "AppMetadata \<Rightarrow> bool" where
  "am_inv md \<longleftrightarrow> hb.buckets_ok metadata_hash (am_buckets md) \<and> am_length md = int (card (dom (am_view md))) \<and> finite (dom (am_view md)) \<and>
     (\<forall>b. has_bit (am_cloned md) b \<longrightarrow> sm_view (am_buckets md) (ucast b) \<noteq> None)"

lemma am_Get_view: "am_Get (Some md) key = (case am_view md key of None \<Rightarrow> (None, False) | Some v \<Rightarrow> (v, True))"
  by (simp add: am_Get_def am_view_def bucket_lookup_def split: option.splits)

lemma metadata_hash_byte: "(ucast (ucast (metadata_hash key) :: u8) :: u64) = metadata_hash key"
proof -
  have m: "(255 :: u64) = mask 8" by (simp add: mask_eq_exp_minus_1)
  show ?thesis by (rule bit_word_eqI) (auto simp: metadata_hash_def m bit_simps)
qed

lemma byte_ucast: "(ucast (ucast (c :: u8) :: u64) :: u8) = c"
  by (rule bit_word_eqI) (simp add: bit_simps)

lemma writable_bucket:
  assumes "am_inv md" "am_writableBucket (metadata_hash key) md = (md', b)"
  shows "am_inv md'" "am_view md' = am_view md" "am_length md' = am_length md"
    "b = hb.bucket_of (am_buckets md') (metadata_hash key)" "sm_view (am_buckets md') (metadata_hash key) \<noteq> None"
    "has_bit (am_cloned md') c \<longleftrightarrow> has_bit (am_cloned md) c \<or> c = ucast (metadata_hash key)"
proof -
  let ?h = "metadata_hash key"
  have ok: "hb.buckets_ok metadata_hash (am_buckets md)" "sm_inv (am_buckets md)"
    using assms(1) by (simp_all add: am_inv_def hb.buckets_ok_def)
  define bs where "bs = sm_CloneShardOnce ?h (am_buckets md)"
  have bs: "hb.buckets_ok metadata_hash bs" "hb.bucket_of bs = hb.bucket_of (am_buckets md)" "sm_inv bs" "sm_view bs = sm_view (am_buckets md)"
    using ok by (simp_all add: bs_def hb.buckets_ok_def hb.bucket_of_def sm_lookup_view fun_eq_iff)
  have md': "md' = (if has_bit (am_cloned md) (ucast ?h) then md else
      md\<lparr>am_buckets := sm_Set ?h (Some (hb.bucket_of bs ?h)) bs, am_cloned := put_bit (am_cloned md) (ucast ?h)\<rparr>)"
    "b = hb.bucket_of (am_buckets md') ?h"
    using assms(2) by (auto simp: am_writableBucket_def Let_def hb.bucket_of_def bs_def)
  show "b = hb.bucket_of (am_buckets md') ?h" by (rule md'(2))
  show v: "am_view md' = am_view md"
    unfolding am_view_def hb.lookup_bucket
    by (rule ext) (simp add: md'(1) hb.lookup_bucket hb.bucket_of_set [OF bs(3)] bs(2))
  show "am_length md' = am_length md" by (simp add: md'(1))
  have n: "sm_view (am_buckets md') i = (if \<not> has_bit (am_cloned md) (ucast ?h) \<and> i = ?h then Some (Some (hb.bucket_of bs ?h)) else sm_view (am_buckets md) i)" for i
    by (simp add: md'(1) sm_view_Set bs(4))
  show "sm_view (am_buckets md') ?h \<noteq> None"
    using assms(1) metadata_hash_byte [of key] unfolding n am_inv_def by auto
  show c: "has_bit (am_cloned md') c \<longleftrightarrow> has_bit (am_cloned md) c \<or> c = ucast ?h" for c
    by (auto simp: md'(1))
  have "hb.buckets_ok metadata_hash (am_buckets md')"
    using ok(1) hb.store_bucket_ok [OF bs(1) hb.bucket_of_ok [OF bs(1)]] by (simp add: md'(1))
  then show "am_inv md'"
    using assms(1) metadata_hash_byte [of key] unfolding am_inv_def v
    by (auto simp: c n) (simp add: md'(1))
qed

lemma am_Set_law:
  assumes "am_inv md"
  shows "am_inv (am_Set key v md)" "am_view (am_Set key v md) = (am_view md)(key \<mapsto> v)"
proof -
  let ?h = "metadata_hash key"
  obtain md1 b where w: "am_writableBucket ?h md = (md1, b)" by (metis surj_pair)
  note wb = writable_bucket [OF assms w]
  have ok: "hb.buckets_ok metadata_hash (am_buckets md1)" "sm_inv (am_buckets md1)"
    using wb(1) by (simp_all add: am_inv_def hb.buckets_ok_def)
  note put = hb.put_law [OF ok(1), of key v, folded wb(4)]
  have bs: "am_buckets (am_Set key v md) = sm_Set ?h (Some (AList.update key v b)) (am_buckets md1)"
    "am_cloned (am_Set key v md) = am_cloned md1"
    by (simp_all add: am_Set_def w Let_def)
  show view: "am_view (am_Set key v md) = (am_view md)(key \<mapsto> v)"
    using put(2) wb(2) by (simp add: am_view_def bs)
  have "am_length (am_Set key v md) = (if am_view md key = None then am_length md + 1 else am_length md)"
    using wb(2,3) by (simp add: am_Set_def w Let_def wb(4) am_view_def hb.lookup_bucket fun_eq_iff)
  moreover have "finite (dom (am_view md))" "am_length md = int (card (dom (am_view md)))" using assms by (simp_all add: am_inv_def)
  ultimately show "am_inv (am_Set key v md)"
    using put(1) wb(1) unfolding am_inv_def view by (auto simp: bs sm_view_Set card_insert_if domIff)
qed

lemma am_Delete_law:
  assumes "am_inv md"
  shows "am_inv (am_Delete key md)" "am_view (am_Delete key md) = (am_view md)(key := None)"
proof -
  let ?h = "metadata_hash key"
  have "am_inv (am_Delete key md) \<and> am_view (am_Delete key md) = (am_view md)(key := None)"
  proof (cases "am_view md key")
    case None
    then show ?thesis using assms by (auto simp: am_Delete_def am_Get_view fun_eq_iff)
  next
    case (Some v)
    obtain md1 b where w: "am_writableBucket ?h md = (md1, b)" by (metis surj_pair)
    note wb = writable_bucket [OF assms w]
    have ok: "hb.buckets_ok metadata_hash (am_buckets md1)" "sm_inv (am_buckets md1)"
      using wb(1) by (simp_all add: am_inv_def hb.buckets_ok_def)
    define b' where "b' = AList.delete key b"
    define bs where "bs = sm_Set ?h (Some b') (am_buckets md1)"
    have "bucket_ok metadata_hash ?h (Some b')"
      using hb.bucket_of_ok [OF ok(1), of ?h] set_delete [of key b] unfolding b'_def wb(4) [symmetric]
      by (auto simp: bucket_ok_def distinct_delete)
    then have bs: "hb.buckets_ok metadata_hash bs" "sm_inv bs" "hb.bucket_of bs ?h = b'"
      using ok by (simp_all add: bs_def hb.store_bucket_ok hb.bucket_of_set sm_inv_Set)
    have D: "am_Delete key md = (if b' = [] then md1\<lparr>am_buckets := sm_Delete ?h bs, am_length := am_length md - 1, am_cloned := drop_bits (am_cloned md1) (ucast ?h)\<rparr>
        else md1\<lparr>am_buckets := bs, am_length := am_length md - 1\<rparr>)"
      using Some wb(3) by (simp add: am_Delete_def am_Get_view w Let_def b'_def bs_def)
    have "bucket_lookup (sm_Get None) metadata_hash (if b' = [] then sm_Delete ?h bs else bs) k = ((am_view md)(key := None)) k" for k
    proof -
      have "map_of b' k = (if k = key then None else map_of b k)" by (simp add: b'_def delete_conv')
      moreover have "am_view md k = map_of (hb.bucket_of (am_buckets md1) (metadata_hash k)) k"
        unfolding wb(2) [symmetric] by (simp add: am_view_def hb.lookup_bucket)
      ultimately show ?thesis unfolding hb.lookup_bucket fun_upd_def
        using wb(4) bs(2,3) ok(2) by (auto simp: hb.bucket_of_delete bs_def hb.bucket_of_set)
    qed
    then have view: "am_view (am_Delete key md) = (am_view md)(key := None)" by (auto simp: am_view_def D fun_eq_iff)
    have "am_length (am_Delete key md) = am_length md - 1" by (simp add: D)
    moreover have "finite (dom (am_view md))" "am_length md = int (card (dom (am_view md)))" using assms by (simp_all add: am_inv_def)
    moreover have "key \<in> dom (am_view md)" using Some by blast
    moreover have "card (dom (am_view md)) > 0" using calculation by (auto simp: card_gt_0_iff)
    moreover have "hb.buckets_ok metadata_hash (am_buckets (am_Delete key md))" using bs(1) by (simp add: D hb.drop_bucket_ok)
    moreover have "sm_view (am_buckets (am_Delete key md)) (ucast c) \<noteq> None" if "has_bit (am_cloned (am_Delete key md)) c" for c
    proof -
      have "has_bit (am_cloned md1) c" "b' = [] \<longrightarrow> c \<noteq> ucast ?h" using that by (auto simp: D split: if_splits)
      then have "sm_view (am_buckets md1) (ucast c) \<noteq> None" using wb(1) by (simp add: am_inv_def)
      moreover have "ucast c \<noteq> ?h" if "c \<noteq> ucast ?h" using that byte_ucast [of c] by auto
      ultimately show ?thesis using \<open>b' = [] \<longrightarrow> c \<noteq> ucast ?h\<close> bs(2)
        by (auto simp: D bs_def sm_view_Set shards.view_delete)
    qed
    ultimately have "am_inv (am_Delete key md)"
      unfolding am_inv_def view by (simp add: card_Diff_singleton)
    with view show ?thesis by blast
  qed
  then show "am_inv (am_Delete key md)" "am_view (am_Delete key md) = (am_view md)(key := None)" by simp_all
qed

lemma metadata_start: "am_inv new_metadata" "am_view new_metadata = (\<lambda>_. None)"
proof -
  show v: "am_view new_metadata = (\<lambda>_. None)"
    by (rule ext) (simp add: am_view_def new_metadata_def bucket_lookup_def sm_lookup_view new_shard_maps)
  show "am_inv new_metadata"
    unfolding am_inv_def v by (simp add: new_metadata_def hb.buckets_ok_def new_shard_maps)
qed

lemma fork_law: "am_inv md \<Longrightarrow> am_inv (am_Fork (Some md)) \<and> am_view (am_Fork (Some md)) = am_view md"
proof -
  assume md: "am_inv md"
  have v: "am_view (am_Fork (Some md)) = am_view md"
    by (rule ext) (simp add: am_view_def am_Fork_def bucket_lookup_def sm_lookup_view)
  show ?thesis unfolding am_inv_def v using md by (simp add: am_Fork_def am_inv_def hb.buckets_ok_def)
qed

lemma am_All_props:
  assumes "am_inv md"
  shows "distinct (map fst (am_All (Some md)))" "map_of (am_All (Some md)) = am_view md"
proof -
  have "hb.buckets_ok metadata_hash (am_buckets md)" using assms by (simp add: am_inv_def)
  from hb.all_entries_law [OF this] show "distinct (map fst (am_All (Some md)))" "map_of (am_All (Some md)) = am_view md"
    by (simp_all add: am_All_def am_view_def)
qed

interpretation metadata: key_table None new_metadata "\<lambda>md key. fst (am_Get (Some md) key)" "\<lambda>md key. snd (am_Get (Some md) key)"
  am_Set am_Delete "\<lambda>md. am_Len (Some md)" "\<lambda>md. am_All (Some md)" am_view am_inv
proof
  show "am_Len (Some md) = int (card (dom (am_view md)))" if "am_inv md" for md using that by (simp add: am_Len_def am_inv_def)
qed (simp_all add: metadata_start am_Set_law am_Delete_law am_All_props am_Get_view split: option.splits)

section \<open>Properties\<close>

datatype am_op = AmSet string goBytes | AmDelete string | AmFork

fun am_step :: "am_op \<Rightarrow> AppMetadata \<Rightarrow> AppMetadata" where
  "am_step (AmSet key v) md = am_Set key v md"
| "am_step (AmDelete key) md = am_Delete key md"
| "am_step AmFork md = am_Fork (Some md)"

fun am_meaning :: "am_op \<Rightarrow> (string \<Rightarrow> goBytes option) \<Rightarrow> string \<Rightarrow> goBytes option" where
  "am_meaning (AmSet key v) f = f(key \<mapsto> v)"
| "am_meaning (AmDelete key) f = f(key := None)"
| "am_meaning AmFork f = f"

definition am_run :: "am_op list \<Rightarrow> AppMetadata" where
  "am_run ops = fold am_step ops new_metadata"

lemma am_run_laws: "am_inv (am_run ops)" "am_view (am_run ops) = fold am_meaning ops (\<lambda>_. None)"
proof -
  have "am_inv (fold am_step ops md) \<and> am_view (fold am_step ops md) = fold am_meaning ops (am_view md)" if "am_inv md" for md
    using that
  proof (induction ops arbitrary: md)
    case (Cons op ops)
    have "am_inv (am_step op md) \<and> am_view (am_step op md) = am_meaning op (am_view md)"
      using Cons.prems by (cases op) (simp_all add: am_Set_law am_Delete_law fork_law)
    with Cons.IH [of "am_step op md"] show ?case by simp
  qed simp
  from this [OF metadata_start(1)] show "am_inv (am_run ops)" "am_view (am_run ops) = fold am_meaning ops (\<lambda>_. None)"
    by (simp_all add: am_run_def metadata_start(2))
qed

lemma clone_metadata:
  assumes "am_inv md"
  shows "am_inv (CloneAppMetadata (Some md))" "am_view (CloneAppMetadata (Some md)) = am_view md"
proof -
  have r: "CloneAppMetadata (Some md) = am_run (map (\<lambda>(key, v). AmSet key v) (am_All (Some md)))"
    unfolding CloneAppMetadata_def am_run_def fold_map by (rule fold_cong) (auto simp: fun_eq_iff)
  have "fold am_meaning (map (\<lambda>(key, v). AmSet key v) l) f = f ++ map_of (rev l)" for l f
    by (induction l arbitrary: f) auto
  moreover have "map_of (rev (am_All (Some md))) = am_view md"
    using am_All_props [OF assms] map_of_inject_set [of "rev (am_All (Some md))" "am_All (Some md)"] by (simp add: rev_map [symmetric])
  ultimately show "am_inv (CloneAppMetadata (Some md))" "am_view (CloneAppMetadata (Some md)) = am_view md"
    unfolding r by (simp_all add: am_run_laws)
qed

text \<open>
  C27: Application metadata refines a map from strings to byte values, for any sequence of \<^verbatim>\<open>Set\<close>, \<^verbatim>\<open>Delete\<close> and
  \<^verbatim>\<open>Fork\<close> and whatever keys collide under the 8-bit hash: lookups tell a stored nil from an absent key, \<^verbatim>\<open>Len\<close>
  counts the keys, iteration yields each once, and \<^verbatim>\<open>CloneAppMetadata\<close> gives a table with the same contents.
\<close>

theorem app_metadata_refines:
  "am_Get (Some (am_run ops)) key = (case fold am_meaning ops (\<lambda>_. None) key of None \<Rightarrow> (None, False) | Some v \<Rightarrow> (v, True)) \<and>
   am_Len (Some (am_run ops)) = int (card (dom (fold am_meaning ops (\<lambda>_. None)))) \<and>
   distinct (map fst (am_All (Some (am_run ops)))) \<and> map_of (am_All (Some (am_run ops))) = fold am_meaning ops (\<lambda>_. None) \<and>
   am_Get (Some (CloneAppMetadata (Some (am_run ops)))) key = am_Get (Some (am_run ops)) key"
  using metadata.len_view [OF am_run_laws(1), of ops] am_All_props [OF am_run_laws(1), of ops] clone_metadata [OF am_run_laws(1), of ops]
  by (simp add: am_Get_view am_run_laws(2))

end
