(* ===== verification/StringPostings.thy ===== *)
theory StringPostings
  imports AppMetadata
begin

text \<open>
  Posting lists (\<^verbatim>\<open>StringPostings\<close> of \<^verbatim>\<open>internal/store/store.go\<close>): for each label or type the set of entities that
  carry it. A short list is a Go map of identifiers, a list of more than 64 is a sharded map; lists live in
  hash buckets as application metadata does. A set of identifiers held as a Go map is a list without
  repetitions, in the order the runtime happens to iterate it.
\<close>

section \<open>Posting lists\<close>

definition smallPostingLimit :: nat where
  "smallPostingLimit = 64"

record postingList =
  pl_small :: "u64 list option"
  pl_large :: "unit ShardMap"

definition zero_posting :: postingList where
  "zero_posting = \<lparr>pl_small = None, pl_large = zero_shard_map\<rparr>"

definition pl_len :: "postingList \<Rightarrow> int" where
  "pl_len l = (if sm_root (pl_large l) \<noteq> None then sm_Len (pl_large l)
     else case pl_small l of None \<Rightarrow> 0 | Some xs \<Rightarrow> int (length xs))"

definition pl_has :: "postingList \<Rightarrow> u64 \<Rightarrow> bool" where
  "pl_has l ident = (if sm_root (pl_large l) \<noteq> None then sm_Has (pl_large l) ident
     else case pl_small l of None \<Rightarrow> False | Some xs \<Rightarrow> ident \<in> set xs)"

definition pl_all :: "postingList \<Rightarrow> u64 list" where
  "pl_all l = (if sm_root (pl_large l) \<noteq> None then map fst (sm_All (pl_large l))
     else case pl_small l of None \<Rightarrow> [] | Some xs \<Rightarrow> xs)"

section \<open>Operations\<close>

record StringPostings =
  sp_buckets :: "postingList bucket option ShardMap"
  sp_clonedHashes :: "u64 list option"
  sp_clonedKeys :: "string list option"

definition NewStringPostings :: StringPostings where
  "NewStringPostings = \<lparr>sp_buckets = NewShardMap, sp_clonedHashes = None, sp_clonedKeys = None\<rparr>"

definition sp_Fork :: "StringPostings \<Rightarrow> StringPostings" where
  "sp_Fork p = \<lparr>sp_buckets = sm_Fork (sp_buckets p), sp_clonedHashes = None, sp_clonedKeys = None\<rparr>"

text \<open>\<^verbatim>\<open>bucket[key]\<close> of a possibly nil bucket.\<close>

definition bucket_entry :: "postingList bucket option \<Rightarrow> string \<Rightarrow> postingList" where
  "bucket_entry b key = (case b of
     None \<Rightarrow> zero_posting
   | Some l \<Rightarrow> (case map_of l key of None \<Rightarrow> zero_posting | Some x \<Rightarrow> x))"

definition sp_list :: "StringPostings \<Rightarrow> string \<Rightarrow> postingList" where
  "sp_list p key = bucket_entry (sm_Get None (sp_buckets p) (hashString key)) key"

definition sp_Get :: "StringPostings \<Rightarrow> string \<Rightarrow> u64 list" where
  "sp_Get p key = sort (pl_all (sp_list p key))"

definition sp_Len :: "StringPostings \<Rightarrow> string \<Rightarrow> int" where
  "sp_Len p key = pl_len (sp_list p key)"

definition sp_All :: "StringPostings \<Rightarrow> string \<Rightarrow> u64 list" where
  "sp_All p key = pl_all (sp_list p key)"

definition sp_Keys :: "StringPostings \<Rightarrow> string list" where
  "sp_Keys p = concat (map (\<lambda>(hash, bucket). case bucket of None \<Rightarrow> [] | Some b \<Rightarrow> map fst b) (sm_All (sp_buckets p)))"

text \<open>\<^verbatim>\<open>postings.buckets.Get(hash)[key] = list\<close>, in place; writing into a nil map panics (\<open>None\<close>).\<close>

definition put_list :: "string \<Rightarrow> postingList \<Rightarrow> StringPostings \<Rightarrow> StringPostings option" where
  "put_list key l p = (case sm_Get None (sp_buckets p) (hashString key) of
     None \<Rightarrow> None
   | Some b \<Rightarrow> Some (p\<lparr>sp_buckets := sm_Set (hashString key) (Some (AList.update key l b)) (sp_buckets p)\<rparr>))"

definition own_list :: "postingList \<Rightarrow> postingList" where
  "own_list l = (if sm_root (pl_large l) \<noteq> None then l\<lparr>pl_large := sm_Fork (pl_large l)\<rparr>
     else case pl_small l of None \<Rightarrow> l\<lparr>pl_small := Some []\<rparr> | Some xs \<Rightarrow> l\<lparr>pl_small := Some xs\<rparr>)"

definition sp_writable :: "string \<Rightarrow> StringPostings \<Rightarrow> (StringPostings \<times> postingList) option" where
  "sp_writable key p =
     (let hash = hashString key;
          p1 = p\<lparr>sp_buckets := sm_CloneShardOnce hash (sp_buckets p)\<rparr>;
          hashes = (case sp_clonedHashes p of None \<Rightarrow> [] | Some c \<Rightarrow> c);
          keys = (case sp_clonedHashes p of None \<Rightarrow> [] | Some _ \<Rightarrow> (case sp_clonedKeys p of None \<Rightarrow> [] | Some c \<Rightarrow> c));
          p2 = (if hash \<in> set hashes then p1\<lparr>sp_clonedHashes := Some hashes, sp_clonedKeys := Some keys\<rparr>
                else p1\<lparr>sp_buckets := sm_Set hash (Some (case sm_Get None (sp_buckets p1) hash of None \<Rightarrow> [] | Some b \<Rightarrow> b)) (sp_buckets p1),
                       sp_clonedHashes := Some (hash # hashes), sp_clonedKeys := Some keys\<rparr>)
      in if key \<in> set keys then Some (p2, sp_list p2 key)
         else (case put_list key (own_list (sp_list p2 key)) p2 of
                 None \<Rightarrow> None
               | Some p3 \<Rightarrow> Some (p3\<lparr>sp_clonedKeys := Some (key # keys)\<rparr>, sp_list p3 key)))"

text \<open>Adding an identifier to an owned list; \<^verbatim>\<open>list.small[id] = struct{}{}\<close> panics on a nil map.\<close>

definition pl_add :: "u64 \<Rightarrow> postingList \<Rightarrow> postingList option" where
  "pl_add ident l =
     (if sm_root (pl_large l) \<noteq> None
      then Some (l\<lparr>pl_large := sm_Set ident () (sm_CloneShardOnce ident (pl_large l))\<rparr>)
      else case pl_small l of
        None \<Rightarrow> None
      | Some xs \<Rightarrow>
          let xs' = (if ident \<in> set xs then xs else xs @ [ident]) in
          Some (if length xs' > smallPostingLimit
                then l\<lparr>pl_large := fold (\<lambda>i. sm_Set i ()) xs' newPostingShardMap, pl_small := None\<rparr>
                else l\<lparr>pl_small := Some xs'\<rparr>))"

definition pl_remove :: "u64 \<Rightarrow> postingList \<Rightarrow> postingList" where
  "pl_remove ident l =
     (if sm_root (pl_large l) \<noteq> None
      then l\<lparr>pl_large := sm_Delete ident (sm_CloneShardOnce ident (pl_large l))\<rparr>
      else l\<lparr>pl_small := map_option (removeAll ident) (pl_small l)\<rparr>)"

definition sp_Add :: "string \<Rightarrow> u64 \<Rightarrow> StringPostings \<Rightarrow> StringPostings option" where
  "sp_Add key ident p =
     (case sp_writable key p of
        None \<Rightarrow> None
      | Some (p1, l) \<Rightarrow> (case pl_add ident l of None \<Rightarrow> None | Some l' \<Rightarrow> put_list key l' p1))"

definition sp_Remove :: "string \<Rightarrow> u64 \<Rightarrow> StringPostings \<Rightarrow> StringPostings option" where
  "sp_Remove key ident p =
     (if \<not> pl_has (sp_list p key) ident then Some p
      else case sp_writable key p of
        None \<Rightarrow> None
      | Some (p1, l) \<Rightarrow>
          let hash = hashString key; l' = pl_remove ident l in
          (case sm_Get None (sp_buckets p1) hash of
             None \<Rightarrow> None
           | Some bucket \<Rightarrow>
               if pl_len l' = 0 then
                 let bucket' = AList.delete key bucket;
                     p2 = p1\<lparr>sp_buckets := sm_Set hash (Some bucket') (sp_buckets p1),
                            sp_clonedKeys := map_option (removeAll key) (sp_clonedKeys p1)\<rparr>
                 in Some (if bucket' = []
                          then p2\<lparr>sp_buckets := sm_Delete hash (sp_buckets p2),
                                 sp_clonedHashes := map_option (removeAll hash) (sp_clonedHashes p2)\<rparr>
                          else p2)
               else put_list key l' p1))"

section \<open>One posting list\<close>

definition pl_ids :: "postingList \<Rightarrow> u64 set" where
  "pl_ids l = set (pl_all l)"

definition pl_ok :: "postingList \<Rightarrow> bool" where
  "pl_ok l \<longleftrightarrow> (if sm_root (pl_large l) \<noteq> None then sm_inv (pl_large l) else case pl_small l of None \<Rightarrow> False | Some xs \<Rightarrow> distinct xs)"

lemma zero_posting_simps [simp]: "pl_ids zero_posting = {}" "pl_all zero_posting = []" "pl_len zero_posting = 0" "\<not> pl_has zero_posting i"
  by (simp_all add: pl_ids_def pl_all_def pl_len_def pl_has_def zero_posting_def zero_shard_map_def)

lemma large_keys:
  assumes "sm_inv m"
  shows "set (map fst (sm_All m)) = dom (sm_view m)" "distinct (map fst (sm_All m))" "sm_Len m = int (card (dom (sm_view m)))"
  using sm_All_props [OF assms] dom_map_of_conv_image_fst [of "sm_All m"] shards.len_view [OF assms] by simp_all

lemma pl_ok_props:
  assumes "pl_ok l"
  shows "distinct (pl_all l)" "pl_len l = int (length (pl_all l))" "pl_has l i \<longleftrightarrow> i \<in> pl_ids l"
proof -
  have "distinct (pl_all l) \<and> pl_len l = int (length (pl_all l)) \<and> (pl_has l i \<longleftrightarrow> i \<in> pl_ids l)"
  proof (cases "sm_root (pl_large l)")
    case None
    then show ?thesis using assms by (auto simp: pl_ok_def pl_all_def pl_len_def pl_has_def pl_ids_def split: option.splits)
  next
    case (Some r)
    then have inv: "sm_inv (pl_large l)" using assms by (simp add: pl_ok_def)
    have "length (sm_All (pl_large l)) = card (dom (sm_view (pl_large l)))"
      using large_keys(1,2) [OF inv] distinct_card [of "map fst (sm_All (pl_large l))"] by simp
    then show ?thesis using large_keys [OF inv] Some
      by (auto simp: pl_all_def pl_len_def pl_has_def pl_ids_def sm_lookup_view domIff)
  qed
  then show "distinct (pl_all l)" "pl_len l = int (length (pl_all l))" "pl_has l i \<longleftrightarrow> i \<in> pl_ids l" by simp_all
qed

lemma pl_ids_cases:
  "sm_root (pl_large l) \<noteq> None \<Longrightarrow> sm_inv (pl_large l) \<Longrightarrow> pl_ids l = dom (sm_view (pl_large l))"
  "sm_root (pl_large l) = None \<Longrightarrow> pl_ids l = (case pl_small l of None \<Rightarrow> {} | Some xs \<Rightarrow> set xs)"
  using large_keys(1) [of "pl_large l"] by (auto simp: pl_ids_def pl_all_def split: option.splits)

lemma root_kept [simp]:
  "sm_root (sm_Fork m) = sm_root m" "sm_root (sm_Set i v m) \<noteq> None" "sm_root m \<noteq> None \<Longrightarrow> sm_root (sm_CloneShardOnce i m) \<noteq> None"
  "sm_root m \<noteq> None \<Longrightarrow> sm_root (sm_Delete i m) \<noteq> None"
  by (auto simp: sm_Fork_def sm_Set_def sm_CloneShardOnce_def sm_Delete_def put_shard_def ensure_shard_def drop_shard_def Let_def
      split: prod.splits option.splits if_splits)

lemma own_list_law:
  assumes "pl_ok l \<or> l = zero_posting"
  shows "pl_ok (own_list l) \<and> pl_ids (own_list l) = pl_ids l"
proof (cases "sm_root (pl_large l)")
  case None
  then show ?thesis using assms
    by (auto simp: own_list_def pl_ok_def pl_ids_cases zero_posting_def split: option.splits)
next
  case (Some r)
  then have inv: "sm_inv (pl_large l)" using assms by (auto simp: pl_ok_def zero_posting_def zero_shard_map_def)
  then show ?thesis using Some by (simp add: own_list_def pl_ok_def pl_ids_cases)
qed

lemma dom_writes: "dom (sm_view (sm_Set i v m)) = insert i (dom (sm_view m))"
  "sm_inv m \<Longrightarrow> dom (sm_view (sm_Delete i m)) = dom (sm_view m) - {i}"
  by (auto simp: sm_view_Set shards.view_delete split: if_splits)

lemma fold_set_large:
  "sm_inv m \<Longrightarrow> sm_root m \<noteq> None \<Longrightarrow> sm_inv (fold (\<lambda>i. sm_Set i ()) xs m) \<and> sm_root (fold (\<lambda>i. sm_Set i ()) xs m) \<noteq> None \<and>
   dom (sm_view (fold (\<lambda>i. sm_Set i ()) xs m)) = dom (sm_view m) \<union> set xs"
proof (induction xs arbitrary: m)
  case (Cons x xs)
  from Cons.IH [of "sm_Set x () m"] Cons.prems(1) show ?case by (simp add: sm_inv_Set dom_writes)
qed simp

lemma pl_add_law:
  assumes "pl_ok l"
  obtains l' where "pl_add i l = Some l'" "pl_ok l'" "pl_ids l' = insert i (pl_ids l)"
proof (cases "sm_root (pl_large l)")
  case None
  then obtain xs where xs: "pl_small l = Some xs" "distinct xs" using assms by (auto simp: pl_ok_def split: option.splits)
  define ys where "ys = (if i \<in> set xs then xs else xs @ [i])"
  have ys: "distinct ys" "set ys = insert i (set xs)" using xs(2) by (auto simp: ys_def)
  let ?m = "fold (\<lambda>i. sm_Set i ()) ys newPostingShardMap"
  have m: "sm_inv ?m" "sm_root ?m \<noteq> None" "dom (sm_view ?m) = set ys"
    using fold_set_large [of newPostingShardMap ys] new_shard_maps by (simp_all add: newPostingShardMap_def)
  have "pl_add i l = Some (if length ys > smallPostingLimit then l\<lparr>pl_large := ?m, pl_small := None\<rparr> else l\<lparr>pl_small := Some ys\<rparr>)"
    using None xs by (simp add: pl_add_def ys_def Let_def)
  moreover have "pl_ok (l\<lparr>pl_large := ?m, pl_small := None\<rparr>)" "pl_ids (l\<lparr>pl_large := ?m, pl_small := None\<rparr>) = set ys"
    using m by (simp_all add: pl_ok_def pl_ids_cases)
  moreover have "pl_ok (l\<lparr>pl_small := Some ys\<rparr>)" "pl_ids (l\<lparr>pl_small := Some ys\<rparr>) = set ys" "pl_ids l = set xs"
    using None ys(1) xs(1) by (simp_all add: pl_ok_def pl_ids_cases)
  ultimately show thesis using that ys(2) by (cases "length ys > smallPostingLimit") simp_all
next
  case (Some r)
  let ?l = "l\<lparr>pl_large := sm_Set i () (sm_CloneShardOnce i (pl_large l))\<rparr>"
  have inv: "sm_inv (pl_large l)" using assms Some by (simp add: pl_ok_def)
  then have "sm_inv (pl_large ?l)" "sm_root (pl_large ?l) \<noteq> None" by (simp_all add: sm_inv_Set)
  then have "pl_ok ?l" "pl_ids ?l = insert i (pl_ids l)"
    using inv Some pl_ids_cases(1) [of ?l] pl_ids_cases(1) [of l] by (simp_all add: pl_ok_def dom_writes)
  moreover have "pl_add i l = Some ?l" using Some by (simp add: pl_add_def)
  ultimately show thesis using that by blast
qed

lemma pl_remove_law:
  assumes "pl_ok l"
  shows "pl_ok (pl_remove i l)" "pl_ids (pl_remove i l) = pl_ids l - {i}"
proof -
  have "pl_ok (pl_remove i l) \<and> pl_ids (pl_remove i l) = pl_ids l - {i}"
  proof (cases "sm_root (pl_large l)")
    case None
    then show ?thesis using assms by (auto simp: pl_ok_def pl_remove_def pl_ids_cases distinct_removeAll split: option.splits)
  next
    case (Some r)
    then have inv: "sm_inv (pl_large l)" using assms by (simp add: pl_ok_def)
    have "sm_root (sm_CloneShardOnce i (pl_large l)) \<noteq> None" using Some by (intro root_kept) simp
    then have "sm_root (sm_Delete i (sm_CloneShardOnce i (pl_large l))) \<noteq> None" by (rule root_kept)
    then show ?thesis using Some inv by (simp add: pl_ok_def pl_remove_def pl_ids_cases sm_inv_Delete dom_writes)
  qed
  then show "pl_ok (pl_remove i l)" "pl_ids (pl_remove i l) = pl_ids l - {i}" by simp_all
qed

section \<open>All posting lists\<close>

abbreviation lists :: "StringPostings \<Rightarrow> string \<Rightarrow> postingList option" where
  "lists p \<equiv> bucket_lookup (sm_Get None) hashString (sp_buckets p)"

text \<open>What holds also in the middle of an operation, when a list may be empty.\<close>

definition sp_mid :: "StringPostings \<Rightarrow> bool" where
  "sp_mid p \<longleftrightarrow> hb.buckets_ok hashString (sp_buckets p) \<and> (\<forall>key l. lists p key = Some l \<longrightarrow> pl_ok l) \<and>
     (\<forall>c. sp_clonedHashes p = Some c \<longrightarrow> (\<forall>hash \<in> set c. sm_view (sp_buckets p) hash \<noteq> None)) \<and>
     (\<forall>c. sp_clonedHashes p \<noteq> None \<longrightarrow> sp_clonedKeys p = Some c \<longrightarrow> (\<forall>key \<in> set c. lists p key \<noteq> None))"

definition sp_ids :: "StringPostings \<Rightarrow> string \<Rightarrow> u64 set" where
  "sp_ids p key = (case lists p key of None \<Rightarrow> {} | Some l \<Rightarrow> pl_ids l)"

definition sp_inv :: "StringPostings \<Rightarrow> bool" where
  "sp_inv p \<longleftrightarrow> sp_mid p \<and> (\<forall>key l. lists p key = Some l \<longrightarrow> pl_ids l \<noteq> {})"

lemma sp_list_lists: "sp_list p key = (case lists p key of None \<Rightarrow> zero_posting | Some l \<Rightarrow> l)"
  by (cases "sm_Get None (sp_buckets p) (hashString key)") (simp_all add: sp_list_def bucket_entry_def bucket_lookup_def)

lemma sp_list_ids: "pl_ids (sp_list p key) = sp_ids p key"
  by (simp add: sp_list_lists sp_ids_def split: option.splits)

lemma put_list_law:
  assumes "sp_mid p" "sm_view (sp_buckets p) (hashString key) \<noteq> None" "pl_ok l"
  obtains p' where "put_list key l p = Some p'" "sp_mid p'" "lists p' = (lists p)(key \<mapsto> l)"
    "sp_clonedHashes p' = sp_clonedHashes p" "sp_clonedKeys p' = sp_clonedKeys p"
    "\<And>i. sm_view (sp_buckets p') i \<noteq> None \<longleftrightarrow> sm_view (sp_buckets p) i \<noteq> None"
proof -
  have ok: "hb.buckets_ok hashString (sp_buckets p)" "sm_inv (sp_buckets p)"
    using assms(1) by (simp_all add: sp_mid_def hb.buckets_ok_def)
  obtain v where v: "sm_view (sp_buckets p) (hashString key) = Some v" using assms(2) by blast
  moreover have "bucket_ok hashString (hashString key) v" using ok(1) v by (simp add: hb.buckets_ok_def)
  ultimately obtain b where b: "sm_Get None (sp_buckets p) (hashString key) = Some b"
    by (auto simp: sm_lookup_view bucket_ok_def split: option.splits)
  then have bo: "hb.bucket_of (sp_buckets p) (hashString key) = b" by (simp add: hb.bucket_of_def)
  define p' where "p' = p\<lparr>sp_buckets := sm_Set (hashString key) (Some (AList.update key l b)) (sp_buckets p)\<rparr>"
  note put = hb.put_law [OF ok(1), of key l, unfolded bo]
  have 1: "put_list key l p = Some p'" by (simp add: put_list_def b p'_def)
  have 2: "lists p' = (lists p)(key \<mapsto> l)" using put(2) by (simp add: p'_def)
  have 3: "sm_view (sp_buckets p') i \<noteq> None \<longleftrightarrow> sm_view (sp_buckets p) i \<noteq> None" for i
    using v by (auto simp: p'_def sm_view_Set)
  have c: "sp_clonedHashes p' = sp_clonedHashes p" "sp_clonedKeys p' = sp_clonedKeys p" by (simp_all add: p'_def)
  have "hb.buckets_ok hashString (sp_buckets p')" using put(1) by (simp add: p'_def)
  then have "sp_mid p'" using assms(1,3) unfolding sp_mid_def 2 c 3 by simp
  from that [OF 1 this 2 c 3] show thesis .
qed

lemma start_writing:
  fixes key :: string
  assumes "sp_inv p"
  defines "hash \<equiv> hashString key"
    and "hashes \<equiv> (case sp_clonedHashes p of None \<Rightarrow> [] | Some c \<Rightarrow> c)"
    and "keys \<equiv> (case sp_clonedHashes p of None \<Rightarrow> [] | Some _ \<Rightarrow> (case sp_clonedKeys p of None \<Rightarrow> [] | Some c \<Rightarrow> c))"
    and "p1 \<equiv> p\<lparr>sp_buckets := sm_CloneShardOnce (hashString key) (sp_buckets p)\<rparr>"
  defines "p2 \<equiv> (if hash \<in> set hashes then p1\<lparr>sp_clonedHashes := Some hashes, sp_clonedKeys := Some keys\<rparr>
      else p1\<lparr>sp_buckets := sm_Set hash (Some (case sm_Get None (sp_buckets p1) hash of None \<Rightarrow> [] | Some b \<Rightarrow> b)) (sp_buckets p1),
              sp_clonedHashes := Some (hash # hashes), sp_clonedKeys := Some keys\<rparr>)"
  shows "sp_mid p2" "lists p2 = lists p" "sm_view (sp_buckets p2) hash \<noteq> None" "sp_clonedKeys p2 = Some keys"
    "\<And>k. k \<in> set keys \<Longrightarrow> lists p k \<noteq> None" "sp_clonedHashes p2 \<noteq> None"
proof -
  have ok: "hb.buckets_ok hashString (sp_buckets p)" "sm_inv (sp_buckets p)" "\<And>k l. lists p k = Some l \<Longrightarrow> pl_ok l"
    using assms(1) by (simp_all add: sp_inv_def sp_mid_def hb.buckets_ok_def)
  have hs: "\<And>i. i \<in> set hashes \<Longrightarrow> sm_view (sp_buckets p) i \<noteq> None"
    using assms(1) by (cases "sp_clonedHashes p") (simp_all add: sp_inv_def sp_mid_def hashes_def)
  note ok = ok hs
  show keys: "\<And>k. k \<in> set keys \<Longrightarrow> lists p k \<noteq> None"
    using assms(1) by (cases "sp_clonedHashes p"; cases "sp_clonedKeys p") (simp_all add: sp_inv_def sp_mid_def keys_def)
  let ?b = "sm_CloneShardOnce (hashString key) (sp_buckets p)"
  have b: "hb.buckets_ok hashString ?b" "sm_inv ?b" "hb.bucket_of ?b = hb.bucket_of (sp_buckets p)"
    using ok(1,2) by (simp_all add: hb.buckets_ok_def hb.bucket_of_def sm_lookup_view fun_eq_iff)
  have e: "(case sm_Get None ?b hash of None \<Rightarrow> [] | Some b \<Rightarrow> b) = hb.bucket_of ?b hash" by (simp add: hb.bucket_of_def)
  let ?b2 = "sm_Set hash (Some (hb.bucket_of ?b hash)) ?b"
  have b2: "hb.buckets_ok hashString ?b2" "hb.bucket_of ?b2 = hb.bucket_of (sp_buckets p)"
    using hb.store_bucket_ok [OF b(1) hb.bucket_of_ok [OF b(1)], of hash]
    by (simp_all add: fun_eq_iff hb.bucket_of_set [OF b(2)] b(3))
  have bk: "sp_buckets p2 = (if hash \<in> set hashes then ?b else ?b2)" by (simp add: p2_def p1_def e)
  have "hb.bucket_of (sp_buckets p2) = hb.bucket_of (sp_buckets p)"
    unfolding bk using b(3) b2(2) by (cases "hash \<in> set hashes") simp_all
  then show l: "lists p2 = lists p" by (intro ext) (simp add: hb.lookup_bucket)
  show v: "sm_view (sp_buckets p2) hash \<noteq> None" using ok(4) by (simp add: bk sm_view_Set)
  show k: "sp_clonedKeys p2 = Some keys" "sp_clonedHashes p2 \<noteq> None" by (simp_all add: p2_def p1_def)
  have "sm_view (sp_buckets p2) i \<noteq> None" if "sp_clonedHashes p2 = Some c" "i \<in> set c" for c i
    using that v ok(4) [of i] by (auto simp: p2_def p1_def bk sm_view_Set split: if_splits)
  then show "sp_mid p2" using b(1) b2(1) ok(3) keys unfolding sp_mid_def l k by (auto simp: bk)
qed

lemma writable_law:
  assumes "sp_inv p"
  obtains p' l where "sp_writable key p = Some (p', l)" "sp_mid p'" "lists p' = (lists p)(key \<mapsto> l)" "pl_ok l"
    "pl_ids l = sp_ids p key" "sm_view (sp_buckets p') (hashString key) \<noteq> None"
proof -
  let ?hashes = "case sp_clonedHashes p of None \<Rightarrow> [] | Some c \<Rightarrow> c"
  let ?keys = "case sp_clonedHashes p of None \<Rightarrow> [] | Some _ \<Rightarrow> (case sp_clonedKeys p of None \<Rightarrow> [] | Some c \<Rightarrow> c)"
  define p1 where "p1 = p\<lparr>sp_buckets := sm_CloneShardOnce (hashString key) (sp_buckets p)\<rparr>"
  define p2 where "p2 = (if hashString key \<in> set ?hashes then p1\<lparr>sp_clonedHashes := Some ?hashes, sp_clonedKeys := Some ?keys\<rparr>
      else p1\<lparr>sp_buckets := sm_Set (hashString key) (Some (case sm_Get None (sp_buckets p1) (hashString key) of None \<Rightarrow> [] | Some b \<Rightarrow> b)) (sp_buckets p1),
              sp_clonedHashes := Some (hashString key # ?hashes), sp_clonedKeys := Some ?keys\<rparr>)"
  note st = start_writing(1-4) [OF assms, where key = key, folded p1_def, folded p2_def] start_writing(5) [OF assms]
  have w: "sp_writable key p = (if key \<in> set ?keys then Some (p2, sp_list p2 key)
      else (case put_list key (own_list (sp_list p2 key)) p2 of None \<Rightarrow> None
            | Some p3 \<Rightarrow> Some (p3\<lparr>sp_clonedKeys := Some (key # ?keys)\<rparr>, sp_list p3 key)))"
    unfolding sp_writable_def Let_def p2_def p1_def by (rule refl)
  have sl: "sp_list p2 key = (case lists p key of None \<Rightarrow> zero_posting | Some l \<Rightarrow> l)" by (simp add: sp_list_lists st(2))
  have okl: "pl_ok (sp_list p2 key) \<or> sp_list p2 key = zero_posting" "pl_ids (sp_list p2 key) = sp_ids p key"
    using st(1,2) by (auto simp: sp_mid_def sl sp_ids_def split: option.splits)
  show thesis
  proof (cases "key \<in> set ?keys")
    case True
    then obtain l where l: "lists p key = Some l" using st(5) by blast
    have "lists p2 = (lists p)(key \<mapsto> l)" by (auto simp: st(2) l)
    moreover have "pl_ok l" using st(1) l unfolding sp_mid_def st(2) by blast
    ultimately show thesis using that [of p2 l] w True st(1,3) l by (simp add: sl sp_ids_def)
  next
    case False
    have "pl_ok (own_list (sp_list p2 key))" "pl_ids (own_list (sp_list p2 key)) = sp_ids p key"
      using own_list_law [OF okl(1)] okl(2) by simp_all
    moreover from put_list_law [OF st(1,3) calculation(1)] obtain p3 where
      p3: "put_list key (own_list (sp_list p2 key)) p2 = Some p3" "sp_mid p3" "lists p3 = (lists p2)(key \<mapsto> own_list (sp_list p2 key))"
        "sp_clonedHashes p3 = sp_clonedHashes p2" "sp_clonedKeys p3 = sp_clonedKeys p2"
        "\<And>i. sm_view (sp_buckets p3) i \<noteq> None \<longleftrightarrow> sm_view (sp_buckets p2) i \<noteq> None" by metis
    let ?p = "p3\<lparr>sp_clonedKeys := Some (key # ?keys)\<rparr>"
    have "lists ?p k \<noteq> None" if "k \<in> set (key # ?keys)" for k using that st(5) [of k] by (simp add: p3(3) st(2)) blast
    then have "sp_mid ?p" using p3(2) unfolding sp_mid_def by simp
    have sl3: "sp_list p3 key = own_list (sp_list p2 key)" unfolding sp_list_lists [of p3] by (simp add: p3(3))
    have wr: "sp_writable key p = Some (?p, own_list (sp_list p2 key))"
      unfolding w if_not_P [OF False] by (simp only: p3(1) option.case sl3)
    have vw: "sm_view (sp_buckets ?p) (hashString key) \<noteq> None" using p3(6) st(3) by simp
    have ls: "lists ?p = (lists p)(key \<mapsto> own_list (sp_list p2 key))" by (simp add: p3(3) st(2))
    show thesis by (rule that [OF wr \<open>sp_mid ?p\<close> ls calculation vw])
  qed
qed

lemma sp_Add_law:
  assumes "sp_inv p"
  obtains p' where "sp_Add key i p = Some p'" "sp_inv p'" "sp_ids p' = (sp_ids p)(key := insert i (sp_ids p key))"
proof -
  from writable_law [OF assms, of key] obtain p1 l where
    w: "sp_writable key p = Some (p1, l)" "sp_mid p1" "lists p1 = (lists p)(key \<mapsto> l)" "pl_ok l" "pl_ids l = sp_ids p key"
      "sm_view (sp_buckets p1) (hashString key) \<noteq> None" .
  from pl_add_law [OF w(4), of i] obtain l' where l': "pl_add i l = Some l'" "pl_ok l'" "pl_ids l' = insert i (pl_ids l)" .
  from put_list_law [OF w(2,6) l'(2)] obtain p' where
    p': "put_list key l' p1 = Some p'" "sp_mid p'" "lists p' = (lists p1)(key \<mapsto> l')" by metis
  have "lists p' = (lists p)(key \<mapsto> l')" by (simp add: p'(3) w(3))
  then have "sp_ids p' = (sp_ids p)(key := insert i (sp_ids p key))" "\<forall>k x. lists p' k = Some x \<longrightarrow> pl_ids x \<noteq> {}"
    using assms l'(3) w(5) by (auto simp: sp_ids_def fun_eq_iff sp_inv_def)
  then show thesis using that [of p'] w(1) l'(1) p'(1,2) by (simp add: sp_Add_def sp_inv_def)
qed

lemma remove_last:
  assumes "sp_mid p" "sm_Get None (sp_buckets p) (hashString key) = Some b"
  defines "b' \<equiv> AList.delete key b"
  defines "p2 \<equiv> p\<lparr>sp_buckets := sm_Set (hashString key) (Some b') (sp_buckets p), sp_clonedKeys := map_option (removeAll key) (sp_clonedKeys p)\<rparr>"
  defines "p3 \<equiv> (if b' = [] then p2\<lparr>sp_buckets := sm_Delete (hashString key) (sp_buckets p2),
      sp_clonedHashes := map_option (removeAll (hashString key)) (sp_clonedHashes p2)\<rparr> else p2)"
  shows "sp_mid p3" "lists p3 = (lists p)(key := None)"
proof -
  let ?h = "hashString key"
  have ok: "hb.buckets_ok hashString (sp_buckets p)" "sm_inv (sp_buckets p)"
    using assms(1) by (simp_all add: sp_mid_def hb.buckets_ok_def)
  have bo: "hb.bucket_of (sp_buckets p) ?h = b" using assms(2) by (simp add: hb.bucket_of_def)
  have "bucket_ok hashString ?h (Some b')"
    using hb.bucket_of_ok [OF ok(1), of ?h] set_delete [of key b] unfolding b'_def bo by (auto simp: bucket_ok_def distinct_delete)
  then have s: "hb.buckets_ok hashString (sm_Set ?h (Some b') (sp_buckets p))" "sm_inv (sm_Set ?h (Some b') (sp_buckets p))"
    using ok by (simp_all add: hb.store_bucket_ok sm_inv_Set)
  have bk: "sp_buckets p3 = (if b' = [] then sm_Delete ?h (sm_Set ?h (Some b') (sp_buckets p)) else sm_Set ?h (Some b') (sp_buckets p))"
    by (simp add: p3_def p2_def)
  show l: "lists p3 = (lists p)(key := None)"
  proof
    fix k
    have "map_of b' k = (if k = key then None else map_of b k)" by (simp add: b'_def delete_conv')
    then show "lists p3 k = ((lists p)(key := None)) k"
      unfolding hb.lookup_bucket fun_upd_def bk using bo s(2) ok(2) by (auto simp: hb.bucket_of_delete hb.bucket_of_set)
  qed
  have "sm_view (sp_buckets p3) i \<noteq> None" if "sp_clonedHashes p3 = Some c" "i \<in> set c" for c i
  proof (cases "b' = []")
    case True
    with that obtain d where "sp_clonedHashes p = Some d" "i \<in> set d" "i \<noteq> ?h" by (auto simp: p3_def p2_def)
    then show ?thesis using assms(1) True s(2) by (simp add: bk sp_mid_def shards.view_delete sm_view_Set)
  next
    case False
    with that have "sp_clonedHashes p = Some c" by (simp add: p3_def p2_def)
    then show ?thesis using that(2) assms(1) False by (simp add: bk sp_mid_def sm_view_Set)
  qed
  moreover have "lists p3 k \<noteq> None" if "sp_clonedHashes p3 \<noteq> None" "sp_clonedKeys p3 = Some c" "k \<in> set c" for c k
  proof -
    from that obtain d where "sp_clonedHashes p \<noteq> None" "sp_clonedKeys p = Some d" "k \<in> set d" "k \<noteq> key"
      by (cases "b' = []") (auto simp: p3_def p2_def)
    then show ?thesis using assms(1) unfolding l sp_mid_def by simp
  qed
  ultimately show "sp_mid p3"
    using assms(1) s(1) unfolding sp_mid_def l by (auto simp: bk hb.drop_bucket_ok)
qed

lemma sp_Remove_law:
  assumes "sp_inv p"
  obtains p' where "sp_Remove key i p = Some p'" "sp_inv p'" "sp_ids p' = (sp_ids p)(key := sp_ids p key - {i})"
proof (cases "i \<in> sp_ids p key")
  case False
  have "pl_has (sp_list p key) i = (i \<in> sp_ids p key)"
  proof (cases "lists p key")
    case (Some l)
    then have "pl_ok l" using assms by (simp add: sp_inv_def sp_mid_def)
    then show ?thesis using Some by (simp add: sp_list_lists sp_ids_def pl_ok_props)
  qed (simp add: sp_list_lists sp_ids_def)
  with False show thesis using that [of p] assms by (simp add: sp_Remove_def fun_upd_idem)
next
  case True
  then obtain l0 where l0: "lists p key = Some l0" "pl_ok l0" using assms by (auto simp: sp_ids_def sp_inv_def sp_mid_def split: option.splits)
  have has: "pl_has (sp_list p key) i" using True l0 by (simp add: sp_list_lists sp_ids_def pl_ok_props)
  from writable_law [OF assms, of key] obtain p1 l where
    w: "sp_writable key p = Some (p1, l)" "sp_mid p1" "lists p1 = (lists p)(key \<mapsto> l)" "pl_ok l" "pl_ids l = sp_ids p key"
      "sm_view (sp_buckets p1) (hashString key) \<noteq> None" .
  define l' where "l' = pl_remove i l"
  have l': "pl_ok l'" "pl_ids l' = sp_ids p key - {i}" using pl_remove_law [OF w(4)] w(5) by (simp_all add: l'_def)
  have len: "pl_len l' = 0 \<longleftrightarrow> pl_ids l' = {}" using pl_ok_props(2) [OF l'(1)] by (simp add: pl_ids_def)
  from put_list_law [OF w(2,6) l'(1)] obtain p' where
    p': "put_list key l' p1 = Some p'" "sp_mid p'" "lists p' = (lists p1)(key \<mapsto> l')" by metis
  then obtain b where b: "sm_Get None (sp_buckets p1) (hashString key) = Some b" by (auto simp: put_list_def split: option.splits)
  note rl = remove_last [OF w(2) b]
  show thesis
  proof (cases "pl_ids l' = {}")
    case False
    have "lists p' = (lists p)(key \<mapsto> l')" by (simp add: p'(3) w(3))
    then have "sp_ids p' = (sp_ids p)(key := sp_ids p key - {i})" "\<forall>k x. lists p' k = Some x \<longrightarrow> pl_ids x \<noteq> {}"
      using assms l'(2) False by (auto simp: sp_ids_def fun_eq_iff sp_inv_def)
    moreover have "sp_Remove key i p = Some p'" using False len has w(1) b p'(1) by (simp add: sp_Remove_def l'_def)
    ultimately show thesis using that [of p'] p'(2) by (simp add: sp_inv_def)
  next
    case True
    let ?b = "AList.delete key b"
    let ?p2 = "p1\<lparr>sp_buckets := sm_Set (hashString key) (Some ?b) (sp_buckets p1), sp_clonedKeys := map_option (removeAll key) (sp_clonedKeys p1)\<rparr>"
    define p3 where "p3 = (if ?b = [] then ?p2\<lparr>sp_buckets := sm_Delete (hashString key) (sp_buckets ?p2),
      sp_clonedHashes := map_option (removeAll (hashString key)) (sp_clonedHashes ?p2)\<rparr> else ?p2)"
    have "sp_mid p3" "lists p3 = (lists p1)(key := None)" using rl unfolding p3_def by blast+
    then have "sp_mid p3" "lists p3 = (lists p)(key := None)" by (simp_all add: w(3))
    moreover have "sp_Remove key i p = Some p3"
      using True len has w(1) b unfolding sp_Remove_def Let_def p3_def l'_def by simp
    moreover have "sp_ids p3 = (sp_ids p)(key := sp_ids p key - {i})" "\<forall>k x. lists p3 k = Some x \<longrightarrow> pl_ids x \<noteq> {}"
      using assms True l'(2) calculation(2) by (auto simp: sp_ids_def fun_eq_iff sp_inv_def)
    ultimately show thesis using that [of p3] by (simp add: sp_inv_def)
  qed
qed

lemma sp_Fork_law: "sp_inv p \<Longrightarrow> sp_inv (sp_Fork p) \<and> sp_ids (sp_Fork p) = sp_ids p"
proof -
  assume p: "sp_inv p"
  have "lists (sp_Fork p) = lists p" by (rule ext) (simp add: sp_Fork_def bucket_lookup_def sm_lookup_view)
  with p show ?thesis
    by (simp add: sp_inv_def sp_mid_def sp_ids_def fun_eq_iff) (simp add: sp_Fork_def hb.buckets_ok_def)
qed

lemma sp_New_law: "sp_inv NewStringPostings" "sp_ids NewStringPostings = (\<lambda>_. {})"
proof -
  have "lists NewStringPostings = (\<lambda>_. None)" by (simp add: NewStringPostings_def hb.empty_buckets)
  then show "sp_inv NewStringPostings" "sp_ids NewStringPostings = (\<lambda>_. {})"
    by (simp_all add: sp_inv_def sp_mid_def sp_ids_def [abs_def]) (simp add: NewStringPostings_def hb.empty_buckets)
qed

lemma sp_read_laws:
  assumes "sp_inv p"
  shows "sp_Get p key = sorted_list_of_set (sp_ids p key)" "sp_Len p key = int (card (sp_ids p key))"
    "distinct (sp_All p key)" "set (sp_All p key) = sp_ids p key"
    "distinct (sp_Keys p)" "set (sp_Keys p) = {k. sp_ids p k \<noteq> {}}"
proof -
  have l: "distinct (pl_all (sp_list p key)) \<and> pl_len (sp_list p key) = int (length (pl_all (sp_list p key)))"
  proof (cases "lists p key")
    case (Some l)
    then have "pl_ok l" using assms by (simp add: sp_inv_def sp_mid_def)
    then show ?thesis using Some by (simp add: sp_list_lists pl_ok_props)
  qed (simp add: sp_list_lists)
  have s: "set (pl_all (sp_list p key)) = sp_ids p key" using sp_list_ids [of p key] by (simp add: pl_ids_def)
  show "distinct (sp_All p key)" "set (sp_All p key) = sp_ids p key" using l s by (simp_all add: sp_All_def)
  have "sort (pl_all (sp_list p key)) = sorted_list_of_set (set (pl_all (sp_list p key)))"
    using l by (simp add: sorted_list_of_set_sort_remdups distinct_remdups_id)
  then show "sp_Get p key = sorted_list_of_set (sp_ids p key)" by (simp add: sp_Get_def s)
  show "sp_Len p key = int (card (sp_ids p key))" using l s by (simp add: sp_Len_def distinct_card [symmetric])
  have ok: "hb.buckets_ok hashString (sp_buckets p)" using assms by (simp add: sp_inv_def sp_mid_def)
  have k: "sp_Keys p = map fst (concat (map (\<lambda>(i, v). case v of None \<Rightarrow> [] | Some b \<Rightarrow> b) (sm_All (sp_buckets p))))"
    unfolding sp_Keys_def map_concat map_map by (intro arg_cong [of _ _ concat] map_cong) (auto split: option.splits)
  show "distinct (sp_Keys p)" unfolding k by (rule hb.all_entries_law(1) [OF ok])
  have "set (sp_Keys p) = dom (lists p)"
    unfolding k hb.all_entries_law(2) [OF ok, symmetric] by (simp add: dom_map_of_conv_image_fst)
  also have "\<dots> = {k. sp_ids p k \<noteq> {}}" using assms by (auto simp: sp_inv_def sp_ids_def split: option.splits)
  finally show "set (sp_Keys p) = {k. sp_ids p k \<noteq> {}}" .
qed

section \<open>Properties\<close>

datatype sp_op = SpAdd string u64 | SpRemove string u64 | SpFork

fun sp_step :: "sp_op \<Rightarrow> StringPostings \<Rightarrow> StringPostings option" where
  "sp_step (SpAdd key i) p = sp_Add key i p"
| "sp_step (SpRemove key i) p = sp_Remove key i p"
| "sp_step SpFork p = Some (sp_Fork p)"

fun sp_run :: "sp_op list \<Rightarrow> StringPostings \<Rightarrow> StringPostings option" where
  "sp_run [] p = Some p"
| "sp_run (op # ops) p = (case sp_step op p of None \<Rightarrow> None | Some p' \<Rightarrow> sp_run ops p')"

fun sp_meaning :: "sp_op \<Rightarrow> (string \<Rightarrow> u64 set) \<Rightarrow> string \<Rightarrow> u64 set" where
  "sp_meaning (SpAdd key i) f = f(key := insert i (f key))"
| "sp_meaning (SpRemove key i) f = f(key := f key - {i})"
| "sp_meaning SpFork f = f"

lemma sp_run_law:
  "sp_inv p \<Longrightarrow> \<exists>p'. sp_run ops p = Some p' \<and> sp_inv p' \<and> sp_ids p' = fold sp_meaning ops (sp_ids p)"
proof (induction ops arbitrary: p)
  case (Cons op ops)
  have "\<exists>p'. sp_step op p = Some p' \<and> sp_inv p' \<and> sp_ids p' = sp_meaning op (sp_ids p)"
  proof (cases op)
    case (SpAdd key i)
    then show ?thesis using sp_Add_law [OF Cons.prems, of key i] by (metis sp_meaning.simps(1) sp_step.simps(1))
  next
    case (SpRemove key i)
    then show ?thesis using sp_Remove_law [OF Cons.prems, of key i] by (metis sp_meaning.simps(2) sp_step.simps(2))
  qed (use sp_Fork_law [OF Cons.prems] in simp)
  then obtain p' where p': "sp_step op p = Some p'" "sp_inv p'" "sp_ids p' = sp_meaning op (sp_ids p)" by blast
  from Cons.IH [OF p'(2)] show ?case by (simp add: p')
qed simp

text \<open>
  C18: Whatever is added, removed and forked, postings never write into a nil map, and for every key \<^verbatim>\<open>Get\<close> is the
  ascending list of the identifiers added and not removed since, \<^verbatim>\<open>Len\<close> their number and \<^verbatim>\<open>All\<close> each of them once, before
  and after the switch to a sharded map at 65 identifiers; \<^verbatim>\<open>Keys\<close> yields exactly the keys that have identifiers.
\<close>

theorem postings_refine:
  "\<exists>p. sp_run ops NewStringPostings = Some p \<and>
     (let ids = fold sp_meaning ops (\<lambda>_. {}) in
      sp_Get p key = sorted_list_of_set (ids key) \<and> sp_Len p key = int (card (ids key)) \<and>
      distinct (sp_All p key) \<and> set (sp_All p key) = ids key \<and>
      distinct (sp_Keys p) \<and> set (sp_Keys p) = {k. ids k \<noteq> {}})"
proof -
  from sp_run_law [OF sp_New_law(1), of ops] obtain p where
    p: "sp_run ops NewStringPostings = Some p" "sp_inv p" "sp_ids p = fold sp_meaning ops (\<lambda>_. {})"
    unfolding sp_New_law(2) by blast
  show ?thesis unfolding Let_def p(3) [symmetric] using p(1) sp_read_laws [OF p(2)] by blast
qed

end
