(* ===== verification/PagedMap.thy ===== *)
theory PagedMap
  imports KeyTable
begin

unbundle bit_operations_syntax

text \<open>
  The radix table \<^verbatim>\<open>PagedMap[V]\<close> of \<^verbatim>\<open>internal/store/paged_map.go\<close>: identifiers are split
  into a root number, two 7-bit array indices and a 6-bit slot; a page holds 64 slots and a word of
  occupancy bits. Fixed-size Go arrays are functions from the word type of their index range, so no
  index is out of range. A Go map is an association list: the list order stands for the iteration
  order the runtime happens to choose, and no theorem below restricts it. The zero value of the
  element type is the parameter \<open>z\<close>. Copy-on-write sharing (\<^verbatim>\<open>Fork\<close>, \<^verbatim>\<open>CloneShardOnce\<close>) has
  no effect on contents and is the subject of a theory of its own.
\<close>

section \<open>Data\<close>

record 'v valuePage =
  occupied :: u64
  pvalues :: "slot6 \<Rightarrow> 'v"

type_synonym 'v pageBucket = "index7 \<Rightarrow> 'v valuePage option"
type_synonym 'v pageRoot = "index7 \<Rightarrow> 'v pageBucket option"

record 'v PagedMap =
  root0 :: "'v pageRoot option"
  roots :: "(u64 \<times> 'v pageRoot) list option"
  plength :: int
  smallActive :: "u64 list"
  smallActiveLen :: u8

definition pagedMapActiveOverflow :: u8 where
  "pagedMapActiveOverflow = 255"

definition pagedMapOrderedBatch :: nat where
  "pagedMapOrderedBatch = 4096"

definition NewPagedMap :: "'v PagedMap" where
  "NewPagedMap = \<lparr>root0 = None, roots = None, plength = 0, smallActive = [0, 0], smallActiveLen = 0\<rparr>"

section \<open>Index arithmetic\<close>

definition pageIndexes :: "u64 \<Rightarrow> u64 \<times> index7 \<times> index7" where
  "pageIndexes key =
     (drop_bit 14 key,
      ucast ((ucast (drop_bit 7 key) :: u8) AND 127),
      ucast ((ucast key :: u8) AND 127))"

definition pageKey :: "u64 \<Rightarrow> index7 \<Rightarrow> index7 \<Rightarrow> u64" where
  "pageKey high bucket shard = push_bit 14 high OR push_bit 7 (ucast bucket) OR ucast shard"

definition slotOf :: "u64 \<Rightarrow> slot6" where
  "slotOf ident = ucast (ident AND 63)"

definition slotMask :: "slot6 \<Rightarrow> u64" where
  "slotMask slot = push_bit (unat slot) 1"

definition entryID :: "u64 \<Rightarrow> nat \<Rightarrow> u64" where
  "entryID key slot = push_bit 6 key OR word_of_nat slot"

definition indices7 :: "index7 list" where
  "indices7 = map word_of_nat [0..<128]"

section \<open>Lookup\<close>

definition pm_root :: "'v PagedMap \<Rightarrow> u64 \<Rightarrow> 'v pageRoot option" where
  "pm_root m high =
     (if high = 0 then root0 m
      else case roots m of None \<Rightarrow> None | Some rs \<Rightarrow> map_of rs high)"

definition pageByKey :: "'v PagedMap \<Rightarrow> u64 \<Rightarrow> 'v valuePage option" where
  "pageByKey m key =
     (let (high, bucket, shard) = pageIndexes key in
      case pm_root m high of
        None \<Rightarrow> None
      | Some root \<Rightarrow> (case root bucket of None \<Rightarrow> None | Some pages \<Rightarrow> pages shard))"

definition pm_page :: "'v PagedMap \<Rightarrow> u64 \<Rightarrow> 'v valuePage option \<times> slot6" where
  "pm_page m ident = (pageByKey m (drop_bit 6 ident), slotOf ident)"

definition pm_Get :: "'v \<Rightarrow> 'v PagedMap \<Rightarrow> u64 \<Rightarrow> 'v" where
  "pm_Get z m ident =
     (case pm_page m ident of
        (None, slot) \<Rightarrow> z
      | (Some page, slot) \<Rightarrow>
          if occupied page AND slotMask slot = 0 then z else pvalues page slot)"

definition pm_Has :: "'v PagedMap \<Rightarrow> u64 \<Rightarrow> bool" where
  "pm_Has m ident =
     (case pm_page m ident of
        (None, slot) \<Rightarrow> False
      | (Some page, slot) \<Rightarrow> occupied page AND slotMask slot \<noteq> 0)"

definition pm_Len :: "'v PagedMap \<Rightarrow> int" where
  "pm_Len m = plength m"

section \<open>Active page list\<close>

definition addActive :: "u64 \<Rightarrow> 'v PagedMap \<Rightarrow> 'v PagedMap" where
  "addActive key m =
     (if smallActiveLen m \<ge> 2 then m\<lparr>smallActiveLen := pagedMapActiveOverflow\<rparr>
      else m\<lparr>smallActive := (smallActive m)[unat (smallActiveLen m) := key],
             smallActiveLen := smallActiveLen m + 1\<rparr>)"

definition removeActive :: "u64 \<Rightarrow> 'v PagedMap \<Rightarrow> 'v PagedMap" where
  "removeActive key m =
     (if smallActiveLen m = pagedMapActiveOverflow then m
      else
        let n = unat (smallActiveLen m);
            active = take n (smallActive m)
        in if key \<in> set active
           then m\<lparr>smallActive := remove1 key active @ [0] @ drop n (smallActive m),
                  smallActiveLen := smallActiveLen m - 1\<rparr>
           else m)"

definition rootPages :: "u64 \<Rightarrow> 'v pageRoot option \<Rightarrow> (u64 \<times> 'v valuePage) list" where
  "rootPages high r =
     (case r of
        None \<Rightarrow> []
      | Some root \<Rightarrow>
          concat (map (\<lambda>bucket. case root bucket of
              None \<Rightarrow> []
            | Some pages \<Rightarrow>
                concat (map (\<lambda>shard. case pages shard of
                    None \<Rightarrow> []
                  | Some page \<Rightarrow> [(pageKey high bucket shard, page)]) indices7)) indices7))"

definition rootList :: "'v PagedMap \<Rightarrow> (u64 \<times> 'v pageRoot) list" where
  "rootList m = (case roots m of None \<Rightarrow> [] | Some rs \<Rightarrow> rs)"

definition pageList :: "'v PagedMap \<Rightarrow> (u64 \<times> 'v valuePage) list" where
  "pageList m =
     rootPages 0 (root0 m) @ concat (map (\<lambda>(high, root). rootPages high (Some root)) (rootList m))"

fun addRoot :: "u64 list \<Rightarrow> u64 list \<Rightarrow> u64 list option" where
  "addRoot active [] = Some active"
| "addRoot active (key # keys) =
     (if length active = 2 then None else addRoot (active @ [key]) keys)"

definition restoreSmallActive :: "'v PagedMap \<Rightarrow> 'v PagedMap" where
  "restoreSmallActive m =
     (if smallActiveLen m \<noteq> pagedMapActiveOverflow \<or> plength m > 2 * 64 then m
      else case addRoot [] (map fst (pageList m)) of
        None \<Rightarrow> m
      | Some keys \<Rightarrow>
          let active = (if length keys = 2 \<and> keys ! 1 < keys ! 0 then [keys ! 1, keys ! 0] else keys)
          in m\<lparr>smallActive := active @ replicate (2 - length keys) 0,
               smallActiveLen := word_of_nat (length keys)\<rparr>)"

section \<open>Updates\<close>

definition storeRoot :: "u64 \<Rightarrow> 'v pageRoot \<Rightarrow> 'v PagedMap \<Rightarrow> 'v PagedMap" where
  "storeRoot high root m =
     (if high = 0 then m\<lparr>root0 := Some root\<rparr>
      else m\<lparr>roots := Some (AList.update high root (rootList m))\<rparr>)"

definition newPage :: "'v \<Rightarrow> 'v valuePage" where
  "newPage z = \<lparr>occupied = 0, pvalues = (\<lambda>_. z)\<rparr>"

definition ensurePage :: "'v \<Rightarrow> u64 \<Rightarrow> 'v PagedMap \<Rightarrow> 'v PagedMap \<times> 'v valuePage" where
  "ensurePage z key m =
     (let (high, bucket, shard) = pageIndexes key;
          root = (case pm_root m high of None \<Rightarrow> (\<lambda>_. None) | Some root \<Rightarrow> root);
          pages = (case root bucket of None \<Rightarrow> (\<lambda>_. None) | Some pages \<Rightarrow> pages)
      in case pages shard of
           Some page \<Rightarrow> (storeRoot high (root(bucket := Some pages)) m, page)
         | None \<Rightarrow>
             (addActive key (storeRoot high (root(bucket := Some (pages(shard := Some (newPage z))))) m),
              newPage z))"

text \<open>The Go code mutates a page through its pointer; here the changed page is written back.\<close>

definition writePage :: "u64 \<Rightarrow> 'v valuePage \<Rightarrow> 'v PagedMap \<Rightarrow> 'v PagedMap" where
  "writePage key page m =
     (let (high, bucket, shard) = pageIndexes key in
      case pm_root m high of
        None \<Rightarrow> m
      | Some root \<Rightarrow>
          (case root bucket of
             None \<Rightarrow> m
           | Some pages \<Rightarrow> storeRoot high (root(bucket := Some (pages(shard := Some page)))) m))"

definition pm_Set :: "'v \<Rightarrow> u64 \<Rightarrow> 'v \<Rightarrow> 'v PagedMap \<Rightarrow> 'v PagedMap" where
  "pm_Set z ident v m =
     (let key = drop_bit 6 ident;
          slot = slotOf ident;
          (m1, page) = ensurePage z key m;
          mask = slotMask slot;
          fresh = (occupied page AND mask = 0);
          m2 = (if fresh then m1\<lparr>plength := plength m1 + 1\<rparr> else m1);
          page' = page\<lparr>occupied := (if fresh then occupied page OR mask else occupied page),
                       pvalues := (pvalues page)(slot := v)\<rparr>
      in writePage key page' m2)"

definition pageBucketEmpty :: "'v pageBucket \<Rightarrow> bool" where
  "pageBucketEmpty pages = list_all (\<lambda>i. pages i = None) indices7"

definition pageRootEmpty :: "'v pageRoot \<Rightarrow> bool" where
  "pageRootEmpty root = list_all (\<lambda>i. root i = None) indices7"

definition deleteRoot :: "u64 \<Rightarrow> 'v PagedMap \<Rightarrow> 'v PagedMap" where
  "deleteRoot high m =
     (if high = 0 then m\<lparr>root0 := None\<rparr>
      else m\<lparr>roots := map_option (AList.delete high) (roots m)\<rparr>)"

definition dropPage :: "u64 \<Rightarrow> 'v PagedMap \<Rightarrow> 'v PagedMap" where
  "dropPage key m =
     (let (high, bucket, shard) = pageIndexes key in
      case pm_root m high of
        None \<Rightarrow> m
      | Some root \<Rightarrow>
          (case root bucket of
             None \<Rightarrow> m
           | Some pages \<Rightarrow>
               let pages' = pages(shard := None);
                   root' = root(bucket := (if pageBucketEmpty pages' then None else Some pages'))
               in if pageRootEmpty root' then deleteRoot high m else storeRoot high root' m))"

definition pm_Delete :: "'v \<Rightarrow> u64 \<Rightarrow> 'v PagedMap \<Rightarrow> 'v PagedMap" where
  "pm_Delete z ident m =
     (let key = drop_bit 6 ident; slot = slotOf ident; mask = slotMask slot in
      case pageByKey m key of
        None \<Rightarrow> m
      | Some page \<Rightarrow>
          if occupied page AND mask = 0 then m
          else
            let page' = page\<lparr>pvalues := (pvalues page)(slot := z), occupied := occupied page AND NOT mask\<rparr>;
                m1 = (writePage key page' m)\<lparr>plength := plength m - 1\<rparr>
            in if occupied page' \<noteq> 0 then m1
               else restoreSmallActive (dropPage key (removeActive key m1)))"

definition pm_ForkSet :: "'v \<Rightarrow> u64 \<Rightarrow> 'v \<Rightarrow> 'v PagedMap \<Rightarrow> 'v PagedMap" where
  "pm_ForkSet z ident v m =
     (let key = drop_bit 6 ident;
          slot = slotOf ident;
          (high, bucket, shard) = pageIndexes key;
          root = (case pm_root m high of None \<Rightarrow> (\<lambda>_. None) | Some root \<Rightarrow> root);
          pages = (case root bucket of None \<Rightarrow> (\<lambda>_. None) | Some pages \<Rightarrow> pages);
          page = (case pages shard of None \<Rightarrow> newPage z | Some page \<Rightarrow> page);
          mask = slotMask slot;
          fresh = (occupied page AND mask = 0);
          page' = page\<lparr>occupied := (if fresh then occupied page OR mask else occupied page),
                       pvalues := (pvalues page)(slot := v)\<rparr>;
          m1 = (if fresh \<and> occupied page = 0 then addActive key m else m);
          m2 = (if fresh then m1\<lparr>plength := plength m1 + 1\<rparr> else m1)
      in storeRoot high (root(bucket := Some (pages(shard := Some page')))) m2)"

section \<open>Iteration\<close>

text \<open>
  A Go iterator calls \<^verbatim>\<open>yield\<close> once per entry until it returns false; the list below is the
  sequence of calls of a consumer that never stops, and a consumer that stops sees a prefix of it.
\<close>

definition pageEntries :: "u64 \<times> 'v valuePage \<Rightarrow> (u64 \<times> 'v) list" where
  "pageEntries kp =
     map (\<lambda>slot. (entryID (fst kp) slot, pvalues (snd kp) (word_of_nat slot))) (bit_slots (occupied (snd kp)))"

definition activePages :: "u64 list \<Rightarrow> 'v PagedMap \<Rightarrow> (u64 \<times> 'v valuePage) list" where
  "activePages keys m =
     concat (map (\<lambda>key. case pageByKey m key of None \<Rightarrow> [] | Some page \<Rightarrow> [(key, page)]) keys)"

definition pm_All :: "'v PagedMap \<Rightarrow> (u64 \<times> 'v) list" where
  "pm_All m =
     (if smallActiveLen m \<noteq> pagedMapActiveOverflow
      then concat (map pageEntries
             (activePages (take (unat (smallActiveLen m)) (smallActive m)) m))
      else concat (map pageEntries (pageList m)))"

definition yieldHighRoots :: "u64 list \<Rightarrow> 'v PagedMap \<Rightarrow> (u64 \<times> 'v) list" where
  "yieldHighRoots highs m =
     concat (map (\<lambda>high. concat (map pageEntries
        (rootPages high (case roots m of None \<Rightarrow> None | Some rs \<Rightarrow> map_of rs high)))) highs)"

text \<open>
  One batch of root numbers. The Go code keeps the batch in a max-heap of \<^verbatim>\<open>container/heap\<close>, of
  which it only reads the root \<^verbatim>\<open>candidates[0]\<close>; \<open>heapInit\<close> and \<open>heapFix\<close> restore a
  descending list, which is one of the arrangements the heap operations may leave.
\<close>

definition heapInit :: "u64 list \<Rightarrow> u64 list" where
  "heapInit xs = rev (sort xs)"

definition heapFix :: "u64 list \<Rightarrow> u64 list" where
  "heapFix xs = rev (sort xs)"

fun selectBatch :: "nat \<Rightarrow> u64 option \<Rightarrow> u64 list \<Rightarrow> u64 list \<Rightarrow> u64 list" where
  "selectBatch batch lst cands [] = cands"
| "selectBatch batch lst cands (high # highs) =
     (if high = 0 \<or> (case lst of None \<Rightarrow> False | Some l \<Rightarrow> high \<le> l)
      then selectBatch batch lst cands highs
      else if length cands < batch
      then selectBatch batch lst
             (let cands' = cands @ [high] in if length cands' = batch then heapInit cands' else cands') highs
      else if high < cands ! 0
      then selectBatch batch lst (heapFix (cands[0 := high])) highs
      else selectBatch batch lst cands highs)"

lemma selectBatch_subset:
  "x \<in> set (selectBatch batch lst cands highs) \<Longrightarrow>
     x \<in> set cands \<or> (x \<in> set highs \<and> (case lst of None \<Rightarrow> True | Some l \<Rightarrow> l < x))"
proof (induction batch lst cands highs rule: selectBatch.induct)
  case (2 batch lst cands high highs)
  have "set (cands[0 := high]) \<subseteq> insert high (set cands)"
    by (rule set_update_subset_insert)
  with 2 show ?case
    by (auto simp: Let_def heapInit_def heapFix_def not_le split: if_splits option.splits)
qed simp

function orderedBatches :: "u64 list \<Rightarrow> nat \<Rightarrow> u64 option \<Rightarrow> u64 list list" where
  "orderedBatches highs batch lst =
     (let cands = selectBatch batch lst [] highs in
      if cands = [] then []
      else let batchKeys = sort cands in batchKeys # orderedBatches highs batch (Some (last batchKeys)))"
  by pat_completeness auto
termination
proof (relation "measure (\<lambda>(highs, batch, lst). length (filter (\<lambda>h. case lst of None \<Rightarrow> True | Some l \<Rightarrow> l < h) highs))",
    goal_cases)
  case (2 highs batch lst cands batchKeys)
  have "last batchKeys \<in> set cands"
    using 2 by (metis last_in_set set_sort set_empty)
  then have "last batchKeys \<in> set highs" "case lst of None \<Rightarrow> True | Some l \<Rightarrow> l < last batchKeys"
    using selectBatch_subset [of "last batchKeys" batch lst "[]" highs] 2 by simp_all
  then show ?case
    unfolding in_measure prod.case
    by (intro length_filter_strict [where x = "last batchKeys"]) (auto split: option.splits)
qed simp

declare orderedBatches.simps [simp del]

definition pm_Ordered :: "'v PagedMap \<Rightarrow> (u64 \<times> 'v) list" where
  "pm_Ordered m =
     (if smallActiveLen m \<noteq> pagedMapActiveOverflow
      then
        let count = unat (smallActiveLen m);
            copied = take count (smallActive m);
            active = (if count = 2 \<and> copied ! 1 < copied ! 0 then [copied ! 1, copied ! 0] else copied)
        in concat (map pageEntries (activePages active m))
      else
        let first = concat (map pageEntries (rootPages 0 (root0 m)));
            highs = map fst (rootList m)
        in if highs = [] then first
           else first @ concat (map (\<lambda>batch. yieldHighRoots batch m)
                  (orderedBatches highs (min (length highs) pagedMapOrderedBatch) None)))"

definition orderedRoots :: "u64 list \<Rightarrow> 'v PagedMap \<Rightarrow> (u64 \<times> 'v) list" where
  "orderedRoots highs m = concat (map pageEntries (rootPages 0 (root0 m))) @ yieldHighRoots highs m"

section \<open>Index arithmetic lemmas\<close>

lemma index_mask: "(127 :: u8) = mask 7" "(63 :: u64) = mask 6"
  by (simp_all add: mask_eq_exp_minus_1)

lemma indices7_unat: "map unat indices7 = [0..<128]"
  unfolding indices7_def map_map
  by (rule map_idI) (simp add: unat_word_of_nat_less)

lemma set_indices7: "set indices7 = UNIV"
proof -
  have "i \<in> set indices7" for i :: index7
    unfolding indices7_def using unat_bounds(2) [of i] by (intro image_eqI [of _ _ "unat i"] | simp)+
  then show ?thesis by auto
qed

lemma unat_ucast7: "unat (ucast ((ucast (k :: u64) :: u8) AND 127) :: index7) = unat k mod 128"
proof -
  have "ucast ((ucast k :: u8) AND 127) = (ucast k :: index7)"
    unfolding index_mask by (intro bit_word_eqI) (auto simp: bit_simps)
  then show ?thesis by (simp add: unat_ucast_mod)
qed

lemma unat_pageIndexes:
  assumes "pageIndexes key = (high, bucket, shard)"
  shows "unat high = unat key div 16384" "unat bucket = unat key div 128 mod 128" "unat shard = unat key mod 128"
  using assms by (auto simp: pageIndexes_def unat_ucast7 unat_drop_bit_div)

lemma unat_pageKey:
  assumes "unat high < 2 ^ 50"
  shows "unat (pageKey high bucket shard) = unat high * 16384 + unat bucket * 128 + unat shard"
proof -
  have b: "unat bucket < 128" "unat shard < 128"
    by (simp_all add: unat_bounds)
  have c: "unat (ucast bucket :: u64) = unat bucket" "unat (ucast shard :: u64) = unat shard"
    using b by (simp_all add: unat_ucast_mod)
  have lo: "unat (push_bit 7 (ucast bucket) OR (ucast shard) :: u64) = unat bucket * 128 + unat shard"
    using b by (subst unat_push_bit_or) (simp_all add: c)
  have "unat (push_bit 14 high OR push_bit 7 (ucast bucket) OR ucast shard)
      = unat high * 2 ^ 14 + (unat bucket * 128 + unat shard)"
    using b assms by (subst unat_push_bit_or) (simp_all add: lo)
  then show ?thesis by (simp add: pageKey_def)
qed

lemma unat_high_bound: "pageIndexes key = (high, bucket, shard) \<Longrightarrow> unat high < 2 ^ 50"
  using unat_bounds(1) [of key] by (simp add: unat_pageIndexes less_mult_imp_div_less)

lemma pageKey_pageIndexes [word_split]:
  assumes "pageIndexes key = (high, bucket, shard)"
  shows "pageKey high bucket shard = key"
proof -
  have "unat (pageKey high bucket shard) = unat key"
    unfolding unat_pageKey [OF unat_high_bound [OF assms]] unat_pageIndexes [OF assms] by (rule div_mod_128)
  then show ?thesis by (simp add: word_unat_eq_iff)
qed

lemma pageIndexes_pageKey [word_split]:
  assumes "unat high < 2 ^ 50"
  shows "pageIndexes (pageKey high bucket shard) = (high, bucket, shard)"
proof -
  obtain h b s where p: "pageIndexes (pageKey high bucket shard) = (h, b, s)" by (metis prod.exhaust)
  have "unat bucket < 128" "unat shard < 128"
    by (simp_all add: unat_bounds)
  then have "unat h = unat high" "unat b = unat bucket" "unat s = unat shard"
    unfolding unat_pageIndexes [OF p] unat_pageKey [OF assms] by (rule div_mod_128_join; assumption)+
  then show ?thesis by (simp add: p word_unat_eq_iff)
qed

lemma pageIndexes_inj: "pageIndexes a = pageIndexes b \<Longrightarrow> a = b"
  by (metis pageKey_pageIndexes prod.exhaust)

lemma unat_slotOf: "unat (slotOf ident) = unat ident mod 64"
proof -
  have "slotOf ident = (ucast ident :: slot6)"
    unfolding slotOf_def index_mask by (intro bit_word_eqI) (auto simp: bit_simps)
  then show ?thesis by (simp add: unat_ucast_mod)
qed

lemma unat_entryID:
  assumes "unat key < 2 ^ 58" "slot < 64"
  shows "unat (entryID key slot) = unat key * 64 + slot"
  unfolding entryID_def using assms by (subst unat_push_bit_or) (simp_all add: unat_word_of_nat_less)

lemma entryID_split [word_split]:
  assumes "unat key < 2 ^ 58" "slot < 64"
  shows "drop_bit 6 (entryID key slot) = key" "slotOf (entryID key slot) = word_of_nat slot"
proof -
  have "unat (drop_bit 6 (entryID key slot)) = unat key"
    using assms by (simp add: unat_drop_bit_div unat_entryID)
  then show "drop_bit 6 (entryID key slot) = key" by (simp add: word_unat_eq_iff)
  have "unat (slotOf (entryID key slot)) = unat (word_of_nat slot :: slot6)"
    using assms by (simp add: unat_slotOf unat_entryID unat_of_nat)
  then show "slotOf (entryID key slot) = word_of_nat slot" by (simp only: word_unat_eq_iff)
qed

lemma entryID_join [word_split]: "entryID (drop_bit 6 ident) (unat (slotOf ident)) = ident"
proof -
  have "unat (drop_bit 6 ident) < 2 ^ 58"
    using unat_bounds(1) [of ident] by (simp add: unat_drop_bit_div less_mult_imp_div_less)
  then have "unat (entryID (drop_bit 6 ident) (unat (slotOf ident))) = unat ident"
    by (subst unat_entryID) (simp_all add: unat_slotOf unat_drop_bit_div)
  then show ?thesis by (simp add: word_unat_eq_iff)
qed

lemma slotMask_bit: "w AND slotMask slot = 0 \<longleftrightarrow> \<not> bit w (unat slot)"
proof
  assume "w AND slotMask slot = 0"
  then have "\<not> bit (w AND slotMask slot) (unat slot)" by simp
  moreover have "unat slot < 64" by (simp add: unat_bounds)
  ultimately show "\<not> bit w (unat slot)" by (simp add: slotMask_def bit_simps)
next
  assume "\<not> bit w (unat slot)"
  then show "w AND slotMask slot = 0"
    by (intro bit_word_eqI) (auto simp: slotMask_def bit_simps)
qed

section \<open>The abstract map\<close>

definition pm_view :: "'v PagedMap \<Rightarrow> u64 \<Rightarrow> 'v option" where
  "pm_view m ident =
     (case pageByKey m (drop_bit 6 ident) of
        None \<Rightarrow> None
      | Some page \<Rightarrow>
          if bit (occupied page) (unat (slotOf ident)) then Some (pvalues page (slotOf ident)) else None)"

definition pages_of :: "'v PagedMap \<Rightarrow> u64 set" where
  "pages_of m = {key. pageByKey m key \<noteq> None}"

definition roots_ok :: "'v PagedMap \<Rightarrow> bool" where
  "roots_ok m \<longleftrightarrow> distinct (map fst (rootList m)) \<and>
     (\<forall>high. map_of (rootList m) high \<noteq> None \<longrightarrow> high \<noteq> 0 \<and> unat high < 2 ^ 44)"

definition tree_ok :: "'v PagedMap \<Rightarrow> bool" where
  "tree_ok m \<longleftrightarrow> (\<forall>high root. pm_root m high = Some root \<longrightarrow>
     root \<noteq> (\<lambda>_. None) \<and> (\<forall>bucket pages. root bucket = Some pages \<longrightarrow> pages \<noteq> (\<lambda>_. None)))"

definition pages_ok :: "'v PagedMap \<Rightarrow> bool" where
  "pages_ok m \<longleftrightarrow> (\<forall>key page. pageByKey m key = Some page \<longrightarrow> occupied page \<noteq> 0)"

definition act_ok :: "u64 set \<Rightarrow> u64 list \<Rightarrow> u8 \<Rightarrow> bool" where
  "act_ok S active len \<longleftrightarrow> length active = 2 \<and>
     (len = pagedMapActiveOverflow \<or>
      (len \<le> 2 \<and> distinct (take (unat len) active) \<and> set (take (unat len) active) = S))"

definition active_ok :: "'v PagedMap \<Rightarrow> bool" where
  "active_ok m \<longleftrightarrow> act_ok (pages_of m) (smallActive m) (smallActiveLen m)"

definition pm_inv :: "'v PagedMap \<Rightarrow> bool" where
  "pm_inv m \<longleftrightarrow> roots_ok m \<and> tree_ok m \<and> pages_ok m \<and> active_ok m \<and>
     plength m = int (card (dom (pm_view m)))"

lemmas pm_inv_defs = pm_inv_def roots_ok_def tree_ok_def pages_ok_def active_ok_def

lemma pm_Has_view: "pm_Has m ident \<longleftrightarrow> pm_view m ident \<noteq> None"
  by (auto simp: pm_Has_def pm_view_def pm_page_def slotMask_bit split: option.splits)

lemma pm_Get_view: "pm_Get z m ident = (case pm_view m ident of None \<Rightarrow> z | Some v \<Rightarrow> v)"
  by (auto simp: pm_Get_def pm_view_def pm_page_def slotMask_bit split: option.splits)

section \<open>Tree updates\<close>

lemma map_of_rootList: "(case roots m of None \<Rightarrow> None | Some rs \<Rightarrow> map_of rs high) = map_of (rootList m) high"
  by (simp add: rootList_def split: option.splits)

lemma pm_root_alt: "pm_root m high = (if high = 0 then root0 m else map_of (rootList m) high)"
  by (simp add: pm_root_def map_of_rootList)

lemma rootList_storeRoot [simp]:
  "rootList (storeRoot high root m) = (if high = 0 then rootList m else AList.update high root (rootList m))"
  by (simp add: storeRoot_def rootList_def split: option.splits)

lemma rootList_deleteRoot [simp]:
  "rootList (deleteRoot high m) = (if high = 0 then rootList m else AList.delete high (rootList m))"
  by (auto simp: deleteRoot_def rootList_def split: option.splits)

lemma root0_upd [simp]:
  "root0 (storeRoot high root m) = (if high = 0 then Some root else root0 m)"
  "root0 (deleteRoot high m) = (if high = 0 then None else root0 m)"
  by (simp_all add: storeRoot_def deleteRoot_def)

lemma pm_root_storeRoot [view_simps]:
  "pm_root (storeRoot high root m) h = (if h = high then Some root else pm_root m h)"
  by (auto simp: pm_root_alt update_conv')

lemma pm_root_deleteRoot [view_simps]:
  "pm_root (deleteRoot high m) h = (if h = high then None else pm_root m h)"
  by (auto simp: pm_root_alt delete_conv')

lemma storeRoot_fields [simp]:
  "plength (storeRoot high root m) = plength m"
  "smallActive (storeRoot high root m) = smallActive m"
  "smallActiveLen (storeRoot high root m) = smallActiveLen m"
  by (simp_all add: storeRoot_def)

lemma deleteRoot_fields [simp]:
  "plength (deleteRoot high m) = plength m"
  "smallActive (deleteRoot high m) = smallActive m"
  "smallActiveLen (deleteRoot high m) = smallActiveLen m"
  by (simp_all add: deleteRoot_def)

lemma pageByKey_cong: "pm_root m = pm_root m' \<Longrightarrow> pageByKey m = pageByKey m'"
  by (auto simp: pageByKey_def fun_eq_iff)

lemma pm_root_upd [simp]:
  "pm_root (m\<lparr>plength := n\<rparr>) = pm_root m" "pm_root (m\<lparr>smallActive := a\<rparr>) = pm_root m"
  "pm_root (m\<lparr>smallActiveLen := l\<rparr>) = pm_root m"
  "rootList (m\<lparr>plength := n\<rparr>) = rootList m" "rootList (m\<lparr>smallActive := a\<rparr>) = rootList m"
  "rootList (m\<lparr>smallActiveLen := l\<rparr>) = rootList m"
  by (simp_all add: pm_root_def rootList_def fun_eq_iff)

lemma pageByKey_upd [simp]:
  "pageByKey (m\<lparr>plength := n\<rparr>) = pageByKey m" "pageByKey (m\<lparr>smallActive := a\<rparr>) = pageByKey m"
  "pageByKey (m\<lparr>smallActiveLen := l\<rparr>) = pageByKey m"
  by (rule pageByKey_cong; simp)+

lemma addActive_fields [simp]:
  "pm_root (addActive key m) = pm_root m" "pageByKey (addActive key m) = pageByKey m"
  "plength (addActive key m) = plength m" "rootList (addActive key m) = rootList m"
  by (simp_all add: addActive_def)

lemma removeActive_fields [simp]:
  "pm_root (removeActive key m) = pm_root m" "pageByKey (removeActive key m) = pageByKey m"
  "plength (removeActive key m) = plength m" "rootList (removeActive key m) = rootList m"
  by (simp_all add: removeActive_def Let_def)

lemma restoreSmallActive_fields [simp]:
  "pm_root (restoreSmallActive m) = pm_root m" "pageByKey (restoreSmallActive m) = pageByKey m"
  "plength (restoreSmallActive m) = plength m" "rootList (restoreSmallActive m) = rootList m"
  by (simp_all add: restoreSmallActive_def Let_def split: option.splits)

text \<open>All page-level writes replace one path of the tree, so they update one key of \<open>pageByKey\<close>.\<close>

lemma pageByKey_storePath:
  assumes "pageIndexes key = (high, bucket, shard)"
    and "root = (case pm_root m high of None \<Rightarrow> (\<lambda>_. None) | Some r \<Rightarrow> r)"
    and "pages = (case root bucket of None \<Rightarrow> (\<lambda>_. None) | Some p \<Rightarrow> p)"
  shows "pageByKey (storeRoot high (root(bucket := Some (pages(shard := p)))) m) = (pageByKey m)(key := p)"
proof
  fix k
  obtain h b s where k: "pageIndexes k = (h, b, s)" by (metis prod.exhaust)
  have "k = key \<longleftrightarrow> h = high \<and> b = bucket \<and> s = shard"
    using assms(1) k pageIndexes_inj [of k key] by auto
  then show "pageByKey (storeRoot high (root(bucket := Some (pages(shard := p)))) m) k = ((pageByKey m)(key := p)) k"
    using assms by (auto simp: pageByKey_def k pm_root_storeRoot split: option.splits)
qed

lemma pageByKey_writePage:
  assumes "pageByKey m key \<noteq> None"
  shows "pageByKey (writePage key p m) = (pageByKey m)(key := Some p)"
proof -
  obtain high bucket shard where i: "pageIndexes key = (high, bucket, shard)" by (metis prod.exhaust)
  then obtain root pages where r: "pm_root m high = Some root" "root bucket = Some pages"
    using assms by (auto simp: pageByKey_def split: option.splits)
  have "writePage key p m = storeRoot high (root(bucket := Some (pages(shard := Some p)))) m"
    by (simp add: writePage_def i r)
  then show ?thesis using pageByKey_storePath [OF i, of root m pages "Some p"] r by simp
qed

lemma pageByKey_ensurePage:
  assumes "ensurePage z key m = (m', page)"
  shows "pageByKey m' = (pageByKey m)(key := Some page)"
    and "page = (case pageByKey m key of None \<Rightarrow> newPage z | Some p \<Rightarrow> p)"
proof -
  obtain high bucket shard where i: "pageIndexes key = (high, bucket, shard)" by (metis prod.exhaust)
  define root where "root = (case pm_root m high of None \<Rightarrow> (\<lambda>_. None) | Some r \<Rightarrow> r)"
  define pages where "pages = (case root bucket of None \<Rightarrow> (\<lambda>_. None) | Some p \<Rightarrow> p)"
  have p: "pageByKey m key = pages shard"
    by (auto simp: pageByKey_def i root_def pages_def split: option.splits)
  note path = pageByKey_storePath [OF i root_def pages_def]
  show "page = (case pageByKey m key of None \<Rightarrow> newPage z | Some p \<Rightarrow> p)"
    using assms by (auto simp: ensurePage_def i p root_def pages_def Let_def split: option.splits)
  show "pageByKey m' = (pageByKey m)(key := Some page)"
  proof (cases "pages shard")
    case None
    with assms have "m' = addActive key (storeRoot high (root(bucket := Some (pages(shard := Some (newPage z))))) m)"
      "page = newPage z"
      by (auto simp: ensurePage_def i Let_def root_def [symmetric] pages_def [symmetric])
    then show ?thesis by (simp add: path)
  next
    case (Some pg)
    with assms have "m' = storeRoot high (root(bucket := Some pages)) m" "page = pg"
      by (auto simp: ensurePage_def i Let_def root_def [symmetric] pages_def [symmetric])
    moreover from Some have "pages = pages(shard := Some pg)" by auto
    ultimately show ?thesis using path [of "Some pg"] by simp
  qed
qed

lemma pageBucketEmpty_iff: "pageBucketEmpty pages \<longleftrightarrow> pages = (\<lambda>_. None)"
  and pageRootEmpty_iff: "pageRootEmpty root \<longleftrightarrow> root = (\<lambda>_. None)"
  by (auto simp: pageBucketEmpty_def pageRootEmpty_def list_all_iff set_indices7 fun_eq_iff)

lemma pageByKey_dropPage:
  assumes "pageByKey m key \<noteq> None"
  shows "pageByKey (dropPage key m) = (pageByKey m)(key := None)"
proof
  fix k
  obtain high bucket shard where i: "pageIndexes key = (high, bucket, shard)" by (metis prod.exhaust)
  obtain h b s where k: "pageIndexes k = (h, b, s)" by (metis prod.exhaust)
  obtain root pages where r: "pm_root m high = Some root" "root bucket = Some pages"
    using assms i by (auto simp: pageByKey_def split: option.splits)
  have eq: "k = key \<longleftrightarrow> h = high \<and> b = bucket \<and> s = shard"
    using i k pageIndexes_inj [of k key] by auto
  define pages' where "pages' = pages(shard := None)"
  define root' where "root' = root(bucket := (if pageBucketEmpty pages' then None else Some pages'))"
  have "dropPage key m = (if pageRootEmpty root' then deleteRoot high m else storeRoot high root' m)"
    by (simp add: dropPage_def i r Let_def pages'_def root'_def)
  moreover have "(case root' b of None \<Rightarrow> None | Some p \<Rightarrow> p s)
      = (if b = bucket \<and> s = shard then None else case root b of None \<Rightarrow> None | Some p \<Rightarrow> p s)"
    using r by (auto simp: root'_def pages'_def pageBucketEmpty_iff fun_eq_iff split: option.splits)
  ultimately show "pageByKey (dropPage key m) k = ((pageByKey m)(key := None)) k"
    using eq r by (auto simp: pageByKey_def k pm_root_storeRoot pm_root_deleteRoot pageRootEmpty_iff
        split: option.splits)
qed

section \<open>Structural invariants\<close>

lemma unat_high_ident: "pageIndexes (drop_bit 6 ident) = (high, bucket, shard) \<Longrightarrow> unat high < 2 ^ 44"
  using unat_bounds(1) [of ident]
  by (simp add: unat_pageIndexes unat_drop_bit_div div_mult2_eq [symmetric] less_mult_imp_div_less)

lemma roots_ok_storeRoot: "roots_ok m \<Longrightarrow> unat high < 2 ^ 44 \<Longrightarrow> roots_ok (storeRoot high root m)"
  by (auto simp: roots_ok_def distinct_update update_conv' simp del: map_of_eq_Some_iff split: if_splits)

lemma roots_ok_deleteRoot: "roots_ok m \<Longrightarrow> roots_ok (deleteRoot high m)"
  by (auto simp: roots_ok_def distinct_delete delete_conv' simp del: map_of_eq_Some_iff split: if_splits)

lemma tree_ok_storePath:
  assumes "tree_ok m" and "root = (case pm_root m high of None \<Rightarrow> (\<lambda>_. None) | Some r \<Rightarrow> r)"
    and "pages = (case root bucket of None \<Rightarrow> (\<lambda>_. None) | Some p \<Rightarrow> p)"
  shows "tree_ok (storeRoot high (root(bucket := Some (pages(shard := Some p)))) m)"
  unfolding tree_ok_def pm_root_storeRoot
proof (intro allI impI)
  fix h r
  assume r: "(if h = high then Some (root(bucket := Some (pages(shard := Some p)))) else pm_root m h) = Some r"
  show "r \<noteq> (\<lambda>_. None) \<and> (\<forall>b q. r b = Some q \<longrightarrow> q \<noteq> (\<lambda>_. None))"
  proof (cases "h = high")
    case False
    with r assms(1) show ?thesis by (auto simp: tree_ok_def)
  next
    case True
    with r have r': "r = root(bucket := Some (pages(shard := Some p)))" by simp
    have "q \<noteq> (\<lambda>_. None)" if "root b = Some q" for b q
      using that assms(1,2) by (auto simp: tree_ok_def split: option.splits)
    then show ?thesis unfolding r' by (auto split: if_splits)
  qed
qed

lemma writePage_path:
  assumes "pageByKey m key \<noteq> None" "pageIndexes key = (high, bucket, shard)"
  obtains root pages where "pm_root m high = Some root" "root bucket = Some pages"
    "writePage key p m = storeRoot high (root(bucket := Some (pages(shard := Some p)))) m"
  using assms by (auto simp: pageByKey_def writePage_def split: option.splits)

lemma writePage_inv:
  assumes "pageByKey m key \<noteq> None" "tree_ok m" "roots_ok m"
  shows "tree_ok (writePage key p m)" "roots_ok (writePage key p m)"
    "plength (writePage key p m) = plength m" "smallActive (writePage key p m) = smallActive m"
    "smallActiveLen (writePage key p m) = smallActiveLen m"
proof -
  obtain high bucket shard where i: "pageIndexes key = (high, bucket, shard)" by (metis prod.exhaust)
  obtain root pages where r: "pm_root m high = Some root" "root bucket = Some pages"
    and w: "writePage key p m = storeRoot high (root(bucket := Some (pages(shard := Some p)))) m"
    using writePage_path [OF assms(1) i] by metis
  have "unat high < 2 ^ 44"
  proof (cases "high = 0")
    case False
    with r(1) assms(3) show ?thesis by (auto simp: roots_ok_def pm_root_alt)
  qed simp
  then show "roots_ok (writePage key p m)" using assms(3) by (simp add: w roots_ok_storeRoot)
  show "tree_ok (writePage key p m)"
    unfolding w using tree_ok_storePath [OF assms(2), of root high pages bucket shard p] r by simp
  show "plength (writePage key p m) = plength m" "smallActive (writePage key p m) = smallActive m"
    "smallActiveLen (writePage key p m) = smallActiveLen m" by (simp_all add: w)
qed

section \<open>The active page list\<close>

lemma u8_le2_cases:
  fixes l :: u8
  assumes "l \<le> 2"
  obtains "l = 0" | "l = 1" | "l = 2"
proof -
  have "unat l \<le> 2" using assms by (simp add: word_le_nat_alt)
  then have "unat l = unat (0 :: u8) \<or> unat l = unat (1 :: u8) \<or> unat l = unat (2 :: u8)" by auto
  then show ?thesis using that by (simp only: word_unat_eq_iff [symmetric]) blast
qed

lemma list2_exhaust:
  assumes "length xs = 2"
  obtains a b where "xs = [a, b]"
  using assms that by (auto simp: numeral_2_eq_2 length_Suc_conv)

lemma list_le2_exhaust:
  assumes "length xs \<le> 2"
  obtains "xs = []" | a where "xs = [a]" | a b where "xs = [a, b]"
proof (cases xs)
  case (Cons a ys)
  with assms that show thesis by (cases ys) auto
qed (use that in simp)

lemma act_ok_addActive:
  assumes "act_ok S (smallActive m) (smallActiveLen m)" "key \<notin> S"
  shows "act_ok (insert key S) (smallActive (addActive key m)) (smallActiveLen (addActive key m))"
proof -
  obtain a b where sa: "smallActive m = [a, b]" using assms(1) by (auto simp: act_ok_def elim: list2_exhaust)
  show ?thesis
  proof (cases "smallActiveLen m \<ge> 2")
    case True
    then show ?thesis by (simp add: addActive_def act_ok_def sa)
  next
    case False
    then have "smallActiveLen m \<noteq> pagedMapActiveOverflow" by (auto simp: pagedMapActiveOverflow_def)
    with assms(1) have s: "smallActiveLen m \<le> 2" "distinct (take (unat (smallActiveLen m)) [a, b])"
      "set (take (unat (smallActiveLen m)) [a, b]) = S" by (auto simp: act_ok_def sa)
    from s(1) show ?thesis
      by (cases rule: u8_le2_cases) (use False s(2,3) assms(2) in \<open>auto simp: addActive_def act_ok_def sa\<close>)
  qed
qed

lemma act_ok_removeActive:
  assumes "act_ok S (smallActive m) (smallActiveLen m)"
  shows "act_ok (S - {key}) (smallActive (removeActive key m)) (smallActiveLen (removeActive key m))"
proof -
  obtain a b where sa: "smallActive m = [a, b]" using assms(1) by (auto simp: act_ok_def elim: list2_exhaust)
  show ?thesis
  proof (cases "smallActiveLen m = pagedMapActiveOverflow")
    case True
    then show ?thesis by (simp add: removeActive_def act_ok_def sa)
  next
    case False
    with assms(1) have s: "smallActiveLen m \<le> 2" "distinct (take (unat (smallActiveLen m)) [a, b])"
      "set (take (unat (smallActiveLen m)) [a, b]) = S" by (auto simp: act_ok_def sa)
    from s(1) show ?thesis
      by (cases rule: u8_le2_cases) (use False s(2,3) in \<open>auto simp: removeActive_def act_ok_def sa Let_def\<close>)
  qed
qed

section \<open>Insertion\<close>

lemma ident_eq_iff: "a = b \<longleftrightarrow> drop_bit 6 a = drop_bit 6 b \<and> slotOf a = slotOf b"
  by (metis entryID_join)

lemma bit_slotMask:
  "bit (w OR slotMask slot) (unat s) \<longleftrightarrow> bit w (unat s) \<or> s = slot"
  "bit (w AND NOT (slotMask slot)) (unat s) \<longleftrightarrow> bit w (unat s) \<and> s \<noteq> slot"
proof -
  have "bit (slotMask slot) (unat s) \<longleftrightarrow> s = slot"
    using unat_bounds(3) [of s] by (auto simp: slotMask_def bit_simps word_unat_eq_iff)
  moreover have "unat s < 64" by (simp add: unat_bounds)
  ultimately show "bit (w OR slotMask slot) (unat s) \<longleftrightarrow> bit w (unat s) \<or> s = slot"
    "bit (w AND NOT (slotMask slot)) (unat s) \<longleftrightarrow> bit w (unat s) \<and> s \<noteq> slot"
    by (simp_all add: bit_simps)
qed

lemma ensurePage_inv:
  assumes "ensurePage z key m = (m', page)" "pageIndexes key = (high, bucket, shard)" "unat high < 2 ^ 44"
    "tree_ok m" "roots_ok m" "active_ok m"
  shows "tree_ok m'" "roots_ok m'" "plength m' = plength m" "active_ok m'"
proof -
  define root where "root = (case pm_root m high of None \<Rightarrow> (\<lambda>_. None) | Some r \<Rightarrow> r)"
  define pages where "pages = (case root bucket of None \<Rightarrow> (\<lambda>_. None) | Some p \<Rightarrow> p)"
  have p: "pageByKey m key = pages shard"
    by (auto simp: pageByKey_def assms(2) root_def pages_def split: option.splits)
  define m1 where "m1 = storeRoot high (root(bucket := Some (pages(shard := Some page)))) m"
  have m1: "tree_ok m1" "roots_ok m1" "plength m1 = plength m" "smallActive m1 = smallActive m"
    "smallActiveLen m1 = smallActiveLen m"
    using tree_ok_storePath [OF assms(4) root_def pages_def] roots_ok_storeRoot assms(3,5)
    by (simp_all add: m1_def)
  have m': "m' = (if pages shard = None then addActive key m1 else m1)"
  proof (cases "pages shard")
    case None
    then show ?thesis using assms(1,2)
      by (auto simp: ensurePage_def Let_def root_def [symmetric] pages_def [symmetric] m1_def)
  next
    case (Some pg)
    then have "pages(shard := Some pg) = pages" by auto
    with Some show ?thesis using assms(1,2)
      by (auto simp: ensurePage_def Let_def root_def [symmetric] pages_def [symmetric] m1_def)
  qed
  from m1 m' show "roots_ok m'" "plength m' = plength m"
    by (auto simp: roots_ok_def)
  from m1(1) m' show "tree_ok m'" by (auto simp: tree_ok_def)
  have "pages_of m' = insert key (pages_of m)"
    using pageByKey_ensurePage(1) [OF assms(1)] by (auto simp: pages_of_def)
  moreover have "key \<in> pages_of m \<longleftrightarrow> pages shard \<noteq> None" by (simp add: pages_of_def p)
  ultimately show "active_ok m'"
    using assms(6) m1(4,5) act_ok_addActive [of "pages_of m" m1 key]
    by (auto simp: active_ok_def m' insert_absorb)
qed

lemma pages_of_cong: "pageByKey m' = pageByKey m \<Longrightarrow> pages_of m' = pages_of m"
  by (simp add: pages_of_def)

lemma pm_inv_upd_length [simp]:
  "roots_ok (m\<lparr>plength := n\<rparr>) = roots_ok m" "tree_ok (m\<lparr>plength := n\<rparr>) = tree_ok m"
  "active_ok (m\<lparr>plength := n\<rparr>) = active_ok m"
  by (simp_all add: roots_ok_def tree_ok_def active_ok_def pages_of_def)

definition put_page :: "'v \<Rightarrow> u64 \<Rightarrow> 'v \<Rightarrow> 'v PagedMap \<Rightarrow> 'v valuePage" where
  "put_page z ident v m =
     (let page = (case pageByKey m (drop_bit 6 ident) of None \<Rightarrow> newPage z | Some p \<Rightarrow> p);
          mask = slotMask (slotOf ident);
          fresh = (occupied page AND mask = 0)
      in page\<lparr>occupied := (if fresh then occupied page OR mask else occupied page),
              pvalues := (pvalues page)(slotOf ident := v)\<rparr>)"

lemma view_put:
  assumes "pageByKey m' = (pageByKey m)(drop_bit 6 ident := Some (put_page z ident v m))"
  shows "pm_view m' = (pm_view m)(ident \<mapsto> v)"
proof
  fix i
  show "pm_view m' i = ((pm_view m)(ident \<mapsto> v)) i"
    unfolding pm_view_def assms fun_upd_apply ident_eq_iff [of i ident]
    by (auto simp: put_page_def newPage_def slotMask_bit bit_slotMask Let_def split: option.splits)
qed

lemma put_page_occupied: "occupied (put_page z ident v m) \<noteq> 0"
proof -
  have "bit (occupied (put_page z ident v m)) (unat (slotOf ident))"
    by (simp add: put_page_def slotMask_bit bit_slotMask Let_def)
  then show ?thesis by auto
qed

text \<open>Both ways of storing a value leave the invariant, whatever path they copied.\<close>

lemma pm_inv_put:
  assumes "pm_inv m"
    and path: "pageByKey m' = (pageByKey m)(drop_bit 6 ident := Some (put_page z ident v m))"
    and "tree_ok m'" "roots_ok m'" "active_ok m'"
    and "plength m' = plength m + (if pm_view m ident = None then 1 else 0)"
  shows "pm_inv m'"
proof -
  have "pages_ok m'"
    using assms(1) put_page_occupied [of z ident v m] by (auto simp: pm_inv_def pages_ok_def path)
  moreover have "plength m' = int (card (dom (pm_view m')))"
    using assms(1,6) unfolding view_put [OF path] card_dom_put by (simp add: pm_inv_def)
  ultimately show ?thesis using assms(3-5) by (simp add: pm_inv_def)
qed

lemma view_slot_bit:
  "pm_view m ident = None \<longleftrightarrow>
     \<not> bit (occupied (case pageByKey m (drop_bit 6 ident) of None \<Rightarrow> newPage z | Some p \<Rightarrow> p)) (unat (slotOf ident))"
  by (auto simp: pm_view_def newPage_def split: option.splits)

lemma pm_Set_step:
  assumes "ensurePage z (drop_bit 6 ident) m = (m1, page)"
  shows "pm_Set z ident v m = writePage (drop_bit 6 ident) (put_page z ident v m)
     (m1\<lparr>plength := plength m1 + (if pm_view m ident = None then 1 else 0)\<rparr>)"
  using pageByKey_ensurePage(2) [OF assms] view_slot_bit [of m ident z]
  by (simp add: pm_Set_def assms Let_def put_page_def slotMask_bit)

lemma pageByKey_Set:
  "pageByKey (pm_Set z ident v m) = (pageByKey m)(drop_bit 6 ident := Some (put_page z ident v m))"
proof -
  obtain m1 page where e: "ensurePage z (drop_bit 6 ident) m = (m1, page)" by (metis prod.exhaust)
  show ?thesis
    unfolding pm_Set_step [OF e] using pageByKey_ensurePage(1) [OF e]
    by (subst pageByKey_writePage) auto
qed

lemma pm_view_Set [view_simps]: "pm_view (pm_Set z ident v m) = (pm_view m)(ident \<mapsto> v)"
  by (rule view_put [OF pageByKey_Set])

lemma pm_inv_Set:
  assumes "pm_inv m"
  shows "pm_inv (pm_Set z ident v m)"
proof -
  let ?key = "drop_bit 6 ident"
  obtain m1 page where e: "ensurePage z ?key m = (m1, page)" by (metis prod.exhaust)
  obtain high bucket shard where i: "pageIndexes ?key = (high, bucket, shard)" by (metis prod.exhaust)
  have inv: "tree_ok m" "roots_ok m" "active_ok m" using assms by (simp_all add: pm_inv_def)
  note m1 = ensurePage_inv [OF e i unat_high_ident [OF i] inv]
  define m2 where "m2 = m1\<lparr>plength := plength m1 + (if pm_view m ident = None then 1 else 0)\<rparr>"
  have s: "pm_Set z ident v m = writePage ?key (put_page z ident v m) m2"
    unfolding m2_def by (rule pm_Set_step [OF e])
  have k: "pageByKey m2 = (pageByKey m)(?key := Some page)"
    by (simp add: m2_def pageByKey_ensurePage(1) [OF e])
  have m2: "tree_ok m2" "roots_ok m2" "active_ok m2" using m1 by (simp_all add: m2_def)
  note w = writePage_inv [OF _ m2(1,2), of ?key "put_page z ident v m", folded s]
  have "pages_of (pm_Set z ident v m) = pages_of m2"
    using k by (auto simp: pages_of_def pageByKey_Set)
  then have "active_ok (pm_Set z ident v m)" using m2(3) w(4,5) k by (simp add: active_ok_def)
  moreover have "plength (pm_Set z ident v m) = plength m + (if pm_view m ident = None then 1 else 0)"
    using w(3) k m1(3) by (simp add: m2_def)
  ultimately show ?thesis using assms w(1,2) k by (intro pm_inv_put [OF assms pageByKey_Set]) simp_all
qed

lemma pm_ForkSet_step:
  assumes "pageIndexes (drop_bit 6 ident) = (high, bucket, shard)"
    and "root = (case pm_root m high of None \<Rightarrow> (\<lambda>_. None) | Some r \<Rightarrow> r)"
    and "pages = (case root bucket of None \<Rightarrow> (\<lambda>_. None) | Some p \<Rightarrow> p)"
  obtains m2 where
    "pm_ForkSet z ident v m = storeRoot high (root(bucket := Some (pages(shard := Some (put_page z ident v m))))) m2"
    "pm_root m2 = pm_root m" "rootList m2 = rootList m"
    "plength m2 = plength m + (if pm_view m ident = None then 1 else 0)"
    "pm_inv m \<Longrightarrow> act_ok (insert (drop_bit 6 ident) (pages_of m)) (smallActive m2) (smallActiveLen m2)"
proof -
  let ?key = "drop_bit 6 ident"
  have p: "pageByKey m ?key = pages shard"
    by (auto simp: pageByKey_def assms split: option.splits)
  define page where "page = (case pages shard of None \<Rightarrow> newPage z | Some q \<Rightarrow> q)"
  note vb = view_slot_bit [of m ident z, unfolded p, folded page_def]
  define m2 where "m2 = (if pm_view m ident = None
      then (if occupied page = 0 then addActive ?key m else m)\<lparr>plength := plength m + 1\<rparr> else m)"
  have "pm_ForkSet z ident v m = storeRoot high (root(bucket := Some (pages(shard := Some (put_page z ident v m))))) m2"
    unfolding pm_ForkSet_def m2_def vb
    by (simp add: Let_def assms(1) assms(2) [symmetric] assms(3) [symmetric] page_def [symmetric] put_page_def p slotMask_bit)
  moreover have "act_ok (insert ?key (pages_of m)) (smallActive m2) (smallActiveLen m2)" if "pm_inv m"
  proof -
    have "occupied page = 0 \<longleftrightarrow> ?key \<notin> pages_of m"
      using that p by (auto simp: page_def newPage_def pm_inv_def pages_ok_def pages_of_def split: option.splits)
    then show ?thesis
      using that vb act_ok_addActive [of "pages_of m" m ?key]
      by (auto simp: m2_def pm_inv_def active_ok_def insert_absorb)
  qed
  ultimately show thesis by (intro that [of m2]) (auto simp: m2_def)
qed

lemma pageByKey_ForkSet:
  "pageByKey (pm_ForkSet z ident v m) = (pageByKey m)(drop_bit 6 ident := Some (put_page z ident v m))"
proof -
  obtain high bucket shard where i: "pageIndexes (drop_bit 6 ident) = (high, bucket, shard)" by (metis prod.exhaust)
  obtain m2 where f: "pm_ForkSet z ident v m = storeRoot high
      ((case pm_root m high of None \<Rightarrow> \<lambda>_. None | Some r \<Rightarrow> r)(bucket :=
        Some ((case (case pm_root m high of None \<Rightarrow> \<lambda>_. None | Some r \<Rightarrow> r) bucket of None \<Rightarrow> \<lambda>_. None | Some p \<Rightarrow> p)
          (shard := Some (put_page z ident v m))))) m2"
    and r: "pm_root m2 = pm_root m"
    using pm_ForkSet_step [OF i refl refl, of z v] by metis
  have "pageByKey m2 = pageByKey m" by (rule pageByKey_cong [OF r])
  then show ?thesis unfolding f r [symmetric] by (subst pageByKey_storePath [OF i refl refl]) simp
qed

lemma pm_view_ForkSet [view_simps]: "pm_view (pm_ForkSet z ident v m) = (pm_view m)(ident \<mapsto> v)"
  by (rule view_put [OF pageByKey_ForkSet])

lemma pm_inv_ForkSet:
  assumes "pm_inv m"
  shows "pm_inv (pm_ForkSet z ident v m)"
proof -
  obtain high bucket shard where i: "pageIndexes (drop_bit 6 ident) = (high, bucket, shard)" by (metis prod.exhaust)
  define root where "root = (case pm_root m high of None \<Rightarrow> (\<lambda>_. None) | Some r \<Rightarrow> r)"
  define pages where "pages = (case root bucket of None \<Rightarrow> (\<lambda>_. None) | Some p \<Rightarrow> p)"
  obtain m2 where f: "pm_ForkSet z ident v m = storeRoot high (root(bucket := Some (pages(shard := Some (put_page z ident v m))))) m2"
    and r: "pm_root m2 = pm_root m" "rootList m2 = rootList m"
    and l: "plength m2 = plength m + (if pm_view m ident = None then 1 else 0)"
    and act: "act_ok (insert (drop_bit 6 ident) (pages_of m)) (smallActive m2) (smallActiveLen m2)"
    using pm_ForkSet_step [OF i root_def pages_def, of z v] assms by metis
  have "tree_ok m2" "roots_ok m2" using assms r by (simp_all add: pm_inv_def tree_ok_def roots_ok_def)
  then have "tree_ok (pm_ForkSet z ident v m)" "roots_ok (pm_ForkSet z ident v m)"
    unfolding f using tree_ok_storePath [of m2 root high pages bucket] unat_high_ident [OF i]
    by (auto simp: r root_def pages_def intro!: roots_ok_storeRoot)
  moreover have "pages_of (pm_ForkSet z ident v m) = insert (drop_bit 6 ident) (pages_of m)"
    by (auto simp: pages_of_def pageByKey_ForkSet)
  then have "active_ok (pm_ForkSet z ident v m)" using act by (simp add: active_ok_def f)
  ultimately show ?thesis using l by (intro pm_inv_put [OF assms pageByKey_ForkSet]) (simp_all add: f)
qed

section \<open>Enumeration of pages\<close>

lemma set_rootPages:
  assumes "unat high < 2 ^ 50"
  shows "(key, page) \<in> set (rootPages high r) \<longleftrightarrow>
     (\<exists>root bucket pages shard. r = Some root \<and> pageIndexes key = (high, bucket, shard) \<and>
        root bucket = Some pages \<and> pages shard = Some page)"
proof -
  have "(key, page) \<in> set (rootPages high r) \<longleftrightarrow>
     (\<exists>root bucket pages shard. r = Some root \<and> key = pageKey high bucket shard \<and>
        root bucket = Some pages \<and> pages shard = Some page)"
    by (auto simp: rootPages_def set_indices7 split: option.splits) (metis option.inject)+
  moreover have "key = pageKey high bucket shard \<longleftrightarrow> pageIndexes key = (high, bucket, shard)" for bucket shard
    using pageIndexes_pageKey [OF assms] pageKey_pageIndexes by metis
  ultimately show ?thesis by simp
qed

lemma rootList_root:
  assumes "roots_ok m"
  shows "(h, root) \<in> set (rootList m) \<longleftrightarrow> h \<noteq> 0 \<and> pm_root m h = Some root"
    "(h, root) \<in> set (rootList m) \<Longrightarrow> unat h < 2 ^ 50"
proof -
  have m: "(h, root) \<in> set (rootList m) \<longleftrightarrow> map_of (rootList m) h = Some root"
    using assms by (simp add: roots_ok_def)
  have b: "map_of (rootList m) h = Some root \<Longrightarrow> h \<noteq> 0 \<and> unat h < 2 ^ 44"
    using assms unfolding roots_ok_def by blast
  show "(h, root) \<in> set (rootList m) \<longleftrightarrow> h \<noteq> 0 \<and> pm_root m h = Some root"
    unfolding m using b by (auto simp: pm_root_alt simp del: map_of_eq_Some_iff)
  show "(h, root) \<in> set (rootList m) \<Longrightarrow> unat h < 2 ^ 50"
    unfolding m using b by fastforce
qed

lemma set_pageList:
  assumes "roots_ok m"
  shows "(key, page) \<in> set (pageList m) \<longleftrightarrow> pageByKey m key = Some page"
proof -
  obtain high bucket shard where i: "pageIndexes key = (high, bucket, shard)" by (metis prod.exhaust)
  note rs = rootList_root [OF assms]
  have "(key, page) \<in> set (pageList m) \<longleftrightarrow>
      (key, page) \<in> set (rootPages 0 (root0 m)) \<or>
      (\<exists>h root. (h, root) \<in> set (rootList m) \<and> (key, page) \<in> set (rootPages h (Some root)))"
    by (force simp: pageList_def)
  also have "(key, page) \<in> set (rootPages 0 (root0 m)) \<longleftrightarrow>
      high = 0 \<and> (\<exists>root pages. root0 m = Some root \<and> root bucket = Some pages \<and> pages shard = Some page)"
    by (subst set_rootPages) (auto simp: i)
  also have "(\<exists>h root. (h, root) \<in> set (rootList m) \<and> (key, page) \<in> set (rootPages h (Some root))) \<longleftrightarrow>
      high \<noteq> 0 \<and> (\<exists>root pages. pm_root m high = Some root \<and> root bucket = Some pages \<and> pages shard = Some page)"
  proof (intro iffI conjI; (elim exE conjE)?)
    fix h root assume h: "(h, root) \<in> set (rootList m)" "(key, page) \<in> set (rootPages h (Some root))"
    with rs have "h \<noteq> 0" "pm_root m h = Some root" "unat h < 2 ^ 50" by blast+
    with h(2) show "high \<noteq> 0" "\<exists>root pages. pm_root m high = Some root \<and> root bucket = Some pages \<and> pages shard = Some page"
      by (auto simp: set_rootPages i)
  next
    fix root pages
    assume h: "high \<noteq> 0" "pm_root m high = Some root" "root bucket = Some pages" "pages shard = Some page"
    with rs have "(high, root) \<in> set (rootList m)" by blast
    moreover have "(key, page) \<in> set (rootPages high (Some root))"
      using h rs(2) [OF calculation] by (auto simp: set_rootPages i)
    ultimately show "\<exists>h root. (h, root) \<in> set (rootList m) \<and> (key, page) \<in> set (rootPages h (Some root))"
      by blast
  qed
  finally show ?thesis
    by (auto simp: pageByKey_def i pm_root_alt [of m 0] split: option.splits)
qed

text \<open>Page keys are listed in ascending order within a root, so each list is duplicate-free.\<close>

lemma sorted_concat_map:
  fixes f :: "'a \<Rightarrow> nat list"
  assumes "\<And>x. x \<in> set xs \<Longrightarrow> sorted_wrt (<) (f x)"
    and "sorted_wrt (\<lambda>x y. \<forall>a \<in> set (f x). \<forall>b \<in> set (f y). a < b) xs"
  shows "sorted_wrt (<) (concat (map f xs))"
  using assms by (induction xs) (auto simp: sorted_wrt_append)

lemma sorted_wrt_indices7: "sorted_wrt (\<lambda>a b. unat a < unat b) indices7"
proof -
  have "sorted_wrt (<) (map unat indices7)" by (simp add: indices7_unat)
  then show ?thesis by (simp add: sorted_wrt_map)
qed

lemma sorted_rootPages:
  assumes "unat high < 2 ^ 50"
  shows "sorted_wrt (<) (map (unat \<circ> fst) (rootPages high r))"
proof (cases r)
  case (Some root)
  define keys where "keys bucket = (case root bucket of None \<Rightarrow> [] | Some pages \<Rightarrow>
      concat (map (\<lambda>shard. case pages shard of None \<Rightarrow> []
        | Some page \<Rightarrow> [unat high * 16384 + unat bucket * 128 + unat shard]) indices7))" for bucket
  have "map (unat \<circ> fst) (rootPages high r) = concat (map keys indices7)"
    unfolding rootPages_def Some option.case map_concat map_map keys_def
    by (auto simp: map_concat unat_pageKey [OF assms] intro!: arg_cong [where f = concat] split: option.splits)
  moreover have inner: "sorted_wrt (<) (keys bucket)" for bucket
    by (auto simp: keys_def sorted_wrt_indices7 split: option.splits
        intro!: sorted_concat_map sorted_wrt_mono_rel [OF _ sorted_wrt_indices7])
  have keyform: "\<exists>s. x = unat high * 16384 + unat bucket * 128 + unat (s :: index7)" if "x \<in> set (keys bucket)" for x bucket
    using that by (auto simp: keys_def split: option.splits)
  have "x < y" if "x \<in> set (keys b)" "y \<in> set (keys c)" "unat b < unat c" for x y b c
  proof -
    note given = that
    obtain s t where "x = unat high * 16384 + unat b * 128 + unat (s :: index7)"
      "y = unat high * 16384 + unat c * 128 + unat (t :: index7)" using keyform given(1,2) by blast
    with given(3) unat_bounds(2) [of s] show ?thesis by linarith
  qed
  then have outer: "sorted_wrt (\<lambda>b c. \<forall>x \<in> set (keys b). \<forall>y \<in> set (keys c). x < y) indices7"
    by (intro sorted_wrt_mono_rel [OF _ sorted_wrt_indices7]) blast
  ultimately show ?thesis using sorted_concat_map [OF inner outer] by simp
qed (simp add: rootPages_def)

lemma distinct_rootPages: "unat high < 2 ^ 50 \<Longrightarrow> distinct (map fst (rootPages high r))"
  using sorted_rootPages [of high r] by (metis distinct_map map_map strict_sorted_iff)

lemma pages_high: "(key, page) \<in> set (rootPages high r) \<Longrightarrow> unat high < 2 ^ 50 \<Longrightarrow> drop_bit 14 key = high"
  by (auto simp: set_rootPages pageIndexes_def)

lemma distinct_concat_map:
  assumes "distinct xs" "\<And>x. x \<in> set xs \<Longrightarrow> distinct (f x)"
    "\<And>x y. x \<in> set xs \<Longrightarrow> y \<in> set xs \<Longrightarrow> x \<noteq> y \<Longrightarrow> set (f x) \<inter> set (f y) = {}"
  shows "distinct (concat (map f xs))"
  using assms by (induction xs) auto

lemma distinct_pageList:
  assumes "roots_ok m"
  shows "distinct (map fst (pageList m))"
proof -
  note rs = rootList_root [OF assms]
  define L where "L = concat (map (\<lambda>(h, r). map fst (rootPages h (Some r))) (rootList m))"
  have "distinct L"
    unfolding L_def
  proof (rule distinct_concat_map)
    show "distinct (rootList m)" using assms by (simp add: roots_ok_def distinct_map)
  next
    fix x assume x: "x \<in> set (rootList m)"
    obtain h r where "x = (h, r)" by fastforce
    with x rs(2) [of h r] show "distinct (case x of (h, r) \<Rightarrow> map fst (rootPages h (Some r)))"
      by (simp add: distinct_rootPages)
  next
    fix x y assume xy: "x \<in> set (rootList m)" "y \<in> set (rootList m)" "x \<noteq> y"
    obtain h r h' r' where p: "x = (h, r)" "y = (h', r')" by fastforce
    have "h \<noteq> h'" using assms xy p by (auto simp: roots_ok_def dest: eq_key_imp_eq_value)
    moreover have "unat h < 2 ^ 50" "unat h' < 2 ^ 50" using rs(2) xy p by blast+
    ultimately show "set (case x of (h, r) \<Rightarrow> map fst (rootPages h (Some r))) \<inter>
        set (case y of (h, r) \<Rightarrow> map fst (rootPages h (Some r))) = {}"
      unfolding p by (auto dest!: pages_high)
  qed
  moreover have "map fst (concat (map (\<lambda>(h, r). rootPages h (Some r)) (rootList m))) = L"
    by (simp add: L_def map_concat comp_def split_def)
  moreover have "k \<notin> set L"
    if "k \<in> set (map fst (rootPages 0 (root0 m)))" for k
  proof
    assume "k \<in> set L"
    then obtain h r p where h: "(h, r) \<in> set (rootList m)" "(k, p) \<in> set (rootPages h (Some r))" by (auto simp: L_def)
    have "h \<noteq> 0" "unat h < 2 ^ 50" using rs(1) [of h r] rs(2) [OF h(1)] h(1) by simp_all
    then have "h \<noteq> 0" "drop_bit 14 k = h" using pages_high [OF h(2)] by simp_all
    moreover have "drop_bit 14 k = 0" using that by (auto dest!: pages_high)
    ultimately show False by simp
  qed
  ultimately show ?thesis unfolding pageList_def map_append distinct_append by (auto simp: distinct_rootPages simp del: set_map)
qed

lemma pages_of_pageList: "roots_ok m \<Longrightarrow> set (map fst (pageList m)) = pages_of m"
  by (auto simp: pages_of_def set_pageList image_iff Bex_def)

section \<open>Deletion\<close>

lemma addRoot_eq: "length active \<le> 2 \<Longrightarrow> addRoot active keys =
    (if length active + length keys \<le> 2 then Some (active @ keys) else None)"
  by (induction active keys rule: addRoot.induct) auto

lemma act_ok_restore:
  assumes "roots_ok m" "active_ok m"
  shows "active_ok (restoreSmallActive m)"
proof -
  have d: "distinct (map fst (pageList m))" "set (map fst (pageList m)) = pages_of m"
    using assms(1) by (rule distinct_pageList, rule pages_of_pageList)
  have p: "pages_of (restoreSmallActive m) = pages_of m" by (simp add: pages_of_def)
  show ?thesis
  proof (cases "smallActiveLen m \<noteq> pagedMapActiveOverflow \<or> plength m > 2 * 64 \<or> length (pageList m) > 2")
    case True
    then have "restoreSmallActive m = m" by (auto simp: restoreSmallActive_def addRoot_eq)
    with assms(2) show ?thesis by simp
  next
    case False
    define keys where "keys = map fst (pageList m)"
    have r: "restoreSmallActive m = (let active = (if length keys = 2 \<and> keys ! 1 < keys ! 0 then [keys ! 1, keys ! 0] else keys)
          in m\<lparr>smallActive := active @ replicate (2 - length keys) 0, smallActiveLen := word_of_nat (length keys)\<rparr>)"
      using False unfolding restoreSmallActive_def keys_def [symmetric] by (auto simp: addRoot_eq keys_def)
    have k: "distinct keys" "set keys = pages_of m" "length keys \<le> 2" using d False by (simp_all add: keys_def)
    consider "keys = []" | a where "keys = [a]" | a b where "keys = [a, b]"
      using k(3) by (auto elim: list_le2_exhaust)
    then show ?thesis
      unfolding active_ok_def p by cases (use k in \<open>auto simp: r Let_def act_ok_def\<close>)
  qed
qed

lemma dropPage_inv:
  assumes "pageByKey m key \<noteq> None" "tree_ok m" "roots_ok m"
  shows "tree_ok (dropPage key m)" "roots_ok (dropPage key m)" "plength (dropPage key m) = plength m"
    "smallActive (dropPage key m) = smallActive m" "smallActiveLen (dropPage key m) = smallActiveLen m"
proof -
  obtain high bucket shard where i: "pageIndexes key = (high, bucket, shard)" by (metis prod.exhaust)
  obtain root pages where r: "pm_root m high = Some root" "root bucket = Some pages"
    using assms(1) i by (auto simp: pageByKey_def split: option.splits)
  define pages' where "pages' = pages(shard := None)"
  define root' where "root' = root(bucket := (if pageBucketEmpty pages' then None else Some pages'))"
  have d: "dropPage key m = (if pageRootEmpty root' then deleteRoot high m else storeRoot high root' m)"
    by (simp add: dropPage_def i r Let_def pages'_def root'_def)
  have "\<forall>b q. root' b = Some q \<longrightarrow> q \<noteq> (\<lambda>_. None)"
    using assms(2) r(1) by (auto simp: root'_def pageBucketEmpty_iff tree_ok_def split: if_splits)
  then show "tree_ok (dropPage key m)"
    using assms(2) by (auto simp: d tree_ok_def pm_root_storeRoot pm_root_deleteRoot pageRootEmpty_iff split: if_splits)
  have "unat high < 2 ^ 44"
    using assms(3) r(1) by (cases "high = 0") (auto simp: roots_ok_def pm_root_alt)
  then show "roots_ok (dropPage key m)"
    using assms(3) by (auto simp: d roots_ok_storeRoot roots_ok_deleteRoot)
  show "plength (dropPage key m) = plength m" "smallActive (dropPage key m) = smallActive m"
    "smallActiveLen (dropPage key m) = smallActiveLen m" by (simp_all add: d)
qed

definition cut_page :: "'v \<Rightarrow> u64 \<Rightarrow> 'v valuePage \<Rightarrow> 'v valuePage" where
  "cut_page z ident page =
     page\<lparr>pvalues := (pvalues page)(slotOf ident := z), occupied := occupied page AND NOT (slotMask (slotOf ident))\<rparr>"

lemma cut_page_simps:
  "bit (occupied (cut_page z ident page)) (unat s) \<longleftrightarrow> bit (occupied page) (unat s) \<and> s \<noteq> slotOf ident"
  "s \<noteq> slotOf ident \<Longrightarrow> pvalues (cut_page z ident page) s = pvalues page s"
  by (simp_all add: cut_page_def bit_slotMask)

lemma pm_Delete_cases:
  obtains (absent) "pm_view m ident = None" "pm_Delete z ident m = m"
  | (kept) page where "pm_view m ident \<noteq> None" "pageByKey m (drop_bit 6 ident) = Some page"
      "occupied (cut_page z ident page) \<noteq> 0"
      "pm_Delete z ident m = (writePage (drop_bit 6 ident) (cut_page z ident page) m)\<lparr>plength := plength m - 1\<rparr>"
  | (dropped) page where "pm_view m ident \<noteq> None" "pageByKey m (drop_bit 6 ident) = Some page"
      "occupied (cut_page z ident page) = 0"
      "pm_Delete z ident m = restoreSmallActive (dropPage (drop_bit 6 ident) (removeActive (drop_bit 6 ident)
         ((writePage (drop_bit 6 ident) (cut_page z ident page) m)\<lparr>plength := plength m - 1\<rparr>)))"
proof (cases "pageByKey m (drop_bit 6 ident)")
  case None
  then show thesis by (intro absent) (simp_all add: pm_view_def pm_Delete_def)
next
  case (Some page)
  show thesis
  proof (cases "bit (occupied page) (unat (slotOf ident))")
    case False
    with Some show thesis by (intro absent) (simp_all add: pm_view_def pm_Delete_def slotMask_bit)
  next
    case True
    with Some have "pm_view m ident \<noteq> None" by (simp add: pm_view_def)
    then show thesis
      using Some True kept [of page] dropped [of page]
      by (cases "occupied (cut_page z ident page) = 0")
        (simp_all add: pm_Delete_def slotMask_bit Let_def cut_page_def)
  qed
qed

lemma pm_view_cut:
  assumes "pageByKey m (drop_bit 6 ident) = Some page"
    and "pageByKey m' = (pageByKey m)(drop_bit 6 ident := Some (cut_page z ident page))"
  shows "pm_view m' = (pm_view m)(ident := None)"
proof
  fix i
  show "pm_view m' i = ((pm_view m)(ident := None)) i"
    unfolding pm_view_def assms(2) fun_upd_apply ident_eq_iff [of i ident]
    using assms(1) by (simp add: cut_page_simps)
qed

lemma pm_view_drop:
  assumes "pageByKey m (drop_bit 6 ident) = Some page" "occupied (cut_page z ident page) = 0"
    and "pageByKey m' = (pageByKey m)(drop_bit 6 ident := None)"
  shows "pm_view m' = (pm_view m)(ident := None)"
proof
  fix i
  have "bit (occupied page) (unat s) \<Longrightarrow> s = slotOf ident" for s
    using cut_page_simps(1) [of z ident page s] assms(2) by auto
  then show "pm_view m' i = ((pm_view m)(ident := None)) i"
    unfolding pm_view_def assms(3) fun_upd_apply ident_eq_iff [of i ident]
    using assms(1) by auto
qed

lemma pageByKey_cut:
  assumes "pageByKey m key = Some page"
  shows "pageByKey (writePage key p m) = (pageByKey m)(key := Some p)"
    "pageByKey (dropPage key (removeActive key ((writePage key p m)\<lparr>plength := n\<rparr>))) = (pageByKey m)(key := None)"
  using assms by (simp_all add: pageByKey_writePage pageByKey_dropPage)

lemma pm_view_Delete [view_simps]: "pm_view (pm_Delete z ident m) = (pm_view m)(ident := None)"
proof (cases rule: pm_Delete_cases [of m ident z])
  case absent
  then show ?thesis by (metis fun_upd_triv)
next
  case (kept page)
  then show ?thesis by (intro pm_view_cut [of m ident page _ z]) (simp_all add: pageByKey_cut)
next
  case (dropped page)
  then show ?thesis by (intro pm_view_drop [of m ident page z]) (simp_all add: pageByKey_cut)
qed

lemma pm_inv_Delete:
  assumes "pm_inv m"
  shows "pm_inv (pm_Delete z ident m)"
proof -
  let ?key = "drop_bit 6 ident"
  have inv: "tree_ok m" "roots_ok m" "active_ok m" "pages_ok m" "plength m = int (card (dom (pm_view m)))"
    using assms by (simp_all add: pm_inv_def)
  show ?thesis
  proof (cases rule: pm_Delete_cases [of m ident z])
    case absent
    with assms show ?thesis by simp
  next
    case (kept page)
    note w = writePage_inv [of m ?key, OF _ inv(1,2), of "cut_page z ident page"]
    have "pages_of (pm_Delete z ident m) = pages_of m"
      using kept(2) by (auto simp: pages_of_def kept(4) pageByKey_cut)
    then have "active_ok (pm_Delete z ident m)"
      using inv(3) w kept(2) by (simp add: active_ok_def kept(4))
    moreover have "pages_ok (pm_Delete z ident m)"
      using inv(4) kept(2,3) by (auto simp: pages_ok_def kept(4) pageByKey_cut)
    moreover have "plength (pm_Delete z ident m) = int (card (dom (pm_view (pm_Delete z ident m))))"
      unfolding pm_view_Delete card_dom_remove [of "pm_view m" ident, OF kept(1)] using inv(5) by (simp add: kept(4))
    ultimately show ?thesis using w kept(2) by (simp add: pm_inv_def kept(4))
  next
    case (dropped page)
    define m1 where "m1 = removeActive ?key ((writePage ?key (cut_page z ident page) m)\<lparr>plength := plength m - 1\<rparr>)"
    note w = writePage_inv [of m ?key, OF _ inv(1,2), of "cut_page z ident page"]
    have m1: "tree_ok m1" "roots_ok m1" "plength m1 = plength m - 1" "pageByKey m1 ?key \<noteq> None"
      using w dropped(2) by (simp_all add: m1_def tree_ok_def roots_ok_def pageByKey_cut)
    note d = dropPage_inv [OF m1(4,1,2)]
    have del: "pm_Delete z ident m = restoreSmallActive (dropPage ?key m1)"
      unfolding m1_def by (rule dropped(4))
    have pk: "pageByKey (pm_Delete z ident m) = (pageByKey m)(?key := None)"
      using dropped(2) by (simp add: dropped(4) pageByKey_cut)
    have p: "pages_of (dropPage ?key m1) = pages_of m - {?key}"
      using dropped(2) by (auto simp: pages_of_def m1_def pageByKey_dropPage pageByKey_cut)
    have "act_ok (pages_of m - {?key}) (smallActive m1) (smallActiveLen m1)"
      unfolding m1_def using inv(3) w(4,5) dropped(2) by (intro act_ok_removeActive) (simp add: active_ok_def)
    then have "active_ok (dropPage ?key m1)" using d(4,5) p by (simp add: active_ok_def)
    with d(2) have "active_ok (pm_Delete z ident m)"
      by (simp add: del act_ok_restore)
    moreover have "pages_ok (pm_Delete z ident m)" using inv(4) by (auto simp: pages_ok_def pk)
    moreover have "plength (pm_Delete z ident m) = int (card (dom (pm_view (pm_Delete z ident m))))"
      unfolding pm_view_Delete card_dom_remove [of "pm_view m" ident, OF dropped(1)] using inv(5) d(3) m1(3)
      by (simp add: del)
    ultimately show ?thesis
      using d(1,2) by (simp add: pm_inv_def tree_ok_def roots_ok_def del)
  qed
qed

section \<open>Iteration visits the map\<close>

lemma page_key_bound:
  assumes "roots_ok m" "pageByKey m key \<noteq> None"
  shows "unat key < 2 ^ 58"
proof -
  obtain high bucket shard where i: "pageIndexes key = (high, bucket, shard)" by (metis prod.exhaust)
  have "pm_root m high \<noteq> None" using assms(2) by (auto simp: pageByKey_def i split: option.splits)
  with assms(1) have "unat high < 2 ^ 44"
    by (cases "high = 0") (auto simp: roots_ok_def pm_root_alt)
  then show ?thesis using unat_pageIndexes(1) [OF i] by (simp add: div_less_iff_less_mult)
qed

lemma set_pageEntries:
  assumes "unat key < 2 ^ 58"
  shows "(ident, v) \<in> set (pageEntries (key, page)) \<longleftrightarrow>
     drop_bit 6 ident = key \<and> bit (occupied page) (unat (slotOf ident)) \<and> pvalues page (slotOf ident) = v"
proof
  assume "(ident, v) \<in> set (pageEntries (key, page))"
  then obtain slot where s: "slot < 64" "bit (occupied page) slot" "ident = entryID key slot"
    "v = pvalues page (word_of_nat slot)"
    by (auto simp: pageEntries_def bit_slots_eq)
  then show "drop_bit 6 ident = key \<and> bit (occupied page) (unat (slotOf ident)) \<and> pvalues page (slotOf ident) = v"
    using entryID_split [OF assms s(1)] by (simp add: unat_word_of_nat_less)
next
  assume a: "drop_bit 6 ident = key \<and> bit (occupied page) (unat (slotOf ident)) \<and> pvalues page (slotOf ident) = v"
  then have "(ident, v) = (entryID key (unat (slotOf ident)), pvalues page (word_of_nat (unat (slotOf ident))))"
    using entryID_join [of ident] by simp
  moreover have "unat (slotOf ident) \<in> set (bit_slots (occupied page))"
    using a by (simp add: bit_slots_eq unat_bounds)
  ultimately show "(ident, v) \<in> set (pageEntries (key, page))"
    unfolding pageEntries_def fst_conv snd_conv set_map by (rule image_eqI)
qed

lemma sorted_pageEntries:
  assumes "unat key < 2 ^ 58"
  shows "sorted_wrt (<) (map (unat \<circ> fst) (pageEntries (key, page)))"
proof -
  have "map (unat \<circ> fst) (pageEntries (key, page)) = map (\<lambda>slot. unat key * 64 + slot) (bit_slots (occupied page))"
    by (auto simp: pageEntries_def bit_slots_eq unat_entryID [OF assms])
  moreover have "sorted_wrt (<) (bit_slots (occupied page))"
    unfolding bit_slots_eq by (intro sorted_wrt_filter) (simp add: strict_sorted_iff)
  ultimately show ?thesis by (simp add: sorted_wrt_map)
qed

lemma set_entries:
  assumes "roots_ok m" "\<And>key page. (key, page) \<in> set ps \<longleftrightarrow> pageByKey m key = Some page"
  shows "(ident, v) \<in> set (concat (map pageEntries ps)) \<longleftrightarrow> pm_view m ident = Some v"
proof -
  have "(ident, v) \<in> set (concat (map pageEntries ps)) \<longleftrightarrow>
      (\<exists>key page. pageByKey m key = Some page \<and> (ident, v) \<in> set (pageEntries (key, page)))"
    using assms(2) by (fastforce simp: image_iff)
  also have "\<dots> \<longleftrightarrow> (\<exists>page. pageByKey m (drop_bit 6 ident) = Some page \<and>
      bit (occupied page) (unat (slotOf ident)) \<and> pvalues page (slotOf ident) = v)"
    using page_key_bound [OF assms(1)]
    by (auto simp: set_pageEntries intro!: exI [of _ "drop_bit 6 ident"])
  also have "\<dots> \<longleftrightarrow> pm_view m ident = Some v"
    by (auto simp: pm_view_def split: option.splits)
  finally show ?thesis .
qed

lemma distinct_entries:
  assumes "distinct (map fst ps)" "\<And>key page. (key, page) \<in> set ps \<Longrightarrow> unat key < 2 ^ 58"
  shows "distinct (map fst (concat (map pageEntries ps)))"
proof -
  have "distinct (concat (map (map fst \<circ> pageEntries) ps))"
  proof (rule distinct_concat_map)
    show "distinct ps" using assms(1) by (simp add: distinct_map)
  next
    fix x assume "x \<in> set ps"
    then have "unat (fst x) < 2 ^ 58" using assms(2) by (metis prod.collapse)
    then show "distinct ((map fst \<circ> pageEntries) x)"
      using sorted_pageEntries [of "fst x" "snd x"]
      by simp (metis distinct_map map_map strict_sorted_iff)
  next
    fix x y assume xy: "x \<in> set ps" "y \<in> set ps" "x \<noteq> y"
    then have "fst x \<noteq> fst y" using assms(1) by (metis distinct_map inj_on_contraD)
    moreover have "unat (fst x) < 2 ^ 58" "unat (fst y) < 2 ^ 58" using assms(2) xy by (metis prod.collapse)+
    ultimately show "set ((map fst \<circ> pageEntries) x) \<inter> set ((map fst \<circ> pageEntries) y) = {}"
      using set_pageEntries [of "fst x" _ _ "snd x"] set_pageEntries [of "fst y" _ _ "snd y"] by fastforce
  qed
  then show ?thesis by (simp add: map_concat)
qed

lemma entries_view:
  assumes "roots_ok m" "\<And>key page. (key, page) \<in> set ps \<longleftrightarrow> pageByKey m key = Some page"
    "distinct (map fst ps)"
  shows "distinct (map fst (concat (map pageEntries ps)))" "map_of (concat (map pageEntries ps)) = pm_view m"
proof -
  show d: "distinct (map fst (concat (map pageEntries ps)))"
    using assms page_key_bound [OF assms(1)] by (intro distinct_entries) auto
  show "map_of (concat (map pageEntries ps)) = pm_view m"
  proof
    fix ident
    have "map_of (concat (map pageEntries ps)) ident = Some v \<longleftrightarrow> pm_view m ident = Some v" for v
      using set_entries [OF assms(1,2)] map_of_eq_Some_iff [OF d] by blast
    then show "map_of (concat (map pageEntries ps)) ident = pm_view m ident" by (metis option.exhaust)
  qed
qed

lemma activePages_props:
  assumes "set keys = pages_of m" "distinct keys"
  shows "(key, page) \<in> set (activePages keys m) \<longleftrightarrow> pageByKey m key = Some page"
    "map fst (activePages keys m) = keys"
proof -
  show "(key, page) \<in> set (activePages keys m) \<longleftrightarrow> pageByKey m key = Some page"
    using assms(1) by (auto simp: activePages_def pages_of_def split: option.splits)
  have "key \<in> set keys \<Longrightarrow> pageByKey m key \<noteq> None" for key using assms(1) by (auto simp: pages_of_def)
  then show "map fst (activePages keys m) = keys"
    unfolding activePages_def by (induction keys) (auto split: option.splits)
qed

lemma active_keys:
  assumes "active_ok m" "smallActiveLen m \<noteq> pagedMapActiveOverflow"
  shows "set (take (unat (smallActiveLen m)) (smallActive m)) = pages_of m"
    "distinct (take (unat (smallActiveLen m)) (smallActive m))"
  using assms by (auto simp: active_ok_def act_ok_def)

lemma pm_All_view:
  assumes "pm_inv m"
  shows "distinct (map fst (pm_All m))" "map_of (pm_All m) = pm_view m"
proof -
  have inv: "roots_ok m" "active_ok m" using assms by (simp_all add: pm_inv_def)
  have "distinct (map fst (pm_All m)) \<and> map_of (pm_All m) = pm_view m"
  proof (cases "smallActiveLen m = pagedMapActiveOverflow")
    case True
    then show ?thesis
      using entries_view [OF inv(1) set_pageList [OF inv(1)] distinct_pageList [OF inv(1)]] by (simp add: pm_All_def)
  next
    case False
    note a = activePages_props [OF active_keys [OF inv(2) False]]
    show ?thesis using False entries_view [OF inv(1) a(1)] active_keys [OF inv(2) False] a(2) by (simp add: pm_All_def)
  qed
  then show "distinct (map fst (pm_All m))" "map_of (pm_All m) = pm_view m" by blast+
qed

section \<open>Ordered iteration\<close>

definition eligible :: "u64 option \<Rightarrow> u64 \<Rightarrow> bool" where
  "eligible lst h \<longleftrightarrow> h \<noteq> 0 \<and> (case lst of None \<Rightarrow> True | Some l \<Rightarrow> l < h)"

definition batch_inv :: "nat \<Rightarrow> u64 option \<Rightarrow> u64 set \<Rightarrow> u64 list \<Rightarrow> bool" where
  "batch_inv batch lst seen cands \<longleftrightarrow>
     distinct cands \<and> length cands \<le> batch \<and> set cands \<subseteq> {x \<in> seen. eligible lst x} \<and>
     (length cands < batch \<longrightarrow> set cands = {x \<in> seen. eligible lst x}) \<and>
     (length cands = batch \<longrightarrow> sorted_wrt (>) cands) \<and>
     (\<forall>x \<in> seen. eligible lst x \<and> x \<notin> set cands \<longrightarrow> (\<forall>y \<in> set cands. y < x))"

lemma heap_desc: "distinct xs \<Longrightarrow> sorted_wrt (>) (rev (sort xs))" for xs :: "u64 list"
  by (simp add: sorted_wrt_rev strict_sorted_iff)

lemma batch_inv_rev_sort:
  assumes "distinct xs" "set xs \<subseteq> {x \<in> seen. eligible lst x}" "length xs = batch"
    "\<And>x y. x \<in> seen \<Longrightarrow> eligible lst x \<Longrightarrow> x \<notin> set xs \<Longrightarrow> y \<in> set xs \<Longrightarrow> y < x"
  shows "batch_inv batch lst seen (rev (sort xs))"
  unfolding batch_inv_def using assms heap_desc [OF assms(1)] by (simp add: subset_iff)

lemma batch_inv_replace:
  assumes "batch_inv batch lst seen (c # cs)" "length (c # cs) = batch" "h < c" "h \<notin> seen" "eligible lst h"
  shows "batch_inv batch lst (insert h seen) (heapFix (h # cs))"
proof -
  have c: "distinct (c # cs)" "set (c # cs) \<subseteq> {x \<in> seen. eligible lst x}" "sorted_wrt (>) (c # cs)"
    "\<And>x y. x \<in> seen \<Longrightarrow> eligible lst x \<Longrightarrow> x \<notin> set (c # cs) \<Longrightarrow> y \<in> set (c # cs) \<Longrightarrow> y < x"
    using assms(1,2) unfolding batch_inv_def by blast+
  have "h \<notin> set cs" using c(2) assms(4) by auto
  then have d: "distinct (h # cs)" using c(1) by simp
  have "y < x" if "x \<in> insert h seen" "eligible lst x" "x \<notin> set (h # cs)" "y \<in> set (h # cs)" for x y
  proof (cases "x = c")
    case True
    with that(4) assms(3) c(3) show ?thesis by auto
  next
    case False
    with that have "c < x" using c(4) [of x c] by auto
    moreover have "y \<le> c" using that(4) assms(3) c(3) by auto
    ultimately show ?thesis by simp
  qed
  then show ?thesis
    unfolding heapFix_def using d c(2) assms(2,5) by (intro batch_inv_rev_sort) auto
qed

lemma batch_inv_skip:
  assumes "batch_inv batch lst seen cands" "\<not> eligible lst h \<or> length cands = batch \<and> (\<forall>y \<in> set cands. y < h)"
  shows "batch_inv batch lst (insert h seen) cands"
  using assms unfolding batch_inv_def by auto

lemma batch_inv_grow:
  assumes "batch_inv batch lst seen cands" "length cands < batch" "h \<notin> seen" "eligible lst h"
  shows "batch_inv batch lst (insert h seen) (let c = cands @ [h] in if length c = batch then heapInit c else c)"
proof -
  have c: "distinct cands" "set cands = {x \<in> seen. eligible lst x}" using assms(1,2) by (auto simp: batch_inv_def)
  define xs where "xs = cands @ [h]"
  have x: "distinct xs" "set xs = {x \<in> insert h seen. eligible lst x}" using c assms(3,4) by (auto simp: xs_def)
  have "batch_inv batch lst (insert h seen) (rev (sort xs))" if "length xs = batch"
    using x that by (intro batch_inv_rev_sort) auto
  moreover have "batch_inv batch lst (insert h seen) xs" if "length xs \<noteq> batch"
    using x that assms(2) by (auto simp: batch_inv_def) (auto simp: xs_def)
  ultimately show ?thesis by (simp add: Let_def heapInit_def xs_def [symmetric])
qed

lemma selectBatch_inv:
  assumes "batch_inv batch lst seen cands" "distinct highs" "set highs \<inter> seen = {}" "batch > 0"
  shows "batch_inv batch lst (seen \<union> set highs) (selectBatch batch lst cands highs)"
  using assms
proof (induction batch lst cands highs arbitrary: seen rule: selectBatch.induct)
  case (2 batch lst cands h highs)
  have el: "eligible lst h \<longleftrightarrow> \<not> (h = 0 \<or> (case lst of None \<Rightarrow> False | Some l \<Rightarrow> h \<le> l))"
    by (auto simp: eligible_def not_le split: option.splits)
  have rest: "distinct highs" "set highs \<inter> insert h seen = {}" "h \<notin> seen" using "2.prems"(2,3) by auto
  have u: "seen \<union> set (h # highs) = insert h seen \<union> set highs" by auto
  show ?case
  proof (cases "eligible lst h")
    case False
    then show ?thesis
      unfolding u using "2.IH"(1) [OF _ batch_inv_skip [OF "2.prems"(1)] rest(1,2) "2.prems"(4)] el by auto
  next
    case True
    show ?thesis
    proof (cases "length cands < batch")
      case len: True
      from "2.IH"(2) [OF _ len batch_inv_grow [OF "2.prems"(1) len rest(3) True] rest(1,2) "2.prems"(4)]
      show ?thesis unfolding u using True el len by (auto simp: Let_def)
    next
      case False
      then have len: "length cands = batch" using "2.prems"(1) by (simp add: batch_inv_def)
      then obtain c cs where c: "cands = c # cs" using "2.prems"(4) by (cases cands) auto
      have desc: "sorted_wrt (>) (c # cs)" using "2.prems"(1) len by (simp add: batch_inv_def c)
      have "h \<notin> set cands" using "2.prems"(1) rest(3) by (auto simp: batch_inv_def)
      show ?thesis
      proof (cases "h < c")
        case lt: True
        have "batch_inv batch lst (insert h seen) (heapFix (cands[0 := h]))"
          using batch_inv_replace [OF _ _ lt rest(3) True] "2.prems"(1) len by (simp add: c)
        from "2.IH"(3) [OF _ False _ this rest(1,2) "2.prems"(4)]
        show ?thesis unfolding u using True el False lt c by (auto simp: Let_def)
      next
        case ge: False
        then have "\<forall>y \<in> set cands. y < h" using desc \<open>h \<notin> set cands\<close> by (auto simp: c)
        from "2.IH"(4) [OF _ False _ batch_inv_skip [OF "2.prems"(1)] rest(1,2) "2.prems"(4)] this len
        show ?thesis unfolding u using True el False ge c by (auto simp: Let_def)
      qed
    qed
  qed
qed simp

lemma last_sorted_ge: "sorted xs \<Longrightarrow> x \<in> set xs \<Longrightarrow> x \<le> last xs" for x :: u64
  by (induction xs) auto

lemma orderedBatches_props:
  assumes "distinct highs" "batch > 0"
  shows "sorted_wrt (<) (concat (orderedBatches highs batch lst)) \<and>
     set (concat (orderedBatches highs batch lst)) = {h \<in> set highs. eligible lst h}"
  using assms
proof (induction highs batch lst rule: orderedBatches.induct)
  case (1 highs batch lst)
  define cands where "cands = selectBatch batch lst [] highs"
  have b: "batch_inv batch lst (set highs) cands"
    using selectBatch_inv [of batch lst "{}" "[]" highs] "1.prems" by (auto simp: cands_def batch_inv_def)
  show ?case
  proof (cases "cands = []")
    case True
    with b "1.prems"(2) have "{h \<in> set highs. eligible lst h} = {}" by (auto simp: batch_inv_def)
    moreover have "orderedBatches highs batch lst = []"
      using True by (subst orderedBatches.simps) (simp add: cands_def)
    ultimately show ?thesis by simp
  next
    case False
    define keys where "keys = sort cands"
    define l where "l = last keys"
    have ob: "orderedBatches highs batch lst = keys # orderedBatches highs batch (Some l)"
      using False by (subst orderedBatches.simps) (simp add: cands_def keys_def l_def Let_def)
    have IH: "sorted_wrt (<) (concat (orderedBatches highs batch (Some l)))"
      "set (concat (orderedBatches highs batch (Some l))) = {h \<in> set highs. eligible (Some l) h}"
      using "1.IH" [OF cands_def False keys_def] "1.prems" by (simp_all add: l_def)
    have k: "sorted_wrt (<) keys" "set keys = set cands"
      using b by (simp_all add: keys_def strict_sorted_iff batch_inv_def)
    have top: "x \<le> l" if "x \<in> set keys" for x
      unfolding l_def using that by (intro last_sorted_ge) (simp_all add: keys_def)
    have l: "l \<in> set cands" using False k(2) unfolding l_def by (metis last_in_set set_empty)
    have "{h \<in> set highs. eligible lst h} = set keys \<union> {h \<in> set highs. eligible (Some l) h}"
    proof (intro set_eqI iffI)
      fix x assume "x \<in> {h \<in> set highs. eligible lst h}"
      then show "x \<in> set keys \<union> {h \<in> set highs. eligible (Some l) h}"
        using b l k(2) unfolding batch_inv_def by (cases "x \<in> set cands") (auto simp: eligible_def)
    next
      fix x assume x: "x \<in> set keys \<union> {h \<in> set highs. eligible (Some l) h}"
      have "eligible lst l" "set cands \<subseteq> {h \<in> set highs. eligible lst h}" using b l by (auto simp: batch_inv_def)
      with x show "x \<in> {h \<in> set highs. eligible lst h}"
        using k(2) by (auto simp: eligible_def split: option.splits)
    qed
    moreover have "x < y" if "x \<in> set keys" "y \<in> {h \<in> set highs. eligible (Some l) h}" for x y
      using top [OF that(1)] that(2) by (auto simp: eligible_def)
    ultimately show ?thesis using IH k(1) unfolding ob by (auto simp: sorted_wrt_append)
  qed
qed

lemma sorted_entries:
  assumes "sorted_wrt (<) (map (unat \<circ> fst) ps)" "\<And>key page. (key, page) \<in> set ps \<Longrightarrow> unat key < 2 ^ 58"
  shows "sorted_wrt (<) (map (unat \<circ> fst) (concat (map pageEntries ps)))"
  using assms
proof (induction ps)
  case (Cons kp ps)
  obtain key page where kp: "kp = (key, page)" by (metis prod.exhaust)
  have key: "unat key < 2 ^ 58" using Cons.prems(2) [of key page] kp by simp
  have "unat i < unat j"
    if i: "(i, v) \<in> set (pageEntries (key, page))" and j: "(j, u) \<in> set (pageEntries q)" and q: "q \<in> set ps" for i v j u q
  proof -
    obtain key' page' where q': "q = (key', page')" by (metis prod.exhaust)
    have "unat key' < 2 ^ 58" "unat key < unat key'" using Cons.prems q kp q' by auto
    moreover have "drop_bit 6 i = key" "drop_bit 6 j = key'"
      using i j key calculation(1) by (simp_all add: q' set_pageEntries)
    ultimately have "unat i div 64 < unat j div 64" using unat_drop_bit_div [of 6 i] unat_drop_bit_div [of 6 j] by auto
    then show ?thesis by (metis div_le_mono not_le)
  qed
  moreover have "sorted_wrt (<) (map (unat \<circ> fst) (concat (map pageEntries ps)))"
    using Cons.prems by (intro Cons.IH) auto
  ultimately show ?case
    using sorted_pageEntries [OF key, of page] by (auto simp: kp sorted_wrt_append o_def)
qed simp

lemma sorted_root_list:
  assumes "sorted_wrt (<) hs" "\<And>h. h \<in> set hs \<Longrightarrow> unat h < 2 ^ 50"
  shows "sorted_wrt (<) (map (unat \<circ> fst) (concat (map (\<lambda>h. rootPages h (r h)) hs)))"
  using assms
proof (induction hs)
  case (Cons h hs)
  have "unat (fst x) < unat (fst y)"
    if x: "x \<in> set (rootPages h (r h))" and y: "y \<in> set (rootPages g (r g))" and g: "g \<in> set hs" for x y g
  proof -
    have "h < g" "unat h < 2 ^ 50" "unat g < 2 ^ 50" using Cons.prems g by auto
    then have "drop_bit 14 (fst x) = h" "drop_bit 14 (fst y) = g"
      using x y pages_high by (metis prod.collapse)+
    with \<open>h < g\<close> have "unat (fst x) div 2 ^ 14 < unat (fst y) div 2 ^ 14"
      using unat_drop_bit_div [of 14 "fst x"] unat_drop_bit_div [of 14 "fst y"] by (simp add: word_less_nat_alt)
    then show ?thesis by (metis div_le_mono not_le)
  qed
  then show ?case
    using Cons sorted_rootPages [of h "r h"] by (auto simp: sorted_wrt_append o_def)
qed simp

definition allRoots :: "'v PagedMap \<Rightarrow> u64 list \<Rightarrow> (u64 \<times> 'v valuePage) list" where
  "allRoots m highs = concat (map (\<lambda>h. rootPages h (pm_root m h)) (0 # highs))"

lemma concat_concat_map: "concat (concat (map f xs)) = concat (map (\<lambda>x. concat (f x)) xs)"
  by (induction xs) auto

lemma orderedRoots_pages:
  assumes "0 \<notin> set highs"
  shows "orderedRoots highs m = concat (map pageEntries (allRoots m highs))"
proof -
  have "concat (map pageEntries (rootPages h (case roots m of None \<Rightarrow> None | Some rs \<Rightarrow> map_of rs h))) =
      concat (map pageEntries (rootPages h (pm_root m h)))" if "h \<in> set highs" for h
    using assms that by (auto simp: map_of_rootList pm_root_alt)
  then have "yieldHighRoots highs m = concat (map (\<lambda>h. concat (map pageEntries (rootPages h (pm_root m h)))) highs)"
    unfolding yieldHighRoots_def by (metis (no_types, lifting) map_cong)
  then show ?thesis
    by (simp add: orderedRoots_def allRoots_def pm_root_alt [of m 0] map_concat concat_concat_map o_def)
qed

lemma set_allRoots:
  assumes "roots_ok m" "set highs = set (map fst (rootList m))"
  shows "(key, page) \<in> set (allRoots m highs) \<longleftrightarrow> pageByKey m key = Some page"
proof -
  have "(\<exists>h \<in> set highs. (key, page) \<in> set (rootPages h (pm_root m h))) \<longleftrightarrow>
      (\<exists>h root. (h, root) \<in> set (rootList m) \<and> (key, page) \<in> set (rootPages h (Some root)))"
    unfolding assms(2) set_map bex_simps(7) using rootList_root(1) [OF assms(1)]
    by (auto simp: Bex_def) (metis option.sel)?
  then show ?thesis
    unfolding set_pageList [OF assms(1), symmetric] by (force simp: allRoots_def pageList_def pm_root_alt)
qed

lemma orderedRoots_view:
  assumes "roots_ok m" "sorted_wrt (<) highs" "set highs = set (map fst (rootList m))"
  shows "sorted_wrt (<) (map (unat \<circ> fst) (orderedRoots highs m)) \<and> map_of (orderedRoots highs m) = pm_view m"
proof -
  have hs: "h \<noteq> 0 \<and> unat h < 2 ^ 50" if "h \<in> set highs" for h
    using that assms(3) rootList_root [OF assms(1), of h] by auto
  then have "0 \<notin> set highs" by blast
  note o = orderedRoots_pages [OF this]
  have "sorted_wrt (<) (0 # highs)" using assms(2) hs by (simp add: word_neq_0_conv)
  then have p: "sorted_wrt (<) (map (unat \<circ> fst) (allRoots m highs))"
    unfolding allRoots_def by (intro sorted_root_list) (auto dest: hs)
  then have d: "distinct (map fst (allRoots m highs))" by (metis distinct_map map_map strict_sorted_iff)
  note s = set_allRoots [OF assms(1,3)]
  have "sorted_wrt (<) (map (unat \<circ> fst) (concat (map pageEntries (allRoots m highs))))"
    using p page_key_bound [OF assms(1)] by (intro sorted_entries) (auto simp: s)
  then show ?thesis using entries_view(2) [OF assms(1) s d] by (simp add: o)
qed

lemma sorted_map_unat: "sorted_wrt (<) xs \<Longrightarrow> sorted_wrt (<) (map unat xs)" for xs :: "u64 list"
  unfolding sorted_wrt_map by (erule sorted_wrt_mono_rel [rotated]) (simp add: word_less_nat_alt)

lemma order_small_pair:
  fixes xs :: "u64 list"
  assumes "distinct xs" "length xs \<le> 2"
  defines "ys \<equiv> if length xs = 2 \<and> xs ! 1 < xs ! 0 then [xs ! 1, xs ! 0] else xs"
  shows "set ys = set xs \<and> distinct ys \<and> sorted_wrt (<) ys"
proof -
  consider "xs = []" | a where "xs = [a]" | a b where "xs = [a, b]"
    using assms(2) by (auto elim: list_le2_exhaust)
  then show ?thesis by cases (use assms(1) in \<open>auto simp: ys_def\<close>)
qed

lemma pm_Ordered_view:
  assumes "pm_inv m"
  shows "sorted_wrt (<) (map (unat \<circ> fst) (pm_Ordered m)) \<and> map_of (pm_Ordered m) = pm_view m"
proof -
  have inv: "roots_ok m" "active_ok m" using assms by (simp_all add: pm_inv_def)
  show ?thesis
  proof (cases "smallActiveLen m = pagedMapActiveOverflow")
    case True
    define highs where "highs = map fst (rootList m)"
    define hs where "hs = concat (if highs = [] then [] else orderedBatches highs (min (length highs) pagedMapOrderedBatch) None)"
    have ob: "pm_Ordered m = orderedRoots hs m"
      using True by (simp add: pm_Ordered_def orderedRoots_def yieldHighRoots_def highs_def hs_def Let_def map_concat concat_concat_map)
    have "distinct highs" "0 \<notin> set highs"
      using inv(1) rootList_root(1) [OF inv(1), of 0] by (auto simp: highs_def roots_ok_def)
    then have "sorted_wrt (<) hs \<and> set hs = set highs"
      using orderedBatches_props [of highs "min (length highs) pagedMapOrderedBatch" None]
      by (auto simp: hs_def eligible_def pagedMapOrderedBatch_def)
    then show ?thesis unfolding ob using inv(1) by (intro orderedRoots_view) (simp_all add: highs_def)
  next
    case False
    define copied where "copied = take (unat (smallActiveLen m)) (smallActive m)"
    define active where "active = (if unat (smallActiveLen m) = 2 \<and> copied ! 1 < copied ! 0 then [copied ! 1, copied ! 0] else copied)"
    have len: "length copied = unat (smallActiveLen m)" "length copied \<le> 2"
      using inv(2) False by (auto simp: active_ok_def act_ok_def copied_def word_le_nat_alt)
    note k = active_keys [OF inv(2) False, folded copied_def]
    have act: "set active = set copied" "distinct active" "sorted_wrt (<) active"
      using order_small_pair [OF k(2) len(2)] by (auto simp: active_def len(1) [symmetric])
    note act = act [unfolded k(1)]
    note a = activePages_props [OF act(1,2)]
    have "sorted_wrt (<) (map (unat \<circ> fst) (concat (map pageEntries (activePages active m))))"
      using a sorted_map_unat [OF act(3)] page_key_bound [OF inv(1)]
      by (intro sorted_entries) (simp_all add: map_map [symmetric] del: map_map)
    moreover have "pm_Ordered m = concat (map pageEntries (activePages active m))"
      using False unfolding pm_Ordered_def Let_def active_def copied_def by argo
    ultimately show ?thesis
      using entries_view(2) [OF inv(1) a(1)] act(2) a(2) by simp
  qed
qed

section \<open>The paged map is a key table\<close>

lemma pm_view_New: "pm_view NewPagedMap = (\<lambda>_. None)"
  by (auto simp: pm_view_def NewPagedMap_def pageByKey_def pm_root_def split: prod.splits)

lemma pm_inv_New: "pm_inv NewPagedMap"
  by (simp add: pm_inv_defs pm_view_New pages_of_def act_ok_def)
    (auto simp: NewPagedMap_def pageByKey_def pm_root_def rootList_def split: prod.splits)

interpretation paged: key_table z NewPagedMap "pm_Get z" pm_Has "pm_Set z" "pm_Delete z" pm_Len pm_All pm_view pm_inv
  for z
  by unfold_locales
    (simp_all add: pm_inv_New pm_view_New pm_inv_Set pm_view_Set pm_inv_Delete pm_view_Delete pm_Get_view pm_Has_view
      pm_Len_def pm_All_view, simp add: pm_inv_def)

lemma root_has_page:
  assumes "roots_ok m" "tree_ok m" "pm_root m h \<noteq> None"
  shows "\<exists>key page. pageByKey m key = Some page"
proof -
  obtain root where r: "pm_root m h = Some root" using assms(3) by blast
  then have "root \<noteq> (\<lambda>_. None)" using assms(2) by (auto simp: tree_ok_def)
  then obtain bucket pages where b: "root bucket = Some pages" by fastforce
  then have "pages \<noteq> (\<lambda>_. None)" using assms(2) r by (auto simp: tree_ok_def)
  then obtain shard page where p: "pages shard = Some page" by fastforce
  have "unat h < 2 ^ 50"
    using rootList_root [OF assms(1), of h root] r by (cases "h = 0") auto
  then have "pageIndexes (pageKey h bucket shard) = (h, bucket, shard)" by (rule pageIndexes_pageKey)
  with r b p show ?thesis by (metis (no_types, lifting) pageByKey_def option.case(2) prod.case)
qed

section \<open>Correctness of the table\<close>

text \<open>The mutating calls a client can make, run from a new table, and what they mean.\<close>

datatype 'v pm_op = OpSet u64 'v | OpForkSet u64 'v | OpDelete u64

fun pm_step :: "'v \<Rightarrow> 'v pm_op \<Rightarrow> 'v PagedMap \<Rightarrow> 'v PagedMap" where
  "pm_step z (OpSet i v) m = pm_Set z i v m"
| "pm_step z (OpForkSet i v) m = pm_ForkSet z i v m"
| "pm_step z (OpDelete i) m = pm_Delete z i m"

fun op_meaning :: "'v pm_op \<Rightarrow> (u64 \<Rightarrow> 'v option) \<Rightarrow> u64 \<Rightarrow> 'v option" where
  "op_meaning (OpSet i v) f = f(i \<mapsto> v)"
| "op_meaning (OpForkSet i v) f = f(i \<mapsto> v)"
| "op_meaning (OpDelete i) f = f(i := None)"

definition pm_run :: "'v \<Rightarrow> 'v pm_op list \<Rightarrow> 'v PagedMap" where
  "pm_run z ops = fold (pm_step z) ops NewPagedMap"

definition ops_meaning :: "'v pm_op list \<Rightarrow> u64 \<Rightarrow> 'v option" where
  "ops_meaning ops = fold op_meaning ops (\<lambda>_. None)"

lemma pm_step_view: "pm_view (pm_step z op m) = op_meaning op (pm_view m)"
  by (cases op) (simp_all add: view_simps)

lemma pm_step_inv: "pm_inv m \<Longrightarrow> pm_inv (pm_step z op m)"
  by (cases op) (simp_all add: pm_inv_Set pm_inv_ForkSet pm_inv_Delete)

lemma pm_fold_inv: "pm_inv m \<Longrightarrow> pm_inv (fold (pm_step z) ops m)"
  by (induction ops arbitrary: m) (simp_all add: pm_step_inv)

lemma pm_fold_view: "pm_view (fold (pm_step z) ops m) = fold op_meaning ops (pm_view m)"
  by (induction ops arbitrary: m) (simp_all add: pm_step_view)

lemma pm_run_inv: "pm_inv (pm_run z ops)"
  by (simp add: pm_run_def pm_fold_inv pm_inv_New)

lemma pm_run_view: "pm_view (pm_run z ops) = ops_meaning ops"
  by (simp add: pm_run_def ops_meaning_def pm_fold_view pm_view_New)

text \<open>
  C13. Whatever calls of \<^verbatim>\<open>Set\<close>, \<^verbatim>\<open>ForkSet\<close> and \<^verbatim>\<open>Delete\<close> are made on a new table, in whatever order and
  on whatever 64-bit identifiers, the radix tree refines the map those calls describe: \<^verbatim>\<open>Get\<close>
  returns the value last stored (the zero value when there is none), \<^verbatim>\<open>Has\<close> tells whether there is
  one, and \<^verbatim>\<open>Len\<close> counts the bound identifiers. No lookup is affected by page splitting, by the
  dropping of emptied pages, buckets and roots, or by the two-entry list of active pages.
\<close>

theorem paged_map_refines:
  "pm_Get z (pm_run z ops) ident = (case ops_meaning ops ident of None \<Rightarrow> z | Some v \<Rightarrow> v) \<and>
   (pm_Has (pm_run z ops) ident \<longleftrightarrow> ops_meaning ops ident \<noteq> None) \<and>
   pm_Len (pm_run z ops) = int (card (dom (ops_meaning ops)))"
  using paged.len_view [OF pm_run_inv, of z ops] by (simp add: pm_Get_view pm_Has_view pm_run_view)

text \<open>
  Iteration over a table built by any calls: \<^verbatim>\<open>All\<close> yields every binding exactly once, both on
  the path that walks the list of active pages and on the path that walks the whole tree, for every
  order in which Go may range over the map of high roots.
\<close>

theorem paged_map_all:
  "distinct (map fst (pm_All (pm_run z ops))) \<and> map_of (pm_All (pm_run z ops)) = ops_meaning ops \<and>
   int (length (pm_All (pm_run z ops))) = pm_Len (pm_run z ops)"
  using paged.all_distinct [OF pm_run_inv, of z ops] paged.all_view [OF pm_run_inv, of z ops]
    paged.all_count [OF pm_run_inv, of z ops] by (simp add: pm_run_view)

text \<open>
  C28. \<^verbatim>\<open>Ordered\<close> yields the same bindings in strictly ascending order of the identifier read as an
  unsigned number, although it selects the high roots in bounded batches out of an unordered map.
\<close>

theorem paged_map_ordered:
  "sorted_wrt (<) (map (unat \<circ> fst) (pm_Ordered (pm_run z ops))) \<and>
   map_of (pm_Ordered (pm_run z ops)) = ops_meaning ops"
  using pm_Ordered_view [OF pm_run_inv, of z ops] by (simp add: pm_run_view)

text \<open>
  Deleting what was never stored, or storing and deleting again, leaves a table that answers
  every lookup as before; in particular a table from which every identifier was deleted holds no page.
\<close>

theorem paged_map_delete_empty:
  assumes "ops_meaning ops = (\<lambda>_. None)"
  shows "root0 (pm_run z ops) = None \<and> rootList (pm_run z ops) = [] \<and> pm_Len (pm_run z ops) = 0 \<and>
    pm_All (pm_run z ops) = []"
proof -
  define m where "m = pm_run z ops"
  have inv: "tree_ok m" "pages_ok m" "pm_inv m" "roots_ok m" using pm_run_inv [of z ops] by (simp_all add: m_def pm_inv_def)
  have v: "pm_view m = (\<lambda>_. None)" using assms by (simp add: m_def pm_run_view)
  have "pm_root m h = None" for h
  proof (rule ccontr)
    assume "pm_root m h \<noteq> None"
    then obtain key page where kp: "pageByKey m key = Some page"
      using inv(1,4) root_has_page [of m h] by blast
    then have "occupied page \<noteq> 0" using inv(2) by (auto simp: pages_ok_def)
    then obtain slot where "slot < 64" "bit (occupied page) slot" using word_exists_bit by blast
    then have "pm_view m (entryID key slot) \<noteq> None"
      using entryID_split [OF page_key_bound [OF inv(4)]] kp by (simp add: pm_view_def unat_word_of_nat_less)
    with v show False by simp
  qed
  then have "root0 m = None" "rootList m = []"
    using rootList_root(1) [OF inv(4)] pm_root_alt [of m 0] by (simp, cases "rootList m") auto
  moreover have "pm_Len m = 0" "pm_All m = []"
    using paged.len_view [OF inv(3)] paged.all_view [OF inv(3)] v by (auto simp: map_of_eq_empty_iff)
  ultimately show ?thesis by (simp add: m_def)
qed

lemma paged_map_delete_empty_witness:
  "root0 (pm_run (0::nat) [OpSet 5 7, OpForkSet (2 ^ 40) 1, OpDelete (2 ^ 40), OpDelete 5]) = None"
  using paged_map_delete_empty [of "[OpSet 5 (7::nat), OpForkSet (2 ^ 40) 1, OpDelete (2 ^ 40), OpDelete 5]" 0]
  by (simp add: ops_meaning_def fun_eq_iff)

end
