(* ===== verification/Adjacency.thy ===== *)
theory Adjacency
  imports PagedMap
begin

text \<open>
  Adjacency lists (\<^verbatim>\<open>internal/store/adjacency.go\<close>): the edge identifiers of a node in the order they were added,
  inline while there are at most 63, in chunks of 64 inside a paged map beyond that, with removed
  identifiers of a chunked list kept as tombstones until the list is rebuilt; and the background rebuild of
  \<^verbatim>\<open>adjacency_compaction.go\<close>. A nil \<^verbatim>\<open>*EdgeList\<close> is \<open>None\<close>; operations return a new list, as the Go code does.
  \<^verbatim>\<open>removed.Fork()\<close> and \<^verbatim>\<open>removed.CloneShardOnce(id)\<close> before \<^verbatim>\<open>removed.Set\<close> do not change contents.
  Counters are Go \<^verbatim>\<open>int\<close>s; with distinct 64-bit identifiers in memory they stay far below overflow and are
  modelled as integers.
\<close>

section \<open>Data and operations\<close>

definition adjacencyChunkSize :: nat where
  "adjacencyChunkSize = 64"

definition adjacencySyncCompactLimit :: int where
  "adjacencySyncCompactLimit = int adjacencyChunkSize * 4"

definition adjacencyInlineLimit :: nat where
  "adjacencyInlineLimit = adjacencyChunkSize - 1"

record EdgeList =
  el_small :: "u64 list"
  el_chunks :: "u64 list PagedMap"
  el_removed :: "unit PagedMap"
  el_count :: int
  el_total :: int

definition empty_edges :: EdgeList where
  "empty_edges = \<lparr>el_small = [], el_chunks = NewPagedMap, el_removed = NewPagedMap, el_count = 0, el_total = 0\<rparr>"

definition el_Len :: "EdgeList option \<Rightarrow> int" where
  "el_Len l = (case l of None \<Rightarrow> 0 | Some e \<Rightarrow> el_count e)"

definition el_inline :: "EdgeList \<Rightarrow> bool" where
  "el_inline e \<longleftrightarrow> root0 (el_chunks e) = None \<and> roots (el_chunks e) = None"

definition el_IsInline :: "EdgeList option \<Rightarrow> bool" where
  "el_IsInline l \<longleftrightarrow> (case l of None \<Rightarrow> True | Some e \<Rightarrow> el_inline e)"

definition el_InlineIDs :: "EdgeList option \<Rightarrow> u64 list" where
  "el_InlineIDs l = (case l of None \<Rightarrow> [] | Some e \<Rightarrow> el_small e)"

definition el_HasRemovals :: "EdgeList option \<Rightarrow> bool" where
  "el_HasRemovals l \<longleftrightarrow> (case l of None \<Rightarrow> False | Some e \<Rightarrow> pm_Len (el_removed e) \<noteq> 0)"

definition el_IsRemoved :: "EdgeList option \<Rightarrow> u64 \<Rightarrow> bool" where
  "el_IsRemoved l ident \<longleftrightarrow> (case l of None \<Rightarrow> False | Some e \<Rightarrow> pm_Has (el_removed e) ident)"

text \<open>The number of turns of \<^verbatim>\<open>for index := 0; index*adjacencyChunkSize < list.total; index++\<close>.\<close>

definition chunk_count :: "int \<Rightarrow> nat" where
  "chunk_count n = nat ((n + 63) div 64)"

definition el_Chunks :: "EdgeList \<Rightarrow> u64 list list" where
  "el_Chunks e =
     (if el_inline e then (if el_small e \<noteq> [] then [el_small e] else [])
      else map (\<lambda>index. pm_Get [] (el_chunks e) (word_of_nat index)) [0..<chunk_count (el_total e)])"

definition el_All :: "EdgeList option \<Rightarrow> u64 list" where
  "el_All l = (case l of
     None \<Rightarrow> []
   | Some e \<Rightarrow>
       if el_inline e then el_small e
       else let hasRemoved = (pm_Len (el_removed e) \<noteq> 0) in
         concat (map (filter (\<lambda>ident. \<not> hasRemoved \<or> \<not> pm_Has (el_removed e) ident)) (el_Chunks e)))"

definition el_IDs :: "EdgeList option \<Rightarrow> u64 list" where
  "el_IDs l = el_All l"

text \<open>The first chunking of an inline list in \<^verbatim>\<open>Append\<close>; \<open>start\<close> runs over the multiples of the chunk size.\<close>

definition chunk_small :: "u64 list \<Rightarrow> u64 list PagedMap" where
  "chunk_small small =
     fold (\<lambda>index m. pm_Set [] (word_of_nat index) (take 64 (drop (index * 64) small)) m)
       [0..<chunk_count (int (length small))] NewPagedMap"

definition el_Append :: "u64 \<Rightarrow> EdgeList option \<Rightarrow> EdgeList" where
  "el_Append ident l =
     (let e = (case l of None \<Rightarrow> empty_edges | Some e \<Rightarrow> e) in
      if el_inline e \<and> length (el_small e) < adjacencyInlineLimit
      then e\<lparr>el_small := el_small e @ [ident], el_count := el_count e + 1, el_total := el_total e + 1\<rparr>
      else
        let owned = el_inline e;
            e1 = (if el_inline e
                  then e\<lparr>el_total := int (length (el_small e)), el_chunks := chunk_small (el_small e), el_small := []\<rparr>
                  else e);
            chunk = word_of_int (el_total e1 div 64);
            ids = pm_Get [] (el_chunks e1) chunk
        in e1\<lparr>el_chunks := (if owned then pm_Set [] chunk (ids @ [ident]) (el_chunks e1)
                             else pm_ForkSet [] chunk (ids @ [ident]) (el_chunks e1)),
              el_count := el_count e1 + 1, el_total := el_total e1 + 1\<rparr>)"

definition el_compact :: "EdgeList \<Rightarrow> EdgeList option" where
  "el_compact e = fold (\<lambda>ident c. Some (el_Append ident c)) (el_All (Some e)) None"

text \<open>The rebuild at the end of \<^verbatim>\<open>RemoveKnown\<close> and \<^verbatim>\<open>RemoveKnownBatch\<close>.\<close>

definition compact_if_sparse :: "EdgeList \<Rightarrow> EdgeList option" where
  "compact_if_sparse e =
     (if el_total e \<le> adjacencySyncCompactLimit \<and> pm_Len (el_removed e) > int adjacencyChunkSize \<and> pm_Len (el_removed e) > el_count e
      then el_compact e else Some e)"

definition remove_inline :: "u64 \<Rightarrow> EdgeList \<Rightarrow> EdgeList" where
  "remove_inline ident e =
     (if ident \<in> set (el_small e)
      then e\<lparr>el_small := remove1 ident (el_small e), el_count := el_count e - 1, el_total := el_total e - 1\<rparr>
      else e)"

definition remove_chunked :: "u64 \<Rightarrow> EdgeList \<Rightarrow> EdgeList option" where
  "remove_chunked ident e =
     (if pm_Has (el_removed e) ident then Some e
      else compact_if_sparse (e\<lparr>el_removed := pm_Set () ident () (el_removed e), el_count := el_count e - 1\<rparr>))"

definition el_Remove :: "u64 \<Rightarrow> EdgeList option \<Rightarrow> EdgeList option" where
  "el_Remove ident l = (case l of
     None \<Rightarrow> None
   | Some e \<Rightarrow>
       if el_inline e then Some (remove_inline ident e)
       else if pm_Has (el_removed e) ident then Some e
       else if list_ex (\<lambda>chunk. ident \<in> set chunk) (el_Chunks e) then remove_chunked ident e
       else Some e)"

definition el_RemoveKnown :: "u64 \<Rightarrow> EdgeList option \<Rightarrow> EdgeList option" where
  "el_RemoveKnown ident l = (case l of
     None \<Rightarrow> el_Remove ident l
   | Some e \<Rightarrow> if el_inline e then el_Remove ident l else remove_chunked ident e)"

text \<open>The loop of \<^verbatim>\<open>RemoveKnownBatch\<close> over a chunked list: the new tombstones and how many are new.\<close>

fun batch_loop :: "u64 list \<Rightarrow> unit PagedMap \<Rightarrow> int \<Rightarrow> unit PagedMap \<times> int" where
  "batch_loop [] removed n = (removed, n)"
| "batch_loop (ident # ids) removed n =
     (if pm_Has removed ident then batch_loop ids removed n
      else batch_loop ids (pm_Set () ident () removed) (n + 1))"

definition el_RemoveKnownBatch :: "u64 list \<Rightarrow> EdgeList option \<Rightarrow> EdgeList option" where
  "el_RemoveKnownBatch ids l = (case l of
     None \<Rightarrow> None
   | Some e \<Rightarrow>
       if ids = [] then Some e
       else if el_inline e then
         let values = filter (\<lambda>ident. ident \<notin> set ids) (el_small e) in
         if length values = length (el_small e) then Some e
         else Some (e\<lparr>el_small := values, el_count := int (length values), el_total := int (length values)\<rparr>)
       else (case batch_loop ids (el_removed e) 0 of (removed, n) \<Rightarrow>
         if n = 0 then Some e
         else compact_if_sparse (e\<lparr>el_removed := removed, el_count := el_count e - n\<rparr>)))"

section \<open>Chunks of a list\<close>

definition nth_chunk :: "'a list \<Rightarrow> nat \<Rightarrow> 'a list" where
  "nth_chunk xs i = take 64 (drop (i * 64) xs)"

definition chunked :: "u64 list PagedMap \<Rightarrow> u64 list \<Rightarrow> bool" where
  "chunked m xs \<longleftrightarrow> pm_inv m \<and> (\<forall>i < 2 ^ 64. pm_view m (word_of_nat i) = (if i * 64 < length xs then Some (nth_chunk xs i) else None))"

lemma concat_chunks: "concat (map (nth_chunk xs) [0..<n]) = take (n * 64) xs"
proof (induction n)
  case (Suc n)
  have "take (n * 64 + 64) xs = take (n * 64) xs @ take 64 (drop (n * 64) xs)" by (rule take_add)
  with Suc show ?case by (simp add: nth_chunk_def add.commute)
qed simp

lemma chunk_count_bounds: "i < chunk_count (int n) \<longleftrightarrow> i * 64 < n"
  unfolding chunk_count_def by (simp add: nat_less_iff zless_nat_eq_int_zless) linarith

lemma chunk_count_covers: "n \<le> chunk_count (int n) * 64"
  using chunk_count_bounds [of "chunk_count (int n)" n] by simp

lemma word_index: "i < 2 ^ 64 \<Longrightarrow> j < 2 ^ 64 \<Longrightarrow> (word_of_nat i :: u64) = word_of_nat j \<longleftrightarrow> i = j"
proof
  assume b: "i < 2 ^ 64" "j < 2 ^ 64" and "(word_of_nat i :: u64) = word_of_nat j"
  then have "unat (word_of_nat i :: u64) = unat (word_of_nat j :: u64)" by simp
  moreover have "unat (word_of_nat i :: u64) = i" using b by (intro unat_word_of_nat_less) simp
  moreover have "unat (word_of_nat j :: u64) = j" using b by (intro unat_word_of_nat_less) simp
  ultimately show "i = j" by (simp only:)
qed (simp only:)

lemma distinct_length_bound: "distinct xs \<Longrightarrow> length xs \<le> 2 ^ 64" for xs :: "u64 list"
proof -
  assume "distinct xs"
  then have "length xs = card (set xs)" by (simp add: distinct_card)
  also have "\<dots> \<le> card (UNIV :: u64 set)" by (intro card_mono) simp_all
  finally show ?thesis by (simp add: card_word)
qed

lemma chunked_get: "chunked m xs \<Longrightarrow> i < 2 ^ 64 \<Longrightarrow> pm_Get [] m (word_of_nat i) = nth_chunk xs i"
  by (simp add: chunked_def paged.get_view nth_chunk_def)

lemma chunked_concat:
  assumes "chunked m xs" "distinct xs"
  shows "concat (map (\<lambda>index. pm_Get [] m (word_of_nat index)) [0..<chunk_count (int (length xs))]) = xs"
proof -
  have "pm_Get [] m (word_of_nat i) = nth_chunk xs i" if "i \<in> set [0..<chunk_count (int (length xs))]" for i
  proof -
    have "i * 64 < length xs" using that by (simp add: chunk_count_bounds)
    then have "i < 2 ^ 64" using distinct_length_bound [OF assms(2)] by linarith
    then show ?thesis by (rule chunked_get [OF assms(1)])
  qed
  then have e: "map (\<lambda>index. pm_Get [] m (word_of_nat index)) [0..<chunk_count (int (length xs))] = map (nth_chunk xs) [0..<chunk_count (int (length xs))]"
    by (intro map_cong) auto
  show ?thesis unfolding e concat_chunks using chunk_count_covers [of "length xs"] by simp
qed

lemma chunked_append:
  assumes "chunked m xs" "length xs < 2 ^ 64" "pm_inv m'"
    "pm_view m' = (pm_view m)(word_of_nat (length xs div 64) \<mapsto> nth_chunk xs (length xs div 64) @ [x])"
  shows "chunked m' (xs @ [x])"
  unfolding chunked_def
proof (intro conjI allI impI)
  fix i :: nat assume i: "i < 2 ^ 64"
  define c where "c = length xs div 64"
  have c: "c * 64 \<le> length xs" "length xs < c * 64 + 64" "c < 2 ^ 64" using assms(2) unfolding c_def by simp_all
  consider "i = c" | "i < c" | "i > c" by linarith
  then show "pm_view m' (word_of_nat i) = (if i * 64 < length (xs @ [x]) then Some (nth_chunk (xs @ [x]) i) else None)"
  proof cases
    case 1
    have "nth_chunk (xs @ [x]) c = nth_chunk xs c @ [x]" using c by (simp add: nth_chunk_def)
    then show ?thesis using c 1 by (simp add: assms(4) c_def [symmetric])
  next
    case 2
    then have "i * 64 + 64 \<le> length xs" using c by linarith
    then have "nth_chunk (xs @ [x]) i = nth_chunk xs i" by (simp add: nth_chunk_def)
    moreover have "(word_of_nat i :: u64) \<noteq> word_of_nat c" using 2 i c(3) word_index [of i c] by simp
    ultimately show ?thesis using assms(1) i 2 c by (simp add: assms(4) c_def [symmetric] chunked_def)
  next
    case 3
    then have "length xs < i * 64" using c by linarith
    moreover have "(word_of_nat i :: u64) \<noteq> word_of_nat c" using 3 i c(3) word_index [of i c] by simp
    ultimately show ?thesis using assms(1) i by (simp add: assms(4) c_def [symmetric] chunked_def)
  qed
qed (rule assms(3))

section \<open>What a list represents\<close>

definition represents :: "EdgeList \<Rightarrow> u64 list \<Rightarrow> u64 set \<Rightarrow> bool" where
  "represents e xs R \<longleftrightarrow> distinct xs \<and> el_total e = int (length xs) \<and> el_count e = int (length xs) - int (card R) \<and>
     R \<subseteq> set xs \<and> pm_inv (el_removed e) \<and> dom (pm_view (el_removed e)) = R \<and>
     (if el_inline e then R = {} \<and> el_small e = xs \<and> length xs < 64 else chunked (el_chunks e) xs \<and> el_small e = [])"

definition live :: "u64 list \<Rightarrow> u64 set \<Rightarrow> u64 list" where
  "live xs R = filter (\<lambda>i. i \<notin> R) xs"

lemma represents_empty: "represents empty_edges [] {}"
  by (simp add: represents_def empty_edges_def el_inline_def NewPagedMap_def)
    (simp add: NewPagedMap_def [symmetric] pm_inv_New pm_view_New)

lemma inline_view: "root0 m = None \<Longrightarrow> roots m = None \<Longrightarrow> pm_view m = (\<lambda>_. None)"
  by (intro ext) (simp add: pm_view_def pageByKey_def pm_root_def split: prod.splits)

lemma not_inline: "pm_view (el_chunks e) i \<noteq> None \<Longrightarrow> \<not> el_inline e"
  using inline_view [of "el_chunks e"] unfolding el_inline_def by fastforce

lemma live_props:
  assumes "represents e xs R"
  shows "el_All (Some e) = live xs R" "el_count e = int (length (live xs R))" "distinct (live xs R)" "set (live xs R) = set xs - R"
proof -
  have r: "distinct xs" "R \<subseteq> set xs" "pm_inv (el_removed e)" "dom (pm_view (el_removed e)) = R" "el_total e = int (length xs)"
    using assms by (simp_all add: represents_def)
  show d: "distinct (live xs R)" "set (live xs R) = set xs - R" using r(1) by (auto simp: live_def)
  have "length (live xs R) = card (set xs - R)" using d distinct_card by fastforce
  also have "\<dots> = length xs - card R" using r(1,2) by (simp add: card_Diff_subset finite_subset distinct_card)
  finally show "el_count e = int (length (live xs R))"
    using assms card_mono [OF _ r(2)] r(1) by (simp add: represents_def distinct_card of_nat_diff)
  show "el_All (Some e) = live xs R"
  proof (cases "el_inline e")
    case True
    then show ?thesis using assms by (simp add: el_All_def represents_def live_def)
  next
    case False
    then have c: "chunked (el_chunks e) xs" using assms by (simp add: represents_def)
    have h: "pm_Has (el_removed e) i \<longleftrightarrow> i \<in> R" for i using r(3,4) by (auto simp: paged.has_view)
    have "pm_Len (el_removed e) = int (card R)" using paged.len_view [OF r(3)] r(4) by simp
    moreover have "finite R" using r(2) by (rule finite_subset) simp
    ultimately have "(\<not> pm_Len (el_removed e) \<noteq> 0 \<or> \<not> pm_Has (el_removed e) i) \<longleftrightarrow> i \<notin> R" for i by (auto simp: h)
    then have "(\<lambda>i. \<not> pm_Len (el_removed e) \<noteq> 0 \<or> \<not> pm_Has (el_removed e) i) = (\<lambda>i. i \<notin> R)" by (rule ext)
    then have "el_All (Some e) = filter (\<lambda>i. i \<notin> R) (concat (el_Chunks e))"
      using False unfolding el_All_def Let_def by (simp only: option.case if_False filter_concat)
    then show ?thesis using False chunked_concat [OF c r(1)] by (simp add: live_def el_Chunks_def r(5))
  qed
qed

section \<open>Append\<close>

lemma chunk_small_law:
  assumes "length xs < 2 ^ 64"
  shows "chunked (chunk_small xs) xs"
proof -
  define f where "f = (\<lambda>index m. pm_Set [] (word_of_nat index) (take 64 (drop (index * 64) xs)) m)"
  have "pm_inv (fold f [0..<n] NewPagedMap) \<and>
      (\<forall>i < 2 ^ 64. pm_view (fold f [0..<n] NewPagedMap) (word_of_nat i) = (if i < n then Some (nth_chunk xs i) else None))" if "n \<le> 2 ^ 64" for n
    using that
  proof (induction n)
    case (Suc n)
    then have "(word_of_nat i :: u64) = word_of_nat n \<longleftrightarrow> i = n" if "i < 2 ^ 64" for i using word_index [OF that, of n] by simp
    with Suc show ?case by (auto simp: f_def pm_inv_Set pm_view_Set nth_chunk_def)
  qed (simp add: pm_inv_New pm_view_New)
  moreover have "chunk_count (int (length xs)) \<le> 2 ^ 64" using assms by (simp add: chunk_count_def)
  ultimately show ?thesis by (simp add: chunked_def chunk_small_def f_def [symmetric] chunk_count_bounds)
qed

lemma append_law:
  assumes "represents e xs R" "i \<notin> set xs"
  shows "represents (el_Append i (Some e)) (xs @ [i]) R"
proof -
  have r: "distinct xs" "R \<subseteq> set xs" "pm_inv (el_removed e)" "dom (pm_view (el_removed e)) = R" "el_total e = int (length xs)"
    "el_count e = int (length xs) - int (card R)" using assms(1) by (simp_all add: represents_def)
  have len: "length xs < 2 ^ 64" using distinct_length_bound [of "xs @ [i]"] r(1) assms(2) by simp
  show ?thesis
  proof (cases "el_inline e \<and> length (el_small e) < adjacencyInlineLimit")
    case True
    let ?e = "e\<lparr>el_small := el_small e @ [i], el_count := el_count e + 1, el_total := el_total e + 1\<rparr>"
    have "el_Append i (Some e) = ?e" using True by (simp add: el_Append_def)
    moreover have "el_inline ?e" using True by (simp add: el_inline_def)
    ultimately show ?thesis using True assms r by (simp add: represents_def adjacencyInlineLimit_def adjacencyChunkSize_def)
  next
    case False
    define e1 where "e1 = (if el_inline e then e\<lparr>el_total := int (length (el_small e)), el_chunks := chunk_small (el_small e), el_small := []\<rparr> else e)"
    define c where "c = (word_of_nat (length xs div 64) :: u64)"
    have e1: "chunked (el_chunks e1) xs" "el_total e1 = int (length xs)" "el_small e1 = []" "el_removed e1 = el_removed e" "el_count e1 = el_count e"
      using assms(1) chunk_small_law [OF len] by (auto simp: e1_def represents_def)
    have cc: "word_of_int (el_total e1 div 64) = c" by (simp add: e1(2) c_def) (metis of_int_of_nat_eq zdiv_int of_nat_numeral)
    have g: "pm_Get [] (el_chunks e1) c = nth_chunk xs (length xs div 64)"
      unfolding c_def using len by (intro chunked_get [OF e1(1)]) (simp add: div_less_dividend)
    have inv: "pm_inv (el_chunks e1)" using e1(1) by (simp add: chunked_def)
    define m where "m = (if el_inline e then pm_Set [] c (pm_Get [] (el_chunks e1) c @ [i]) (el_chunks e1)
      else pm_ForkSet [] c (pm_Get [] (el_chunks e1) c @ [i]) (el_chunks e1))"
    have m: "pm_inv m" "pm_view m = (pm_view (el_chunks e1))(c \<mapsto> nth_chunk xs (length xs div 64) @ [i])"
      using inv g by (simp_all add: m_def pm_inv_Set pm_inv_ForkSet pm_view_Set pm_view_ForkSet)
    have ch: "chunked m (xs @ [i])" using m by (intro chunked_append [OF e1(1) len]) (simp_all add: c_def)
    let ?e = "e1\<lparr>el_chunks := m, el_count := el_count e1 + 1, el_total := el_total e1 + 1\<rparr>"
    have "el_Append i (Some e) = ?e" using False unfolding el_Append_def Let_def option.case e1_def [symmetric] cc m_def by auto
    moreover have "\<not> el_inline ?e" using m(2) by (intro not_inline [of _ c]) simp
    ultimately show ?thesis using ch e1 r assms(2) by (auto simp: represents_def)
  qed
qed

lemma append_nil: "el_Append i None = el_Append i (Some empty_edges)"
  by (simp add: el_Append_def)

section \<open>Removal\<close>

definition el_rep :: "EdgeList option \<Rightarrow> u64 list \<Rightarrow> u64 set \<Rightarrow> bool" where
  "el_rep l ys U \<longleftrightarrow> (case l of None \<Rightarrow> ys = [] | Some e \<Rightarrow> \<exists>xs R. represents e xs R \<and> live xs R = ys \<and> set xs \<subseteq> U)"

definition el_dense :: "EdgeList option \<Rightarrow> u64 list \<Rightarrow> bool" where
  "el_dense l ys \<longleftrightarrow> (case l of None \<Rightarrow> ys = [] | Some e \<Rightarrow> represents e ys {})"

lemma el_repI: "represents e xs R \<Longrightarrow> live xs R = ys \<Longrightarrow> set xs \<subseteq> U \<Longrightarrow> el_rep (Some e) ys U"
  by (auto simp: el_rep_def)

lemma el_rep_read:
  assumes "el_rep l ys U"
  shows "el_IDs l = ys" "el_Len l = int (length ys)" "distinct ys" "set ys \<subseteq> U"
proof -
  have "el_IDs l = ys \<and> el_Len l = int (length ys) \<and> distinct ys \<and> set ys \<subseteq> U"
  proof (cases l)
    case (Some e)
    then obtain xs R where r: "represents e xs R" "live xs R = ys" "set xs \<subseteq> U" using assms by (auto simp: el_rep_def)
    show ?thesis using live_props [OF r(1)] r(2,3) Some by (auto simp: el_IDs_def el_Len_def)
  qed (use assms in \<open>simp add: el_rep_def el_IDs_def el_All_def el_Len_def\<close>)
  then show "el_IDs l = ys" "el_Len l = int (length ys)" "distinct ys" "set ys \<subseteq> U" by simp_all
qed

lemma dense_rep: "el_dense l ys \<Longrightarrow> set ys \<subseteq> U \<Longrightarrow> el_rep l ys U"
  by (cases l) (auto simp: el_dense_def el_rep_def live_def intro!: exI [of _ ys] exI [of _ "{}"])

lemma fold_append:
  "el_dense c ys \<Longrightarrow> distinct (ys @ zs) \<Longrightarrow> el_dense (fold (\<lambda>i c. Some (el_Append i c)) zs c) (ys @ zs)"
proof (induction zs arbitrary: c ys)
  case (Cons z zs)
  have "represents (el_Append z c) (ys @ [z]) {}"
  proof (cases c)
    case None
    then show ?thesis using Cons.prems append_law [OF represents_empty, of z] by (simp add: el_dense_def append_nil)
  next
    case (Some e)
    then show ?thesis using Cons.prems append_law [of e ys "{}" z] by (simp add: el_dense_def)
  qed
  then show ?case using Cons.IH [of "Some (el_Append z c)" "ys @ [z]"] Cons.prems(2) by (simp add: el_dense_def)
qed simp

lemma compact_law: "represents e xs R \<Longrightarrow> el_dense (el_compact e) (live xs R)"
  using fold_append [of None "[]" "live xs R"] live_props [of e xs R] by (simp add: el_compact_def el_dense_def)

lemma compact_if_sparse_law: "represents e xs R \<Longrightarrow> el_rep (compact_if_sparse e) (live xs R) (set xs)"
  using dense_rep [OF compact_law [of e xs R], of "set xs"] live_props(4) [of e xs R]
  by (auto simp: compact_if_sparse_def el_rep_def)

lemma tombstone_law:
  assumes "represents e xs R" "\<not> el_inline e" "pm_inv rm" "dom (pm_view rm) = R \<union> A" "A \<subseteq> set xs" "n = int (card (A - R))"
  shows "represents (e\<lparr>el_removed := rm, el_count := el_count e - n\<rparr>) xs (R \<union> A)"
proof -
  have f: "finite R" "finite A" using assms(1,5) by (auto simp: represents_def intro: finite_subset)
  have "card (R \<union> A) = card R + card (A - R)" using f by (metis Un_Diff_cancel card_Un_disjoint Diff_disjoint finite_Diff)
  moreover have "el_inline (e\<lparr>el_removed := rm, el_count := el_count e - n\<rparr>) = el_inline e" by (simp add: el_inline_def)
  ultimately show ?thesis using assms by (simp add: represents_def)
qed

lemma live_remove: "live xs (R \<union> A) = filter (\<lambda>i. i \<notin> A) (live xs R)"
  by (auto simp: live_def intro!: filter_cong)

lemma removed_has: "represents e xs R \<Longrightarrow> pm_Has (el_removed e) i \<longleftrightarrow> i \<in> R"
  by (auto simp: represents_def paged.has_view)

lemma remove_chunked_law:
  assumes "represents e xs R" "\<not> el_inline e" "i \<in> set xs"
  shows "el_rep (remove_chunked i e) (filter (\<lambda>j. j \<noteq> i) (live xs R)) (set xs)"
proof (cases "i \<in> R")
  case True
  have "filter (\<lambda>j. j \<noteq> i) (live xs R) = live xs R"
    unfolding live_def filter_filter by (rule filter_cong) (use True in auto)
  then show ?thesis using True assms removed_has [OF assms(1), of i] by (auto simp: remove_chunked_def el_rep_def)
next
  case False
  let ?rm = "pm_Set () i () (el_removed e)"
  have inv: "pm_inv (el_removed e)" "dom (pm_view (el_removed e)) = R" using assms(1) by (simp_all add: represents_def)
  have "dom (pm_view ?rm) = R \<union> {i}" using inv(2) by (auto simp: pm_view_Set split: if_splits)
  then have "represents (e\<lparr>el_removed := ?rm, el_count := el_count e - 1\<rparr>) xs (R \<union> {i})"
    using False assms(3) inv(1) by (intro tombstone_law [OF assms(1,2)]) (simp_all add: pm_inv_Set insert_Diff_if)
  from compact_if_sparse_law [OF this] show ?thesis
    using False removed_has [OF assms(1), of i] live_remove [of xs R "{i}"] by (simp add: remove_chunked_def)
qed

lemma represents_inline: "represents e xs R \<Longrightarrow> el_inline e \<Longrightarrow> R = {} \<and> el_small e = xs \<and> live xs R = xs"
  by (auto simp: represents_def live_def)

lemma remove_law:
  assumes "el_rep l ys U"
  shows "el_rep (el_Remove i l) (filter (\<lambda>j. j \<noteq> i) ys) U"
proof (cases l)
  case None
  then show ?thesis using assms by (simp add: el_rep_def el_Remove_def)
next
  case (Some e)
  then obtain xs R where r: "represents e xs R" "live xs R = ys" "set xs \<subseteq> U" using assms by (auto simp: el_rep_def)
  have d: "distinct xs" using r(1) by (simp add: represents_def)
  show ?thesis
  proof (cases "el_inline e")
    case True
    note inl = represents_inline [OF r(1) True]
    have "represents (remove_inline i e) (filter (\<lambda>j. j \<noteq> i) xs) {}"
    proof (cases "i \<in> set xs")
      case mem: True
      have "remove1 i xs = filter (\<lambda>j. j \<noteq> i) xs" using d distinct_remove1_removeAll [OF d, of i] by (simp add: removeAll_filter_not_eq eq_commute)
      moreover obtain n where "length xs = Suc n" "length (remove1 i xs) = n"
        using mem length_remove1 [of i xs] by (cases "length xs") auto
      moreover have "el_inline (remove_inline i e)" using True by (simp add: remove_inline_def el_inline_def)
      ultimately show ?thesis using r(1) inl mem True by (simp add: represents_def remove_inline_def)
    next
      case False
      then have "filter (\<lambda>j. j \<noteq> i) xs = xs" by (auto intro!: filter_True)
      with False show ?thesis using r(1) inl by (simp add: remove_inline_def)
    qed
    moreover have "live (filter (\<lambda>j. j \<noteq> i) xs) {} = filter (\<lambda>j. j \<noteq> i) ys" using inl r(2) by (simp add: live_def)
    moreover have "set (filter (\<lambda>j. j \<noteq> i) xs) \<subseteq> U" using r(3) by auto
    ultimately have "el_rep (Some (remove_inline i e)) (filter (\<lambda>j. j \<noteq> i) ys) U" by (rule el_repI)
    then show ?thesis using Some True by (simp add: el_Remove_def)
  next
    case False
    have ch: "concat (el_Chunks e) = xs"
      using r(1) False chunked_concat [of "el_chunks e" xs] by (simp add: el_Chunks_def represents_def)
    have ex: "list_ex (\<lambda>chunk. i \<in> set chunk) (el_Chunks e) \<longleftrightarrow> i \<in> set xs" unfolding ch [symmetric] by (simp add: list_ex_iff)
    have keep: "el_rep (Some e) (filter (\<lambda>j. j \<noteq> i) ys) U" if "i \<notin> set ys"
    proof -
      have "filter (\<lambda>j. j \<noteq> i) ys = ys" using that by (auto intro!: filter_True)
      then show ?thesis using r by (auto simp: el_rep_def)
    qed
    consider "i \<in> R" | "i \<notin> set xs" | "i \<notin> R" "i \<in> set xs" by blast
    then show ?thesis
    proof cases
      case 3
      have "el_rep (remove_chunked i e) (filter (\<lambda>j. j \<noteq> i) ys) (set xs)" using remove_chunked_law [OF r(1) False 3(2)] r(2) by simp
      then have "el_rep (remove_chunked i e) (filter (\<lambda>j. j \<noteq> i) ys) U" using r(3) by (auto simp: el_rep_def split: option.splits)
      then show ?thesis using Some False 3 ex removed_has [OF r(1), of i] by (simp add: el_Remove_def)
    qed (use Some False ex removed_has [OF r(1), of i] keep live_props(4) [OF r(1)] r(2) in \<open>auto simp: el_Remove_def\<close>)
  qed
qed

lemma remove_known_law:
  assumes "el_rep l ys U" "i \<in> set ys"
  shows "el_rep (el_RemoveKnown i l) (filter (\<lambda>j. j \<noteq> i) ys) U"
proof (cases "\<exists>e. l = Some e \<and> \<not> el_inline e")
  case True
  then obtain e xs R where e: "l = Some e" "\<not> el_inline e" "represents e xs R" "live xs R = ys" "set xs \<subseteq> U"
    using assms(1) by (auto simp: el_rep_def)
  have "i \<in> set xs" using assms(2) e(4) live_props(4) [OF e(3)] by auto
  from remove_chunked_law [OF e(3,2) this] show ?thesis
    using e by (auto simp: el_RemoveKnown_def el_rep_def split: option.splits)
next
  case False
  then have "el_RemoveKnown i l = el_Remove i l" by (auto simp: el_RemoveKnown_def split: option.splits)
  then show ?thesis using remove_law [OF assms(1)] by simp
qed

lemma batch_loop_law:
  "pm_inv rm \<Longrightarrow> batch_loop ids rm n = (rm', n') \<Longrightarrow>
   pm_inv rm' \<and> dom (pm_view rm') = dom (pm_view rm) \<union> set ids \<and> n' = n + int (card (set ids - dom (pm_view rm)))"
proof (induction ids rm n rule: batch_loop.induct)
  case (2 i ids rm n)
  show ?case
  proof (cases "pm_Has rm i")
    case True
    then have "i \<in> dom (pm_view rm)" using 2(3) by (simp add: paged.has_view domIff)
    then have "dom (pm_view rm) \<union> set (i # ids) = dom (pm_view rm) \<union> set ids" "set (i # ids) - dom (pm_view rm) = set ids - dom (pm_view rm)" by auto
    then show ?thesis using 2(1) [OF True 2(3)] 2(4) True by simp
  next
    case False
    then have i: "i \<notin> dom (pm_view rm)" using 2(3) by (simp add: paged.has_view domIff)
    have d: "dom (pm_view (pm_Set () i () rm)) = insert i (dom (pm_view rm))" by (auto simp: pm_view_Set split: if_splits)
    have "set (i # ids) - dom (pm_view rm) = insert i (set ids - insert i (dom (pm_view rm)))" using i by auto
    then have "card (set (i # ids) - dom (pm_view rm)) = Suc (card (set ids - insert i (dom (pm_view rm))))" by (simp add: card_insert_if)
    then show ?thesis using 2(2) [OF False pm_inv_Set [OF 2(3)]] 2(4) False d by auto
  qed
qed simp

lemma batch_law:
  assumes "el_rep l ys U" "set ids \<subseteq> set ys"
  shows "el_rep (el_RemoveKnownBatch ids l) (filter (\<lambda>j. j \<notin> set ids) ys) U"
proof (cases l)
  case None
  then show ?thesis using assms by (simp add: el_rep_def el_RemoveKnownBatch_def)
next
  case (Some e)
  then obtain xs R where r: "represents e xs R" "live xs R = ys" "set xs \<subseteq> U" using assms by (auto simp: el_rep_def)
  have sub: "set ids \<subseteq> set xs" "set ids \<inter> R = {}" using assms(2) r(2) live_props(4) [OF r(1)] by auto
  show ?thesis
  proof (cases "el_inline e")
    case True
    note inl = represents_inline [OF r(1) True]
    define vs where "vs = filter (\<lambda>j. j \<notin> set ids) xs"
    have same: "vs = xs" if "length vs = length xs" using that unfolding vs_def by (metis filter_id_conv length_filter_less less_irrefl filter_True)
    have "represents (e\<lparr>el_small := vs, el_count := int (length vs), el_total := int (length vs)\<rparr>) vs {}"
      using r(1) inl True by (auto simp: represents_def vs_def el_inline_def intro: le_less_trans [OF length_filter_le])
    moreover have "live vs {} = filter (\<lambda>j. j \<notin> set ids) ys" using inl r(2) by (simp add: live_def vs_def)
    moreover have "ids = [] \<Longrightarrow> vs = xs" by (simp add: vs_def)
    moreover have "set vs \<subseteq> U" using r(3) by (auto simp: vs_def)
    moreover have "el_RemoveKnownBatch ids l = (if ids = [] \<or> length vs = length xs then Some e
        else Some (e\<lparr>el_small := vs, el_count := int (length vs), el_total := int (length vs)\<rparr>))"
      using Some True inl by (simp add: el_RemoveKnownBatch_def Let_def vs_def)
    moreover have "el_rep (Some e) (filter (\<lambda>j. j \<notin> set ids) ys) U" if "vs = xs"
    proof -
      have "filter (\<lambda>j. j \<notin> set ids) ys = live xs R" using that inl r(2) by (simp add: vs_def)
      then show ?thesis using r(1,3) by (auto simp: el_rep_def)
    qed
    ultimately show ?thesis using same el_repI
      by (cases "ids = [] \<or> length vs = length xs") (simp, metis, simp)
  next
    case False
    obtain rm n where b: "batch_loop ids (el_removed e) 0 = (rm, n)" by (metis surj_pair)
    have inv: "pm_inv (el_removed e)" "dom (pm_view (el_removed e)) = R" using r(1) by (simp_all add: represents_def)
    from batch_loop_law [OF inv(1) b] have bl: "pm_inv rm" "dom (pm_view rm) = R \<union> set ids" "n = int (card (set ids - R))"
      by (simp_all add: inv(2))
    have rep: "represents (e\<lparr>el_removed := rm, el_count := el_count e - n\<rparr>) xs (R \<union> set ids)"
      using bl sub(1) by (intro tombstone_law [OF r(1) False]) simp_all
    have "el_rep (compact_if_sparse (e\<lparr>el_removed := rm, el_count := el_count e - n\<rparr>)) (filter (\<lambda>j. j \<notin> set ids) ys) U"
      using compact_if_sparse_law [OF rep] r(2,3) by (auto simp: live_remove el_rep_def split: option.splits)
    then have dense: ?thesis if "n \<noteq> 0" "ids \<noteq> []"
      using that Some False b by (simp add: el_RemoveKnownBatch_def)
    have same: "el_rep (Some e) ys U" by (rule el_repI [OF r])
    show ?thesis
    proof (cases "ids = []")
      case True
      then show ?thesis using same Some by (simp add: el_RemoveKnownBatch_def)
    next
      case False
      have "n \<noteq> 0"
      proof
        assume "n = 0"
        then have "set ids - R = {}" using bl(3) by simp
        then show False using False Diff_triv [OF sub(2)] by simp
      qed
      then show ?thesis using False by (rule dense)
    qed
  qed
qed

section \<open>Histories of a list\<close>

lemma append_rep:
  assumes "el_rep l ys U" "i \<notin> U"
  shows "el_rep (Some (el_Append i l)) (ys @ [i]) (insert i U)"
proof (cases l)
  case None
  then show ?thesis using assms append_law [OF represents_empty, of i]
    by (intro el_repI [where xs = "[i]" and R = "{}"]) (simp_all add: el_rep_def append_nil live_def)
next
  case (Some e)
  then obtain xs R where r: "represents e xs R" "live xs R = ys" "set xs \<subseteq> U" using assms by (auto simp: el_rep_def)
  have "i \<notin> set xs" "i \<notin> R" using r assms(2) by (auto simp: represents_def)
  then show ?thesis using append_law [OF r(1)] r Some
    by (intro el_repI [where xs = "xs @ [i]" and R = R]) (auto simp: live_def)
qed

datatype edge_op = EAppend u64 | ERemove u64 | ERemoveKnown u64 | ERemoveKnownBatch "u64 list"

fun apply_edge_op :: "edge_op \<Rightarrow> EdgeList option \<Rightarrow> EdgeList option" where
  "apply_edge_op (EAppend i) l = Some (el_Append i l)"
| "apply_edge_op (ERemove i) l = el_Remove i l"
| "apply_edge_op (ERemoveKnown i) l = el_RemoveKnown i l"
| "apply_edge_op (ERemoveKnownBatch ids) l = el_RemoveKnownBatch ids l"

fun edge_spec :: "edge_op \<Rightarrow> u64 list \<Rightarrow> u64 list" where
  "edge_spec (EAppend i) ys = ys @ [i]"
| "edge_spec (ERemove i) ys = filter (\<lambda>j. j \<noteq> i) ys"
| "edge_spec (ERemoveKnown i) ys = filter (\<lambda>j. j \<noteq> i) ys"
| "edge_spec (ERemoveKnownBatch ids) ys = filter (\<lambda>j. j \<notin> set ids) ys"

fun edge_op_ids :: "edge_op \<Rightarrow> u64 list" where
  "edge_op_ids (EAppend i) = [i]"
| "edge_op_ids _ = []"

text \<open>
  What the callers guarantee: an identifier is appended at most once (edge identifiers are never reused), and the
  \<^verbatim>\<open>Known\<close> removals name current members.
\<close>

fun edge_ops_ok :: "edge_op list \<Rightarrow> u64 list \<Rightarrow> u64 list \<Rightarrow> bool" where
  "edge_ops_ok [] ys used = True"
| "edge_ops_ok (op # ops) ys used =
     ((case op of
         EAppend i \<Rightarrow> i \<notin> set used
       | ERemove i \<Rightarrow> True
       | ERemoveKnown i \<Rightarrow> i \<in> set ys
       | ERemoveKnownBatch ids \<Rightarrow> set ids \<subseteq> set ys)
      \<and> edge_ops_ok ops (edge_spec op ys) (edge_op_ids op @ used))"

lemma edge_ops_law:
  "edge_ops_ok ops ys used \<Longrightarrow> el_rep l ys (set used) \<Longrightarrow>
   \<exists>U. el_rep (fold apply_edge_op ops l) (fold edge_spec ops ys) U"
proof (induction ops arbitrary: l ys used)
  case (Cons op ops)
  have "el_rep (apply_edge_op op l) (edge_spec op ys) (set (edge_op_ids op @ used))"
    using Cons.prems by (cases op) (simp_all add: append_rep remove_law remove_known_law batch_law)
  from Cons.IH [OF _ this] Cons.prems(1) show ?case by simp
qed auto

text \<open>
  C14. Any history of \<^verbatim>\<open>Append\<close>, \<^verbatim>\<open>Remove\<close>, \<^verbatim>\<open>RemoveKnown\<close> and \<^verbatim>\<open>RemoveKnownBatch\<close> on a nil list, in which no
  identifier is appended twice and the known removals name members, gives the list of identifiers in the order
  they were added less the removed ones, and \<^verbatim>\<open>Len\<close> is its length: inline lists, chunked lists, tombstones and
  the synchronous compaction are invisible.
\<close>

theorem adjacency_refines:
  assumes "edge_ops_ok ops [] []"
  shows "el_IDs (fold apply_edge_op ops None) = fold edge_spec ops [] \<and>
    el_Len (fold apply_edge_op ops None) = int (length (fold edge_spec ops []))"
  using edge_ops_law [OF assms, of None] by (auto simp: el_rep_def [of None] dest: el_rep_read)

theorem adjacency_refines_witness:
  "el_IDs (fold apply_edge_op [EAppend 7, EAppend 9, EAppend 4, ERemoveKnown 9, ERemoveKnownBatch [7], ERemove 5] None) = [4]"
  using adjacency_refines [of "[EAppend 7, EAppend 9, EAppend 4, ERemoveKnown 9, ERemoveKnownBatch [7], ERemove 5]"] by simp

end
