(* ===== verification/AdjacencyCompaction.thy ===== *)
theory AdjacencyCompaction
  imports Adjacency
begin

text \<open>
  The background rebuild of a long adjacency list (\<^verbatim>\<open>internal/store/adjacency_compaction.go\<close>). A compactor copies
  at most \<^verbatim>\<open>maxChunks\<close> chunks of the source list per \<^verbatim>\<open>Step\<close> into a dense builder and, when all are copied, puts
  the dense list in a shallow clone of the graph. Of the graph only \<^verbatim>\<open>Outgoing\<close> and \<^verbatim>\<open>Incoming\<close> are fields here;
  the others are the extension of the record, which \<^verbatim>\<open>CloneGraphStateShallow\<close> carries over unchanged.
  A nil compactor is \<open>None\<close>; \<^verbatim>\<open>Step\<close> returns \<^verbatim>\<open>(done, changed)\<close> with the updated compactor.
\<close>

section \<open>Data and operations\<close>

definition AdjacencyCompactionChunkBudget :: int where
  "AdjacencyCompactionChunkBudget = 64"

definition adjacencyBackgroundMinTombstones :: int where
  "adjacencyBackgroundMinTombstones = int adjacencyChunkSize"

record GraphAdjacency =
  Outgoing :: "EdgeList option PagedMap"
  Incoming :: "EdgeList option PagedMap"

record 'r AdjacencyCompactor =
  ac_source :: "'r GraphAdjacency_scheme"
  ac_result :: "'r GraphAdjacency_scheme option"
  ac_direction :: "8 word"
  ac_nodeID :: u64
  ac_chunk :: nat
  ac_list :: EdgeList
  ac_builderChunks :: "u64 list PagedMap"
  ac_builderTail :: "u64 list"
  ac_builderChunk :: u64
  ac_builderCount :: int
  ac_listID :: u64

definition direction_lists :: "8 word \<Rightarrow> 'r GraphAdjacency_scheme \<Rightarrow> EdgeList option PagedMap" where
  "direction_lists direction graph = (if direction = 0 then Outgoing graph else Incoming graph)"

text \<open>\<^verbatim>\<open>selectList\<close> returns the list it selected; the caller stores it with the node as \<^verbatim>\<open>listID\<close>.\<close>

definition selectList :: "'r GraphAdjacency_scheme \<Rightarrow> 8 word \<Rightarrow> u64 \<Rightarrow> EdgeList option" where
  "selectList graph direction nodeID =
     (case pm_Get None (direction_lists direction graph) nodeID of
        None \<Rightarrow> None
      | Some e \<Rightarrow>
          if el_inline e \<or> pm_Len (el_removed e) \<le> adjacencyBackgroundMinTombstones \<or> el_total e \<le> adjacencySyncCompactLimit
          then None else Some e)"

definition NewAdjacencyCompactor :: "'r GraphAdjacency_scheme option \<Rightarrow> 8 word \<Rightarrow> u64 \<Rightarrow> 'r AdjacencyCompactor option" where
  "NewAdjacencyCompactor g direction nodeID = (case g of
     None \<Rightarrow> None
   | Some graph \<Rightarrow> (case selectList graph direction nodeID of
       None \<Rightarrow> None
     | Some e \<Rightarrow> Some \<lparr>ac_source = graph, ac_result = None, ac_direction = direction, ac_nodeID = nodeID, ac_chunk = 0,
         ac_list = e, ac_builderChunks = NewPagedMap, ac_builderTail = [], ac_builderChunk = 0, ac_builderCount = 0,
         ac_listID = nodeID\<rparr>))"

definition AdjacencyNeedsCompaction :: "'r GraphAdjacency_scheme option \<Rightarrow> 8 word \<Rightarrow> u64 \<Rightarrow> bool" where
  "AdjacencyNeedsCompaction g direction nodeID \<longleftrightarrow> (case g of
     None \<Rightarrow> False
   | Some graph \<Rightarrow> (case pm_Get None (direction_lists direction graph) nodeID of
       None \<Rightarrow> False
     | Some e \<Rightarrow> \<not> el_inline e \<and> el_total e > adjacencySyncCompactLimit \<and> pm_Len (el_removed e) > adjacencyBackgroundMinTombstones))"

definition appendLive :: "u64 \<Rightarrow> 'r AdjacencyCompactor \<Rightarrow> 'r AdjacencyCompactor" where
  "appendLive ident c =
     (let c1 = (if length (ac_builderTail c) = adjacencyChunkSize
                then c\<lparr>ac_builderChunks := pm_Set [] (ac_builderChunk c) (ac_builderTail c) (ac_builderChunks c),
                       ac_builderChunk := ac_builderChunk c + 1, ac_builderTail := []\<rparr>
                else c)
      in c1\<lparr>ac_builderTail := ac_builderTail c1 @ [ident], ac_builderCount := ac_builderCount c1 + 1\<rparr>)"

text \<open>\<^verbatim>\<open>finishBuilder\<close> stores the tail (in the compactor, which keeps it) and returns the dense list.\<close>

definition finishBuilder :: "'r AdjacencyCompactor \<Rightarrow> 'r AdjacencyCompactor \<times> EdgeList option" where
  "finishBuilder c =
     (let c1 = (if ac_builderTail c \<noteq> []
                then c\<lparr>ac_builderChunks := pm_Set [] (ac_builderChunk c) (ac_builderTail c) (ac_builderChunks c)\<rparr> else c)
      in (c1, if ac_builderCount c1 = 0 then None
              else Some \<lparr>el_small = [], el_chunks = ac_builderChunks c1, el_removed = NewPagedMap,
                     el_count = ac_builderCount c1, el_total = ac_builderCount c1\<rparr>))"

definition replaceAdjacency :: "EdgeList option PagedMap \<Rightarrow> u64 \<Rightarrow> EdgeList option \<Rightarrow> EdgeList option PagedMap" where
  "replaceAdjacency adjacency nodeID l =
     (if l = None then pm_Delete None nodeID adjacency else pm_ForkSet None nodeID l adjacency)"

text \<open>One turn of the inner loop of \<^verbatim>\<open>Step\<close>: the live identifiers of the next source chunk are appended.\<close>

definition copy_chunk :: "'r AdjacencyCompactor \<Rightarrow> 'r AdjacencyCompactor" where
  "copy_chunk c =
     (let ids = pm_Get [] (el_chunks (ac_list c)) (word_of_nat (ac_chunk c));
          c1 = fold (\<lambda>ident c. if pm_Has (el_removed (ac_list c)) ident then c else appendLive ident c) ids c
      in c1\<lparr>ac_chunk := ac_chunk c1 + 1\<rparr>)"

fun copy_chunks :: "nat \<Rightarrow> nat \<Rightarrow> 'r AdjacencyCompactor \<Rightarrow> 'r AdjacencyCompactor" where
  "copy_chunks 0 count c = c"
| "copy_chunks (Suc maxChunks) count c = (if ac_chunk c < count then copy_chunks maxChunks count (copy_chunk c) else c)"

definition publish :: "'r AdjacencyCompactor \<Rightarrow> 'r AdjacencyCompactor" where
  "publish c =
     (let res = (case ac_result c of None \<Rightarrow> ac_source c | Some g \<Rightarrow> g);
          (c1, compacted) = finishBuilder c;
          g = (if ac_direction c = 0
               then res\<lparr>Outgoing := replaceAdjacency (Outgoing res) (ac_listID c) compacted\<rparr>
               else res\<lparr>Incoming := replaceAdjacency (Incoming res) (ac_listID c) compacted\<rparr>)
      in c1\<lparr>ac_result := Some g\<rparr>)"

definition ac_Step :: "int \<Rightarrow> 'r AdjacencyCompactor option \<Rightarrow> 'r AdjacencyCompactor option \<times> bool \<times> bool" where
  "ac_Step maxChunks co = (case co of
     None \<Rightarrow> (None, True, False)
   | Some c \<Rightarrow>
       if maxChunks \<le> 0 then (Some c, True, False)
       else
         let count = chunk_count (el_total (ac_list c));
             c1 = copy_chunks (nat maxChunks) count c
         in if ac_chunk c1 \<noteq> count then (Some c1, False, False)
            else (Some (publish c1), True, True))"

definition ac_Result :: "'r AdjacencyCompactor option \<Rightarrow> 'r GraphAdjacency_scheme option" where
  "ac_Result co = (case co of None \<Rightarrow> None | Some c \<Rightarrow> ac_result c)"

text \<open>A caller that keeps stepping until the compactor reports done.\<close>

fun run_steps :: "nat \<Rightarrow> int \<Rightarrow> 'r AdjacencyCompactor option \<Rightarrow> 'r AdjacencyCompactor option \<times> bool" where
  "run_steps 0 maxChunks co = (co, False)"
| "run_steps (Suc n) maxChunks co =
     (case ac_Step maxChunks co of (co1, done, changed) \<Rightarrow> if done then (co1, True) else run_steps n maxChunks co1)"

section \<open>The builder\<close>

text \<open>The builder holds \<open>zs\<close>: full chunks in the map, the rest in the tail.\<close>

definition builds :: "'r AdjacencyCompactor \<Rightarrow> u64 list \<Rightarrow> bool" where
  "builds c zs \<longleftrightarrow> (\<exists>k. ac_builderChunk c = word_of_nat k \<and> k * 64 \<le> length zs \<and> length zs \<le> k * 64 + 64 \<and>
     ac_builderTail c = drop (k * 64) zs \<and> chunked (ac_builderChunks c) (take (k * 64) zs) \<and> ac_builderCount c = int (length zs))"

lemma chunked_full:
  assumes "chunked m (take (k * 64) zs)" "length zs = k * 64 + n" "0 < n" "n \<le> 64" "length zs \<le> 2 ^ 64"
  shows "chunked (pm_Set [] (word_of_nat k) (drop (k * 64) zs) m) zs"
  unfolding chunked_def
proof (intro conjI allI impI)
  show "pm_inv (pm_Set [] (word_of_nat k) (drop (k * 64) zs) m)" using assms(1) by (simp add: chunked_def pm_inv_Set)
  fix i :: nat assume i: "i < 2 ^ 64"
  have k: "k < 2 ^ 64" using assms(2,3,5) by linarith
  have v: "pm_view m (word_of_nat i) = (if i < k then Some (nth_chunk (take (k * 64) zs) i) else None)"
    using assms(1,2) i by (auto simp: chunked_def min_def)
  have "nth_chunk (take (k * 64) zs) i = nth_chunk zs i" if "i < k"
  proof -
    have "i * 64 + 64 \<le> k * 64" using that by linarith
    then show ?thesis by (simp add: nth_chunk_def drop_take min_def)
  qed
  moreover have "nth_chunk zs k = drop (k * 64) zs" using assms(2,4) by (simp add: nth_chunk_def)
  moreover have "i * 64 < length zs \<longleftrightarrow> i \<le> k" using assms(2,3,4) by linarith
  ultimately show "pm_view (pm_Set [] (word_of_nat k) (drop (k * 64) zs) m) (word_of_nat i) =
      (if i * 64 < length zs then Some (nth_chunk zs i) else None)"
    using v word_index [OF i k] by (auto simp: pm_view_Set)
qed

lemma append_builds:
  assumes "builds c zs" "length zs < 2 ^ 64"
  shows "builds (appendLive i c) (zs @ [i])"
proof -
  obtain k where k: "ac_builderChunk c = word_of_nat k" "k * 64 \<le> length zs" "length zs \<le> k * 64 + 64"
    "ac_builderTail c = drop (k * 64) zs" "chunked (ac_builderChunks c) (take (k * 64) zs)" "ac_builderCount c = int (length zs)"
    using assms(1) unfolding builds_def by blast
  show ?thesis
  proof (cases "length zs = k * 64 + 64")
    case True
    have f: "chunked (pm_Set [] (word_of_nat k) (drop (k * 64) zs) (ac_builderChunks c)) zs"
      using assms(2) by (intro chunked_full [OF k(5) True]) simp_all
    have "ac_builderChunk c + 1 = word_of_nat (Suc k)" using k(1) by simp
    then show ?thesis unfolding builds_def using k True f
      by (intro exI [of _ "Suc k"]) (simp add: appendLive_def adjacencyChunkSize_def)
  next
    case False
    then show ?thesis unfolding builds_def using k
      by (intro exI [of _ k]) (simp add: appendLive_def adjacencyChunkSize_def)
  qed
qed

definition same_job :: "'r AdjacencyCompactor \<Rightarrow> 'r AdjacencyCompactor \<Rightarrow> bool" where
  "same_job c d \<longleftrightarrow> ac_source d = ac_source c \<and> ac_result d = ac_result c \<and> ac_direction d = ac_direction c \<and>
     ac_list d = ac_list c \<and> ac_listID d = ac_listID c"

lemma appendLive_job [simp]: "same_job c (appendLive i c)" "ac_chunk (appendLive i c) = ac_chunk c" "ac_list (appendLive i c) = ac_list c"
  by (simp_all add: appendLive_def same_job_def Let_def)

lemma same_job_trans: "same_job a b \<Longrightarrow> same_job b c \<Longrightarrow> same_job a c"
  by (simp add: same_job_def)

lemma copy_fold:
  assumes "builds c zs" "\<And>i. pm_Has (el_removed (ac_list c)) i \<longleftrightarrow> i \<in> R" "length zs + length ids \<le> 2 ^ 64"
  shows "let d = fold (\<lambda>i c. if pm_Has (el_removed (ac_list c)) i then c else appendLive i c) ids c
    in builds d (zs @ live ids R) \<and> same_job c d \<and> ac_chunk d = ac_chunk c"
  using assms
proof (induction ids arbitrary: c zs)
  case Nil
  then show ?case by (simp add: live_def same_job_def)
next
  case (Cons i ids)
  show ?case
  proof (cases "i \<in> R")
    case True
    then show ?thesis using Cons.IH [of c zs] Cons.prems by (simp add: live_def)
  next
    case False
    have "builds (appendLive i c) (zs @ [i])" using Cons.prems by (intro append_builds) simp_all
    from Cons.IH [OF this] Cons.prems False show ?thesis
      by (auto simp: live_def Let_def intro: same_job_trans [OF appendLive_job(1)])
  qed
qed

section \<open>Progress\<close>

definition ready :: "'r AdjacencyCompactor \<Rightarrow> u64 list \<Rightarrow> u64 set \<Rightarrow> nat \<Rightarrow> bool" where
  "ready c xs R j \<longleftrightarrow> represents (ac_list c) xs R \<and> \<not> el_inline (ac_list c) \<and> ac_chunk c = j \<and>
     builds c (live (take (j * 64) xs) R)"

lemma live_append: "live (xs @ ys) R = live xs R @ live ys R"
  by (simp add: live_def)

lemma copy_chunk_law:
  assumes "ready c xs R j" "j < chunk_count (el_total (ac_list c))"
  shows "ready (copy_chunk c) xs R (Suc j) \<and> same_job c (copy_chunk c)"
proof -
  have r: "represents (ac_list c) xs R" "\<not> el_inline (ac_list c)" "ac_chunk c = j" "builds c (live (take (j * 64) xs) R)"
    using assms(1) by (simp_all add: ready_def)
  have d: "distinct xs" "chunked (el_chunks (ac_list c)) xs" "el_total (ac_list c) = int (length xs)"
    using r(1,2) by (simp_all add: represents_def)
  have b: "length xs \<le> 2 ^ 64" by (rule distinct_length_bound [OF d(1)])
  have j: "j * 64 < length xs" "j < 2 ^ 64" using assms(2) b unfolding d(3) chunk_count_bounds by linarith+
  have "pm_Get [] (el_chunks (ac_list c)) (word_of_nat (ac_chunk c)) = nth_chunk xs j"
    unfolding r(3) by (rule chunked_get [OF d(2) j(2)])
  moreover have "length (live (take (j * 64) xs) R) \<le> j * 64" unfolding live_def
    by (rule order_trans [OF length_filter_le]) simp
  moreover have "length (nth_chunk xs j) \<le> length xs - j * 64" by (simp add: nth_chunk_def)
  ultimately have "let d = (copy_chunk c)\<lparr>ac_chunk := j\<rparr> in builds d (live (take (j * 64) xs) R @ live (nth_chunk xs j) R) \<and> same_job c d"
    and "ac_chunk (copy_chunk c) = Suc j"
    using copy_fold [OF r(4) removed_has [OF r(1)], of "nth_chunk xs j"] b j r(3)
    by (simp_all add: copy_chunk_def Let_def builds_def same_job_def)
  moreover have "take (Suc j * 64) xs = take (j * 64) xs @ nth_chunk xs j"
    using take_add [of "j * 64" 64 xs] by (simp add: nth_chunk_def add.commute)
  ultimately show ?thesis using r by (simp add: ready_def Let_def builds_def same_job_def live_append)
qed

lemma copy_chunks_law:
  assumes "ready c xs R j" "count = chunk_count (el_total (ac_list c))" "j \<le> count"
  shows "ready (copy_chunks m count c) xs R (min count (j + m)) \<and> same_job c (copy_chunks m count c)"
  using assms
proof (induction m arbitrary: c j)
  case 0
  then show ?case by (simp add: same_job_def)
next
  case (Suc m)
  have j: "ac_chunk c = j" using Suc.prems by (simp add: ready_def)
  show ?case
  proof (cases "j < count")
    case True
    have l: "ready (copy_chunk c) xs R (Suc j)" "same_job c (copy_chunk c)" using copy_chunk_law Suc.prems True by blast+
    then have "count = chunk_count (el_total (ac_list (copy_chunk c)))" using Suc.prems(2) by (simp add: same_job_def)
    from Suc.IH [OF l(1) this] True l(2) j show ?thesis by (auto intro: same_job_trans)
  next
    case False
    then show ?thesis using Suc.prems j by (simp add: same_job_def)
  qed
qed

lemma ready_end:
  assumes "ready c xs R (chunk_count (el_total (ac_list c)))"
  shows "builds c (live xs R)"
proof -
  have "el_total (ac_list c) = int (length xs)" using assms by (simp add: ready_def represents_def)
  then show ?thesis using assms chunk_count_covers [of "length xs"] by (simp add: ready_def)
qed

lemma finish_law:
  assumes "builds c zs" "distinct zs" "finishBuilder c = (c1, l)"
  shows "el_dense l zs" "same_job c c1" "l \<noteq> None \<Longrightarrow> \<not> el_HasRemovals l"
proof -
  obtain k where k: "ac_builderChunk c = word_of_nat k" "k * 64 \<le> length zs" "length zs \<le> k * 64 + 64"
    "ac_builderTail c = drop (k * 64) zs" "chunked (ac_builderChunks c) (take (k * 64) zs)" "ac_builderCount c = int (length zs)"
    using assms(1) unfolding builds_def by blast
  define m where "m = (if drop (k * 64) zs \<noteq> [] then pm_Set [] (ac_builderChunk c) (ac_builderTail c) (ac_builderChunks c) else ac_builderChunks c)"
  have m: "chunked m zs"
  proof (cases "drop (k * 64) zs = []")
    case True
    then show ?thesis using k by (simp add: m_def)
  next
    case False
    have "chunked (pm_Set [] (word_of_nat k) (drop (k * 64) zs) (ac_builderChunks c)) zs"
      using False k(2,3) distinct_length_bound [OF assms(2)]
      by (intro chunked_full [OF k(5), where n = "length zs - k * 64"]) simp_all
    then show ?thesis using k(1,4) False by (simp add: m_def)
  qed
  have l: "l = (if zs = [] then None else Some \<lparr>el_small = [], el_chunks = m, el_removed = NewPagedMap, el_count = int (length zs), el_total = int (length zs)\<rparr>)"
    using assms(3) k(6) unfolding finishBuilder_def m_def Let_def k(4) by (auto split: if_splits)
  have "pm_view m 0 = (if zs = [] then None else Some (nth_chunk zs 0))"
    using m unfolding chunked_def by (auto dest: spec [of _ 0])
  then have "\<not> el_inline (the l)" if "zs \<noteq> []" using that by (intro not_inline [of _ 0]) (simp add: l)
  then show "el_dense l zs" using m assms(2) by (simp add: l el_dense_def represents_def pm_inv_New pm_view_New)
  show "same_job c c1" using assms(3) by (auto simp: finishBuilder_def Let_def same_job_def)
  show "l \<noteq> None \<Longrightarrow> \<not> el_HasRemovals l" by (simp add: l el_HasRemovals_def NewPagedMap_def pm_Len_def split: if_splits)
qed

section \<open>The rebuild\<close>

lemma replace_view:
  "pm_inv m \<Longrightarrow> pm_inv (replaceAdjacency m n l) \<and>
   pm_Get None (replaceAdjacency m n l) i = (if i = n then l else pm_Get None m i)"
  by (cases l) (simp_all add: replaceAdjacency_def paged.get_view pm_inv_Delete pm_inv_ForkSet pm_view_Delete pm_view_ForkSet)

definition rebuilt :: "8 word \<Rightarrow> u64 \<Rightarrow> 'r GraphAdjacency_scheme \<Rightarrow> 'r GraphAdjacency_scheme \<Rightarrow> bool" where
  "rebuilt direction n g g' \<longleftrightarrow>
     (\<forall>i. el_IDs (pm_Get None (direction_lists direction g') i) = el_IDs (pm_Get None (direction_lists direction g) i)) \<and>
     (\<forall>i. i \<noteq> n \<longrightarrow> pm_Get None (direction_lists direction g') i = pm_Get None (direction_lists direction g) i) \<and>
     \<not> el_HasRemovals (pm_Get None (direction_lists direction g') n) \<and>
     (if direction = 0 then Incoming g' = Incoming g else Outgoing g' = Outgoing g) \<and>
     GraphAdjacency.more g' = GraphAdjacency.more g"

lemma publish_law:
  fixes c :: "'r AdjacencyCompactor"
  assumes "builds c (live xs R)" "represents (ac_list c) xs R" "ac_result c = None"
    "pm_Get None (direction_lists (ac_direction c) (ac_source c)) (ac_listID c) = Some (ac_list c)"
    "pm_inv (direction_lists (ac_direction c) (ac_source c))"
  shows "\<exists>g'. ac_result (publish c) = Some g' \<and> rebuilt (ac_direction c) (ac_listID c) (ac_source c) g'"
proof -
  obtain c1 l where f: "finishBuilder c = (c1, l)" by (metis surj_pair)
  have d: "distinct (live xs R)" by (rule live_props(3) [OF assms(2)])
  note fin = finish_law [OF assms(1) d f]
  have ids: "el_IDs l = live xs R" "el_IDs (Some (ac_list c)) = live xs R"
    using el_rep_read(1) [OF dense_rep [OF fin(1) subset_refl]] live_props(1) [OF assms(2)] by (simp_all add: el_IDs_def)
  have clean: "\<not> el_HasRemovals l" using fin(3) by (cases l) (simp_all add: el_HasRemovals_def)
  define g' where "g' = (if ac_direction c = 0
    then (ac_source c)\<lparr>Outgoing := replaceAdjacency (Outgoing (ac_source c)) (ac_listID c) l\<rparr>
    else (ac_source c)\<lparr>Incoming := replaceAdjacency (Incoming (ac_source c)) (ac_listID c) l\<rparr>)"
  have "direction_lists (ac_direction c) g' = replaceAdjacency (direction_lists (ac_direction c) (ac_source c)) (ac_listID c) l"
    by (simp add: g'_def direction_lists_def)
  moreover have "if ac_direction c = 0 then Incoming g' = Incoming (ac_source c) else Outgoing g' = Outgoing (ac_source c)"
    "GraphAdjacency.more g' = GraphAdjacency.more (ac_source c)" by (simp_all add: g'_def)
  ultimately have "rebuilt (ac_direction c) (ac_listID c) (ac_source c) g'"
    unfolding rebuilt_def using ids clean assms(4)
    by (simp only: replace_view [OF assms(5)]) (auto split: if_splits)
  moreover have "ac_result (publish c) = Some g'" using assms(3) f by (simp add: publish_def g'_def Let_def)
  ultimately show ?thesis by blast
qed

lemma run_steps_law:
  assumes "ready c xs R j" "ac_result c = None" "0 < m" "j \<le> chunk_count (el_total (ac_list c))"
    "pm_Get None (direction_lists (ac_direction c) (ac_source c)) (ac_listID c) = Some (ac_list c)"
    "pm_inv (direction_lists (ac_direction c) (ac_source c))"
    "chunk_count (el_total (ac_list c)) - j \<le> k * nat m" "0 < k"
  shows "\<exists>c' g'. run_steps k m (Some c) = (Some c', True) \<and> ac_Result (Some c') = Some g' \<and>
    rebuilt (ac_direction c) (ac_listID c) (ac_source c) g'"
  using assms
proof (induction k arbitrary: c j)
  case (Suc k)
  define count where "count = chunk_count (el_total (ac_list c))"
  define d where "d = copy_chunks (nat m) count c"
  have l: "ready d xs R (min count (j + nat m))" "same_job c d"
    using copy_chunks_law [OF Suc.prems(1) count_def] Suc.prems(4) by (simp_all add: d_def count_def)
  have job: "ac_source d = ac_source c" "ac_result d = None" "ac_direction d = ac_direction c" "ac_list d = ac_list c" "ac_listID d = ac_listID c"
    using l(2) Suc.prems(2) by (simp_all add: same_job_def)
  have ch: "ac_chunk d = min count (j + nat m)" using l(1) by (simp add: ready_def)
  show ?case
  proof (cases "j + nat m < count")
    case True
    then have "ac_Step m (Some c) = (Some d, False, False)" using Suc.prems(3) ch by (simp add: ac_Step_def d_def count_def)
    moreover have "\<exists>c' g'. run_steps k m (Some d) = (Some c', True) \<and> ac_Result (Some c') = Some g' \<and>
        rebuilt (ac_direction d) (ac_listID d) (ac_source d) g'"
      using l(1) job Suc.prems True
      by (intro Suc.IH [where j = "j + nat m"]) (auto simp: count_def intro: gr0I)
    ultimately show ?thesis by (simp add: job)
  next
    case False
    then have "ac_Step m (Some c) = (Some (publish d), True, True)" using Suc.prems(3) ch by (simp add: ac_Step_def d_def count_def Let_def)
    moreover have "builds d (live xs R)" using False l(1) by (intro ready_end) (simp add: job count_def [symmetric])
    then have "\<exists>g'. ac_result (publish d) = Some g' \<and> rebuilt (ac_direction d) (ac_listID d) (ac_source d) g'"
      using l(1) Suc.prems(5,6) by (intro publish_law [where xs = xs and R = R]) (simp_all add: job ready_def)
    ultimately show ?thesis by (simp add: job ac_Result_def)
  qed
qed simp

lemma compactor_ready:
  assumes "NewAdjacencyCompactor (Some g) direction n = Some c" "el_rep (pm_Get None (direction_lists direction g) n) ys U"
  obtains xs R where "ready c xs R 0" "ac_result c = None" "ac_source c = g" "ac_direction c = direction" "ac_listID c = n"
    "pm_Get None (direction_lists direction g) n = Some (ac_list c)"
proof -
  obtain e where e: "pm_Get None (direction_lists direction g) n = Some e" "\<not> el_inline e"
    and c: "c = \<lparr>ac_source = g, ac_result = None, ac_direction = direction, ac_nodeID = n, ac_chunk = 0,
         ac_list = e, ac_builderChunks = NewPagedMap, ac_builderTail = [], ac_builderChunk = 0, ac_builderCount = 0, ac_listID = n\<rparr>"
    using assms(1) by (auto simp: NewAdjacencyCompactor_def selectList_def split: option.splits if_splits)
  obtain xs R where r: "represents e xs R" using assms(2) e(1) by (auto simp: el_rep_def)
  have "chunked NewPagedMap []" by (simp add: chunked_def pm_inv_New pm_view_New)
  then have "ready c xs R 0" using r e(2) by (auto simp: ready_def c builds_def live_def)
  then show thesis using e(1) by (intro that) (simp_all add: c)
qed

lemma needs_iff: "AdjacencyNeedsCompaction g direction n \<longleftrightarrow> (\<exists>c. NewAdjacencyCompactor g direction n = Some c)"
  by (auto simp: AdjacencyNeedsCompaction_def NewAdjacencyCompactor_def selectList_def split: option.splits)

text \<open>
  C20. Let the list of node \<open>n\<close> have been built by the list operations and need compaction. Then a compactor is
  created; stepping it with a budget of \<open>m > 0\<close> chunks reports done after at most \<open>k\<close> steps as soon as \<open>k * m\<close> reaches
  the number of chunks; the result graph has, for every node, the same edge identifiers in the same order, no tombstones
  for \<open>n\<close>, and the lists of every other node, the other direction and all other fields unchanged.
\<close>

theorem compaction_completes:
  assumes "AdjacencyNeedsCompaction (Some g) direction n" "pm_inv (direction_lists direction g)"
    "edge_ops_ok ops [] []" "pm_Get None (direction_lists direction g) n = fold apply_edge_op ops None"
    "0 < m" "0 < k" "\<forall>e. pm_Get None (direction_lists direction g) n = Some e \<longrightarrow> chunk_count (el_total e) \<le> k * nat m"
  shows "\<exists>c c' g'. NewAdjacencyCompactor (Some g) direction n = Some c \<and> run_steps k m (Some c) = (Some c', True) \<and>
    ac_Result (Some c') = Some g' \<and> rebuilt direction n g g'"
proof -
  obtain c where c: "NewAdjacencyCompactor (Some g) direction n = Some c" using assms(1) by (auto simp: needs_iff)
  obtain U where "el_rep (pm_Get None (direction_lists direction g) n) (fold edge_spec ops []) U"
    using edge_ops_law [OF assms(3), of None] assms(4) by (auto simp: el_rep_def [of None])
  from compactor_ready [OF c this] obtain xs R where r: "ready c xs R 0" "ac_result c = None" "ac_source c = g"
    "ac_direction c = direction" "ac_listID c = n" "pm_Get None (direction_lists direction g) n = Some (ac_list c)" by blast
  then show ?thesis using run_steps_law [OF r(1,2) assms(5), of k] assms c by simp
qed

text \<open>A list long enough to need compaction: \<open>xs\<close> appended, then \<open>ids\<close> removed in one batch.\<close>

definition sparse_history :: "u64 list \<Rightarrow> u64 list \<Rightarrow> edge_op list" where
  "sparse_history xs ids = map EAppend xs @ [ERemoveKnownBatch ids]"

lemma sparse_history_ok:
  "distinct xs \<Longrightarrow> set xs \<inter> set used = {} \<Longrightarrow> set ids \<subseteq> set (ys @ xs) \<Longrightarrow> edge_ops_ok (sparse_history xs ids) ys used"
  by (induction xs arbitrary: ys used) (auto simp: sparse_history_def)

lemma sparse_history_list:
  assumes "distinct xs" "set ids \<subseteq> set xs" "distinct ids" "256 < length xs" "64 < length ids"
  shows "\<exists>e. fold apply_edge_op (sparse_history xs ids) None = Some e \<and> \<not> el_inline e \<and> el_total e = int (length xs) \<and>
    pm_Len (el_removed e) = int (length ids)"
proof -
  have app: "fold apply_edge_op (map EAppend zs) l = fold (\<lambda>i c. Some (el_Append i c)) zs l" for zs l
    by (induction zs arbitrary: l) simp_all
  obtain e where e: "fold apply_edge_op (map EAppend xs) None = Some e" "represents e xs {}"
    using fold_append [of None "[]" xs] assms(1,4) by (auto simp: el_dense_def app split: option.splits)
  have i: "\<not> el_inline e" using e(2) assms(4) by (auto simp: represents_def)
  obtain rm n where b: "batch_loop ids (el_removed e) 0 = (rm, n)" by (metis surj_pair)
  have inv: "pm_inv (el_removed e)" "dom (pm_view (el_removed e)) = {}" using e(2) by (simp_all add: represents_def)
  from batch_loop_law [OF inv(1) b] have bl: "pm_inv rm" "dom (pm_view rm) = set ids" "n = int (length ids)"
    using assms(3) by (simp_all add: inv(2) distinct_card)
  let ?e = "e\<lparr>el_removed := rm, el_count := el_count e - n\<rparr>"
  have tot: "el_total e = int (length xs)" using e(2) by (simp add: represents_def)
  have "ids \<noteq> []" using assms(5) by auto
  then have "fold apply_edge_op (sparse_history xs ids) None = Some ?e"
    using e(1) i b bl(3) assms(4) tot
    by (simp add: sparse_history_def el_RemoveKnownBatch_def compact_if_sparse_def adjacencySyncCompactLimit_def adjacencyChunkSize_def)
  moreover have "pm_Len rm = int (length ids)" using paged.len_view [OF bl(1)] bl(2) assms(3) by (simp add: distinct_card)
  ultimately show ?thesis using i tot by (intro exI [of _ ?e]) (simp add: el_inline_def)
qed

definition example_ids :: "nat \<Rightarrow> u64 list" where
  "example_ids n = map word_of_nat [0..<n]"

lemma example_ids: "n \<le> 2 ^ 64 \<Longrightarrow> distinct (example_ids n)" "m \<le> n \<Longrightarrow> set (example_ids m) \<subseteq> set (example_ids n)"
  "length (example_ids n) = n"
  by (auto simp: example_ids_def distinct_map inj_on_def word_index)

definition example_graph :: GraphAdjacency where
  "example_graph = \<lparr>Outgoing = pm_Set None 7 (fold apply_edge_op (sparse_history (example_ids 300) (example_ids 100)) None) NewPagedMap,
     Incoming = NewPagedMap\<rparr>"

theorem compaction_completes_witness:
  "\<exists>c c' g'. NewAdjacencyCompactor (Some example_graph) 0 7 = Some c \<and> run_steps 1 AdjacencyCompactionChunkBudget (Some c) = (Some c', True) \<and>
    ac_Result (Some c') = Some g' \<and> rebuilt 0 7 example_graph g'"
proof -
  have d: "distinct (example_ids 300)" "distinct (example_ids 100)" "set (example_ids 100) \<subseteq> set (example_ids 300)"
    using example_ids(1) [of 300] example_ids(1) [of 100] example_ids(2) [of 100 300] by simp_all
  obtain e where e: "fold apply_edge_op (sparse_history (example_ids 300) (example_ids 100)) None = Some e" "\<not> el_inline e"
    "el_total e = 300" "pm_Len (el_removed e) = 100"
    using sparse_history_list [OF d(1,3,2)] by (auto simp: example_ids(3))
  have g: "pm_Get None (direction_lists 0 example_graph) 7 = Some e" "pm_inv (direction_lists 0 example_graph)"
    by (simp_all add: direction_lists_def example_graph_def e(1) paged.get_view pm_inv_Set pm_view_Set pm_inv_New)
  show ?thesis
  proof (rule compaction_completes [where ops = "sparse_history (example_ids 300) (example_ids 100)"])
    show "AdjacencyNeedsCompaction (Some example_graph) 0 7"
      using g e by (simp add: AdjacencyNeedsCompaction_def adjacencySyncCompactLimit_def adjacencyChunkSize_def adjacencyBackgroundMinTombstones_def)
    show "edge_ops_ok (sparse_history (example_ids 300) (example_ids 100)) [] []" using d by (intro sparse_history_ok) simp_all
  qed (use g e in \<open>simp_all add: AdjacencyCompactionChunkBudget_def chunk_count_def\<close>)
qed

end
