(* ===== verification/Runes.thy ===== *)
theory Runes
  imports GoBytes
begin

text \<open>
  Strings as sequences of runes: what \<^verbatim>\<open>for _, r := range s\<close>, \<^verbatim>\<open>[]rune(s)\<close>, \<^verbatim>\<open>utf8.RuneLen\<close> and
  \<^verbatim>\<open>strings.Builder.WriteRune\<close> compute. Runes are code points as natural numbers, bytes are read from and written to
  strings with \<open>of_char\<close> and \<open>char_of\<close>. An ill-formed byte decodes to U+FFFD and has width one, as in Go. The tables behind
  \<^verbatim>\<open>unicode.IsLetter\<close>, \<^verbatim>\<open>unicode.IsDigit\<close> and \<^verbatim>\<open>unicode.ToLower\<close> are a parameter, the record \<open>unicode\<close>.
\<close>

type_synonym rune = nat

definition rune_error :: rune where
  "rune_error = 0xFFFD"

definition valid_rune :: "rune \<Rightarrow> bool" where
  "valid_rune r \<longleftrightarrow> r < 0xD800 \<or> 0xE000 \<le> r \<and> r < 0x110000"

definition is_cont :: "nat \<Rightarrow> bool" where
  "is_cont b \<longleftrightarrow> 0x80 \<le> b \<and> b < 0xC0"

text \<open>The bytes of a valid rune; an invalid one is written as U+FFFD.\<close>

definition rune_bytes :: "rune \<Rightarrow> nat list" where
  "rune_bytes r0 = (let r = (if valid_rune r0 then r0 else rune_error) in
     if r < 0x80 then [r]
     else if r < 0x800 then [0xC0 + r div 64, 0x80 + r mod 64]
     else if r < 0x10000 then [0xE0 + r div 4096, 0x80 + (r div 64) mod 64, 0x80 + r mod 64]
     else [0xF0 + r div 262144, 0x80 + (r div 4096) mod 64, 0x80 + (r div 64) mod 64, 0x80 + r mod 64])"

text \<open>\<^verbatim>\<open>utf8.DecodeRune\<close>: the first rune of a byte sequence and its width.\<close>

definition decode_rune :: "nat list \<Rightarrow> rune \<times> nat" where
  "decode_rune bs = (case bs of
     [] \<Rightarrow> (rune_error, 0)
   | b0 # t0 \<Rightarrow>
     if b0 < 0x80 then (b0, 1)
     else if b0 < 0xC2 then (rune_error, 1)
     else if b0 < 0xE0 then
       (case t0 of b1 # t1 \<Rightarrow> if is_cont b1 then ((b0 - 0xC0) * 64 + (b1 - 0x80), 2) else (rune_error, 1) | [] \<Rightarrow> (rune_error, 1))
     else if b0 < 0xF0 then
       (case t0 of b1 # b2 # t2 \<Rightarrow>
          if is_cont b1 \<and> is_cont b2 \<and> (b0 = 0xE0 \<longrightarrow> 0xA0 \<le> b1) \<and> (b0 = 0xED \<longrightarrow> b1 < 0xA0)
          then ((b0 - 0xE0) * 4096 + (b1 - 0x80) * 64 + (b2 - 0x80), 3) else (rune_error, 1)
        | _ \<Rightarrow> (rune_error, 1))
     else if b0 < 0xF5 then
       (case t0 of b1 # b2 # b3 # t3 \<Rightarrow>
          if is_cont b1 \<and> is_cont b2 \<and> is_cont b3 \<and> (b0 = 0xF0 \<longrightarrow> 0x90 \<le> b1) \<and> (b0 = 0xF4 \<longrightarrow> b1 < 0x90)
          then ((b0 - 0xF0) * 262144 + (b1 - 0x80) * 4096 + (b2 - 0x80) * 64 + (b3 - 0x80), 4) else (rune_error, 1)
        | _ \<Rightarrow> (rune_error, 1))
     else (rune_error, 1))"

lemma decode_rune_width: "bs \<noteq> [] \<Longrightarrow> 0 < snd (decode_rune bs)"
  by (simp add: decode_rune_def split: list.splits)

lemma decode_rune_shrinks: "bs \<noteq> [] \<Longrightarrow> (r, n) = decode_rune bs \<Longrightarrow> length bs - n < length bs"
  using decode_rune_width [of bs] by (cases "decode_rune bs") simp

function decode_runes :: "nat list \<Rightarrow> rune list" where
  "decode_runes bs = (if bs = [] then [] else (case decode_rune bs of (r, n) \<Rightarrow> r # decode_runes (drop n bs)))"
  by auto
termination
  by (relation "measure length") (auto intro: decode_rune_shrinks)

declare decode_runes.simps [simp del]

definition runes :: "string \<Rightarrow> rune list" where
  "runes s = decode_runes (map of_char s)"

definition rune_string :: "rune \<Rightarrow> string" where
  "rune_string r = map char_of (rune_bytes r)"

definition runes_string :: "rune list \<Rightarrow> string" where
  "runes_string rs = concat (map rune_string rs)"

text \<open>\<^verbatim>\<open>utf8.RuneLen\<close>, which is \<open>-1\<close> for what is not a rune.\<close>

definition rune_len :: "rune \<Rightarrow> int" where
  "rune_len r = (if \<not> valid_rune r then - 1 else if r < 0x80 then 1 else if r < 0x800 then 2 else if r < 0x10000 then 3 else 4)"

record unicode =
  is_letter :: "rune \<Rightarrow> bool"
  is_digit :: "rune \<Rightarrow> bool"
  to_lower :: "rune \<Rightarrow> rune"

text \<open>\<^verbatim>\<open>strings.ToLower\<close> maps every rune; \<^verbatim>\<open>strings.FieldsFunc\<close> cuts a string into maximal runs of runes not matching.\<close>

definition strings_ToLower :: "unicode \<Rightarrow> string \<Rightarrow> string" where
  "strings_ToLower u s = runes_string (map (to_lower u) (runes s))"

fun runs :: "('a \<Rightarrow> bool) \<Rightarrow> 'a list \<Rightarrow> 'a list \<Rightarrow> 'a list list" where
  "runs sep acc [] = (if acc = [] then [] else [acc])"
| "runs sep acc (x # xs) =
     (if sep x then (if acc = [] then runs sep [] xs else acc # runs sep [] xs)
      else runs sep (acc @ [x]) xs)"

definition strings_FieldsFunc :: "(rune \<Rightarrow> bool) \<Rightarrow> string \<Rightarrow> string list" where
  "strings_FieldsFunc sep s = map runes_string (runs sep [] (runes s))"

section \<open>Laws\<close>

lemma rune_bytes_length: "valid_rune r \<Longrightarrow> int (length (rune_bytes r)) = rune_len r"
  by (simp add: rune_bytes_def rune_len_def)

lemma rune_bytes_less: "b \<in> set (rune_bytes r) \<Longrightarrow> b < 256"
proof -
  define q where "q = (if valid_rune r then r else rune_error)"
  have q: "q < 0x110000" by (auto simp: q_def valid_rune_def rune_error_def)
  have "q div 262144 < 5" "q < 65536 \<Longrightarrow> q div 4096 < 16" "q < 2048 \<Longrightarrow> q div 64 < 32"
    using q by (simp_all add: less_mult_imp_div_less)
  moreover assume "b \<in> set (rune_bytes r)"
  ultimately show ?thesis unfolding rune_bytes_def Let_def q_def [symmetric] by (auto split: if_splits)
qed

lemma rune_split3: "r div 4096 * 4096 + r div 64 mod 64 * 64 + r mod 64 = r" for r :: nat
proof -
  have "r div 64 div 64 = r div 4096" by (simp add: div_mult2_eq [symmetric])
  then show ?thesis using div_mult_mod_eq [of r 64] div_mult_mod_eq [of "r div 64" 64] by linarith
qed

lemma rune_split4: "r div 262144 * 262144 + r div 4096 mod 64 * 4096 + r div 64 mod 64 * 64 + r mod 64 = r" for r :: nat
proof -
  have "r div 4096 div 64 = r div 262144" by (simp add: div_mult2_eq [symmetric])
  then show ?thesis using rune_split3 [of r] div_mult_mod_eq [of "r div 4096" 64] by linarith
qed

lemma decode_encode: "valid_rune r \<Longrightarrow> decode_rune (rune_bytes r @ bs) = (r, length (rune_bytes r))"
proof -
  assume v: "valid_rune r"
  consider "r < 0x80" | "0x80 \<le> r" "r < 0x800" | "0x800 \<le> r" "r < 0x10000" | "0x10000 \<le> r" "r < 0x110000"
    using v by (fastforce simp: valid_rune_def)
  then show ?thesis
  proof cases
    case 1
    then show ?thesis using v by (simp add: rune_bytes_def decode_rune_def)
  next
    case 2
    have "r div 64 < 32" "2 \<le> r div 64" using 2 by (auto simp: less_mult_imp_div_less)
    then show ?thesis using v 2 by (simp add: rune_bytes_def decode_rune_def is_cont_def)
  next
    case 3
    have d: "r div 4096 < 16" using 3 by (auto simp: less_mult_imp_div_less)
    define b where "b = r div 64 mod 64"
    have e: "r div 4096 * 4096 + b * 64 + r mod 64 = r" unfolding b_def by (rule rune_split3)
    have m: "b < 64" "r mod 64 < 64" by (simp_all add: b_def)
    have lo: "0 < r div 4096 \<or> 32 \<le> b" using 3 e m by linarith
    have hi: "b < 32" if "r div 4096 = 13" using that v 3 e m unfolding valid_rune_def by linarith
    have "rune_bytes r = [0xE0 + r div 4096, 0x80 + b, 0x80 + r mod 64]" using v 3 by (simp add: rune_bytes_def b_def)
    then show ?thesis using d e lo hi m by (simp add: decode_rune_def is_cont_def)
  next
    case 4
    have d: "r div 262144 < 5" using 4 by (auto simp: less_mult_imp_div_less)
    define b where "b = r div 4096 mod 64"
    define c where "c = r div 64 mod 64"
    have e: "r div 262144 * 262144 + b * 4096 + c * 64 + r mod 64 = r" unfolding b_def c_def by (rule rune_split4)
    have m: "b < 64" "c < 64" "r mod 64 < 64" by (simp_all add: b_def c_def)
    have lo: "0 < r div 262144 \<or> 16 \<le> b" using 4 e m by linarith
    have hi: "b < 16" if "r div 262144 = 4" using that 4 e m by linarith
    show ?thesis using v 4 d e lo hi m by (simp add: rune_bytes_def decode_rune_def is_cont_def b_def [symmetric] c_def [symmetric])
  qed
qed

lemma of_char_rune_string: "map of_char (rune_string r) = rune_bytes r"
  unfolding rune_string_def map_map by (rule map_idI) (simp add: rune_bytes_less)

lemma rune_string_length: "valid_rune r \<Longrightarrow> int (length (rune_string r)) = rune_len r"
  by (simp add: rune_string_def rune_bytes_length)

lemma rune_string_nonempty [simp]: "rune_string r \<noteq> []"
  by (simp add: rune_string_def rune_bytes_def Let_def)

lemma runes_encode_one: "valid_rune r \<Longrightarrow> decode_runes (rune_bytes r @ bs) = r # decode_runes bs"
  using rune_string_nonempty [of r] by (subst decode_runes.simps) (simp add: decode_encode rune_string_def)

lemma decode_runes_nil [simp]: "decode_runes [] = []"
  by (simp add: decode_runes.simps)

lemma decode_runes_ascii [simp]: "b < 0x80 \<Longrightarrow> decode_runes (b # bs) = b # decode_runes bs"
  by (subst decode_runes.simps) (simp add: decode_rune_def)

lemma rune_string_ascii [simp]: "r < 0x80 \<Longrightarrow> rune_string r = [char_of r]"
  by (simp add: rune_string_def rune_bytes_def valid_rune_def)

lemma runes_runes_string: "list_all valid_rune rs \<Longrightarrow> runes (runes_string rs) = rs"
proof (induction rs)
  case Nil
  show ?case by (simp add: runes_def runes_string_def decode_runes.simps [of "[]"])
qed (simp add: runes_def runes_string_def of_char_rune_string runes_encode_one)

lemma decoded_two: "\<not> b0 < 0xC2 \<Longrightarrow> b0 < 0xE0 \<Longrightarrow> is_cont b1 \<Longrightarrow> valid_rune ((b0 - 0xC0) * 64 + (b1 - 0x80))"
  unfolding valid_rune_def is_cont_def by linarith

lemma decoded_three:
  assumes "\<not> b0 < 0xE0" "b0 < 0xF0" "is_cont b1" "is_cont b2" "b0 = 0xED \<longrightarrow> b1 < 0xA0"
  shows "valid_rune ((b0 - 0xE0) * 4096 + (b1 - 0x80) * 64 + (b2 - 0x80))"
proof -
  have "b0 - 0xE0 \<le> 12 \<or> b0 - 0xE0 = 13 \<and> b1 < 0xA0 \<or> 14 \<le> b0 - 0xE0 \<and> b0 - 0xE0 \<le> 15" using assms by linarith
  then show ?thesis using assms(3,4) unfolding valid_rune_def is_cont_def by linarith
qed

lemma decoded_four:
  assumes "\<not> b0 < 0xF0" "b0 < 0xF5" "is_cont b1" "is_cont b2" "is_cont b3" "b0 = 0xF0 \<longrightarrow> 0x90 \<le> b1" "b0 = 0xF4 \<longrightarrow> b1 < 0x90"
  shows "valid_rune ((b0 - 0xF0) * 262144 + (b1 - 0x80) * 4096 + (b2 - 0x80) * 64 + (b3 - 0x80))"
proof -
  have "b0 - 0xF0 = 0 \<and> 0x90 \<le> b1 \<or> b0 - 0xF0 = 4 \<and> b1 < 0x90 \<or> 1 \<le> b0 - 0xF0 \<and> b0 - 0xF0 \<le> 3" using assms by linarith
  then show ?thesis using assms(3,4,5) unfolding valid_rune_def is_cont_def by linarith
qed

lemma decode_rune_valid: "valid_rune (fst (decode_rune bs))"
proof -
  have e: "valid_rune rune_error" by (simp add: valid_rune_def rune_error_def)
  show ?thesis unfolding decode_rune_def
    by (simp add: e decoded_two decoded_three decoded_four split: list.split) (simp add: valid_rune_def)
qed

lemma decode_runes_valid: "list_all valid_rune (decode_runes bs)"
proof (induction bs rule: decode_runes.induct)
  case (1 bs)
  obtain r n where d: "decode_rune bs = (r, n)" by (metis surj_pair)
  then have "valid_rune r" using decode_rune_valid [of bs] by simp
  then show ?case using 1 d by (subst decode_runes.simps) simp
qed

lemma runes_valid: "list_all valid_rune (runes s)"
  by (simp add: runes_def decode_runes_valid)

lemma runs_map: "(\<And>x. x \<in> set acc \<union> set xs \<Longrightarrow> sep' (f x) = sep x) \<Longrightarrow> runs sep' (map f acc) (map f xs) = map (map f) (runs sep acc xs)"
  by (induction sep acc xs rule: runs.induct) auto

end
