(* ===== verification/Levenshtein.thy ===== *)
theory Levenshtein
  imports Runes
begin

text \<open>
  Fuzzy matching of search terms (\<^verbatim>\<open>internal/search/search.go\<close>): the two-row dynamic program of
  \<^verbatim>\<open>levenshteinDistance\<close> with its two buffers, and \<^verbatim>\<open>FuzzyTokenMatch\<close>. The reference is the least number of single
  insertions, deletions and substitutions of runes that turn one string into the other.
\<close>

section \<open>The code\<close>

definition minInt :: "int list \<Rightarrow> int" where
  "minInt vs = fold (\<lambda>v best. if v < best then v else best) (tl vs) (hd vs)"

text \<open>The inner loop over the runes of the right string, writing \<^verbatim>\<open>currr[j+1]\<close>.\<close>

fun lev_inner :: "'a \<Rightarrow> 'a list \<Rightarrow> nat \<Rightarrow> int list \<Rightarrow> int list \<Rightarrow> int list" where
  "lev_inner leftRune [] j prev cur = cur"
| "lev_inner leftRune (rightRune # rs) j prev cur =
     (let cost = (if leftRune \<noteq> rightRune then 1 else 0);
          deletion = prev ! (j + 1) + 1;
          insertion = cur ! j + 1;
          substitution = prev ! j + cost
      in lev_inner leftRune rs (j + 1) prev (cur[j + 1 := minInt [deletion, insertion, substitution]]))"

text \<open>The outer loop, which ends each turn with \<^verbatim>\<open>prev, cur = curr, prev\<close>.\<close>

fun lev_outer :: "'a list \<Rightarrow> nat \<Rightarrow> 'a list \<Rightarrow> int list \<Rightarrow> int list \<Rightarrow> int list" where
  "lev_outer [] i rightRunes prev cur = prev"
| "lev_outer (leftRune # ls) i rightRunes prev cur =
     lev_outer ls (i + 1) rightRunes (lev_inner leftRune rightRunes 0 prev (cur[0 := int (i + 1)])) prev"

definition lev_runes :: "'a list \<Rightarrow> 'a list \<Rightarrow> int" where
  "lev_runes leftRunes rightRunes =
     (if leftRunes = [] then int (length rightRunes)
      else if rightRunes = [] then int (length leftRunes)
      else lev_outer leftRunes 0 rightRunes (map int [0..<length rightRunes + 1]) (replicate (length rightRunes + 1) 0) ! length rightRunes)"

definition levenshteinDistance :: "string \<Rightarrow> string \<Rightarrow> int" where
  "levenshteinDistance left right = lev_runes (runes left) (runes right)"

definition FuzzyTokenMatch :: "unicode \<Rightarrow> string \<Rightarrow> string \<Rightarrow> u32 \<Rightarrow> u32 \<Rightarrow> bool" where
  "FuzzyTokenMatch u term0 token maxDistance minTermLength =
     (let term = strings_ToLower u term0 in
      if token = term then True
      else maxDistance > 0 \<and> (word_of_nat (length (runes term)) :: u32) \<ge> minTermLength \<and>
        levenshteinDistance term token \<le> uint maxDistance)"

section \<open>The recursive distance\<close>

fun ed :: "'a list \<Rightarrow> 'a list \<Rightarrow> nat" where
  "ed [] ys = length ys"
| "ed (x # xs) [] = length (x # xs)"
| "ed (x # xs) (y # ys) = min (ed xs (y # ys) + 1) (min (ed (x # xs) ys + 1) (ed xs ys + (if x = y then 0 else 1)))"

lemma minInt3: "minInt [a, b, c] = min a (min b c)"
  by (simp add: minInt_def)

lemma ed_nil2 [simp]: "ed xs [] = length xs"
  by (cases xs) simp_all

text \<open>Entry \<open>j\<close> of the row for a left prefix with reversal \<open>x # xs\<close> against the first \<open>j\<close> runes of \<open>ys\<close>.\<close>

abbreviation row :: "'a list \<Rightarrow> 'a list \<Rightarrow> nat \<Rightarrow> int" where
  "row xs ys j \<equiv> int (ed xs (rev (take j ys)))"

lemma lev_inner_length [simp]: "length (lev_inner x rs j prev cur) = length cur"
  by (induction rs arbitrary: j cur) (simp_all add: Let_def)

lemma lev_inner_row:
  assumes "ys = pre @ rs" "j = length pre" "length prev = length ys + 1" "length cur = length ys + 1"
    "\<forall>k \<le> length ys. prev ! k = row xs ys k" "\<forall>k \<le> j. cur ! k = row (x # xs) ys k"
  shows "\<forall>k \<le> length ys. lev_inner x rs j prev cur ! k = row (x # xs) ys k"
  using assms
proof (induction rs arbitrary: pre j cur)
  case Nil
  then show ?case by simp
next
  case (Cons r rs)
  let ?c = "cur[j + 1 := minInt [prev ! (j + 1) + 1, cur ! j + 1, prev ! j + (if x \<noteq> r then 1 else 0)]]"
  have t: "take (Suc j) ys = take j ys @ [r]" "Suc j \<le> length ys" using Cons.prems(1,2) by simp_all
  have "?c ! Suc j = row (x # xs) ys (Suc j)"
    using Cons.prems(3,4,5,6) t by (auto simp: minInt3)
  then have "\<forall>k \<le> Suc j. ?c ! k = row (x # xs) ys k" using Cons.prems(6) by (auto simp: le_Suc_eq)
  then have "\<forall>k \<le> length ys. lev_inner x rs (Suc j) prev ?c ! k = row (x # xs) ys k"
    using Cons.prems by (intro Cons.IH [of "pre @ [r]"]) simp_all
  then show ?case by (simp add: Let_def)
qed

lemma lev_outer_row:
  assumes "length prev = length ys + 1" "length cur = length ys + 1" "i = length xs" "\<forall>k \<le> length ys. prev ! k = row xs ys k"
  shows "\<forall>k \<le> length ys. lev_outer ls i ys prev cur ! k = row (rev ls @ xs) ys k"
  using assms
proof (induction ls arbitrary: i prev cur xs)
  case (Cons l ls)
  have "\<forall>k \<le> length ys. lev_inner l ys 0 prev (cur[0 := int (i + 1)]) ! k = row (l # xs) ys k"
    using Cons.prems by (intro lev_inner_row [of _ "[]"]) simp_all
  from Cons.IH [OF _ _ _ this, of prev "Suc i"] Cons.prems show ?case by simp
qed simp

lemma lev_runes_ed: "lev_runes xs ys = int (ed (rev xs) (rev ys))"
proof (cases "xs = [] \<or> ys = []")
  case False
  have "\<forall>k \<le> length ys. lev_outer xs 0 ys (map int [0..<length ys + 1]) (replicate (length ys + 1) 0) ! k = row (rev xs @ []) ys k"
    by (rule lev_outer_row) (simp_all del: upt_Suc add: nth_append)
  with False show ?thesis by (simp add: lev_runes_def)
qed (auto simp: lev_runes_def)

section \<open>Alignments\<close>

text \<open>\<open>aligned n xs ys\<close>: going through both lists from the left, \<open>n\<close> runes are dropped, added or replaced.\<close>

inductive aligned :: "nat \<Rightarrow> 'a list \<Rightarrow> 'a list \<Rightarrow> bool" where
  empty: "aligned 0 [] []"
| keep: "aligned n xs ys \<Longrightarrow> aligned n (x # xs) (x # ys)"
| drop: "aligned n xs ys \<Longrightarrow> aligned (Suc n) (x # xs) ys"
| add: "aligned n xs ys \<Longrightarrow> aligned (Suc n) xs (y # ys)"
| replace: "aligned n xs ys \<Longrightarrow> aligned (Suc n) (x # xs) (y # ys)"

inductive_cases aligned_nil: "aligned n [] ys"
inductive_cases aligned_cons: "aligned n (x # xs) ys"

lemma aligned_adds: "aligned (length ys) [] ys"
  by (induction ys) (auto intro: aligned.intros)

lemma aligned_drops: "aligned (length xs) xs []"
  by (induction xs) (auto intro: aligned.intros)

lemma aligned_ed: "aligned (ed xs ys) xs ys"
proof (induction xs ys rule: ed.induct)
  case (1 ys)
  show ?case by (simp add: aligned_adds)
next
  case (2 x xs)
  show ?case using aligned_drops [of "x # xs"] by simp
next
  case (3 x xs y ys)
  then show ?case by (auto simp: min_def intro: aligned.intros)
qed

lemma aligned_minimal: "aligned n xs ys \<Longrightarrow> ed xs ys \<le> n"
proof (induction rule: aligned.induct)
  case (drop n xs ys x)
  then show ?case by (cases ys) auto
next
  case (add n xs ys y)
  then show ?case by (cases xs) auto
qed auto

lemma aligned_snoc:
  "aligned n xs ys \<Longrightarrow> aligned n (xs @ [x]) (ys @ [x])"
  "aligned n xs ys \<Longrightarrow> aligned (Suc n) (xs @ [x]) ys"
  "aligned n xs ys \<Longrightarrow> aligned (Suc n) xs (ys @ [y])"
  "aligned n xs ys \<Longrightarrow> aligned (Suc n) (xs @ [x]) (ys @ [y])"
  by (induction rule: aligned.induct; auto intro: aligned.intros)+

lemma aligned_rev: "aligned n xs ys \<Longrightarrow> aligned n (rev xs) (rev ys)"
  by (induction rule: aligned.induct) (auto intro: aligned.intros aligned_snoc)

lemma ed_rev: "ed (rev xs) (rev ys) = ed xs ys"
proof -
  have "ed xs ys \<le> ed (rev xs) (rev ys)" for xs ys :: "'a list"
    using aligned_minimal [OF aligned_rev [OF aligned_ed [of "rev xs" "rev ys"]]] by simp
  from this [of xs ys] this [of "rev xs" "rev ys"] show ?thesis by simp
qed

section \<open>Sequences of single edits\<close>

inductive edit1 :: "'a list \<Rightarrow> 'a list \<Rightarrow> bool" where
  insert: "edit1 (us @ vs) (us @ y # vs)"
| delete: "edit1 (us @ x # vs) (us @ vs)"
| substitute: "edit1 (us @ x # vs) (us @ y # vs)"

lemma edit1_cons: "edit1 xs ys \<Longrightarrow> edit1 (x # xs) (x # ys)"
proof (induction rule: edit1.induct)
  case (insert us vs y)
  show ?case using edit1.insert [of "x # us"] by simp
next
  case (delete us z vs)
  show ?case using edit1.delete [of "x # us"] by simp
next
  case (substitute us z vs y)
  show ?case using edit1.substitute [of "x # us"] by simp
qed

lemma edits_cons: "(edit1 ^^ n) xs ys \<Longrightarrow> (edit1 ^^ n) (x # xs) (x # ys)"
  by (induction n arbitrary: ys) (auto intro: edit1_cons)

lemma edits_first: "edit1 xs ys \<Longrightarrow> (edit1 ^^ n) ys zs \<Longrightarrow> (edit1 ^^ Suc n) xs zs"
  by (metis relpowp_Suc_I2)

lemma aligned_edits: "aligned n xs ys \<Longrightarrow> (edit1 ^^ n) xs ys"
proof (induction rule: aligned.induct)
  case (keep n xs ys x)
  then show ?case by (simp add: edits_cons)
next
  case (drop n xs ys x)
  have "edit1 (x # xs) xs" using edit1.delete [of "[]"] by simp
  then show ?case using drop.IH by (rule edits_first)
next
  case (add n xs ys y)
  have "edit1 xs (y # xs)" using edit1.insert [of "[]"] by simp
  then show ?case using edits_cons [OF add.IH] by (rule edits_first)
next
  case (replace n xs ys x y)
  have "edit1 (x # xs) (y # xs)" using edit1.substitute [of "[]"] by simp
  then show ?case using edits_cons [OF replace.IH] by (rule edits_first)
qed simp

lemma aligned_id: "aligned 0 xs xs"
  by (induction xs) (auto intro: aligned.intros)

lemma aligned_append: "aligned n xs ys \<Longrightarrow> aligned m us vs \<Longrightarrow> aligned (n + m) (xs @ us) (ys @ vs)"
  by (induction rule: aligned.induct) (auto intro: aligned.intros)

lemma aligned_split:
  "aligned n xs zs \<Longrightarrow> zs = us @ vs \<Longrightarrow> \<exists>n1 n2 xs1 xs2. xs = xs1 @ xs2 \<and> n = n1 + n2 \<and> aligned n1 xs1 us \<and> aligned n2 xs2 vs"
proof (induction arbitrary: us rule: aligned.induct)
  case empty
  then show ?case by (auto intro: aligned.intros)
next
  case (drop n xs ys x)
  then obtain n1 n2 xs1 xs2 where *: "xs = xs1 @ xs2" "n = n1 + n2" "aligned n1 xs1 us" "aligned n2 xs2 vs" by blast
  show ?case using * aligned.drop [OF *(3), of x]
    by (intro exI [of _ "Suc n1"] exI [of _ n2] exI [of _ "x # xs1"] exI [of _ xs2]) simp
next
  case (keep n xs ys x)
  show ?case
  proof (cases us)
    case Nil
    then show ?thesis using keep aligned.keep [OF keep.hyps, of x]
      by (intro exI [of _ 0] exI [of _ n] exI [of _ "[]"] exI [of _ "x # xs"]) (simp add: aligned.empty)
  next
    case (Cons u us')
    then obtain n1 n2 xs1 xs2 where *: "xs = xs1 @ xs2" "n = n1 + n2" "aligned n1 xs1 us'" "aligned n2 xs2 vs"
      using keep by auto
    show ?thesis using * Cons keep.prems aligned.keep [OF *(3), of x]
      by (intro exI [of _ n1] exI [of _ n2] exI [of _ "x # xs1"] exI [of _ xs2]) simp
  qed
next
  case (add n xs ys y)
  show ?case
  proof (cases us)
    case Nil
    then show ?thesis using add aligned.add [OF add.hyps, of y]
      by (intro exI [of _ 0] exI [of _ "Suc n"] exI [of _ "[]"] exI [of _ xs]) (simp add: aligned.empty)
  next
    case (Cons u us')
    then obtain n1 n2 xs1 xs2 where *: "xs = xs1 @ xs2" "n = n1 + n2" "aligned n1 xs1 us'" "aligned n2 xs2 vs"
      using add by auto
    show ?thesis using * Cons add.prems aligned.add [OF *(3), of y]
      by (intro exI [of _ "Suc n1"] exI [of _ n2] exI [of _ xs1] exI [of _ xs2]) simp
  qed
next
  case (replace n xs ys x y)
  show ?case
  proof (cases us)
    case Nil
    then show ?thesis using replace aligned.replace [OF replace.hyps, of x y]
      by (intro exI [of _ 0] exI [of _ "Suc n"] exI [of _ "[]"] exI [of _ "x # xs"]) (simp add: aligned.empty)
  next
    case (Cons u us')
    then obtain n1 n2 xs1 xs2 where *: "xs = xs1 @ xs2" "n = n1 + n2" "aligned n1 xs1 us'" "aligned n2 xs2 vs"
      using replace by auto
    show ?thesis using * Cons replace.prems aligned.replace [OF *(3), of x y]
      by (intro exI [of _ "Suc n1"] exI [of _ n2] exI [of _ "x # xs1"] exI [of _ xs2]) simp
  qed
qed

lemma aligned_uncons: "aligned n xs zs \<Longrightarrow> zs = z # vs \<Longrightarrow> \<exists>m \<le> Suc n. aligned m xs vs"
proof (induction rule: aligned.induct)
  case (drop n xs ys x)
  then obtain m where "m \<le> Suc n" "aligned m xs vs" by blast
  then show ?case using aligned.drop [of m xs vs x] by (intro exI [of _ "Suc m"]) simp
qed (auto intro: aligned.intros le_SucI)

lemma aligned_recons: "aligned n xs zs \<Longrightarrow> zs = z # vs \<Longrightarrow> \<exists>m \<le> Suc n. aligned m xs (y # vs)"
proof (induction rule: aligned.induct)
  case (drop n xs ys x)
  then obtain m where "m \<le> Suc n" "aligned m xs (y # vs)" by blast
  then show ?case using aligned.drop [of m xs "y # vs" x] by (intro exI [of _ "Suc m"]) simp
qed (auto intro: aligned.intros le_SucI)

text \<open>One more edit at the end costs at most one more.\<close>

lemma aligned_edit1: "edit1 ys zs \<Longrightarrow> aligned n xs ys \<Longrightarrow> \<exists>m \<le> Suc n. aligned m xs zs"
proof -
  have rest: "\<exists>m \<le> Suc n. aligned m xs (us @ ws)"
    if n: "aligned n xs (us @ vs)" and step: "\<And>k zs. aligned k zs vs \<Longrightarrow> \<exists>m \<le> Suc k. aligned m zs ws" for us vs ws
  proof -
    from aligned_split [OF n refl] obtain n1 n2 xs1 xs2
      where *: "xs = xs1 @ xs2" "n = n1 + n2" "aligned n1 xs1 us" "aligned n2 xs2 vs" by blast
    from step [OF *(4)] obtain m where "m \<le> Suc n2" "aligned m xs2 ws" by blast
    with aligned_append [OF *(3)] show ?thesis using * by (intro exI [of _ "n1 + m"]) simp
  qed
  assume "edit1 ys zs" "aligned n xs ys"
  then show ?thesis
  proof (induction rule: edit1.induct)
    case (insert us vs y)
    then show ?case by (rule rest) (blast intro: aligned.add)
  next
    case (delete us x vs)
    then show ?case by (rule rest) (blast intro: aligned_uncons)
  next
    case (substitute us x vs y)
    then show ?case by (rule rest) (blast intro: aligned_recons)
  qed
qed

lemma edits_aligned: "(edit1 ^^ n) xs ys \<Longrightarrow> \<exists>m \<le> n. aligned m xs ys"
proof (induction n arbitrary: ys)
  case 0
  then show ?case by (auto intro: aligned_id)
next
  case (Suc n)
  then obtain zs where z: "(edit1 ^^ n) xs zs" "edit1 zs ys" by auto
  then obtain m where "m \<le> n" "aligned m xs zs" using Suc.IH by blast
  from aligned_edit1 [OF z(2) this(2)] \<open>m \<le> n\<close> show ?case using le_trans by (metis Suc_le_mono)
qed

lemma ed_edits: "(edit1 ^^ ed xs ys) xs ys" "(edit1 ^^ n) xs ys \<Longrightarrow> ed xs ys \<le> n"
  using aligned_edits [OF aligned_ed] edits_aligned [of n xs ys] aligned_minimal by (blast, fastforce)

text \<open>
  C21. The distance computed by the two-row program is the least number of single-rune insertions, deletions and
  substitutions that turn the left string into the right one: that many edits are enough, and no shorter sequence of
  edits does it.
\<close>

theorem levenshtein_least_edits:
  "(edit1 ^^ nat (levenshteinDistance left right)) (runes left) (runes right) \<and>
   (\<forall>n. (edit1 ^^ n) (runes left) (runes right) \<longrightarrow> levenshteinDistance left right \<le> int n) \<and>
   0 \<le> levenshteinDistance left right"
  by (simp add: levenshteinDistance_def lev_runes_ed ed_rev ed_edits)

theorem levenshtein_least_edits_witness:
  "(edit1 ^^ 3) (runes ''kitten'') (runes ''sitting'') \<and> \<not> (edit1 ^^ 2) (runes ''kitten'') (runes ''sitting'')"
proof -
  have "levenshteinDistance ''kitten'' ''sitting'' = 3" by code_simp
  then show ?thesis using levenshtein_least_edits [of "''kitten''" "''sitting''"] by fastforce
qed

text \<open>
  A token matches a search term exactly when it is the lower-cased term, or when fuzzy matching is enabled, the
  term has enough runes, and at most \<^verbatim>\<open>maxDistance\<close> single-rune edits lead from the term to the token.
\<close>

theorem fuzzy_token_match_iff:
  assumes "length (runes (strings_ToLower u term)) < 2 ^ 32"
  shows "FuzzyTokenMatch u term token maxDistance minTermLength \<longleftrightarrow>
    token = strings_ToLower u term \<or>
    0 < maxDistance \<and> unat minTermLength \<le> length (runes (strings_ToLower u term)) \<and>
    (\<exists>n \<le> unat maxDistance. (edit1 ^^ n) (runes (strings_ToLower u term)) (runes token))"
proof -
  let ?t = "runes (strings_ToLower u term)"
  have len: "minTermLength \<le> word_of_nat (length ?t) \<longleftrightarrow> unat minTermLength \<le> length ?t"
    using unat_word_of_nat_less [of "length ?t", where 'a = 32] assms by (simp add: word_le_nat_alt)
  have "levenshteinDistance (strings_ToLower u term) token \<le> uint maxDistance \<longleftrightarrow> ed ?t (runes token) \<le> unat maxDistance"
    by (simp add: levenshteinDistance_def lev_runes_ed ed_rev) (metis nat_le_iff of_nat_le_iff uint_nat unat_eq_nat_uint)
  also have "\<dots> \<longleftrightarrow> (\<exists>n \<le> unat maxDistance. (edit1 ^^ n) ?t (runes token))"
    using ed_edits(1) [of ?t "runes token"] ed_edits(2) [where xs = ?t and ys = "runes token"] le_trans by blast
  finally show ?thesis using len by (auto simp: FuzzyTokenMatch_def Let_def)
qed

definition ascii_unicode :: unicode where
  "ascii_unicode = \<lparr>is_letter = (\<lambda>r. 65 \<le> r \<and> r \<le> 90 \<or> 97 \<le> r \<and> r \<le> 122), is_digit = (\<lambda>r. 48 \<le> r \<and> r \<le> 57),
     to_lower = (\<lambda>r. if 65 \<le> r \<and> r \<le> 90 then r + 32 else r)\<rparr>"

theorem fuzzy_token_match_iff_witness:
  "\<exists>n \<le> 1. (edit1 ^^ n) (runes ''graph'') (runes ''grape'')"
proof -
  have t: "strings_ToLower ascii_unicode ''Graph'' = ''graph''"
    by (simp add: strings_ToLower_def runes_def runes_string_def ascii_unicode_def char_of_def bit_0)
  have l: "length (runes ''graph'') = 5" by (simp add: runes_def)
  have "levenshteinDistance ''graph'' ''grape'' = 1"
    by (simp add: levenshteinDistance_def lev_runes_ed ed_rev runes_def)
  then have "FuzzyTokenMatch ascii_unicode ''Graph'' ''grape'' 1 3" by (simp add: FuzzyTokenMatch_def t l Let_def)
  then show ?thesis using fuzzy_token_match_iff [of ascii_unicode "''Graph''" "''grape''" 1 3] by (simp add: t l)
qed

end
