(* ===== verification/Polling.thy ===== *)
theory Polling
  imports Main
begin

text \<open>
  Cancellation. A \<^verbatim>\<open>context.Context\<close> is read only through \<^verbatim>\<open>ctx.Err()\<close>, and each call may find it cancelled. A context
  is therefore a predicate on the number of the call, and code that polls it passes the number of calls made so far along:
  \<open>polled\<close> is a computation that consumes calls and returns an error or a value. Where Go returns a value together with a
  non-nil error the model returns the error alone.
\<close>

type_synonym ctx = "nat \<Rightarrow> bool"

datatype search_error = Cancelled | ErrTokenizationLimit

type_synonym 'a polled = "nat \<Rightarrow> nat \<times> (search_error + 'a)"

definition ret :: "'a \<Rightarrow> 'a polled" where
  "ret a n = (n, Inr a)"

definition fail :: "search_error \<Rightarrow> 'a polled" where
  "fail e n = (n, Inl e)"

definition bindp :: "'a polled \<Rightarrow> ('a \<Rightarrow> 'b polled) \<Rightarrow> 'b polled" where
  "bindp m f n = (case m n of (n', Inl e) \<Rightarrow> (n', Inl e) | (n', Inr a) \<Rightarrow> f a n')"

definition poll :: "ctx \<Rightarrow> unit polled" where
  "poll ctx n = (Suc n, if ctx n then Inl Cancelled else Inr ())"

text \<open>\<^verbatim>\<open>if i&63 == 0 { if err := ctx.Err(); err != nil { return err } }\<close>\<close>

definition poll64 :: "ctx \<Rightarrow> nat \<Rightarrow> unit polled" where
  "poll64 ctx i = (if i mod 64 = 0 then poll ctx else ret ())"

text \<open>\<^verbatim>\<open>context.Background()\<close>\<close>

definition background :: ctx where
  "background n = False"

text \<open>
  \<open>settles ctx m a\<close>: whatever happens to the context, \<open>m\<close> returns \<open>a\<close> or reports the cancellation, and it returns \<open>a\<close> when the
  context is never cancelled.
\<close>

definition settles :: "ctx \<Rightarrow> 'a polled \<Rightarrow> 'a \<Rightarrow> bool" where
  "settles ctx m a \<longleftrightarrow> (\<forall>n. snd (m n) = Inr a \<or> snd (m n) = Inl Cancelled \<and> (\<exists>k. ctx k))"

named_theorems settle

lemma settles_ret [settle]: "settles ctx (ret a) a"
  by (simp add: settles_def ret_def)

lemma settles_poll [settle]: "settles ctx (poll ctx) ()"
  by (auto simp: settles_def poll_def)

lemma settles_poll64 [settle]: "settles ctx (poll64 ctx i) ()"
  by (simp add: poll64_def settles_ret settles_poll)

lemma settles_bind: "settles ctx m a \<Longrightarrow> settles ctx (f a) b \<Longrightarrow> settles ctx (bindp m f) b"
  unfolding settles_def bindp_def
proof (intro allI)
  fix n
  assume m: "\<forall>n. snd (m n) = Inr a \<or> snd (m n) = Inl Cancelled \<and> (\<exists>k. ctx k)"
    and f: "\<forall>n. snd (f a n) = Inr b \<or> snd (f a n) = Inl Cancelled \<and> (\<exists>k. ctx k)"
  obtain n' r where "m n = (n', r)" by (metis surj_pair)
  then show "snd (case m n of (n', Inl e) \<Rightarrow> (n', Inl e) | (n', Inr a) \<Rightarrow> f a n') = Inr b \<or>
    snd (case m n of (n', Inl e) \<Rightarrow> (n', Inl e) | (n', Inr a) \<Rightarrow> f a n') = Inl Cancelled \<and> (\<exists>k. ctx k)"
    using m [rule_format, of n] f [rule_format, of n'] by (cases r) auto
qed

end
