(* ===== verification/Porter.thy ===== *)
theory Porter
  imports Polling
begin

text \<open>
  The English Porter stemmer (\<^verbatim>\<open>internal/search/porter.go\<close>). Words are byte strings; the flags of a word say which of its
  letters are consonants. \<^verbatim>\<open>append(stem, s...)\<close> on a prefix of the word's own buffer is \<open>stem @ s\<close>: the word is owned by
  the function and no other slice of it is read again.
\<close>

section \<open>The code\<close>

fun ascii_loop :: "ctx \<Rightarrow> nat \<Rightarrow> string \<Rightarrow> bool polled" where
  "ascii_loop ctx i [] = bindp (poll ctx) (\<lambda>_. ret True)"
| "ascii_loop ctx i (c # cs) = bindp (poll64 ctx i) (\<lambda>_.
     if (of_char c :: nat) < of_char CHR ''a'' \<or> (of_char c :: nat) > of_char CHR ''z'' then ret False else ascii_loop ctx (i + 1) cs)"

definition porterASCIIWordContext :: "ctx \<Rightarrow> string \<Rightarrow> bool polled" where
  "porterASCIIWordContext ctx word = ascii_loop ctx 0 word"

definition porter_flag :: "bool list \<Rightarrow> char \<Rightarrow> bool" where
  "porter_flag flags letter =
     (if letter \<in> set ''aeiou'' then False
      else if letter = CHR ''y'' then flags = [] \<or> \<not> last flags
      else True)"

fun flags_loop :: "ctx \<Rightarrow> bool list \<Rightarrow> string \<Rightarrow> bool list polled" where
  "flags_loop ctx flags [] = bindp (poll ctx) (\<lambda>_. ret flags)"
| "flags_loop ctx flags (letter # w) = bindp (poll64 ctx (length flags)) (\<lambda>_. flags_loop ctx (flags @ [porter_flag flags letter]) w)"

definition porterFlags :: "ctx \<Rightarrow> string \<Rightarrow> bool list polled" where
  "porterFlags ctx word = flags_loop ctx [] word"

fun measure_loop :: "nat \<Rightarrow> bool \<Rightarrow> bool list \<Rightarrow> nat" where
  "measure_loop m vowel [] = m"
| "measure_loop m vowel (consonant # flags) =
     (if consonant then (if vowel then measure_loop (m + 1) False flags else measure_loop m vowel flags)
      else measure_loop m True flags)"

definition porterMeasure :: "bool list \<Rightarrow> nat" where
  "porterMeasure flags = measure_loop 0 False flags"

definition porterHasVowel :: "bool list \<Rightarrow> bool" where
  "porterHasVowel flags = list_ex Not flags"

definition porterCVC :: "string \<Rightarrow> bool list \<Rightarrow> bool" where
  "porterCVC word flags =
     (if length word < 3 then False
      else let i = length word - 1 in
        flags ! i \<and> \<not> flags ! (i - 1) \<and> flags ! (i - 2) \<and> word ! i \<noteq> CHR ''w'' \<and> word ! i \<noteq> CHR ''x'' \<and> word ! i \<noteq> CHR ''y'')"

definition porterSuffix :: "string \<Rightarrow> string \<Rightarrow> string \<times> bool" where
  "porterSuffix word suffix =
     (if length word < length suffix \<or> drop (length word - length suffix) word \<noteq> suffix then (word, False)
      else (take (length word - length suffix) word, True))"

definition hasSuffix :: "string \<Rightarrow> string \<Rightarrow> bool" where
  "hasSuffix word suffix = snd (porterSuffix word suffix)"

fun step1a_loop :: "string \<Rightarrow> (string \<times> string) list \<Rightarrow> string" where
  "step1a_loop word [] = word"
| "step1a_loop word ((suffix, replacement) # rules) =
     (case porterSuffix word suffix of (stem, ok) \<Rightarrow> if ok then stem @ replacement else step1a_loop word rules)"

definition porterStep1aRules :: "(string \<times> string) list" where
  "porterStep1aRules = [(''sses'', ''ss''), (''ies'', ''i''), (''ss'', ''ss''), (''s'', '''')]"

definition porterStep1a :: "string \<Rightarrow> string" where
  "porterStep1a word = step1a_loop word porterStep1aRules"

text \<open>The switch of step 1b on a word that lost its \<^verbatim>\<open>ed\<close> or \<^verbatim>\<open>ing\<close>; \<open>flags\<close> are those of the longer word.\<close>

definition step1b_fix :: "string \<Rightarrow> bool list \<Rightarrow> string" where
  "step1b_fix word flags =
     (if hasSuffix word ''at'' \<or> hasSuffix word ''bl'' \<or> hasSuffix word ''iz'' then word @ ''e''
      else if length word \<ge> 2 \<and> word ! (length word - 1) = word ! (length word - 2) \<and> flags ! (length word - 1) \<and>
        word ! (length word - 1) \<noteq> CHR ''l'' \<and> word ! (length word - 1) \<noteq> CHR ''s'' \<and> word ! (length word - 1) \<noteq> CHR ''z''
      then take (length word - 1) word
      else if porterMeasure (take (length word) flags) = 1 \<and> porterCVC word (take (length word) flags) then word @ ''e''
      else word)"

fun step1b_loop :: "string \<Rightarrow> bool list \<Rightarrow> string list \<Rightarrow> string" where
  "step1b_loop word flags [] = word"
| "step1b_loop word flags (suffix # ss) =
     (case porterSuffix word suffix of (stem, ok) \<Rightarrow>
        if ok \<and> porterHasVowel (take (length stem) flags) then step1b_fix stem flags else step1b_loop word flags ss)"

definition porterStep1b :: "string \<Rightarrow> bool list \<Rightarrow> string" where
  "porterStep1b word flags =
     (case porterSuffix word ''eed'' of (stem, ok) \<Rightarrow>
        if ok then (if porterMeasure (take (length stem) flags) > 0 then stem @ ''ee'' else word)
        else step1b_loop word flags [''ed'', ''ing''])"

definition porterStep1c :: "string \<Rightarrow> bool list \<Rightarrow> string" where
  "porterStep1c word flags =
     (if length word > 1 \<and> word ! (length word - 1) = CHR ''y'' \<and> porterHasVowel (take (length word - 1) flags)
      then word[length word - 1 := CHR ''i''] else word)"

definition porterStep2 :: "(string \<times> string) list" where
  "porterStep2 =
     [(''ational'', ''ate''), (''tional'', ''tion''), (''enci'', ''ence''), (''anci'', ''ance''), (''izer'', ''ize''),
      (''abli'', ''able''), (''alli'', ''al''), (''entli'', ''ent''), (''eli'', ''e''), (''ousli'', ''ous''),
      (''ization'', ''ize''), (''ation'', ''ate''), (''ator'', ''ate''), (''alism'', ''al''), (''iveness'', ''ive''),
      (''fulness'', ''ful''), (''ousness'', ''ous''), (''aliti'', ''al''), (''iviti'', ''ive''), (''biliti'', ''ble'')]"

definition porterStep3 :: "(string \<times> string) list" where
  "porterStep3 =
     [(''icate'', ''ic''), (''ative'', ''''), (''alize'', ''al''), (''iciti'', ''ic''), (''ical'', ''ic''), (''ful'', ''''), (''ness'', '''')]"

definition porterStep4 :: "string list" where
  "porterStep4 =
     [''al'', ''ance'', ''ence'', ''er'', ''ic'', ''able'', ''ible'', ''ant'', ''ement'', ''ment'', ''ent'', ''ion'', ''ou'',
      ''ism'', ''ate'', ''iti'', ''ous'', ''ive'', ''ize'']"

fun porterReplace :: "string \<Rightarrow> bool list \<Rightarrow> (string \<times> string) list \<Rightarrow> string" where
  "porterReplace word flags [] = word"
| "porterReplace word flags ((suffix, replacement) # rules) =
     (case porterSuffix word suffix of (stem, ok) \<Rightarrow>
        if ok then (if porterMeasure (take (length stem) flags) > 0 then stem @ replacement else word)
        else porterReplace word flags rules)"

fun step4_loop :: "string \<Rightarrow> bool list \<Rightarrow> string list \<Rightarrow> string" where
  "step4_loop word flags [] = word"
| "step4_loop word flags (suffix # ss) =
     (case porterSuffix word suffix of (stem, ok) \<Rightarrow>
        if ok then
          (if suffix = ''ion'' \<and> (length stem = 0 \<or> (last stem \<noteq> CHR ''s'' \<and> last stem \<noteq> CHR ''t'')) then word
           else if porterMeasure (take (length stem) flags) > 1 then stem else word)
        else step4_loop word flags ss)"

definition porterStep4Apply :: "string \<Rightarrow> bool list \<Rightarrow> string" where
  "porterStep4Apply word flags = step4_loop word flags porterStep4"

definition porterStep5 :: "string \<Rightarrow> bool list \<Rightarrow> string" where
  "porterStep5 word flags =
     (let word1 = (case porterSuffix word ''e'' of (stem, ok) \<Rightarrow>
            if ok then
              (let m = porterMeasure (take (length stem) flags) in
               if m > 1 \<or> m = 1 \<and> \<not> porterCVC stem (take (length stem) flags) then stem else word)
            else word)
      in if length word1 \<ge> 2 \<and> hasSuffix word1 ''ll'' \<and> porterMeasure (take (length word1) flags) > 1
         then take (length word1 - 1) word1 else word1)"

definition StemEnglishPorterContext :: "ctx \<Rightarrow> string \<Rightarrow> string polled" where
  "StemEnglishPorterContext ctx token =
     bindp (porterASCIIWordContext ctx token) (\<lambda>ascii.
     if length token < 3 \<or> \<not> ascii then bindp (poll ctx) (\<lambda>_. ret token)
     else
       let w = porterStep1a token in
       bindp (porterFlags ctx w) (\<lambda>flags. let w = porterStep1b w flags in
       bindp (porterFlags ctx w) (\<lambda>flags. let w = porterStep1c w flags in
       bindp (porterFlags ctx w) (\<lambda>flags. let w = porterReplace w flags porterStep2 in
       bindp (porterFlags ctx w) (\<lambda>flags. let w = porterReplace w flags porterStep3 in
       bindp (porterFlags ctx w) (\<lambda>flags. let w = porterStep4Apply w flags in
       bindp (porterFlags ctx w) (\<lambda>flags. let w = porterStep5 w flags in
       bindp (poll ctx) (\<lambda>_. ret w))))))))"

definition StemEnglishPorter :: "string \<Rightarrow> string" where
  "StemEnglishPorter token = (case snd (StemEnglishPorterContext background token 0) of Inr stemmed \<Rightarrow> stemmed | Inl _ \<Rightarrow> '''')"

section \<open>The stem as a function of the word\<close>

definition lower_letter :: "char \<Rightarrow> bool" where
  "lower_letter c \<longleftrightarrow> (of_char CHR ''a'' :: nat) \<le> of_char c \<and> (of_char c :: nat) \<le> of_char CHR ''z''"

definition flags_of :: "string \<Rightarrow> bool list" where
  "flags_of w = foldl (\<lambda>flags c. flags @ [porter_flag flags c]) [] w"

definition porter_stem :: "string \<Rightarrow> string" where
  "porter_stem token =
     (if length token < 3 \<or> \<not> list_all lower_letter token then token
      else
        let w = porterStep1a token;
            w = porterStep1b w (flags_of w);
            w = porterStep1c w (flags_of w);
            w = porterReplace w (flags_of w) porterStep2;
            w = porterReplace w (flags_of w) porterStep3;
            w = porterStep4Apply w (flags_of w)
        in porterStep5 w (flags_of w))"

lemma settles_ascii [settle]: "settles ctx (ascii_loop ctx i w) (list_all lower_letter w)"
proof (induction w arbitrary: i)
  case Nil
  show ?case by (auto intro!: settles_bind settle)
next
  case (Cons c w)
  have "settles ctx (if (of_char c :: nat) < of_char CHR ''a'' \<or> (of_char c :: nat) > of_char CHR ''z'' then ret False else ascii_loop ctx (i + 1) w)
      (list_all lower_letter (c # w))"
  proof (cases "lower_letter c")
    case True
    then have "\<not> ((of_char c :: nat) < of_char CHR ''a'' \<or> (of_char c :: nat) > of_char CHR ''z'')" by (simp add: lower_letter_def not_less)
    then show ?thesis using True Cons.IH [of "i + 1"] by simp
  next
    case False
    then have "(of_char c :: nat) < of_char CHR ''a'' \<or> (of_char c :: nat) > of_char CHR ''z''" by (auto simp: lower_letter_def)
    then show ?thesis using False settles_ret [of ctx False] by (simp del: of_char_Char)
  qed
  then show ?case unfolding ascii_loop.simps by (intro settles_bind [OF settles_poll64])
qed

lemma settles_flags [settle]: "settles ctx (porterFlags ctx w) (flags_of w)"
proof -
  have "settles ctx (flags_loop ctx flags w) (foldl (\<lambda>flags c. flags @ [porter_flag flags c]) flags w)" for flags
    by (induction w arbitrary: flags) (auto intro!: settles_bind settle)
  then show ?thesis by (simp add: porterFlags_def flags_of_def)
qed

lemma settles_if: "(P \<Longrightarrow> settles ctx m a) \<Longrightarrow> (\<not> P \<Longrightarrow> settles ctx m' a') \<Longrightarrow> settles ctx (if P then m else m') (if P then a else a')"
  by simp

lemma settles_stem: "settles ctx (StemEnglishPorterContext ctx token) (porter_stem token)"
  unfolding StemEnglishPorterContext_def porterASCIIWordContext_def porter_stem_def Let_def
  by (rule settles_bind [OF settles_ascii], rule settles_if)
    (intro settles_bind [OF settles_flags] settles_bind [OF settles_poll] settles_ret)+

lemma StemEnglishPorter_stem: "StemEnglishPorter token = porter_stem token"
  using settles_stem [of background token]
  by (auto simp: StemEnglishPorter_def settles_def background_def split: sum.splits dest: spec [of _ 0])

section \<open>The measure\<close>

text \<open>\<open>[C](VC)\<^sup>m[V]\<close>: optional consonants, \<open>m\<close> blocks of vowels followed by consonants, optional vowels.\<close>

definition vc_block :: "nat \<times> nat \<Rightarrow> bool list" where
  "vc_block b = replicate (Suc (fst b)) False @ replicate (Suc (snd b)) True"

definition vc_blocks :: "nat \<Rightarrow> bool list \<Rightarrow> bool" where
  "vc_blocks m flags \<longleftrightarrow>
     (\<exists>c bs v. flags = replicate c True @ concat (map vc_block bs) @ replicate v False \<and> length bs = m)"

lemma measure_consonants: "measure_loop m False (replicate c True @ fs) = measure_loop m False fs"
  by (induction c) simp_all

lemma measure_vowels: "measure_loop m True (replicate c False @ fs) = measure_loop m True fs"
  by (induction c) simp_all

lemma measure_block: "measure_loop m False (vc_block b @ fs) = measure_loop (Suc m) False fs"
  by (simp add: vc_block_def measure_vowels measure_consonants)

lemma measure_tail: "measure_loop m x (replicate v False) = m"
  by (induction v arbitrary: x) simp_all

lemma measure_blocks: "measure_loop m False (concat (map vc_block bs) @ replicate v False) = m + length bs"
  by (induction bs arbitrary: m) (simp_all add: measure_block measure_tail)

lemma blocks_measure: "vc_blocks m flags \<Longrightarrow> porterMeasure flags = m"
  by (auto simp: vc_blocks_def porterMeasure_def measure_consonants measure_blocks)

lemma vc_blocksI: "flags = replicate c True @ concat (map vc_block bs) @ replicate v False \<Longrightarrow> \<exists>m. vc_blocks m flags"
  unfolding vc_blocks_def by blast

lemma blocks_exist: "\<exists>m. vc_blocks m flags"
proof (induction flags rule: rev_induct)
  case Nil
  show ?case by (rule vc_blocksI [of _ 0 "[]" 0]) simp
next
  case (snoc x flags)
  then obtain c bs v where f: "flags = replicate c True @ concat (map vc_block bs) @ replicate v False"
    by (auto simp: vc_blocks_def)
  consider "\<not> x" | v' where "x" "v = Suc v'" | "x" "v = 0" "bs = []" | bs' b where "x" "v = 0" "bs = bs' @ [b]"
    by (metis not0_implies_Suc rev_exhaust)
  then show ?case
  proof cases
    case 1
    then show ?thesis by (intro vc_blocksI [of _ c bs "Suc v"]) (simp add: f replicate_append_same)
  next
    case 2
    then show ?thesis by (intro vc_blocksI [of _ c "bs @ [(v', 0)]" 0]) (simp add: f vc_block_def)
  next
    case 3
    then show ?thesis by (intro vc_blocksI [of _ "Suc c" "[]" 0]) (simp add: f replicate_append_same)
  next
    case 4
    then show ?thesis by (intro vc_blocksI [of _ c "bs' @ [(fst b, Suc (snd b))]" 0]) (simp add: f vc_block_def replicate_append_same)
  qed
qed

text \<open>
  The measure that decides every rule of the stemmer is Porter's: it is \<open>m\<close> exactly when the word, as consonants
  \<open>C\<close> and vowels \<open>V\<close>, has the form \<open>[C](VC)\<^sup>m[V]\<close>.
\<close>

theorem porter_measure_blocks: "porterMeasure flags = m \<longleftrightarrow> vc_blocks m flags"
  using blocks_measure blocks_exist by metis

section \<open>Bounds\<close>

text \<open>A step that neither lengthens nor empties a word and keeps it in lower case.\<close>

definition shrinks :: "string \<Rightarrow> string \<Rightarrow> bool" where
  "shrinks w w' \<longleftrightarrow> length w' \<le> length w \<and> (w \<noteq> [] \<longrightarrow> w' \<noteq> []) \<and> (list_all lower_letter w \<longrightarrow> list_all lower_letter w')"

lemma shrinks_refl [simp]: "shrinks w w"
  by (simp add: shrinks_def)

lemma shrinks_trans: "shrinks a b \<Longrightarrow> shrinks b c \<Longrightarrow> shrinks a c"
  by (auto simp: shrinks_def)

lemma suffix_split: "porterSuffix w s = (stem, True) \<longleftrightarrow> w = stem @ s"
  by (auto simp: porterSuffix_def) (metis append_take_drop_id)

lemma measure_nil [simp]: "porterMeasure [] = 0" "\<not> porterHasVowel []"
  by (simp_all add: porterMeasure_def porterHasVowel_def)

lemma suffix_replaced:
  assumes "porterSuffix w s = (stem, True)" "length r \<le> length s" "list_all lower_letter r" "stem \<noteq> [] \<or> r \<noteq> []"
  shows "shrinks w (stem @ r)"
proof -
  have "w = stem @ s" using assms(1) by (simp add: suffix_split)
  then show ?thesis using assms(2,3,4) by (auto simp: shrinks_def)
qed

lemma suffix_dropped: "porterSuffix w s = (stem, True) \<Longrightarrow> stem \<noteq> [] \<Longrightarrow> shrinks w stem"
  using suffix_replaced [of w s stem "[]"] by simp

lemma prefix_shrinks: "n \<noteq> 0 \<Longrightarrow> shrinks w (take n w)"
  by (auto simp: shrinks_def list_all_iff dest: in_set_takeD)

definition rules_ok :: "(string \<times> string) list \<Rightarrow> bool" where
  "rules_ok rules \<longleftrightarrow> list_all (\<lambda>(s, r). length r \<le> length s \<and> list_all lower_letter r) rules"

lemma rules_ok_steps: "rules_ok porterStep1aRules" "rules_ok porterStep2" "rules_ok porterStep3"
  by (simp_all add: rules_ok_def porterStep1aRules_def porterStep2_def porterStep3_def lower_letter_def)

lemma replace_shrinks: "rules_ok rules \<Longrightarrow> shrinks w (porterReplace w flags rules)"
proof (induction w flags rules rule: porterReplace.induct)
  case (2 w flags s r rules)
  obtain stem ok where p: "porterSuffix w s = (stem, ok)" by (metis surj_pair)
  have "shrinks w (stem @ r)" if ok "porterMeasure (take (length stem) flags) > 0"
    using p that 2(2) by (intro suffix_replaced [of w s]) (auto simp: rules_ok_def)
  then show ?case using 2(1) [OF p [symmetric]] 2(2) p by (cases ok) (simp_all add: rules_ok_def)
qed simp

lemma step1a_shrinks:
  assumes "3 \<le> length w"
  shows "shrinks w (porterStep1a w)"
proof -
  have "shrinks w (step1a_loop w rules)" if "rules_ok rules" "list_all (\<lambda>(s, r). r \<noteq> [] \<or> length s < 3) rules" for rules
    using that assms
  proof (induction w rules rule: step1a_loop.induct)
    case (2 w s r rules)
    obtain stem ok where p: "porterSuffix w s = (stem, ok)" by (metis surj_pair)
    have "stem \<noteq> [] \<or> r \<noteq> []" if ok using p that 2(3,4) by (auto simp: suffix_split)
    then have "shrinks w (stem @ r)" if ok using p that 2(2) by (intro suffix_replaced [of w s]) (auto simp: rules_ok_def)
    then show ?case using 2(1) [OF p [symmetric]] 2(2,3,4) p by (cases ok) (simp_all add: rules_ok_def)
  qed simp
  from this [OF rules_ok_steps(1)] show ?thesis by (simp add: porterStep1a_def porterStep1aRules_def)
qed

lemma step1b_fix_shrinks:
  assumes "porterSuffix w s = (stem, True)" "stem \<noteq> []" "1 \<le> length s"
  shows "shrinks w (step1b_fix stem flags)"
proof -
  have e: "shrinks w (stem @ ''e'')" using assms by (intro suffix_replaced) (simp_all add: lower_letter_def)
  have k: "shrinks w stem" by (rule suffix_dropped [OF assms(1,2)])
  have "shrinks stem (take (length stem - 1) stem)" if "2 \<le> length stem" using that by (intro prefix_shrinks) simp
  then show ?thesis using e k shrinks_trans [OF k] by (auto simp: step1b_fix_def)
qed

lemma step1b_shrinks: "shrinks w (porterStep1b w flags)"
proof -
  have "shrinks w (step1b_loop w flags ss)" if "list_all (\<lambda>s. 1 \<le> length s) ss" for ss
    using that
  proof (induction w flags ss rule: step1b_loop.induct)
    case (2 w flags s ss)
    obtain stem ok where p: "porterSuffix w s = (stem, ok)" by (metis surj_pair)
    have "shrinks w (step1b_fix stem flags)" if ok "porterHasVowel (take (length stem) flags)"
      using p that 2(2) by (intro step1b_fix_shrinks [of w s]) auto
    then show ?case using 2(1) [OF p [symmetric]] 2(2) p by auto
  qed simp
  then have l: "shrinks w (step1b_loop w flags [''ed'', ''ing''])" by (simp del: step1b_loop.simps)
  obtain stem ok where p: "porterSuffix w ''eed'' = (stem, ok)" by (metis surj_pair)
  have "shrinks w (stem @ ''ee'')" if ok using that p suffix_replaced [of w "''eed''" stem "''ee''"] by (simp add: lower_letter_def)
  then show ?thesis using l p by (auto simp: porterStep1b_def)
qed

lemma step1c_shrinks: "shrinks w (porterStep1c w flags)"
  by (auto simp: porterStep1c_def shrinks_def list_all_length nth_list_update lower_letter_def)

lemma step4_shrinks: "shrinks w (porterStep4Apply w flags)"
proof -
  have "shrinks w (step4_loop w flags ss)" for ss
  proof (induction w flags ss rule: step4_loop.induct)
    case (2 w flags s ss)
    obtain stem ok where p: "porterSuffix w s = (stem, ok)" by (metis surj_pair)
    have "shrinks w stem" if ok "1 < porterMeasure (take (length stem) flags)"
      using p that by (intro suffix_dropped [of w s]) auto
    then show ?case using 2 [OF p [symmetric]] p by auto
  qed simp
  then show ?thesis by (simp add: porterStep4Apply_def)
qed

lemma step5_shrinks: "shrinks w (porterStep5 w flags)"
proof -
  define w1 where "w1 = (case porterSuffix w ''e'' of (stem, ok) \<Rightarrow>
    if ok then (if porterMeasure (take (length stem) flags) > 1 \<or> porterMeasure (take (length stem) flags) = 1 \<and> \<not> porterCVC stem (take (length stem) flags)
      then stem else w) else w)"
  obtain stem ok where p: "porterSuffix w ''e'' = (stem, ok)" by (metis surj_pair)
  have "shrinks w stem" if ok "porterMeasure (take (length stem) flags) \<noteq> 0"
    using p that by (intro suffix_dropped [of w "''e''"]) auto
  then have "shrinks w w1" using p by (auto simp: w1_def)
  moreover have "shrinks w1 (take (length w1 - 1) w1)" if "2 \<le> length w1" using that by (intro prefix_shrinks) simp
  ultimately show ?thesis unfolding porterStep5_def Let_def w1_def [symmetric] by (auto intro: shrinks_trans)
qed

lemma porter_stem_shrinks: "shrinks token (porter_stem token)"
proof (cases "length token < 3 \<or> \<not> list_all lower_letter token")
  case False
  then have a: "shrinks token (porterStep1a token)" by (intro step1a_shrinks) simp
  define w1 where "w1 = porterStep1b (porterStep1a token) (flags_of (porterStep1a token))"
  define w2 where "w2 = porterStep1c w1 (flags_of w1)"
  define w3 where "w3 = porterReplace w2 (flags_of w2) porterStep2"
  define w4 where "w4 = porterReplace w3 (flags_of w3) porterStep3"
  define w5 where "w5 = porterStep4Apply w4 (flags_of w4)"
  have "porter_stem token = porterStep5 w5 (flags_of w5)"
    using False unfolding porter_stem_def Let_def w5_def w4_def w3_def w2_def w1_def by simp
  moreover have "shrinks token w1" unfolding w1_def by (rule shrinks_trans [OF a step1b_shrinks])
  then have "shrinks token w2" unfolding w2_def by (rule shrinks_trans [OF _ step1c_shrinks])
  then have "shrinks token w3" unfolding w3_def by (rule shrinks_trans [OF _ replace_shrinks [OF rules_ok_steps(2)]])
  then have "shrinks token w4" unfolding w4_def by (rule shrinks_trans [OF _ replace_shrinks [OF rules_ok_steps(3)]])
  then have "shrinks token w5" unfolding w5_def by (rule shrinks_trans [OF _ step4_shrinks])
  then have "shrinks token (porterStep5 w5 (flags_of w5))" by (rule shrinks_trans [OF _ step5_shrinks])
  ultimately show ?thesis by simp
qed (simp add: porter_stem_def)

text \<open>
  C30. Stemming never lengthens a token, never empties one, keeps lower-case words in lower case and leaves every token that
  is shorter than three bytes or not a lower-case ASCII word unchanged; and a cancelled context gives the cancellation or
  the same stem, never another word.
\<close>

theorem porter_stem_bounds:
  "length (StemEnglishPorter token) \<le> length token \<and>
   (StemEnglishPorter token = [] \<longleftrightarrow> token = []) \<and>
   list_all lower_letter (StemEnglishPorter token) = list_all lower_letter token \<and>
   StemEnglishPorter token = (if 3 \<le> length token \<and> list_all lower_letter token then StemEnglishPorter token else token) \<and>
   snd (StemEnglishPorterContext ctx token n) \<in> {Inr (StemEnglishPorter token), Inl Cancelled} \<and>
   snd (StemEnglishPorterContext background token n) = Inr (StemEnglishPorter token)"
proof -
  have s: "shrinks token (porter_stem token)" by (rule porter_stem_shrinks)
  have same: "porter_stem token = token" if "length token < 3 \<or> \<not> list_all lower_letter token" using that by (simp add: porter_stem_def)
  have "snd (StemEnglishPorterContext ctx token n) \<in> {Inr (porter_stem token), Inl Cancelled}"
    "snd (StemEnglishPorterContext background token n) = Inr (porter_stem token)"
    using settles_stem [of ctx token] settles_stem [of background token] by (auto simp: settles_def background_def)
  then show ?thesis unfolding StemEnglishPorter_stem using s same by (auto simp: shrinks_def)
qed

end
