(* ===== verification/Tokens.thy ===== *)
theory Tokens
  imports Levenshtein Porter "HOL-Library.Log_Nat"
begin

text \<open>
  Tokenization and scoring for full-text search (\<^verbatim>\<open>internal/search/search.go\<close>). \<^verbatim>\<open>Tokenize\<close> lower-cases a text and cuts it
  into runs of letters and digits; \<^verbatim>\<open>TokenizeContext\<close> does the same in one cancellable pass; the limited variants first
  count, in saturating 64-bit arithmetic, the logical bytes the tokens will take. The Unicode tables are the parameter
  \<open>u\<close>. A nil context is \<open>None\<close>. A score is a \<^verbatim>\<open>float32\<close> with a non-negative integer value; \<open>float32_of\<close> rounds a natural number
  to 24 significant bits, ties to even.
\<close>

section \<open>Saturating arithmetic\<close>

definition searchAddSaturated :: "u64 \<Rightarrow> u64 \<Rightarrow> u64" where
  "searchAddSaturated left right = (if right > NOT 0 - left then NOT 0 else left + right)"

definition searchMultiplySaturated :: "u64 \<Rightarrow> u64 \<Rightarrow> u64" where
  "searchMultiplySaturated left right = (if left \<noteq> 0 \<and> right > NOT 0 div left then NOT 0 else left * right)"

section \<open>Tokenization\<close>

definition ctx_or_background :: "ctx option \<Rightarrow> ctx" where
  "ctx_or_background c = (case c of None \<Rightarrow> background | Some ctx \<Rightarrow> ctx)"

definition Tokenize :: "unicode \<Rightarrow> string \<Rightarrow> string list" where
  "Tokenize u txt =
     filter (\<lambda>part. part \<noteq> '''') (strings_FieldsFunc (\<lambda>r. \<not> is_letter u r \<and> \<not> is_digit u r) (strings_ToLower u txt))"

fun tokenize_loop :: "unicode \<Rightarrow> ctx \<Rightarrow> nat \<Rightarrow> string \<Rightarrow> string list \<Rightarrow> rune list \<Rightarrow> string list polled" where
  "tokenize_loop u ctx runeCount token tokens [] =
     bindp (poll ctx) (\<lambda>_. ret (if token \<noteq> [] then tokens @ [token] else tokens))"
| "tokenize_loop u ctx runeCount token tokens (r # rs) =
     bindp (poll64 ctx runeCount) (\<lambda>_.
       if is_letter u r \<or> is_digit u r then tokenize_loop u ctx (runeCount + 1) (token @ rune_string (to_lower u r)) tokens rs
       else if token \<noteq> [] then tokenize_loop u ctx (runeCount + 1) [] (tokens @ [token]) rs
       else tokenize_loop u ctx (runeCount + 1) token tokens rs)"

definition TokenizeContext :: "unicode \<Rightarrow> ctx option \<Rightarrow> string \<Rightarrow> string list polled" where
  "TokenizeContext u ctx txt = tokenize_loop u (ctx_or_background ctx) 0 [] [] (runes txt)"

fun logical_loop :: "unicode \<Rightarrow> ctx \<Rightarrow> nat \<Rightarrow> bool \<Rightarrow> u64 \<Rightarrow> u64 \<Rightarrow> rune list \<Rightarrow> (u64 \<times> u64) polled" where
  "logical_loop u ctx runeCount inToken tokens lowercaseBytes [] = ret (tokens, lowercaseBytes)"
| "logical_loop u ctx runeCount inToken tokens lowercaseBytes (r # rs) =
     bindp (poll64 ctx runeCount) (\<lambda>_.
       if is_letter u r \<or> is_digit u r
       then logical_loop u ctx (runeCount + 1) True (if inToken then tokens else tokens + 1)
              (searchAddSaturated lowercaseBytes (word_of_int (rune_len (to_lower u r)))) rs
       else logical_loop u ctx (runeCount + 1) False tokens lowercaseBytes rs)"

definition tokenizationLogicalBytes :: "unicode \<Rightarrow> ctx option \<Rightarrow> string \<Rightarrow> u64 polled" where
  "tokenizationLogicalBytes u ctx0 txt =
     (let ctx = ctx_or_background ctx0 in
      bindp (logical_loop u ctx 0 False 0 0 (runes txt)) (\<lambda>(tokens, lowercaseBytes).
      bindp (poll ctx) (\<lambda>_.
      if tokens = 0 then ret 0
      else ret (searchAddSaturated (searchAddSaturated 256 (searchMultiplySaturated tokens 64)) (searchMultiplySaturated lowercaseBytes 4)))))"

definition TokenizeContextWithLimit :: "unicode \<Rightarrow> ctx option \<Rightarrow> string \<Rightarrow> u64 \<Rightarrow> string list polled" where
  "TokenizeContextWithLimit u ctx txt maxLogicalBytes =
     bindp (tokenizationLogicalBytes u ctx txt) (\<lambda>logicalBytes.
     if logicalBytes > maxLogicalBytes then fail ErrTokenizationLimit else TokenizeContext u ctx txt)"

definition saturatingTokenStemBytes :: "string \<Rightarrow> u64" where
  "saturatingTokenStemBytes token = searchMultiplySaturated (word_of_nat (length token)) 3"

fun analyze_loop :: "ctx \<Rightarrow> u64 \<Rightarrow> u64 \<Rightarrow> nat \<Rightarrow> u64 \<Rightarrow> string list \<Rightarrow> string list polled" where
  "analyze_loop ctx baseBytes maxLogicalBytes i scratchBytes [] = ret []"
| "analyze_loop ctx baseBytes maxLogicalBytes i scratchBytes (token # tokens) =
     bindp (poll64 ctx i) (\<lambda>_.
       let scratch = max scratchBytes (saturatingTokenStemBytes token) in
       if baseBytes > maxLogicalBytes \<or> scratch > maxLogicalBytes - baseBytes then fail ErrTokenizationLimit
       else bindp (StemEnglishPorterContext ctx token) (\<lambda>stem.
            bindp (analyze_loop ctx baseBytes maxLogicalBytes (i + 1) scratch tokens) (\<lambda>stems. ret (stem # stems))))"

definition AnalyzeEnglishPorterContextWithLimit :: "unicode \<Rightarrow> ctx option \<Rightarrow> string \<Rightarrow> u64 \<Rightarrow> string list polled" where
  "AnalyzeEnglishPorterContextWithLimit u ctx0 txt maxLogicalBytes =
     (let ctx = ctx_or_background ctx0 in
      bindp (tokenizationLogicalBytes u (Some ctx) txt) (\<lambda>baseBytes.
      bindp (TokenizeContextWithLimit u (Some ctx) txt maxLogicalBytes) (\<lambda>tokens.
      analyze_loop ctx baseBytes maxLogicalBytes 0 0 tokens)))"

section \<open>Scores\<close>

definition float32_of :: "nat \<Rightarrow> nat" where
  "float32_of n =
     (if n < 2 ^ 24 then n
      else
        let e = floorlog 2 n - 24; q = n div 2 ^ e; r = n mod 2 ^ e in
        if 2 * r > 2 ^ e \<or> 2 * r = 2 ^ e \<and> odd q then (q + 1) * 2 ^ e else q * 2 ^ e)"

definition exact_score :: "unicode \<Rightarrow> string list \<Rightarrow> string list \<Rightarrow> nat" where
  "exact_score u tokens terms =
     fold (\<lambda>trm score. let t = strings_ToLower u trm in fold (\<lambda>token score. if token = t then score + 1 else score) tokens score) terms 0"

text \<open>The frequencies of the tokens, in some order of the Go map; the best frequency does not depend on the order.\<close>

definition token_freq :: "string list \<Rightarrow> (string \<times> nat) list" where
  "token_freq tokens = fold (\<lambda>token freq. AList.map_default token 1 (\<lambda>n. n + 1) freq) tokens []"

definition freq_of :: "(string \<times> nat) list \<Rightarrow> string \<Rightarrow> nat" where
  "freq_of freq token = (case map_of freq token of None \<Rightarrow> 0 | Some n \<Rightarrow> n)"

definition term_best :: "unicode \<Rightarrow> (string \<times> nat) list \<Rightarrow> u32 \<Rightarrow> u32 \<Rightarrow> string \<Rightarrow> nat" where
  "term_best u freq maxDistance minTermLength trm =
     (let normalized = strings_ToLower u trm; best = freq_of freq normalized in
      if maxDistance > 0 \<and> (word_of_nat (length (runes normalized)) :: u32) \<ge> minTermLength
      then fold (\<lambda>(token, count) best.
             if token = normalized then best
             else if levenshteinDistance normalized token \<le> uint maxDistance \<and> count > best then count else best) freq best
      else best)"

definition FTSScoreTokensWithOptions :: "unicode \<Rightarrow> string list \<Rightarrow> string list \<Rightarrow> u32 \<Rightarrow> u32 \<Rightarrow> nat" where
  "FTSScoreTokensWithOptions u tokens terms maxDistance minTermLength =
     (if terms = [] then 0
      else if tokens = [] then 0
      else if maxDistance = 0 then float32_of (exact_score u tokens terms)
      else fold (\<lambda>trm score. float32_of (score + float32_of (term_best u (token_freq tokens) maxDistance minTermLength trm))) terms 0)"

definition FTSScoreWithOptions :: "unicode \<Rightarrow> string \<Rightarrow> string list \<Rightarrow> u32 \<Rightarrow> u32 \<Rightarrow> nat" where
  "FTSScoreWithOptions u txt terms maxDistance minTermLength =
     FTSScoreTokensWithOptions u (Tokenize u txt) terms maxDistance minTermLength"

definition FTSScore :: "unicode \<Rightarrow> string \<Rightarrow> string list \<Rightarrow> nat" where
  "FTSScore u txt terms = FTSScoreWithOptions u txt terms 0 0"

section \<open>The first vector of a property map\<close>

text \<open>
  \<^verbatim>\<open>FirstVectorProperty\<close> over a map in its iteration order. A value is \<open>None\<close> when it is no \<^verbatim>\<open>[]float32\<close>, \<open>Some None\<close> when it
  is a nil slice; vector elements are bit patterns.
\<close>

fun first_vector :: "(string \<times> u32 list option option) list \<Rightarrow> u32 list option \<Rightarrow> string \<Rightarrow> u32 list option" where
  "first_vector [] selected selectedKey = selected"
| "first_vector ((key, v) # props) selected selectedKey =
     (case v of
        Some vector \<Rightarrow>
          if selected = None \<or> key < selectedKey then first_vector props vector key
          else first_vector props selected selectedKey
      | None \<Rightarrow> first_vector props selected selectedKey)"

definition FirstVectorProperty :: "(string \<times> u32 list option option) list \<Rightarrow> u32 list option \<times> bool" where
  "FirstVectorProperty props =
     (if props = [] then (None, False)
      else let selected = first_vector props None [] in (selected, selected \<noteq> None))"

end
