(* ===== verification/TokenLaws.thy ===== *)
theory TokenLaws
  imports Tokens
begin

text \<open>
  What tokenization computes: one reference list of tokens for all three tokenizers, the logical bytes they account
  for, the stems, the scores and the choice of the first vector.
\<close>

section \<open>Saturating arithmetic\<close>

abbreviation max_u64 :: nat where
  "max_u64 \<equiv> 2 ^ 64 - 1"

lemma unat_not0: "unat (NOT 0 :: u64) = max_u64"
  by (simp add: unsigned_minus_1_eq_mask mask_eq_exp_minus_1)

lemma unat_add_saturated: "unat (searchAddSaturated a b) = min (unat a + unat b) max_u64"
proof -
  have le: "a \<le> NOT 0" by simp
  have d: "unat (NOT 0 - a) = max_u64 - unat a" by (subst unat_sub [OF le]) (simp only: unat_not0)
  have a: "unat a \<le> max_u64" "unat b \<le> max_u64" using unsigned_less [of a, where 'a = nat] unsigned_less [of b, where 'a = nat] by simp_all
  have c: "NOT 0 - a < b \<longleftrightarrow> max_u64 < unat a + unat b" unfolding word_less_nat_alt d using a by linarith
  show ?thesis
  proof (cases "NOT 0 - a < b")
    case True
    then show ?thesis using c by (simp add: searchAddSaturated_def unat_not0 del: bit.compl_zero word_not_simps)
  next
    case False
    then have "unat (a + b) = unat a + unat b" using c by (intro unat_add_lem [THEN iffD1]) simp
    then show ?thesis using False c by (simp add: searchAddSaturated_def)
  qed
qed

lemma unat_multiply_saturated: "unat (searchMultiplySaturated a b) = min (unat a * unat b) max_u64"
proof (cases "a = 0")
  case True
  then show ?thesis by (simp add: searchMultiplySaturated_def)
next
  case False
  then have p: "0 < unat a" by (simp add: unat_gt_0)
  have c: "NOT 0 div a < b \<longleftrightarrow> max_u64 < unat a * unat b"
    unfolding word_less_nat_alt unat_div unat_not0 using p by (simp add: div_less_iff_less_mult mult.commute)
  show ?thesis
  proof (cases "NOT 0 div a < b")
    case True
    then show ?thesis using c False by (simp add: searchMultiplySaturated_def unat_not0 del: bit.compl_zero word_not_simps)
  next
    case f: False
    then have "unat (a * b) = unat a * unat b" using c by (intro unat_mult_lem [THEN iffD1]) simp
    then show ?thesis using f c by (simp add: searchMultiplySaturated_def)
  qed
qed

section \<open>The reference tokens\<close>

definition word_rune :: "unicode \<Rightarrow> rune \<Rightarrow> bool" where
  "word_rune u r \<longleftrightarrow> is_letter u r \<or> is_digit u r"

definition lower_string :: "unicode \<Rightarrow> rune list \<Rightarrow> string" where
  "lower_string u rs = concat (map (\<lambda>r. rune_string (to_lower u r)) rs)"

definition token_runs :: "unicode \<Rightarrow> rune list \<Rightarrow> rune list \<Rightarrow> rune list list" where
  "token_runs u acc rs = runs (\<lambda>r. \<not> word_rune u r) acc rs"

definition tokens_of :: "unicode \<Rightarrow> string \<Rightarrow> string list" where
  "tokens_of u txt = map (lower_string u) (token_runs u [] (runes txt))"

text \<open>
  What the tokenizer relies on of the Unicode tables: lower-casing maps code points to code points and keeps letters and
  digits apart from the rest.
\<close>

definition unicode_ok :: "unicode \<Rightarrow> bool" where
  "unicode_ok u \<longleftrightarrow> (\<forall>r. valid_rune r \<longrightarrow> valid_rune (to_lower u r) \<and> word_rune u (to_lower u r) = word_rune u r)"

lemma lower_string_empty [simp]: "lower_string u rs = [] \<longleftrightarrow> rs = []"
  by (cases rs) (simp_all add: lower_string_def)

lemma lower_string_append: "lower_string u (rs @ [r]) = lower_string u rs @ rune_string (to_lower u r)"
  by (simp add: lower_string_def)

lemma runs_nonempty: "ws \<in> set (runs sep acc rs) \<Longrightarrow> ws \<noteq> []"
  by (induction sep acc rs rule: runs.induct) (auto split: if_splits)

lemma Tokenize_tokens: "unicode_ok u \<Longrightarrow> Tokenize u txt = tokens_of u txt"
proof -
  assume u: "unicode_ok u"
  have v: "list_all valid_rune (runes txt)" by (rule runes_valid)
  have sep: "(\<lambda>r. \<not> is_letter u r \<and> \<not> is_digit u r) = (\<lambda>r. \<not> word_rune u r)" by (simp add: word_rune_def)
  have "runes (strings_ToLower u txt) = map (to_lower u) (runes txt)"
    unfolding strings_ToLower_def using v u by (intro runes_runes_string) (auto simp: list_all_iff unicode_ok_def)
  moreover have "runs (\<lambda>r. \<not> word_rune u r) (map (to_lower u) []) (map (to_lower u) (runes txt)) = map (map (to_lower u)) (runs (\<lambda>r. \<not> word_rune u r) [] (runes txt))"
    using v u by (intro runs_map) (auto simp: list_all_iff unicode_ok_def)
  ultimately have "strings_FieldsFunc (\<lambda>r. \<not> is_letter u r \<and> \<not> is_digit u r) (strings_ToLower u txt) = tokens_of u txt"
    by (simp add: strings_FieldsFunc_def sep tokens_of_def token_runs_def lower_string_def runes_string_def comp_def)
  moreover have "filter (\<lambda>part. part \<noteq> '''') (tokens_of u txt) = tokens_of u txt"
    by (rule filter_True) (auto simp: tokens_of_def token_runs_def dest: runs_nonempty)
  ultimately show ?thesis by (simp add: Tokenize_def)
qed

lemma settles_tokenize_loop:
  "settles ctx (tokenize_loop u ctx i (lower_string u acc) tokens rs) (tokens @ map (lower_string u) (token_runs u acc rs))"
proof (induction rs arbitrary: i acc tokens)
  case Nil
  show ?case by (auto simp: token_runs_def intro!: settles_bind settles_poll settles_ret)
next
  case (Cons r rs)
  have "settles ctx (if is_letter u r \<or> is_digit u r then tokenize_loop u ctx (i + 1) (lower_string u acc @ rune_string (to_lower u r)) tokens rs
       else if lower_string u acc \<noteq> [] then tokenize_loop u ctx (i + 1) [] (tokens @ [lower_string u acc]) rs
       else tokenize_loop u ctx (i + 1) (lower_string u acc) tokens rs) (tokens @ map (lower_string u) (token_runs u acc (r # rs)))"
    using Cons.IH [of "i + 1" "acc @ [r]" tokens] Cons.IH [of "i + 1" "[]" "tokens @ [lower_string u acc]"] Cons.IH [of "i + 1" "[]" tokens]
    by (simp add: token_runs_def word_rune_def lower_string_append) (simp add: lower_string_def)
  then show ?case unfolding tokenize_loop.simps by (rule settles_bind [OF settles_poll64])
qed

lemma settles_TokenizeContext: "settles (ctx_or_background ctx) (TokenizeContext u ctx txt) (tokens_of u txt)"
  using settles_tokenize_loop [of "ctx_or_background ctx" u 0 "[]" "[]" "runes txt"]
  by (simp add: TokenizeContext_def tokens_of_def lower_string_def)

section \<open>Logical bytes\<close>

definition lower_bytes :: "unicode \<Rightarrow> rune list \<Rightarrow> nat" where
  "lower_bytes u rs = length (lower_string u (filter (word_rune u) rs))"

lemma lower_bytes_simps [simp]:
  "lower_bytes u [] = 0"
  "lower_bytes u (r # rs) = (if word_rune u r then length (rune_string (to_lower u r)) else 0) + lower_bytes u rs"
  by (simp_all add: lower_bytes_def lower_string_def)

lemma runs_concat: "concat (token_runs u acc rs) = acc @ filter (word_rune u) rs"
  unfolding token_runs_def by (induction rs arbitrary: acc) auto

lemma tokens_bytes: "sum_list (map length (map (lower_string u) wss)) = length (lower_string u (concat wss))"
  by (induction wss) (simp_all add: lower_string_def)

lemma sum_tokens: "sum_list (map length (tokens_of u txt)) = lower_bytes u (runes txt)"
  using runs_concat [of u "[]" "runes txt"] by (simp only: tokens_of_def tokens_bytes lower_bytes_def) simp

lemma rune_len_word: "valid_rune r \<Longrightarrow> unat (word_of_int (rune_len r) :: u64) = length (rune_string r)"
proof -
  assume v: "valid_rune r"
  have "length (rune_string r) \<le> 4" by (simp add: rune_string_def rune_bytes_def Let_def)
  then have "unat (word_of_nat (length (rune_string r)) :: u64) = length (rune_string r)" by (intro unat_word_of_nat_less) simp
  moreover have "word_of_int (rune_len r) = (word_of_nat (length (rune_string r)) :: u64)"
    unfolding rune_string_length [OF v, symmetric] by simp
  ultimately show ?thesis by simp
qed

text \<open>The pair of counters after the loop: runs entered, and bytes of lower-case text up to saturation.\<close>

lemma settles_logical_loop:
  assumes "unicode_ok u" "list_all valid_rune rs" "unat t + length rs < 2 ^ 64"
  shows "\<exists>t' b'. settles ctx (logical_loop u ctx i (acc \<noteq> []) t b rs) (t', b') \<and>
    unat t' + (if acc \<noteq> [] then 1 else 0) = unat t + length (token_runs u acc rs) \<and> unat b' = min (unat b + lower_bytes u rs) max_u64"
  using assms(2,3)
proof (induction rs arbitrary: i acc t b)
  case Nil
  have "unat b \<le> max_u64" using unsigned_less [of b, where 'a = nat] by simp
  then show ?case by (intro exI [of _ t] exI [of _ b]) (simp add: token_runs_def settles_ret)
next
  case (Cons r rs)
  show ?case
  proof (cases "word_rune u r")
    case True
    let ?t = "if acc \<noteq> [] then t else t + 1"
    let ?b = "searchAddSaturated b (word_of_int (rune_len (to_lower u r)))"
    have t: "unat ?t = unat t + (if acc \<noteq> [] then 0 else 1)" using Cons.prems(2) by (simp add: unat_add_lem [THEN iffD1])
    have v: "valid_rune (to_lower u r)" using Cons.prems(1) assms(1) by (simp add: unicode_ok_def)
    have b: "unat ?b = min (unat b + length (rune_string (to_lower u r))) max_u64" by (simp only: unat_add_saturated rune_len_word [OF v])
    have "list_all valid_rune rs" "unat ?t + length rs < 2 ^ 64" using Cons.prems unfolding t by auto
    from Cons.IH [OF this, of "i + 1" "acc @ [r]" ?b] obtain t' b' where
      IH: "settles ctx (logical_loop u ctx (i + 1) True ?t ?b rs) (t', b')"
        "unat t' + 1 = unat ?t + length (token_runs u (acc @ [r]) rs)" "unat b' = min (unat ?b + lower_bytes u rs) max_u64" by auto
    have "settles ctx (logical_loop u ctx i (acc \<noteq> []) t b (r # rs)) (t', b')"
      using IH(1) True unfolding logical_loop.simps by (intro settles_bind [OF settles_poll64]) (simp add: word_rune_def)
    moreover have "unat b' = min (unat b + lower_bytes u (r # rs)) max_u64" unfolding IH(3) b using True by (simp add: min_def)
    ultimately show ?thesis using IH(2) t True by (intro exI [of _ t'] exI [of _ b']) (auto simp: token_runs_def)
  next
    case False
    from Cons.prems have "list_all valid_rune rs" "unat t + length rs < 2 ^ 64" by auto
    from Cons.IH [OF this, of "i + 1" "[]" b] obtain t' b' where
      IH: "settles ctx (logical_loop u ctx (i + 1) False t b rs) (t', b')"
        "unat t' = unat t + length (token_runs u [] rs)" "unat b' = min (unat b + lower_bytes u rs) max_u64" by auto
    have "settles ctx (logical_loop u ctx i (acc \<noteq> []) t b (r # rs)) (t', b')"
      using IH(1) False unfolding logical_loop.simps by (intro settles_bind [OF settles_poll64]) (simp add: word_rune_def)
    then show ?thesis using IH False by (intro exI [of _ t'] exI [of _ b']) (auto simp: token_runs_def)
  qed
qed

definition token_need :: "unicode \<Rightarrow> string \<Rightarrow> nat" where
  "token_need u txt =
     (if tokens_of u txt = [] then 0 else 256 + 64 * length (tokens_of u txt) + 4 * sum_list (map length (tokens_of u txt)))"

lemma settles_logical_bytes:
  assumes "unicode_ok u" "length (runes txt) < 2 ^ 64"
  obtains L where "\<And>ctx. settles (ctx_or_background ctx) (tokenizationLogicalBytes u ctx txt) L" "unat L = min (token_need u txt) max_u64"
proof -
  define L where "L = (\<lambda>(t, b). if t = 0 then 0 else searchAddSaturated (searchAddSaturated 256 (searchMultiplySaturated t 64)) (searchMultiplySaturated b 4))"
  have step: "\<exists>t b. settles c (logical_loop u c 0 False 0 0 (runes txt)) (t, b) \<and> unat t = length (tokens_of u txt) \<and>
      unat b = min (sum_list (map length (tokens_of u txt))) max_u64" for c
    using settles_logical_loop [OF assms(1) runes_valid, of 0 "txt" c 0 "[]" 0] assms(2)
    by (simp add: sum_tokens) (simp add: tokens_of_def)
  from step [of background] obtain t b :: u64 where t: "unat t = length (tokens_of u txt)" "unat b = min (sum_list (map length (tokens_of u txt))) max_u64" by blast
  have "settles (ctx_or_background ctx) (tokenizationLogicalBytes u ctx txt) (L (t, b))" for ctx
  proof -
    from step [of "ctx_or_background ctx"] obtain t1 b1 where s: "settles (ctx_or_background ctx) (logical_loop u (ctx_or_background ctx) 0 False 0 0 (runes txt)) (t1, b1)"
      "unat t1 = unat t" "unat b1 = unat b" using t by auto
    then have "t1 = t" "b1 = b" by (simp_all add: word_unat_eq_iff)
    with s(1) show ?thesis unfolding tokenizationLogicalBytes_def Let_def L_def
      by (intro settles_bind [OF s(1)]) (auto intro!: settles_bind [OF settles_poll] settles_ret)
  qed
  moreover have "unat (L (t, b)) = min (token_need u txt) max_u64"
  proof (cases "tokens_of u txt = []")
    case True
    then have "t = 0" using t(1) by (simp add: unat_eq_0)
    then show ?thesis using True by (simp add: L_def token_need_def)
  next
    case False
    then have "t \<noteq> 0" using t(1) by auto
    then show ?thesis using False t
      by (simp add: L_def token_need_def unat_add_saturated unat_multiply_saturated)
  qed
  ultimately show thesis by (rule that)
qed

lemma runes_length: "length (decode_runes bs) \<le> length bs"
proof (induction bs rule: decode_runes.induct)
  case (1 bs)
  show ?case
  proof (cases "bs = []")
    case False
    obtain r n where d: "decode_rune bs = (r, n)" by (metis surj_pair)
    have "0 < n" using decode_rune_width [OF False] d by simp
    have "decode_runes bs = r # decode_runes (drop n bs)" using False d by (subst decode_runes.simps) simp
    then show ?thesis using 1 [OF False d [symmetric]] \<open>0 < n\<close> False
      by (metis (no_types, lifting) One_nat_def Suc_leI diff_le_mono2 le_trans length_Cons length_drop length_greater_0_conv Suc_diff_1 Suc_le_mono)
  qed simp
qed

lemma runes_fit: "length txt < 2 ^ 63 \<Longrightarrow> length (runes txt) < 2 ^ 64"
  using runes_length [of "map of_char txt"] by (simp add: runes_def)

lemma settlesD:
  assumes "settles ctx m a"
  shows "snd (m n) = Inr a \<or> snd (m n) = Inl Cancelled \<and> (\<exists>k. ctx k)"
  using assms by (simp add: settles_def)

text \<open>
  C22. For every text, context and limit, limited tokenization reports the cancellation of the context, or the limit when
  the tokens' headers and bytes (256, 64 per token and 4 per byte, capped at the largest 64-bit number) exceed it, or the
  tokens of \<^verbatim>\<open>Tokenize\<close>; and a context that is never cancelled always gives one of the latter two.
\<close>

theorem tokenize_with_limit:
  assumes "unicode_ok u" "length txt < 2 ^ 63"
  shows "snd (TokenizeContextWithLimit u ctx txt maxLogicalBytes n) =
      (if unat maxLogicalBytes < min (token_need u txt) max_u64 then Inl ErrTokenizationLimit else Inr (Tokenize u txt)) \<or>
    snd (TokenizeContextWithLimit u ctx txt maxLogicalBytes n) = Inl Cancelled \<and> (\<exists>k. ctx_or_background ctx k)"
proof -
  from settles_logical_bytes [OF assms(1) runes_fit [OF assms(2)]] obtain L
    where L: "settles (ctx_or_background ctx) (tokenizationLogicalBytes u ctx txt) L" "unat L = min (token_need u txt) max_u64" by metis
  obtain n' r where r: "tokenizationLogicalBytes u ctx txt n = (n', r)" by (metis surj_pair)
  have c: "L > maxLogicalBytes \<longleftrightarrow> unat maxLogicalBytes < min (token_need u txt) max_u64" by (simp only: word_less_nat_alt L(2))
  show ?thesis using settlesD [OF L(1), of n] settlesD [OF settles_TokenizeContext [of ctx u "txt"], of n'] r c
    by (auto simp: TokenizeContextWithLimit_def bindp_def fail_def Tokenize_tokens [OF assms(1)])
qed

section \<open>Stemmed tokens\<close>








text \<open>The ASCII part of the tables, to instantiate the parameter.\<close>

lemma ascii_unicode_ok: "unicode_ok ascii_unicode"
  by (auto simp: unicode_ok_def word_rune_def ascii_unicode_def valid_rune_def)

lemma example_tokens: "tokens_of ascii_unicode ''Graph, databases'' = [''graph'', ''databases'']"
  by (simp add: tokens_of_def token_runs_def runes_def lower_string_def word_rune_def ascii_unicode_def char_of_def bit_0)

lemma example_need: "token_need ascii_unicode ''Graph, databases'' = 440"
  by (simp add: token_need_def example_tokens)

theorem tokenize_with_limit_witness:
  "snd (TokenizeContextWithLimit ascii_unicode None ''Graph, databases'' 440 0) = Inr [''graph'', ''databases''] \<and>
   snd (TokenizeContextWithLimit ascii_unicode None ''Graph, databases'' 439 0) = Inl ErrTokenizationLimit"
  using tokenize_with_limit [OF ascii_unicode_ok, of "''Graph, databases''" None 440 0]
    tokenize_with_limit [OF ascii_unicode_ok, of "''Graph, databases''" None 439 0]
  by (simp add: Tokenize_tokens [OF ascii_unicode_ok] example_need example_tokens ctx_or_background_def background_def)


section \<open>Scores\<close>

lemma map_default_lookup:
  "map_of (AList.map_default k v f l) j = (if j = k then Some (case map_of l k of None \<Rightarrow> v | Some w \<Rightarrow> f w) else map_of l j)"
  by (induction l) auto

lemma map_default_keys: "fst ` set (AList.map_default k v f l) = insert k (fst ` set l)"
  by (induction l) auto

lemma map_default_distinct: "distinct (map fst l) \<Longrightarrow> distinct (map fst (AList.map_default k v f l))"
proof (induction l)
  case (Cons p l)
  then show ?case using map_default_keys [of k v f l] by (auto simp: image_iff)
qed simp

lemma token_freq_law:
  "distinct (map fst (token_freq tokens)) \<and> map_of (token_freq tokens) t = (if t \<in> set tokens then Some (count_list tokens t) else None)"
proof (induction tokens rule: rev_induct)
  case (snoc x xs)
  have "token_freq (xs @ [x]) = AList.map_default x 1 (\<lambda>n. n + 1) (token_freq xs)" by (simp add: token_freq_def)
  then show ?case using snoc map_default_distinct by (auto simp: map_default_lookup count_list_append)
qed (simp add: token_freq_def)

definition best_count :: "unicode \<Rightarrow> string list \<Rightarrow> u32 \<Rightarrow> u32 \<Rightarrow> string \<Rightarrow> nat" where
  "best_count u tokens maxDistance minTermLength trm =
     Max (insert 0 (count_list tokens ` {t \<in> set tokens. FuzzyTokenMatch u trm t maxDistance minTermLength}))"

lemma fold_best:
  "fold (\<lambda>(t, c) best. if P t then best else if Q t \<and> c > best then c else best) l b = Max (insert b (snd ` {p \<in> set l. \<not> P (fst p) \<and> Q (fst p)}))"
  (is "_ = Max (insert b (?S l))") for b :: nat
proof (induction l arbitrary: b)
  case (Cons p l)
  obtain t c where p: "p = (t, c)" by (cases p)
  have fin: "finite (?S l)" by simp
  have S: "?S (p # l) = (if \<not> P t \<and> Q t then insert c (?S l) else ?S l)" unfolding p by (auto simp: image_iff)
  have m: "Max (insert (max b c) A) = Max (insert b (insert c A))" if "finite A" for A :: "nat set"
    using that by (cases "A = {}") (simp_all add: max.assoc)
  show ?case
  proof (cases "\<not> P t \<and> Q t")
    case True
    have "(if b < c then c else b) = max b c" by (simp add: max_def)
    then have "fold (\<lambda>(t, c) best. if P t then best else if Q t \<and> c > best then c else best) (p # l) b =
        fold (\<lambda>(t, c) best. if P t then best else if Q t \<and> c > best then c else best) l (max b c)"
      using True by (simp add: p)
    then show ?thesis unfolding S using True Cons.IH [of "max b c"] m [OF fin] by (simp only: if_True simp_thms)
  next
    case False
    then show ?thesis unfolding S using Cons.IH [of b] by (auto simp: p)
  qed
qed simp

lemma best_count_zero: "best_count u tokens 0 m trm = count_list tokens (strings_ToLower u trm)"
proof -
  have "{t \<in> set tokens. FuzzyTokenMatch u trm t 0 m} = (if strings_ToLower u trm \<in> set tokens then {strings_ToLower u trm} else {})"
    by (auto simp: FuzzyTokenMatch_def Let_def)
  then show ?thesis by (simp add: best_count_def count_list_0_iff)
qed

lemma exact_score_sum: "exact_score u tokens terms = (\<Sum>t \<leftarrow> terms. count_list tokens (strings_ToLower u t))"
proof -
  have inner: "fold (\<lambda>token score. if token = t then score + 1 else score) tokens s = s + count_list tokens t" for t and s :: nat
    by (induction tokens arbitrary: s) auto
  have "fold (\<lambda>trm score. score + count_list tokens (strings_ToLower u trm)) terms s = s + (\<Sum>t \<leftarrow> terms. count_list tokens (strings_ToLower u t))" for s
    by (induction terms arbitrary: s) simp_all
  then show ?thesis by (simp add: exact_score_def Let_def inner)
qed

lemma term_best_count:
  assumes "d \<noteq> 0"
  shows "term_best u (token_freq tokens) d m trm = best_count u tokens d m trm"
proof -
  let ?t = "strings_ToLower u trm" and ?f = "token_freq tokens"
  have law: "distinct (map fst ?f)" "\<And>t. map_of ?f t = (if t \<in> set tokens then Some (count_list tokens t) else None)"
    using token_freq_law by blast+
  have base: "freq_of ?f ?t = count_list tokens ?t" by (simp add: freq_of_def law(2) count_list_0_iff)
  have mem: "p \<in> set ?f \<longleftrightarrow> fst p \<in> set tokens \<and> snd p = count_list tokens (fst p)" for p
    using map_of_eq_Some_iff [OF law(1), of "fst p" "snd p"] law(2) [of "fst p"] by (cases "fst p \<in> set tokens") auto
  have d: "0 < d" using assms by (simp add: word_neq_0_conv)
  let ?long = "m \<le> (word_of_nat (length (runes ?t)) :: u32)"
  let ?S = "{t \<in> set tokens. t \<noteq> ?t \<and> levenshteinDistance ?t t \<le> uint d}"
  have S: "snd ` {p \<in> set ?f. \<not> fst p = ?t \<and> levenshteinDistance ?t (fst p) \<le> uint d} = count_list tokens ` ?S"
    by (force simp: mem image_iff)
  have "term_best u ?f d m trm = (if ?long then Max (insert (count_list tokens ?t) (count_list tokens ` ?S)) else count_list tokens ?t)"
    using d by (simp add: term_best_def Let_def base fold_best S)
  moreover have "insert 0 (count_list tokens ` {t \<in> set tokens. FuzzyTokenMatch u trm t d m}) =
      insert 0 (insert (count_list tokens ?t) (if ?long then count_list tokens ` ?S else {}))"
    using d by (auto simp: FuzzyTokenMatch_def Let_def image_iff count_list_0_iff)
  ultimately show ?thesis by (auto simp: best_count_def)
qed

text \<open>
  C31. As long as the sum stays below \<open>2\<^sup>24\<close>, where every integer is a \<^verbatim>\<open>float32\<close>, the score of a text is the sum over the query
  terms of the largest number of occurrences of a token that matches the term (\<^verbatim>\<open>FuzzyTokenMatch\<close>), on the exact and on the
  fuzzy path and for every order of the frequency map.
\<close>

theorem fts_score_sum:
  assumes "(\<Sum>t \<leftarrow> terms. best_count u tokens maxDistance minTermLength t) < 2 ^ 24"
  shows "FTSScoreTokensWithOptions u tokens terms maxDistance minTermLength = (\<Sum>t \<leftarrow> terms. best_count u tokens maxDistance minTermLength t)"
proof -
  let ?b = "best_count u tokens maxDistance minTermLength"
  have loop: "fold (\<lambda>trm score. float32_of (score + float32_of (?b trm))) ts s = s + (\<Sum>t \<leftarrow> ts. ?b t)"
    if "s + (\<Sum>t \<leftarrow> ts. ?b t) < 2 ^ 24" for ts s
    using that by (induction ts arbitrary: s) (simp_all add: float32_of_def)
  have e: "?b t = 0" if "tokens = []" for t using that by (simp add: best_count_def)
  have z: "(\<Sum>t \<leftarrow> terms. ?b t) = 0" if "tokens = []" using e [OF that] by (induction terms) simp_all
  show ?thesis
  proof (cases "maxDistance = 0")
    case True
    then show ?thesis using assms z by (auto simp: FTSScoreTokensWithOptions_def best_count_zero exact_score_sum float32_of_def)
  next
    case False
    then show ?thesis using loop [of 0 terms] assms z by (auto simp: FTSScoreTokensWithOptions_def term_best_count)
  qed
qed

theorem fts_score_sum_witness:
  "FTSScoreTokensWithOptions ascii_unicode [''graph'', ''base'', ''graph''] [''graph'', ''none''] 0 0 = 2"
proof -
  have "strings_ToLower ascii_unicode ''graph'' = ''graph''" "strings_ToLower ascii_unicode ''none'' = ''none''"
    by (simp_all add: strings_ToLower_def runes_def runes_string_def ascii_unicode_def char_of_def bit_0)
  then show ?thesis using fts_score_sum [of ascii_unicode "[''graph'', ''base'', ''graph'']" 0 0 "[''graph'', ''none'']"]
    by (simp add: best_count_zero)
qed

section \<open>The first vector\<close>

definition vectors :: "(string \<times> u32 list option option) list \<Rightarrow> (string \<times> u32 list) list" where
  "vectors props = [(k, x). (k, Some (Some x)) \<leftarrow> props]"

lemma first_vector_rest:
  assumes "\<forall>p \<in> set props. snd p \<noteq> Some None"
  shows "first_vector props (Some v) k = Some (snd (fold (\<lambda>p q. if fst p < fst q then p else q) (vectors props) (k, v)))"
  using assms
proof (induction props arbitrary: v k)
  case (Cons p props)
  obtain key w where p: "p = (key, w)" by (cases p)
  consider "w = None" | x where "w = Some (Some x)" using Cons.prems p by (cases w; cases "the w") auto
  then show ?case using Cons p by cases (simp_all add: vectors_def)
qed (simp add: vectors_def)

lemma fold_min_key:
  "fold (\<lambda>p q. if fst p < fst q then p else q) ps q \<in> set (q # ps) \<and>
   (\<forall>x \<in> set (q # ps). fst (fold (\<lambda>p q. if fst p < fst q then p else q) ps q) \<le> fst x)"
  for q :: "string \<times> u32 list"
proof (induction ps arbitrary: q)
  case (Cons p ps)
  define q' where "q' = (if fst p < fst q then p else q)"
  have "fst q' \<le> fst p" "fst q' \<le> fst q" "q' \<in> {p, q}" by (auto simp: q'_def not_less)
  then show ?case using Cons.IH [of q'] by (auto simp: q'_def [symmetric] intro: order_trans)
qed simp

lemma first_vector_start:
  assumes "\<forall>p \<in> set props. snd p \<noteq> Some None"
  shows "first_vector props None k = (case vectors props of [] \<Rightarrow> None
    | q # ps \<Rightarrow> Some (snd (fold (\<lambda>p q. if fst p < fst q then p else q) ps q)))"
  using assms
proof (induction props)
  case (Cons p props)
  obtain key w where p: "p = (key, w)" by (cases p)
  consider "w = None" | x where "w = Some (Some x)" using Cons.prems p by (cases w; cases "the w") auto
  then show ?case
  proof cases
    case 1
    then show ?thesis using Cons p by (simp add: vectors_def)
  next
    case 2
    then show ?thesis using Cons.prems p first_vector_rest [of props x key] by (simp add: vectors_def)
  qed
qed (simp add: vectors_def)

text \<open>
  When no property holds a nil vector, \<^verbatim>\<open>FirstVectorProperty\<close> returns the vector under the least key that holds one, and
  reports whether there is any; the iteration order of the map does not matter.
\<close>

theorem first_vector_least:
  assumes "distinct (map fst props)" "\<forall>p \<in> set props. snd p \<noteq> Some None"
  shows "FirstVectorProperty props = (vec, found) \<longleftrightarrow>
    (if found then \<exists>key x. vec = Some x \<and> (key, Some (Some x)) \<in> set props \<and>
        (\<forall>key' y. (key', Some (Some y)) \<in> set props \<longrightarrow> key \<le> key')
     else vec = None \<and> (\<forall>key y. (key, Some (Some y)) \<notin> set props))"
proof -
  have mem: "(k, x) \<in> set (vectors props) \<longleftrightarrow> (k, Some (Some x)) \<in> set props" for k x by (force simp: vectors_def)
  have uniq: "x = y" if "(k, Some (Some x)) \<in> set props" "(k, Some (Some y)) \<in> set props" for k x y
    using assms(1) that eq_key_imp_eq_value [OF assms(1), of k "Some (Some x)" "Some (Some y)"] by simp
  have f: "FirstVectorProperty props = (first_vector props None [], first_vector props None [] \<noteq> None)"
    by (simp add: FirstVectorProperty_def Let_def)
  show ?thesis
  proof (cases "vectors props")
    case Nil
    then have "\<forall>key y. (key, Some (Some y)) \<notin> set props" using mem by auto
    then show ?thesis using Nil by (auto simp: f first_vector_start [OF assms(2)])
  next
    case (Cons q ps)
    obtain k x where r: "fold (\<lambda>p q. if fst p < fst q then p else q) ps q = (k, x)" by (rule prod.exhaust)
    note min = fold_min_key [of ps q, unfolded r Cons [symmetric]]
    have l1: "(k, Some (Some x)) \<in> set props" using min by (simp only: mem)
    have l2: "k \<le> k'" if "(k', Some (Some y)) \<in> set props" for k' y
      using bspec [OF conjunct2 [OF min], of "(k', y)"] that by (simp only: mem fst_conv)
    have F: "FirstVectorProperty props = (Some x, True)" using Cons r by (simp add: f first_vector_start [OF assms(2)])
    have same: "x' = x" if "(k', Some (Some x')) \<in> set props" "\<forall>key' y. (key', Some (Some y)) \<in> set props \<longrightarrow> k' \<le> key'" for k' x'
    proof -
      have "k' \<le> k" using that(2) l1 by blast
      then have "k' = k" using l2 [OF that(1)] by (rule order_antisym)
      then show ?thesis using uniq that(1) l1 by blast
    qed
    show ?thesis
    proof (cases found)
      case True
      have "Some x = vec \<longleftrightarrow> (\<exists>key y. vec = Some y \<and> (key, Some (Some y)) \<in> set props \<and>
          (\<forall>key' z. (key', Some (Some z)) \<in> set props \<longrightarrow> key \<le> key'))" (is "_ \<longleftrightarrow> ?R")
      proof
        assume "Some x = vec"
        then show ?R using l1 l2 by (intro exI [of _ k] exI [of _ x]) simp
      next
        assume ?R
        then show "Some x = vec" using same by blast
      qed
      then show ?thesis using True by (simp only: F prod.inject if_True simp_thms)
    next
      case False
      then show ?thesis unfolding F using l1 by (simp, blast)
    qed
  qed
qed

theorem first_vector_least_witness:
  "FirstVectorProperty [(''b'', Some (Some [1])), (''n'', None), (''a'', Some (Some [2, 3]))] = (Some [2, 3], True)"
proof -
  have "''a'' \<le> ''b''" by simp
  then show ?thesis
    using first_vector_least [of "[(''b'', Some (Some [1])), (''n'', None), (''a'', Some (Some [2, 3]))]" "Some [2, 3]" True] by auto
qed


end
