(* ===== verification/PageRecords.thy ===== *)
theory PageRecords
  imports Properties BinaryRecords
begin

unbundle bit_operations_syntax

text \<open>
  Records of the page store (\<^verbatim>\<open>internal/store/page_records.go\<close>): a node or an edge in the binary record format behind a
  six-byte header with a version, a kind and the IEEE CRC-32 of the rest. \<^verbatim>\<open>hash/crc32\<close> is the standard reflected
  algorithm, one bit at a time. A closure passed to the record encoder is an encoder action; \<^verbatim>\<open>output.Grow\<close> and the
  capacity hint have no effect on contents.
\<close>

section \<open>CRC-32\<close>

definition crc_bit :: "u32 \<Rightarrow> u32" where
  "crc_bit s = (if bit s 0 then drop_bit 1 s XOR 0xEDB88320 else drop_bit 1 s)"

definition crc_byte :: "u32 \<Rightarrow> byte \<Rightarrow> u32" where
  "crc_byte s b = (crc_bit ^^ 8) (s XOR ucast b)"

definition crc32_ChecksumIEEE :: "byte list \<Rightarrow> u32" where
  "crc32_ChecksumIEEE bs = NOT (foldl crc_byte (NOT 0) bs)"

section \<open>The code\<close>

record NodeRecord =
  nr_ID :: u64
  nr_Labels :: "string list option"
  nr_Properties :: Properties

record EdgeRecord =
  er_ID :: u64
  er_SourceID :: u64
  er_TargetID :: u64
  er_Type :: string
  er_Properties :: Properties

definition pageRecordVersion :: byte where
  "pageRecordVersion = 1"

definition pageNodeRecord :: byte where
  "pageNodeRecord = 1"

definition pageEdgeRecord :: byte where
  "pageEdgeRecord = 2"

text \<open>\<^verbatim>\<open>graph.recordLimit()\<close> for the field \<^verbatim>\<open>MaxRecordBytes\<close>.\<close>

definition recordLimit :: "u64 \<Rightarrow> u64" where
  "recordLimit maxRecordBytes = (if maxRecordBytes \<noteq> 0 then maxRecordBytes else word_of_int maxValueBytes + 1048576)"

definition encodePageRecordCapacity :: "byte \<Rightarrow> u64 \<Rightarrow> int \<Rightarrow> enc \<Rightarrow> gerr + byte list" where
  "encodePageRecordCapacity rkind maxBytes capacity encode =
     (let e0 = (new_encoder (multiplySaturated maxBytes 2))\<lparr>eout := [pageRecordVersion, rkind, 0, 0, 0, 0]\<rparr>;
          e = snd (run_state encode e0)
      in case eerr e of
           Some er \<Rightarrow> Inl er
         | None \<Rightarrow>
             if (word_of_nat (length (eout e)) :: u64) > maxBytes then Inl (ErrLoadResourceLimit ''page record exceeds limit'')
             else Inr (take 2 (eout e) @ be32 (crc32_ChecksumIEEE (drop 6 (eout e))) @ drop 6 (eout e)))"

definition encodePageRecordBounded :: "byte \<Rightarrow> u64 \<Rightarrow> enc \<Rightarrow> gerr + byte list" where
  "encodePageRecordBounded rkind maxBytes encode = encodePageRecordCapacity rkind maxBytes 0 encode"

definition encodePageRecord :: "byte \<Rightarrow> enc \<Rightarrow> gerr + byte list" where
  "encodePageRecord rkind encode = encodePageRecordBounded rkind (recordLimit 0) encode"

definition decodePageRecordPayload :: "byte list \<Rightarrow> byte \<Rightarrow> u64 \<Rightarrow> gerr + byte list" where
  "decodePageRecordPayload data rkind maxBytes =
     (if (word_of_nat (length data) :: u64) > maxBytes then Inl (ErrLoadResourceLimit ''page record exceeds limit'')
      else if length data < 6 \<or> data ! 0 \<noteq> pageRecordVersion \<or> data ! 1 \<noteq> rkind then Inl (ErrMsg ''invalid page record header'')
      else if from_be32 (take 4 (drop 2 data)) \<noteq> crc32_ChecksumIEEE (drop 6 data) then Inl (ErrMsg ''page record checksum mismatch'')
      else Inr (drop 6 data))"

definition decodePageRecord :: "byte list \<Rightarrow> byte \<Rightarrow> u64 \<Rightarrow> gerr + decoder" where
  "decodePageRecord data rkind maxBytes =
     (case decodePageRecordPayload data rkind maxBytes of Inl er \<Rightarrow> Inl er | Inr payload \<Rightarrow> Inr (newBinaryDecoderBytes payload maxBytes))"

definition encodePageNodeBounded :: "NodeRecord option \<Rightarrow> u64 \<Rightarrow> gerr + byte list" where
  "encodePageNodeBounded n maxBytes = (case n of
     None \<Rightarrow> Inl (ErrMsg ''nil page node'')
   | Some node \<Rightarrow>
     (case ValidateEntityID (nr_ID node) of Some er \<Rightarrow> Inl er | None \<Rightarrow>
     (case ValidateCreateLabels (nr_Labels node) of Some er \<Rightarrow> Inl er | None \<Rightarrow>
     (case encodePropertyStorage (nr_Properties node) of Inl er \<Rightarrow> Inl er | Inr properties \<Rightarrow>
       encodePageRecordBounded pageNodeRecord maxBytes
         (enc_node \<lparr>pn_ID = nr_ID node, pn_Labels = nr_Labels node, pn_Properties = Some properties\<rparr>)))))"

definition encodePageNode :: "NodeRecord option \<Rightarrow> gerr + byte list" where
  "encodePageNode n = encodePageNodeBounded n (recordLimit 0)"

definition map_list :: "persistedMap \<Rightarrow> (string \<times> persistedValue) list" where
  "map_list m = (case m of None \<Rightarrow> [] | Some l \<Rightarrow> l)"

definition decodePageNodeAdmitted ::
  "byte list \<Rightarrow> u64 \<Rightarrow> u64 \<Rightarrow> (u64 list \<Rightarrow> u64 \<Rightarrow> gerr option) option \<Rightarrow> gerr + NodeRecord" where
  "decodePageNodeAdmitted data ident maxBytes admit =
     (case decodePageRecord data pageNodeRecord maxBytes of Inl er \<Rightarrow> Inl er | Inr d \<Rightarrow>
     (case run_state dec_node (d\<lparr>admitAllocation := admit\<rparr>) of (node, d') \<Rightarrow>
     (case dfinish d' of Some er \<Rightarrow> Inl er | None \<Rightarrow>
       if pn_ID node \<noteq> ident then Inl (ErrMsg ''page node key does not match record'')
       else
     (case ValidateEntityID ident of Some er \<Rightarrow> Inl er | None \<Rightarrow>
     (case ValidateCreateLabels (pn_Labels node) of Some er \<Rightarrow> Inl er | None \<Rightarrow>
     (case decodePropertyStorage (map_list (pn_Properties node)) of Inl er \<Rightarrow> Inl er | Inr properties \<Rightarrow>
       Inr \<lparr>nr_ID = ident, nr_Labels = pn_Labels node, nr_Properties = properties\<rparr>))))))"

definition decodePageNode :: "byte list \<Rightarrow> u64 \<Rightarrow> u64 \<Rightarrow> gerr + NodeRecord" where
  "decodePageNode data ident maxBytes = decodePageNodeAdmitted data ident maxBytes None"

fun validate_ids :: "u64 list \<Rightarrow> gerr option" where
  "validate_ids [] = None"
| "validate_ids (i # is) = (case ValidateEntityID i of Some er \<Rightarrow> Some er | None \<Rightarrow> validate_ids is)"

definition encodePageEdgeBounded :: "EdgeRecord option \<Rightarrow> u64 \<Rightarrow> gerr + byte list" where
  "encodePageEdgeBounded e maxBytes = (case e of
     None \<Rightarrow> Inl (ErrMsg ''nil page edge'')
   | Some edge \<Rightarrow>
     (case validate_ids [er_ID edge, er_SourceID edge, er_TargetID edge] of Some er \<Rightarrow> Inl er | None \<Rightarrow>
     (case ValidateEdgeType (er_Type edge) of Some er \<Rightarrow> Inl er | None \<Rightarrow>
     (case encodePropertyStorage (er_Properties edge) of Inl er \<Rightarrow> Inl er | Inr properties \<Rightarrow>
       encodePageRecordBounded pageEdgeRecord maxBytes
         (enc_edge \<lparr>pe_ID = er_ID edge, pe_SourceID = er_SourceID edge, pe_TargetID = er_TargetID edge, pe_Type = er_Type edge,
            pe_Properties = Some properties\<rparr>)))))"

definition encodePageEdge :: "EdgeRecord option \<Rightarrow> gerr + byte list" where
  "encodePageEdge e = encodePageEdgeBounded e (recordLimit 0)"

definition decodePageEdgeAdmitted ::
  "byte list \<Rightarrow> u64 \<Rightarrow> u64 \<Rightarrow> (u64 list \<Rightarrow> u64 \<Rightarrow> gerr option) option \<Rightarrow> gerr + EdgeRecord" where
  "decodePageEdgeAdmitted data ident maxBytes admit =
     (case decodePageRecord data pageEdgeRecord maxBytes of Inl er \<Rightarrow> Inl er | Inr d \<Rightarrow>
     (case run_state dec_edge (d\<lparr>admitAllocation := admit\<rparr>) of (edge, d') \<Rightarrow>
     (case dfinish d' of Some er \<Rightarrow> Inl er | None \<Rightarrow>
       if pe_ID edge \<noteq> ident then Inl (ErrMsg ''page edge key does not match record'')
       else
     (case validate_ids [pe_ID edge, pe_SourceID edge, pe_TargetID edge] of Some er \<Rightarrow> Inl er | None \<Rightarrow>
     (case ValidateEdgeType (pe_Type edge) of Some er \<Rightarrow> Inl er | None \<Rightarrow>
     (case decodePropertyStorage (map_list (pe_Properties edge)) of Inl er \<Rightarrow> Inl er | Inr properties \<Rightarrow>
       Inr \<lparr>er_ID = ident, er_SourceID = pe_SourceID edge, er_TargetID = pe_TargetID edge, er_Type = pe_Type edge,
            er_Properties = properties\<rparr>))))))"

definition decodePageEdge :: "byte list \<Rightarrow> u64 \<Rightarrow> u64 \<Rightarrow> gerr + EdgeRecord" where
  "decodePageEdge data ident maxBytes = decodePageEdgeAdmitted data ident maxBytes None"

section \<open>Damage to a record\<close>

lemma crc_bit_inj: "crc_bit s = crc_bit t \<Longrightarrow> s = t"
proof -
  assume e: "crc_bit s = crc_bit t"
  have top: "bit (crc_bit x) 31 \<longleftrightarrow> bit x 0" for x by (auto simp: crc_bit_def bit_simps dest: bit_imp_le_length)
  have low: "bit s 0 \<longleftrightarrow> bit t 0" using e top by metis
  have d: "drop_bit 1 s = drop_bit 1 t"
  proof (cases "bit s 0")
    case True
    then have "drop_bit 1 s XOR 0xEDB88320 = drop_bit 1 t XOR 0xEDB88320" using e low by (simp add: crc_bit_def)
    then have "(drop_bit 1 s XOR 0xEDB88320) XOR 0xEDB88320 = (drop_bit 1 t XOR 0xEDB88320) XOR 0xEDB88320" by (simp only:)
    then show ?thesis by (simp only: xor.assoc xor_self_eq xor.right_neutral)
  next
    case False
    then show ?thesis using e low by (simp add: crc_bit_def)
  qed
  show ?thesis
  proof (rule bit_word_eqI)
    fix n
    show "bit s n \<longleftrightarrow> bit t n"
    proof (cases n)
      case 0
      then show ?thesis using low by simp
    next
      case (Suc m)
      have "bit (drop_bit 1 s) m \<longleftrightarrow> bit (drop_bit 1 t) m" by (simp only: d)
      then show ?thesis using Suc by (simp only: bit_drop_bit_eq comp_def add.commute [of m] plus_1_eq_Suc)
    qed
  qed
qed

lemma crc_bits_inj: "(crc_bit ^^ k) s = (crc_bit ^^ k) t \<Longrightarrow> s = t"
  by (induction k) (auto dest: crc_bit_inj)

lemma bit_push_one: "bit (push_bit 1 y) n \<longleftrightarrow> 1 \<le> n \<and> n < 32 \<and> bit y (n - 1)" for y :: u32
  by (simp only: bit_push_bit_iff possible_bit_word) auto

lemma crc_bit_push: "\<not> bit y 31 \<Longrightarrow> crc_bit (x XOR push_bit 1 y) = crc_bit x XOR y"
proof -
  assume y: "\<not> bit y 31"
  have d: "drop_bit 1 (x XOR push_bit 1 y) = drop_bit 1 x XOR y"
  proof (rule bit_word_eqI)
    fix n assume "n < LENGTH(32)"
    then have "n < 31 \<or> n = 31" by simp linarith
    moreover have "bit (push_bit 1 y) (1 + n) \<longleftrightarrow> n < 31 \<and> bit y n" by (simp only: bit_push_one) auto
    ultimately show "bit (drop_bit 1 (x XOR push_bit 1 y)) n \<longleftrightarrow> bit (drop_bit 1 x XOR y) n"
      using y by (auto simp only: bit_drop_bit_eq comp_def bit_xor_iff)
  qed
  have l: "bit (x XOR push_bit 1 y) 0 \<longleftrightarrow> bit x 0" by (simp only: bit_xor_iff bit_push_one) simp
  show ?thesis unfolding crc_bit_def d l by (simp add: xor.assoc xor.commute [of y])
qed

definition low_bits :: "nat \<Rightarrow> u32 \<Rightarrow> bool" where
  "low_bits k y \<longleftrightarrow> (\<forall>n. bit y n \<longrightarrow> n < k)"

lemma crc_bits_push: "low_bits (32 - k) y \<Longrightarrow> k \<le> 32 \<Longrightarrow> (crc_bit ^^ k) (x XOR push_bit k y) = (crc_bit ^^ k) x XOR y"
proof (induction k arbitrary: x)
  case (Suc k)
  have "\<not> bit (push_bit k y) 31"
  proof
    assume "bit (push_bit k y) 31"
    then have "bit y (31 - k)" by (simp add: bit_simps)
    then show False using Suc.prems by (auto simp: low_bits_def)
  qed
  then have "crc_bit (x XOR push_bit 1 (push_bit k y)) = crc_bit x XOR push_bit k y" by (rule crc_bit_push)
  then have s: "crc_bit (x XOR push_bit (Suc k) y) = crc_bit x XOR push_bit k y" by (simp only: push_bit_push_bit plus_1_eq_Suc)
  have "low_bits (32 - k) y" using Suc.prems(1) by (auto simp: low_bits_def)
  then have "(crc_bit ^^ k) (crc_bit x XOR push_bit k y) = (crc_bit ^^ k) (crc_bit x) XOR y" using Suc.prems(2) by (intro Suc.IH) simp_all
  then show ?case by (simp only: funpow_Suc_right comp_def s)
qed simp

fun little_endian :: "byte list \<Rightarrow> u32" where
  "little_endian [] = 0"
| "little_endian (b # bs) = ucast b XOR push_bit 8 (little_endian bs)"

lemma little_endian_low: "low_bits (8 * length bs) (little_endian bs)"
proof (induction bs)
  case (Cons b bs)
  show ?case unfolding low_bits_def
  proof (intro allI impI)
    fix n assume "bit (little_endian (b # bs)) n"
    then have "bit b n \<or> 8 \<le> n \<and> bit (little_endian bs) (n - 8)" by (auto simp: bit_simps)
    then show "n < 8 * length (b # bs)" using Cons.IH by (auto simp: low_bits_def dest: bit_imp_le_length)
  qed
qed (simp add: low_bits_def)

lemma little_endian_inj: "length bs = length cs \<Longrightarrow> length bs \<le> 4 \<Longrightarrow> little_endian bs = little_endian cs \<Longrightarrow> bs = cs"
proof (induction bs arbitrary: cs)
  case (Cons b bs)
  then obtain c cs' where cs: "cs = c # cs'" by (cases cs) auto
  have e: "bit (little_endian (b # bs)) n = bit (little_endian (c # cs')) n" for n using Cons.prems(3) cs by simp
  have "b = c"
  proof (rule bit_word_eqI)
    fix n assume "n < LENGTH(8)"
    then show "bit b n \<longleftrightarrow> bit c n" using e [of n] by (simp add: bit_simps)
  qed
  moreover have "little_endian bs = little_endian cs'"
  proof (rule bit_word_eqI)
    fix n assume n: "n < LENGTH(32)"
    have l: "low_bits 24 (little_endian bs)" "low_bits 24 (little_endian cs')"
      using little_endian_low [of bs] little_endian_low [of cs'] Cons.prems(1,2) cs by (auto simp: low_bits_def)
    show "bit (little_endian bs) n \<longleftrightarrow> bit (little_endian cs') n"
    proof (cases "n < 24")
      case True
      then show ?thesis using e [of "n + 8"] by (auto simp: bit_simps dest: bit_imp_le_length)
    next
      case False
      then show ?thesis using l by (auto simp: low_bits_def)
    qed
  qed
  ultimately show ?case using Cons cs by simp
qed simp

lemma crc_window: "length bs \<le> 4 \<Longrightarrow> foldl crc_byte s bs = (crc_bit ^^ (8 * length bs)) (s XOR little_endian bs)"
proof (induction bs arbitrary: s)
  case (Cons b bs)
  have low: "low_bits 24 (little_endian bs)" using little_endian_low [of bs] Cons.prems by (auto simp: low_bits_def)
  have "foldl crc_byte s (b # bs) = (crc_bit ^^ (8 * length bs)) ((crc_bit ^^ 8) (s XOR ucast b) XOR little_endian bs)"
    using Cons.IH [of "crc_byte s b"] Cons.prems by (simp add: crc_byte_def [of s b])
  also have "\<dots> = (crc_bit ^^ (8 * length bs)) ((crc_bit ^^ 8) ((s XOR ucast b) XOR push_bit 8 (little_endian bs)))"
    using low by (subst crc_bits_push) simp_all
  also have "\<dots> = (crc_bit ^^ (8 * length bs + 8)) (s XOR little_endian (b # bs))"
    by (simp only: funpow_add comp_def xor.assoc little_endian.simps)
  also have "8 * length bs + 8 = 8 * length (b # bs)" by simp
  finally show ?case .
qed simp

lemma crc_state_inj: "foldl crc_byte s bs = foldl crc_byte t bs \<Longrightarrow> s = t"
proof (induction bs arbitrary: s t)
  case (Cons b bs)
  then have "crc_byte s b = crc_byte t b" by simp
  then have "s XOR ucast b = t XOR ucast b" unfolding crc_byte_def by (rule crc_bits_inj)
  then have "(s XOR ucast b) XOR ucast b = (t XOR ucast b) XOR ucast b" by (simp only:)
  then show ?case by (simp only: xor.assoc xor_self_eq xor.right_neutral)
qed simp

lemma crc_burst:
  assumes "length bs = length cs" "length bs \<le> 4" "bs \<noteq> cs"
  shows "crc32_ChecksumIEEE (us @ bs @ vs) \<noteq> crc32_ChecksumIEEE (us @ cs @ vs)"
proof
  define s where "s = foldl crc_byte (NOT 0) us"
  assume "crc32_ChecksumIEEE (us @ bs @ vs) = crc32_ChecksumIEEE (us @ cs @ vs)"
  then have "NOT (NOT (foldl crc_byte (foldl crc_byte s bs) vs)) = NOT (NOT (foldl crc_byte (foldl crc_byte s cs) vs))"
    by (simp only: crc32_ChecksumIEEE_def foldl_append s_def)
  then have "foldl crc_byte s bs = foldl crc_byte s cs" by (simp only: bit.double_compl crc_state_inj)
  then have "s XOR little_endian bs = s XOR little_endian cs" using crc_bits_inj by (metis crc_window assms(1,2))
  then have "s XOR (s XOR little_endian bs) = s XOR (s XOR little_endian cs)" by (simp only:)
  then have "little_endian bs = little_endian cs" by (simp only: xor.assoc [symmetric] xor_self_eq xor.left_neutral)
  then show False using little_endian_inj [OF assms(1,2)] assms(3) by blast
qed

text \<open>Two byte sequences that differ, but only within the window of \<open>k\<close> bytes from position \<open>i\<close>.\<close>

definition differ_within :: "nat \<Rightarrow> nat \<Rightarrow> byte list \<Rightarrow> byte list \<Rightarrow> bool" where
  "differ_within i k data data' \<longleftrightarrow> length data' = length data \<and> data' \<noteq> data \<and> take i data' = take i data \<and> drop (i + k) data' = drop (i + k) data"

lemma differ_parts:
  assumes "differ_within i k data data'"
  obtains us bs cs vs where "data = us @ bs @ vs" "data' = us @ cs @ vs" "length bs = length cs" "length bs \<le> k" "bs \<noteq> cs" "length us = min i (length data)"
proof -
  have "data = take i data @ take k (drop i data) @ drop (i + k) data" for data :: "byte list"
    by (metis append_take_drop_id drop_drop add.commute)
  from this [of data] this [of data'] assms show thesis
    by (intro that [of "take i data" "take k (drop i data)" "drop (i + k) data" "take k (drop i data')"]) (auto simp: differ_within_def min_def)
qed

lemma be32_from: "length bs = 4 \<Longrightarrow> be32 (from_be32 bs) = bs"
proof (rule nth_equalityI)
  assume l: "length bs = 4"
  show "length (be32 (from_be32 bs)) = length bs" using l by simp
  fix i assume "i < length (be32 (from_be32 bs))"
  then have i: "i < 4" by simp
  have "bit (be32 (from_be32 bs) ! i) n \<longleftrightarrow> bit (bs ! i) n" if n: "n < 8" for n
  proof -
    have "(8 * (3 - i) + n) div 8 = 3 - i" "(8 * (3 - i) + n) mod 8 = n" "8 * (3 - i) + n < 32" using n i by simp_all
    moreover have "be32 (from_be32 bs) ! i = ucast (drop_bit (8 * (3 - i)) (from_be32 bs))" using i by (simp add: be32_def)
    ultimately show ?thesis using n i l unfolding from_be32_def by (simp add: bit_simps bit_fold_be)
  qed
  then show "be32 (from_be32 bs) ! i = bs ! i" by (intro bit_word_eqI) simp
qed

lemma payload_accepted:
  "decodePageRecordPayload data rkind maxBytes = Inr payload \<longleftrightarrow>
   \<not> (word_of_nat (length data) :: u64) > maxBytes \<and> 6 \<le> length data \<and> data ! 0 = pageRecordVersion \<and> data ! 1 = rkind \<and>
   from_be32 (take 4 (drop 2 data)) = crc32_ChecksumIEEE (drop 6 data) \<and> payload = drop 6 data"
  by (auto simp: decodePageRecordPayload_def not_less)

text \<open>
  C16. A stored record that was accepted is no longer accepted when any of its bytes is overwritten with another value, nor
  when up to four consecutive bytes of its payload, or of its checksum, are: the version and kind are compared, and the
  CRC-32 sees every such burst.
\<close>

theorem page_record_damage_detected:
  assumes "decodePageRecordPayload data rkind maxBytes = Inr payload"
    "differ_within i 1 data data' \<or> 6 \<le> i \<and> differ_within i 4 data data' \<or> differ_within 2 4 data data'"
  shows "\<exists>er. decodePageRecordPayload data' rkind maxBytes = Inl er"
proof (rule ccontr)
  assume "\<not> ?thesis"
  then obtain payload' where "decodePageRecordPayload data' rkind maxBytes = Inr payload'" by (metis sum.exhaust)
  note ok = assms(1) [unfolded payload_accepted] this [unfolded payload_accepted]
  have sum: "crc32_ChecksumIEEE (drop 6 data) = crc32_ChecksumIEEE (drop 6 data') \<longleftrightarrow> take 4 (drop 2 data) = take 4 (drop 2 data')"
  proof -
    have "6 \<le> length data" "6 \<le> length data'" using ok by blast+
    then have "length (take 4 (drop 2 data)) = 4" "length (take 4 (drop 2 data')) = 4" unfolding length_take length_drop by linarith+
    then have "be32 (from_be32 (take 4 (drop 2 data))) = take 4 (drop 2 data)" "be32 (from_be32 (take 4 (drop 2 data'))) = take 4 (drop 2 data')"
      by (auto intro: be32_from)
    then show ?thesis using ok by metis
  qed
  have payload: False if d: "differ_within i k data data'" and i: "6 \<le> i" "k \<le> 4" for i k
  proof -
    from differ_parts [OF d] obtain us bs cs vs where p: "data = us @ bs @ vs" "data' = us @ cs @ vs" "length bs = length cs" "length bs \<le> k" "bs \<noteq> cs" "length us = min i (length data)" .
    have "6 \<le> length us" using p(6) i ok(1) by (auto simp: min_def)
    then have "drop 6 data = drop 6 us @ bs @ vs" "drop 6 data' = drop 6 us @ cs @ vs" "take 4 (drop 2 data) = take 4 (drop 2 data')"
      by (simp_all add: p(1,2))
    then show False using sum crc_burst [OF p(3) _ p(5), of "drop 6 us" vs] p(4) i(2) by simp
  qed
  have checksum: False if d: "differ_within i k data data'" and i: "2 \<le> i" "i + k \<le> 6" for i k
  proof -
    have e: "take i data' = take i data" "drop (i + k) data' = drop (i + k) data" "data' \<noteq> data" using d by (simp_all add: differ_within_def)
    have "take 2 data' = take 2 (take i data')" "take 2 data = take 2 (take i data)" using i by simp_all
    then have t: "take 2 data' = take 2 data" using e by simp
    have "drop 6 data' = drop (6 - (i + k)) (drop (i + k) data')" "drop 6 data = drop (6 - (i + k)) (drop (i + k) data)" using i by simp_all
    then have dr: "drop 6 data' = drop 6 data" using e by simp
    then have "take 4 (drop 2 data') = take 4 (drop 2 data)" using sum by simp
    then have "take 2 data' @ take 4 (drop 2 data') @ drop 6 data' = take 2 data @ take 4 (drop 2 data) @ drop 6 data" using t dr by simp
    moreover have "take 2 x @ take 4 (drop 2 x) @ drop 6 x = x" for x :: "byte list"
      using append_take_drop_id [of 4 "drop 2 x"] append_take_drop_id [of 2 x] by (simp add: drop_drop)
    ultimately show False using e(3) by simp
  qed
  have header: False if d: "differ_within i 1 data data'" and i: "i < 2" for i
  proof -
    have e: "take i data' = take i data" "drop (i + 1) data' = drop (i + 1) data" "data' \<noteq> data" "length data' = length data"
      using d by (simp_all add: differ_within_def)
    have "data' ! i = data ! i" using ok i by (cases i) auto
    moreover have "i < length data" "i < length data'" using ok i by simp_all
    ultimately have "data' = data" using e id_take_nth_drop [of i data] id_take_nth_drop [of i data'] by simp
    then show False using e(3) by simp
  qed
  consider "i < 2" | "2 \<le> i" "i + 1 \<le> 6" | "6 \<le> i" by linarith
  then show False
  proof cases
    case 1
    then show False using assms(2) header checksum [of 2 4] by auto
  next
    case 2
    then show False using assms(2) checksum [of i 1] checksum [of 2 4] by auto
  next
    case 3
    then show False using assms(2) payload [of i 1] payload [of i 4] checksum [of 2 4] by auto
  qed
qed

section \<open>Round trips\<close>

lemma record_frame:
  assumes "emits m w c" "length w + 6 < 2 ^ 64" "encodePageRecordBounded rkind maxBytes m = Inr data"
  shows "decodePageRecordPayload data rkind maxBytes = Inr w \<and> c \<le> unat (multiplySaturated maxBytes 2) \<and> length w < 2 ^ 64"
proof -
  define e0 where "e0 = (new_encoder (multiplySaturated maxBytes 2))\<lparr>eout := [pageRecordVersion, rkind, 0, 0, 0, 0]\<rparr>"
  have ready: "enc_ready e0" by (simp add: enc_ready_def e0_def new_encoder_def)
  let ?e = "snd (run_state m e0)"
  have d: "eerr ?e = None" "\<not> (word_of_nat (length (eout ?e)) :: u64) > maxBytes"
    "data = take 2 (eout ?e) @ be32 (crc32_ChecksumIEEE (drop 6 (eout ?e))) @ drop 6 (eout ?e)"
    using assms(3) by (auto simp: encodePageRecordBounded_def encodePageRecordCapacity_def e0_def Let_def split: option.splits if_splits)
  then have f: "fits e0 c" "run_state m e0 = ((), eadv w c e0)" using assms(1) ready unfolding emits_def by (metis (full_types))+
  have o: "eout ?e = [pageRecordVersion, rkind, 0, 0, 0, 0] @ w" using f(2) by (simp add: eadv_def e0_def)
  have data: "data = [pageRecordVersion, rkind] @ be32 (crc32_ChecksumIEEE w) @ w" using d(3) o by simp
  have len: "length data = length w + 6" "length (eout ?e) = length data" using data o by simp_all
  have nz: "maxBytes \<noteq> 0"
  proof
    assume "maxBytes = 0"
    then have "unat (word_of_nat (length data) :: u64) = 0" using d(2) unfolding word_less_nat_alt len(2) by simp
    moreover have "unat (word_of_nat (length data) :: u64) = length data" using assms(2) len(1) by (intro unat_word_of_nat_less) simp
    ultimately show False using len(1) by simp
  qed
  have "multiplySaturated maxBytes 2 \<noteq> 0"
  proof
    assume "multiplySaturated maxBytes 2 = 0"
    then have "\<not> (- 1) div maxBytes < 2" "maxBytes * 2 = 0" using nz by (auto simp: multiplySaturated_def split: if_splits)
    then have u: "2 \<le> (2 ^ 64 - 1) div unat maxBytes"
      by (simp add: word_le_nat_alt not_less unat_div unsigned_minus_1_eq_mask mask_eq_exp_minus_1)
    have "0 < unat maxBytes" using nz by (simp add: unat_gt_0)
    then have "unat maxBytes * 2 < 2 ^ 64" using u by (simp add: less_eq_div_iff_mult_less_eq)
    then have "unat (maxBytes * 2) = unat maxBytes * 2" by (subst unat_mult_lem [THEN iffD1]) simp_all
    then show False using \<open>maxBytes * 2 = 0\<close> \<open>0 < unat maxBytes\<close> by simp
  qed
  then have "c \<le> unat (multiplySaturated maxBytes 2)" using f(1) by (simp add: fits_def e0_def new_encoder_def)
  moreover have "decodePageRecordPayload data rkind maxBytes = Inr w"
    unfolding payload_accepted using d(2) len unfolding data by simp
  ultimately show ?thesis using assms(2) by simp
qed

lemma decode_frame:
  assumes "decodePageRecordPayload data rkind maxBytes = Inr w" "reads m v w cs" "sum_list cs \<le> unat (multiplySaturated maxBytes 2)"
    "length w < 2 ^ 64" "case admit of None \<Rightarrow> True | Some f \<Rightarrow> \<forall>h n. f h n = None"
  shows "\<exists>d d'. decodePageRecord data rkind maxBytes = Inr d \<and> run_state m (d\<lparr>admitAllocation := admit\<rparr>) = (v, d') \<and> dfinish d' = None"
proof -
  define d where "d = (newBinaryDecoderBytes w maxBytes)\<lparr>admitAllocation := admit\<rparr>"
  have r: "dec_ready d w cs" using new_decoder_ready(2) [OF assms(4,3)] assms(5) by (simp add: dec_ready_def d_def admits_def)
  have "dfinish (dadv w cs d) = None"
    using assms(4) by (simp add: dfinish_def dadv_def d_def newBinaryDecoderBytes_def)
  then show ?thesis using assms(1,2) r by (auto simp: decodePageRecord_def reads_def d_def)
qed

text \<open>The properties of an entity as the store keeps them.\<close>

definition stored_properties :: "Properties \<Rightarrow> bool" where
  "stored_properties p \<longleftrightarrow> p_inv p \<and> admissible (p_All p)"

lemma stored_properties_accepted:
  assumes "all_entries (\<lambda>_. True) go_ok m" "distinct (map fst m)" "NormalizePropertyStorage m = Inr p"
  shows "stored_properties p"
proof -
  have n: "p = of_entries (map_values norm_of m)" "admissible (map_values norm_of m)" using normalized_storage [OF assms] by simp_all
  have "p_inv p" using n assms(2) by (simp add: of_entries_inv)
  moreover have "mset (p_All p) = mset (map_values norm_of m)" unfolding n(1) p_All_of_entries by (simp add: sort_entries_def)
  ultimately show ?thesis using admissible_perm(1) [OF n(2)] by (simp add: stored_properties_def)
qed

lemma stored_codec:
  assumes "stored_properties p"
  shows "encodePropertyStorage p = Inr (map_values persist (p_All p))" "wf_props (wf_value 0) (Some (map_values persist (p_All p)))"
    "decodePropertyStorage (map_list (canon_props canon_value (Some (map_values persist (p_All p))))) = Inr (canon_properties p)"
proof -
  have inv: "p_inv p" "admissible (p_All p)" using assms by (simp_all add: stored_properties_def)
  show "encodePropertyStorage p = Inr (map_values persist (p_All p))" by (rule encode_storage [OF inv])
  show "wf_props (wf_value 0) (Some (map_values persist (p_All p)))" by (rule admissible_wf [OF inv(2)])
  show "decodePropertyStorage (map_list (canon_props canon_value (Some (map_values persist (p_All p))))) = Inr (canon_properties p)"
    using decode_canon_storage [OF inv] by (simp add: map_list_def canon_props_def)
qed

definition labels_fit :: "string list option \<Rightarrow> bool" where
  "labels_fit labels \<longleftrightarrow> (case labels of None \<Rightarrow> True | Some l \<Rightarrow> length l < 2 ^ 48 \<and> list_all (\<lambda>s. length s < 2 ^ 48) l)"

lemma labels_valid: "labels_loop seen l = None \<Longrightarrow> list_all utf8_string l"
  by (induction l arbitrary: seen) (auto split: if_splits)

lemma labels_wf: "ValidateCreateLabels labels = None \<Longrightarrow> labels_fit labels \<Longrightarrow> wf_opt wf_str labels"
  using labels_valid [of "[]"] by (cases labels) (auto simp: ValidateCreateLabels_def labels_fit_def wf_opt_def wf_str_def list_all_iff)

definition node_wire :: "NodeRecord \<Rightarrow> persistedNode" where
  "node_wire node = \<lparr>pn_ID = nr_ID node, pn_Labels = nr_Labels node, pn_Properties = Some (map_values persist (p_All (nr_Properties node)))\<rparr>"

definition edge_wire :: "EdgeRecord \<Rightarrow> persistedEdge" where
  "edge_wire edge = \<lparr>pe_ID = er_ID edge, pe_SourceID = er_SourceID edge, pe_TargetID = er_TargetID edge, pe_Type = er_Type edge,
     pe_Properties = Some (map_values persist (p_All (er_Properties edge)))\<rparr>"

lemma node_record_read:
  assumes "stored_properties (nr_Properties node)" "labels_fit (nr_Labels node)" "length (wire_node (node_wire node)) < 2 ^ 63"
    "encodePageNodeBounded (Some node) maxBytes = Inr data" "case admit of None \<Rightarrow> True | Some f \<Rightarrow> \<forall>h n. f h n = None"
  shows "decodePageNodeAdmitted data (nr_ID node) maxBytes admit = Inr (node\<lparr>nr_Properties := canon_properties (nr_Properties node)\<rparr>)"
proof -
  note c = stored_codec [OF assms(1)]
  have v: "ValidateEntityID (nr_ID node) = None" "ValidateCreateLabels (nr_Labels node) = None"
    "encodePageRecordBounded pageNodeRecord maxBytes (enc_node (node_wire node)) = Inr data"
    using assms(4) c(1) by (auto simp: encodePageNodeBounded_def node_wire_def split: option.splits)
  have wf: "wf_node (node_wire node)" using c(2) labels_wf [OF v(2) assms(2)] by (simp add: wf_node_def node_wire_def)
  have f: "decodePageRecordPayload data pageNodeRecord maxBytes = Inr (wire_node (node_wire node))"
    "ecost_node (node_wire node) \<le> unat (multiplySaturated maxBytes 2)" "length (wire_node (node_wire node)) < 2 ^ 64"
    using record_frame [OF node_emits [OF wf] _ v(3)] assms(3) by simp_all
  have "sum_list (dcost_node (node_wire node)) \<le> unat (multiplySaturated maxBytes 2)" using f(2) by (simp add: dcost_node_def ecost_node_def)
  from decode_frame [OF f(1) node_reads [OF wf] this f(3) assms(5)] obtain d d' where
    d: "decodePageRecord data pageNodeRecord maxBytes = Inr d" "run_state dec_node (d\<lparr>admitAllocation := admit\<rparr>) = (canon_node (node_wire node), d')" "dfinish d' = None" by blast
  then show ?thesis using v(1,2) c(3) by (simp add: decodePageNodeAdmitted_def canon_node_def node_wire_def)
qed

text \<open>
  C7. A node the store holds that was encoded as a page record within the limit is read back from that record under its
  identifier: the same labels, and the properties with nested maps in key order. The allocation the encoder admitted is
  the one the decoder charges, so the limit that let the record be written also lets it be read, whatever budget callback
  that accepts is installed.
\<close>

theorem page_node_roundtrip:
  assumes "stored_properties (nr_Properties node)" "labels_fit (nr_Labels node)" "length (wire_node (node_wire node)) < 2 ^ 63"
    "encodePageNodeBounded (Some node) maxBytes = Inr data" "case admit of None \<Rightarrow> True | Some f \<Rightarrow> \<forall>h n. f h n = None"
  shows "decodePageNodeAdmitted data (nr_ID node) maxBytes admit = Inr (node\<lparr>nr_Properties := canon_properties (nr_Properties node)\<rparr>)"
  by (rule node_record_read [OF assms])

text \<open>
  The same for an edge: identifier, endpoints and type come back unchanged, the properties with nested maps in key order.
\<close>

lemma edge_record_read:
  assumes "stored_properties (er_Properties edge)" "length (er_Type edge) < 2 ^ 48" "length (wire_edge (edge_wire edge)) < 2 ^ 63"
    "encodePageEdgeBounded (Some edge) maxBytes = Inr data" "case admit of None \<Rightarrow> True | Some f \<Rightarrow> \<forall>h n. f h n = None"
  shows "decodePageEdgeAdmitted data (er_ID edge) maxBytes admit = Inr (edge\<lparr>er_Properties := canon_properties (er_Properties edge)\<rparr>)"
proof -
  note c = stored_codec [OF assms(1)]
  have v: "validate_ids [er_ID edge, er_SourceID edge, er_TargetID edge] = None" "ValidateEdgeType (er_Type edge) = None"
    "encodePageRecordBounded pageEdgeRecord maxBytes (enc_edge (edge_wire edge)) = Inr data"
    using assms(4) c(1) by (auto simp: encodePageEdgeBounded_def edge_wire_def split: option.splits)
  have "wf_str (er_Type edge)" using v(2) assms(2) by (auto simp: ValidateEdgeType_def wf_str_def split: if_splits)
  then have wf: "wf_edge (edge_wire edge)" using c(2) by (simp add: wf_edge_def edge_wire_def)
  have f: "decodePageRecordPayload data pageEdgeRecord maxBytes = Inr (wire_edge (edge_wire edge))"
    "ecost_edge (edge_wire edge) \<le> unat (multiplySaturated maxBytes 2)" "length (wire_edge (edge_wire edge)) < 2 ^ 64"
    using record_frame [OF edge_emits [OF wf] _ v(3)] assms(3) by simp_all
  have "sum_list (dcost_edge (edge_wire edge)) \<le> unat (multiplySaturated maxBytes 2)" using f(2) by (simp add: dcost_edge_def ecost_edge_def)
  from decode_frame [OF f(1) edge_reads [OF wf] this f(3) assms(5)] obtain d d' where
    d: "decodePageRecord data pageEdgeRecord maxBytes = Inr d" "run_state dec_edge (d\<lparr>admitAllocation := admit\<rparr>) = (canon_edge (edge_wire edge), d')" "dfinish d' = None" by blast
  then show ?thesis using v(1,2) c(3) by (simp add: decodePageEdgeAdmitted_def canon_edge_def edge_wire_def)
qed

section \<open>Examples\<close>

lemma record_written:
  assumes "emits m w c" "length w + 6 \<le> unat maxBytes" "c \<le> unat (multiplySaturated maxBytes 2)"
  shows "\<exists>data. encodePageRecordBounded rkind maxBytes m = Inr data"
proof -
  define e0 where "e0 = (new_encoder (multiplySaturated maxBytes 2))\<lparr>eout := [pageRecordVersion, rkind, 0, 0, 0, 0]\<rparr>"
  have "enc_ready e0" "fits e0 c" using assms(3) by (simp_all add: enc_ready_def fits_def e0_def new_encoder_def)
  then have r: "run_state m e0 = ((), eadv w c e0)" using assms(1) unfolding emits_def by simp
  have "unat (word_of_nat (length w + 6) :: u64) = length w + 6"
    using assms(2) unsigned_less [of maxBytes, where 'a = nat] by (intro unat_word_of_nat_less) simp
  then have "\<not> (word_of_nat (length w + 6) :: u64) > maxBytes" using assms(2) by (simp only: word_less_nat_alt not_less)
  moreover have "length (eout (eadv w c e0)) = length w + 6" "eerr (eadv w c e0) = None" by (simp_all add: eadv_def e0_def new_encoder_def)
  ultimately show ?thesis unfolding encodePageRecordBounded_def encodePageRecordCapacity_def e0_def [symmetric] Let_def r snd_conv
    by (simp only: option.case if_False not_False_eq_True) blast
qed

definition example_properties :: Properties where
  "example_properties = of_entries [(''a'', GString ''x'')]"

definition example_node :: NodeRecord where
  "example_node = \<lparr>nr_ID = 7, nr_Labels = Some [''Person''], nr_Properties = example_properties\<rparr>"

definition example_edge :: EdgeRecord where
  "example_edge = \<lparr>er_ID = 9, er_SourceID = 7, er_TargetID = 8, er_Type = ''knows'', er_Properties = example_properties\<rparr>"

lemma example_entries: "p_All example_properties = [(''a'', GString ''x'')]"
  by (simp add: example_properties_def p_All_of_entries sort_entries_def)

lemma example_stored: "stored_properties example_properties"
  unfolding stored_properties_def example_entries
  by (simp add: example_properties_def of_entries_inv)
    (simp add: admissible_def all_entries_def utf8_string_def byte_of_char_def maxValueElements_def maxValueBytes_def)

lemma example_node_written: "\<exists>data. encodePageNodeBounded (Some example_node) 1000 = Inr data" "wf_node (node_wire example_node)" "length (wire_node (node_wire example_node)) < 100"
proof -
  note c = stored_codec [OF example_stored]
  have v: "ValidateEntityID (nr_ID example_node) = None" "ValidateCreateLabels (nr_Labels example_node) = None"
    by (simp_all add: example_node_def ValidateEntityID_def MaxEntityID_def ValidateCreateLabels_def utf8_string_def byte_of_char_def)
  have "labels_fit (nr_Labels example_node)" by (simp add: example_node_def labels_fit_def)
  then show wf: "wf_node (node_wire example_node)" using c(2) labels_wf [OF v(2)] by (simp add: wf_node_def node_wire_def example_node_def)
  have p: "pn_Properties (node_wire example_node) = Some [(''a'', PString ''x'')]"
    by (simp add: node_wire_def example_node_def example_entries map_values_def)
  show l: "length (wire_node (node_wire example_node)) < 100"
    by (simp add: wire_node_def p) (simp add: node_wire_def example_node_def codec_eval wire_props_def)
  have "ecost_node (node_wire example_node) \<le> unat (multiplySaturated 1000 2)"
    by (simp add: ecost_node_def p) (simp add: node_wire_def example_node_def codec_eval dcost_props_def)
  from record_written [OF node_emits [OF wf] _ this, of pageNodeRecord] l
  show "\<exists>data. encodePageNodeBounded (Some example_node) 1000 = Inr data"
    using v c(1) by (simp add: encodePageNodeBounded_def node_wire_def example_node_def)
qed

theorem page_node_roundtrip_witness:
  "\<exists>data. encodePageNodeBounded (Some example_node) 1000 = Inr data \<and>
     decodePageNodeAdmitted data 7 1000 None = Inr (example_node\<lparr>nr_Properties := canon_properties (nr_Properties example_node)\<rparr>)"
proof -
  obtain data where d: "encodePageNodeBounded (Some example_node) 1000 = Inr data" using example_node_written(1) by blast
  have s: "stored_properties (nr_Properties example_node)" "labels_fit (nr_Labels example_node)" "length (wire_node (node_wire example_node)) < 2 ^ 63"
    using example_stored example_node_written(3) by (simp_all add: example_node_def labels_fit_def)
  have "nr_ID example_node = 7" by (simp add: example_node_def)
  then show ?thesis using page_node_roundtrip [OF s d, of None] d by simp
qed

lemma edge_record_example:
  "\<exists>data. encodePageEdgeBounded (Some example_edge) 1000 = Inr data \<and>
     decodePageEdgeAdmitted data 9 1000 None = Inr (example_edge\<lparr>er_Properties := canon_properties (er_Properties example_edge)\<rparr>)"
proof -
  note c = stored_codec [OF example_stored]
  have v: "validate_ids [er_ID example_edge, er_SourceID example_edge, er_TargetID example_edge] = None" "ValidateEdgeType (er_Type example_edge) = None"
    by (simp_all add: example_edge_def ValidateEntityID_def MaxEntityID_def ValidateEdgeType_def utf8_string_def byte_of_char_def)
  then have wf: "wf_edge (edge_wire example_edge)"
    using c(2) by (auto simp: wf_edge_def edge_wire_def example_edge_def wf_str_def ValidateEdgeType_def split: if_splits)
  have p: "pe_Properties (edge_wire example_edge) = Some [(''a'', PString ''x'')]"
    by (simp add: edge_wire_def example_edge_def example_entries map_values_def)
  have l: "length (wire_edge (edge_wire example_edge)) < 100"
    by (simp add: wire_edge_def p) (simp add: edge_wire_def example_edge_def codec_eval wire_props_def)
  have "ecost_edge (edge_wire example_edge) \<le> unat (multiplySaturated 1000 2)"
    by (simp add: ecost_edge_def p) (simp add: edge_wire_def example_edge_def codec_eval dcost_props_def)
  from record_written [OF edge_emits [OF wf] _ this, of pageEdgeRecord] l
  obtain data where d: "encodePageEdgeBounded (Some example_edge) 1000 = Inr data"
    using v c(1) by (auto simp: encodePageEdgeBounded_def edge_wire_def example_edge_def)
  have s: "stored_properties (er_Properties example_edge)" "length (er_Type example_edge) < 2 ^ 48" "length (wire_edge (edge_wire example_edge)) < 2 ^ 63"
    using example_stored l by (simp_all add: example_edge_def)
  have "er_ID example_edge = 9" by (simp add: example_edge_def)
  then show ?thesis using edge_record_read [OF s d, of None] d by simp
qed

theorem page_record_damage_detected_witness:
  "\<exists>data er. encodePageNodeBounded (Some example_node) 1000 = Inr data \<and>
     decodePageRecordPayload (data[6 := data ! 6 + 1]) pageNodeRecord 1000 = Inl er"
proof -
  obtain data where d: "encodePageNodeBounded (Some example_node) 1000 = Inr data" using example_node_written(1) by blast
  then have "encodePageRecordBounded pageNodeRecord 1000 (enc_node (node_wire example_node)) = Inr data"
    using stored_codec(1) [OF example_stored] by (auto simp: encodePageNodeBounded_def node_wire_def example_node_def split: option.splits)
  from record_frame [OF node_emits [OF example_node_written(2)] _ this]
  have p: "decodePageRecordPayload data pageNodeRecord 1000 = Inr (wire_node (node_wire example_node))" using example_node_written(3) by simp
  moreover have "wire_node (node_wire example_node) \<noteq> []" by (simp add: wire_node_def put_uvarint_nonempty)
  ultimately have "6 < length data" by (auto simp: payload_accepted)
  then have "differ_within 6 1 data (data[6 := data ! 6 + 1])" by (auto simp: differ_within_def list_eq_iff_nth_eq nth_list_update intro!: exI [of _ 6])
  then show ?thesis using page_record_damage_detected [OF p] d by blast
qed

end
