(* ===== verification/PageKeys.thy ===== *)
theory PageKeys
  imports PageRecords "HOL-Library.Sublist"
begin

unbundle bit_operations_syntax

text \<open>
  The keys of the page store (\<^verbatim>\<open>internal/store/page_graph.go\<close>). Identifiers are big-endian, strings carry their length, and
  the canonical order of edges is kept by a key whose bytes compare as the edges do (\<^verbatim>\<open>compareCanonicalEdges\<close> of
  \<^verbatim>\<open>internal/exporter/ordered_edges.go\<close>). \<^verbatim>\<open>bytes.Compare\<close> is the lexicographic order of byte lists.
\<close>

section \<open>The code\<close>

definition pageID :: "u64 \<Rightarrow> byte list" where
  "pageID ident = be64 ident"

definition pagePair :: "u64 \<Rightarrow> u64 \<Rightarrow> byte list" where
  "pagePair first second = be64 first @ be64 second"

definition pageStringPrefix :: "string \<Rightarrow> byte list" where
  "pageStringPrefix v = be32 (word_of_nat (length v)) @ string_bytes v"

definition pageStringID :: "string \<Rightarrow> u64 \<Rightarrow> byte list" where
  "pageStringID v ident = pageStringPrefix v @ pageID ident"

text \<open>The loop \<^verbatim>\<open>for i := len(end) - 1; i >= 0; i--\<close>; the argument is \<open>i + 1\<close>.\<close>

fun prefix_end_loop :: "nat \<Rightarrow> byte list \<Rightarrow> byte list option" where
  "prefix_end_loop 0 e = None"
| "prefix_end_loop (Suc i) e = (if e ! i \<noteq> 255 then Some (take (i + 1) (e[i := e ! i + 1])) else prefix_end_loop i e)"

definition pagePrefixEnd :: "byte list \<Rightarrow> byte list option" where
  "pagePrefixEnd p = prefix_end_loop (length p) p"

fun escape_zeros :: "byte list \<Rightarrow> byte list" where
  "escape_zeros [] = []"
| "escape_zeros (v # vs) = (if v = 0 then [v, 1] else [v]) @ escape_zeros vs"

definition pageCanonicalEdgeKey :: "EdgeRecord \<Rightarrow> byte list" where
  "pageCanonicalEdgeKey edge =
     pagePair (er_SourceID edge) (er_TargetID edge) @ escape_zeros (string_bytes (er_Type edge)) @ [0, 0] @ pageID (er_ID edge)"

definition compareCanonicalEdges :: "EdgeRecord \<Rightarrow> EdgeRecord \<Rightarrow> int" where
  "compareCanonicalEdges left right =
     (if er_SourceID left < er_SourceID right then - 1
      else if er_SourceID left > er_SourceID right then 1
      else if er_TargetID left < er_TargetID right then - 1
      else if er_TargetID left > er_TargetID right then 1
      else if er_Type left < er_Type right then - 1
      else if er_Type left > er_Type right then 1
      else if er_ID left < er_ID right then - 1
      else if er_ID left > er_ID right then 1
      else 0)"

text \<open>\<^verbatim>\<open>bytes.Compare\<close>\<close>

definition bytes_Compare :: "byte list \<Rightarrow> byte list \<Rightarrow> int" where
  "bytes_Compare a b = (if a < b then - 1 else if b < a then 1 else 0)"

section \<open>Prefixes\<close>

text \<open>What a scan from \<open>start\<close> to \<open>end\<close> visits; an \<open>end\<close> of \<^verbatim>\<open>nil\<close> is no bound.\<close>

definition in_range :: "byte list \<Rightarrow> byte list option \<Rightarrow> byte list \<Rightarrow> bool" where
  "in_range start end key \<longleftrightarrow> start \<le> key \<and> (case end of None \<Rightarrow> True | Some e \<Rightarrow> key < e)"

lemma prefix_end_loop_Cons:
  "n \<le> length p \<Longrightarrow> prefix_end_loop (Suc n) (b # p) =
    (case prefix_end_loop n p of Some e \<Rightarrow> Some (b # e) | None \<Rightarrow> if b \<noteq> 255 then Some [b + 1] else None)"
proof (induction n)
  case (Suc n)
  then have "n < length p" by simp
  then show ?case using Suc by (subst prefix_end_loop.simps(2)) simp
qed simp

lemma pagePrefixEnd_simps [simp]:
  "pagePrefixEnd [] = None"
  "pagePrefixEnd (b # p) =
    (case pagePrefixEnd p of Some e \<Rightarrow> Some (b # e) | None \<Rightarrow> if b \<noteq> 255 then Some [b + 1] else None)"
  using prefix_end_loop_Cons [of "length p" p b] by (simp_all add: pagePrefixEnd_def)

lemma byte_less_Suc: "b \<noteq> 255 \<Longrightarrow> c < b + 1 \<longleftrightarrow> c \<le> b" for b c :: byte
proof -
  assume "b \<noteq> 255"
  then have "unat b \<noteq> 255" by (simp add: word_unat_eq_iff)
  moreover have "unat b < 256" by (rule unat_bounds)
  ultimately have "unat (b + 1) = Suc (unat b)" by (simp add: unat_word_ariths)
  then show ?thesis by (simp add: word_less_nat_alt word_le_nat_alt less_Suc_eq_le)
qed

lemma byte_max: "\<not> (255 :: byte) < c"
  using unat_bounds(4) [of c] by (simp add: word_less_nat_alt)

lemma prefix_range: "in_range p (pagePrefixEnd p) k \<longleftrightarrow> prefix p k"
proof (induction p arbitrary: k)
  case Nil
  then show ?case by (simp add: in_range_def)
next
  case (Cons b p)
  show ?case
  proof (cases k)
    case Nil
    then show ?thesis by (simp add: in_range_def)
  next
    case (Cons c r)
    have ih: "in_range p (pagePrefixEnd p) r \<longleftrightarrow> prefix p r" by (rule Cons.IH)
    show ?thesis
    proof (cases "pagePrefixEnd p")
      case (Some e)
      then show ?thesis using ih Cons by (auto simp: in_range_def)
    next
      case None
      then show ?thesis using ih Cons byte_less_Suc [of b c] byte_max [of c] by (auto simp: in_range_def)
    qed
  qed
qed

section \<open>Order\<close>

text \<open>Lists of one length compare as the numbers they spell in base 256.\<close>

fun be_val :: "byte list \<Rightarrow> nat" where
  "be_val [] = 0"
| "be_val (b # bs) = unat b * 256 ^ length bs + be_val bs"

lemma be_val_less: "be_val bs < 256 ^ length bs"
proof (induction bs)
  case (Cons b bs)
  have "unat b * 256 ^ length bs + be_val bs < (unat b + 1) * 256 ^ length bs" using Cons by simp
  also have "\<dots> \<le> 256 * 256 ^ length bs" using unat_bounds(4) [of b] by (intro mult_right_mono) auto
  finally show ?case by simp
qed simp

lemma digits_less:
  fixes x y a b m :: nat
  assumes "a < m" "b < m"
  shows "x * m + a < y * m + b \<longleftrightarrow> x < y \<or> x = y \<and> a < b"
proof -
  have "u < v \<Longrightarrow> s < m \<Longrightarrow> u * m + s < v * m + t" for u v s t :: nat
  proof -
    assume a: "u < v" "s < m"
    then have "u * m + s < (u + 1) * m" by simp
    also have "\<dots> \<le> v * m" using a by (intro mult_right_mono) auto
    finally show ?thesis by simp
  qed
  from this [of x y a b] this [of y x b a] show ?thesis
    using assms by (cases x y rule: linorder_cases) auto
qed

lemma be_val_order: "length a = length b \<Longrightarrow> a < b \<longleftrightarrow> be_val a < be_val b"
proof (induction a b rule: list_induct2)
  case (Cons x xs y ys)
  then have "be_val ys < 256 ^ length xs" using be_val_less [of ys] by simp
  then show ?case
    using Cons digits_less [OF be_val_less [of xs], of "be_val ys" "unat x" "unat y"]
    by (auto simp: word_less_nat_alt word_unat_eq_iff)
qed simp

lemma be64_val: "be_val (be64 w) = unat w"
proof -
  have fold: "unat (fold (\<lambda>b acc. push_bit 8 acc OR ucast b) bs acc :: u64) = unat acc * 256 ^ length bs + be_val bs"
    if "unat acc * 256 ^ length bs + be_val bs < 2 ^ 64" for bs and acc :: u64
    using that
  proof (induction bs arbitrary: acc)
    case (Cons b bs)
    have "unat acc * 256 * 1 \<le> unat acc * 256 * 256 ^ length bs" by (intro mult_left_mono) auto
    also have "\<dots> = unat acc * 256 ^ length (b # bs)" by simp
    also have "\<dots> < 2 ^ 64" using Cons.prems by linarith
    finally have "unat acc < 2 ^ (64 - 8)" by simp
    moreover have "unat (ucast b :: u64) = unat b" using unat_bounds(4) [of b] by (simp add: unat_ucast_mod)
    ultimately have s: "unat (push_bit 8 acc OR ucast b) = unat acc * 256 + unat b"
      using unat_push_bit_or [of "ucast b" 8 acc] unat_bounds(4) [of b] by simp
    have "(unat acc * 256 + unat b) * 256 ^ length bs + be_val bs = unat acc * 256 ^ length (b # bs) + be_val (b # bs)"
      by (simp add: algebra_simps)
    then show ?case using Cons s by simp
  qed simp
  have "be_val (be64 w) < 2 ^ 64" using be_val_less [of "be64 w"] by simp
  then have "unat (from_be64 (be64 w)) = be_val (be64 w)" unfolding from_be64_def by (subst fold) simp_all
  then show ?thesis by simp
qed

lemma be64_less [simp]: "be64 x < be64 y \<longleftrightarrow> x < y"
  by (simp add: be_val_order be64_val word_less_nat_alt)

lemma be64_eq [simp]: "be64 x = be64 y \<longleftrightarrow> x = y"
  by (metis from_be64_be64)

lemma append_less: "length a = length b \<Longrightarrow> a @ s < b @ t \<longleftrightarrow> a < b \<or> a = b \<and> s < t"
  for a b s t :: "byte list"
  by (induction a b rule: list_induct2) auto

lemma be64_append_less [simp]: "be64 x @ s < be64 y @ t \<longleftrightarrow> x < y \<or> x = y \<and> s < t"
  by (simp add: append_less)

lemma be64_append_eq [simp]: "be64 x @ s = be64 y @ t \<longleftrightarrow> x = y \<and> s = t"
  by simp

lemma string_bytes_less [simp]: "string_bytes s < string_bytes t \<longleftrightarrow> s < t"
proof (induction s arbitrary: t)
  case Nil
  then show ?case by (cases t) auto
next
  case (Cons c s)
  have c: "byte_of_char x < byte_of_char y \<longleftrightarrow> x < y" for x y
    by (simp add: byte_of_char_def word_less_nat_alt unat_of_nat less_char_def)
  have "byte_of_char x = byte_of_char y \<longleftrightarrow> x = y" for x y
    by (metis char_of_byte_of_char)
  with c Cons show ?case by (cases t) auto
qed

text \<open>Escaping keeps the order, and what follows the terminator decides only between equal strings.\<close>

lemma escape_less:
  "escape_zeros s @ 0 # 0 # u < escape_zeros t @ 0 # 0 # v \<longleftrightarrow> s < t \<or> s = t \<and> u < v"
proof (induction s arbitrary: t)
  case Nil
  show ?case
  proof (cases t)
    case (Cons c r)
    then show ?thesis by (cases "c = 0") (auto simp: word_neq_0_conv)
  qed simp
next
  case (Cons b s)
  show ?case
  proof (cases t)
    case Nil
    then show ?thesis by (cases "b = 0") auto
  next
    case (Cons c r)
    then show ?thesis using Cons.IH [of r] by (cases "b = 0"; cases "c = 0") (auto simp: word_neq_0_conv)
  qed
qed

lemma canonical_less:
  "pageCanonicalEdgeKey a < pageCanonicalEdgeKey b \<longleftrightarrow>
     er_SourceID a < er_SourceID b \<or> er_SourceID a = er_SourceID b \<and>
     (er_TargetID a < er_TargetID b \<or> er_TargetID a = er_TargetID b \<and>
     (er_Type a < er_Type b \<or> er_Type a = er_Type b \<and> er_ID a < er_ID b))"
proof -
  have "string_bytes s = string_bytes t \<longleftrightarrow> s = t" for s t
    using bytes_string_bytes [of s] bytes_string_bytes [of t] by metis
  then show ?thesis
    using escape_less [of "string_bytes (er_Type a)" "be64 (er_ID a)" "string_bytes (er_Type b)" "be64 (er_ID b)"]
    by (simp add: pageCanonicalEdgeKey_def pagePair_def pageID_def)
qed

lemma canonical_compare: "bytes_Compare (pageCanonicalEdgeKey a) (pageCanonicalEdgeKey b) = compareCanonicalEdges a b"
  unfolding bytes_Compare_def canonical_less compareCanonicalEdges_def by auto

lemma canonical_key_inj: "pageCanonicalEdgeKey a = pageCanonicalEdgeKey b \<longleftrightarrow>
    er_SourceID a = er_SourceID b \<and> er_TargetID a = er_TargetID b \<and> er_Type a = er_Type b \<and> er_ID a = er_ID b"
proof -
  have "pageCanonicalEdgeKey a = pageCanonicalEdgeKey b \<longleftrightarrow> compareCanonicalEdges a b = 0"
    unfolding canonical_compare [symmetric] bytes_Compare_def by auto
  also have "\<dots> \<longleftrightarrow> er_SourceID a = er_SourceID b \<and> er_TargetID a = er_TargetID b \<and> er_Type a = er_Type b \<and> er_ID a = er_ID b"
    unfolding compareCanonicalEdges_def by (simp split: if_splits) fastforce
  finally show ?thesis .
qed

text \<open>
  C33. Byte keys order edges as the exporter does: comparing two canonical edge keys by their bytes gives what
  \<^verbatim>\<open>compareCanonicalEdges\<close> gives for the edges, so a scan of the key bucket and the sort in memory export the same order.
\<close>

theorem canonical_key_order:
  "bytes_Compare (pageCanonicalEdgeKey a) (pageCanonicalEdgeKey b) = compareCanonicalEdges a b"
  by (rule canonical_compare)

text \<open>
  The range that \<^verbatim>\<open>visitIDs\<close> scans for a prefix, from the prefix to \<^verbatim>\<open>pagePrefixEnd\<close>, holds exactly the keys with that
  prefix, also for prefixes that end in bytes 255.
\<close>

theorem page_prefix_range:
  "in_range p (pagePrefixEnd p) k = prefix p k"
  by (rule prefix_range)

end
