(* ===== verification/RecordCache.thy ===== *)
theory RecordCache
  imports GoBytes "HOL-Library.Multiset"
begin

text \<open>
  The cache of records read from the page file (\<^verbatim>\<open>internal/pagestore/cache.go\<close>): a map from keys to elements of a
  \<^verbatim>\<open>container/list\<close> in order of use, with a bound on the bytes it keeps. An element is a number that stands for its pointer;
  \<open>rc_fresh\<close> is the next number. The map of a zero cache is nil, as an option. Evicting from an empty list would
  dereference a nil element; \<^term>\<open>None\<close> is that panic. The mutex makes each operation one step.
\<close>

section \<open>The code\<close>

record recordCacheKey =
  ck_generation :: int
  ck_bucket :: string
  ck_key :: string

record cachedRecord =
  cr_key :: recordCacheKey
  cr_value :: "byte list"
  cr_size :: u64

record recordCache =
  rc_limit :: u64
  rc_used :: u64
  rc_entries :: "(recordCacheKey \<times> nat) list option"
  rc_lru :: "(nat \<times> cachedRecord) list"
  rc_fresh :: nat

text \<open>\<^verbatim>\<open>recordCache{limit: opts.CacheBytes}\<close>\<close>

definition new_cache :: "u64 \<Rightarrow> recordCache" where
  "new_cache n = \<lparr>rc_limit = n, rc_used = 0, rc_entries = None, rc_lru = [], rc_fresh = 0\<rparr>"

definition rc_element :: "recordCache \<Rightarrow> recordCacheKey \<Rightarrow> nat option" where
  "rc_element c key = (case rc_entries c of None \<Rightarrow> None | Some l \<Rightarrow> map_of l key)"

text \<open>\<^verbatim>\<open>c.lru.MoveToFront(e)\<close>, which ignores an element of another list.\<close>

definition moveToFront :: "nat \<Rightarrow> (nat \<times> cachedRecord) list \<Rightarrow> (nat \<times> cachedRecord) list" where
  "moveToFront e l = (case map_of l e of None \<Rightarrow> l | Some r \<Rightarrow> (e, r) # AList.delete e l)"

definition rc_get :: "recordCacheKey \<Rightarrow> recordCache \<Rightarrow> byte list option \<times> recordCache" where
  "rc_get key c =
     (if rc_limit c = 0 then (None, c)
      else (case rc_element c key of
              None \<Rightarrow> (None, c)
            | Some e \<Rightarrow> (map_option cr_value (map_of (rc_lru c) e), c\<lparr>rc_lru := moveToFront e (rc_lru c)\<rparr>)))"

definition record_size :: "recordCacheKey \<Rightarrow> byte list \<Rightarrow> u64" where
  "record_size key v = word_of_nat (length (ck_bucket key)) + word_of_nat (length (ck_key key)) + word_of_nat (length v) + 192"

definition rc_drop :: "recordCache \<Rightarrow> nat \<times> cachedRecord \<Rightarrow> recordCache" where
  "rc_drop c el = (case el of (e, r) \<Rightarrow>
     c\<lparr>rc_entries := map_option (AList.delete (cr_key r)) (rc_entries c), rc_used := rc_used c - cr_size r,
       rc_lru := AList.delete e (rc_lru c)\<rparr>)"

function rc_evict :: "u64 \<Rightarrow> recordCache \<Rightarrow> recordCache option" where
  "rc_evict sz c =
     (if rc_used c > rc_limit c - sz
      then if rc_lru c = [] then None else rc_evict sz (rc_drop c (last (rc_lru c)))
      else Some c)"
  by pat_completeness auto
termination
proof (relation "measure (\<lambda>(sz, c). length (rc_lru c))", goal_cases)
  case (2 sz c)
  obtain e r where l: "last (rc_lru c) = (e, r)" by (rule prod.exhaust)
  then have "(e, r) \<in> set (rc_lru c)" using 2 last_in_set [of "rc_lru c"] by simp
  then have "length (AList.delete e (rc_lru c)) < length (rc_lru c)"
    unfolding AList.delete_eq by (intro length_filter_less [where x = "(e, r)"]) auto
  then show ?case by (simp add: rc_drop_def l)
qed simp

declare rc_evict.simps [simp del]

definition rc_put :: "recordCacheKey \<Rightarrow> byte list option \<Rightarrow> recordCache \<Rightarrow> recordCache option" where
  "rc_put key v c = (case v of
     None \<Rightarrow> Some c
   | Some bs \<Rightarrow>
       if rc_limit c = 0 then Some c
       else let sz = record_size key bs in
         if sz > rc_limit c then Some c
         else if rc_element c key \<noteq> None then Some c
         else (case rc_evict sz c of
                 None \<Rightarrow> None
               | Some c1 \<Rightarrow>
                   let entries = (case rc_entries c1 of None \<Rightarrow> [] | Some l \<Rightarrow> l) in
                   Some (c1\<lparr>rc_entries := Some (AList.update key (rc_fresh c1) entries),
                            rc_lru := (rc_fresh c1, \<lparr>cr_key = key, cr_value = bs, cr_size = sz\<rparr>) # rc_lru c1,
                            rc_fresh := Suc (rc_fresh c1), rc_used := rc_used c1 + sz\<rparr>)))"

definition rc_clear :: "recordCache \<Rightarrow> recordCache" where
  "rc_clear c = c\<lparr>rc_entries := None, rc_lru := [], rc_used := 0\<rparr>"

section \<open>The invariant\<close>

definition cache_total :: "recordCache \<Rightarrow> nat" where
  "cache_total c = sum_list (map (\<lambda>(e, r). unat (cr_size r)) (rc_lru c))"

text \<open>
  The map and the list hold the same elements, no element or key occurs twice, new elements are new, and the bytes are
  counted exactly and within the limit.
\<close>

definition cache_ok :: "recordCache \<Rightarrow> bool" where
  "cache_ok c \<longleftrightarrow> distinct (map fst (rc_lru c)) \<and> distinct (map (cr_key \<circ> snd) (rc_lru c)) \<and>
     (\<forall>e\<in>set (map fst (rc_lru c)). e < rc_fresh c) \<and>
     rc_element c = map_of (map (\<lambda>(e, r). (cr_key r, e)) (rc_lru c)) \<and>
     cache_total c = unat (rc_used c) \<and> rc_used c \<le> rc_limit c \<and> (rc_limit c = 0 \<longrightarrow> rc_lru c = [])"

text \<open>What the cache holds, as a map.\<close>

definition cache_view :: "recordCache \<Rightarrow> recordCacheKey \<rightharpoonup> byte list" where
  "cache_view c = map_of (map (\<lambda>(e, r). (cr_key r, cr_value r)) (rc_lru c))"

lemma new_cache_ok: "cache_ok (new_cache n)"
  by (simp add: cache_ok_def new_cache_def cache_total_def rc_element_def fun_eq_iff)

lemma cache_view_new [simp]: "cache_view (new_cache n) = Map.empty" "cache_view (rc_clear c) = Map.empty"
  by (simp_all add: cache_view_def new_cache_def rc_clear_def)

lemma clear_ok: "cache_ok (rc_clear c)"
  by (simp add: cache_ok_def rc_clear_def cache_total_def rc_element_def fun_eq_iff)

text \<open>A list with distinct keys is determined, as a map and as a total, by its set.\<close>

lemma mset_delete_split:
  assumes "distinct (map fst l)" "(e, r) \<in> set l"
  shows "mset l = add_mset (e, r) (mset (AList.delete e l))"
  using assms
proof (induction l)
  case (Cons x l)
  show ?case
  proof (cases "x = (e, r)")
    case True
    then have "e \<notin> fst ` set l" using Cons.prems by auto
    then have "AList.delete e l = l" unfolding AList.delete_eq by (intro filter_True) force
    with True show ?thesis by simp
  next
    case False
    then have "(e, r) \<in> set l" using Cons.prems by auto
    then have "e \<noteq> fst x" using Cons.prems by (auto simp: rev_image_eqI)
    then show ?thesis using Cons \<open>(e, r) \<in> set l\<close> by (cases x) auto
  qed
qed simp

lemma map_of_mset:
  assumes "mset l = mset l'" "distinct (map fst l)"
  shows "map_of l = map_of l'"
proof -
  have "distinct (map fst l')" using assms by (metis mset_map mset_eq_imp_distinct_iff)
  then show ?thesis using assms by (metis map_of_inject_set mset_eq_setD)
qed

lemma perm_ok:
  assumes "cache_ok c" "mset l = mset (rc_lru c)"
  shows "cache_ok (c\<lparr>rc_lru := l\<rparr>)" "cache_view (c\<lparr>rc_lru := l\<rparr>) = cache_view c"
proof -
  have d: "distinct (map fst (rc_lru c))" "distinct (map (cr_key \<circ> snd) (rc_lru c))"
    using assms(1) by (simp_all add: cache_ok_def)
  have m: "mset (map f l) = mset (map f (rc_lru c))" for f :: "nat \<times> cachedRecord \<Rightarrow> 'b" using assms(2) by simp
  have k: "distinct (map (cr_key \<circ> snd) l)" using d(2) m mset_eq_imp_distinct_iff by blast
  have ks: "map fst (map (\<lambda>(e, r). (cr_key r, f e r)) l) = map (cr_key \<circ> snd) l" for f :: "nat \<Rightarrow> cachedRecord \<Rightarrow> 'b"
    by (simp add: case_prod_beta o_def)
  have mo: "map_of (map (\<lambda>(e, r). (cr_key r, f e r)) l) = map_of (map (\<lambda>(e, r). (cr_key r, f e r)) (rc_lru c))"
    for f :: "nat \<Rightarrow> cachedRecord \<Rightarrow> 'b"
    using k m by (intro map_of_mset) (simp_all only: ks)
  have "cache_total (c\<lparr>rc_lru := l\<rparr>) = cache_total c"
    by (simp add: cache_total_def sum_mset_sum_list [symmetric] assms(2))
  moreover have "distinct (map fst l)" using d(1) m mset_eq_imp_distinct_iff by blast
  moreover have "set (map fst l) = set (map fst (rc_lru c))" using m by (metis mset_eq_setD)
  moreover have "rc_lru c = [] \<Longrightarrow> l = []" using assms(2) by simp
  moreover have "rc_element (c\<lparr>rc_lru := l\<rparr>) = rc_element c" by (simp add: rc_element_def fun_eq_iff)
  ultimately show "cache_ok (c\<lparr>rc_lru := l\<rparr>)" using assms(1) k mo [of "\<lambda>e r. e"] unfolding cache_ok_def by auto
  show "cache_view (c\<lparr>rc_lru := l\<rparr>) = cache_view c" using mo [of "\<lambda>e r. cr_value r"] by (simp add: cache_view_def)
qed

lemma drop_ok:
  assumes "cache_ok c" "rc_lru c = l @ [(e, r)]"
  shows "cache_ok (rc_drop c (e, r))" "cache_view (rc_drop c (e, r)) = (cache_view c)(cr_key r := None)"
    "rc_lru (rc_drop c (e, r)) = l" "rc_limit (rc_drop c (e, r)) = rc_limit c"
    "rc_element (rc_drop c (e, r)) = (rc_element c)(cr_key r := None)"
proof -
  have ok: "distinct (map fst l)" "e \<notin> fst ` set l" "distinct (map (cr_key \<circ> snd) l)" "cr_key r \<notin> (cr_key \<circ> snd) ` set l"
    and el: "rc_element c = map_of (map (\<lambda>(e, r). (cr_key r, e)) (l @ [(e, r)]))"
    and tot: "cache_total c = unat (rc_used c)" "rc_used c \<le> rc_limit c" "\<forall>e\<in>set (map fst l). e < rc_fresh c" "rc_limit c \<noteq> 0"
    using assms by (simp_all add: cache_ok_def)
  show l: "rc_lru (rc_drop c (e, r)) = l"
    using ok(2) unfolding rc_drop_def assms(2) AList.delete_eq by (simp add: filter_True) (intro filter_True, force)
  show "rc_limit (rc_drop c (e, r)) = rc_limit c" by (simp add: rc_drop_def)
  have cut: "map_of (map (\<lambda>(e, r). (cr_key r, f e r)) l) = (map_of (map (\<lambda>(e, r). (cr_key r, f e r)) (l @ [(e, r)])))(cr_key r := None)"
    for f :: "nat \<Rightarrow> cachedRecord \<Rightarrow> 'b"
  proof
    fix k
    have "cr_key r \<notin> fst ` set (map (\<lambda>(e, r). (cr_key r, f e r)) l)" using ok(4) by (auto simp: image_image case_prod_beta)
    then have "map_of (map (\<lambda>(e, r). (cr_key r, f e r)) l) (cr_key r) = None" by (simp add: map_of_eq_None_iff)
    then show "map_of (map (\<lambda>(e, r). (cr_key r, f e r)) l) k =
      ((map_of (map (\<lambda>(e, r). (cr_key r, f e r)) (l @ [(e, r)])))(cr_key r := None)) k"
      by (auto simp: map_add_def split: option.splits)
  qed
  show e: "rc_element (rc_drop c (e, r)) = (rc_element c)(cr_key r := None)"
    by (auto simp: rc_element_def rc_drop_def fun_eq_iff delete_conv split: option.splits)
  show "cache_view (rc_drop c (e, r)) = (cache_view c)(cr_key r := None)"
    unfolding cache_view_def l assms(2) by (rule cut)
  have t: "unat (rc_used c) = sum_list (map (\<lambda>(e, r). unat (cr_size r)) l) + unat (cr_size r)"
    using tot(1) unfolding cache_total_def assms(2) by simp
  then have le: "cr_size r \<le> rc_used c" by (simp add: word_le_nat_alt)
  have u: "rc_used (rc_drop c (e, r)) = rc_used c - cr_size r" by (simp add: rc_drop_def)
  have un: "unat (rc_used c - cr_size r) = unat (rc_used c) - unat (cr_size r)" using le by (simp add: unat_sub)
  have "rc_used c - cr_size r \<le> rc_limit c" using un tot(2) by (simp add: word_le_nat_alt)
  moreover have "cache_total (rc_drop c (e, r)) = unat (rc_used c - cr_size r)" unfolding cache_total_def l un t by simp
  moreover have "rc_fresh (rc_drop c (e, r)) = rc_fresh c" "rc_limit (rc_drop c (e, r)) = rc_limit c" by (simp_all add: rc_drop_def)
  moreover have "rc_element (rc_drop c (e, r)) = map_of (map (\<lambda>(e, r). (cr_key r, e)) l)" by (simp only: e el cut)
  ultimately show "cache_ok (rc_drop c (e, r))"
    using ok tot(3,4) unfolding cache_ok_def l u by simp
qed

lemma evict_ok:
  assumes "cache_ok c" "sz \<le> rc_limit c"
  shows "\<exists>c'. rc_evict sz c = Some c' \<and> cache_ok c' \<and> rc_used c' \<le> rc_limit c - sz \<and> rc_limit c' = rc_limit c \<and>
    cache_view c' \<subseteq>\<^sub>m cache_view c \<and> rc_element c' \<subseteq>\<^sub>m rc_element c"
  using assms
proof (induction sz c rule: rc_evict.induct)
  case (1 sz c)
  show ?case
  proof (cases "rc_used c > rc_limit c - sz")
    case False
    then show ?thesis using 1 by (subst rc_evict.simps) simp
  next
    case True
    have "rc_lru c \<noteq> []"
    proof
      assume "rc_lru c = []"
      then have "unat (rc_used c) = 0" using "1.prems"(1) by (simp add: cache_ok_def cache_total_def)
      then show False using True by (simp add: word_less_nat_alt)
    qed
    then obtain l e r where l: "rc_lru c = l @ [(e, r)]" by (metis append_butlast_last_id surj_pair)
    let ?d = "rc_drop c (e, r)"
    note d = drop_ok [OF "1.prems"(1) l]
    have "\<exists>c'. rc_evict sz ?d = Some c' \<and> cache_ok c' \<and> rc_used c' \<le> rc_limit ?d - sz \<and> rc_limit c' = rc_limit ?d \<and>
      cache_view c' \<subseteq>\<^sub>m cache_view ?d \<and> rc_element c' \<subseteq>\<^sub>m rc_element ?d"
      using "1.IH" [OF True \<open>rc_lru c \<noteq> []\<close>] d(1,4) "1.prems"(2) by (simp add: l)
    moreover have "rc_evict sz c = rc_evict sz ?d" using True l by (subst rc_evict.simps) simp
    moreover have "cache_view ?d \<subseteq>\<^sub>m cache_view c" "rc_element ?d \<subseteq>\<^sub>m rc_element c"
      unfolding d(2) d(5) by (auto simp: map_le_def)
    ultimately show ?thesis unfolding d(4) by (metis map_le_trans)
  qed
qed

lemma get_ok:
  assumes "cache_ok c"
  shows "fst (rc_get key c) = cache_view c key" "cache_ok (snd (rc_get key c))"
    "cache_view (snd (rc_get key c)) = cache_view c" "rc_limit (snd (rc_get key c)) = rc_limit c"
proof -
  have ok: "distinct (map fst (rc_lru c))" "rc_element c = map_of (map (\<lambda>(e, r). (cr_key r, e)) (rc_lru c))"
    "distinct (map (cr_key \<circ> snd) (rc_lru c))" "rc_limit c = 0 \<Longrightarrow> rc_lru c = []" using assms by (simp_all add: cache_ok_def)
  show "rc_limit (snd (rc_get key c)) = rc_limit c" by (simp add: rc_get_def split: option.splits)
  have "fst (rc_get key c) = cache_view c key \<and> cache_ok (snd (rc_get key c)) \<and> cache_view (snd (rc_get key c)) = cache_view c"
  proof (cases "rc_element c key")
    case None
    then have "cache_view c key = None"
      unfolding cache_view_def ok(2) map_of_eq_None_iff by (auto simp: image_image case_prod_beta)
    then show ?thesis using None assms by (simp add: rc_get_def)
  next
    case (Some e)
    then obtain r where r: "(e, r) \<in> set (rc_lru c)" "cr_key r = key"
      unfolding ok(2) by (auto dest!: map_of_SomeD)
    have "map_of (rc_lru c) e = Some r" using r(1) ok(1) by simp
    moreover have "cache_view c key = Some (cr_value r)"
    proof -
      have "distinct (map fst (map (\<lambda>(e, r). (cr_key r, cr_value r)) (rc_lru c)))"
        using ok(3) by (simp add: case_prod_beta o_def)
      then show ?thesis unfolding cache_view_def using r by (intro map_of_is_SomeI) force+
    qed
    moreover have "mset (moveToFront e (rc_lru c)) = mset (rc_lru c)"
      using mset_delete_split [OF ok(1) r(1)] calculation(1) by (simp add: moveToFront_def)
    moreover have "rc_limit c \<noteq> 0" using ok(4) r(1) by auto
    ultimately show ?thesis using Some perm_ok [OF assms, of "moveToFront e (rc_lru c)"] by (simp add: rc_get_def)
  qed
  then show "fst (rc_get key c) = cache_view c key" "cache_ok (snd (rc_get key c))" "cache_view (snd (rc_get key c)) = cache_view c"
    by simp_all
qed

lemma insert_ok:
  fixes bs :: "byte list"
  assumes "cache_ok c" "rc_element c key = None" "sz \<le> rc_limit c" "rc_used c \<le> rc_limit c - sz" "rc_limit c \<noteq> 0"
  defines "c' \<equiv> c\<lparr>rc_entries := Some (AList.update key (rc_fresh c) (case rc_entries c of None \<Rightarrow> [] | Some l \<Rightarrow> l)),
    rc_lru := (rc_fresh c, \<lparr>cr_key = key, cr_value = bs, cr_size = sz\<rparr>) # rc_lru c, rc_fresh := Suc (rc_fresh c),
    rc_used := rc_used c + sz\<rparr>"
  shows "cache_ok c'" "cache_view c' = (cache_view c)(key \<mapsto> bs)"
proof -
  show "cache_view c' = (cache_view c)(key \<mapsto> bs)" by (simp add: c'_def cache_view_def)
  have ok: "distinct (map fst (rc_lru c))" "distinct (map (cr_key \<circ> snd) (rc_lru c))" "\<forall>e\<in>set (map fst (rc_lru c)). e < rc_fresh c"
    "rc_element c = map_of (map (\<lambda>(e, r). (cr_key r, e)) (rc_lru c))" "cache_total c = unat (rc_used c)"
    using assms(1) by (simp_all add: cache_ok_def)
  have le: "unat (rc_used c) + unat sz \<le> unat (rc_limit c)"
    using assms(3,4) by (simp add: word_le_nat_alt unat_sub)
  then have u: "unat (rc_used c + sz) = unat (rc_used c) + unat sz"
    using unsigned_less [of "rc_limit c", where 'a = nat] by (simp add: unat_word_ariths)
  have new: "key \<notin> (cr_key \<circ> snd) ` set (rc_lru c)"
    using assms(2) unfolding ok(4) map_of_eq_None_iff by (auto simp: image_image case_prod_beta)
  have "rc_element c' = (rc_element c)(key \<mapsto> rc_fresh c)"
    by (auto simp: c'_def rc_element_def fun_eq_iff update_conv split: option.splits)
  then have "rc_element c' = map_of (map (\<lambda>(e, r). (cr_key r, e)) (rc_lru c'))" unfolding ok(4) by (simp add: c'_def)
  moreover have "cache_total c' = unat (rc_used c')" using ok(5) u by (simp add: c'_def cache_total_def)
  moreover have "rc_used c' \<le> rc_limit c'" using le u by (simp add: c'_def word_le_nat_alt)
  moreover have "distinct (map fst (rc_lru c'))" "\<forall>e\<in>set (map fst (rc_lru c')). e < rc_fresh c'"
    using ok(1,3) by (auto simp: c'_def intro: less_SucI)
  moreover have "distinct (map (cr_key \<circ> snd) (rc_lru c'))" using ok(2) new by (simp add: c'_def)
  ultimately show "cache_ok c'" using assms(5) unfolding cache_ok_def by (simp add: c'_def)
qed

lemma put_ok:
  assumes "cache_ok c"
  shows "\<exists>c'. rc_put key v c = Some c' \<and> cache_ok c' \<and> rc_limit c' = rc_limit c \<and>
    (\<forall>k. cache_view c' k = cache_view c k \<or> cache_view c' k = None \<or> k = key \<and> cache_view c' k = v) \<and>
    (\<forall>bs. v = Some bs \<longrightarrow> rc_limit c \<noteq> 0 \<longrightarrow> record_size key bs \<le> rc_limit c \<longrightarrow> cache_view c' key \<noteq> None)"
proof (cases "v \<noteq> None \<and> rc_limit c \<noteq> 0 \<and> record_size key (the v) \<le> rc_limit c \<and> rc_element c key = None")
  case False
  have el: "rc_element c key \<noteq> None \<Longrightarrow> cache_view c key \<noteq> None"
  proof
    assume "rc_element c key \<noteq> None" "cache_view c key = None"
    then show False using assms
      unfolding cache_view_def cache_ok_def map_of_eq_None_iff by (auto simp: image_image case_prod_beta dest!: map_of_SomeD)
  qed
  have "rc_put key v c = Some c" using False by (auto simp: rc_put_def Let_def not_le split: option.splits)
  then show ?thesis using assms False el by auto
next
  case True
  then obtain bs where bs: "v = Some bs" by auto
  let ?sz = "record_size key bs"
  obtain c1 where c1: "rc_evict ?sz c = Some c1" "cache_ok c1" "rc_used c1 \<le> rc_limit c1 - ?sz" "rc_limit c1 = rc_limit c"
    "cache_view c1 \<subseteq>\<^sub>m cache_view c" "rc_element c1 \<subseteq>\<^sub>m rc_element c"
    using evict_ok [OF assms, of ?sz] True bs by auto
  have "rc_element c1 key = None"
  proof (rule ccontr)
    assume "rc_element c1 key \<noteq> None"
    then have "rc_element c key \<noteq> None" using c1(6) by (force simp: map_le_def dom_def)
    then show False using True by simp
  qed
  note ins = insert_ok [OF c1(2) this, of ?sz bs]
  have v: "cache_view c1 k = cache_view c k \<or> cache_view c1 k = None" for k using c1(5) by (auto simp: map_le_def dom_def)
  show ?thesis using True bs c1(1,3,4) ins v by (auto simp: rc_put_def Let_def)
qed

section \<open>Runs\<close>

datatype cache_op = CGet recordCacheKey | CPut recordCacheKey "byte list option" | CClear

fun run_cache :: "cache_op list \<Rightarrow> recordCache \<Rightarrow> recordCache option" where
  "run_cache [] c = Some c"
| "run_cache (CGet k # ops) c = run_cache ops (snd (rc_get k c))"
| "run_cache (CPut k v # ops) c = (case rc_put k v c of None \<Rightarrow> None | Some c' \<Rightarrow> run_cache ops c')"
| "run_cache (CClear # ops) c = run_cache ops (rc_clear c)"

text \<open>The values that a run may find under a key: the last value of a put is not always kept, but no other is found.\<close>

fun stored :: "cache_op list \<Rightarrow> recordCacheKey \<Rightarrow> byte list set" where
  "stored [] k = {}"
| "stored (CPut j v # ops) k = (if j = k then set_option v else {}) \<union> stored ops k"
| "stored (_ # ops) k = stored ops k"

lemma new_limit [simp]: "rc_limit (new_cache n) = n" "rc_limit (rc_clear c) = rc_limit c"
  by (simp_all add: new_cache_def rc_clear_def)

lemma run_cache_ok:
  assumes "cache_ok c"
  shows "\<exists>c'. run_cache ops c = Some c' \<and> cache_ok c' \<and> rc_limit c' = rc_limit c \<and>
    (\<forall>k. set_option (cache_view c' k) \<subseteq> set_option (cache_view c k) \<union> stored ops k)"
  using assms
proof (induction ops arbitrary: c)
  case (Cons op ops)
  show ?case
  proof (cases op)
    case (CGet k)
    then show ?thesis using Cons.IH [of "snd (rc_get k c)"] get_ok [OF Cons.prems, of k] by simp
  next
    case (CPut k v)
    obtain c1 where c1: "rc_put k v c = Some c1" "cache_ok c1" "rc_limit c1 = rc_limit c"
      "\<forall>j. cache_view c1 j = cache_view c j \<or> cache_view c1 j = None \<or> j = k \<and> cache_view c1 j = v"
      using put_ok [OF Cons.prems, of k v] by auto
    have "set_option (cache_view c1 j) \<subseteq> set_option (cache_view c j) \<union> (if k = j then set_option v else {})" for j
      using c1(4) [rule_format, of j] by auto
    then show ?thesis using CPut c1 Cons.IH [OF c1(2)] by (fastforce simp: subset_iff)
  next
    case CClear
    then show ?thesis using Cons.IH [OF clear_ok, of c] by auto
  qed
qed simp

text \<open>
  C34. Whatever is read and stored, the record cache never fails (evicting never runs out of elements), keeps no
  more than its limit, counts exactly the bytes of the records it holds, holds no key twice and returns for a key only a
  value that was stored under it.
\<close>

theorem record_cache_bounded:
  "\<exists>c. run_cache ops (new_cache n) = Some c \<and> cache_total c = unat (rc_used c) \<and> rc_used c \<le> n \<and>
     distinct (map (cr_key \<circ> snd) (rc_lru c)) \<and> set_option (fst (rc_get k c)) \<subseteq> stored ops k"
proof -
  obtain c where c: "run_cache ops (new_cache n) = Some c" "cache_ok c" "rc_limit c = n" "set_option (cache_view c k) \<subseteq> stored ops k"
    using run_cache_ok [OF new_cache_ok [of n], of ops] by auto
  then show ?thesis using get_ok(1) [OF c(2), of k] by (auto simp: cache_ok_def)
qed

end
