(* ===== verification/IdSet.thy ===== *)
theory IdSet
  imports Prelude
begin

text \<open>
  The contract of an ordered set of identifiers: membership, length and ascending iteration after any sequence of additions
  and removals. The representations of a property posting all meet it.
\<close>

datatype id_op = AddID u64 | RemoveID u64

fun id_meaning :: "id_op list \<Rightarrow> u64 set \<Rightarrow> u64 set" where
  "id_meaning [] S = S"
| "id_meaning (AddID i # ops) S = id_meaning ops (insert i S)"
| "id_meaning (RemoveID i # ops) S = id_meaning ops (S - {i})"

locale id_set =
  fixes empty_s :: 's
    and add_s :: "u64 \<Rightarrow> 's \<Rightarrow> 's"
    and remove_s :: "u64 \<Rightarrow> 's \<Rightarrow> 's"
    and has_s :: "'s \<Rightarrow> u64 \<Rightarrow> bool"
    and len_s :: "'s \<Rightarrow> int"
    and all_s :: "'s \<Rightarrow> u64 list"
    and inv_s :: "'s \<Rightarrow> bool"
  assumes inv_empty: "inv_s empty_s"
    and all_empty: "all_s empty_s = []"
    and inv_add: "inv_s s \<Longrightarrow> inv_s (add_s i s)"
    and set_add: "inv_s s \<Longrightarrow> set (all_s (add_s i s)) = insert i (set (all_s s))"
    and inv_remove: "inv_s s \<Longrightarrow> inv_s (remove_s i s)"
    and set_remove: "inv_s s \<Longrightarrow> set (all_s (remove_s i s)) = set (all_s s) - {i}"
    and sorted_all: "inv_s s \<Longrightarrow> sorted_wrt (<) (all_s s)"
    and has_all: "inv_s s \<Longrightarrow> has_s s i \<longleftrightarrow> i \<in> set (all_s s)"
    and len_all: "inv_s s \<Longrightarrow> len_s s = int (length (all_s s))"
begin

lemma distinct_all: "inv_s s \<Longrightarrow> distinct (all_s s)"
  using sorted_all strict_sorted_iff by blast

lemma len_card: "inv_s s \<Longrightarrow> len_s s = int (card (set (all_s s)))"
  by (simp add: len_all distinct_all distinct_card)

text \<open>Iteration is the ascending list of the set.\<close>

lemma all_sorted_list: "inv_s s \<Longrightarrow> all_s s = sorted_list_of_set (set (all_s s))"
  using sorted_all [of s] distinct_all [of s]
  by (simp add: sorted_list_of_set_sort_remdups distinct_remdups_id sorted_sort_id strict_sorted_iff)

primrec step :: "id_op \<Rightarrow> 's \<Rightarrow> 's" where
  "step (AddID i) s = add_s i s"
| "step (RemoveID i) s = remove_s i s"

lemma run_law:
  assumes "inv_s s"
  shows "inv_s (fold step ops s) \<and> set (all_s (fold step ops s)) = id_meaning ops (set (all_s s))"
  using assms
proof (induction ops arbitrary: s)
  case (Cons op ops)
  then show ?case by (cases op) (simp_all add: inv_add inv_remove set_add set_remove)
qed simp

lemma run_empty:
  "inv_s (fold step ops empty_s)" "set (all_s (fold step ops empty_s)) = id_meaning ops {}"
  using run_law [OF inv_empty, of ops] by (simp_all add: all_empty)

lemma adds_law:
  assumes "inv_s s"
  shows "inv_s (fold add_s ids s) \<and> set (all_s (fold add_s ids s)) = set ids \<union> set (all_s s)"
  using assms by (induction ids arbitrary: s) (simp_all add: inv_add set_add)

end

end
