(* ===== verification/PropertyPosting.thy ===== *)
theory PropertyPosting
  imports PagedMap StringPostings IdSet
begin

unbundle bit_operations_syntax

text \<open>
  The posting of an indexed value (\<^verbatim>\<open>propertyPosting\<close> of \<^verbatim>\<open>internal/store/property_index.go\<close>): the entities that carry it, in
  ascending order. A short posting is a sorted slice, a dense one a paged map with the list of its roots, a sparse
  one a sequence of sorted chunks. The flags \<^verbatim>\<open>rootsCloned\<close>, \<^verbatim>\<open>directoryCOW\<close> and \<^verbatim>\<open>cloned\<close> say which parts are shared with an
  older version; a shared part is copied before it is changed, so contents do not depend on them and they are left out,
  with \<^verbatim>\<open>forkPropertyPosting\<close>, which only clears them.
\<close>

section \<open>The code\<close>

definition propertyPostingChunkSize :: nat where
  "propertyPostingChunkSize = 256"

record propertyPostingRadix =
  pr_ids :: "unit PagedMap"
  pr_roots :: "u64 list"

record propertyPostingChunks =
  pc_chunks :: "u64 list list"
  pc_length :: int

record propertyPosting =
  pp_small :: "u64 list"
  pp_chunks :: "propertyPostingChunks option"
  pp_large :: "propertyPostingRadix option"

definition zero_property_posting :: propertyPosting where
  "zero_property_posting = \<lparr>pp_small = [], pp_chunks = None, pp_large = None\<rparr>"

text \<open>\<^verbatim>\<open>slices.BinarySearch\<close>, and inserting and removing at an index by \<^verbatim>\<open>append\<close> and \<^verbatim>\<open>copy\<close>.\<close>

definition BinarySearch :: "u64 list \<Rightarrow> u64 \<Rightarrow> nat \<times> bool" where
  "BinarySearch l x = (let i = bsearch (\<lambda>h. l ! h < x) 0 (length l) in (i, i < length l \<and> l ! i = x))"

definition insert_at :: "nat \<Rightarrow> 'a \<Rightarrow> 'a list \<Rightarrow> 'a list" where
  "insert_at i x l = take i l @ x # drop i l"

definition remove_at :: "nat \<Rightarrow> 'a list \<Rightarrow> 'a list" where
  "remove_at i l = take i l @ drop (i + 1) l"

definition pc_index :: "propertyPostingChunks \<Rightarrow> u64 \<Rightarrow> nat" where
  "pc_index p ident = bsearch (\<lambda>middle. last (pc_chunks p ! middle) < ident) 0 (length (pc_chunks p))"

definition pc_has :: "propertyPostingChunks \<Rightarrow> u64 \<Rightarrow> bool" where
  "pc_has p ident =
     (let index = pc_index p ident in
      if index = length (pc_chunks p) then False else snd (BinarySearch (pc_chunks p ! index) ident))"

definition pc_add :: "u64 \<Rightarrow> propertyPostingChunks \<Rightarrow> propertyPostingChunks" where
  "pc_add ident p =
     (if pc_chunks p = [] then p\<lparr>pc_chunks := [[ident]], pc_length := pc_length p + 1\<rparr>
      else
        let found_index = pc_index p ident;
            index = (if found_index = length (pc_chunks p) then found_index - 1 else found_index);
            chunk = pc_chunks p ! index;
            (ins, found) = BinarySearch chunk ident
        in if found then p
           else if length chunk < propertyPostingChunkSize
           then p\<lparr>pc_chunks := (pc_chunks p)[index := insert_at ins ident chunk], pc_length := pc_length p + 1\<rparr>
           else
             let merged = insert_at ins ident chunk;
                 leftLength = length merged div 2
             in p\<lparr>pc_chunks := insert_at (index + 1) (drop leftLength merged) ((pc_chunks p)[index := take leftLength merged]),
                  pc_length := pc_length p + 1\<rparr>)"

definition pc_remove :: "u64 \<Rightarrow> propertyPostingChunks \<Rightarrow> propertyPostingChunks" where
  "pc_remove ident p =
     (let index = pc_index p ident in
      if index = length (pc_chunks p) then p
      else
        let chunk = pc_chunks p ! index;
            (rem, found) = BinarySearch chunk ident
        in if \<not> found then p
           else
             let chunk' = remove_at rem chunk in
             if chunk' \<noteq> [] then p\<lparr>pc_chunks := (pc_chunks p)[index := chunk'], pc_length := pc_length p - 1\<rparr>
             else p\<lparr>pc_chunks := remove_at index (pc_chunks p), pc_length := pc_length p - 1\<rparr>)"

function split_chunks :: "u64 list \<Rightarrow> u64 list list" where
  "split_chunks ids =
     (if ids = [] then []
      else let n = min (length ids) propertyPostingChunkSize in take n ids # split_chunks (drop n ids))"
  by pat_completeness auto
termination
  by (relation "measure length") (auto simp: propertyPostingChunkSize_def)

declare split_chunks.simps [simp del]

definition newPropertyPostingChunks :: "u64 list \<Rightarrow> propertyPostingChunks" where
  "newPropertyPostingChunks ids = \<lparr>pc_chunks = split_chunks ids, pc_length = int (length ids)\<rparr>"

definition pr_all :: "propertyPostingRadix \<Rightarrow> u64 list" where
  "pr_all r = map fst (orderedRoots (pr_roots r) (pr_ids r))"

definition newPropertyPostingChunksFromRadix :: "propertyPostingRadix \<Rightarrow> propertyPostingChunks" where
  "newPropertyPostingChunksFromRadix r = newPropertyPostingChunks (pr_all r)"

definition pr_add :: "u64 \<Rightarrow> propertyPostingRadix \<Rightarrow> propertyPostingRadix" where
  "pr_add ident r =
     (let high = drop_bit 20 ident;
          newRoot = (high \<noteq> 0 \<and> pm_root (pr_ids r) high = None);
          r1 = r\<lparr>pr_ids := pm_Set () ident () (pr_ids r)\<rparr>
      in if newRoot then r1\<lparr>pr_roots := insert_at (fst (BinarySearch (pr_roots r1) high)) high (pr_roots r1)\<rparr> else r1)"

definition pr_remove :: "u64 \<Rightarrow> propertyPostingRadix \<Rightarrow> propertyPostingRadix" where
  "pr_remove ident r =
     (let high = drop_bit 20 ident;
          r1 = r\<lparr>pr_ids := pm_Delete () ident (pr_ids r)\<rparr>
      in if high = 0 \<or> pm_root (pr_ids r1) high \<noteq> None then r1
         else (case BinarySearch (pr_roots r1) high of (index, found) \<Rightarrow>
           if \<not> found then r1 else r1\<lparr>pr_roots := remove_at index (pr_roots r1)\<rparr>))"

definition shouldUseChunks :: "propertyPostingRadix \<Rightarrow> bool" where
  "shouldUseChunks r \<longleftrightarrow> length (pr_roots r) \<ge> 8 \<and>
     int (length (pr_roots r)) * int propertyPostingChunkSize > pm_Len (pr_ids r)"

definition pp_has :: "propertyPosting \<Rightarrow> u64 \<Rightarrow> bool" where
  "pp_has p ident = (case pp_large p of
     Some r \<Rightarrow> pm_Has (pr_ids r) ident
   | None \<Rightarrow> (case pp_chunks p of
       Some c \<Rightarrow> pc_has c ident
     | None \<Rightarrow> snd (BinarySearch (pp_small p) ident)))"

definition pp_len :: "propertyPosting \<Rightarrow> int" where
  "pp_len p = (case pp_large p of
     Some r \<Rightarrow> pm_Len (pr_ids r)
   | None \<Rightarrow> (case pp_chunks p of Some c \<Rightarrow> pc_length c | None \<Rightarrow> int (length (pp_small p))))"

definition pp_all :: "propertyPosting \<Rightarrow> u64 list" where
  "pp_all p = (case pp_large p of
     Some r \<Rightarrow> pr_all r
   | None \<Rightarrow> (case pp_chunks p of Some c \<Rightarrow> concat (pc_chunks c) | None \<Rightarrow> pp_small p))"

definition propertyPostingShouldPromote :: "u64 list \<Rightarrow> bool" where
  "propertyPostingShouldPromote ids \<longleftrightarrow> drop_bit 20 (last ids) - drop_bit 20 (hd ids) < 8"

text \<open>\<^verbatim>\<open>if posting.large.shouldUseChunks() { posting.chunks = ...; posting.large = nil }\<close>\<close>

definition demote :: "propertyPostingRadix \<Rightarrow> propertyPosting \<Rightarrow> propertyPosting" where
  "demote r p =
     (if shouldUseChunks r then p\<lparr>pp_chunks := Some (newPropertyPostingChunksFromRadix r), pp_large := None\<rparr>
      else p\<lparr>pp_large := Some r\<rparr>)"

definition pp_add :: "u64 \<Rightarrow> propertyPosting \<Rightarrow> propertyPosting" where
  "pp_add ident p = (case pp_large p of
     Some r \<Rightarrow> demote (pr_add ident r) p
   | None \<Rightarrow> (case pp_chunks p of
       Some c \<Rightarrow> p\<lparr>pp_chunks := Some (pc_add ident c)\<rparr>
     | None \<Rightarrow>
         (case BinarySearch (pp_small p) ident of (index, found) \<Rightarrow>
            if found then p
            else
              let small = insert_at index ident (pp_small p) in
              if length small \<le> smallPostingLimit then p\<lparr>pp_small := small\<rparr>
              else if \<not> propertyPostingShouldPromote small
              then p\<lparr>pp_chunks := Some (newPropertyPostingChunks small), pp_small := []\<rparr>
              else p\<lparr>pp_small := [], pp_large := Some (fold pr_add small \<lparr>pr_ids = NewPagedMap, pr_roots = []\<rparr>)\<rparr>)))"

definition pp_remove :: "u64 \<Rightarrow> propertyPosting \<Rightarrow> propertyPosting" where
  "pp_remove ident p = (case pp_large p of
     Some r \<Rightarrow> demote (pr_remove ident r) p
   | None \<Rightarrow> (case pp_chunks p of
       Some c \<Rightarrow> p\<lparr>pp_chunks := Some (pc_remove ident c)\<rparr>
     | None \<Rightarrow>
         (case BinarySearch (pp_small p) ident of (index, found) \<Rightarrow>
            if \<not> found then p else p\<lparr>pp_small := remove_at index (pp_small p)\<rparr>)))"

section \<open>Sorted lists\<close>

lemma BinarySearch_eq:
  assumes "sorted_wrt (<) l"
  shows "BinarySearch l x = (length (takeWhile (\<lambda>y. y < x) l), x \<in> set l)"
proof -
  have mono: "l ! a \<le> l ! b" if "a \<le> b" "b < length l" for a b
    using that sorted_wrt_nth_less [OF assms, of a b] by (cases "a = b") auto
  define n where "n = length (takeWhile (\<lambda>y. y < x) l)"
  have b: "bsearch (\<lambda>h. l ! h < x) 0 (length l) = n"
    unfolding n_def using mono by (intro bsearch_takeWhile) (auto intro: le_less_trans)
  have "(n < length l \<and> l ! n = x) \<longleftrightarrow> x \<in> set l"
  proof
    assume "x \<in> set l"
    then obtain k where k: "k < length l" "l ! k = x" by (auto simp: in_set_conv_nth)
    have "\<not> k < n"
      using k nth_length_takeWhile [of "\<lambda>y. y < x" l] takeWhile_nth [of k "\<lambda>y. y < x" l] set_takeWhileD [of "l ! k" "\<lambda>y. y < x" l]
      by (metis less_irrefl n_def nth_mem)
    then have "n \<le> k" by simp
    then have "n < length l" using k by simp
    then have "x \<le> l ! n" using nth_length_takeWhile [of "\<lambda>y. y < x" l] by (simp add: n_def not_less)
    moreover have "l ! n \<le> l ! k" using mono [OF \<open>n \<le> k\<close> k(1)] .
    ultimately show "n < length l \<and> l ! n = x" using \<open>n < length l\<close> k by simp
  qed auto
  then show ?thesis unfolding BinarySearch_def Let_def b by (simp add: n_def)
qed

lemma takeWhile_split:
  fixes x :: u64
  assumes "sorted_wrt (<) l"
  defines "n \<equiv> length (takeWhile (\<lambda>y. y < x) l)"
  shows "take n l = filter (\<lambda>y. y < x) l" "drop n l = filter (\<lambda>y. x \<le> y) l"
proof -
  have t: "takeWhile (\<lambda>y. y < x) l = filter (\<lambda>y. y < x) l" "dropWhile (\<lambda>y. y < x) l = filter (\<lambda>y. x \<le> y) l"
    using assms(1) by (induction l) (force simp: not_less intro!: filter_True [symmetric] filter_False [symmetric])+
  show "take n l = filter (\<lambda>y. y < x) l" unfolding n_def t(1) [symmetric] by (metis takeWhile_eq_take)
  show "drop n l = filter (\<lambda>y. x \<le> y) l" unfolding n_def t(2) [symmetric] by (metis dropWhile_eq_drop)
qed

lemma insert_sorted:
  fixes x :: u64
  assumes "sorted_wrt (<) l" "x \<notin> set l"
  defines "l' \<equiv> insert_at (length (takeWhile (\<lambda>y. y < x) l)) x l"
  shows "sorted_wrt (<) l'" "set l' = insert x (set l)" "length l' = Suc (length l)"
proof -
  have e: "l' = filter (\<lambda>y. y < x) l @ x # filter (\<lambda>y. x \<le> y) l"
    unfolding l'_def insert_at_def takeWhile_split [OF assms(1)] ..
  show "sorted_wrt (<) l'" unfolding e using assms(1,2)
    by (auto simp: sorted_wrt_append sorted_wrt_filter less_le)
  show "set l' = insert x (set l)" unfolding e by auto
  show "length l' = Suc (length l)" by (simp add: l'_def insert_at_def)
qed

lemma remove_sorted:
  assumes "sorted_wrt (<) l" "x \<in> set l"
  defines "l' \<equiv> remove_at (length (takeWhile (\<lambda>y. y < x) l)) (l :: u64 list)"
  shows "sorted_wrt (<) l'" "set l' = set l - {x}" "Suc (length l') = length l"
proof -
  define n where "n = length (takeWhile (\<lambda>y. y < x) l)"
  have n: "n < length l" "l ! n = x" using BinarySearch_eq [OF assms(1), of x] assms(2)
    by (auto simp: BinarySearch_def Let_def n_def)
  have l: "l = take n l @ x # drop (n + 1) l" using id_take_nth_drop [OF n(1)] n(2) by simp
  have d: "distinct l" using assms(1) by (metis strict_sorted_iff)
  have e: "l' = take n l @ drop (n + 1) l" by (simp add: l'_def remove_at_def n_def)
  have "sorted_wrt (<) (take n l @ x # drop (n + 1) l)" using assms(1) l by simp
  then show "sorted_wrt (<) l'" unfolding e by (simp add: sorted_wrt_append)
  have "distinct (take n l @ x # drop (n + 1) l)" "set l = set (take n l @ x # drop (n + 1) l)" using d l by metis+
  then show "set l' = set l - {x}" unfolding e by auto
  show "Suc (length l') = length l" using n(1) by (simp add: e)
qed

section \<open>Chunks\<close>

definition chunks_ok :: "u64 list list \<Rightarrow> bool" where
  "chunks_ok cs \<longleftrightarrow> sorted_wrt (<) (concat cs) \<and> (\<forall>c\<in>set cs. c \<noteq> [] \<and> length c \<le> propertyPostingChunkSize)"

definition pc_inv :: "propertyPostingChunks \<Rightarrow> bool" where
  "pc_inv p \<longleftrightarrow> chunks_ok (pc_chunks p) \<and> pc_length p = int (length (concat (pc_chunks p)))"

lemma chunks_last_mono:
  assumes "chunks_ok cs" "a \<le> b" "b < length cs"
  shows "last (cs ! a) \<le> last (cs ! b)"
proof (cases "a = b")
  case False
  then obtain k where "b = Suc (a + k)" using assms(2) by (metis less_iff_Suc_add le_neq_implies_less)
  then have cs: "cs = take a cs @ cs ! a # take k (drop (Suc a) cs) @ cs ! b # drop (Suc b) cs"
    using assms(3) id_take_nth_drop [of a cs] id_take_nth_drop [of k "drop (Suc a) cs"] by (simp add: add.commute)
  have ne: "cs ! a \<noteq> []" "cs ! b \<noteq> []" using assms by (auto simp: chunks_ok_def)
  have "sorted_wrt (<) (concat (take a cs @ cs ! a # take k (drop (Suc a) cs) @ cs ! b # drop (Suc b) cs))"
    using assms(1) cs by (simp add: chunks_ok_def)
  then have "\<forall>x\<in>set (cs ! a). \<forall>y\<in>set (cs ! b). x < y" by (simp add: sorted_wrt_append)
  then show ?thesis using ne by (simp add: less_imp_le)
qed simp

lemma pc_index_eq:
  "chunks_ok (pc_chunks p) \<Longrightarrow> pc_index p ident = length (takeWhile (\<lambda>c. last c < ident) (pc_chunks p))"
  unfolding pc_index_def by (intro bsearch_takeWhile) (auto dest: chunks_last_mono intro: le_less_trans)

lemma last_sorted: "sorted_wrt (<) c \<Longrightarrow> x \<in> set c \<Longrightarrow> x \<le> last c" for x :: u64
  by (induction c) (auto simp: less_imp_le)

text \<open>Where an identifier belongs: all chunks before are below it, all chunks after are above it.\<close>

lemma pc_index_split:
  assumes "chunks_ok (pc_chunks p)" "pc_index p ident < length (pc_chunks p)"
  obtains ys c zs where "pc_chunks p = ys @ c # zs" "length ys = pc_index p ident"
    "\<forall>x\<in>set (concat ys). x < ident" "\<forall>x\<in>set (concat zs). ident < x"
proof -
  let ?P = "\<lambda>c. last c < ident" and ?cs = "pc_chunks p"
  have n: "pc_index p ident = length (takeWhile ?P ?cs)" using assms(1) by (rule pc_index_eq)
  then have "dropWhile ?P ?cs \<noteq> []" using assms(2)
    by (metis append_Nil2 less_irrefl takeWhile_dropWhile_id)
  then obtain c zs where d: "dropWhile ?P ?cs = c # zs" by (cases "dropWhile ?P ?cs") auto
  then have cs: "?cs = takeWhile ?P ?cs @ c # zs" by (metis takeWhile_dropWhile_id)
  have "\<not> last c < ident" using hd_dropWhile [of ?P ?cs] d by auto
  have ok: "sorted_wrt (<) (concat (takeWhile ?P ?cs @ c # zs))" "\<forall>c\<in>set ?cs. c \<noteq> []"
    using assms(1) cs by (auto simp: chunks_ok_def)
  have "c \<in> set ?cs" using cs by (metis in_set_conv_decomp)
  then have "c \<noteq> []" using ok(2) by blast
  have "\<forall>x\<in>set (concat (takeWhile ?P ?cs)). x < ident"
  proof
    fix x assume "x \<in> set (concat (takeWhile ?P ?cs))"
    then obtain b where b: "b \<in> set (takeWhile ?P ?cs)" "x \<in> set b" by auto
    have "sorted_wrt (<) b" using assms(1) set_takeWhileD [OF b(1)] unfolding chunks_ok_def
      by (metis concat.simps(2) concat_append sorted_wrt_append split_list)
    then show "x < ident" using b set_takeWhileD [OF b(1)] last_sorted [of b x] by (auto intro: le_less_trans)
  qed
  moreover have "\<forall>x\<in>set (concat zs). ident < x"
  proof
    fix x assume "x \<in> set (concat zs)"
    then have "last c < x" using ok(1) \<open>c \<noteq> []\<close> by (auto simp: sorted_wrt_append)
    then show "ident < x" using \<open>\<not> last c < ident\<close> by simp
  qed
  ultimately show thesis by (rule that [OF cs n [symmetric]])
qed

lemma pc_index_end:
  assumes "chunks_ok (pc_chunks p)" "\<not> pc_index p ident < length (pc_chunks p)"
  shows "pc_index p ident = length (pc_chunks p)" "\<forall>x\<in>set (concat (pc_chunks p)). x < ident"
proof -
  let ?P = "\<lambda>c. last c < ident" and ?cs = "pc_chunks p"
  have n: "pc_index p ident = length (takeWhile ?P ?cs)" using assms(1) by (rule pc_index_eq)
  moreover have "length (takeWhile ?P ?cs) \<le> length ?cs" by (rule length_takeWhile_le)
  ultimately show l: "pc_index p ident = length ?cs" using assms(2) by simp
  then have "takeWhile ?P ?cs = ?cs" using n by (metis append_Nil2 append_eq_conv_conj takeWhile_dropWhile_id take_all_iff order_refl)
  then have all: "c \<in> set ?cs \<Longrightarrow> last c < ident" for c by (metis set_takeWhileD)
  show "\<forall>x\<in>set (concat ?cs). x < ident"
  proof
    fix x assume "x \<in> set (concat ?cs)"
    then obtain b where b: "b \<in> set ?cs" "x \<in> set b" by auto
    have "sorted_wrt (<) b" using assms(1) b(1) unfolding chunks_ok_def
      by (metis concat.simps(2) concat_append sorted_wrt_append split_list)
    then show "x < ident" using all [OF b(1)] last_sorted [of b x] b(2) by simp
  qed
qed

lemma chunk_sorted: "chunks_ok (ys @ c # zs) \<Longrightarrow> sorted_wrt (<) c"
  by (simp add: chunks_ok_def sorted_wrt_append)

text \<open>Replacing the chunk an identifier belongs to.\<close>

lemma chunks_replace:
  assumes "chunks_ok (ys @ c # zs)" "\<forall>x\<in>set (concat ys). x < ident" "\<forall>x\<in>set (concat zs). ident < x"
    and "sorted_wrt (<) (concat cs)" "set (concat cs) \<subseteq> insert ident (set c)"
    and "\<forall>d\<in>set cs. d \<noteq> [] \<and> length d \<le> propertyPostingChunkSize"
  shows "chunks_ok (ys @ cs @ zs)"
proof -
  have s: "sorted_wrt (<) (concat ys)" "sorted_wrt (<) (concat zs)" "\<forall>x\<in>set (concat ys). \<forall>y\<in>set c \<union> set (concat zs). x < y"
    "\<forall>x\<in>set c. \<forall>y\<in>set (concat zs). x < y" "\<forall>d\<in>set ys \<union> set zs. d \<noteq> [] \<and> length d \<le> propertyPostingChunkSize"
    using assms(1) by (auto simp: chunks_ok_def sorted_wrt_append simp del: set_concat)
  have "\<forall>x\<in>set (concat ys). \<forall>y\<in>set (concat cs). x < y" "\<forall>x\<in>set (concat cs). \<forall>y\<in>set (concat zs). x < y"
    using assms(2,3,5) s(3,4) by blast+
  then have "sorted_wrt (<) (concat ys @ concat cs @ concat zs)"
    using assms(4) s by (simp only: sorted_wrt_append set_append) blast
  then show ?thesis using s(5) assms(6) by (auto simp: chunks_ok_def simp del: set_concat)
qed

lemma insert_at_length [simp]: "insert_at (length ys) x (ys @ zs) = ys @ x # zs"
  "insert_at (Suc (length ys)) x (ys @ y # zs) = ys @ y # x # zs"
  by (simp_all add: insert_at_def)

lemma remove_at_length [simp]: "remove_at (length ys) (ys @ c # zs) = ys @ zs"
  by (simp add: remove_at_def)

text \<open>The chunk that takes a new identifier, the last one if it lies above all.\<close>

lemma pc_add_split:
  assumes "chunks_ok (pc_chunks p)" "pc_chunks p \<noteq> []"
  obtains ys c zs where "pc_chunks p = ys @ c # zs"
    "length ys = (if pc_index p ident = length (pc_chunks p) then pc_index p ident - 1 else pc_index p ident)"
    "\<forall>x\<in>set (concat ys). x < ident" "\<forall>x\<in>set (concat zs). ident < x"
proof (cases "pc_index p ident < length (pc_chunks p)")
  case True
  then show thesis using pc_index_split [OF assms(1) True] that by (metis less_irrefl)
next
  case False
  note e = pc_index_end [OF assms(1) False]
  have "pc_chunks p = butlast (pc_chunks p) @ last (pc_chunks p) # []" using assms(2) by simp
  then show thesis
  proof (rule that)
    show "\<forall>x\<in>set (concat (butlast (pc_chunks p))). x < ident" using e(2) by (auto dest: in_set_butlastD)
  qed (simp_all add: e(1))
qed

lemma pc_add_ok:
  assumes "pc_inv p"
  shows "pc_inv (pc_add ident p) \<and> set (concat (pc_chunks (pc_add ident p))) = insert ident (set (concat (pc_chunks p)))"
proof (cases "pc_chunks p = []")
  case True
  then show ?thesis using assms by (simp add: pc_add_def pc_inv_def chunks_ok_def propertyPostingChunkSize_def)
next
  case False
  have ok: "chunks_ok (pc_chunks p)" and len: "pc_length p = int (length (concat (pc_chunks p)))" using assms by (simp_all add: pc_inv_def)
  obtain ys c zs where cs: "pc_chunks p = ys @ c # zs"
    and i: "length ys = (if pc_index p ident = length (pc_chunks p) then pc_index p ident - 1 else pc_index p ident)"
    and b: "\<forall>x\<in>set (concat ys). x < ident" "\<forall>x\<in>set (concat zs). ident < x"
    by (rule pc_add_split [OF ok False])
  have sc: "sorted_wrt (<) c" using ok cs by (auto intro: chunk_sorted)
  note bs = BinarySearch_eq [OF sc, of ident]
  define m where "m = insert_at (length (takeWhile (\<lambda>y. y < ident) c)) ident c"
  define n where "n = length m div 2"
  have lc: "length c \<le> 256" "c \<noteq> []" using ok cs by (auto simp: chunks_ok_def propertyPostingChunkSize_def)
  have eq: "pc_add ident p = (if ident \<in> set c then p
      else p\<lparr>pc_chunks := ys @ (if length c < 256 then [m] else [take n m, drop n m]) @ zs, pc_length := pc_length p + 1\<rparr>)"
    unfolding pc_add_def Let_def i [symmetric] using False
    by (simp add: cs bs m_def n_def propertyPostingChunkSize_def list_update_append nth_append)
  show ?thesis
  proof (cases "ident \<in> set c")
    case True
    then show ?thesis using assms by (auto simp: eq cs)
  next
    case new: False
    note m = insert_sorted [OF sc new, folded m_def]
    let ?cs = "if length c < 256 then [m] else [take n m, drop n m]"
    have c: "concat ?cs = m" by simp
    have n: "length c \<ge> 256 \<Longrightarrow> n = 128 \<and> length m = 257" using m(3) lc by (simp add: n_def)
    have "chunks_ok (ys @ ?cs @ zs)"
    proof (rule chunks_replace [where ident = ident])
      show "chunks_ok (ys @ c # zs)" using ok cs by simp
      show "sorted_wrt (<) (concat ?cs)" "set (concat ?cs) \<subseteq> insert ident (set c)" unfolding c using m by auto
      show "\<forall>d\<in>set ?cs. d \<noteq> [] \<and> length d \<le> propertyPostingChunkSize"
        using m(3) n by (auto simp: propertyPostingChunkSize_def)
    qed (use b in simp_all)
    moreover have "length (concat (ys @ ?cs @ zs)) = Suc (length (concat (pc_chunks p)))" using m(3) by (simp add: cs)
    moreover have "set (concat (ys @ ?cs @ zs)) = insert ident (set (concat (pc_chunks p)))"
      unfolding concat_append c set_append m(2) by (auto simp: cs)
    ultimately show ?thesis using new len unfolding eq pc_inv_def by simp
  qed
qed

lemma pc_has_ok:
  assumes "pc_inv p"
  shows "pc_has p ident \<longleftrightarrow> ident \<in> set (concat (pc_chunks p))"
proof -
  have ok: "chunks_ok (pc_chunks p)" using assms by (simp add: pc_inv_def)
  show ?thesis
  proof (cases "pc_index p ident < length (pc_chunks p)")
    case True
    obtain ys c zs where cs: "pc_chunks p = ys @ c # zs" "length ys = pc_index p ident"
      "\<forall>x\<in>set (concat ys). x < ident" "\<forall>x\<in>set (concat zs). ident < x" by (rule pc_index_split [OF ok True])
    have "sorted_wrt (<) c" using ok cs(1) by (auto intro: chunk_sorted)
    moreover have "pc_chunks p ! pc_index p ident = c" using cs(1,2) by (metis nth_append_length)
    ultimately have "pc_has p ident \<longleftrightarrow> ident \<in> set c" using True by (simp add: pc_has_def Let_def BinarySearch_eq)
    then show ?thesis using cs(3,4) unfolding cs(1) by auto
  next
    case False
    note e = pc_index_end [OF ok False]
    then show ?thesis by (auto simp: pc_has_def)
  qed
qed

lemma pc_remove_ok:
  assumes "pc_inv p"
  shows "pc_inv (pc_remove ident p) \<and> set (concat (pc_chunks (pc_remove ident p))) = set (concat (pc_chunks p)) - {ident}"
proof -
  have ok: "chunks_ok (pc_chunks p)" and len: "pc_length p = int (length (concat (pc_chunks p)))" using assms by (simp_all add: pc_inv_def)
  show ?thesis
  proof (cases "pc_index p ident < length (pc_chunks p)")
    case False
    note e = pc_index_end [OF ok False]
    then show ?thesis using assms by (auto simp: pc_remove_def)
  next
    case True
    obtain ys c zs where cs: "pc_chunks p = ys @ c # zs" and i: "length ys = pc_index p ident"
      and b: "\<forall>x\<in>set (concat ys). x < ident" "\<forall>x\<in>set (concat zs). ident < x" by (rule pc_index_split [OF ok True])
    have sc: "sorted_wrt (<) c" using ok cs by (auto intro: chunk_sorted)
    define m where "m = remove_at (length (takeWhile (\<lambda>y. y < ident) c)) c"
    let ?cs = "if m \<noteq> [] then [m] else []"
    have eq: "pc_remove ident p = (if ident \<notin> set c then p else p\<lparr>pc_chunks := ys @ ?cs @ zs, pc_length := pc_length p - 1\<rparr>)"
      unfolding pc_remove_def Let_def i [symmetric] using True
      by (simp add: cs BinarySearch_eq [OF sc] m_def)
    show ?thesis
    proof (cases "ident \<in> set c")
      case False
      then show ?thesis using assms b by (auto simp: eq cs)
    next
      case old: True
      note m = remove_sorted [OF sc old, folded m_def]
      have c: "concat ?cs = m" by simp
      have lc: "length c \<le> 256" using ok cs by (auto simp: chunks_ok_def propertyPostingChunkSize_def)
      have "chunks_ok (ys @ ?cs @ zs)"
      proof (rule chunks_replace [where ident = ident])
        show "chunks_ok (ys @ c # zs)" using ok cs by simp
        show "sorted_wrt (<) (concat ?cs)" "set (concat ?cs) \<subseteq> insert ident (set c)" unfolding c using m by auto
        show "\<forall>d\<in>set ?cs. d \<noteq> [] \<and> length d \<le> propertyPostingChunkSize"
          using m(3) lc by (auto simp: propertyPostingChunkSize_def)
      qed (use b in simp_all)
      moreover have "Suc (length (concat (ys @ ?cs @ zs))) = length (concat (pc_chunks p))" using m(3) by (auto simp: cs)
      moreover have "set (concat (ys @ ?cs @ zs)) = set (concat (pc_chunks p)) - {ident}"
        unfolding concat_append c set_append m(2) cs using b by auto
      ultimately show ?thesis using old len unfolding eq pc_inv_def by simp
    qed
  qed
qed

lemma concat_split_chunks [simp]: "concat (split_chunks ids) = ids"
  by (induction ids rule: split_chunks.induct) (subst split_chunks.simps, simp add: Let_def)

lemma split_chunks_sizes: "c \<in> set (split_chunks ids) \<Longrightarrow> c \<noteq> [] \<and> length c \<le> propertyPostingChunkSize"
proof (induction ids rule: split_chunks.induct)
  case (1 ids)
  from "1.prems" have ne: "ids \<noteq> []" by (auto simp: split_chunks.simps)
  define n where "n = min (length ids) propertyPostingChunkSize"
  have n: "n \<noteq> 0" "n \<le> propertyPostingChunkSize" using ne by (auto simp: n_def propertyPostingChunkSize_def)
  have "split_chunks ids = take n ids # split_chunks (drop n ids)"
    using ne by (subst split_chunks.simps) (simp add: Let_def n_def)
  then consider "c = take n ids" | "c \<in> set (split_chunks (drop n ids))" using "1.prems" by auto
  then show ?case using "1.IH" [OF ne n_def] ne n by cases auto
qed

lemma newPropertyPostingChunks_ok:
  "sorted_wrt (<) ids \<Longrightarrow> pc_inv (newPropertyPostingChunks ids)" "concat (pc_chunks (newPropertyPostingChunks ids)) = ids"
  by (auto simp: pc_inv_def newPropertyPostingChunks_def chunks_ok_def split_chunks_sizes)

section \<open>Radix tables\<close>

lemma drop_bit_20: "drop_bit 20 x = drop_bit 14 (drop_bit 6 x)" for x :: u64
  by simp

lemma root_live:
  assumes "pm_inv m"
  shows "pm_root m high \<noteq> None \<longleftrightarrow> (\<exists>ident. pm_view m ident \<noteq> None \<and> drop_bit 20 ident = high)"
proof
  assume "pm_root m high \<noteq> None"
  then obtain root where r: "pm_root m high = Some root" by auto
  have ok: "tree_ok m" "roots_ok m" "pages_ok m" using assms by (simp_all add: pm_inv_def)
  obtain bucket pages where b: "root bucket = Some pages" using ok(1) r unfolding tree_ok_def by (metis not_None_eq)
  obtain shard page where p: "pages shard = Some page" using ok(1) r b unfolding tree_ok_def by (metis not_None_eq)
  have h: "unat high < 2 ^ 44" using ok(2) r unfolding roots_ok_def pm_root_alt by (cases "high = 0") (auto simp del: map_of_eq_Some_iff)
  let ?key = "pageKey high bucket shard"
  have i: "pageIndexes ?key = (high, bucket, shard)" using h by (intro pageIndexes_pageKey) simp
  then have pk: "pageByKey m ?key = Some page" using r b p by (simp add: pageByKey_def)
  then have "occupied page \<noteq> 0" using ok(3) by (auto simp: pages_ok_def)
  then obtain slot where s: "slot < 64" "bit (occupied page) slot" using word_exists_bit by blast
  have "unat bucket < 128" "unat shard < 128" by (simp_all add: unat_bounds)
  then have "unat ?key < 2 ^ 58" using h unat_pageKey [of high bucket shard] by simp
  note e = entryID_split [OF this s(1)]
  have "pm_view m (entryID ?key slot) \<noteq> None" using pk s by (simp add: pm_view_def e unat_word_of_nat_less)
  moreover have "drop_bit 20 (entryID ?key slot) = high" unfolding drop_bit_20 e using i by (simp add: pageIndexes_def)
  ultimately show "\<exists>ident. pm_view m ident \<noteq> None \<and> drop_bit 20 ident = high" by blast
next
  assume "\<exists>ident. pm_view m ident \<noteq> None \<and> drop_bit 20 ident = high"
  then obtain ident where v: "pm_view m ident \<noteq> None" "drop_bit 20 ident = high" by auto
  obtain h b s where i: "pageIndexes (drop_bit 6 ident) = (h, b, s)" by (metis prod.exhaust)
  then have "h = high" using v(2) by (auto simp: pageIndexes_def)
  then show "pm_root m high \<noteq> None" using v(1) i by (auto simp: pm_view_def pageByKey_def split: option.splits)
qed

definition pr_inv :: "propertyPostingRadix \<Rightarrow> bool" where
  "pr_inv r \<longleftrightarrow> pm_inv (pr_ids r) \<and> sorted_wrt (<) (pr_roots r) \<and>
     set (pr_roots r) = {high. high \<noteq> 0 \<and> pm_root (pr_ids r) high \<noteq> None}"

lemma pr_all_ok:
  assumes "pr_inv r"
  shows "sorted_wrt (<) (pr_all r)" "set (pr_all r) = dom (pm_view (pr_ids r))"
proof -
  have ok: "roots_ok (pr_ids r)" "sorted_wrt (<) (pr_roots r)" using assms by (simp_all add: pr_inv_def pm_inv_def)
  have "set (map fst (rootList (pr_ids r))) = {high. high \<noteq> 0 \<and> pm_root (pr_ids r) high \<noteq> None}"
  proof (rule set_eqI)
    fix h
    have "h \<in> set (map fst (rootList (pr_ids r))) \<longleftrightarrow> (\<exists>root. (h, root) \<in> set (rootList (pr_ids r)))" by force
    also have "\<dots> \<longleftrightarrow> h \<noteq> 0 \<and> pm_root (pr_ids r) h \<noteq> None" unfolding rootList_root(1) [OF ok(1)] by simp
    finally show "h \<in> set (map fst (rootList (pr_ids r))) \<longleftrightarrow> h \<in> {high. high \<noteq> 0 \<and> pm_root (pr_ids r) high \<noteq> None}" by simp
  qed
  then have "set (pr_roots r) = set (map fst (rootList (pr_ids r)))" using assms by (simp add: pr_inv_def)
  then have o: "sorted_wrt (<) (map (unat \<circ> fst) (orderedRoots (pr_roots r) (pr_ids r)))"
    "map_of (orderedRoots (pr_roots r) (pr_ids r)) = pm_view (pr_ids r)" using orderedRoots_view [OF ok] by simp_all
  then show "sorted_wrt (<) (pr_all r)"
    unfolding pr_all_def sorted_wrt_map by (elim sorted_wrt_mono_rel [rotated]) (simp add: word_less_nat_alt)
  show "set (pr_all r) = dom (pm_view (pr_ids r))" unfolding pr_all_def o(2) [symmetric] by (simp add: dom_map_of_conv_image_fst)
qed

lemma pm_root_Set:
  assumes "pm_inv m" "high \<noteq> 0"
  shows "pm_root (pm_Set z ident v m) high \<noteq> None \<longleftrightarrow> pm_root m high \<noteq> None \<or> drop_bit 20 ident = high"
  unfolding root_live [OF assms(1)] root_live [OF pm_inv_Set [OF assms(1)]] pm_view_Set by auto

lemma pr_add_ok:
  assumes "pr_inv r"
  shows "pr_inv (pr_add ident r)" "pr_ids (pr_add ident r) = pm_Set () ident () (pr_ids r)"
proof -
  let ?h = "drop_bit 20 ident"
  have ok: "pm_inv (pr_ids r)" "sorted_wrt (<) (pr_roots r)" "set (pr_roots r) = {high. high \<noteq> 0 \<and> pm_root (pr_ids r) high \<noteq> None}"
    using assms by (simp_all add: pr_inv_def)
  show ids: "pr_ids (pr_add ident r) = pm_Set () ident () (pr_ids r)" by (simp add: pr_add_def Let_def)
  note root = pm_root_Set [OF ok(1), where z = "()" and ident = ident and v = "()"]
  have "sorted_wrt (<) (pr_roots (pr_add ident r)) \<and>
    set (pr_roots (pr_add ident r)) = {high. high \<noteq> 0 \<and> (pm_root (pr_ids r) high \<noteq> None \<or> drop_bit 20 ident = high)}"
  proof (cases "?h \<noteq> 0 \<and> pm_root (pr_ids r) ?h = None")
    case True
    then have "?h \<notin> set (pr_roots r)" using ok(3) by simp
    note i = insert_sorted [OF ok(2) this]
    have "pr_roots (pr_add ident r) = insert_at (length (takeWhile (\<lambda>y. y < ?h) (pr_roots r))) ?h (pr_roots r)"
      using True by (simp add: pr_add_def Let_def BinarySearch_eq [OF ok(2)])
    then show ?thesis using i(1,2) ok(3) True by auto
  next
    case False
    then have "pr_roots (pr_add ident r) = pr_roots r" by (auto simp: pr_add_def Let_def)
    then show ?thesis using ok(2,3) False by auto
  qed
  then show "pr_inv (pr_add ident r)" unfolding pr_inv_def ids using ok(1) root by (auto simp: pm_inv_Set)
qed

lemma pr_remove_ok:
  assumes "pr_inv r"
  shows "pr_inv (pr_remove ident r)" "pr_ids (pr_remove ident r) = pm_Delete () ident (pr_ids r)"
proof -
  let ?h = "drop_bit 20 ident" and ?m = "pm_Delete () ident (pr_ids r)"
  have ok: "pm_inv (pr_ids r)" "sorted_wrt (<) (pr_roots r)" "set (pr_roots r) = {high. high \<noteq> 0 \<and> pm_root (pr_ids r) high \<noteq> None}"
    using assms by (simp_all add: pr_inv_def)
  show ids: "pr_ids (pr_remove ident r) = ?m" by (simp add: pr_remove_def Let_def split: prod.splits)
  have inv: "pm_inv ?m" using ok(1) by (rule pm_inv_Delete)
  have root: "pm_root ?m high \<noteq> None \<longleftrightarrow> pm_root (pr_ids r) high \<noteq> None" if "high \<noteq> ?h" for high
    unfolding root_live [OF ok(1)] root_live [OF inv] pm_view_Delete using that by auto
  have less: "pm_root ?m high \<noteq> None \<Longrightarrow> pm_root (pr_ids r) high \<noteq> None" for high
    unfolding root_live [OF ok(1)] root_live [OF inv] pm_view_Delete by (auto split: if_splits)
  have "sorted_wrt (<) (pr_roots (pr_remove ident r)) \<and> set (pr_roots (pr_remove ident r)) = {high. high \<noteq> 0 \<and> pm_root ?m high \<noteq> None}"
  proof (cases "?h = 0 \<or> pm_root ?m ?h \<noteq> None")
    case True
    then have "pr_roots (pr_remove ident r) = pr_roots r" by (auto simp: pr_remove_def Let_def)
    moreover have "high \<noteq> 0 \<and> pm_root (pr_ids r) high \<noteq> None \<longleftrightarrow> high \<noteq> 0 \<and> pm_root ?m high \<noteq> None" for high
      using True root [of high] less [of high] by (cases "high = ?h") auto
    ultimately show ?thesis using ok(2,3) by simp
  next
    case False
    have "set (pr_roots r) - {?h} = {high. high \<noteq> 0 \<and> pm_root ?m high \<noteq> None}"
    proof -
      have "(high \<noteq> 0 \<and> pm_root (pr_ids r) high \<noteq> None) \<and> high \<noteq> ?h \<longleftrightarrow> high \<noteq> 0 \<and> pm_root ?m high \<noteq> None" for high
        using False root [of high] by (cases "high = ?h") auto
      then show ?thesis unfolding ok(3) by blast
    qed
    moreover have "pr_roots (pr_remove ident r) = (if ?h \<in> set (pr_roots r)
        then remove_at (length (takeWhile (\<lambda>y. y < ?h) (pr_roots r))) (pr_roots r) else pr_roots r)"
      using False by (simp add: pr_remove_def Let_def BinarySearch_eq [OF ok(2)])
    ultimately show ?thesis
      using remove_sorted(1,2) [OF ok(2), of ?h] ok(2) False by (cases "?h \<in> set (pr_roots r)") simp_all
  qed
  then show "pr_inv (pr_remove ident r)" unfolding pr_inv_def ids using inv by auto
qed

section \<open>Postings\<close>

definition zero_radix :: propertyPostingRadix where
  "zero_radix = \<lparr>pr_ids = NewPagedMap, pr_roots = []\<rparr>"

interpretation radix_set: id_set zero_radix pr_add pr_remove "\<lambda>r. pm_Has (pr_ids r)" "\<lambda>r. pm_Len (pr_ids r)" pr_all pr_inv
proof
  have "pm_root NewPagedMap high = (None :: unit pageRoot option)" for high by (simp add: NewPagedMap_def pm_root_def)
  then show z: "pr_inv zero_radix" by (simp add: pr_inv_def zero_radix_def pm_inv_New)
  show "pr_all zero_radix = []" using pr_all_ok(2) [OF z] by (simp add: zero_radix_def pm_view_New)
  fix r i
  assume r: "pr_inv r"
  show "pr_inv (pr_add i r)" "pr_inv (pr_remove i r)" using pr_add_ok(1) [OF r] pr_remove_ok(1) [OF r] .
  show "set (pr_all (pr_add i r)) = insert i (set (pr_all r))"
    using pr_add_ok [OF r] by (simp add: pr_all_ok r pm_view_Set)
  show "set (pr_all (pr_remove i r)) = set (pr_all r) - {i}"
    using pr_remove_ok [OF r] by (simp add: pr_all_ok r pm_view_Delete)
  show "sorted_wrt (<) (pr_all r)" using pr_all_ok(1) [OF r] .
  then have "distinct (pr_all r)" using strict_sorted_iff by blast
  then have "length (pr_all r) = card (dom (pm_view (pr_ids r)))" using pr_all_ok(2) [OF r] by (metis distinct_card)
  then show "pm_Len (pr_ids r) = int (length (pr_all r))" using r by (simp add: pm_Len_def pr_inv_def pm_inv_def)
  show "pm_Has (pr_ids r) i \<longleftrightarrow> i \<in> set (pr_all r)" by (auto simp: pm_Has_view pr_all_ok r)
qed

interpretation chunk_set: id_set "newPropertyPostingChunks []" pc_add pc_remove pc_has pc_length "\<lambda>p. concat (pc_chunks p)" pc_inv
  by unfold_locales
    (simp_all add: newPropertyPostingChunks_ok(2) pc_add_ok pc_remove_ok pc_has_ok newPropertyPostingChunks_ok(1) del: set_concat,
     simp_all add: pc_inv_def chunks_ok_def)

definition pp_inv :: "propertyPosting \<Rightarrow> bool" where
  "pp_inv p \<longleftrightarrow> (case pp_large p of
     Some r \<Rightarrow> pr_inv r
   | None \<Rightarrow> (case pp_chunks p of Some c \<Rightarrow> pc_inv c | None \<Rightarrow> sorted_wrt (<) (pp_small p)))"

lemma demote_ok:
  assumes "pr_inv r"
  shows "pp_inv (demote r p)" "pp_all (demote r p) = pr_all r"
  using newPropertyPostingChunks_ok [of "pr_all r"] radix_set.sorted_all [OF assms] assms
  by (simp_all add: demote_def pp_inv_def pp_all_def newPropertyPostingChunksFromRadix_def)

lemma pp_add_ok:
  assumes "pp_inv p"
  shows "pp_inv (pp_add ident p) \<and> set (pp_all (pp_add ident p)) = insert ident (set (pp_all p))"
proof (cases "pp_large p")
  case (Some r)
  then have r: "pr_inv r" using assms by (simp add: pp_inv_def)
  then show ?thesis using demote_ok [OF radix_set.inv_add [OF r]] radix_set.set_add [OF r]
    by (simp add: pp_add_def Some pp_all_def [of p])
next
  case None
  show ?thesis
  proof (cases "pp_chunks p")
    case (Some c)
    then show ?thesis using assms None chunk_set.inv_add [of c] chunk_set.set_add [of c]
      by (simp add: pp_add_def pp_inv_def pp_all_def)
  next
    case small: None
    define l where "l = insert_at (length (takeWhile (\<lambda>y. y < ident) (pp_small p))) ident (pp_small p)"
    have s: "sorted_wrt (<) (pp_small p)" using assms None small by (simp add: pp_inv_def)
    note eq = BinarySearch_eq [OF s, of ident]
    show ?thesis
    proof (cases "ident \<in> set (pp_small p)")
      case True
      then show ?thesis using assms None small by (auto simp: pp_add_def pp_all_def eq)
    next
      case False
      note l = insert_sorted [OF s False, folded l_def]
      have big: "pr_inv (fold pr_add l \<lparr>pr_ids = NewPagedMap, pr_roots = []\<rparr>) \<and>
          set (pr_all (fold pr_add l \<lparr>pr_ids = NewPagedMap, pr_roots = []\<rparr>)) = set l"
        using radix_set.adds_law [OF radix_set.inv_empty, of l] by (simp add: radix_set.all_empty) (simp add: zero_radix_def)
      show ?thesis using None small False l(1,2) newPropertyPostingChunks_ok [of l] big
        by (simp add: pp_add_def eq l_def [symmetric] Let_def pp_inv_def pp_all_def)
    qed
  qed
qed

lemma pp_remove_ok:
  assumes "pp_inv p"
  shows "pp_inv (pp_remove ident p) \<and> set (pp_all (pp_remove ident p)) = set (pp_all p) - {ident}"
proof (cases "pp_large p")
  case (Some r)
  then have r: "pr_inv r" using assms by (simp add: pp_inv_def)
  then show ?thesis using demote_ok [OF radix_set.inv_remove [OF r]] radix_set.set_remove [OF r]
    by (simp add: pp_remove_def Some pp_all_def [of p])
next
  case None
  show ?thesis
  proof (cases "pp_chunks p")
    case (Some c)
    then show ?thesis using assms None chunk_set.inv_remove [of c] chunk_set.set_remove [of c]
      by (simp add: pp_remove_def pp_inv_def pp_all_def)
  next
    case small: None
    have s: "sorted_wrt (<) (pp_small p)" using assms None small by (simp add: pp_inv_def)
    show ?thesis using None small s remove_sorted [OF s, of ident]
      by (auto simp: pp_remove_def pp_all_def pp_inv_def BinarySearch_eq [OF s])
  qed
qed

interpretation posting_set: id_set zero_property_posting pp_add pp_remove pp_has pp_len pp_all pp_inv
proof
  fix p i
  assume p: "pp_inv p"
  show "sorted_wrt (<) (pp_all p)" using p radix_set.sorted_all chunk_set.sorted_all by (auto simp: pp_all_def pp_inv_def split: option.splits)
  show "pp_has p i \<longleftrightarrow> i \<in> set (pp_all p)"
    using p radix_set.has_all chunk_set.has_all by (auto simp: pp_all_def pp_inv_def pp_has_def BinarySearch_eq split: option.splits)
  show "pp_len p = int (length (pp_all p))"
    using p radix_set.len_all chunk_set.len_all by (auto simp: pp_all_def pp_inv_def pp_len_def split: option.splits)
qed (simp_all add: pp_add_ok pp_remove_ok, simp_all add: pp_inv_def pp_all_def zero_property_posting_def)

text \<open>
  A property posting is a set of identifiers, whatever representation it moves through: after any sequence of additions and
  removals from the empty posting, membership and length are those of the set the sequence describes, and iteration yields that
  set in ascending order, each identifier once.
\<close>

theorem property_posting_refines:
  "let p = fold (\<lambda>op. case op of AddID i \<Rightarrow> pp_add i | RemoveID i \<Rightarrow> pp_remove i) ops zero_property_posting; S = id_meaning ops {}
   in pp_all p = sorted_list_of_set S \<and> pp_has p ident = (ident \<in> S) \<and> pp_len p = int (card S)"
proof -
  let ?p = "fold posting_set.step ops zero_property_posting"
  have s: "(\<lambda>op. case op of AddID i \<Rightarrow> pp_add i | RemoveID i \<Rightarrow> pp_remove i) = posting_set.step"
    by (simp add: fun_eq_iff split: id_op.split)
  have r: "pp_inv ?p" "set (pp_all ?p) = id_meaning ops {}" by (rule posting_set.run_empty)+
  show ?thesis unfolding s Let_def
    using posting_set.all_sorted_list [OF r(1)] posting_set.has_all [OF r(1), of ident] posting_set.len_card [OF r(1)] r(2) by simp
qed

end
