(* ===== verification/Sha256.thy ===== *)
theory Sha256
  imports GoBytes
begin

unbundle bit_operations_syntax

text \<open>
  The hash function of \<^verbatim>\<open>crypto/sha256\<close>, as FIPS 180-4 defines it. The index and the page store rely on it only through the
  length of its digests; collisions are handled where the code handles them.
\<close>

definition sha_k :: "u32 list" where
  "sha_k = [1116352408, 1899447441, 3049323471, 3921009573, 961987163, 1508970993, 2453635748, 2870763221,
     3624381080, 310598401, 607225278, 1426881987, 1925078388, 2162078206, 2614888103, 3248222580,
     3835390401, 4022224774, 264347078, 604807628, 770255983, 1249150122, 1555081692, 1996064986,
     2554220882, 2821834349, 2952996808, 3210313671, 3336571891, 3584528711, 113926993, 338241895,
     666307205, 773529912, 1294757372, 1396182291, 1695183700, 1986661051, 2177026350, 2456956037,
     2730485921, 2820302411, 3259730800, 3345764771, 3516065817, 3600352804, 4094571909, 275423344,
     430227734, 506948616, 659060556, 883997877, 958139571, 1322822218, 1537002063, 1747873779,
     1955562222, 2024104815, 2227730452, 2361852424, 2428436474, 2756734187, 3204031479, 3329325298]"

definition sha_h0 :: "u32 list" where
  "sha_h0 = [1779033703, 3144134277, 1013904242, 2773480762, 1359893119, 2600822924, 528734635, 1541459225]"

definition rotr :: "nat \<Rightarrow> u32 \<Rightarrow> u32" where
  "rotr n x = drop_bit n x OR push_bit (32 - n) x"

text \<open>The message, a one bit, zeros, and the length in bits, in blocks of 64 bytes.\<close>

definition sha_pad :: "byte list \<Rightarrow> byte list" where
  "sha_pad bs = bs @ [0x80] @ replicate ((119 - length bs mod 64) mod 64) 0 @ be64 (8 * word_of_nat (length bs))"

text \<open>The message schedule, newest word first.\<close>

primrec sha_schedule :: "nat \<Rightarrow> u32 list \<Rightarrow> u32 list" where
  "sha_schedule 0 w = w"
| "sha_schedule (Suc n) w =
     (let x = w ! 14; y = w ! 1;
          s0 = rotr 7 x XOR rotr 18 x XOR drop_bit 3 x;
          s1 = rotr 17 y XOR rotr 19 y XOR drop_bit 10 y
      in sha_schedule n ((w ! 15 + s0 + w ! 6 + s1) # w))"

definition sha_round :: "u32 \<times> u32 \<Rightarrow> u32 list \<Rightarrow> u32 list" where
  "sha_round kw s =
     (let a = s ! 0; b = s ! 1; c = s ! 2; e = s ! 4; f = s ! 5; g = s ! 6;
          t1 = s ! 7 + (rotr 6 e XOR rotr 11 e XOR rotr 25 e) + ((e AND f) XOR (NOT e AND g)) + fst kw + snd kw;
          t2 = (rotr 2 a XOR rotr 13 a XOR rotr 22 a) + ((a AND b) XOR (a AND c) XOR (b AND c))
      in [t1 + t2, a, b, c, s ! 3 + t1, e, f, g])"

definition sha_block :: "u32 list \<Rightarrow> byte list \<Rightarrow> u32 list" where
  "sha_block h block =
     (let w = rev (sha_schedule 48 (rev (map (\<lambda>i. from_be32 (take 4 (drop (4 * i) block))) [0..<16])))
      in map2 (+) h (fold sha_round (zip sha_k w) h))"

definition sha256_Sum256 :: "byte list \<Rightarrow> byte list" where
  "sha256_Sum256 bs =
     (let m = sha_pad bs
      in concat (map be32 (fold (\<lambda>i h. sha_block h (take 64 (drop (64 * i) m))) [0..<length m div 64] sha_h0)))"

lemma sha_round_length: "length (sha_round kw s) = 8"
  by (simp add: sha_round_def Let_def)

lemma sha_rounds_length: "length s = 8 \<Longrightarrow> length (fold sha_round l s) = 8"
  by (induction l arbitrary: s) (simp_all add: sha_round_length)

lemma sha_blocks_length:
  "length h = 8 \<Longrightarrow> length (fold (\<lambda>i h. sha_block h (b i)) is h) = 8"
  by (induction "is" arbitrary: h) (simp_all add: sha_block_def Let_def sha_rounds_length)

lemma sha256_length [simp]: "length (sha256_Sum256 bs) = 32"
proof -
  have "length (fold (\<lambda>i h. sha_block h (take 64 (drop (64 * i) (sha_pad bs)))) [0..<length (sha_pad bs) div 64] sha_h0) = 8"
    by (rule sha_blocks_length) (simp add: sha_h0_def)
  then show ?thesis by (simp add: sha256_Sum256_def Let_def length_concat o_def sum_list_triv)
qed

end
