(* ===== verification/PropertyValueKey.thy ===== *)
theory PropertyValueKey
  imports ValueLaws Sha256
begin

unbundle bit_operations_syntax

text \<open>
  The key under which a property value is indexed (\<^verbatim>\<open>internal/store/property_index.go\<close>): scalars are spelled out, containers
  are hashed over a byte encoding of the value. Zero of either sign is one value to the index. A \<^verbatim>\<open>[32]byte\<close> digest is a list of
  32 bytes, zero where the Go struct leaves it out.
\<close>

section \<open>The code\<close>

record propertyValueKey =
  vk_kind :: byte
  vk_number :: u64
  vk_text :: string
  vk_digest :: "byte list"

definition zero_digest :: "byte list" where
  "zero_digest = replicate 32 0"

definition zero_value_key :: propertyValueKey where
  "zero_value_key = \<lparr>vk_kind = 0, vk_number = 0, vk_text = [], vk_digest = zero_digest\<rparr>"

definition boolByte :: "bool \<Rightarrow> byte" where
  "boolByte b = (if b then 1 else 0)"

text \<open>\<^verbatim>\<open>if typed == 0 { typed = 0 }\<close> on the bits of a float: both zeros become the positive one.\<close>

definition zero64 :: "u64 \<Rightarrow> u64" where
  "zero64 f = (if f = 0 \<or> f = 0x8000000000000000 then 0 else f)"

definition zero32 :: "u32 \<Rightarrow> u32" where
  "zero32 f = (if f = 0 \<or> f = 0x80000000 then 0 else f)"

definition length_bytes :: "'a list \<Rightarrow> byte list" where
  "length_bytes l = be64 (word_of_nat (length l))"

definition write_items :: "(gvalue \<Rightarrow> gerr + byte list) \<Rightarrow> gvalue list \<Rightarrow> gerr + byte list" where
  "write_items f l = (case sum_list_map f l of Inl er \<Rightarrow> Inl er | Inr bs \<Rightarrow> Inr (concat bs))"

definition write_entries :: "(gvalue \<Rightarrow> gerr + byte list) \<Rightarrow> (string \<times> gvalue) list \<Rightarrow> gerr + byte list" where
  "write_entries f l =
     (case sum_list_map (\<lambda>(name, v). case f v of Inl er \<Rightarrow> Inl er | Inr bs \<Rightarrow> Inr (length_bytes name @ string_bytes name @ bs))
        (sort_entries l)
      of Inl er \<Rightarrow> Inl er | Inr bs \<Rightarrow> Inr (concat bs))"

lemma write_items_cong [fundef_cong]:
  "l = l' \<Longrightarrow> (\<And>x. x \<in> set l' \<Longrightarrow> f x = g x) \<Longrightarrow> write_items f l = write_items g l'"
  unfolding write_items_def by (metis sum_list_map_cong)

lemma write_entries_cong [fundef_cong]:
  assumes "l = l'" "\<And>k v. (k, v) \<in> set l' \<Longrightarrow> f v = g v"
  shows "write_entries f l = write_entries g l'"
proof -
  have "sum_list_map (\<lambda>(name, v). case f v of Inl er \<Rightarrow> Inl er | Inr bs \<Rightarrow> Inr (length_bytes name @ string_bytes name @ bs)) (sort_entries l') =
    sum_list_map (\<lambda>(name, v). case g v of Inl er \<Rightarrow> Inl er | Inr bs \<Rightarrow> Inr (length_bytes name @ string_bytes name @ bs)) (sort_entries l')"
    using assms(2) by (intro sum_list_map_cong) auto
  then show ?thesis unfolding write_entries_def assms(1) by (rule arg_cong)
qed

text \<open>What \<^verbatim>\<open>writePropertyValueHash\<close> writes.\<close>

fun writePropertyValueHash :: "gvalue \<Rightarrow> gerr + byte list" where
  "writePropertyValueHash GNil = Inr [1]"
| "writePropertyValueHash (GBool b) = Inr [2, boolByte b]"
| "writePropertyValueHash (GInt64 i) = Inr (3 # be64 i)"
| "writePropertyValueHash (GFloat64 f) = Inr (4 # be64 (zero64 f))"
| "writePropertyValueHash (GString s) = Inr (5 # length_bytes s @ string_bytes s)"
| "writePropertyValueHash (GBytes bs) = Inr (6 # length_bytes (opt_items bs) @ opt_items bs)"
| "writePropertyValueHash (GVector xs) = Inr (7 # length_bytes (opt_items xs) @ concat (map (\<lambda>f. be32 (zero32 f)) (opt_items xs)))"
| "writePropertyValueHash (GList visit xs) =
     (case write_items writePropertyValueHash (opt_items xs) of
        Inl er \<Rightarrow> Inl er
      | Inr bs \<Rightarrow> Inr (8 # length_bytes (opt_items xs) @ bs))"
| "writePropertyValueHash (GMap visit m) =
     (case write_entries writePropertyValueHash (opt_items m) of
        Inl er \<Rightarrow> Inl er
      | Inr bs \<Rightarrow> Inr (9 # length_bytes (opt_items m) @ bs))"
| "writePropertyValueHash v = Inl (ErrMsg ''property index value is not normalized'')"

definition propertyKind :: "gvalue \<Rightarrow> byte" where
  "propertyKind v = (case v of GVector _ \<Rightarrow> 7 | GList _ _ \<Rightarrow> 8 | GMap _ _ \<Rightarrow> 9 | _ \<Rightarrow> 0)"

definition hashed_key :: "gvalue \<Rightarrow> gerr + propertyValueKey" where
  "hashed_key v = (case writePropertyValueHash v of
     Inl er \<Rightarrow> Inl er
   | Inr bs \<Rightarrow> Inr (zero_value_key\<lparr>vk_kind := propertyKind v, vk_digest := sha256_Sum256 bs\<rparr>))"

fun makePropertyValueKey :: "gvalue \<Rightarrow> gerr + propertyValueKey" where
  "makePropertyValueKey GNil = Inr (zero_value_key\<lparr>vk_kind := 1\<rparr>)"
| "makePropertyValueKey (GBool b) = Inr (zero_value_key\<lparr>vk_kind := 2, vk_number := ucast (boolByte b)\<rparr>)"
| "makePropertyValueKey (GInt64 i) = Inr (zero_value_key\<lparr>vk_kind := 3, vk_number := i\<rparr>)"
| "makePropertyValueKey (GFloat64 f) = Inr (zero_value_key\<lparr>vk_kind := 4, vk_number := zero64 f\<rparr>)"
| "makePropertyValueKey (GString s) = Inr (zero_value_key\<lparr>vk_kind := 5, vk_text := s\<rparr>)"
| "makePropertyValueKey (GBytes bs) = Inr (zero_value_key\<lparr>vk_kind := 6, vk_digest := sha256_Sum256 (opt_items bs)\<rparr>)"
| "makePropertyValueKey (GVector xs) = hashed_key (GVector xs)"
| "makePropertyValueKey (GList visit xs) = hashed_key (GList visit xs)"
| "makePropertyValueKey (GMap visit m) = hashed_key (GMap visit m)"
| "makePropertyValueKey v = Inl (ErrMsg ''property index value is not normalized'')"

definition propertyIndexValuesEqual :: "gvalue \<Rightarrow> gvalue \<Rightarrow> bool" where
  "propertyIndexValuesEqual left right = (case writePropertyValueHash left of
     Inl _ \<Rightarrow> False
   | Inr a \<Rightarrow> (case writePropertyValueHash right of Inl _ \<Rightarrow> False | Inr b \<Rightarrow> a = b))"

definition hashPropertyValueKey :: "propertyValueKey \<Rightarrow> u64" where
  "hashPropertyValueKey key =
     (let h0 = 14695981039346656037 XOR ucast (vk_kind key);
          h1 = (h0 XOR vk_number key) * 1099511628211;
          h2 = fold (\<lambda>c h. (h XOR ucast (byte_of_char c)) * 1099511628211) (vk_text key) h1
      in fold (\<lambda>b h. (h XOR ucast b) * 1099511628211) (vk_digest key) h2)"

section \<open>What the encoding identifies\<close>

text \<open>The values the index cannot tell apart have one representative: positive zeros, map entries in key order.\<close>

fun index_canon :: "gvalue \<Rightarrow> gvalue" where
  "index_canon (GFloat64 f) = GFloat64 (zero64 f)"
| "index_canon (GVector xs) = GVector (map_option (map zero32) xs)"
| "index_canon (GList visit (Some l)) = GList visit (Some (map index_canon l))"
| "index_canon (GMap visit (Some l)) = GMap visit (Some (sort_entries (map_values index_canon l)))"
| "index_canon v = v"

text \<open>The bytes of a normalised value.\<close>

fun hash_bytes :: "gvalue \<Rightarrow> byte list" where
  "hash_bytes GNil = [1]"
| "hash_bytes (GBool b) = [2, boolByte b]"
| "hash_bytes (GInt64 i) = 3 # be64 i"
| "hash_bytes (GFloat64 f) = 4 # be64 (zero64 f)"
| "hash_bytes (GString s) = 5 # length_bytes s @ string_bytes s"
| "hash_bytes (GBytes bs) = 6 # length_bytes (opt_items bs) @ opt_items bs"
| "hash_bytes (GVector xs) = 7 # length_bytes (opt_items xs) @ concat (map (\<lambda>f. be32 (zero32 f)) (opt_items xs))"
| "hash_bytes (GList visit (Some l)) = 8 # length_bytes l @ concat (map hash_bytes l)"
| "hash_bytes (GMap visit (Some l)) = 9 # length_bytes l @
     concat (map (\<lambda>(k, bs). length_bytes k @ string_bytes k @ bs) (sort_entries (map_values hash_bytes l)))"
| "hash_bytes v = []"

lemma hash_entries:
  "map (\<lambda>(k, bs). length_bytes k @ string_bytes k @ bs) (map_values hash_bytes l) =
   map (\<lambda>(k, v). length_bytes k @ string_bytes k @ hash_bytes v) l"
  by (simp add: map_values_def o_def case_prod_beta)

lemma write_hash_bytes: "is_norm depth v \<Longrightarrow> writePropertyValueHash v = Inr (hash_bytes v)"
proof (induction depth v rule: is_norm.induct)
  case (8 depth visit xs)
  then obtain l where l: "xs = Some l" "list_all (is_norm (depth + 1)) l" by (auto split: option.splits)
  then have "writePropertyValueHash x = Inr (hash_bytes x)" if "x \<in> set l" for x
    using 8 that by (auto simp: list_all_iff)
  then show ?case using l(1) by (simp add: write_items_def opt_items_def sum_list_map_all)
next
  case (9 depth visit m)
  then obtain l where l: "m = Some l" "all_entries utf8_string (is_norm (depth + 1)) l" by (auto split: option.splits)
  then have "writePropertyValueHash v = Inr (hash_bytes v)" if "(k, v) \<in> set l" for k v
    using 9 that by (fastforce simp: all_entries_def list_all_iff)
  then have "sum_list_map (\<lambda>(name, v). case writePropertyValueHash v of Inl er \<Rightarrow> Inl er
      | Inr bs \<Rightarrow> Inr (length_bytes name @ string_bytes name @ bs)) (sort_entries l) =
    Inr (map (\<lambda>(k, v). length_bytes k @ string_bytes k @ hash_bytes v) (sort_entries l))"
    by (intro sum_list_map_all) auto
  then show ?case using l(1)
    by (simp add: write_entries_def opt_items_def hash_entries)
qed simp_all

text \<open>Sizes that a 64-bit length can express.\<close>

fun value_fits :: "gvalue \<Rightarrow> bool" where
  "value_fits (GString s) \<longleftrightarrow> length s < 2 ^ 48"
| "value_fits (GBytes bs) \<longleftrightarrow> length (opt_items bs) < 2 ^ 48"
| "value_fits (GVector xs) \<longleftrightarrow> length (opt_items xs) < 2 ^ 48"
| "value_fits (GList visit (Some l)) \<longleftrightarrow> length l < 2 ^ 48 \<and> list_all value_fits l"
| "value_fits (GMap visit (Some l)) \<longleftrightarrow> length l < 2 ^ 48 \<and> all_entries (\<lambda>k. length k < 2 ^ 48) value_fits l"
| "value_fits v \<longleftrightarrow> True"

lemma length_bytes_eq:
  "length a < 2 ^ 48 \<Longrightarrow> length b < 2 ^ 48 \<Longrightarrow> length_bytes a @ s = length_bytes b @ t \<longleftrightarrow> length a = length b \<and> s = t"
proof -
  assume a: "length a < 2 ^ 48" "length b < 2 ^ 48"
  then have "(word_of_nat (length a) :: u64) = word_of_nat (length b) \<longleftrightarrow> length a = length b"
    by (auto simp: word_unat_eq_iff unat_of_nat)
  moreover have "be64 x = be64 y \<longleftrightarrow> x = y" for x y by (metis from_be64_be64)
  ultimately show ?thesis by (simp add: length_bytes_def)
qed

text \<open>Parts that read off uniquely concatenate to something that reads off uniquely.\<close>

lemma concat_unique:
  assumes "\<And>x y s t. x \<in> set xs \<Longrightarrow> y \<in> set ys \<Longrightarrow> f x @ s = f y @ t \<Longrightarrow> g x = g y \<and> s = t"
    and "length xs = length ys" "concat (map f xs) @ s = concat (map f ys) @ t"
  shows "map g xs = map g ys \<and> s = t"
  using assms(2,1,3)
proof (induction xs ys rule: list_induct2)
  case (Cons x xs y ys)
  then have "f x @ concat (map f xs) @ s = f y @ concat (map f ys) @ t" by simp
  then have "g x = g y \<and> concat (map f xs) @ s = concat (map f ys) @ t" using Cons.prems(1) by (metis list.set_intros(1))
  moreover have "map g xs = map g ys \<and> s = t"
  proof (rule Cons.IH)
    show "g u = g v \<and> s = t" if "u \<in> set xs" "v \<in> set ys" "f u @ s = f v @ t" for u v s t
      using that by (intro Cons.prems(1)) auto
  qed (use calculation in simp)
  ultimately show ?case by simp
qed simp

lemma boolByte_eq [simp]: "boolByte a = boolByte b \<longleftrightarrow> a = b"
  by (simp add: boolByte_def)

lemma be_append_eq: "be64 x @ s = be64 y @ t \<longleftrightarrow> x = y \<and> s = t" "be32 u @ s = be32 v @ t \<longleftrightarrow> u = v \<and> s = t"
  by (auto dest: arg_cong [of _ _ from_be64] arg_cong [of _ _ from_be32])

lemma string_bytes_inj: "string_bytes s = string_bytes t \<longleftrightarrow> s = t"
  by (metis bytes_string_bytes)

lemma hash_unique:
  assumes "is_norm da a" "is_norm db b" "value_fits a" "value_fits b" "hash_bytes a @ s = hash_bytes b @ t"
  shows "index_canon a = index_canon b \<and> s = t"
  using assms
proof (induction da a arbitrary: db b s t rule: is_norm.induct)
  case (1 depth)
  then show ?case by (cases b rule: hash_bytes.cases) auto
next
  case (2 depth x)
  then show ?case by (cases b rule: hash_bytes.cases) auto
next
  case (3 depth i)
  then show ?case by (cases b rule: hash_bytes.cases) (auto simp: be_append_eq)
next
  case (4 depth f)
  then show ?case by (cases b rule: hash_bytes.cases) (auto simp: be_append_eq)
next
  case (5 depth x)
  then show ?case by (cases b rule: hash_bytes.cases) (auto simp: length_bytes_eq string_bytes_inj)
next
  case (6 depth bs)
  then show ?case by (cases b rule: hash_bytes.cases) (auto simp: length_bytes_eq opt_items_def split: option.splits)
next
  case (7 depth xs)
  then obtain ys where b: "b = GVector ys" by (cases b rule: hash_bytes.cases) auto
  have e: "length (opt_items xs) = length (opt_items ys)"
    "concat (map (\<lambda>f. be32 (zero32 f)) (opt_items xs)) @ s = concat (map (\<lambda>f. be32 (zero32 f)) (opt_items ys)) @ t"
    using 7 unfolding b by (auto simp: length_bytes_eq)
  have "map zero32 (opt_items xs) = map zero32 (opt_items ys) \<and> s = t"
    by (rule concat_unique [OF _ e]) (simp add: be_append_eq)
  then show ?case using 7(1,2) e(1) unfolding b by (auto simp: opt_items_def split: option.splits)
next
  case (8 depth visit xs)
  then obtain l where l: "xs = Some l" "list_all (is_norm (depth + 1)) l" "visit = None" by (auto split: option.splits)
  obtain v ys where b0: "b = GList v ys" using 8(3,6) l(1) by (cases b rule: hash_bytes.cases) auto
  obtain l' where b: "b = GList None (Some l')" "list_all (is_norm (db + 1)) l'" using 8(3) unfolding b0 by (auto split: option.splits)
  have e: "length l = length l'" "concat (map hash_bytes l) @ s = concat (map hash_bytes l') @ t"
    using 8(4-6) unfolding b l(1) by (auto simp: length_bytes_eq)
  have "map index_canon l = map index_canon l' \<and> s = t"
  proof (rule concat_unique [OF _ e])
    fix x y s t
    assume "x \<in> set l" "y \<in> set l'" "hash_bytes x @ s = hash_bytes y @ t"
    then show "index_canon x = index_canon y \<and> s = t"
      using 8(1) [OF l(1), of x "db + 1" y s t] l(2) b(2) 8(4,5) unfolding b(1) l(1) by (auto simp: list_all_iff)
  qed
  then show ?case using l b by simp
next
  case (9 depth visit m)
  then obtain l where l: "m = Some l" "all_entries utf8_string (is_norm (depth + 1)) l" "visit = None" by (auto split: option.splits)
  obtain v ys where b0: "b = GMap v ys" using 9(3,6) l(1) by (cases b rule: hash_bytes.cases) auto
  obtain l' where b: "b = GMap None (Some l')" "all_entries utf8_string (is_norm (db + 1)) l'" using 9(3) unfolding b0 by (auto split: option.splits)
  let ?f = "\<lambda>(k, v). length_bytes k @ string_bytes k @ hash_bytes v" and ?g = "\<lambda>(k, v). (k, index_canon v)"
  have e: "length (sort_entries l) = length (sort_entries l')"
    "concat (map ?f (sort_entries l)) @ s = concat (map ?f (sort_entries l')) @ t"
    using 9(4-6) unfolding b l(1) by (auto simp: length_bytes_eq hash_entries)
  have "map ?g (sort_entries l) = map ?g (sort_entries l') \<and> s = t"
  proof (rule concat_unique [OF _ e])
    fix x y s t
    assume "x \<in> set (sort_entries l)" "y \<in> set (sort_entries l')" and eq: "?f x @ s = ?f y @ t"
    obtain k v where x0: "x = (k, v)" by (rule prod.exhaust)
    obtain k' v' where y0: "y = (k', v')" by (rule prod.exhaust)
    have x: "x = (k, v)" "(k, v) \<in> set l" and y: "y = (k', v')" "(k', v') \<in> set l'"
      using \<open>x \<in> set (sort_entries l)\<close> \<open>y \<in> set (sort_entries l')\<close> x0 y0 by simp_all
    have n: "is_norm (depth + 1) v" "is_norm (db + 1) v'" "value_fits v" "value_fits v'" "length k < 2 ^ 48" "length k' < 2 ^ 48"
      using x(2) y(2) l(2) b(2) 9(4,5) unfolding b(1) l(1) by (auto simp: all_entries_def list_all_iff)
    have "length k = length k'" "string_bytes k @ hash_bytes v @ s = string_bytes k' @ hash_bytes v' @ t"
      using eq n(5,6) unfolding x y by (auto simp: length_bytes_eq)
    then have "k = k'" "hash_bytes v @ s = hash_bytes v' @ t" by (auto simp: string_bytes_inj)
    then show "?g x = ?g y \<and> s = t"
      using 9(1) [OF l(1) x(2), of "db + 1" v' s t] n unfolding x(1) y(1) by auto
  qed
  then have "map_values index_canon (sort_entries l) = map_values index_canon (sort_entries l') \<and> s = t" by (simp add: map_values_def)
  then show ?case using l b by simp
qed simp_all

lemma zero_idem [simp]: "zero64 (zero64 f) = zero64 f" "zero32 (zero32 g) = zero32 g"
  by (simp_all add: zero64_def zero32_def)

lemma opt_items_map: "opt_items (map_option (map f) xs) = map f (opt_items xs)"
  by (simp add: opt_items_def split: option.splits)

lemma hash_bytes_canon [simp]: "hash_bytes (index_canon v) = hash_bytes v"
proof (induction v rule: index_canon.induct)
  case (4 visit l)
  then have "map_values (\<lambda>x. hash_bytes (index_canon x)) (sort_entries l) = map_values hash_bytes (sort_entries l)"
    by (intro map_values_cong) auto
  then show ?case by (simp add: length_bytes_def)
qed (auto simp: opt_items_map length_bytes_def o_def intro!: arg_cong [of _ _ concat])

lemma values_equal_canon:
  assumes "is_norm da v" "is_norm db w" "value_fits v" "value_fits w"
  shows "propertyIndexValuesEqual v w \<longleftrightarrow> index_canon v = index_canon w"
proof -
  have "propertyIndexValuesEqual v w \<longleftrightarrow> hash_bytes v = hash_bytes w"
    by (simp add: propertyIndexValuesEqual_def write_hash_bytes [OF assms(1)] write_hash_bytes [OF assms(2)])
  also have "\<dots> \<longleftrightarrow> index_canon v = index_canon w"
    using hash_unique [OF assms, of "[]" "[]"] by (auto dest: arg_cong [of _ _ hash_bytes])
  finally show ?thesis .
qed

lemma canon_kind:
  assumes "is_norm da v" "is_norm db w" "index_canon v = index_canon w"
  shows "makePropertyValueKey v = makePropertyValueKey w"
proof -
  have h: "hash_bytes v = hash_bytes w" using arg_cong [OF assms(3), of hash_bytes] by simp
  have k: "hashed_key v = hashed_key w" if "propertyKind v = propertyKind w"
    using that h by (simp add: hashed_key_def write_hash_bytes [OF assms(1)] write_hash_bytes [OF assms(2)])
  show ?thesis using assms h k
    by (cases v rule: hash_bytes.cases; cases w rule: hash_bytes.cases; simp add: propertyKind_def) 
qed

text \<open>The limits that normalisation enforces keep every length far below the encoding's.\<close>

lemma limits_fit:
  "is_norm depth v \<Longrightarrow> velems v \<le> maxValueElements \<Longrightarrow> vbytes v \<le> maxValueBytes \<Longrightarrow> value_fits v"
proof (induction depth v rule: is_norm.induct)
  case (6 depth bs)
  then show ?case by (simp add: maxValueBytes_def opt_items_def opt_length_def split: option.splits)
next
  case (7 depth xs)
  then show ?case by (simp add: maxValueBytes_def opt_items_def opt_length_def split: option.splits)
next
  case (8 depth visit xs)
  then obtain l where l: "xs = Some l" "list_all (is_norm (depth + 1)) l" by (auto split: option.splits)
  have "value_fits x" if "x \<in> set l" for x
  proof (rule 8(1) [OF l(1) that])
    show "is_norm (depth + 1) x" using l(2) that by (simp add: list_all_iff)
    have "velems x \<le> sum_list (map velems l)" "vbytes x \<le> sum_list (map vbytes l)"
      using that by (auto intro!: member_le_sum_list velems_nonneg vbytes_nonneg)
    then show "velems x \<le> maxValueElements" "vbytes x \<le> maxValueBytes" using 8(3,4) l(1) by simp_all
  qed
  moreover have "0 \<le> sum_list (map velems l)" by (auto intro!: sum_list_nonneg velems_nonneg)
  ultimately show ?case using 8(3) l(1) by (simp add: list_all_iff maxValueElements_def)
next
  case (9 depth visit m)
  then obtain l where l: "m = Some l" "all_entries utf8_string (is_norm (depth + 1)) l" by (auto split: option.splits)
  have "length k < 2 ^ 48 \<and> value_fits x" if kx: "(k, x) \<in> set l" for k x
  proof -
    have "(\<lambda>(k, v). velems v) (k, x) \<le> sum_list (map (\<lambda>(k, v). velems v) l)"
      "(\<lambda>(k, v). int (length k) + vbytes v) (k, x) \<le> sum_list (map (\<lambda>(k, v). int (length k) + vbytes v) l)"
      using kx by (auto intro!: member_le_sum_list velems_nonneg vbytes_nonneg add_nonneg_nonneg image_eqI [where x = "(k, x)"])
    then have b: "velems x \<le> maxValueElements" "int (length k) + vbytes x \<le> maxValueBytes" using 9(3,4) l(1) by simp_all
    have "is_norm (depth + 1) x" using l(2) kx by (auto simp: all_entries_def list_all_iff)
    then have "value_fits x" using 9(1) [OF l(1) kx] b by simp
    then show ?thesis using b vbytes_nonneg [of x] by (simp add: maxValueBytes_def)
  qed
  moreover have "0 \<le> sum_list (map (\<lambda>(k, v). velems v) l)" by (auto intro!: sum_list_nonneg velems_nonneg)
  ultimately show ?case using 9(3) l(1) by (auto simp: all_entries_def list_all_iff maxValueElements_def)
qed (simp_all add: maxValueBytes_def)

text \<open>
  C36. The index tells values apart exactly up to the sign of zeros and the order of map entries: for values as normalisation leaves
  them, the encodings that \<^verbatim>\<open>propertyIndexValuesEqual\<close> compares are equal if and only if the values have the same
  canonical form, and then their index keys are equal too.
\<close>

theorem property_values_equal_iff:
  assumes "is_norm 0 v" "velems v \<le> maxValueElements" "vbytes v \<le> maxValueBytes"
    and "is_norm 0 w" "velems w \<le> maxValueElements" "vbytes w \<le> maxValueBytes"
  shows "(propertyIndexValuesEqual v w \<longleftrightarrow> index_canon v = index_canon w) \<and>
    (propertyIndexValuesEqual v w \<longrightarrow> makePropertyValueKey v = makePropertyValueKey w)"
  using values_equal_canon [OF assms(1,4) limits_fit [OF assms(1-3)] limits_fit [OF assms(4-6)]] canon_kind [OF assms(1,4)] by blast

theorem property_values_equal_iff_witness:
  "propertyIndexValuesEqual (GMap None (Some [(''b'', GFloat64 0x8000000000000000), (''a'', GNil)])) (GMap None (Some [(''a'', GNil), (''b'', GFloat64 0)])) \<and>
   makePropertyValueKey (GMap None (Some [(''b'', GFloat64 0x8000000000000000), (''a'', GNil)])) =
   makePropertyValueKey (GMap None (Some [(''a'', GNil), (''b'', GFloat64 0)]))"
proof -
  let ?v = "GMap None (Some [(''b'', GFloat64 0x8000000000000000), (''a'', GNil)])" and ?w = "GMap None (Some [(''a'', GNil), (''b'', GFloat64 0)])"
  have "is_norm 0 ?v" "is_norm 0 ?w" by code_simp+
  moreover have "velems ?v \<le> maxValueElements" "vbytes ?v \<le> maxValueBytes" "velems ?w \<le> maxValueElements" "vbytes ?w \<le> maxValueBytes"
    by (simp_all add: maxValueElements_def maxValueBytes_def)
  moreover have "index_canon ?v = index_canon ?w" by code_simp
  ultimately show ?thesis using property_values_equal_iff [of ?v ?w] by simp
qed

end
