(* ===== verification/PropertyIndex.thy ===== *)
theory PropertyIndex
  imports PropertyPosting PropertyValueKey Properties
begin

text \<open>
  The property indexes of a graph (\<^verbatim>\<open>PropertyIndexes\<close> of \<^verbatim>\<open>internal/store/property_index.go\<close>): for each definition the postings of
  every indexed value, in hash buckets. The sets \<^verbatim>\<open>clonedHashes\<close>, \<^verbatim>\<open>clonedValues\<close> and \<^verbatim>\<open>cloned\<close> decide what is copied before a write;
  they are part of the model because a wrong one would make a write into a nil map, which is the panic \<^term>\<open>ErrPanic\<close>.
  With a page backend (\<open>ix_page\<close>) the changes are kept beside the stored postings in \<open>ix_added\<close> and \<open>ix_removed\<close>, and lookups go
  through the backend, whose visitor is an argument here and a definition of \<open>PagePropertyIndex\<close>.
\<close>

section \<open>The code\<close>

record PropertyIndexDefinition =
  id_Scope :: string
  id_Property :: string

type_synonym value_bucket = "(propertyValueKey, propertyPosting) key_bucket"

record propertyIndexData =
  xd_values :: "value_bucket option ShardMap"
  xd_clonedHashes :: "u64 list option"
  xd_clonedValues :: "propertyValueKey list option"

type_synonym property_deltas = "(PropertyIndexDefinition \<times> value_bucket) list"

record PropertyIndexes =
  ix_definitions :: "(PropertyIndexDefinition \<times> propertyIndexData) list"
  ix_page :: bool
  ix_added :: property_deltas
  ix_removed :: property_deltas
  ix_rootCloned :: bool
  ix_cloned :: "PropertyIndexDefinition list"

definition NewPropertyIndexes :: PropertyIndexes where
  "NewPropertyIndexes = \<lparr>ix_definitions = [], ix_page = False, ix_added = [], ix_removed = [], ix_rootCloned = False, ix_cloned = []\<rparr>"

text \<open>\<^verbatim>\<open>forkPropertyDeltas\<close> copies the nested maps and is the identity on values.\<close>

definition ix_Fork :: "PropertyIndexes \<Rightarrow> PropertyIndexes" where
  "ix_Fork ix = \<lparr>ix_definitions = ix_definitions ix, ix_page = ix_page ix, ix_added = ix_added ix, ix_removed = ix_removed ix,
     ix_rootCloned = False, ix_cloned = []\<rparr>"

definition ix_Has :: "PropertyIndexes \<Rightarrow> PropertyIndexDefinition \<Rightarrow> bool" where
  "ix_Has ix d \<longleftrightarrow> map_of (ix_definitions ix) d \<noteq> None"

definition ix_Len :: "PropertyIndexes \<Rightarrow> int" where
  "ix_Len ix = int (length (ix_definitions ix))"

definition ix_Definitions :: "PropertyIndexes \<Rightarrow> PropertyIndexDefinition list" where
  "ix_Definitions ix = map fst (ix_definitions ix)"

definition DefinitionsFor :: "PropertyIndexes \<Rightarrow> string list \<Rightarrow> Properties \<Rightarrow> PropertyIndexDefinition list" where
  "DefinitionsFor ix scopes properties =
     (if scopes = [] \<or> p_Len properties = 0 then []
      else if ix_Len ix \<le> p_Len properties
      then filter (\<lambda>d. id_Scope d \<in> set scopes \<and> snd (p_Lookup properties (id_Property d))) (ix_Definitions ix)
      else concat (map (\<lambda>scope. filter (ix_Has ix)
             (map (\<lambda>(property, v). \<lparr>id_Scope = scope, id_Property = property\<rparr>) (p_All properties))) scopes))"

text \<open>\<^verbatim>\<open>cloneRoot\<close>; the definitions it copies are the same.\<close>

definition cloneRoot :: "PropertyIndexes \<Rightarrow> PropertyIndexes" where
  "cloneRoot ix = (if ix_rootCloned ix then ix else ix\<lparr>ix_rootCloned := True, ix_cloned := []\<rparr>)"

definition ix_Create :: "PropertyIndexDefinition \<Rightarrow> PropertyIndexes \<Rightarrow> bool \<times> PropertyIndexes" where
  "ix_Create d ix =
     (if ix_Has ix d then (False, ix)
      else
        let ix1 = cloneRoot ix;
            ix2 = ix1\<lparr>ix_definitions := AList.update d \<lparr>xd_values = NewShardMap, xd_clonedHashes = None, xd_clonedValues = None\<rparr> (ix_definitions ix1)\<rparr>
        in if ix_page ix2 then (True, ix2) else (True, ix2\<lparr>ix_cloned := d # ix_cloned ix2\<rparr>))"

definition ix_Drop :: "PropertyIndexDefinition \<Rightarrow> PropertyIndexes \<Rightarrow> bool \<times> PropertyIndexes" where
  "ix_Drop d ix =
     (if \<not> ix_Has ix d then (False, ix)
      else
        let ix1 = cloneRoot ix in
        (True, ix1\<lparr>ix_definitions := AList.delete d (ix_definitions ix1), ix_added := AList.delete d (ix_added ix1),
                   ix_removed := AList.delete d (ix_removed ix1), ix_cloned := removeAll d (ix_cloned ix1)\<rparr>))"

definition writableDefinition :: "PropertyIndexDefinition \<Rightarrow> PropertyIndexes \<Rightarrow> PropertyIndexes \<times> propertyIndexData option" where
  "writableDefinition d ix = (case map_of (ix_definitions ix) d of
     None \<Rightarrow> (ix, None)
   | Some data \<Rightarrow>
       let ix1 = cloneRoot ix in
       if d \<in> set (ix_cloned ix1) then (ix1, Some data)
       else
         let data1 = data\<lparr>xd_values := sm_Fork (xd_values data), xd_clonedHashes := None, xd_clonedValues := None\<rparr>
         in (ix1\<lparr>ix_definitions := AList.update d data1 (ix_definitions ix1), ix_cloned := d # ix_cloned ix1\<rparr>, Some data1))"

definition xd_writableBucket :: "u64 \<Rightarrow> propertyIndexData \<Rightarrow> propertyIndexData \<times> value_bucket option" where
  "xd_writableBucket hashed data =
     (let d1 = data\<lparr>xd_values := sm_CloneShardOnce hashed (xd_values data)\<rparr>;
          d2 = (if xd_clonedHashes d1 = None then d1\<lparr>xd_clonedHashes := Some [], xd_clonedValues := Some []\<rparr> else d1);
          hashes = (case xd_clonedHashes d2 of None \<Rightarrow> [] | Some c \<Rightarrow> c);
          d3 = (if hashed \<in> set hashes then d2
                else d2\<lparr>xd_values := sm_Set hashed (Some (case sm_Get None (xd_values d2) hashed of None \<Rightarrow> [] | Some b \<Rightarrow> b)) (xd_values d2),
                       xd_clonedHashes := Some (hashed # hashes)\<rparr>)
      in (d3, sm_Get None (xd_values d3) hashed))"

definition bucket_posting :: "value_bucket option \<Rightarrow> propertyValueKey \<Rightarrow> propertyPosting" where
  "bucket_posting b key = (case b of None \<Rightarrow> zero_property_posting
     | Some l \<Rightarrow> (case map_of l key of None \<Rightarrow> zero_property_posting | Some p \<Rightarrow> p))"

text \<open>
  \<^verbatim>\<open>if _, cloned := data.clonedValues[key]; !cloned { list = forkPropertyPosting(list); data.clonedValues[key] = struct{}{} }\<close>;
  the fork is the identity on contents, writing into a nil set panics.
\<close>

definition own_value :: "propertyValueKey \<Rightarrow> propertyIndexData \<Rightarrow> gerr + propertyIndexData" where
  "own_value key data = (case xd_clonedValues data of
     None \<Rightarrow> Inl ErrPanic
   | Some c \<Rightarrow> if key \<in> set c then Inr data else Inr (data\<lparr>xd_clonedValues := Some (key # c)\<rparr>))"

text \<open>\<^verbatim>\<open>bucket[key] = list; indexes.definitions[definition] = data\<close>\<close>

definition put_posting ::
  "PropertyIndexDefinition \<Rightarrow> propertyValueKey \<Rightarrow> propertyPosting \<Rightarrow> value_bucket option \<Rightarrow> propertyIndexData \<Rightarrow> PropertyIndexes \<Rightarrow> gerr + PropertyIndexes" where
  "put_posting d key p bucket data ix = (case bucket of
     None \<Rightarrow> Inl ErrPanic
   | Some b \<Rightarrow> Inr (ix\<lparr>ix_definitions := AList.update d
       (data\<lparr>xd_values := sm_Set (hashPropertyValueKey key) (Some (AList.update key p b)) (xd_values data)\<rparr>) (ix_definitions ix)\<rparr>))"

definition delta_values :: "property_deltas \<Rightarrow> PropertyIndexDefinition \<Rightarrow> value_bucket option" where
  "delta_values root d = map_of root d"

definition deltaPosting :: "property_deltas \<Rightarrow> PropertyIndexDefinition \<Rightarrow> propertyValueKey \<Rightarrow> propertyPosting" where
  "deltaPosting root d key = bucket_posting (delta_values root d) key"

definition changeDelta :: "PropertyIndexDefinition \<Rightarrow> propertyValueKey \<Rightarrow> u64 \<Rightarrow> bool \<Rightarrow> property_deltas \<Rightarrow> property_deltas" where
  "changeDelta d key ident add root =
     (let values = (case map_of root d of None \<Rightarrow> [] | Some l \<Rightarrow> l);
          posting = bucket_posting (Some values) key;
          posting' = (if add then pp_add ident posting else pp_remove ident posting)
      in AList.update d (AList.update key posting' values) root)"

definition ix_Add :: "PropertyIndexDefinition \<Rightarrow> gvalue \<Rightarrow> u64 \<Rightarrow> PropertyIndexes \<Rightarrow> gerr + PropertyIndexes" where
  "ix_Add d v ident ix = (case makePropertyValueKey v of
     Inl er \<Rightarrow> Inl er
   | Inr key \<Rightarrow>
       (case writableDefinition d ix of
          (ix1, None) \<Rightarrow> Inr ix1
        | (ix1, Some data) \<Rightarrow>
            if ix_page ix1
            then Inr (ix1\<lparr>ix_removed := changeDelta d key ident False (ix_removed ix1), ix_added := changeDelta d key ident True (ix_added ix1)\<rparr>)
            else
              (case xd_writableBucket (hashPropertyValueKey key) data of (data1, bucket) \<Rightarrow>
                let posting = bucket_posting bucket key in
                (case own_value key data1 of
                   Inl er \<Rightarrow> Inl er
                 | Inr data2 \<Rightarrow> put_posting d key (pp_add ident posting) bucket data2 ix1))))"

definition ix_Remove :: "PropertyIndexDefinition \<Rightarrow> gvalue \<Rightarrow> u64 \<Rightarrow> PropertyIndexes \<Rightarrow> gerr + PropertyIndexes" where
  "ix_Remove d v ident ix = (case makePropertyValueKey v of
     Inl er \<Rightarrow> Inl er
   | Inr key \<Rightarrow>
       (case map_of (ix_definitions ix) d of
          None \<Rightarrow> Inr ix
        | Some data \<Rightarrow>
            if ix_page ix
            then Inr (ix\<lparr>ix_added := changeDelta d key ident False (ix_added ix), ix_removed := changeDelta d key ident True (ix_removed ix)\<rparr>)
            else
              let hashed = hashPropertyValueKey key in
              if \<not> pp_has (bucket_posting (sm_Get None (xd_values data) hashed) key) ident then Inr ix
              else
                (case writableDefinition d ix of
                   (ix1, None) \<Rightarrow> Inl ErrPanic
                 | (ix1, Some data1) \<Rightarrow>
                     (case xd_writableBucket hashed data1 of (data2, bucket) \<Rightarrow>
                       (case own_value key data2 of
                          Inl er \<Rightarrow> Inl er
                        | Inr data3 \<Rightarrow>
                            let posting = pp_remove ident (bucket_posting bucket key) in
                            if pp_len posting = 0
                            then
                              let bucket' = AList.delete key (case bucket of None \<Rightarrow> [] | Some b \<Rightarrow> b);
                                  data4 = data3\<lparr>xd_values := sm_Set hashed (Some bucket') (xd_values data3),
                                                xd_clonedValues := map_option (removeAll key) (xd_clonedValues data3)\<rparr>;
                                  data5 = (if bucket' = []
                                           then data4\<lparr>xd_values := sm_Delete hashed (xd_values data4),
                                                      xd_clonedHashes := map_option (removeAll hashed) (xd_clonedHashes data4)\<rparr>
                                           else data4)
                              in Inr (ix1\<lparr>ix_definitions := AList.update d data5 (ix_definitions ix1)\<rparr>)
                            else put_posting d key posting bucket data3 ix1)))))"

text \<open>
  The readers. A context, a work charge and a visitor act on the state of the caller and may return an error; a nil charge is
  \<open>no_effect\<close>. The visitor of a page backend (\<^verbatim>\<open>pagePropertyBackend.visit\<close>) is the argument \<open>page\<close>.
\<close>

type_synonym 's effect = "'s \<Rightarrow> gerr option \<times> 's"

type_synonym 's page_visit =
  "'s effect \<Rightarrow> PropertyIndexDefinition \<Rightarrow> gvalue \<Rightarrow> propertyValueKey \<Rightarrow> propertyPosting \<Rightarrow> propertyPosting \<Rightarrow> 's effect \<Rightarrow> (u64 \<Rightarrow> 's effect) \<Rightarrow> 's effect"

definition no_effect :: "'s effect" where
  "no_effect s = (None, s)"

definition andthen :: "'s effect \<Rightarrow> 's effect \<Rightarrow> 's effect" where
  "andthen f g s = (case f s of (Some er, s1) \<Rightarrow> (Some er, s1) | (None, s1) \<Rightarrow> g s1)"

definition ix_posting :: "PropertyIndexes \<Rightarrow> PropertyIndexDefinition \<Rightarrow> propertyValueKey \<Rightarrow> propertyPosting" where
  "ix_posting ix d key = (case map_of (ix_definitions ix) d of
     None \<Rightarrow> zero_property_posting
   | Some data \<Rightarrow> bucket_posting (sm_Get None (xd_values data) (hashPropertyValueKey key)) key)"

definition collect_id :: "u64 \<Rightarrow> u64 list effect" where
  "collect_id ident ids = (None, ids @ [ident])"

definition ix_Lookup :: "u64 list page_visit \<Rightarrow> PropertyIndexes \<Rightarrow> PropertyIndexDefinition \<Rightarrow> gvalue \<Rightarrow> u64 list \<times> bool \<times> gerr option" where
  "ix_Lookup page ix d v =
     (if \<not> ix_Has ix d then ([], False, None)
      else (case makePropertyValueKey v of
              Inl er \<Rightarrow> ([], True, Some er)
            | Inr key \<Rightarrow>
                if ix_page ix
                then (case page no_effect d v key (deltaPosting (ix_added ix) d key) (deltaPosting (ix_removed ix) d key) no_effect collect_id []
                      of (er, ids) \<Rightarrow> (ids, True, er))
                else (pp_all (ix_posting ix d key), True, None)))"

text \<open>The loop of \<^verbatim>\<open>VisitContext\<close>; \<^verbatim>\<open>io.EOF\<close> from the visitor stops normally.\<close>

fun visit_ids :: "'s effect \<Rightarrow> 's effect \<Rightarrow> (u64 \<Rightarrow> 's effect) \<Rightarrow> u64 list \<Rightarrow> 's effect" where
  "visit_ids ctx charge visit [] s = (None, s)"
| "visit_ids ctx charge visit (ident # ids) s =
     (case andthen ctx charge s of
        (Some er, s1) \<Rightarrow> (Some er, s1)
      | (None, s1) \<Rightarrow>
          (case visit ident s1 of
             (Some er, s2) \<Rightarrow> if er = ErrEOF then (None, s2) else (Some er, s2)
           | (None, s2) \<Rightarrow> visit_ids ctx charge visit ids s2))"

definition ix_VisitContext ::
  "'s page_visit \<Rightarrow> PropertyIndexes \<Rightarrow> 's effect \<Rightarrow> PropertyIndexDefinition \<Rightarrow> gvalue \<Rightarrow> 's effect \<Rightarrow> (u64 \<Rightarrow> 's effect) option \<Rightarrow> 's \<Rightarrow> (bool \<times> gerr option) \<times> 's" where
  "ix_VisitContext page ix ctx d v charge visitor s =
     (case ctx s of
        (Some er, s1) \<Rightarrow> ((False, Some er), s1)
      | (None, s1) \<Rightarrow>
          (case visitor of
             None \<Rightarrow> ((False, Some (ErrMsg ''store: nil property-index visitor'')), s1)
           | Some visit \<Rightarrow>
               if \<not> ix_Has ix d then ((False, None), s1)
               else (case makePropertyValueKey v of
                       Inl er \<Rightarrow> ((True, Some er), s1)
                     | Inr key \<Rightarrow>
                         (case (if ix_page ix
                                then page ctx d v key (deltaPosting (ix_added ix) d key) (deltaPosting (ix_removed ix) d key) charge visit s1
                                else visit_ids ctx charge visit (pp_all (ix_posting ix d key)) s1)
                          of (er, s2) \<Rightarrow> ((True, er), s2)))))"

definition ix_Visit ::
  "'s page_visit \<Rightarrow> PropertyIndexes \<Rightarrow> PropertyIndexDefinition \<Rightarrow> gvalue \<Rightarrow> (u64 \<Rightarrow> 's \<Rightarrow> bool \<times> 's) \<Rightarrow> 's \<Rightarrow> (bool \<times> gerr option) \<times> 's" where
  "ix_Visit page ix d v visit s =
     ix_VisitContext page ix no_effect d v no_effect (Some (\<lambda>ident s. case visit ident s of (continue, s1) \<Rightarrow> (if continue then None else Some ErrEOF, s1))) s"

text \<open>The counter of \<^verbatim>\<open>CardinalityContext\<close> beside the state of the caller.\<close>

definition beside :: "'s effect \<Rightarrow> (int \<times> 's) effect" where
  "beside f = (\<lambda>(n, s). case f s of (er, s1) \<Rightarrow> (er, (n, s1)))"

definition ix_CardinalityContext ::
  "(int \<times> 's) page_visit \<Rightarrow> PropertyIndexes \<Rightarrow> 's effect \<Rightarrow> PropertyIndexDefinition \<Rightarrow> gvalue \<Rightarrow> 's effect \<Rightarrow> 's \<Rightarrow> (int \<times> bool \<times> gerr option) \<times> 's" where
  "ix_CardinalityContext page ix ctx d v charge s =
     (case ctx s of
        (Some er, s1) \<Rightarrow> ((0, True, Some er), s1)
      | (None, s1) \<Rightarrow>
          if \<not> ix_Has ix d then ((0, False, None), s1)
          else (case makePropertyValueKey v of
                  Inl er \<Rightarrow> ((0, True, Some er), s1)
                | Inr key \<Rightarrow>
                    if ix_page ix
                    then (case page (beside ctx) d v key (deltaPosting (ix_added ix) d key) (deltaPosting (ix_removed ix) d key) (beside charge)
                            (\<lambda>ident (n, s). (None, (n + 1, s))) (0, s1)
                          of (er, n, s2) \<Rightarrow> ((n, True, er), s2))
                    else ((pp_len (ix_posting ix d key), True, None), s1)))"

definition ix_Cardinality :: "(int \<times> unit) page_visit \<Rightarrow> PropertyIndexes \<Rightarrow> PropertyIndexDefinition \<Rightarrow> gvalue \<Rightarrow> int \<times> bool \<times> gerr option" where
  "ix_Cardinality page ix d v = fst (ix_CardinalityContext page ix no_effect d v no_effect ())"

definition collect_limit :: "u64 \<Rightarrow> u64 \<Rightarrow> u64 list effect" where
  "collect_limit n ident ids = (if word_of_nat (length ids + 1) \<ge> n then Some ErrEOF else None, ids @ [ident])"

definition ix_LookupLimit :: "u64 list page_visit \<Rightarrow> PropertyIndexes \<Rightarrow> PropertyIndexDefinition \<Rightarrow> gvalue \<Rightarrow> u64 \<Rightarrow> u64 list \<times> bool \<times> gerr option" where
  "ix_LookupLimit page ix d v n =
     (if n = - 1 then ix_Lookup page ix d v
      else if \<not> ix_Has ix d then ([], False, None)
      else (case makePropertyValueKey v of
              Inl er \<Rightarrow> ([], True, Some er)
            | Inr key \<Rightarrow>
                if n = 0 then ([], True, None)
                else if ix_page ix
                then (case page no_effect d v key (deltaPosting (ix_added ix) d key) (deltaPosting (ix_removed ix) d key) no_effect (collect_limit n) []
                      of (er, ids) \<Rightarrow> (ids, True, er))
                else (take (unat n) (pp_all (ix_posting ix d key)), True, None)))"

lemma visit_ids_collect: "visit_ids no_effect no_effect collect_id ids s = (None, s @ ids)"
  by (induction ids arbitrary: s) (simp_all add: andthen_def no_effect_def collect_id_def)

lemma resident_readers:
  assumes "\<not> ix_page ix" "ix_Has ix d" "makePropertyValueKey v = Inr key"
  shows "ix_VisitContext page ix no_effect d v no_effect (Some collect_id) [] = ((True, None), pp_all (ix_posting ix d key))"
    and "ix_Cardinality page' ix d v = (pp_len (ix_posting ix d key), True, None)"
  using assms by (simp_all add: ix_VisitContext_def visit_ids_collect ix_Cardinality_def ix_CardinalityContext_def no_effect_def)

section \<open>The abstract index\<close>

definition xd_postings :: "propertyIndexData \<Rightarrow> propertyValueKey \<Rightarrow> propertyPosting option" where
  "xd_postings data = bucket_lookup (sm_Get None) hashPropertyValueKey (xd_values data)"

definition xd_ids :: "propertyIndexData \<Rightarrow> propertyValueKey \<Rightarrow> u64 set" where
  "xd_ids data key = (case xd_postings data key of None \<Rightarrow> {} | Some p \<Rightarrow> set (pp_all p))"

definition xd_inv :: "propertyIndexData \<Rightarrow> bool" where
  "xd_inv data \<longleftrightarrow> hb.buckets_ok hashPropertyValueKey (xd_values data) \<and>
     (\<forall>key p. xd_postings data key = Some p \<longrightarrow> pp_inv p) \<and>
     (xd_clonedHashes data = None \<longleftrightarrow> xd_clonedValues data = None) \<and>
     (\<forall>c. xd_clonedHashes data = Some c \<longrightarrow> (\<forall>i \<in> set c. sm_Get None (xd_values data) i \<noteq> None))"

definition ix_view :: "PropertyIndexes \<Rightarrow> PropertyIndexDefinition \<Rightarrow> (propertyValueKey \<Rightarrow> u64 set) option" where
  "ix_view ix d = map_option xd_ids (map_of (ix_definitions ix) d)"

definition ix_inv :: "PropertyIndexes \<Rightarrow> bool" where
  "ix_inv ix \<longleftrightarrow> \<not> ix_page ix \<and> distinct (map fst (ix_definitions ix)) \<and> (\<forall>d data. map_of (ix_definitions ix) d = Some data \<longrightarrow> xd_inv data)"

section \<open>Writable parts\<close>

lemma bucket_posting_lookup:
  "bucket_posting (sm_Get None (xd_values data) (hashPropertyValueKey key)) key =
     (case xd_postings data key of None \<Rightarrow> zero_property_posting | Some p \<Rightarrow> p)"
  by (simp add: bucket_posting_def xd_postings_def bucket_lookup_def split: option.splits)

lemma zero_posting_ok [simp]: "pp_inv zero_property_posting" "pp_all zero_property_posting = []"
  by (rule posting_set.inv_empty posting_set.all_empty)+

lemma posting_inv:
  assumes "xd_inv data"
  shows "pp_inv (bucket_posting (sm_Get None (xd_values data) (hashPropertyValueKey key)) key)"
    "set (pp_all (bucket_posting (sm_Get None (xd_values data) (hashPropertyValueKey key)) key)) = xd_ids data key"
  using assms by (auto simp: bucket_posting_lookup xd_inv_def xd_ids_def split: option.splits)

lemma writableDefinition_ok:
  assumes "ix_inv ix" "map_of (ix_definitions ix) d = Some data"
  obtains ix1 data1 where "writableDefinition d ix = (ix1, Some data1)" "ix_inv ix1"
    "map_of (ix_definitions ix1) = (map_of (ix_definitions ix))(d \<mapsto> data1)" "xd_inv data1" "xd_postings data1 = xd_postings data"
proof -
  have ok: "xd_inv data" "distinct (map fst (ix_definitions ix))" "\<not> ix_page ix" using assms by (auto simp: ix_inv_def)
  let ?ix = "cloneRoot ix"
  have c: "ix_definitions ?ix = ix_definitions ix" "ix_inv ?ix" "ix_page ?ix = ix_page ix" using assms(1) by (auto simp: cloneRoot_def ix_inv_def)
  show thesis
  proof (cases "d \<in> set (ix_cloned ?ix)")
    case True
    then have "writableDefinition d ix = (?ix, Some data)" using assms(2) by (simp add: writableDefinition_def Let_def)
    then show thesis using c(1,2) ok(1) assms(2) by (intro that [of ?ix data]) (simp_all add: fun_upd_idem)
  next
    case False
    let ?data = "data\<lparr>xd_values := sm_Fork (xd_values data), xd_clonedHashes := None, xd_clonedValues := None\<rparr>"
    let ?ix1 = "?ix\<lparr>ix_definitions := AList.update d ?data (ix_definitions ?ix), ix_cloned := d # ix_cloned ?ix\<rparr>"
    have p: "xd_postings ?data = xd_postings data"
      by (simp add: xd_postings_def bucket_lookup_def sm_lookup_view fun_eq_iff)
    moreover have "hb.buckets_ok hashPropertyValueKey (sm_Fork (xd_values data))" using ok(1) by (simp add: xd_inv_def hb.buckets_ok_def)
    ultimately have d: "xd_inv ?data" using ok(1) by (simp add: xd_inv_def)
    have m: "map_of (ix_definitions ?ix1) = (map_of (ix_definitions ix))(d \<mapsto> ?data)" by (simp add: c(1) update_conv')
    have "ix_inv ?ix1" using assms(1) d unfolding ix_inv_def m by (auto simp: c distinct_update split: if_splits)
    moreover have "writableDefinition d ix = (?ix1, Some ?data)" using False assms(2) by (simp add: writableDefinition_def Let_def)
    ultimately show thesis using m d p by (intro that)
  qed
qed

lemma xd_writableBucket_ok:
  assumes "xd_inv data"
  obtains data1 b where "xd_writableBucket i data = (data1, Some b)" "xd_inv data1" "xd_postings data1 = xd_postings data"
    "sm_Get None (xd_values data1) i = Some b" "xd_clonedValues data1 \<noteq> None"
proof -
  have ok: "hb.buckets_ok hashPropertyValueKey (xd_values data)" "sm_inv (xd_values data)"
    using assms by (simp_all add: xd_inv_def hb.buckets_ok_def)
  let ?v = "sm_CloneShardOnce i (xd_values data)"
  have v: "hb.buckets_ok hashPropertyValueKey ?v" "sm_inv ?v" "sm_Get None ?v = sm_Get None (xd_values data)"
    using ok by (simp_all add: hb.buckets_ok_def sm_lookup_view fun_eq_iff)
  define hashes where "hashes = (case xd_clonedHashes data of None \<Rightarrow> [] | Some c \<Rightarrow> c)"
  define vals where "vals = (if xd_clonedHashes data = None then Some [] else xd_clonedValues data)"
  have vals: "vals \<noteq> None" using assms by (auto simp: vals_def xd_inv_def)
  have hs: "h \<in> set hashes \<Longrightarrow> sm_Get None (xd_values data) h \<noteq> None" for h
    using assms by (auto simp: hashes_def xd_inv_def split: option.splits)
  show thesis
  proof (cases "i \<in> set hashes")
    case True
    define d1 where "d1 = data\<lparr>xd_values := ?v, xd_clonedHashes := Some hashes, xd_clonedValues := vals\<rparr>"
    have w: "xd_writableBucket i data = (d1, sm_Get None ?v i)"
      using True by (auto simp: xd_writableBucket_def Let_def hashes_def vals_def d1_def split: option.splits)
    obtain b where b: "sm_Get None ?v i = Some b" using hs [OF True] v(3) by auto
    have p: "xd_postings d1 = xd_postings data" by (simp add: xd_postings_def bucket_lookup_def d1_def v(3) fun_eq_iff)
    then have "xd_inv d1" using assms v hs vals by (auto simp: xd_inv_def d1_def)
    then show thesis using w b p vals by (intro that [of d1 b]) (simp_all add: d1_def)
  next
    case False
    let ?b = "hb.bucket_of (xd_values data) i"
    define d1 where "d1 = data\<lparr>xd_values := sm_Set i (Some ?b) ?v, xd_clonedHashes := Some (i # hashes), xd_clonedValues := vals\<rparr>"
    have e: "(case sm_Get None ?v i of None \<Rightarrow> [] | Some b \<Rightarrow> b) = ?b" by (simp add: hb.bucket_of_def v(3))
    have w: "xd_writableBucket i data = (d1, sm_Get None (xd_values d1) i)"
      using False by (auto simp: xd_writableBucket_def Let_def hashes_def vals_def d1_def e split: option.splits)
    have g: "sm_Get None (xd_values d1) j = (if j = i then Some ?b else sm_Get None (xd_values data) j)" for j
      by (simp add: d1_def sm_lookup_view sm_view_Set)
    have "hb.buckets_ok hashPropertyValueKey (xd_values d1)"
      unfolding d1_def using hb.bucket_of_ok [OF ok(1), of i] by (simp add: hb.store_bucket_ok [OF v(1)])
    moreover have p: "xd_postings d1 = xd_postings data"
    proof
      fix key
      show "xd_postings d1 key = xd_postings data key"
        by (simp add: xd_postings_def bucket_lookup_def g hb.bucket_of_def split: option.splits)
    qed
    ultimately have "xd_inv d1" using assms hs vals by (auto simp: xd_inv_def g) (auto simp: d1_def)
    then show thesis using w p vals g [of i] by (intro that [of d1 ?b]) (simp_all add: d1_def)
  qed
qed

section \<open>Operations\<close>

text \<open>Writing the data of one definition.\<close>

lemma put_data_ok:
  assumes "ix_inv ix" "xd_inv data"
  shows "ix_inv (ix\<lparr>ix_definitions := AList.update d data (ix_definitions ix)\<rparr>)"
    "ix_view (ix\<lparr>ix_definitions := AList.update d data (ix_definitions ix)\<rparr>) = (ix_view ix)(d \<mapsto> xd_ids data)"
  using assms by (auto simp: ix_inv_def ix_view_def distinct_update update_conv' fun_eq_iff split: if_splits)

lemma put_posting_ok:
  assumes "ix_inv ix" "xd_inv data" "sm_Get None (xd_values data) (hashPropertyValueKey key) = Some b" "pp_inv p"
  obtains ix' where "put_posting d key p (Some b) data ix = Inr ix'" "ix_inv ix'"
    "ix_view ix' = (ix_view ix)(d \<mapsto> (xd_ids data)(key := set (pp_all p)))"
proof -
  let ?h = "hashPropertyValueKey key"
  let ?data = "data\<lparr>xd_values := sm_Set ?h (Some (AList.update key p b)) (xd_values data)\<rparr>"
  have ok: "hb.buckets_ok hashPropertyValueKey (xd_values data)" using assms(2) by (simp add: xd_inv_def)
  have bo: "hb.bucket_of (xd_values data) ?h = b" using assms(3) by (simp add: hb.bucket_of_def)
  note put = hb.put_law [OF ok, of key p, unfolded bo]
  have post: "xd_postings ?data = (xd_postings data)(key \<mapsto> p)" using put(2) by (simp add: xd_postings_def)
  have g: "sm_Get None (xd_values ?data) i \<noteq> None" if "sm_Get None (xd_values data) i \<noteq> None" for i
    using that by (auto simp: sm_lookup_view sm_view_Set split: if_splits)
  have inv: "xd_inv ?data" using assms(2,4) put(1) g unfolding xd_inv_def post by (auto simp: split: if_splits)
  have ids: "xd_ids ?data = (xd_ids data)(key := set (pp_all p))" by (simp add: xd_ids_def post fun_eq_iff)
  show thesis using that put_data_ok [OF assms(1) inv, of d] by (simp add: put_posting_def ids)
qed

lemma own_value_ok:
  assumes "xd_inv data" "xd_clonedValues data \<noteq> None"
  obtains data' where "own_value key data = Inr data'" "xd_inv data'" "xd_postings data' = xd_postings data" "xd_values data' = xd_values data"
    "xd_clonedValues data' \<noteq> None"
proof -
  obtain c where c: "xd_clonedValues data = Some c" using assms(2) by auto
  let ?d = "if key \<in> set c then data else data\<lparr>xd_clonedValues := Some (key # c)\<rparr>"
  have p: "xd_postings ?d = xd_postings data" "xd_values ?d = xd_values data" by (simp_all add: xd_postings_def)
  moreover have "xd_inv ?d" using assms(1) c unfolding xd_inv_def p by auto
  moreover have "own_value key data = Inr ?d" "xd_clonedValues ?d \<noteq> None" using c by (simp_all add: own_value_def)
  ultimately show thesis by (intro that [of ?d])
qed

definition abs_add :: "PropertyIndexDefinition \<Rightarrow> propertyValueKey \<Rightarrow> u64 \<Rightarrow> (PropertyIndexDefinition \<Rightarrow> (propertyValueKey \<Rightarrow> u64 set) option)
    \<Rightarrow> PropertyIndexDefinition \<Rightarrow> (propertyValueKey \<Rightarrow> u64 set) option" where
  "abs_add d key i A = (case A d of None \<Rightarrow> A | Some f \<Rightarrow> A(d \<mapsto> f(key := insert i (f key))))"

definition abs_remove :: "PropertyIndexDefinition \<Rightarrow> propertyValueKey \<Rightarrow> u64 \<Rightarrow> (PropertyIndexDefinition \<Rightarrow> (propertyValueKey \<Rightarrow> u64 set) option)
    \<Rightarrow> PropertyIndexDefinition \<Rightarrow> (propertyValueKey \<Rightarrow> u64 set) option" where
  "abs_remove d key i A = (case A d of None \<Rightarrow> A | Some f \<Rightarrow> A(d \<mapsto> f(key := f key - {i})))"

lemma ix_view_Some: "map_of (ix_definitions ix) d = Some data \<Longrightarrow> ix_view ix d = Some (xd_ids data)"
  by (simp add: ix_view_def)

lemma xd_ids_cong: "xd_postings data = xd_postings data' \<Longrightarrow> xd_ids data = xd_ids data'"
  by (simp add: xd_ids_def fun_eq_iff)

lemma view_same:
  assumes "map_of (ix_definitions ix1) = (map_of (ix_definitions ix))(d \<mapsto> data1)" "map_of (ix_definitions ix) d = Some data"
    "xd_postings data1 = xd_postings data"
  shows "ix_view ix1 = ix_view ix"
  using xd_ids_cong [OF assms(3)] assms(2) by (auto simp: ix_view_def assms(1) fun_eq_iff)

lemma ix_Add_ok:
  assumes "ix_inv ix" "makePropertyValueKey v = Inr key"
  shows "\<exists>ix'. ix_Add d v i ix = Inr ix' \<and> ix_inv ix' \<and> ix_view ix' = abs_add d key i (ix_view ix)"
proof (cases "map_of (ix_definitions ix) d")
  case None
  then have "ix_view ix d = None" by (simp add: ix_view_def)
  then show ?thesis using assms None by (simp add: ix_Add_def writableDefinition_def abs_add_def)
next
  case (Some data)
  obtain ix1 data1 where w: "writableDefinition d ix = (ix1, Some data1)" "ix_inv ix1"
    "map_of (ix_definitions ix1) = (map_of (ix_definitions ix))(d \<mapsto> data1)" "xd_inv data1" "xd_postings data1 = xd_postings data"
    by (rule writableDefinition_ok [OF assms(1) Some])
  have pg: "\<not> ix_page ix1" using w(2) by (simp add: ix_inv_def)
  obtain data2 b where b: "xd_writableBucket (hashPropertyValueKey key) data1 = (data2, Some b)" "xd_inv data2" "xd_postings data2 = xd_postings data1"
    "sm_Get None (xd_values data2) (hashPropertyValueKey key) = Some b" "xd_clonedValues data2 \<noteq> None"
    by (rule xd_writableBucket_ok [OF w(4)])
  obtain data3 where o: "own_value key data2 = Inr data3" "xd_inv data3" "xd_postings data3 = xd_postings data2" "xd_values data3 = xd_values data2"
    by (rule own_value_ok [OF b(2,5)])
  let ?p = "bucket_posting (Some b) key"
  have p: "pp_inv ?p" "set (pp_all ?p) = xd_ids data key"
    using posting_inv [OF b(2), of key] xd_ids_cong [of data2 data] w(5) b(3,4) by simp_all
  obtain ix' where r: "put_posting d key (pp_add i ?p) (Some b) data3 ix1 = Inr ix'" "ix_inv ix'"
    "ix_view ix' = (ix_view ix1)(d \<mapsto> (xd_ids data3)(key := set (pp_all (pp_add i ?p))))"
    using put_posting_ok [OF w(2) o(2), of key b "pp_add i ?p" d] b(4) o(4) posting_set.inv_add [OF p(1)] by auto
  have "ix_Add d v i ix = Inr ix'" using assms(2) w(1) pg b(1) o(1) r(1) by (simp add: ix_Add_def Let_def)
  moreover have "ix_view ix' = abs_add d key i (ix_view ix)"
    unfolding r(3) view_same [OF w(3) Some w(5)] abs_add_def ix_view_Some [OF Some]
    using xd_ids_cong [of data3 data] o(3) b(3) w(5) posting_set.set_add [OF p(1), of i] p(2) by simp
  ultimately show ?thesis using r(2) by blast
qed

text \<open>Removing the last identifier of a value drops its posting, and its bucket when that becomes empty.\<close>

lemma cut_posting_ok:
  assumes "xd_inv data" "sm_Get None (xd_values data) (hashPropertyValueKey key) = Some b" "xd_clonedValues data \<noteq> None"
  defines "b' \<equiv> AList.delete key b"
  defines "data1 \<equiv> data\<lparr>xd_values := sm_Set (hashPropertyValueKey key) (Some b') (xd_values data),
    xd_clonedValues := map_option (removeAll key) (xd_clonedValues data)\<rparr>"
  defines "data2 \<equiv> (if b' = [] then data1\<lparr>xd_values := sm_Delete (hashPropertyValueKey key) (xd_values data1),
    xd_clonedHashes := map_option (removeAll (hashPropertyValueKey key)) (xd_clonedHashes data1)\<rparr> else data1)"
  shows "xd_inv data2" "xd_ids data2 = (xd_ids data)(key := {})"
proof -
  let ?h = "hashPropertyValueKey" and ?i = "hashPropertyValueKey key"
  have ok: "hb.buckets_ok ?h (xd_values data)" "sm_inv (xd_values data)" using assms(1) by (simp_all add: xd_inv_def hb.buckets_ok_def)
  have bo: "hb.bucket_of (xd_values data) ?i = b" using assms(2) by (simp add: hb.bucket_of_def)
  have "bucket_ok ?h ?i (Some b')"
    using hb.bucket_of_ok [OF ok(1), of ?i] set_delete [of key b] unfolding bo by (auto simp: bucket_ok_def b'_def distinct_delete)
  then have s1: "hb.buckets_ok ?h (xd_values data1)" using hb.store_bucket_ok [OF ok(1)] by (simp add: data1_def)
  then have s2: "hb.buckets_ok ?h (xd_values data2)" using hb.drop_bucket_ok [OF s1] by (simp add: data2_def)
  have inv1: "sm_inv (xd_values data1)" using s1 by (simp add: hb.buckets_ok_def)
  have g: "hb.bucket_of (xd_values data2) j = (if j = ?i then b' else hb.bucket_of (xd_values data) j)" for j
  proof (cases "b' = []")
    case True
    then have "xd_values data2 = sm_Delete ?i (xd_values data1)" by (simp add: data2_def)
    then show ?thesis using True hb.bucket_of_delete [OF inv1, of ?i j] hb.bucket_of_set [OF ok(2), of ?i b' j] by (simp add: data1_def)
  next
    case False
    then show ?thesis using hb.bucket_of_set [OF ok(2), of ?i b' j] by (simp add: data2_def data1_def)
  qed
  have post: "xd_postings data2 = (xd_postings data)(key := None)"
    using bo by (auto simp: xd_postings_def hb.lookup_bucket g fun_eq_iff b'_def delete_conv')
  have c: "\<forall>c. xd_clonedHashes data = Some c \<longrightarrow> (\<forall>j \<in> set c. \<exists>y. sm_view (xd_values data) j = Some (Some y))"
    using assms(1) unfolding xd_inv_def sm_lookup_view by (metis (no_types, lifting) not_None_eq option.simps(4,5))
  have v2: "sm_view (xd_values data2) = (if b' = [] then (sm_view (xd_values data))(?i := None) else (sm_view (xd_values data))(?i \<mapsto> Some b'))"
    using sm_view_Delete [of "xd_values data1" ?i] inv1 by (simp add: data2_def sm_inv_def) (simp add: data1_def sm_view_Set)
  have "\<forall>c. xd_clonedHashes data2 = Some c \<longrightarrow> (\<forall>j \<in> set c. sm_Get None (xd_values data2) j \<noteq> None)"
    using c unfolding sm_lookup_view v2 by (fastforce simp: data2_def data1_def split: if_splits)
  moreover have "xd_clonedHashes data2 = None \<longleftrightarrow> xd_clonedValues data2 = None"
    using assms(1) by (auto simp: data2_def data1_def xd_inv_def)
  ultimately show "xd_inv data2" using assms(1) s2 unfolding xd_inv_def post by (auto split: if_splits)
  show "xd_ids data2 = (xd_ids data)(key := {})" by (simp add: xd_ids_def post fun_eq_iff)
qed

lemma ix_Remove_ok:
  assumes "ix_inv ix" "makePropertyValueKey v = Inr key"
  shows "\<exists>ix'. ix_Remove d v i ix = Inr ix' \<and> ix_inv ix' \<and> ix_view ix' = abs_remove d key i (ix_view ix)"
proof (cases "map_of (ix_definitions ix) d")
  case None
  then have "ix_view ix d = None" by (simp add: ix_view_def)
  then show ?thesis using assms None by (simp add: ix_Remove_def abs_remove_def)
next
  case (Some data)
  let ?h = "hashPropertyValueKey key"
  have d: "xd_inv data" "\<not> ix_page ix" using assms(1) Some by (auto simp: ix_inv_def)
  note q = posting_inv [OF d(1), of key]
  show ?thesis
  proof (cases "pp_has (bucket_posting (sm_Get None (xd_values data) ?h) key) i")
    case False
    then have "i \<notin> xd_ids data key" using q posting_set.has_all [OF q(1)] by simp
    then have "abs_remove d key i (ix_view ix) = ix_view ix" by (auto simp: abs_remove_def ix_view_Some [OF Some] fun_eq_iff)
    then show ?thesis using assms Some False d(2) by (simp add: ix_Remove_def Let_def)
  next
    case True
    obtain ix1 data1 where w: "writableDefinition d ix = (ix1, Some data1)" "ix_inv ix1"
      "map_of (ix_definitions ix1) = (map_of (ix_definitions ix))(d \<mapsto> data1)" "xd_inv data1" "xd_postings data1 = xd_postings data"
      by (rule writableDefinition_ok [OF assms(1) Some])
    obtain data2 b where b: "xd_writableBucket ?h data1 = (data2, Some b)" "xd_inv data2" "xd_postings data2 = xd_postings data1"
      "sm_Get None (xd_values data2) ?h = Some b" "xd_clonedValues data2 \<noteq> None"
      by (rule xd_writableBucket_ok [OF w(4)])
    obtain data3 where o: "own_value key data2 = Inr data3" "xd_inv data3" "xd_postings data3 = xd_postings data2" "xd_values data3 = xd_values data2"
      "xd_clonedValues data3 \<noteq> None" by (rule own_value_ok [OF b(2,5)])
    let ?p = "pp_remove i (bucket_posting (Some b) key)"
    have p: "pp_inv (bucket_posting (Some b) key)" "set (pp_all (bucket_posting (Some b) key)) = xd_ids data key"
      using posting_inv [OF b(2), of key] xd_ids_cong [of data2 data] w(5) b(3,4) by simp_all
    note pr = posting_set.inv_remove [OF p(1), of i] posting_set.set_remove [OF p(1), of i, unfolded p(2)]
    have e: "ix_view ix1 = ix_view ix" "xd_ids data3 = xd_ids data"
      using view_same [OF w(3) Some w(5)] xd_ids_cong [of data3 data] o(3) b(3) w(5) by simp_all
    have abs: "abs_remove d key i (ix_view ix) = (ix_view ix)(d \<mapsto> (xd_ids data)(key := xd_ids data key - {i}))"
      by (simp add: abs_remove_def ix_view_Some [OF Some])
    show ?thesis
    proof (cases "pp_len ?p = 0")
      case zero: True
      then have z: "xd_ids data key - {i} = {}" using posting_set.len_all [OF pr(1)] pr(2) by simp
      define data4 where "data4 = data3\<lparr>xd_values := sm_Set ?h (Some (AList.delete key b)) (xd_values data3),
        xd_clonedValues := map_option (removeAll key) (xd_clonedValues data3)\<rparr>"
      define data5 where "data5 = (if AList.delete key b = [] then data4\<lparr>xd_values := sm_Delete ?h (xd_values data4),
        xd_clonedHashes := map_option (removeAll ?h) (xd_clonedHashes data4)\<rparr> else data4)"
      have c: "xd_inv data5" "xd_ids data5 = (xd_ids data3)(key := {})"
        unfolding data5_def data4_def by (rule cut_posting_ok [OF o(2) _ o(5)], use b(4) o(4) in simp)+
      have "ix_Remove d v i ix = Inr (ix1\<lparr>ix_definitions := AList.update d data5 (ix_definitions ix1)\<rparr>)"
        using assms(2) Some d(2) True w(1) b(1) o(1) zero
        by (simp add: ix_Remove_def Let_def data4_def data5_def)
      moreover have "(ix_view ix)(d \<mapsto> xd_ids data5) = abs_remove d key i (ix_view ix)" unfolding abs c(2) e(2) z ..
      ultimately show ?thesis using put_data_ok [OF w(2) c(1), of d] by (simp add: e(1))
    next
      case False
      obtain ix' where r: "put_posting d key ?p (Some b) data3 ix1 = Inr ix'" "ix_inv ix'"
        "ix_view ix' = (ix_view ix1)(d \<mapsto> (xd_ids data3)(key := set (pp_all ?p)))"
        using put_posting_ok [OF w(2) o(2), of key b ?p d] b(4) o(4) pr(1) by auto
      then show ?thesis using assms(2) Some d(2) True w(1) b(1) o(1) False unfolding abs by (simp add: ix_Remove_def Let_def e pr(2))
    qed
  qed
qed

lemma ix_Create_ok:
  assumes "ix_inv ix"
  shows "ix_inv (snd (ix_Create d ix))" "ix_view (snd (ix_Create d ix)) = (if ix_view ix d = None then (ix_view ix)(d \<mapsto> (\<lambda>_. {})) else ix_view ix)"
    "fst (ix_Create d ix) \<longleftrightarrow> ix_view ix d = None"
proof -
  let ?data = "\<lparr>xd_values = NewShardMap, xd_clonedHashes = None, xd_clonedValues = None\<rparr> :: propertyIndexData"
  have p: "xd_postings ?data = Map.empty" using hb.empty_buckets(2) [of hashPropertyValueKey] by (simp add: xd_postings_def)
  then have d: "xd_inv ?data" "xd_ids ?data = (\<lambda>_. {})" using hb.empty_buckets(1) [of hashPropertyValueKey] by (simp_all add: xd_inv_def xd_ids_def fun_eq_iff)
  have c: "ix_inv (cloneRoot ix)" "ix_definitions (cloneRoot ix) = ix_definitions ix" "ix_view (cloneRoot ix) = ix_view ix"
    using assms by (auto simp: cloneRoot_def ix_inv_def ix_view_def)
  note q = put_data_ok [OF c(1) d(1), of d]
  have i: "ix_inv (x\<lparr>ix_cloned := y\<rparr>) = ix_inv x" "ix_view (x\<lparr>ix_cloned := y\<rparr>) = ix_view x" for x :: PropertyIndexes and y
    by (simp_all add: ix_inv_def ix_view_def fun_eq_iff)
  have h: "ix_Has ix d \<longleftrightarrow> ix_view ix d \<noteq> None" by (simp add: ix_Has_def ix_view_def)
  show "ix_inv (snd (ix_Create d ix))" using assms q(1) i(1) by (auto simp: ix_Create_def Let_def)
  show "ix_view (snd (ix_Create d ix)) = (if ix_view ix d = None then (ix_view ix)(d \<mapsto> (\<lambda>_. {})) else ix_view ix)"
    using q(2) i(2) by (simp add: ix_Create_def Let_def h d(2) c(3))
  show "fst (ix_Create d ix) \<longleftrightarrow> ix_view ix d = None" by (auto simp: ix_Create_def Let_def h)
qed

lemma ix_Drop_ok:
  assumes "ix_inv ix"
  shows "ix_inv (snd (ix_Drop d ix))" "ix_view (snd (ix_Drop d ix)) = (ix_view ix)(d := None)" "fst (ix_Drop d ix) \<longleftrightarrow> ix_view ix d \<noteq> None"
proof -
  have c: "ix_definitions (cloneRoot ix) = ix_definitions ix" "ix_page (cloneRoot ix) = ix_page ix" by (simp_all add: cloneRoot_def)
  have h: "ix_Has ix d \<longleftrightarrow> ix_view ix d \<noteq> None" by (simp add: ix_Has_def ix_view_def)
  show "fst (ix_Drop d ix) \<longleftrightarrow> ix_view ix d \<noteq> None" by (auto simp: ix_Drop_def Let_def h)
  show "ix_inv (snd (ix_Drop d ix))"
    using assms by (auto simp: ix_Drop_def Let_def ix_inv_def c distinct_delete delete_conv' simp del: map_of_eq_Some_iff split: if_splits)
  show "ix_view (snd (ix_Drop d ix)) = (ix_view ix)(d := None)"
    by (auto simp: ix_Drop_def Let_def h) (auto simp: ix_view_def c delete_conv' fun_eq_iff)
qed

section \<open>Runs\<close>

datatype index_op =
    CreateIndex PropertyIndexDefinition
  | DropIndex PropertyIndexDefinition
  | AddValue PropertyIndexDefinition gvalue u64
  | RemoveValue PropertyIndexDefinition gvalue u64
  | ForkIndexes

text \<open>An operation that returns an error leaves the indexes as they are; a panic ends the run.\<close>

definition or_same :: "PropertyIndexes \<Rightarrow> gerr + PropertyIndexes \<Rightarrow> gerr + PropertyIndexes" where
  "or_same ix r = (case r of Inl er \<Rightarrow> if er = ErrPanic then Inl er else Inr ix | Inr ix' \<Rightarrow> Inr ix')"

fun index_step :: "index_op \<Rightarrow> PropertyIndexes \<Rightarrow> gerr + PropertyIndexes" where
  "index_step (CreateIndex d) ix = Inr (snd (ix_Create d ix))"
| "index_step (DropIndex d) ix = Inr (snd (ix_Drop d ix))"
| "index_step (AddValue d v i) ix = or_same ix (ix_Add d v i ix)"
| "index_step (RemoveValue d v i) ix = or_same ix (ix_Remove d v i ix)"
| "index_step ForkIndexes ix = Inr (ix_Fork ix)"

fun run_index :: "index_op list \<Rightarrow> PropertyIndexes \<Rightarrow> gerr + PropertyIndexes" where
  "run_index [] ix = Inr ix"
| "run_index (op # ops) ix = (case index_step op ix of Inl er \<Rightarrow> Inl er | Inr ix' \<Rightarrow> run_index ops ix')"

type_synonym abstract_index = "PropertyIndexDefinition \<Rightarrow> (propertyValueKey \<Rightarrow> u64 set) option"

fun index_meaning :: "index_op \<Rightarrow> abstract_index \<Rightarrow> abstract_index" where
  "index_meaning (CreateIndex d) A = (if A d = None then A(d \<mapsto> (\<lambda>_. {})) else A)"
| "index_meaning (DropIndex d) A = A(d := None)"
| "index_meaning (AddValue d v i) A = (case makePropertyValueKey v of Inl _ \<Rightarrow> A | Inr key \<Rightarrow> abs_add d key i A)"
| "index_meaning (RemoveValue d v i) A = (case makePropertyValueKey v of Inl _ \<Rightarrow> A | Inr key \<Rightarrow> abs_remove d key i A)"
| "index_meaning ForkIndexes A = A"

lemma hashed_key_no_panic: "hashed_key v \<noteq> Inl ErrPanic"
proof -
  have items: "write_items f l \<noteq> Inl ErrPanic" if "\<And>x. x \<in> set l \<Longrightarrow> f x \<noteq> Inl ErrPanic" for f l
  proof -
    have "sum_list_map f l \<noteq> Inl ErrPanic" using that by (induction l) (auto split: sum.splits)
    then show ?thesis by (auto simp: write_items_def split: sum.splits)
  qed
  have entries: "write_entries f l \<noteq> Inl ErrPanic" if "\<And>k x. (k, x) \<in> set l \<Longrightarrow> f x \<noteq> Inl ErrPanic" for f l
  proof -
    have any: "sum_list_map g l' \<noteq> Inl ErrPanic" if "\<And>x. x \<in> set l' \<Longrightarrow> g x \<noteq> Inl ErrPanic"
      for g :: "string \<times> gvalue \<Rightarrow> gerr + byte list" and l' using that by (induction l') (auto split: sum.splits)
    have "sum_list_map (\<lambda>(name, v). case f v of Inl er \<Rightarrow> Inl er | Inr bs \<Rightarrow> Inr (length_bytes name @ string_bytes name @ bs))
        (sort_entries l) \<noteq> Inl ErrPanic" by (rule any) (use that in \<open>auto split: sum.splits\<close>)
    then show ?thesis by (auto simp: write_entries_def split: sum.splits)
  qed
  have "writePropertyValueHash v \<noteq> Inl ErrPanic"
    by (induction v rule: writePropertyValueHash.induct) (use items entries in \<open>auto split: sum.splits\<close>)
  then show ?thesis by (auto simp: hashed_key_def split: sum.splits)
qed

lemma value_key_no_panic: "makePropertyValueKey v \<noteq> Inl ErrPanic"
  by (cases v) (simp_all add: hashed_key_no_panic)

lemma index_step_ok:
  assumes "ix_inv ix"
  shows "\<exists>ix'. index_step op ix = Inr ix' \<and> ix_inv ix' \<and> ix_view ix' = index_meaning op (ix_view ix)"
proof (cases op)
  case (CreateIndex d)
  then show ?thesis using ix_Create_ok [OF assms, of d] by simp
next
  case (DropIndex d)
  then show ?thesis using ix_Drop_ok [OF assms, of d] by simp
next
  case (AddValue d v i)
  show ?thesis
  proof (cases "makePropertyValueKey v")
    case (Inl er)
    then show ?thesis using AddValue assms value_key_no_panic [of v] by (simp add: or_same_def ix_Add_def)
  next
    case (Inr key)
    then show ?thesis using AddValue ix_Add_ok [OF assms Inr, of d i] by (auto simp: or_same_def)
  qed
next
  case (RemoveValue d v i)
  show ?thesis
  proof (cases "makePropertyValueKey v")
    case (Inl er)
    then show ?thesis using RemoveValue assms value_key_no_panic [of v] by (simp add: or_same_def ix_Remove_def)
  next
    case (Inr key)
    then show ?thesis using RemoveValue ix_Remove_ok [OF assms Inr, of d i] by (auto simp: or_same_def)
  qed
next
  case ForkIndexes
  then show ?thesis using assms by (simp add: ix_Fork_def ix_inv_def ix_view_def fun_eq_iff)
qed

lemma run_index_ok:
  assumes "ix_inv ix"
  shows "\<exists>ix'. run_index ops ix = Inr ix' \<and> ix_inv ix' \<and> ix_view ix' = fold index_meaning ops (ix_view ix)"
  using assms
proof (induction ops arbitrary: ix)
  case (Cons op ops)
  obtain ix1 where s: "index_step op ix = Inr ix1" "ix_inv ix1" "ix_view ix1 = index_meaning op (ix_view ix)"
    using index_step_ok [OF Cons.prems, of op] by auto
  then show ?case using Cons.IH [OF s(2)] by simp
qed simp

lemma ix_posting_ok:
  assumes "ix_inv ix" "ix_view ix d = Some f"
  shows "pp_inv (ix_posting ix d key)" "set (pp_all (ix_posting ix d key)) = f key"
proof -
  obtain data where d: "map_of (ix_definitions ix) d = Some data" "f = xd_ids data" using assms(2) by (auto simp: ix_view_def)
  then have "xd_inv data" using assms(1) by (auto simp: ix_inv_def)
  from posting_inv [OF this, of key] show "pp_inv (ix_posting ix d key)" "set (pp_all (ix_posting ix d key)) = f key"
    using d by (simp_all add: ix_posting_def)
qed

text \<open>
  C35. Resident property indexes refine a map from definitions and value keys to sets of entities: whatever definitions are created
  and dropped, values added and removed and versions forked, no operation panics, and a lookup finds the index exactly when it
  was created and not dropped, with the entities of the value in ascending order, as many of them as the limit asks
  for, and in the number that the cardinality reports.
\<close>

theorem property_indexes_refine:
  "\<exists>ix. run_index ops NewPropertyIndexes = Inr ix \<and>
     (case (fold index_meaning ops Map.empty d, makePropertyValueKey v) of
        (None, _) \<Rightarrow> ix_Lookup page ix d v = ([], False, None) \<and> ix_Cardinality page' ix d v = (0, False, None)
      | (Some f, Inl er) \<Rightarrow> ix_Lookup page ix d v = ([], True, Some er) \<and> ix_Cardinality page' ix d v = (0, True, Some er)
      | (Some f, Inr key) \<Rightarrow> ix_Lookup page ix d v = (sorted_list_of_set (f key), True, None) \<and>
          ix_LookupLimit page ix d v n = (if n = - 1 then sorted_list_of_set (f key) else take (unat n) (sorted_list_of_set (f key)), True, None) \<and>
          ix_VisitContext page ix no_effect d v no_effect (Some collect_id) [] = ((True, None), sorted_list_of_set (f key)) \<and>
          ix_Cardinality page' ix d v = (int (card (f key)), True, None))"
proof -
  have new: "ix_inv NewPropertyIndexes" "ix_view NewPropertyIndexes = Map.empty"
    by (simp_all add: NewPropertyIndexes_def ix_inv_def ix_view_def fun_eq_iff)
  obtain ix where ix: "run_index ops NewPropertyIndexes = Inr ix" "ix_inv ix" "ix_view ix = fold index_meaning ops Map.empty"
    using run_index_ok [OF new(1), of ops] new(2) by auto
  have h: "ix_Has ix d \<longleftrightarrow> ix_view ix d \<noteq> None" "\<not> ix_page ix" using ix(2) by (simp_all add: ix_Has_def ix_view_def ix_inv_def)
  note c = ix_Lookup_def ix_LookupLimit_def ix_Cardinality_def ix_CardinalityContext_def no_effect_def
  show ?thesis
  proof (cases "ix_view ix d")
    case None
    then show ?thesis using h ix by (auto simp: c)
  next
    case (Some f)
    note p = ix_posting_ok [OF ix(2) Some]
    note a = posting_set.all_sorted_list [OF p(1), unfolded p(2)] posting_set.len_card [OF p(1), unfolded p(2)]
    have f: "fold index_meaning ops Map.empty d = Some f" using Some by (simp add: ix(3))
    show ?thesis
    proof (cases "makePropertyValueKey v")
      case (Inl er)
      then show ?thesis using h Some ix(1) by (auto simp: f c)
    next
      case (Inr key)
      have H: "ix_Has ix d" using h Some by simp
      note r = resident_readers [OF h(2) H Inr]
      show ?thesis using h H Inr ix(1) r by (auto simp: f ix_Lookup_def ix_LookupLimit_def a)
    qed
  qed
qed

end
