(* ===== verification/PageStore.thy ===== *)
theory PageStore
  imports RecordCache
begin

unbundle bit_operations_syntax

text \<open>
  The transactional key/value store over bbolt (\<^verbatim>\<open>internal/pagestore\<close>). bbolt is a parameter: \<open>bolt_tx\<close> holds the
  operations of a bbolt transaction the code calls and \<open>bolt\<close> adds those of the database, over types \<open>'t\<close> and \<open>'d\<close> for their
  states. What the code relies on is stated in \<open>PageStoreLaws\<close> (\<open>bolt_reads\<close>, \<open>bolt_writes\<close>, \<open>bolt_history\<close>), from the documentation of bbolt: buckets are
  ordered maps, a key is at most 32768 bytes long, and a read transaction shows the state its identifier names.

  An operation is a function of the state of one transaction handle, the record cache it shares and the number of polls
  of the context so far. It may fail to return (a scan whose callback keeps the cursor moving), which is the value \<open>None\<close>,
  and otherwise gives an error or a result. Errors wrapped by \<^verbatim>\<open>fmt.Errorf\<close> with a verb \<^verbatim>\<open>%w\<close> are \<open>ErrWrap\<close>.
\<close>

section \<open>bbolt\<close>

record 't bolt_tx =
  bt_Bucket :: "string \<Rightarrow> 't \<Rightarrow> bool"
  bt_CreateBucketIfNotExists :: "string \<Rightarrow> 't \<Rightarrow> gerr option \<times> 't"
  bt_Get :: "string \<Rightarrow> byte list \<Rightarrow> 't \<Rightarrow> byte list option"
  bt_Put :: "string \<Rightarrow> byte list \<Rightarrow> byte list \<Rightarrow> 't \<Rightarrow> gerr option \<times> 't"
  bt_Delete :: "string \<Rightarrow> byte list \<Rightarrow> 't \<Rightarrow> gerr option \<times> 't"
  bt_First :: "string \<Rightarrow> 't \<Rightarrow> (byte list \<times> byte list) option"
  bt_Seek :: "string \<Rightarrow> byte list \<Rightarrow> 't \<Rightarrow> (byte list \<times> byte list) option"
  bt_SeekNext :: "string \<Rightarrow> byte list \<Rightarrow> 't \<Rightarrow> (byte list \<times> byte list) option"
  bt_ID :: "'t \<Rightarrow> int"
  bt_Size :: "'t \<Rightarrow> int"

record ('t, 'd) bolt = "'t bolt_tx" +
  bd_Begin :: "bool \<Rightarrow> 'd \<Rightarrow> (gerr + 't) \<times> 'd"
  bd_Commit :: "'t \<Rightarrow> 'd \<Rightarrow> gerr option \<times> 'd"
  bd_Rollback :: "'t \<Rightarrow> 'd \<Rightarrow> gerr option \<times> 'd"
  bd_Close :: "'d \<Rightarrow> gerr option \<times> 'd"
  bd_Sync :: "'d \<Rightarrow> gerr option \<times> 'd"
  bd_PageSize :: "'d \<Rightarrow> int"

section \<open>Transactions\<close>

text \<open>\<^verbatim>\<open>int64\<close> arithmetic wraps around.\<close>

definition int64 :: "int \<Rightarrow> int" where
  "int64 x = signed_take_bit 63 x"

definition maxInt64 :: int where
  "maxInt64 = 2 ^ 63 - 1"

record 't Tx =
  tx_pairBucket :: "string option"
  tx_tx :: "'t option"
  tx_writable :: bool
  tx_closed :: bool
  tx_baseSize :: int
  tx_writeBytes :: int
  tx_writeOps :: int

record 't pstate =
  ps_tx :: "'t Tx"
  ps_cache :: recordCache
  ps_polls :: nat

type_synonym ('a, 't) pm = "'t pstate \<Rightarrow> ((gerr + 'a) \<times> 't pstate) option"

definition pret :: "'a \<Rightarrow> ('a, 't) pm" where
  "pret a s = Some (Inr a, s)"

definition pfail :: "gerr \<Rightarrow> ('a, 't) pm" where
  "pfail er s = Some (Inl er, s)"

definition pbind :: "('a, 't) pm \<Rightarrow> ('a \<Rightarrow> ('b, 't) pm) \<Rightarrow> ('b, 't) pm" where
  "pbind m f s = Option.bind (m s) (\<lambda>(r, s'). case r of Inl er \<Rightarrow> Some (Inl er, s') | Inr a \<Rightarrow> f a s')"

abbreviation pthen :: "(unit, 't) pm \<Rightarrow> ('b, 't) pm \<Rightarrow> ('b, 't) pm" where
  "pthen m k \<equiv> pbind m (\<lambda>_. k)"

fun pmapM :: "('a \<Rightarrow> (unit, 't) pm) \<Rightarrow> 'a list \<Rightarrow> (unit, 't) pm" where
  "pmapM f [] = pret ()"
| "pmapM f (x # xs) = pthen (f x) (pmapM f xs)"

text \<open>\<^verbatim>\<open>tx.check()\<close>: the bbolt transaction of an open handle.\<close>

definition tx_check :: "('t, 't) pm" where
  "tx_check s = (if tx_closed (ps_tx s) then Some (Inl ErrClosed, s)
     else (case tx_tx (ps_tx s) of None \<Rightarrow> Some (Inl ErrClosed, s) | Some t \<Rightarrow> Some (Inr t, s)))"

definition cache_key :: "('t, 'z) bolt_tx_scheme \<Rightarrow> string \<Rightarrow> byte list \<Rightarrow> 't \<Rightarrow> recordCacheKey" where
  "cache_key B bucket key t = \<lparr>ck_generation = bt_ID B t, ck_bucket = bucket, ck_key = bytes_string key\<rparr>"

definition uses_cache :: "'t pstate \<Rightarrow> bool" where
  "uses_cache s \<longleftrightarrow> \<not> tx_writable (ps_tx s) \<and> rc_limit (ps_cache s) \<noteq> 0"

text \<open>\<^verbatim>\<open>cache.put(ck, value)\<close>; an eviction from an empty list would panic.\<close>

definition cache_put :: "recordCacheKey \<Rightarrow> byte list option \<Rightarrow> 'a \<Rightarrow> ('a, 't) pm" where
  "cache_put ck v a s = (case rc_put ck v (ps_cache s) of
     None \<Rightarrow> Some (Inl ErrPanic, s)
   | Some c \<Rightarrow> Some (Inr a, s\<lparr>ps_cache := c\<rparr>))"

definition tx_Get :: "('t, 'z) bolt_tx_scheme \<Rightarrow> string \<Rightarrow> byte list \<Rightarrow> (byte list option, 't) pm" where
  "tx_Get B bucket key = pbind tx_check (\<lambda>t s.
     let ck = cache_key B bucket key t;
         (hit, s1) = (if uses_cache s then (case rc_get ck (ps_cache s) of (v, c) \<Rightarrow> (v, s\<lparr>ps_cache := c\<rparr>)) else (None, s))
     in case hit of
          Some v \<Rightarrow> Some (Inr (Some v), s1)
        | None \<Rightarrow>
            if \<not> bt_Bucket B bucket t then Some (Inr None, s1)
            else let v = bt_Get B bucket key t in
                 if uses_cache s1 then cache_put ck v v s1 else Some (Inr v, s1))"

definition tx_Has :: "('t, 'z) bolt_tx_scheme \<Rightarrow> string \<Rightarrow> byte list \<Rightarrow> (bool, 't) pm" where
  "tx_Has B bucket key = pbind tx_check (\<lambda>t. pret (bt_Bucket B bucket t \<and> bt_Get B bucket key t \<noteq> None))"

text \<open>\<^verbatim>\<open>GetBoundedWithCharge\<close>; the charge is \<open>None\<close> where it accepts, and a nil charge accepts everything.\<close>

definition tx_GetBoundedWithCharge ::
  "('t, 'z) bolt_tx_scheme \<Rightarrow> string \<Rightarrow> byte list \<Rightarrow> u64 \<Rightarrow> (u64 \<Rightarrow> gerr option) \<Rightarrow> (byte list option, 't) pm" where
  "tx_GetBoundedWithCharge B bucket key maxBytes charge = pbind tx_check (\<lambda>t s.
     if \<not> bt_Bucket B bucket t then Some (Inr None, s)
     else (case bt_Get B bucket key t of
             None \<Rightarrow> Some (Inr None, s)
           | Some v \<Rightarrow>
               if word_of_nat (length v) > maxBytes then Some (Inl (ErrWrap ''bucket value exceeds the limit'' ErrValueTooLarge), s)
               else (case charge (word_of_nat (length v)) of
                       Some er \<Rightarrow> Some (Inl er, s)
                     | None \<Rightarrow>
                         if uses_cache s
                         then (case rc_get (cache_key B bucket key t) (ps_cache s) of
                                 (Some cached, c) \<Rightarrow> Some (Inr (Some cached), s\<lparr>ps_cache := c\<rparr>)
                               | (None, c) \<Rightarrow> cache_put (cache_key B bucket key t) (Some v) (Some v) (s\<lparr>ps_cache := c\<rparr>))
                         else Some (Inr (Some v), s))))"

definition tx_GetBounded :: "('t, 'z) bolt_tx_scheme \<Rightarrow> string \<Rightarrow> byte list \<Rightarrow> u64 \<Rightarrow> (byte list option, 't) pm" where
  "tx_GetBounded B bucket key maxBytes = tx_GetBoundedWithCharge B bucket key maxBytes (\<lambda>_. None)"

text \<open>\<^verbatim>\<open>ReadBounded\<close> and \<^verbatim>\<open>ReadPairBounded\<close> call \<open>read\<close> on borrowed values under the lock.\<close>

definition tx_ReadBounded ::
  "('t, 'z) bolt_tx_scheme \<Rightarrow> string \<Rightarrow> byte list \<Rightarrow> u64 \<Rightarrow> (byte list \<Rightarrow> (unit, 't) pm) \<Rightarrow> (unit, 't) pm" where
  "tx_ReadBounded B bucket key maxBytes read = pbind tx_check (\<lambda>t.
     if \<not> bt_Bucket B bucket t then pret ()
     else (case bt_Get B bucket key t of
             None \<Rightarrow> pret ()
           | Some v \<Rightarrow>
               if word_of_nat (length v) > maxBytes then pfail (ErrWrap ''bucket value exceeds the limit'' ErrValueTooLarge)
               else read v))"

definition seek_exact :: "('t, 'z) bolt_tx_scheme \<Rightarrow> string \<Rightarrow> byte list \<Rightarrow> 't \<Rightarrow> byte list option" where
  "seek_exact B bucket key t = (case bt_Seek B bucket key t of
     None \<Rightarrow> None
   | Some (k, v) \<Rightarrow> if k = key then Some v else None)"

definition value_size :: "byte list option \<Rightarrow> u64" where
  "value_size v = (case v of None \<Rightarrow> 0 | Some l \<Rightarrow> word_of_nat (length l))"

definition tx_ReadPairBounded ::
  "('t, 'z) bolt_tx_scheme \<Rightarrow> string \<Rightarrow> byte list \<Rightarrow> byte list \<Rightarrow> u64 \<Rightarrow> (byte list option \<Rightarrow> byte list option \<Rightarrow> (unit, 't) pm) \<Rightarrow> (unit, 't) pm" where
  "tx_ReadPairBounded B bucket first second maxBytes read = pbind tx_check (\<lambda>t s.
     if tx_pairBucket (ps_tx s) \<noteq> Some bucket \<and> \<not> bt_Bucket B bucket t then Some (Inr (), s)
     else
       let s1 = s\<lparr>ps_tx := (ps_tx s)\<lparr>tx_pairBucket := Some bucket\<rparr>\<rparr>;
           left = seek_exact B bucket first t; right = seek_exact B bucket second t
       in if left = None \<and> right = None then Some (Inr (), s1)
          else if value_size left > maxBytes \<or> value_size right > maxBytes - value_size left
          then Some (Inl (ErrWrap ''bucket pair exceeds the limit'' ErrValueTooLarge), s1)
          else read left right s1)"

definition put_accounting :: "byte list \<Rightarrow> byte list \<Rightarrow> 't Tx \<Rightarrow> 't Tx" where
  "put_accounting key v tx = tx\<lparr>
     tx_writeBytes := (if int (length key) + int (length v) > maxInt64 - tx_writeBytes tx then maxInt64
                       else tx_writeBytes tx + (int (length key) + int (length v))),
     tx_writeOps := tx_writeOps tx + 1\<rparr>"

text \<open>\<^verbatim>\<open>Put\<close> and \<^verbatim>\<open>PutOwned\<close>, which differ only in who owns the bytes.\<close>

definition tx_Put :: "('t, 'z) bolt_tx_scheme \<Rightarrow> string \<Rightarrow> byte list \<Rightarrow> byte list \<Rightarrow> (unit, 't) pm" where
  "tx_Put B bucket key v = pbind tx_check (\<lambda>t s.
     if \<not> tx_writable (ps_tx s) then Some (Inl ErrReadOnly, s)
     else
       let (er1, t1) = (if bt_Bucket B bucket t then (None, t) else bt_CreateBucketIfNotExists B bucket t);
           s1 = s\<lparr>ps_tx := (ps_tx s)\<lparr>tx_tx := Some t1\<rparr>\<rparr>
       in case er1 of
            Some er \<Rightarrow> Some (Inl (ErrWrap ''pagestore: create bucket'' er), s1)
          | None \<Rightarrow>
              (case bt_Put B bucket key v t1 of (er2, t2) \<Rightarrow>
                 let s2 = s1\<lparr>ps_tx := (ps_tx s1)\<lparr>tx_tx := Some t2\<rparr>\<rparr> in
                 case er2 of
                   Some er \<Rightarrow> Some (Inl (ErrWrap ''pagestore: put in bucket'' er), s2)
                 | None \<Rightarrow> Some (Inr (), s2\<lparr>ps_tx := put_accounting key v (ps_tx s2)\<rparr>)))"

definition tx_Delete :: "('t, 'z) bolt_tx_scheme \<Rightarrow> string \<Rightarrow> byte list \<Rightarrow> (unit, 't) pm" where
  "tx_Delete B bucket key = pbind tx_check (\<lambda>t s.
     if \<not> tx_writable (ps_tx s) then Some (Inl ErrReadOnly, s)
     else if \<not> bt_Bucket B bucket t then Some (Inr (), s)
     else (case bt_Delete B bucket key t of (er, t1) \<Rightarrow>
             let s1 = s\<lparr>ps_tx := (ps_tx s)\<lparr>tx_tx := Some t1\<rparr>\<rparr> in
             case er of
               Some er \<Rightarrow> Some (Inl (ErrWrap ''pagestore: delete from bucket'' er), s1)
             | None \<Rightarrow> Some (Inr (), s1\<lparr>ps_tx := (ps_tx s1)\<lparr>tx_writeOps := tx_writeOps (ps_tx s1) + 1\<rparr>\<rparr>)))"

definition BufferedBytes :: "(u64, 't) pm" where
  "BufferedBytes = pbind tx_check (\<lambda>t s. Some (Inr (word_of_int (tx_writeBytes (ps_tx s))), s))"

section \<open>Scans\<close>

text \<open>
  A visitor is a closure: it takes the variables it captures (\<open>'c\<close>) and returns its error and their new values. A context
  answers its \<open>n\<close>-th poll with \<open>ctx n\<close>.
\<close>

type_synonym ('c, 't) am = "'t pstate \<Rightarrow> ((gerr option \<times> 'c) \<times> 't pstate) option"

definition poll_ctx :: "(nat \<Rightarrow> gerr option) \<Rightarrow> 't pstate \<Rightarrow> gerr option \<times> 't pstate" where
  "poll_ctx ctx s = (ctx (ps_polls s), s\<lparr>ps_polls := Suc (ps_polls s)\<rparr>)"

definition cursor_entry :: "('t, 'z) bolt_tx_scheme \<Rightarrow> string \<Rightarrow> byte list option \<Rightarrow> bool \<Rightarrow> 't \<Rightarrow> (byte list \<times> byte list) option" where
  "cursor_entry B bucket seek inclusive t = (case seek of
     None \<Rightarrow> bt_First B bucket t
   | Some k \<Rightarrow> (case bt_Seek B bucket k t of
       None \<Rightarrow> None
     | Some (key, v) \<Rightarrow> if \<not> inclusive \<and> key = k then bt_SeekNext B bucket k t else Some (key, v)))"

definition beyond :: "byte list option \<Rightarrow> byte list \<Rightarrow> bool" where
  "beyond fin key = (case fin of None \<Rightarrow> False | Some e \<Rightarrow> key \<ge> e)"

definition scanEntry ::
  "('t, 'z) bolt_tx_scheme \<Rightarrow> string \<Rightarrow> byte list option \<Rightarrow> byte list option \<Rightarrow> bool \<Rightarrow> u64 \<Rightarrow> ((byte list \<times> byte list) option, 't) pm" where
  "scanEntry B bucket seek fin inclusive maxBytes = pbind tx_check (\<lambda>t.
     if \<not> bt_Bucket B bucket t then pret None
     else (case cursor_entry B bucket seek inclusive t of
             None \<Rightarrow> pret None
           | Some (key, v) \<Rightarrow>
               if beyond fin key then pret None
               else if word_of_nat (length key) + word_of_nat (length v) > maxBytes
               then pfail (ErrWrap ''scan bucket record exceeds the limit'' ErrValueTooLarge)
               else pret (Some (key, v))))"

partial_function (option) scan_loop ::
  "('t, 'z) bolt_tx_scheme \<Rightarrow> (nat \<Rightarrow> gerr option) \<Rightarrow> string \<Rightarrow> byte list option \<Rightarrow> u64 \<Rightarrow> (byte list \<Rightarrow> byte list \<Rightarrow> 'c \<Rightarrow> ('c, 't) am) \<Rightarrow>
   byte list option \<Rightarrow> bool \<Rightarrow> 'c \<Rightarrow> 't pstate \<Rightarrow> ((gerr option \<times> 'c) \<times> 't pstate) option" where
  "scan_loop B ctx bucket fin maxBytes visit seek inclusive c s =
     (case poll_ctx ctx s of
        (Some er, s1) \<Rightarrow> Some ((Some er, c), s1)
      | (None, s1) \<Rightarrow>
          (case scanEntry B bucket seek fin inclusive maxBytes s1 of
             None \<Rightarrow> None
           | Some (Inl er, s2) \<Rightarrow> Some ((Some er, c), s2)
           | Some (Inr None, s2) \<Rightarrow> Some ((None, c), s2)
           | Some (Inr (Some (key, v)), s2) \<Rightarrow>
               if beyond fin key then Some ((None, c), s2)
               else (case visit key v c s2 of
                       None \<Rightarrow> None
                     | Some ((Some er, c1), s3) \<Rightarrow>
                         Some ((if er = ErrEOF then None else Some (ErrWrap ''pagestore: scan bucket'' er), c1), s3)
                     | Some ((None, c1), s3) \<Rightarrow> scan_loop B ctx bucket fin maxBytes visit (Some key) False c1 s3)))"

definition tx_ScanBounded ::
  "('t, 'z) bolt_tx_scheme \<Rightarrow> (nat \<Rightarrow> gerr option) \<Rightarrow> string \<Rightarrow> byte list option \<Rightarrow> byte list option \<Rightarrow> u64 \<Rightarrow>
   (byte list \<Rightarrow> byte list \<Rightarrow> 'c \<Rightarrow> ('c, 't) am) \<Rightarrow> 'c \<Rightarrow> ('c, 't) am" where
  "tx_ScanBounded B ctx bucket start fin maxBytes visit c = scan_loop B ctx bucket fin maxBytes visit start True c"

definition tx_Scan ::
  "('t, 'z) bolt_tx_scheme \<Rightarrow> (nat \<Rightarrow> gerr option) \<Rightarrow> string \<Rightarrow> byte list option \<Rightarrow> byte list option \<Rightarrow>
   (byte list \<Rightarrow> byte list \<Rightarrow> 'c \<Rightarrow> ('c, 't) am) \<Rightarrow> 'c \<Rightarrow> ('c, 't) am" where
  "tx_Scan B ctx bucket start fin visit c = tx_ScanBounded B ctx bucket start fin (- 1) visit c"

text \<open>\<^verbatim>\<open>ScanKeysWithCharge\<close>; the charge acts on the captured variables too.\<close>

partial_function (option) scan_keys_loop ::
  "('t, 'z) bolt_tx_scheme \<Rightarrow> (nat \<Rightarrow> gerr option) \<Rightarrow> string \<Rightarrow> byte list option \<Rightarrow> u64 \<Rightarrow> (u64 \<Rightarrow> 'c \<Rightarrow> gerr option \<times> 'c) \<Rightarrow>
   (byte list \<Rightarrow> 'c \<Rightarrow> ('c, 't) am) \<Rightarrow> byte list option \<Rightarrow> bool \<Rightarrow> 'c \<Rightarrow> 't pstate \<Rightarrow> ((gerr option \<times> 'c) \<times> 't pstate) option" where
  "scan_keys_loop B ctx bucket fin maxKeyBytes charge visit seek inclusive c s =
     (case poll_ctx ctx s of
        (Some er, s1) \<Rightarrow> Some ((Some er, c), s1)
      | (None, s1) \<Rightarrow>
          (case tx_check s1 of
             None \<Rightarrow> None
           | Some (Inl er, s2) \<Rightarrow> Some ((Some er, c), s2)
           | Some (Inr t, s2) \<Rightarrow>
               if \<not> bt_Bucket B bucket t then Some ((None, c), s2)
               else (case cursor_entry B bucket seek inclusive t of
                       None \<Rightarrow> Some ((None, c), s2)
                     | Some (key, v) \<Rightarrow>
                         if beyond fin key then Some ((None, c), s2)
                         else if word_of_nat (length key) > maxKeyBytes
                         then Some ((Some (ErrWrap ''key exceeds the limit'' ErrValueTooLarge), c), s2)
                         else (case charge (word_of_nat (length key)) c of
                                 (Some er, c1) \<Rightarrow> Some ((Some er, c1), s2)
                               | (None, c1) \<Rightarrow>
                                   (case visit key c1 s2 of
                                      None \<Rightarrow> None
                                    | Some ((Some er, c2), s3) \<Rightarrow> Some ((if er = ErrEOF then None else Some er, c2), s3)
                                    | Some ((None, c2), s3) \<Rightarrow>
                                        scan_keys_loop B ctx bucket fin maxKeyBytes charge visit (Some key) False c2 s3)))))"

definition tx_ScanKeysWithCharge ::
  "('t, 'z) bolt_tx_scheme \<Rightarrow> (nat \<Rightarrow> gerr option) \<Rightarrow> string \<Rightarrow> byte list option \<Rightarrow> byte list option \<Rightarrow> u64 \<Rightarrow> (u64 \<Rightarrow> 'c \<Rightarrow> gerr option \<times> 'c) \<Rightarrow>
   (byte list \<Rightarrow> 'c \<Rightarrow> ('c, 't) am) \<Rightarrow> 'c \<Rightarrow> ('c, 't) am" where
  "tx_ScanKeysWithCharge B ctx bucket start fin maxKeyBytes charge visit c =
     scan_keys_loop B ctx bucket fin maxKeyBytes charge visit start True c"

definition tx_ScanKeys ::
  "('t, 'z) bolt_tx_scheme \<Rightarrow> (nat \<Rightarrow> gerr option) \<Rightarrow> string \<Rightarrow> byte list option \<Rightarrow> byte list option \<Rightarrow>
   (byte list \<Rightarrow> 'c \<Rightarrow> ('c, 't) am) \<Rightarrow> 'c \<Rightarrow> ('c, 't) am" where
  "tx_ScanKeys B ctx bucket start fin visit c = tx_ScanKeysWithCharge B ctx bucket start fin (- 1) (\<lambda>_ c. (None, c)) visit c"

section \<open>The database\<close>

function mmap_size_loop :: "int \<Rightarrow> int \<Rightarrow> int" where
  "mmap_size_loop capacity n =
     (if 0 < capacity \<and> capacity < 2 ^ 30
      then if n \<le> capacity then capacity else mmap_size_loop (2 * capacity) n
      else ((n + 2 ^ 30 - 1) div 2 ^ 30) * 2 ^ 30)"
  by pat_completeness auto
termination
  by (relation "measure (\<lambda>(c, n). nat (2 ^ 30 - c))") auto

declare mmap_size_loop.simps [simp del]

definition mmapSizeFor :: "int \<Rightarrow> int" where
  "mmapSizeFor n = mmap_size_loop (2 ^ 15) n"

definition defaultSnapshotWriteLimit :: int where
  "defaultSnapshotWriteLimit = 2 ^ 24"

definition initialMmapSize :: int where
  "initialMmapSize = 2 ^ 20"

record Options =
  op_ReadOnly :: bool
  op_PageSize :: int
  op_CacheBytes :: u64
  op_MaxSnapshotWriteBytes :: int

record 'd DB =
  db_bolt :: 'd
  db_readOnly :: bool
  db_limit :: int
  db_readers :: int
  db_writers :: int
  db_mapSize :: int
  db_closed :: bool
  db_cache :: recordCache

text \<open>The validation of \<^verbatim>\<open>Open\<close>: a page size is zero or a power of two between 1024 and 65536.\<close>

definition options_ok :: "string \<Rightarrow> Options \<Rightarrow> bool" where
  "options_ok path opts \<longleftrightarrow> \<not> (path = [] \<or> op_MaxSnapshotWriteBytes opts < 0 \<or>
     op_PageSize opts \<noteq> 0 \<and> (op_PageSize opts < 1024 \<or> op_PageSize opts > 65536 \<or> and (op_PageSize opts) (op_PageSize opts - 1) \<noteq> 0))"

text \<open>\<^verbatim>\<open>Open\<close> on the database bbolt opened, with its page size, and the size of its file.\<close>

definition Open :: "string \<Rightarrow> Options \<Rightarrow> gerr + 'd \<Rightarrow> int \<Rightarrow> gerr + int \<Rightarrow> gerr + 'd DB" where
  "Open path opts opened pageSize fileSize =
     (if \<not> options_ok path opts then Inl ErrInvalidOptions
      else
        let cap = (if op_MaxSnapshotWriteBytes opts = 0 then defaultSnapshotWriteLimit else op_MaxSnapshotWriteBytes opts) in
        case opened of
          Inl er \<Rightarrow> Inl (ErrWrap ''pagestore: open'' er)
        | Inr d \<Rightarrow>
            if op_PageSize opts \<noteq> 0 \<and> pageSize \<noteq> op_PageSize opts
            then Inl (ErrWrap ''existing page size differs from requested size'' ErrInvalidOptions)
            else (case fileSize of
                    Inl er \<Rightarrow> Inl (ErrWrap ''pagestore: inspect mmap capacity'' er)
                  | Inr n \<Rightarrow>
                      Inr \<lparr>db_bolt = d, db_readOnly = op_ReadOnly opts, db_limit = cap, db_readers = 0, db_writers = 0,
                           db_mapSize = max (mmapSizeFor n) initialMmapSize, db_closed = False, db_cache = new_cache (op_CacheBytes opts)\<rparr>))"

definition db_Begin :: "('t, 'd, 'z) bolt_scheme \<Rightarrow> bool \<Rightarrow> 'd DB \<Rightarrow> (gerr + 't Tx) \<times> 'd DB" where
  "db_Begin B writable db =
     (if db_closed db then (Inl ErrClosed, db)
      else if writable \<and> db_readOnly db then (Inl ErrReadOnly, db)
      else if writable \<and> db_writers db \<noteq> 0 then (Inl ErrWriterActive, db)
      else (case bd_Begin B writable (db_bolt db) of
              (Inl er, d) \<Rightarrow> (Inl (ErrWrap ''pagestore: begin'' er), db\<lparr>db_bolt := d\<rparr>)
            | (Inr t, d) \<Rightarrow>
                (Inr \<lparr>tx_pairBucket = None, tx_tx = Some t, tx_writable = writable, tx_closed = False, tx_baseSize = bt_Size B t,
                      tx_writeBytes = 0, tx_writeOps = 0\<rparr>,
                 if writable then db\<lparr>db_bolt := d, db_writers := db_writers db + 1\<rparr> else db\<lparr>db_bolt := d, db_readers := db_readers db + 1\<rparr>)))"

definition db_Close :: "('t, 'd, 'z) bolt_scheme \<Rightarrow> 'd DB \<Rightarrow> gerr option \<times> 'd DB" where
  "db_Close B db =
     (if db_closed db then (None, db)
      else if db_readers db \<noteq> 0 \<or> db_writers db \<noteq> 0 then (Some ErrActiveTransactions, db)
      else (case bd_Close B (db_bolt db) of
              (Some er, d) \<Rightarrow> (Some (ErrWrap ''pagestore: close'' er), db\<lparr>db_bolt := d\<rparr>)
            | (None, d) \<Rightarrow> (None, db\<lparr>db_bolt := d, db_closed := True, db_cache := rc_clear (db_cache db)\<rparr>)))"

definition db_Sync :: "('t, 'd, 'z) bolt_scheme \<Rightarrow> 'd DB \<Rightarrow> gerr option \<times> 'd DB" where
  "db_Sync B db =
     (if db_closed db then (Some ErrClosed, db)
      else if db_readOnly db then (Some ErrReadOnly, db)
      else (case bd_Sync B (db_bolt db) of (er, d) \<Rightarrow> (er, db\<lparr>db_bolt := d\<rparr>)))"

definition finishLocked :: "'t Tx \<Rightarrow> 'd DB \<Rightarrow> 't Tx \<times> 'd DB" where
  "finishLocked tx db =
     (if tx_closed tx then (tx, db)
      else (tx\<lparr>tx_closed := True, tx_pairBucket := None, tx_tx := None\<rparr>,
            if tx_writable tx then db\<lparr>db_writers := db_writers db - 1\<rparr> else db\<lparr>db_readers := db_readers db - 1\<rparr>))"

text \<open>The admission test of \<^verbatim>\<open>Commit\<close> while read snapshots are open, in \<^verbatim>\<open>int64\<close> arithmetic.\<close>

definition commit_growth :: "int \<Rightarrow> 't Tx \<Rightarrow> int" where
  "commit_growth pageSize tx = int64 (tx_baseSize tx + tx_writeBytes tx + (2 * tx_writeOps tx + 8) * pageSize)"

definition commit_admits :: "int \<Rightarrow> 't Tx \<Rightarrow> 'd DB \<Rightarrow> gerr option" where
  "commit_admits pageSize tx db =
     (if db_readers db > 0
      then if tx_writeBytes tx > db_limit db then Some ErrSnapshotWriteLimit
           else
             let growth = commit_growth pageSize tx in
             if growth < tx_baseSize tx \<or> tx_baseSize tx > int64 (db_mapSize db - growth) then Some ErrSnapshotGrowth else None
      else None)"

definition after_commit :: "('t, 'd, 'z) bolt_scheme \<Rightarrow> 'd DB \<Rightarrow> 'd DB" where
  "after_commit B db = (case bd_Begin B False (db_bolt db) of
     (Inl _, d) \<Rightarrow> db\<lparr>db_bolt := d\<rparr>
   | (Inr cur, d) \<Rightarrow>
       let capacity = mmapSizeFor (bt_Size B cur);
           db1 = db\<lparr>db_bolt := snd (bd_Rollback B cur d)\<rparr>
       in if capacity > db_mapSize db then db1\<lparr>db_mapSize := capacity\<rparr> else db1)"

definition tx_Commit :: "('t, 'd, 'z) bolt_scheme \<Rightarrow> 't Tx \<Rightarrow> 'd DB \<Rightarrow> gerr option \<times> 't Tx \<times> 'd DB" where
  "tx_Commit B tx db =
     (if tx_closed tx then (Some ErrClosed, tx, db)
      else (case tx_tx tx of
        None \<Rightarrow> (Some ErrClosed, tx, db)
      | Some t \<Rightarrow>
          if \<not> tx_writable tx then (Some ErrReadOnly, tx, db)
          else if db_closed db then (Some ErrClosed, tx, db)
          else (case commit_admits (bd_PageSize B (db_bolt db)) tx db of
                  Some er \<Rightarrow> (Some er, tx, db)
                | None \<Rightarrow>
                    (case bd_Commit B t (db_bolt db) of
                       (Some er, d) \<Rightarrow> (Some (ErrWrap ''pagestore: commit'' er), finishLocked tx (db\<lparr>db_bolt := d\<rparr>))
                     | (None, d) \<Rightarrow> (None, finishLocked tx (after_commit B (db\<lparr>db_bolt := d\<rparr>)))))))"

definition tx_Rollback :: "('t, 'd, 'z) bolt_scheme \<Rightarrow> 't Tx \<Rightarrow> 'd DB \<Rightarrow> gerr option \<times> 't Tx \<times> 'd DB" where
  "tx_Rollback B tx db =
     (if tx_closed tx then (Some ErrClosed, tx, db)
      else (case tx_tx tx of
        None \<Rightarrow> (Some ErrClosed, tx, db)
      | Some t \<Rightarrow>
          (case bd_Rollback B t (db_bolt db) of (er, d) \<Rightarrow>
             (map_option (ErrWrap ''pagestore: rollback'') er, finishLocked tx (db\<lparr>db_bolt := d\<rparr>)))))"


end
