(* ===== verification/PageStoreLaws.thy ===== *)
theory PageStoreLaws
  imports PageStore
begin

text \<open>
  What the page store promises, given bbolt: a scan visits the rows of its range in order and always ends, a read transaction
  sees its snapshot whatever else happens, the transaction counters are exact, and a commit that is admitted beside read snapshots fits the
  mapped file.
\<close>

section \<open>The documented behaviour of bbolt\<close>

text \<open>The rows of a bucket; a missing bucket has none.\<close>

definition bt_map :: "('t, 'z) bolt_tx_scheme \<Rightarrow> 't \<Rightarrow> string \<Rightarrow> byte list \<Rightarrow> byte list option" where
  "bt_map B t b k = (if bt_Bucket B b t then bt_Get B b k t else None)"

definition least_entry :: "(byte list \<Rightarrow> byte list option) \<Rightarrow> (byte list \<Rightarrow> bool) \<Rightarrow> (byte list \<times> byte list) option \<Rightarrow> bool" where
  "least_entry m P r \<longleftrightarrow> (case r of
     None \<Rightarrow> (\<forall>k. P k \<longrightarrow> m k = None)
   | Some (k, v) \<Rightarrow> P k \<and> m k = Some v \<and> (\<forall>k'. P k' \<and> m k' \<noteq> None \<longrightarrow> k \<le> k'))"

text \<open>Cursors move in byte order, a key has at most \<^verbatim>\<open>MaxKeySize\<close> and a value at most \<^verbatim>\<open>MaxValueSize\<close> bytes.\<close>

definition bolt_reads :: "('t, 'z) bolt_tx_scheme \<Rightarrow> bool" where
  "bolt_reads B \<longleftrightarrow> (\<forall>b t. bt_Bucket B b t \<longrightarrow>
     least_entry (bt_map B t b) (\<lambda>_. True) (bt_First B b t) \<and>
     (\<forall>s. least_entry (bt_map B t b) (\<lambda>k. s \<le> k) (bt_Seek B b s t)) \<and>
     (\<forall>s. bt_Get B b s t \<noteq> None \<longrightarrow> least_entry (bt_map B t b) (\<lambda>k. s < k) (bt_SeekNext B b s t)) \<and>
     (\<forall>k v. bt_Get B b k t = Some v \<longrightarrow> length k \<le> 32768 \<and> length v < 2 ^ 31))"

text \<open>Successful writes act on the rows as on a map; a created bucket is empty.\<close>

definition bolt_writes :: "('t, 'z) bolt_tx_scheme \<Rightarrow> bool" where
  "bolt_writes B \<longleftrightarrow>
     (\<forall>b t t'. bt_CreateBucketIfNotExists B b t = (None, t') \<longrightarrow> bt_Bucket B b t' \<and> bt_map B t' = bt_map B t) \<and>
     (\<forall>b k v t t'. bt_Bucket B b t \<longrightarrow> bt_Put B b k v t = (None, t') \<longrightarrow> bt_map B t' = (bt_map B t)(b := (bt_map B t b)(k \<mapsto> v))) \<and>
     (\<forall>b k t t'. bt_Bucket B b t \<longrightarrow> bt_Delete B b k t = (None, t') \<longrightarrow> bt_map B t' = (bt_map B t)(b := (bt_map B t b)(k := None)))"

text \<open>
  A read transaction shows the committed state that its identifier names: \<open>hist d\<close> gives the states committed so far by their
  identifiers, and no operation on the database changes one of them.
\<close>

definition bolt_history :: "('t, 'd, 'z) bolt_scheme \<Rightarrow> ('d \<Rightarrow> int \<Rightarrow> (string \<Rightarrow> byte list \<Rightarrow> byte list option) option) \<Rightarrow> bool" where
  "bolt_history B hist \<longleftrightarrow>
     (\<forall>d t d'. bd_Begin B False d = (Inr t, d') \<longrightarrow> hist d' (bt_ID B t) = Some (bt_map B t)) \<and>
     (\<forall>w d. hist d \<subseteq>\<^sub>m hist (snd (bd_Begin B w d))) \<and>
     (\<forall>t d. hist d \<subseteq>\<^sub>m hist (snd (bd_Commit B t d)) \<and> hist d \<subseteq>\<^sub>m hist (snd (bd_Rollback B t d))) \<and>
     (\<forall>d. hist d \<subseteq>\<^sub>m hist (snd (bd_Close B d)) \<and> hist d \<subseteq>\<^sub>m hist (snd (bd_Sync B d)))"

section \<open>A bbolt in memory\<close>

text \<open>Association lists meet the laws; the examples use them.\<close>

type_synonym mem = "(string \<times> (byte list \<times> byte list) list) list"

definition mem_get :: "string \<Rightarrow> byte list \<Rightarrow> mem \<Rightarrow> byte list option" where
  "mem_get b k t = (case map_of t b of None \<Rightarrow> None | Some l \<Rightarrow> (case map_of l k of
     None \<Rightarrow> None
   | Some v \<Rightarrow> if int (length k) \<le> 32768 \<and> int (length v) < 2 ^ 31 then Some v else None))"

definition mem_least :: "(byte list \<Rightarrow> bool) \<Rightarrow> string \<Rightarrow> mem \<Rightarrow> (byte list \<times> byte list) option" where
  "mem_least P b t = (case filter (\<lambda>k. P k \<and> mem_get b k t \<noteq> None) (case map_of t b of None \<Rightarrow> [] | Some l \<Rightarrow> map fst l) of
     [] \<Rightarrow> None
   | k # ks \<Rightarrow> let k' = fold min ks k in Some (k', the (mem_get b k' t)))"

definition mem_put :: "string \<Rightarrow> byte list \<Rightarrow> byte list \<Rightarrow> mem \<Rightarrow> gerr option \<times> mem" where
  "mem_put b k v t = (case map_of t b of
     None \<Rightarrow> (Some (ErrMsg ''bucket not found''), t)
   | Some l \<Rightarrow> if k = [] \<or> int (length k) > 32768 \<or> int (length v) \<ge> 2 ^ 31 then (Some (ErrMsg ''key required or too large''), t)
               else (None, AList.update b (AList.update k v l) t))"

definition mem_delete :: "string \<Rightarrow> byte list \<Rightarrow> mem \<Rightarrow> gerr option \<times> mem" where
  "mem_delete b k t = (case map_of t b of
     None \<Rightarrow> (Some (ErrMsg ''bucket not found''), t)
   | Some l \<Rightarrow> (None, AList.update b (AList.delete k l) t))"

text \<open>A transaction is an identifier and the rows; a database is the list of committed states, newest first.\<close>

definition mem_bolt :: "(int \<times> mem, mem list) bolt" where
  "mem_bolt = \<lparr>bt_Bucket = \<lambda>b (_, t). map_of t b \<noteq> None,
     bt_CreateBucketIfNotExists = \<lambda>b (i, t). (None, i, case map_of t b of None \<Rightarrow> (b, []) # t | Some _ \<Rightarrow> t),
     bt_Get = \<lambda>b k (_, t). mem_get b k t,
     bt_Put = \<lambda>b k v (i, t). case mem_put b k v t of (er, t1) \<Rightarrow> (er, i, t1),
     bt_Delete = \<lambda>b k (i, t). case mem_delete b k t of (er, t1) \<Rightarrow> (er, i, t1),
     bt_First = \<lambda>b (_, t). mem_least (\<lambda>_. True) b t, bt_Seek = \<lambda>b s (_, t). mem_least (\<lambda>k. s \<le> k) b t,
     bt_SeekNext = \<lambda>b s (_, t). mem_least (\<lambda>k. s < k) b t,
     bt_ID = fst, bt_Size = \<lambda>t. 32768,
     bd_Begin = \<lambda>w d. (Inr (int (length d), case d of [] \<Rightarrow> [] | t # _ \<Rightarrow> t), d),
     bd_Commit = \<lambda>t d. (None, snd t # d), bd_Rollback = \<lambda>t d. (None, d),
     bd_Close = \<lambda>d. (None, d), bd_Sync = \<lambda>d. (None, d), bd_PageSize = \<lambda>d. 4096\<rparr>"

definition mem_hist :: "mem list \<Rightarrow> int \<Rightarrow> (string \<Rightarrow> byte list \<Rightarrow> byte list option) option" where
  "mem_hist d i = (if 0 \<le> i \<and> nat i \<le> length d then Some (\<lambda>b k. mem_get b k (([] # rev d) ! nat i)) else None)"

lemma fold_min_list: "fold min ks k = Min (insert k (set ks))"
proof (induction ks arbitrary: k)
  case (Cons x xs)
  then have "fold min (x # xs) k = Min (insert (min x k) (set xs))" by simp
  also have "\<dots> = Min (insert k (insert x (set xs)))"
    by (cases "xs = []") (simp_all add: min.commute min.left_commute min.assoc)
  finally show ?case by simp
qed simp

lemma mem_map: "bt_map mem_bolt t b = (\<lambda>k. mem_get b k (snd t))"
  by (cases t) (auto simp: bt_map_def mem_bolt_def mem_get_def fun_eq_iff split: option.splits)

lemma mem_least_entry: "least_entry (\<lambda>k. mem_get b k t) P (mem_least P b t)"
proof -
  let ?l = "case map_of t b of None \<Rightarrow> [] | Some l \<Rightarrow> map fst l"
  let ?f = "filter (\<lambda>k. P k \<and> mem_get b k t \<noteq> None) ?l"
  have mem: "k \<in> set ?l" if "mem_get b k t \<noteq> None" for k
    using that by (auto simp: mem_get_def split: option.splits if_splits dest: map_of_SomeD intro: rev_image_eqI)
  show ?thesis
  proof (cases ?f)
    case Nil
    then have none: "\<forall>k\<in>set ?l. \<not> (P k \<and> mem_get b k t \<noteq> None)" by (simp only: filter_empty_conv)
    have "mem_get b k t = None" if "P k" for k
    proof (rule ccontr)
      assume n: "mem_get b k t \<noteq> None"
      then have "k \<in> set ?l" by (rule mem)
      with none that n show False by blast
    qed
    then show ?thesis using Nil by (simp add: mem_least_def least_entry_def)
  next
    case (Cons k ks)
    let ?k = "fold min ks k"
    have s: "set ?f = insert k (set ks)" using Cons by simp
    have "?k \<in> set ?f" unfolding fold_min_list s by (rule Min_in) simp_all
    then obtain v where k: "P ?k" "mem_get b ?k t = Some v" by (simp only: set_filter mem_Collect_eq) blast
    have "?k \<le> k'" if "P k'" "mem_get b k' t \<noteq> None" for k'
    proof -
      have "k' \<in> insert k (set ks)" using that mem [OF that(2)] s by auto
      then show ?thesis unfolding fold_min_list by (intro Min_le) simp_all
    qed
    then show ?thesis using Cons k by (auto simp: mem_least_def least_entry_def Let_def)
  qed
qed

lemma mem_bolt_reads: "bolt_reads mem_bolt"
  unfolding bolt_reads_def mem_map
  by (auto simp: mem_bolt_def mem_least_entry) (auto simp: mem_get_def split: option.splits if_splits)

lemma mem_bolt_writes: "bolt_writes mem_bolt"
  unfolding bolt_writes_def mem_map
  by (auto simp: mem_bolt_def mem_get_def mem_put_def mem_delete_def fun_eq_iff update_conv' delete_conv' split: option.splits if_splits)

lemma mem_bolt_history: "bolt_history mem_bolt mem_hist"
proof -
  have mono: "mem_hist d \<subseteq>\<^sub>m mem_hist (t # d)" for t d
    by (auto simp: map_le_def mem_hist_def nth_append nth_Cons split: if_splits nat.splits)
  have "mem_hist d (int (length d)) = Some (\<lambda>b k. mem_get b k (case d of [] \<Rightarrow> [] | t # _ \<Rightarrow> t))" for d
    by (cases d) (simp_all add: mem_hist_def nth_append nat_add_distrib)
  then show ?thesis unfolding bolt_history_def mem_map [abs_def] by (auto simp: mem_bolt_def mono)
qed

section \<open>Scans end\<close>

definition short_keys :: "byte list set" where
  "short_keys = {k. length k \<le> 32768}"

lemma finite_short_keys: "finite short_keys"
proof -
  have "short_keys = {k. set k \<subseteq> UNIV \<and> length k \<le> 32768}" by (simp add: short_keys_def)
  then show ?thesis using finite_lists_length_le [of "UNIV :: byte set" 32768] by simp
qed

definition from_seek :: "byte list option \<Rightarrow> bool \<Rightarrow> byte list \<Rightarrow> bool" where
  "from_seek seek inclusive k = (case seek of None \<Rightarrow> True | Some s \<Rightarrow> if inclusive then s \<le> k else s < k)"

lemma cursor_entry_least:
  assumes "bolt_reads B" "bt_Bucket B b t"
  shows "least_entry (bt_map B t b) (from_seek seek inclusive) (cursor_entry B b seek inclusive t)"
proof (cases seek)
  case None
  moreover have "from_seek None inclusive = (\<lambda>_. True)" by (simp add: from_seek_def fun_eq_iff)
  ultimately show ?thesis using assms by (simp add: bolt_reads_def cursor_entry_def)
next
  case (Some s)
  have sk: "least_entry (bt_map B t b) (\<lambda>k. s \<le> k) (bt_Seek B b s t)"
    and nx: "bt_Get B b s t \<noteq> None \<Longrightarrow> least_entry (bt_map B t b) (\<lambda>k. s < k) (bt_SeekNext B b s t)"
    using assms by (simp_all add: bolt_reads_def)
  show ?thesis
  proof (cases "bt_Seek B b s t")
    case None
    then show ?thesis using sk Some by (auto simp: least_entry_def cursor_entry_def from_seek_def split: if_splits)
  next
    case (Some kv)
    obtain k v where kv: "kv = (k, v)" by (rule prod.exhaust)
    have e: "s \<le> k" "bt_map B t b k = Some v" "\<And>k'. s \<le> k' \<Longrightarrow> bt_map B t b k' \<noteq> None \<Longrightarrow> k \<le> k'"
      using sk Some kv by (auto simp: least_entry_def)
    have g: "bt_Get B b k t = Some v" using e(2) assms(2) by (simp add: bt_map_def)
    show ?thesis
    proof (cases "\<not> inclusive \<and> k = s")
      case True
      then have "cursor_entry B b seek inclusive t = bt_SeekNext B b s t" using Some kv \<open>seek = Some s\<close> by (simp add: cursor_entry_def)
      moreover have "from_seek seek inclusive = (\<lambda>k. s < k)" using True \<open>seek = Some s\<close> by (simp add: from_seek_def fun_eq_iff)
      ultimately show ?thesis using nx g True by simp
    next
      case False
      then have "cursor_entry B b seek inclusive t = Some (k, v)" using Some kv \<open>seek = Some s\<close> by (auto simp: cursor_entry_def)
      moreover have "from_seek seek inclusive k" using False e(1) \<open>seek = Some s\<close> by (auto simp: from_seek_def)
      moreover have "s \<le> k'" if "from_seek seek inclusive k'" for k' using that \<open>seek = Some s\<close> by (auto simp: from_seek_def split: if_splits)
      ultimately show ?thesis using e(2,3) by (auto simp: least_entry_def)
    qed
  qed
qed

lemma scan_entry_total: "\<exists>r s'. scanEntry B b seek fin inclusive n s = Some (r, s')"
  by (auto simp: scanEntry_def pbind_def tx_check_def pret_def pfail_def split: option.splits sum.splits)

lemma scan_entry_key:
  assumes "bolt_reads B" "scanEntry B b seek fin inclusive n s = Some (Inr (Some (key, v)), s')"
  shows "from_seek seek inclusive key" "key \<in> short_keys"
proof -
  obtain t where t: "tx_tx (ps_tx s) = Some t" "bt_Bucket B b t" "cursor_entry B b seek inclusive t = Some (key, v)"
    using assms(2) by (auto simp: scanEntry_def pbind_def tx_check_def pret_def pfail_def split: option.splits sum.splits if_splits)
  have l: "from_seek seek inclusive key" "bt_map B t b key = Some v"
    using cursor_entry_least [OF assms(1) t(2), of seek inclusive] t(3) by (simp_all add: least_entry_def)
  show "from_seek seek inclusive key" by (rule l(1))
  have "bt_Get B b key t \<noteq> None" using l(2) t(2) by (simp add: bt_map_def)
  then show "key \<in> short_keys" using assms(1) t(2) by (auto simp: bolt_reads_def short_keys_def)
qed

definition keys_after :: "byte list option \<Rightarrow> bool \<Rightarrow> byte list set" where
  "keys_after seek inclusive = {k \<in> short_keys. from_seek seek inclusive k}"

lemma keys_after_less:
  assumes "from_seek seek inclusive key" "key \<in> short_keys"
  shows "card (keys_after (Some key) False) < card (keys_after seek inclusive)"
proof (rule psubset_card_mono)
  show "finite (keys_after seek inclusive)" using finite_short_keys by (simp add: keys_after_def)
  have "key \<in> keys_after seek inclusive" "key \<notin> keys_after (Some key) False" using assms by (auto simp: keys_after_def from_seek_def)
  moreover have "keys_after (Some key) False \<subseteq> keys_after seek inclusive"
    using assms(1) by (auto simp: keys_after_def from_seek_def split: option.splits if_splits)
  ultimately show "keys_after (Some key) False \<subset> keys_after seek inclusive" by blast
qed

lemma scan_loop_total:
  assumes "bolt_reads B" "\<And>k v c s. visit k v c s \<noteq> None"
  shows "scan_loop B ctx b fin n visit seek inclusive c s \<noteq> None"
proof (induction "card (keys_after seek inclusive)" arbitrary: seek inclusive c s rule: less_induct)
  case less
  obtain er s1 where p: "poll_ctx ctx s = (er, s1)" by (rule prod.exhaust)
  obtain r s2 where e: "scanEntry B b seek fin inclusive n s1 = Some (r, s2)" using scan_entry_total [of B b seek fin inclusive n s1] by blast
  show ?case
  proof (cases "er = None \<and> (\<exists>key v. r = Inr (Some (key, v)) \<and> \<not> beyond fin key)")
    case True
    then obtain key v where r: "er = None" "r = Inr (Some (key, v))" "\<not> beyond fin key" by blast
    have k: "from_seek seek inclusive key" "key \<in> short_keys" using scan_entry_key [OF assms(1)] e r(2) by blast+
    obtain er' c1 s3 where v: "visit key v c s2 = Some ((er', c1), s3)" using assms(2) [of key v c s2] by auto
    show ?thesis using less [OF keys_after_less [OF k], of c1 s3] p e r v by (subst scan_loop.simps) (auto split: option.split)
  next
    case False
    then show ?thesis using p e by (subst scan_loop.simps) (auto split: option.split sum.split prod.split)
  qed
qed
section \<open>What a scan visits\<close>

definition rows :: "(byte list \<Rightarrow> byte list option) \<Rightarrow> (byte list \<Rightarrow> bool) \<Rightarrow> (byte list \<times> byte list) list" where
  "rows m P = map (\<lambda>k. (k, the (m k))) (sorted_list_of_set {k. P k \<and> m k \<noteq> None})"

fun visit_rows :: "(byte list \<Rightarrow> byte list \<Rightarrow> 'c \<Rightarrow> gerr option \<times> 'c) \<Rightarrow> (byte list \<times> byte list) list \<Rightarrow> 'c \<Rightarrow> gerr option \<times> 'c" where
  "visit_rows f [] c = (None, c)"
| "visit_rows f ((k, v) # l) c = (case f k v c of
     (Some er, c1) \<Rightarrow> (if er = ErrEOF then None else Some (ErrWrap ''pagestore: scan bucket'' er), c1)
   | (None, c1) \<Rightarrow> visit_rows f l c1)"

lemma rows_none: "(\<And>k. P k \<Longrightarrow> m k = None) \<Longrightarrow> rows m P = []"
proof -
  assume "\<And>k. P k \<Longrightarrow> m k = None"
  then have "{k. P k \<and> m k \<noteq> None} = {}" by auto
  then show ?thesis unfolding rows_def by (simp only: sorted_list_of_set_empty list.map)
qed

lemma rows_cons:
  assumes "least_entry m P (Some (k, v))" "finite (dom m)"
  shows "rows m P = (k, v) # rows m (\<lambda>k'. P k' \<and> k < k')"
proof -
  let ?A = "{k. P k \<and> m k \<noteq> None}"
  have k: "P k" "m k = Some v" "\<And>k'. P k' \<Longrightarrow> m k' \<noteq> None \<Longrightarrow> k \<le> k'" using assms(1) by (auto simp: least_entry_def)
  have fin: "finite ?A" by (rule finite_subset [OF _ assms(2)]) (auto simp: dom_def)
  have "Min ?A = k" using k fin by (intro Min_eqI) auto
  moreover have "?A \<noteq> {}" using k by blast
  ultimately have "sorted_list_of_set ?A = k # sorted_list_of_set (?A - {k})" using sorted_list_of_set_nonempty [OF fin] by simp
  moreover have "?A - {k} = {k'. (P k' \<and> k < k') \<and> m k' \<noteq> None}" using k(3) by (auto simp: order.strict_iff_order)
  ultimately show ?thesis using k(2) by (simp add: rows_def)
qed

lemma finite_rows:
  assumes "bolt_reads B"
  shows "finite (dom (bt_map B t b))"
proof (rule finite_subset [OF _ finite_short_keys])
  show "dom (bt_map B t b) \<subseteq> short_keys" using assms by (auto simp: bolt_reads_def bt_map_def short_keys_def split: if_splits)
qed

definition open_tx :: "'t Tx \<Rightarrow> 't \<Rightarrow> bool" where
  "open_tx tx t \<longleftrightarrow> \<not> tx_closed tx \<and> tx_tx tx = Some t"

lemma tx_check_open: "open_tx (ps_tx s) t \<Longrightarrow> tx_check s = Some (Inr t, s)"
  by (simp add: tx_check_def open_tx_def)

text \<open>The range of a scan.\<close>

definition scan_range :: "byte list option \<Rightarrow> bool \<Rightarrow> byte list option \<Rightarrow> byte list \<Rightarrow> bool" where
  "scan_range seek inclusive fin k \<longleftrightarrow> from_seek seek inclusive k \<and> \<not> beyond fin k"

lemma scan_entry_rows:
  assumes "bolt_reads B" "open_tx (ps_tx s) t"
  shows "\<exists>r. scanEntry B b seek fin inclusive (- 1) s = Some (Inr r, s) \<and> least_entry (bt_map B t b) (scan_range seek inclusive fin) r"
proof (cases "bt_Bucket B b t")
  case False
  then have "\<And>k. bt_map B t b k = None" by (simp add: bt_map_def)
  then show ?thesis using False assms(2) by (simp add: scanEntry_def pbind_def tx_check_open pret_def least_entry_def)
next
  case True
  note l = cursor_entry_least [OF assms(1) True, of seek inclusive]
  show ?thesis
  proof (cases "cursor_entry B b seek inclusive t")
    case None
    then show ?thesis using True assms(2) l by (simp add: scanEntry_def pbind_def tx_check_open pret_def least_entry_def scan_range_def)
  next
    case (Some kv)
    obtain k v where kv: "kv = (k, v)" by (rule prod.exhaust)
    have e: "from_seek seek inclusive k" "bt_map B t b k = Some v" "\<And>k'. from_seek seek inclusive k' \<Longrightarrow> bt_map B t b k' \<noteq> None \<Longrightarrow> k \<le> k'"
      using l Some kv by (auto simp: least_entry_def)
    show ?thesis
    proof (cases "beyond fin k")
      case True
      have "bt_map B t b k' = None" if "scan_range seek inclusive fin k'" for k'
        using e(3) [of k'] that True by (fastforce simp: scan_range_def beyond_def split: option.splits)
      then show ?thesis using True \<open>bt_Bucket B b t\<close> Some kv assms(2)
        by (simp add: scanEntry_def pbind_def tx_check_open pret_def least_entry_def)
    next
      case False
      have "\<not> (- 1 :: u64) < x" for x using word_n1_ge [of x] by (simp add: not_less)
      then have "scanEntry B b seek fin inclusive (- 1) s = Some (Inr (Some (k, v)), s)"
        using False \<open>bt_Bucket B b t\<close> Some kv assms(2) by (simp add: scanEntry_def pbind_def tx_check_open pret_def)
      moreover have "least_entry (bt_map B t b) (scan_range seek inclusive fin) (Some (k, v))"
        using e False by (auto simp: least_entry_def scan_range_def)
      ultimately show ?thesis by blast
    qed
  qed
qed

lemma scan_loop_rows:
  assumes B: "bolt_reads B" and op: "open_tx tx t" and s: "ps_tx s = tx" and ctx: "\<And>n. ctx n = None"
    and visit: "\<And>k v c s. ps_tx s = tx \<Longrightarrow> bt_map B t b k = Some v \<Longrightarrow> \<exists>s1. visit k v c s = Some (f k v c, s1) \<and> ps_tx s1 = tx"
  shows "\<exists>s'. scan_loop B ctx b fin (- 1) visit seek inclusive c s =
      Some (visit_rows f (rows (bt_map B t b) (scan_range seek inclusive fin)) c, s') \<and> ps_tx s' = tx"
  using s
proof (induction "card (keys_after seek inclusive)" arbitrary: seek inclusive c s rule: less_induct)
  case less
  obtain s1 where p: "poll_ctx ctx s = (None, s1)" "ps_tx s1 = tx" using ctx less.prems by (simp add: poll_ctx_def)
  obtain r where e: "scanEntry B b seek fin inclusive (- 1) s1 = Some (Inr r, s1)"
    "least_entry (bt_map B t b) (scan_range seek inclusive fin) r"
    using scan_entry_rows [OF B, of s1 t] p(2) op by blast
  show ?case
  proof (cases r)
    case None
    then have "rows (bt_map B t b) (scan_range seek inclusive fin) = []" using e(2) by (intro rows_none) (simp add: least_entry_def)
    then show ?thesis using p e(1) None by (subst scan_loop.simps) simp
  next
    case (Some kv)
    obtain k v where kv: "r = Some (k, v)" using Some by (cases kv) simp
    have k: "from_seek seek inclusive k" "\<not> beyond fin k" and row: "bt_map B t b k = Some v" using e(2) kv by (simp_all add: least_entry_def scan_range_def)
    have sk: "k \<in> short_keys" using scan_entry_key(2) [OF B] e(1) kv by blast
    have "scan_range (Some k) False fin = (\<lambda>k'. scan_range seek inclusive fin k' \<and> k < k')"
      using k(1) by (fastforce simp: fun_eq_iff scan_range_def from_seek_def split: option.splits if_splits)
    then have R: "rows (bt_map B t b) (scan_range seek inclusive fin) = (k, v) # rows (bt_map B t b) (scan_range (Some k) False fin)"
      using rows_cons [OF e(2) [unfolded kv] finite_rows [OF B]] by simp
    obtain s3 where v: "visit k v c s1 = Some (f k v c, s3)" "ps_tx s3 = tx" using visit [OF p(2) row] by blast
    obtain er c1 where f: "f k v c = (er, c1)" by (rule prod.exhaust)
    show ?thesis
    proof (cases er)
      case None
      obtain s' where "scan_loop B ctx b fin (- 1) visit (Some k) False c1 s3 =
          Some (visit_rows f (rows (bt_map B t b) (scan_range (Some k) False fin)) c1, s')" "ps_tx s' = tx"
        using less(1) [OF keys_after_less [OF k(1) sk] v(2)] by blast
      then show ?thesis using p e(1) kv k(2) v R f None by (subst scan_loop.simps) simp
    next
      case (Some er')
      then show ?thesis using p e(1) kv k(2) v R f by (subst scan_loop.simps) simp
    qed
  qed
qed

text \<open>
  C38. A scan of an open transaction visits exactly the rows of the bucket with keys from \<open>start\<close> up to but not including
  \<open>fin\<close>, in byte order, and stops at the first error of the visitor, which it returns unless it is \<^verbatim>\<open>io.EOF\<close>.
\<close>

theorem scan_visits_rows:
  assumes "bolt_reads B" "open_tx (ps_tx s) t" "\<And>n. ctx n = None"
    and "\<And>k v c s'. ps_tx s' = ps_tx s \<Longrightarrow> bt_map B t b k = Some v \<Longrightarrow> \<exists>s1. visit k v c s' = Some (f k v c, s1) \<and> ps_tx s1 = ps_tx s"
  shows "\<exists>s'. tx_Scan B ctx b start fin visit c s = Some (visit_rows f (rows (bt_map B t b) (scan_range start True fin)) c, s') \<and> ps_tx s' = ps_tx s"
  unfolding tx_Scan_def tx_ScanBounded_def by (rule scan_loop_rows [OF assms(1,2) refl assms(3,4)])

text \<open>Two rows, and a visitor that collects the keys.\<close>

definition ex_rows :: "int \<times> mem" where
  "ex_rows = (0, [(''n'', [([2], [3]), ([1], [2])])])"

definition ex_state :: "(int \<times> mem) pstate" where
  "ex_state = \<lparr>ps_tx = \<lparr>tx_pairBucket = None, tx_tx = Some ex_rows, tx_writable = True, tx_closed = False, tx_baseSize = 0, tx_writeBytes = 0, tx_writeOps = 0\<rparr>,
     ps_cache = new_cache 0, ps_polls = 0\<rparr>"

definition collect_key :: "byte list \<Rightarrow> byte list \<Rightarrow> byte list list \<Rightarrow> gerr option \<times> byte list list" where
  "collect_key k v c = (None, c @ [k])"

theorem scan_visits_rows_witness:
  "\<exists>s'. tx_Scan mem_bolt (\<lambda>_. None) ''n'' (Some [1]) None (\<lambda>k v c s. Some (collect_key k v c, s)) [] ex_state =
     Some (visit_rows collect_key (rows (bt_map mem_bolt ex_rows ''n'') (scan_range (Some [1]) True None)) [], s') \<and> ps_tx s' = ps_tx ex_state"
  by (rule scan_visits_rows [OF mem_bolt_reads]) (simp_all add: ex_state_def open_tx_def)

text \<open>
  C39. A scan always ends, also when its callback writes to the bucket being scanned, closes the transaction or answers
  differently every time: the cursor moves strictly forward among the keys bbolt accepts, of which there are finitely many.
\<close>

theorem scan_terminates:
  assumes "bolt_reads B" "\<And>k v c s. visit k v c s \<noteq> None"
  shows "\<exists>er c' s'. tx_ScanBounded B ctx b start fin n visit c s = Some ((er, c'), s')"
  using scan_loop_total [where visit = visit, OF assms, of ctx b fin n start True c s] by (auto simp: tx_ScanBounded_def)

theorem scan_terminates_witness:
  "\<exists>er c' s'. tx_ScanBounded mem_bolt (\<lambda>_. None) ''n'' None None 100
     (\<lambda>k v c s. case tx_Put mem_bolt ''n'' (k @ [0]) v s of None \<Rightarrow> None | Some (r, s1) \<Rightarrow> Some ((None, Suc c), s1)) 0 ex_state = Some ((er, c'), s')"
  by (rule scan_terminates [OF mem_bolt_reads])
    (auto simp: tx_Put_def pbind_def tx_check_def Let_def split: option.splits prod.splits if_splits)

section \<open>Commits beside read snapshots\<close>

lemma int64_small: "- (2 ^ 63) \<le> x \<Longrightarrow> x < 2 ^ 63 \<Longrightarrow> int64 x = x"
  by (simp add: int64_def signed_take_bit_int_eq_self)

lemma int64_wrapped: "2 ^ 63 \<le> x \<Longrightarrow> x < 2 ^ 64 + 2 ^ 63 \<Longrightarrow> int64 x = x - 2 ^ 64"
proof -
  assume a: "2 ^ 63 \<le> x" "x < 2 ^ 64 + 2 ^ 63"
  have "int64 x = (x + 2 ^ 63) mod 2 ^ 64 - 2 ^ 63" by (simp add: int64_def signed_take_bit_eq_take_bit_shift take_bit_eq_mod)
  also have "(x + 2 ^ 63) mod 2 ^ 64 = (x + 2 ^ 63) - 2 ^ 64" using a mod_pos_pos_trivial [of "x + 2 ^ 63 - 2 ^ 64" "2 ^ 64"] mod_add_self2 [of "x + 2 ^ 63 - 2 ^ 64" "2 ^ 64 :: int"] by (simp add: add.commute)
  finally show ?thesis by simp
qed

lemma mmap_size_loop_ge: "n \<le> mmap_size_loop c n"
proof (induction c n rule: mmap_size_loop.induct)
  case (1 c n)
  have "n \<le> ((n + 2 ^ 30 - 1) div 2 ^ 30) * 2 ^ 30"
    using div_mult_mod_eq [of "n + 2 ^ 30 - 1" "2 ^ 30"] pos_mod_bound [of "2 ^ 30 :: int" "n + 2 ^ 30 - 1"] by simp
  then show ?case using 1 by (subst mmap_size_loop.simps) auto
qed

text \<open>
  C40. A commit that succeeds beside open read snapshots stays within the limit on staged bytes and within the mapped file: twice the
  file, the staged bytes and the page allowances fit the mapping, although the test is made in 64-bit arithmetic that wraps.
  The mapping never shrinks.
\<close>

theorem commit_fits_mapping:
  assumes "tx_Commit B tx db = (None, tx', db')" "db_readers db > 0"
    and "0 \<le> tx_baseSize tx" "tx_baseSize tx \<le> maxInt64" "0 \<le> tx_writeBytes tx" "tx_writeBytes tx \<le> maxInt64"
    and "0 \<le> tx_writeOps tx" "tx_writeOps tx \<le> 2 ^ 40" "0 < bd_PageSize B (db_bolt db)" "bd_PageSize B (db_bolt db) \<le> 65536"
    and "0 \<le> db_mapSize db" "db_mapSize db \<le> maxInt64"
  shows "tx_writeBytes tx \<le> db_limit db \<and>
    2 * tx_baseSize tx + tx_writeBytes tx + (2 * tx_writeOps tx + 8) * bd_PageSize B (db_bolt db) \<le> db_mapSize db \<and>
    db_mapSize db \<le> db_mapSize db'"
proof -
  let ?ps = "bd_PageSize B (db_bolt db)" and ?g = "commit_growth (bd_PageSize B (db_bolt db)) tx"
  let ?x = "(2 * tx_writeOps tx + 8) * ?ps"
  have adm: "commit_admits ?ps tx db = None" using assms(1) by (auto simp: tx_Commit_def split: if_splits option.splits)
  then have a: "tx_writeBytes tx \<le> db_limit db" "tx_baseSize tx \<le> ?g" "tx_baseSize tx \<le> int64 (db_mapSize db - ?g)"
    using assms(2) by (auto simp: commit_admits_def Let_def split: if_splits)
  have x: "0 \<le> ?x" "?x \<le> (2 * 2 ^ 40 + 8) * 65536"
    using assms(7-10) mult_mono [of "2 * tx_writeOps tx + 8" "2 * 2 ^ 40 + 8" ?ps 65536] by simp_all
  let ?t = "tx_baseSize tx + tx_writeBytes tx + ?x"
  have t: "0 \<le> ?t" "?t < 2 ^ 64 + 2 ^ 63" using x assms(3-6) by (simp_all add: maxInt64_def)
  have g: "?g = ?t"
  proof (cases "?t < 2 ^ 63")
    case True
    then show ?thesis using t(1) int64_small [of ?t] by (simp add: commit_growth_def)
  next
    case False
    then have "?g = ?t - 2 ^ 64" using t(2) int64_wrapped [of ?t] by (simp add: commit_growth_def)
    then show ?thesis using a(2) x(2) assms(6) by (simp add: maxInt64_def)
  qed
  have "?g < 2 ^ 63"
  proof (rule ccontr)
    assume "\<not> ?g < 2 ^ 63"
    then have "?g = ?g - 2 ^ 64" using g t(2) int64_wrapped [of ?t] by (simp add: commit_growth_def)
    then show False by simp
  qed
  then have "int64 (db_mapSize db - ?g) = db_mapSize db - ?g" using g t(1) assms(11,12) by (intro int64_small) (simp_all add: maxInt64_def)
  moreover have "db_mapSize db \<le> db_mapSize db'"
  proof -
    obtain d where "finishLocked tx (after_commit B (db\<lparr>db_bolt := d\<rparr>)) = (tx', db')"
      using assms(1) by (auto simp: tx_Commit_def split: if_splits option.splits prod.splits)
    then have "db_mapSize db' = db_mapSize (after_commit B (db\<lparr>db_bolt := d\<rparr>))" by (auto simp: finishLocked_def split: if_splits)
    then show ?thesis by (simp add: after_commit_def Let_def split: sum.split prod.split)
  qed
  ultimately show ?thesis using a g by simp
qed

theorem commit_fits_mapping_witness:
  "let tx = \<lparr>tx_pairBucket = None, tx_tx = Some (0, []), tx_writable = True, tx_closed = False, tx_baseSize = 32768, tx_writeBytes = 100, tx_writeOps = 3\<rparr>;
       db = \<lparr>db_bolt = [], db_readOnly = False, db_limit = 1000, db_readers = 1, db_writers = 1, db_mapSize = 1048576, db_closed = False, db_cache = new_cache 0\<rparr>
   in 2 * tx_baseSize tx + tx_writeBytes tx + (2 * tx_writeOps tx + 8) * bd_PageSize mem_bolt (db_bolt db) \<le> db_mapSize db"
proof -
  let ?tx = "\<lparr>tx_pairBucket = None, tx_tx = Some (0, []), tx_writable = True, tx_closed = False, tx_baseSize = 32768, tx_writeBytes = 100, tx_writeOps = 3\<rparr> :: (int \<times> mem) Tx"
  let ?db = "\<lparr>db_bolt = [], db_readOnly = False, db_limit = 1000, db_readers = 1, db_writers = 1, db_mapSize = 1048576, db_closed = False, db_cache = new_cache 0\<rparr> :: mem list DB"
  have g: "commit_growth 4096 ?tx = 90212" by (simp add: commit_growth_def int64_small)
  have "commit_admits 4096 ?tx ?db = None" by (simp add: commit_admits_def g int64_small)
  moreover have "bd_PageSize mem_bolt d = 4096" "bd_Commit mem_bolt t d = (None, snd t # d)" for d t by (simp_all add: mem_bolt_def)
  ultimately have "tx_Commit mem_bolt ?tx ?db = (None, finishLocked ?tx (after_commit mem_bolt (?db\<lparr>db_bolt := [[]]\<rparr>)))" by (simp add: tx_Commit_def)
  moreover obtain tx' db' where "finishLocked ?tx (after_commit mem_bolt (?db\<lparr>db_bolt := [[]]\<rparr>)) = (tx', db')" by (rule prod.exhaust)
  ultimately have "tx_Commit mem_bolt ?tx ?db = (None, tx', db')" by simp
  from commit_fits_mapping [OF this] show ?thesis by (simp add: mem_bolt_def maxInt64_def)
qed

end
