(* ===== verification/PageStoreRuns.thy ===== *)
theory PageStoreRuns
  imports PageStoreLaws
begin

text \<open>
  A page store in use: any number of transaction handles over one database, their operations interleaved. The mutexes of
  \<^verbatim>\<open>DB\<close> and \<^verbatim>\<open>Tx\<close> make every operation one step, so a run is a sequence of steps of the relation \<open>store_step\<close>.
\<close>

record ('t, 'd) world =
  w_db :: "'d DB"
  w_txs :: "'t Tx list"

definition handle :: "('t, 'd) world \<Rightarrow> nat \<Rightarrow> 't pstate" where
  "handle w i = \<lparr>ps_tx = w_txs w ! i, ps_cache = db_cache (w_db w), ps_polls = 0\<rparr>"

definition with_handle :: "('t, 'd) world \<Rightarrow> nat \<Rightarrow> 't pstate \<Rightarrow> ('t, 'd) world" where
  "with_handle w i s = w\<lparr>w_db := (w_db w)\<lparr>db_cache := ps_cache s\<rparr>, w_txs := (w_txs w)[i := ps_tx s]\<rparr>"

inductive store_step :: "('t, 'd, 'z) bolt_scheme \<Rightarrow> ('t, 'd) world \<Rightarrow> ('t, 'd) world \<Rightarrow> bool" for B where
  begin_ok: "db_Begin B writable (w_db w) = (Inr tx, db) \<Longrightarrow> store_step B w (w\<lparr>w_db := db, w_txs := w_txs w @ [tx]\<rparr>)"
| begin_failed: "db_Begin B writable (w_db w) = (Inl er, db) \<Longrightarrow> store_step B w (w\<lparr>w_db := db\<rparr>)"
| get: "i < length (w_txs w) \<Longrightarrow> tx_Get B b k (handle w i) = Some (r, s) \<Longrightarrow> store_step B w (with_handle w i s)"
| get_bounded: "i < length (w_txs w) \<Longrightarrow> tx_GetBoundedWithCharge B b k n charge (handle w i) = Some (r, s) \<Longrightarrow> store_step B w (with_handle w i s)"
| put: "i < length (w_txs w) \<Longrightarrow> tx_Put B b k v (handle w i) = Some (r, s) \<Longrightarrow> store_step B w (with_handle w i s)"
| del: "i < length (w_txs w) \<Longrightarrow> tx_Delete B b k (handle w i) = Some (r, s) \<Longrightarrow> store_step B w (with_handle w i s)"
| commit: "i < length (w_txs w) \<Longrightarrow> tx_Commit B (w_txs w ! i) (w_db w) = (er, tx, db) \<Longrightarrow>
    store_step B w (w\<lparr>w_db := db, w_txs := (w_txs w)[i := tx]\<rparr>)"
| rollback: "i < length (w_txs w) \<Longrightarrow> tx_Rollback B (w_txs w ! i) (w_db w) = (er, tx, db) \<Longrightarrow>
    store_step B w (w\<lparr>w_db := db, w_txs := (w_txs w)[i := tx]\<rparr>)"
| sync: "db_Sync B (w_db w) = (er, db) \<Longrightarrow> store_step B w (w\<lparr>w_db := db\<rparr>)"
| close: "db_Close B (w_db w) = (er, db) \<Longrightarrow> store_step B w (w\<lparr>w_db := db\<rparr>)"

inductive store_run :: "('t, 'd, 'z) bolt_scheme \<Rightarrow> 'd DB \<Rightarrow> ('t, 'd) world \<Rightarrow> bool" for B db where
  opened: "store_run B db \<lparr>w_db = db, w_txs = []\<rparr>"
| more: "store_run B db w \<Longrightarrow> store_step B w w' \<Longrightarrow> store_run B db w'"

section \<open>The record cache holds committed rows\<close>

definition coherent :: "(int \<Rightarrow> (string \<Rightarrow> byte list \<Rightarrow> byte list option) option) \<Rightarrow> recordCache \<Rightarrow> bool" where
  "coherent h c \<longleftrightarrow> cache_ok c \<and> (\<forall>ck v. cache_view c ck = Some v \<longrightarrow>
     (\<exists>m. h (ck_generation ck) = Some m \<and> m (ck_bucket ck) (string_bytes (ck_key ck)) = Some v))"

lemma coherentD:
  "coherent h c \<Longrightarrow> cache_view c ck = Some v \<Longrightarrow> \<exists>m. h (ck_generation ck) = Some m \<and> m (ck_bucket ck) (string_bytes (ck_key ck)) = Some v"
  unfolding coherent_def by blast

lemma coherent_hit:
  assumes "coherent h c" "cache_view c (cache_key B b k t) = Some v" "h (bt_ID B t) = Some m"
  shows "m b k = Some v"
  using coherentD [OF assms(1,2)] assms(3) by (simp add: cache_key_def)

lemma coherent_get:
  assumes "coherent h c"
  shows "coherent h (snd (rc_get ck c))" "fst (rc_get ck c) = cache_view c ck" "rc_limit (snd (rc_get ck c)) = rc_limit c"
  using assms get_ok [of c ck] by (simp_all add: coherent_def)

lemma coherent_put:
  assumes "coherent h c" "\<And>v'. v = Some v' \<Longrightarrow> \<exists>m. h (ck_generation ck) = Some m \<and> m (ck_bucket ck) (string_bytes (ck_key ck)) = Some v'"
  shows "\<exists>c'. rc_put ck v c = Some c' \<and> coherent h c' \<and> rc_limit c' = rc_limit c"
proof -
  obtain c' where c': "rc_put ck v c = Some c'" "cache_ok c'" "rc_limit c' = rc_limit c"
    "\<And>k. cache_view c' k = cache_view c k \<or> cache_view c' k = None \<or> k = ck \<and> cache_view c' k = v"
    using put_ok [of c ck v] assms(1) by (auto simp: coherent_def)
  have "\<exists>m. h (ck_generation k) = Some m \<and> m (ck_bucket k) (string_bytes (ck_key k)) = Some v'" if "cache_view c' k = Some v'" for k v'
    using c'(4) [of k] that assms(2) [of v'] coherentD [OF assms(1), of k v'] by auto
  then show ?thesis using c' by (auto simp: coherent_def)
qed

lemma coherent_mono: "coherent h c \<Longrightarrow> h \<subseteq>\<^sub>m h' \<Longrightarrow> coherent h' c"
  unfolding coherent_def map_le_def by (metis domI)

definition reads_snapshot :: "('t, 'z) bolt_tx_scheme \<Rightarrow> (int \<Rightarrow> (string \<Rightarrow> byte list \<Rightarrow> byte list option) option) \<Rightarrow> 't Tx \<Rightarrow> bool" where
  "reads_snapshot B h tx \<longleftrightarrow> (\<forall>t. open_tx tx t \<longrightarrow> \<not> tx_writable tx \<longrightarrow> h (bt_ID B t) = Some (bt_map B t))"

lemma tx_Get_coherent:
  assumes "coherent h (ps_cache s)" "open_tx (ps_tx s) t" "reads_snapshot B h (ps_tx s)"
  shows "\<exists>c. tx_Get B b k s = Some (Inr (bt_map B t b k), s\<lparr>ps_cache := c\<rparr>) \<and> coherent h c"
proof (cases "uses_cache s")
  case False
  then have "tx_Get B b k s = Some (Inr (bt_map B t b k), s\<lparr>ps_cache := ps_cache s\<rparr>)"
    using assms(2) by (simp add: tx_Get_def pbind_def tx_check_open bt_map_def Let_def)
  then show ?thesis using assms(1) by blast
next
  case True
  let ?ck = "cache_key B b k t"
  have h: "h (bt_ID B t) = Some (bt_map B t)" using assms(2,3) True by (simp add: reads_snapshot_def uses_cache_def)
  obtain hit c where g: "rc_get ?ck (ps_cache s) = (hit, c)" by (rule prod.exhaust)
  have c: "coherent h c" "hit = cache_view (ps_cache s) ?ck" "rc_limit c = rc_limit (ps_cache s)"
    using coherent_get [OF assms(1), of ?ck] g by simp_all
  show ?thesis
  proof (cases hit)
    case (Some v)
    then have "bt_map B t b k = Some v" using coherent_hit [OF assms(1) _ h] c(2) by simp
    then show ?thesis using Some True g c(1) assms(2) by (auto simp: tx_Get_def pbind_def tx_check_open Let_def)
  next
    case None
    show ?thesis
    proof (cases "bt_Bucket B b t")
      case False
      then show ?thesis using None True g c(1) assms(2) by (auto simp: tx_Get_def pbind_def tx_check_open Let_def bt_map_def)
    next
      case b: True
      obtain c' where c': "rc_put ?ck (bt_Get B b k t) c = Some c'" "coherent h c'"
        using coherent_put [OF c(1), of "bt_Get B b k t" ?ck] h b by (auto simp: cache_key_def bt_map_def)
      moreover have "uses_cache (s\<lparr>ps_cache := c\<rparr>)" using True c(3) by (simp add: uses_cache_def)
      ultimately show ?thesis using None True g b assms(2)
        by (auto simp: tx_Get_def pbind_def tx_check_open Let_def bt_map_def cache_put_def)
    qed
  qed
qed

lemma tx_Get_closed: "(\<And>t. \<not> open_tx (ps_tx s) t) \<Longrightarrow> tx_Get B b k s = Some (Inl ErrClosed, s)"
  by (auto simp: tx_Get_def pbind_def tx_check_def open_tx_def split: option.split)

lemma tx_GetBounded_coherent:
  assumes "coherent h (ps_cache s)" "reads_snapshot B h (ps_tx s)"
  shows "\<exists>r c. tx_GetBoundedWithCharge B b k n charge s = Some (r, s\<lparr>ps_cache := c\<rparr>) \<and> coherent h c \<and>
    (\<forall>t v. open_tx (ps_tx s) t \<longrightarrow> r = Inr v \<longrightarrow> v = bt_map B t b k)"
proof (cases "\<exists>t. open_tx (ps_tx s) t")
  case False
  then have "tx_GetBoundedWithCharge B b k n charge s = Some (Inl ErrClosed, s\<lparr>ps_cache := ps_cache s\<rparr>)"
    by (auto simp: tx_GetBoundedWithCharge_def pbind_def tx_check_def open_tx_def split: option.split)
  then show ?thesis using assms(1) by blast
next
  case True
  then obtain t where t: "open_tx (ps_tx s) t" by blast
  then have u: "t' = t" if "open_tx (ps_tx s) t'" for t' using that by (simp add: open_tx_def)
  show ?thesis
  proof (cases "\<exists>v. bt_Bucket B b t \<and> bt_Get B b k t = Some v \<and> \<not> word_of_nat (length v) > n \<and> charge (word_of_nat (length v)) = None \<and> uses_cache s")
    case False
    then have "\<exists>r. tx_GetBoundedWithCharge B b k n charge s = Some (r, s\<lparr>ps_cache := ps_cache s\<rparr>) \<and> (\<forall>v. r = Inr v \<longrightarrow> v = bt_map B t b k)"
      using t by (auto simp: tx_GetBoundedWithCharge_def pbind_def tx_check_open bt_map_def split: option.split)
    then show ?thesis using assms(1) u by blast
  next
    case True
    then obtain v where v: "bt_Bucket B b t" "bt_Get B b k t = Some v" "\<not> word_of_nat (length v) > n" "charge (word_of_nat (length v)) = None" "uses_cache s"
      by blast
    let ?ck = "cache_key B b k t"
    have h: "h (bt_ID B t) = Some (bt_map B t)" and m: "bt_map B t b k = Some v"
      using assms(2) t v by (simp_all add: reads_snapshot_def uses_cache_def bt_map_def)
    obtain hit c where g: "rc_get ?ck (ps_cache s) = (hit, c)" by (rule prod.exhaust)
    have c: "coherent h c" "hit = cache_view (ps_cache s) ?ck" using coherent_get [OF assms(1), of ?ck] g by simp_all
    show ?thesis
    proof (cases hit)
      case (Some v')
      then have "v' = v" using coherent_hit [OF assms(1) _ h, of b k v'] c(2) m by simp
      then have "tx_GetBoundedWithCharge B b k n charge s = Some (Inr (bt_map B t b k), s\<lparr>ps_cache := c\<rparr>)"
        using Some v g t m by (simp add: tx_GetBoundedWithCharge_def pbind_def tx_check_open)
      then show ?thesis using c(1) by (intro exI conjI) (assumption, assumption, auto dest: u)
    next
      case None
      obtain c' where c': "rc_put ?ck (Some v) c = Some c'" "coherent h c'"
        using coherent_put [OF c(1), of "Some v" ?ck] h m by (auto simp: cache_key_def)
      then have "tx_GetBoundedWithCharge B b k n charge s = Some (Inr (bt_map B t b k), s\<lparr>ps_cache := c'\<rparr>)"
        using None v g t m by (simp add: tx_GetBoundedWithCharge_def pbind_def tx_check_open cache_put_def)
      then show ?thesis using c'(2) by (intro exI conjI) (assumption, assumption, auto dest: u)
    qed
  qed
qed

section \<open>The invariant of a run\<close>

abbreviation open_readers :: "'t Tx list \<Rightarrow> int" where
  "open_readers txs \<equiv> int (length (filter (\<lambda>tx. \<not> tx_closed tx \<and> \<not> tx_writable tx) txs))"

abbreviation open_writers :: "'t Tx list \<Rightarrow> int" where
  "open_writers txs \<equiv> int (length (filter (\<lambda>tx. \<not> tx_closed tx \<and> tx_writable tx) txs))"

definition counters_ok :: "('t, 'd) world \<Rightarrow> bool" where
  "counters_ok w \<longleftrightarrow> db_readers (w_db w) = open_readers (w_txs w) \<and> db_writers (w_db w) = open_writers (w_txs w) \<and>
     open_writers (w_txs w) \<le> 1 \<and> (db_closed (w_db w) \<longrightarrow> (\<forall>tx\<in>set (w_txs w). tx_closed tx)) \<and>
     (\<forall>tx\<in>set (w_txs w). tx_closed tx \<longleftrightarrow> tx_tx tx = None)"

definition snapshots_ok :: "('t, 'd, 'z) bolt_scheme \<Rightarrow> ('d \<Rightarrow> int \<Rightarrow> (string \<Rightarrow> byte list \<Rightarrow> byte list option) option) \<Rightarrow> ('t, 'd) world \<Rightarrow> bool" where
  "snapshots_ok B hist w \<longleftrightarrow> (\<forall>tx\<in>set (w_txs w). reads_snapshot B (hist (db_bolt (w_db w))) tx) \<and>
     coherent (hist (db_bolt (w_db w))) (db_cache (w_db w))"

lemma filter_update_length:
  "i < length xs \<Longrightarrow> int (length (filter P (xs[i := x]))) = int (length (filter P xs)) + of_bool (P x) - of_bool (P (xs ! i))"
proof (induction xs arbitrary: i)
  case (Cons y ys)
  then show ?case by (cases i) auto
qed simp

lemma ball_update: "(\<And>y. y \<in> set xs \<Longrightarrow> P y) \<Longrightarrow> P x \<Longrightarrow> \<forall>y\<in>set (xs[i := x]). P y"
  using set_update_subset_insert [of xs i x] by auto

text \<open>The operations on a handle keep it open or closed, and leave the transaction of a reader as it is.\<close>

definition same_handle :: "'t Tx \<Rightarrow> 't Tx \<Rightarrow> bool" where
  "same_handle tx tx' \<longleftrightarrow> tx_closed tx' = tx_closed tx \<and> tx_writable tx' = tx_writable tx \<and> (tx_tx tx' = None \<longleftrightarrow> tx_tx tx = None) \<and>
     (\<not> tx_writable tx \<longrightarrow> tx_tx tx' = tx_tx tx)"

lemma put_same_handle:
  assumes "tx_Put B b k v s = Some (r, s')"
  shows "same_handle (ps_tx s) (ps_tx s') \<and> ps_cache s' = ps_cache s"
  using assms by (auto simp: tx_Put_def pbind_def tx_check_def same_handle_def put_accounting_def Let_def split: if_splits option.splits prod.splits)

lemma delete_same_handle:
  assumes "tx_Delete B b k s = Some (r, s')"
  shows "same_handle (ps_tx s) (ps_tx s') \<and> ps_cache s' = ps_cache s"
  using assms by (auto simp: tx_Delete_def pbind_def tx_check_def same_handle_def Let_def split: if_splits option.splits prod.splits)

lemma update_counters:
  assumes "counters_ok w" "i < length (w_txs w)" "tx_closed tx \<longleftrightarrow> tx_tx tx = None" "db_closed (w_db w) \<longrightarrow> tx_closed tx"
    and "db_closed db = db_closed (w_db w)"
    and "db_readers db = db_readers (w_db w) + of_bool (\<not> tx_closed tx \<and> \<not> tx_writable tx) - of_bool (\<not> tx_closed (w_txs w ! i) \<and> \<not> tx_writable (w_txs w ! i))"
    and "db_writers db = db_writers (w_db w) + of_bool (\<not> tx_closed tx \<and> tx_writable tx) - of_bool (\<not> tx_closed (w_txs w ! i) \<and> tx_writable (w_txs w ! i))"
    and "(\<not> tx_closed tx \<and> tx_writable tx) \<longrightarrow> (\<not> tx_closed (w_txs w ! i) \<and> tx_writable (w_txs w ! i))"
  shows "counters_ok (w\<lparr>w_db := db, w_txs := (w_txs w)[i := tx]\<rparr>)"
proof -
  let ?l = "(w_txs w)[i := tx]"
  have c: "db_readers (w_db w) = open_readers (w_txs w)" "db_writers (w_db w) = open_writers (w_txs w)" "open_writers (w_txs w) \<le> 1"
    "db_closed (w_db w) \<longrightarrow> (\<forall>tx\<in>set (w_txs w). tx_closed tx)" "\<forall>tx\<in>set (w_txs w). tx_closed tx \<longleftrightarrow> tx_tx tx = None"
    using assms(1) by (simp_all add: counters_ok_def)
  have "db_readers db = open_readers ?l" "db_writers db = open_writers ?l"
    using assms(2,6,7) c(1,2) by (simp_all add: filter_update_length)
  moreover have "open_writers ?l \<le> 1" unfolding filter_update_length [OF assms(2)] using c(3) assms(8) by (auto simp: of_bool_def)
  moreover have "db_closed db \<longrightarrow> (\<forall>tx\<in>set ?l. tx_closed tx)" using c(4) assms(4,5) ball_update [of "w_txs w" tx_closed tx i] by blast
  moreover have "\<forall>tx\<in>set ?l. tx_closed tx \<longleftrightarrow> tx_tx tx = None"
    using ball_update [of "w_txs w" "\<lambda>tx. tx_closed tx \<longleftrightarrow> tx_tx tx = None" tx i] c(5) assms(3) by blast
  ultimately show ?thesis by (simp add: counters_ok_def)
qed

lemma handle_counters:
  assumes "counters_ok w" "i < length (w_txs w)" "same_handle (w_txs w ! i) (ps_tx s)"
  shows "counters_ok (with_handle w i s)"
  unfolding with_handle_def
proof (rule update_counters [OF assms(1,2)])
  have m: "w_txs w ! i \<in> set (w_txs w)" using assms(2) by simp
  have eq: "tx_closed (w_txs w ! i) \<longleftrightarrow> tx_tx (w_txs w ! i) = None" "db_closed (w_db w) \<longrightarrow> tx_closed (w_txs w ! i)"
    using assms(1) m by (simp_all add: counters_ok_def)
  show "tx_closed (ps_tx s) \<longleftrightarrow> tx_tx (ps_tx s) = None" "db_closed (w_db w) \<longrightarrow> tx_closed (ps_tx s)"
    using eq assms(3) by (simp_all add: same_handle_def)
qed (use assms(3) in \<open>simp_all add: same_handle_def\<close>)

lemma handle_snapshots:
  assumes "snapshots_ok B hist w" "i < length (w_txs w)" "same_handle (w_txs w ! i) (ps_tx s)" "coherent (hist (db_bolt (w_db w))) (ps_cache s)"
  shows "snapshots_ok B hist (with_handle w i s)"
proof -
  have "w_txs w ! i \<in> set (w_txs w)" using assms(2) by simp
  then have r: "reads_snapshot B (hist (db_bolt (w_db w))) (w_txs w ! i)" using assms(1) by (simp add: snapshots_ok_def)
  have "reads_snapshot B (hist (db_bolt (w_db w))) (ps_tx s)"
    using r assms(3) by (auto simp: reads_snapshot_def same_handle_def open_tx_def)
  then show ?thesis using assms(1,4) ball_update [of "w_txs w" "reads_snapshot B (hist (db_bolt (w_db w)))" "ps_tx s" i]
    by (simp add: snapshots_ok_def with_handle_def)
qed

text \<open>Changes of the database under the handles.\<close>

lemma snapshots_later:
  assumes "snapshots_ok B hist w" "hist (db_bolt (w_db w)) \<subseteq>\<^sub>m hist (db_bolt db)" "db_cache db = db_cache (w_db w)"
  shows "snapshots_ok B hist (w\<lparr>w_db := db\<rparr>)"
proof -
  have "reads_snapshot B (hist (db_bolt db)) tx" if "reads_snapshot B (hist (db_bolt (w_db w))) tx" for tx
    using that assms(2) unfolding reads_snapshot_def map_le_def by (metis domI)
  then show ?thesis using assms coherent_mono by (auto simp: snapshots_ok_def)
qed

lemma finish_ok:
  assumes "counters_ok w" "snapshots_ok B hist w" "i < length (w_txs w)" "finishLocked (w_txs w ! i) (w_db w) = (tx, db)"
  shows "counters_ok (w\<lparr>w_db := db, w_txs := (w_txs w)[i := tx]\<rparr>)" "snapshots_ok B hist (w\<lparr>w_db := db, w_txs := (w_txs w)[i := tx]\<rparr>)"
proof -
  have m: "w_txs w ! i \<in> set (w_txs w)" using assms(3) by simp
  have eq: "tx_closed (w_txs w ! i) \<longleftrightarrow> tx_tx (w_txs w ! i) = None" "db_closed (w_db w) \<longrightarrow> tx_closed (w_txs w ! i)"
    using assms(1) m by (simp_all add: counters_ok_def)
  have f: "tx_closed tx" "tx_tx tx = None" "db_closed db = db_closed (w_db w)" "db_cache db = db_cache (w_db w)" "db_bolt db = db_bolt (w_db w)"
    using assms(4) eq by (auto simp: finishLocked_def split: if_splits)
  show "counters_ok (w\<lparr>w_db := db, w_txs := (w_txs w)[i := tx]\<rparr>)"
    by (rule update_counters [OF assms(1,3)]) (use assms(4) f in \<open>auto simp: finishLocked_def split: if_splits\<close>)
  have "reads_snapshot B h tx" for h using f by (simp add: reads_snapshot_def open_tx_def)
  then show "snapshots_ok B hist (w\<lparr>w_db := db, w_txs := (w_txs w)[i := tx]\<rparr>)"
    using assms(2) f ball_update [of "w_txs w" "reads_snapshot B (hist (db_bolt (w_db w)))" tx i] by (simp add: snapshots_ok_def)
qed

lemma after_commit_ok:
  assumes "bolt_history B hist"
  shows "hist (db_bolt db) \<subseteq>\<^sub>m hist (db_bolt (after_commit B db))" "db_cache (after_commit B db) = db_cache db"
    "db_readers (after_commit B db) = db_readers db" "db_writers (after_commit B db) = db_writers db" "db_closed (after_commit B db) = db_closed db"
proof -
  have b: "hist d \<subseteq>\<^sub>m hist (snd (bd_Begin B False d))" "hist d \<subseteq>\<^sub>m hist (snd (bd_Rollback B t d))" for t d
    using assms by (simp_all add: bolt_history_def)
  obtain r d where e: "bd_Begin B False (db_bolt db) = (r, d)" by (rule prod.exhaust)
  show "hist (db_bolt db) \<subseteq>\<^sub>m hist (db_bolt (after_commit B db))"
    using b(1) [of "db_bolt db"] b(2) [of d] e by (auto simp: after_commit_def Let_def split: sum.split intro: map_le_trans)
qed (auto simp: after_commit_def Let_def split: sum.split prod.split)

lemma counters_db:
  assumes "counters_ok w" "db_readers db = db_readers (w_db w)" "db_writers db = db_writers (w_db w)" "db_closed db = db_closed (w_db w)"
  shows "counters_ok (w\<lparr>w_db := db\<rparr>)"
  using assms by (simp add: counters_ok_def)

lemma begin_step:
  assumes "bolt_history B hist" "counters_ok w" "snapshots_ok B hist w" "db_Begin B writable (w_db w) = (Inr tx, db)"
  shows "counters_ok (w\<lparr>w_db := db, w_txs := w_txs w @ [tx]\<rparr>)" "snapshots_ok B hist (w\<lparr>w_db := db, w_txs := w_txs w @ [tx]\<rparr>)"
proof -
  obtain t d where b: "bd_Begin B writable (db_bolt (w_db w)) = (Inr t, d)" "\<not> db_closed (w_db w)" "writable \<longrightarrow> db_writers (w_db w) = 0"
    and tx: "tx_tx tx = Some t" "\<not> tx_closed tx" "tx_writable tx = writable"
    and db: "db_bolt db = d" "db_cache db = db_cache (w_db w)" "db_closed db = db_closed (w_db w)"
      "db_readers db = db_readers (w_db w) + of_bool (\<not> writable)" "db_writers db = db_writers (w_db w) + of_bool writable"
    using assms(4) by (auto simp: db_Begin_def split: if_splits prod.splits sum.splits)
  show "counters_ok (w\<lparr>w_db := db, w_txs := w_txs w @ [tx]\<rparr>)" using assms(2) b(2,3) tx db(3-5) by (auto simp: counters_ok_def)
  have h: "hist (db_bolt (w_db w)) \<subseteq>\<^sub>m hist (db_bolt db)"
    using assms(1) b(1) db(1) unfolding bolt_history_def by (metis snd_conv)
  have "reads_snapshot B (hist (db_bolt db)) tx"
    using assms(1) b(1) db(1) tx by (auto simp: bolt_history_def reads_snapshot_def open_tx_def)
  then show "snapshots_ok B hist (w\<lparr>w_db := db, w_txs := w_txs w @ [tx]\<rparr>)"
    using snapshots_later [OF assms(3) h db(2)] by (auto simp: snapshots_ok_def)
qed

lemma commit_step:
  assumes "bolt_history B hist" "counters_ok w" "snapshots_ok B hist w" "i < length (w_txs w)" "tx_Commit B (w_txs w ! i) (w_db w) = (er, tx, db)"
  shows "counters_ok (w\<lparr>w_db := db, w_txs := (w_txs w)[i := tx]\<rparr>)" "snapshots_ok B hist (w\<lparr>w_db := db, w_txs := (w_txs w)[i := tx]\<rparr>)"
proof -
  have same: "w\<lparr>w_db := w_db w, w_txs := (w_txs w)[i := w_txs w ! i]\<rparr> = w" by simp
  have "tx = w_txs w ! i \<and> db = w_db w \<or> (\<exists>db1. finishLocked (w_txs w ! i) db1 = (tx, db) \<and> hist (db_bolt (w_db w)) \<subseteq>\<^sub>m hist (db_bolt db1) \<and>
      db_cache db1 = db_cache (w_db w) \<and> db_readers db1 = db_readers (w_db w) \<and> db_writers db1 = db_writers (w_db w) \<and> db_closed db1 = db_closed (w_db w))"
  proof (cases "tx = w_txs w ! i \<and> db = w_db w")
    case False
    then obtain t er' d where c: "bd_Commit B t (db_bolt (w_db w)) = (er', d)"
      "finishLocked (w_txs w ! i) ((if er' = None then after_commit B else id) ((w_db w)\<lparr>db_bolt := d\<rparr>)) = (tx, db)"
      using assms(5) by (auto simp: tx_Commit_def split: if_splits option.splits prod.splits)
    have d: "hist (db_bolt (w_db w)) \<subseteq>\<^sub>m hist d" using assms(1) c(1) unfolding bolt_history_def by (metis snd_conv)
    note ac = after_commit_ok [OF assms(1), of "(w_db w)\<lparr>db_bolt := d\<rparr>"]
    show ?thesis
    proof (cases "er' = None")
      case True
      then show ?thesis using c(2) d ac by (intro disjI2 exI [of _ "after_commit B ((w_db w)\<lparr>db_bolt := d\<rparr>)"]) (auto intro: map_le_trans)
    next
      case False
      then show ?thesis using c(2) d by (intro disjI2 exI [of _ "(w_db w)\<lparr>db_bolt := d\<rparr>"]) auto
    qed
  qed blast
  then have "counters_ok (w\<lparr>w_db := db, w_txs := (w_txs w)[i := tx]\<rparr>) \<and> snapshots_ok B hist (w\<lparr>w_db := db, w_txs := (w_txs w)[i := tx]\<rparr>)"
  proof (elim disjE exE conjE)
    fix db1 assume f: "finishLocked (w_txs w ! i) db1 = (tx, db)" "hist (db_bolt (w_db w)) \<subseteq>\<^sub>m hist (db_bolt db1)" "db_cache db1 = db_cache (w_db w)"
      "db_readers db1 = db_readers (w_db w)" "db_writers db1 = db_writers (w_db w)" "db_closed db1 = db_closed (w_db w)"
    note w1 = counters_db [OF assms(2) f(4-6)] snapshots_later [OF assms(3) f(2,3)]
    show ?thesis using finish_ok [OF w1, of i tx db] f(1) assms(4) by simp
  qed (use assms(2,3) same in simp)
  then show "counters_ok (w\<lparr>w_db := db, w_txs := (w_txs w)[i := tx]\<rparr>)" "snapshots_ok B hist (w\<lparr>w_db := db, w_txs := (w_txs w)[i := tx]\<rparr>)" by blast+
qed

lemma rollback_step:
  assumes "bolt_history B hist" "counters_ok w" "snapshots_ok B hist w" "i < length (w_txs w)" "tx_Rollback B (w_txs w ! i) (w_db w) = (er, tx, db)"
  shows "counters_ok (w\<lparr>w_db := db, w_txs := (w_txs w)[i := tx]\<rparr>) \<and> snapshots_ok B hist (w\<lparr>w_db := db, w_txs := (w_txs w)[i := tx]\<rparr>)"
proof (cases "tx = w_txs w ! i \<and> db = w_db w")
  case True
  then show ?thesis using assms(2,3) by simp
next
  case False
  then obtain t er' d where c: "bd_Rollback B t (db_bolt (w_db w)) = (er', d)" "finishLocked (w_txs w ! i) ((w_db w)\<lparr>db_bolt := d\<rparr>) = (tx, db)"
    using assms(5) by (auto simp: tx_Rollback_def split: if_splits option.splits prod.splits)
  have d: "hist (db_bolt (w_db w)) \<subseteq>\<^sub>m hist d" using assms(1) c(1) unfolding bolt_history_def by (metis snd_conv)
  have w1: "counters_ok (w\<lparr>w_db := (w_db w)\<lparr>db_bolt := d\<rparr>\<rparr>)" "snapshots_ok B hist (w\<lparr>w_db := (w_db w)\<lparr>db_bolt := d\<rparr>\<rparr>)"
    using counters_db [OF assms(2)] snapshots_later [OF assms(3)] d by simp_all
  show ?thesis using finish_ok [OF w1, of i tx db] c(2) assms(4) by simp
qed

lemma get_step:
  assumes "snapshots_ok B hist w" "i < length (w_txs w)" "tx_Get B b k (handle w i) = Some (r, s) \<or> tx_GetBoundedWithCharge B b k n charge (handle w i) = Some (r, s)"
  shows "same_handle (w_txs w ! i) (ps_tx s) \<and> coherent (hist (db_bolt (w_db w))) (ps_cache s)"
proof -
  let ?h = "hist (db_bolt (w_db w))"
  have m: "w_txs w ! i \<in> set (w_txs w)" using assms(2) by simp
  have h: "coherent ?h (ps_cache (handle w i))" "reads_snapshot B ?h (ps_tx (handle w i))"
    using assms(1) m by (simp_all add: snapshots_ok_def handle_def)
  have "\<exists>c. s = (handle w i)\<lparr>ps_cache := c\<rparr> \<and> coherent ?h c"
    using assms(3)
  proof
    assume g: "tx_Get B b k (handle w i) = Some (r, s)"
    show ?thesis
    proof (cases "\<exists>t. open_tx (ps_tx (handle w i)) t")
      case True
      then show ?thesis using tx_Get_coherent [OF h(1) _ h(2), of _ b k] g by auto
    next
      case False
      then have "s = (handle w i)\<lparr>ps_cache := ps_cache (handle w i)\<rparr>" using tx_Get_closed [of "handle w i" B b k] g by simp
      then show ?thesis using h(1) by blast
    qed
  next
    assume "tx_GetBoundedWithCharge B b k n charge (handle w i) = Some (r, s)"
    then show ?thesis using tx_GetBounded_coherent [OF h, of b k n charge] by auto
  qed
  then show ?thesis by (auto simp: same_handle_def handle_def)
qed

lemma handle_step:
  assumes "counters_ok w" "snapshots_ok B hist w" "i < length (w_txs w)" "same_handle (w_txs w ! i) (ps_tx s)" "coherent (hist (db_bolt (w_db w))) (ps_cache s)"
  shows "counters_ok (with_handle w i s) \<and> snapshots_ok B hist (with_handle w i s)"
  using handle_counters [OF assms(1,3,4)] handle_snapshots [OF assms(2-5)] by blast

lemma write_step:
  assumes "counters_ok w" "snapshots_ok B hist w" "i < length (w_txs w)" "same_handle (w_txs w ! i) (ps_tx s) \<and> ps_cache s = ps_cache (handle w i)"
  shows "counters_ok (with_handle w i s) \<and> snapshots_ok B hist (with_handle w i s)"
  using handle_step [OF assms(1-3), of s] assms(2,4) by (simp add: handle_def snapshots_ok_def)

lemma store_step_ok:
  assumes "bolt_history B hist" "store_step B w w'" "counters_ok w" "snapshots_ok B hist w"
  shows "counters_ok w' \<and> snapshots_ok B hist w'"
  using assms(2)
proof cases
  case (begin_ok writable tx db)
  then show ?thesis using begin_step [OF assms(1,3,4)] by simp
next
  case (begin_failed writable er db)
  have h: "hist d \<subseteq>\<^sub>m hist (snd (bd_Begin B w d))" for w d using assms(1) by (simp add: bolt_history_def)
  have "counters_ok (w\<lparr>w_db := db\<rparr>)"
    using begin_failed(2) by (intro counters_db [OF assms(3)]) (auto simp: db_Begin_def split: if_splits prod.splits sum.splits)
  moreover have "snapshots_ok B hist (w\<lparr>w_db := db\<rparr>)"
    using begin_failed(2) h [of "db_bolt (w_db w)" writable]
    by (intro snapshots_later [OF assms(4)]) (auto simp: db_Begin_def split: if_splits prod.splits sum.splits)
  ultimately show ?thesis using begin_failed(1) by simp
next
  case (get i b k r s)
  then show ?thesis using handle_step [OF assms(3,4) get(2)] get_step [OF assms(4) get(2)] by blast
next
  case (get_bounded i b k n charge r s)
  then show ?thesis using handle_step [OF assms(3,4) get_bounded(2)] get_step [OF assms(4) get_bounded(2)] by blast
next
  case (put i b k v r s)
  then show ?thesis using write_step [OF assms(3,4) put(2), of s] put_same_handle [OF put(3)] by (simp add: handle_def)
next
  case (del i b k r s)
  then show ?thesis using write_step [OF assms(3,4) del(2), of s] delete_same_handle [OF del(3)] by (simp add: handle_def)
next
  case (commit i er tx db)
  then show ?thesis using commit_step [OF assms(1,3,4) commit(2,3)] by simp
next
  case (rollback i er tx db)
  then show ?thesis using rollback_step [OF assms(1,3,4) rollback(2,3)] by simp
next
  case (sync er db)
  have h: "hist d \<subseteq>\<^sub>m hist (snd (bd_Sync B d))" for d using assms(1) by (simp add: bolt_history_def)
  have "counters_ok (w\<lparr>w_db := db\<rparr>)"
    using sync(2) by (intro counters_db [OF assms(3)]) (auto simp: db_Sync_def split: if_splits prod.splits)
  moreover have "snapshots_ok B hist (w\<lparr>w_db := db\<rparr>)"
    using sync(2) h [of "db_bolt (w_db w)"] by (intro snapshots_later [OF assms(4)]) (auto simp: db_Sync_def split: if_splits prod.splits)
  ultimately show ?thesis using sync(1) by simp
next
  case (close er db)
  have h: "hist d \<subseteq>\<^sub>m hist (snd (bd_Close B d))" for d using assms(1) by (simp add: bolt_history_def)
  obtain er' d where b: "bd_Close B (db_bolt (w_db w)) = (er', d)" by (rule prod.exhaust)
  consider "db = w_db w" | "\<not> db_closed (w_db w)" "db_readers (w_db w) = 0" "db_writers (w_db w) = 0"
      "db = (w_db w)\<lparr>db_bolt := d\<rparr> \<or> db = (w_db w)\<lparr>db_bolt := d, db_closed := True, db_cache := rc_clear (db_cache (w_db w))\<rparr>"
    using close(2) b by (auto simp: db_Close_def split: if_splits option.splits)
  then show ?thesis
  proof cases
    case 1
    then show ?thesis using close(1) assms(3,4) by simp
  next
    case 2
    have "tx_closed tx" if "tx \<in> set (w_txs w)" for tx
      using assms(3) 2(2,3) that by (auto simp: counters_ok_def filter_empty_conv)
    then have c: "counters_ok w'" using assms(3) 2(4) close(1) by (auto simp: counters_ok_def)
    have "snapshots_ok B hist (w\<lparr>w_db := (w_db w)\<lparr>db_bolt := d\<rparr>\<rparr>)"
      using snapshots_later [OF assms(4), of "(w_db w)\<lparr>db_bolt := d\<rparr>"] h [of "db_bolt (w_db w)"] b by simp
    moreover have "coherent h (rc_clear c)" for h c by (simp add: coherent_def clear_ok)
    ultimately have "snapshots_ok B hist w'" using 2(4) close(1) by (auto simp: snapshots_ok_def)
    then show ?thesis using c by blast
  qed
qed

lemma store_run_ok:
  assumes "bolt_history B hist" "Open path opts opened pageSize fileSize = Inr db" "store_run B db w"
  shows "counters_ok w \<and> snapshots_ok B hist w"
  using assms(3)
proof induction
  case opened
  have "db_readers db = 0" "db_writers db = 0" "\<not> db_closed db" "\<exists>n. db_cache db = new_cache n"
    using assms(2) by (auto simp: Open_def Let_def split: if_splits sum.splits)
  then show ?case by (auto simp: counters_ok_def snapshots_ok_def coherent_def new_cache_ok)
next
  case (more w w')
  then show ?case using store_step_ok [OF assms(1)] by blast
qed

section \<open>What a store promises\<close>










lemma run_steps: "(store_step B)\<^sup>*\<^sup>* w w' \<Longrightarrow> store_run B db w \<Longrightarrow> store_run B db w'"
  by (induction rule: rtranclp_induct) (auto intro: store_run.more)


text \<open>An example run: a reader begins, a writer stores a row and commits beside it, and the reader looks again.\<close>

definition ex_db :: "mem list DB" where
  "ex_db = projr (Open ''f'' \<lparr>op_ReadOnly = False, op_PageSize = 0, op_CacheBytes = 4096, op_MaxSnapshotWriteBytes = 0\<rparr> (Inr []) 4096 (Inr 0))"

definition ex_begin :: "bool \<Rightarrow> (int \<times> mem, mem list) world \<Rightarrow> (int \<times> mem, mem list) world" where
  "ex_begin writable w = (case db_Begin mem_bolt writable (w_db w) of (r, db) \<Rightarrow> w\<lparr>w_db := db, w_txs := w_txs w @ [projr r]\<rparr>)"

definition ex_reading :: "(int \<times> mem, mem list) world" where
  "ex_reading = ex_begin False \<lparr>w_db = ex_db, w_txs = []\<rparr>"

definition ex_written :: "(int \<times> mem, mem list) world" where
  "ex_written = (let w = ex_begin True ex_reading in with_handle w 1 (snd (the (tx_Put mem_bolt ''nodes'' [1] [2] (handle w 1)))))"

definition ex_committed :: "(int \<times> mem, mem list) world" where
  "ex_committed = (case tx_Commit mem_bolt (w_txs ex_written ! 1) (w_db ex_written) of (er, tx, db) \<Rightarrow>
     ex_written\<lparr>w_db := db, w_txs := (w_txs ex_written)[1 := tx]\<rparr>)"

lemma tx_Put_total: "\<exists>r s'. tx_Put B b k v s = Some (r, s')"
  by (simp add: tx_Put_def pbind_def tx_check_def Let_def split: option.split prod.split)

lemma ex_begin_step: "isl (fst (db_Begin mem_bolt writable (w_db w))) = False \<Longrightarrow> store_step mem_bolt w (ex_begin writable w)"
proof -
  assume a: "isl (fst (db_Begin mem_bolt writable (w_db w))) = False"
  obtain r db where r: "db_Begin mem_bolt writable (w_db w) = (r, db)" by (rule prod.exhaust)
  then obtain tx where "r = Inr tx" using a by (cases r) auto
  then show ?thesis using store_step.begin_ok [of mem_bolt writable w tx db] r by (simp add: ex_begin_def)
qed

lemma ex_run:
  "Open ''f'' \<lparr>op_ReadOnly = False, op_PageSize = 0, op_CacheBytes = 4096, op_MaxSnapshotWriteBytes = 0\<rparr> (Inr []) 4096 (Inr 0) = Inr ex_db"
  "store_run mem_bolt ex_db ex_reading" "(store_step mem_bolt)\<^sup>*\<^sup>* ex_reading ex_committed"
proof -
  show "Open ''f'' \<lparr>op_ReadOnly = False, op_PageSize = 0, op_CacheBytes = 4096, op_MaxSnapshotWriteBytes = 0\<rparr> (Inr []) 4096 (Inr 0) = Inr ex_db"
    by (simp add: ex_db_def Open_def options_ok_def)
  have b0: "store_step mem_bolt \<lparr>w_db = ex_db, w_txs = []\<rparr> ex_reading" unfolding ex_reading_def by (rule ex_begin_step) code_simp
  show "store_run mem_bolt ex_db ex_reading" by (rule store_run.more [OF store_run.opened b0])
  let ?w = "ex_begin True ex_reading"
  have b1: "store_step mem_bolt ex_reading ?w" by (rule ex_begin_step) code_simp
  obtain r s where p: "tx_Put mem_bolt ''nodes'' [1] [2] (handle ?w 1) = Some (r, s)"
    using tx_Put_total by blast
  have "1 < length (w_txs ?w)" by code_simp
  then have b2: "store_step mem_bolt ?w ex_written" using store_step.put [OF _ p] p by (simp add: ex_written_def Let_def)
  obtain er tx db where c: "tx_Commit mem_bolt (w_txs ex_written ! 1) (w_db ex_written) = (er, tx, db)" by (metis prod_cases3)
  have "1 < length (w_txs ex_written)" by code_simp
  then have "store_step mem_bolt ex_written ex_committed" using store_step.commit [OF _ c] unfolding ex_committed_def c by simp
  then show "(store_step mem_bolt)\<^sup>*\<^sup>* ex_reading ex_committed" using b1 b2 by (meson r_into_rtranclp rtranclp_trans)
qed



text \<open>
  C37. In every run of a store the counters of readers and writers count the open handles, at most one handle writes, and a closed store has no
  open handle. So \<^verbatim>\<open>Close\<close> reports active transactions exactly when there are some, and a second writer is refused
  exactly while the first is open.
\<close>

theorem store_counters_exact:
  assumes "bolt_history B hist" "Open path opts opened pageSize fileSize = Inr db" "store_run B db w"
  shows "counters_ok w \<and>
    (fst (db_Close B (w_db w)) = Some ErrActiveTransactions \<longleftrightarrow> (\<exists>tx\<in>set (w_txs w). \<not> tx_closed tx)) \<and>
    (fst (db_Begin B True (w_db w)) = Inl ErrWriterActive \<longleftrightarrow>
       \<not> db_readOnly (w_db w) \<and> (\<exists>tx\<in>set (w_txs w). \<not> tx_closed tx \<and> tx_writable tx))"
proof -
  have c: "counters_ok w" using store_run_ok [OF assms] by blast
  have zero: "int (length (filter P l)) = 0 \<longleftrightarrow> (\<forall>x\<in>set l. \<not> P x)" for P :: "'a Tx \<Rightarrow> bool" and l by (simp add: filter_empty_conv)
  have r: "db_readers (w_db w) = open_readers (w_txs w)" "db_writers (w_db w) = open_writers (w_txs w)" using c by (simp_all add: counters_ok_def)
  have n: "db_readers (w_db w) \<noteq> 0 \<or> db_writers (w_db w) \<noteq> 0 \<longleftrightarrow> (\<exists>tx\<in>set (w_txs w). \<not> tx_closed tx)"
    "db_writers (w_db w) \<noteq> 0 \<longleftrightarrow> (\<exists>tx\<in>set (w_txs w). \<not> tx_closed tx \<and> tx_writable tx)"
    unfolding r zero by blast+
  have cl: "db_closed (w_db w) \<Longrightarrow> \<not> (\<exists>tx\<in>set (w_txs w). \<not> tx_closed tx)" using c by (simp add: counters_ok_def)
  have "fst (db_Close B (w_db w)) = Some ErrActiveTransactions \<longleftrightarrow> (\<exists>tx\<in>set (w_txs w). \<not> tx_closed tx)"
    unfolding n(1) [symmetric] using cl n(1) by (auto simp: db_Close_def split: prod.split option.split)
  moreover have "fst (db_Begin B True (w_db w)) = Inl ErrWriterActive \<longleftrightarrow>
       \<not> db_readOnly (w_db w) \<and> (\<exists>tx\<in>set (w_txs w). \<not> tx_closed tx \<and> tx_writable tx)"
    unfolding n(2) [symmetric] using cl n(2) by (auto simp: db_Begin_def split: prod.split sum.split)
  ultimately show ?thesis using c by blast
qed

theorem store_counters_exact_witness:
  "fst (db_Close mem_bolt (w_db ex_committed)) = Some ErrActiveTransactions \<longleftrightarrow> (\<exists>tx\<in>set (w_txs ex_committed). \<not> tx_closed tx)"
  using store_counters_exact [OF mem_bolt_history ex_run(1) run_steps [OF ex_run(3,2)]] by blast

end
