(* ===== verification/PagePropertyIndex.thy ===== *)
theory PagePropertyIndex
  imports PropertyIndex PageKeys PageStoreLaws
begin

text \<open>
  Property indexes kept in the page store (\<^verbatim>\<open>internal/store/page_property_index.go\<close>): a bucket of definitions and one of postings, one
  row per definition, value key and entity. Row keys are SHA-256 digests, so a row repeats what it stands for, and the code
  compares it before trusting a key. Reads here are those without a page-read budget in the context; the order in which Go
  iterates over the definitions is the argument \<open>ord\<close>.
\<close>

section \<open>Rows\<close>

definition writePageString :: "string \<Rightarrow> byte list" where
  "writePageString v = be32 (word_of_nat (length v)) @ string_bytes v"

text \<open>\<^verbatim>\<open>io.ReadFull(input, make([]byte, n))\<close>\<close>

definition read_full :: "nat \<Rightarrow> byte list \<Rightarrow> gerr + byte list \<times> byte list" where
  "read_full n input =
     (if n \<le> length input then Inr (take n input, drop n input)
      else if input = [] then Inl ErrEOF else Inl ErrUnexpectedEOF)"

definition readPageString :: "byte list \<Rightarrow> gerr + string \<times> byte list" where
  "readPageString input = (case read_full 4 input of
     Inl er \<Rightarrow> Inl er
   | Inr (l, rest) \<Rightarrow>
       let n = unat (from_be32 l) in
       if n > length rest then Inl (ErrMsg ''invalid page property string'')
       else (case read_full n rest of Inl er \<Rightarrow> Inl er | Inr (v, rest') \<Rightarrow> Inr (bytes_string v, rest')))"

definition encodePagePropertyDefinition :: "PropertyIndexDefinition \<Rightarrow> byte list" where
  "encodePagePropertyDefinition d = writePageString (id_Scope d) @ writePageString (id_Property d)"

definition decodePagePropertyDefinition :: "byte list \<Rightarrow> gerr + PropertyIndexDefinition" where
  "decodePagePropertyDefinition input = (case readPageString input of
     Inl er \<Rightarrow> Inl er
   | Inr (scope, rest) \<Rightarrow>
       (case readPageString rest of
          Inl _ \<Rightarrow> Inl (ErrMsg ''invalid page property index definition'')
        | Inr (property, rest') \<Rightarrow>
            if rest' \<noteq> [] then Inl (ErrMsg ''invalid page property index definition'')
            else Inr \<lparr>id_Scope = scope, id_Property = property\<rparr>))"

definition encodePagePropertyKey :: "propertyValueKey \<Rightarrow> byte list" where
  "encodePagePropertyKey key = vk_kind key # be64 (vk_number key) @ vk_digest key @ writePageString (vk_text key)"

definition decodePagePropertyKey :: "byte list \<Rightarrow> gerr + propertyValueKey" where
  "decodePagePropertyKey input =
     (if length input < 1 + 8 + 32 then Inl (ErrMsg ''invalid page property value key'')
      else (case readPageString (drop 41 input) of
              Inl _ \<Rightarrow> Inl (ErrMsg ''invalid page property value key'')
            | Inr (s, rest) \<Rightarrow>
                if rest \<noteq> [] then Inl (ErrMsg ''invalid page property value key'')
                else Inr \<lparr>vk_kind = hd input, vk_number = from_be64 (take 8 (drop 1 input)), vk_text = s, vk_digest = take 32 (drop 9 input)\<rparr>))"

definition encodePagePropertyPosting :: "PropertyIndexDefinition \<Rightarrow> propertyValueKey \<Rightarrow> byte list" where
  "encodePagePropertyPosting d key =
     (let encodedKey = encodePagePropertyKey key
      in writePageString (id_Scope d) @ writePageString (id_Property d) @ be32 (word_of_nat (length encodedKey)) @ encodedKey)"

definition decodePagePropertyPosting :: "byte list \<Rightarrow> gerr + PropertyIndexDefinition \<times> propertyValueKey" where
  "decodePagePropertyPosting input = (case readPageString input of
     Inl er \<Rightarrow> Inl er
   | Inr (scope, r1) \<Rightarrow> (case readPageString r1 of
     Inl er \<Rightarrow> Inl er
   | Inr (property, r2) \<Rightarrow> (case read_full 4 r2 of
     Inl er \<Rightarrow> Inl er
   | Inr (l, r3) \<Rightarrow>
       let n = unat (from_be32 l) in
       if n > length r3 then Inl (ErrMsg ''invalid page property posting'')
       else (case read_full n r3 of
               Inl _ \<Rightarrow> Inl (ErrMsg ''invalid page property posting'')
             | Inr (encodedKey, r4) \<Rightarrow>
                 if r4 \<noteq> [] then Inl (ErrMsg ''invalid page property posting'')
                 else (case decodePagePropertyKey encodedKey of
                         Inl er \<Rightarrow> Inl er
                       | Inr key \<Rightarrow> Inr (\<lparr>id_Scope = scope, id_Property = property\<rparr>, key))))))"

definition pagePropertyDigest :: "byte list list \<Rightarrow> byte list" where
  "pagePropertyDigest parts = sha256_Sum256 (concat (map (\<lambda>part. length_bytes part @ part) parts))"

definition pagePropertyDefinitionHash :: "PropertyIndexDefinition \<Rightarrow> byte list" where
  "pagePropertyDefinitionHash d =
     pagePropertyDigest [string_bytes ''definition'', string_bytes (id_Scope d), string_bytes (id_Property d)]"

definition pagePropertyPostingPrefix :: "PropertyIndexDefinition \<Rightarrow> propertyValueKey \<Rightarrow> byte list" where
  "pagePropertyPostingPrefix d key =
     pagePropertyDefinitionHash d @ pagePropertyDigest [string_bytes ''value'', encodePagePropertyKey key]"

definition pagePropertyBuckets :: "bool \<Rightarrow> string \<times> string" where
  "pagePropertyBuckets node =
     (if node then (''node-property-indexes'', ''node-property-postings'') else (''edge-property-indexes'', ''edge-property-postings''))"

definition propertyIndexMatches :: "PropertyIndexDefinition \<Rightarrow> string list \<Rightarrow> Properties \<Rightarrow> bool" where
  "propertyIndexMatches d scopes properties \<longleftrightarrow> id_Scope d \<in> set scopes \<and> snd (p_Lookup properties (id_Property d))"

section \<open>Round trips\<close>

lemma be32_from_be32:
  assumes "length bs = 4"
  shows "be32 (from_be32 bs) = bs"
proof (rule nth_equalityI)
  fix i assume "i < length (be32 (from_be32 bs))"
  then have i: "i < 4" by simp
  show "be32 (from_be32 bs) ! i = bs ! i"
  proof (rule bit_word_eqI)
    fix n assume n: "n < LENGTH(8)"
    have "(8 * (3 - i) + n) div 8 = 3 - i" "(8 * (3 - i) + n) mod 8 = n" "8 * (3 - i) + n < 32" using n i by simp_all
    then show "bit (be32 (from_be32 bs) ! i) n \<longleftrightarrow> bit (bs ! i) n"
      using i n assms by (simp add: be32_def from_be32_def bit_simps bit_fold_be add.commute)
  qed
qed (simp add: assms)

lemma be64_from_be64:
  assumes "length bs = 8"
  shows "be64 (from_be64 bs) = bs"
proof (rule nth_equalityI)
  fix i assume "i < length (be64 (from_be64 bs))"
  then have i: "i < 8" by simp
  show "be64 (from_be64 bs) ! i = bs ! i"
  proof (rule bit_word_eqI)
    fix n assume n: "n < LENGTH(8)"
    have "(8 * (7 - i) + n) div 8 = 7 - i" "(8 * (7 - i) + n) mod 8 = n" "8 * (7 - i) + n < 64" using n i by simp_all
    then show "bit (be64 (from_be64 bs) ! i) n \<longleftrightarrow> bit (bs ! i) n"
      using i n assms by (simp add: be64_def from_be64_def bit_simps bit_fold_be add.commute)
  qed
qed (simp add: assms)

lemma read_string_write:
  assumes "length v < 2 ^ 32"
  shows "readPageString (writePageString v @ rest) = Inr (v, rest)"
proof -
  have "unat (word_of_nat (length v) :: u32) = length v" using assms by (intro unat_word_of_nat_less) simp
  then show ?thesis by (simp add: readPageString_def writePageString_def read_full_def)
qed

lemma read_string_inverse:
  assumes "readPageString input = Inr (v, rest)"
  shows "input = writePageString v @ rest" "length v < 2 ^ 32"
proof -
  let ?n = "unat (from_be32 (take 4 input))"
  have l: "4 \<le> length input" "?n \<le> length (drop 4 input)" and v: "v = bytes_string (take ?n (drop 4 input))" "rest = drop ?n (drop 4 input)"
    using assms by (auto simp: readPageString_def read_full_def Let_def split: if_splits sum.splits)
  have n: "length v = ?n" using l v by simp
  then show "length v < 2 ^ 32" using unsigned_less [of "from_be32 (take 4 input)", where 'a = nat] by simp
  have "be32 (from_be32 (take 4 input)) = take 4 input" using l by (intro be32_from_be32) simp
  then have w: "writePageString v = take 4 input @ take ?n (drop 4 input)" using n v by (simp add: writePageString_def)
  show "input = writePageString v @ rest" unfolding w v(2) by (simp only: append.assoc append_take_drop_id)
qed

lemma definition_roundtrip:
  assumes "length (id_Scope d) < 2 ^ 32" "length (id_Property d) < 2 ^ 32"
  shows "decodePagePropertyDefinition (encodePagePropertyDefinition d) = Inr d"
  using read_string_write [OF assms(1), of "writePageString (id_Property d)"] read_string_write [OF assms(2), of "[]"]
  by (simp add: decodePagePropertyDefinition_def encodePagePropertyDefinition_def)

lemma definition_inverse:
  assumes "decodePagePropertyDefinition input = Inr d"
  shows "input = encodePagePropertyDefinition d"
proof -
  obtain rest where r: "readPageString input = Inr (id_Scope d, rest)" "readPageString rest = Inr (id_Property d, [])"
    using assms by (auto simp: decodePagePropertyDefinition_def split: sum.splits if_splits)
  show ?thesis using read_string_inverse(1) [OF r(1)] read_string_inverse(1) [OF r(2)] by (simp add: encodePagePropertyDefinition_def)
qed

lemma value_key_roundtrip:
  assumes "length (vk_text key) < 2 ^ 32" "length (vk_digest key) = 32"
  shows "decodePagePropertyKey (encodePagePropertyKey key) = Inr key"
proof -
  have "drop 41 (encodePagePropertyKey key) = writePageString (vk_text key) @ []" using assms(2) by (simp add: encodePagePropertyKey_def)
  then show ?thesis using read_string_write [OF assms(1), of "[]"] assms(2)
    by (simp add: decodePagePropertyKey_def) (simp add: encodePagePropertyKey_def)
qed

lemma value_key_inverse:
  assumes "decodePagePropertyKey input = Inr key"
  shows "input = encodePagePropertyKey key"
proof -
  have l: "41 \<le> length input" and r: "readPageString (drop 41 input) = Inr (vk_text key, [])"
    and k: "vk_kind key = hd input" "vk_number key = from_be64 (take 8 (drop 1 input))" "vk_digest key = take 32 (drop 9 input)"
    using assms by (auto simp: decodePagePropertyKey_def split: if_splits sum.splits)
  have "be64 (vk_number key) = take 8 (drop 1 input)" unfolding k using l by (intro be64_from_be64) simp
  then have "encodePagePropertyKey key = hd input # take 8 (drop 1 input) @ take 32 (drop 9 input) @ drop 41 input"
    using read_string_inverse(1) [OF r] k by (simp add: encodePagePropertyKey_def)
  also have "\<dots> = input"
  proof -
    obtain x xs where x: "input = x # xs" using l by (cases input) auto
    have "drop 41 input = drop 32 (drop 8 xs)" "drop 9 input = drop 8 xs" using x by (simp_all add: drop_Cons')
    then show ?thesis using x by (simp only: list.sel drop_0 drop_Suc_Cons One_nat_def append_take_drop_id)
  qed
  finally show ?thesis ..
qed

lemma posting_decodes:
  assumes "length (id_Scope d) < 2 ^ 32" "length (id_Property d) < 2 ^ 32" "length (encodePagePropertyKey key) < 2 ^ 32" "length (vk_digest key) = 32"
  shows "decodePagePropertyPosting (encodePagePropertyPosting d key) = Inr (d, key)"
proof -
  have "length (vk_text key) \<le> length (encodePagePropertyKey key)" by (simp add: encodePagePropertyKey_def writePageString_def)
  then have k: "decodePagePropertyKey (encodePagePropertyKey key) = Inr key" using assms(3,4) by (intro value_key_roundtrip) simp_all
  have n: "unat (word_of_nat (length (encodePagePropertyKey key)) :: u32) = length (encodePagePropertyKey key)"
    using assms(3) by (intro unat_word_of_nat_less) simp
  show ?thesis
    using k n by (simp add: decodePagePropertyPosting_def encodePagePropertyPosting_def Let_def read_string_write [OF assms(1)] read_string_write [OF assms(2)] read_full_def)
qed

lemma posting_inverse:
  assumes "decodePagePropertyPosting input = Inr (d, key)"
  shows "input = encodePagePropertyPosting d key"
proof -
  obtain r1 r2 where r: "readPageString input = Inr (id_Scope d, r1)" "readPageString r1 = Inr (id_Property d, r2)"
    and l: "4 \<le> length r2" "unat (from_be32 (take 4 r2)) = length (drop 4 r2)" and k: "decodePagePropertyKey (drop 4 r2) = Inr key"
    using assms by (auto simp: decodePagePropertyPosting_def read_full_def Let_def split: sum.splits if_splits)
  have e: "drop 4 r2 = encodePagePropertyKey key" by (rule value_key_inverse [OF k])
  have "word_of_nat (length (drop 4 r2)) = from_be32 (take 4 r2)" unfolding l(2) [symmetric] by simp
  then have "be32 (word_of_nat (length (encodePagePropertyKey key))) = take 4 r2" using be32_from_be32 [of "take 4 r2"] l(1) e by simp
  moreover have "r2 = take 4 r2 @ encodePagePropertyKey key" unfolding e [symmetric] by simp
  ultimately have "r2 = be32 (word_of_nat (length (encodePagePropertyKey key))) @ encodePagePropertyKey key" by simp
  then show ?thesis
    using read_string_inverse(1) [OF r(1)] read_string_inverse(1) [OF r(2)] by (simp add: encodePagePropertyPosting_def Let_def)
qed

text \<open>
  A posting row in the page store stands for one definition and value key: reading back a written row gives what was
  written, and the bytes the decoder accepts are exactly the bytes the encoder writes, so two different rows never decode
  to the same posting.
\<close>

theorem page_posting_roundtrip:
  assumes "length (id_Scope d) < 2 ^ 32" "length (id_Property d) < 2 ^ 32" "length (encodePagePropertyKey key) < 2 ^ 32" "length (vk_digest key) = 32"
  shows "decodePagePropertyPosting input = Inr (d, key) \<longleftrightarrow> input = encodePagePropertyPosting d key"
proof
  assume "decodePagePropertyPosting input = Inr (d, key)"
  then show "input = encodePagePropertyPosting d key" by (rule posting_inverse)
next
  assume "input = encodePagePropertyPosting d key"
  then show "decodePagePropertyPosting input = Inr (d, key)" using posting_decodes [OF assms] by simp
qed

end
