(* ===== verification/Estimates.thy ===== *)
theory Estimates
  imports Values Polling
begin

text \<open>
  Size estimates of values (\<^verbatim>\<open>internal/store/recovery.go\<close>, \<^verbatim>\<open>stream_value.go\<close>) and copies under a context
  (\<^verbatim>\<open>store.go\<close>): sums that stay at the largest 64-bit number instead of wrapping around, and the same walks
  with a poll of the context at every value.
\<close>

definition snapshotAdd :: "u64 \<Rightarrow> u64 \<Rightarrow> u64" where
  "snapshotAdd left right = (if right > - 1 - left then - 1 else left + right)"

definition snapshotMul :: "u64 \<Rightarrow> u64 \<Rightarrow> u64" where
  "snapshotMul left right = (if left \<noteq> 0 \<and> right > (- 1) div left then - 1 else left * right)"

fun estimateValueBytes :: "gvalue \<Rightarrow> u64" where
  "estimateValueBytes (GString s) = snapshotAdd (snapshotMul (word_of_nat (length s)) 6) 64"
| "estimateValueBytes (GBytes bs) = snapshotAdd (snapshotMul (word_of_nat (length (opt_items bs))) 2) 64"
| "estimateValueBytes (GVector xs) = snapshotAdd (snapshotMul (word_of_nat (length (opt_items xs))) 32) 64"
| "estimateValueBytes (GList visit xs) = fold (\<lambda>item size. snapshotAdd size (snapshotAdd (estimateValueBytes item) 8)) (opt_items xs) 64"
| "estimateValueBytes (GMap visit m) =
     fold (\<lambda>(key, v) size. snapshotAdd size (snapshotAdd (snapshotAdd (snapshotMul (word_of_nat (length key)) 6) 64) (estimateValueBytes v))) (opt_items m) 64"
| "estimateValueBytes v = (case v of GNil \<Rightarrow> 64 | GBool _ \<Rightarrow> 64 | GInt64 _ \<Rightarrow> 64 | GFloat64 _ \<Rightarrow> 64 | _ \<Rightarrow> 256)"

section \<open>Under a context\<close>

fun polled_fold :: "('a \<Rightarrow> 'b polled) \<Rightarrow> ('a \<Rightarrow> 'b \<Rightarrow> 'c \<Rightarrow> 'c) \<Rightarrow> 'a list \<Rightarrow> 'c \<Rightarrow> 'c polled" where
  "polled_fold f g [] c = ret c"
| "polled_fold f g (x # xs) c = bindp (f x) (\<lambda>y. polled_fold f g xs (g x y c))"

lemma polled_fold_cong [fundef_cong]:
  "xs = ys \<Longrightarrow> (\<And>x. x \<in> set ys \<Longrightarrow> f x = f' x) \<Longrightarrow> g = g' \<Longrightarrow> c = c' \<Longrightarrow> polled_fold f g xs c = polled_fold f' g' ys c'"
  by (induction xs arbitrary: ys c c') auto

fun estimateValueBytesContext :: "ctx \<Rightarrow> gvalue \<Rightarrow> u64 polled" where
  "estimateValueBytesContext ctx (GList visit xs) = bindp (poll ctx) (\<lambda>_.
     polled_fold (estimateValueBytesContext ctx) (\<lambda>item bytes size. snapshotAdd size (snapshotAdd bytes 8)) (opt_items xs) 64)"
| "estimateValueBytesContext ctx (GMap visit m) = bindp (poll ctx) (\<lambda>_.
     polled_fold (\<lambda>(key, item). estimateValueBytesContext ctx item)
       (\<lambda>(key, item) bytes size. snapshotAdd size (snapshotAdd (snapshotAdd (snapshotMul (word_of_nat (length key)) 6) 64) bytes)) (opt_items m) 64)"
| "estimateValueBytesContext ctx v = bindp (poll ctx) (\<lambda>_. ret (estimateValueBytes v))"

text \<open>\<^verbatim>\<open>cloneValueSliceContext\<close> polls before every block of 4096 elements and at the end.\<close>

fun poll_times :: "ctx \<Rightarrow> nat \<Rightarrow> unit polled" where
  "poll_times ctx 0 = ret ()"
| "poll_times ctx (Suc n) = bindp (poll ctx) (\<lambda>_. poll_times ctx n)"

definition cloneValueSliceContext :: "ctx \<Rightarrow> 'a list option \<Rightarrow> 'a list option polled" where
  "cloneValueSliceContext ctx v = (case opt_items v of
     [] \<Rightarrow> ret None
   | l \<Rightarrow> bindp (poll_times ctx ((length l + 4095) div 4096)) (\<lambda>_. bindp (poll ctx) (\<lambda>_. ret (Some l))))"

fun CloneValueContext :: "ctx \<Rightarrow> gvalue \<Rightarrow> gvalue polled" where
  "CloneValueContext ctx (GBytes bs) = bindp (poll ctx) (\<lambda>_. bindp (cloneValueSliceContext ctx bs) (\<lambda>l. ret (GBytes l)))"
| "CloneValueContext ctx (GVector xs) = bindp (poll ctx) (\<lambda>_. bindp (cloneValueSliceContext ctx xs) (\<lambda>l. ret (GVector l)))"
| "CloneValueContext ctx (GList visit xs) = bindp (poll ctx) (\<lambda>_.
     bindp (polled_fold (CloneValueContext ctx) (\<lambda>_ c l. l @ [c]) (opt_items xs) []) (\<lambda>l. ret (GList None (Some l))))"
| "CloneValueContext ctx (GMap visit m) = bindp (poll ctx) (\<lambda>_.
     bindp (polled_fold (\<lambda>(key, v). CloneValueContext ctx v) (\<lambda>(key, v) c l. l @ [(key, c)]) (opt_items m) []) (\<lambda>l. ret (GMap None (Some l))))"
| "CloneValueContext ctx (GSlice visit l) = bindp (poll ctx) (\<lambda>_.
     bindp (polled_fold (CloneValueContext ctx) (\<lambda>_ c l. l @ [c]) l []) (\<lambda>l. ret (GList None (Some l))))"
| "CloneValueContext ctx (GArray l) = bindp (poll ctx) (\<lambda>_.
     bindp (polled_fold (CloneValueContext ctx) (\<lambda>_ c l. l @ [c]) l []) (\<lambda>l. ret (GList None (Some l))))"
| "CloneValueContext ctx (GStringMap visit l) = bindp (poll ctx) (\<lambda>_.
     bindp (polled_fold (\<lambda>(key, v). CloneValueContext ctx v) (\<lambda>(key, v) c l. l @ [(key, c)]) l []) (\<lambda>l. ret (GMap None (Some l))))"
| "CloneValueContext ctx v = bindp (poll ctx) (\<lambda>_. ret v)"

section \<open>Saturating sums\<close>

definition sat :: "nat \<Rightarrow> nat" where
  "sat n = min n (2 ^ 64 - 1)"

lemma sat_simps [simp]: "sat (sat m + n) = sat (m + n)" "sat (m + sat n) = sat (m + n)" "sat (sat n) = sat n" "sat 0 = 0"
  by (auto simp: sat_def)

lemma sat_le: "sat n \<le> n" "sat n < 2 ^ 64"
  by (auto simp: sat_def)

lemma sat_exact: "sat n \<noteq> 2 ^ 64 - 1 \<Longrightarrow> sat n = n"
  by (auto simp: sat_def min_def split: if_splits)

lemma sat_unat [simp]: "sat (unat (w :: u64)) = unat w"
  using unat_bounds(1) [of w] by (simp add: sat_def)

lemma unat_snapshotAdd: "unat (snapshotAdd a b) = sat (unat a + unat b)"
proof -
  have top: "unat (- 1 :: u64) = 2 ^ 64 - 1" by (simp add: unsigned_minus_1_eq_mask mask_eq_exp_minus_1)
  have a: "unat a < 2 ^ 64" using unsigned_less [of a] by simp
  then have m: "unat (- 1 - a) = 2 ^ 64 - 1 - unat a" using top by (subst unat_sub) (simp_all add: word_le_nat_alt)
  show ?thesis
  proof (cases "b > - 1 - a")
    case True
    then have "2 ^ 64 - 1 - unat a < unat b" using m by (simp add: word_less_nat_alt)
    with True show ?thesis by (simp add: snapshotAdd_def sat_def top)
  next
    case False
    then have l: "unat b \<le> 2 ^ 64 - 1 - unat a" using m by (simp add: word_less_nat_alt)
    have "unat a + unat b < 2 ^ 64" using l a by arith
    then have "unat (a + b) = unat a + unat b" by (simp add: unat_add_lem [symmetric])
    with False \<open>unat a + unat b < 2 ^ 64\<close> show ?thesis by (simp add: snapshotAdd_def sat_def)
  qed
qed

lemma unat_fold_snapshotAdd: "unat (fold (\<lambda>x b. snapshotAdd b (f x)) xs b) = sat (unat b + sum_list (map (\<lambda>x. unat (f x)) xs))"
  by (induction xs arbitrary: b) (simp_all add: unat_snapshotAdd add.assoc)

section \<open>The walks under a context agree with the plain ones\<close>

lemma settles_polled_fold:
  "(\<And>x. x \<in> set xs \<Longrightarrow> settles ctx (f x) (h x)) \<Longrightarrow> settles ctx (polled_fold f g xs c) (fold (\<lambda>x. g x (h x)) xs c)"
proof (induction xs arbitrary: c)
  case (Cons x xs)
  have "settles ctx (polled_fold f g xs (g x (h x) c)) (fold (\<lambda>x. g x (h x)) xs (g x (h x) c))" by (rule Cons.IH) (simp add: Cons.prems)
  with Cons.prems [of x] show ?case by (auto intro: settles_bind)
qed (simp add: settle)

lemma settles_poll_times: "settles ctx (poll_times ctx n) ()"
  by (induction n) (auto intro: settles_bind settle)

lemma settles_slice: "settles ctx (cloneValueSliceContext ctx v) (append_nil v)"
proof (cases "opt_items v")
  case Nil
  then have "append_nil v = None" by (auto simp: opt_items_def append_nil_def split: option.splits)
  with Nil show ?thesis by (simp add: cloneValueSliceContext_def settle)
next
  case (Cons x l)
  then have "append_nil v = Some (x # l)" by (auto simp: opt_items_def append_nil_def split: option.splits list.splits)
  with Cons show ?thesis unfolding cloneValueSliceContext_def by (auto intro!: settles_bind settles_poll_times settle)
qed

lemma fold_append_map: "fold (\<lambda>x l. l @ [f x]) xs acc = acc @ map f xs"
  by (induction xs arbitrary: acc) simp_all

lemma settles_estimate: "settles ctx (estimateValueBytesContext ctx v) (estimateValueBytes v)"
proof (induction ctx v rule: estimateValueBytesContext.induct)
  case (1 ctx visit xs)
  have "settles ctx (estimateValueBytesContext ctx (GList visit xs))
      (fold (\<lambda>x. (\<lambda>item bytes size. snapshotAdd size (snapshotAdd bytes 8)) x (estimateValueBytes x)) (opt_items xs) 64)"
    unfolding estimateValueBytesContext.simps by (rule settles_bind [OF settles_poll settles_polled_fold]) (rule 1)
  then show ?case by simp
next
  case (2 ctx visit m)
  have "settles ctx ((\<lambda>(key, item). estimateValueBytesContext ctx item) x) ((\<lambda>(key, item). estimateValueBytes item) x)" if "x \<in> set (opt_items m)" for x
    using 2 that by (cases x) auto
  then have "settles ctx (estimateValueBytesContext ctx (GMap visit m))
      (fold (\<lambda>x. (\<lambda>(key, item) bytes size. snapshotAdd size (snapshotAdd (snapshotAdd (snapshotMul (word_of_nat (length key)) 6) 64) bytes)) x
         ((\<lambda>(key, item). estimateValueBytes item) x)) (opt_items m) 64)"
    unfolding estimateValueBytesContext.simps by (rule settles_bind [OF settles_poll settles_polled_fold])
  moreover have "(\<lambda>x. (\<lambda>(key, item) bytes size. snapshotAdd size (snapshotAdd (snapshotAdd (snapshotMul (word_of_nat (length key)) 6) 64) bytes)) x
         ((\<lambda>(key, item). estimateValueBytes item) x)) =
      (\<lambda>(key, v) size. snapshotAdd size (snapshotAdd (snapshotAdd (snapshotMul (word_of_nat (length key)) 6) 64) (estimateValueBytes v)))"
    by (auto simp: fun_eq_iff)
  ultimately show ?case by (simp add: case_prod_unfold)
qed (auto intro!: settles_bind settle)

lemma settles_clone_items:
  assumes "\<And>x. x \<in> set xs \<Longrightarrow> settles ctx (CloneValueContext ctx x) (CloneValue x)"
  shows "settles ctx (bindp (polled_fold (CloneValueContext ctx) (\<lambda>_ c l. l @ [c]) xs []) (\<lambda>l. ret (GList None (Some l)))) (GList None (Some (map CloneValue xs)))"
  using settles_polled_fold [of xs ctx "CloneValueContext ctx" CloneValue "\<lambda>_ c l. l @ [c]" "[]", OF assms]
  by (auto simp: fold_append_map intro!: settles_bind settle)

lemma settles_clone_entries:
  assumes "\<And>k v. (k, v) \<in> set m \<Longrightarrow> settles ctx (CloneValueContext ctx v) (CloneValue v)"
  shows "settles ctx (bindp (polled_fold (\<lambda>(key, v). CloneValueContext ctx v) (\<lambda>(key, v) c l. l @ [(key, c)]) m []) (\<lambda>l. ret (GMap None (Some l))))
    (GMap None (Some (map (\<lambda>(k, v). (k, CloneValue v)) m)))"
proof -
  have "(\<lambda>x. (\<lambda>(key, v) c l. l @ [(key, c)]) x ((\<lambda>(key, v). CloneValue v) x)) = (\<lambda>(key, v) l. l @ [(key, CloneValue v)])" by (auto simp: fun_eq_iff)
  moreover have "settles ctx ((\<lambda>(key, v). CloneValueContext ctx v) x) ((\<lambda>(key, v). CloneValue v) x)" if "x \<in> set m" for x
    using assms that by (cases x) auto
  ultimately have "settles ctx (polled_fold (\<lambda>(key, v). CloneValueContext ctx v) (\<lambda>(key, v) c l. l @ [(key, c)]) m []) (map (\<lambda>(k, v). (k, CloneValue v)) m)"
    using settles_polled_fold [of m ctx "\<lambda>(key, v). CloneValueContext ctx v" "\<lambda>(key, v). CloneValue v" "\<lambda>(key, v) c l. l @ [(key, c)]" "[]"]
    by (simp add: case_prod_unfold fold_append_map)
  then show ?thesis by (auto intro!: settles_bind settle)
qed

lemma settles_clone: "settles ctx (CloneValueContext ctx v) (CloneValue v)"
proof (induction ctx v rule: CloneValueContext.induct)
  case (3 ctx visit xs)
  then show ?case using settles_bind [OF settles_poll settles_clone_items [of "opt_items xs" ctx]] by (simp add: opt_items_def)
next
  case (4 ctx visit m)
  then show ?case using settles_bind [OF settles_poll settles_clone_entries [of "opt_items m" ctx]] by (simp add: opt_items_def)
next
  case (5 ctx visit l)
  then show ?case using settles_bind [OF settles_poll settles_clone_items [of l ctx]] by simp
next
  case (6 ctx l)
  then show ?case using settles_bind [OF settles_poll settles_clone_items [of l ctx]] by simp
next
  case (7 ctx visit l)
  then show ?case using settles_bind [OF settles_poll settles_clone_entries [of l ctx]] by simp
qed (auto intro!: settles_bind settles_slice settle)

end
