(* ===== verification/PageGraph.thy ===== *)
theory PageGraph
  imports PagePropertyIndex Estimates
begin

text \<open>
  The graph in the page store (\<^verbatim>\<open>internal/store/page_graph.go\<close> and the maintenance of property indexes in
  \<^verbatim>\<open>page_property_index.go\<close>): node and edge records with their lookup rows (labels, adjacency, types, canonical edge order), counts
  and property postings, all changed in one storage transaction. \<open>mrb\<close> is \<^verbatim>\<open>MaxRecordBytes\<close> of the \<^verbatim>\<open>PageGraph\<close>. Reads are those
  without a page-read budget in the context. A caller rolls the transaction back after an error, so nothing is promised of the
  rows then.
\<close>

section \<open>Property indexes\<close>

definition index_visitor :: "byte list \<Rightarrow> byte list \<Rightarrow> PropertyIndexes \<Rightarrow> gerr option \<times> PropertyIndexes" where
  "index_visitor key v ix = (case decodePagePropertyDefinition v of
     Inl er \<Rightarrow> (Some er, ix)
   | Inr d \<Rightarrow>
       if key \<noteq> pagePropertyDefinitionHash d then (Some (ErrMsg ''invalid page property index key''), ix)
       else (None, snd (ix_Create d ix)))"

text \<open>A scan as an operation that returns the captured variables or the error.\<close>

definition scan_result :: "('c, 't) am \<Rightarrow> ('c, 't) pm" where
  "scan_result m s = (case m s of
     None \<Rightarrow> None
   | Some ((Some er, c), s1) \<Rightarrow> Some (Inl er, s1)
   | Some ((None, c), s1) \<Rightarrow> Some (Inr c, s1))"

definition LoadPropertyIndexes :: "('t, 'z) bolt_tx_scheme \<Rightarrow> (nat \<Rightarrow> gerr option) \<Rightarrow> bool \<Rightarrow> (PropertyIndexes, 't) pm" where
  "LoadPropertyIndexes B ctx node = scan_result
     (tx_Scan B ctx (fst (pagePropertyBuckets node)) None None (\<lambda>k v ix s. Some (index_visitor k v ix, s)) (NewPropertyIndexes\<lparr>ix_page := True\<rparr>))"

definition posting_key :: "PropertyIndexDefinition \<Rightarrow> propertyValueKey \<Rightarrow> u64 \<Rightarrow> byte list" where
  "posting_key d key ident = pagePropertyPostingPrefix d key @ pageID ident"

definition backend_put :: "('t, 'z) bolt_tx_scheme \<Rightarrow> bool \<Rightarrow> PropertyIndexDefinition \<Rightarrow> gvalue \<Rightarrow> u64 \<Rightarrow> (unit, 't) pm" where
  "backend_put B node d v ident = (case makePropertyValueKey v of
     Inl er \<Rightarrow> pfail er
   | Inr key \<Rightarrow>
       let bucket = snd (pagePropertyBuckets node); postingKey = posting_key d key ident in
       pbind (tx_Get B bucket postingKey) (\<lambda>stored.
         pthen (case stored of
                  None \<Rightarrow> pret ()
                | Some data \<Rightarrow>
                    (case decodePagePropertyPosting data of
                       Inl er \<Rightarrow> pfail er
                     | Inr (storedDefinition, storedKey) \<Rightarrow>
                         if storedDefinition \<noteq> d \<or> storedKey \<noteq> key then pfail (ErrMsg ''page property posting hash collision'') else pret ()))
           (tx_Put B bucket postingKey (encodePagePropertyPosting d key))))"

definition backend_remove :: "('t, 'z) bolt_tx_scheme \<Rightarrow> bool \<Rightarrow> PropertyIndexDefinition \<Rightarrow> gvalue \<Rightarrow> u64 \<Rightarrow> (unit, 't) pm" where
  "backend_remove B node d v ident = (case makePropertyValueKey v of
     Inl er \<Rightarrow> pfail er
   | Inr key \<Rightarrow>
       let bucket = snd (pagePropertyBuckets node); postingKey = posting_key d key ident in
       pbind (tx_Get B bucket postingKey) (\<lambda>stored.
         case stored of
           None \<Rightarrow> pret ()
         | Some data \<Rightarrow>
             (case decodePagePropertyPosting data of
                Inl er \<Rightarrow> pfail er
              | Inr (storedDefinition, storedKey) \<Rightarrow>
                  if storedDefinition \<noteq> d \<or> storedKey \<noteq> key then pret () else tx_Delete B bucket postingKey)))"

text \<open>What an index sees of an entity: its properties, its labels or type, and its identifier.\<close>

type_synonym indexed = "Properties \<times> string list \<times> u64"

definition update_definition :: "('t, 'z) bolt_tx_scheme \<Rightarrow> bool \<Rightarrow> indexed option \<Rightarrow> indexed option \<Rightarrow> PropertyIndexDefinition \<Rightarrow> (unit, 't) pm" where
  "update_definition B node old new d =
     pthen (case old of
              Some (properties, scopes, ident) \<Rightarrow>
                if propertyIndexMatches d scopes properties
                then backend_remove B node d (fst (p_Lookup properties (id_Property d))) ident else pret ()
            | None \<Rightarrow> pret ())
       (case new of
          Some (properties, scopes, ident) \<Rightarrow>
            if propertyIndexMatches d scopes properties
            then backend_put B node d (fst (p_Lookup properties (id_Property d))) ident else pret ()
        | None \<Rightarrow> pret ())"

definition updatePagePropertyIndexes ::
  "('t, 'z) bolt_tx_scheme \<Rightarrow> (PropertyIndexDefinition list \<Rightarrow> PropertyIndexDefinition list) \<Rightarrow> bool \<Rightarrow> indexed option \<Rightarrow> indexed option \<Rightarrow> (unit, 't) pm" where
  "updatePagePropertyIndexes B ord node old new =
     pbind (LoadPropertyIndexes B (\<lambda>_. None) node) (\<lambda>ix. pmapM (update_definition B node old new) (ord (ix_Definitions ix)))"

definition node_indexed :: "NodeRecord \<Rightarrow> indexed" where
  "node_indexed n = (nr_Properties n, opt_items (nr_Labels n), nr_ID n)"

definition edge_indexed :: "EdgeRecord \<Rightarrow> indexed" where
  "edge_indexed e = (er_Properties e, [er_Type e], er_ID e)"

definition UpdateNodePropertyIndexes where
  "UpdateNodePropertyIndexes B ord old new = updatePagePropertyIndexes B ord True (map_option node_indexed old) (map_option node_indexed new)"

definition UpdateEdgePropertyIndexes where
  "UpdateEdgePropertyIndexes B ord old new = updatePagePropertyIndexes B ord False (map_option edge_indexed old) (map_option edge_indexed new)"

section \<open>Records\<close>

definition GetNode :: "('t, 'z) bolt_tx_scheme \<Rightarrow> u64 \<Rightarrow> u64 \<Rightarrow> (NodeRecord option, 't) pm" where
  "GetNode B mrb ident = pbind (tx_Get B ''nodes'' (pageID ident)) (\<lambda>data. case data of
     None \<Rightarrow> pret None
   | Some bs \<Rightarrow> (case decodePageNode bs ident (recordLimit mrb) of Inl er \<Rightarrow> pfail er | Inr n \<Rightarrow> pret (Some n)))"

definition GetEdge :: "('t, 'z) bolt_tx_scheme \<Rightarrow> u64 \<Rightarrow> u64 \<Rightarrow> (EdgeRecord option, 't) pm" where
  "GetEdge B mrb ident = pbind (tx_Get B ''edges'' (pageID ident)) (\<lambda>data. case data of
     None \<Rightarrow> pret None
   | Some bs \<Rightarrow> (case decodePageEdge bs ident (recordLimit mrb) of Inl er \<Rightarrow> pfail er | Inr e \<Rightarrow> pret (Some e)))"

definition page_count :: "('t, 'z) bolt_tx_scheme \<Rightarrow> string \<Rightarrow> (u64, 't) pm" where
  "page_count B bucket = pbind (tx_Get B ''counts'' (string_bytes bucket)) (\<lambda>data. case data of
     None \<Rightarrow> pret 0
   | Some bs \<Rightarrow> if length bs \<noteq> 8 then pfail (ErrMsg ''invalid page count'') else pret (from_be64 bs))"

definition changeCount :: "('t, 'z) bolt_tx_scheme \<Rightarrow> string \<Rightarrow> bool \<Rightarrow> (unit, 't) pm" where
  "changeCount B bucket add = pbind (page_count B bucket) (\<lambda>count.
     if add
     then if count = - 1 then pfail (ErrMsg ''page count overflow'') else tx_Put B ''counts'' (string_bytes bucket) (pageID (count + 1))
     else if count = 0 then pfail (ErrMsg ''page count underflow'') else tx_Put B ''counts'' (string_bytes bucket) (pageID (count - 1)))"

definition PutNode :: "('t, 'z) bolt_tx_scheme \<Rightarrow> (PropertyIndexDefinition list \<Rightarrow> PropertyIndexDefinition list) \<Rightarrow> u64 \<Rightarrow> NodeRecord \<Rightarrow> (unit, 't) pm" where
  "PutNode B ord mrb node = (case encodePageNodeBounded (Some node) (recordLimit mrb) of
     Inl er \<Rightarrow> pfail er
   | Inr data \<Rightarrow>
       if word_of_nat (length data) > recordLimit mrb then pfail (ErrLoadResourceLimit ''page node exceeds limit'')
       else pbind (GetNode B mrb (nr_ID node)) (\<lambda>old.
         let labelsChanged = (case old of None \<Rightarrow> True | Some o' \<Rightarrow> opt_items (nr_Labels o') \<noteq> opt_items (nr_Labels node)) in
         pthen (case old of
                  Some o' \<Rightarrow> if labelsChanged then pmapM (\<lambda>label. tx_Delete B ''labels'' (pageStringID label (nr_ID node))) (opt_items (nr_Labels o')) else pret ()
                | None \<Rightarrow> pret ())
        (pthen (UpdateNodePropertyIndexes B ord old (Some node))
        (pthen (if old = None then changeCount B ''nodes'' True else pret ())
        (pthen (tx_Put B ''nodes'' (pageID (nr_ID node)) data)
           (if labelsChanged
            then pmapM (\<lambda>label. tx_Put B ''labels'' (pageStringID label (nr_ID node)) []) (opt_items (nr_Labels node)) else pret ()))))))"

definition require_node :: "('t, 'z) bolt_tx_scheme \<Rightarrow> u64 \<Rightarrow> u64 \<Rightarrow> (unit, 't) pm" where
  "require_node B mrb ident = pbind (GetNode B mrb ident) (\<lambda>n. if n = None then pfail (ErrMsg ''page edge endpoint is missing'') else pret ())"

definition same_order_key :: "EdgeRecord \<Rightarrow> EdgeRecord \<Rightarrow> bool" where
  "same_order_key a b \<longleftrightarrow> er_SourceID a = er_SourceID b \<and> er_TargetID a = er_TargetID b \<and> er_Type a = er_Type b"

text \<open>The two halves of \<open>PutEdge\<close>: rows of the stored edge that no longer hold are deleted before the record is written, and the rows
  that are new are put after it.\<close>

definition drop_stale_rows :: "('t, 'z) bolt_tx_scheme \<Rightarrow> EdgeRecord option \<Rightarrow> EdgeRecord \<Rightarrow> (unit, 't) pm" where
  "drop_stale_rows B old edge = (case old of
     None \<Rightarrow> pret ()
   | Some o' \<Rightarrow>
       pthen (if er_SourceID o' \<noteq> er_SourceID edge then tx_Delete B ''outgoing'' (pagePair (er_SourceID o') (er_ID edge)) else pret ())
      (pthen (if er_TargetID o' \<noteq> er_TargetID edge then tx_Delete B ''incoming'' (pagePair (er_TargetID o') (er_ID edge)) else pret ())
      (pthen (if er_Type o' \<noteq> er_Type edge then tx_Delete B ''edge-types'' (pageStringID (er_Type o') (er_ID edge)) else pret ())
             (if \<not> same_order_key o' edge then tx_Delete B ''edge-order'' (pageCanonicalEdgeKey o') else pret ()))))"

definition put_new_rows :: "('t, 'z) bolt_tx_scheme \<Rightarrow> EdgeRecord option \<Rightarrow> EdgeRecord \<Rightarrow> (unit, 't) pm" where
  "put_new_rows B old edge =
     pthen (if (case old of None \<Rightarrow> True | Some o' \<Rightarrow> er_SourceID o' \<noteq> er_SourceID edge)
            then tx_Put B ''outgoing'' (pagePair (er_SourceID edge) (er_ID edge)) [] else pret ())
    (pthen (if (case old of None \<Rightarrow> True | Some o' \<Rightarrow> er_TargetID o' \<noteq> er_TargetID edge)
            then tx_Put B ''incoming'' (pagePair (er_TargetID edge) (er_ID edge)) [] else pret ())
    (pthen (if (case old of None \<Rightarrow> True | Some o' \<Rightarrow> er_Type o' \<noteq> er_Type edge)
            then tx_Put B ''edge-types'' (pageStringID (er_Type edge) (er_ID edge)) [] else pret ())
           (if (case old of None \<Rightarrow> True | Some o' \<Rightarrow> \<not> same_order_key o' edge)
            then tx_Put B ''edge-order'' (pageCanonicalEdgeKey edge) [] else pret ())))"

definition PutEdge :: "('t, 'z) bolt_tx_scheme \<Rightarrow> (PropertyIndexDefinition list \<Rightarrow> PropertyIndexDefinition list) \<Rightarrow> u64 \<Rightarrow> EdgeRecord \<Rightarrow> (unit, 't) pm" where
  "PutEdge B ord mrb edge = (case encodePageEdgeBounded (Some edge) (recordLimit mrb) of
     Inl er \<Rightarrow> pfail er
   | Inr data \<Rightarrow>
       if word_of_nat (length data) > recordLimit mrb then pfail (ErrLoadResourceLimit ''page edge exceeds limit'')
       else pthen (pmapM (require_node B mrb) [er_SourceID edge, er_TargetID edge])
        (pbind (GetEdge B mrb (er_ID edge)) (\<lambda>old.
         pthen (drop_stale_rows B old edge)
        (pthen (UpdateEdgePropertyIndexes B ord old (Some edge))
        (pthen (if old = None then changeCount B ''edges'' True else pret ())
        (pthen (tx_Put B ''edges'' (pageID (er_ID edge)) data)
               (put_new_rows B old edge)))))))"

definition edge_rows :: "EdgeRecord \<Rightarrow> (string \<times> byte list) list" where
  "edge_rows edge =
     [(''outgoing'', pagePair (er_SourceID edge) (er_ID edge)), (''incoming'', pagePair (er_TargetID edge) (er_ID edge)),
      (''edge-types'', pageStringID (er_Type edge) (er_ID edge)), (''edge-order'', pageCanonicalEdgeKey edge)]"

definition removeEdgePostings :: "('t, 'z) bolt_tx_scheme \<Rightarrow> EdgeRecord \<Rightarrow> (unit, 't) pm" where
  "removeEdgePostings B edge = pmapM (\<lambda>(bucket, key). tx_Delete B bucket key) (edge_rows edge)"

definition DeleteEdge :: "('t, 'z) bolt_tx_scheme \<Rightarrow> (PropertyIndexDefinition list \<Rightarrow> PropertyIndexDefinition list) \<Rightarrow> u64 \<Rightarrow> u64 \<Rightarrow> (unit, 't) pm" where
  "DeleteEdge B ord mrb ident = pbind (GetEdge B mrb ident) (\<lambda>edge. case edge of
     None \<Rightarrow> pret ()
   | Some e \<Rightarrow>
       pthen (UpdateEdgePropertyIndexes B ord (Some e) None)
      (pthen (removeEdgePostings B e)
      (pthen (changeCount B ''edges'' False)
             (tx_Delete B ''edges'' (pageID ident)))))"

text \<open>The identifiers after a prefix, for labels, types and adjacency; the visitor acts on its captured variables.\<close>

definition id_visitor :: "byte list \<Rightarrow> (u64 \<Rightarrow> 'c \<Rightarrow> gerr option \<times> 'c) \<Rightarrow> byte list \<Rightarrow> byte list \<Rightarrow> 'c \<Rightarrow> gerr option \<times> 'c" where
  "id_visitor pfx visit key v c =
     (if length key \<noteq> length pfx + 8 then (Some (ErrMsg ''invalid posting key''), c)
      else let ident = from_be64 (drop (length pfx) key) in
           case ValidateEntityID ident of Some er \<Rightarrow> (Some er, c) | None \<Rightarrow> visit ident c)"

definition visitIDs ::
  "('t, 'z) bolt_tx_scheme \<Rightarrow> (nat \<Rightarrow> gerr option) \<Rightarrow> string \<Rightarrow> byte list \<Rightarrow> (u64 \<Rightarrow> 'c \<Rightarrow> gerr option \<times> 'c) \<Rightarrow> 'c \<Rightarrow> ('c, 't) am" where
  "visitIDs B ctx bucket pfx visit c =
     tx_Scan B ctx bucket (Some pfx) (pagePrefixEnd pfx) (\<lambda>k v c s. Some (id_visitor pfx visit k v c, s)) c"

definition VisitLabel where
  "VisitLabel B ctx label visit c = visitIDs B ctx ''labels'' (pageStringPrefix label) visit c"

definition VisitEdgeType where
  "VisitEdgeType B ctx type visit c = visitIDs B ctx ''edge-types'' (pageStringPrefix type) visit c"

definition VisitOutgoing where
  "VisitOutgoing B ctx ident visit c = visitIDs B ctx ''outgoing'' (pageID ident) visit c"

definition VisitIncoming where
  "VisitIncoming B ctx ident visit c = visitIDs B ctx ''incoming'' (pageID ident) visit c"

text \<open>Visitors of records may act on the transaction.\<close>

definition visit_pm :: "('a, 't) pm \<Rightarrow> ('a \<Rightarrow> 'c \<Rightarrow> ('c, 't) am) \<Rightarrow> 'c \<Rightarrow> ('c, 't) am" where
  "visit_pm m k c s = (case m s of
     None \<Rightarrow> None
   | Some (Inl er, s1) \<Rightarrow> Some ((Some er, c), s1)
   | Some (Inr a, s1) \<Rightarrow> k a c s1)"

definition visit_fail :: "gerr \<Rightarrow> 'c \<Rightarrow> ('c, 't) am" where
  "visit_fail er c s = Some ((Some er, c), s)"

definition visit_ok :: "'c \<Rightarrow> ('c, 't) am" where
  "visit_ok c s = Some ((None, c), s)"

definition VisitNode :: "('t, 'z) bolt_tx_scheme \<Rightarrow> u64 \<Rightarrow> u64 \<Rightarrow> (NodeRecord option \<Rightarrow> 'c \<Rightarrow> ('c, 't) am) \<Rightarrow> 'c \<Rightarrow> ('c, 't) am" where
  "VisitNode B mrb ident visit = visit_pm (GetNode B mrb ident) visit"

definition VisitEdge :: "('t, 'z) bolt_tx_scheme \<Rightarrow> u64 \<Rightarrow> u64 \<Rightarrow> (EdgeRecord option \<Rightarrow> 'c \<Rightarrow> ('c, 't) am) \<Rightarrow> 'c \<Rightarrow> ('c, 't) am" where
  "VisitEdge B mrb ident visit = visit_pm (GetEdge B mrb ident) visit"

definition VisitNodes ::
  "('t, 'z) bolt_tx_scheme \<Rightarrow> (nat \<Rightarrow> gerr option) \<Rightarrow> u64 \<Rightarrow> (NodeRecord \<Rightarrow> 'c \<Rightarrow> ('c, 't) am) \<Rightarrow> 'c \<Rightarrow> ('c, 't) am" where
  "VisitNodes B ctx mrb visit c = tx_Scan B ctx ''nodes'' None None (\<lambda>key v.
     if length key \<noteq> 8 then visit_fail (ErrMsg ''invalid page node key'')
     else (case decodePageNode v (from_be64 key) (recordLimit mrb) of Inl er \<Rightarrow> visit_fail er | Inr node \<Rightarrow> visit node)) c"

definition VisitEdges ::
  "('t, 'z) bolt_tx_scheme \<Rightarrow> (nat \<Rightarrow> gerr option) \<Rightarrow> u64 \<Rightarrow> (EdgeRecord \<Rightarrow> 'c \<Rightarrow> ('c, 't) am) \<Rightarrow> 'c \<Rightarrow> ('c, 't) am" where
  "VisitEdges B ctx mrb visit c = tx_Scan B ctx ''edges'' None None (\<lambda>key v.
     if length key \<noteq> 8 then visit_fail (ErrMsg ''invalid page edge key'')
     else (case decodePageEdge v (from_be64 key) (recordLimit mrb) of Inl er \<Rightarrow> visit_fail er | Inr edge \<Rightarrow> visit edge)) c"

definition VisitCanonicalEdges ::
  "('t, 'z) bolt_tx_scheme \<Rightarrow> (nat \<Rightarrow> gerr option) \<Rightarrow> u64 \<Rightarrow> (EdgeRecord \<Rightarrow> 'c \<Rightarrow> ('c, 't) am) \<Rightarrow> 'c \<Rightarrow> ('c, 't) am" where
  "VisitCanonicalEdges B ctx mrb visit c = tx_Scan B ctx ''edge-order'' None None (\<lambda>key v c.
     if length key < 26 then visit_fail (ErrMsg ''invalid canonical edge key'') c
     else visit_pm (GetEdge B mrb (from_be64 (drop (length key - 8) key))) (\<lambda>edge c.
       case edge of
         None \<Rightarrow> visit_fail (ErrMsg ''canonical edge index disagrees with record'') c
       | Some e \<Rightarrow>
           if key \<noteq> pageCanonicalEdgeKey e then visit_fail (ErrMsg ''canonical edge index disagrees with record'') c
           else visit e c) c) c"

section \<open>Building and dropping a property index\<close>

text \<open>The charge the owner of the transaction put into the context, acting on variables of its own.\<close>

type_synonym 'c build_charge = "(u64 \<Rightarrow> u64 \<Rightarrow> 'c \<Rightarrow> gerr option \<times> 'c) option"

definition chargePagePropertyIndexBuild :: "'c build_charge \<Rightarrow> u64 \<Rightarrow> u64 \<Rightarrow> 'c \<Rightarrow> gerr option \<times> 'c" where
  "chargePagePropertyIndexBuild charge work logicalBytes c = (case charge of None \<Rightarrow> (None, c) | Some f \<Rightarrow> f work logicalBytes c)"

definition build_visit ::
  "('t, 'z) bolt_tx_scheme \<Rightarrow> 'c build_charge \<Rightarrow> bool \<Rightarrow> PropertyIndexDefinition \<Rightarrow> indexed \<Rightarrow> 'c \<Rightarrow> ('c, 't) am" where
  "build_visit B charge node d x c = (case x of (properties, scopes, ident) \<Rightarrow>
     (case chargePagePropertyIndexBuild charge 1 0 c of
        (Some er, c1) \<Rightarrow> visit_fail er c1
      | (None, c1) \<Rightarrow>
          if \<not> propertyIndexMatches d scopes properties then visit_ok c1
          else let v = fst (p_Lookup properties (id_Property d)); valueBytes = estimateValueBytes v in
               (case chargePagePropertyIndexBuild charge (max 1 valueBytes) (valueBytes + 192) c1 of
                  (Some er, c2) \<Rightarrow> visit_fail er c2
                | (None, c2) \<Rightarrow> visit_pm (backend_put B node d v ident) (\<lambda>_. visit_ok) c2)))"

text \<open>The part before the records are visited: the definition must be new, also by its hash.\<close>

definition register_index :: "('t, 'z) bolt_tx_scheme \<Rightarrow> (nat \<Rightarrow> gerr option) \<Rightarrow> bool \<Rightarrow> PropertyIndexDefinition \<Rightarrow> (unit, 't) pm" where
  "register_index B ctx node d = pbind (LoadPropertyIndexes B ctx node) (\<lambda>indexes.
     if ix_Has indexes d then pfail (ErrMsg ''page property index already exists'')
     else let bucket = fst (pagePropertyBuckets node); definitionKey = pagePropertyDefinitionHash d in
          pbind (tx_Get B bucket definitionKey) (\<lambda>stored.
            if stored \<noteq> None then pfail (ErrMsg ''page property index definition hash collision'')
            else tx_Put B bucket definitionKey (encodePagePropertyDefinition d)))"

definition CreatePropertyIndex ::
  "('t, 'z) bolt_tx_scheme \<Rightarrow> (nat \<Rightarrow> gerr option) \<Rightarrow> 'c build_charge \<Rightarrow> u64 \<Rightarrow> bool \<Rightarrow> PropertyIndexDefinition \<Rightarrow> 'c \<Rightarrow> ('c, 't) am" where
  "CreatePropertyIndex B ctx charge mrb node d = visit_pm (register_index B ctx node d)
     (\<lambda>_ c. if node
            then VisitNodes B ctx mrb (\<lambda>n. build_visit B charge True d (node_indexed n)) c
            else VisitEdges B ctx mrb (\<lambda>e. build_visit B charge False d (edge_indexed e)) c)"

definition drop_visit :: "('t, 'z) bolt_tx_scheme \<Rightarrow> string \<Rightarrow> PropertyIndexDefinition \<Rightarrow> byte list \<Rightarrow> byte list \<Rightarrow> unit \<Rightarrow> (unit, 't) am" where
  "drop_visit B postingBucket d key v c = (case decodePagePropertyPosting v of
     Inl er \<Rightarrow> visit_fail er c
   | Inr (storedDefinition, _) \<Rightarrow>
       if storedDefinition \<noteq> d then visit_ok c else visit_pm (tx_Delete B postingBucket key) (\<lambda>_. visit_ok) c)"

definition DropPropertyIndex :: "('t, 'z) bolt_tx_scheme \<Rightarrow> (nat \<Rightarrow> gerr option) \<Rightarrow> bool \<Rightarrow> PropertyIndexDefinition \<Rightarrow> (unit, 't) pm" where
  "DropPropertyIndex B ctx node d = (case pagePropertyBuckets node of (definitionBucket, postingBucket) \<Rightarrow>
     let definitionKey = pagePropertyDefinitionHash d in
     pbind (tx_Get B definitionBucket definitionKey) (\<lambda>stored.
       pthen (case stored of
                None \<Rightarrow> pret ()
              | Some data \<Rightarrow> (case decodePagePropertyDefinition data of
                  Inl er \<Rightarrow> pfail er
                | Inr storedDefinition \<Rightarrow>
                    if storedDefinition \<noteq> d then pfail (ErrMsg ''page property index definition hash collision'') else pret ()))
      (pthen (tx_Delete B definitionBucket definitionKey)
         (scan_result (tx_Scan B ctx postingBucket (Some definitionKey) (pagePrefixEnd definitionKey) (drop_visit B postingBucket d) ())))))"

section \<open>Lookups\<close>

text \<open>
  \<^verbatim>\<open>visitPrefix\<close> merges the posting rows with the identifiers an overlay added, in increasing order. Its variables: the identifier
  pulled from \<^verbatim>\<open>added\<close>, those still to come, whether the visitor stopped, and what the visitor itself captured. A nil \<^verbatim>\<open>charge\<close>
  is the charge that does nothing.
\<close>

record 'c merge =
  mg_cur :: "u64 option"
  mg_rest :: "u64 list"
  mg_stopped :: bool
  mg_c :: 'c

definition mg_pull :: "('c \<Rightarrow> gerr option \<times> 'c) \<Rightarrow> 'c merge \<Rightarrow> gerr option \<times> 'c merge" where
  "mg_pull charge m = (case mg_rest m of
     [] \<Rightarrow> (None, m\<lparr>mg_cur := None\<rparr>)
   | x # xs \<Rightarrow> (case charge (mg_c m) of (er, c1) \<Rightarrow> (er, m\<lparr>mg_cur := Some x, mg_rest := xs, mg_c := c1\<rparr>)))"

definition matches_check :: "PropertyIndexDefinition \<Rightarrow> gvalue \<Rightarrow> propertyValueKey \<Rightarrow> Properties \<Rightarrow> string list \<Rightarrow> (bool, 't) pm" where
  "matches_check d v key properties scopes =
     (if \<not> propertyIndexMatches d scopes properties then pret False
      else let actual = fst (p_Lookup properties (id_Property d)) in
           (case makePropertyValueKey actual of
              Inl er \<Rightarrow> pfail er
            | Inr actualKey \<Rightarrow> pret (actualKey = key \<and> propertyIndexValuesEqual actual v)))"

definition backend_matches :: "('t, 'z) bolt_tx_scheme \<Rightarrow> u64 \<Rightarrow> bool \<Rightarrow> u64 \<Rightarrow> PropertyIndexDefinition \<Rightarrow> gvalue \<Rightarrow> propertyValueKey \<Rightarrow> (bool, 't) pm" where
  "backend_matches B mrb node ident d v key =
     (if node
      then pbind (GetNode B mrb ident) (\<lambda>r. case r of None \<Rightarrow> pret False | Some n \<Rightarrow> matches_check d v key (nr_Properties n) (opt_items (nr_Labels n)))
      else pbind (GetEdge B mrb ident) (\<lambda>r. case r of None \<Rightarrow> pret False | Some e \<Rightarrow> matches_check d v key (er_Properties e) [er_Type e]))"

text \<open>What a lookup asks for: the definition, the value and its key.\<close>

type_synonym 'c lookup_env = "bool \<times> PropertyIndexDefinition \<times> gvalue \<times> propertyValueKey \<times> propertyPosting \<times> ('c \<Rightarrow> gerr option \<times> 'c) \<times> (u64 \<Rightarrow> 'c \<Rightarrow> gerr option \<times> 'c)"

definition emit :: "('t, 'z) bolt_tx_scheme \<Rightarrow> (nat \<Rightarrow> gerr option) \<Rightarrow> u64 \<Rightarrow> 'c lookup_env \<Rightarrow> u64 \<Rightarrow> 'c merge \<Rightarrow> ('c merge, 't) am" where
  "emit B ctx mrb env ident m s = (case env of (node, d, v, key, removed, charge, visit) \<Rightarrow>
     (case poll_ctx ctx s of
        (Some er, s1) \<Rightarrow> Some ((Some er, m), s1)
      | (None, s1) \<Rightarrow>
          if pp_has removed ident then Some ((None, m), s1)
          else (case backend_matches B mrb node ident d v key s1 of
                  None \<Rightarrow> None
                | Some (Inl er, s2) \<Rightarrow> Some ((Some er, m), s2)
                | Some (Inr valid, s2) \<Rightarrow>
                    if \<not> valid then Some ((None, m), s2)
                    else (case visit ident (mg_c m) of
                            (Some er, c1) \<Rightarrow> Some ((Some er, m\<lparr>mg_c := c1, mg_stopped := mg_stopped m \<or> er = ErrEOF\<rparr>), s2)
                          | (None, c1) \<Rightarrow> Some ((None, m\<lparr>mg_c := c1\<rparr>), s2)))))"

text \<open>\<^verbatim>\<open>for hasAdded && addID < id\<close>, and \<^verbatim>\<open>for hasAdded\<close> without a bound.\<close>

partial_function (option) emit_added ::
  "('t, 'z) bolt_tx_scheme \<Rightarrow> (nat \<Rightarrow> gerr option) \<Rightarrow> u64 \<Rightarrow> 'c lookup_env \<Rightarrow> u64 option \<Rightarrow> 'c merge \<Rightarrow> 't pstate \<Rightarrow> ((gerr option \<times> 'c merge) \<times> 't pstate) option" where
  "emit_added B ctx mrb env bound m s = (case mg_cur m of
     None \<Rightarrow> Some ((None, m), s)
   | Some addID \<Rightarrow>
       if (case bound of None \<Rightarrow> False | Some ident \<Rightarrow> \<not> addID < ident) then Some ((None, m), s)
       else (case emit B ctx mrb env addID m s of
               None \<Rightarrow> None
             | Some ((Some er, m1), s1) \<Rightarrow> Some ((Some er, m1), s1)
             | Some ((None, m1), s1) \<Rightarrow>
                 (case mg_pull (fst (snd (snd (snd (snd (snd env)))))) m1 of
                    (Some er, m2) \<Rightarrow> Some ((Some er, m2), s1)
                  | (None, m2) \<Rightarrow> emit_added B ctx mrb env bound m2 s1)))"

definition posting_visit ::
  "('t, 'z) bolt_tx_scheme \<Rightarrow> (nat \<Rightarrow> gerr option) \<Rightarrow> u64 \<Rightarrow> 'c lookup_env \<Rightarrow> byte list \<Rightarrow> byte list \<Rightarrow> byte list \<Rightarrow> 'c merge \<Rightarrow> ('c merge, 't) am" where
  "posting_visit B ctx mrb env pfx rowKey rowValue m = (case env of (node, d, v, key, removed, charge, visit) \<Rightarrow>
     (case charge (mg_c m) of
        (Some er, c1) \<Rightarrow> visit_fail er (m\<lparr>mg_c := c1\<rparr>)
      | (None, c1) \<Rightarrow>
          let m1 = m\<lparr>mg_c := c1\<rparr> in
          (case decodePagePropertyPosting rowValue of
             Inl er \<Rightarrow> visit_fail er m1
           | Inr (rowDefinition, rowProperty) \<Rightarrow>
               if rowDefinition \<noteq> d \<or> rowProperty \<noteq> key then visit_ok m1
               else if length rowKey \<noteq> length pfx + 8 then visit_fail (ErrMsg ''invalid page property posting key'') m1
               else let ident = from_be64 (drop (length pfx) rowKey) in
                    (case ValidateEntityID ident of
                       Some er \<Rightarrow> visit_fail er m1
                     | None \<Rightarrow> (\<lambda>s.
                         case emit_added B ctx mrb env (Some ident) m1 s of
                           None \<Rightarrow> None
                         | Some ((Some er, m2), s1) \<Rightarrow> Some ((Some er, m2), s1)
                         | Some ((None, m2), s1) \<Rightarrow>
                             (case (if mg_cur m2 = Some ident then mg_pull charge m2 else (None, m2)) of
                                (Some er, m3) \<Rightarrow> Some ((Some er, m3), s1)
                              | (None, m3) \<Rightarrow> emit B ctx mrb env ident m3 s1))))))"

definition visitPrefix ::
  "('t, 'z) bolt_tx_scheme \<Rightarrow> (nat \<Rightarrow> gerr option) \<Rightarrow> u64 \<Rightarrow> 'c lookup_env \<Rightarrow> propertyPosting \<Rightarrow> byte list \<Rightarrow> 'c \<Rightarrow> ('c, 't) am" where
  "visitPrefix B ctx mrb env added pfx c s = (case env of (node, d, v, key, removed, charge, visit) \<Rightarrow>
     (case mg_pull charge \<lparr>mg_cur = None, mg_rest = pp_all added, mg_stopped = False, mg_c = c\<rparr> of
        (Some er, m) \<Rightarrow> Some ((Some er, mg_c m), s)
      | (None, m) \<Rightarrow>
          (case tx_Scan B ctx (snd (pagePropertyBuckets node)) (Some pfx) (pagePrefixEnd pfx) (posting_visit B ctx mrb env pfx) m s of
             None \<Rightarrow> None
           | Some ((er, m1), s1) \<Rightarrow>
               if er \<noteq> None \<and> er \<noteq> Some ErrEOF then Some ((er, mg_c m1), s1)
               else if mg_stopped m1 then Some ((None, mg_c m1), s1)
               else (case emit_added B ctx mrb env None m1 s1 of
                       None \<Rightarrow> None
                     | Some ((er2, m2), s2) \<Rightarrow> Some ((if er2 = Some ErrEOF then None else er2, mg_c m2), s2)))))"

definition backend_visit ::
  "('t, 'z) bolt_tx_scheme \<Rightarrow> (nat \<Rightarrow> gerr option) \<Rightarrow> u64 \<Rightarrow> 'c lookup_env \<Rightarrow> propertyPosting \<Rightarrow> 'c \<Rightarrow> ('c, 't) am" where
  "backend_visit B ctx mrb env added c = (case env of (node, d, v, key, rest) \<Rightarrow>
     visitPrefix B ctx mrb env added (pagePropertyPostingPrefix d key) c)"

definition backend_lookup ::
  "('t, 'z) bolt_tx_scheme \<Rightarrow> u64 \<Rightarrow> bool \<Rightarrow> PropertyIndexDefinition \<Rightarrow> gvalue \<Rightarrow> propertyValueKey \<Rightarrow> propertyPosting \<Rightarrow> propertyPosting \<Rightarrow> (u64 list, 't) am" where
  "backend_lookup B mrb node d v key added removed =
     backend_visit B (\<lambda>_. None) mrb (node, d, v, key, removed, (\<lambda>c. (None, c)), collect_id) added []"

end
