(* ===== verification/PageCalculus.thy ===== *)
theory PageCalculus
  imports PageGraph
begin

text \<open>
  A small calculus for operations of a writable transaction: \<open>ensures m s Q\<close> says that \<open>m\<close> returns in state \<open>s\<close> and establishes
  \<open>Q\<close> unless it fails. Storage operations are described by the rows \<open>vw\<close> they leave, scans by an invariant over the rows
  visited so far.
\<close>

section \<open>Operations of a writable transaction\<close>

definition ensures :: "('a, 't) pm \<Rightarrow> 't pstate \<Rightarrow> ('a \<Rightarrow> 't pstate \<Rightarrow> bool) \<Rightarrow> bool" where
  "ensures m s Q \<longleftrightarrow> (\<exists>r s'. m s = Some (r, s') \<and> (\<forall>a. r = Inr a \<longrightarrow> Q a s'))"

named_theorems ens

lemma ensures_ret [ens]: "Q a s \<Longrightarrow> ensures (pret a) s Q"
  by (simp add: ensures_def pret_def)

lemma ensures_fail [ens]: "ensures (pfail er) s Q"
  by (simp add: ensures_def pfail_def)

lemma ensures_bind: "ensures m s (\<lambda>a s'. ensures (f a) s' Q) \<Longrightarrow> ensures (pbind m f) s Q"
  by (auto simp: ensures_def pbind_def split: sum.splits)

lemma ensures_conseq: "ensures m s P \<Longrightarrow> (\<And>a s'. P a s' \<Longrightarrow> Q a s') \<Longrightarrow> ensures m s Q"
  by (auto simp: ensures_def)

lemma ensures_seq: "ensures m s P \<Longrightarrow> (\<And>a s'. P a s' \<Longrightarrow> ensures (f a) s' Q) \<Longrightarrow> ensures (pbind m f) s Q"
  by (rule ensures_bind) (rule ensures_conseq)

definition live :: "'t pstate \<Rightarrow> bool" where
  "live s \<longleftrightarrow> \<not> tx_closed (ps_tx s) \<and> tx_tx (ps_tx s) \<noteq> None \<and> tx_writable (ps_tx s)"

definition vw :: "('t, 'z) bolt_tx_scheme \<Rightarrow> 't pstate \<Rightarrow> string \<Rightarrow> byte list \<Rightarrow> byte list option" where
  "vw B s = (case tx_tx (ps_tx s) of None \<Rightarrow> (\<lambda>_ _. None) | Some t \<Rightarrow> bt_map B t)"

lemma live_open: "live s \<Longrightarrow> \<exists>t. open_tx (ps_tx s) t \<and> vw B s = bt_map B t"
  by (auto simp: live_def open_tx_def vw_def)

lemma live_same: "ps_tx s' = ps_tx s \<Longrightarrow> live s' = live s" "ps_tx s' = ps_tx s \<Longrightarrow> vw B s' = vw B s"
  by (simp_all add: live_def vw_def)

lemma get_live:
  assumes "live s" "Q (vw B s b k) s"
  shows "ensures (tx_Get B b k) s Q"
proof -
  obtain t where t: "open_tx (ps_tx s) t" "vw B s = bt_map B t" using live_open [OF assms(1)] by blast
  have "tx_Get B b k s = Some (Inr (vw B s b k), s)"
    using t assms(1) by (simp add: tx_Get_def pbind_def tx_check_open uses_cache_def live_def bt_map_def Let_def)
  then show ?thesis using assms(2) by (simp add: ensures_def)
qed

lemma put_live:
  assumes B: "bolt_writes B" and "live s" and Q: "\<And>s'. live s' \<Longrightarrow> vw B s' = (vw B s)(b := (vw B s b)(k \<mapsto> v)) \<Longrightarrow> Q () s'"
  shows "ensures (tx_Put B b k v) s Q"
proof -
  obtain t where t: "open_tx (ps_tx s) t" "vw B s = bt_map B t" using live_open [OF assms(2)] by blast
  have w: "tx_writable (ps_tx s)" using assms(2) by (simp add: live_def)
  obtain er1 t1 where c: "(if bt_Bucket B b t then (None, t) else bt_CreateBucketIfNotExists B b t) = (er1, t1)" by (rule prod.exhaust)
  obtain er2 t2 where p: "bt_Put B b k v t1 = (er2, t2)" by (rule prod.exhaust)
  show ?thesis
  proof (cases "er1 = None \<and> er2 = None")
    case True
    have c1: "bt_Bucket B b t1" "bt_map B t1 = bt_map B t" using B c True by (auto simp: bolt_writes_def split: if_splits)
    have m: "bt_map B t2 = (bt_map B t)(b := (bt_map B t b)(k \<mapsto> v))" using B p True c1 by (auto simp: bolt_writes_def)
    obtain s' where s': "tx_Put B b k v s = Some (Inr (), s')" "tx_tx (ps_tx s') = Some t2" "\<not> tx_closed (ps_tx s')" "tx_writable (ps_tx s')"
      using t(1) w c p True by (simp add: tx_Put_def pbind_def tx_check_open Let_def put_accounting_def open_tx_def)
    then have "live s'" "vw B s' = (vw B s)(b := (vw B s b)(k \<mapsto> v))" using t(2) m by (simp_all add: live_def vw_def)
    then show ?thesis using s'(1) Q by (auto simp: ensures_def)
  next
    case False
    then show ?thesis using t(1) w c p by (auto simp: ensures_def tx_Put_def pbind_def tx_check_open Let_def split: option.splits)
  qed
qed

lemma delete_live:
  assumes B: "bolt_writes B" and "live s" and Q: "\<And>s'. live s' \<Longrightarrow> vw B s' = (vw B s)(b := (vw B s b)(k := None)) \<Longrightarrow> Q () s'"
  shows "ensures (tx_Delete B b k) s Q"
proof -
  obtain t where t: "open_tx (ps_tx s) t" "vw B s = bt_map B t" using live_open [OF assms(2)] by blast
  have w: "tx_writable (ps_tx s)" using assms(2) by (simp add: live_def)
  obtain er t1 where d: "bt_Delete B b k t = (er, t1)" by (rule prod.exhaust)
  show ?thesis
  proof (cases "bt_Bucket B b t")
    case False
    then have "(bt_map B t b)(k := None) = bt_map B t b" by (auto simp: bt_map_def)
    then have "Q () s" using Q [OF assms(2)] t(2) by simp
    then show ?thesis using False t(1) w by (simp add: ensures_def tx_Delete_def pbind_def tx_check_open)
  next
    case b: True
    show ?thesis
    proof (cases er)
      case None
      have m: "bt_map B t1 = (bt_map B t)(b := (bt_map B t b)(k := None))" using B d None b by (auto simp: bolt_writes_def)
      obtain s' where s': "tx_Delete B b k s = Some (Inr (), s')" "tx_tx (ps_tx s') = Some t1" "\<not> tx_closed (ps_tx s')" "tx_writable (ps_tx s')"
        using t(1) w b d None by (simp add: tx_Delete_def pbind_def tx_check_open Let_def open_tx_def)
      then have "live s'" "vw B s' = (vw B s)(b := (vw B s b)(k := None))" using t(2) m by (simp_all add: live_def vw_def)
      then show ?thesis using s'(1) Q by (auto simp: ensures_def)
    next
      case (Some er')
      then show ?thesis using t(1) w b d by (simp add: ensures_def tx_Delete_def pbind_def tx_check_open Let_def)
    qed
  qed
qed

lemma pmapM_ensures:
  assumes "\<And>x s. x \<in> set xs \<Longrightarrow> I s \<Longrightarrow> ensures (f x) s (\<lambda>_. I)" "I s"
  shows "ensures (pmapM f xs) s (\<lambda>_. I)"
  using assms
proof (induction xs arbitrary: s)
  case (Cons x xs)
  have "ensures (f x) s (\<lambda>_. I)" using Cons.prems by simp
  then show ?case using Cons.IH [OF Cons.prems(1)] by (auto intro: ensures_seq)
qed (simp add: ens)

text \<open>Deleting and storing a list of rows in one bucket.\<close>

lemma delete_all:
  assumes B: "bolt_writes B" and "live s" and Q: "\<And>s'. live s' \<Longrightarrow> vw B s' = (vw B s)(b := (\<lambda>k. if k \<in> g ` set xs then None else vw B s b k)) \<Longrightarrow> Q () s'"
  shows "ensures (pmapM (\<lambda>x. tx_Delete B b (g x)) xs) s Q"
  using assms(2,3)
proof (induction xs arbitrary: s)
  case Nil
  then show ?case by (simp add: ens)
next
  case (Cons x xs)
  show ?case unfolding pmapM.simps
  proof (rule ensures_bind, rule delete_live [OF B Cons.prems(1)])
    fix s1 assume s1: "live s1" "vw B s1 = (vw B s)(b := (vw B s b)(g x := None))"
    show "ensures (pmapM (\<lambda>x. tx_Delete B b (g x)) xs) s1 Q"
    proof (rule Cons.IH [OF s1(1)])
      fix s' assume s': "live s'" "vw B s' = (vw B s1)(b := (\<lambda>k. if k \<in> g ` set xs then None else vw B s1 b k))"
      show "Q () s'" by (rule Cons.prems(2) [OF s'(1)]) (use s'(2) s1(2) in \<open>auto simp: fun_eq_iff\<close>)
    qed
  qed
qed

lemma put_all:
  assumes B: "bolt_writes B" and "live s" and Q: "\<And>s'. live s' \<Longrightarrow> vw B s' = (vw B s)(b := (\<lambda>k. if k \<in> g ` set xs then Some v else vw B s b k)) \<Longrightarrow> Q () s'"
  shows "ensures (pmapM (\<lambda>x. tx_Put B b (g x) v) xs) s Q"
  using assms(2,3)
proof (induction xs arbitrary: s)
  case Nil
  then show ?case by (simp add: ens)
next
  case (Cons x xs)
  show ?case unfolding pmapM.simps
  proof (rule ensures_bind, rule put_live [OF B Cons.prems(1)])
    fix s1 assume s1: "live s1" "vw B s1 = (vw B s)(b := (vw B s b)(g x \<mapsto> v))"
    show "ensures (pmapM (\<lambda>x. tx_Put B b (g x) v) xs) s1 Q"
    proof (rule Cons.IH [OF s1(1)])
      fix s' assume s': "live s'" "vw B s' = (vw B s1)(b := (\<lambda>k. if k \<in> g ` set xs then Some v else vw B s1 b k))"
      show "Q () s'" by (rule Cons.prems(2) [OF s'(1)]) (use s'(2) s1(2) in \<open>auto simp: fun_eq_iff\<close>)
    qed
  qed
qed

section \<open>Scans\<close>

lemma scan_live:
  assumes "bolt_reads B" "live s" "\<And>n. ctx n = None" "\<And>er c s'. live s' \<Longrightarrow> vw B s' = vw B s \<Longrightarrow>
      visit_rows f (rows (vw B s b) (scan_range start True fin)) c0 = (None, c) \<Longrightarrow> Q c s'"
  shows "ensures (scan_result (tx_Scan B ctx b start fin (\<lambda>k v c s. Some (f k v c, s)) c0)) s Q"
proof -
  obtain t where t: "open_tx (ps_tx s) t" "vw B s = bt_map B t" using live_open [OF assms(2)] by blast
  obtain s' where s': "tx_Scan B ctx b start fin (\<lambda>k v c s. Some (f k v c, s)) c0 s =
      Some (visit_rows f (rows (vw B s b) (scan_range start True fin)) c0, s')" "ps_tx s' = ps_tx s"
    using scan_loop_rows [where ctx = ctx and visit = "\<lambda>k v c s. Some (f k v c, s)" and f = f and tx = "ps_tx s" and b = b and fin = fin and seek = start
        and inclusive = True and c = c0, OF assms(1) t(1) refl assms(3)] t(2)
    by (auto simp: tx_Scan_def tx_ScanBounded_def)
  obtain er c where r: "visit_rows f (rows (vw B s b) (scan_range start True fin)) c0 = (er, c)" by (rule prod.exhaust)
  show ?thesis
  proof (cases er)
    case None
    then have "Q c s'" using assms(4) [of s' c] live_same(1) [OF s'(2)] live_same(2) [OF s'(2), of B] assms(2) r by simp
    then show ?thesis using s'(1) r None by (simp add: ensures_def scan_result_def)
  next
    case (Some er')
    then show ?thesis using s'(1) r by (simp add: ensures_def scan_result_def)
  qed
qed


text \<open>Visitors that write: \<open>vens m c s Q\<close> also excludes the error that would end the scan silently.\<close>

definition vens :: "('c \<Rightarrow> ('c, 't) am) \<Rightarrow> 'c \<Rightarrow> 't pstate \<Rightarrow> ('c \<Rightarrow> 't pstate \<Rightarrow> bool) \<Rightarrow> bool" where
  "vens m c s Q \<longleftrightarrow> (\<exists>er c' s'. m c s = Some ((er, c'), s') \<and> er \<noteq> Some ErrEOF \<and> (er = None \<longrightarrow> Q c' s'))"

definition no_eof :: "('a, 't) pm \<Rightarrow> 't pstate \<Rightarrow> bool" where
  "no_eof m s \<longleftrightarrow> (\<forall>s'. m s \<noteq> Some (Inl ErrEOF, s'))"

lemma vens_fail: "er \<noteq> ErrEOF \<Longrightarrow> vens (visit_fail er) c s Q"
  by (simp add: vens_def visit_fail_def)

lemma vens_ok: "Q c s \<Longrightarrow> vens visit_ok c s Q"
  by (simp add: vens_def visit_ok_def)

lemma vens_pm: "ensures m s (\<lambda>a s'. vens (k a) c s' Q) \<Longrightarrow> no_eof m s \<Longrightarrow> vens (visit_pm m k) c s Q"
  by (auto simp: vens_def ensures_def visit_pm_def no_eof_def split: sum.splits)

lemma vens_conseq: "vens m c s P \<Longrightarrow> (\<And>c s. P c s \<Longrightarrow> Q c s) \<Longrightarrow> vens m c s Q"
  by (auto simp: vens_def)

lemma no_eof_simps [simp]: "no_eof (pret a) s" "no_eof (pfail er) s \<longleftrightarrow> er \<noteq> ErrEOF"
  by (simp_all add: no_eof_def pret_def pfail_def)

lemma no_eof_bind: "no_eof m s \<Longrightarrow> (\<And>a s'. m s = Some (Inr a, s') \<Longrightarrow> no_eof (f a) s') \<Longrightarrow> no_eof (pbind m f) s"
  by (auto simp: no_eof_def pbind_def split: bind_splits sum.splits)

lemma no_eof_put: "live s \<Longrightarrow> no_eof (tx_Put B b k v) s"
  using live_open [of s B] by (auto simp: no_eof_def tx_Put_def pbind_def tx_check_open Let_def split: if_splits option.splits prod.splits)

lemma no_eof_delete: "live s \<Longrightarrow> no_eof (tx_Delete B b k) s"
  using live_open [of s B] by (auto simp: no_eof_def tx_Delete_def pbind_def tx_check_open Let_def split: if_splits option.splits prod.splits)

lemma no_eof_get: "live s \<Longrightarrow> no_eof (tx_Get B b k) s"
  using live_open [of s B] by (auto simp: no_eof_def tx_Get_def pbind_def tx_check_open uses_cache_def live_def Let_def split: if_splits option.splits prod.splits)

text \<open>A scan whose visitor changes no row behind the cursor visits the rows of the start.\<close>

lemma in_sorted_list: "x \<in> set (sorted_list_of_set A) \<Longrightarrow> x \<in> A"
  by (cases "finite A") simp_all

lemma rows_cong:
  assumes "\<And>k. P k \<Longrightarrow> m' k = m k"
  shows "rows m' P = rows m P"
proof -
  have s: "{k. P k \<and> m' k \<noteq> None} = {k. P k \<and> m k \<noteq> None}" using assms by auto
  show ?thesis unfolding rows_def s
  proof (rule map_cong [OF refl])
    fix k assume "k \<in> set (sorted_list_of_set {k. P k \<and> m k \<noteq> None})"
    then have "P k" using in_sorted_list by blast
    then show "(k, the (m' k)) = (k, the (m k))" using assms by simp
  qed
qed

lemma rows_later:
  assumes "\<And>k'. k < k' \<Longrightarrow> m' k' = m k'"
  shows "rows m' (scan_range (Some k) False fin) = rows m (scan_range (Some k) False fin)"
  by (rule rows_cong) (use assms in \<open>simp add: scan_range_def from_seek_def\<close>)

lemma poll_tx: "poll_ctx ctx s = (er, s1) \<Longrightarrow> ps_tx s1 = ps_tx s"
  by (auto simp: poll_ctx_def)

lemma scan_next:
  assumes "bolt_reads B" "live s"
  obtains "scanEntry B b seek fin inclusive (- 1) s = Some (Inr None, s)" "rows (vw B s b) (scan_range seek inclusive fin) = []"
  | k v where "scanEntry B b seek fin inclusive (- 1) s = Some (Inr (Some (k, v)), s)" "\<not> beyond fin k" "vw B s b k = Some v"
      "rows (vw B s b) (scan_range seek inclusive fin) = (k, v) # rows (vw B s b) (scan_range (Some k) False fin)"
proof -
  obtain t where t: "open_tx (ps_tx s) t" "vw B s = bt_map B t" using live_open [OF assms(2)] by blast
  obtain r where e: "scanEntry B b seek fin inclusive (- 1) s = Some (Inr r, s)" "least_entry (vw B s b) (scan_range seek inclusive fin) r"
    using scan_entry_rows [OF assms(1) t(1), of b seek fin inclusive] t(2) by auto
  show thesis
  proof (cases r)
    case None
    then have "rows (vw B s b) (scan_range seek inclusive fin) = []" using e(2) by (intro rows_none) (simp add: least_entry_def)
    then show thesis using that(1) e(1) None by simp
  next
    case (Some kv)
    obtain k v where kv: "r = Some (k, v)" using Some by (cases kv) simp
    have k: "from_seek seek inclusive k" "\<not> beyond fin k" "vw B s b k = Some v" using e(2) kv by (simp_all add: least_entry_def scan_range_def)
    have R: "scan_range (Some k) False fin = (\<lambda>k'. scan_range seek inclusive fin k' \<and> k < k')"
      using k(1) by (fastforce simp: fun_eq_iff scan_range_def from_seek_def split: option.splits if_splits)
    have f: "finite (dom (vw B s b))" using finite_rows [OF assms(1)] t(2) by simp
    show thesis using that(2) [of k v] e(1) kv k rows_cons [OF e(2) [unfolded kv] f] R by simp
  qed
qed

lemma scan_loop_ensures:
  assumes B: "bolt_reads B"
    and poll: "\<And>l c s s'. ps_tx s' = ps_tx s \<Longrightarrow> I l c s \<Longrightarrow> I l c s'"
    and step: "\<And>l k v r c s. L = l @ (k, v) # r \<Longrightarrow> live s \<Longrightarrow> vw B s b k = Some v \<Longrightarrow> I l c s \<Longrightarrow>
        vens (visit k v) c s (\<lambda>c' s'. live s' \<and> (\<forall>k'. k < k' \<longrightarrow> vw B s' b k' = vw B s b k') \<and> I (l @ [(k, v)]) c' s')"
    and "L = l @ r" "live s" "I l c s" "rows (vw B s b) (scan_range seek inclusive fin) = r"
  shows "\<exists>er c' s'. scan_loop B ctx b fin (- 1) visit seek inclusive c s = Some ((er, c'), s') \<and> (er = None \<longrightarrow> live s' \<and> I L c' s') \<and>
    ((\<forall>n. ctx n \<noteq> Some ErrEOF) \<longrightarrow> er \<noteq> Some ErrEOF)"
  using assms(4-)
proof (induction r arbitrary: l seek inclusive c s)
  case Nil
  obtain pe s1 where p: "poll_ctx ctx s = (pe, s1)" by (rule prod.exhaust)
  note tx = poll_tx [OF p]
  have l: "live s1" "I l c s1" "vw B s1 = vw B s" using Nil tx live_same [OF tx] poll [OF tx] by auto
  show ?case
  proof (cases pe)
    case None
    from l(1) show ?thesis
    proof (rule scan_next [OF B, where b = b and seek = seek and inclusive = inclusive and fin = fin])
      assume "scanEntry B b seek fin inclusive (- 1) s1 = Some (Inr None, s1)"
      then show ?thesis using p None l Nil by (subst scan_loop.simps) simp
    qed (use Nil l(3) in simp)
  qed (use p in \<open>subst scan_loop.simps, auto simp: poll_ctx_def\<close>)
next
  case (Cons kv r)
  obtain pe s1 where p: "poll_ctx ctx s = (pe, s1)" by (rule prod.exhaust)
  note tx = poll_tx [OF p]
  have l: "live s1" "I l c s1" "vw B s1 = vw B s" using Cons.prems tx live_same [OF tx] poll [OF tx] by auto
  show ?case
  proof (cases pe)
    case None
    from l(1) show ?thesis
    proof (rule scan_next [OF B, where b = b and seek = seek and inclusive = inclusive and fin = fin])
      assume "rows (vw B s1 b) (scan_range seek inclusive fin) = []"
      then show ?thesis using Cons.prems(4) l(3) by simp
    next
      fix k v assume e: "scanEntry B b seek fin inclusive (- 1) s1 = Some (Inr (Some (k, v)), s1)" "\<not> beyond fin k" "vw B s1 b k = Some v"
        "rows (vw B s1 b) (scan_range seek inclusive fin) = (k, v) # rows (vw B s1 b) (scan_range (Some k) False fin)"
      have kv: "kv = (k, v)" "rows (vw B s1 b) (scan_range (Some k) False fin) = r" using Cons.prems(4) e(4) l(3) by simp_all
      obtain er c1 s2 where v: "visit k v c s1 = Some ((er, c1), s2)" "er \<noteq> Some ErrEOF"
        "er = None \<Longrightarrow> live s2 \<and> (\<forall>k'. k < k' \<longrightarrow> vw B s2 b k' = vw B s1 b k') \<and> I (l @ [(k, v)]) c1 s2"
        using step [OF Cons.prems(1) [unfolded kv(1)] l(1) e(3) l(2)] by (auto simp: vens_def)
      show ?thesis
      proof (cases er)
        case er: None
        have "rows (vw B s2 b) (scan_range (Some k) False fin) = r" unfolding kv(2) [symmetric] by (rule rows_later) (use v(3) er in blast)
        then obtain er' c' s' where "scan_loop B ctx b fin (- 1) visit (Some k) False c1 s2 = Some ((er', c'), s')" "er' = None \<longrightarrow> live s' \<and> I L c' s'"
            "(\<forall>n. ctx n \<noteq> Some ErrEOF) \<longrightarrow> er' \<noteq> Some ErrEOF"
          using Cons.IH [of "l @ [(k, v)]" s2 c1 "Some k" False] Cons.prems(1) kv(1) v(3) er by auto
        then show ?thesis using p None e(1,2) v(1) er by (subst scan_loop.simps) simp
      next
        case (Some er')
        then show ?thesis using p None e(1,2) v(1,2) by (subst scan_loop.simps) simp
      qed
    qed
  qed (use p in \<open>subst scan_loop.simps, auto simp: poll_ctx_def\<close>)
qed

lemma scan_ensures_eof:
  assumes "bolt_reads B" "live s" "I [] c s"
    and "\<And>l c s s'. ps_tx s' = ps_tx s \<Longrightarrow> I l c s \<Longrightarrow> I l c s'"
    and "\<And>l k v r c s'. rows (vw B s b) (scan_range start True fin) = l @ (k, v) # r \<Longrightarrow> live s' \<Longrightarrow> vw B s' b k = Some v \<Longrightarrow> I l c s' \<Longrightarrow>
        vens (visit k v) c s' (\<lambda>c' s''. live s'' \<and> (\<forall>k'. k < k' \<longrightarrow> vw B s'' b k' = vw B s' b k') \<and> I (l @ [(k, v)]) c' s'')"
  shows "\<exists>er c' s'. tx_Scan B ctx b start fin visit c s = Some ((er, c'), s') \<and>
    (er = None \<longrightarrow> live s' \<and> I (rows (vw B s b) (scan_range start True fin)) c' s') \<and> ((\<forall>n. ctx n \<noteq> Some ErrEOF) \<longrightarrow> er \<noteq> Some ErrEOF)"
  unfolding tx_Scan_def tx_ScanBounded_def
  by (rule scan_loop_ensures [where I = I, OF assms(1,4) assms(5) _ assms(2,3) refl]) auto

lemma scan_ensures:
  assumes "bolt_reads B" "live s" "I [] c s"
    and "\<And>l c s s'. ps_tx s' = ps_tx s \<Longrightarrow> I l c s \<Longrightarrow> I l c s'"
    and "\<And>l k v r c s'. rows (vw B s b) (scan_range start True fin) = l @ (k, v) # r \<Longrightarrow> live s' \<Longrightarrow> vw B s' b k = Some v \<Longrightarrow> I l c s' \<Longrightarrow>
        vens (visit k v) c s' (\<lambda>c' s''. live s'' \<and> (\<forall>k'. k < k' \<longrightarrow> vw B s'' b k' = vw B s' b k') \<and> I (l @ [(k, v)]) c' s'')"
  shows "\<exists>er c' s'. tx_Scan B ctx b start fin visit c s = Some ((er, c'), s') \<and>
    (er = None \<longrightarrow> live s' \<and> I (rows (vw B s b) (scan_range start True fin)) c' s')"
proof -
  have "\<exists>er c' s'. tx_Scan B ctx b start fin visit c s = Some ((er, c'), s') \<and>
      (er = None \<longrightarrow> live s' \<and> I (rows (vw B s b) (scan_range start True fin)) c' s') \<and> ((\<forall>n. ctx n \<noteq> Some ErrEOF) \<longrightarrow> er \<noteq> Some ErrEOF)"
    by (rule scan_ensures_eof [where I = I, OF assms(1-3)], erule (1) assms(4), erule (3) assms(5))
  then show ?thesis by blast
qed

end
