(* ===== verification/PageGraphLaws.thy ===== *)
theory PageGraphLaws
  imports PageCalculus
begin

text \<open>
  The rows of a graph agree with its records: every lookup row belongs to a record and every record has its rows, the ends of an edge
  exist, and the counts are exact. \<open>PutNode\<close>, \<open>PutEdge\<close> and \<open>DeleteEdge\<close> keep this and act on the records as on maps.
\<close>

section \<open>Index maintenance touches only postings\<close>

abbreviation postings :: "bool \<Rightarrow> string" where
  "postings node \<equiv> snd (pagePropertyBuckets node)"

lemma load_live:
  assumes "bolt_reads B" "live s" "\<And>ix s'. live s' \<Longrightarrow> vw B s' = vw B s \<Longrightarrow>
      visit_rows index_visitor (rows (vw B s (fst (pagePropertyBuckets node))) (scan_range None True None)) (NewPropertyIndexes\<lparr>ix_page := True\<rparr>) = (None, ix) \<Longrightarrow> Q ix s'"
  shows "ensures (LoadPropertyIndexes B (\<lambda>_. None) node) s Q"
  unfolding LoadPropertyIndexes_def by (rule scan_live [OF assms(1,2)]) (use assms(3) in auto)

lemma backend_put_live:
  assumes "bolt_writes B" "live s" "\<And>key s'. makePropertyValueKey v = Inr key \<Longrightarrow> live s' \<Longrightarrow>
      vw B s' = (vw B s)(postings node := (vw B s (postings node))(posting_key d key ident \<mapsto> encodePagePropertyPosting d key)) \<Longrightarrow>
      (\<And>data. vw B s (postings node) (posting_key d key ident) = Some data \<Longrightarrow> decodePagePropertyPosting data = Inr (d, key)) \<Longrightarrow> Q () s'"
  shows "ensures (backend_put B node d v ident) s Q"
proof (cases "makePropertyValueKey v")
  case (Inl er)
  then show ?thesis by (simp add: backend_put_def ens)
next
  case (Inr key)
  show ?thesis unfolding backend_put_def Inr sum.case Let_def
  proof (rule ensures_bind, rule get_live [OF assms(2)], rule ensures_bind)
    let ?g = "vw B s (postings node) (posting_key d key ident)"
    have "ensures (case ?g of None \<Rightarrow> pret () | Some data \<Rightarrow> (case decodePagePropertyPosting data of Inl er \<Rightarrow> pfail er
        | Inr (storedDefinition, storedKey) \<Rightarrow> if storedDefinition \<noteq> d \<or> storedKey \<noteq> key then pfail (ErrMsg ''page property posting hash collision'') else pret ()))
        s (\<lambda>_ s'. s' = s \<and> (\<forall>data. ?g = Some data \<longrightarrow> decodePagePropertyPosting data = Inr (d, key)))"
      by (auto split: option.split sum.split intro!: ens)
    then show "ensures (case ?g of None \<Rightarrow> pret () | Some data \<Rightarrow> (case decodePagePropertyPosting data of Inl er \<Rightarrow> pfail er
        | Inr (storedDefinition, storedKey) \<Rightarrow> if storedDefinition \<noteq> d \<or> storedKey \<noteq> key then pfail (ErrMsg ''page property posting hash collision'') else pret ()))
        s (\<lambda>_ s'. ensures (tx_Put B (postings node) (posting_key d key ident) (encodePagePropertyPosting d key)) s' Q)"
    proof (rule ensures_conseq, elim conjE)
      fix s' assume "s' = s" and c: "\<forall>data. ?g = Some data \<longrightarrow> decodePagePropertyPosting data = Inr (d, key)"
      show "ensures (tx_Put B (postings node) (posting_key d key ident) (encodePagePropertyPosting d key)) s' Q"
        unfolding \<open>s' = s\<close> by (rule put_live [OF assms(1,2)]) (use assms(3) [OF Inr] c in blast)
    qed
  qed
qed

lemma backend_remove_live:
  assumes "bolt_writes B" "live s" "\<And>key s'. makePropertyValueKey v = Inr key \<Longrightarrow> live s' \<Longrightarrow>
      vw B s' = (vw B s)(postings node := (vw B s (postings node))(posting_key d key ident := None)) \<and>
        (\<exists>data. vw B s (postings node) (posting_key d key ident) = Some data \<and> decodePagePropertyPosting data = Inr (d, key)) \<or>
      vw B s' = vw B s \<and> (\<forall>data. vw B s (postings node) (posting_key d key ident) = Some data \<longrightarrow> decodePagePropertyPosting data \<noteq> Inr (d, key)) \<Longrightarrow> Q () s'"
  shows "ensures (backend_remove B node d v ident) s Q"
proof (cases "makePropertyValueKey v")
  case (Inl er)
  then show ?thesis by (simp add: backend_remove_def ens)
next
  case (Inr key)
  let ?g = "vw B s (postings node) (posting_key d key ident)"
  have del: "ensures (tx_Delete B (postings node) (posting_key d key ident)) s Q" if "?g = Some data" "decodePagePropertyPosting data = Inr (d, key)" for data
    by (rule delete_live [OF assms(1,2)]) (use assms(3) [OF Inr] that in blast)
  have keep: "Q () s" if "\<forall>data. ?g = Some data \<longrightarrow> decodePagePropertyPosting data \<noteq> Inr (d, key)"
    using assms(3) [OF Inr assms(2)] that by blast
  show ?thesis unfolding backend_remove_def Inr sum.case Let_def
    by (rule ensures_bind, rule get_live [OF assms(2)]) (use del keep in \<open>auto split: option.split sum.split intro!: ens\<close>)
qed

text \<open>\<open>frame B bs s s'\<close>: the transaction is still open and only the buckets \<open>bs\<close> may have changed.\<close>

definition frame :: "('t, 'z) bolt_tx_scheme \<Rightarrow> string set \<Rightarrow> 't pstate \<Rightarrow> 't pstate \<Rightarrow> bool" where
  "frame B bs s s' \<longleftrightarrow> live s' \<and> (\<forall>b. b \<notin> bs \<longrightarrow> vw B s' b = vw B s b)"

lemma frame_trans: "frame B bs s s1 \<Longrightarrow> frame B bs s1 s2 \<Longrightarrow> frame B bs s s2"
  by (simp add: frame_def)

lemma update_definition_frame:
  assumes "bolt_writes B" "live s"
  shows "ensures (update_definition B node old new d) s (\<lambda>_. frame B {postings node} s)"
proof -
  have rm: "ensures (backend_remove B node d v i) s (\<lambda>_. frame B {postings node} s)" for v i
    by (rule backend_remove_live [OF assms]) (auto simp: frame_def)
  have pt: "ensures (backend_put B node d v i) s' (\<lambda>_. frame B {postings node} s)" if "frame B {postings node} s s'" for v i s'
  proof -
    have l: "live s'" using that by (simp add: frame_def)
    show ?thesis by (rule backend_put_live [OF assms(1) l]) (use that in \<open>auto simp: frame_def\<close>)
  qed
  have self: "frame B {postings node} s s" using assms(2) by (simp add: frame_def)
  show ?thesis unfolding update_definition_def
  proof (rule ensures_seq [where P = "\<lambda>_. frame B {postings node} s"])
    show "ensures (case old of Some (properties, scopes, ident) \<Rightarrow> if propertyIndexMatches d scopes properties
        then backend_remove B node d (fst (p_Lookup properties (id_Property d))) ident else pret () | None \<Rightarrow> pret ()) s (\<lambda>_. frame B {postings node} s)"
      using rm self by (auto split: option.split intro!: ens)
  next
    fix a s' assume "frame B {postings node} s s'"
    then show "ensures (case new of Some (properties, scopes, ident) \<Rightarrow> if propertyIndexMatches d scopes properties
        then backend_put B node d (fst (p_Lookup properties (id_Property d))) ident else pret () | None \<Rightarrow> pret ()) s' (\<lambda>_. frame B {postings node} s)"
      using pt by (auto split: option.split intro!: ens)
  qed
qed

lemma update_frame:
  assumes "bolt_reads B" "bolt_writes B" "live s"
  shows "ensures (updatePagePropertyIndexes B ord node old new) s (\<lambda>_. frame B {postings node} s)"
  unfolding updatePagePropertyIndexes_def
proof (rule ensures_bind, rule load_live [OF assms(1,3)])
  fix ix s1 assume s1: "live s1" "vw B s1 = vw B s"
  then have "frame B {postings node} s s1" by (simp add: frame_def)
  then show "ensures (pmapM (update_definition B node old new) (ord (ix_Definitions ix))) s1 (\<lambda>_. frame B {postings node} s)"
  proof (rule pmapM_ensures [rotated])
    fix d s2 assume f: "frame B {postings node} s s2"
    then have "live s2" by (simp add: frame_def)
    from update_definition_frame [OF assms(2) this] show "ensures (update_definition B node old new d) s2 (\<lambda>_. frame B {postings node} s)"
      by (rule ensures_conseq) (rule frame_trans [OF f])
  qed
qed

section \<open>The invariant of a graph\<close>

type_synonym view = "string \<Rightarrow> byte list \<Rightarrow> byte list option"

definition node_at :: "view \<Rightarrow> u64 \<Rightarrow> u64 \<Rightarrow> NodeRecord option" where
  "node_at V lmt i = (case V ''nodes'' (pageID i) of
     None \<Rightarrow> None
   | Some data \<Rightarrow> (case decodePageNode data i lmt of Inl _ \<Rightarrow> None | Inr n \<Rightarrow> Some n))"

definition edge_at :: "view \<Rightarrow> u64 \<Rightarrow> u64 \<Rightarrow> EdgeRecord option" where
  "edge_at V lmt i = (case V ''edges'' (pageID i) of
     None \<Rightarrow> None
   | Some data \<Rightarrow> (case decodePageEdge data i lmt of Inl _ \<Rightarrow> None | Inr e \<Rightarrow> Some e))"

text \<open>The lookup rows of an edge, by bucket.\<close>

definition edge_row :: "string \<Rightarrow> EdgeRecord \<Rightarrow> byte list" where
  "edge_row b e =
     (if b = ''outgoing'' then pagePair (er_SourceID e) (er_ID e)
      else if b = ''incoming'' then pagePair (er_TargetID e) (er_ID e)
      else if b = ''edge-types'' then pageStringID (er_Type e) (er_ID e)
      else pageCanonicalEdgeKey e)"

definition edge_buckets :: "string set" where
  "edge_buckets = {''outgoing'', ''incoming'', ''edge-types'', ''edge-order''}"

definition count_ok :: "view \<Rightarrow> string \<Rightarrow> u64 set \<Rightarrow> bool" where
  "count_ok V b S = (case V ''counts'' (string_bytes b) of
     None \<Rightarrow> S = {}
   | Some bs \<Rightarrow> length bs = 8 \<and> unat (from_be64 bs) = card S)"

definition graph_ok :: "view \<Rightarrow> u64 \<Rightarrow> bool" where
  "graph_ok V lmt \<longleftrightarrow>
     (\<forall>k data. V ''nodes'' k = Some data \<longrightarrow> (\<exists>i n. k = pageID i \<and> decodePageNode data i lmt = Inr n)) \<and>
     (\<forall>k data. V ''edges'' k = Some data \<longrightarrow> (\<exists>i e. k = pageID i \<and> decodePageEdge data i lmt = Inr e)) \<and>
     (\<forall>k. V ''labels'' k \<noteq> None \<longleftrightarrow> (\<exists>i n l. node_at V lmt i = Some n \<and> l \<in> set (opt_items (nr_Labels n)) \<and> k = pageStringID l i)) \<and>
     (\<forall>b\<in>edge_buckets. \<forall>k. V b k \<noteq> None \<longleftrightarrow> (\<exists>i e. edge_at V lmt i = Some e \<and> k = edge_row b e)) \<and>
     (\<forall>i e. edge_at V lmt i = Some e \<longrightarrow> node_at V lmt (er_SourceID e) \<noteq> None \<and> node_at V lmt (er_TargetID e) \<noteq> None) \<and>
     count_ok V ''nodes'' (dom (node_at V lmt)) \<and> count_ok V ''edges'' (dom (edge_at V lmt))"

lemma pageID_inj [simp]: "pageID i = pageID j \<longleftrightarrow> i = j"
  by (simp add: pageID_def)

lemma pageStringID_inj [simp]: "pageStringID l i = pageStringID l' j \<longleftrightarrow> l = l' \<and> i = j"
proof
  assume a: "pageStringID l i = pageStringID l' j"
  then have "length (pageStringID l i) = length (pageStringID l' j)" by simp
  then have "length l = length l'" by (simp add: pageStringID_def pageStringPrefix_def pageID_def)
  then have "string_bytes l = string_bytes l' \<and> pageID i = pageID j" using a by (simp add: pageStringID_def pageStringPrefix_def)
  then have "map char_of_byte (string_bytes l) = map char_of_byte (string_bytes l')" "i = j" by simp_all
  then show "l = l' \<and> i = j" by simp
qed simp

lemma edge_row_id: "edge_row b e = edge_row b e' \<Longrightarrow> er_ID e = er_ID e'"
  by (auto simp: edge_row_def pagePair_def canonical_key_inj split: if_splits)

lemma node_decoded_id: "decodePageNode data i lmt = Inr n \<Longrightarrow> nr_ID n = i"
  by (auto simp: decodePageNode_def decodePageNodeAdmitted_def split: sum.splits prod.splits option.splits if_splits)

lemma edge_decoded_id: "decodePageEdge data i lmt = Inr e \<Longrightarrow> er_ID e = i"
  by (auto simp: decodePageEdge_def decodePageEdgeAdmitted_def split: sum.splits prod.splits option.splits if_splits)

lemma at_id: "node_at V lmt i = Some n \<Longrightarrow> nr_ID n = i" "edge_at V lmt i = Some e \<Longrightarrow> er_ID e = i"
  using node_decoded_id edge_decoded_id by (auto simp: node_at_def edge_at_def split: option.splits sum.splits)

lemma node_at_put:
  assumes "V' ''nodes'' = (V ''nodes'')(pageID i \<mapsto> data)" "decodePageNode data i lmt = Inr n"
  shows "node_at V' lmt = (node_at V lmt)(i \<mapsto> n)"
  using assms by (auto simp: node_at_def fun_eq_iff)

lemma edge_at_put:
  assumes "V' ''edges'' = (V ''edges'')(pageID i \<mapsto> data)" "decodePageEdge data i lmt = Inr e"
  shows "edge_at V' lmt = (edge_at V lmt)(i \<mapsto> e)"
  using assms by (auto simp: edge_at_def fun_eq_iff)

lemma edge_at_delete:
  assumes "V' ''edges'' = (V ''edges'')(pageID i := None)"
  shows "edge_at V' lmt = (edge_at V lmt)(i := None)"
  using assms by (auto simp: edge_at_def fun_eq_iff)

lemma at_frame:
  "V' ''nodes'' = V ''nodes'' \<Longrightarrow> node_at V' lmt = node_at V lmt" "V' ''edges'' = V ''edges'' \<Longrightarrow> edge_at V' lmt = edge_at V lmt"
  by (simp_all add: node_at_def edge_at_def fun_eq_iff)

lemma get_node_live:
  assumes "live s" "Q (node_at (vw B s) (recordLimit mrb) i) s"
  shows "ensures (GetNode B mrb i) s Q"
  unfolding GetNode_def
  by (rule ensures_bind, rule get_live [OF assms(1)]) (use assms(2) in \<open>auto simp: node_at_def split: option.splits sum.splits intro!: ens\<close>)

lemma get_edge_live:
  assumes "live s" "Q (edge_at (vw B s) (recordLimit mrb) i) s"
  shows "ensures (GetEdge B mrb i) s Q"
  unfolding GetEdge_def
  by (rule ensures_bind, rule get_live [OF assms(1)]) (use assms(2) in \<open>auto simp: edge_at_def split: option.splits sum.splits intro!: ens\<close>)

lemma unat_steps:
  fixes c :: u64
  shows "c \<noteq> - 1 \<Longrightarrow> unat (c + 1) = unat c + 1" "c \<noteq> 0 \<Longrightarrow> unat (c - 1) + 1 = unat c"
proof -
  assume "c \<noteq> - 1"
  then have "1 + c \<noteq> 0" by (metis add.commute eq_neg_iff_add_eq_0)
  then show "unat (c + 1) = unat c + 1" using unatSuc [of c] by (simp add: add.commute)
next
  assume "c \<noteq> 0"
  then have "unat c \<noteq> 0" by (simp add: unat_eq_zero)
  then show "unat (c - 1) + 1 = unat c" using \<open>c \<noteq> 0\<close> unat_minus_one [of c] by simp
qed

lemma change_count_live:
  assumes "bolt_writes B" "live s" "count_ok (vw B s) b S"
    and Q: "\<And>s' bs. live s' \<Longrightarrow> vw B s' = (vw B s)(''counts'' := (vw B s ''counts'')(string_bytes b \<mapsto> bs)) \<Longrightarrow> length bs = 8 \<Longrightarrow>
      (add \<longrightarrow> unat (from_be64 bs) = card S + 1) \<Longrightarrow> (\<not> add \<longrightarrow> unat (from_be64 bs) + 1 = card S) \<Longrightarrow> Q () s'"
  shows "ensures (changeCount B b add) s Q"
proof -
  let ?c = "case vw B s ''counts'' (string_bytes b) of None \<Rightarrow> 0 | Some bs \<Rightarrow> from_be64 bs"
  have c: "unat ?c = card S" using assms(3) by (auto simp: count_ok_def split: option.splits)
  have "ensures (page_count B b) s (\<lambda>n s'. n = ?c \<and> s' = s)"
    unfolding page_count_def by (rule ensures_bind, rule get_live [OF assms(2)]) (auto split: option.split intro!: ens)
  then show ?thesis unfolding changeCount_def
  proof (rule ensures_seq, elim conjE, goal_cases)
    case (1 n s')
    have up: "unat (?c + 1) = card S + 1" if "?c \<noteq> - 1" using that c unat_steps(1) by simp
    have down: "unat (?c - 1) + 1 = card S" if "?c \<noteq> 0" using that c unat_steps(2) by simp
    have put: "ensures (tx_Put B ''counts'' (string_bytes b) (pageID x)) s Q"
      if "add \<longrightarrow> unat x = card S + 1" "\<not> add \<longrightarrow> unat x + 1 = card S" for x
      by (rule put_live [OF assms(1,2)], rule Q) (use that in \<open>auto simp: pageID_def\<close>)
    show ?case unfolding 1 using up down put by (auto intro!: ens)
  qed
qed

lemma count_ok_put: "V' ''counts'' (string_bytes b) = Some bs \<Longrightarrow> length bs = 8 \<Longrightarrow> unat (from_be64 bs) = card S \<Longrightarrow> count_ok V' b S"
  by (simp add: count_ok_def)

lemma count_ok_frame: "V' ''counts'' (string_bytes b) = V ''counts'' (string_bytes b) \<Longrightarrow> count_ok V b S \<Longrightarrow> count_ok V' b S"
  by (simp add: count_ok_def)

lemma byte_of_char_eq [simp]: "byte_of_char c = byte_of_char d \<longleftrightarrow> c = d"
  by (metis char_of_byte_of_char)

section \<open>Storing a node\<close>

definition label_keys :: "NodeRecord \<Rightarrow> byte list set" where
  "label_keys n = (\<lambda>l. pageStringID l (nr_ID n)) ` set (opt_items (nr_Labels n))"

lemma put_node_graph:
  assumes ok: "graph_ok V lmt"
    and dec: "decodePageNode data i lmt = Inr n"
    and nodes: "V' ''nodes'' = (V ''nodes'')(pageID i \<mapsto> data)"
    and labels: "V' ''labels'' = (case node_at V lmt i of
        None \<Rightarrow> (\<lambda>k. if k \<in> label_keys n then Some [] else V ''labels'' k)
      | Some old \<Rightarrow> if opt_items (nr_Labels old) = opt_items (nr_Labels n) then V ''labels''
          else (\<lambda>k. if k \<in> label_keys n then Some [] else if k \<in> label_keys old then None else V ''labels'' k))"
    and counts: "count_ok V' ''nodes'' (insert i (dom (node_at V lmt)))" "V' ''counts'' (string_bytes ''edges'') = V ''counts'' (string_bytes ''edges'')"
    and rest: "V' ''edges'' = V ''edges''" "\<And>b. b \<in> edge_buckets \<Longrightarrow> V' b = V b"
  shows "graph_ok V' lmt"
proof -
  have N: "node_at V' lmt = (node_at V lmt)(i \<mapsto> n)" by (rule node_at_put [of V' V, OF nodes dec])
  have E: "edge_at V' lmt = edge_at V lmt" by (rule at_frame(2) [of V' V, OF rest(1)])
  have id: "nr_ID n = i" by (rule node_decoded_id [OF dec])
  have L: "V ''labels'' k \<noteq> None \<longleftrightarrow> (\<exists>j m. node_at V lmt j = Some m \<and> k \<in> label_keys m)" for k
  proof -
    have "V ''labels'' k \<noteq> None \<longleftrightarrow> (\<exists>j m l. node_at V lmt j = Some m \<and> l \<in> set (opt_items (nr_Labels m)) \<and> k = pageStringID l j)"
      using ok by (simp only: graph_ok_def)
    then show ?thesis unfolding label_keys_def using at_id(1) [of V lmt] by blast
  qed
  have other: "k \<notin> label_keys m" if "k \<in> label_keys m'" "node_at V lmt j = Some m'" "j \<noteq> i" "nr_ID m = i" for k m m' j
    using that at_id(1) [OF that(2)] by (auto simp: label_keys_def)
  have lab: "V' ''labels'' k \<noteq> None \<longleftrightarrow> (\<exists>j m. node_at V' lmt j = Some m \<and> k \<in> label_keys m)" for k
  proof -
    have R: "(\<exists>j m. node_at V' lmt j = Some m \<and> k \<in> label_keys m) \<longleftrightarrow> k \<in> label_keys n \<or> (\<exists>j m. j \<noteq> i \<and> node_at V lmt j = Some m \<and> k \<in> label_keys m)"
      unfolding N by auto
    show ?thesis
    proof (cases "node_at V lmt i")
      case None
      then have "V ''labels'' k \<noteq> None \<longleftrightarrow> (\<exists>j m. j \<noteq> i \<and> node_at V lmt j = Some m \<and> k \<in> label_keys m)"
        unfolding L by (metis option.distinct(1))
      then show ?thesis unfolding R using labels None by simp
    next
      case (Some old)
      have oid: "nr_ID old = i" by (rule at_id(1) [OF Some])
      have L': "V ''labels'' k \<noteq> None \<longleftrightarrow> k \<in> label_keys old \<or> (\<exists>j m. j \<noteq> i \<and> node_at V lmt j = Some m \<and> k \<in> label_keys m)"
        unfolding L using Some by (metis option.inject)
      show ?thesis
      proof (cases "opt_items (nr_Labels old) = opt_items (nr_Labels n)")
        case True
        then have "label_keys old = label_keys n" using oid id by (simp add: label_keys_def)
        then show ?thesis unfolding R using labels Some True L' by simp
      next
        case False
        have "k \<notin> label_keys old" if "j \<noteq> i" "node_at V lmt j = Some m" "k \<in> label_keys m" for j m
          using other [OF that(3,2,1) oid] .
        then show ?thesis unfolding R using labels Some False L' by auto
      qed
    qed
  qed
  have lab': "V' ''labels'' k \<noteq> None \<longleftrightarrow> (\<exists>j m l. node_at V' lmt j = Some m \<and> l \<in> set (opt_items (nr_Labels m)) \<and> k = pageStringID l j)" for k
    unfolding lab label_keys_def using at_id(1) [of V' lmt] by blast
  have dec': "\<exists>j m. k = pageID j \<and> decodePageNode d j lmt = Inr m" if "V' ''nodes'' k = Some d" for k d
    using that ok dec unfolding nodes graph_ok_def by (auto split: if_splits)
  have ends: "node_at V' lmt (er_SourceID e) \<noteq> None \<and> node_at V' lmt (er_TargetID e) \<noteq> None" if "edge_at V' lmt j = Some e" for j e
    using that ok unfolding N E graph_ok_def by auto
  have cn: "count_ok V' ''nodes'' (dom (node_at V' lmt))" unfolding N using counts(1) by simp
  have ce: "count_ok V' ''edges'' (dom (edge_at V' lmt))" unfolding E by (rule count_ok_frame [of V' _ V, OF counts(2)]) (use ok in \<open>simp add: graph_ok_def\<close>)
  show ?thesis using ok dec' lab' ends cn ce rest unfolding graph_ok_def E [symmetric] by simp
qed

definition stored_node :: "NodeRecord \<Rightarrow> NodeRecord" where
  "stored_node n = n\<lparr>nr_Properties := canon_properties (nr_Properties n)\<rparr>"

definition stored_edge :: "EdgeRecord \<Rightarrow> EdgeRecord" where
  "stored_edge e = e\<lparr>er_Properties := canon_properties (er_Properties e)\<rparr>"

text \<open>Records as the engine builds them.\<close>

definition node_fits :: "NodeRecord \<Rightarrow> bool" where
  "node_fits n \<longleftrightarrow> stored_properties (nr_Properties n) \<and> labels_fit (nr_Labels n) \<and> length (wire_node (node_wire n)) < 2 ^ 63"

definition edge_fits :: "EdgeRecord \<Rightarrow> bool" where
  "edge_fits e \<longleftrightarrow> stored_properties (er_Properties e) \<and> length (er_Type e) < 2 ^ 48 \<and> length (wire_edge (edge_wire e)) < 2 ^ 63"

lemma put_node_ok:
  assumes B: "bolt_reads B" "bolt_writes B" and "live s" "graph_ok (vw B s) (recordLimit mrb)" "node_fits node"
  shows "ensures (PutNode B ord mrb node) s (\<lambda>_ s'. live s' \<and> graph_ok (vw B s') (recordLimit mrb) \<and>
    node_at (vw B s') (recordLimit mrb) = (node_at (vw B s) (recordLimit mrb))(nr_ID node \<mapsto> stored_node node) \<and>
    edge_at (vw B s') (recordLimit mrb) = edge_at (vw B s) (recordLimit mrb) \<and>
    (\<forall>b. b \<notin> {''nodes'', ''labels'', ''counts'', postings True} \<longrightarrow> vw B s' b = vw B s b))"
proof (cases "encodePageNodeBounded (Some node) (recordLimit mrb)")
  case (Inl er)
  then show ?thesis by (simp add: PutNode_def ens)
next
  case (Inr data)
  let ?l = "recordLimit mrb" and ?i = "nr_ID node" and ?V = "vw B s"
  let ?old = "node_at ?V ?l ?i"
  let ?changed = "case ?old of None \<Rightarrow> True | Some o' \<Rightarrow> opt_items (nr_Labels o') \<noteq> opt_items (nr_Labels node)"
  have dec: "decodePageNode data ?i ?l = Inr (stored_node node)"
    using node_record_read [OF _ _ _ Inr, of None] assms(5) by (simp add: decodePageNode_def stored_node_def node_fits_def)
  let ?L1 = "case ?old of Some o' \<Rightarrow> if ?changed then (\<lambda>k. if k \<in> label_keys o' then None else ?V ''labels'' k) else ?V ''labels'' | None \<Rightarrow> ?V ''labels''"
  have step1: "ensures (case ?old of Some o' \<Rightarrow> if ?changed then pmapM (\<lambda>label. tx_Delete B ''labels'' (pageStringID label ?i)) (opt_items (nr_Labels o')) else pret ()
      | None \<Rightarrow> pret ()) s (\<lambda>_ s'. live s' \<and> vw B s' = ?V(''labels'' := ?L1))"
  proof (cases ?old)
    case (Some o')
    have "nr_ID o' = ?i" by (rule at_id(1) [OF Some])
    then have "ensures (pmapM (\<lambda>label. tx_Delete B ''labels'' (pageStringID label ?i)) (opt_items (nr_Labels o'))) s
        (\<lambda>_ s'. live s' \<and> vw B s' = ?V(''labels'' := (\<lambda>k. if k \<in> label_keys o' then None else ?V ''labels'' k)))"
      by (intro delete_all [OF B(2) assms(3)]) (simp add: label_keys_def)
    then show ?thesis using Some assms(3) by (auto intro!: ens)
  qed (use assms(3) in \<open>simp add: ens\<close>)
  let ?V1 = "?V(''labels'' := ?L1)"
  have step2: "ensures (UpdateNodePropertyIndexes B ord ?old (Some node)) s1 (\<lambda>_ s2. live s2 \<and> (\<forall>b. b \<noteq> postings True \<longrightarrow> vw B s2 b = ?V1 b))"
    if "live s1" "vw B s1 = ?V1" for s1
    unfolding UpdateNodePropertyIndexes_def
    by (rule ensures_conseq [OF update_frame [OF B that(1)]]) (use that(2) in \<open>simp add: frame_def\<close>)
  define W where "W s2 \<longleftrightarrow> live s2 \<and> (\<forall>b. b \<notin> {postings True, ''counts''} \<longrightarrow> vw B s2 b = ?V1 b) \<and>
      vw B s2 ''counts'' (string_bytes ''edges'') = ?V ''counts'' (string_bytes ''edges'') \<and> count_ok (vw B s2) ''nodes'' (insert ?i (dom (node_at ?V ?l)))" for s2
  have buckets: "postings True = ''node-property-postings''" by (simp add: pagePropertyBuckets_def)
  have cnt: "count_ok ?V ''nodes'' (dom (node_at ?V ?l))" using assms(4) by (simp add: graph_ok_def)
  have step3: "ensures (if ?old = None then changeCount B ''nodes'' True else pret ()) s2 (\<lambda>_. W)"
    if "live s2" "\<forall>b. b \<noteq> postings True \<longrightarrow> vw B s2 b = ?V1 b" for s2
  proof (cases ?old)
    case None
    have c2: "count_ok (vw B s2) ''nodes'' (dom (node_at ?V ?l))"
      by (rule count_ok_frame [of _ _ ?V]) (use cnt that(2) in \<open>simp_all add: buckets\<close>)
    have card: "card (insert ?i (dom (node_at ?V ?l))) = card (dom (node_at ?V ?l)) + 1" using None by (simp add: domIff)
    have "ensures (changeCount B ''nodes'' True) s2 (\<lambda>_. W)"
    proof (rule change_count_live [OF B(2) that(1) c2])
      fix s3 bs assume s3: "live s3" "vw B s3 = (vw B s2)(''counts'' := (vw B s2 ''counts'')(string_bytes ''nodes'' \<mapsto> bs))" "length bs = 8"
        "True \<longrightarrow> unat (from_be64 bs) = card (dom (node_at ?V ?l)) + 1"
      have "count_ok (vw B s3) ''nodes'' (insert ?i (dom (node_at ?V ?l)))"
        using s3 card by (intro count_ok_put [where bs = bs]) simp_all
      then show "W s3" using s3 that(2) by (simp add: W_def buckets)
    qed
    then show ?thesis using None by simp
  next
    case (Some o')
    then have "insert ?i (dom (node_at ?V ?l)) = dom (node_at ?V ?l)" by auto
    moreover have "count_ok (vw B s2) ''nodes'' (dom (node_at ?V ?l))"
      by (rule count_ok_frame [of _ _ ?V]) (use cnt that(2) in \<open>simp_all add: buckets\<close>)
    ultimately have "W s2" using that by (simp add: W_def buckets)
    then show ?thesis using Some by (simp add: ens)
  qed
  define Fin where "Fin s5 \<longleftrightarrow> live s5 \<and> graph_ok (vw B s5) ?l \<and> node_at (vw B s5) ?l = (node_at ?V ?l)(?i \<mapsto> stored_node node) \<and>
      edge_at (vw B s5) ?l = edge_at ?V ?l \<and> (\<forall>b. b \<notin> {''nodes'', ''labels'', ''counts'', postings True} \<longrightarrow> vw B s5 b = ?V b)" for s5
  have fin: "Fin s5" if w: "W s3" and s5: "live s5" "vw B s5 = (vw B s3)(''nodes'' := (vw B s3 ''nodes'')(pageID ?i \<mapsto> data),
      ''labels'' := (if ?changed then (\<lambda>k. if k \<in> label_keys node then Some [] else vw B s3 ''labels'' k) else vw B s3 ''labels''))" for s3 s5
  proof -
    have same: "nr_Labels (stored_node node) = nr_Labels node" "label_keys (stored_node node) = label_keys node"
      by (simp_all add: stored_node_def label_keys_def)
    have w3: "vw B s3 b = ?V1 b" if "b \<notin> {postings True, ''counts''}" for b using w that by (simp add: W_def)
    have nodes: "vw B s5 ''nodes'' = (?V ''nodes'')(pageID ?i \<mapsto> data)" using s5(2) w3 [of "''nodes''"] by (simp add: buckets)
    have l3: "vw B s3 ''labels'' = ?L1" using w3 [of "''labels''"] by (simp add: buckets)
    have labels: "vw B s5 ''labels'' = (case ?old of
        None \<Rightarrow> (\<lambda>k. if k \<in> label_keys (stored_node node) then Some [] else ?V ''labels'' k)
      | Some old \<Rightarrow> if opt_items (nr_Labels old) = opt_items (nr_Labels (stored_node node)) then ?V ''labels''
          else (\<lambda>k. if k \<in> label_keys (stored_node node) then Some [] else if k \<in> label_keys old then None else ?V ''labels'' k))"
      unfolding same using s5(2) l3 by (cases ?old) (auto simp: fun_eq_iff)
    have c: "count_ok (vw B s5) ''nodes'' (insert ?i (dom (node_at ?V ?l)))"
      by (rule count_ok_frame [of _ _ "vw B s3"]) (use s5(2) w in \<open>simp_all add: W_def\<close>)
    have other: "vw B s5 b = ?V b" if "b \<notin> {''nodes'', ''labels'', ''counts'', postings True}" for b
      using that s5(2) w3 [of b] by simp
    have e: "vw B s5 ''edges'' = ?V ''edges''" by (rule other) (simp add: buckets)
    have eb: "\<And>b. b \<in> edge_buckets \<Longrightarrow> vw B s5 b = ?V b" by (rule other) (auto simp: edge_buckets_def buckets)
    have ce: "vw B s5 ''counts'' (string_bytes ''edges'') = ?V ''counts'' (string_bytes ''edges'')" using s5(2) w by (simp add: W_def)
    have "graph_ok (vw B s5) ?l" by (rule put_node_graph [OF assms(4) dec nodes labels c ce e eb])
    moreover have "node_at (vw B s5) ?l = (node_at ?V ?l)(?i \<mapsto> stored_node node)" by (rule node_at_put [of "vw B s5" ?V, OF nodes dec])
    moreover have "edge_at (vw B s5) ?l = edge_at ?V ?l" by (rule at_frame(2) [of "vw B s5" ?V, OF e])
    ultimately show ?thesis using s5(1) other by (simp add: Fin_def)
  qed
  have step4: "ensures (pthen (tx_Put B ''nodes'' (pageID ?i) data)
      (if ?changed then pmapM (\<lambda>label. tx_Put B ''labels'' (pageStringID label ?i) []) (opt_items (nr_Labels node)) else pret ())) s3 (\<lambda>_. Fin)" if w: "W s3" for s3
  proof (rule ensures_bind, rule put_live [OF B(2)])
    show "live s3" using w by (simp add: W_def)
    fix s4 assume s4: "live s4" "vw B s4 = (vw B s3)(''nodes'' := (vw B s3 ''nodes'')(pageID ?i \<mapsto> data))"
    show "ensures (if ?changed then pmapM (\<lambda>label. tx_Put B ''labels'' (pageStringID label ?i) []) (opt_items (nr_Labels node)) else pret ()) s4 (\<lambda>_. Fin)"
    proof (cases ?changed)
      case True
      have "ensures (pmapM (\<lambda>label. tx_Put B ''labels'' (pageStringID label ?i) []) (opt_items (nr_Labels node))) s4 (\<lambda>_. Fin)"
        by (rule put_all [OF B(2) s4(1)], rule fin [OF w]) (use s4(2) True in \<open>simp_all add: label_keys_def fun_eq_iff\<close>)
      then show ?thesis using True by simp
    next
      case False
      have "Fin s4" by (rule fin [OF w s4(1)]) (use s4(2) False in \<open>simp add: fun_eq_iff\<close>)
      then show ?thesis using False by (simp add: ens)
    qed
  qed
  have all: "ensures (PutNode B ord mrb node) s (\<lambda>_. Fin)"
  proof (cases "word_of_nat (length data) > ?l")
    case True
    then show ?thesis by (simp add: PutNode_def Inr ens)
  next
    case False
    show ?thesis unfolding PutNode_def Inr sum.case if_not_P [OF False] Let_def
    proof (rule ensures_bind, rule get_node_live [OF assms(3)], rule ensures_seq [OF step1], elim conjE)
      fix a1 s1 assume s1: "live s1" "vw B s1 = ?V1"
      show "ensures (pthen (UpdateNodePropertyIndexes B ord ?old (Some node)) (pthen (if ?old = None then changeCount B ''nodes'' True else pret ())
          (pthen (tx_Put B ''nodes'' (pageID ?i) data)
            (if ?changed then pmapM (\<lambda>label. tx_Put B ''labels'' (pageStringID label ?i) []) (opt_items (nr_Labels node)) else pret ())))) s1 (\<lambda>_. Fin)"
        by (rule ensures_seq [OF step2 [OF s1]], elim conjE, rule ensures_seq [OF step3], assumption+) (rule step4)
    qed
  qed
  then show ?thesis by (rule ensures_conseq) (simp add: Fin_def)
qed

section \<open>Storing and deleting an edge\<close>

lemma edge_change_graph:
  assumes ok: "graph_ok V lmt"
    and edges: "edge_at V' lmt = (edge_at V lmt)(i := x)" "\<And>k data. V' ''edges'' k = Some data \<Longrightarrow> \<exists>j e. k = pageID j \<and> decodePageEdge data j lmt = Inr e"
    and rows: "\<And>b k. b \<in> edge_buckets \<Longrightarrow> V' b k \<noteq> None \<longleftrightarrow>
        (\<exists>e. x = Some e \<and> k = edge_row b e) \<or> V b k \<noteq> None \<and> \<not> (\<exists>old. edge_at V lmt i = Some old \<and> k = edge_row b old)"
    and ends: "\<And>e. x = Some e \<Longrightarrow> node_at V lmt (er_SourceID e) \<noteq> None \<and> node_at V lmt (er_TargetID e) \<noteq> None"
    and counts: "count_ok V' ''edges'' (dom (edge_at V' lmt))" "V' ''counts'' (string_bytes ''nodes'') = V ''counts'' (string_bytes ''nodes'')"
    and rest: "V' ''nodes'' = V ''nodes''" "V' ''labels'' = V ''labels''"
  shows "graph_ok V' lmt"
proof -
  have N: "node_at V' lmt = node_at V lmt" by (rule at_frame(1) [of V' V, OF rest(1)])
  have R: "V' b k \<noteq> None \<longleftrightarrow> (\<exists>j e. edge_at V' lmt j = Some e \<and> k = edge_row b e)" if b: "b \<in> edge_buckets" for b k
  proof -
    have r: "V b k \<noteq> None \<longleftrightarrow> (\<exists>j e. edge_at V lmt j = Some e \<and> k = edge_row b e)" using ok b by (simp only: graph_ok_def)
    have "V b k \<noteq> None \<and> \<not> (\<exists>old. edge_at V lmt i = Some old \<and> k = edge_row b old) \<longleftrightarrow> (\<exists>j e. j \<noteq> i \<and> edge_at V lmt j = Some e \<and> k = edge_row b e)"
    proof (intro iffI)
      assume l: "V b k \<noteq> None \<and> \<not> (\<exists>old. edge_at V lmt i = Some old \<and> k = edge_row b old)"
      then obtain j e where e: "edge_at V lmt j = Some e" "k = edge_row b e" using r by blast
      then have "j \<noteq> i" using l by auto
      then show "\<exists>j e. j \<noteq> i \<and> edge_at V lmt j = Some e \<and> k = edge_row b e" using e by blast
    next
      assume "\<exists>j e. j \<noteq> i \<and> edge_at V lmt j = Some e \<and> k = edge_row b e"
      then obtain j e where e: "j \<noteq> i" "edge_at V lmt j = Some e" "k = edge_row b e" by blast
      have "k \<noteq> edge_row b old" if "edge_at V lmt i = Some old" for old
        using edge_row_id [of b e old] e at_id(2) [OF e(2)] at_id(2) [OF that] by auto
      then show "V b k \<noteq> None \<and> \<not> (\<exists>old. edge_at V lmt i = Some old \<and> k = edge_row b old)" using r e by blast
    qed
    then show ?thesis unfolding rows [OF b] edges(1) by auto
  qed
  have E: "node_at V' lmt (er_SourceID e) \<noteq> None \<and> node_at V' lmt (er_TargetID e) \<noteq> None" if "edge_at V' lmt j = Some e" for j e
    using that ends ok unfolding N edges(1) graph_ok_def by (simp split: if_splits)
  have cn: "count_ok V' ''nodes'' (dom (node_at V' lmt))" unfolding N by (rule count_ok_frame [of V' _ V, OF counts(2)]) (use ok in \<open>simp add: graph_ok_def\<close>)
  show ?thesis using ok edges(2) R E cn counts(1) rest unfolding graph_ok_def N [symmetric] by simp
qed

lemma pbind_ret: "pbind m pret = m"
  by (auto simp: pbind_def pret_def fun_eq_iff split: bind_split sum.splits)

lemma pthen4: "pthen a (pthen b (pthen c d)) = pmapM (\<lambda>f. f) [a, b, c, d]"
  by (simp add: pbind_ret)

lemma delete_each:
  assumes B: "bolt_writes B" and "distinct bs" and "live s"
    and Q: "\<And>s'. live s' \<Longrightarrow> vw B s' = (\<lambda>b. if b \<in> set bs \<and> c b then (vw B s b)(g b := None) else vw B s b) \<Longrightarrow> Q () s'"
  shows "ensures (pmapM (\<lambda>b. if c b then tx_Delete B b (g b) else pret ()) bs) s Q"
  using assms(2-)
proof (induction bs arbitrary: s)
  case (Cons x xs)
  let ?V1 = "if c x then (vw B s)(x := (vw B s x)(g x := None)) else vw B s"
  have "ensures (if c x then tx_Delete B x (g x) else pret ()) s (\<lambda>_ s1. live s1 \<and> vw B s1 = ?V1)"
    using Cons.prems(2) by (auto intro!: ens delete_live [OF B])
  then show ?case unfolding pmapM.simps
  proof (rule ensures_seq, elim conjE)
    fix a s1 assume s1: "live s1" "vw B s1 = ?V1"
    show "ensures (pmapM (\<lambda>b. if c b then tx_Delete B b (g b) else pret ()) xs) s1 Q"
      using Cons.prems(1) by (intro Cons.IH [OF _ s1(1)] Cons.prems(3)) (auto simp: s1(2) fun_eq_iff)
  qed
qed (simp add: ens)

lemma put_each:
  assumes B: "bolt_writes B" and "distinct bs" and "live s"
    and Q: "\<And>s'. live s' \<Longrightarrow> vw B s' = (\<lambda>b. if b \<in> set bs \<and> c b then (vw B s b)(g b \<mapsto> v) else vw B s b) \<Longrightarrow> Q () s'"
  shows "ensures (pmapM (\<lambda>b. if c b then tx_Put B b (g b) v else pret ()) bs) s Q"
  using assms(2-)
proof (induction bs arbitrary: s)
  case (Cons x xs)
  let ?V1 = "if c x then (vw B s)(x := (vw B s x)(g x \<mapsto> v)) else vw B s"
  have "ensures (if c x then tx_Put B x (g x) v else pret ()) s (\<lambda>_ s1. live s1 \<and> vw B s1 = ?V1)"
    using Cons.prems(2) by (auto intro!: ens put_live [OF B])
  then show ?case unfolding pmapM.simps
  proof (rule ensures_seq, elim conjE)
    fix a s1 assume s1: "live s1" "vw B s1 = ?V1"
    show "ensures (pmapM (\<lambda>b. if c b then tx_Put B b (g b) v else pret ()) xs) s1 Q"
      using Cons.prems(1) by (intro Cons.IH [OF _ s1(1)] Cons.prems(3)) (auto simp: s1(2) fun_eq_iff)
  qed
qed (simp add: ens)

definition edge_bucket_list :: "string list" where
  "edge_bucket_list = [''outgoing'', ''incoming'', ''edge-types'', ''edge-order'']"

lemma edge_bucket_list: "distinct edge_bucket_list" "set edge_bucket_list = edge_buckets"
  by (simp_all add: edge_bucket_list_def edge_buckets_def)

lemma remove_edge_rows: "removeEdgePostings B e = pmapM (\<lambda>b. if True then tx_Delete B b (edge_row b e) else pret ()) edge_bucket_list"
  by (simp add: removeEdgePostings_def edge_rows_def edge_bucket_list_def edge_row_def)

text \<open>The rows the code replaces are those that differ.\<close>

definition row_differs :: "EdgeRecord option \<Rightarrow> EdgeRecord \<Rightarrow> string \<Rightarrow> bool" where
  "row_differs old e b = (case old of None \<Rightarrow> True | Some o' \<Rightarrow> edge_row b o' \<noteq> edge_row b e)"

lemma drop_stale_rows_all:
  assumes "\<forall>o'. old = Some o' \<longrightarrow> er_ID o' = er_ID e"
  shows "drop_stale_rows B old e = (case old of None \<Rightarrow> pret () | Some o' \<Rightarrow>
    pmapM (\<lambda>b. if row_differs (Some o') e b then tx_Delete B b (edge_row b o') else pret ()) edge_bucket_list)"
  unfolding drop_stale_rows_def pthen4 edge_bucket_list_def using assms
  by (cases old) (simp_all add: row_differs_def edge_row_def pagePair_def same_order_key_def canonical_key_inj)

lemma put_new_rows_all:
  assumes "\<forall>o'. old = Some o' \<longrightarrow> er_ID o' = er_ID e"
  shows "put_new_rows B old e = pmapM (\<lambda>b. if row_differs old e b then tx_Put B b (edge_row b e) [] else pret ()) edge_bucket_list"
  unfolding put_new_rows_def pthen4 edge_bucket_list_def using assms
  by (cases old) (simp_all add: row_differs_def edge_row_def pagePair_def same_order_key_def canonical_key_inj)

text \<open>The rows after an edge was stored or deleted.\<close>

lemma edge_final:
  assumes ok: "graph_ok V lmt" and post: "\<And>b. b \<notin> {''edge-property-postings'', ''counts'', ''edges''} \<union> edge_buckets \<Longrightarrow> V' b = V b"
    and edges: "V' ''edges'' = (V ''edges'')(pageID i := x)" "\<And>data. x = Some data \<Longrightarrow> \<exists>e. decodePageEdge data i lmt = Inr e"
    and e: "e = (case x of None \<Rightarrow> None | Some data \<Rightarrow> (case decodePageEdge data i lmt of Inl _ \<Rightarrow> None | Inr e \<Rightarrow> Some e))"
    and rows: "\<And>b k. b \<in> edge_buckets \<Longrightarrow> V' b k \<noteq> None \<longleftrightarrow>
        (\<exists>e'. e = Some e' \<and> k = edge_row b e') \<or> V b k \<noteq> None \<and> \<not> (\<exists>old. edge_at V lmt i = Some old \<and> k = edge_row b old)"
    and ends: "\<And>e'. e = Some e' \<Longrightarrow> node_at V lmt (er_SourceID e') \<noteq> None \<and> node_at V lmt (er_TargetID e') \<noteq> None"
    and counts: "count_ok V' ''edges'' (dom ((edge_at V lmt)(i := e)))" "V' ''counts'' (string_bytes ''nodes'') = V ''counts'' (string_bytes ''nodes'')"
  shows "graph_ok V' lmt \<and> node_at V' lmt = node_at V lmt \<and> edge_at V' lmt = (edge_at V lmt)(i := e)"
proof -
  have E: "edge_at V' lmt = (edge_at V lmt)(i := e)"
    using edges(1) e by (auto simp: edge_at_def fun_eq_iff split: option.split)
  have D: "\<exists>j e. k = pageID j \<and> decodePageEdge data j lmt = Inr e" if "V' ''edges'' k = Some data" for k data
    using that ok edges(2) unfolding edges(1) graph_ok_def by (auto split: if_splits)
  have same: "V' ''nodes'' = V ''nodes''" "V' ''labels'' = V ''labels''" by (rule post, simp add: edge_buckets_def)+
  have "graph_ok V' lmt"
    by (rule edge_change_graph [OF ok E D rows ends _ counts(2) same]) (use counts(1) E in auto)
  moreover have "node_at V' lmt = node_at V lmt" by (rule at_frame(1) [of V' V, OF same(1)])
  ultimately show ?thesis using E by blast
qed

lemma delete_edge_ok:
  assumes B: "bolt_reads B" "bolt_writes B" and "live s" "graph_ok (vw B s) (recordLimit mrb)"
  shows "ensures (DeleteEdge B ord mrb i) s (\<lambda>_ s'. live s' \<and> graph_ok (vw B s') (recordLimit mrb) \<and>
    node_at (vw B s') (recordLimit mrb) = node_at (vw B s) (recordLimit mrb) \<and>
    edge_at (vw B s') (recordLimit mrb) = (edge_at (vw B s) (recordLimit mrb))(i := None))"
proof -
  let ?l = "recordLimit mrb" and ?V = "vw B s"
  have post: "postings False = ''edge-property-postings''" by (simp add: pagePropertyBuckets_def)
  define Fin where "Fin s' \<longleftrightarrow> live s' \<and> graph_ok (vw B s') ?l \<and> node_at (vw B s') ?l = node_at ?V ?l \<and> edge_at (vw B s') ?l = (edge_at ?V ?l)(i := None)" for s'
  have "ensures (DeleteEdge B ord mrb i) s (\<lambda>_. Fin)" unfolding DeleteEdge_def
  proof (rule ensures_bind, rule get_edge_live [OF assms(3)])
    show "ensures (case edge_at ?V ?l i of None \<Rightarrow> pret () | Some e \<Rightarrow> pthen (UpdateEdgePropertyIndexes B ord (Some e) None)
        (pthen (removeEdgePostings B e) (pthen (changeCount B ''edges'' False) (tx_Delete B ''edges'' (pageID i))))) s (\<lambda>_. Fin)"
    proof (cases "edge_at ?V ?l i")
      case None
      then have "Fin s" using assms(3,4) by (auto simp: Fin_def)
      then show ?thesis using None by (simp add: ens)
    next
      case (Some e)
      have "ensures (pthen (UpdateEdgePropertyIndexes B ord (Some e) None)
        (pthen (removeEdgePostings B e) (pthen (changeCount B ''edges'' False) (tx_Delete B ''edges'' (pageID i))))) s (\<lambda>_. Fin)"
        unfolding UpdateEdgePropertyIndexes_def remove_edge_rows
      proof (rule ensures_seq [OF update_frame [OF B assms(3)]], rule ensures_bind, rule delete_each [OF B(2) edge_bucket_list(1)])
        fix s1 assume f1: "frame B {postings False} s s1"
        show "live s1" using f1 by (simp add: frame_def)
        fix s2 assume s2: "live s2" "vw B s2 = (\<lambda>b. if b \<in> set edge_bucket_list \<and> True then (vw B s1 b)(edge_row b e := None) else vw B s1 b)"
        have v1: "vw B s1 b = ?V b" if "b \<noteq> postings False" for b using f1 that by (simp add: frame_def)
        have v2: "vw B s2 b = (if b \<in> edge_buckets then (?V b)(edge_row b e := None) else ?V b)" if "b \<noteq> postings False" for b
          using s2(2) v1 [OF that] by (simp add: edge_bucket_list(2))
        have c2: "count_ok (vw B s2) ''edges'' (dom (edge_at ?V ?l))"
          by (rule count_ok_frame [of _ _ ?V]) (use v2 assms(4) in \<open>simp_all add: graph_ok_def edge_buckets_def post\<close>)
        show "ensures (pthen (changeCount B ''edges'' False) (tx_Delete B ''edges'' (pageID i))) s2 (\<lambda>_. Fin)"
        proof (rule ensures_bind, rule change_count_live [OF B(2) s2(1) c2], rule delete_live [OF B(2)])
          fix s3 bs s4 assume s3: "vw B s3 = (vw B s2)(''counts'' := (vw B s2 ''counts'')(string_bytes ''edges'' \<mapsto> bs))" "length bs = 8"
            "\<not> False \<longrightarrow> unat (from_be64 bs) + 1 = card (dom (edge_at ?V ?l))"
            and s4: "live s4" "vw B s4 = (vw B s3)(''edges'' := (vw B s3 ''edges'')(pageID i := None))"
          have v4: "vw B s4 b = vw B s2 b" if "b \<notin> {''counts'', ''edges''}" for b using s3(1) s4(2) that by simp
          have card: "card (dom ((edge_at ?V ?l)(i := None))) + 1 = card (dom (edge_at ?V ?l))"
            using Some card_Suc_Diff1 [of "dom (edge_at ?V ?l)" i] by (simp add: domI)
          have "graph_ok (vw B s4) ?l \<and> node_at (vw B s4) ?l = node_at ?V ?l \<and> edge_at (vw B s4) ?l = (edge_at ?V ?l)(i := None)"
          proof (rule edge_final [OF assms(4), where x = None])
            show "vw B s4 b = ?V b" if "b \<notin> {''edge-property-postings'', ''counts'', ''edges''} \<union> edge_buckets" for b
              using that v4 [of b] v2 [of b] by (simp add: post)
            show "vw B s4 ''edges'' = (?V ''edges'')(pageID i := None)" using s3(1) s4(2) v2 [of "''edges''"] by (simp add: post edge_buckets_def)
            show "vw B s4 b k \<noteq> None \<longleftrightarrow> (\<exists>e'. None = Some e' \<and> k = edge_row b e') \<or>
                ?V b k \<noteq> None \<and> \<not> (\<exists>old. edge_at ?V ?l i = Some old \<and> k = edge_row b old)" if b: "b \<in> edge_buckets" for b k
            proof -
              have "b \<noteq> postings False" "b \<notin> {''counts'', ''edges''}" using b by (auto simp: edge_buckets_def post)
              then show ?thesis using v4 [of b] v2 [of b] b Some by simp
            qed
            show "count_ok (vw B s4) ''edges'' (dom ((edge_at ?V ?l)(i := None)))"
              using s3 s4(2) card by (intro count_ok_put [where bs = bs]) simp_all
            show "vw B s4 ''counts'' (string_bytes ''nodes'') = ?V ''counts'' (string_bytes ''nodes'')"
              using s3(1) s4(2) v2 [of "''counts''"] by (simp add: post edge_buckets_def)
          qed simp_all
          then show "Fin s4" using s4(1) by (simp add: Fin_def)
        qed
      qed
      then show ?thesis using Some by simp
    qed
  qed
  then show ?thesis by (rule ensures_conseq) (simp add: Fin_def)
qed

lemma require_nodes_live:
  assumes "live s" "(\<forall>i\<in>set ids. node_at (vw B s) (recordLimit mrb) i \<noteq> None) \<Longrightarrow> Q () s"
  shows "ensures (pmapM (require_node B mrb) ids) s Q"
  using assms(2)
proof (induction ids)
  case (Cons i ids)
  have "ensures (require_node B mrb i) s (\<lambda>_ s'. s' = s \<and> node_at (vw B s) (recordLimit mrb) i \<noteq> None)"
    unfolding require_node_def by (rule ensures_bind, rule get_node_live [OF assms(1)]) (auto intro!: ens)
  then show ?case unfolding pmapM.simps
    by (rule ensures_seq) (use Cons in auto)
qed (simp add: ens)

lemma edge_count_live:
  assumes B: "bolt_writes B" and "live s" "count_ok (vw B s) ''edges'' (dom M)"
  shows "ensures (if M i = None then changeCount B ''edges'' True else pret ()) s (\<lambda>_ s'. live s' \<and> count_ok (vw B s') ''edges'' (insert i (dom M)) \<and>
    (\<forall>b. b \<noteq> ''counts'' \<longrightarrow> vw B s' b = vw B s b) \<and> vw B s' ''counts'' (string_bytes ''nodes'') = vw B s ''counts'' (string_bytes ''nodes''))"
proof (cases "M i")
  case None
  have card: "card (insert i (dom M)) = card (dom M) + 1" using None by (simp add: domIff)
  have "ensures (changeCount B ''edges'' True) s (\<lambda>_ s'. live s' \<and> count_ok (vw B s') ''edges'' (insert i (dom M)) \<and>
    (\<forall>b. b \<noteq> ''counts'' \<longrightarrow> vw B s' b = vw B s b) \<and> vw B s' ''counts'' (string_bytes ''nodes'') = vw B s ''counts'' (string_bytes ''nodes''))"
  proof (rule change_count_live [OF assms])
    fix s' bs assume s': "live s'" "vw B s' = (vw B s)(''counts'' := (vw B s ''counts'')(string_bytes ''edges'' \<mapsto> bs))" "length bs = 8"
      "True \<longrightarrow> unat (from_be64 bs) = card (dom M) + 1"
    have "count_ok (vw B s') ''edges'' (insert i (dom M))" using s' card by (intro count_ok_put [where bs = bs]) simp_all
    then show "live s' \<and> count_ok (vw B s') ''edges'' (insert i (dom M)) \<and>
      (\<forall>b. b \<noteq> ''counts'' \<longrightarrow> vw B s' b = vw B s b) \<and> vw B s' ''counts'' (string_bytes ''nodes'') = vw B s ''counts'' (string_bytes ''nodes'')"
      using s' by simp
  qed
  then show ?thesis using None by simp
next
  case (Some e)
  then have "insert i (dom M) = dom M" by auto
  then show ?thesis using Some assms by (simp add: ens)
qed

text \<open>The rows of the buckets of an edge between the two halves.\<close>

definition dropped_rows :: "(string \<Rightarrow> byte list \<Rightarrow> byte list option) \<Rightarrow> EdgeRecord option \<Rightarrow> EdgeRecord \<Rightarrow> string \<Rightarrow> byte list \<Rightarrow> byte list option" where
  "dropped_rows V old edge b = (if b \<in> edge_buckets \<and> row_differs old edge b
     then (case old of None \<Rightarrow> V b | Some o' \<Rightarrow> (V b)(edge_row b o' := None)) else V b)"

lemma dropped_other [simp]: "b \<notin> edge_buckets \<Longrightarrow> dropped_rows V old edge b = V b"
  by (simp add: dropped_rows_def)

lemma edge_buckets_other [simp]:
  "''edges'' \<notin> edge_buckets" "''counts'' \<notin> edge_buckets" "''nodes'' \<notin> edge_buckets" "''labels'' \<notin> edge_buckets"
  "''edge-property-postings'' \<notin> edge_buckets"
  by (simp_all add: edge_buckets_def)

lemma drop_stale_live:
  assumes "bolt_writes B" "live s" "\<forall>o'. old = Some o' \<longrightarrow> er_ID o' = er_ID e"
  shows "ensures (drop_stale_rows B old e) s (\<lambda>_ s1. live s1 \<and> vw B s1 = dropped_rows (vw B s) old e)"
proof (cases old)
  case None
  then show ?thesis using assms(2) by (auto simp: drop_stale_rows_def dropped_rows_def fun_eq_iff intro!: ens)
next
  case (Some o')
  show ?thesis unfolding drop_stale_rows_all [OF assms(3)] unfolding Some option.case
    by (rule delete_each [OF assms(1) edge_bucket_list(1) assms(2)])
      (simp add: edge_bucket_list(2) fun_eq_iff dropped_rows_def)
qed

lemma put_new_live:
  assumes "bolt_writes B" "live s" "\<forall>o'. old = Some o' \<longrightarrow> er_ID o' = er_ID e"
  shows "ensures (put_new_rows B old e) s (\<lambda>_ s1. live s1 \<and>
    vw B s1 = (\<lambda>b. if b \<in> edge_buckets \<and> row_differs old e b then (vw B s b)(edge_row b e \<mapsto> []) else vw B s b))"
  unfolding put_new_rows_all [OF assms(3)]
  by (rule put_each [OF assms(1) edge_bucket_list(1) assms(2)]) (simp add: edge_bucket_list(2))

lemma stored_edge_row [simp]: "edge_row b (stored_edge e) = edge_row b e"
  by (simp add: edge_row_def stored_edge_def pageCanonicalEdgeKey_def)

text \<open>Both halves together leave exactly the old rows without those of the old edge and with those of the new one.\<close>

lemma replaced_rows:
  assumes "\<And>o'. old = Some o' \<Longrightarrow> V b (edge_row b o') \<noteq> None" "b \<in> edge_buckets"
    "V' b = (if row_differs old e b then (dropped_rows V old e b)(edge_row b e \<mapsto> []) else dropped_rows V old e b)"
  shows "V' b k \<noteq> None \<longleftrightarrow> k = edge_row b e \<or> V b k \<noteq> None \<and> \<not> (\<exists>o'. old = Some o' \<and> k = edge_row b o')"
proof (cases "row_differs old e b")
  case True
  then show ?thesis using assms by (cases old) (auto simp: dropped_rows_def)
next
  case False
  then obtain o' where o': "old = Some o'" "edge_row b o' = edge_row b e" by (auto simp: row_differs_def split: option.splits)
  have "V b (edge_row b e) \<noteq> None" using assms(1) [OF o'(1)] o'(2) by simp
  moreover have "V' b = V b" using assms(3) False by (simp add: dropped_rows_def)
  ultimately show ?thesis using o' by auto
qed

definition edge_stored :: "('t, 'z) bolt_tx_scheme \<Rightarrow> u64 \<Rightarrow> 't pstate \<Rightarrow> EdgeRecord \<Rightarrow> 't pstate \<Rightarrow> bool" where
  "edge_stored B lmt s edge s' \<longleftrightarrow> live s' \<and> graph_ok (vw B s') lmt \<and> node_at (vw B s') lmt = node_at (vw B s) lmt \<and>
     edge_at (vw B s') lmt = (edge_at (vw B s) lmt)(er_ID edge \<mapsto> stored_edge edge)"

lemma put_edge_graph:
  assumes ok: "graph_ok (vw B s) lmt" and dec: "decodePageEdge data (er_ID edge) lmt = Inr (stored_edge edge)"
    and ends: "node_at (vw B s) lmt (er_SourceID edge) \<noteq> None" "node_at (vw B s) lmt (er_TargetID edge) \<noteq> None"
    and v3: "\<And>b. b \<notin> {''edge-property-postings'', ''counts''} \<Longrightarrow> vw B s3 b = dropped_rows (vw B s) (edge_at (vw B s) lmt (er_ID edge)) edge b"
      "count_ok (vw B s3) ''edges'' (insert (er_ID edge) (dom (edge_at (vw B s) lmt)))"
      "vw B s3 ''counts'' (string_bytes ''nodes'') = vw B s ''counts'' (string_bytes ''nodes'')"
    and s4: "vw B s4 = (vw B s3)(''edges'' := (vw B s3 ''edges'')(pageID (er_ID edge) \<mapsto> data))"
    and s5: "live s5" "vw B s5 = (\<lambda>b. if b \<in> edge_buckets \<and> row_differs (edge_at (vw B s) lmt (er_ID edge)) edge b then (vw B s4 b)(edge_row b edge \<mapsto> []) else vw B s4 b)"
  shows "edge_stored B lmt s edge s5"
proof -
  let ?V = "vw B s" and ?i = "er_ID edge"
  let ?old = "edge_at ?V lmt ?i"
  have v5: "vw B s5 b = (if b \<in> edge_buckets \<and> row_differs ?old edge b then (vw B s3 b)(edge_row b edge \<mapsto> []) else vw B s3 b)" if "b \<noteq> ''edges''" for b
    using s5(2) s4 that by simp
  have "graph_ok (vw B s5) lmt \<and> node_at (vw B s5) lmt = node_at ?V lmt \<and> edge_at (vw B s5) lmt = (edge_at ?V lmt)(?i := Some (stored_edge edge))"
  proof (rule edge_final [OF ok, where x = "Some data"])
    show "vw B s5 b = ?V b" if "b \<notin> {''edge-property-postings'', ''counts'', ''edges''} \<union> edge_buckets" for b
      using that v5 [of b] v3(1) [of b] by simp
    show "vw B s5 ''edges'' = (?V ''edges'')(pageID ?i \<mapsto> data)" using s5(2) s4 v3(1) [of "''edges''"] by simp
    show "vw B s5 b k \<noteq> None \<longleftrightarrow> (\<exists>e'. Some (stored_edge edge) = Some e' \<and> k = edge_row b e') \<or>
        ?V b k \<noteq> None \<and> \<not> (\<exists>old. ?old = Some old \<and> k = edge_row b old)" if b: "b \<in> edge_buckets" for b k
    proof -
      have nb: "b \<noteq> ''edges''" "b \<notin> {''edge-property-postings'', ''counts''}" using b by (auto simp: edge_buckets_def)
      have r: "?V b (edge_row b o') \<noteq> None" if "?old = Some o'" for o' using ok b that unfolding graph_ok_def by blast
      have "vw B s5 b k \<noteq> None \<longleftrightarrow> k = edge_row b edge \<or> ?V b k \<noteq> None \<and> \<not> (\<exists>o'. ?old = Some o' \<and> k = edge_row b o')"
        by (rule replaced_rows [of ?old ?V b "vw B s5" edge k]) (use r v5 [OF nb(1)] v3(1) [OF nb(2)] b in simp_all)
      then show ?thesis by simp
    qed
    show "count_ok (vw B s5) ''edges'' (dom ((edge_at ?V lmt)(?i \<mapsto> stored_edge edge)))"
      using v3(2) v5 [of "''counts''"] by (simp add: count_ok_def)
    show "vw B s5 ''counts'' (string_bytes ''nodes'') = ?V ''counts'' (string_bytes ''nodes'')"
      using v3(3) v5 [of "''counts''"] by simp
  qed (use dec ends in \<open>auto simp: stored_edge_def\<close>)
  then show ?thesis using s5(1) by (simp add: edge_stored_def)
qed

lemma put_edge_steps:
  assumes B: "bolt_reads B" "bolt_writes B" and "live s" and ok: "graph_ok (vw B s) lmt"
    and dec: "decodePageEdge data (er_ID edge) lmt = Inr (stored_edge edge)" and old: "old = edge_at (vw B s) lmt (er_ID edge)"
    and ends: "node_at (vw B s) lmt (er_SourceID edge) \<noteq> None" "node_at (vw B s) lmt (er_TargetID edge) \<noteq> None"
  shows "ensures (pthen (drop_stale_rows B old edge) (pthen (UpdateEdgePropertyIndexes B ord old (Some edge))
      (pthen (if old = None then changeCount B ''edges'' True else pret ())
      (pthen (tx_Put B ''edges'' (pageID (er_ID edge)) data) (put_new_rows B old edge))))) s (\<lambda>_. edge_stored B lmt s edge)"
proof -
  let ?i = "er_ID edge" and ?V = "vw B s"
  have oid: "\<forall>o'. old = Some o' \<longrightarrow> er_ID o' = ?i" using old by (simp add: at_id(2) [of ?V lmt])
  have post: "postings False = ''edge-property-postings''" by (simp add: pagePropertyBuckets_def)
  have fin: "ensures (put_new_rows B old edge) s4 (\<lambda>_. edge_stored B lmt s edge)"
    if "live s4" "vw B s4 = (vw B s3)(''edges'' := (vw B s3 ''edges'')(pageID ?i \<mapsto> data))"
      "\<And>b. b \<notin> {''edge-property-postings'', ''counts''} \<Longrightarrow> vw B s3 b = dropped_rows ?V old edge b"
      "count_ok (vw B s3) ''edges'' (insert ?i (dom (edge_at ?V lmt)))" "vw B s3 ''counts'' (string_bytes ''nodes'') = ?V ''counts'' (string_bytes ''nodes'')" for s3 s4
    by (rule ensures_conseq [OF put_new_live [OF B(2) that(1) oid]], elim conjE)
      (rule put_edge_graph [OF ok dec ends that(3) [unfolded old] that(4,5,2)], (use old in simp)+)
  have put: "ensures (pthen (tx_Put B ''edges'' (pageID ?i) data) (put_new_rows B old edge)) s3 (\<lambda>_. edge_stored B lmt s edge)"
    if "live s3" "\<And>b. b \<notin> {''edge-property-postings'', ''counts''} \<Longrightarrow> vw B s3 b = dropped_rows ?V old edge b"
      "count_ok (vw B s3) ''edges'' (insert ?i (dom (edge_at ?V lmt)))" "vw B s3 ''counts'' (string_bytes ''nodes'') = ?V ''counts'' (string_bytes ''nodes'')" for s3
    by (rule ensures_bind, rule put_live [OF B(2) that(1)], rule fin [OF _ _ that(2-4)])
  have count: "ensures (pthen (if old = None then changeCount B ''edges'' True else pret ())
      (pthen (tx_Put B ''edges'' (pageID ?i) data) (put_new_rows B old edge))) s2 (\<lambda>_. edge_stored B lmt s edge)"
    if l2: "live s2" and v2: "\<And>b. b \<noteq> ''edge-property-postings'' \<Longrightarrow> vw B s2 b = dropped_rows ?V old edge b" for s2
  proof -
    have c2: "count_ok (vw B s2) ''edges'' (dom (edge_at ?V lmt))"
      by (rule count_ok_frame [of _ _ ?V]) (use v2 [of "''counts''"] ok in \<open>simp_all add: graph_ok_def\<close>)
    show ?thesis unfolding old
    proof (rule ensures_seq [OF edge_count_live [OF B(2) l2 c2]], elim conjE, fold old, rule put)
      fix s3 b assume "\<forall>b. b \<noteq> ''counts'' \<longrightarrow> vw B s3 b = vw B s2 b" "b \<notin> {''edge-property-postings'', ''counts''}"
      then show "vw B s3 b = dropped_rows ?V old edge b" using v2 [of b] by simp
    qed (use v2 [of "''counts''"] in auto)
  qed
  show ?thesis unfolding UpdateEdgePropertyIndexes_def
    by (rule ensures_seq [OF drop_stale_live [OF B(2) assms(3) oid]], elim conjE,
        rule ensures_seq [OF update_frame [OF B]], assumption, rule count) (auto simp: frame_def post)
qed

lemma put_edge_ok:
  assumes B: "bolt_reads B" "bolt_writes B" and "live s" "graph_ok (vw B s) (recordLimit mrb)" "edge_fits edge"
  shows "ensures (PutEdge B ord mrb edge) s (\<lambda>_ s'. edge_stored B (recordLimit mrb) s edge s' \<and>
    node_at (vw B s) (recordLimit mrb) (er_SourceID edge) \<noteq> None \<and> node_at (vw B s) (recordLimit mrb) (er_TargetID edge) \<noteq> None)"
proof (cases "encodePageEdgeBounded (Some edge) (recordLimit mrb)")
  case (Inl er)
  then show ?thesis by (simp add: PutEdge_def ens)
next
  case (Inr data)
  have dec: "decodePageEdge data (er_ID edge) (recordLimit mrb) = Inr (stored_edge edge)"
    using edge_record_read [OF _ _ _ Inr, of None] assms(5) by (simp add: decodePageEdge_def stored_edge_def edge_fits_def)
  show ?thesis
  proof (cases "word_of_nat (length data) > recordLimit mrb")
    case True
    then show ?thesis by (simp add: PutEdge_def Inr ens)
  next
    case False
    show ?thesis unfolding PutEdge_def Inr sum.case if_not_P [OF False]
    proof (rule ensures_bind, rule require_nodes_live [OF assms(3)], rule ensures_bind, rule get_edge_live [OF assms(3)])
      assume "\<forall>i\<in>set [er_SourceID edge, er_TargetID edge]. node_at (vw B s) (recordLimit mrb) i \<noteq> None"
      then show "ensures (pthen (drop_stale_rows B (edge_at (vw B s) (recordLimit mrb) (er_ID edge)) edge)
          (pthen (UpdateEdgePropertyIndexes B ord (edge_at (vw B s) (recordLimit mrb) (er_ID edge)) (Some edge))
          (pthen (if edge_at (vw B s) (recordLimit mrb) (er_ID edge) = None then changeCount B ''edges'' True else pret ())
          (pthen (tx_Put B ''edges'' (pageID (er_ID edge)) data) (put_new_rows B (edge_at (vw B s) (recordLimit mrb) (er_ID edge)) edge))))) s
        (\<lambda>_ s'. edge_stored B (recordLimit mrb) s edge s' \<and>
          node_at (vw B s) (recordLimit mrb) (er_SourceID edge) \<noteq> None \<and> node_at (vw B s) (recordLimit mrb) (er_TargetID edge) \<noteq> None)"
        by (intro ensures_conseq [OF put_edge_steps [OF B assms(3,4) dec refl]]) auto
    qed
  qed
qed

end
