(* ===== verification/PageIndexLaws.thy ===== *)
theory PageIndexLaws
  imports PageGraphLaws
begin

text \<open>
  The property indexes of the page store hold exactly the entities they promise: for every defined index, a posting row for
  a value key and an entity exists precisely when the entity carries the scope and a value with that key. Writing an entity,
  building an index and dropping it keep this. Digests are not assumed to be injective: a row repeats what it stands for.
\<close>

section \<open>What a record shows to an index\<close>

lemma sum_index_terms: "sum_list_map f (map g l) = sum_list_map (f \<circ> g) l"
  by (induction l) (simp_all split: sum.split)

lemma hash_canon: "writePropertyValueHash (canon_g v) = writePropertyValueHash v"
proof (induction v rule: canon_g.induct)
  case (1 visit l)
  then have "sum_list_map (writePropertyValueHash \<circ> canon_g) l = sum_list_map writePropertyValueHash l" by (intro sum_list_map_cong) simp_all
  then show ?case by (simp add: write_items_def sum_index_terms opt_items_def length_bytes_def split: sum.split)
next
  case (2 visit l)
  let ?w = "\<lambda>(name, v). case writePropertyValueHash v of Inl er \<Rightarrow> Inl er | Inr bs \<Rightarrow> Inr (length_bytes name @ string_bytes name @ bs)"
  have "sum_list_map (?w \<circ> (\<lambda>(k, v). (k, canon_g v))) (sort_entries l) = sum_list_map ?w (sort_entries l)"
    using 2 by (intro sum_list_map_cong) auto
  then show ?case by (simp add: write_entries_def opt_items_def map_values_def sort_entries_map sum_index_terms length_bytes_def split: sum.split)
qed simp_all

lemma key_canon: "makePropertyValueKey (canon_g v) = makePropertyValueKey v"
proof -
  have "propertyKind (canon_g v) = propertyKind v" by (cases v rule: canon_g.cases) (simp_all add: propertyKind_def)
  then have h: "hashed_key (canon_g v) = hashed_key v" by (simp only: hashed_key_def hash_canon)
  then show ?thesis by (cases v rule: canon_g.cases) simp_all
qed

lemma lookup_canon:
  assumes "p_inv p"
  shows "p_Lookup (canon_properties p) name = (if snd (p_Lookup p name) then (canon_g (fst (p_Lookup p name)), True) else (GNil, False))"
proof -
  have d: "distinct (map fst (map_values canon_g (p_All p)))" using p_distinct [OF assms] by simp
  have "map_of (map_values canon_g (p_All p)) = map_option canon_g \<circ> map_of (p_All p)" by (simp add: map_values_def map_of_map)
  then have "p_inv (canon_properties p)" "p_view (canon_properties p) = map_option canon_g \<circ> p_view p"
    unfolding canon_properties_def using of_entries_inv [OF d] of_entries_view [OF d] by (simp_all add: p_view_def)
  then show ?thesis using assms by (simp add: p_lookup_view split: option.split)
qed

definition index_key :: "PropertyIndexDefinition \<Rightarrow> indexed \<Rightarrow> propertyValueKey option" where
  "index_key d x = (case x of (properties, scopes, _) \<Rightarrow>
     if propertyIndexMatches d scopes properties
     then (case makePropertyValueKey (fst (p_Lookup properties (id_Property d))) of Inl _ \<Rightarrow> None | Inr key \<Rightarrow> Some key) else None)"

lemma index_key_stored:
  "p_inv (nr_Properties n) \<Longrightarrow> index_key d (node_indexed (stored_node n)) = index_key d (node_indexed n)"
  "p_inv (er_Properties e) \<Longrightarrow> index_key d (edge_indexed (stored_edge e)) = index_key d (edge_indexed e)"
  by (auto simp: index_key_def node_indexed_def edge_indexed_def stored_node_def stored_edge_def propertyIndexMatches_def lookup_canon key_canon split: sum.split)

lemma value_key_digest: "makePropertyValueKey v = Inr key \<Longrightarrow> length (vk_digest key) = 32"
  by (cases v) (auto simp: zero_value_key_def zero_digest_def hashed_key_def split: sum.splits)

section \<open>Posting rows\<close>

type_synonym bucket_rows = "byte list \<Rightarrow> byte list option"

definition posted :: "bucket_rows \<Rightarrow> PropertyIndexDefinition \<Rightarrow> propertyValueKey \<Rightarrow> u64 \<Rightarrow> bool" where
  "posted P d key i \<longleftrightarrow> (\<exists>data. P (posting_key d key i) = Some data \<and> decodePagePropertyPosting data = Inr (d, key))"

definition postings_ok :: "bucket_rows \<Rightarrow> bool" where
  "postings_ok P \<longleftrightarrow> (\<forall>k data. P k = Some data \<longrightarrow> (\<exists>d key i. decodePagePropertyPosting data = Inr (d, key) \<and> k = posting_key d key i))"

lemma posting_key_id: "posting_key d key i = posting_key d' key' j \<Longrightarrow> i = j"
  by (simp add: posting_key_def pageID_def pagePropertyPostingPrefix_def pagePropertyDefinitionHash_def pagePropertyDigest_def)

lemma posted_put:
  assumes "decodePagePropertyPosting row = Inr (d, key)" "\<And>data. P (posting_key d key i) = Some data \<Longrightarrow> decodePagePropertyPosting data = Inr (d, key)"
  shows "posted (P(posting_key d key i \<mapsto> row)) d' key' j \<longleftrightarrow> posted P d' key' j \<or> d' = d \<and> key' = key \<and> j = i"
proof (cases "posting_key d' key' j = posting_key d key i")
  case True
  then show ?thesis using assms posting_key_id [OF True] by (auto simp: posted_def)
next
  case False
  then show ?thesis by (auto simp: posted_def)
qed

lemma posted_remove:
  assumes "P (posting_key d key i) = Some data" "decodePagePropertyPosting data = Inr (d, key)"
  shows "posted (P(posting_key d key i := None)) d' key' j \<longleftrightarrow> posted P d' key' j \<and> \<not> (d' = d \<and> key' = key \<and> j = i)"
proof (cases "posting_key d' key' j = posting_key d key i")
  case True
  then show ?thesis using assms posting_key_id [OF True] by (auto simp: posted_def)
next
  case False
  then show ?thesis by (auto simp: posted_def)
qed

lemma postings_ok_put: "postings_ok P \<Longrightarrow> decodePagePropertyPosting row = Inr (d, key) \<Longrightarrow> postings_ok (P(posting_key d key i \<mapsto> row))"
  by (auto simp: postings_ok_def)

lemma postings_ok_remove: "postings_ok P \<Longrightarrow> postings_ok (P(k := None))"
  by (auto simp: postings_ok_def)

lemma vw_short: "bolt_reads B \<Longrightarrow> live s \<Longrightarrow> vw B s b k = Some v \<Longrightarrow> length v < 2 ^ 31"
  using live_open [of s B] by (auto simp: bolt_reads_def bt_map_def split: if_splits)

lemma written_posting_decodes:
  assumes "length (encodePagePropertyPosting d key) < 2 ^ 31" "length (vk_digest key) = 32"
  shows "decodePagePropertyPosting (encodePagePropertyPosting d key) = Inr (d, key)"
  by (rule posting_decodes) (use assms in \<open>simp_all add: encodePagePropertyPosting_def writePageString_def Let_def\<close>)

text \<open>One entity's posting for one definition.\<close>

lemma backend_put_posted:
  assumes "bolt_reads B" "bolt_writes B" "live s" "postings_ok (vw B s (postings node))"
  shows "ensures (backend_put B node d v i) s (\<lambda>_ s'. frame B {postings node} s s' \<and> postings_ok (vw B s' (postings node)) \<and>
    (\<exists>key. makePropertyValueKey v = Inr key \<and> (\<forall>d' key' j. posted (vw B s' (postings node)) d' key' j \<longleftrightarrow>
      posted (vw B s (postings node)) d' key' j \<or> d' = d \<and> key' = key \<and> j = i)))"
proof (rule backend_put_live [OF assms(2,3)])
  fix key s' assume k: "makePropertyValueKey v = Inr key" and l: "live s'"
    and s': "vw B s' = (vw B s)(postings node := (vw B s (postings node))(posting_key d key i \<mapsto> encodePagePropertyPosting d key))"
    and c: "\<And>data. vw B s (postings node) (posting_key d key i) = Some data \<Longrightarrow> decodePagePropertyPosting data = Inr (d, key)"
  have "vw B s' (postings node) (posting_key d key i) = Some (encodePagePropertyPosting d key)" using s' by simp
  from vw_short [OF assms(1) l this] have dec: "decodePagePropertyPosting (encodePagePropertyPosting d key) = Inr (d, key)"
    by (rule written_posting_decodes) (rule value_key_digest [OF k])
  show "frame B {postings node} s s' \<and> postings_ok (vw B s' (postings node)) \<and>
    (\<exists>key. makePropertyValueKey v = Inr key \<and> (\<forall>d' key' j. posted (vw B s' (postings node)) d' key' j \<longleftrightarrow>
      posted (vw B s (postings node)) d' key' j \<or> d' = d \<and> key' = key \<and> j = i))"
    using l k s' posted_put [OF dec c] postings_ok_put [OF assms(4) dec] by (auto simp: frame_def)
qed

lemma backend_remove_posted:
  assumes "bolt_writes B" "live s" "postings_ok (vw B s (postings node))"
  shows "ensures (backend_remove B node d v i) s (\<lambda>_ s'. frame B {postings node} s s' \<and> postings_ok (vw B s' (postings node)) \<and>
    (\<exists>key. makePropertyValueKey v = Inr key \<and> (\<forall>d' key' j. posted (vw B s' (postings node)) d' key' j \<longleftrightarrow>
      posted (vw B s (postings node)) d' key' j \<and> \<not> (d' = d \<and> key' = key \<and> j = i))))"
proof (rule backend_remove_live [OF assms(1,2)], elim disjE conjE exE)
  fix key s' data assume k: "makePropertyValueKey v = Inr key" and l: "live s'"
    and s': "vw B s' = (vw B s)(postings node := (vw B s (postings node))(posting_key d key i := None))"
    and c: "vw B s (postings node) (posting_key d key i) = Some data" "decodePagePropertyPosting data = Inr (d, key)"
  show "frame B {postings node} s s' \<and> postings_ok (vw B s' (postings node)) \<and>
    (\<exists>key. makePropertyValueKey v = Inr key \<and> (\<forall>d' key' j. posted (vw B s' (postings node)) d' key' j \<longleftrightarrow>
      posted (vw B s (postings node)) d' key' j \<and> \<not> (d' = d \<and> key' = key \<and> j = i)))"
    using l k s' posted_remove [of "vw B s (postings node)", OF c] postings_ok_remove [OF assms(3)] by (auto simp: frame_def)
next
  fix key s' assume k: "makePropertyValueKey v = Inr key" and l: "live s'" and s': "vw B s' = vw B s"
    and c: "\<forall>data. vw B s (postings node) (posting_key d key i) = Some data \<longrightarrow> decodePagePropertyPosting data \<noteq> Inr (d, key)"
  then have "\<not> posted (vw B s (postings node)) d key i" by (auto simp: posted_def)
  then show "frame B {postings node} s s' \<and> postings_ok (vw B s' (postings node)) \<and>
    (\<exists>key. makePropertyValueKey v = Inr key \<and> (\<forall>d' key' j. posted (vw B s' (postings node)) d' key' j \<longleftrightarrow>
      posted (vw B s (postings node)) d' key' j \<and> \<not> (d' = d \<and> key' = key \<and> j = i)))"
    using l k s' assms(3) by (auto simp: frame_def)
qed

text \<open>\<open>shows_key d x key\<close>: the entity, if there is one, is indexed by \<open>d\<close> under \<open>key\<close>.\<close>

definition shows_key :: "PropertyIndexDefinition \<Rightarrow> indexed option \<Rightarrow> propertyValueKey \<Rightarrow> bool" where
  "shows_key d x key \<longleftrightarrow> (\<exists>y. x = Some y \<and> index_key d y = Some key)"

text \<open>\<open>reposted P P' ds i x\<close>: the postings of \<open>i\<close> for the definitions \<open>ds\<close> are now those of \<open>x\<close>, and no other changed.\<close>

definition reposted :: "bucket_rows \<Rightarrow> bucket_rows \<Rightarrow> PropertyIndexDefinition set \<Rightarrow> u64 \<Rightarrow> indexed option \<Rightarrow> bool" where
  "reposted P P' ds i x \<longleftrightarrow>
     (\<forall>d key j. posted P' d key j \<longleftrightarrow> (if d \<in> ds \<and> j = i then shows_key d x key else posted P d key j))"

lemma update_definition_posted:
  assumes "bolt_reads B" "bolt_writes B" "live s" "postings_ok (vw B s (postings node))"
    and old: "\<And>key. posted (vw B s (postings node)) d key i \<longleftrightarrow> shows_key d old key"
    and ids: "\<And>p sc j. old = Some (p, sc, j) \<Longrightarrow> j = i" "\<And>p sc j. new = Some (p, sc, j) \<Longrightarrow> j = i"
  shows "ensures (update_definition B node old new d) s (\<lambda>_ s'. frame B {postings node} s s' \<and> postings_ok (vw B s' (postings node)) \<and>
    reposted (vw B s (postings node)) (vw B s' (postings node)) {d} i new)"
proof -
  let ?P = "\<lambda>s. vw B s (postings node)"
  let ?mid = "\<lambda>s1. frame B {postings node} s s1 \<and> postings_ok (?P s1) \<and> reposted (?P s) (?P s1) {d} i None"
  have none: "reposted (?P s) (?P s) {d} i None" if "\<And>key. \<not> shows_key d old key"
    using old that by (auto simp: reposted_def shows_key_def)
  have remove: "ensures (case old of Some (properties, scopes, ident) \<Rightarrow> if propertyIndexMatches d scopes properties
      then backend_remove B node d (fst (p_Lookup properties (id_Property d))) ident else pret () | None \<Rightarrow> pret ()) s (\<lambda>_. ?mid)"
  proof (cases old)
    case None
    then show ?thesis using none assms(3,4) by (auto simp: shows_key_def frame_def intro!: ens)
  next
    case (Some x)
    obtain p sc where x: "old = Some (p, sc, i)" using Some ids(1) by (metis prod_cases3)
    show ?thesis
    proof (cases "propertyIndexMatches d sc p")
      case False
      then show ?thesis using none x assms(3,4) by (auto simp: shows_key_def index_key_def frame_def intro!: ens)
    next
      case True
      have "ensures (backend_remove B node d (fst (p_Lookup p (id_Property d))) i) s (\<lambda>_. ?mid)"
      proof (rule ensures_conseq [OF backend_remove_posted [OF assms(2-4)]], elim conjE exE, intro conjI)
        fix s1 key assume k: "makePropertyValueKey (fst (p_Lookup p (id_Property d))) = Inr key"
          and r: "\<forall>d' key' j. posted (?P s1) d' key' j \<longleftrightarrow> posted (?P s) d' key' j \<and> \<not> (d' = d \<and> key' = key \<and> j = i)"
        have "shows_key d old key' \<longleftrightarrow> key' = key" for key' using x True k by (auto simp: shows_key_def index_key_def)
        then show "reposted (?P s) (?P s1) {d} i None" using r old by (auto simp: reposted_def shows_key_def)
      qed
      then show ?thesis using x True by simp
    qed
  qed
  have put: "ensures (case new of Some (properties, scopes, ident) \<Rightarrow> if propertyIndexMatches d scopes properties
      then backend_put B node d (fst (p_Lookup properties (id_Property d))) ident else pret () | None \<Rightarrow> pret ()) s1
      (\<lambda>_ s'. frame B {postings node} s s' \<and> postings_ok (?P s') \<and> reposted (?P s) (?P s') {d} i new)" if m: "?mid s1" for s1
  proof -
    have keep: "reposted (?P s) (?P s1) {d} i new" if "\<And>key. \<not> shows_key d new key" using m that by (auto simp: reposted_def shows_key_def)
    show ?thesis
    proof (cases new)
      case None
      then show ?thesis using keep m by (auto simp: shows_key_def intro!: ens)
    next
      case (Some x)
      obtain p sc where x: "new = Some (p, sc, i)" using Some ids(2) by (metis prod_cases3)
      show ?thesis
      proof (cases "propertyIndexMatches d sc p")
        case False
        then show ?thesis using keep x m by (auto simp: shows_key_def index_key_def intro!: ens)
      next
        case True
        have l: "live s1" using m by (simp add: frame_def)
        have "ensures (backend_put B node d (fst (p_Lookup p (id_Property d))) i) s1
            (\<lambda>_ s'. frame B {postings node} s s' \<and> postings_ok (?P s') \<and> reposted (?P s) (?P s') {d} i new)"
        proof (rule ensures_conseq [OF backend_put_posted [OF assms(1,2) l]], use m in blast, elim conjE exE, intro conjI)
          fix s' key assume k: "makePropertyValueKey (fst (p_Lookup p (id_Property d))) = Inr key"
            and r: "\<forall>d' key' j. posted (?P s') d' key' j \<longleftrightarrow> posted (?P s1) d' key' j \<or> d' = d \<and> key' = key \<and> j = i"
          have "shows_key d new key' \<longleftrightarrow> key' = key" for key' using x True k by (auto simp: shows_key_def index_key_def)
          then show "reposted (?P s) (?P s') {d} i new" using r m by (auto simp: reposted_def shows_key_def)
        qed (use m frame_trans in blast)+
        then show ?thesis using x True by simp
      qed
    qed
  qed
  show ?thesis unfolding update_definition_def by (rule ensures_seq [OF remove put])
qed

lemma update_definitions_posted:
  assumes "bolt_reads B" "bolt_writes B" "live s" "postings_ok (vw B s (postings node))" "distinct ds"
    and "\<And>d key. d \<in> set ds \<Longrightarrow> posted (vw B s (postings node)) d key i \<longleftrightarrow> shows_key d old key"
    and ids: "\<And>p sc j. old = Some (p, sc, j) \<Longrightarrow> j = i" "\<And>p sc j. new = Some (p, sc, j) \<Longrightarrow> j = i"
  shows "ensures (pmapM (update_definition B node old new) ds) s (\<lambda>_ s'. frame B {postings node} s s' \<and> postings_ok (vw B s' (postings node)) \<and>
    reposted (vw B s (postings node)) (vw B s' (postings node)) (set ds) i new)"
  using assms(3-6)
proof (induction ds arbitrary: s)
  case Nil
  then show ?case by (simp add: ens frame_def reposted_def)
next
  case (Cons d ds)
  let ?P = "\<lambda>s. vw B s (postings node)"
  have "ensures (update_definition B node old new d) s (\<lambda>_ s1. frame B {postings node} s s1 \<and> postings_ok (?P s1) \<and> reposted (?P s) (?P s1) {d} i new)"
    by (rule update_definition_posted [OF assms(1,2) Cons.prems(1,2) _ ids]) (use Cons.prems(4) in simp_all)
  then show ?case unfolding pmapM.simps
  proof (rule ensures_seq, elim conjE)
    fix s1 assume s1: "frame B {postings node} s s1" "postings_ok (?P s1)" "reposted (?P s) (?P s1) {d} i new"
    have l: "live s1" using s1(1) by (simp add: frame_def)
    have "ensures (pmapM (update_definition B node old new) ds) s1 (\<lambda>_ s'. frame B {postings node} s1 s' \<and> postings_ok (?P s') \<and> reposted (?P s1) (?P s') (set ds) i new)"
      by (rule Cons.IH [OF l s1(2)]) (use Cons.prems(3,4) s1(3) in \<open>auto simp: reposted_def\<close>)
    then show "ensures (pmapM (update_definition B node old new) ds) s1 (\<lambda>_ s'. frame B {postings node} s s' \<and> postings_ok (?P s') \<and> reposted (?P s) (?P s') (set (d # ds)) i new)"
      by (rule ensures_conseq) (use s1 frame_trans [OF s1(1)] Cons.prems(3) in \<open>auto simp: reposted_def\<close>)
  qed
qed

section \<open>Definition rows\<close>

definition defined :: "bucket_rows \<Rightarrow> PropertyIndexDefinition \<Rightarrow> bool" where
  "defined D d \<longleftrightarrow> (\<exists>data. D (pagePropertyDefinitionHash d) = Some data \<and> decodePagePropertyDefinition data = Inr d)"

definition definitions_ok :: "bucket_rows \<Rightarrow> bool" where
  "definitions_ok D \<longleftrightarrow> (\<forall>k data. D k = Some data \<longrightarrow> (\<exists>d. decodePagePropertyDefinition data = Inr d \<and> k = pagePropertyDefinitionHash d))"

lemma create_definitions:
  "ix_Definitions (snd (ix_Create d ix)) = (if d \<in> set (ix_Definitions ix) then ix_Definitions ix else ix_Definitions ix @ [d])"
  by (auto simp: ix_Create_def Let_def cloneRoot_def ix_Has_def ix_Definitions_def map_of_eq_None_iff AList.update_keys)

lemma rows_all:
  assumes "bolt_reads B" "live s"
  shows "(k, v) \<in> set (rows (vw B s b) P) \<longleftrightarrow> P k \<and> vw B s b k = Some v"
proof -
  obtain t where t: "vw B s = bt_map B t" using live_open [OF assms(2)] by blast
  have "finite {k. P k \<and> vw B s b k \<noteq> None}" by (rule finite_subset [OF _ finite_rows [OF assms(1), of t b]]) (auto simp: t)
  then show ?thesis by (auto simp: rows_def)
qed

lemma scan_result_ensures:
  "\<exists>er c s'. m s = Some ((er, c), s') \<and> (er = None \<longrightarrow> Q c s') \<Longrightarrow> ensures (scan_result m) s Q"
  by (auto simp: ensures_def scan_result_def split: option.split)

lemma load_definitions:
  assumes "bolt_reads B" "live s" "definitions_ok (vw B s (fst (pagePropertyBuckets node)))"
  shows "ensures (LoadPropertyIndexes B ctx node) s (\<lambda>ix s'. live s' \<and> vw B s' = vw B s \<and> distinct (ix_Definitions ix) \<and>
    set (ix_Definitions ix) = Collect (defined (vw B s (fst (pagePropertyBuckets node)))))"
proof -
  let ?D = "vw B s (fst (pagePropertyBuckets node))"
  let ?L = "rows ?D (scan_range None True None)"
  define I where "I l ix s' \<longleftrightarrow> vw B s' = vw B s \<and> distinct (ix_Definitions ix) \<and>
      set (ix_Definitions ix) = {d. \<exists>k v. (k, v) \<in> set l \<and> decodePagePropertyDefinition v = Inr d}" for l :: "(byte list \<times> byte list) list" and ix s'
  have L: "(k, v) \<in> set ?L \<longleftrightarrow> ?D k = Some v" for k v using rows_all [OF assms(1,2)] by (simp add: scan_range_def from_seek_def beyond_def)
  have scan: "\<exists>er ix s'. tx_Scan B ctx (fst (pagePropertyBuckets node)) None None (\<lambda>k v ix s. Some (index_visitor k v ix, s)) (NewPropertyIndexes\<lparr>ix_page := True\<rparr>) s =
      Some ((er, ix), s') \<and> (er = None \<longrightarrow> live s' \<and> I ?L ix s')"
  proof (rule scan_ensures [where I = I, OF assms(1,2)])
    show "I [] (NewPropertyIndexes\<lparr>ix_page := True\<rparr>) s" by (simp add: I_def ix_Definitions_def NewPropertyIndexes_def)
    fix l ix and s' s'' :: "'a pstate" assume "ps_tx s'' = ps_tx s'" "I l ix s'"
    then show "I l ix s''" using live_same(2) [of s'' s' B] by (auto simp: I_def)
  next
    fix l k v r ix s' assume L': "?L = l @ (k, v) # r" and s': "live s'" "I l ix s'"
    have "(k, v) \<in> set ?L" using L' by simp
    then obtain d where d: "decodePagePropertyDefinition v = Inr d" "k = pagePropertyDefinitionHash d" using assms(3) L by (auto simp: definitions_ok_def)
    then show "vens (\<lambda>ix s. Some (index_visitor k v ix, s)) ix s' (\<lambda>ix' s''. live s'' \<and> (\<forall>k'. k < k' \<longrightarrow> vw B s'' (fst (pagePropertyBuckets node)) k' = vw B s' (fst (pagePropertyBuckets node)) k') \<and> I (l @ [(k, v)]) ix' s'')"
      using s' by (auto simp: vens_def index_visitor_def I_def create_definitions) blast
  qed
  have D: "{d. \<exists>k v. (k, v) \<in> set ?L \<and> decodePagePropertyDefinition v = Inr d} = Collect (defined ?D)"
    using assms(3) by (auto simp: L definitions_ok_def defined_def) fastforce
  show ?thesis unfolding LoadPropertyIndexes_def by (rule scan_result_ensures) (use scan in \<open>auto simp: I_def D\<close>)
qed

section \<open>The invariant of the indexes\<close>

definition index_ok :: "bucket_rows \<Rightarrow> bucket_rows \<Rightarrow> (u64 \<Rightarrow> indexed option) \<Rightarrow> bool" where
  "index_ok D P ents \<longleftrightarrow> definitions_ok D \<and> postings_ok P \<and>
     (\<forall>d key i. posted P d key i \<longleftrightarrow> defined D d \<and> shows_key d (ents i) key)"

abbreviation "defs node \<equiv> fst (pagePropertyBuckets node)"

text \<open>The order in which Go ranges over a map of definitions.\<close>

definition order_ok :: "(PropertyIndexDefinition list \<Rightarrow> PropertyIndexDefinition list) \<Rightarrow> bool" where
  "order_ok ord \<longleftrightarrow> (\<forall>l. mset (ord l) = mset l)"

lemma update_indexes:
  assumes "bolt_reads B" "bolt_writes B" "order_ok ord" "live s" "index_ok (vw B s (defs node)) (vw B s (postings node)) ents"
    and old: "ents i = old" and ids: "\<And>p sc j. old = Some (p, sc, j) \<Longrightarrow> j = i" "\<And>p sc j. new = Some (p, sc, j) \<Longrightarrow> j = i"
  shows "ensures (updatePagePropertyIndexes B ord node old new) s (\<lambda>_ s'. frame B {postings node} s s' \<and>
    index_ok (vw B s' (defs node)) (vw B s' (postings node)) (ents(i := new)))"
  unfolding updatePagePropertyIndexes_def
proof (rule ensures_bind, rule ensures_conseq [OF load_definitions [OF assms(1,4)]], use assms(5) in \<open>simp add: index_ok_def\<close>, elim conjE)
  fix ix s1 assume s1: "live s1" "vw B s1 = vw B s" "distinct (ix_Definitions ix)" "set (ix_Definitions ix) = Collect (defined (vw B s (defs node)))"
  have m: "mset (ord (ix_Definitions ix)) = mset (ix_Definitions ix)" using assms(3) by (simp add: order_ok_def)
  have o: "distinct (ord (ix_Definitions ix))" "set (ord (ix_Definitions ix)) = Collect (defined (vw B s (defs node)))"
    using mset_eq_imp_distinct_iff [OF m] mset_eq_setD [OF m] s1 by simp_all
  have ne: "defs node \<noteq> postings node" by (simp add: pagePropertyBuckets_def)
  have "ensures (pmapM (update_definition B node old new) (ord (ix_Definitions ix))) s1 (\<lambda>_ s'. frame B {postings node} s1 s' \<and> postings_ok (vw B s' (postings node)) \<and>
      reposted (vw B s1 (postings node)) (vw B s' (postings node)) (set (ord (ix_Definitions ix))) i new)"
    by (rule update_definitions_posted [OF assms(1,2) s1(1) _ o(1) _ ids]) (use assms(5) old s1(2) o(2) in \<open>auto simp: index_ok_def\<close>)
  then show "ensures (pmapM (update_definition B node old new) (ord (ix_Definitions ix))) s1 (\<lambda>_ s'. frame B {postings node} s s' \<and>
    index_ok (vw B s' (defs node)) (vw B s' (postings node)) (ents(i := new)))"
  proof (rule ensures_conseq, elim conjE)
    fix s' assume s': "frame B {postings node} s1 s'" "postings_ok (vw B s' (postings node))"
      "reposted (vw B s1 (postings node)) (vw B s' (postings node)) (set (ord (ix_Definitions ix))) i new"
    have D: "vw B s' (defs node) = vw B s (defs node)" using s'(1) s1(2) ne by (simp add: frame_def)
    have "index_ok (vw B s' (defs node)) (vw B s' (postings node)) (ents(i := new))"
      unfolding index_ok_def D using assms(5) s'(2,3) o(2) s1(2) by (auto simp: index_ok_def reposted_def)
    moreover have "frame B {postings node} s s'" using s'(1) s1(2) by (simp add: frame_def)
    ultimately show "frame B {postings node} s s' \<and> index_ok (vw B s' (defs node)) (vw B s' (postings node)) (ents(i := new))" by simp
  qed
qed

section \<open>Writing entities\<close>

lemma ensures_both: "ensures m s P \<Longrightarrow> ensures m s Q \<Longrightarrow> ensures m s (\<lambda>a s'. P a s' \<and> Q a s')"
  by (auto simp: ensures_def)

lemma ensures_frame_seq:
  assumes "ensures m s0 (\<lambda>_. frame B bs s)" "\<And>s1. frame B bs s s1 \<Longrightarrow> ensures k s1 (\<lambda>_. frame B bs s)"
  shows "ensures (pthen m k) s0 (\<lambda>_. frame B bs s)"
  by (rule ensures_seq [OF assms])

lemma frame_self: "live s \<Longrightarrow> frame B bs s s"
  by (simp add: frame_def)

lemma put_frame:
  assumes "bolt_writes B" "frame B bs s s1" "b \<in> bs"
  shows "ensures (tx_Put B b k v) s1 (\<lambda>_. frame B bs s)"
  by (rule put_live [OF assms(1)]) (use assms(2,3) in \<open>auto simp: frame_def\<close>)

lemma delete_frame:
  assumes "bolt_writes B" "frame B bs s s1" "b \<in> bs"
  shows "ensures (tx_Delete B b k) s1 (\<lambda>_. frame B bs s)"
  by (rule delete_live [OF assms(1)]) (use assms(2,3) in \<open>auto simp: frame_def\<close>)

lemma count_frame:
  assumes "bolt_writes B" "frame B bs s s1" "''counts'' \<in> bs"
  shows "ensures (changeCount B b add) s1 (\<lambda>_. frame B bs s)"
proof -
  have l: "live s1" using assms(2) by (simp add: frame_def)
  have "ensures (page_count B b) s1 (\<lambda>_ s'. s' = s1)" unfolding page_count_def
    by (rule ensures_bind, rule get_live [OF l]) (auto split: option.split intro!: ens)
  then show ?thesis unfolding changeCount_def
    by (rule ensures_seq) (use assms in \<open>auto intro!: ens put_frame\<close>)
qed

lemma pmapM_frame:
  assumes "\<And>x s1. frame B bs s s1 \<Longrightarrow> ensures (f x) s1 (\<lambda>_. frame B bs s)" "frame B bs s s1"
  shows "ensures (pmapM f xs) s1 (\<lambda>_. frame B bs s)"
  by (rule pmapM_ensures [where I = "frame B bs s"]) (use assms in auto)

lemmas frame_intros = ens ensures_frame_seq put_frame delete_frame count_frame pmapM_frame

lemma index_frame:
  assumes "frame B bs s s'" "defs node \<notin> bs" "postings node \<notin> bs"
  shows "vw B s' (defs node) = vw B s (defs node)" "vw B s' (postings node) = vw B s (postings node)"
  using assms by (simp_all add: frame_def)

lemma index_rest:
  assumes "defs node \<notin> bs" "postings node \<notin> bs" "index_ok (vw B s (defs node)) (vw B s (postings node)) E" "ensures m s (\<lambda>_. frame B bs s)"
  shows "ensures m s (\<lambda>_ s'. index_ok (vw B s' (defs node)) (vw B s' (postings node)) E)"
proof (rule ensures_conseq [OF assms(4)])
  fix s' assume "frame B bs s s'"
  from index_frame [OF this assms(1,2)] show "index_ok (vw B s' (defs node)) (vw B s' (postings node)) E" using assms(3) by simp
qed

lemma put_node_index:
  assumes B: "bolt_reads B" "bolt_writes B" "order_ok ord" and l: "live s"
    and ok: "index_ok (vw B s (defs True)) (vw B s (postings True)) (map_option node_indexed \<circ> node_at (vw B s) (recordLimit mrb))"
  shows "ensures (PutNode B ord mrb node) s (\<lambda>_ s'. index_ok (vw B s' (defs True)) (vw B s' (postings True))
    ((map_option node_indexed \<circ> node_at (vw B s) (recordLimit mrb))(nr_ID node \<mapsto> node_indexed node)))"
proof (cases "encodePageNodeBounded (Some node) (recordLimit mrb)")
  case (Inl er)
  then show ?thesis by (simp add: PutNode_def ens)
next
  case (Inr data)
  let ?old = "node_at (vw B s) (recordLimit mrb) (nr_ID node)" and ?fs = "{''labels'', ''counts'', ''nodes''}"
  let ?ents = "map_option node_indexed \<circ> node_at (vw B s) (recordLimit mrb)"
  have nin: "defs True \<notin> ?fs" "postings True \<notin> ?fs" by (simp_all add: pagePropertyBuckets_def)
  have oid: "nr_ID o' = nr_ID node" if "?old = Some o'" for o' by (rule at_id(1) [OF that])
  have upd: "ensures (UpdateNodePropertyIndexes B ord ?old (Some node)) s1
      (\<lambda>_ s2. live s2 \<and> index_ok (vw B s2 (defs True)) (vw B s2 (postings True)) (?ents(nr_ID node \<mapsto> node_indexed node)))" if f: "frame B ?fs s s1" for s1
    unfolding UpdateNodePropertyIndexes_def option.map
  proof (rule ensures_conseq [OF update_indexes [OF B, where ents = ?ents and i = "nr_ID node"]])
    show "live s1" using f by (simp add: frame_def)
    show "index_ok (vw B s1 (defs True)) (vw B s1 (postings True)) ?ents" unfolding index_frame [OF f nin] by (rule ok)
  qed (auto simp: frame_def node_indexed_def dest: oid)
  show ?thesis
  proof (cases "word_of_nat (length data) > recordLimit mrb")
    case True
    then show ?thesis by (simp add: PutNode_def Inr ens)
  next
    case False
    show ?thesis unfolding PutNode_def Inr sum.case if_not_P [OF False] Let_def
      by (rule ensures_bind, rule get_node_live [OF l], rule ensures_seq [where P = "\<lambda>_. frame B ?fs s"],
          (auto split: option.split intro!: frame_intros B frame_self l)[1],
          rule ensures_seq [OF upd], assumption, elim conjE, rule index_rest [OF nin], assumption)
        (auto simp: pbind_ret split: option.split intro!: frame_intros B frame_self)
  qed
qed

lemma edge_rows_frame:
  assumes B: "bolt_writes B" and "frame B bs s s1" "edge_buckets \<subseteq> bs"
  shows "ensures (drop_stale_rows B old e) s1 (\<lambda>_. frame B bs s)" "ensures (put_new_rows B old e) s1 (\<lambda>_. frame B bs s)"
    "ensures (removeEdgePostings B e) s1 (\<lambda>_. frame B bs s)"
proof -
  have b: "''outgoing'' \<in> bs" "''incoming'' \<in> bs" "''edge-types'' \<in> bs" "''edge-order'' \<in> bs" using assms(3) by (auto simp: edge_buckets_def)
  note st = frame_intros B assms(2) b
  show "ensures (drop_stale_rows B old e) s1 (\<lambda>_. frame B bs s)" unfolding drop_stale_rows_def
    by (cases old) (auto simp: pbind_ret intro!: st)
  show "ensures (put_new_rows B old e) s1 (\<lambda>_. frame B bs s)" unfolding put_new_rows_def
    by (intro ensures_frame_seq) (auto simp: pbind_ret intro!: st)
  show "ensures (removeEdgePostings B e) s1 (\<lambda>_. frame B bs s)" unfolding removeEdgePostings_def edge_rows_def
    by (simp, intro ensures_frame_seq) (auto simp: pbind_ret intro!: st)
qed

lemma update_edge_index:
  assumes B: "bolt_reads B" "bolt_writes B" "order_ok ord" and f: "frame B fs s s1" "defs False \<notin> fs" "postings False \<notin> fs"
    and ok: "index_ok (vw B s (defs False)) (vw B s (postings False)) E"
    and old: "E i = map_option edge_indexed old" "\<And>o'. old = Some o' \<Longrightarrow> er_ID o' = i" "\<And>n. new = Some n \<Longrightarrow> er_ID n = i"
  shows "ensures (UpdateEdgePropertyIndexes B ord old new) s1
    (\<lambda>_ s2. live s2 \<and> index_ok (vw B s2 (defs False)) (vw B s2 (postings False)) (E(i := map_option edge_indexed new)))"
  unfolding UpdateEdgePropertyIndexes_def
proof (rule ensures_conseq [OF update_indexes [OF B, where ents = E and i = i]])
  show "live s1" using f by (simp add: frame_def)
  show "index_ok (vw B s1 (defs False)) (vw B s1 (postings False)) E" unfolding index_frame [OF f] by (rule ok)
qed (use old in \<open>auto simp: frame_def edge_indexed_def\<close>)

lemma put_edge_index:
  assumes B: "bolt_reads B" "bolt_writes B" "order_ok ord" and l: "live s"
    and ok: "index_ok (vw B s (defs False)) (vw B s (postings False)) (map_option edge_indexed \<circ> edge_at (vw B s) (recordLimit mrb))"
  shows "ensures (PutEdge B ord mrb edge) s (\<lambda>_ s'. index_ok (vw B s' (defs False)) (vw B s' (postings False))
    ((map_option edge_indexed \<circ> edge_at (vw B s) (recordLimit mrb))(er_ID edge \<mapsto> edge_indexed edge)))"
proof (cases "encodePageEdgeBounded (Some edge) (recordLimit mrb)")
  case (Inl er)
  then show ?thesis by (simp add: PutEdge_def ens)
next
  case (Inr data)
  let ?old = "edge_at (vw B s) (recordLimit mrb) (er_ID edge)" and ?fs = "{''counts'', ''edges''} \<union> edge_buckets"
  have nin: "defs False \<notin> ?fs" "postings False \<notin> ?fs" by (simp_all add: pagePropertyBuckets_def edge_buckets_def)
  note upd = update_edge_index [OF B _ nin ok, where i = "er_ID edge" and old = ?old and new = "Some edge", unfolded option.map]
  show ?thesis
  proof (cases "word_of_nat (length data) > recordLimit mrb")
    case True
    then show ?thesis by (simp add: PutEdge_def Inr ens)
  next
    case False
    have drop: "ensures (drop_stale_rows B ?old edge) s (\<lambda>_. frame B ?fs s)"
      by (rule edge_rows_frame(1) [OF B(2) frame_self [OF l] Un_upper2])
    have upd': "ensures (UpdateEdgePropertyIndexes B ord ?old (Some edge)) s1 (\<lambda>_ s2. live s2 \<and> index_ok (vw B s2 (defs False)) (vw B s2 (postings False))
        ((map_option edge_indexed \<circ> edge_at (vw B s) (recordLimit mrb))(er_ID edge \<mapsto> edge_indexed edge)))" if "frame B ?fs s s1" for s1
      by (rule upd [OF that]) (auto intro: at_id(2))
    show ?thesis unfolding PutEdge_def Inr sum.case if_not_P [OF False]
      by (rule ensures_bind, rule require_nodes_live [OF l], rule ensures_bind, rule get_edge_live [OF l],
          rule ensures_seq [OF drop], rule ensures_seq [OF upd'], assumption, elim conjE, rule index_rest [OF nin], assumption)
        (auto intro!: frame_intros edge_rows_frame B frame_self)
  qed
qed

lemma delete_edge_index:
  assumes B: "bolt_reads B" "bolt_writes B" "order_ok ord" and l: "live s"
    and ok: "index_ok (vw B s (defs False)) (vw B s (postings False)) (map_option edge_indexed \<circ> edge_at (vw B s) (recordLimit mrb))"
  shows "ensures (DeleteEdge B ord mrb i) s (\<lambda>_ s'. index_ok (vw B s' (defs False)) (vw B s' (postings False))
    ((map_option edge_indexed \<circ> edge_at (vw B s) (recordLimit mrb))(i := None)))"
  unfolding DeleteEdge_def
proof (rule ensures_bind, rule get_edge_live [OF l])
  let ?old = "edge_at (vw B s) (recordLimit mrb) i" and ?fs = "{''counts'', ''edges''} \<union> edge_buckets"
  have nin: "defs False \<notin> ?fs" "postings False \<notin> ?fs" by (simp_all add: pagePropertyBuckets_def edge_buckets_def)
  note upd = update_edge_index [OF B _ nin ok, where i = i and old = ?old and new = None, unfolded option.map]
  show "ensures (case ?old of None \<Rightarrow> pret () | Some e \<Rightarrow> pthen (UpdateEdgePropertyIndexes B ord (Some e) None)
      (pthen (removeEdgePostings B e) (pthen (changeCount B ''edges'' False) (tx_Delete B ''edges'' (pageID i))))) s
    (\<lambda>_ s'. index_ok (vw B s' (defs False)) (vw B s' (postings False)) ((map_option edge_indexed \<circ> edge_at (vw B s) (recordLimit mrb))(i := None)))"
  proof (cases ?old)
    case None
    then have "(map_option edge_indexed \<circ> edge_at (vw B s) (recordLimit mrb))(i := None) = map_option edge_indexed \<circ> edge_at (vw B s) (recordLimit mrb)" by auto
    then show ?thesis using None ok by (simp add: ens)
  next
    case (Some e)
    have "ensures (UpdateEdgePropertyIndexes B ord (Some e) None) s (\<lambda>_ s2. live s2 \<and> index_ok (vw B s2 (defs False)) (vw B s2 (postings False))
        ((map_option edge_indexed \<circ> edge_at (vw B s) (recordLimit mrb))(i := None)))"
      unfolding Some [symmetric] by (rule upd [OF frame_self [OF l]]) (auto intro: at_id(2))
    then show ?thesis unfolding Some option.case
      by (rule ensures_seq, elim conjE, intro index_rest [OF nin]) (auto intro!: frame_intros edge_rows_frame B frame_self)
  qed
qed

section \<open>Building and dropping an index\<close>

lemma defined_put:
  assumes "decodePagePropertyDefinition row = Inr d" "D (pagePropertyDefinitionHash d) = None"
  shows "defined (D(pagePropertyDefinitionHash d \<mapsto> row)) d' \<longleftrightarrow> defined D d' \<or> d' = d"
  using assms by (cases "pagePropertyDefinitionHash d' = pagePropertyDefinitionHash d") (auto simp: defined_def)

lemma defined_delete:
  assumes "\<And>data. D (pagePropertyDefinitionHash d) = Some data \<Longrightarrow> decodePagePropertyDefinition data = Inr d"
  shows "defined (D(pagePropertyDefinitionHash d := None)) d' \<longleftrightarrow> defined D d' \<and> d' \<noteq> d"
  using assms by (cases "pagePropertyDefinitionHash d' = pagePropertyDefinitionHash d") (auto simp: defined_def)

lemma hash_no_eof: "writePropertyValueHash v \<noteq> Inl ErrEOF"
proof (induction v rule: writePropertyValueHash.induct)
  case (8 visit xs)
  have "sum_list_map writePropertyValueHash l \<noteq> Inl ErrEOF" if "set l \<subseteq> set (opt_items xs)" for l
    using that 8 by (induction l) (auto split: sum.splits)
  then show ?case by (auto simp: write_items_def split: sum.splits)
next
  case (9 visit m)
  have "sum_list_map (\<lambda>(name, v). case writePropertyValueHash v of Inl er \<Rightarrow> Inl er | Inr bs \<Rightarrow> Inr (length_bytes name @ string_bytes name @ bs)) l \<noteq> Inl ErrEOF"
    if "set l \<subseteq> set (opt_items m)" for l
    using that 9 by (induction l) (auto split: sum.splits)
  from this [of "sort_entries (opt_items m)"] show ?case by (auto simp: write_entries_def split: sum.splits)
qed simp_all

lemma key_no_eof: "makePropertyValueKey v \<noteq> Inl ErrEOF"
proof -
  have h: "hashed_key v \<noteq> Inl ErrEOF" using hash_no_eof [of v] by (auto simp: hashed_key_def split: sum.splits)
  show ?thesis by (cases v) (use h in simp_all)
qed

lemma no_eof_backend_put:
  assumes "live s" "postings_ok (vw B s (postings node))"
  shows "no_eof (backend_put B node d v i) s"
proof -
  have g: "tx_Get B (postings node) key s = Some (Inr (vw B s (postings node) key), s)" for key
    using live_open [OF assms(1), of B] assms(1) by (auto simp: tx_Get_def pbind_def tx_check_open uses_cache_def live_def bt_map_def Let_def)
  have dec: "decodePagePropertyPosting data \<noteq> Inl er" if "vw B s (postings node) key = Some data" for key data er
    using assms(2) that unfolding postings_ok_def by fastforce
  show ?thesis unfolding backend_put_def
    using key_no_eof [of v] assms(1)
    by (auto split: sum.splits option.splits prod.splits if_splits simp: Let_def g pret_def pfail_def intro!: no_eof_bind no_eof_get no_eof_put dest: dec)
qed

definition charge_ok :: "'c build_charge \<Rightarrow> bool" where
  "charge_ok charge \<longleftrightarrow> (\<forall>w n c. fst (chargePagePropertyIndexBuild charge w n c) \<noteq> Some ErrEOF)"

lemma build_visit_posted:
  assumes "bolt_reads B" "bolt_writes B" "charge_ok charge" "live s" "postings_ok (vw B s (postings node))"
  shows "vens (build_visit B charge node d (p, sc, i)) c s (\<lambda>_ s'. frame B {postings node} s s' \<and> postings_ok (vw B s' (postings node)) \<and>
    (\<forall>d' key j. posted (vw B s' (postings node)) d' key j \<longleftrightarrow>
      posted (vw B s (postings node)) d' key j \<or> d' = d \<and> j = i \<and> index_key d (p, sc, i) = Some key))"
    (is "vens _ _ _ ?Q")
proof -
  have ch: "chargePagePropertyIndexBuild charge w n c \<noteq> (Some ErrEOF, c')" for w n c c'
    using assms(3) by (metis charge_ok_def fst_conv)
  let ?v = "fst (p_Lookup p (id_Property d))"
  have put: "vens (visit_pm (backend_put B node d ?v i) (\<lambda>_. visit_ok)) c2 s ?Q" if "propertyIndexMatches d sc p" for c2
  proof (rule vens_pm [OF ensures_conseq [OF backend_put_posted [OF assms(1,2,4,5)]] no_eof_backend_put [OF assms(4,5)]], elim conjE exE)
    fix s' key assume "frame B {postings node} s s'" "postings_ok (vw B s' (postings node))" "makePropertyValueKey ?v = Inr key"
      "\<forall>d' key' j. posted (vw B s' (postings node)) d' key' j \<longleftrightarrow> posted (vw B s (postings node)) d' key' j \<or> d' = d \<and> key' = key \<and> j = i"
    moreover have "index_key d (p, sc, i) = Some key" using that \<open>makePropertyValueKey ?v = Inr key\<close> by (simp add: index_key_def)
    ultimately show "vens visit_ok c2 s' ?Q" by (intro vens_ok) auto
  qed
  obtain er1 c1 where c1: "chargePagePropertyIndexBuild charge 1 0 c = (er1, c1)" by (rule prod.exhaust)
  obtain er2 c2 where c2: "chargePagePropertyIndexBuild charge (max 1 (estimateValueBytes ?v)) (estimateValueBytes ?v + 192) c1 = (er2, c2)" by (rule prod.exhaust)
  have e: "er1 \<noteq> Some ErrEOF" "er2 \<noteq> Some ErrEOF" using c1 c2 ch by metis+
  show ?thesis
  proof (cases "er1 = None \<and> propertyIndexMatches d sc p \<and> er2 = None")
    case True
    then have "build_visit B charge node d (p, sc, i) c = visit_pm (backend_put B node d ?v i) (\<lambda>_. visit_ok) c2"
      using c1 c2 by (simp add: build_visit_def Let_def)
    then show ?thesis using put [of c2] True by (simp add: vens_def)
  next
    case False
    then show ?thesis using c1 c2 e assms(4,5)
      by (auto simp: vens_def build_visit_def Let_def visit_fail_def visit_ok_def index_key_def frame_def split: option.split)
  qed
qed

text \<open>Building: every record of the bucket is visited, and no posting of the definition existed before.\<close>

lemma build_scan:
  assumes "bolt_reads B" "bolt_writes B" "charge_ok charge" "live s" "postings_ok (vw B s (postings node))" "b \<noteq> postings node"
    and rec: "\<And>k v. vw B s b k = Some v \<Longrightarrow> \<exists>p sc i. k = pageID i \<and> visit k v = build_visit B charge node d (p, sc, i) \<and> ents i = Some (p, sc, i)"
    and all: "\<And>i x. ents i = Some x \<Longrightarrow> vw B s b (pageID i) \<noteq> None"
  shows "\<exists>er c' s'. tx_Scan B ctx b None None visit c s = Some ((er, c'), s') \<and> (er = None \<longrightarrow> frame B {postings node} s s' \<and>
    postings_ok (vw B s' (postings node)) \<and> (\<forall>d' key j. posted (vw B s' (postings node)) d' key j \<longleftrightarrow>
      posted (vw B s (postings node)) d' key j \<or> d' = d \<and> shows_key d (ents j) key))"
proof -
  let ?P = "\<lambda>s. vw B s (postings node)" and ?L = "rows (vw B s b) (scan_range None True None)"
  define I where "I l c s' \<longleftrightarrow> frame B {postings node} s s' \<and> postings_ok (?P s') \<and> (\<forall>d' key j. posted (?P s') d' key j \<longleftrightarrow>
      posted (?P s) d' key j \<or> d' = d \<and> (\<exists>v. (pageID j, v) \<in> set l) \<and> shows_key d (ents j) key)"
    for l :: "(byte list \<times> byte list) list" and c :: 'c and s'
  have L: "(k, v) \<in> set ?L \<longleftrightarrow> vw B s b k = Some v" for k v using rows_all [OF assms(1,4)] by (simp add: scan_range_def from_seek_def beyond_def)
  have "\<exists>er c' s'. tx_Scan B ctx b None None visit c s = Some ((er, c'), s') \<and> (er = None \<longrightarrow> live s' \<and> I ?L c' s')"
  proof (rule scan_ensures [where I = I, OF assms(1,4)])
    show "I [] c s" using assms(4,5) by (simp add: I_def frame_def)
    fix l c and s' s'' :: "'a pstate" assume "ps_tx s'' = ps_tx s'" "I l c s'"
    then show "I l c s''" using live_same(1) [of s'' s'] live_same(2) [of s'' s' B] by (auto simp: I_def frame_def)
  next
    fix l k v r c s' assume L': "?L = l @ (k, v) # r" and s': "live s'" "I l c s'"
    have "(k, v) \<in> set ?L" using L' by simp
    then obtain p sc i where x: "k = pageID i" "visit k v = build_visit B charge node d (p, sc, i)" "ents i = Some (p, sc, i)" using rec L by blast
    have ok: "postings_ok (?P s')" using s'(2) by (simp add: I_def)
    show "vens (visit k v) c s' (\<lambda>c' s''. live s'' \<and> (\<forall>k'. k < k' \<longrightarrow> vw B s'' b k' = vw B s' b k') \<and> I (l @ [(k, v)]) c' s'')"
      unfolding x(2)
    proof (rule vens_conseq [OF build_visit_posted [OF assms(1-3) s'(1) ok]], elim conjE)
      fix c' s'' assume s'': "frame B {postings node} s' s''" "postings_ok (?P s'')"
        "\<forall>d' key j. posted (?P s'') d' key j \<longleftrightarrow> posted (?P s') d' key j \<or> d' = d \<and> j = i \<and> index_key d (p, sc, i) = Some key"
      have f: "frame B {postings node} s s''" using s'(2) frame_trans [OF _ s''(1)] by (auto simp: I_def)
      have "I (l @ [(k, v)]) c' s''" using s'(2) s''(2,3) f x by (auto simp: I_def shows_key_def)
      then show "live s'' \<and> (\<forall>k'. k < k' \<longrightarrow> vw B s'' b k' = vw B s' b k') \<and> I (l @ [(k, v)]) c' s''"
        using s''(1) assms(6) by (simp add: frame_def)
    qed
  qed
  moreover have "(\<exists>v. (pageID j, v) \<in> set ?L) \<and> shows_key d (ents j) key \<longleftrightarrow> shows_key d (ents j) key" for j key
    using all L by (auto simp: shows_key_def)
  ultimately show ?thesis by (auto simp: I_def)
qed

definition entities :: "view \<Rightarrow> u64 \<Rightarrow> bool \<Rightarrow> u64 \<Rightarrow> indexed option" where
  "entities V lmt node i = (if node then map_option node_indexed (node_at V lmt i) else map_option edge_indexed (edge_at V lmt i))"

lemma register_index_ok:
  assumes "bolt_reads B" "bolt_writes B" "live s" "index_ok (vw B s (defs node)) P E"
  shows "ensures (register_index B ctx node d) s
    (\<lambda>_ s'. frame B {defs node} s s' \<and> definitions_ok (vw B s' (defs node)) \<and> \<not> defined (vw B s (defs node)) d \<and>
      (\<forall>d'. defined (vw B s' (defs node)) d' \<longleftrightarrow> defined (vw B s (defs node)) d' \<or> d' = d))" (is "ensures _ _ ?Q")
  unfolding register_index_def
proof (rule ensures_bind, rule ensures_conseq [OF load_definitions [OF assms(1,3)]], use assms(4) in \<open>simp add: index_ok_def\<close>, elim conjE)
  let ?D = "vw B s (defs node)"
  fix ix s1 assume s1: "live s1" "vw B s1 = vw B s" "set (ix_Definitions ix) = Collect (defined ?D)"
  have put: "ensures (tx_Put B (defs node) (pagePropertyDefinitionHash d) (encodePagePropertyDefinition d)) s1 ?Q"
    if free: "?D (pagePropertyDefinitionHash d) = None"
  proof (rule put_live [OF assms(2) s1(1)])
    fix s' assume s': "live s'" "vw B s' = (vw B s1)(defs node := (vw B s1 (defs node))(pagePropertyDefinitionHash d \<mapsto> encodePagePropertyDefinition d))"
    have "vw B s' (defs node) (pagePropertyDefinitionHash d) = Some (encodePagePropertyDefinition d)" using s'(2) by simp
    from vw_short [OF assms(1) s'(1) this] have dec: "decodePagePropertyDefinition (encodePagePropertyDefinition d) = Inr d"
      by (intro definition_roundtrip) (simp_all add: encodePagePropertyDefinition_def writePageString_def)
    have "\<not> defined ?D d" using free by (simp add: defined_def)
    then show "?Q () s'" using s' s1(2) defined_put [where D = ?D, OF dec free] assms(4) dec by (auto simp: frame_def index_ok_def definitions_ok_def)
  qed
  show "ensures (if ix_Has ix d then pfail (ErrMsg ''page property index already exists'')
        else let bucket = defs node; definitionKey = pagePropertyDefinitionHash d in
             pbind (tx_Get B bucket definitionKey) (\<lambda>stored.
               if stored \<noteq> None then pfail (ErrMsg ''page property index definition hash collision'')
               else tx_Put B bucket definitionKey (encodePagePropertyDefinition d))) s1 ?Q"
    using put s1(1,2) by (auto simp: Let_def intro!: ens ensures_bind get_live)
qed

text \<open>The visitors of \<open>VisitNodes\<close> and \<open>VisitEdges\<close> at the rows of a graph.\<close>

lemma node_visitor:
  assumes "graph_ok V lmt" "V ''nodes'' k = Some v"
  obtains i n where "k = pageID i" "node_at V lmt i = Some n"
    "(if length k \<noteq> 8 then visit_fail (ErrMsg ''invalid page node key'')
      else (case decodePageNode v (from_be64 k) lmt of Inl er \<Rightarrow> visit_fail er | Inr node \<Rightarrow> visit node)) = visit n"
proof -
  obtain i n where "k = pageID i" "decodePageNode v i lmt = Inr n" using assms unfolding graph_ok_def by blast
  then show thesis using that [of i n] assms(2) by (simp add: node_at_def pageID_def)
qed

lemma edge_visitor:
  assumes "graph_ok V lmt" "V ''edges'' k = Some v"
  obtains i e where "k = pageID i" "edge_at V lmt i = Some e"
    "(if length k \<noteq> 8 then visit_fail (ErrMsg ''invalid page edge key'')
      else (case decodePageEdge v (from_be64 k) lmt of Inl er \<Rightarrow> visit_fail er | Inr edge \<Rightarrow> visit edge)) = visit e"
proof -
  obtain i e where "k = pageID i" "decodePageEdge v i lmt = Inr e" using assms unfolding graph_ok_def by blast
  then show thesis using that [of i e] assms(2) by (simp add: edge_at_def pageID_def)
qed

lemma build_index:
  assumes B: "bolt_reads B" "bolt_writes B" "charge_ok charge" "live s" and g: "graph_ok (vw B s) (recordLimit mrb)" and ok: "postings_ok (vw B s (postings node))"
  shows "\<exists>er c' s'. (if node
            then VisitNodes B ctx mrb (\<lambda>n. build_visit B charge True d (node_indexed n)) c
            else VisitEdges B ctx mrb (\<lambda>e. build_visit B charge False d (edge_indexed e)) c) s = Some ((er, c'), s') \<and>
    (er = None \<longrightarrow> frame B {postings node} s s' \<and> postings_ok (vw B s' (postings node)) \<and>
      (\<forall>d' key j. posted (vw B s' (postings node)) d' key j \<longleftrightarrow>
        posted (vw B s (postings node)) d' key j \<or> d' = d \<and> shows_key d (entities (vw B s) (recordLimit mrb) node j) key))"
proof (cases node)
  case True
  have ne: "''nodes'' \<noteq> postings True" by (simp add: pagePropertyBuckets_def)
  have n: "node = True" using True by simp
  show ?thesis unfolding n if_True VisitNodes_def
  proof (rule build_scan [OF B ok [unfolded n] ne])
    fix k v assume "vw B s ''nodes'' k = Some v"
    then show "\<exists>p sc i. k = pageID i \<and>
        (if length k \<noteq> 8 then visit_fail (ErrMsg ''invalid page node key'')
         else case decodePageNode v (from_be64 k) (recordLimit mrb) of Inl er \<Rightarrow> visit_fail er | Inr node \<Rightarrow> build_visit B charge True d (node_indexed node)) =
        build_visit B charge True d (p, sc, i) \<and> entities (vw B s) (recordLimit mrb) True i = Some (p, sc, i)"
    proof (rule node_visitor [OF g, of _ _ "\<lambda>n. build_visit B charge True d (node_indexed n)"])
      fix i n assume a: "k = pageID i" "node_at (vw B s) (recordLimit mrb) i = Some n"
        "(if length k \<noteq> 8 then visit_fail (ErrMsg ''invalid page node key'')
          else case decodePageNode v (from_be64 k) (recordLimit mrb) of Inl er \<Rightarrow> visit_fail er
             | Inr node \<Rightarrow> build_visit B charge True d (node_indexed node)) = build_visit B charge True d (node_indexed n)"
      have "node_indexed n = (nr_Properties n, opt_items (nr_Labels n), i)" using at_id(1) [OF a(2)] by (simp add: node_indexed_def)
      then show ?thesis unfolding a(3) using a(1,2) by (auto simp: entities_def)
    qed
  qed (auto simp: entities_def node_at_def split: option.splits)
next
  case False
  have ne: "''edges'' \<noteq> postings False" by (simp add: pagePropertyBuckets_def)
  have n: "node = False" using False by simp
  show ?thesis unfolding n if_False VisitEdges_def
  proof (rule build_scan [OF B ok [unfolded n] ne])
    fix k v assume "vw B s ''edges'' k = Some v"
    then show "\<exists>p sc i. k = pageID i \<and>
        (if length k \<noteq> 8 then visit_fail (ErrMsg ''invalid page edge key'')
         else case decodePageEdge v (from_be64 k) (recordLimit mrb) of Inl er \<Rightarrow> visit_fail er | Inr edge \<Rightarrow> build_visit B charge False d (edge_indexed edge)) =
        build_visit B charge False d (p, sc, i) \<and> entities (vw B s) (recordLimit mrb) False i = Some (p, sc, i)"
    proof (rule edge_visitor [OF g, of _ _ "\<lambda>e. build_visit B charge False d (edge_indexed e)"])
      fix i e assume a: "k = pageID i" "edge_at (vw B s) (recordLimit mrb) i = Some e"
        "(if length k \<noteq> 8 then visit_fail (ErrMsg ''invalid page edge key'')
          else case decodePageEdge v (from_be64 k) (recordLimit mrb) of Inl er \<Rightarrow> visit_fail er
             | Inr edge \<Rightarrow> build_visit B charge False d (edge_indexed edge)) = build_visit B charge False d (edge_indexed e)"
      have "edge_indexed e = (er_Properties e, [er_Type e], i)" using at_id(2) [OF a(2)] by (simp add: edge_indexed_def)
      then show ?thesis unfolding a(3) using a(1,2) by (auto simp: entities_def)
    qed
  qed (auto simp: entities_def edge_at_def split: option.splits)
qed

lemma create_index:
  assumes B: "bolt_reads B" "bolt_writes B" "charge_ok charge" "live s" and g: "graph_ok (vw B s) (recordLimit mrb)"
    and ok: "index_ok (vw B s (defs node)) (vw B s (postings node)) (entities (vw B s) (recordLimit mrb) node)"
    and same: "\<And>s1. frame B {defs node} s s1 \<Longrightarrow> graph_ok (vw B s1) (recordLimit mrb) \<and> entities (vw B s1) (recordLimit mrb) node = entities (vw B s) (recordLimit mrb) node"
  shows "\<exists>er c' s'. CreatePropertyIndex B ctx charge mrb node d c s = Some ((er, c'), s') \<and> (er = None \<longrightarrow> frame B {defs node, postings node} s s' \<and>
    index_ok (vw B s' (defs node)) (vw B s' (postings node)) (entities (vw B s) (recordLimit mrb) node) \<and>
    (\<forall>d'. defined (vw B s' (defs node)) d' \<longleftrightarrow> defined (vw B s (defs node)) d' \<or> d' = d))"
proof -
  let ?D = "\<lambda>s. vw B s (defs node)" and ?P = "\<lambda>s. vw B s (postings node)" and ?E = "entities (vw B s) (recordLimit mrb) node"
  obtain r s1 where r: "register_index B ctx node d s = Some (r, s1)"
    and reg: "\<And>a. r = Inr a \<Longrightarrow> frame B {defs node} s s1 \<and> definitions_ok (?D s1) \<and> \<not> defined (?D s) d \<and> (\<forall>d'. defined (?D s1) d' \<longleftrightarrow> defined (?D s) d' \<or> d' = d)"
    using register_index_ok [OF B(1,2,4) ok, of ctx d] by (auto simp: ensures_def)
  show ?thesis
  proof (cases r)
    case (Inl er)
    then show ?thesis using r by (simp add: CreatePropertyIndex_def visit_pm_def)
  next
    case (Inr a)
    note s1 = reg [OF Inr]
    have ne: "defs node \<noteq> postings node" by (simp add: pagePropertyBuckets_def)
    have P: "?P s1 = ?P s" using s1 ne by (simp add: frame_def)
    have l: "live s1" "postings_ok (?P s1)" using s1 ok P by (simp_all add: frame_def index_ok_def)
    have S: "graph_ok (vw B s1) (recordLimit mrb)" "entities (vw B s1) (recordLimit mrb) node = ?E" using same s1 by blast+
    obtain er c' s' where c: "CreatePropertyIndex B ctx charge mrb node d c s = Some ((er, c'), s')"
      and s': "er = None \<Longrightarrow> frame B {postings node} s1 s' \<and>
        postings_ok (?P s') \<and> (\<forall>d' key j. posted (?P s') d' key j \<longleftrightarrow> posted (?P s1) d' key j \<or> d' = d \<and> shows_key d (?E j) key)"
      using build_index [OF B(1-3) l(1) S(1) l(2), where ctx = ctx and d = d and c = c] r Inr S(2) by (auto simp: CreatePropertyIndex_def visit_pm_def)
    have "frame B {defs node, postings node} s s' \<and> index_ok (?D s') (?P s') ?E \<and> (\<forall>d'. defined (?D s') d' \<longleftrightarrow> defined (?D s) d' \<or> d' = d)" if "er = None"
    proof -
      have D: "?D s' = ?D s1" using s' [OF that] ne by (simp add: frame_def)
      have "frame B {defs node, postings node} s s'" using s1 s' [OF that] by (auto simp: frame_def)
      moreover have "index_ok (?D s') (?P s') ?E" unfolding index_ok_def D using s' [OF that] s1 ok P by (auto simp: index_ok_def)
      ultimately show ?thesis unfolding D using s1 by blast
    qed
    then show ?thesis using c by blast
  qed
qed

lemma prefix_scan: "scan_range (Some p) True (pagePrefixEnd p) k \<longleftrightarrow> prefix p k"
  using prefix_range [of p k] by (auto simp: scan_range_def from_seek_def beyond_def in_range_def split: option.splits)

definition kept_rows :: "bucket_rows \<Rightarrow> PropertyIndexDefinition \<Rightarrow> byte list set \<Rightarrow> bucket_rows" where
  "kept_rows P d ks k = (if k \<in> ks \<and> (\<exists>data key. P k = Some data \<and> decodePagePropertyPosting data = Inr (d, key)) then None else P k)"

lemma drop_scan:
  assumes "bolt_reads B" "bolt_writes B" "live s" "postings_ok (vw B s b)"
  shows "ensures (scan_result (tx_Scan B ctx b (Some p) (pagePrefixEnd p) (drop_visit B b d) ())) s
    (\<lambda>_ s'. frame B {b} s s' \<and> vw B s' b = kept_rows (vw B s b) d {k. prefix p k})"
proof -
  let ?L = "rows (vw B s b) (scan_range (Some p) True (pagePrefixEnd p))"
  define I where "I l c s' \<longleftrightarrow> frame B {b} s s' \<and> vw B s' b = kept_rows (vw B s b) d (fst ` set l)"
    for l :: "(byte list \<times> byte list) list" and c :: unit and s'
  have L: "(k, v) \<in> set ?L \<longleftrightarrow> prefix p k \<and> vw B s b k = Some v" for k v using rows_all [OF assms(1,3)] by (simp add: prefix_scan)
  have "\<exists>er c' s'. tx_Scan B ctx b (Some p) (pagePrefixEnd p) (drop_visit B b d) () s = Some ((er, c'), s') \<and> (er = None \<longrightarrow> live s' \<and> I ?L c' s')"
  proof (rule scan_ensures [where I = I, OF assms(1,3)])
    show "I [] () s" using assms(3) by (simp add: I_def frame_def kept_rows_def fun_eq_iff)
    fix l c and s' s'' :: "'a pstate" assume "ps_tx s'' = ps_tx s'" "I l c s'"
    then show "I l c s''" using live_same(1) [of s'' s'] live_same(2) [of s'' s' B] by (auto simp: I_def frame_def)
  next
    fix l k v r c s' assume L': "?L = l @ (k, v) # r" and s': "live s'" "vw B s' b k = Some v" "I l c s'"
    have "(k, v) \<in> set ?L" using L' by simp
    then have k: "vw B s b k = Some v" using L by blast
    then obtain d' key i where v: "decodePagePropertyPosting v = Inr (d', key)" using assms(4) unfolding postings_ok_def by blast
    have keep: "I (l @ [(k, v)]) c s'" if "d' \<noteq> d" using s'(3) that k v by (auto simp: I_def kept_rows_def fun_eq_iff)
    have del: "live s'' \<and> (\<forall>k'. k < k' \<longrightarrow> vw B s'' b k' = vw B s' b k') \<and> I (l @ [(k, v)]) c' s''"
      if "d' = d" "live s''" "vw B s'' = (vw B s')(b := (vw B s' b)(k := None))" for s'' c'
      using s'(3) that k v by (auto simp: I_def frame_def kept_rows_def fun_eq_iff)
    show "vens (drop_visit B b d k v) c s' (\<lambda>c' s''. live s'' \<and> (\<forall>k'. k < k' \<longrightarrow> vw B s'' b k' = vw B s' b k') \<and> I (l @ [(k, v)]) c' s'')"
    proof (cases "d' = d")
      case False
      then have "drop_visit B b d k v c = visit_ok c" using v by (simp add: drop_visit_def)
      then show ?thesis using s'(1) keep [OF False] by (simp add: vens_def visit_ok_def)
    next
      case True
      then have "drop_visit B b d k v = visit_pm (tx_Delete B b k) (\<lambda>_. visit_ok)" using v by (simp add: drop_visit_def fun_eq_iff)
      then show ?thesis using del [OF True] by (auto intro!: vens_pm delete_live [OF assms(2) s'(1)] no_eof_delete [OF s'(1)] vens_ok)
    qed
  qed
  moreover have "fst ` set ?L = {k. prefix p k \<and> vw B s b k \<noteq> None}"
  proof (intro set_eqI iffI)
    fix k assume "k \<in> fst ` set ?L"
    then obtain v where "(k, v) \<in> set ?L" by auto
    then show "k \<in> {k. prefix p k \<and> vw B s b k \<noteq> None}" unfolding L by simp
  next
    fix k assume "k \<in> {k. prefix p k \<and> vw B s b k \<noteq> None}"
    then obtain v where "(k, v) \<in> set ?L" unfolding L by blast
    then show "k \<in> fst ` set ?L" by (rule rev_image_eqI) simp
  qed
  then have "kept_rows (vw B s b) d (fst ` set ?L) = kept_rows (vw B s b) d {k. prefix p k}" by (auto simp: kept_rows_def fun_eq_iff)
  ultimately show ?thesis by (intro scan_result_ensures) (auto simp: I_def)
qed

lemma posted_kept:
  assumes "\<And>key i. prefix p (posting_key d key i)"
  shows "posted (kept_rows P d {k. prefix p k}) d' key i \<longleftrightarrow> posted P d' key i \<and> d' \<noteq> d"
  using assms by (auto simp: posted_def kept_rows_def)

lemma drop_index:
  assumes B: "bolt_reads B" "bolt_writes B" "live s" and ok: "index_ok (vw B s (defs node)) (vw B s (postings node)) E"
  shows "ensures (DropPropertyIndex B ctx node d) s (\<lambda>_ s'. frame B {defs node, postings node} s s' \<and>
    index_ok (vw B s' (defs node)) (vw B s' (postings node)) E \<and>
    (\<forall>d'. defined (vw B s' (defs node)) d' \<longleftrightarrow> defined (vw B s (defs node)) d' \<and> d' \<noteq> d))" (is "ensures _ _ ?Q")
proof -
  let ?D = "vw B s (defs node)" and ?P = "vw B s (postings node)" and ?h = "pagePropertyDefinitionHash d"
  have ne: "defs node \<noteq> postings node" by (simp add: pagePropertyBuckets_def)
  have pre: "prefix ?h (posting_key d key i)" for key i by (simp add: posting_key_def pagePropertyPostingPrefix_def)
  have scan: "ensures (scan_result (tx_Scan B ctx (postings node) (Some ?h) (pagePrefixEnd ?h) (drop_visit B (postings node) d) ())) s1 ?Q"
    if s1: "live s1" "vw B s1 = (vw B s)(defs node := ?D(?h := None))" and row: "\<And>data. ?D ?h = Some data \<Longrightarrow> decodePagePropertyDefinition data = Inr d" for s1
  proof (rule ensures_conseq [OF drop_scan [OF B(1,2) s1(1)]])
    show "postings_ok (vw B s1 (postings node))" using ok s1(2) ne by (simp add: index_ok_def)
    fix s' assume s': "frame B {postings node} s1 s' \<and> vw B s' (postings node) = kept_rows (vw B s1 (postings node)) d {k. prefix ?h k}"
    have v: "vw B s' (defs node) = ?D(?h := None)" "vw B s' (postings node) = kept_rows ?P d {k. prefix ?h k}" using s' s1(2) ne by (simp_all add: frame_def)
    have def: "defined (?D(?h := None)) d' \<longleftrightarrow> defined ?D d' \<and> d' \<noteq> d" for d' by (rule defined_delete [OF row])
    have "postings_ok (kept_rows ?P d {k. prefix ?h k})" using ok by (auto simp: index_ok_def postings_ok_def kept_rows_def)
    moreover have "definitions_ok (?D(?h := None))" using ok by (auto simp: index_ok_def definitions_ok_def)
    ultimately have "index_ok (?D(?h := None)) (kept_rows ?P d {k. prefix ?h k}) E"
      using ok unfolding index_ok_def def posted_kept [OF pre] by auto
    then show "?Q () s'" using s' s1(2) def v by (auto simp: frame_def)
  qed
  have row: "ensures (case ?D ?h of None \<Rightarrow> pret () | Some data \<Rightarrow> (case decodePagePropertyDefinition data of
        Inl er \<Rightarrow> pfail er
      | Inr storedDefinition \<Rightarrow> if storedDefinition \<noteq> d then pfail (ErrMsg ''page property index definition hash collision'') else pret ())) s
      (\<lambda>_ s'. s' = s \<and> (\<forall>data. ?D ?h = Some data \<longrightarrow> decodePagePropertyDefinition data = Inr d))"
    by (auto split: option.split sum.split intro!: ens)
  show ?thesis unfolding DropPropertyIndex_def case_prod_unfold Let_def
    by (rule ensures_bind, rule get_live [OF B(3)], rule ensures_seq [OF row], elim conjE, hypsubst, rule ensures_bind,
        rule delete_live [OF B(2,3)], rule scan) auto
qed

end
