(* ===== verification/PageGraphIntegrity.thy ===== *)
theory PageGraphIntegrity
  imports PageIndexLaws
begin

text \<open>
  A graph in the page store as its users see it: finite maps of nodes and edges and two sets of property indexes. Every
  sequence of writes acts on them as on these maps, keeps the lookup rows and postings exact, and the readers return what the
  maps say, in the order the store promises.
\<close>

section \<open>Sequences of writes\<close>




























end
