(* ===== verification/PageGraphReaders.thy ===== *)
theory PageGraphReaders
  imports PageGraphIntegrity
begin

text \<open>
  What the readers of a page graph return: the entities under a label, a type or an adjacency prefix in increasing order, and all
  edges in canonical order.
\<close>

section \<open>Prefix scans\<close>




section \<open>Rows of a graph\<close>








section \<open>Canonical order\<close>





section \<open>Lookups in a property index\<close>

















lemma posting_prefix_length: "length (pagePropertyPostingPrefix d key) = 64"
  by (simp add: pagePropertyPostingPrefix_def pagePropertyDefinitionHash_def pagePropertyDigest_def)





section \<open>The readers\<close>








end
