(* ===== verification/Streams.thy ===== *)
theory Streams
  imports BinaryRecords Estimates
begin

text \<open>
  Durable streams (\<^verbatim>\<open>internal/store/stream.go\<close>, \<^verbatim>\<open>stream_value.go\<close>) and the operations of a transaction on them
  (\<^verbatim>\<open>internal/engine/stream.go\<close>). A stream is a list of chunks of up to 64 records, linked from the newest to the oldest, with
  pointers that skip 1, 2, 4, ... chunks; trimming hides records and rebuilds the chunks once the hidden bytes reach the
  visible ones. Chunks are never changed after they are linked, so a pointer is the chunk it points to. The maps of a
  \<^verbatim>\<open>StreamStore\<close> are association lists; the copies that \<^verbatim>\<open>cloneStream\<close> makes on the first write share values only. Streams
  are resident: the fields for page-backed streams are nil, and contexts carry no page read budget. An index out of range or a nil dereference is \<open>ErrPanic\<close>.
\<close>

section \<open>Data\<close>

record StreamRecord =
  ev_Sequence :: u64
  ev_Kind :: string
  ev_Payload :: gvalue

record StreamReadResult =
  rd_Records :: "StreamRecord list"
  rd_LastSequence :: u64
  rd_ByteLimited :: bool
  rd_bytes :: u64

record StreamOperation =
  act_Type :: string
  act_Stream :: string
  act_Consumer :: string
  act_Sequence :: u64
  act_Kind :: string
  act_Payload :: gvalue

datatype streamChunk = Chunk (sc_previous: "streamChunk option") (sc_skips: "streamChunk list")
  (sc_records: "StreamRecord list") (sc_bytes: u64) (sc_snapshotBytes: u64)

record streamLog =
  lg_tail :: "streamChunk option"
  lg_first :: u64
  lg_count :: u64
  lg_bytes :: u64
  lg_snapshotBytes :: u64

record StreamStore =
  ss_streams :: "(string \<times> streamLog) list"
  ss_next :: "(string \<times> u64) list"
  ss_offsets :: "(string \<times> (string \<times> u64) list) list"
  ss_logicalBytes :: u64
  ss_snapshotBytes :: u64

definition streamChunkSize :: nat where
  "streamChunkSize = 64"

definition zero_log :: streamLog where
  "zero_log = \<lparr>lg_tail = None, lg_first = 0, lg_count = 0, lg_bytes = 0, lg_snapshotBytes = 0\<rparr>"

definition NewStreamStore :: StreamStore where
  "NewStreamStore = \<lparr>ss_streams = [], ss_next = [], ss_offsets = [], ss_logicalBytes = 0, ss_snapshotBytes = 0\<rparr>"

text \<open>Reading a missing key of a Go map gives the zero value.\<close>

definition ss_log :: "StreamStore \<Rightarrow> string \<Rightarrow> streamLog" where
  "ss_log st name = (case map_of (ss_streams st) name of None \<Rightarrow> zero_log | Some lg \<Rightarrow> lg)"

definition next_of :: "StreamStore \<Rightarrow> string \<Rightarrow> u64" where
  "next_of st name = (case map_of (ss_next st) name of None \<Rightarrow> 0 | Some n \<Rightarrow> n)"

definition offsets_of :: "StreamStore \<Rightarrow> string \<Rightarrow> (string \<times> u64) list" where
  "offsets_of st name = (case map_of (ss_offsets st) name of None \<Rightarrow> [] | Some m \<Rightarrow> m)"

definition rbind :: "gerr + 'a \<Rightarrow> ('a \<Rightarrow> gerr + 'b) \<Rightarrow> gerr + 'b" where
  "rbind m f = (case m of Inl er \<Rightarrow> Inl er | Inr a \<Rightarrow> f a)"

section \<open>Validation\<close>

definition errorsNewStreamName :: gerr where
  "errorsNewStreamName = ErrMsg ''invalid stream name, kind, or consumer''"

definition reserved_prefix :: string where
  "reserved_prefix = ''__lattice_''"

definition ValidateStreamName :: "string \<Rightarrow> bool \<Rightarrow> gerr option" where
  "ValidateStreamName v allowReserved =
     (if v = [] \<or> length v > 255 \<or> \<not> utf8_string v then Some errorsNewStreamName
      else if \<not> allowReserved \<and> take (length reserved_prefix) v = reserved_prefix then Some errorsNewStreamName
      else None)"

definition ValidateStreamKind :: "string \<Rightarrow> gerr option" where
  "ValidateStreamKind v = (if v = [] \<or> length v > 255 \<or> \<not> utf8_string v then Some errorsNewStreamName else None)"

definition require_ok :: "gerr option \<Rightarrow> gerr + unit" where
  "require_ok er = (case er of None \<Rightarrow> Inr () | Some e \<Rightarrow> Inl e)"

section \<open>Sizes\<close>

definition streamRecordBytes :: "StreamRecord \<Rightarrow> u64" where
  "streamRecordBytes r = snapshotAdd (word_of_nat (length (ev_Kind r)) + 48) (estimateValueBytes (ev_Payload r))"

definition streamRecordSnapshotBytes :: "StreamRecord \<Rightarrow> u64" where
  "streamRecordSnapshotBytes r = snapshotAdd (snapshotMul (word_of_nat (length (ev_Kind r))) 6) (snapshotAdd 48 (estimateValueBytes (ev_Payload r)))"

definition streamSnapshotBytes :: "string \<Rightarrow> u64" where
  "streamSnapshotBytes name = snapshotAdd (snapshotMul (word_of_nat (length name)) 6) 64"

definition streamOffsetSnapshotBytes :: "string \<Rightarrow> string \<Rightarrow> u64" where
  "streamOffsetSnapshotBytes stream consumer =
     snapshotAdd (snapshotAdd (snapshotMul (word_of_nat (length stream)) 6) (snapshotMul (word_of_nat (length consumer)) 6)) 48"

text \<open>The two accounts a stream store keeps: logical bytes and snapshot bytes. Each charges records, streams and offsets.\<close>

definition stream_bytes :: "string \<Rightarrow> u64" where
  "stream_bytes name = word_of_nat (length name) + 64"

definition offset_bytes :: "string \<Rightarrow> string \<Rightarrow> u64" where
  "offset_bytes name consumer = word_of_nat (length name + length consumer) + 48"

section \<open>Chunks\<close>

definition chunk_last :: "streamChunk \<Rightarrow> gerr + StreamRecord" where
  "chunk_last c = (if sc_records c = [] then Inl ErrPanic else Inr (last (sc_records c)))"

definition chunk_head :: "streamChunk \<Rightarrow> gerr + StreamRecord" where
  "chunk_head c = (case sc_records c of [] \<Rightarrow> Inl ErrPanic | r # _ \<Rightarrow> Inr r)"

lemma skip_smaller [termination_simp]: "k < length (sc_skips a) \<Longrightarrow> size (sc_skips a ! k) < size a"
proof (cases a)
  case (Chunk p sk rs b sb)
  assume "k < length (sc_skips a)"
  then have "size (sk ! k) \<le> size_list size sk" unfolding Chunk by (intro size_list_member) simp
  then show ?thesis unfolding Chunk by simp
qed

text \<open>The loop that links a new chunk to its ancestors: at each level the ancestor twice as far is a skip of the ancestor just linked.\<close>

function skip_loop :: "streamChunk \<Rightarrow> nat \<Rightarrow> streamChunk list" where
  "skip_loop ancestor k = (if length (sc_skips ancestor) \<le> k then [ancestor] else ancestor # skip_loop (sc_skips ancestor ! k) (Suc k))"
  by pat_completeness auto
termination
  by (relation "measure (\<lambda>(a, k). size a)") (auto simp: skip_smaller)

declare skip_loop.simps [simp del]

definition newStreamChunk :: "streamChunk option \<Rightarrow> StreamRecord list \<Rightarrow> streamChunk" where
  "newStreamChunk previous rs =
     Chunk previous (case previous of None \<Rightarrow> [] | Some p \<Rightarrow> skip_loop p 0) rs
       (fold (\<lambda>r b. snapshotAdd b (streamRecordBytes r)) rs (case previous of None \<Rightarrow> 0 | Some p \<Rightarrow> sc_bytes p))
       (fold (\<lambda>r b. snapshotAdd b (streamRecordSnapshotBytes r)) rs (case previous of None \<Rightarrow> 0 | Some p \<Rightarrow> sc_snapshotBytes p))"

definition streamChunkBytesThrough :: "streamChunk option \<Rightarrow> u64 \<Rightarrow> u64 \<times> u64" where
  "streamChunkBytesThrough chunk sequence = (case chunk of
     None \<Rightarrow> (0, 0)
   | Some c \<Rightarrow>
       let rs = takeWhile (\<lambda>r. \<not> ev_Sequence r > sequence) (sc_records c) in
       (fold (\<lambda>r b. snapshotAdd b (streamRecordBytes r)) rs (case sc_previous c of None \<Rightarrow> 0 | Some p \<Rightarrow> sc_bytes p),
        fold (\<lambda>r b. snapshotAdd b (streamRecordSnapshotBytes r)) rs (case sc_previous c of None \<Rightarrow> 0 | Some p \<Rightarrow> sc_snapshotBytes p)))"

fun chunk_search :: "u64 \<Rightarrow> nat \<Rightarrow> streamChunk \<Rightarrow> gerr + streamChunk" where
  "chunk_search sequence 0 c = Inr c"
| "chunk_search sequence (Suc level) c =
     (if level \<ge> length (sc_skips c) then chunk_search sequence level c
      else let candidate = sc_skips c ! level in
           rbind (chunk_last candidate) (\<lambda>l. chunk_search sequence level (if ev_Sequence l \<ge> sequence then candidate else c)))"

definition log_chunk :: "streamLog \<Rightarrow> u64 \<Rightarrow> gerr + streamChunk option" where
  "log_chunk lg sequence = (case lg_tail lg of
     None \<Rightarrow> Inr None
   | Some tail \<Rightarrow>
       if lg_count lg = 0 \<or> sequence < lg_first lg then Inr None
       else rbind (chunk_last tail) (\<lambda>l.
         if sequence > ev_Sequence l then Inr None
         else rbind (chunk_search sequence (length (sc_skips tail)) tail) (\<lambda>c.
           rbind (chunk_head c) (\<lambda>h. if sequence < ev_Sequence h then Inr None else Inr (Some c)))))"

text \<open>\<^verbatim>\<open>for chunk := log.tail; chunk != nil && last(chunk).Sequence >= first; chunk = chunk.previous\<close>: the chunks visited, newest first.\<close>

fun chunks_from :: "u64 \<Rightarrow> streamChunk option \<Rightarrow> gerr + streamChunk list" where
  "chunks_from first None = Inr []"
| "chunks_from first (Some (Chunk p sk rs b sb)) = rbind (chunk_last (Chunk p sk rs b sb)) (\<lambda>l.
     if ev_Sequence l \<ge> first then rbind (chunks_from first p) (\<lambda>cs. Inr (Chunk p sk rs b sb # cs)) else Inr [])"

section \<open>Reading\<close>

definition NextSequence :: "StreamStore \<Rightarrow> string \<Rightarrow> u64" where
  "NextSequence st name = (if next_of st name \<noteq> 0 then next_of st name else 1)"

definition GetOffset :: "StreamStore \<Rightarrow> string \<Rightarrow> string \<Rightarrow> u64 option" where
  "GetOffset st name consumer = map_of (offsets_of st name) consumer"

definition StreamBytes :: "StreamStore \<Rightarrow> string \<Rightarrow> u64" where
  "StreamBytes st name = lg_bytes (ss_log st name)"

definition ss_Fork :: "StreamStore \<Rightarrow> StreamStore" where
  "ss_Fork st = \<lparr>ss_streams = ss_streams st, ss_next = ss_next st, ss_offsets = ss_offsets st,
     ss_logicalBytes = ss_logicalBytes st, ss_snapshotBytes = ss_snapshotBytes st\<rparr>"

text \<open>\<^verbatim>\<open>appendCtx\<close>: a record that does not fit the byte limit ends the read.\<close>

definition appendCtx :: "ctx \<Rightarrow> StreamRecord \<Rightarrow> u64 \<Rightarrow> StreamReadResult \<Rightarrow> StreamReadResult polled" where
  "appendCtx ctx r maxBytes result = bindp (estimateValueBytesContext ctx (ev_Payload r)) (\<lambda>valueBytes.
     let bytes = snapshotAdd (word_of_nat (length (ev_Kind r)) + 48) valueBytes in
     if maxBytes \<noteq> 0 \<and> (bytes > maxBytes \<or> rd_bytes result > maxBytes - bytes) then ret (result\<lparr>rd_ByteLimited := True\<rparr>)
     else bindp (CloneValueContext ctx (ev_Payload r)) (\<lambda>cloned.
       ret (result\<lparr>rd_Records := rd_Records result @ [r\<lparr>ev_Payload := cloned\<rparr>], rd_LastSequence := ev_Sequence r,
                   rd_bytes := snapshotAdd (rd_bytes result) bytes\<rparr>)))"

fun append_records :: "ctx \<Rightarrow> u64 \<Rightarrow> StreamRecord list \<Rightarrow> StreamReadResult \<Rightarrow> StreamReadResult polled" where
  "append_records ctx maxBytes [] result = ret result"
| "append_records ctx maxBytes (r # rs) result = bindp (appendCtx ctx r maxBytes result) (\<lambda>result1.
     if rd_ByteLimited result1 then ret result1 else append_records ctx maxBytes rs result1)"

definition empty_read :: StreamReadResult where
  "empty_read = \<lparr>rd_Records = [], rd_LastSequence = 0, rd_ByteLimited = False, rd_bytes = 0\<rparr>"

text \<open>How many records a read takes at most: each accounts for at least 48 bytes.\<close>

definition read_take :: "streamLog \<Rightarrow> u64 \<Rightarrow> u64 \<Rightarrow> u64 \<Rightarrow> u64" where
  "read_take lg sequence cap maxBytes =
     (let available = (if sequence > lg_first lg then lg_count lg - min (lg_count lg) (sequence - lg_first lg) else lg_count lg);
          take' = min cap available
      in if maxBytes \<noteq> 0 \<and> maxBytes div 48 < take' then maxBytes div 48 + 1 else take')"

text \<open>The chunks that hold the range, each poll of the context preceding the visit of one.\<close>

definition read_chunks :: "ctx \<Rightarrow> u64 \<Rightarrow> u64 \<Rightarrow> u64 \<Rightarrow> streamChunk list \<Rightarrow> StreamReadResult polled" where
  "read_chunks ctx sequence fin maxBytes chunks = bindp (poll_times ctx (length chunks)) (\<lambda>_.
     append_records ctx maxBytes (filter (\<lambda>r. ev_Sequence r \<ge> sequence \<and> ev_Sequence r \<le> fin) (concat (map sc_records (rev chunks)))) empty_read)"

definition readBoundedTraverse :: "ctx \<Rightarrow> StreamStore \<Rightarrow> string \<Rightarrow> u64 \<Rightarrow> u64 \<Rightarrow> u64 \<Rightarrow> (gerr + StreamReadResult) polled" where
  "readBoundedTraverse ctx st name after cap maxBytes = bindp (poll ctx) (\<lambda>_.
     let lg = ss_log st name in
     if cap = 0 \<or> lg_count lg = 0 then ret (Inr empty_read)
     else if after \<ge> lg_first lg + lg_count lg - 1 then ret (Inr empty_read)
     else
       let sequence = (if after + 1 < lg_first lg then lg_first lg else after + 1);
           take' = read_take lg sequence cap maxBytes;
           fin = sequence + take' - 1
       in case log_chunk lg fin of
            Inl er \<Rightarrow> ret (Inl er)
          | Inr None \<Rightarrow> ret (Inr empty_read)
          | Inr (Some endChunk) \<Rightarrow>
              (case chunk_head endChunk of
                 Inl er \<Rightarrow> ret (Inl er)
               | Inr h \<Rightarrow>
                   if sequence \<ge> ev_Sequence h
                   then let start = unat (sequence - ev_Sequence h) in
                        if start + unat take' > length (sc_records endChunk) then ret (Inl ErrPanic)
                        else bindp (append_records ctx maxBytes (List.take (unat take') (drop start (sc_records endChunk))) empty_read) (\<lambda>result.
                               bindp (poll ctx) (\<lambda>_. ret (Inr result)))
                   else (case chunks_from sequence (Some endChunk) of
                           Inl er \<Rightarrow> ret (Inl er)
                         | Inr chunks \<Rightarrow> bindp (read_chunks ctx sequence fin maxBytes chunks) (\<lambda>result.
                               bindp (poll ctx) (\<lambda>_. ret (Inr result))))))"

definition ReadBoundedContext :: "ctx \<Rightarrow> StreamStore \<Rightarrow> string \<Rightarrow> u64 \<Rightarrow> u64 \<Rightarrow> u64 \<Rightarrow> (gerr + StreamReadResult) polled" where
  "ReadBoundedContext ctx st name after cap maxBytes = readBoundedTraverse ctx st name after cap maxBytes"

definition ReadBounded :: "StreamStore \<Rightarrow> string \<Rightarrow> u64 \<Rightarrow> u64 \<Rightarrow> u64 \<Rightarrow> gerr + StreamReadResult" where
  "ReadBounded st name after cap maxBytes = (case snd (readBoundedTraverse background st name after cap maxBytes 0) of
     Inl _ \<Rightarrow> Inr empty_read
   | Inr result \<Rightarrow> result)"

section \<open>Writing\<close>

text \<open>\<^verbatim>\<open>cloneOffset\<close> gives the stream a map of offsets of its own, empty when there was none.\<close>

definition cloneOffset :: "string \<Rightarrow> StreamStore \<Rightarrow> StreamStore" where
  "cloneOffset name st = st\<lparr>ss_offsets := AList.update name (offsets_of st name) (ss_offsets st)\<rparr>"

text \<open>A stream that has no next sequence yet is charged when its first sequence is recorded.\<close>

definition charge_stream :: "string \<Rightarrow> StreamStore \<Rightarrow> StreamStore" where
  "charge_stream name st = st\<lparr>ss_logicalBytes := snapshotAdd (ss_logicalBytes st) (stream_bytes name),
     ss_snapshotBytes := snapshotAdd (ss_snapshotBytes st) (streamSnapshotBytes name)\<rparr>"

definition touch_stream :: "string \<Rightarrow> StreamStore \<Rightarrow> StreamStore" where
  "touch_stream name st = (if next_of st name = 0
     then charge_stream name (st\<lparr>ss_next := AList.update name 1 (ss_next st)\<rparr>) else st)"

definition append_tail :: "streamChunk option \<Rightarrow> StreamRecord \<Rightarrow> streamChunk" where
  "append_tail tail r = (case tail of
     None \<Rightarrow> newStreamChunk None [r]
   | Some c \<Rightarrow>
       if length (sc_records c) = streamChunkSize then newStreamChunk (Some c) [r]
       else Chunk (sc_previous c) (sc_skips c) (sc_records c @ [r]) (snapshotAdd (sc_bytes c) (streamRecordBytes r))
              (snapshotAdd (sc_snapshotBytes c) (streamRecordSnapshotBytes r)))"

definition Publish :: "string \<Rightarrow> string \<Rightarrow> gvalue \<Rightarrow> StreamStore \<Rightarrow> u64 \<times> StreamStore" where
  "Publish name kind payload st =
     (let newStream = (next_of st name = 0);
          sequence = (if next_of st name = 0 then 1 else next_of st name);
          st1 = st\<lparr>ss_next := AList.update name (sequence + 1) (ss_next st)\<rparr>;
          lg = ss_log st name;
          r = \<lparr>ev_Sequence = sequence, ev_Kind = kind, ev_Payload = CloneValue payload\<rparr>;
          recordBytes = streamRecordBytes r;
          recordSnapshotBytes = streamRecordSnapshotBytes r;
          lg1 = lg\<lparr>lg_tail := Some (append_tail (lg_tail lg) r),
                   lg_first := (if lg_count lg = 0 then sequence else lg_first lg),
                   lg_count := lg_count lg + 1,
                   lg_bytes := snapshotAdd (lg_bytes lg) recordBytes,
                   lg_snapshotBytes := snapshotAdd (lg_snapshotBytes lg) recordSnapshotBytes\<rparr>;
          st2 = st1\<lparr>ss_logicalBytes := snapshotAdd (ss_logicalBytes st) recordBytes,
                    ss_snapshotBytes := snapshotAdd (ss_snapshotBytes st) recordSnapshotBytes\<rparr>;
          st3 = (if newStream then charge_stream name st2 else st2)
      in (sequence, st3\<lparr>ss_streams := AList.update name lg1 (ss_streams st3)\<rparr>))"

definition SetOffset :: "string \<Rightarrow> string \<Rightarrow> u64 \<Rightarrow> StreamStore \<Rightarrow> StreamStore" where
  "SetOffset name consumer sequence st =
     (let st1 = touch_stream name st;
          existed = (map_of (offsets_of st1 name) consumer \<noteq> None);
          st2 = cloneOffset name st1;
          st3 = st2\<lparr>ss_offsets := AList.update name (AList.update consumer sequence (offsets_of st2 name)) (ss_offsets st2)\<rparr>
      in if existed then st3
         else st3\<lparr>ss_logicalBytes := snapshotAdd (ss_logicalBytes st3) (offset_bytes name consumer),
                  ss_snapshotBytes := snapshotAdd (ss_snapshotBytes st3) (streamOffsetSnapshotBytes name consumer)\<rparr>)"

text \<open>The records a log shows, chunk by chunk from the newest: what the loops over \<^verbatim>\<open>log.tail\<close> visit.\<close>

definition visible_records :: "streamLog \<Rightarrow> gerr + StreamRecord list" where
  "visible_records lg = rbind (chunks_from (lg_first lg) (lg_tail lg)) (\<lambda>cs.
     Inr (concat (map (\<lambda>c. filter (\<lambda>r. \<not> ev_Sequence r < lg_first lg) (sc_records c)) cs)))"

fun store_bytes_loop :: "(string \<Rightarrow> u64) \<Rightarrow> (StreamRecord \<Rightarrow> u64) \<Rightarrow> StreamStore \<Rightarrow> string list \<Rightarrow> u64 \<Rightarrow> gerr + u64" where
  "store_bytes_loop per_stream per_record st [] acc = Inr acc"
| "store_bytes_loop per_stream per_record st (name # names) acc = rbind (visible_records (ss_log st name)) (\<lambda>rs.
     store_bytes_loop per_stream per_record st names
       (fold (\<lambda>r b. snapshotAdd b (per_record r)) rs (snapshotAdd acc (per_stream name))))"

definition offsets_bytes :: "(string \<Rightarrow> string \<Rightarrow> u64) \<Rightarrow> StreamStore \<Rightarrow> u64 \<Rightarrow> u64" where
  "offsets_bytes per_offset st acc =
     fold (\<lambda>(stream, consumers) acc. fold (\<lambda>(consumer, _) b. snapshotAdd b (per_offset stream consumer)) consumers acc) (ss_offsets st) acc"

definition calculateStreamStoreBytes :: "StreamStore \<Rightarrow> gerr + u64" where
  "calculateStreamStoreBytes st =
     rbind (store_bytes_loop stream_bytes streamRecordBytes st (map fst (ss_next st)) 0) (\<lambda>size. Inr (offsets_bytes offset_bytes st size))"

definition calculateStreamStoreSnapshotBytes :: "StreamStore \<Rightarrow> gerr + u64" where
  "calculateStreamStoreSnapshotBytes st =
     rbind (store_bytes_loop streamSnapshotBytes streamRecordSnapshotBytes st (map fst (ss_next st)) 0)
       (\<lambda>size. Inr (offsets_bytes streamOffsetSnapshotBytes st size))"

text \<open>Rebuilding the chunks of the visible records, the oldest chunk first.\<close>

definition rebuild_tail :: "u64 \<Rightarrow> streamChunk list \<Rightarrow> streamChunk option" where
  "rebuild_tail first chunks = fold (\<lambda>c tail.
     let rs = dropWhile (\<lambda>r. ev_Sequence r < first) (sc_records c) in
     if rs \<noteq> [] then Some (newStreamChunk tail rs) else tail) (rev chunks) None"

definition compact_log :: "streamLog \<Rightarrow> gerr + streamLog" where
  "compact_log lg = rbind (chunks_from (lg_first lg) (lg_tail lg)) (\<lambda>chunks.
     case rebuild_tail (lg_first lg) chunks of
       None \<Rightarrow> Inl ErrPanic
     | Some t \<Rightarrow> Inr (lg\<lparr>lg_tail := Some t, lg_bytes := sc_bytes t, lg_snapshotBytes := sc_snapshotBytes t\<rparr>))"

text \<open>What a trim removes from the two accounts, and whether a total on the way has reached the largest number.\<close>

definition trim_saturated :: "StreamStore \<Rightarrow> streamLog \<Rightarrow> streamChunk \<Rightarrow> u64 \<times> u64 \<Rightarrow> u64 \<times> u64 \<Rightarrow> bool" where
  "trim_saturated st lg tail start fin \<longleftrightarrow>
     sc_bytes tail = - 1 \<or> sc_snapshotBytes tail = - 1 \<or> fst start = - 1 \<or> fst fin = - 1 \<or> snd start = - 1 \<or> snd fin = - 1 \<or>
     lg_bytes lg = - 1 \<or> lg_snapshotBytes lg = - 1 \<or> fst fin - fst start > lg_bytes lg \<or> snd fin - snd start > lg_snapshotBytes lg \<or>
     ss_logicalBytes st = - 1 \<or> ss_snapshotBytes st = - 1 \<or> fst fin - fst start > ss_logicalBytes st \<or> snd fin - snd start > ss_snapshotBytes st"

definition trim_log :: "bool \<Rightarrow> u64 \<Rightarrow> u64 \<Rightarrow> u64 \<Rightarrow> streamLog \<Rightarrow> streamLog" where
  "trim_log saturated trimmedThrough removedBytes removedSnapshotBytes lg =
     (let lg1 = lg\<lparr>lg_count := lg_count lg - (trimmedThrough - lg_first lg + 1), lg_first := trimmedThrough + 1\<rparr> in
      if lg_count lg1 = 0 then zero_log
      else if \<not> saturated then lg1\<lparr>lg_bytes := lg_bytes lg - removedBytes, lg_snapshotBytes := lg_snapshotBytes lg - removedSnapshotBytes\<rparr>
      else lg1)"

definition Trim :: "string \<Rightarrow> u64 \<Rightarrow> StreamStore \<Rightarrow> gerr + StreamStore" where
  "Trim name through st =
     (let st1 = touch_stream name st; lg = ss_log st1 name in
      if lg_count lg = 0 \<or> through < lg_first lg then Inr st1
      else
        let trimmedThrough = min through (lg_first lg + lg_count lg - 1) in
        rbind (log_chunk lg (lg_first lg)) (\<lambda>startChunk.
        rbind (log_chunk lg trimmedThrough) (\<lambda>endChunk.
        case lg_tail lg of
          None \<Rightarrow> Inl ErrPanic
        | Some tail \<Rightarrow>
            let start = streamChunkBytesThrough startChunk (lg_first lg - 1);
                fin = streamChunkBytesThrough endChunk trimmedThrough;
                removedBytes = fst fin - fst start;
                removedSnapshotBytes = snd fin - snd start;
                saturated = trim_saturated st1 lg tail start fin;
                lg1 = trim_log saturated trimmedThrough removedBytes removedSnapshotBytes lg;
                st2 = (if saturated then st1
                       else st1\<lparr>ss_logicalBytes := ss_logicalBytes st1 - removedBytes,
                                ss_snapshotBytes := ss_snapshotBytes st1 - removedSnapshotBytes\<rparr>)
            in rbind (if lg_count lg1 \<noteq> 0 \<and> (saturated \<or> sc_bytes tail - lg_bytes lg1 \<ge> lg_bytes lg1) then compact_log lg1 else Inr lg1) (\<lambda>lg2.
                 let st3 = st2\<lparr>ss_streams := AList.update name lg2 (ss_streams st2)\<rparr> in
                 if saturated
                 then rbind (calculateStreamStoreBytes st3) (\<lambda>n.
                      rbind (calculateStreamStoreSnapshotBytes (st3\<lparr>ss_logicalBytes := n\<rparr>)) (\<lambda>m.
                      Inr (st3\<lparr>ss_logicalBytes := n, ss_snapshotBytes := m\<rparr>)))
                 else Inr st3))))"

text \<open>\<^verbatim>\<open>TrimToBytes\<close> walks start the newest record until the records kept would exceed half of the limit. \<open>Inl\<close> is the sequence it trims
  through, \<open>Inr\<close> the state after the loop.\<close>

fun trim_chunk :: "u64 \<Rightarrow> u64 \<Rightarrow> StreamRecord list \<Rightarrow> u64 \<times> u64 \<Rightarrow> u64 + u64 \<times> u64" where
  "trim_chunk target first [] (retained, through) = Inr (retained, through)"
| "trim_chunk target first (r # rs) (retained, through) =
     (if ev_Sequence r < first then trim_chunk target first rs (retained, through)
      else if snapshotAdd retained (streamRecordBytes r) > target then Inl (ev_Sequence r)
      else trim_chunk target first rs (snapshotAdd retained (streamRecordBytes r), ev_Sequence r - 1))"

fun trim_chunks :: "u64 \<Rightarrow> u64 \<Rightarrow> streamChunk option \<Rightarrow> u64 \<times> u64 \<Rightarrow> gerr + (u64 + u64 \<times> u64)" where
  "trim_chunks target first None acc = Inr (Inr acc)"
| "trim_chunks target first (Some (Chunk p sk rs b sb)) acc = rbind (chunk_last (Chunk p sk rs b sb)) (\<lambda>l.
     if ev_Sequence l \<ge> first
     then (case trim_chunk target first (rev rs) acc of Inl sequence \<Rightarrow> Inr (Inl sequence) | Inr acc1 \<Rightarrow> trim_chunks target first p acc1)
     else Inr (Inr acc))"

definition TrimToBytes :: "string \<Rightarrow> u64 \<Rightarrow> StreamStore \<Rightarrow> gerr + (u64 \<times> bool) \<times> StreamStore" where
  "TrimToBytes name maxBytes st =
     (let lg = ss_log st name in
      if lg_bytes lg \<le> maxBytes \<or> lg_count lg = 0 then Inr ((0, False), st)
      else rbind (trim_chunks (maxBytes div 2) (lg_first lg) (lg_tail lg) (0, lg_first lg - 1)) (\<lambda>res.
        case res of
          Inl sequence \<Rightarrow> rbind (Trim name sequence st) (\<lambda>st1. Inr ((sequence, True), st1))
        | Inr (retained, through) \<Rightarrow>
            if through \<ge> lg_first lg then rbind (Trim name through st) (\<lambda>st1. Inr ((through, True), st1))
            else Inr ((0, False), st)))"

section \<open>Persisted values\<close>

fun walk_each :: "('a \<Rightarrow> unit walk) \<Rightarrow> 'a list \<Rightarrow> unit walk" where
  "walk_each f [] = wret ()"
| "walk_each f (x # xs) = wbind (f x) (\<lambda>_. walk_each f xs)"

lemma walk_each_cong [fundef_cong]: "xs = ys \<Longrightarrow> (\<And>x. x \<in> set ys \<Longrightarrow> f x = g x) \<Longrightarrow> walk_each f xs = walk_each g ys"
  by (induction xs arbitrary: ys) auto

definition ErrDepth :: gerr where
  "ErrDepth = ErrValueLimit ''nesting exceeds limit''"

fun validateStreamValue :: "persistedValue \<Rightarrow> nat \<Rightarrow> unit walk" where
  "validateStreamValue PNull depth = (if depth > maxValueDepth then wfail ErrDepth else wret ())"
| "validateStreamValue (PBool b) depth = (if depth > maxValueDepth then wfail ErrDepth else wret ())"
| "validateStreamValue (PInt i) depth = (if depth > maxValueDepth then wfail ErrDepth else wret ())"
| "validateStreamValue (PFloat f) depth =
     (if depth > maxValueDepth then wfail ErrDepth else wbind (normalizeValue depth (GFloat64 f)) (\<lambda>_. wret ()))"
| "validateStreamValue (PString s) depth =
     (if depth > maxValueDepth then wfail ErrDepth else wbind (normalizeValue depth (GString s)) (\<lambda>_. wret ()))"
| "validateStreamValue (PBytes bs) depth =
     (if depth > maxValueDepth then wfail ErrDepth else walk_addBytes (int (opt_length bs)))"
| "validateStreamValue (PVector xs) depth =
     (if depth > maxValueDepth then wfail ErrDepth
      else if int (opt_length xs) > maxValueBytes div 4 then wfail (ErrValueLimit ''byte count exceeds limit'')
      else wbind (walk_addBytes (int (opt_length xs) * 4)) (\<lambda>_.
        walk_each (\<lambda>x. if \<not> finite32 x then wfail (ErrMsg ''vector contains non-finite value'') else wret ()) (opt_items xs)))"
| "validateStreamValue (PList xs) depth =
     (if depth > maxValueDepth then wfail ErrDepth
      else wbind (walk_add (length (opt_items xs))) (\<lambda>_. walk_each (\<lambda>item. validateStreamValue item (depth + 1)) (opt_items xs)))"
| "validateStreamValue (PMap m) depth =
     (if depth > maxValueDepth then wfail ErrDepth
      else wbind (walk_add (length (opt_items m))) (\<lambda>_. walk_each (\<lambda>(key, item).
        if \<not> utf8_string key then wfail (ErrMsg ''map key contains invalid UTF-8'')
        else wbind (walk_addBytes (int (length key))) (\<lambda>_. validateStreamValue item (depth + 1))) (opt_items m)))"
| "validateStreamValue v depth =
     (if depth > maxValueDepth then wfail ErrDepth else wfail (ErrMsg ''unknown stored value kind''))"

text \<open>A change event of a property carries the property values under their own limits, one walk each.\<close>

definition validate_property :: "string \<Rightarrow> persistedValue \<Rightarrow> gerr + unit" where
  "validate_property key v = fst (run_state (wbind (walk_add 1) (\<lambda>_.
     wbind (walk_addBytes (int (length key))) (\<lambda>_. validateStreamValue v 0))) newValueWalk)"

definition envelope_field :: "string \<times> persistedValue \<Rightarrow> unit walk" where
  "envelope_field = (\<lambda>(field, v).
     if \<not> utf8_string field then wfail (ErrMsg ''map key contains invalid UTF-8'')
     else wbind (walk_addBytes (int (length field))) (\<lambda>_.
       if field = ''key'' \<or> field = ''new_value'' \<or> field = ''old_value'' then wret () else validateStreamValue v 0))"

definition validateChangefeedEnvelope :: "(string \<times> persistedValue) list option \<Rightarrow> gerr + unit" where
  "validateChangefeedEnvelope envelope =
     (let fields = opt_items envelope;
          propertyValues = List.map_filter (map_of fields) [''new_value'', ''old_value'']
      in case map_of fields ''key'' of
           Some (PString key) \<Rightarrow>
             if propertyValues = [] then fst (run_state (validateStreamValue (PMap envelope) 0) newValueWalk)
             else if \<not> utf8_string key then Inl (ErrMsg ''property key contains invalid UTF-8'')
             else rbind (fst (run_state (wbind (walk_add (length fields)) (\<lambda>_. walk_each envelope_field fields)) newValueWalk)) (\<lambda>_.
                    rbind (sum_list_map (validate_property key) propertyValues) (\<lambda>_. Inr ()))
         | _ \<Rightarrow> fst (run_state (validateStreamValue (PMap envelope) 0) newValueWalk))"

definition decodeStreamValue :: "string \<Rightarrow> persistedValue \<Rightarrow> gerr + gvalue" where
  "decodeStreamValue stream v =
     rbind (case v of
              PMap envelope \<Rightarrow>
                if stream = ''__lattice_changes'' then validateChangefeedEnvelope envelope
                else fst (run_state (validateStreamValue v 0) newValueWalk)
            | _ \<Rightarrow> fst (run_state (validateStreamValue v 0) newValueWalk))
       (\<lambda>_. decodeValue v)"

section \<open>Operations in the log\<close>

definition persist_operation :: "StreamOperation \<Rightarrow> gerr + persistedStreamOperation" where
  "persist_operation act = rbind (require_ok (ValidateStreamName (act_Stream act) True)) (\<lambda>_.
     let persisted = \<lparr>sop_Type = act_Type act, sop_Stream = act_Stream act, sop_Consumer = act_Consumer act,
                      sop_Sequence = act_Sequence act, sop_Kind = act_Kind act, sop_Payload = PEmpty\<rparr> in
     if act_Type act = ''publish'' then
       if act_Sequence act = 0 then Inl (ErrMsg ''invalid stream sequence'')
       else rbind (require_ok (ValidateStreamKind (act_Kind act))) (\<lambda>_.
              rbind (encodeValue (act_Payload act)) (\<lambda>payload. Inr (persisted\<lparr>sop_Payload := payload\<rparr>)))
     else if act_Type act = ''offset'' then rbind (require_ok (ValidateStreamName (act_Consumer act) True)) (\<lambda>_. Inr persisted)
     else if act_Type act = ''trim'' then Inr persisted
     else Inl (ErrMsg ''invalid stream operation''))"

definition BuildPersistedStreamOperations :: "StreamOperation list \<Rightarrow> gerr + persistedStreamOperation list" where
  "BuildPersistedStreamOperations acts = sum_list_map persist_operation acts"

definition apply_operation :: "persistedStreamOperation \<Rightarrow> StreamStore \<Rightarrow> gerr + StreamStore" where
  "apply_operation act st = rbind (require_ok (ValidateStreamName (sop_Stream act) True)) (\<lambda>_.
     if sop_Type act = ''publish'' then
       if sop_Sequence act = 0 \<or> sop_Sequence act \<noteq> NextSequence st (sop_Stream act) then Inl (ErrMsg ''invalid stream sequence'')
       else rbind (require_ok (ValidateStreamKind (sop_Kind act))) (\<lambda>_.
              rbind (decodeStreamValue (sop_Stream act) (sop_Payload act)) (\<lambda>payload.
                Inr (snd (Publish (sop_Stream act) (sop_Kind act) payload st))))
     else if sop_Type act = ''offset'' then
       rbind (require_ok (ValidateStreamName (sop_Consumer act) True)) (\<lambda>_. Inr (SetOffset (sop_Stream act) (sop_Consumer act) (sop_Sequence act) st))
     else if sop_Type act = ''trim'' then Trim (sop_Stream act) (sop_Sequence act) st
     else Inl (ErrMsg ''invalid stream operation''))"

fun apply_operations :: "persistedStreamOperation list \<Rightarrow> StreamStore \<Rightarrow> gerr + StreamStore" where
  "apply_operations [] st = Inr st"
| "apply_operations (act # acts) st = rbind (apply_operation act st) (apply_operations acts)"

definition ApplyPersistedStreamOperations :: "StreamStore \<Rightarrow> persistedStreamOperation list \<Rightarrow> gerr + StreamStore" where
  "ApplyPersistedStreamOperations st acts = apply_operations acts (ss_Fork st)"

section \<open>Snapshots\<close>

definition record_at :: "streamLog \<Rightarrow> u64 \<Rightarrow> gerr + StreamRecord" where
  "record_at lg sequence = rbind (log_chunk lg sequence) (\<lambda>c. case c of
     None \<Rightarrow> Inl (ErrMsg ''invalid stream chunk'')
   | Some c \<Rightarrow> rbind (chunk_head c) (\<lambda>h.
       let i = unat (sequence - ev_Sequence h) in if i < length (sc_records c) then Inr (sc_records c ! i) else Inl ErrPanic))"

text \<open>\<^verbatim>\<open>visitStreamRecords\<close>: the sequences \<^verbatim>\<open>first, first+1, ...\<close> below \<^verbatim>\<open>first+count\<close>.\<close>

definition log_sequences :: "streamLog \<Rightarrow> u64 list" where
  "log_sequences lg = map word_of_nat [unat (lg_first lg)..<unat (lg_first lg + lg_count lg)]"

fun visit_records :: "streamLog \<Rightarrow> (StreamRecord \<Rightarrow> 'c \<Rightarrow> gerr + 'c) \<Rightarrow> u64 list \<Rightarrow> 'c \<Rightarrow> gerr + 'c" where
  "visit_records lg visit [] c = Inr c"
| "visit_records lg visit (sequence # sequences) c = rbind (record_at lg sequence) (\<lambda>r. rbind (visit r c) (visit_records lg visit sequences))"

definition visitStreamRecords :: "StreamStore \<Rightarrow> string \<Rightarrow> (StreamRecord \<Rightarrow> 'c \<Rightarrow> gerr + 'c) \<Rightarrow> 'c \<Rightarrow> gerr + 'c" where
  "visitStreamRecords st name visit c = visit_records (ss_log st name) visit (log_sequences (ss_log st name)) c"

definition bad_sequence :: "u64 \<Rightarrow> u64 \<Rightarrow> u64 \<Rightarrow> bool" where
  "bad_sequence sequence previous nxt \<longleftrightarrow>
     sequence = 0 \<or> sequence \<le> previous \<or> sequence \<ge> nxt \<or> previous \<noteq> 0 \<and> sequence \<noteq> previous + 1"

definition persist_record :: "u64 \<Rightarrow> StreamRecord \<Rightarrow> u64 \<times> persistedStreamRecord list \<Rightarrow> gerr + u64 \<times> persistedStreamRecord list" where
  "persist_record nxt r = (\<lambda>(previous, acc).
     if bad_sequence (ev_Sequence r) previous nxt then Inl (ErrMsg ''invalid stream sequence'')
     else rbind (require_ok (ValidateStreamKind (ev_Kind r))) (\<lambda>_.
       rbind (encodeValue (ev_Payload r)) (\<lambda>payload.
         Inr (ev_Sequence r, acc @ [\<lparr>sr_Sequence = ev_Sequence r, sr_Kind = ev_Kind r, sr_Payload = payload\<rparr>]))))"

definition persist_stream :: "StreamStore \<Rightarrow> string \<Rightarrow> gerr + persistedStream" where
  "persist_stream st name = rbind (require_ok (ValidateStreamName name True)) (\<lambda>_.
     let nxt = next_of st name in
     rbind (visitStreamRecords st name (persist_record nxt) (0, [])) (\<lambda>(previous, records).
       if previous \<noteq> 0 \<and> nxt \<noteq> previous + 1 then Inl (ErrMsg ''invalid stream next sequence'')
       else Inr \<lparr>ps_Name = name, ps_Next = (if nxt = 0 then 1 else nxt), ps_Records = Some records\<rparr>))"

definition persist_offsets :: "StreamStore \<Rightarrow> string \<Rightarrow> gerr + persistedStreamOffset list" where
  "persist_offsets st name = sum_list_map (\<lambda>consumer. rbind (require_ok (ValidateStreamName consumer True)) (\<lambda>_.
     Inr \<lparr>so_Stream = name, so_Consumer = consumer, so_Sequence = the (map_of (offsets_of st name) consumer)\<rparr>))
     (sort (map fst (offsets_of st name)))"

definition buildPersistedStreams :: "StreamStore \<Rightarrow> gerr + persistedStreams" where
  "buildPersistedStreams st =
     (let names = sort (map fst (ss_next st)) in
      rbind (sum_list_map (persist_stream st) names) (\<lambda>streams.
        rbind (sum_list_map (persist_offsets st) names) (\<lambda>offsets.
          Inr \<lparr>pss_Streams = Some streams, pss_Offsets = (if concat offsets = [] then None else Some (concat offsets))\<rparr>)))"

definition decode_record :: "string \<Rightarrow> u64 \<Rightarrow> u64 \<Rightarrow> persistedStreamRecord \<Rightarrow> gerr + StreamRecord" where
  "decode_record name nxt previous r =
     (if bad_sequence (sr_Sequence r) previous nxt then Inl (ErrMsg ''invalid persisted stream sequence'')
      else rbind (require_ok (ValidateStreamKind (sr_Kind r))) (\<lambda>_.
        rbind (decodeStreamValue name (sr_Payload r)) (\<lambda>payload.
          Inr \<lparr>ev_Sequence = sr_Sequence r, ev_Kind = sr_Kind r, ev_Payload = payload\<rparr>)))"

fun decode_records :: "string \<Rightarrow> u64 \<Rightarrow> u64 \<Rightarrow> persistedStreamRecord list \<Rightarrow> gerr + u64 \<times> StreamRecord list" where
  "decode_records name nxt previous [] = Inr (previous, [])"
| "decode_records name nxt previous (r # rs) = rbind (decode_record name nxt previous r) (\<lambda>x.
     rbind (decode_records name nxt (ev_Sequence x) rs) (\<lambda>(previous', xs). Inr (previous', x # xs)))"

text \<open>\<^verbatim>\<open>for start := 0; start < len(records); start += int(streamChunkSize)\<close>\<close>

function link_chunks :: "streamChunk option \<Rightarrow> StreamRecord list \<Rightarrow> streamChunk option" where
  "link_chunks tail rs = (if rs = [] then tail
     else link_chunks (Some (newStreamChunk tail (List.take streamChunkSize rs))) (drop streamChunkSize rs))"
  by pat_completeness auto
termination
  by (relation "measure (\<lambda>(tail, rs). length rs)") (auto simp: streamChunkSize_def)

declare link_chunks.simps [simp del]

definition decoded_log :: "StreamRecord list \<Rightarrow> streamLog" where
  "decoded_log rs = \<lparr>lg_tail = link_chunks None rs,
     lg_first = (case rs of [] \<Rightarrow> 0 | r # _ \<Rightarrow> ev_Sequence r), lg_count = word_of_nat (length rs),
     lg_bytes = fold (\<lambda>r b. snapshotAdd b (streamRecordBytes r)) rs 0,
     lg_snapshotBytes = fold (\<lambda>r b. snapshotAdd b (streamRecordSnapshotBytes r)) rs 0\<rparr>"

definition decode_stream :: "persistedStream \<Rightarrow> StreamStore \<Rightarrow> gerr + StreamStore" where
  "decode_stream p st = rbind (require_ok (ValidateStreamName (ps_Name p) True)) (\<lambda>_.
     if map_of (ss_streams st) (ps_Name p) \<noteq> None \<or> ps_Next p = 0 then Inl (ErrMsg ''invalid persisted stream'')
     else rbind (decode_records (ps_Name p) (ps_Next p) 0 (opt_items (ps_Records p))) (\<lambda>(previous, rs).
       if previous \<noteq> 0 \<and> ps_Next p \<noteq> previous + 1 then Inl (ErrMsg ''invalid persisted stream next sequence'')
       else Inr (st\<lparr>ss_streams := AList.update (ps_Name p) (decoded_log rs) (ss_streams st),
                    ss_next := AList.update (ps_Name p) (ps_Next p) (ss_next st)\<rparr>)))"

definition decode_offset :: "persistedStreamOffset \<Rightarrow> StreamStore \<Rightarrow> gerr + StreamStore" where
  "decode_offset p st = rbind (require_ok (ValidateStreamName (so_Stream p) True)) (\<lambda>_.
     rbind (require_ok (ValidateStreamName (so_Consumer p) True)) (\<lambda>_.
       let st1 = (if map_of (ss_streams st) (so_Stream p) = None
                  then st\<lparr>ss_streams := AList.update (so_Stream p) zero_log (ss_streams st), ss_next := AList.update (so_Stream p) 1 (ss_next st)\<rparr>
                  else st) in
       if map_of (offsets_of st1 (so_Stream p)) (so_Consumer p) \<noteq> None then Inl (ErrMsg ''duplicate persisted stream offset'')
       else Inr (st1\<lparr>ss_offsets := AList.update (so_Stream p) (AList.update (so_Consumer p) (so_Sequence p) (offsets_of st1 (so_Stream p))) (ss_offsets st1)\<rparr>)))"

fun fold_ok :: "('a \<Rightarrow> 's \<Rightarrow> gerr + 's) \<Rightarrow> 'a list \<Rightarrow> 's \<Rightarrow> gerr + 's" where
  "fold_ok f [] s = Inr s"
| "fold_ok f (x # xs) s = rbind (f x s) (fold_ok f xs)"

definition decodePersistedStreams :: "persistedStreams \<Rightarrow> gerr + StreamStore" where
  "decodePersistedStreams p =
     rbind (fold_ok decode_stream (opt_items (pss_Streams p)) NewStreamStore) (\<lambda>st1.
     rbind (fold_ok decode_offset (opt_items (pss_Offsets p)) st1) (\<lambda>st2.
     rbind (calculateStreamStoreBytes st2) (\<lambda>n.
     rbind (calculateStreamStoreSnapshotBytes (st2\<lparr>ss_logicalBytes := n\<rparr>)) (\<lambda>m.
     Inr (st2\<lparr>ss_logicalBytes := n, ss_snapshotBytes := m\<rparr>)))))"

section \<open>Transactions\<close>

text \<open>The streams of a transaction and the operations it has recorded for the log; \<^verbatim>\<open>ensureWritable\<close> has succeeded.\<close>

record txStreams =
  ts_store :: StreamStore
  ts_operations :: "StreamOperation list"

definition invalid_argument :: "gerr option \<Rightarrow> gerr option" where
  "invalid_argument er = map_option (ErrWrap ''invalid argument'') er"

definition recordStreamOperation :: "StreamOperation \<Rightarrow> txStreams \<Rightarrow> txStreams" where
  "recordStreamOperation act tx = tx\<lparr>ts_operations := ts_operations tx @ [act]\<rparr>"

definition PublishStreamGetSequence :: "string \<Rightarrow> string \<Rightarrow> gvalue \<Rightarrow> txStreams \<Rightarrow> gerr + u64 \<times> txStreams" where
  "PublishStreamGetSequence stream kind payload tx =
     rbind (require_ok (invalid_argument (ValidateStreamName stream False))) (\<lambda>_.
     rbind (require_ok (invalid_argument (ValidateStreamKind kind))) (\<lambda>_.
     rbind (NormalizeValue payload) (\<lambda>normalized.
       if NextSequence (ts_store tx) stream = - 1 then Inl (ErrMsg ''stream sequence space exhausted'')
       else (case Publish stream kind normalized (ts_store tx) of (sequence, st1) \<Rightarrow>
         Inr (sequence, recordStreamOperation \<lparr>act_Type = ''publish'', act_Stream = stream, act_Consumer = [], act_Sequence = sequence,
                act_Kind = kind, act_Payload = normalized\<rparr> (tx\<lparr>ts_store := st1\<rparr>))))))"

definition SetStreamOffset :: "string \<Rightarrow> string \<Rightarrow> u64 \<Rightarrow> txStreams \<Rightarrow> gerr + txStreams" where
  "SetStreamOffset stream consumer sequence tx =
     rbind (require_ok (invalid_argument (ValidateStreamName stream True))) (\<lambda>_.
     rbind (require_ok (invalid_argument (ValidateStreamName consumer True))) (\<lambda>_.
       Inr (recordStreamOperation \<lparr>act_Type = ''offset'', act_Stream = stream, act_Consumer = consumer, act_Sequence = sequence,
              act_Kind = [], act_Payload = GNil\<rparr> (tx\<lparr>ts_store := SetOffset stream consumer sequence (ts_store tx)\<rparr>))))"

definition TrimStream :: "string \<Rightarrow> u64 \<Rightarrow> txStreams \<Rightarrow> gerr + txStreams" where
  "TrimStream stream beforeSequence tx =
     rbind (require_ok (invalid_argument (ValidateStreamName stream True))) (\<lambda>_.
     rbind (Trim stream beforeSequence (ts_store tx)) (\<lambda>st1.
       Inr (recordStreamOperation \<lparr>act_Type = ''trim'', act_Stream = stream, act_Consumer = [], act_Sequence = beforeSequence,
              act_Kind = [], act_Payload = GNil\<rparr> (tx\<lparr>ts_store := st1\<rparr>))))"

end
