(* ===== verification/StreamChunks.thy ===== *)
theory StreamChunks
  imports Streams
begin

text \<open>
  The chunk list of a stream: the chunk reached through the skip pointers is the one that holds a sequence, the running
  totals of the chunks are the sums of their records, and the loops over chunks visit the records of the list.
\<close>

section \<open>Chains\<close>

fun chain :: "streamChunk \<Rightarrow> streamChunk list" where
  "chain (Chunk None sk rs b sb) = [Chunk None sk rs b sb]"
| "chain (Chunk (Some p) sk rs b sb) = Chunk (Some p) sk rs b sb # chain p"

lemma chain_Cons: "chain c = c # (case sc_previous c of None \<Rightarrow> [] | Some p \<Rightarrow> chain p)"
  by (cases c rule: chain.cases) simp_all

lemma chain_props [simp]: "chain c \<noteq> []" "chain c ! 0 = c" "hd (chain c) = c" "0 < length (chain c)" "c \<in> set (chain c)"
  by (subst chain_Cons, simp)+

lemma chain_nth: "i < length (chain c) \<Longrightarrow> chain (chain c ! i) = drop i (chain c)"
proof (induction c arbitrary: i rule: chain.induct)
  case (2 p sk rs b sb)
  then show ?case by (cases i) auto
qed simp

definition recs :: "streamChunk \<Rightarrow> StreamRecord list" where
  "recs c = concat (map sc_records (rev (chain c)))"

lemma recs_simp: "recs c = (case sc_previous c of None \<Rightarrow> [] | Some p \<Rightarrow> recs p) @ sc_records c"
  unfolding recs_def by (subst chain_Cons) (simp split: option.split)

text \<open>The skip pointers of a chunk are its ancestors at the distances 1, 2, 4, ..., as many as there are.\<close>

definition skips_ok :: "streamChunk \<Rightarrow> bool" where
  "skips_ok c \<longleftrightarrow> (\<forall>k < length (sc_skips c). 2 ^ k < length (chain c) \<and> sc_skips c ! k = chain c ! (2 ^ k)) \<and>
     length (chain c) \<le> 2 ^ length (sc_skips c)"

lemma skip_loop_ok:
  assumes "\<forall>d \<in> set (chain p). skips_ok d" "2 ^ k < length (x # chain p)" "a = (x # chain p) ! (2 ^ k)"
  shows "(\<forall>j < length (skip_loop a k). 2 ^ (k + j) < length (x # chain p) \<and> skip_loop a k ! j = (x # chain p) ! (2 ^ (k + j))) \<and>
    length (x # chain p) \<le> 2 ^ (k + length (skip_loop a k))"
  using assms(2,3)
proof (induction a k rule: skip_loop.induct)
  case (1 a k)
  obtain i where i: "2 ^ k = Suc i" by (metis Suc_pred' zero_less_numeral zero_less_power)
  have ai: "a = chain p ! i" "i < length (chain p)" using 1 i by auto
  then have ok: "skips_ok a" using assms(1) by auto
  have ch: "chain a = drop (2 ^ k) (x # chain p)" using ai chain_nth [of i p] i by simp
  show ?case
  proof (cases "length (sc_skips a) \<le> k")
    case True
    then have p2: "(2 :: nat) ^ length (sc_skips a) \<le> 2 ^ k" by simp
    have "length (chain a) \<le> 2 ^ length (sc_skips a)" using ok unfolding skips_ok_def by blast
    with p2 have "length (chain a) \<le> 2 ^ k" by (rule le_trans [rotated])
    then have "length (x # chain p) - 2 ^ k \<le> 2 ^ k" unfolding ch by simp
    then have "length (x # chain p) \<le> 2 ^ Suc k" by simp
    moreover have "skip_loop a k = [a]" using True by (simp add: skip_loop.simps [of a k])
    ultimately show ?thesis using 1(2,3) by simp
  next
    case False
    then have "2 ^ k < length (chain a)" and s: "sc_skips a ! k = chain a ! (2 ^ k)" using ok unfolding skips_ok_def by auto
    then have l: "2 ^ Suc k < length (x # chain p)" using ch by simp
    have e: "sc_skips a ! k = (x # chain p) ! (2 ^ Suc k)" using s ch l by (simp add: mult_2)
    note IH = 1(1) [OF False l e]
    have sl: "skip_loop a k = a # skip_loop (sc_skips a ! k) (Suc k)" using False by (simp add: skip_loop.simps [of a k])
    have "2 ^ (k + j) < length (x # chain p) \<and> skip_loop a k ! j = (x # chain p) ! (2 ^ (k + j))" if "j < length (skip_loop a k)" for j
      using IH that 1(2,3) unfolding sl by (cases j) auto
    moreover have "length (x # chain p) \<le> 2 ^ (k + length (skip_loop a k))" using IH unfolding sl by simp
    ultimately show ?thesis by blast
  qed
qed

section \<open>Well-formed chunk lists\<close>

definition chunk_sums :: "streamChunk \<Rightarrow> bool" where
  "chunk_sums c \<longleftrightarrow> unat (sc_bytes c) = sat (\<Sum>r\<leftarrow>recs c. unat (streamRecordBytes r)) \<and>
     unat (sc_snapshotBytes c) = sat (\<Sum>r\<leftarrow>recs c. unat (streamRecordSnapshotBytes r))"

definition chain_ok :: "streamChunk \<Rightarrow> bool" where
  "chain_ok c \<longleftrightarrow> (\<forall>d \<in> set (chain c). sc_records d \<noteq> [] \<and> skips_ok d \<and> chunk_sums d)"

lemma chain_ok_previous: "chain_ok c \<Longrightarrow> sc_previous c = Some p \<Longrightarrow> chain_ok p"
  unfolding chain_ok_def by (subst (asm) chain_Cons) auto

lemma chain_ok_member: "chain_ok c \<Longrightarrow> i < length (chain c) \<Longrightarrow> chain_ok (chain c ! i)"
  unfolding chain_ok_def using chain_nth by (auto dest: in_set_dropD)

lemma chain_ok_self: "chain_ok c \<Longrightarrow> sc_records c \<noteq> [] \<and> skips_ok c \<and> chunk_sums c"
  by (simp add: chain_ok_def)

lemma newStreamChunk_ok:
  assumes "\<And>p. previous = Some p \<Longrightarrow> chain_ok p" "rs \<noteq> []"
  shows "chain_ok (newStreamChunk previous rs)" "recs (newStreamChunk previous rs) = (case previous of None \<Rightarrow> [] | Some p \<Rightarrow> recs p) @ rs"
proof -
  let ?c = "newStreamChunk previous rs"
  have f: "sc_previous ?c = previous" "sc_records ?c = rs" by (simp_all add: newStreamChunk_def)
  show r: "recs ?c = (case previous of None \<Rightarrow> [] | Some p \<Rightarrow> recs p) @ rs" by (subst recs_simp) (simp add: f)
  have s: "chunk_sums ?c"
  proof (cases previous)
    case None
    then show ?thesis using r by (simp add: chunk_sums_def newStreamChunk_def unat_fold_snapshotAdd)
  next
    case (Some p)
    then have "chunk_sums p" using assms(1) chain_ok_self by blast
    with Some show ?thesis using r by (simp add: chunk_sums_def newStreamChunk_def unat_fold_snapshotAdd)
  qed
  have k: "skips_ok ?c"
  proof (cases previous)
    case None
    then show ?thesis by (subst skips_ok_def, subst chain_Cons) (simp add: f, simp add: newStreamChunk_def)
  next
    case (Some p)
    then have ch: "chain ?c = ?c # chain p" using f(1) by (subst chain_Cons) simp
    have "sc_skips ?c = skip_loop p 0" using Some by (simp add: newStreamChunk_def)
    moreover have "\<forall>d \<in> set (chain p). skips_ok d" using assms(1) [OF Some] by (simp add: chain_ok_def)
    ultimately show ?thesis using skip_loop_ok [of p 0 ?c p] ch by (simp add: skips_ok_def)
  qed
  show "chain_ok ?c" unfolding chain_ok_def by (subst chain_Cons) (use assms s k f in \<open>auto simp: chain_ok_def split: option.split\<close>)
qed

lemma append_tail_ok:
  assumes "\<And>t. tail = Some t \<Longrightarrow> chain_ok t"
  shows "chain_ok (append_tail tail r)" "recs (append_tail tail r) = (case tail of None \<Rightarrow> [] | Some t \<Rightarrow> recs t) @ [r]"
proof -
  have "chain_ok (append_tail tail r) \<and> recs (append_tail tail r) = (case tail of None \<Rightarrow> [] | Some t \<Rightarrow> recs t) @ [r]"
  proof (cases tail)
    case None
    then show ?thesis using newStreamChunk_ok [of None "[r]"] by (simp add: append_tail_def)
  next
    case (Some t)
    note t = assms [OF Some]
    show ?thesis
    proof (cases "length (sc_records t) = streamChunkSize")
      case True
      then show ?thesis using newStreamChunk_ok [of "Some t" "[r]"] t Some by (simp add: append_tail_def)
    next
      case False
      let ?c = "Chunk (sc_previous t) (sc_skips t) (sc_records t @ [r]) (snapshotAdd (sc_bytes t) (streamRecordBytes r))
              (snapshotAdd (sc_snapshotBytes t) (streamRecordSnapshotBytes r))"
      have c: "append_tail tail r = ?c" using Some False by (simp add: append_tail_def)
      have rc: "recs ?c = recs t @ [r]" by (simp add: recs_simp [of ?c] recs_simp [of t] split: option.split)
      have tl: "tl (chain ?c) = tl (chain t)" by (simp add: chain_Cons [of ?c] chain_Cons [of t])
      have len: "length (chain ?c) = length (chain t)" unfolding chain_Cons [of ?c] chain_Cons [of t] by simp
      have nth: "chain ?c ! i = chain t ! i" if "i > 0" "i < length (chain t)" for i
        using that tl len by (metis Suc_pred' length_tl less_diff_conv nth_tl add.commute plus_1_eq_Suc)
      have "skips_ok ?c" using chain_ok_self [OF t] nth unfolding skips_ok_def len by (simp add: len)
      moreover have "chunk_sums ?c" using chain_ok_self [OF t] unfolding chunk_sums_def rc by (simp add: unat_snapshotAdd)
      moreover have "set (chain ?c) \<subseteq> insert ?c (set (chain t))" using tl chain_Cons [of ?c] chain_Cons [of t] by auto
      ultimately have "chain_ok ?c" using t unfolding chain_ok_def by auto
      with rc c Some show ?thesis by simp
    qed
  qed
  then show "chain_ok (append_tail tail r)" "recs (append_tail tail r) = (case tail of None \<Rightarrow> [] | Some t \<Rightarrow> recs t) @ [r]" by blast+
qed

section \<open>Finding a chunk\<close>

definition last_seq :: "streamChunk \<Rightarrow> u64" where
  "last_seq c = ev_Sequence (last (sc_records c))"

definition head_seq :: "streamChunk \<Rightarrow> u64" where
  "head_seq c = ev_Sequence (hd (sc_records c))"

lemma chunk_ends: "sc_records c \<noteq> [] \<Longrightarrow> chunk_last c = Inr (last (sc_records c))" "sc_records c \<noteq> [] \<Longrightarrow> chunk_head c = Inr (hd (sc_records c))"
  by (auto simp: chunk_last_def chunk_head_def split: list.split)

lemma rbind_simps [simp]: "rbind (Inr a) f = f a" "rbind (Inl er) f = Inl er"
  by (simp_all add: rbind_def)

text \<open>\<open>m\<close> is the number of chunks, from the newest, whose last sequence is not below the one searched for.\<close>

lemma chunk_search_ok:
  assumes "chain_ok c" "0 < m" "m \<le> length (chain c)" "m \<le> 2 ^ level"
    and "\<And>i. i < length (chain c) \<Longrightarrow> (sequence \<le> last_seq (chain c ! i)) = (i < m)"
  shows "chunk_search sequence level c = Inr (chain c ! (m - 1))"
  using assms
proof (induction level arbitrary: c m)
  case 0
  then have "m = 1" by simp
  then show ?case by simp
next
  case (Suc level)
  note sk = chain_ok_self [OF Suc.prems(1)]
  show ?case
  proof (cases "length (sc_skips c) \<le> level")
    case True
    then have p2: "(2 :: nat) ^ length (sc_skips c) \<le> 2 ^ level" by simp
    have "length (chain c) \<le> 2 ^ length (sc_skips c)" using sk unfolding skips_ok_def by blast
    then have "m \<le> 2 ^ level" using p2 Suc.prems(3) by linarith
    then show ?thesis using True Suc.IH [OF Suc.prems(1-3) _ Suc.prems(5)] by simp
  next
    case False
    then have l: "2 ^ level < length (chain c)" and e: "sc_skips c ! level = chain c ! (2 ^ level)" using sk unfolding skips_ok_def by auto
    let ?d = "chain c ! (2 ^ level)"
    have d: "chain_ok ?d" by (rule chain_ok_member [OF Suc.prems(1) l])
    have cl: "chunk_last ?d = Inr (last (sc_records ?d))" using chain_ok_self [OF d] chunk_ends by blast
    have chd: "chain ?d = drop (2 ^ level) (chain c)" by (rule chain_nth [OF l])
    show ?thesis
    proof (cases "sequence \<le> last_seq ?d")
      case True
      then have m: "2 ^ level < m" using Suc.prems(5) [OF l] by simp
      have "chunk_search sequence level ?d = Inr (chain ?d ! (m - 2 ^ level - 1))"
      proof (rule Suc.IH [OF d])
        show "(sequence \<le> last_seq (chain ?d ! i)) = (i < m - 2 ^ level)" if "i < length (chain ?d)" for i
          using that Suc.prems(5) [of "2 ^ level + i"] unfolding chd by (auto simp: less_diff_conv add.commute)
      qed (use m Suc.prems(3,4) chd in auto)
      moreover have "chain ?d ! (m - 2 ^ level - 1) = chain c ! (m - 1)" using m l Suc.prems(3) unfolding chd by (simp add: less_imp_le)
      ultimately show ?thesis using False True e cl by (simp add: last_seq_def)
    next
      case ge: False
      then have "m \<le> 2 ^ level" using Suc.prems(5) [OF l] by simp
      then show ?thesis using ge False e cl Suc.IH [OF Suc.prems(1-3) _ Suc.prems(5)] by (simp add: last_seq_def)
    qed
  qed
qed

end
