(* ===== verification/StreamLogs.thy ===== *)
theory StreamLogs
  imports StreamChunks
begin

text \<open>
  A log whose records carry consecutive sequences: looking up a chunk, the byte totals up to a sequence, and the walks over
  chunks, stated on the list of its records.
\<close>

section \<open>Consecutive sequences\<close>

abbreviation seqn :: "StreamRecord \<Rightarrow> nat" where
  "seqn r \<equiv> unat (ev_Sequence r)"

text \<open>The records end right below the sequence \<open>n\<close>, and sequences are positive.\<close>

definition numbered :: "StreamRecord list \<Rightarrow> nat \<Rightarrow> bool" where
  "numbered rs n \<longleftrightarrow> length rs < n \<and> n < 2 ^ 64 \<and> map seqn rs = [n - length rs..<n]"

lemma numbered_nth: "numbered rs n \<Longrightarrow> i < length rs \<Longrightarrow> seqn (rs ! i) = n - length rs + i"
  unfolding numbered_def by (metis (no_types, lifting) add_diff_cancel_left' diff_diff_cancel length_upt less_imp_le nth_map nth_upt less_diff_conv add.commute le_add_diff_inverse)

lemma numbered_range: "numbered rs n \<Longrightarrow> r \<in> set rs \<Longrightarrow> n - length rs \<le> seqn r \<and> seqn r < n"
  unfolding numbered_def by (metis (no_types, lifting) atLeastLessThan_iff image_eqI list.set_map set_upt)

lemma numbered_prefix: "numbered (xs @ ys) n \<Longrightarrow> numbered xs (n - length ys)"
  unfolding numbered_def
proof (elim conjE, intro conjI)
  assume l: "length (xs @ ys) < n" and m: "map seqn (xs @ ys) = [n - length (xs @ ys)..<n]"
  have "map seqn xs = take (length xs) [n - length (xs @ ys)..<n]" using m by (metis append_eq_conv_conj length_map map_append)
  also have "\<dots> = [n - length (xs @ ys)..<n - length (xs @ ys) + length xs]" using l by (simp add: take_upt)
  finally show "map seqn xs = [n - length ys - length xs..<n - length ys]" using l by (simp add: algebra_simps)
qed auto

lemma numbered_suffix: "numbered (xs @ ys) n \<Longrightarrow> numbered ys n"
  unfolding numbered_def
proof (elim conjE, intro conjI)
  assume l: "length (xs @ ys) < n" and m: "map seqn (xs @ ys) = [n - length (xs @ ys)..<n]"
  have "map seqn ys = drop (length xs) [n - length (xs @ ys)..<n]" using m by (metis append_eq_conv_conj length_map map_append)
  also have "\<dots> = [n - length (xs @ ys) + length xs..<n]" by (simp add: drop_upt)
  finally show "map seqn ys = [n - length ys..<n]" using l by simp
qed auto

lemma numbered_snoc: "numbered rs n \<Longrightarrow> seqn r = n \<Longrightarrow> n + 1 < 2 ^ 64 \<Longrightarrow> numbered (rs @ [r]) (n + 1)"
proof -
  assume a: "numbered rs n" "seqn r = n" "n + 1 < 2 ^ 64"
  then have "[n - length rs..<n] @ [n] = [n - length rs..<Suc n]" by (simp add: numbered_def)
  with a show "numbered (rs @ [r]) (n + 1)" unfolding numbered_def by (simp del: upt_Suc)
qed

lemma numbered_filter:
  assumes "numbered rs n" "n - length rs \<le> s" "s \<le> n"
  shows "filter (\<lambda>r. s \<le> seqn r) rs = drop (s - (n - length rs)) rs" "filter (\<lambda>r. seqn r < s) rs = take (s - (n - length rs)) rs"
    "takeWhile (\<lambda>r. seqn r < s) rs = take (s - (n - length rs)) rs" "dropWhile (\<lambda>r. seqn r < s) rs = drop (s - (n - length rs)) rs"
proof -
  let ?k = "s - (n - length rs)"
  have k: "?k \<le> length rs" using assms by (auto simp: numbered_def)
  have t: "seqn r < s" if "r \<in> set (take ?k rs)" for r
  proof -
    from that obtain i where "i < ?k" "r = rs ! i" "i < length rs" by (auto simp: in_set_conv_nth)
    then show ?thesis using numbered_nth [OF assms(1), of i] assms(2) by simp
  qed
  have d: "s \<le> seqn r" if "r \<in> set (drop ?k rs)" for r
  proof -
    from that obtain i where "r = rs ! (?k + i)" "?k + i < length rs" by (auto simp: in_set_conv_nth)
    then show ?thesis using numbered_nth [OF assms(1), of "?k + i"] assms(2) by simp
  qed
  have split: "rs = take ?k rs @ drop ?k rs" by simp
  have "filter (\<lambda>r. s \<le> seqn r) (take ?k rs) = []" "filter (\<lambda>r. s \<le> seqn r) (drop ?k rs) = drop ?k rs"
    "filter (\<lambda>r. seqn r < s) (take ?k rs) = take ?k rs" "filter (\<lambda>r. seqn r < s) (drop ?k rs) = []"
    using t d by (auto simp: filter_empty_conv filter_id_conv not_le not_less)
  then show "filter (\<lambda>r. s \<le> seqn r) rs = drop ?k rs" "filter (\<lambda>r. seqn r < s) rs = take ?k rs"
    by (subst split, subst filter_append, simp)+
  have "takeWhile (\<lambda>r. seqn r < s) (drop ?k rs) = []" "dropWhile (\<lambda>r. seqn r < s) (drop ?k rs) = drop ?k rs"
    using d by (cases "drop ?k rs"; force simp: not_less)+
  then show "takeWhile (\<lambda>r. seqn r < s) rs = take ?k rs" "dropWhile (\<lambda>r. seqn r < s) rs = drop ?k rs"
    using t by (subst split, subst takeWhile_append2 dropWhile_append2, auto)+
qed

section \<open>Chunks of a numbered chain\<close>

lemma recs_member: "i < length (chain c) \<Longrightarrow> \<exists>rest. recs c = recs (chain c ! i) @ rest"
  unfolding recs_def using chain_nth [of i c] by (metis append_take_drop_id concat_append map_append rev_append)

lemma chunk_bounds:
  assumes "sc_records c \<noteq> []" "numbered (recs c) n"
  shows "unat (last_seq c) = n - 1" "unat (head_seq c) = n - length (sc_records c)"
proof -
  have r: "numbered (sc_records c) n" using assms(2) numbered_suffix by (subst (asm) recs_simp) blast
  have l: "0 < length (sc_records c)" "length (sc_records c) < n" using assms(1) r by (auto simp: numbered_def)
  show "unat (last_seq c) = n - 1"
    unfolding last_seq_def last_conv_nth [OF assms(1)] using numbered_nth [OF r, of "length (sc_records c) - 1"] l by simp
  show "unat (head_seq c) = n - length (sc_records c)"
    unfolding head_seq_def hd_conv_nth [OF assms(1)] using numbered_nth [OF r, of 0] l by simp
qed

lemma numbered_previous:
  assumes "sc_records c \<noteq> []" "numbered (recs c) n" "sc_previous c = Some p"
  shows "numbered (recs p) (unat (head_seq c))"
  using chunk_bounds(2) [OF assms(1,2)] assms(2,3) numbered_prefix [of "recs p" "sc_records c" n] by (simp add: recs_simp [of c])

lemma chunk_covers:
  assumes "chain_ok c" "numbered (recs c) n" "n - length (recs c) \<le> unat s" "unat s < n"
  shows "\<exists>m. 0 < m \<and> m \<le> length (chain c) \<and> (\<forall>i < length (chain c). (s \<le> last_seq (chain c ! i)) = (i < m)) \<and> head_seq (chain c ! (m - 1)) \<le> s"
  using assms
proof (induction c arbitrary: n rule: chain.induct)
  case (1 sk rs b sb)
  let ?c = "Chunk None sk rs b sb"
  have ne: "sc_records ?c \<noteq> []" using chain_ok_self [OF 1(1)] by blast
  show ?case using 1 chunk_bounds [OF ne 1(2)] by (intro exI [of _ 1]) (auto simp: word_le_nat_alt recs_simp [of ?c])
next
  case (2 p sk rs b sb)
  let ?c = "Chunk (Some p) sk rs b sb"
  have ne: "sc_records ?c \<noteq> []" using chain_ok_self [OF 2(2)] by blast
  note b = chunk_bounds [OF ne 2(3)]
  have p: "chain_ok p" "numbered (recs p) (unat (head_seq ?c))"
    using chain_ok_previous [OF 2(2)] numbered_previous [OF ne 2(3)] by auto
  have r: "recs ?c = recs p @ rs" by (simp add: recs_simp [of ?c])
  have before: "last_seq (chain p ! i) < head_seq ?c" if i: "i < length (chain p)" for i
  proof -
    obtain rest where "recs p = recs (chain p ! i) @ rest" using recs_member [OF i] by blast
    then have "numbered (recs (chain p ! i)) (unat (head_seq ?c) - length rest)" using p(2) numbered_prefix by metis
    then have "unat (last_seq (chain p ! i)) = unat (head_seq ?c) - length rest - 1"
      using chunk_bounds(1) chain_ok_self [OF chain_ok_member [OF p(1) i]] by blast
    moreover have "0 < unat (head_seq ?c)" using p(2) by (simp add: numbered_def)
    ultimately show ?thesis by (simp add: word_less_nat_alt)
  qed
  show ?case
  proof (cases "head_seq ?c \<le> s")
    case True
    have "(s \<le> last_seq (chain ?c ! i)) = (i < 1)" if "i < length (chain ?c)" for i
    proof (cases i)
      case 0
      then show ?thesis using 2(5) b(1) by (simp add: word_le_nat_alt)
    next
      case (Suc j)
      then show ?thesis using before [of j] that True by auto
    qed
    with True show ?thesis by (intro exI [of _ 1]) simp
  next
    case False
    have s: "unat (head_seq ?c) - length (recs p) \<le> unat s" "unat s < unat (head_seq ?c)"
      using 2(4) False r b(2) by (auto simp: word_le_nat_alt not_le)
    obtain m where m: "0 < m" "m \<le> length (chain p)" "\<forall>i < length (chain p). (s \<le> last_seq (chain p ! i)) = (i < m)" "head_seq (chain p ! (m - 1)) \<le> s"
      using 2(1) [OF p s] by blast
    have "(s \<le> last_seq (chain ?c ! i)) = (i < Suc m)" if "i < length (chain ?c)" for i
      using m(3) that 2(5) b(1) by (cases i) (auto simp: word_le_nat_alt)
    with m show ?thesis by (intro exI [of _ "Suc m"]) auto
  qed
qed

section \<open>Logs\<close>

definition visible :: "streamLog \<Rightarrow> StreamRecord list" where
  "visible lg = (case lg_tail lg of None \<Rightarrow> [] | Some t \<Rightarrow> filter (\<lambda>r. unat (lg_first lg) \<le> seqn r) (recs t))"

definition bytes_of :: "StreamRecord list \<Rightarrow> nat" where
  "bytes_of rs = (\<Sum>r\<leftarrow>rs. unat (streamRecordBytes r))"

definition snapshot_of :: "StreamRecord list \<Rightarrow> nat" where
  "snapshot_of rs = (\<Sum>r\<leftarrow>rs. unat (streamRecordSnapshotBytes r))"

definition log_shape :: "streamLog \<Rightarrow> streamChunk \<Rightarrow> nat \<Rightarrow> bool" where
  "log_shape lg t n \<longleftrightarrow> lg_tail lg = Some t \<and> chain_ok t \<and> numbered (recs t) n \<and> n - length (recs t) \<le> unat (lg_first lg) \<and>
     unat (lg_first lg) < n \<and> unat (lg_first lg) + unat (lg_count lg) = n"

text \<open>The invariant of a log whose next sequence is \<open>n\<close>: empty, or a numbered chain with exact byte totals of what it shows, which is
  at least half of what the chain holds.\<close>

definition log_ok :: "streamLog \<Rightarrow> nat \<Rightarrow> bool" where
  "log_ok lg n \<longleftrightarrow> (case lg_tail lg of
     None \<Rightarrow> lg = zero_log
   | Some t \<Rightarrow> log_shape lg t n \<and> unat (lg_bytes lg) = sat (bytes_of (visible lg)) \<and> unat (lg_snapshotBytes lg) = sat (snapshot_of (visible lg)) \<and>
       bytes_of (recs t) \<le> 2 * bytes_of (visible lg))"

lemma log_chunk_ok:
  assumes "log_shape lg t n" "unat (lg_first lg) \<le> unat s" "unat s < n"
  shows "\<exists>i < length (chain t). log_chunk lg s = Inr (Some (chain t ! i)) \<and> head_seq (chain t ! i) \<le> s \<and> s \<le> last_seq (chain t ! i)"
proof -
  have t: "lg_tail lg = Some t" "chain_ok t" "numbered (recs t) n" and c: "lg_count lg \<noteq> 0"
    using assms(1) by (auto simp: log_shape_def)
  have s: "n - length (recs t) \<le> unat s" using assms(1,2) by (simp add: log_shape_def)
  obtain m where m: "0 < m" "m \<le> length (chain t)" "\<forall>i < length (chain t). (s \<le> last_seq (chain t ! i)) = (i < m)" "head_seq (chain t ! (m - 1)) \<le> s"
    using chunk_covers [OF t(2,3) s assms(3)] by blast
  have ne: "sc_records t \<noteq> []" using chain_ok_self [OF t(2)] by blast
  have "length (chain t) \<le> 2 ^ length (sc_skips t)" using chain_ok_self [OF t(2)] unfolding skips_ok_def by blast
  then have search: "chunk_search s (length (sc_skips t)) t = Inr (chain t ! (m - 1))"
    using m(2,3) by (intro chunk_search_ok [OF t(2) m(1,2)]) auto
  define d where "d = chain t ! (m - 1)"
  have ned: "sc_records d \<noteq> []" using chain_ok_self [OF chain_ok_member [OF t(2)]] m by (simp add: d_def)
  have "s \<le> ev_Sequence (last (sc_records t))" using chunk_bounds(1) [OF ne t(3)] assms(3) by (simp add: word_le_nat_alt last_seq_def)
  moreover have "lg_first lg \<le> s" using assms(2) by (simp add: word_le_nat_alt)
  moreover have "ev_Sequence (hd (sc_records d)) \<le> s" using m(4) by (simp add: d_def head_seq_def)
  ultimately have "log_chunk lg s = Inr (Some d)"
    using t(1) c search unfolding d_def [symmetric] by (simp add: log_chunk_def chunk_ends [OF ne] chunk_ends [OF ned] leD)
  then show ?thesis using m unfolding d_def by (intro exI [of _ "m - 1"]) auto
qed

lemma recs_around:
  assumes "chain_ok t" "numbered (recs t) n" "i < length (chain t)"
  shows "\<exists>prev rest. recs t = prev @ sc_records (chain t ! i) @ rest \<and> recs (chain t ! i) = prev @ sc_records (chain t ! i) \<and>
    prev = (case sc_previous (chain t ! i) of None \<Rightarrow> [] | Some p \<Rightarrow> recs p) \<and>
    (\<forall>r \<in> set prev. seqn r < unat (head_seq (chain t ! i))) \<and> (\<forall>r \<in> set rest. unat (last_seq (chain t ! i)) < seqn r) \<and>
    numbered (recs (chain t ! i)) (Suc (unat (last_seq (chain t ! i))))"
proof -
  let ?d = "chain t ! i"
  obtain rest where r: "recs t = recs ?d @ rest" using recs_member [OF assms(3)] by blast
  have nd: "numbered (recs ?d) (n - length rest)" using assms(2) r numbered_prefix by metis
  have ne: "sc_records ?d \<noteq> []" using chain_ok_self [OF chain_ok_member [OF assms(1,3)]] by blast
  note b = chunk_bounds [OF ne nd]
  have "length (recs ?d) < n - length rest" using nd by (simp add: numbered_def)
  then have last: "Suc (unat (last_seq ?d)) = n - length rest" using b(1) by linarith
  let ?prev = "case sc_previous ?d of None \<Rightarrow> [] | Some p \<Rightarrow> recs p"
  have d: "recs ?d = ?prev @ sc_records ?d" by (rule recs_simp)
  have np: "numbered ?prev (unat (head_seq ?d))" unfolding b(2) by (rule numbered_prefix) (use nd d in metis)
  have "\<forall>x \<in> set ?prev. seqn x < unat (head_seq ?d)" using numbered_range [OF np] by blast
  moreover have "numbered rest n" using assms(2) r numbered_suffix by metis
  then have "\<forall>x \<in> set rest. unat (last_seq ?d) < seqn x" using numbered_range last by fastforce
  ultimately show ?thesis using r d nd last by (intro exI [of _ ?prev] exI [of _ rest]) auto
qed

lemma bytes_through:
  assumes "chain_ok t" "numbered (recs t) n" "i < length (chain t)"
    and "unat (head_seq (chain t ! i)) \<le> Suc (unat s)" "unat s \<le> unat (last_seq (chain t ! i))"
  shows "unat (fst (streamChunkBytesThrough (Some (chain t ! i)) s)) = sat (bytes_of (filter (\<lambda>r. seqn r \<le> unat s) (recs t)))"
    "unat (snd (streamChunkBytesThrough (Some (chain t ! i)) s)) = sat (snapshot_of (filter (\<lambda>r. seqn r \<le> unat s) (recs t)))"
proof -
  let ?d = "chain t ! i"
  obtain prev rest where r: "recs t = prev @ sc_records ?d @ rest" "recs ?d = prev @ sc_records ?d"
      "prev = (case sc_previous ?d of None \<Rightarrow> [] | Some p \<Rightarrow> recs p)"
      "\<forall>r \<in> set prev. seqn r < unat (head_seq ?d)" "\<forall>r \<in> set rest. unat (last_seq ?d) < seqn r"
      "numbered (recs ?d) (Suc (unat (last_seq ?d)))"
    using recs_around [OF assms(1-3)] by blast
  let ?n = "Suc (unat (last_seq ?d))"
  have nr: "numbered (sc_records ?d) ?n" using r(2,6) numbered_suffix by metis
  have ne: "sc_records ?d \<noteq> []" using chain_ok_self [OF chain_ok_member [OF assms(1,3)]] by blast
  have h: "?n - length (sc_records ?d) = unat (head_seq ?d)" using chunk_bounds(2) [OF ne r(6)] by simp
  have tw: "takeWhile (\<lambda>r. \<not> ev_Sequence r > s) (sc_records ?d) = filter (\<lambda>r. seqn r \<le> unat s) (sc_records ?d)"
    using numbered_filter(2,3) [OF nr, of "Suc (unat s)"] h assms(4,5) by (simp add: word_less_nat_alt less_Suc_eq_le not_less)
  have "filter (\<lambda>r. seqn r \<le> unat s) prev = prev" using r(4) assms(4) unfolding filter_id_conv by fastforce
  moreover have "filter (\<lambda>r. seqn r \<le> unat s) rest = []" using r(5) assms(5) unfolding filter_empty_conv by fastforce
  ultimately have f: "filter (\<lambda>r. seqn r \<le> unat s) (recs t) = prev @ filter (\<lambda>r. seqn r \<le> unat s) (sc_records ?d)" by (simp add: r(1))
  have "unat (case sc_previous ?d of None \<Rightarrow> 0 | Some p \<Rightarrow> sc_bytes p) = sat (bytes_of prev) \<and>
      unat (case sc_previous ?d of None \<Rightarrow> 0 | Some p \<Rightarrow> sc_snapshotBytes p) = sat (snapshot_of prev)"
  proof (cases "sc_previous ?d")
    case None
    then show ?thesis by (simp add: r(3) bytes_of_def snapshot_of_def)
  next
    case (Some p)
    then have "chunk_sums p" using chain_ok_self chain_ok_previous chain_ok_member [OF assms(1,3)] by blast
    with Some show ?thesis by (simp add: r(3) chunk_sums_def bytes_of_def snapshot_of_def)
  qed
  then show "unat (fst (streamChunkBytesThrough (Some ?d) s)) = sat (bytes_of (filter (\<lambda>r. seqn r \<le> unat s) (recs t)))"
    "unat (snd (streamChunkBytesThrough (Some ?d) s)) = sat (snapshot_of (filter (\<lambda>r. seqn r \<le> unat s) (recs t)))"
    unfolding f by (simp_all add: streamChunkBytesThrough_def Let_def tw unat_fold_snapshotAdd) (simp_all add: bytes_of_def snapshot_of_def)
qed

section \<open>Walks over chunks\<close>

lemma chunks_from_takeWhile: "(\<forall>d \<in> set (chain c). sc_records d \<noteq> []) \<Longrightarrow> chunks_from s (Some c) = Inr (takeWhile (\<lambda>d. s \<le> last_seq d) (chain c))"
  by (induction c rule: chain.induct) (auto simp: chunk_last_def last_seq_def)

lemma walk_records:
  assumes "chain_ok c" "numbered (recs c) n"
  shows "concat (map (\<lambda>d. filter (\<lambda>r. unat s \<le> seqn r) (sc_records d)) (rev (takeWhile (\<lambda>d. s \<le> last_seq d) (chain c)))) =
    filter (\<lambda>r. unat s \<le> seqn r) (recs c)"
  using assms
proof (induction c arbitrary: n rule: chain.induct)
  case (1 sk rs b sb)
  let ?c = "Chunk None sk rs b sb"
  have ne: "sc_records ?c \<noteq> []" using chain_ok_self [OF 1(1)] by blast
  have "filter (\<lambda>r. unat s \<le> seqn r) (recs ?c) = []" if "\<not> s \<le> last_seq ?c"
    using that chunk_bounds(1) [OF ne 1(2)] numbered_range [OF 1(2)] unfolding filter_empty_conv word_le_nat_alt by fastforce
  then show ?case by (auto simp: recs_simp [of ?c])
next
  case (2 p sk rs b sb)
  let ?c = "Chunk (Some p) sk rs b sb"
  have ne: "sc_records ?c \<noteq> []" using chain_ok_self [OF 2(2)] by blast
  have p: "chain_ok p" "numbered (recs p) (unat (head_seq ?c))"
    using chain_ok_previous [OF 2(2)] numbered_previous [OF ne 2(3)] by auto
  have "filter (\<lambda>r. unat s \<le> seqn r) (recs ?c) = []" if "\<not> s \<le> last_seq ?c"
    using that chunk_bounds(1) [OF ne 2(3)] numbered_range [OF 2(3)] unfolding filter_empty_conv word_le_nat_alt by fastforce
  then show ?case using 2(1) [OF p] by (auto simp: recs_simp [of ?c])
qed

lemma visible_records_sums:
  assumes "log_shape lg t n"
  shows "\<exists>rs. visible_records lg = Inr rs \<and> (\<forall>f :: StreamRecord \<Rightarrow> nat. (\<Sum>r\<leftarrow>rs. f r) = (\<Sum>r\<leftarrow>visible lg. f r))"
proof -
  have t: "lg_tail lg = Some t" "chain_ok t" "numbered (recs t) n" using assms by (auto simp: log_shape_def)
  have nl: "(\<lambda>r. \<not> ev_Sequence r < lg_first lg) = (\<lambda>r. unat (lg_first lg) \<le> seqn r)" by (auto simp: word_less_nat_alt not_less)
  let ?cs = "takeWhile (\<lambda>d. lg_first lg \<le> last_seq d) (chain t)"
  let ?g = "\<lambda>d. filter (\<lambda>r. unat (lg_first lg) \<le> seqn r) (sc_records d)"
  have "chunks_from (lg_first lg) (lg_tail lg) = Inr ?cs" using t chunks_from_takeWhile by (simp add: chain_ok_def)
  then have v: "visible_records lg = Inr (concat (map ?g ?cs))" by (simp add: visible_records_def nl)
  have "(\<Sum>r\<leftarrow>concat (map ?g ?cs). f r) = (\<Sum>r\<leftarrow>visible lg. f r)" for f :: "StreamRecord \<Rightarrow> nat"
  proof -
    have "(\<Sum>r\<leftarrow>concat (map ?g ?cs). f r) = (\<Sum>r\<leftarrow>concat (map ?g (rev ?cs)). f r)"
      by (simp add: map_concat sum_list_concat rev_map [symmetric] o_def)
    also have "\<dots> = (\<Sum>r\<leftarrow>visible lg. f r)" unfolding walk_records [OF t(2,3)] by (simp add: visible_def t(1))
    finally show ?thesis .
  qed
  with v show ?thesis by blast
qed

section \<open>Rebuilding\<close>

definition opt_recs :: "streamChunk option \<Rightarrow> StreamRecord list" where
  "opt_recs t = (case t of None \<Rightarrow> [] | Some c \<Rightarrow> recs c)"

lemma rebuild_fold:
  assumes "\<And>t. tail = Some t \<Longrightarrow> chain_ok t"
  shows "let t' = fold (\<lambda>c tail. let rs = g c in if rs \<noteq> [] then Some (newStreamChunk tail rs) else tail) cs tail in
    (\<forall>t. t' = Some t \<longrightarrow> chain_ok t) \<and> opt_recs t' = opt_recs tail @ concat (map g cs)"
  using assms
proof (induction cs arbitrary: tail)
  case (Cons c cs)
  let ?tail = "if g c \<noteq> [] then Some (newStreamChunk tail (g c)) else tail"
  have "chain_ok t" if "?tail = Some t" for t using that Cons.prems newStreamChunk_ok(1) [of tail "g c"] by (auto split: if_splits)
  moreover have "opt_recs ?tail = opt_recs tail @ g c" using newStreamChunk_ok(2) [of tail "g c"] Cons.prems by (simp add: opt_recs_def)
  ultimately show ?case using Cons.IH [of ?tail] by (simp add: Let_def)
qed simp

lemma dropWhile_filter:
  "numbered rs n \<Longrightarrow> dropWhile (\<lambda>r. ev_Sequence r < s) rs = filter (\<lambda>r. unat s \<le> seqn r) rs"
proof -
  assume a: "numbered rs n"
  consider "unat s < n - length rs" | "n < unat s" | "n - length rs \<le> unat s" "unat s \<le> n" by linarith
  then show ?thesis
  proof cases
    case 1
    then have "\<forall>r \<in> set rs. unat s \<le> seqn r" using numbered_range [OF a] by fastforce
    then show ?thesis by (cases rs) (auto simp: word_less_nat_alt filter_id_conv)
  next
    case 2
    then have "\<forall>r \<in> set rs. seqn r < unat s" using numbered_range [OF a] by fastforce
    then have "dropWhile (\<lambda>r. seqn r < unat s) rs = []" "filter (\<lambda>r. unat s \<le> seqn r) rs = []" by (auto simp: filter_empty_conv)
    then show ?thesis by (simp add: word_less_nat_alt)
  next
    case 3
    then show ?thesis using numbered_filter(1,4) [OF a, of "unat s"] by (simp add: word_less_nat_alt)
  qed
qed

lemma visible_drop:
  assumes "log_shape lg t n"
  shows "visible lg = drop (unat (lg_first lg) - (n - length (recs t))) (recs t)" "length (visible lg) = n - unat (lg_first lg)" "visible lg \<noteq> []"
    "numbered (visible lg) n"
proof -
  have t: "lg_tail lg = Some t" "numbered (recs t) n" "n - length (recs t) \<le> unat (lg_first lg)" "unat (lg_first lg) < n"
    using assms by (auto simp: log_shape_def)
  show v: "visible lg = drop (unat (lg_first lg) - (n - length (recs t))) (recs t)"
    using numbered_filter(1) [OF t(2,3)] t(1,4) by (simp add: visible_def)
  have "length (recs t) < n" using t(2) by (simp add: numbered_def)
  then show l: "length (visible lg) = n - unat (lg_first lg)" unfolding v using t(3,4) by simp
  then show "visible lg \<noteq> []" using t(4) by auto
  show "numbered (visible lg) n" unfolding v by (rule numbered_suffix [of "take (unat (lg_first lg) - (n - length (recs t))) (recs t)"]) (use t(2) in simp)
qed

lemma compact_log_ok:
  assumes "log_shape lg t n"
  shows "\<exists>t'. compact_log lg = Inr (lg\<lparr>lg_tail := Some t', lg_bytes := sc_bytes t', lg_snapshotBytes := sc_snapshotBytes t'\<rparr>) \<and>
    chain_ok t' \<and> recs t' = visible lg"
proof -
  have t: "lg_tail lg = Some t" "chain_ok t" "numbered (recs t) n" "n - length (recs t) \<le> unat (lg_first lg)" "unat (lg_first lg) < n"
    using assms by (auto simp: log_shape_def)
  let ?cs = "takeWhile (\<lambda>d. lg_first lg \<le> last_seq d) (chain t)"
  let ?g = "\<lambda>c. dropWhile (\<lambda>r. ev_Sequence r < lg_first lg) (sc_records c)"
  have cf: "chunks_from (lg_first lg) (lg_tail lg) = Inr ?cs" using t chunks_from_takeWhile by (simp add: chain_ok_def)
  have g: "?g d = filter (\<lambda>r. unat (lg_first lg) \<le> seqn r) (sc_records d)" if d: "d \<in> set (chain t)" for d
  proof -
    obtain i where i: "i < length (chain t)" "d = chain t ! i" using d by (auto simp: in_set_conv_nth)
    then have "\<exists>k. numbered (sc_records d) k" using recs_around [OF t(2,3) i(1)] numbered_suffix by metis
    then show ?thesis using dropWhile_filter by blast
  qed
  have "concat (map ?g (rev ?cs)) = concat (map (\<lambda>d. filter (\<lambda>r. unat (lg_first lg) \<le> seqn r) (sc_records d)) (rev ?cs))"
    using g by (intro arg_cong [where f = concat] map_cong refl) (auto dest: set_takeWhileD)
  then have recs: "concat (map ?g (rev ?cs)) = visible lg" using walk_records [OF t(2,3)] t(1) by (simp add: visible_def)
  note ne = visible_drop(3) [OF assms]
  have rb: "(\<forall>t. rebuild_tail (lg_first lg) ?cs = Some t \<longrightarrow> chain_ok t) \<and> opt_recs (rebuild_tail (lg_first lg) ?cs) = visible lg"
    using rebuild_fold [of None ?g "rev ?cs"] recs by (simp add: rebuild_tail_def opt_recs_def Let_def)
  then obtain t' where "rebuild_tail (lg_first lg) ?cs = Some t'" using ne by (cases "rebuild_tail (lg_first lg) ?cs") (auto simp: opt_recs_def)
  with rb cf show ?thesis by (auto simp: compact_log_def opt_recs_def)
qed

end
