(* ===== verification/StreamLaws.thy ===== *)
theory StreamLaws
  imports StreamLogs
begin

text \<open>
  What every operation of a stream store keeps: the shape of each log, and the two byte accounts, which are the saturated
  sums over all streams, visible records and offsets.
\<close>

section \<open>Accounts\<close>

definition store_weight :: "(string \<Rightarrow> u64) \<Rightarrow> (StreamRecord \<Rightarrow> u64) \<Rightarrow> (string \<Rightarrow> string \<Rightarrow> u64) \<Rightarrow> StreamStore \<Rightarrow> nat" where
  "store_weight ps pr po st =
     (\<Sum>name \<in> dom (map_of (ss_next st)). unat (ps name) + (\<Sum>r\<leftarrow>visible (ss_log st name). unat (pr r))) +
     (\<Sum>name \<in> dom (map_of (ss_offsets st)). \<Sum>consumer \<in> dom (map_of (offsets_of st name)). unat (po name consumer))"

abbreviation logical_weight :: "StreamStore \<Rightarrow> nat" where
  "logical_weight \<equiv> store_weight stream_bytes streamRecordBytes offset_bytes"

abbreviation snapshot_weight :: "StreamStore \<Rightarrow> nat" where
  "snapshot_weight \<equiv> store_weight streamSnapshotBytes streamRecordSnapshotBytes streamOffsetSnapshotBytes"

definition shape_ok :: "StreamStore \<Rightarrow> bool" where
  "shape_ok st \<longleftrightarrow> distinct (map fst (ss_next st)) \<and> (\<forall>name. map_of (ss_next st) name \<noteq> Some 0) \<and>
     (\<forall>name. log_ok (ss_log st name) (unat (NextSequence st name))) \<and>
     (\<forall>name. map_of (ss_next st) name = None \<longrightarrow> ss_log st name = zero_log) \<and>
     distinct (map fst (ss_offsets st)) \<and> (\<forall>name. distinct (map fst (offsets_of st name))) \<and>
     dom (map_of (ss_offsets st)) \<subseteq> dom (map_of (ss_next st))"

definition accounts_ok :: "StreamStore \<Rightarrow> bool" where
  "accounts_ok st \<longleftrightarrow> unat (ss_logicalBytes st) = sat (logical_weight st) \<and> unat (ss_snapshotBytes st) = sat (snapshot_weight st)"

lemma visible_zero [simp]: "visible zero_log = []" "lg_count zero_log = 0"
  by (simp_all add: visible_def zero_log_def)

lemma store_weight_cong:
  "ss_streams st = ss_streams st' \<Longrightarrow> ss_next st = ss_next st' \<Longrightarrow> ss_offsets st = ss_offsets st' \<Longrightarrow>
   store_weight ps pr po st = store_weight ps pr po st'"
  by (simp add: store_weight_def ss_log_def offsets_of_def)

lemma fields_put [simp]:
  "ss_log (st\<lparr>ss_streams := AList.update name lg l\<rparr>) x = (if x = name then lg else (case map_of l x of None \<Rightarrow> zero_log | Some y \<Rightarrow> y))"
  "next_of (st\<lparr>ss_next := AList.update name n m\<rparr>) x = (if x = name then n else (case map_of m x of None \<Rightarrow> 0 | Some y \<Rightarrow> y))"
  "offsets_of (st\<lparr>ss_offsets := AList.update name cs o1\<rparr>) x = (if x = name then cs else (case map_of o1 x of None \<Rightarrow> [] | Some y \<Rightarrow> y))"
  by (simp_all add: ss_log_def next_of_def offsets_of_def update_conv')

lemma weight_log:
  assumes "name \<in> dom (map_of (ss_next st))"
  shows "store_weight ps pr po (st\<lparr>ss_streams := AList.update name lg (ss_streams st)\<rparr>) + (\<Sum>r\<leftarrow>visible (ss_log st name). unat (pr r)) =
    store_weight ps pr po st + (\<Sum>r\<leftarrow>visible lg. unat (pr r))"
proof -
  let ?D = "dom (map_of (ss_next st))" let ?st = "st\<lparr>ss_streams := AList.update name lg (ss_streams st)\<rparr>"
  let ?f = "\<lambda>st x. unat (ps x) + (\<Sum>r\<leftarrow>visible (ss_log st x). unat (pr r))"
  have fin: "finite ?D" by (rule finite_dom_map_of)
  have "sum (?f ?st) (?D - {name}) = sum (?f st) (?D - {name})" by (rule sum.cong) (auto simp: ss_log_def update_conv')
  then have "sum (?f ?st) ?D + (\<Sum>r\<leftarrow>visible (ss_log st name). unat (pr r)) = sum (?f st) ?D + (\<Sum>r\<leftarrow>visible lg. unat (pr r))"
    using sum.remove [OF fin assms, of "?f st"] sum.remove [OF fin assms, of "?f ?st"] by simp
  moreover have "offsets_of ?st = offsets_of st" by (simp add: fun_eq_iff offsets_of_def)
  ultimately show ?thesis unfolding store_weight_def by simp
qed

lemma weight_next:
  "store_weight ps pr po (st\<lparr>ss_next := AList.update name n (ss_next st)\<rparr>) = store_weight ps pr po st +
    (if name \<in> dom (map_of (ss_next st)) then 0 else unat (ps name) + (\<Sum>r\<leftarrow>visible (ss_log st name). unat (pr r)))"
proof -
  let ?st = "st\<lparr>ss_next := AList.update name n (ss_next st)\<rparr>"
  have d: "dom (map_of (ss_next ?st)) = insert name (dom (map_of (ss_next st)))" by (simp add: update_conv')
  have s: "ss_log ?st = ss_log st" "offsets_of ?st = offsets_of st" by (simp_all add: fun_eq_iff ss_log_def offsets_of_def)
  show ?thesis unfolding store_weight_def d s by (simp add: sum.insert_if finite_dom_map_of)
qed

lemma weight_offset:
  assumes "map_of (ss_offsets st) name = None \<longrightarrow> offsets_of st name = []"
  shows "store_weight ps pr po (st\<lparr>ss_offsets := AList.update name (AList.update consumer s (offsets_of st name)) (ss_offsets st)\<rparr>) =
    store_weight ps pr po st + (if map_of (offsets_of st name) consumer = None then unat (po name consumer) else 0)"
proof -
  let ?st = "st\<lparr>ss_offsets := AList.update name (AList.update consumer s (offsets_of st name)) (ss_offsets st)\<rparr>"
  let ?D = "dom (map_of (ss_offsets st))"
  let ?f = "\<lambda>st x. \<Sum>c \<in> dom (map_of (offsets_of st x)). unat (po x c)"
  have d: "dom (map_of (ss_offsets ?st)) = insert name ?D" by (simp add: update_conv')
  have s: "ss_log ?st = ss_log st" by (simp add: fun_eq_iff ss_log_def)
  have fin: "finite ?D" by (rule finite_dom_map_of)
  have new: "?f ?st name = ?f st name + (if map_of (offsets_of st name) consumer = None then unat (po name consumer) else 0)"
    by (simp add: update_conv' sum.insert_if finite_dom_map_of domIff)
  have "sum (?f ?st) (?D - {name}) = sum (?f st) (?D - {name})" by (rule sum.cong) (auto simp: offsets_of_def update_conv')
  then have "sum (?f ?st) (insert name ?D) = ?f ?st name + sum (?f st) (?D - {name})"
    using sum.insert_remove [OF fin, of "?f ?st" name] by simp
  also have "?f st name + sum (?f st) (?D - {name}) = sum (?f st) ?D"
  proof (cases "name \<in> ?D")
    case True
    then show ?thesis using sum.remove [OF fin True, of "?f st"] by simp
  next
    case False
    then show ?thesis using assms by (simp add: domIff offsets_of_def)
  qed
  then have "?f ?st name + sum (?f st) (?D - {name}) = sum (?f st) ?D + (if map_of (offsets_of st name) consumer = None then unat (po name consumer) else 0)"
    using new by simp
  finally show ?thesis unfolding store_weight_def d s by simp
qed

section \<open>Recomputing an account\<close>

lemma visible_records_ok:
  assumes "log_ok lg n"
  shows "\<exists>rs. visible_records lg = Inr rs \<and> (\<forall>f :: StreamRecord \<Rightarrow> nat. (\<Sum>r\<leftarrow>rs. f r) = (\<Sum>r\<leftarrow>visible lg. f r))"
proof (cases "lg_tail lg")
  case None
  then have "lg = zero_log" using assms by (simp add: log_ok_def)
  then show ?thesis by (simp add: visible_records_def zero_log_def visible_def)
next
  case (Some t)
  then have "log_shape lg t n" using assms by (simp add: log_ok_def)
  then show ?thesis by (rule visible_records_sums)
qed

lemma store_bytes_loop_ok:
  assumes "shape_ok st"
  shows "\<exists>w. store_bytes_loop ps pr st names acc = Inr w \<and>
    unat w = sat (unat acc + (\<Sum>name\<leftarrow>names. unat (ps name) + (\<Sum>r\<leftarrow>visible (ss_log st name). unat (pr r))))"
proof (induction names arbitrary: acc)
  case (Cons name names)
  obtain rs where rs: "visible_records (ss_log st name) = Inr rs" "\<And>f :: StreamRecord \<Rightarrow> nat. (\<Sum>r\<leftarrow>rs. f r) = (\<Sum>r\<leftarrow>visible (ss_log st name). f r)"
    using visible_records_ok assms unfolding shape_ok_def by blast
  let ?acc = "fold (\<lambda>r b. snapshotAdd b (pr r)) rs (snapshotAdd acc (ps name))"
  have acc: "unat ?acc = sat (unat acc + unat (ps name) + (\<Sum>r\<leftarrow>visible (ss_log st name). unat (pr r)))"
    by (simp add: unat_fold_snapshotAdd unat_snapshotAdd rs(2))
  obtain w where "store_bytes_loop ps pr st names ?acc = Inr w"
    "unat w = sat (unat ?acc + (\<Sum>name\<leftarrow>names. unat (ps name) + (\<Sum>r\<leftarrow>visible (ss_log st name). unat (pr r))))"
    using Cons.IH by blast
  then show ?case using rs(1) acc by (simp add: add.assoc)
qed simp

lemma fold_pairs_snapshotAdd:
  "unat (fold (\<lambda>(c, _) b. snapshotAdd b (po n c)) cs acc) = sat (unat acc + (\<Sum>c\<leftarrow>map fst cs. unat (po n c)))"
  by (induction cs arbitrary: acc) (auto simp: unat_snapshotAdd add.assoc)

lemma offsets_bytes_ok:
  "unat (offsets_bytes po st acc) = sat (unat acc + (\<Sum>(n, cs)\<leftarrow>ss_offsets st. \<Sum>c\<leftarrow>map fst cs. unat (po n c)))"
proof -
  have "unat (fold (\<lambda>(stream, consumers) acc. fold (\<lambda>(consumer, _) b. snapshotAdd b (po stream consumer)) consumers acc) l acc) =
      sat (unat acc + (\<Sum>(n, cs)\<leftarrow>l. \<Sum>c\<leftarrow>map fst cs. unat (po n c)))" for l :: "(string \<times> (string \<times> u64) list) list"
    by (induction l arbitrary: acc) (auto simp: fold_pairs_snapshotAdd add.assoc)
  then show ?thesis by (simp add: offsets_bytes_def)
qed

lemma weight_lists:
  assumes "shape_ok st"
  shows "(\<Sum>name\<leftarrow>map fst (ss_next st). unat (ps name) + (\<Sum>r\<leftarrow>visible (ss_log st name). unat (pr r))) +
     (\<Sum>(n, cs)\<leftarrow>ss_offsets st. \<Sum>c\<leftarrow>map fst cs. unat (po n c)) = store_weight ps pr po st"
proof -
  have d: "distinct (map fst (ss_next st))" "distinct (map fst (ss_offsets st))" "\<And>n. distinct (map fst (offsets_of st n))"
    using assms by (auto simp: shape_ok_def)
  have "(\<Sum>(n, cs)\<leftarrow>ss_offsets st. \<Sum>c\<leftarrow>map fst cs. unat (po n c)) = (\<Sum>x\<leftarrow>ss_offsets st. \<Sum>c \<in> dom (map_of (offsets_of st (fst x))). unat (po (fst x) c))"
  proof (intro arg_cong [where f = sum_list] map_cong refl)
    fix x assume "x \<in> set (ss_offsets st)"
    then have m: "map_of (ss_offsets st) (fst x) = Some (snd x)" by (intro map_of_is_SomeI d(2)) simp
    then have o: "offsets_of st (fst x) = snd x" by (simp add: offsets_of_def)
    have "(\<Sum>c\<leftarrow>map fst (snd x). unat (po (fst x) c)) = (\<Sum>c \<in> dom (map_of (offsets_of st (fst x))). unat (po (fst x) c))"
      using d(3) [of "fst x"] unfolding o by (simp only: sum_list_distinct_conv_sum_set dom_map_of_conv_image_fst) simp
    then show "(case x of (n, cs) \<Rightarrow> \<Sum>c\<leftarrow>map fst cs. unat (po n c)) = (\<Sum>c \<in> dom (map_of (offsets_of st (fst x))). unat (po (fst x) c))"
      by (cases x) simp
  qed
  also have "\<dots> = (\<Sum>n\<leftarrow>map fst (ss_offsets st). \<Sum>c \<in> dom (map_of (offsets_of st n)). unat (po n c))" by (simp add: o_def)
  finally show ?thesis unfolding store_weight_def dom_map_of_conv_image_fst
    by (simp only: sum_list_distinct_conv_sum_set [OF d(1)] sum_list_distinct_conv_sum_set [OF d(2)] set_map)
qed

lemma calculate_ok:
  assumes "shape_ok st"
  shows "\<exists>w. calculateStreamStoreBytes st = Inr w \<and> unat w = sat (logical_weight st)"
    "\<exists>w. calculateStreamStoreSnapshotBytes st = Inr w \<and> unat w = sat (snapshot_weight st)"
proof -
  have loop: "\<exists>w. store_bytes_loop ps pr st (map fst (ss_next st)) 0 = Inr w \<and> unat (offsets_bytes po st w) = sat (store_weight ps pr po st)" for ps pr po
    using store_bytes_loop_ok [OF assms, of ps pr "map fst (ss_next st)" 0] weight_lists [OF assms, of ps pr po] by (auto simp: offsets_bytes_ok)
  show "\<exists>w. calculateStreamStoreBytes st = Inr w \<and> unat w = sat (logical_weight st)"
    using loop [of stream_bytes streamRecordBytes offset_bytes] by (auto simp: calculateStreamStoreBytes_def)
  show "\<exists>w. calculateStreamStoreSnapshotBytes st = Inr w \<and> unat w = sat (snapshot_weight st)"
    using loop [of streamSnapshotBytes streamRecordSnapshotBytes streamOffsetSnapshotBytes] by (auto simp: calculateStreamStoreSnapshotBytes_def)
qed

section \<open>Publishing\<close>

text \<open>What a store shows of a stream: its next sequence and its records.\<close>

definition stream_view :: "StreamStore \<Rightarrow> string \<Rightarrow> (u64 \<times> StreamRecord list) option" where
  "stream_view st name = (if next_of st name = 0 then None else Some (next_of st name, visible (ss_log st name)))"

lemma next_of_some: "shape_ok st \<Longrightarrow> (next_of st name = 0) = (map_of (ss_next st) name = None)"
  by (auto simp: next_of_def shape_ok_def split: option.split)

lemma next_view: "NextSequence st name = (case stream_view st name of None \<Rightarrow> 1 | Some (n, rs) \<Rightarrow> n)"
  by (simp add: NextSequence_def stream_view_def)

lemma log_view: "shape_ok st \<Longrightarrow> visible (ss_log st name) = (case stream_view st name of None \<Rightarrow> [] | Some (n, rs) \<Rightarrow> rs)"
  using next_of_some [of st name] by (auto simp: stream_view_def shape_ok_def)

lemma log_okI: "log_shape lg t n \<Longrightarrow> unat (lg_bytes lg) = sat (bytes_of (visible lg)) \<Longrightarrow> unat (lg_snapshotBytes lg) = sat (snapshot_of (visible lg)) \<Longrightarrow>
  bytes_of (recs t) \<le> 2 * bytes_of (visible lg) \<Longrightarrow> log_ok lg n"
  by (simp add: log_ok_def log_shape_def)

lemma append_log_ok:
  assumes "log_ok lg (unat n)" "n \<noteq> 0" "n \<noteq> - 1" "ev_Sequence r = n"
  defines "lg' \<equiv> lg\<lparr>lg_tail := Some (append_tail (lg_tail lg) r), lg_first := (if lg_count lg = 0 then n else lg_first lg), lg_count := lg_count lg + 1,
    lg_bytes := snapshotAdd (lg_bytes lg) (streamRecordBytes r), lg_snapshotBytes := snapshotAdd (lg_snapshotBytes lg) (streamRecordSnapshotBytes r)\<rparr>"
  shows "log_ok lg' (unat (n + 1))" "visible lg' = visible lg @ [r]"
proof -
  have n1: "unat (n + 1) = unat n + 1" "unat n + 1 < 2 ^ 64" "0 < unat n"
  proof -
    show "unat (n + 1) = unat n + 1" using assms(3) by (metis Suc_eq_plus1 add.commute unatSuc add_eq_0_iff)
    then show "unat n + 1 < 2 ^ 64" using unat_bounds(1) [of "n + 1"] by simp
    show "0 < unat n" using assms(2) by (simp add: unat_gt_0)
  qed
  have "log_ok lg' (unat (n + 1)) \<and> visible lg' = visible lg @ [r]"
  proof (cases "lg_tail lg")
    case None
    then have z: "lg = zero_log" using assms(1) by (simp add: log_ok_def)
    have c: "chain_ok (append_tail None r)" "recs (append_tail None r) = [r]" using append_tail_ok [of None r] by simp_all
    have v: "visible lg' = [r]" using c(2) assms(4) by (simp add: visible_def lg'_def z) (simp add: zero_log_def)
    have "numbered [r] (unat n + 1)" using n1 assms(4) by (simp add: numbered_def)
    then have "log_shape lg' (append_tail None r) (unat n + 1)" using c n1 by (simp add: log_shape_def lg'_def z zero_log_def)
    then have "log_ok lg' (unat n + 1)" unfolding v
      by (rule log_okI) (simp_all only: v c(2), simp_all add: lg'_def z zero_log_def unat_snapshotAdd bytes_of_def snapshot_of_def)
    with v z n1(1) show ?thesis by simp
  next
    case (Some t)
    then have sh: "log_shape lg t (unat n)" and b: "unat (lg_bytes lg) = sat (bytes_of (visible lg))" "unat (lg_snapshotBytes lg) = sat (snapshot_of (visible lg))"
        "bytes_of (recs t) \<le> 2 * bytes_of (visible lg)"
      using assms(1) by (simp_all add: log_ok_def)
    have c0: "lg_count lg \<noteq> 0" using sh by (auto simp: log_shape_def)
    have c: "chain_ok (append_tail (Some t) r)" "recs (append_tail (Some t) r) = recs t @ [r]"
      using append_tail_ok [of "Some t" r] sh by (simp_all add: log_shape_def)
    have f: "unat (lg_first lg) < unat n" "unat (lg_first lg) + unat (lg_count lg) = unat n" "unat n - length (recs t) \<le> unat (lg_first lg)" "numbered (recs t) (unat n)"
      using sh by (simp_all add: log_shape_def)
    have v: "visible lg' = visible lg @ [r]" using c(2) c0 f(1) assms(4) Some by (simp add: visible_def lg'_def)
    have "unat (lg_count lg + 1) = unat (lg_count lg) + 1"
      using f(2) n1(2) by (simp add: unat_word_ariths)
    then have "log_shape lg' (append_tail (Some t) r) (unat n + 1)"
      using c c0 f n1 assms(4) numbered_snoc [OF f(4), of r] Some by (simp add: log_shape_def lg'_def)
    then have "log_ok lg' (unat n + 1)"
      by (rule log_okI) (simp_all only: v c(2), use b in \<open>simp_all add: lg'_def unat_snapshotAdd bytes_of_def snapshot_of_def\<close>)
    with v n1(1) show ?thesis by simp
  qed
  then show "log_ok lg' (unat (n + 1))" "visible lg' = visible lg @ [r]" by blast+
qed

text \<open>Replacing the log and the next sequence of one stream.\<close>

definition put_stream :: "string \<Rightarrow> u64 \<Rightarrow> streamLog \<Rightarrow> StreamStore \<Rightarrow> StreamStore" where
  "put_stream name n lg st = st\<lparr>ss_next := AList.update name n (ss_next st), ss_streams := AList.update name lg (ss_streams st)\<rparr>"

lemma put_stream_fields [simp]:
  "ss_log (put_stream name n lg st) x = (if x = name then lg else ss_log st x)"
  "next_of (put_stream name n lg st) x = (if x = name then n else next_of st x)"
  "map_of (ss_next (put_stream name n lg st)) = (map_of (ss_next st))(name \<mapsto> n)"
  "distinct (map fst (ss_next st)) \<Longrightarrow> distinct (map fst (ss_next (put_stream name n lg st)))"
  "offsets_of (put_stream name n lg st) = offsets_of st" "ss_offsets (put_stream name n lg st) = ss_offsets st"
  by (simp_all add: put_stream_def ss_log_def next_of_def offsets_of_def update_conv' distinct_update fun_eq_iff)

lemma put_stream_shape:
  assumes "shape_ok st" "n \<noteq> 0" "log_ok lg (unat n)"
  shows "shape_ok (put_stream name n lg st)"
proof -
  have ns: "NextSequence (put_stream name n lg st) x = (if x = name then n else NextSequence st x)" for x using assms(2) by (simp add: NextSequence_def)
  show ?thesis using assms unfolding shape_ok_def ns by auto
qed

lemma put_stream_view:
  assumes "n \<noteq> 0"
  shows "stream_view (put_stream name n lg st) = (stream_view st)(name \<mapsto> (n, visible lg))" "offsets_of (put_stream name n lg st) = offsets_of st"
  using assms by (auto simp: fun_eq_iff stream_view_def)

lemma put_stream_weight:
  assumes "shape_ok st"
  shows "store_weight ps pr po (put_stream name n lg st) + (\<Sum>r\<leftarrow>visible (ss_log st name). unat (pr r)) =
    store_weight ps pr po st + (\<Sum>r\<leftarrow>visible lg. unat (pr r)) + (if next_of st name = 0 then unat (ps name) else 0)"
proof -
  let ?st = "st\<lparr>ss_next := AList.update name n (ss_next st)\<rparr>"
  have l: "ss_log ?st name = ss_log st name" by (simp add: ss_log_def)
  have z: "visible (ss_log st name) = []" if "next_of st name = 0" using that assms next_of_some [OF assms, of name] by (simp add: shape_ok_def)
  have d: "name \<in> dom (map_of (ss_next ?st))" by (simp add: update_conv')
  have p: "put_stream name n lg st = ?st\<lparr>ss_streams := AList.update name lg (ss_streams ?st)\<rparr>" by (simp add: put_stream_def)
  show ?thesis unfolding p using weight_log [OF d, of ps pr po lg] weight_next [of ps pr po name n st] next_of_some [OF assms, of name] z
    by (auto simp: l domIff)
qed

lemma shape_cong:
  "ss_streams st = ss_streams st' \<Longrightarrow> ss_next st = ss_next st' \<Longrightarrow> ss_offsets st = ss_offsets st' \<Longrightarrow> shape_ok st = shape_ok st'"
  by (simp add: shape_ok_def ss_log_def offsets_of_def NextSequence_def next_of_def)

lemma view_cong:
  "ss_streams st = ss_streams st' \<Longrightarrow> ss_next st = ss_next st' \<Longrightarrow> stream_view st = stream_view st'"
  "ss_offsets st = ss_offsets st' \<Longrightarrow> offsets_of st = offsets_of st'"
  by (simp_all add: fun_eq_iff stream_view_def ss_log_def offsets_of_def next_of_def)

lemma Publish_ok:
  fixes kind :: string and payload :: gvalue and name :: string and st :: StreamStore
  assumes "shape_ok st" "accounts_ok st" "NextSequence st name \<noteq> - 1"
  defines "n \<equiv> NextSequence st name" and "r \<equiv> \<lparr>ev_Sequence = NextSequence st name, ev_Kind = kind, ev_Payload = CloneValue payload\<rparr>"
  shows "fst (Publish name kind payload st) = n" "shape_ok (snd (Publish name kind payload st))" "accounts_ok (snd (Publish name kind payload st))"
    "stream_view (snd (Publish name kind payload st)) = (stream_view st)(name \<mapsto> (n + 1, visible (ss_log st name) @ [r]))"
    "offsets_of (snd (Publish name kind payload st)) = offsets_of st"
proof -
  let ?st' = "snd (Publish name kind payload st)"
  define lg where "lg = ss_log st name"
  define lg' where "lg' = lg\<lparr>lg_tail := Some (append_tail (lg_tail lg) r), lg_first := (if lg_count lg = 0 then n else lg_first lg), lg_count := lg_count lg + 1,
    lg_bytes := snapshotAdd (lg_bytes lg) (streamRecordBytes r), lg_snapshotBytes := snapshotAdd (lg_snapshotBytes lg) (streamRecordSnapshotBytes r)\<rparr>"
  have n: "n \<noteq> 0" "(if next_of st name = 0 then 1 else next_of st name) = n" by (auto simp: n_def NextSequence_def)
  have n1: "n + 1 \<noteq> 0" using assms(3) by (simp add: n_def eq_neg_iff_add_eq_0)
  have ok: "log_ok lg (unat n)" using assms(1) by (simp add: shape_ok_def lg_def n_def)
  have lg': "log_ok lg' (unat (n + 1))" "visible lg' = visible lg @ [r]"
    using append_log_ok [OF ok n(1), of r] assms(3) unfolding lg'_def by (simp_all add: r_def n_def)
  have f: "ss_streams ?st' = ss_streams (put_stream name (n + 1) lg' st)" "ss_next ?st' = ss_next (put_stream name (n + 1) lg' st)"
      "ss_offsets ?st' = ss_offsets (put_stream name (n + 1) lg' st)"
    unfolding Publish_def Let_def n(2) by (simp_all add: put_stream_def charge_stream_def lg'_def lg_def r_def n_def)
  have b: "ss_logicalBytes ?st' = (let b = snapshotAdd (ss_logicalBytes st) (streamRecordBytes r) in if next_of st name = 0 then snapshotAdd b (stream_bytes name) else b)"
      "ss_snapshotBytes ?st' = (let b = snapshotAdd (ss_snapshotBytes st) (streamRecordSnapshotBytes r) in if next_of st name = 0 then snapshotAdd b (streamSnapshotBytes name) else b)"
    unfolding Publish_def Let_def n(2) by (simp_all add: charge_stream_def r_def n_def)
  show "fst (Publish name kind payload st) = n" unfolding Publish_def Let_def n(2) by simp
  show "shape_ok ?st'" unfolding shape_cong [OF f] by (rule put_stream_shape [OF assms(1) n1 lg'(1)])
  show "stream_view ?st' = (stream_view st)(name \<mapsto> (n + 1, visible (ss_log st name) @ [r]))"
    unfolding view_cong(1) [OF f(1,2)] put_stream_view(1) [OF n1] lg'(2) lg_def ..
  show "offsets_of ?st' = offsets_of st" unfolding view_cong(2) [OF f(3)] by (rule put_stream_view(2) [OF n1])
  have w: "store_weight ps pr po ?st' = store_weight ps pr po st + unat (pr r) + (if next_of st name = 0 then unat (ps name) else 0)" for ps pr po
    unfolding store_weight_cong [OF f] using put_stream_weight [OF assms(1), of ps pr po name "n + 1" lg'] by (simp add: lg'(2) lg_def)
  show "accounts_ok ?st'" using assms(2) unfolding accounts_ok_def w b by (simp add: Let_def unat_snapshotAdd add.assoc)
qed

lemma touch_ok:
  assumes "shape_ok st" "accounts_ok st"
  shows "shape_ok (touch_stream name st)" "accounts_ok (touch_stream name st)" "offsets_of (touch_stream name st) = offsets_of st"
    "stream_view (touch_stream name st) = (stream_view st)(name \<mapsto> (NextSequence st name, visible (ss_log st name)))"
    "ss_log (touch_stream name st) = ss_log st" "NextSequence (touch_stream name st) name = NextSequence st name" "next_of (touch_stream name st) name \<noteq> 0"
proof -
  show l: "ss_log (touch_stream name st) = ss_log st" by (simp add: fun_eq_iff touch_stream_def charge_stream_def ss_log_def)
  show "offsets_of (touch_stream name st) = offsets_of st" by (simp add: fun_eq_iff touch_stream_def charge_stream_def offsets_of_def)
  show "NextSequence (touch_stream name st) name = NextSequence st name" "next_of (touch_stream name st) name \<noteq> 0"
    by (simp_all add: NextSequence_def touch_stream_def charge_stream_def next_of_def update_conv')
  show "stream_view (touch_stream name st) = (stream_view st)(name \<mapsto> (NextSequence st name, visible (ss_log st name)))"
    unfolding stream_view_def l by (auto simp: fun_eq_iff NextSequence_def touch_stream_def charge_stream_def next_of_def update_conv')
  have ns: "NextSequence (touch_stream name st) x = NextSequence st x" for x
    by (simp add: NextSequence_def touch_stream_def charge_stream_def next_of_def update_conv')
  have nm: "map_of (ss_next (touch_stream name st)) = (if next_of st name = 0 then (map_of (ss_next st))(name \<mapsto> 1) else map_of (ss_next st))"
      "distinct (map fst (ss_next st)) \<Longrightarrow> distinct (map fst (ss_next (touch_stream name st)))"
      "ss_offsets (touch_stream name st) = ss_offsets st"
    by (simp_all add: touch_stream_def charge_stream_def update_conv' distinct_update)
  have of: "offsets_of (touch_stream name st) = offsets_of st" by (simp add: fun_eq_iff touch_stream_def charge_stream_def offsets_of_def)
  show "shape_ok (touch_stream name st)"
    using assms(1) unfolding shape_ok_def l ns nm(1,3) of by (auto simp: nm(2))
  have w: "store_weight ps pr po (touch_stream name st) = store_weight ps pr po st + (if next_of st name = 0 then unat (ps name) else 0)" for ps pr po
  proof (cases "next_of st name = 0")
    case True
    then have "visible (ss_log st name) = []" "name \<notin> dom (map_of (ss_next st))" using assms(1) next_of_some [OF assms(1), of name] by (auto simp: shape_ok_def)
    then show ?thesis using True weight_next [of ps pr po name 1 st]
      store_weight_cong [of "touch_stream name st" "st\<lparr>ss_next := AList.update name 1 (ss_next st)\<rparr>" ps pr po] by (simp add: touch_stream_def charge_stream_def)
  qed (simp add: touch_stream_def)
  show "accounts_ok (touch_stream name st)"
    using assms(2) unfolding accounts_ok_def w by (simp add: touch_stream_def charge_stream_def unat_snapshotAdd)
qed

lemma SetOffset_ok:
  fixes name consumer :: string and s :: u64 and st :: StreamStore
  assumes "shape_ok st" "accounts_ok st"
  defines "st' \<equiv> SetOffset name consumer s st"
  shows "shape_ok st'" "accounts_ok st'" "stream_view st' = (stream_view st)(name \<mapsto> (NextSequence st name, visible (ss_log st name)))"
    "map_of (offsets_of st' x) = (if x = name then (map_of (offsets_of st name))(consumer \<mapsto> s) else map_of (offsets_of st x))"
proof -
  define st1 where "st1 = touch_stream name st"
  note t = touch_ok [OF assms(1,2), of name, folded st1_def]
  define st2 where "st2 = st1\<lparr>ss_offsets := AList.update name (AList.update consumer s (offsets_of st1 name)) (ss_offsets st1)\<rparr>"
  have off: "ss_offsets st' = AList.update name (AList.update consumer s (offsets_of st1 name)) (AList.update name (offsets_of st1 name) (ss_offsets st1))"
    unfolding st'_def SetOffset_def Let_def by (simp add: st1_def [symmetric] cloneOffset_def)
  have f: "ss_streams st' = ss_streams st1" "ss_next st' = ss_next st1" and
    b: "ss_logicalBytes st' = (if map_of (offsets_of st1 name) consumer \<noteq> None then ss_logicalBytes st1 else snapshotAdd (ss_logicalBytes st1) (offset_bytes name consumer))"
      "ss_snapshotBytes st' = (if map_of (offsets_of st1 name) consumer \<noteq> None then ss_snapshotBytes st1 else snapshotAdd (ss_snapshotBytes st1) (streamOffsetSnapshotBytes name consumer))"
    unfolding st'_def SetOffset_def Let_def by (simp_all add: st1_def [symmetric] cloneOffset_def)
  have o: "offsets_of st' x = (if x = name then AList.update consumer s (offsets_of st1 name) else offsets_of st1 x)" for x
    by (simp add: offsets_of_def off update_conv')
  have dom: "dom (map_of (ss_offsets st')) = insert name (dom (map_of (ss_offsets st1)))" by (simp add: off update_conv')
  have nx: "map_of (ss_next st1) name \<noteq> None" using t(7) unfolding next_of_def by (auto split: option.splits)
  show sh: "shape_ok st'" using t(1) nx unfolding shape_ok_def dom
    by (auto simp: f o off distinct_update NextSequence_def next_of_def ss_log_def split: if_splits)
  show "stream_view st' = (stream_view st)(name \<mapsto> (NextSequence st name, visible (ss_log st name)))"
    using view_cong(1) [OF f] t(4) by simp
  show "map_of (offsets_of st' x) = (if x = name then (map_of (offsets_of st name))(consumer \<mapsto> s) else map_of (offsets_of st x))"
    by (simp add: o t(3) update_conv')
  have w: "store_weight ps pr po st' = store_weight ps pr po st1 + (if map_of (offsets_of st1 name) consumer = None then unat (po name consumer) else 0)" for ps pr po
  proof -
    have "store_weight ps pr po st' = store_weight ps pr po st2"
    proof -
      have "offsets_of st' = offsets_of st2" by (simp add: fun_eq_iff o st2_def) (simp add: offsets_of_def)
      moreover have "ss_log st' = ss_log st2" "dom (map_of (ss_offsets st2)) = insert name (dom (map_of (ss_offsets st1)))" "ss_next st' = ss_next st2"
        by (simp_all add: fun_eq_iff ss_log_def f st2_def update_conv')
      ultimately show ?thesis unfolding store_weight_def dom by simp
    qed
    then show ?thesis unfolding st2_def using weight_offset [of st1 name ps pr po consumer s] by (simp add: offsets_of_def)
  qed
  show "accounts_ok st'" using t(2) unfolding accounts_ok_def w b by (simp add: unat_snapshotAdd)
qed

section \<open>Trimming\<close>

lemma sum_list_split: "(\<Sum>r\<leftarrow>filter P rs. f r) + (\<Sum>r\<leftarrow>filter (\<lambda>r. \<not> P r) rs. f r) = (\<Sum>r\<leftarrow>rs. f r)" for f :: "'a \<Rightarrow> nat"
  by (induction rs) auto

lemma bytes_split:
  "bytes_of (filter P rs) + bytes_of (filter (\<lambda>r. \<not> P r) rs) = bytes_of rs" "snapshot_of (filter P rs) + snapshot_of (filter (\<lambda>r. \<not> P r) rs) = snapshot_of rs"
  unfolding bytes_of_def snapshot_of_def by (rule sum_list_split)+

text \<open>The records of a log below its first sequence, those a trim removes, and those it keeps.\<close>

lemma trim_sums:
  assumes "log_shape lg t n" "lg_first lg \<le> T" "unat T < n"
  shows "\<exists>c d. log_chunk lg (lg_first lg) = Inr (Some c) \<and> log_chunk lg T = Inr (Some d) \<and>
    (let from = streamChunkBytesThrough (Some c) (lg_first lg - 1); fin = streamChunkBytesThrough (Some d) T; gone = filter (\<lambda>r. seqn r \<le> unat T) (visible lg) in
     (fst from \<noteq> - 1 \<and> fst fin \<noteq> - 1 \<longrightarrow> unat (fst fin - fst from) = bytes_of gone) \<and>
     (snd from \<noteq> - 1 \<and> snd fin \<noteq> - 1 \<longrightarrow> unat (snd fin - snd from) = snapshot_of gone))"
proof -
  have t: "lg_tail lg = Some t" "chain_ok t" "numbered (recs t) n" "n - length (recs t) \<le> unat (lg_first lg)" "unat (lg_first lg) < n"
    using assms(1) by (auto simp: log_shape_def)
  have "length (recs t) < n" using t(3) by (simp add: numbered_def)
  then have f0: "0 < unat (lg_first lg)" using t(4) by linarith
  have f1: "unat (lg_first lg - 1) = unat (lg_first lg) - 1" using f0 by (simp add: unat_minus_one unat_gt_0)
  have fT: "unat (lg_first lg) \<le> unat T" using assms(2) by (simp add: word_le_nat_alt)
  obtain i where i: "i < length (chain t)" "log_chunk lg (lg_first lg) = Inr (Some (chain t ! i))" "head_seq (chain t ! i) \<le> lg_first lg" "lg_first lg \<le> last_seq (chain t ! i)"
    using log_chunk_ok [OF assms(1) order_refl t(5)] by blast
  obtain j where j: "j < length (chain t)" "log_chunk lg T = Inr (Some (chain t ! j))" "head_seq (chain t ! j) \<le> T" "T \<le> last_seq (chain t ! j)"
    using log_chunk_ok [OF assms(1) fT assms(3)] by blast
  note low = bytes_through [OF t(2,3) i(1), of "lg_first lg - 1"]
  note up = bytes_through [OF t(2,3) j(1), of T]
  have le: "unat (head_seq (chain t ! i)) \<le> Suc (unat (lg_first lg - 1))" "unat (lg_first lg - 1) \<le> unat (last_seq (chain t ! i))"
    "unat (head_seq (chain t ! j)) \<le> Suc (unat T)" "unat T \<le> unat (last_seq (chain t ! j))"
    using i(3,4) j(3,4) f0 unfolding word_le_nat_alt f1 by linarith+
  let ?below = "filter (\<lambda>r. seqn r \<le> unat (lg_first lg - 1)) (recs t)" let ?upto = "filter (\<lambda>r. seqn r \<le> unat T) (recs t)"
  let ?gone = "filter (\<lambda>r. seqn r \<le> unat T) (visible lg)"
  have below: "?below = filter (\<lambda>r. \<not> unat (lg_first lg) \<le> seqn r) ?upto" unfolding filter_filter f1 using f0 fT by (intro filter_cong) auto
  have gone: "?gone = filter (\<lambda>r. unat (lg_first lg) \<le> seqn r) ?upto" using t(1) by (simp add: visible_def conj_commute)
  have s: "bytes_of ?gone + bytes_of ?below = bytes_of ?upto" "snapshot_of ?gone + snapshot_of ?below = snapshot_of ?upto"
    unfolding below gone using bytes_split by blast+
  have top: "unat (- 1 :: u64) = 2 ^ 64 - 1" by (simp add: unsigned_minus_1_eq_mask mask_eq_exp_minus_1)
  have ex: "unat (b - a) = g" if "unat a = sat x" "unat b = sat y" "a \<noteq> - 1" "b \<noteq> - 1" "g + x = y" for a b :: u64 and x y g
  proof -
    have "unat a = x" "unat b = y" using that top sat_exact by (metis word_unat_eq_iff)+
    then show ?thesis using that(5) by (subst unat_sub) (auto simp: word_le_nat_alt)
  qed
  show ?thesis using i(2) j(2) low [OF le(1,2)] up [OF le(3,4)] s by (auto simp: Let_def intro!: ex)
qed

lemma trim_log_ok:
  assumes "log_shape lg t n" "unat (lg_bytes lg) = sat (bytes_of (visible lg))" "unat (lg_snapshotBytes lg) = sat (snapshot_of (visible lg))"
    and "lg_first lg \<le> T" "unat T < n"
    and "\<not> saturated \<Longrightarrow> lg_bytes lg \<noteq> - 1 \<and> lg_snapshotBytes lg \<noteq> - 1 \<and> unat rb = bytes_of (filter (\<lambda>r. seqn r \<le> unat T) (visible lg)) \<and>
      unat rsb = snapshot_of (filter (\<lambda>r. seqn r \<le> unat T) (visible lg))"
  defines "lg1 \<equiv> trim_log saturated T rb rsb lg"
  shows "visible lg1 = filter (\<lambda>r. unat T < seqn r) (visible lg)" "lg1 = zero_log \<and> lg_count lg1 = 0 \<or> log_shape lg1 t n"
    "lg_count lg1 \<noteq> 0 \<Longrightarrow> \<not> saturated \<Longrightarrow> unat (lg_bytes lg1) = sat (bytes_of (visible lg1)) \<and> unat (lg_snapshotBytes lg1) = sat (snapshot_of (visible lg1))"
proof -
  have t: "lg_tail lg = Some t" "chain_ok t" "numbered (recs t) n" "n - length (recs t) \<le> unat (lg_first lg)" "unat (lg_first lg) < n"
      "unat (lg_first lg) + unat (lg_count lg) = n"
    using assms(1) by (auto simp: log_shape_def)
  have fT: "unat (lg_first lg) \<le> unat T" using assms(4) by (simp add: word_le_nat_alt)
  have n64: "n < 2 ^ 64" using t(3) by (simp add: numbered_def)
  have k: "unat (T - lg_first lg + 1) = unat T - unat (lg_first lg) + 1"
    using assms(4,5) n64 unat_sub [OF assms(4)] by (simp add: unat_word_ariths)
  have "T - lg_first lg + 1 \<le> lg_count lg" unfolding word_le_nat_alt k using t(6) assms(5) fT by linarith
  then have c: "unat (lg_count lg - (T - lg_first lg + 1)) = n - 1 - unat T" using t(6) fT assms(5) k by (simp add: unat_sub)
  have T1: "unat (T + 1) = unat T + 1" using assms(5) n64 by (simp add: unat_word_ariths)
  have rng: "\<forall>r \<in> set (visible lg). seqn r < n" using visible_drop(4) [OF assms(1)] numbered_range by blast
  have "visible lg1 = filter (\<lambda>r. unat T < seqn r) (visible lg) \<and> (lg1 = zero_log \<and> lg_count lg1 = 0 \<or> log_shape lg1 t n) \<and>
    (lg_count lg1 \<noteq> 0 \<longrightarrow> \<not> saturated \<longrightarrow> unat (lg_bytes lg1) = sat (bytes_of (visible lg1)) \<and> unat (lg_snapshotBytes lg1) = sat (snapshot_of (visible lg1)))"
  proof (cases "unat T = n - 1")
    case True
    then have "lg_count lg - (T - lg_first lg + 1) = 0" using c by (simp add: unat_eq_0)
    then have "lg1 = zero_log" by (simp add: lg1_def trim_log_def)
    moreover have "filter (\<lambda>r. unat T < seqn r) (visible lg) = []" using rng True assms(5) unfolding filter_empty_conv by fastforce
    ultimately show ?thesis by simp
  next
    case False
    then have z: "lg_count lg - (T - lg_first lg + 1) \<noteq> 0" using c assms(5) by (metis One_nat_def Suc_pred diff_is_0_eq le_eq_less_or_eq less_Suc_eq_le not_le unat_0 less_nat_zero_code neq0_conv)
    have fields: "lg_tail lg1 = Some t" "lg_first lg1 = T + 1" "lg_count lg1 = lg_count lg - (T - lg_first lg + 1)"
      using z t(1) by (simp_all add: lg1_def trim_log_def Let_def)
    have v: "visible lg1 = filter (\<lambda>r. unat T < seqn r) (visible lg)"
      unfolding visible_def fields(1,2) T1 using t(1) fT by (auto simp: intro!: filter_cong)
    have sh: "log_shape lg1 t n" unfolding log_shape_def fields T1 c using t(2-4) fT assms(5) False by auto
    have top: "unat (- 1 :: u64) = 2 ^ 64 - 1" by (simp add: unsigned_minus_1_eq_mask mask_eq_exp_minus_1)
    have ex: "unat (b - a) = sat x" if "unat b = sat y" "b \<noteq> - 1" "unat a = g" "g + x = y" for a b :: u64 and x y g
    proof -
      have "unat b = y" using that top sat_exact by (metis word_unat_eq_iff)
      then have "unat (b - a) = x" using that by (subst unat_sub) (auto simp: word_le_nat_alt)
      then show ?thesis by (metis sat_unat)
    qed
    have "unat (lg_bytes lg1) = sat (bytes_of (visible lg1)) \<and> unat (lg_snapshotBytes lg1) = sat (snapshot_of (visible lg1))" if ns: "\<not> saturated"
    proof -
      have b: "lg_bytes lg1 = lg_bytes lg - rb" "lg_snapshotBytes lg1 = lg_snapshotBytes lg - rsb" using z ns by (simp_all add: lg1_def trim_log_def Let_def)
      have v': "visible lg1 = filter (\<lambda>r. \<not> seqn r \<le> unat T) (visible lg)" unfolding v by (simp add: not_le)
      show ?thesis unfolding b v' using assms(6) [OF ns]
        ex [OF assms(2) _ _ bytes_split(1)] ex [OF assms(3) _ _ bytes_split(2)] by blast
    qed
    with v sh show ?thesis by blast
  qed
  then show "visible lg1 = filter (\<lambda>r. unat T < seqn r) (visible lg)" "lg1 = zero_log \<and> lg_count lg1 = 0 \<or> log_shape lg1 t n"
    "lg_count lg1 \<noteq> 0 \<Longrightarrow> \<not> saturated \<Longrightarrow> unat (lg_bytes lg1) = sat (bytes_of (visible lg1)) \<and> unat (lg_snapshotBytes lg1) = sat (snapshot_of (visible lg1))" by blast+
qed

lemma compacted_ok:
  assumes "log_shape lg t n"
  shows "\<exists>lg'. compact_log lg = Inr lg' \<and> log_ok lg' n \<and> visible lg' = visible lg"
proof -
  obtain t' where t': "compact_log lg = Inr (lg\<lparr>lg_tail := Some t', lg_bytes := sc_bytes t', lg_snapshotBytes := sc_snapshotBytes t'\<rparr>)" "chain_ok t'" "recs t' = visible lg"
    using compact_log_ok [OF assms] by blast
  let ?lg = "lg\<lparr>lg_tail := Some t', lg_bytes := sc_bytes t', lg_snapshotBytes := sc_snapshotBytes t'\<rparr>"
  have "filter (\<lambda>r. unat (lg_first lg) \<le> seqn r) (visible lg) = visible lg" using assms by (simp add: visible_def log_shape_def)
  then have v: "visible ?lg = visible lg" using t'(3) by (simp add: visible_def [of ?lg])
  have sh: "log_shape ?lg t' n" using assms t' visible_drop(2,4) [OF assms] by (simp add: log_shape_def)
  have "chunk_sums t'" using chain_ok_self [OF t'(2)] by blast
  then have "log_ok ?lg n" by (intro log_okI [OF sh]) (simp_all add: v t'(3) chunk_sums_def bytes_of_def snapshot_of_def)
  with t'(1) v show ?thesis by blast
qed

lemma trimmed_log_ok:
  assumes "log_ok lg n" "lg_tail lg = Some t" "lg_first lg \<le> T" "unat T < n"
    and "\<not> saturated \<Longrightarrow> sc_bytes t \<noteq> - 1 \<and> lg_bytes lg \<noteq> - 1 \<and> lg_snapshotBytes lg \<noteq> - 1 \<and> unat rb = bytes_of (filter (\<lambda>r. seqn r \<le> unat T) (visible lg)) \<and>
      unat rsb = snapshot_of (filter (\<lambda>r. seqn r \<le> unat T) (visible lg))"
  shows "\<exists>lg2. (let lg1 = trim_log saturated T rb rsb lg in
      if lg_count lg1 \<noteq> 0 \<and> (saturated \<or> sc_bytes t - lg_bytes lg1 \<ge> lg_bytes lg1) then compact_log lg1 else Inr lg1) = Inr lg2 \<and>
    log_ok lg2 n \<and> visible lg2 = filter (\<lambda>r. unat T < seqn r) (visible lg)"
proof -
  have sh: "log_shape lg t n" "unat (lg_bytes lg) = sat (bytes_of (visible lg))" "unat (lg_snapshotBytes lg) = sat (snapshot_of (visible lg))"
    using assms(1,2) by (simp_all add: log_ok_def)
  define lg1 where "lg1 = trim_log saturated T rb rsb lg"
  note tl = trim_log_ok [OF sh assms(3,4), of saturated rb rsb, folded lg1_def]
  have v: "visible lg1 = filter (\<lambda>r. unat T < seqn r) (visible lg)" and z: "lg1 = zero_log \<and> lg_count lg1 = 0 \<or> log_shape lg1 t n"
    using tl(1,2) assms(5) by blast+
  consider "lg1 = zero_log" | "log_shape lg1 t n" "saturated \<or> sc_bytes t - lg_bytes lg1 \<ge> lg_bytes lg1"
    | "log_shape lg1 t n" "\<not> saturated" "sc_bytes t - lg_bytes lg1 < lg_bytes lg1"
    using z leI by blast
  then have "\<exists>lg2. (if lg_count lg1 \<noteq> 0 \<and> (saturated \<or> sc_bytes t - lg_bytes lg1 \<ge> lg_bytes lg1) then compact_log lg1 else Inr lg1) = Inr lg2 \<and>
    log_ok lg2 n \<and> visible lg2 = filter (\<lambda>r. unat T < seqn r) (visible lg)"
  proof cases
    case 1
    then have "log_ok lg1 n" "lg_count lg1 = 0" by (simp_all add: log_ok_def zero_log_def)
    then show ?thesis using v by simp
  next
    case 2
    then have "lg_count lg1 \<noteq> 0" by (auto simp: log_shape_def)
    then show ?thesis using compacted_ok [OF 2(1)] v 2(2) by auto
  next
    case 3
    then have c: "lg_count lg1 \<noteq> 0" by (auto simp: log_shape_def)
    have b: "unat (lg_bytes lg1) = sat (bytes_of (visible lg1))" "unat (lg_snapshotBytes lg1) = sat (snapshot_of (visible lg1))"
      using tl(3) [OF _ c 3(2)] assms(5) 3(2) by blast+
    have top: "unat (- 1 :: u64) = 2 ^ 64 - 1" by (simp add: unsigned_minus_1_eq_mask mask_eq_exp_minus_1)
    have "chunk_sums t" using sh(1) chain_ok_self by (auto simp: log_shape_def)
    then have t: "unat (sc_bytes t) = bytes_of (recs t)"
      using assms(5) [OF 3(2)] top sat_exact unfolding chunk_sums_def bytes_of_def by (metis word_unat_eq_iff)
    have sub: "bytes_of (visible lg1) \<le> bytes_of (recs t)"
      using 3(1) bytes_split(1) [of "\<lambda>r. unat (lg_first lg1) \<le> seqn r" "recs t"] by (simp add: visible_def log_shape_def)
    then have "bytes_of (visible lg1) < 2 ^ 64" using t unat_bounds(1) [of "sc_bytes t"] by simp
    then have e: "unat (lg_bytes lg1) = bytes_of (visible lg1)" using b(1) by (simp add: sat_def)
    then have "lg_bytes lg1 \<le> sc_bytes t" using sub t by (simp add: word_le_nat_alt)
    then have "bytes_of (recs t) - bytes_of (visible lg1) < bytes_of (visible lg1)" using 3(3) e t unfolding word_less_nat_alt by (simp add: unat_sub)
    then have "log_ok lg1 n" by (intro log_okI [OF 3(1) b]) simp
    with 3 c v show ?thesis by (auto simp: not_le)
  qed
  then show ?thesis unfolding lg1_def Let_def .
qed

lemma trim_saturated_not:
  "\<not> trim_saturated st lg t start fin \<Longrightarrow> sc_bytes t \<noteq> - 1 \<and> lg_bytes lg \<noteq> - 1 \<and> lg_snapshotBytes lg \<noteq> - 1 \<and>
    fst start \<noteq> - 1 \<and> fst fin \<noteq> - 1 \<and> snd start \<noteq> - 1 \<and> snd fin \<noteq> - 1 \<and> ss_logicalBytes st \<noteq> - 1 \<and> ss_snapshotBytes st \<noteq> - 1"
  by (simp add: trim_saturated_def)

text \<open>A log of a stream is replaced by one that shows fewer records, and the accounts follow, by subtraction or by recomputation.\<close>

lemma replace_log_ok:
  assumes "shape_ok st" "accounts_ok st" "next_of st name \<noteq> 0" "log_ok lg (unat (NextSequence st name))" "visible lg = filter P (visible (ss_log st name))"
    and "\<not> saturated \<Longrightarrow> ss_logicalBytes st \<noteq> - 1 \<and> ss_snapshotBytes st \<noteq> - 1 \<and> unat rb = bytes_of (filter (\<lambda>r. \<not> P r) (visible (ss_log st name))) \<and>
      unat rsb = snapshot_of (filter (\<lambda>r. \<not> P r) (visible (ss_log st name)))"
  defines "st2 \<equiv> (if saturated then st else st\<lparr>ss_logicalBytes := ss_logicalBytes st - rb, ss_snapshotBytes := ss_snapshotBytes st - rsb\<rparr>)"
  defines "st3 \<equiv> st2\<lparr>ss_streams := AList.update name lg (ss_streams st2)\<rparr>"
  shows "\<exists>st'. (if saturated
      then rbind (calculateStreamStoreBytes st3) (\<lambda>n. rbind (calculateStreamStoreSnapshotBytes (st3\<lparr>ss_logicalBytes := n\<rparr>)) (\<lambda>m.
             Inr (st3\<lparr>ss_logicalBytes := n, ss_snapshotBytes := m\<rparr>)))
      else Inr st3) = Inr st' \<and> shape_ok st' \<and> accounts_ok st' \<and>
    stream_view st' = (stream_view st)(name \<mapsto> (NextSequence st name, visible lg)) \<and> offsets_of st' = offsets_of st"
proof -
  have nx: "name \<in> dom (map_of (ss_next st))" using assms(3) unfolding next_of_def by (auto split: option.splits)
  have f: "ss_streams st3 = AList.update name lg (ss_streams st)" "ss_next st3 = ss_next st" "ss_offsets st3 = ss_offsets st"
    by (simp_all add: st3_def st2_def)
  have log: "ss_log st3 x = (if x = name then lg else ss_log st x)" for x by (simp add: ss_log_def f update_conv')
  have ns: "NextSequence st3 = NextSequence st" "next_of st3 = next_of st" "offsets_of st3 = offsets_of st"
    by (simp_all add: fun_eq_iff NextSequence_def next_of_def offsets_of_def f)
  have sh: "shape_ok st3" using assms(1,4) nx unfolding shape_ok_def f log ns by (auto simp: domIff)
  have view: "stream_view st3 = (stream_view st)(name \<mapsto> (NextSequence st name, visible lg))"
    using assms(3) by (auto simp: fun_eq_iff stream_view_def log ns NextSequence_def)
  have w: "store_weight ps pr po st3 + (\<Sum>r\<leftarrow>filter (\<lambda>r. \<not> P r) (visible (ss_log st name)). unat (pr r)) = store_weight ps pr po st" for ps pr po
  proof -
    have "store_weight ps pr po st3 = store_weight ps pr po (st\<lparr>ss_streams := AList.update name lg (ss_streams st)\<rparr>)" by (rule store_weight_cong) (simp_all add: f)
    then show ?thesis using weight_log [OF nx, of ps pr po lg] sum_list_split [of "\<lambda>r. unat (pr r)" P "visible (ss_log st name)"] assms(5) by simp
  qed
  show ?thesis
  proof (cases saturated)
    case True
    obtain n where n: "calculateStreamStoreBytes st3 = Inr n" "unat n = sat (logical_weight st3)" using calculate_ok(1) [OF sh] by blast
    let ?st4 = "st3\<lparr>ss_logicalBytes := n\<rparr>"
    have "shape_ok ?st4" using sh shape_cong [of ?st4 st3] by simp
    then obtain m where m: "calculateStreamStoreSnapshotBytes ?st4 = Inr m" "unat m = sat (snapshot_weight ?st4)" using calculate_ok(2) by blast
    let ?st5 = "st3\<lparr>ss_logicalBytes := n, ss_snapshotBytes := m\<rparr>"
    have "shape_ok ?st5" "stream_view ?st5 = stream_view st3" "offsets_of ?st5 = offsets_of st3"
      using sh shape_cong [of ?st5 st3] view_cong [of ?st5 st3] by simp_all
    moreover have "accounts_ok ?st5" unfolding accounts_ok_def
      using n(2) m(2) store_weight_cong [of ?st5 st3] store_weight_cong [of ?st4 st3] by simp
    ultimately show ?thesis using True n(1) m(1) view ns(3) by simp
  next
    case False
    note u = assms(6) [OF False]
    have top: "unat (- 1 :: u64) = 2 ^ 64 - 1" by (simp add: unsigned_minus_1_eq_mask mask_eq_exp_minus_1)
    have ex: "unat (b - a) = sat x" if "unat b = sat y" "b \<noteq> - 1" "unat a = g" "x + g = y" for a b :: u64 and x y g
    proof -
      have "unat b = y" using that top sat_exact by (metis word_unat_eq_iff)
      then have "unat (b - a) = x" using that by (subst unat_sub) (auto simp: word_le_nat_alt)
      then show ?thesis by (metis sat_unat)
    qed
    have b: "ss_logicalBytes st3 = ss_logicalBytes st - rb" "ss_snapshotBytes st3 = ss_snapshotBytes st - rsb" using False by (simp_all add: st3_def st2_def)
    have "accounts_ok st3" unfolding accounts_ok_def b
      using assms(2) u w [of stream_bytes streamRecordBytes offset_bytes] w [of streamSnapshotBytes streamRecordSnapshotBytes streamOffsetSnapshotBytes]
      unfolding accounts_ok_def bytes_of_def snapshot_of_def by (intro conjI ex) auto
    with False sh view ns(3) show ?thesis by simp
  qed
qed

lemma Trim_ok:
  assumes "shape_ok st" "accounts_ok st"
  shows "\<exists>st'. Trim name through st = Inr st' \<and> shape_ok st' \<and> accounts_ok st' \<and>
    stream_view st' = (stream_view st)(name \<mapsto> (NextSequence st name, filter (\<lambda>r. through < ev_Sequence r) (visible (ss_log st name)))) \<and>
    offsets_of st' = offsets_of st"
proof -
  define st1 where "st1 = touch_stream name st"
  note t1 = touch_ok [OF assms, of name, folded st1_def]
  define lg where "lg = ss_log st1 name"
  define n where "n = unat (NextSequence st1 name)"
  have lgs: "ss_log st name = lg" by (simp add: lg_def t1(5))
  have ok: "log_ok lg n" using t1(1) by (simp add: shape_ok_def lg_def n_def)
  show ?thesis
  proof (cases "lg_count lg = 0 \<or> through < lg_first lg")
    case True
    have "filter (\<lambda>r. through < ev_Sequence r) (visible lg) = visible lg"
    proof (cases "lg_tail lg")
      case None
      then show ?thesis by (simp add: visible_def)
    next
      case (Some t)
      then have "lg_count lg \<noteq> 0" using ok by (auto simp: log_ok_def log_shape_def)
      then have "unat through < unat (lg_first lg)" using True by (simp add: word_less_nat_alt)
      then show ?thesis using Some by (auto simp: visible_def word_less_nat_alt intro!: filter_cong)
    qed
    then show ?thesis using True t1 unfolding Trim_def Let_def st1_def [symmetric] lg_def [symmetric] lgs by simp
  next
    case False
    then obtain t where t: "lg_tail lg = Some t" using ok by (cases "lg_tail lg") (auto simp: log_ok_def zero_log_def)
    then have sh: "log_shape lg t n" using ok by (simp add: log_ok_def)
    define T where "T = min through (lg_first lg + lg_count lg - 1)"
    have "unat (lg_first lg + lg_count lg) = n" using sh by (auto simp: log_shape_def numbered_def unat_word_ariths)
    moreover have "0 < n" using sh by (simp add: log_shape_def)
    ultimately have last: "unat (lg_first lg + lg_count lg - 1) = n - 1" by (metis gr_implies_not0 unat_0 unat_minus_one)
    have fT: "lg_first lg \<le> T" using False sh last by (auto simp: T_def log_shape_def word_le_nat_alt not_less min_def)
    have Tn: "unat T < n" using last \<open>0 < n\<close> by (auto simp: T_def min_def word_le_nat_alt)
    have "\<forall>r \<in> set (visible lg). seqn r < n" using visible_drop(4) [OF sh] numbered_range by blast
    then have kept: "filter (\<lambda>r. unat T < seqn r) (visible lg) = filter (\<lambda>r. through < ev_Sequence r) (visible lg)"
      using last by (intro filter_cong) (auto simp: T_def min_def word_less_nat_alt word_le_nat_alt)
    obtain c d where cd: "log_chunk lg (lg_first lg) = Inr (Some c)" "log_chunk lg T = Inr (Some d)" and
      sums: "let start = streamChunkBytesThrough (Some c) (lg_first lg - 1); fin = streamChunkBytesThrough (Some d) T; gone = filter (\<lambda>r. seqn r \<le> unat T) (visible lg) in
       (fst start \<noteq> - 1 \<and> fst fin \<noteq> - 1 \<longrightarrow> unat (fst fin - fst start) = bytes_of gone) \<and> (snd start \<noteq> - 1 \<and> snd fin \<noteq> - 1 \<longrightarrow> unat (snd fin - snd start) = snapshot_of gone)"
      using trim_sums [OF sh fT Tn] by (auto simp: Let_def)
    define start where "start = streamChunkBytesThrough (Some c) (lg_first lg - 1)"
    define fin where "fin = streamChunkBytesThrough (Some d) T"
    define saturated where "saturated = trim_saturated st1 lg t start fin"
    have un: "unat (fst fin - fst start) = bytes_of (filter (\<lambda>r. seqn r \<le> unat T) (visible lg)) \<and> unat (snd fin - snd start) = snapshot_of (filter (\<lambda>r. seqn r \<le> unat T) (visible lg))"
      if "\<not> saturated" using trim_saturated_not [OF that [unfolded saturated_def]] sums by (simp add: Let_def start_def fin_def)
    obtain lg2 where lg2: "(let lg1 = trim_log saturated T (fst fin - fst start) (snd fin - snd start) lg in
        if lg_count lg1 \<noteq> 0 \<and> (saturated \<or> sc_bytes t - lg_bytes lg1 \<ge> lg_bytes lg1) then compact_log lg1 else Inr lg1) = Inr lg2"
      "log_ok lg2 n" "visible lg2 = filter (\<lambda>r. unat T < seqn r) (visible lg)"
      using trimmed_log_ok [OF ok t fT Tn, of saturated "fst fin - fst start" "snd fin - snd start"] un trim_saturated_not [of st1 lg t start fin] saturated_def by blast
    have neg: "(\<lambda>r. \<not> unat T < seqn r) = (\<lambda>r. seqn r \<le> unat T)" by auto
    have "\<exists>st'. (let st2 = (if saturated then st1 else st1\<lparr>ss_logicalBytes := ss_logicalBytes st1 - (fst fin - fst start), ss_snapshotBytes := ss_snapshotBytes st1 - (snd fin - snd start)\<rparr>);
        st3 = st2\<lparr>ss_streams := AList.update name lg2 (ss_streams st2)\<rparr> in
      if saturated
      then rbind (calculateStreamStoreBytes st3) (\<lambda>n. rbind (calculateStreamStoreSnapshotBytes (st3\<lparr>ss_logicalBytes := n\<rparr>)) (\<lambda>m.
             Inr (st3\<lparr>ss_logicalBytes := n, ss_snapshotBytes := m\<rparr>)))
      else Inr st3) = Inr st' \<and> shape_ok st' \<and> accounts_ok st' \<and>
      stream_view st' = (stream_view st1)(name \<mapsto> (NextSequence st1 name, visible lg2)) \<and> offsets_of st' = offsets_of st1"
      unfolding Let_def
    proof (rule replace_log_ok [OF t1(1,2,7), where P = "\<lambda>r. unat T < seqn r"])
      show "log_ok lg2 (unat (NextSequence st1 name))" using lg2(2) by (simp add: n_def)
      show "visible lg2 = filter (\<lambda>r. unat T < seqn r) (visible (ss_log st1 name))" using lg2(3) by (simp add: lg_def)
      show "ss_logicalBytes st1 \<noteq> - 1 \<and> ss_snapshotBytes st1 \<noteq> - 1 \<and> unat (fst fin - fst start) = bytes_of (filter (\<lambda>r. \<not> unat T < seqn r) (visible (ss_log st1 name))) \<and>
          unat (snd fin - snd start) = snapshot_of (filter (\<lambda>r. \<not> unat T < seqn r) (visible (ss_log st1 name)))" if ns: "\<not> saturated"
        using un [OF ns] trim_saturated_not [of st1 lg t start fin] ns saturated_def unfolding neg lg_def by blast
    qed
    moreover have "Trim name through st = (let st2 = (if saturated then st1 else st1\<lparr>ss_logicalBytes := ss_logicalBytes st1 - (fst fin - fst start), ss_snapshotBytes := ss_snapshotBytes st1 - (snd fin - snd start)\<rparr>);
        st3 = st2\<lparr>ss_streams := AList.update name lg2 (ss_streams st2)\<rparr> in
      if saturated
      then rbind (calculateStreamStoreBytes st3) (\<lambda>n. rbind (calculateStreamStoreSnapshotBytes (st3\<lparr>ss_logicalBytes := n\<rparr>)) (\<lambda>m.
             Inr (st3\<lparr>ss_logicalBytes := n, ss_snapshotBytes := m\<rparr>)))
      else Inr st3)"
      unfolding Trim_def Let_def st1_def [symmetric] lg_def [symmetric] T_def [symmetric] cd t rbind_simps option.case start_def [symmetric] fin_def [symmetric]
        saturated_def [symmetric] lg2(1) [unfolded Let_def] using False by simp
    ultimately show ?thesis using t1(3,4,6) lg2(3) kept lgs by auto
  qed
qed

section \<open>Trimming to a size\<close>

text \<open>The longest prefix of records within a number of bytes, and the longest run of newest records within it.\<close>

fun prefix_within :: "nat \<Rightarrow> StreamRecord list \<Rightarrow> StreamRecord list" where
  "prefix_within budget [] = []"
| "prefix_within budget (r # rs) =
     (if unat (streamRecordBytes r) > budget then [] else r # prefix_within (budget - unat (streamRecordBytes r)) rs)"

definition keep_newest :: "nat \<Rightarrow> StreamRecord list \<Rightarrow> StreamRecord list" where
  "keep_newest budget rs = rev (prefix_within budget (rev rs))"

lemma trim_chunk_append: "trim_chunk target first (xs @ ys) acc = (case trim_chunk target first xs acc of Inl s \<Rightarrow> Inl s | Inr acc1 \<Rightarrow> trim_chunk target first ys acc1)"
  by (induction target first xs acc rule: trim_chunk.induct) auto

lemma trim_chunk_skip: "\<forall>r \<in> set rs. ev_Sequence r < first \<Longrightarrow> trim_chunk target first rs acc = Inr acc"
proof (induction rs arbitrary: acc)
  case Nil
  show ?case by (cases acc) simp
next
  case (Cons r rs)
  then show ?case by (cases acc) simp
qed

lemma trim_chunk_visible: "trim_chunk target first rs acc = trim_chunk target first (filter (\<lambda>r. first \<le> ev_Sequence r) rs) acc"
proof (induction rs arbitrary: acc)
  case (Cons r rs)
  obtain a b where acc: "acc = (a, b)" by (cases acc)
  show ?case
  proof (cases "first \<le> ev_Sequence r")
    case True
    then have "\<not> ev_Sequence r < first" by simp
    then show ?thesis using True by (simp add: acc) (simp only: Cons.IH [symmetric] simp_thms)
  next
    case False
    then show ?thesis by (simp add: acc not_le) (simp only: Cons.IH [symmetric])
  qed
qed simp

lemma trim_chunks_eq:
  assumes "chain_ok c" "numbered (recs c) n"
  shows "trim_chunks target first (Some c) acc = Inr (trim_chunk target first (rev (recs c)) acc)"
  using assms
proof (induction c arbitrary: n acc rule: chain.induct)
  case (1 sk rs b sb)
  let ?c = "Chunk None sk rs b sb"
  have ne: "sc_records ?c \<noteq> []" using chain_ok_self [OF 1(1)] by blast
  have "trim_chunk target first (rev (recs ?c)) acc = Inr acc" if "\<not> first \<le> last_seq ?c"
    using that chunk_bounds(1) [OF ne 1(2)] numbered_range [OF 1(2)] by (intro trim_chunk_skip) (fastforce simp: word_less_nat_alt word_le_nat_alt)
  then show ?case using ne by (auto simp: chunk_last_def last_seq_def recs_simp [of ?c] split: sum.split)
next
  case (2 p sk rs b sb)
  let ?c = "Chunk (Some p) sk rs b sb"
  have ne: "sc_records ?c \<noteq> []" using chain_ok_self [OF 2(2)] by blast
  have p: "chain_ok p" "numbered (recs p) (unat (head_seq ?c))"
    using chain_ok_previous [OF 2(2)] numbered_previous [OF ne 2(3)] by auto
  have "trim_chunk target first (rev (recs ?c)) acc = Inr acc" if "\<not> first \<le> last_seq ?c"
    using that chunk_bounds(1) [OF ne 2(3)] numbered_range [OF 2(3)] by (intro trim_chunk_skip) (fastforce simp: word_less_nat_alt word_le_nat_alt)
  then show ?case using ne 2(1) [OF p] by (auto simp: chunk_last_def last_seq_def recs_simp [of ?c] trim_chunk_append split: sum.split)
qed

lemma trim_chunk_newest:
  assumes "\<forall>r \<in> set rs. first \<le> ev_Sequence r" "unat retained \<le> unat target" "unat target < 2 ^ 63" "prefix_within (unat target - unat retained) rs \<noteq> rs"
  shows "\<exists>k < length rs. prefix_within (unat target - unat retained) rs = take k rs \<and> trim_chunk target first rs (retained, through) = Inl (ev_Sequence (rs ! k))"
  using assms
proof (induction rs arbitrary: retained through)
  case (Cons r rs)
  let ?b = "streamRecordBytes r"
  have f: "\<not> ev_Sequence r < first" using Cons.prems(1) by (simp add: not_less)
  have gt: "(snapshotAdd retained ?b > target) = (unat ?b > unat target - unat retained)"
    using Cons.prems(2,3) by (auto simp: word_less_nat_alt unat_snapshotAdd sat_def)
  show ?case
  proof (cases "unat ?b > unat target - unat retained")
    case True
    then show ?thesis using f gt by (intro exI [of _ 0]) simp
  next
    case False
    have u: "unat (snapshotAdd retained ?b) = unat retained + unat ?b"
      using False Cons.prems(2,3) by (simp add: unat_snapshotAdd sat_def)
    have d: "unat target - unat (snapshotAdd retained ?b) = unat target - unat retained - unat ?b" by (simp add: u)
    have "\<exists>k < length rs. prefix_within (unat target - unat (snapshotAdd retained ?b)) rs = take k rs \<and>
        trim_chunk target first rs (snapshotAdd retained ?b, ev_Sequence r - 1) = Inl (ev_Sequence (rs ! k))"
      using Cons.prems False u d by (intro Cons.IH) auto
    then obtain k where "k < length rs" "prefix_within (unat target - unat retained - unat ?b) rs = take k rs"
        "trim_chunk target first rs (snapshotAdd retained ?b, ev_Sequence r - 1) = Inl (ev_Sequence (rs ! k))" unfolding d by blast
    then show ?thesis using f gt False by (intro exI [of _ "Suc k"]) simp
  qed
qed simp

lemma prefix_within_bytes: "bytes_of (prefix_within budget rs) \<le> budget" "prefix_within budget rs = rs \<Longrightarrow> bytes_of rs \<le> budget"
proof -
  show b: "bytes_of (prefix_within budget rs) \<le> budget" for budget rs by (induction budget rs rule: prefix_within.induct) (auto simp: bytes_of_def)
  show "prefix_within budget rs = rs \<Longrightarrow> bytes_of rs \<le> budget" using b by metis
qed

lemma keep_newest_eq:
  assumes "numbered V n" "k < length V" "prefix_within budget (rev V) = take k (rev V)"
  shows "filter (\<lambda>r. ev_Sequence (rev V ! k) < ev_Sequence r) V = keep_newest budget V"
proof -
  have len: "length V < n" using assms(1) by (simp add: numbered_def)
  have "seqn (rev V ! k) = n - length V + (length V - Suc k)"
    unfolding rev_nth [OF assms(2)] by (rule numbered_nth [OF assms(1)]) (use assms(2) in simp)
  then have s: "seqn (rev V ! k) < m \<longleftrightarrow> n - k \<le> m" for m using len assms(2) by auto
  have "filter (\<lambda>r. n - k \<le> seqn r) V = drop (n - k - (n - length V)) V"
    by (rule numbered_filter(1) [OF assms(1)]) (use assms(2) in simp_all)
  also have "\<dots> = rev (take k (rev V))" using len assms(2) by (simp add: rev_take)
  finally show ?thesis unfolding keep_newest_def assms(3) by (simp add: word_less_nat_alt s)
qed

lemma TrimToBytes_ok:
  fixes name :: string and maxBytes :: u64 and st :: StreamStore
  assumes "shape_ok st" "accounts_ok st"
  defines "V \<equiv> visible (ss_log st name)"
  shows "\<exists>through trimmed st'. TrimToBytes name maxBytes st = Inr ((through, trimmed), st') \<and> shape_ok st' \<and> accounts_ok st' \<and> offsets_of st' = offsets_of st \<and>
    trimmed = (sat (bytes_of V) > unat maxBytes) \<and>
    stream_view st' = (if trimmed then (stream_view st)(name \<mapsto> (NextSequence st name, keep_newest (unat maxBytes div 2) V)) else stream_view st)"
proof -
  define lg where "lg = ss_log st name"
  define n where "n = unat (NextSequence st name)"
  have ok: "log_ok lg n" using assms(1) by (simp add: shape_ok_def lg_def n_def)
  have V: "V = visible lg" by (simp add: V_def lg_def)
  have le: "(lg_bytes lg \<le> maxBytes \<or> lg_count lg = 0) = (sat (bytes_of V) \<le> unat maxBytes)"
  proof (cases "lg_tail lg")
    case None
    then show ?thesis using ok V by (simp add: log_ok_def zero_log_def visible_def bytes_of_def sat_def)
  next
    case (Some t)
    then have "lg_count lg \<noteq> 0" "unat (lg_bytes lg) = sat (bytes_of V)" using ok V by (auto simp: log_ok_def log_shape_def)
    then show ?thesis by (simp add: word_le_nat_alt)
  qed
  show ?thesis
  proof (cases "lg_bytes lg \<le> maxBytes \<or> lg_count lg = 0")
    case True
    then have "TrimToBytes name maxBytes st = Inr ((0, False), st)" unfolding TrimToBytes_def Let_def lg_def [symmetric] by simp
    moreover have "sat (bytes_of V) \<le> unat maxBytes" using True le by blast
    ultimately show ?thesis using assms(1,2) by (intro exI [of _ 0] exI [of _ False] exI [of _ st]) simp
  next
    case False
    then obtain t where t: "lg_tail lg = Some t" using ok by (cases "lg_tail lg") (auto simp: log_ok_def zero_log_def)
    then have sh: "log_shape lg t n" using ok by (simp add: log_ok_def)
    let ?h = "maxBytes div 2"
    have h: "unat ?h = unat maxBytes div 2" by (simp add: unat_div)
    have hb: "unat ?h < 2 ^ 63" using unat_bounds(1) [of maxBytes] by (simp add: h)
    have big: "sat (bytes_of V) > unat maxBytes" using False le by simp
    then have "bytes_of V > unat ?h" unfolding h sat_def by (auto split: if_splits)
    then have "bytes_of (rev V) > unat ?h" by (simp add: bytes_of_def rev_map [symmetric])
    then have ne: "prefix_within (unat ?h - unat (0 :: u64)) (rev V) \<noteq> rev V" using prefix_within_bytes(2) [of "unat ?h" "rev V"] by auto
    have fV: "\<forall>r \<in> set (rev V). lg_first lg \<le> ev_Sequence r" using t by (simp add: V visible_def word_le_nat_alt)
    obtain k where k: "k < length (rev V)" "prefix_within (unat ?h - unat (0 :: u64)) (rev V) = take k (rev V)"
        "trim_chunk ?h (lg_first lg) (rev V) (0, lg_first lg - 1) = Inl (ev_Sequence (rev V ! k))"
      using trim_chunk_newest [OF fV _ hb ne, of "lg_first lg - 1"] by auto
    have flt: "filter (\<lambda>r. lg_first lg \<le> ev_Sequence r) (rev (recs t)) = rev V" using t by (simp add: V visible_def rev_filter [symmetric] word_le_nat_alt)
    have "trim_chunks ?h (lg_first lg) (Some t) (0, lg_first lg - 1) = Inr (trim_chunk ?h (lg_first lg) (rev (recs t)) (0, lg_first lg - 1))"
      using sh by (intro trim_chunks_eq [of t n]) (auto simp: log_shape_def)
    also have "\<dots> = Inr (Inl (ev_Sequence (rev V ! k)))" using k(3) trim_chunk_visible [of ?h "lg_first lg" "rev (recs t)"] by (simp add: flt)
    finally have run: "trim_chunks ?h (lg_first lg) (lg_tail lg) (0, lg_first lg - 1) = Inr (Inl (ev_Sequence (rev V ! k)))" using t by simp
    have "numbered V n" using visible_drop(4) [OF sh] by (simp add: V)
    then have keep: "filter (\<lambda>r. ev_Sequence (rev V ! k) < ev_Sequence r) V = keep_newest (unat maxBytes div 2) V"
      using k(1,2) by (intro keep_newest_eq) (simp_all add: h)
    obtain st' where "Trim name (ev_Sequence (rev V ! k)) st = Inr st'" "shape_ok st'" "accounts_ok st'" "offsets_of st' = offsets_of st"
        "stream_view st' = (stream_view st)(name \<mapsto> (NextSequence st name, keep_newest (unat maxBytes div 2) V))"
      using Trim_ok [OF assms(1,2), of name "ev_Sequence (rev V ! k)"] keep V_def by auto
    moreover have "TrimToBytes name maxBytes st = rbind (Trim name (ev_Sequence (rev V ! k)) st) (\<lambda>st1. Inr ((ev_Sequence (rev V ! k), True), st1))"
      using False run unfolding TrimToBytes_def Let_def lg_def [symmetric] by simp
    ultimately show ?thesis using big by (intro exI [of _ "ev_Sequence (rev V ! k)"] exI [of _ True] exI [of _ st']) simp
  qed
qed

end
