(* ===== verification/StreamRuns.thy ===== *)
theory StreamRuns
  imports StreamLaws
begin

text \<open>
  The contract of a stream store. A store stands for a partial map from stream names to the next sequence and the records a
  reader sees, and for the offsets of the consumers; the operations are specified on these, and the model of \<^verbatim>\<open>StreamStore\<close>
  implements them on every sequence of calls, with both byte accounts equal to the totals of what the store shows.
\<close>

section \<open>Specification\<close>

record stream_spec =
  sp_streams :: "string \<rightharpoonup> u64 \<times> StreamRecord list"
  sp_offsets :: "string \<Rightarrow> string \<rightharpoonup> u64"

definition sp_empty :: stream_spec where
  "sp_empty = \<lparr>sp_streams = Map.empty, sp_offsets = (\<lambda>_. Map.empty)\<rparr>"

definition sp_stream :: "stream_spec \<Rightarrow> string \<Rightarrow> u64 \<times> StreamRecord list" where
  "sp_stream sp name = (case sp_streams sp name of None \<Rightarrow> (1, []) | Some s \<Rightarrow> s)"

definition sp_put :: "string \<Rightarrow> u64 \<times> StreamRecord list \<Rightarrow> stream_spec \<Rightarrow> stream_spec" where
  "sp_put name s sp = sp\<lparr>sp_streams := (sp_streams sp)(name \<mapsto> s)\<rparr>"

definition sp_publish :: "string \<Rightarrow> string \<Rightarrow> gvalue \<Rightarrow> stream_spec \<Rightarrow> stream_spec" where
  "sp_publish name kind payload sp = (case sp_stream sp name of (n, rs) \<Rightarrow>
     sp_put name (n + 1, rs @ [\<lparr>ev_Sequence = n, ev_Kind = kind, ev_Payload = CloneValue payload\<rparr>]) sp)"

definition sp_offset :: "string \<Rightarrow> string \<Rightarrow> u64 \<Rightarrow> stream_spec \<Rightarrow> stream_spec" where
  "sp_offset name consumer sequence sp =
     sp_put name (sp_stream sp name) (sp\<lparr>sp_offsets := (sp_offsets sp)(name := (sp_offsets sp name)(consumer \<mapsto> sequence))\<rparr>)"

definition sp_trim :: "string \<Rightarrow> u64 \<Rightarrow> stream_spec \<Rightarrow> stream_spec" where
  "sp_trim name through sp = (case sp_stream sp name of (n, rs) \<Rightarrow> sp_put name (n, filter (\<lambda>r. through < ev_Sequence r) rs) sp)"

text \<open>A stream that has outgrown its limit is cut to the newest records that fit half of it.\<close>

definition sp_trim_bytes :: "string \<Rightarrow> u64 \<Rightarrow> stream_spec \<Rightarrow> stream_spec" where
  "sp_trim_bytes name limit sp = (case sp_stream sp name of (n, rs) \<Rightarrow>
     if sat (bytes_of rs) > unat limit then sp_put name (n, keep_newest (unat limit div 2) rs) sp else sp)"

text \<open>What a store of this content accounts for.\<close>

definition sp_weight :: "(string \<Rightarrow> u64) \<Rightarrow> (StreamRecord \<Rightarrow> u64) \<Rightarrow> (string \<Rightarrow> string \<Rightarrow> u64) \<Rightarrow> stream_spec \<Rightarrow> nat" where
  "sp_weight ps pr po sp =
     (\<Sum>name \<in> dom (sp_streams sp). unat (ps name) + (\<Sum>r\<leftarrow>snd (sp_stream sp name). unat (pr r))) +
     (\<Sum>name \<in> {name. sp_offsets sp name \<noteq> Map.empty}. \<Sum>consumer \<in> dom (sp_offsets sp name). unat (po name consumer))"

section \<open>The contract\<close>

text \<open>The calls a store takes. The engine refuses to publish once the sequences of a stream are used up.\<close>

datatype stream_call =
    Publishing string string gvalue
  | SettingOffset string string u64
  | Trimming string u64
  | TrimmingToBytes string u64

fun sp_call :: "stream_call \<Rightarrow> stream_spec \<Rightarrow> stream_spec" where
  "sp_call (Publishing name kind payload) sp = (if fst (sp_stream sp name) = - 1 then sp else sp_publish name kind payload sp)"
| "sp_call (SettingOffset name consumer sequence) sp = sp_offset name consumer sequence sp"
| "sp_call (Trimming name through) sp = sp_trim name through sp"
| "sp_call (TrimmingToBytes name limit) sp = sp_trim_bytes name limit sp"

locale stream_operations =
  fixes valid :: "'s \<Rightarrow> bool" and abs :: "'s \<Rightarrow> stream_spec"
    and next_sequence :: "'s \<Rightarrow> string \<Rightarrow> u64"
    and publish :: "string \<Rightarrow> string \<Rightarrow> gvalue \<Rightarrow> 's \<Rightarrow> u64 \<times> 's"
    and set_offset :: "string \<Rightarrow> string \<Rightarrow> u64 \<Rightarrow> 's \<Rightarrow> 's"
    and trim :: "string \<Rightarrow> u64 \<Rightarrow> 's \<Rightarrow> gerr + 's"
    and trim_to_bytes :: "string \<Rightarrow> u64 \<Rightarrow> 's \<Rightarrow> gerr + (u64 \<times> bool) \<times> 's"
  assumes next_law: "valid s \<Longrightarrow> next_sequence s name = fst (sp_stream (abs s) name)"
    and publish_law: "valid s \<Longrightarrow> next_sequence s name \<noteq> - 1 \<Longrightarrow>
      fst (publish name kind payload s) = next_sequence s name \<and> valid (snd (publish name kind payload s)) \<and>
      abs (snd (publish name kind payload s)) = sp_publish name kind payload (abs s)"
    and offset_law: "valid s \<Longrightarrow> valid (set_offset name consumer sequence s) \<and> abs (set_offset name consumer sequence s) = sp_offset name consumer sequence (abs s)"
    and trim_law: "valid s \<Longrightarrow> \<exists>s'. trim name through s = Inr s' \<and> valid s' \<and> abs s' = sp_trim name through (abs s)"
    and trim_bytes_law: "valid s \<Longrightarrow> \<exists>res s'. trim_to_bytes name limit s = Inr (res, s') \<and> valid s' \<and> abs s' = sp_trim_bytes name limit (abs s)"
begin

fun call :: "stream_call \<Rightarrow> 's \<Rightarrow> gerr + 's" where
  "call (Publishing name kind payload) s = Inr (if next_sequence s name = - 1 then s else snd (publish name kind payload s))"
| "call (SettingOffset name consumer sequence) s = Inr (set_offset name consumer sequence s)"
| "call (Trimming name through) s = trim name through s"
| "call (TrimmingToBytes name limit) s = rbind (trim_to_bytes name limit s) (\<lambda>(_, s'). Inr s')"

lemma call_ok: "valid s \<Longrightarrow> \<exists>s'. call act s = Inr s' \<and> valid s' \<and> abs s' = sp_call act (abs s)"
proof (cases act)
  case (Publishing name kind payload)
  assume "valid s"
  then show ?thesis using Publishing publish_law [of s name kind payload] next_law [of s name] by simp
next
  case (SettingOffset name consumer sequence)
  assume "valid s"
  then show ?thesis using SettingOffset offset_law by simp
next
  case (Trimming name through)
  assume "valid s"
  then show ?thesis using Trimming trim_law by simp
next
  case (TrimmingToBytes name limit)
  assume "valid s"
  then obtain res s' where "trim_to_bytes name limit s = Inr (res, s')" "valid s'" "abs s' = sp_trim_bytes name limit (abs s)"
    using trim_bytes_law by blast
  then show ?thesis using TrimmingToBytes by (simp add: rbind_def)
qed

lemma calls_ok: "valid s \<Longrightarrow> \<exists>s'. fold_ok call acts s = Inr s' \<and> valid s' \<and> abs s' = fold sp_call acts (abs s)"
proof (induction acts arbitrary: s)
  case (Cons act acts)
  obtain s1 where s1: "call act s = Inr s1" "valid s1" "abs s1 = sp_call act (abs s)" using call_ok Cons.prems by blast
  then obtain s2 where "fold_ok call acts s1 = Inr s2" "valid s2" "abs s2 = fold sp_call acts (abs s1)" using Cons.IH by blast
  with s1 show ?case by (auto simp: rbind_def)
qed simp

end

section \<open>The model implements it\<close>

definition stream_valid :: "StreamStore \<Rightarrow> bool" where
  "stream_valid st \<longleftrightarrow> shape_ok st \<and> accounts_ok st"

definition stream_abs :: "StreamStore \<Rightarrow> stream_spec" where
  "stream_abs st = \<lparr>sp_streams = stream_view st, sp_offsets = (\<lambda>name. map_of (offsets_of st name))\<rparr>"

lemma sp_stream_abs: "shape_ok st \<Longrightarrow> sp_stream (stream_abs st) name = (NextSequence st name, visible (ss_log st name))"
  using log_view [of st name] by (auto simp: sp_stream_def stream_abs_def next_view split: option.splits)

interpretation ss: stream_operations stream_valid stream_abs NextSequence Publish SetOffset Trim TrimToBytes
proof unfold_locales
  fix st :: StreamStore and name kind consumer :: string and payload :: gvalue and sequence through limit :: u64
  assume ok: "stream_valid st"
  then have v: "shape_ok st" "accounts_ok st" by (simp_all add: stream_valid_def)
  note s = sp_stream_abs [OF v(1)]
  show "NextSequence st name = fst (sp_stream (stream_abs st) name)" by (simp add: s)
  show "fst (Publish name kind payload st) = NextSequence st name \<and> stream_valid (snd (Publish name kind payload st)) \<and>
      stream_abs (snd (Publish name kind payload st)) = sp_publish name kind payload (stream_abs st)" if "NextSequence st name \<noteq> - 1"
    using Publish_ok [OF v that, of kind payload] by (simp add: stream_valid_def sp_publish_def s sp_put_def) (simp add: stream_abs_def)
  show "stream_valid (SetOffset name consumer sequence st) \<and> stream_abs (SetOffset name consumer sequence st) = sp_offset name consumer sequence (stream_abs st)"
    using SetOffset_ok [OF v, of name consumer sequence] by (simp add: stream_valid_def sp_offset_def s sp_put_def) (simp add: stream_abs_def fun_eq_iff)
  show "\<exists>st'. Trim name through st = Inr st' \<and> stream_valid st' \<and> stream_abs st' = sp_trim name through (stream_abs st)"
    using Trim_ok [OF v, of name through] by (auto simp: stream_valid_def sp_trim_def s sp_put_def) (auto simp: stream_abs_def)
  show "\<exists>res st'. TrimToBytes name limit st = Inr (res, st') \<and> stream_valid st' \<and> stream_abs st' = sp_trim_bytes name limit (stream_abs st)"
    using TrimToBytes_ok [OF v, of name limit] unfolding sp_trim_bytes_def s sp_put_def stream_valid_def by (auto simp: stream_abs_def split: if_splits)
qed

lemma empty_valid: "stream_valid NewStreamStore" "stream_abs NewStreamStore = sp_empty"
proof -
  have log: "ss_log NewStreamStore = (\<lambda>_. zero_log)" "offsets_of NewStreamStore = (\<lambda>_. [])" "next_of NewStreamStore = (\<lambda>_. 0)"
    by (simp_all add: fun_eq_iff ss_log_def offsets_of_def next_of_def NewStreamStore_def)
  have "log_ok zero_log 1" by (simp add: log_ok_def zero_log_def)
  then show "stream_valid NewStreamStore" unfolding stream_valid_def shape_ok_def accounts_ok_def store_weight_def log NextSequence_def
    by (simp add: NewStreamStore_def sat_def)
  show "stream_abs NewStreamStore = sp_empty" by (simp add: stream_abs_def sp_empty_def fun_eq_iff stream_view_def log)
qed

lemma weight_abs:
  assumes "shape_ok st"
  shows "store_weight ps pr po st = sp_weight ps pr po (stream_abs st)"
proof -
  have d: "dom (stream_view st) = dom (map_of (ss_next st))" using next_of_some [OF assms] by (auto simp: stream_view_def domIff split: if_splits)
  have o: "(\<Sum>name \<in> dom (map_of (ss_offsets st)). \<Sum>c \<in> dom (map_of (offsets_of st name)). unat (po name c)) =
      (\<Sum>name \<in> {name. map_of (offsets_of st name) \<noteq> Map.empty}. \<Sum>c \<in> dom (map_of (offsets_of st name)). unat (po name c))"
    by (intro sum.mono_neutral_right finite_dom_map_of) (auto simp: offsets_of_def split: option.splits)
  show ?thesis unfolding store_weight_def sp_weight_def sp_stream_abs [OF assms] using d o by (simp add: stream_abs_def)
qed

section \<open>Properties\<close>

fun store_call :: "stream_call \<Rightarrow> StreamStore \<Rightarrow> gerr + StreamStore" where
  "store_call (Publishing name kind payload) st = Inr (if NextSequence st name = - 1 then st else snd (Publish name kind payload st))"
| "store_call (SettingOffset name consumer sequence) st = Inr (SetOffset name consumer sequence st)"
| "store_call (Trimming name through) st = Trim name through st"
| "store_call (TrimmingToBytes name limit) st = rbind (TrimToBytes name limit st) (\<lambda>(_, st'). Inr st')"

lemma store_call_eq: "store_call = ss.call"
proof (intro ext)
  show "store_call act st = ss.call act st" for act st by (cases act) simp_all
qed

text \<open>
  C2. Every sequence of publications, offsets and trims on a new stream store runs without a panic, shows exactly the streams, records and
  offsets of the specification, keeps both byte accounts equal to the saturated totals of what it shows and to what a recount gives, and
  never holds more bytes in records hidden by a trim than in visible ones.
\<close>
theorem streams_refine:
  "\<exists>st. fold_ok store_call acts NewStreamStore = Inr st \<and>
     stream_abs st = fold sp_call acts sp_empty \<and>
     unat (ss_logicalBytes st) = sat (sp_weight stream_bytes streamRecordBytes offset_bytes (stream_abs st)) \<and>
     unat (ss_snapshotBytes st) = sat (sp_weight streamSnapshotBytes streamRecordSnapshotBytes streamOffsetSnapshotBytes (stream_abs st)) \<and>
     calculateStreamStoreBytes st = Inr (ss_logicalBytes st) \<and> calculateStreamStoreSnapshotBytes st = Inr (ss_snapshotBytes st) \<and>
     (\<forall>name. bytes_of (opt_recs (lg_tail (ss_log st name))) \<le> 2 * bytes_of (snd (sp_stream (stream_abs st) name)))"
proof -
  obtain st where st: "fold_ok store_call acts NewStreamStore = Inr st" "stream_valid st" "stream_abs st = fold sp_call acts sp_empty"
    using ss.calls_ok [OF empty_valid(1), of acts] unfolding store_call_eq empty_valid(2) by blast
  then have v: "shape_ok st" "accounts_ok st" by (simp_all add: stream_valid_def)
  have hidden: "bytes_of (opt_recs (lg_tail (ss_log st name))) \<le> 2 * bytes_of (snd (sp_stream (stream_abs st) name))" for name
  proof -
    have "log_ok (ss_log st name) (unat (NextSequence st name))" using v(1) by (simp add: shape_ok_def)
    then show ?thesis unfolding sp_stream_abs [OF v(1)] by (auto simp: log_ok_def opt_recs_def bytes_of_def split: option.splits)
  qed
  have "calculateStreamStoreBytes st = Inr (ss_logicalBytes st)" "calculateStreamStoreSnapshotBytes st = Inr (ss_snapshotBytes st)"
    using calculate_ok [OF v(1)] v(2) unfolding accounts_ok_def by (metis word_unat_eq_iff)+
  then show ?thesis using st v(2) hidden weight_abs [OF v(1)] unfolding accounts_ok_def by (intro exI [of _ st]) simp
qed

end
