(* ===== verification/StreamReads.thy ===== *)
theory StreamReads
  imports StreamRuns
begin

text \<open>
  Reading a stream. The search for the chunk of the last sequence, the slice of one chunk, the walk over several and the bound on the
  number of records taken from the byte limit together return what the reference reads from the list of visible records.
\<close>

section \<open>The loop over records\<close>

definition clone_record :: "StreamRecord \<Rightarrow> StreamRecord" where
  "clone_record r = r\<lparr>ev_Payload := CloneValue (ev_Payload r)\<rparr>"

definition within_limit :: "u64 \<Rightarrow> u64 \<Rightarrow> StreamRecord list \<Rightarrow> StreamRecord list" where
  "within_limit maxBytes used rs = (if maxBytes = 0 then rs else prefix_within (unat maxBytes - unat used) rs)"

definition read_result :: "StreamRecord list \<Rightarrow> bool \<Rightarrow> StreamReadResult \<Rightarrow> StreamReadResult" where
  "read_result got limited result = result\<lparr>rd_Records := rd_Records result @ map clone_record got,
     rd_LastSequence := (if got = [] then rd_LastSequence result else ev_Sequence (last got)),
     rd_ByteLimited := limited, rd_bytes := fold (\<lambda>r b. snapshotAdd b (streamRecordBytes r)) got (rd_bytes result)\<rparr>"

lemma append_settles:
  assumes "maxBytes \<noteq> 0 \<longrightarrow> rd_bytes result \<le> maxBytes"
  shows "settles ctx (appendCtx ctx r maxBytes result)
    (if maxBytes \<noteq> 0 \<and> unat maxBytes - unat (rd_bytes result) < unat (streamRecordBytes r) then result\<lparr>rd_ByteLimited := True\<rparr>
     else result\<lparr>rd_Records := rd_Records result @ [clone_record r], rd_LastSequence := ev_Sequence r,
       rd_bytes := snapshotAdd (rd_bytes result) (streamRecordBytes r)\<rparr>)"
proof -
  let ?b = "streamRecordBytes r"
  have c: "(maxBytes \<noteq> 0 \<and> (?b > maxBytes \<or> rd_bytes result > maxBytes - ?b)) = (maxBytes \<noteq> 0 \<and> unat maxBytes - unat (rd_bytes result) < unat ?b)"
  proof (cases "?b > maxBytes")
    case False
    then have "unat (maxBytes - ?b) = unat maxBytes - unat ?b" by (intro unat_sub) simp
    then show ?thesis using False assms by (auto simp: word_less_nat_alt word_le_nat_alt not_less)
  qed (use assms in \<open>auto simp: word_less_nat_alt word_le_nat_alt\<close>)
  show ?thesis unfolding appendCtx_def Let_def
  proof (rule settles_bind [OF settles_estimate], fold streamRecordBytes_def, unfold c)
    show "settles ctx (if maxBytes \<noteq> 0 \<and> unat maxBytes - unat (rd_bytes result) < unat ?b then ret (result\<lparr>rd_ByteLimited := True\<rparr>)
       else bindp (CloneValueContext ctx (ev_Payload r)) (\<lambda>cloned.
         ret (result\<lparr>rd_Records := rd_Records result @ [r\<lparr>ev_Payload := cloned\<rparr>], rd_LastSequence := ev_Sequence r, rd_bytes := snapshotAdd (rd_bytes result) ?b\<rparr>)))
     (if maxBytes \<noteq> 0 \<and> unat maxBytes - unat (rd_bytes result) < unat ?b then result\<lparr>rd_ByteLimited := True\<rparr>
      else result\<lparr>rd_Records := rd_Records result @ [clone_record r], rd_LastSequence := ev_Sequence r, rd_bytes := snapshotAdd (rd_bytes result) ?b\<rparr>)"
      by (auto simp: clone_record_def intro!: settles_bind [OF settles_clone] settle)
  qed
qed

lemma records_settle:
  assumes "maxBytes \<noteq> 0 \<longrightarrow> rd_bytes result \<le> maxBytes" "\<not> rd_ByteLimited result"
  shows "settles ctx (append_records ctx maxBytes rs result)
    (read_result (within_limit maxBytes (rd_bytes result) rs) (within_limit maxBytes (rd_bytes result) rs \<noteq> rs) result)"
  using assms
proof (induction rs arbitrary: result)
  case Nil
  then have "read_result (within_limit maxBytes (rd_bytes result) []) False result = result" by (cases result) (simp add: read_result_def within_limit_def)
  moreover have "within_limit maxBytes (rd_bytes result) [] = []" by (simp add: within_limit_def)
  ultimately show ?case by (simp add: settle)
next
  case (Cons r rs)
  let ?b = "streamRecordBytes r"
  note step = append_settles [OF Cons.prems(1), of ctx r]
  show ?case
  proof (cases "maxBytes \<noteq> 0 \<and> unat maxBytes - unat (rd_bytes result) < unat ?b")
    case True
    then show ?thesis using step by (auto simp: read_result_def within_limit_def intro!: settles_bind settle)
  next
    case False
    let ?res = "result\<lparr>rd_Records := rd_Records result @ [clone_record r], rd_LastSequence := ev_Sequence r, rd_bytes := snapshotAdd (rd_bytes result) ?b\<rparr>"
    have u: "unat (snapshotAdd (rd_bytes result) ?b) = unat (rd_bytes result) + unat ?b" if "maxBytes \<noteq> 0"
      using that False Cons.prems(1) unat_bounds(1) [of maxBytes] by (auto simp: unat_snapshotAdd sat_def word_le_nat_alt)
    have le: "maxBytes \<noteq> 0 \<longrightarrow> rd_bytes ?res \<le> maxBytes" using u False Cons.prems(1) by (auto simp: word_le_nat_alt)
    have w: "within_limit maxBytes (rd_bytes result) (r # rs) = r # within_limit maxBytes (rd_bytes ?res) rs"
      using False u by (auto simp: within_limit_def diff_diff_left)
    have rest: "settles ctx (append_records ctx maxBytes rs ?res)
        (read_result (within_limit maxBytes (rd_bytes ?res) rs) (within_limit maxBytes (rd_bytes ?res) rs \<noteq> rs) ?res)"
      by (rule Cons.IH [OF le]) (use Cons.prems(2) in simp)
    have eq: "read_result (r # got) l result = read_result got l ?res" for got l by (simp add: read_result_def)
    show ?thesis unfolding w append_records.simps list.inject simp_thms eq
    proof (rule settles_bind)
      show "settles ctx (appendCtx ctx r maxBytes result) ?res" using step False by simp
    qed (use rest Cons.prems(2) in simp)
  qed
qed

section \<open>The number of records taken\<close>

lemma prefix_within_append: "prefix_within b xs \<noteq> xs \<Longrightarrow> prefix_within b (xs @ ys) = prefix_within b xs"
  by (induction b xs rule: prefix_within.induct) auto

lemma prefix_within_length: "length (prefix_within b xs) \<le> length xs"
  by (induction b xs rule: prefix_within.induct) auto

lemma bytes_of_least: "\<forall>r \<in> set rs. 48 \<le> unat (streamRecordBytes r) \<Longrightarrow> 48 * length rs \<le> bytes_of rs"
  by (induction rs) (auto simp: bytes_of_def)

lemma record_least: "length (ev_Kind r) \<le> 255 \<Longrightarrow> 48 \<le> unat (streamRecordBytes r)"
proof -
  assume "length (ev_Kind r) \<le> 255"
  then have "unat (word_of_nat (length (ev_Kind r)) + 48 :: u64) = length (ev_Kind r) + 48" by (simp add: unat_word_ariths unat_of_nat)
  then show ?thesis by (simp add: streamRecordBytes_def unat_snapshotAdd sat_def)
qed

text \<open>A record takes at least 48 bytes, so one more than fit ends the read early and the same records are returned.\<close>

lemma within_limit_take:
  assumes "\<forall>r \<in> set W. 48 \<le> unat (streamRecordBytes r)" "maxBytes \<noteq> 0" "unat maxBytes div 48 < m" "m \<le> length W"
  defines "k \<equiv> unat maxBytes div 48 + 1"
  shows "within_limit maxBytes 0 (take k W) = within_limit maxBytes 0 (take m W)"
    "within_limit maxBytes 0 (take k W) \<noteq> take k W" "within_limit maxBytes 0 (take m W) \<noteq> take m W"
proof -
  have k: "k \<le> m" using assms(3) by (simp add: k_def)
  have "48 * k \<le> bytes_of (take k W)" using bytes_of_least [of "take k W"] assms(1,4) k by (auto dest: in_set_takeD)
  moreover have "unat maxBytes < 48 * k" unfolding k_def using div_less_iff_less_mult [of 48 "unat maxBytes" "unat maxBytes div 48 + 1"] by (simp add: mult.commute)
  ultimately have "unat maxBytes < bytes_of (take k W)" by linarith
  then have ne: "prefix_within (unat maxBytes) (take k W) \<noteq> take k W" using prefix_within_bytes(2) [of "unat maxBytes" "take k W"] by auto
  have "take m W = take k W @ take (m - k) (drop k W)" using k take_add [of k "m - k" W] by simp
  then have eq: "prefix_within (unat maxBytes) (take m W) = prefix_within (unat maxBytes) (take k W)" using prefix_within_append [OF ne] by simp
  have "prefix_within (unat maxBytes) (take m W) \<noteq> take m W"
  proof
    assume "prefix_within (unat maxBytes) (take m W) = take m W"
    then have "m \<le> k" using eq prefix_within_length [of "unat maxBytes" "take k W"] assms(4) k by simp
    with k have "m = k" by simp
    with ne eq \<open>prefix_within (unat maxBytes) (take m W) = take m W\<close> show False by simp
  qed
  with ne eq assms(2) show "within_limit maxBytes 0 (take k W) = within_limit maxBytes 0 (take m W)"
    "within_limit maxBytes 0 (take k W) \<noteq> take k W" "within_limit maxBytes 0 (take m W) \<noteq> take m W" by (simp_all add: within_limit_def)
qed

section \<open>The range of records\<close>

lemma range_slice:
  assumes "chain_ok t" "numbered (recs t) n" "i < length (chain t)" "n - length (recs t) \<le> s" "0 < k" "s + k \<le> n"
    and "unat (head_seq (chain t ! i)) \<le> s" "s + k - 1 \<le> unat (last_seq (chain t ! i))"
  shows "take k (drop (s - unat (head_seq (chain t ! i))) (sc_records (chain t ! i))) = take k (filter (\<lambda>r. s \<le> seqn r) (recs t))"
    "s - unat (head_seq (chain t ! i)) + k \<le> length (sc_records (chain t ! i))"
proof -
  let ?d = "chain t ! i"
  obtain prev rest where r: "recs t = prev @ sc_records ?d @ rest" "numbered (recs ?d) (Suc (unat (last_seq ?d)))"
    using recs_around [OF assms(1-3)] by blast
  have ne: "sc_records ?d \<noteq> []" using chain_ok_self [OF chain_ok_member [OF assms(1,3)]] by blast
  have h: "unat (head_seq ?d) = Suc (unat (last_seq ?d)) - length (sc_records ?d)" using chunk_bounds(2) [OF ne r(2)] .
  then show len: "s - unat (head_seq ?d) + k \<le> length (sc_records ?d)" using assms(5,7,8) ne by (cases "sc_records ?d") auto
  have base: "n - length (recs t) + length prev = unat (head_seq ?d)"
    using numbered_nth [OF assms(2), of "length prev"] ne r(1) by (simp add: nth_append head_seq_def hd_conv_nth)
  have "filter (\<lambda>r. s \<le> seqn r) (recs t) = drop (s - (n - length (recs t))) (recs t)"
    using assms(4,6) by (intro numbered_filter(1) [OF assms(2)]) simp_all
  also have "s - (n - length (recs t)) = length prev + (s - unat (head_seq ?d))" using base assms(4,7) by linarith
  finally have "filter (\<lambda>r. s \<le> seqn r) (recs t) = drop (s - unat (head_seq ?d)) (sc_records ?d) @ rest"
    using len assms(5) by (simp add: r(1))
  then show "take k (drop (s - unat (head_seq ?d)) (sc_records ?d)) = take k (filter (\<lambda>r. s \<le> seqn r) (recs t))" using len by simp
qed

lemma range_walk:
  assumes "chain_ok t" "numbered (recs t) n" "i < length (chain t)" "n - length (recs t) \<le> unat s" "0 < k" "unat s + k \<le> n"
    and "unat s + k - 1 = unat e" "e \<le> last_seq (chain t ! i)"
  shows "\<exists>chunks. chunks_from s (Some (chain t ! i)) = Inr chunks \<and>
    filter (\<lambda>r. s \<le> ev_Sequence r \<and> ev_Sequence r \<le> e) (concat (map sc_records (rev chunks))) = take k (filter (\<lambda>r. unat s \<le> seqn r) (recs t))"
proof -
  let ?d = "chain t ! i" let ?chunks = "takeWhile (\<lambda>c. s \<le> last_seq c) (chain ?d)"
  obtain rest where r: "recs t = recs ?d @ rest" "\<forall>r \<in> set rest. unat (last_seq ?d) < seqn r" "numbered (recs ?d) (Suc (unat (last_seq ?d)))"
    using recs_around [OF assms(1-3)] by auto
  have okd: "chain_ok ?d" by (rule chain_ok_member [OF assms(1,3)])
  then have walk: "chunks_from s (Some ?d) = Inr ?chunks" by (intro chunks_from_takeWhile) (simp add: chain_ok_def)
  let ?W = "filter (\<lambda>r. unat s \<le> seqn r) (recs t)"
  have both: "(\<lambda>r. s \<le> ev_Sequence r \<and> ev_Sequence r \<le> e) = (\<lambda>r. unat s \<le> seqn r \<and> seqn r < unat s + k)"
    using assms(5,7) by (auto simp: word_le_nat_alt fun_eq_iff)
  have "filter (\<lambda>r. unat s \<le> seqn r) (concat (map sc_records (rev ?chunks))) = filter (\<lambda>r. unat s \<le> seqn r) (recs ?d)"
    using walk_records [OF okd r(3), of s] by (simp add: filter_concat o_def)
  then have "filter (\<lambda>r. unat s \<le> seqn r \<and> seqn r < unat s + k) (concat (map sc_records (rev ?chunks))) =
      filter (\<lambda>r. seqn r < unat s + k) (filter (\<lambda>r. unat s \<le> seqn r) (recs ?d))"
    by (metis (no_types, lifting) filter_cong filter_filter)
  also have "\<dots> = filter (\<lambda>r. seqn r < unat s + k) ?W"
  proof -
    have "filter (\<lambda>r. seqn r < unat s + k) (filter (\<lambda>r. unat s \<le> seqn r) rest) = []"
      using r(2) assms(5,7,8) unfolding filter_empty_conv by (auto simp: word_le_nat_alt)
    then show ?thesis by (simp add: r(1))
  qed
  also have "\<dots> = take k ?W"
  proof -
    have W: "?W = drop (unat s - (n - length (recs t))) (recs t)" using assms(4-6) by (intro numbered_filter(1) [OF assms(2)]) simp_all
    have len: "length (recs t) < n" using assms(2) by (simp add: numbered_def)
    then have lw: "length ?W = n - unat s" unfolding W using assms(4,6) by simp
    have "numbered ?W n" unfolding W using numbered_suffix [of "take (unat s - (n - length (recs t))) (recs t)"] assms(2) by (simp add: append_take_drop_id)
    then show ?thesis using numbered_filter(2) [of ?W n "unat s + k"] lw assms(6) by simp
  qed
  finally show ?thesis using walk both by (intro exI [of _ ?chunks]) simp
qed

section \<open>The read\<close>

text \<open>The reference: of the visible records after a sequence, at most \<open>cap\<close>, as many as fit the byte limit, with copies of their payloads.\<close>

definition read_spec :: "StreamRecord list \<Rightarrow> u64 \<Rightarrow> u64 \<Rightarrow> u64 \<Rightarrow> StreamReadResult" where
  "read_spec rs after cap maxBytes =
     (let wanted = take (unat cap) (filter (\<lambda>r. after < ev_Sequence r) rs);
          got = (if maxBytes = 0 then wanted else prefix_within (unat maxBytes) wanted)
      in \<lparr>rd_Records = map clone_record got, rd_LastSequence = (if got = [] then 0 else ev_Sequence (last got)),
          rd_ByteLimited = (got \<noteq> wanted), rd_bytes = fold (\<lambda>r b. snapshotAdd b (streamRecordBytes r)) got 0\<rparr>)"

lemma read_spec_alt:
  "read_spec rs after cap maxBytes = (let wanted = take (unat cap) (filter (\<lambda>r. after < ev_Sequence r) rs); got = within_limit maxBytes 0 wanted in
     read_result got (got \<noteq> wanted) empty_read)"
  by (simp add: read_spec_def read_result_def within_limit_def empty_read_def Let_def)

lemma read_spec_empty: "take (unat cap) (filter (\<lambda>r. after < ev_Sequence r) rs) = [] \<Longrightarrow> read_spec rs after cap maxBytes = empty_read"
  unfolding read_spec_def empty_read_def Let_def by (simp only: prefix_within.simps) simp

lemma read_loop:
  assumes "\<forall>r \<in> set W. 48 \<le> unat (streamRecordBytes r)"
    "k = (if maxBytes \<noteq> 0 \<and> unat maxBytes div 48 < min (unat cap) (length W) then unat maxBytes div 48 + 1 else min (unat cap) (length W))"
  shows "settles ctx (append_records ctx maxBytes (take k W) empty_read)
    (let got = within_limit maxBytes 0 (take (unat cap) W) in read_result got (got \<noteq> take (unat cap) W) empty_read)"
proof -
  have loop: "settles ctx (append_records ctx maxBytes (take k W) empty_read)
      (read_result (within_limit maxBytes 0 (take k W)) (within_limit maxBytes 0 (take k W) \<noteq> take k W) empty_read)"
    using records_settle [of maxBytes empty_read ctx "take k W"] by (simp add: empty_read_def)
  have m: "take (min (unat cap) (length W)) W = take (unat cap) W" by (simp add: min_def)
  show ?thesis
  proof (cases "maxBytes \<noteq> 0 \<and> unat maxBytes div 48 < min (unat cap) (length W)")
    case True
    then have k: "k = unat maxBytes div 48 + 1" using assms(2) by simp
    have mx: "maxBytes \<noteq> 0" "unat maxBytes div 48 < min (unat cap) (length W)" "min (unat cap) (length W) \<le> length W" using True by simp_all
    note w = within_limit_take [OF assms(1) mx, folded k, unfolded m]
    show ?thesis using loop w by (simp add: Let_def)
  next
    case False
    then have "k = min (unat cap) (length W)" using assms(2) by (simp only: if_False)
    then have "take k W = take (unat cap) W" using m by simp
    with loop show ?thesis by (simp add: Let_def)
  qed
qed

text \<open>The part of the read that follows the search, given the chunk found for the last sequence.\<close>

definition read_from :: "ctx \<Rightarrow> u64 \<Rightarrow> u64 \<Rightarrow> u64 \<Rightarrow> u64 \<Rightarrow> streamChunk \<Rightarrow> (gerr + StreamReadResult) polled" where
  "read_from ctx maxBytes s k e d =
     (if s \<ge> head_seq d
      then let start = unat (s - head_seq d) in
           if start + unat k > length (sc_records d) then ret (Inl ErrPanic)
           else bindp (append_records ctx maxBytes (take (unat k) (drop start (sc_records d))) empty_read) (\<lambda>result. bindp (poll ctx) (\<lambda>_. ret (Inr result)))
      else (case chunks_from s (Some d) of Inl er \<Rightarrow> ret (Inl er)
            | Inr chunks \<Rightarrow> bindp (read_chunks ctx s e maxBytes chunks) (\<lambda>result. bindp (poll ctx) (\<lambda>_. ret (Inr result)))))"

lemma read_from_ok:
  assumes "chain_ok t" "numbered (recs t) n" "i < length (chain t)" "n - length (recs t) \<le> unat s" "0 < unat k" "unat s + unat k \<le> n"
    and "unat s + unat k - 1 = unat e" "e \<le> last_seq (chain t ! i)"
    and loop: "settles ctx (append_records ctx maxBytes (take (unat k) (filter (\<lambda>r. unat s \<le> seqn r) (recs t))) empty_read) result"
  shows "settles ctx (read_from ctx maxBytes s k e (chain t ! i)) (Inr result)"
proof (cases "s \<ge> head_seq (chain t ! i)")
  case True
  let ?d = "chain t ! i"
  have st: "unat (s - head_seq ?d) = unat s - unat (head_seq ?d)" using True by (rule unat_sub)
  have h: "unat (head_seq ?d) \<le> unat s" "unat s + unat k - 1 \<le> unat (last_seq ?d)" using True assms(7,8) by (simp_all add: word_le_nat_alt)
  show ?thesis using True range_slice [OF assms(1-6) h] loop by (auto simp: read_from_def Let_def st intro!: settles_bind settle)
next
  case False
  obtain chunks where "chunks_from s (Some (chain t ! i)) = Inr chunks"
      "filter (\<lambda>r. s \<le> ev_Sequence r \<and> ev_Sequence r \<le> e) (concat (map sc_records (rev chunks))) = take (unat k) (filter (\<lambda>r. unat s \<le> seqn r) (recs t))"
    using range_walk [OF assms(1-8)] by blast
  then show ?thesis using False loop by (auto simp: read_from_def read_chunks_def intro!: settles_bind settles_poll_times settle)
qed

lemma log_end:
  assumes "log_shape lg t n"
  shows "unat (lg_first lg + lg_count lg - 1) = n - 1" "lg_count lg \<noteq> 0"
proof -
  have "unat (lg_first lg + lg_count lg) = n" "0 < n" using assms by (auto simp: log_shape_def numbered_def unat_word_ariths)
  then show "unat (lg_first lg + lg_count lg - 1) = n - 1" by (metis gr_implies_not0 unat_0 unat_minus_one)
  show "lg_count lg \<noteq> 0" using assms by (auto simp: log_shape_def)
qed

lemma nothing_to_read:
  assumes "log_ok lg n" "cap = 0 \<or> lg_count lg = 0 \<or> after \<ge> lg_first lg + lg_count lg - 1"
  shows "read_spec (visible lg) after cap maxBytes = empty_read"
proof (rule read_spec_empty, cases "lg_tail lg")
  case (Some t)
  then have sh: "log_shape lg t n" using assms(1) by (simp add: log_ok_def)
  have "\<forall>r \<in> set (visible lg). seqn r < n" using visible_drop(4) [OF sh] numbered_range by blast
  then show "take (unat cap) (filter (\<lambda>r. after < ev_Sequence r) (visible lg)) = []"
    using assms(2) log_end [OF sh] by (auto simp: word_le_nat_alt word_less_nat_alt filter_empty_conv)
qed (simp add: visible_def)

text \<open>The number of records the code takes, from the number there are.\<close>

lemma unat_read_take:
  assumes "unat (lg_first lg) \<le> unat s" "unat s < n" "unat (lg_first lg) + unat (lg_count lg) = n"
  shows "unat (read_take lg s cap maxBytes) =
    (if maxBytes \<noteq> 0 \<and> unat maxBytes div 48 < min (unat cap) (n - unat s) then unat maxBytes div 48 + 1 else min (unat cap) (n - unat s))"
proof -
  have "unat (if s > lg_first lg then lg_count lg - min (lg_count lg) (s - lg_first lg) else lg_count lg) = n - unat s"
    using assms by (auto simp: word_less_nat_alt word_le_nat_alt min_def unat_sub)
  then have "unat (min cap (if s > lg_first lg then lg_count lg - min (lg_count lg) (s - lg_first lg) else lg_count lg)) = min (unat cap) (n - unat s)"
    by (simp add: min_def word_le_nat_alt)
  moreover have "unat (maxBytes div 48 + 1) = unat maxBytes div 48 + 1" using unat_bounds(1) [of maxBytes] by (simp add: unat_word_ariths unat_div)
  ultimately show ?thesis unfolding read_take_def Let_def by (simp add: word_less_nat_alt unat_div)
qed

lemma read_ok:
  assumes "log_ok lg n" "lg = ss_log st name" "\<forall>r \<in> set (visible lg). 48 \<le> unat (streamRecordBytes r)"
  shows "settles ctx (readBoundedTraverse ctx st name after cap maxBytes) (Inr (read_spec (visible lg) after cap maxBytes))"
proof (cases "cap = 0 \<or> lg_count lg = 0 \<or> after \<ge> lg_first lg + lg_count lg - 1")
  case True
  then show ?thesis using nothing_to_read [OF assms(1) True] unfolding readBoundedTraverse_def Let_def assms(2) [symmetric] by (auto intro!: settles_bind settle)
next
  case False
  then obtain t where t: "lg_tail lg = Some t" using assms(1) by (cases "lg_tail lg") (auto simp: log_ok_def zero_log_def)
  then have sh: "log_shape lg t n" using assms(1) by (simp add: log_ok_def)
  have ts: "chain_ok t" "numbered (recs t) n" "n - length (recs t) \<le> unat (lg_first lg)" "unat (lg_first lg) < n" "unat (lg_first lg) + unat (lg_count lg) = n" "n < 2 ^ 64"
    using sh by (auto simp: log_shape_def numbered_def)
  have a: "unat after + 1 < n" using False log_end(1) [OF sh] by (auto simp: word_le_nat_alt)
  then have a1: "unat (after + 1) = unat after + 1" using ts(6) by (simp add: unat_word_ariths)
  define s where "s = (if after + 1 < lg_first lg then lg_first lg else after + 1)"
  have s: "unat s = max (unat (lg_first lg)) (unat after + 1)" "unat s < n" "unat (lg_first lg) \<le> unat s" using a a1 ts(4) by (auto simp: s_def word_less_nat_alt)
  define W where "W = filter (\<lambda>r. unat s \<le> seqn r) (recs t)"
  have W: "filter (\<lambda>r. after < ev_Sequence r) (visible lg) = W"
    using t s(1) by (auto simp: W_def visible_def word_less_nat_alt intro!: filter_cong)
  have "W = drop (unat s - (n - length (recs t))) (recs t)" unfolding W_def using ts(3) s by (intro numbered_filter(1) [OF ts(2)]) simp_all
  then have lw: "n - unat s = length W" using ts(2,3) s by (simp add: numbered_def)
  have w48: "\<forall>r \<in> set W. 48 \<le> unat (streamRecordBytes r)" using assms(3) unfolding W [symmetric] by simp
  define k where "k = read_take lg s cap maxBytes"
  note k = unat_read_take [OF s(3,2) ts(5), of cap maxBytes, folded k_def, unfolded lw]
  have k1: "0 < unat k" "unat s + unat k \<le> n" using k False lw s(2) by (auto simp: unat_gt_0 word_neq_0_conv split: if_splits)
  define e where "e = s + k - 1"
  have "unat (s + k) = unat s + unat k" using k1 ts(6) by (simp add: unat_word_ariths)
  then have e: "unat e = unat s + unat k - 1" unfolding e_def using k1(1) by (metis add_is_0 less_numeral_extra(3) unat_0 unat_minus_one)
  then have "unat (lg_first lg) \<le> unat e" "unat e < n" using k1 s(3) by linarith+
  then obtain i where i: "i < length (chain t)" "log_chunk lg e = Inr (Some (chain t ! i))" "e \<le> last_seq (chain t ! i)" using log_chunk_ok [OF sh] by blast
  have "sc_records (chain t ! i) \<noteq> []" using chain_ok_self [OF chain_ok_member [OF ts(1) i(1)]] by blast
  then have head: "chunk_head (chain t ! i) = Inr (hd (sc_records (chain t ! i)))" "ev_Sequence (hd (sc_records (chain t ! i))) = head_seq (chain t ! i)"
    by (auto simp: chunk_head_def head_seq_def split: list.splits)
  have "readBoundedTraverse ctx st name after cap maxBytes = bindp (poll ctx) (\<lambda>_. read_from ctx maxBytes s k e (chain t ! i))"
    using False unfolding readBoundedTraverse_def Let_def assms(2) [symmetric] s_def [symmetric] k_def [symmetric] e_def [symmetric] i(2) sum.case option.case head read_from_def by simp
  moreover have "settles ctx (append_records ctx maxBytes (take (unat k) W) empty_read) (read_spec (visible lg) after cap maxBytes)"
    using read_loop [OF w48 k, of ctx] unfolding read_spec_alt W by (simp add: Let_def)
  then have "settles ctx (read_from ctx maxBytes s k e (chain t ! i)) (Inr (read_spec (visible lg) after cap maxBytes))"
    using ts(3) s(3) e unfolding W_def by (intro read_from_ok [OF ts(1,2) i(1) _ k1 _ i(3)]) simp_all
  ultimately show ?thesis by (auto intro: settles_bind settle)
qed

section \<open>Properties\<close>

fun valid_call :: "stream_call \<Rightarrow> bool" where
  "valid_call (Publishing name kind payload) = (ValidateStreamKind kind = None)"
| "valid_call act = True"

definition kinds_ok :: "stream_spec \<Rightarrow> bool" where
  "kinds_ok sp \<longleftrightarrow> (\<forall>name. \<forall>r \<in> set (snd (sp_stream sp name)). length (ev_Kind r) \<le> 255)"

lemma prefix_within_subset: "set (prefix_within b xs) \<subseteq> set xs"
  by (induction b xs rule: prefix_within.induct) auto

lemma sp_stream_put: "sp_stream (sp_put name s sp) x = (if x = name then s else sp_stream sp x)"
  by (simp add: sp_stream_def sp_put_def)

lemma sp_stream_offsets: "sp_stream (sp\<lparr>sp_offsets := f\<rparr>) x = sp_stream sp x"
  by (simp add: sp_stream_def)

lemma call_kinds: "kinds_ok sp \<Longrightarrow> valid_call act \<Longrightarrow> kinds_ok (sp_call act sp)"
proof (cases act)
  case (Publishing name kind payload)
  assume "kinds_ok sp" "valid_call act"
  then show ?thesis using Publishing
    by (auto simp: kinds_ok_def sp_publish_def sp_stream_put ValidateStreamKind_def split: prod.splits if_splits) (metis snd_conv)+
next
  case (SettingOffset name consumer sequence)
  assume "kinds_ok sp"
  then show ?thesis using SettingOffset by (auto simp: kinds_ok_def sp_offset_def sp_stream_put sp_stream_offsets)
next
  case (Trimming name through)
  assume "kinds_ok sp"
  then show ?thesis using Trimming by (auto simp: kinds_ok_def sp_trim_def sp_stream_put split: prod.splits) (metis snd_conv)
next
  case (TrimmingToBytes name limit)
  assume "kinds_ok sp"
  moreover obtain n rs where s: "sp_stream sp name = (n, rs)" by (cases "sp_stream sp name")
  ultimately have "\<forall>r \<in> set (keep_newest b rs). length (ev_Kind r) \<le> 255" for b
    using prefix_within_subset [of b "rev rs"] unfolding kinds_ok_def keep_newest_def by (metis set_rev snd_conv subsetD)
  then show ?thesis using TrimmingToBytes \<open>kinds_ok sp\<close> s by (auto simp: kinds_ok_def sp_trim_bytes_def sp_stream_put)
qed

lemma calls_kinds: "list_all valid_call acts \<Longrightarrow> kinds_ok sp \<Longrightarrow> kinds_ok (fold sp_call acts sp)"
  by (induction acts arbitrary: sp) (auto simp: call_kinds)

text \<open>
  C8. After any publications (of valid kinds), offsets and trims, a bounded read of a stream, under any context, either reports the
  cancellation of the context or returns what the reference reads from the records the specification has for the stream: those after the
  given sequence, at most the given number, as many as fit the byte limit, with copied payloads, and whether the byte limit cut it short.
\<close>
theorem stream_read_reference:
  assumes "list_all valid_call acts"
  shows "\<exists>st. fold_ok store_call acts NewStreamStore = Inr st \<and>
    settles ctx (ReadBoundedContext ctx st name after cap maxBytes) (Inr (read_spec (snd (sp_stream (fold sp_call acts sp_empty) name)) after cap maxBytes)) \<and>
    ReadBounded st name after cap maxBytes = Inr (read_spec (snd (sp_stream (fold sp_call acts sp_empty) name)) after cap maxBytes)"
proof -
  obtain st where st: "fold_ok store_call acts NewStreamStore = Inr st" "stream_valid st" "stream_abs st = fold sp_call acts sp_empty"
    using ss.calls_ok [OF empty_valid(1), of acts] unfolding store_call_eq empty_valid(2) by blast
  then have v: "shape_ok st" by (simp add: stream_valid_def)
  have "kinds_ok sp_empty" by (simp add: kinds_ok_def sp_empty_def sp_stream_def)
  then have "kinds_ok (stream_abs st)" using calls_kinds [OF assms] st(3) by simp
  then have "\<forall>r \<in> set (visible (ss_log st name)). 48 \<le> unat (streamRecordBytes r)"
    using record_least unfolding kinds_ok_def sp_stream_abs [OF v] by auto
  moreover have "log_ok (ss_log st name) (unat (NextSequence st name))" using v by (simp add: shape_ok_def)
  ultimately have r: "settles ctx (readBoundedTraverse ctx st name after cap maxBytes) (Inr (read_spec (visible (ss_log st name)) after cap maxBytes))" for ctx
    by (intro read_ok) simp_all
  have "snd (readBoundedTraverse background st name after cap maxBytes 0) = Inr (Inr (read_spec (visible (ss_log st name)) after cap maxBytes))"
    using r [of background] unfolding settles_def by (auto simp: background_def)
  then show ?thesis using st(1) r [of ctx] unfolding st(3) [symmetric] sp_stream_abs [OF v]
    by (intro exI [of _ st]) (simp add: ReadBounded_def ReadBoundedContext_def)
qed

theorem stream_read_reference_witness:
  "\<exists>st r. fold_ok store_call [Publishing ''orders'' ''created'' (GInt64 7), Publishing ''orders'' ''paid'' (GBool True), Trimming ''orders'' 1] NewStreamStore = Inr st \<and>
     ReadBounded st ''orders'' 0 10 4096 = Inr r \<and> map ev_Sequence (rd_Records r) = [2] \<and> \<not> rd_ByteLimited r"
proof -
  have ok: "list_all valid_call [Publishing ''orders'' ''created'' (GInt64 7), Publishing ''orders'' ''paid'' (GBool True), Trimming ''orders'' 1]"
    by code_simp
  have "map ev_Sequence (rd_Records (read_spec (snd (sp_stream (fold sp_call [Publishing ''orders'' ''created'' (GInt64 7), Publishing ''orders'' ''paid'' (GBool True),
      Trimming ''orders'' 1] sp_empty) ''orders'')) 0 10 4096)) = [2]"
    "\<not> rd_ByteLimited (read_spec (snd (sp_stream (fold sp_call [Publishing ''orders'' ''created'' (GInt64 7), Publishing ''orders'' ''paid'' (GBool True),
      Trimming ''orders'' 1] sp_empty) ''orders'')) 0 10 4096)"
    by code_simp+
  then show ?thesis using stream_read_reference [OF ok, of background "''orders''" 0 10 4096] by metis
qed

end
