(* ===== verification/StreamReplay.thy ===== *)
theory StreamReplay
  imports StreamReads ValueLaws
begin

text \<open>
  Recovery of streams. A transaction records an operation for every change it makes to its streams; the log keeps their persisted
  form. Applying what the log keeps to the store the transaction started from rebuilds the store it ended with.
\<close>

section \<open>The stream validator accepts what normalisation returns\<close>

lemma accepts_seq: "accepts m x e1 b1 \<Longrightarrow> accepts k y e2 b2 \<Longrightarrow> accepts (wbind m (\<lambda>_. k)) y (e1 + e2) (b1 + b2)"
  by (rule accepts_bind)

lemma walk_each_map: "walk_each f (map g l) = walk_each (\<lambda>x. f (g x)) l"
  by (induction l) simp_all

lemma accepts_walk_each:
  assumes "\<And>x. x \<in> set l \<Longrightarrow> accepts (f x) () (e x) (b x)"
  shows "accepts (walk_each f l) () (sum_list (map e l)) (sum_list (map b l))"
  using assms
proof (induction l)
  case (Cons x l)
  then show ?case unfolding walk_each.simps by (simp add: accepts_bind)
qed (simp add: accepts_prims)

lemma accepts_discard: "accepts m x e b \<Longrightarrow> accepts (wbind m (\<lambda>_. wret ())) () e b"
  using accepts_seq [of m x e b "wret ()" "()" 0 0] by (simp add: accepts_prims)

lemma accepts_finite: "list_all finite32 l \<Longrightarrow>
  accepts (walk_each (\<lambda>x. if \<not> finite32 x then wfail er else wret ()) l) () 0 0"
  using accepts_walk_each [of l "\<lambda>x. if \<not> finite32 x then wfail er else wret ()" "\<lambda>_. 0" "\<lambda>_. 0"]
  by (simp add: list_all_iff accepts_prims sum_list_0)

lemma validate_accepts: "is_norm depth n \<Longrightarrow> accepts (validateStreamValue (persist n) depth) () (velems n) (vbytes n)"
proof (induction n arbitrary: depth rule: persist.induct)
  case (3 f)
  from accepts_discard [OF normalize_accepts [OF 3]] 3 show ?case by simp
next
  case (4 s)
  from accepts_discard [OF normalize_accepts [OF 4]] 4 show ?case by simp
next
  case (5 bs)
  then show ?case by (simp add: accepts_prims)
next
  case (6 xs)
  then have "list_all finite32 (opt_items xs)" by (auto simp: opt_items_def split: option.splits)
  then have "accepts (wbind (walk_addBytes (int (opt_length xs) * 4)) (\<lambda>_.
        walk_each (\<lambda>x. if \<not> finite32 x then wfail (ErrMsg ''vector contains non-finite value'') else wret ()) (opt_items xs))) () 0 (int (opt_length xs) * 4)"
    using accepts_seq [OF accepts_prims(3) accepts_finite] by fastforce
  from accepts_vector_guard [OF this] 6 show ?case by simp
next
  case (7 visit l)
  let ?f = "\<lambda>item. validateStreamValue item (depth + 1)"
  have "accepts (?f (persist x)) () (velems x) (vbytes x)" if "x \<in> set l" for x using 7 that by (auto simp: list_all_iff)
  then have "accepts (walk_each ?f (map persist l)) () (sum_list (map velems l)) (sum_list (map vbytes l))"
    using accepts_walk_each [of l "\<lambda>x. ?f (persist x)" velems vbytes] by (simp add: walk_each_map)
  from accepts_seq [OF accepts_prims(2) this] 7(2) show ?case by (simp add: opt_items_def)
next
  case (8 visit l)
  let ?f = "\<lambda>(key, item). if \<not> utf8_string key then wfail (ErrMsg ''map key contains invalid UTF-8'')
        else wbind (walk_addBytes (int (length key))) (\<lambda>_. validateStreamValue item (depth + 1))"
  have "accepts (?f (k, persist x)) () (velems x) (int (length k) + vbytes x)" if "(k, x) \<in> set l" for k x
    using 8 that accepts_seq [OF accepts_prims(3), of "int (length k)" "validateStreamValue (persist x) (depth + 1)" "()" "velems x" "vbytes x"]
    by (auto simp: all_entries_def list_all_iff)
  then have "accepts (walk_each (\<lambda>(k, x). ?f (k, persist x)) l) () (sum_list (map (\<lambda>(k, v). velems v) l)) (sum_list (map (\<lambda>(k, v). int (length k) + vbytes v) l))"
    by (intro accepts_walk_each) auto
  moreover have "walk_each ?f (map_values persist l) = walk_each (\<lambda>(k, x). ?f (k, persist x)) l"
    by (simp add: map_values_def walk_each_map case_prod_unfold)
  ultimately have "accepts (walk_each ?f (map_values persist l)) () (sum_list (map (\<lambda>(k, v). velems v) l)) (sum_list (map (\<lambda>(k, v). int (length k) + vbytes v) l))"
    by (simp only:)
  from accepts_seq [OF accepts_prims(2) this, of "length l"] 8(2) show ?case by (simp add: opt_items_def)
qed (auto simp: accepts_prims)

lemma decode_stream_norm:
  assumes "is_norm 0 n" "velems n \<le> maxValueElements" "vbytes n \<le> maxValueBytes" "stream \<noteq> ''__lattice_changes''"
  shows "decodeStreamValue stream (persist n) = Inr n"
proof -
  have "fst (run_state (validateStreamValue (persist n) 0) newValueWalk) = Inr ()"
    using validate_accepts [OF assms(1)] assms(2,3) by (auto simp: accepts_def newValueWalk_def)
  then show ?thesis using assms(4) decode_persist [OF assms(1)] by (auto simp: decodeStreamValue_def rbind_def split: persistedValue.splits)
qed

section \<open>Replaying operations\<close>

definition replays :: "StreamStore \<Rightarrow> StreamOperation list \<Rightarrow> StreamStore \<Rightarrow> bool" where
  "replays st acts st' \<longleftrightarrow> (\<exists>ps. BuildPersistedStreamOperations acts = Inr ps \<and> ApplyPersistedStreamOperations st ps = Inr st')"

lemma sum_list_map_snoc: "sum_list_map f xs = Inr ys \<Longrightarrow> f x = Inr y \<Longrightarrow> sum_list_map f (xs @ [x]) = Inr (ys @ [y])"
  by (induction xs arbitrary: ys) (auto split: sum.splits)

lemma apply_operations_snoc: "apply_operations (ps @ [p]) st = rbind (apply_operations ps st) (apply_operation p)"
proof (induction ps arbitrary: st)
  case Nil
  show ?case by (cases "apply_operation p st") (simp_all add: rbind_def)
next
  case (Cons a ps)
  then show ?case by (cases "apply_operation a st") (simp_all add: rbind_def)
qed

lemma Fork_same [simp]: "ss_Fork st = st"
  by (simp add: ss_Fork_def)

lemma replays_Nil: "replays st [] st"
  by (simp add: replays_def BuildPersistedStreamOperations_def ApplyPersistedStreamOperations_def)

text \<open>One more operation: its persisted form exists and applies to the store reached so far.\<close>

definition replays_one :: "StreamOperation \<Rightarrow> StreamStore \<Rightarrow> StreamStore \<Rightarrow> bool" where
  "replays_one act st st' \<longleftrightarrow> (\<exists>p. persist_operation act = Inr p \<and> apply_operation p st = Inr st')"

lemma replays_snoc: "replays st acts st1 \<Longrightarrow> replays_one act st1 st2 \<Longrightarrow> replays st (acts @ [act]) st2"
  unfolding replays_def replays_one_def BuildPersistedStreamOperations_def ApplyPersistedStreamOperations_def
  by (auto simp: apply_operations_snoc rbind_def intro!: sum_list_map_snoc)

lemma ValidateStreamName_reserved: "ValidateStreamName name False = None \<Longrightarrow> ValidateStreamName name True = None \<and> name \<noteq> ''__lattice_changes''"
  by (auto simp: ValidateStreamName_def reserved_prefix_def split: if_splits)

lemma replays_publish:
  assumes "ValidateStreamName name True = None" "ValidateStreamKind kind = None"
    and "encodeValue payload = Inr p" "decodeStreamValue name p = Inr payload"
  shows "replays_one \<lparr>act_Type = ''publish'', act_Stream = name, act_Consumer = [], act_Sequence = NextSequence st name, act_Kind = kind, act_Payload = payload\<rparr>
    st (snd (Publish name kind payload st))"
proof -
  have "NextSequence st name \<noteq> 0" by (simp add: NextSequence_def)
  with assms show ?thesis unfolding replays_one_def persist_operation_def apply_operation_def by (simp add: rbind_def require_ok_def Let_def)
qed

lemma replays_offset:
  "ValidateStreamName name True = None \<Longrightarrow> ValidateStreamName consumer True = None \<Longrightarrow>
   replays_one \<lparr>act_Type = ''offset'', act_Stream = name, act_Consumer = consumer, act_Sequence = s, act_Kind = [], act_Payload = GNil\<rparr>
     st (SetOffset name consumer s st)"
  unfolding replays_one_def persist_operation_def apply_operation_def by (simp add: rbind_def require_ok_def Let_def)

lemma replays_trim:
  "ValidateStreamName name True = None \<Longrightarrow> Trim name s st = Inr st' \<Longrightarrow>
   replays_one \<lparr>act_Type = ''trim'', act_Stream = name, act_Consumer = [], act_Sequence = s, act_Kind = [], act_Payload = GNil\<rparr> st st'"
  unfolding replays_one_def persist_operation_def apply_operation_def by (simp add: rbind_def require_ok_def Let_def)

section \<open>The operations of a transaction\<close>

text \<open>A refused call leaves the streams of the transaction as they were. Trimming to a number of bytes is not a call of a transaction.\<close>

fun tx_call :: "stream_call \<Rightarrow> txStreams \<Rightarrow> txStreams" where
  "tx_call (Publishing name kind payload) tx = (case PublishStreamGetSequence name kind payload tx of Inl _ \<Rightarrow> tx | Inr (_, tx') \<Rightarrow> tx')"
| "tx_call (SettingOffset name consumer s) tx = (case SetStreamOffset name consumer s tx of Inl _ \<Rightarrow> tx | Inr tx' \<Rightarrow> tx')"
| "tx_call (Trimming name s) tx = (case TrimStream name s tx of Inl _ \<Rightarrow> tx | Inr tx' \<Rightarrow> tx')"
| "tx_call (TrimmingToBytes name limit) tx = tx"

fun go_call :: "stream_call \<Rightarrow> bool" where
  "go_call (Publishing name kind payload) = go_ok payload"
| "go_call act = True"

lemma tx_call_cases:
  assumes "go_call act"
  shows "tx_call act tx = tx \<or> (\<exists>o1 st'. tx_call act tx = tx\<lparr>ts_store := st', ts_operations := ts_operations tx @ [o1]\<rparr> \<and> replays_one o1 (ts_store tx) st')"
proof (cases act)
  case (Publishing name kind payload)
  show ?thesis
  proof (cases "PublishStreamGetSequence name kind payload tx")
    case (Inr res)
    then obtain n where v: "ValidateStreamName name False = None" "ValidateStreamKind kind = None" "NormalizeValue payload = Inr n" "NextSequence (ts_store tx) name \<noteq> - 1"
      by (auto simp: PublishStreamGetSequence_def rbind_def require_ok_def invalid_argument_def split: option.splits sum.splits if_splits)
    have go: "go_ok payload" using assms Publishing by simp
    note n = NormalizeValue_facts [OF go v(3)]
    note name = ValidateStreamName_reserved [OF v(1)]
    have "encodeValue n = Inr (persist n)" unfolding encodeValue_def by (rule encode_norm [OF n(2)])
    moreover have "decodeStreamValue name (persist n) = Inr n" using n name by (intro decode_stream_norm) simp_all
    ultimately have one: "replays_one \<lparr>act_Type = ''publish'', act_Stream = name, act_Consumer = [], act_Sequence = NextSequence (ts_store tx) name, act_Kind = kind, act_Payload = n\<rparr>
        (ts_store tx) (snd (Publish name kind n (ts_store tx)))" using v(2) name by (intro replays_publish) simp_all
    have "fst (Publish name kind n (ts_store tx)) = NextSequence (ts_store tx) name" by (simp add: Publish_def Let_def NextSequence_def)
    then show ?thesis using one v Publishing
      by (auto simp: PublishStreamGetSequence_def rbind_def require_ok_def invalid_argument_def recordStreamOperation_def split: prod.splits)
  qed (use Publishing in simp)
next
  case (SettingOffset name consumer s)
  then show ?thesis using replays_offset [of name consumer s "ts_store tx"]
    by (auto simp: SetStreamOffset_def rbind_def require_ok_def invalid_argument_def recordStreamOperation_def split: option.splits)
next
  case (Trimming name s)
  then show ?thesis using replays_trim [of name s "ts_store tx"]
    by (auto simp: TrimStream_def rbind_def require_ok_def invalid_argument_def recordStreamOperation_def split: option.splits sum.splits)
qed simp

text \<open>
  C9. Whatever a transaction publishes, sets and trims, the operations it records have a persisted form, and applying that form to the
  streams the transaction started from gives exactly the streams it ended with, sequences, chunks, offsets and byte accounts included.
\<close>
theorem stream_operations_replay:
  assumes "list_all go_call acts"
  shows "\<exists>ps. BuildPersistedStreamOperations (ts_operations (fold tx_call acts \<lparr>ts_store = ss_Fork st, ts_operations = []\<rparr>)) = Inr ps \<and>
    ApplyPersistedStreamOperations st ps = Inr (ts_store (fold tx_call acts \<lparr>ts_store = ss_Fork st, ts_operations = []\<rparr>))"
proof -
  have "replays st (ts_operations tx) (ts_store tx) \<Longrightarrow> replays st (ts_operations (fold tx_call acts tx)) (ts_store (fold tx_call acts tx))" for tx :: txStreams
    using assms
  proof (induction acts arbitrary: tx)
    case (Cons act acts)
    from tx_call_cases [of act tx] Cons.prems have "replays st (ts_operations (tx_call act tx)) (ts_store (tx_call act tx))"
      by (auto intro: replays_snoc)
    then show ?case using Cons by simp
  qed simp
  then show ?thesis using replays_Nil [of st] unfolding replays_def by simp
qed

theorem stream_operations_replay_witness:
  "list_all go_call [Publishing ''orders'' ''created'' (GMap None (Some [(''total'', GUint 12)])), SettingOffset ''orders'' ''billing'' 1, Trimming ''orders'' 1] \<and>
   (\<exists>ps. BuildPersistedStreamOperations (ts_operations (fold tx_call [Publishing ''orders'' ''created'' (GMap None (Some [(''total'', GUint 12)])),
        SettingOffset ''orders'' ''billing'' 1, Trimming ''orders'' 1] \<lparr>ts_store = ss_Fork NewStreamStore, ts_operations = []\<rparr>)) = Inr ps \<and>
     ApplyPersistedStreamOperations NewStreamStore ps = Inr (ts_store (fold tx_call [Publishing ''orders'' ''created'' (GMap None (Some [(''total'', GUint 12)])),
        SettingOffset ''orders'' ''billing'' 1, Trimming ''orders'' 1] \<lparr>ts_store = ss_Fork NewStreamStore, ts_operations = []\<rparr>)))"
proof -
  have ok: "list_all go_call [Publishing ''orders'' ''created'' (GMap None (Some [(''total'', GUint 12)])), SettingOffset ''orders'' ''billing'' 1, Trimming ''orders'' 1]"
    by (simp add: all_entries_def)
  show ?thesis using ok stream_operations_replay [OF ok, of NewStreamStore] by blast
qed

end
