(* ===== verification/StreamSnapshots.thy ===== *)
theory StreamSnapshots
  imports StreamReplay
begin

text \<open>
  Streams in a snapshot: visiting the records of a stream by sequence, persisting every stream and offset in the order of their
  names, and rebuilding the store from that form gives a store that shows the same.
\<close>

section \<open>Visiting records\<close>




section \<open>Persisting and decoding the records of a stream\<close>










section \<open>Persisting and decoding the streams\<close>











section \<open>Persisting and decoding the offsets\<close>








section \<open>The snapshot\<close>



section \<open>Properties\<close>









end
