(* ===== verification/Changefeed.thy ===== *)
theory Changefeed
  imports StreamReplay PageRecords
begin

unbundle bit_operations_syntax

text \<open>
  The changefeed (\<^verbatim>\<open>internal/engine/stream.go\<close>) and the change tracking of a transaction it reads (\<^verbatim>\<open>internal/engine/db.go\<close>). At
  commit a transaction compares every node and edge it touched with the graph it started from and publishes one event per
  difference to the stream \<^verbatim>\<open>__lattice_changes\<close>, in the order of identifiers and names. Sets of identifiers are lists without
  repetition; the tables of both graphs are functions from identifiers (their model is \<open>ShardMap\<close>); the tracked keys of an
  entity are \<open>None\<close> for a nil slice, which means that all properties are compared.
\<close>

section \<open>State\<close>

definition changeStreamName :: string where
  "changeStreamName = ''__lattice_changes''"

definition changefeedInlineValueBytes :: u64 where
  "changefeedInlineValueBytes = 262144"

definition maxTrackedPropertyKeys :: nat where
  "maxTrackedPropertyKeys = 64"

record feedGraph =
  fg_Nodes :: "u64 \<Rightarrow> NodeRecord option"
  fg_Edges :: "u64 \<Rightarrow> EdgeRecord option"

record txChanges =
  ch_upsertNodes :: "u64 list"
  ch_deleteNodes :: "u64 list"
  ch_upsertEdges :: "u64 list"
  ch_deleteEdges :: "u64 list"
  ch_nodePropertyKeys :: "(u64 \<times> string list option) list"
  ch_edgePropertyKeys :: "(u64 \<times> string list option) list"

record feedTx =
  fx_base :: feedGraph
  fx_graph :: feedGraph
  fx_changes :: txChanges
  fx_streams :: txStreams
  fx_changefeedMaxBytes :: u64

section \<open>Comparing values\<close>

text \<open>\<^verbatim>\<open>==\<close> on the bits of finite floats: both zeros are equal.\<close>

definition float64_eq :: "u64 \<Rightarrow> u64 \<Rightarrow> bool" where
  "float64_eq f g \<longleftrightarrow> finite64 f \<and> finite64 g \<and> (f = g \<or> f AND mask 63 = 0 \<and> g AND mask 63 = 0)"

definition float32_eq :: "u32 \<Rightarrow> u32 \<Rightarrow> bool" where
  "float32_eq f g \<longleftrightarrow> finite32 f \<and> finite32 g \<and> (f = g \<or> f AND mask 31 = 0 \<and> g AND mask 31 = 0)"

text \<open>\<^verbatim>\<open>reflect.DeepEqual\<close> on the types a stored value has: slices and maps are equal when both are nil or neither is and their elements are.\<close>

lemma zip_fst_smaller [termination_simp]: "(x, y) \<in> set (zip xs ys) \<Longrightarrow> size x < Suc (size_list size xs)"
  by (meson less_Suc_eq_le set_zip_leftD size_list_estimation' order_refl)

fun DeepEqual :: "gvalue \<Rightarrow> gvalue \<Rightarrow> bool" where
  "DeepEqual (GFloat64 a) w \<longleftrightarrow> (case w of GFloat64 b \<Rightarrow> float64_eq a b | _ \<Rightarrow> False)"
| "DeepEqual (GVector None) w \<longleftrightarrow> w = GVector None"
| "DeepEqual (GVector (Some xs)) w \<longleftrightarrow> (case w of GVector (Some ys) \<Rightarrow> list_all2 float32_eq xs ys | _ \<Rightarrow> False)"
| "DeepEqual (GList va None) w \<longleftrightarrow> (case w of GList vb None \<Rightarrow> True | _ \<Rightarrow> False)"
| "DeepEqual (GList va (Some xs)) w \<longleftrightarrow> (case w of
     GList vb (Some ys) \<Rightarrow> length xs = length ys \<and> list_all (\<lambda>(x, y). DeepEqual x y) (zip xs ys) | _ \<Rightarrow> False)"
| "DeepEqual (GMap va None) w \<longleftrightarrow> (case w of GMap vb None \<Rightarrow> True | _ \<Rightarrow> False)"
| "DeepEqual (GMap va (Some xs)) w \<longleftrightarrow> (case w of
     GMap vb (Some ys) \<Rightarrow> length xs = length ys \<and> list_all (\<lambda>(k, x). case map_of ys k of None \<Rightarrow> False | Some y \<Rightarrow> DeepEqual x y) xs | _ \<Rightarrow> False)"
| "DeepEqual v w \<longleftrightarrow> v = w"

section \<open>Tracking\<close>

definition id_add :: "u64 \<Rightarrow> u64 list \<Rightarrow> u64 list" where
  "id_add ident l = (if ident \<in> set l then l else ident # l)"

definition id_remove :: "u64 \<Rightarrow> u64 list \<Rightarrow> u64 list" where
  "id_remove ident l = removeAll ident l"

definition markUpsert :: "u64 \<Rightarrow> u64 list \<times> u64 list \<Rightarrow> u64 list \<times> u64 list" where
  "markUpsert ident = (\<lambda>(upserts, deletes). (id_add ident upserts, id_remove ident deletes))"

definition markDelete :: "bool \<Rightarrow> u64 \<Rightarrow> u64 list \<times> u64 list \<Rightarrow> u64 list \<times> u64 list" where
  "markDelete existed ident = (\<lambda>(upserts, deletes).
     (id_remove ident upserts, if \<not> existed then deletes else id_add ident deletes))"

text \<open>\<^verbatim>\<open>trackNodeProperty\<close> and \<^verbatim>\<open>trackEdgeProperty\<close>: an entity that was created in the transaction is compared in full anyway.\<close>

definition track_property :: "bool \<Rightarrow> u64 \<Rightarrow> string \<Rightarrow> (u64 \<times> string list option) list \<Rightarrow> (u64 \<times> string list option) list" where
  "track_property existed ident key tracked =
     (if \<not> existed then tracked
      else
        let tracked1 = (if map_of tracked ident = None then AList.update ident (Some []) tracked else tracked) in
        case map_of tracked1 ident of
          Some (Some keys) \<Rightarrow>
            if key \<in> set keys then tracked1
            else if length keys \<ge> maxTrackedPropertyKeys then AList.update ident None tracked1
            else AList.update ident (Some (keys @ [key])) tracked1
        | _ \<Rightarrow> tracked1)"

definition mark_property_fallback :: "bool \<Rightarrow> u64 \<Rightarrow> (u64 \<times> string list option) list \<Rightarrow> (u64 \<times> string list option) list" where
  "mark_property_fallback existed ident tracked = (if \<not> existed then tracked else AList.update ident None tracked)"

definition trackNodeProperty :: "u64 \<Rightarrow> string \<Rightarrow> feedTx \<Rightarrow> feedTx" where
  "trackNodeProperty ident key fx = fx\<lparr>fx_changes := (fx_changes fx)\<lparr>ch_nodePropertyKeys :=
     track_property (fg_Nodes (fx_base fx) ident \<noteq> None) ident key (ch_nodePropertyKeys (fx_changes fx))\<rparr>\<rparr>"

definition trackEdgeProperty :: "u64 \<Rightarrow> string \<Rightarrow> feedTx \<Rightarrow> feedTx" where
  "trackEdgeProperty ident key fx = fx\<lparr>fx_changes := (fx_changes fx)\<lparr>ch_edgePropertyKeys :=
     track_property (fg_Edges (fx_base fx) ident \<noteq> None) ident key (ch_edgePropertyKeys (fx_changes fx))\<rparr>\<rparr>"

definition markNodePropertyFallback :: "u64 \<Rightarrow> feedTx \<Rightarrow> feedTx" where
  "markNodePropertyFallback ident fx = fx\<lparr>fx_changes := (fx_changes fx)\<lparr>ch_nodePropertyKeys :=
     mark_property_fallback (fg_Nodes (fx_base fx) ident \<noteq> None) ident (ch_nodePropertyKeys (fx_changes fx))\<rparr>\<rparr>"

definition markEdgePropertyFallback :: "u64 \<Rightarrow> feedTx \<Rightarrow> feedTx" where
  "markEdgePropertyFallback ident fx = fx\<lparr>fx_changes := (fx_changes fx)\<lparr>ch_edgePropertyKeys :=
     mark_property_fallback (fg_Edges (fx_base fx) ident \<noteq> None) ident (ch_edgePropertyKeys (fx_changes fx))\<rparr>\<rparr>"

text \<open>\<^verbatim>\<open>mergePropertyTracking\<close>: the keys a child transaction tracked, merged into those of its parent. \<open>None\<close> is the value left when the keys of both exceed the limit.\<close>

fun merge_keys :: "string list \<Rightarrow> string list \<Rightarrow> string list option" where
  "merge_keys [] current = Some current"
| "merge_keys (key # keys) current =
     (if key \<in> set current then merge_keys keys current
      else if length current \<ge> maxTrackedPropertyKeys then None
      else merge_keys keys (current @ [key]))"

definition merge_tracked :: "(u64 \<times> string list option) list \<Rightarrow> (u64 \<Rightarrow> bool) \<Rightarrow> u64 \<Rightarrow> (u64 \<times> string list option) list \<Rightarrow> (u64 \<times> string list option) list" where
  "merge_tracked child originalExists ident parent =
     (if \<not> originalExists ident then parent
      else case map_of child ident of
        None \<Rightarrow> AList.update ident None parent
      | Some None \<Rightarrow> AList.update ident None parent
      | Some (Some keys) \<Rightarrow>
          (case map_of parent ident of
             None \<Rightarrow> AList.update ident (Some keys) parent
           | Some None \<Rightarrow> parent
           | Some (Some current) \<Rightarrow> AList.update ident (merge_keys keys current) parent))"

definition mergePropertyTracking :: "(u64 \<times> string list option) list \<Rightarrow> u64 list \<Rightarrow> (u64 \<Rightarrow> bool) \<Rightarrow> (u64 \<times> string list option) list \<Rightarrow> (u64 \<times> string list option) list" where
  "mergePropertyTracking child upserts originalExists parent = fold (merge_tracked child originalExists) upserts parent"

definition trackedPropertyKeys :: "string \<Rightarrow> u64 \<Rightarrow> feedTx \<Rightarrow> string list option" where
  "trackedPropertyKeys entity ident fx =
     (let tracked = (if entity = ''node'' then ch_nodePropertyKeys (fx_changes fx) else ch_edgePropertyKeys (fx_changes fx)) in
      case map_of tracked ident of None \<Rightarrow> None | Some keys \<Rightarrow> keys)"

section \<open>Counting events\<close>

definition mapKeys :: "u64 list \<Rightarrow> u64 list" where
  "mapKeys ids = sort ids"

definition hasIDs :: "u64 list \<Rightarrow> bool" where
  "hasIDs ids \<longleftrightarrow> ids \<noteq> []"

definition beforeProperties :: "NodeRecord option \<Rightarrow> Properties" where
  "beforeProperties node = (case node of None \<Rightarrow> empty_properties | Some n \<Rightarrow> nr_Properties n)"

definition beforePropertiesEdge :: "EdgeRecord option \<Rightarrow> Properties" where
  "beforePropertiesEdge edge = (case edge of None \<Rightarrow> empty_properties | Some e \<Rightarrow> er_Properties e)"

definition sortedStringSet :: "string list \<Rightarrow> string list" where
  "sortedStringSet labels = sort labels"

text \<open>The set of labels of a node, empty for no node.\<close>

definition label_set :: "NodeRecord option \<Rightarrow> string list" where
  "label_set node = (case node of None \<Rightarrow> [] | Some n \<Rightarrow> remdups (opt_items (nr_Labels n)))"

definition countLabelChanges :: "NodeRecord option \<Rightarrow> NodeRecord \<Rightarrow> u64" where
  "countLabelChanges before after =
     word_of_nat (length (filter (\<lambda>l. l \<notin> set (label_set before)) (label_set (Some after)))) +
     word_of_nat (length (filter (\<lambda>l. l \<notin> set (label_set (Some after))) (label_set before)))"

definition value_changed :: "Properties \<Rightarrow> Properties \<Rightarrow> string \<Rightarrow> bool" where
  "value_changed before after key = (case (p_Lookup before key, p_Lookup after key) of
     ((oldValue, oldOK), (newValue, newOK)) \<Rightarrow> oldOK \<noteq> newOK \<or> oldOK \<and> \<not> DeepEqual oldValue newValue)"

definition countPropertyChanges :: "Properties \<Rightarrow> Properties \<Rightarrow> string list option \<Rightarrow> u64" where
  "countPropertyChanges before after keys = (case keys of
     Some keys \<Rightarrow> word_of_nat (length (filter (value_changed before after) keys))
   | None \<Rightarrow>
       word_of_nat (length (filter (\<lambda>key. case (p_Lookup before key, p_Lookup after key) of
           ((oldValue, oldOK), (newValue, newOK)) \<Rightarrow> \<not> (oldOK \<and> newOK \<and> DeepEqual oldValue newValue)) (map fst (p_All before)))) +
       word_of_nat (length (filter (\<lambda>key. \<not> snd (p_Lookup before key)) (map fst (p_All after)))))"

definition countNodeChanges :: "feedTx \<Rightarrow> NodeRecord option \<Rightarrow> NodeRecord option \<Rightarrow> u64" where
  "countNodeChanges fx before after = (case after of
     None \<Rightarrow> 0
   | Some n \<Rightarrow> (if before = None then 1 else 0) + countLabelChanges before n +
       countPropertyChanges (beforeProperties before) (nr_Properties n) (trackedPropertyKeys ''node'' (nr_ID n) fx))"

definition countEdgeChanges :: "feedTx \<Rightarrow> EdgeRecord option \<Rightarrow> EdgeRecord option \<Rightarrow> u64" where
  "countEdgeChanges fx before after = (case after of
     None \<Rightarrow> 0
   | Some e \<Rightarrow> (if before = None then 1 else 0) +
       countPropertyChanges (beforePropertiesEdge before) (er_Properties e) (trackedPropertyKeys ''edge'' (er_ID e) fx))"

definition countChangefeedEvents :: "feedTx \<Rightarrow> u64" where
  "countChangefeedEvents fx =
     (let ch = fx_changes fx;
          count1 = word_of_nat (length (filter (\<lambda>ident. fg_Edges (fx_base fx) ident \<noteq> None) (ch_deleteEdges ch)));
          count2 = count1 + word_of_nat (length (ch_deleteNodes ch));
          count3 = fold (\<lambda>ident count. count + countNodeChanges fx (fg_Nodes (fx_base fx) ident) (fg_Nodes (fx_graph fx) ident)) (ch_upsertNodes ch) count2
      in fold (\<lambda>ident count. count + countEdgeChanges fx (fg_Edges (fx_base fx) ident) (fg_Edges (fx_graph fx) ident)) (ch_upsertEdges ch) count3)"

definition preflightChangefeedSequence :: "u64 \<Rightarrow> u64 \<Rightarrow> gerr option" where
  "preflightChangefeedSequence nxt pending =
     (if pending \<noteq> 0 \<and> (nxt = - 1 \<or> pending > - 1 - nxt) then Some (ErrWrap ''resource limit'' (ErrMsg ''change stream sequence space exhausted'')) else None)"

section \<open>Events\<close>

definition changefeedValueType :: "gvalue \<Rightarrow> string" where
  "changefeedValueType v = (case v of
     GNil \<Rightarrow> ''null'' | GBool _ \<Rightarrow> ''bool'' | GInt64 _ \<Rightarrow> ''int'' | GFloat64 _ \<Rightarrow> ''float'' | GString _ \<Rightarrow> ''string''
   | GBytes _ \<Rightarrow> ''bytes'' | GVector _ \<Rightarrow> ''vector'' | GList _ _ \<Rightarrow> ''list'' | GMap _ _ \<Rightarrow> ''map'' | _ \<Rightarrow> ''unknown'')"

definition changefeedValue :: "u64 \<Rightarrow> gvalue \<Rightarrow> gvalue \<times> bool" where
  "changefeedValue changefeedMaxBytes v =
     (let encodedBytes = estimateValueBytes v;
          inlineLimit = min changefeedInlineValueBytes (changefeedMaxBytes div 4)
      in if encodedBytes \<le> inlineLimit then (CloneValue v, False)
         else (GMap None (Some [(''__lattice_value_omitted'', GBool True), (''type'', GString (changefeedValueType v)),
                 (''encoded_bytes'', GInt64 (min encodedBytes (drop_bit 1 (- 1))))]), True))"

definition appendChange :: "string \<Rightarrow> gvalue \<Rightarrow> txStreams \<Rightarrow> txStreams" where
  "appendChange event payload tx = (case Publish changeStreamName event payload (ts_store tx) of (sequence, st) \<Rightarrow>
     recordStreamOperation \<lparr>act_Type = ''publish'', act_Stream = changeStreamName, act_Consumer = [], act_Sequence = sequence,
       act_Kind = event, act_Payload = payload\<rparr> (tx\<lparr>ts_store := st\<rparr>))"

type_synonym change = "string \<times> gvalue"

definition appendChanges :: "change list \<Rightarrow> txStreams \<Rightarrow> txStreams" where
  "appendChanges changes tx = fold (\<lambda>(event, payload). appendChange event payload) changes tx"

definition event_fields :: "(string \<times> gvalue) list \<Rightarrow> gvalue" where
  "event_fields l = GMap None (Some l)"

definition label_changes :: "u64 \<Rightarrow> NodeRecord option \<Rightarrow> NodeRecord \<Rightarrow> change list" where
  "label_changes nodeID before after =
     map (\<lambda>label. (''node.label_add'', event_fields [(''node_id'', GInt64 nodeID), (''label'', GString label)]))
       (filter (\<lambda>l. l \<notin> set (label_set before)) (sortedStringSet (label_set (Some after)))) @
     map (\<lambda>label. (''node.label_remove'', event_fields [(''node_id'', GInt64 nodeID), (''label'', GString label)]))
       (filter (\<lambda>l. l \<notin> set (label_set (Some after))) (sortedStringSet (label_set before)))"

definition appendLabelChanges :: "u64 \<Rightarrow> NodeRecord option \<Rightarrow> NodeRecord \<Rightarrow> txStreams \<Rightarrow> txStreams" where
  "appendLabelChanges nodeID before after = appendChanges (label_changes nodeID before after)"

text \<open>The keys that \<^verbatim>\<open>appendPropertyChanges\<close> visits: the tracked ones, or all keys of both sides, sorted, without neighbouring repetitions.\<close>

definition change_keys :: "Properties \<Rightarrow> Properties \<Rightarrow> string list option \<Rightarrow> string list" where
  "change_keys before after keys = (case keys of
     None \<Rightarrow> remdups_adj (sort (map fst (p_All before) @ map fst (p_All after)))
   | Some keys \<Rightarrow> sort keys)"

definition property_change :: "u64 \<Rightarrow> string \<Rightarrow> u64 \<Rightarrow> Properties \<Rightarrow> Properties \<Rightarrow> string \<Rightarrow> change option" where
  "property_change changefeedMaxBytes entity ident before after key =
     (case (p_Lookup before key, p_Lookup after key) of ((oldValue, oldOK), (newValue, newOK)) \<Rightarrow>
        if oldOK = newOK \<and> (\<not> oldOK \<or> DeepEqual oldValue newValue) then None
        else
          let payload = [(''key'', GString key), (if entity = ''node'' then ''node_id'' else ''edge_id'', GInt64 ident)];
              old_fields = (case changefeedValue changefeedMaxBytes oldValue of (ov, oomit) \<Rightarrow> [(''old_value'', ov), (''old_value_omitted'', GBool oomit)])
          in if newOK
             then (case changefeedValue changefeedMaxBytes newValue of (nv, nomit) \<Rightarrow>
                     Some (entity @ ''.property_set'',
                       event_fields (payload @ [(''new_value'', nv), (''new_value_omitted'', GBool nomit)] @ (if oldOK then old_fields else []))))
             else Some (entity @ ''.property_remove'', event_fields (payload @ old_fields)))"

definition appendPropertyChanges :: "feedTx \<Rightarrow> string \<Rightarrow> u64 \<Rightarrow> Properties \<Rightarrow> Properties \<Rightarrow> txStreams \<Rightarrow> txStreams" where
  "appendPropertyChanges fx entity ident before after =
     appendChanges (List.map_filter (property_change (fx_changefeedMaxBytes fx) entity ident before after)
       (change_keys before after (trackedPropertyKeys entity ident fx)))"

definition appendNodeChanges :: "feedTx \<Rightarrow> NodeRecord option \<Rightarrow> NodeRecord option \<Rightarrow> txStreams \<Rightarrow> txStreams" where
  "appendNodeChanges fx before after tx = (case after of
     None \<Rightarrow> tx
   | Some n \<Rightarrow>
       let tx1 = (if before = None then appendChange ''node.insert'' (event_fields [(''node_id'', GInt64 (nr_ID n))]) tx else tx);
           tx2 = appendLabelChanges (nr_ID n) before n tx1
       in appendPropertyChanges fx ''node'' (nr_ID n) (beforeProperties before) (nr_Properties n) tx2)"

definition appendEdgeChanges :: "feedTx \<Rightarrow> EdgeRecord option \<Rightarrow> EdgeRecord option \<Rightarrow> txStreams \<Rightarrow> txStreams" where
  "appendEdgeChanges fx before after tx = (case after of
     None \<Rightarrow> tx
   | Some e \<Rightarrow>
       let tx1 = (if before = None
             then appendChange ''edge.insert'' (event_fields [(''edge_id'', GInt64 (er_ID e)), (''source_id'', GInt64 (er_SourceID e)),
                    (''target_id'', GInt64 (er_TargetID e)), (''type'', GString (er_Type e))]) tx
             else tx)
       in appendPropertyChanges fx ''edge'' (er_ID e) (beforePropertiesEdge before) (er_Properties e) tx1)"

definition edge_delete :: "u64 \<Rightarrow> EdgeRecord \<Rightarrow> change" where
  "edge_delete ident edge = (''edge.delete'', event_fields [(''edge_id'', GInt64 ident), (''source_id'', GInt64 (er_SourceID edge)),
     (''target_id'', GInt64 (er_TargetID edge)), (''type'', GString (er_Type edge))])"

text \<open>The identifiers checked before anything is published, in the order of the loops.\<close>

definition endpoints :: "EdgeRecord option \<Rightarrow> u64 list" where
  "endpoints edge = (case edge of None \<Rightarrow> [] | Some e \<Rightarrow> [er_SourceID e, er_TargetID e])"

definition first_error :: "gerr option list \<Rightarrow> gerr option" where
  "first_error es = (case filter (\<lambda>e. e \<noteq> None) es of [] \<Rightarrow> None | e # _ \<Rightarrow> e)"

definition check_ids :: "feedTx \<Rightarrow> gerr option" where
  "check_ids fx = (let ch = fx_changes fx in
     first_error (map ValidateEntityID (ch_upsertNodes ch @ ch_deleteNodes ch @
       concat (map (\<lambda>ident. ident # endpoints (fg_Edges (fx_graph fx) ident)) (ch_upsertEdges ch)) @ ch_deleteEdges ch)))"

fun append_deleted_edges :: "feedTx \<Rightarrow> u64 list \<Rightarrow> txStreams \<Rightarrow> gerr + txStreams" where
  "append_deleted_edges fx [] tx = Inr tx"
| "append_deleted_edges fx (ident # ids) tx = (case fg_Edges (fx_base fx) ident of
     None \<Rightarrow> append_deleted_edges fx ids tx
   | Some edge \<Rightarrow> rbind (require_ok (first_error (map ValidateEntityID (endpoints (Some edge))))) (\<lambda>_.
       append_deleted_edges fx ids (appendChange (fst (edge_delete ident edge)) (snd (edge_delete ident edge)) tx)))"

text \<open>\<^verbatim>\<open>TrimToBytesContext\<close> on a resident store under \<^verbatim>\<open>context.Background()\<close>, and the operation that records it.\<close>

definition trim_feed :: "feedTx \<Rightarrow> txStreams \<Rightarrow> gerr + txStreams" where
  "trim_feed fx tx = rbind (TrimToBytes changeStreamName (fx_changefeedMaxBytes fx) (ts_store tx)) (\<lambda>((through, trimmed), st).
     Inr (if trimmed
          then recordStreamOperation \<lparr>act_Type = ''trim'', act_Stream = changeStreamName, act_Consumer = [], act_Sequence = through,
                 act_Kind = [], act_Payload = GNil\<rparr> (tx\<lparr>ts_store := st\<rparr>)
          else tx\<lparr>ts_store := st\<rparr>))"

definition appendChangefeed :: "feedTx \<Rightarrow> gerr + feedTx" where
  "appendChangefeed fx =
     (let ch = fx_changes fx in
      if \<not> hasIDs (ch_upsertNodes ch) \<and> \<not> hasIDs (ch_deleteNodes ch) \<and> \<not> hasIDs (ch_upsertEdges ch) \<and> \<not> hasIDs (ch_deleteEdges ch) then Inr fx
      else rbind (require_ok (check_ids fx)) (\<lambda>_.
        rbind (require_ok (preflightChangefeedSequence (NextSequence (ts_store (fx_streams fx)) changeStreamName) (countChangefeedEvents fx))) (\<lambda>_.
        rbind (append_deleted_edges fx (mapKeys (ch_deleteEdges ch)) (fx_streams fx)) (\<lambda>tx1.
          let tx2 = fold (\<lambda>ident. appendChange ''node.delete'' (event_fields [(''node_id'', GInt64 ident)])) (mapKeys (ch_deleteNodes ch)) tx1;
              tx3 = fold (\<lambda>ident. appendNodeChanges fx (fg_Nodes (fx_base fx) ident) (fg_Nodes (fx_graph fx) ident)) (mapKeys (ch_upsertNodes ch)) tx2;
              tx4 = fold (\<lambda>ident. appendEdgeChanges fx (fg_Edges (fx_base fx) ident) (fg_Edges (fx_graph fx) ident)) (mapKeys (ch_upsertEdges ch)) tx3
          in rbind (trim_feed fx tx4) (\<lambda>tx5. Inr (fx\<lparr>fx_streams := tx5\<rparr>))))))"

end
