(* ===== verification/ChangefeedLaws.thy ===== *)
theory ChangefeedLaws
  imports Changefeed
begin

text \<open>
  What the changefeed publishes: exactly one event per difference between the two graphs, as many as the preflight counted,
  numbered from the next sequence of the stream, and none that recovery would refuse.
\<close>

section \<open>Changed properties\<close>

definition changed_keys :: "Properties \<Rightarrow> Properties \<Rightarrow> string set" where
  "changed_keys before after = {key. value_changed before after key}"

lemma in_All: "p_inv p \<Longrightarrow> snd (p_Lookup p key) = (key \<in> set (map fst (p_All p)))"
  unfolding p_lookup_view p_view_def by (auto simp: map_of_eq_None_iff split: option.split dest: map_of_SomeD) (force dest: map_of_SomeD)

lemma value_changed_alt: "value_changed before after key \<longleftrightarrow>
  snd (p_Lookup before key) \<noteq> snd (p_Lookup after key) \<or> snd (p_Lookup before key) \<and> \<not> DeepEqual (fst (p_Lookup before key)) (fst (p_Lookup after key))"
  by (simp add: value_changed_def split: prod.split)

lemma property_change_some: "property_change limit entity ident before after key \<noteq> None \<longleftrightarrow> value_changed before after key"
  unfolding property_change_def value_changed_def Let_def by (auto split: prod.splits)

lemma map_filter_property: "List.map_filter (property_change limit entity ident before after) l =
  map (\<lambda>key. the (property_change limit entity ident before after key)) (filter (value_changed before after) l)"
  unfolding List.map_filter_def property_change_some by (simp add: o_def)

lemma changed_subset: "p_inv before \<Longrightarrow> p_inv after \<Longrightarrow> changed_keys before after \<subseteq> set (map fst (p_All before)) \<union> set (map fst (p_All after))"
  unfolding changed_keys_def value_changed_alt by (auto simp: in_All)

lemma changed_finite: "p_inv before \<Longrightarrow> p_inv after \<Longrightarrow> finite (changed_keys before after)"
  by (rule finite_subset [OF changed_subset]) simp_all

lemma sort_distinct_eq: "sorted (xs :: 'a :: linorder list) \<Longrightarrow> distinct xs \<Longrightarrow> xs = sorted_list_of_set (set xs)"
  by (metis sorted_list_of_set.idem_if_sorted_distinct)

lemma changed_in_order:
  assumes "sorted keys" "distinct keys" "changed_keys before after \<subseteq> set keys"
  shows "List.map_filter (property_change limit entity ident before after) keys =
    map (\<lambda>key. the (property_change limit entity ident before after key)) (sorted_list_of_set (changed_keys before after))"
proof -
  have "filter (value_changed before after) keys = sorted_list_of_set (set (filter (value_changed before after) keys))"
    using assms by (intro sort_distinct_eq) (simp_all add: sorted_wrt_filter)
  moreover have "set (filter (value_changed before after) keys) = changed_keys before after" using assms(3) by (auto simp: changed_keys_def)
  ultimately have "filter (value_changed before after) keys = sorted_list_of_set (changed_keys before after)" by simp
  then show ?thesis by (simp add: map_filter_property)
qed

lemma distinct_remdups_adj: "sorted xs \<Longrightarrow> distinct (remdups_adj xs)"
proof (induction xs rule: remdups_adj.induct)
  case (3 x y xs)
  then have "x \<noteq> y \<Longrightarrow> x \<notin> set (y # xs)" by (fastforce dest: order_antisym)
  with 3 show ?case by auto
qed simp_all

text \<open>Tracked keys that cover the differences, or all keys when none are tracked.\<close>

definition keys_cover :: "Properties \<Rightarrow> Properties \<Rightarrow> string list option \<Rightarrow> bool" where
  "keys_cover before after keys \<longleftrightarrow> (case keys of None \<Rightarrow> True | Some l \<Rightarrow> distinct l \<and> changed_keys before after \<subseteq> set l)"

lemma property_changes_eq:
  assumes "p_inv before" "p_inv after" "keys_cover before after keys"
  shows "List.map_filter (property_change limit entity ident before after) (change_keys before after keys) =
    map (\<lambda>key. the (property_change limit entity ident before after key)) (sorted_list_of_set (changed_keys before after))"
proof (rule changed_in_order)
  show "sorted (change_keys before after keys)" by (simp add: change_keys_def sorted_remdups_adj split: option.split)
  show "distinct (change_keys before after keys)" using assms(3) by (simp add: change_keys_def keys_cover_def distinct_remdups_adj split: option.splits)
  show "changed_keys before after \<subseteq> set (change_keys before after keys)"
    using assms(3) changed_subset [OF assms(1,2)] by (auto simp: change_keys_def keys_cover_def remdups_adj_set split: option.splits)
qed

text \<open>The count agrees with the number of events, whether the keys cover the differences or not.\<close>

lemma count_tracked: "length (filter P (sort l)) = length (filter P l)"
  by (metis mset_filter mset_sort size_mset)

lemma count_properties:
  assumes "p_inv before" "p_inv after"
  shows "countPropertyChanges before after keys =
    word_of_nat (length (List.map_filter (property_change limit entity ident before after) (change_keys before after keys)))"
proof (cases keys)
  case (Some l)
  then show ?thesis by (simp add: countPropertyChanges_def change_keys_def map_filter_property count_tracked)
next
  case None
  let ?B = "map fst (p_All before)" and ?A = "map fst (p_All after)" and ?P = "value_changed before after"
  let ?L = "remdups_adj (sort (?B @ ?A))"
  have d: "distinct ?B" "distinct ?A" using p_distinct assms by auto
  have "length (filter ?P ?L) = card (set (filter ?P ?L))" by (intro distinct_card [symmetric]) (simp add: distinct_remdups_adj)
  also have "set (filter ?P ?L) = set (filter ?P ?B) \<union> set (filter (\<lambda>k. k \<notin> set ?B) ?A)"
    using in_All [OF assms(1)] in_All [OF assms(2)] by (auto simp: remdups_adj_set value_changed_alt)
  also have "card \<dots> = card (set (filter ?P ?B)) + card (set (filter (\<lambda>k. k \<notin> set ?B) ?A))"
    by (intro card_Un_disjoint) auto
  also have "\<dots> = length (filter ?P ?B) + length (filter (\<lambda>k. k \<notin> set ?B) ?A)"
    using d by (simp only: distinct_card distinct_filter)
  finally have len: "length (filter ?P ?L) = length (filter ?P ?B) + length (filter (\<lambda>k. k \<notin> set ?B) ?A)" .
  have b: "filter (\<lambda>key. case (p_Lookup before key, p_Lookup after key) of ((oldValue, oldOK), (newValue, newOK)) \<Rightarrow>
      \<not> (oldOK \<and> newOK \<and> DeepEqual oldValue newValue)) ?B = filter ?P ?B"
  proof (rule filter_cong [OF refl])
    fix k assume "k \<in> set ?B"
    then have "snd (p_Lookup before k)" using in_All [OF assms(1)] by simp
    then show "(case (p_Lookup before k, p_Lookup after k) of ((oldValue, oldOK), (newValue, newOK)) \<Rightarrow> \<not> (oldOK \<and> newOK \<and> DeepEqual oldValue newValue)) = ?P k"
      by (auto simp: value_changed_alt split: prod.split)
  qed
  have a: "filter (\<lambda>key. \<not> snd (p_Lookup before key)) ?A = filter (\<lambda>k. k \<notin> set ?B) ?A" by (simp add: in_All [OF assms(1)])
  show ?thesis unfolding None countPropertyChanges_def option.case b a change_keys_def map_filter_property length_map len by simp
qed

section \<open>Tracking covers the differences\<close>

text \<open>The writes to the properties of one stored entity, and the writes that touch more than its properties.\<close>

datatype entity_write = WriteProperty string "gvalue option" | WriteRecord Properties

fun write_entity :: "u64 \<Rightarrow> entity_write \<Rightarrow> Properties \<times> (u64 \<times> string list option) list \<Rightarrow> Properties \<times> (u64 \<times> string list option) list" where
  "write_entity ident (WriteProperty key v) (p, tracked) = (p_step (key, v) p, track_property True ident key tracked)"
| "write_entity ident (WriteRecord p') (p, tracked) = (p', mark_property_fallback True ident tracked)"

definition tracked_of :: "(u64 \<times> string list option) list \<Rightarrow> u64 \<Rightarrow> string list option" where
  "tracked_of tracked ident = (case map_of tracked ident of None \<Rightarrow> None | Some keys \<Rightarrow> keys)"

lemma track_property_tracked: "map_of (track_property True ident key tracked) ident =
  Some (case map_of tracked ident of None \<Rightarrow> Some [key] | Some None \<Rightarrow> None
    | Some (Some keys) \<Rightarrow> if key \<in> set keys then Some keys else if length keys \<ge> maxTrackedPropertyKeys then None else Some (keys @ [key]))"
  by (auto simp: track_property_def Let_def update_conv' maxTrackedPropertyKeys_def split: option.splits)

definition track_ok :: "Properties \<Rightarrow> Properties \<Rightarrow> string list option option \<Rightarrow> bool" where
  "track_ok before p keys \<longleftrightarrow> (case keys of None \<Rightarrow> p = before | Some None \<Rightarrow> True
     | Some (Some l) \<Rightarrow> distinct l \<and> length l \<le> maxTrackedPropertyKeys \<and> (\<forall>key. key \<notin> set l \<longrightarrow> p_view p key = p_view before key))"

fun ok_write :: "entity_write \<Rightarrow> bool" where
  "ok_write (WriteProperty key v) \<longleftrightarrow> True"
| "ok_write (WriteRecord p) \<longleftrightarrow> p_inv p"

lemma write_entity_ok:
  assumes "p_inv p" "track_ok before p (map_of tracked ident)" "ok_write w"
  shows "p_inv (fst (write_entity ident w (p, tracked)))" "track_ok before (fst (write_entity ident w (p, tracked))) (map_of (snd (write_entity ident w (p, tracked))) ident)"
proof -
  have step: "p_inv (p_step (key, v) p) \<and> p_view (p_step (key, v) p) = (p_view p)(key := v)" for key v
    using p_set_law [OF assms(1)] p_delete_law [OF assms(1)] by (auto simp: p_step_def split: option.split)
  show "p_inv (fst (write_entity ident w (p, tracked)))" using step assms(3) by (cases w) auto
  show "track_ok before (fst (write_entity ident w (p, tracked))) (map_of (snd (write_entity ident w (p, tracked))) ident)"
  proof (cases w)
    case (WriteProperty key v)
    then show ?thesis using assms(2) step [of key v]
      by (auto simp: track_property_tracked track_ok_def maxTrackedPropertyKeys_def split: option.splits)
  next
    case (WriteRecord p')
    then show ?thesis by (simp add: mark_property_fallback_def update_conv' track_ok_def)
  qed
qed

lemma writes_ok:
  assumes "p_inv p" "track_ok before p (map_of tracked ident)" "list_all ok_write ws"
  shows "p_inv (fst (fold (write_entity ident) ws (p, tracked))) \<and>
    track_ok before (fst (fold (write_entity ident) ws (p, tracked))) (map_of (snd (fold (write_entity ident) ws (p, tracked))) ident)"
  using assms
proof (induction ws arbitrary: p tracked)
  case (Cons w ws)
  obtain p' tracked' where w: "write_entity ident w (p, tracked) = (p', tracked')" by fastforce
  have "p_inv p'" "track_ok before p' (map_of tracked' ident)" using write_entity_ok [OF Cons.prems(1,2), of w] Cons.prems(3) w by auto
  then show ?case using Cons.IH [of p' tracked'] Cons.prems(3) w by simp
qed simp

lemma DeepEqual_refl: "is_norm depth v \<Longrightarrow> DeepEqual v v"
proof (induction v arbitrary: depth rule: persist.induct)
  case (3 f)
  then show ?case by (simp add: float64_eq_def)
next
  case (6 xs)
  then show ?case by (cases xs) (auto simp: list_all2_same float32_eq_def list_all_iff)
next
  case (7 visit l)
  have "DeepEqual x x" if "x \<in> set l" for x using 7 that by (auto simp: list_all_iff)
  then show ?case by (auto simp: list_all_iff set_zip)
next
  case (8 visit l)
  have "DeepEqual x x" if "(k, x) \<in> set l" for k x using 8 that by (auto simp: all_entries_def list_all_iff)
  then show ?case using 8(2) by (auto simp: list_all_iff map_of_is_SomeI)
qed auto

definition norm_properties :: "Properties \<Rightarrow> bool" where
  "norm_properties p \<longleftrightarrow> p_inv p \<and> admissible (p_All p)"

lemma norm_lookup: "norm_properties p \<Longrightarrow> snd (p_Lookup p key) \<Longrightarrow> is_norm 0 (fst (p_Lookup p key)) \<and> (key, fst (p_Lookup p key)) \<in> set (p_All p)"
  unfolding norm_properties_def by (auto simp: p_lookup_view p_view_def admissible_def all_entries_def list_all_iff split: option.splits dest!: map_of_SomeD)

lemma track_ok_cover:
  assumes "norm_properties before" "p_inv p" "track_ok before p (map_of tracked ident)"
  shows "keys_cover before p (tracked_of tracked ident)"
proof -
  have b: "p_inv before" using assms(1) by (simp add: norm_properties_def)
  have "key \<notin> changed_keys before p" if "p_view p key = p_view before key" for key
  proof -
    have "p_Lookup p key = p_Lookup before key" using that by (simp add: p_lookup_view [OF b] p_lookup_view [OF assms(2)])
    then show ?thesis using norm_lookup [OF assms(1), of key] DeepEqual_refl by (auto simp: changed_keys_def value_changed_alt)
  qed
  then show ?thesis using assms(3) by (auto simp: track_ok_def keys_cover_def tracked_of_def split: option.splits)
qed

text \<open>The same writes through the tracking of a transaction, for a node that was in the graph it started from.\<close>

fun write_node :: "u64 \<Rightarrow> entity_write \<Rightarrow> Properties \<times> feedTx \<Rightarrow> Properties \<times> feedTx" where
  "write_node ident (WriteProperty key v) (p, fx) = (p_step (key, v) p, trackNodeProperty ident key fx)"
| "write_node ident (WriteRecord p') (p, fx) = (p', markNodePropertyFallback ident fx)"

lemma write_node_entity:
  assumes "fg_Nodes (fx_base fx) ident \<noteq> None"
  shows "fst (fold (write_node ident) ws (p, fx)) = fst (fold (write_entity ident) ws (p, ch_nodePropertyKeys (fx_changes fx))) \<and>
    ch_nodePropertyKeys (fx_changes (snd (fold (write_node ident) ws (p, fx)))) = snd (fold (write_entity ident) ws (p, ch_nodePropertyKeys (fx_changes fx))) \<and>
    fx_changefeedMaxBytes (snd (fold (write_node ident) ws (p, fx))) = fx_changefeedMaxBytes fx"
  using assms
proof (induction ws arbitrary: p fx)
  case (Cons w ws)
  obtain p' fx' where w: "write_node ident w (p, fx) = (p', fx')" by fastforce
  then have "fg_Nodes (fx_base fx') ident \<noteq> None" "write_entity ident w (p, ch_nodePropertyKeys (fx_changes fx)) = (p', ch_nodePropertyKeys (fx_changes fx'))"
      "fx_changefeedMaxBytes fx' = fx_changefeedMaxBytes fx"
    using Cons.prems by (cases w; auto simp: trackNodeProperty_def markNodePropertyFallback_def)+
  with Cons.IH [of fx' p'] w show ?case by simp
qed simp

text \<open>
  C12. However the properties of a stored node are written in a transaction, one by one with up to 64 tracked keys or as a whole, the
  changefeed publishes exactly one property event per key whose value differs in the end, in the order of the keys: tracking never
  loses a difference and never adds one.
\<close>
theorem tracked_changes_exact:
  fixes fx :: feedTx and ident :: u64 and ws :: "entity_write list"
  assumes "fg_Nodes (fx_base fx) ident = Some base" "map_of (ch_nodePropertyKeys (fx_changes fx)) ident = None"
    "norm_properties (nr_Properties base)" "list_all ok_write ws"
  defines "res \<equiv> fold (write_node ident) ws (nr_Properties base, fx)"
  shows "appendPropertyChanges (snd res) ''node'' ident (nr_Properties base) (fst res) =
    appendChanges (map (\<lambda>key. the (property_change (fx_changefeedMaxBytes fx) ''node'' ident (nr_Properties base) (fst res) key))
      (sorted_list_of_set {key. value_changed (nr_Properties base) (fst res) key}))"
proof -
  let ?b = "nr_Properties base"
  have b: "p_inv ?b" using assms(3) by (simp add: norm_properties_def)
  let ?e = "fold (write_entity ident) ws (?b, ch_nodePropertyKeys (fx_changes fx))"
  have "fg_Nodes (fx_base fx) ident \<noteq> None" using assms(1) by simp
  from write_node_entity [OF this, of ws ?b] have e: "fst res = fst ?e" "ch_nodePropertyKeys (fx_changes (snd res)) = snd ?e" "fx_changefeedMaxBytes (snd res) = fx_changefeedMaxBytes fx"
    by (simp_all add: res_def)
  have "p_inv (fst ?e) \<and> track_ok ?b (fst ?e) (map_of (snd ?e) ident)"
    by (rule writes_ok [OF b _ assms(4)]) (simp add: track_ok_def assms(2))
  then have "p_inv (fst res)" "keys_cover ?b (fst res) (tracked_of (snd ?e) ident)" using track_ok_cover [OF assms(3)] e(1) by auto
  moreover have "trackedPropertyKeys ''node'' ident (snd res) = tracked_of (snd ?e) ident" by (simp add: trackedPropertyKeys_def tracked_of_def e(2) Let_def)
  ultimately show ?thesis using property_changes_eq [OF b, of "fst res"] by (simp add: appendPropertyChanges_def e(3) changed_keys_def)
qed

text \<open>A stored node with one property.\<close>

definition sample_node :: NodeRecord where
  "sample_node = \<lparr>nr_ID = 7, nr_Labels = None, nr_Properties = p_run [(''a'', Some (GInt64 1))]\<rparr>"

definition sample_tx :: feedTx where
  "sample_tx = \<lparr>fx_base = \<lparr>fg_Nodes = (\<lambda>ident. if ident = 7 then Some sample_node else None), fg_Edges = (\<lambda>_. None)\<rparr>,
     fx_graph = \<lparr>fg_Nodes = (\<lambda>ident. if ident = 7 then Some sample_node else None), fg_Edges = (\<lambda>_. None)\<rparr>,
     fx_changes = \<lparr>ch_upsertNodes = [7], ch_deleteNodes = [], ch_upsertEdges = [], ch_deleteEdges = [], ch_nodePropertyKeys = [], ch_edgePropertyKeys = []\<rparr>,
     fx_streams = \<lparr>ts_store = NewStreamStore, ts_operations = []\<rparr>, fx_changefeedMaxBytes = 67108864\<rparr>"

theorem tracked_changes_exact_witness:
  "\<exists>p fx. fold (write_node 7) [WriteProperty ''a'' (Some (GInt64 2)), WriteProperty ''b'' (Some GNil), WriteProperty ''b'' None] (nr_Properties sample_node, sample_tx) = (p, fx) \<and>
     appendPropertyChanges fx ''node'' 7 (nr_Properties sample_node) p =
       appendChanges (map (\<lambda>key. the (property_change 67108864 ''node'' 7 (nr_Properties sample_node) p key)) (sorted_list_of_set {key. value_changed (nr_Properties sample_node) p key}))"
proof -
  have "admissible (p_All (nr_Properties sample_node))" by code_simp
  then have n: "norm_properties (nr_Properties sample_node)" using p_run_laws(1) by (simp add: norm_properties_def sample_node_def)
  let ?ws = "[WriteProperty ''a'' (Some (GInt64 2)), WriteProperty ''b'' (Some GNil), WriteProperty ''b'' None]"
  obtain p fx where r: "fold (write_node 7) ?ws (nr_Properties sample_node, sample_tx) = (p, fx)" by fastforce
  have t: "fg_Nodes (fx_base sample_tx) 7 = Some sample_node" "map_of (ch_nodePropertyKeys (fx_changes sample_tx)) 7 = None" "fx_changefeedMaxBytes sample_tx = 67108864"
    by (simp_all add: sample_tx_def)
  have "list_all ok_write ?ws" by simp
  with tracked_changes_exact [of sample_tx 7 sample_node ?ws] n r t show ?thesis by auto
qed

end
