(* ===== verification/ChangefeedRuns.thy ===== *)
theory ChangefeedRuns
  imports ChangefeedLaws StreamSnapshots
begin

text \<open>
  Publishing the changefeed: the events of a transaction as one list, its length against the preflight, the sequences the events
  get, and their recovery from the log.
\<close>

section \<open>The events of a transaction\<close>














section \<open>The count\<close>







section \<open>Recovery accepts every event\<close>



text \<open>A map of values that are each normal is encoded and decoded entry by entry, at any depth.\<close>

lemma entries_roundtrip:
  assumes "all_entries (\<lambda>_. True) (is_norm 0) l"
  shows "encodeValue (event_fields l) = Inr (PMap (Some (map_values persist l)))" "decodeValue (PMap (Some (map_values persist l))) = Inr (event_fields l)"
proof -
  have n: "is_norm 0 x" if "(k, x) \<in> set l" for k x using assms that by (auto simp: all_entries_def list_all_iff)
  have "entry_map (encode_with dflt) l = Inr (map_values persist l)" for dflt using n encode_norm by (intro entry_map_all) blast
  then show "encodeValue (event_fields l) = Inr (PMap (Some (map_values persist l)))" unfolding event_fields_def encodeValue_def codec_value_maps by simp
  have "entry_map (\<lambda>x. decodeValue (persist x)) l = Inr (map_values (\<lambda>x. x) l)" using n decode_persist by (intro entry_map_all) blast
  then show "decodeValue (PMap (Some (map_values persist l))) = Inr (event_fields l)" unfolding codec_value_maps entry_map_values by (simp add: event_fields_def map_values_id)
qed












lemma field_names:
  "utf8_string ''key''" "utf8_string ''node_id''" "utf8_string ''edge_id''" "utf8_string ''new_value''" "utf8_string ''new_value_omitted''"
  "utf8_string ''old_value''" "utf8_string ''old_value_omitted''" "utf8_string ''label''" "utf8_string ''source_id''" "utf8_string ''target_id''" "utf8_string ''type''"
  by code_simp+









section \<open>Publishing and replaying the feed\<close>









section \<open>Properties\<close>




text \<open>The bound on labels is needed: labels are accepted at any length, and the event of a label close to the limit on values cannot be read back.\<close>

lemma long_label_event_refused:
  assumes "utf8_string label" "maxValueBytes < int (length label) + 12"
  shows "ValidateCreateLabels (Some [label]) = None \<and>
    (\<exists>p er. encodeValue (event_fields [(''node_id'', GInt64 ident), (''label'', GString label)]) = Inr p \<and> decodeStreamValue changeStreamName p = Inl er)"
proof -
  let ?l = "[(''node_id'', GInt64 ident), (''label'', GString label)]"
  have ne: "label \<noteq> []" using assms(2) by (auto simp: maxValueBytes_def)
  have enc: "encodeValue (event_fields ?l) = Inr (PMap (Some [(''node_id'', PInt ident), (''label'', PString label)]))"
    using entries_roundtrip(1) [of ?l] assms(1) by (simp add: all_entries_def maxValueDepth_def map_values_def)
  have "\<exists>er. fst (run_state (validateStreamValue (PMap (Some [(''node_id'', PInt ident), (''label'', PString label)])) 0) newValueWalk) = Inl er"
    using assms(2) field_names by (simp add: walk_eval validateStreamValue.simps run_wbind)
  then have "\<exists>er. decodeStreamValue changeStreamName (PMap (Some [(''node_id'', PInt ident), (''label'', PString label)])) = Inl er"
    by (auto simp: decodeStreamValue_def changeStreamName_def rbind_def validateChangefeedEnvelope_def opt_items_def Let_def)
  then show ?thesis using enc ne assms(1) by (auto simp: ValidateCreateLabels_def)
qed

end
