(* ===== verification/Spec2Isabelle.thy ===== *)
theory Spec2Isabelle
  imports CodecSafety Properties StringPostings AdjacencyCompaction TokenLaws PageKeys RecordCache PropertyIndex PageStoreRuns PageGraphReaders StreamSnapshots
 ChangefeedRuns
begin

text \<open>
  \<^bold>\<open>A verification library for latticedb-go, an embedded graph database written in Go.\<close>

  \<^bold>\<open>The program.\<close> An application opens a database file through the root package (\<^verbatim>\<open>db.go\<close>), runs transactions and
  Cypher-style queries (\<^verbatim>\<open>internal/engine\<close>), and the engine keeps the graph in \<^verbatim>\<open>internal/store\<close>: nodes and edges with
  properties, label and type postings, adjacency lists, property and full-text indexes, application metadata and
  durable streams. In memory these are paged and sharded maps; on disk they are records in buckets of a page store
  (\<^verbatim>\<open>internal/pagestore\<close>, over bbolt), log payloads and snapshots, all written by one binary codec. Search ranks texts
  with \<^verbatim>\<open>internal/search\<close>.

  \<^bold>\<open>The theories, bottom up.\<close>
  \<^item> \<open>Prelude\<close>: Go's machine types, the rule collections, shared facts on words, lists and association lists, the
    set-bit loop. \<open>KeyTable\<close>: the contract of a key table as a locale (lookup after write, length, iteration), with
    the refinement lemma for sequences of operations proved once. \<open>GoBytes\<close>: varints, big-endian words, \<^verbatim>\<open>utf8.Valid\<close>
    and the errors of the store. \<open>Runes\<close>: strings as runes, with the Unicode tables as a parameter. \<open>Polling\<close>:
    \<^verbatim>\<open>context.Context\<close> as an oracle consulted at each poll.
  \<^item> \<open>PagedMap\<close> (\<^verbatim>\<open>internal/store/paged_map.go\<close>) and \<open>ShardMap\<close> (\<^verbatim>\<open>internal/store/store.go\<close>): the two identifier tables, with
    their bitmaps of live slots and active shards; both interpret \<open>key_table\<close>. \<open>HashBuckets\<close> states once what
    \<open>AppMetadata\<close> (\<^verbatim>\<open>app_metadata.go\<close>) and \<open>StringPostings\<close> (\<^verbatim>\<open>store.go\<close>) share: string keys in Go maps under a hash, correct
    for any hash. \<open>Adjacency\<close> and \<open>AdjacencyCompaction\<close> (\<^verbatim>\<open>adjacency.go\<close>, \<^verbatim>\<open>adjacency_compaction.go\<close>): chunked edge lists
    with tombstones, and their rebuild in bounded steps while writes continue.
  \<^item> \<open>BinaryCodec\<close>, \<open>BinaryRecords\<close> (\<^verbatim>\<open>binary_payload.go\<close>, \<^verbatim>\<open>binary_records.go\<close>, \<^verbatim>\<open>binary_streams.go\<close>, \<^verbatim>\<open>binary_delta.go\<close>,
    \<^verbatim>\<open>binary_state.go\<close>): encoder and decoder methods as state transformers with a sticky error, an allocation budget and
    either input mode. \<open>CodecLaws\<close> states the contract of a method pair as locales and composes contracts;
    \<open>CodecSafety\<close> is about input no encoder wrote. \<open>PageRecords\<close> (\<^verbatim>\<open>page_records.go\<close>): the framing with CRC-32.
  \<^item> \<open>Values\<close>, \<open>ValueLaws\<close>, \<open>Properties\<close> (\<^verbatim>\<open>store.go\<close>, \<^verbatim>\<open>string_intern.go\<close>, \<^verbatim>\<open>entity_id.go\<close>, \<^verbatim>\<open>properties.go\<close>): normalisation of
    user values under the depth, size and node limits, their persisted form, and sorted property lists.
  \<^item> \<open>Estimates\<close>, \<open>Streams\<close> (\<^verbatim>\<open>stream.go\<close>, \<^verbatim>\<open>stream_value.go\<close>, the resident part of \<^verbatim>\<open>page_stream.go\<close>, \<^verbatim>\<open>internal/engine/stream.go\<close>): durable
    streams as linked chunks with skip pointers and saturating byte accounts. \<open>StreamChunks\<close> and \<open>StreamLogs\<close> are about the
    chunk list of one stream, \<open>StreamLaws\<close> about the operations of a store, \<open>StreamRuns\<close> states the contract of a store as a
    locale and interprets it, \<open>StreamReads\<close>, \<open>StreamReplay\<close> and \<open>StreamSnapshots\<close> are about reading, the log and snapshots.
  \<^item> \<open>Changefeed\<close>, \<open>ChangefeedLaws\<close>, \<open>ChangefeedRuns\<close> (\<^verbatim>\<open>internal/engine/stream.go\<close>, the tracking of \<^verbatim>\<open>internal/engine/db.go\<close>): which
    entities and property keys a transaction changed, and the events its commit publishes to the change stream.
  \<^item> \<open>IdSet\<close>, \<open>PropertyPosting\<close>, \<open>Sha256\<close>, \<open>PropertyValueKey\<close>, \<open>PropertyIndex\<close> (\<^verbatim>\<open>property_index.go\<close>): postings that move between a small
    list, a radix set and chunks, value keys that hash long values, and the in-memory indexes over them.
  \<^item> \<open>RecordCache\<close>, \<open>PageStore\<close> (\<^verbatim>\<open>internal/pagestore\<close>): transactions over bbolt with their shared record cache, scans, and the
    admission of commits while snapshots are open. \<open>PageStoreLaws\<close> states what is relied on of bbolt, with a store in memory
    that satisfies it; \<open>PageStoreRuns\<close> is the step relation of any number of transaction handles on one database.
  \<^item> \<open>PageKeys\<close>, \<open>PagePropertyIndex\<close>, \<open>PageGraph\<close> (\<^verbatim>\<open>page_graph.go\<close>, \<^verbatim>\<open>page_property_index.go\<close>): the graph as rows of buckets, its
    writers, readers and property indexes. \<open>PageCalculus\<close> has the rules for operations that return, \<open>PageGraphLaws\<close> and
    \<open>PageIndexLaws\<close> what every writer keeps of the rows, \<open>PageGraphIntegrity\<close> and \<open>PageGraphReaders\<close> the statements about sequences
    of writes and about reads.
  \<^item> \<open>Levenshtein\<close>, \<open>Tokens\<close>, \<open>TokenLaws\<close>, \<open>Porter\<close> (\<^verbatim>\<open>internal/search\<close>): tokenizers under a byte limit and
    cancellation, fuzzy matching, scores, the Porter stemmer.

  \<^bold>\<open>How the model corresponds to the code.\<close> A struct is a record, a tagged value a datatype, \<^verbatim>\<open>uint64\<close> a 64-bit word with
  its wrap-around, \<^verbatim>\<open>int\<close> an integer where the code keeps it far from its bounds. A nil-able slice, map or pointer is an
  option where the code can tell nil from empty. An error is \<open>Inl\<close> of \<open>gerr\<close> with the sentinel as constructor; a
  run-time panic is an explicit value of the operations that could panic, and theorems show it is not reached. A Go
  map is an association list with distinct keys or a partial function; where the code iterates over a map, the order
  is a parameter and the theorems hold for every order. Methods with a pointer receiver return the changed record;
  \<^verbatim>\<open>Fork\<close>, \<^verbatim>\<open>CloneShardOnce\<close> and the ownership bits exist in Go to share memory between versions, and are the identity on
  values here.

  \<^bold>\<open>What the theorems show.\<close> Every table refines the finite map that its operations describe, with the length exact and
  iteration complete (ordered iteration ascending). Every persisted payload, value and page record that is written is
  read back, under the same limit; a decoder on arbitrary bytes never panics or exceeds its budget, and what it
  accepts can be written again; a damaged page record is rejected. Normalisation accepts exactly the values within the
  limits and accepted values survive storage. Compaction completes within a bound on its steps, whatever is
  written meanwhile. Tokenization, edit distance, stems and scores equal their textbook definitions.
  A stream store implements, call by call, the map from names to numbered records it stands for, with both byte accounts
  exact; a bounded read returns what a filter over those records gives; replaying the logged operations, or reading a snapshot
  back, rebuilds the store.
  The changefeed publishes exactly the differences a transaction made, whether keys were tracked or not, and no event of it is
  refused by recovery as long as labels, types and keys stay well below the limit on values.
  In the page store a snapshot reads the state it was opened on in every interleaving, the counts of open transactions are exact,
  a scan visits exactly its rows and ends, and an admitted commit fits the mapping. Every sequence of writes of the page graph
  returns and leaves exactly the rows of the node and edge maps it describes; readers and index lookups return what those maps say.

  \<^bold>\<open>Bounds and fuel.\<close> No fuel is used. Loops that are not structural (set bits, varints, rune decoding, chunk walks) have
  measures. Scans and the merge of an index lookup call back into code that may write, so they are partial functions whose
  value is \<open>None\<close> when they do not return; the theorems about them say that they do. Lengths of slices and strings are taken
  below \<open>2\<^sup>4\<^sup>8\<close> where the code converts them to machine words: no Go slice is longer, and values within the limits of the
  store are far shorter. bbolt keys have at most 32768 bytes, which bounds every scan.

  \<^bold>\<open>Parameters.\<close> Code outside the repository is a parameter with named hypotheses: the writer behind an encoder, the
  Unicode tables, the context, bbolt (\<open>bolt_reads\<close>, \<open>bolt_writes\<close>, \<open>bolt_history\<close>, shown satisfiable by \<open>mem_bolt\<close>). Map iteration orders are parameters without hypotheses.

  \<^bold>\<open>Not modelled.\<close> The query language (\<^verbatim>\<open>internal/engine/query*.go\<close>) and, but for change tracking and the changefeed, the transaction layer
  (\<^verbatim>\<open>internal/engine/db.go\<close>, \<^verbatim>\<open>page_db.go\<close>): an interpreter over untyped values and the goroutines, locks and budgets around it, larger than the rest of
  the program together; the tables, codecs and stores they call are what this library is about. Property deltas
  only in their persisted records; streams that live in the page store and the wait of a reader for the next record. File system effects (log replay from files, migration, backup archives, exports, path
  locks), the embedding HTTP client, floating-point distances with their SIMD variants and the vector graph built on them:
  their behaviour is that of the operating system, the network or IEEE arithmetic.
\<close>

end
